(* ===== verification/OI_Prelude.thy ===== *)
theory OI_Prelude
  imports Main "HOL-Library.Word" "HOL-Library.Sublist"
begin

text \<open>
  Shared material of the development: the outcome type every fallible operation returns,
  loops over vectors, total-correctness specifications of outcomes, recursion with virtual
  dispatch cut off at a depth (with the locale that turns a ranking argument into
  termination), and the string helpers of the C++ standard library the code uses.
\<close>

section \<open>Machine integers and strings\<close>

type_synonym u64 = "64 word"
type_synonym u8 = "8 word"

section \<open>Outcomes\<close>

text \<open>
  What a C++ call can do besides returning: throw an exception (with its message), call
  \<^verbatim>\<open>abort()\<close>, fail an \<^verbatim>\<open>assert\<close>, follow a reference to no object or otherwise leave the defined
  behaviour of the language, or not return. \<open>Inl\<close> carries these, \<open>Inr\<close> a returned value.
\<close>

datatype error =
    Diverge
  | Throw string
  | Aborted
  | AssertFailed
  | Undefined string

type_synonym 'a outcome = "error + 'a"

definition bindE :: "'a outcome \<Rightarrow> ('a \<Rightarrow> 'b outcome) \<Rightarrow> 'b outcome" where
  "bindE m f = (case m of Inl e \<Rightarrow> Inl e | Inr x \<Rightarrow> f x)"

lemma bindE_simps [simp]:
  "bindE (Inl e) f = Inl e"
  "bindE (Inr x) f = f x"
  by (simp_all add: bindE_def)

lemma bindE_Inr_iff: "bindE m f = Inr y \<longleftrightarrow> (\<exists>x. m = Inr x \<and> f x = Inr y)"
  by (cases m) auto

lemma bindE_Inl_iff: "bindE m f = Inl e \<longleftrightarrow> m = Inl e \<or> (\<exists>x. m = Inr x \<and> f x = Inl e)"
  by (cases m) auto

lemma bindE_assoc: "bindE (bindE m f) g = bindE m (\<lambda>x. bindE (f x) g)"
  by (cases m) auto

lemma bindE_Inr_right [simp]: "bindE m Inr = m"
  by (cases m) auto

lemma bindE_cong [fundef_cong]:
  "m = m' \<Longrightarrow> (\<And>x. m' = Inr x \<Longrightarrow> f x = f' x) \<Longrightarrow> bindE m f = bindE m' f'"
  by (cases m') auto

definition assertE :: "bool \<Rightarrow> unit outcome" where
  "assertE b = (if b then Inr () else Inl AssertFailed)"

lemma assertE_simps [simp]: "assertE True = Inr ()" "assertE False = Inl AssertFailed"
  by (simp_all add: assertE_def)

text \<open>A range-based \<open>for\<close> over a vector, threading the state.\<close>

fun for_each :: "('a \<Rightarrow> 's \<Rightarrow> 's outcome) \<Rightarrow> 'a list \<Rightarrow> 's \<Rightarrow> 's outcome" where
  "for_each f [] s = Inr s"
| "for_each f (x # xs) s = bindE (f x s) (for_each f xs)"

lemma for_each_append [simp]:
  "for_each f (xs @ ys) s = bindE (for_each f xs s) (for_each f ys)"
proof (induction xs arbitrary: s)
  case (Cons x xs)
  then have "for_each f (xs @ ys) = (\<lambda>s. bindE (for_each f xs s) (for_each f ys))" by blast
  then show ?case by (simp add: bindE_assoc)
qed simp

lemma for_each_map: "for_each f (map g xs) s = for_each (\<lambda>x. f (g x)) xs s"
proof (induction xs arbitrary: s)
  case (Cons x xs)
  then have "for_each f (map g xs) = for_each (\<lambda>x. f (g x)) xs" by blast
  then show ?case by simp
qed simp

lemma for_each_fun:
  "for_each f [] = Inr"
  "for_each f [x] = f x"
  "for_each f (xs @ ys) = (\<lambda>s. bindE (for_each f xs s) (for_each f ys))"
proof -
  show nil: "for_each f [] = Inr" by (simp add: fun_eq_iff)
  show "for_each f [x] = f x" by (simp add: fun_eq_iff nil)
qed (simp_all add: fun_eq_iff)

lemma for_each_map_fun: "for_each f (map g xs) = for_each (\<lambda>x. f (g x)) xs"
  by (simp add: for_each_map fun_eq_iff)

text \<open>\<^verbatim>\<open>std::erase_if\<close> and element-wise computation, with a predicate or a function that can fail.\<close>

fun filterE :: "('a \<Rightarrow> bool outcome) \<Rightarrow> 'a list \<Rightarrow> 'a list outcome" where
  "filterE p [] = Inr []"
| "filterE p (x # xs) = bindE (p x) (\<lambda>b. bindE (filterE p xs) (\<lambda>ys. Inr (if b then x # ys else ys)))"

fun mapE :: "('a \<Rightarrow> 'b outcome) \<Rightarrow> 'a list \<Rightarrow> 'b list outcome" where
  "mapE f [] = Inr []"
| "mapE f (x # xs) = bindE (f x) (\<lambda>y. bindE (mapE f xs) (\<lambda>ys. Inr (y # ys)))"

lemma filterE_pure: "(\<And>x. x \<in> set xs \<Longrightarrow> p x = Inr (q x)) \<Longrightarrow> filterE p xs = Inr (filter q xs)"
  by (induction xs) auto

lemma mapE_pure: "(\<And>x. x \<in> set xs \<Longrightarrow> f x = Inr (g x)) \<Longrightarrow> mapE f xs = Inr (map g xs)"
  by (induction xs) auto

lemma filterE_cong [fundef_cong]:
  "xs = ys \<Longrightarrow> (\<And>x. x \<in> set ys \<Longrightarrow> p x = q x) \<Longrightarrow> filterE p xs = filterE q ys"
  by (induction ys arbitrary: xs) auto

lemma mapE_cong [fundef_cong]:
  "xs = ys \<Longrightarrow> (\<And>x. x \<in> set ys \<Longrightarrow> f x = g x) \<Longrightarrow> mapE f xs = mapE g ys"
  by (induction ys arbitrary: xs) auto

section \<open>Specifications of outcomes\<close>

text \<open>
  \<open>spec E m P\<close>: the outcome \<open>m\<close> either returns a value satisfying \<open>P\<close> or is one of the
  errors of \<open>E\<close>. With \<open>Diverge\<close> outside \<open>E\<close> this is total correctness.
\<close>

definition spec :: "error set \<Rightarrow> 'a outcome \<Rightarrow> ('a \<Rightarrow> bool) \<Rightarrow> bool" where
  "spec E m P = (case m of Inl e \<Rightarrow> e \<in> E | Inr x \<Rightarrow> P x)"

named_theorems spec_intros "introduction rules for specifications of outcomes"

lemma spec_simps [simp]:
  "spec E (Inl e) P = (e \<in> E)"
  "spec E (Inr x) P = P x"
  by (simp_all add: spec_def)

lemma spec_bind: "spec E m (\<lambda>x. spec E (f x) P) \<Longrightarrow> spec E (bindE m f) P"
  by (cases m) auto

lemma spec_bindI [spec_intros]:
  "spec E m Q \<Longrightarrow> (\<And>x. Q x \<Longrightarrow> spec E (f x) P) \<Longrightarrow> spec E (bindE m f) P"
  by (cases m) auto

lemma spec_bind_prodI:
  "spec E m (\<lambda>(a, b). Q a b) \<Longrightarrow> (\<And>a b. Q a b \<Longrightarrow> spec E (f a b) P) \<Longrightarrow>
   spec E (bindE m (\<lambda>(a, b). f a b)) P"
  by (cases m) auto

lemma spec_mono: "spec E m P \<Longrightarrow> (\<And>x. P x \<Longrightarrow> Q x) \<Longrightarrow> spec E m Q"
  by (cases m) auto

lemma spec_conj: "spec E m P \<Longrightarrow> spec E m Q \<Longrightarrow> spec E m (\<lambda>x. P x \<and> Q x)"
  by (cases m) auto

lemma spec_ret: "spec E m P \<Longrightarrow> m = Inr x \<Longrightarrow> P x"
  by simp

lemma spec_empty_iff: "spec {} m P \<longleftrightarrow> (\<exists>x. m = Inr x \<and> P x)"
  by (cases m) auto

lemma spec_weaken_errors: "spec E m P \<Longrightarrow> E \<subseteq> E' \<Longrightarrow> spec E' m P"
  by (cases m) auto

lemma spec_for_each:
  assumes "J s"
    and "\<And>x s. x \<in> set xs \<Longrightarrow> J s \<Longrightarrow> spec E (f x s) J"
  shows "spec E (for_each f xs s) J"
  using assms
proof (induction xs arbitrary: s)
  case (Cons x xs)
  have "spec E (f x s) J" using Cons.prems by auto
  moreover have "spec E (for_each f xs s') J" if "J s'" for s'
    using that Cons.prems(2) by (intro Cons.IH) auto
  ultimately show ?case by (auto intro: spec_bindI)
qed simp

lemma spec_for_each_upt:
  assumes "J a s" "a \<le> b" and "\<And>k s. a \<le> k \<Longrightarrow> k < b \<Longrightarrow> J k s \<Longrightarrow> spec E (f k s) (J (Suc k))"
  shows "spec E (for_each f [a..<b] s) (J b)"
  using assms
proof (induction "b - a" arbitrary: a s)
  case (Suc n)
  then have "a < b" by simp
  then have "[a..<b] = a # [Suc a..<b]" by (rule upt_conv_Cons)
  moreover have "spec E (f a s) (J (Suc a))" using Suc.prems \<open>a < b\<close> by simp
  moreover have "spec E (for_each f [Suc a..<b] s') (J b)" if "J (Suc a) s'" for s'
    using Suc.hyps that Suc.prems(3) \<open>a < b\<close> by (intro Suc.hyps(1)) auto
  ultimately show ?case by (auto intro: spec_bindI)
qed simp

section \<open>Recursion through virtual dispatch\<close>

text \<open>
  A visitor's \<open>accept\<close> calls \<open>visit\<close>, which calls \<open>accept\<close> again. A body takes the recursive
  call as its argument, \<open>recur body n\<close> runs it with at most \<open>n\<close> nested calls, and \<open>Diverge\<close> is
  what a deeper recursion yields.
\<close>

type_synonym ('t, 's, 'r) call = "'t \<Rightarrow> 's \<Rightarrow> 'r outcome"

primrec recur :: "(('t, 's, 'r) call \<Rightarrow> ('t, 's, 'r) call) \<Rightarrow> nat \<Rightarrow> ('t, 's, 'r) call" where
  "recur body 0 = (\<lambda>t s. Inl Diverge)"
| "recur body (Suc n) = body (recur body n)"

text \<open>
  The interface of a terminating recursion. \<open>inv\<close> is kept by every call, \<open>arg\<close> holds of every
  argument, \<open>rel\<close> relates the state before a call to the one after it, \<open>rank\<close> bounds the depth, and a
  call for which \<open>noop\<close> holds does nothing.
\<close>

locale ranked_recursion =
  fixes body :: "('t, 's, 's) call \<Rightarrow> ('t, 's, 's) call"
    and inv :: "'s \<Rightarrow> bool"
    and arg :: "'t \<Rightarrow> 's \<Rightarrow> bool"
    and rel :: "'s \<Rightarrow> 's \<Rightarrow> bool"
    and post :: "'t \<Rightarrow> 's \<Rightarrow> bool"
    and noop :: "'t \<Rightarrow> 's \<Rightarrow> bool"
    and rank :: "'t \<Rightarrow> 's \<Rightarrow> nat"
    and errs :: "error set"
  assumes rel_refl: "rel s s"
    and rel_trans: "rel s s' \<Longrightarrow> rel s' s'' \<Longrightarrow> rel s s''"
    and arg_rel: "arg t s \<Longrightarrow> rel s s' \<Longrightarrow> arg t s'"
    and post_rel: "post t s \<Longrightarrow> rel s s' \<Longrightarrow> post t s'"
    and body_noop: "inv s \<Longrightarrow> arg t s \<Longrightarrow> noop t s \<Longrightarrow> body call t s = Inr s"
    and body_step:
      "inv s \<Longrightarrow> arg t s \<Longrightarrow>
       (\<And>t' s'. inv s' \<Longrightarrow> arg t' s' \<Longrightarrow> rank t' s' < rank t s \<Longrightarrow>
          spec errs (call t' s') (\<lambda>s''. inv s'' \<and> rel s' s'' \<and> post t' s'' \<and> (noop t' s' \<longrightarrow> s'' = s'))) \<Longrightarrow>
       spec errs (body call t s) (\<lambda>s'. inv s' \<and> rel s s' \<and> post t s')"
begin

lemma recur_spec:
  "inv s \<Longrightarrow> arg t s \<Longrightarrow> rank t s < n \<Longrightarrow>
   spec errs (recur body n t s) (\<lambda>s'. inv s' \<and> rel s s' \<and> post t s' \<and> (noop t s \<longrightarrow> s' = s))"
proof (induction n arbitrary: t s)
  case (Suc n)
  have "spec errs (body (recur body n) t s) (\<lambda>s'. inv s' \<and> rel s s' \<and> post t s')"
  proof (rule body_step)
    fix t' s' assume "inv s'" "arg t' s'" "rank t' s' < rank t s"
    then show "spec errs (recur body n t' s')
        (\<lambda>s''. inv s'' \<and> rel s' s'' \<and> post t' s'' \<and> (noop t' s' \<longrightarrow> s'' = s'))"
      using Suc.prems(3) by (intro Suc.IH) simp_all
  qed (use Suc.prems in auto)
  then show ?case
    using body_noop [OF Suc.prems(1,2), of "recur body n"] by (cases "noop t s") auto
qed simp

lemma recur_for_each:
  assumes "inv s" and "\<And>t. t \<in> set ts \<Longrightarrow> arg t s"
    and "\<And>t s'. t \<in> set ts \<Longrightarrow> inv s' \<Longrightarrow> rel s s' \<Longrightarrow> rank t s' < n"
  shows "spec errs (for_each (recur body n) ts s)
    (\<lambda>s'. inv s' \<and> rel s s' \<and> (\<forall>t \<in> set ts. post t s'))"
  using assms
proof (induction ts arbitrary: s)
  case Nil
  then show ?case by (simp add: rel_refl)
next
  case (Cons t ts)
  have hd: "spec errs (recur body n t s)
      (\<lambda>s'. inv s' \<and> rel s s' \<and> post t s' \<and> (noop t s \<longrightarrow> s' = s))"
    using Cons.prems rel_refl by (intro recur_spec) auto
  show ?case
    unfolding for_each.simps
  proof (rule spec_bindI [OF hd])
    fix s1 assume s1: "inv s1 \<and> rel s s1 \<and> post t s1 \<and> (noop t s \<longrightarrow> s1 = s)"
    have "spec errs (for_each (recur body n) ts s1)
        (\<lambda>s'. inv s' \<and> rel s1 s' \<and> (\<forall>t \<in> set ts. post t s'))"
      using Cons.prems s1 by (intro Cons.IH) (auto intro: arg_rel rel_trans)
    then show "spec errs (for_each (recur body n) ts s1)
        (\<lambda>s'. inv s' \<and> rel s s' \<and> (\<forall>t \<in> set (t # ts). post t s'))"
      by (rule spec_mono) (use s1 in \<open>auto intro: rel_trans post_rel\<close>)
  qed
qed

end

section \<open>Strings\<close>

text \<open>\<^verbatim>\<open>std::string::starts_with\<close> and \<^verbatim>\<open>std::to_string\<close> of an unsigned and of a signed value.\<close>

definition starts_with :: "string \<Rightarrow> string \<Rightarrow> bool" where
  "starts_with s p = (take (length p) s = p)"

lemma starts_with_append [simp]: "starts_with (p @ s) p"
  by (simp add: starts_with_def)

lemma starts_with_prefix: "starts_with s p \<longleftrightarrow> prefix p s"
proof
  assume "starts_with s p"
  then have "s = p @ drop (length p) s"
    unfolding starts_with_def by (metis append_take_drop_id)
  then show "prefix p s" by (metis prefixI)
qed (auto simp: starts_with_def prefix_def)

definition digit :: "nat \<Rightarrow> char" where
  "digit n = char_of (48 + n)"

fun dec :: "nat \<Rightarrow> string" where
  "dec n = (if n < 10 then [digit n] else dec (n div 10) @ [digit (n mod 10)])"

declare dec.simps [simp del]

definition dec_int :: "int \<Rightarrow> string" where
  "dec_int i = (if i < 0 then ''-'' @ dec (nat (- i)) else dec (nat i))"

definition dec_u64 :: "u64 \<Rightarrow> string" where
  "dec_u64 w = dec (unat w)"

definition is_digit :: "char \<Rightarrow> bool" where
  "is_digit c = (48 \<le> (of_char c :: nat) \<and> (of_char c :: nat) \<le> 57)"

lemma of_char_digit: "n < 10 \<Longrightarrow> (of_char (digit n) :: nat) = 48 + n"
  by (simp add: digit_def)

lemma is_digit_digit [simp]: "n < 10 \<Longrightarrow> is_digit (digit n)"
  by (simp add: is_digit_def of_char_digit)

lemma digit_inj: "m < 10 \<Longrightarrow> n < 10 \<Longrightarrow> digit m = digit n \<longleftrightarrow> m = n"
  by (metis add_left_cancel of_char_digit)

lemma dec_digits: "c \<in> set (dec n) \<Longrightarrow> is_digit c"
proof (induction n rule: dec.induct)
  case (1 n)
  then show ?case
    by (subst (asm) (2) dec.simps) (auto split: if_splits)
qed

lemma dec_nonempty [simp]: "dec n \<noteq> []"
  by (subst dec.simps) simp

fun undec :: "string \<Rightarrow> nat" where
  "undec s = foldl (\<lambda>acc c. acc * 10 + (of_char c - 48)) 0 s"

lemma undec_dec [simp]: "undec (dec n) = n"
proof (induction n rule: dec.induct)
  case (1 n)
  show ?case
  proof (cases "n < 10")
    case True
    then show ?thesis by (subst dec.simps) (simp add: of_char_digit)
  next
    case False
    then have "dec n = dec (n div 10) @ [digit (n mod 10)]" by (subst dec.simps) simp
    moreover have "undec (dec (n div 10)) = n div 10" using 1 False by simp
    ultimately show ?thesis by (simp add: of_char_digit)
  qed
qed

lemma dec_inj [simp]: "dec m = dec n \<longleftrightarrow> m = n"
  by (metis undec_dec)

end
