(* ===== verification/Features.thy ===== *)
theory Features
  imports OI_Prelude
begin

text \<open>
  \<^verbatim>\<open>oi/EnumBitset.h\<close> and \<^verbatim>\<open>oi/Features.h\<close>, \<^verbatim>\<open>oi/Features.cpp\<close>: the bitset indexed by an enum, the
  features of the code generator, and the resolution of their requirements and conflicts.
  An \<^verbatim>\<open>EnumBitset<T, N>\<close> is the set of the enumerators whose bit is set; the enumerators of
  every instance are exactly its \<open>N\<close> bits.
\<close>

named_theorems bitset_defs "the operations of EnumBitset"

type_synonym 'a enum_bitset = "'a set"

definition bitset_of :: "'a list \<Rightarrow> 'a enum_bitset" where [bitset_defs]:
  "bitset_of values = foldl (\<lambda>b v. insert v b) {} values"

definition bit_get :: "'a enum_bitset \<Rightarrow> 'a \<Rightarrow> bool" where [bitset_defs]:
  "bit_get b v = (v \<in> b)"

definition bit_put :: "'a enum_bitset \<Rightarrow> 'a \<Rightarrow> bool \<Rightarrow> 'a enum_bitset" where [bitset_defs]:
  "bit_put b v x = (if x then insert v b else b - {v})"

definition bits_all :: "'a list \<Rightarrow> 'a enum_bitset \<Rightarrow> bool" where [bitset_defs]:
  "bits_all bits b = list_all (\<lambda>v. v \<in> b) bits"

definition bits_any :: "'a enum_bitset \<Rightarrow> bool" where [bitset_defs]:
  "bits_any b = (b \<noteq> {})"

definition bits_none :: "'a enum_bitset \<Rightarrow> bool" where [bitset_defs]:
  "bits_none b = (b = {})"

definition bits_or :: "'a enum_bitset \<Rightarrow> 'a enum_bitset \<Rightarrow> 'a enum_bitset" where [bitset_defs]:
  "bits_or a b = a \<union> b"

definition bits_and :: "'a enum_bitset \<Rightarrow> 'a enum_bitset \<Rightarrow> 'a enum_bitset" where [bitset_defs]:
  "bits_and a b = a \<inter> b"

lemma bit_get_put [simp]: "bit_get (bit_put b v x) w = (if v = w then x else bit_get b w)"
  by (auto simp: bitset_defs)

lemma set_bitset_of: "bitset_of vs = set vs"
proof -
  have "foldl (\<lambda>b v. insert v b) A vs = A \<union> set vs" for A :: "'a set"
    by (induction vs arbitrary: A) auto
  then show ?thesis by (simp add: bitset_of_def)
qed

section \<open>The features\<close>

datatype feature =
    UnknownFeature
  | ChaseRawPointers
  | PackStructs
  | GenPaddingStats
  | CaptureThriftIsset
  | TypeGraph
  | PruneTypeGraph
  | Library
  | TreeBuilderV2
  | GenJitDebug
  | JitLogging
  | JitTiming
  | PolymorphicInheritance

definition allFeatures :: "feature list" where
  "allFeatures = [ChaseRawPointers, PackStructs, GenPaddingStats, CaptureThriftIsset, TypeGraph,
     PruneTypeGraph, Library, TreeBuilderV2, GenJitDebug, JitLogging, JitTiming,
     PolymorphicInheritance]"

lemma set_allFeatures: "set allFeatures = UNIV - {UnknownFeature}"
proof -
  have "f \<in> set allFeatures \<or> f = UnknownFeature" for f
    by (cases f) (simp_all add: allFeatures_def)
  then show ?thesis by (auto simp: allFeatures_def)
qed

lemma finite_features [simp, intro]: "finite (A :: feature set)"
proof (rule finite_subset)
  show "A \<subseteq> insert UnknownFeature (set allFeatures)" by (auto simp: set_allFeatures)
qed simp

type_synonym feature_set = "feature enum_bitset"

fun featureToStr :: "feature \<Rightarrow> string" where
  "featureToStr ChaseRawPointers = ''chase-raw-pointers''"
| "featureToStr PackStructs = ''pack-structs''"
| "featureToStr GenPaddingStats = ''gen-padding-stats''"
| "featureToStr CaptureThriftIsset = ''capture-thrift-isset''"
| "featureToStr TypeGraph = ''type-graph''"
| "featureToStr PruneTypeGraph = ''prune-type-graph''"
| "featureToStr Library = ''library''"
| "featureToStr TreeBuilderV2 = ''tree-builder-v2''"
| "featureToStr GenJitDebug = ''gen-jit-debug''"
| "featureToStr JitLogging = ''jit-logging''"
| "featureToStr JitTiming = ''jit-timing''"
| "featureToStr PolymorphicInheritance = ''polymorphic-inheritance''"
| "featureToStr UnknownFeature = ''UnknownFeature''"

definition nameMap :: "string \<rightharpoonup> feature" where
  "nameMap = map_of [(''chase-raw-pointers'', ChaseRawPointers), (''pack-structs'', PackStructs),
     (''gen-padding-stats'', GenPaddingStats), (''capture-thrift-isset'', CaptureThriftIsset),
     (''type-graph'', TypeGraph), (''prune-type-graph'', PruneTypeGraph), (''library'', Library),
     (''tree-builder-v2'', TreeBuilderV2), (''gen-jit-debug'', GenJitDebug),
     (''jit-logging'', JitLogging), (''jit-timing'', JitTiming),
     (''polymorphic-inheritance'', PolymorphicInheritance)]"

definition featureFromStr :: "string \<Rightarrow> feature" where
  "featureFromStr str = (case nameMap str of Some f \<Rightarrow> f | None \<Rightarrow> UnknownFeature)"

text \<open>The help text of a feature: none for those hidden from the help, an exception for the unknown one.\<close>

fun featureHelp :: "feature \<Rightarrow> string option outcome" where
  "featureHelp ChaseRawPointers = Inr (Some ''Chase raw pointers in the probed object.'')"
| "featureHelp PackStructs = Inr (Some ''Pack structs.'')"
| "featureHelp GenPaddingStats = Inr (Some ''Generate statistics on padding of structures.'')"
| "featureHelp CaptureThriftIsset = Inr (Some ''Capture isset data for Thrift object.'')"
| "featureHelp TypeGraph = Inr (Some ''Use Type Graph for code generation (CodeGen v2).'')"
| "featureHelp PruneTypeGraph = Inr (Some ''Prune unreachable nodes from the type graph'')"
| "featureHelp Library = Inr None"
| "featureHelp TreeBuilderV2 = Inr (Some ''Use Tree Builder v2 for reading the data segment'')"
| "featureHelp GenJitDebug = Inr (Some ''Generate debug information for the JIT object.'')"
| "featureHelp JitLogging = Inr (Some ''Log information from the JIT code for debugging.'')"
| "featureHelp PolymorphicInheritance =
     Inr (Some ''Follow polymorphic inheritance hierarchies in the probed object.'')"
| "featureHelp JitTiming = Inr (Some ''Instrument the JIT code with timing for performance testing.'')"
| "featureHelp UnknownFeature = Inl (Throw ''should not ask for help for UnknownFeature!'')"

definition longestName :: nat where
  "longestName = foldl (\<lambda>acc f. max acc (length (featureToStr f))) 0 allFeatures"

text \<open>The stream is its contents so far; \<^verbatim>\<open>std::endl\<close> writes a newline.\<close>

definition featuresHelp_line :: "feature \<Rightarrow> string \<Rightarrow> string outcome" where
  "featuresHelp_line f out = bindE (featureHelp f) (\<lambda>help. case help of
      None \<Rightarrow> Inr out
    | Some h \<Rightarrow>
        let name = featureToStr f in
        Inr (out @ ''  '' @ name @ replicate (longestName - length name + 2) CHR '' '' @ h @ [CHR 0x0A]))"

definition featuresHelp :: "string \<Rightarrow> string outcome" where
  "featuresHelp out = for_each featuresHelp_line allFeatures (out @ ''FEATURES SUMMARY'' @ [CHR 0x0A])"

section \<open>Requirements and conflicts\<close>

fun requirements :: "feature \<Rightarrow> feature list" where
  "requirements TreeBuilderV2 = [TypeGraph]"
| "requirements Library = [TreeBuilderV2]"
| "requirements _ = []"

fun conflicts :: "feature \<Rightarrow> feature list" where
  "conflicts Library = [JitLogging, JitTiming]"
| "conflicts _ = []"

text \<open>
  \<^verbatim>\<open>handleFeatureConflicts\<close>. Its two sets in flight are \<open>enabled\<close> and \<open>toCheck\<close>; \<open>None\<close> of the
  inner functions is the early \<^verbatim>\<open>return std::nullopt\<close>. The logging is left out.
\<close>

record resolution =
  res_enabled :: feature_set
  res_toCheck :: feature_set

fun require_all :: "feature_set \<Rightarrow> feature list \<Rightarrow> resolution \<Rightarrow> resolution option" where
  "require_all disabled [] s = Some s"
| "require_all disabled (r # rs) s =
     (if bit_get (res_enabled s) r then require_all disabled rs s
      else if bit_get disabled r then None
      else require_all disabled rs
        (s\<lparr>res_enabled := bit_put (res_enabled s) r True,
           res_toCheck := bit_put (res_toCheck s) r True\<rparr>))"

fun check_round :: "feature_set \<Rightarrow> feature list \<Rightarrow> resolution \<Rightarrow> resolution option" where
  "check_round disabled [] s = Some s"
| "check_round disabled (f # fs) s =
     (if \<not> bit_get (res_toCheck s) f then check_round disabled fs s
      else case require_all disabled (requirements f)
                  (s\<lparr>res_toCheck := bit_put (res_toCheck s) f False\<rparr>) of
             None \<Rightarrow> None
           | Some s' \<Rightarrow> check_round disabled fs s')"

partial_function (option) resolve_loop :: "feature_set \<Rightarrow> resolution \<Rightarrow> feature_set option option" where
  "resolve_loop disabled s =
     (if bits_any (res_toCheck s) then
        (case check_round disabled allFeatures s of
           None \<Rightarrow> Some None
         | Some s' \<Rightarrow> resolve_loop disabled s')
      else Some (Some (res_enabled s)))"

fun any_conflict :: "feature_set \<Rightarrow> feature list \<Rightarrow> bool" where
  "any_conflict enabled [] = False"
| "any_conflict enabled (f # fs) =
     ((bit_get enabled f \<and> list_ex (\<lambda>c. bit_get enabled c) (conflicts f)) \<or> any_conflict enabled fs)"

definition handleFeatureConflicts :: "feature_set \<Rightarrow> feature_set \<Rightarrow> feature_set option option" where
  "handleFeatureConflicts enabled disabled =
     (case resolve_loop disabled \<lparr>res_enabled = enabled, res_toCheck = enabled\<rparr> of
        None \<Rightarrow> None
      | Some None \<Rightarrow> Some None
      | Some (Some en) \<Rightarrow> Some (if any_conflict en allFeatures then None else Some en))"

section \<open>What the resolution computes\<close>

text \<open>The features that a set of features requires, directly or through others.\<close>

inductive_set required :: "feature_set \<Rightarrow> feature_set" for E where
  given: "f \<in> E \<Longrightarrow> f \<in> required E"
| needs: "f \<in> required E \<Longrightarrow> r \<in> set (requirements f) \<Longrightarrow> r \<in> required E"

lemma required_subset: "E \<subseteq> required E"
  by (auto intro: required.given)

lemma required_least:
  assumes "E \<subseteq> A" and "\<And>f. f \<in> A \<Longrightarrow> set (requirements f) \<subseteq> A"
  shows "required E \<subseteq> A"
proof
  fix f assume "f \<in> required E"
  then show "f \<in> A" using assms by (induction rule: required.induct) auto
qed

lemma requirements_known: "UnknownFeature \<notin> set (requirements f)"
  by (cases f) auto

lemma required_known: "UnknownFeature \<notin> E \<Longrightarrow> UnknownFeature \<notin> required E"
  using requirements_known by (auto elim: required.cases)

lemma require_all_eq:
  "require_all D rs s =
     (if (set rs - res_enabled s) \<inter> D = {} then
        Some (s\<lparr>res_enabled := res_enabled s \<union> set rs,
                res_toCheck := res_toCheck s \<union> (set rs - res_enabled s)\<rparr>)
      else None)"
proof (induction rs arbitrary: s)
  case (Cons r rs)
  show ?case
  proof (cases "r \<in> res_enabled s")
    case True
    then show ?thesis by (simp add: Cons.IH bitset_defs insert_Diff_if insert_absorb)
  next
    case False
    have "(set (r # rs) - res_enabled s) \<inter> D = {} \<longleftrightarrow>
        r \<notin> D \<and> (set rs - insert r (res_enabled s)) \<inter> D = {}"
      using False by auto
    moreover have "insert r (res_toCheck s) \<union> (set rs - insert r (res_enabled s)) =
        res_toCheck s \<union> (set (r # rs) - res_enabled s)"
      using False by auto
    ultimately show ?thesis using False by (simp add: Cons.IH bitset_defs)
  qed
qed simp

definition resolving :: "feature_set \<Rightarrow> feature_set \<Rightarrow> resolution \<Rightarrow> bool" where
  "resolving E D s \<longleftrightarrow>
     E \<subseteq> res_enabled s \<and> res_enabled s \<subseteq> required E \<and> res_toCheck s \<subseteq> res_enabled s \<and>
     (res_enabled s - E) \<inter> D = {} \<and>
     (\<forall>f \<in> res_enabled s - res_toCheck s. set (requirements f) \<subseteq> res_enabled s)"

lemma resolving_step:
  assumes "resolving E D s" and "f \<in> res_toCheck s"
    and "require_all D (requirements f) (s\<lparr>res_toCheck := bit_put (res_toCheck s) f False\<rparr>) = Some s'"
  shows "resolving E D s'" "res_enabled s \<subseteq> res_enabled s'"
    "res_toCheck s' \<subseteq> (res_toCheck s - {f}) \<union> (res_enabled s' - res_enabled s)"
proof -
  let ?R = "set (requirements f)"
  have s': "s' = s\<lparr>res_enabled := res_enabled s \<union> ?R,
      res_toCheck := (res_toCheck s - {f}) \<union> (?R - res_enabled s)\<rparr>"
    and nodis: "(?R - res_enabled s) \<inter> D = {}"
    using assms(3) by (auto simp: require_all_eq bitset_defs split: if_splits)
  have "?R \<subseteq> required E"
    using assms(1,2) by (auto simp: resolving_def intro: required.needs)
  then show "resolving E D s'"
    using assms(1) nodis unfolding resolving_def s' by auto
  show "res_enabled s \<subseteq> res_enabled s'"
    "res_toCheck s' \<subseteq> (res_toCheck s - {f}) \<union> (res_enabled s' - res_enabled s)"
    unfolding s' by auto
qed

lemma resolving_fail:
  assumes "resolving E D s" and "f \<in> res_toCheck s"
    and "require_all D (requirements f) (s\<lparr>res_toCheck := bit_put (res_toCheck s) f False\<rparr>) = None"
  shows "(required E - E) \<inter> D \<noteq> {}"
proof -
  obtain r where "r \<in> set (requirements f)" "r \<notin> res_enabled s" "r \<in> D"
    using assms(3) by (auto simp: require_all_eq bitset_defs split: if_splits)
  moreover from this(1) have "r \<in> required E"
    using assms(1,2) by (auto simp: resolving_def intro: required.needs)
  ultimately show ?thesis using assms(1) by (auto simp: resolving_def)
qed

lemma check_round_correct:
  assumes "resolving E D s"
  shows "case check_round D fs s of
      None \<Rightarrow> (required E - E) \<inter> D \<noteq> {}
    | Some s' \<Rightarrow> resolving E D s' \<and> res_enabled s \<subseteq> res_enabled s' \<and>
        res_toCheck s' \<subseteq> (res_toCheck s - set fs) \<union> (res_enabled s' - res_enabled s)"
  using assms
proof (induction fs arbitrary: s)
  case (Cons f fs)
  show ?case
  proof (cases "f \<in> res_toCheck s")
    case False
    then show ?thesis using Cons.IH [OF Cons.prems]
      by (auto simp: bitset_defs split: option.splits)
  next
    case True
    let ?s = "s\<lparr>res_toCheck := bit_put (res_toCheck s) f False\<rparr>"
    show ?thesis
    proof (cases "require_all D (requirements f) ?s")
      case None
      then show ?thesis using resolving_fail [OF Cons.prems True None] True
        by (simp add: bit_get_def)
    next
      case (Some s1)
      note step = resolving_step [OF Cons.prems True Some]
      show ?thesis
        using Cons.IH [OF step(1)] step(2,3) Some True
        by (simp add: bit_get_def split: option.splits) blast
    qed
  qed
qed simp

lemma resolve_loop_correct:
  assumes "resolving E D s" and "UnknownFeature \<notin> E"
  shows "resolve_loop D s =
    Some (if (required E - E) \<inter> D = {} then Some (required E) else None)"
  using assms(1)
proof (induction "card (UNIV - res_enabled s)" arbitrary: s rule: less_induct)
  case less
  show ?case
  proof (cases "res_toCheck s = {}")
    case True
    then have "required E = res_enabled s"
      using less.prems required_least [of E "res_enabled s"] by (auto simp: resolving_def)
    then show ?thesis
      using True less.prems
      by (subst resolve_loop.simps) (auto simp: bits_any_def resolving_def)
  next
    case False
    have unk: "UnknownFeature \<notin> res_toCheck s"
      using less.prems required_known [OF assms(2)] by (auto simp: resolving_def)
    note rnd = check_round_correct [OF less.prems, of allFeatures]
    show ?thesis
    proof (cases "check_round D allFeatures s")
      case None
      then show ?thesis using rnd False
        by (subst resolve_loop.simps) (simp add: bits_any_def)
    next
      case (Some s')
      with rnd unk have s': "resolving E D s'" "res_enabled s \<subseteq> res_enabled s'"
        "res_toCheck s' \<subseteq> res_enabled s' - res_enabled s"
        by (auto simp: set_allFeatures)
      have "resolve_loop D s' =
          Some (if (required E - E) \<inter> D = {} then Some (required E) else None)"
      proof (cases "res_toCheck s' = {}")
        case True
        then have "required E = res_enabled s'"
          using s' required_least [of E "res_enabled s'"] by (auto simp: resolving_def)
        then show ?thesis using True s'(1)
          by (subst resolve_loop.simps) (auto simp: bits_any_def resolving_def)
      next
        case nonempty: False
        then have "card (UNIV - res_enabled s') < card (UNIV - res_enabled s)"
          using s' by (intro psubset_card_mono) auto
        then show ?thesis by (rule less.hyps) (rule s'(1))
      qed
      then show ?thesis using Some False
        by (subst resolve_loop.simps) (simp add: bits_any_def)
    qed
  qed
qed

lemma any_conflict_iff:
  "any_conflict en fs \<longleftrightarrow> (\<exists>f \<in> set fs. f \<in> en \<and> (\<exists>c \<in> set (conflicts f). c \<in> en))"
  by (induction fs) (auto simp: bit_get_def list_ex_iff)

definition conflicting :: "feature_set \<Rightarrow> bool" where
  "conflicting A \<longleftrightarrow> Library \<in> A \<and> (JitLogging \<in> A \<or> JitTiming \<in> A)"

lemma any_conflict_all: "any_conflict A allFeatures = conflicting A"
  by (auto simp: any_conflict_iff allFeatures_def conflicting_def)

section \<open>Properties\<close>

text \<open>
  C22: for any enabled set without the unknown feature, \<^verbatim>\<open>handleFeatureConflicts\<close> returns, and its
  answer is the least superset of the enabled features closed under requirements, unless a
  feature it would have to switch on is explicitly disabled or the result holds two
  conflicting features, in which case it is \<^verbatim>\<open>nullopt\<close>.
\<close>

theorem handleFeatureConflicts_spec:
  assumes "UnknownFeature \<notin> enabled"
  shows "handleFeatureConflicts enabled disabled =
    Some (if (required enabled - enabled) \<inter> disabled \<noteq> {} \<or> conflicting (required enabled)
          then None else Some (required enabled))"
proof -
  have "resolving enabled disabled \<lparr>res_enabled = enabled, res_toCheck = enabled\<rparr>"
    using required_subset by (auto simp: resolving_def)
  from resolve_loop_correct [OF this assms] show ?thesis
    by (simp add: handleFeatureConflicts_def any_conflict_all)
qed

theorem handleFeatureConflicts_spec_witness:
  "handleFeatureConflicts {Library} {PackStructs} =
     Some (Some {Library, TreeBuilderV2, TypeGraph})"
proof -
  have req: "required {Library} = {Library, TreeBuilderV2, TypeGraph}"
  proof
    show "required {Library} \<subseteq> {Library, TreeBuilderV2, TypeGraph}"
      by (rule required_least) auto
    have "Library \<in> required {Library}" by (simp add: required.given)
    moreover from this have "TreeBuilderV2 \<in> required {Library}"
      by (rule required.needs) simp
    moreover from this have "TypeGraph \<in> required {Library}"
      by (rule required.needs) simp
    ultimately show "{Library, TreeBuilderV2, TypeGraph} \<subseteq> required {Library}" by simp
  qed
  show ?thesis
    using handleFeatureConflicts_spec [of "{Library}" "{PackStructs}"]
    by (simp add: req conflicting_def insert_Diff_if)
qed

text \<open>
  The names of features parse back: reading the printed name of a feature gives that
  feature, and no other string reads as a known feature.
\<close>

theorem featureFromStr_toStr:
  "featureFromStr (featureToStr f) = f \<and>
   (featureFromStr str = f \<longrightarrow> f = UnknownFeature \<or> str = featureToStr f)"
  by (cases f) (auto simp: featureFromStr_def nameMap_def split: if_splits option.splits)

theorem featureFromStr_toStr_witness:
  "featureFromStr (featureToStr Library) = Library \<and> featureFromStr ''library'' = Library"
  using featureFromStr_toStr [of Library "''library''"] by simp

end
