(* ===== verification/TG_Types.thy ===== *)
theory TG_Types
  imports Features
begin

text \<open>
  The nodes of a type graph: \<^verbatim>\<open>oi/type_graph/Types.h\<close> and \<^verbatim>\<open>Types.cpp\<close>, with the container
  descriptions they refer to (\<^verbatim>\<open>oi/ContainerInfo.h\<close>, \<^verbatim>\<open>oi/ContainerTypeEnum.h\<close>) and the graph that
  owns them (\<^verbatim>\<open>TypeGraph.h\<close>, \<^verbatim>\<open>TypeGraph.cpp\<close>).

  A reference to a \<^verbatim>\<open>Type\<close> is a \<open>tref\<close>: the singleton primitive of a kind, or the position of the
  node in the vector that owns it. Every field of a class is a field of its record, so that a
  pass that mutates a node is an update of the graph.
\<close>

section \<open>Container descriptions\<close>

datatype container_type =
    UNKNOWN_TYPE | ARRAY_TYPE | SMALL_VEC_TYPE | SET_TYPE | MULTI_SET_TYPE | UNORDERED_SET_TYPE
  | UNORDERED_MULTISET_TYPE | SEQ_TYPE | LIST_TYPE | STD_MAP_TYPE | STD_UNORDERED_MAP_TYPE
  | STD_UNORDERED_MULTIMAP_TYPE | MAP_SEQ_TYPE | BY_MULTI_QRT_TYPE | F14_MAP | F14_SET
  | FEED_QUICK_HASH_SET | FEED_QUICK_HASH_MAP | RADIX_TREE_TYPE | PAIR_TYPE | STRING_TYPE
  | FOLLY_IOBUF_TYPE | FOLLY_IOBUFQUEUE_TYPE | FB_STRING_TYPE | UNIQ_PTR_TYPE | SHRD_PTR_TYPE
  | FB_HASH_MAP_TYPE | FB_HASH_SET_TYPE | FOLLY_OPTIONAL_TYPE | OPTIONAL_TYPE | TRY_TYPE
  | REF_WRAPPER_TYPE | SORTED_VEC_SET_TYPE | REPEATED_FIELD_TYPE | CAFFE2_BLOB_TYPE
  | MULTI_MAP_TYPE | FOLLY_SMALL_HEAP_VECTOR_MAP | CONTAINER_ADAPTER_TYPE | MICROLIST_TYPE
  | ENUM_MAP_TYPE | BOOST_BIMAP_TYPE | STD_VARIANT_TYPE | THRIFT_ISSET_TYPE | DUMMY_TYPE
  | WEAK_PTR_TYPE

text \<open>
  The regular expression that matches type names is kept as its source text: \<^verbatim>\<open>boost::regex_search\<close>
  is a parameter of the operations that match.
\<close>

record container_processor =
  cp_type :: string
  cp_func :: string

record container_codegen =
  cc_decl :: string
  cc_func :: string
  cc_traversalFunc :: string
  cc_extra :: string
  cc_scopedExtra :: string
  cc_processors :: "container_processor list"

record container_info =
  ci_typeName :: string
  ci_numTemplateParams :: "nat option"
  ci_ctype :: container_type
  ci_header :: string
  ci_ns :: "string list"
  ci_replaceTemplateParamIndex :: "nat list"
  ci_allocatorIndex :: "nat option"
  ci_underlyingContainerIndex :: "nat option"
  ci_stubTemplateParams :: "nat list"
  ci_captureKeys :: bool
  ci_requiredFeatures :: feature_set
  ci_codegen :: container_codegen
  ci_matcher :: string

definition ci_matches :: "(string \<Rightarrow> string \<Rightarrow> bool) \<Rightarrow> container_info \<Rightarrow> string \<Rightarrow> bool" where
  "ci_matches regex_search info sv = regex_search (ci_matcher info) sv"

section \<open>References and the parts of nodes\<close>

datatype qualifier = Const

type_synonym qualifier_set = "qualifier enum_bitset"

datatype prim_kind =
    Int8 | Int16 | Int32 | Int64 | UInt8 | UInt16 | UInt32 | UInt64
  | Float32 | Float64 | Float80 | Float128 | Bool | StubbedPointer | Void

datatype tref = PrimRef prim_kind | NodeRef nat

record member =
  m_type :: tref
  m_name :: string
  m_inputName :: string
  m_bitOffset :: u64
  m_bitsize :: u64
  m_align :: u64

text \<open>The two constructors of \<^verbatim>\<open>Member\<close>; the second copies another member but for its type and alignment.\<close>

definition mk_member :: "tref \<Rightarrow> string \<Rightarrow> u64 \<Rightarrow> u64 \<Rightarrow> member" where
  "mk_member t name bitOffset bitsize =
     \<lparr>m_type = t, m_name = name, m_inputName = name, m_bitOffset = bitOffset,
      m_bitsize = bitsize, m_align = 0\<rparr>"

definition copy_member :: "tref \<Rightarrow> member \<Rightarrow> member" where
  "copy_member t other =
     \<lparr>m_type = t, m_name = m_name other, m_inputName = m_inputName other,
      m_bitOffset = m_bitOffset other, m_bitsize = m_bitsize other, m_align = 0\<rparr>"

record member_function =
  f_name :: string
  f_virtuality :: int

record parent =
  p_type :: tref
  p_bitOffset :: u64

record template_param =
  tp_type :: tref
  tp_qualifiers :: qualifier_set
  tp_value :: "string option"

definition mk_param :: "tref \<Rightarrow> template_param" where
  "mk_param t = \<lparr>tp_type = t, tp_qualifiers = {}, tp_value = None\<rparr>"

section \<open>Nodes\<close>

type_synonym node_id = int

record incomplete_node =
  in_id :: node_id
  in_underlying :: "string + tref"
  in_name :: string

definition mk_incomplete :: "node_id \<Rightarrow> string + tref \<Rightarrow> incomplete_node" where
  "mk_incomplete nid u = \<lparr>in_id = nid, in_underlying = u, in_name = ''void''\<rparr>"

datatype class_kind = KClass | KStruct | KUnion

record class_node =
  cl_id :: node_id
  cl_kind :: class_kind
  cl_name :: string
  cl_inputName :: string
  cl_size :: u64
  cl_align :: u64
  cl_virtuality :: int
  cl_packed :: bool
  cl_templateParams :: "template_param list"
  cl_parents :: "parent list"
  cl_members :: "member list"
  cl_functions :: "member_function list"
  cl_children :: "tref list"

definition mk_class :: "class_kind \<Rightarrow> string \<Rightarrow> string \<Rightarrow> u64 \<Rightarrow> int \<Rightarrow> node_id \<Rightarrow> class_node" where
  "mk_class kind name inputName sz virtuality nid =
     \<lparr>cl_id = nid, cl_kind = kind, cl_name = name, cl_inputName = inputName, cl_size = sz,
      cl_align = 0, cl_virtuality = virtuality, cl_packed = False, cl_templateParams = [],
      cl_parents = [], cl_members = [], cl_functions = [], cl_children = []\<rparr>"

definition fqName :: "class_node \<Rightarrow> string" where
  "fqName c = cl_inputName c"

definition isDynamic :: "class_node \<Rightarrow> bool" where
  "isDynamic c = (cl_virtuality c \<noteq> 0 \<or> list_ex (\<lambda>f. f_virtuality f \<noteq> 0) (cl_functions c))"

record container_node =
  co_id :: node_id
  co_info :: container_info
  co_templateParams :: "template_param list"
  co_underlying :: "tref option"
  co_name :: string
  co_inputName :: string
  co_size :: u64
  co_align :: u64

definition mk_container :: "container_info \<Rightarrow> u64 \<Rightarrow> tref option \<Rightarrow> node_id \<Rightarrow> container_node" where
  "mk_container info sz underlying nid =
     \<lparr>co_id = nid, co_info = info, co_templateParams = [], co_underlying = underlying,
      co_name = ci_typeName info, co_inputName = ci_typeName info, co_size = sz, co_align = 0\<rparr>"

record enum_node =
  en_name :: string
  en_inputName :: string
  en_size :: u64
  en_enumerators :: "(int \<times> string) list"

record array_node =
  ar_id :: node_id
  ar_elementType :: tref
  ar_inputName :: string
  ar_len :: u64
  ar_name :: string

record typedef_node =
  td_id :: node_id
  td_name :: string
  td_inputName :: string
  td_underlying :: tref

definition mk_typedef :: "string \<Rightarrow> tref \<Rightarrow> node_id \<Rightarrow> typedef_node" where
  "mk_typedef name u nid = \<lparr>td_id = nid, td_name = name, td_inputName = name, td_underlying = u\<rparr>"

record pointer_node =
  pt_id :: node_id
  pt_pointee :: tref
  pt_inputName :: string
  pt_name :: string

record reference_node =
  rf_id :: node_id
  rf_pointee :: tref
  rf_inputName :: string
  rf_name :: string

record dummy_node =
  du_id :: node_id
  du_size :: u64
  du_align :: u64
  du_name :: string
  du_inputName :: string

definition mk_dummy :: "u64 \<Rightarrow> u64 \<Rightarrow> string \<Rightarrow> node_id \<Rightarrow> dummy_node" where
  "mk_dummy sz align inputName nid =
     \<lparr>du_id = nid, du_size = sz, du_align = align,
      du_name = ''DummySizedOperator<'' @ dec_u64 sz @ '', '' @ dec_u64 align @ '', '' @
        dec_int nid @ ''>'',
      du_inputName = inputName\<rparr>"

record dummy_allocator_node =
  da_id :: node_id
  da_type :: tref
  da_size :: u64
  da_align :: u64
  da_name :: string
  da_inputName :: string

record capture_keys_node =
  ck_underlying :: tref
  ck_info :: container_info
  ck_name :: string

datatype ty =
    Incomplete incomplete_node
  | Class class_node
  | Container container_node
  | Primitive prim_kind
  | Enum enum_node
  | Array array_node
  | Typedef typedef_node
  | Pointer pointer_node
  | Reference reference_node
  | Dummy dummy_node
  | DummyAllocator dummy_allocator_node
  | CaptureKeys capture_keys_node

text \<open>
  The references a node holds, in the order in which \<^verbatim>\<open>RecursiveVisitor\<close> goes through them. An
  \<^verbatim>\<open>Incomplete\<close> may refer to its underlying type, which no recursive visitor follows.
\<close>

fun succs :: "ty \<Rightarrow> tref list" where
  "succs (Class c) = map tp_type (cl_templateParams c) @ map p_type (cl_parents c) @
     map m_type (cl_members c) @ cl_children c"
| "succs (Container c) = map tp_type (co_templateParams c) @
     (case co_underlying c of None \<Rightarrow> [] | Some u \<Rightarrow> [u])"
| "succs (Array a) = [ar_elementType a]"
| "succs (Typedef t) = [td_underlying t]"
| "succs (Pointer p) = [pt_pointee p]"
| "succs (Reference r) = [rf_pointee r]"
| "succs (DummyAllocator d) = [da_type d]"
| "succs (CaptureKeys c) = [ck_underlying c]"
| "succs _ = []"

text \<open>\<open>refs\<close> adds the reference no recursive visitor follows.\<close>

fun refs :: "ty \<Rightarrow> tref list" where
  "refs (Incomplete i) = (case in_underlying i of Inl _ \<Rightarrow> [] | Inr t \<Rightarrow> [t])"
| "refs t = succs t"

lemma succs_subset_refs: "set (succs t) \<subseteq> set (refs t)"
  by (cases t) auto

text \<open>\<^verbatim>\<open>id()\<close>: the nodes without an identifier answer -1.\<close>

fun type_id :: "ty \<Rightarrow> node_id" where
  "type_id (Incomplete i) = in_id i"
| "type_id (Class c) = cl_id c"
| "type_id (Container c) = co_id c"
| "type_id (Primitive k) = - 1"
| "type_id (Enum e) = - 1"
| "type_id (Array a) = ar_id a"
| "type_id (Typedef t) = td_id t"
| "type_id (Pointer p) = pt_id p"
| "type_id (Reference r) = rf_id r"
| "type_id (Dummy d) = du_id d"
| "type_id (DummyAllocator d) = da_id d"
| "type_id (CaptureKeys c) = - 1"

fun has_node_id :: "ty \<Rightarrow> bool" where
  "has_node_id (Primitive k) = False"
| "has_node_id (Enum e) = False"
| "has_node_id (CaptureKeys c) = False"
| "has_node_id _ = True"

section \<open>Primitives\<close>

fun prim_name :: "prim_kind \<Rightarrow> string outcome" where
  "prim_name Int8 = Inr ''int8_t''"
| "prim_name Int16 = Inr ''int16_t''"
| "prim_name Int32 = Inr ''int32_t''"
| "prim_name Int64 = Inr ''int64_t''"
| "prim_name UInt8 = Inr ''uint8_t''"
| "prim_name UInt16 = Inr ''uint16_t''"
| "prim_name UInt32 = Inr ''uint32_t''"
| "prim_name UInt64 = Inr ''uint64_t''"
| "prim_name Float32 = Inr ''float''"
| "prim_name Float64 = Inr ''double''"
| "prim_name Float80 = Inl Aborted"
| "prim_name Float128 = Inr ''long double''"
| "prim_name Bool = Inr ''bool''"
| "prim_name StubbedPointer = Inr ''StubbedPointer''"
| "prim_name Void = Inr ''void''"

definition prim_inputName :: "prim_kind \<Rightarrow> string outcome" where
  "prim_inputName k = (if k = StubbedPointer then Inr ''uintptr_t (stubbed)'' else prim_name k)"

fun prim_size :: "prim_kind \<Rightarrow> u64 outcome" where
  "prim_size Int8 = Inr 1"
| "prim_size Int16 = Inr 2"
| "prim_size Int32 = Inr 4"
| "prim_size Int64 = Inr 8"
| "prim_size UInt8 = Inr 1"
| "prim_size UInt16 = Inr 2"
| "prim_size UInt32 = Inr 4"
| "prim_size UInt64 = Inr 8"
| "prim_size Float32 = Inr 4"
| "prim_size Float64 = Inr 8"
| "prim_size Float80 = Inl Aborted"
| "prim_size Float128 = Inr 16"
| "prim_size Bool = Inr 1"
| "prim_size StubbedPointer = Inr 8"
| "prim_size Void = Inr 0"

section \<open>The graph\<close>

record type_graph =
  nodes :: "ty list"
  rootTypes :: "tref list"
  finalTypes :: "tref list"
  next_id :: node_id

definition empty_graph :: type_graph where
  "empty_graph = \<lparr>nodes = [], rootTypes = [], finalTypes = [], next_id = 0\<rparr>"

definition graph_size :: "type_graph \<Rightarrow> nat" where
  "graph_size g = length (nodes g)"

definition addRoot :: "tref \<Rightarrow> type_graph \<Rightarrow> type_graph" where
  "addRoot t g = g\<lparr>rootTypes := rootTypes g @ [t]\<rparr>"

text \<open>Following a reference. A position the vector does not have is a dangling reference.\<close>

fun deref :: "type_graph \<Rightarrow> tref \<Rightarrow> ty outcome" where
  "deref g (PrimRef k) = Inr (Primitive k)"
| "deref g (NodeRef i) = (if i < length (nodes g) then Inr (nodes g ! i)
     else Inl (Undefined ''dangling reference''))"

fun put_node :: "tref \<Rightarrow> ty \<Rightarrow> type_graph \<Rightarrow> type_graph" where
  "put_node (PrimRef k) n g = g"
| "put_node (NodeRef i) n g = g\<lparr>nodes := (nodes g)[i := n]\<rparr>"

text \<open>
  \<^verbatim>\<open>makeType\<close>: the singleton of a primitive kind (its constructor aborts on \<^verbatim>\<open>Float80\<close>), a node with
  a given identifier, a node with the next identifier, and a node that has none. The node is
  built from its identifier, as the constructors do.
\<close>

definition make_primitive :: "prim_kind \<Rightarrow> tref outcome" where
  "make_primitive k = bindE (prim_name k) (\<lambda>_. Inr (PrimRef k))"

definition make_type_id :: "node_id \<Rightarrow> (node_id \<Rightarrow> ty) \<Rightarrow> type_graph \<Rightarrow> tref \<times> type_graph" where
  "make_type_id nid mk g =
     (NodeRef (length (nodes g)),
      g\<lparr>next_id := max (next_id g) (nid + 1), nodes := nodes g @ [mk nid]\<rparr>)"

definition make_type :: "(node_id \<Rightarrow> ty) \<Rightarrow> type_graph \<Rightarrow> tref \<times> type_graph" where
  "make_type mk g = make_type_id (next_id g) mk (g\<lparr>next_id := next_id g + 1\<rparr>)"

definition make_type_noid :: "ty \<Rightarrow> type_graph \<Rightarrow> tref \<times> type_graph" where
  "make_type_noid n g = (NodeRef (length (nodes g)), g\<lparr>nodes := nodes g @ [n]\<rparr>)"

end
