(* ===== verification/TG_Graph.thy ===== *)
theory TG_Graph
  imports TG_Types
begin

text \<open>
  The virtual functions of \<^verbatim>\<open>Type\<close> that follow references (\<^verbatim>\<open>size\<close>, \<^verbatim>\<open>align\<close>, \<^verbatim>\<open>inputName\<close>), the
  removal of typedefs, and the well-formedness of a graph. A chain of such calls has no bound of
  its own in the code: the depth used here is one more than the number of nodes, and a chain
  that gets deeper never ends (locale \<open>reference_chain\<close>).
\<close>

definition node_at :: "type_graph \<Rightarrow> nat \<Rightarrow> ty" where
  "node_at g i = nodes g ! i"

section \<open>Virtual functions\<close>

definition size_body :: "(tref, type_graph, u64) call \<Rightarrow> (tref, type_graph, u64) call" where
  "size_body sz t g = bindE (deref g t) (\<lambda>n. case n of
      Incomplete i \<Rightarrow> Inr 0
    | Class c \<Rightarrow> Inr (cl_size c)
    | Container c \<Rightarrow> Inr (co_size c)
    | Primitive k \<Rightarrow> prim_size k
    | Enum e \<Rightarrow> Inr (en_size e)
    | Array a \<Rightarrow> bindE (sz (ar_elementType a) g) (\<lambda>s. Inr (ar_len a * s))
    | Typedef td \<Rightarrow> sz (td_underlying td) g
    | Pointer p \<Rightarrow> Inr 8
    | Reference r \<Rightarrow> Inr 8
    | Dummy d \<Rightarrow> Inr (du_size d)
    | DummyAllocator d \<Rightarrow> Inr (da_size d)
    | CaptureKeys c \<Rightarrow> sz (ck_underlying c) g)"

definition align_body :: "(tref, type_graph, u64) call \<Rightarrow> (tref, type_graph, u64) call" where
  "align_body align t g = bindE (deref g t) (\<lambda>n. case n of
      Incomplete i \<Rightarrow> Inr 0
    | Class c \<Rightarrow> Inr (cl_align c)
    | Container c \<Rightarrow> Inr (co_align c)
    | Primitive k \<Rightarrow> prim_size k
    | Enum e \<Rightarrow> Inr (en_size e)
    | Array a \<Rightarrow> align (ar_elementType a) g
    | Typedef td \<Rightarrow> align (td_underlying td) g
    | Pointer p \<Rightarrow> Inr 8
    | Reference r \<Rightarrow> Inr 8
    | Dummy d \<Rightarrow> Inr (du_align d)
    | DummyAllocator d \<Rightarrow> Inr (da_align d)
    | CaptureKeys c \<Rightarrow> align (ck_underlying c) g)"

definition inputName_body :: "(tref, type_graph, string) call \<Rightarrow> (tref, type_graph, string) call" where
  "inputName_body inputName t g = bindE (deref g t) (\<lambda>n. case n of
      Incomplete i \<Rightarrow> (case in_underlying i of Inl s \<Rightarrow> Inr s | Inr u \<Rightarrow> inputName u g)
    | Class c \<Rightarrow> Inr (cl_inputName c)
    | Container c \<Rightarrow> Inr (co_inputName c)
    | Primitive k \<Rightarrow> prim_inputName k
    | Enum e \<Rightarrow> Inr (en_inputName e)
    | Array a \<Rightarrow> Inr (ar_inputName a)
    | Typedef td \<Rightarrow> Inr (td_inputName td)
    | Pointer p \<Rightarrow> Inr (pt_inputName p)
    | Reference r \<Rightarrow> Inr (rf_inputName r)
    | Dummy d \<Rightarrow> Inr (du_inputName d)
    | DummyAllocator d \<Rightarrow> Inr (da_inputName d)
    | CaptureKeys c \<Rightarrow> inputName (ck_underlying c) g)"

definition stripTypedefs_body :: "(tref, type_graph, tref) call \<Rightarrow> (tref, type_graph, tref) call" where
  "stripTypedefs_body strip t g = bindE (deref g t) (\<lambda>n. case n of
      Typedef td \<Rightarrow> strip (td_underlying td) g
    | _ \<Rightarrow> Inr t)"

definition chain_depth :: "type_graph \<Rightarrow> nat" where
  "chain_depth g = Suc (length (nodes g))"

definition type_size :: "type_graph \<Rightarrow> tref \<Rightarrow> u64 outcome" where
  "type_size g t = recur size_body (chain_depth g) t g"

definition type_align :: "type_graph \<Rightarrow> tref \<Rightarrow> u64 outcome" where
  "type_align g t = recur align_body (chain_depth g) t g"

definition type_inputName :: "type_graph \<Rightarrow> tref \<Rightarrow> string outcome" where
  "type_inputName g t = recur inputName_body (chain_depth g) t g"

definition stripTypedefs :: "type_graph \<Rightarrow> tref \<Rightarrow> tref outcome" where
  "stripTypedefs g t = recur stripTypedefs_body (chain_depth g) t g"

text \<open>\<^verbatim>\<open>name()\<close> returns a stored name; that of a primitive was fixed by its constructor.\<close>

definition type_name :: "type_graph \<Rightarrow> tref \<Rightarrow> string outcome" where
  "type_name g t = bindE (deref g t) (\<lambda>n. case n of
      Incomplete i \<Rightarrow> Inr (in_name i)
    | Class c \<Rightarrow> Inr (cl_name c)
    | Container c \<Rightarrow> Inr (co_name c)
    | Primitive k \<Rightarrow> prim_name k
    | Enum e \<Rightarrow> Inr (en_name e)
    | Array a \<Rightarrow> Inr (ar_name a)
    | Typedef td \<Rightarrow> Inr (td_name td)
    | Pointer p \<Rightarrow> Inr (pt_name p)
    | Reference r \<Rightarrow> Inr (rf_name r)
    | Dummy d \<Rightarrow> Inr (du_name d)
    | DummyAllocator d \<Rightarrow> Inr (da_name d)
    | CaptureKeys c \<Rightarrow> Inr (ck_name c))"

text \<open>The names that are composed from the name of another node, and the constructors using them.\<close>

definition array_name :: "type_graph \<Rightarrow> tref \<Rightarrow> u64 \<Rightarrow> string outcome" where
  "array_name g t len = bindE (type_name g t) (\<lambda>n. Inr (''OIArray<'' @ n @ '', '' @ dec_u64 len @ ''>''))"

definition pointer_name :: "type_graph \<Rightarrow> tref \<Rightarrow> string outcome" where
  "pointer_name g t = bindE (type_name g t) (\<lambda>n. Inr (n @ ''*''))"

definition dummy_allocator_name ::
    "type_graph \<Rightarrow> tref \<Rightarrow> u64 \<Rightarrow> u64 \<Rightarrow> node_id \<Rightarrow> string outcome" where
  "dummy_allocator_name g t sz al nid = bindE (type_name g t) (\<lambda>n.
     Inr (''DummyAllocator<'' @ n @ '', '' @ dec_u64 sz @ '', '' @ dec_u64 al @ '', '' @
          dec_int nid @ ''>''))"

definition capture_keys_name :: "type_graph \<Rightarrow> tref \<Rightarrow> string outcome" where
  "capture_keys_name g t = bindE (type_name g t) (\<lambda>n. Inr (''OICaptureKeys<'' @ n @ ''>''))"

definition make_array :: "tref \<Rightarrow> u64 \<Rightarrow> type_graph \<Rightarrow> (tref \<times> type_graph) outcome" where
  "make_array t len g = bindE (array_name g t len) (\<lambda>nm.
     Inr (make_type (\<lambda>nid. Array \<lparr>ar_id = nid, ar_elementType = t, ar_inputName = '''',
       ar_len = len, ar_name = nm\<rparr>) g))"

definition make_dummy_allocator ::
    "tref \<Rightarrow> u64 \<Rightarrow> u64 \<Rightarrow> string \<Rightarrow> type_graph \<Rightarrow> (tref \<times> type_graph) outcome" where
  "make_dummy_allocator t sz al inputName g =
     bindE (dummy_allocator_name g t sz al (next_id g)) (\<lambda>nm.
       Inr (make_type (\<lambda>nid. DummyAllocator \<lparr>da_id = nid, da_type = t, da_size = sz,
         da_align = al, da_name = nm, da_inputName = inputName\<rparr>) g))"

definition make_capture_keys ::
    "tref \<Rightarrow> container_info \<Rightarrow> type_graph \<Rightarrow> (tref \<times> type_graph) outcome" where
  "make_capture_keys t info g = bindE (capture_keys_name g t) (\<lambda>nm.
     Inr (make_type_noid (CaptureKeys \<lparr>ck_underlying = t, ck_info = info, ck_name = nm\<rparr>) g))"

section \<open>Chains of references\<close>

text \<open>
  What the virtual functions above have in common: they follow at most one reference, of a node
  the graph owns, and add a computation of their own to what comes back. Their depth is then
  exact: if any depth gives an answer, \<open>chain_depth\<close> gives the same one.
\<close>

locale reference_chain =
  fixes body :: "(tref, type_graph, 'r) call \<Rightarrow> (tref, type_graph, 'r) call"
    and nxt :: "type_graph \<Rightarrow> tref \<Rightarrow> tref option"
    and base :: "type_graph \<Rightarrow> tref \<Rightarrow> 'r outcome"
    and cont :: "type_graph \<Rightarrow> tref \<Rightarrow> 'r \<Rightarrow> 'r outcome"
  assumes body_eq: "body call t g = (case nxt g t of None \<Rightarrow> base g t
      | Some u \<Rightarrow> bindE (call u g) (cont g t))"
    and nxt_owned: "nxt g t = Some u \<Longrightarrow> t \<in> NodeRef ` {..<length (nodes g)}"
    and base_returns: "base g t \<noteq> Inl Diverge"
    and cont_returns: "cont g t r \<noteq> Inl Diverge"
begin

primrec follow :: "type_graph \<Rightarrow> nat \<Rightarrow> tref \<Rightarrow> tref option" where
  "follow g 0 t = Some t"
| "follow g (Suc k) t = Option.bind (nxt g t) (follow g k)"

lemma follow_add: "follow g (a + b) t = Option.bind (follow g a t) (follow g b)"
proof (induction a arbitrary: t)
  case (Suc a)
  then show ?case by (cases "nxt g t") simp_all
qed simp

lemma recur_diverges: "recur body n t g = Inl Diverge \<longleftrightarrow> follow g n t \<noteq> None"
proof (induction n arbitrary: t)
  case (Suc n)
  then show ?case using base_returns cont_returns
    by (cases "nxt g t") (auto simp: body_eq [of "recur body n" t g] bindE_Inl_iff)
qed simp

lemma recur_stable: "recur body n t g \<noteq> Inl Diverge \<Longrightarrow> recur body (n + k) t g = recur body n t g"
proof (induction n arbitrary: t)
  case (Suc n)
  show ?case
  proof (cases "nxt g t")
    case (Some u)
    then have "recur body n u g \<noteq> Inl Diverge"
      using Suc.prems by (auto simp: body_eq [of "recur body n" t g])
    from Suc.IH [OF this] Some show ?thesis
      by (simp add: body_eq [of "recur body n" t g] body_eq [of "recur body (n + k)" t g])
  qed (simp add: body_eq [of "recur body n" t g] body_eq [of "recur body (n + k)" t g])
qed simp

lemma follow_prefix: "follow g n t \<noteq> None \<Longrightarrow> k \<le> n \<Longrightarrow> follow g k t \<noteq> None"
  using follow_add [of g k "n - k" t] by (cases "follow g k t") auto

lemma follow_loop: "follow g p x = Some x \<Longrightarrow> follow g (m * p) x = Some x"
  by (induction m) (simp_all add: follow_add)

lemma follow_forever:
  assumes "follow g (chain_depth g) t \<noteq> None"
  shows "follow g n t \<noteq> None"
proof -
  let ?N = "length (nodes g)"
  let ?x = "\<lambda>j. the (follow g j t)"
  have at: "follow g j t = Some (?x j)" if "j \<le> ?N" for j
    using follow_prefix [OF assms, of j] that by (auto simp: chain_depth_def)
  have owned: "?x j \<in> NodeRef ` {..<?N}" if "j \<le> ?N" for j
  proof -
    have "follow g (j + 1) t \<noteq> None"
      using follow_prefix [OF assms, of "j + 1"] that by (auto simp: chain_depth_def)
    moreover note at [OF that]
    then obtain x where x: "follow g j t = Some x" by blast
    moreover have "follow g (j + 1) t = nxt g x"
      unfolding follow_add x by (cases "nxt g x") simp_all
    ultimately show ?thesis using nxt_owned by auto
  qed
  have "\<not> inj_on ?x {..?N}"
  proof
    assume "inj_on ?x {..?N}"
    then have "card {..?N} \<le> card (NodeRef ` {..<?N})"
      by (rule card_inj_on_le) (use owned in auto)
    moreover have "card (NodeRef ` {..<?N}) = ?N" by (simp add: card_image inj_on_def)
    ultimately show False by simp
  qed
  then obtain a b where "a \<le> ?N" "b \<le> ?N" "a \<noteq> b" "?x a = ?x b"
    by (auto simp: inj_on_def)
  then obtain i j where ij: "i < j" "j \<le> ?N" "?x i = ?x j"
    by (metis nat_neq_iff)
  have "follow g (i + (j - i)) t = Some (?x i)" using at [of j] ij by simp
  then have "follow g (j - i) (?x i) = Some (?x i)"
    using at [of i] ij by (simp only: follow_add) simp
  then have "follow g (i + n * (j - i)) t = Some (?x i)"
    using at [of i] ij follow_loop by (simp add: follow_add)
  moreover have "n \<le> i + n * (j - i)" using ij(1) by (cases "j - i") auto
  ultimately show ?thesis using follow_prefix by blast
qed

lemma depth_exact:
  assumes "recur body n t g \<noteq> Inl Diverge"
  shows "recur body (chain_depth g) t g = recur body n t g"
proof -
  have "recur body (chain_depth g) t g \<noteq> Inl Diverge"
    using assms follow_forever [of g t n] by (simp only: recur_diverges) blast
  then show ?thesis
    using recur_stable assms by (metis nat_le_linear le_add_diff_inverse)
qed

text \<open>A function that follows references gives the same on two graphs that agree on what it meets.\<close>

lemma recur_cong:
  assumes "\<And>u. P u \<Longrightarrow> nxt g' u = nxt g u \<and> base g' u = base g u \<and> cont g' u = cont g u"
    and "\<And>u w. P u \<Longrightarrow> nxt g u = Some w \<Longrightarrow> P w"
  shows "P t \<Longrightarrow> recur body n t g' = recur body n t g"
proof (induction n arbitrary: t)
  case (Suc n)
  then show ?case
    using assms by (cases "nxt g t") (simp_all add: body_eq [of "recur body n"])
qed simp

lemma chain_cong:
  assumes "P t" "\<And>u. P u \<Longrightarrow> nxt g' u = nxt g u \<and> base g' u = base g u \<and> cont g' u = cont g u"
    and "\<And>u w. P u \<Longrightarrow> nxt g u = Some w \<Longrightarrow> P w"
  shows "recur body (chain_depth g') t g' = recur body (chain_depth g) t g"
proof -
  note eq = recur_cong [of P g' g, OF assms(2,3,1)]
  show ?thesis
  proof (cases "recur body (chain_depth g) t g = Inl Diverge")
    case True
    then have "recur body k t g = Inl Diverge" for k
      using follow_forever [of g t k] by (simp add: recur_diverges)
    then show ?thesis using eq True by simp
  next
    case False
    then have "recur body (chain_depth g) t g' \<noteq> Inl Diverge" using eq by simp
    from depth_exact [OF this] show ?thesis using eq by simp
  qed
qed

lemma chain_unfold:
  "recur body (chain_depth g) t g = body (recur body (chain_depth g)) t g"
proof (cases "recur body (Suc (chain_depth g)) t g = Inl Diverge")
  case True
  then have div: "recur body k t g = Inl Diverge" for k
    using follow_forever follow_prefix by (metis le_SucI le_refl recur_diverges)
  have "body (recur body (chain_depth g)) t g = recur body (Suc (chain_depth g)) t g" by simp
  then show ?thesis using div by metis
next
  case False
  from depth_exact [OF this] show ?thesis by simp
qed

end


section \<open>The chains of the virtual functions\<close>

fun size_nxt :: "ty \<Rightarrow> tref option" where
  "size_nxt (Array a) = Some (ar_elementType a)"
| "size_nxt (Typedef td) = Some (td_underlying td)"
| "size_nxt (CaptureKeys c) = Some (ck_underlying c)"
| "size_nxt _ = None"

fun inputName_nxt :: "ty \<Rightarrow> tref option" where
  "inputName_nxt (Incomplete i) = (case in_underlying i of Inl _ \<Rightarrow> None | Inr u \<Rightarrow> Some u)"
| "inputName_nxt (CaptureKeys c) = Some (ck_underlying c)"
| "inputName_nxt _ = None"

fun typedef_nxt :: "ty \<Rightarrow> tref option" where
  "typedef_nxt (Typedef td) = Some (td_underlying td)"
| "typedef_nxt _ = None"

definition nxt_ref :: "(ty \<Rightarrow> tref option) \<Rightarrow> type_graph \<Rightarrow> tref \<Rightarrow> tref option" where
  "nxt_ref f g t = (case deref g t of Inl e \<Rightarrow> None | Inr n \<Rightarrow> f n)"

lemma nxt_ref_owned:
  "(\<And>k. f (Primitive k) = None) \<Longrightarrow> nxt_ref f g t = Some u \<Longrightarrow> t \<in> NodeRef ` {..<length (nodes g)}"
  by (cases t) (auto simp: nxt_ref_def split: if_splits)

lemma deref_returns [simp]: "deref g t \<noteq> Inl Diverge"
  by (cases t) auto

lemma prim_size_returns [simp]: "prim_size k \<noteq> Inl Diverge"
  by (cases k) auto

lemma prim_inputName_returns [simp]: "prim_inputName k \<noteq> Inl Diverge"
  by (cases k) (auto simp: prim_inputName_def)

lemmas nxt_owned_intros =
  nxt_ref_owned [of size_nxt, OF size_nxt.simps(7)]
  nxt_ref_owned [of inputName_nxt, OF inputName_nxt.simps(5)]
  nxt_ref_owned [of typedef_nxt, OF typedef_nxt.simps(5)]

lemmas chain_case_simps = nxt_ref_def bindE_Inl_iff

interpretation sz: reference_chain size_body "nxt_ref size_nxt"
  "\<lambda>g t. size_body (\<lambda>t g. Inr 0) t g"
  "\<lambda>g t s. (case deref g t of Inr (Array a) \<Rightarrow> Inr (ar_len a * s) | _ \<Rightarrow> Inr s)"
  by (unfold_locales; (rule nxt_owned_intros, assumption)?)
    (auto simp: size_body_def chain_case_simps split: sum.splits ty.splits)

interpretation al: reference_chain align_body "nxt_ref size_nxt"
  "\<lambda>g t. align_body (\<lambda>t g. Inr 0) t g" "\<lambda>g t. Inr"
  by (unfold_locales; (rule nxt_owned_intros, assumption)?)
    (auto simp: align_body_def chain_case_simps split: sum.splits ty.splits)

interpretation nm: reference_chain inputName_body "nxt_ref inputName_nxt"
  "\<lambda>g t. inputName_body (\<lambda>t g. Inr []) t g" "\<lambda>g t. Inr"
  by (unfold_locales; (rule nxt_owned_intros, assumption)?)
    (auto simp: inputName_body_def chain_case_simps split: sum.splits ty.splits)

interpretation st: reference_chain stripTypedefs_body "nxt_ref typedef_nxt"
  "\<lambda>g t. stripTypedefs_body (\<lambda>t g. Inr t) t g" "\<lambda>g t. Inr"
  by (unfold_locales; (rule nxt_owned_intros, assumption)?)
    (auto simp: stripTypedefs_body_def chain_case_simps split: sum.splits ty.splits)

lemma type_size_unfold: "type_size g t = size_body (\<lambda>t g'. type_size g t) t g"
  unfolding type_size_def using sz.chain_unfold [of g t]
  by (simp add: size_body_def)

lemma type_align_unfold: "type_align g t = align_body (\<lambda>t g'. type_align g t) t g"
  unfolding type_align_def using al.chain_unfold [of g t]
  by (simp add: align_body_def)

lemma type_inputName_unfold: "type_inputName g t = inputName_body (\<lambda>t g'. type_inputName g t) t g"
  unfolding type_inputName_def using nm.chain_unfold [of g t]
  by (simp add: inputName_body_def)

lemma stripTypedefs_unfold: "stripTypedefs g t = stripTypedefs_body (\<lambda>t g'. stripTypedefs g t) t g"
  unfolding stripTypedefs_def using st.chain_unfold [of g t]
  by (simp add: stripTypedefs_body_def)

section \<open>Well-formed graphs\<close>

text \<open>
  A reference to a type points to a primitive that can be constructed or to a node the graph
  owns; primitives are never owned; the identifiers of the nodes that have one are distinct and below \<open>next_id\<close>; the children
  of a class are classes.
\<close>

fun ctor_of :: "ty \<Rightarrow> nat" where
  "ctor_of (Incomplete i) = 0"
| "ctor_of (Class c) = 1"
| "ctor_of (Container c) = 2"
| "ctor_of (Primitive k) = 3"
| "ctor_of (Enum e) = 4"
| "ctor_of (Array a) = 5"
| "ctor_of (Typedef t) = 6"
| "ctor_of (Pointer p) = 7"
| "ctor_of (Reference r) = 8"
| "ctor_of (Dummy d) = 9"
| "ctor_of (DummyAllocator d) = 10"
| "ctor_of (CaptureKeys c) = 11"

fun in_graph :: "type_graph \<Rightarrow> tref \<Rightarrow> bool" where
  "in_graph g (PrimRef k) = (k \<noteq> Float80)"
| "in_graph g (NodeRef i) = (i < length (nodes g))"

definition wf_refs :: "type_graph \<Rightarrow> bool" where
  "wf_refs g = ((\<forall>n \<in> set (nodes g). (\<forall>t \<in> set (refs n). in_graph g t) \<and> ctor_of n \<noteq> 3) \<and>
     (\<forall>t \<in> set (rootTypes g). in_graph g t))"

definition wf_ids :: "type_graph \<Rightarrow> bool" where
  "wf_ids g = (0 \<le> next_id g \<and>
     (\<forall>i < length (nodes g). has_node_id (node_at g i) \<longrightarrow>
        0 \<le> type_id (node_at g i) \<and> type_id (node_at g i) < next_id g) \<and>
     (\<forall>i < length (nodes g). \<forall>j < length (nodes g).
        has_node_id (node_at g i) \<and> has_node_id (node_at g j) \<and>
        type_id (node_at g i) = type_id (node_at g j) \<longrightarrow> i = j))"

definition wf_children :: "type_graph \<Rightarrow> bool" where
  "wf_children g = (\<forall>n \<in> set (nodes g). \<forall>c. n = Class c \<longrightarrow>
     (\<forall>t \<in> set (cl_children c). \<exists>d. deref g t = Inr (Class d)))"

definition wf_graph :: "type_graph \<Rightarrow> bool" where
  "wf_graph g = (wf_refs g \<and> wf_ids g \<and> wf_children g)"

lemma deref_in_graph: "in_graph g t \<Longrightarrow> \<exists>n. deref g t = Inr n"
  by (cases t) auto

lemma deref_node [simp]: "i < length (nodes g) \<Longrightarrow> deref g (NodeRef i) = Inr (node_at g i)"
  by (simp add: node_at_def)

lemma wf_refsD:
  "wf_refs g \<Longrightarrow> i < length (nodes g) \<Longrightarrow> t \<in> set (refs (node_at g i)) \<Longrightarrow> in_graph g t"
  unfolding wf_refs_def node_at_def using nth_mem by blast

lemma type_id_noid: "\<not> has_node_id n \<Longrightarrow> type_id n = - 1"
  by (cases n) auto

lemma wf_idsD:
  assumes "wf_ids g" "i < length (nodes g)"
  shows "0 \<le> type_id (node_at g i) \<longleftrightarrow> has_node_id (node_at g i)"
    "has_node_id (node_at g i) \<Longrightarrow> type_id (node_at g i) < next_id g"
    "has_node_id (node_at g i) \<Longrightarrow> j < length (nodes g) \<Longrightarrow> has_node_id (node_at g j) \<Longrightarrow>
       type_id (node_at g i) = type_id (node_at g j) \<longleftrightarrow> i = j"
proof -
  show "0 \<le> type_id (node_at g i) \<longleftrightarrow> has_node_id (node_at g i)"
    using assms type_id_noid [of "node_at g i"]
    by (cases "has_node_id (node_at g i)") (auto simp: wf_ids_def)
qed (use assms in \<open>auto simp: wf_ids_def\<close>)

text \<open>What the creation of a node keeps.\<close>

lemma node_at_append:
  "nodes g' = nodes g @ [n] \<Longrightarrow> i < length (nodes g) \<Longrightarrow> node_at g' i = node_at g i"
  "nodes g' = nodes g @ [n] \<Longrightarrow> node_at g' (length (nodes g)) = n"
  by (simp_all add: node_at_def nth_append)

lemma make_type_wf:
  assumes "wf_graph g" and "make_type mk g = (t, g')"
    and "type_id (mk (next_id g)) = next_id g" and "has_node_id (mk (next_id g))"
    and "\<forall>u \<in> set (refs (mk (next_id g))). in_graph g u"
    and "\<And>c. mk (next_id g) = Class c \<Longrightarrow> cl_children c = []"
  shows "wf_graph g'" "t = NodeRef (length (nodes g))" "deref g' t = Inr (mk (next_id g))"
    "next_id g' = next_id g + 1" "nodes g' = nodes g @ [mk (next_id g)]"
proof -
  let ?n = "mk (next_id g)"
  have g': "g' = g\<lparr>next_id := next_id g + 1, nodes := nodes g @ [?n]\<rparr>"
    and t: "t = NodeRef (length (nodes g))"
    using assms(2) by (auto simp: make_type_def make_type_id_def)
  have grow: "in_graph g u \<Longrightarrow> in_graph g' u" for u by (cases u) (auto simp: g')
  have "ctor_of ?n \<noteq> 3" using assms(4) by (cases ?n) simp_all
  then have "wf_refs g'"
    using assms(1,5) grow by (auto simp: wf_graph_def wf_refs_def g')
  moreover have "wf_ids g'"
  proof -
    have app: "nodes g' = nodes g @ [?n]" by (simp add: g')
    have ids: "wf_ids g" using assms(1) by (simp add: wf_graph_def)
    have old: "node_at g' i = node_at g i" if "i < length (nodes g)" for i
      using node_at_append(1) [OF app that] .
    have new: "node_at g' (length (nodes g)) = ?n"
      using node_at_append(2) [OF app] .
    have bounds: "0 \<le> type_id (node_at g' i) \<and> type_id (node_at g' i) < next_id g'"
      if "i < length (nodes g')" "has_node_id (node_at g' i)" for i
    proof (cases "i < length (nodes g)")
      case True
      then show ?thesis using that wf_idsD(1,2) [OF ids True] old by (simp add: g')
    next
      case False
      then have "i = length (nodes g)" using that by (simp add: g')
      then show ?thesis using new assms(3) ids by (simp add: g' wf_ids_def)
    qed
    have "i = j" if lt: "i < length (nodes g')" "j < length (nodes g')"
      and same: "has_node_id (node_at g' i)" "has_node_id (node_at g' j)"
      "type_id (node_at g' i) = type_id (node_at g' j)" for i j
    proof -
      consider "i < length (nodes g)" "j < length (nodes g)"
        | "i < length (nodes g)" "j = length (nodes g)"
        | "i = length (nodes g)" "j < length (nodes g)"
        | "i = length (nodes g)" "j = length (nodes g)"
        using lt by (auto simp: app less_Suc_eq)
      then show ?thesis
        using same wf_idsD(2,3) [OF ids] old new assms(3)
        by cases (auto dest: less_imp_neq)
    qed
    with bounds show ?thesis using ids by (auto simp: wf_ids_def g')
  qed
  moreover have "wf_children g'"
    unfolding wf_children_def
  proof (intro ballI allI impI)
    fix n c u assume n: "n \<in> set (nodes g')" "n = Class c" "u \<in> set (cl_children c)"
    then have "\<exists>d. deref g u = Inr (Class d)"
      using assms(1,6) by (auto simp: g' wf_graph_def wf_children_def)
    then show "\<exists>d. deref g' u = Inr (Class d)"
      by (cases u) (auto simp: g' nth_append split: if_splits)
  qed
  ultimately show "wf_graph g'" by (simp add: wf_graph_def)
  show "t = NodeRef (length (nodes g))" by (rule t)
  show "deref g' t = Inr ?n" "next_id g' = next_id g + 1" "nodes g' = nodes g @ [?n]"
    by (simp_all add: t g' nth_append)
qed

text \<open>
  What every pass keeps of a graph while it runs: the nodes it started from stay, each with its
  identifier and its class, and new ones are only appended.
\<close>

lemma ctor_of_has_id: "ctor_of n = ctor_of n' \<Longrightarrow> has_node_id n = has_node_id n'"
  by (cases n; cases n') simp_all

lemma ctor_of_iff:
  "ctor_of n = Suc 0 \<longleftrightarrow> (\<exists>c. n = Class c)" "ctor_of n = 0 \<longleftrightarrow> (\<exists>c. n = Incomplete c)"
  "ctor_of n = 2 \<longleftrightarrow> (\<exists>c. n = Container c)"
  "ctor_of n = 3 \<longleftrightarrow> (\<exists>k. n = Primitive k)" "ctor_of n = 11 \<longleftrightarrow> (\<exists>k. n = CaptureKeys k)"
  by (cases n; simp)+

text \<open>The same, as a check that evaluates on a concrete graph.\<close>

definition wf_check :: "type_graph \<Rightarrow> bool" where
  "wf_check g = (let ns = nodes g; ids = [0..<length ns] in
     list_all (\<lambda>n. list_all (in_graph g) (refs n) \<and> ctor_of n \<noteq> 3) ns \<and> list_all (in_graph g) (rootTypes g) \<and>
     0 \<le> next_id g \<and>
     list_all (\<lambda>n. has_node_id n \<longrightarrow> 0 \<le> type_id n \<and> type_id n < next_id g) ns \<and>
     list_all (\<lambda>i. list_all (\<lambda>j. has_node_id (ns ! i) \<and> has_node_id (ns ! j) \<and>
       type_id (ns ! i) = type_id (ns ! j) \<longrightarrow> i = j) ids) ids \<and>
     list_all (\<lambda>n. case n of Class c \<Rightarrow> list_all (\<lambda>t. case deref g t of
         Inl e \<Rightarrow> False | Inr m \<Rightarrow> ctor_of m = 1) (cl_children c) | _ \<Rightarrow> True) ns)"

lemma wf_checkD:
  assumes "wf_check g"
  shows "wf_graph g"
proof -
  note wf = assms [unfolded wf_check_def Let_def list_all_iff]
  have "wf_refs g" unfolding wf_refs_def using wf by blast
  moreover have "wf_ids g"
    unfolding wf_ids_def node_at_def
  proof (intro conjI allI impI)
    show "0 \<le> next_id g" using wf by blast
    fix i assume i: "i < length (nodes g)"
    then have "i \<in> set [0..<length (nodes g)]" by simp
    note pair = wf [THEN conjunct2, THEN conjunct2, THEN conjunct2, THEN conjunct2, THEN conjunct1,
      rule_format, OF this]
    have "has_node_id (nodes g ! i) \<longrightarrow> 0 \<le> type_id (nodes g ! i) \<and> type_id (nodes g ! i) < next_id g"
      using wf nth_mem [OF i] by blast
    then show "has_node_id (nodes g ! i) \<Longrightarrow> 0 \<le> type_id (nodes g ! i)"
      "has_node_id (nodes g ! i) \<Longrightarrow> type_id (nodes g ! i) < next_id g"
      by blast+
    fix j assume j: "j < length (nodes g)" "has_node_id (nodes g ! i) \<and> has_node_id (nodes g ! j) \<and>
      type_id (nodes g ! i) = type_id (nodes g ! j)"
    from j(1) have "j \<in> set [0..<length (nodes g)]" by simp
    from pair [OF this j(2)] show "i = j" .
  qed
  moreover have "wf_children g"
    unfolding wf_children_def
  proof (intro ballI allI impI)
    fix n c t assume n: "n \<in> set (nodes g)" "n = Class c" "t \<in> set (cl_children c)"
    from wf [THEN conjunct2, THEN conjunct2, THEN conjunct2, THEN conjunct2, THEN conjunct2,
      rule_format, OF n(1)] n(2,3)
    show "\<exists>d. deref g t = Inr (Class d)"
      by (cases "deref g t") (auto simp: ctor_of_iff split: sum.splits)
  qed
  ultimately show ?thesis unfolding wf_graph_def by blast
qed

definition extends :: "type_graph \<Rightarrow> type_graph \<Rightarrow> bool" where
  "extends g g' = (length (nodes g) \<le> length (nodes g') \<and> next_id g \<le> next_id g' \<and>
     rootTypes g' = rootTypes g \<and>
     (\<forall>i < length (nodes g). type_id (node_at g' i) = type_id (node_at g i) \<and>
        ctor_of (node_at g' i) = ctor_of (node_at g i)))"

lemma extends_refl [simp]: "extends g g"
  by (simp add: extends_def)

lemma extends_trans: "extends g g' \<Longrightarrow> extends g' g'' \<Longrightarrow> extends g g''"
  by (auto simp: extends_def)

lemma extends_ctor:
  "extends g g' \<Longrightarrow> i < length (nodes g) \<Longrightarrow> ctor_of (node_at g' i) = ctor_of (node_at g i)"
  "extends g g' \<Longrightarrow> i < length (nodes g) \<Longrightarrow> type_id (node_at g' i) = type_id (node_at g i)"
  by (simp_all add: extends_def)

lemma extends_in_graph: "extends g g' \<Longrightarrow> in_graph g t \<Longrightarrow> in_graph g' t"
  by (cases t) (auto simp: extends_def)

lemma extends_deref:
  assumes "extends g g'" "deref g t = Inr n"
  shows "\<exists>n'. deref g' t = Inr n' \<and> ctor_of n' = ctor_of n \<and> type_id n' = type_id n"
proof (cases t)
  case (NodeRef i)
  then have "i < length (nodes g)" using assms(2) by (auto split: if_splits)
  moreover from this have "i < length (nodes g')" using assms(1) by (simp add: extends_def)
  ultimately show ?thesis using assms NodeRef by (simp add: extends_def del: deref.simps)
qed (use assms in simp)

lemma node_at_put [simp]:
  "i < length (nodes g) \<Longrightarrow> node_at (put_node (NodeRef i) n g) j = (if i = j then n else node_at g j)"
  by (auto simp: node_at_def nth_list_update)

lemma put_node_fields [simp]:
  "length (nodes (put_node t n g)) = length (nodes g)" "next_id (put_node t n g) = next_id g"
  "rootTypes (put_node t n g) = rootTypes g" "finalTypes (put_node t n g) = finalTypes g"
  by (cases t; simp)+

declare put_node.simps(2) [simp del] deref.simps(2) [simp del]

lemma deref_owned:
  assumes "deref g (NodeRef i) = Inr n"
  shows "i < length (nodes g)" "node_at g i = n"
  using assms by (auto simp: node_at_def deref.simps split: if_splits)

lemma deref_owner:
  assumes "deref g t = Inr n" "ctor_of n \<noteq> 3"
  obtains i where "t = NodeRef i" "i < length (nodes g)" "node_at g i = n"
proof (cases t)
  case (NodeRef i)
  from that [OF this deref_owned [OF assms(1) [unfolded this]]] show ?thesis .
qed (use assms in auto)

lemma extends_put:
  assumes "deref g t = Inr n" "type_id n' = type_id n" "ctor_of n' = ctor_of n"
  shows "extends g (put_node t n' g)"
proof (cases t)
  case (NodeRef i)
  note own = deref_owned [OF assms(1) [unfolded NodeRef]]
  show ?thesis using assms(2,3) own NodeRef by (auto simp: extends_def)
qed simp

lemma wf_ids_put:
  assumes "wf_ids g" "deref g t = Inr n" "type_id n' = type_id n" "ctor_of n' = ctor_of n"
  shows "wf_ids (put_node t n' g)"
proof (cases t)
  case (NodeRef i)
  note own = deref_owned [OF assms(2) [unfolded NodeRef]]
  have "type_id (node_at (put_node t n' g) j) = type_id (node_at g j)"
    "has_node_id (node_at (put_node t n' g) j) = has_node_id (node_at g j)"
    for j using own NodeRef assms(3) ctor_of_has_id [OF assms(4)] by auto
  then show ?thesis using assms(1) by (simp add: wf_ids_def)
qed (use assms in simp)

lemma in_graph_put [simp]: "in_graph (put_node t n g) u = in_graph g u"
  by (cases u) auto

lemma wf_refs_put:
  assumes "wf_refs g" "\<forall>u \<in> set (refs n'). in_graph g u" "ctor_of n' \<noteq> 3"
  shows "wf_refs (put_node t n' g)"
proof (cases t)
  case (NodeRef i)
  have "set (nodes (put_node t n' g)) \<subseteq> insert n' (set (nodes g))"
    using set_update_subset_insert by (simp add: NodeRef put_node.simps(2))
  then show ?thesis using assms unfolding wf_refs_def by auto
qed (use assms in simp)

lemma put_node_self: "deref g t = Inr n \<Longrightarrow> put_node t n g = g"
  by (cases t) (auto simp: put_node.simps deref.simps split: if_splits)

lemma put_put [simp]: "put_node t n (put_node t n' g) = put_node t n g"
  by (cases t) (simp_all add: put_node.simps)

lemma deref_put: "deref g (NodeRef i) = Inr m \<Longrightarrow> deref (put_node (NodeRef i) n g) (NodeRef i) = Inr n"
  using deref_owned [of g i m] by simp

section \<open>Growing graphs\<close>

text \<open>Names exist for all types of a graph.\<close>

lemma prim_name_ok: "k \<noteq> Float80 \<Longrightarrow> \<exists>nm. prim_name k = Inr nm"
  by (cases k) auto

lemma type_name_ok:
  assumes "wf_refs g" "in_graph g t"
  shows "\<exists>nm. type_name g t = Inr nm"
proof (cases t)
  case (PrimRef k)
  then show ?thesis using assms(2) prim_name_ok by (simp add: type_name_def)
next
  case (NodeRef i)
  then have "node_at g i \<in> set (nodes g)" using assms(2) by (simp add: node_at_def)
  then have "ctor_of (node_at g i) \<noteq> 3" using assms(1) by (simp add: wf_refs_def)
  then show ?thesis using NodeRef assms(2) by (cases "node_at g i") (simp_all add: type_name_def)
qed

lemma wf_graph_put:
  assumes "wf_graph g" "deref g t = Inr n" "type_id n' = type_id n" "ctor_of n' = ctor_of n"
    and "\<forall>u \<in> set (refs n'). in_graph g u"
    and "\<And>c u. n' = Class c \<Longrightarrow> u \<in> set (cl_children c) \<Longrightarrow> \<exists>d. deref g u = Inr (Class d)"
  shows "wf_graph (put_node t n' g)"
proof -
  have ext: "extends g (put_node t n' g)" using assms(2-4) by (rule extends_put)
  have "wf_children (put_node t n' g)"
    unfolding wf_children_def
  proof (intro ballI allI impI)
    fix m c u assume m: "m \<in> set (nodes (put_node t n' g))" "m = Class c" "u \<in> set (cl_children c)"
    have "m \<in> set (nodes g) \<or> m = n'"
      using m(1) set_update_subset_insert by (cases t) (fastforce simp: put_node.simps)+
    then obtain d where "deref g u = Inr (Class d)"
      using assms(1,6) m(2,3) unfolding wf_graph_def wf_children_def by blast
    then show "\<exists>d. deref (put_node t n' g) u = Inr (Class d)"
      using extends_deref [OF ext] by (fastforce simp: ctor_of_iff)
  qed
  moreover have "wf_refs (put_node t n' g)"
  proof (cases t)
    case (NodeRef i)
    have "n \<in> set (nodes g)"
      using deref_owned [OF assms(2) [unfolded NodeRef]] nth_mem by (auto simp: node_at_def)
    then have "ctor_of n' \<noteq> 3" using assms(1,4) by (auto simp: wf_graph_def wf_refs_def)
    then show ?thesis using assms(1,5) wf_refs_put by (simp add: wf_graph_def)
  qed (use assms in \<open>simp add: wf_graph_def\<close>)
  ultimately show ?thesis
    using assms wf_ids_put by (auto simp: wf_graph_def)
qed

lemma make_type_extends:
  assumes "make_type mk g = (t, g')" "type_id (mk (next_id g)) = next_id g"
  shows "extends g g'"
proof -
  have "nodes g' = nodes g @ [mk (next_id g)]" "next_id g' = next_id g + 1" "rootTypes g' = rootTypes g"
    using assms by (auto simp: make_type_def make_type_id_def)
  then show ?thesis by (simp add: extends_def node_at_append)
qed

lemma make_array_spec:
  assumes "wf_graph g" "in_graph g t"
  shows "\<exists>a g'. make_array t len g = Inr (NodeRef (length (nodes g)), g') \<and> wf_graph g' \<and>
     extends g g' \<and> nodes g' = nodes g @ [Array a] \<and> ar_elementType a = t \<and> ar_len a = len \<and>
     finalTypes g' = finalTypes g"
proof -
  obtain nm where nm: "array_name g t len = Inr nm"
    using type_name_ok [OF _ assms(2)] assms(1) by (auto simp: array_name_def wf_graph_def)
  define mk where "mk = (\<lambda>nid. Array \<lparr>ar_id = nid, ar_elementType = t, ar_inputName = '''',
    ar_len = len, ar_name = nm\<rparr>)"
  obtain u g' where ug: "make_type mk g = (u, g')" by (cases "make_type mk g")
  have "make_array t len g = Inr (u, g')" using nm ug by (simp add: make_array_def mk_def)
  moreover have "wf_graph g'" "u = NodeRef (length (nodes g))" "nodes g' = nodes g @ [mk (next_id g)]"
    using make_type_wf [OF assms(1) ug] assms(2) by (simp_all add: mk_def)
  moreover have "extends g g'" using make_type_extends [OF ug] by (simp add: mk_def)
  moreover have "finalTypes g' = finalTypes g"
    using ug by (auto simp: make_type_def make_type_id_def)
  ultimately show ?thesis by (auto simp: mk_def)
qed

text \<open>
  The size of a type depends on the size of the classes, on the elements of the arrays and on the
  types behind typedefs, not on the members of classes.
\<close>

definition same_size :: "ty \<Rightarrow> ty \<Rightarrow> bool" where
  "same_size n n' \<longleftrightarrow> n' = n \<or> (\<exists>c c'. n = Class c \<and> n' = Class c' \<and> cl_size c' = cl_size c)"

lemma same_size_refl [simp]: "same_size n n"
  by (simp add: same_size_def)

lemma type_size_cong:
  assumes "wf_refs g" "in_graph g t" and same: "\<And>i. i < length (nodes g) \<Longrightarrow>
    i < length (nodes g') \<and> same_size (node_at g i) (node_at g' i)"
  shows "type_size g' t = type_size g t"
  unfolding type_size_def
proof (rule sz.chain_cong [where P = "in_graph g", OF assms(2)])
  fix u assume "in_graph g u"
  then show "nxt_ref size_nxt g' u = nxt_ref size_nxt g u \<and>
      size_body (\<lambda>t g. Inr 0) u g' = size_body (\<lambda>t g. Inr 0) u g \<and>
      (\<lambda>s. case deref g' u of Inr (Array a) \<Rightarrow> Inr (ar_len a * s) | _ \<Rightarrow> Inr s) =
      (\<lambda>s. case deref g u of Inr (Array a) \<Rightarrow> Inr (ar_len a * s) | _ \<Rightarrow> Inr s)"
    using same by (cases u) (auto simp: nxt_ref_def size_body_def same_size_def dest!: same)
next
  fix u w assume u: "in_graph g u" "nxt_ref size_nxt g u = Some w"
  then obtain n where n: "deref g u = Inr n" "size_nxt n = Some w" using deref_in_graph by (fastforce simp: nxt_ref_def)
  then have "w \<in> set (refs n)" by (cases n) auto
  then show "in_graph g w" using wf_refsD [OF assms(1)] n(1) u(1) by (cases u) auto
qed

text \<open>A node without an identifier is appended.\<close>

lemma deref_append:
  "nodes g' = nodes g @ new \<Longrightarrow> deref g t = Inr n \<Longrightarrow> deref g' t = Inr n"
  by (cases t) (auto simp: deref.simps nth_append split: if_splits)

lemma append_wf:
  assumes "wf_graph g" "\<not> has_node_id n" "ctor_of n \<noteq> 3" "\<forall>u \<in> set (refs n). in_graph g u"
    "g' = g\<lparr>nodes := nodes g @ [n]\<rparr>"
  shows "wf_graph g'"
proof -
  have grow: "in_graph g u \<Longrightarrow> in_graph g' u" for u by (cases u) (auto simp: assms(5))
  have "wf_refs g'" using assms(1,3,4) grow by (auto simp: wf_graph_def wf_refs_def assms(5))
  moreover have at: "node_at g' i = (if i < length (nodes g) then node_at g i else n)"
    if "i < length (nodes g')" for i using that by (auto simp: assms(5) node_at_def nth_append)
  have "wf_ids g'"
    using assms(1,2) unfolding wf_graph_def wf_ids_def by (auto simp: at) (auto simp: assms(5) split: if_splits)
  moreover have "wf_children g'"
    unfolding wf_children_def
  proof (intro ballI allI impI)
    fix m c u assume m: "m \<in> set (nodes g')" "m = Class c" "u \<in> set (cl_children c)"
    then have "m \<in> set (nodes g)" using assms(2) by (auto simp: assms(5))
    then obtain d where "deref g u = Inr (Class d)" using assms(1) m(2,3) unfolding wf_graph_def wf_children_def by blast
    then have "deref g' u = Inr (Class d)" using deref_append [of g' g "[n]"] by (simp add: assms(5))
    then show "\<exists>d. deref g' u = Inr (Class d)" by blast
  qed
  ultimately show ?thesis by (simp add: wf_graph_def)
qed

end
