(* ===== verification/Visitor.thy ===== *)
theory Visitor
  imports TG_Graph
begin

text \<open>
  \<^verbatim>\<open>oi/type_graph/Visitor.h\<close>, and the contracts the walks over a type graph share: what holds between
  any two states of a depth-first walk (\<open>walk_frame\<close>), its termination and its result
  (\<open>node_walk\<close>), and the walks that proceed in fixed steps (\<open>node_pass\<close>).
\<close>

section \<open>The recursive visitor\<close>

text \<open>
  \<^verbatim>\<open>RecursiveVisitor::visit\<close>: each type accepts the types it holds, in the order of \<open>succs\<close>;
  a null \<^verbatim>\<open>underlying\<close> is skipped.
\<close>

definition recursive_visit :: "(tref \<Rightarrow> 's \<Rightarrow> 's outcome) \<Rightarrow> ty \<Rightarrow> 's \<Rightarrow> 's outcome" where
  "recursive_visit accept n s = (case n of
      Class c \<Rightarrow>
        bindE (for_each (\<lambda>p. accept (tp_type p)) (cl_templateParams c) s) (\<lambda>s.
        bindE (for_each (\<lambda>p. accept (p_type p)) (cl_parents c) s) (\<lambda>s.
        bindE (for_each (\<lambda>m. accept (m_type m)) (cl_members c) s) (\<lambda>s.
        for_each accept (cl_children c) s)))
    | Container c \<Rightarrow>
        bindE (for_each (\<lambda>p. accept (tp_type p)) (co_templateParams c) s) (\<lambda>s.
        case co_underlying c of None \<Rightarrow> Inr s | Some u \<Rightarrow> accept u s)
    | Array a \<Rightarrow> accept (ar_elementType a) s
    | Typedef td \<Rightarrow> accept (td_underlying td) s
    | Pointer p \<Rightarrow> accept (pt_pointee p) s
    | Reference r \<Rightarrow> accept (rf_pointee r) s
    | DummyAllocator d \<Rightarrow> accept (da_type d) s
    | CaptureKeys c \<Rightarrow> accept (ck_underlying c) s
    | _ \<Rightarrow> Inr s)"

lemma recursive_visit_succs: "recursive_visit accept n s = for_each accept (succs n) s"
  by (auto simp: recursive_visit_def for_each_fun for_each_map_fun split: ty.splits option.splits)

section \<open>The frame of a walk\<close>

text \<open>
  What every depth-first walk over a type graph shares. A walk marks nodes (\<open>seen\<close>, those that are
  \<open>markable\<close>), changes only the node it is on, and leaves it once it satisfies \<open>final\<close> and all of
  \<open>cov\<close> is marked. \<open>n0\<close> are the nodes at the start, \<open>N\<close> their number, \<open>U\<close> the references the walk can
  meet, \<open>ok\<close> the invariant of the states and \<open>frame\<close> what later states keep of earlier ones. Where
  \<open>dag\<close> holds, a visit accepts only types of lower \<open>height\<close>; what it has accepted is then left already,
  not still under way further up.
\<close>

locale walk_frame =
  fixes gr :: "'s \<Rightarrow> type_graph"
    and seen :: "'s \<Rightarrow> tref \<Rightarrow> bool"
    and markable :: "tref \<Rightarrow> bool"
    and N :: nat and n0 :: "nat \<Rightarrow> ty" and U :: "tref set"
    and ok :: "'s \<Rightarrow> bool"
    and frame :: "'s \<Rightarrow> 's \<Rightarrow> bool"
    and cov :: "tref \<Rightarrow> tref list"
    and final :: "'s \<Rightarrow> tref \<Rightarrow> bool"
    and errs :: "error set"
    and dag :: bool and height :: "tref \<Rightarrow> nat"
  assumes universe: "NodeRef i \<in> U \<Longrightarrow> i < N"
    and frame_refl: "frame s s"
    and frame_trans: "frame s s' \<Longrightarrow> frame s' s'' \<Longrightarrow> frame s s''"
    and final_stable: "final s t \<Longrightarrow> frame s s' \<Longrightarrow>
      (\<And>i. t = NodeRef i \<Longrightarrow> node_at (gr s') i = node_at (gr s) i) \<Longrightarrow> final s' t"
begin

definition fresh :: "'s \<Rightarrow> 's \<Rightarrow> nat \<Rightarrow> bool" where
  "fresh s s' i \<longleftrightarrow> seen s' (NodeRef i) \<and> \<not> seen s (NodeRef i)"

definition finished :: "'s \<Rightarrow> nat \<Rightarrow> bool" where
  "finished s i \<longleftrightarrow> NodeRef i \<in> U \<and> final s (NodeRef i) \<and>
     (\<forall>u \<in> set (cov (NodeRef i)). markable u \<longrightarrow> seen s u)"

definition pass_inv :: "'s \<Rightarrow> bool" where
  "pass_inv s \<longleftrightarrow> ok s \<and> (\<forall>i < N. \<not> seen s (NodeRef i) \<longrightarrow> node_at (gr s) i = n0 i)"

definition pass_rel :: "'s \<Rightarrow> 's \<Rightarrow> bool" where
  "pass_rel s s' \<longleftrightarrow> frame s s' \<and> (\<forall>u. seen s u \<longrightarrow> seen s' u) \<and>
     (\<forall>i < N. if fresh s s' i then finished s' i else node_at (gr s') i = node_at (gr s) i)"

definition left_below :: "tref \<Rightarrow> 's \<Rightarrow> bool" where
  "left_below t s \<longleftrightarrow> (dag \<longrightarrow> (\<forall>i < N. seen s (NodeRef i) \<and> height (NodeRef i) \<le> height t \<longrightarrow> finished s i))"

definition pass_arg :: "tref \<Rightarrow> 's \<Rightarrow> bool" where
  "pass_arg t s \<longleftrightarrow> t \<in> U \<and> left_below t s"

definition pass_post :: "tref \<Rightarrow> 's \<Rightarrow> bool" where
  "pass_post t s \<longleftrightarrow> (markable t \<longrightarrow> seen s t \<and> (\<forall>i. dag \<and> t = NodeRef i \<longrightarrow> finished s i))"

definition pass_rank :: "tref \<Rightarrow> 's \<Rightarrow> nat" where
  "pass_rank t s = card {i. i < N \<and> \<not> seen s (NodeRef i)}"

lemma pass_invD: "pass_inv s \<Longrightarrow> ok s"
  by (simp add: pass_inv_def)

lemma pass_rel_refl: "pass_rel s s"
  by (simp add: pass_rel_def frame_refl fresh_def)

lemma finished_stable:
  assumes "finished s i" "frame s s'" "\<And>u. seen s u \<Longrightarrow> seen s' u"
    "node_at (gr s') i = node_at (gr s) i"
  shows "finished s' i"
  using assms final_stable [of s "NodeRef i" s'] by (auto simp: finished_def)

lemma pass_rel_trans:
  assumes "pass_rel s s'" "pass_rel s' s''"
  shows "pass_rel s s''"
proof -
  have "if fresh s s'' i then finished s'' i else node_at (gr s'') i = node_at (gr s) i" if "i < N" for i
  proof (cases "fresh s s' i")
    case True
    then have "\<not> fresh s' s'' i" "fresh s s'' i" using assms by (auto simp: fresh_def pass_rel_def)
    moreover from True have "finished s' i" using assms(1) that by (auto simp: pass_rel_def)
    ultimately have "finished s'' i"
      using assms(2) that finished_stable [of s' i s''] by (auto simp: pass_rel_def)
    then show ?thesis using \<open>fresh s s'' i\<close> by simp
  next
    case False
    then have "fresh s s'' i = fresh s' s'' i" using assms by (auto simp: fresh_def pass_rel_def)
    then show ?thesis using assms that False by (auto simp: pass_rel_def)
  qed
  moreover have "frame s s''" using assms frame_trans by (auto simp: pass_rel_def)
  ultimately show ?thesis using assms by (auto simp: pass_rel_def)
qed

lemma rel_finished: "pass_rel s s' \<Longrightarrow> i < N \<Longrightarrow> seen s (NodeRef i) \<Longrightarrow> finished s i \<Longrightarrow> finished s' i"
  using finished_stable [of s i s'] by (auto simp: pass_rel_def fresh_def)

lemma left_belowD:
  "left_below t s \<Longrightarrow> dag \<Longrightarrow> i < N \<Longrightarrow> seen s (NodeRef i) \<Longrightarrow> height (NodeRef i) \<le> height t \<Longrightarrow> finished s i"
  unfolding left_below_def by blast

lemma pass_arg_rel:
  assumes "pass_arg t s" "pass_rel s s'"
  shows "pass_arg t s'"
proof -
  have "finished s' i" if i: "dag" "i < N" "seen s' (NodeRef i)" "height (NodeRef i) \<le> height t" for i
  proof (cases "seen s (NodeRef i)")
    case True
    then have "finished s i" using assms(1) left_belowD i unfolding pass_arg_def by blast
    then show ?thesis using rel_finished [OF assms(2)] i(2) True by blast
  next
    case False
    then show ?thesis using assms(2) i(2,3) unfolding pass_rel_def fresh_def by presburger
  qed
  then show ?thesis using assms(1) unfolding pass_arg_def left_below_def by blast
qed

lemma pass_post_rel:
  assumes "pass_post t s" "pass_rel s s'"
  shows "pass_post t s'"
proof -
  have "finished s' i" if "dag" "t = NodeRef i" "markable t" for i
  proof -
    have "finished s i" "seen s (NodeRef i)"
      using assms(1) that unfolding pass_post_def by blast+
    moreover from this(1) have "i < N" using universe unfolding finished_def by blast
    ultimately show ?thesis using rel_finished [OF assms(2)] by blast
  qed
  then show ?thesis using assms unfolding pass_post_def pass_rel_def by blast
qed

text \<open>The relation between the state before a visit of \<open>t\<close> and the states within it.\<close>

definition progress :: "tref \<Rightarrow> 's \<Rightarrow> 's \<Rightarrow> bool" where
  "progress t s s' \<longleftrightarrow> ok s' \<and> frame s s' \<and> (\<forall>u. seen s u \<longrightarrow> seen s' u) \<and> (markable t \<longrightarrow> seen s' t) \<and>
     (\<forall>i < N. NodeRef i \<noteq> t \<or> \<not> markable t \<longrightarrow>
        (if fresh s s' i then finished s' i else node_at (gr s') i = node_at (gr s) i))"

lemma progressD: "progress t s s' \<Longrightarrow> ok s'" "progress t s s' \<Longrightarrow> frame s s'"
  "progress t s s' \<Longrightarrow> markable t \<Longrightarrow> seen s' t"
  by (simp_all add: progress_def)

lemma progress_start:
  assumes "ok s1" "frame s s1" "\<And>u. seen s1 u \<longleftrightarrow> seen s u \<or> u = t \<and> markable t"
    "\<And>i. i < N \<Longrightarrow> NodeRef i \<noteq> t \<or> \<not> markable t \<Longrightarrow> node_at (gr s1) i = node_at (gr s) i"
  shows "progress t s s1"
  using assms by (auto simp: progress_def fresh_def)

lemma progress_change:
  assumes "progress t s s1" "ok s2" "frame s1 s2" "\<And>u. seen s2 u \<longleftrightarrow> seen s1 u"
    "\<And>i. i < N \<Longrightarrow> NodeRef i \<noteq> t \<or> \<not> markable t \<Longrightarrow> node_at (gr s2) i = node_at (gr s1) i"
  shows "progress t s s2"
proof -
  have "frame s s2" using assms frame_trans by (auto simp: progress_def)
  moreover have "if fresh s s2 i then finished s2 i else node_at (gr s2) i = node_at (gr s) i"
    if "i < N" "NodeRef i \<noteq> t \<or> \<not> markable t" for i
    using assms that finished_stable [of s1 i s2] by (auto simp: progress_def fresh_def)
  ultimately show ?thesis using assms by (auto simp: progress_def)
qed

lemma progress_rel:
  assumes "progress t s s1" "pass_rel s1 s2" "ok s2"
  shows "progress t s s2"
proof -
  have "frame s s2" using assms frame_trans by (auto simp: progress_def pass_rel_def)
  moreover have "if fresh s s2 i then finished s2 i else node_at (gr s2) i = node_at (gr s) i"
    if i: "i < N" "NodeRef i \<noteq> t \<or> \<not> markable t" for i
  proof (cases "fresh s s1 i")
    case True
    then have "\<not> fresh s1 s2 i" "fresh s s2 i" using assms by (auto simp: fresh_def pass_rel_def)
    then show ?thesis
      using assms i True finished_stable [of s1 i s2] by (auto simp: progress_def pass_rel_def)
  next
    case False
    then have "fresh s s2 i = fresh s1 s2 i"
      using assms by (auto simp: fresh_def progress_def pass_rel_def)
    then show ?thesis using assms i False by (auto simp: progress_def pass_rel_def)
  qed
  ultimately show ?thesis using assms by (auto simp: progress_def pass_rel_def)
qed

lemma progress_inv:
  assumes "pass_inv s" "progress t s s'"
  shows "pass_inv s'"
proof -
  have "node_at (gr s') i = n0 i" if i: "i < N" "\<not> seen s' (NodeRef i)" for i
  proof -
    have "NodeRef i \<noteq> t \<or> \<not> markable t" "\<not> fresh s s' i" "\<not> seen s (NodeRef i)"
      using assms(2) i by (auto simp: progress_def fresh_def)
    then show ?thesis using assms(1,2) i by (auto simp: progress_def pass_inv_def)
  qed
  then show ?thesis using assms(2) by (simp add: pass_inv_def progress_def)
qed

lemma progress_end:
  assumes w: "progress t s s'" and nseen: "\<not> seen s t" and "t \<in> U" and fin: "final s' t"
    and cov: "\<forall>u \<in> set (cov t). markable u \<longrightarrow> seen s' u"
  shows "pass_rel s s'"
proof -
  have "if fresh s s' i then finished s' i else node_at (gr s') i = node_at (gr s) i" if "i < N" for i
  proof (cases "NodeRef i = t \<and> markable t")
    case True
    then have "fresh s s' i" using w nseen by (auto simp: fresh_def progress_def)
    moreover have "finished s' i"
      unfolding finished_def using True fin cov \<open>t \<in> U\<close> by blast
    ultimately show ?thesis by simp
  qed (use w that in \<open>auto simp: progress_def\<close>)
  then show ?thesis using w by (auto simp: progress_def pass_rel_def)
qed

text \<open>What a visit of \<open>t\<close> that began in \<open>s\<close> may rely on when it accepts a type.\<close>

definition later :: "'s \<Rightarrow> 's \<Rightarrow> bool" where
  "later s s' \<longleftrightarrow> frame s s' \<and> (\<forall>u. seen s u \<longrightarrow> seen s' u) \<and>
     (\<forall>i < N. seen s (NodeRef i) \<longrightarrow> node_at (gr s') i = node_at (gr s) i)"

lemma later_refl: "later s s"
  by (simp add: later_def frame_refl)

lemma later_trans: "later s s' \<Longrightarrow> later s' s'' \<Longrightarrow> later s s''"
  unfolding later_def using frame_trans by fastforce

lemma laterD: "later s s' \<Longrightarrow> frame s s'" "later s s' \<Longrightarrow> seen s u \<Longrightarrow> seen s' u"
  by (simp_all add: later_def)

lemma rel_later: "pass_rel s s' \<Longrightarrow> later s s'"
  by (auto simp: later_def pass_rel_def fresh_def)

lemma post_later:
  assumes "pass_post u s" "later s s'"
  shows "pass_post u s'"
proof -
  have "finished s' i" if "dag" "u = NodeRef i" "markable u" for i
  proof -
    have f: "finished s i" "seen s (NodeRef i)" using assms(1) that unfolding pass_post_def by blast+
    then have "i < N" using universe unfolding finished_def by blast
    then show ?thesis
      using finished_stable [OF f(1)] assms(2) f(2) unfolding later_def by blast
  qed
  then show ?thesis using assms unfolding pass_post_def later_def by blast
qed

text \<open>A change of the node of \<open>t\<close> takes nothing from what was accepted before.\<close>

lemma post_change:
  assumes "pass_post u s1" "frame s1 s2" "\<And>u. seen s1 u \<Longrightarrow> seen s2 u" "dag \<longrightarrow> u \<noteq> t"
    "\<And>i. i < N \<Longrightarrow> NodeRef i \<noteq> t \<Longrightarrow> node_at (gr s2) i = node_at (gr s1) i"
  shows "pass_post u s2"
proof -
  have "finished s2 i" if "dag" "u = NodeRef i" "markable u" for i
  proof -
    have f: "finished s1 i" using assms(1) that unfolding pass_post_def by blast
    then have "i < N" using universe unfolding finished_def by blast
    then show ?thesis using finished_stable [OF f assms(2,3)] assms(4,5) that by blast
  qed
  then show ?thesis using assms(1,3) unfolding pass_post_def by blast
qed

definition accepts :: "tref \<Rightarrow> 's \<Rightarrow> (tref, 's, 's) call \<Rightarrow> bool" where
  "accepts t s call \<longleftrightarrow> (\<forall>t' s'. progress t s s' \<longrightarrow> t' \<in> U \<longrightarrow> (dag \<longrightarrow> height t' < height t) \<longrightarrow>
     spec errs (call t' s') (\<lambda>s''.
       progress t s s'' \<and> later s' s'' \<and> pass_post t' s'' \<and> (seen s' t' \<longrightarrow> s'' = s')))"

lemma acceptsD:
  assumes "accepts t s call" "progress t s s'" "t' \<in> U" "dag \<longrightarrow> height t' < height t"
  shows "spec errs (call t' s') (\<lambda>s''.
       progress t s s'' \<and> later s' s'' \<and> pass_post t' s'' \<and> (seen s' t' \<longrightarrow> s'' = s'))"
  using assms unfolding accepts_def by blast

lemma accepts_for_each:
  assumes "accepts t s call" "progress t s s1" "set ts \<subseteq> U" "dag \<longrightarrow> (\<forall>u \<in> set ts. height u < height t)"
  shows "spec errs (for_each call ts s1) (\<lambda>s2. progress t s s2 \<and> later s1 s2 \<and>
     (\<forall>u \<in> set ts. pass_post u s2))"
  using assms(2-4)
proof (induction ts arbitrary: s1)
  case Nil
  then show ?case by (simp add: later_refl)
next
  case (Cons u ts)
  have "u \<in> U" "dag \<longrightarrow> height u < height t" using Cons.prems(2,3) by auto
  note hd = acceptsD [OF assms(1) Cons.prems(1) this]
  have tl: "set ts \<subseteq> U" "dag \<longrightarrow> (\<forall>u \<in> set ts. height u < height t)" using Cons.prems(2,3) by auto
  show ?case
    unfolding for_each.simps
  proof (rule spec_bindI [OF hd], elim conjE)
    fix s2 assume s2: "progress t s s2" "later s1 s2" "pass_post u s2"
    show "spec errs (for_each call ts s2) (\<lambda>s'. progress t s s' \<and> later s1 s' \<and>
        (\<forall>u \<in> set (u # ts). pass_post u s'))"
      by (rule spec_mono [OF Cons.IH [OF s2(1) tl]])
        (use s2 later_trans post_later in auto)
  qed
qed

end

section \<open>Walks\<close>

text \<open>
  A walk whose visits may change the node they are on between the types they accept. A node that
  cannot be marked accepts nothing.
\<close>

locale node_walk = walk_frame gr seen markable N n0 U ok frame cov final errs dag height
  for gr :: "'s \<Rightarrow> type_graph" and seen markable N n0 U ok frame cov final errs dag height +
  fixes body :: "(tref, 's, 's) call \<Rightarrow> (tref, 's, 's) call"
  assumes body_seen: "ok s \<Longrightarrow> t \<in> U \<Longrightarrow> seen s t \<Longrightarrow> body call t s = Inr s"
    and body_visit: "ok s \<Longrightarrow> t \<in> U \<Longrightarrow> \<not> seen s t \<Longrightarrow>
      (\<And>i. t = NodeRef i \<Longrightarrow> node_at (gr s) i = n0 i) \<Longrightarrow>
      (\<And>i. t = NodeRef i \<Longrightarrow> markable t \<Longrightarrow> accepts t s call) \<Longrightarrow>
      spec errs (body call t s) (\<lambda>s'. progress t s s' \<and> final s' t \<and>
        (\<forall>u \<in> set (cov t). markable u \<longrightarrow> seen s' u))"
begin

lemma accepts_intro:
  assumes inv: "pass_inv s" and arg: "pass_arg t s" and nseen: "\<not> seen s t"
    and t: "t = NodeRef i" "markable t"
    and call: "\<And>t' s'. pass_inv s' \<Longrightarrow> pass_arg t' s' \<Longrightarrow> pass_rank t' s' < pass_rank t s \<Longrightarrow>
      spec errs (call t' s') (\<lambda>s''. pass_inv s'' \<and> pass_rel s' s'' \<and> pass_post t' s'' \<and>
        (seen s' t' \<longrightarrow> s'' = s'))"
  shows "accepts t s call"
  unfolding accepts_def
proof (intro allI impI)
  fix t' s' assume p: "progress t s s'" and t': "t' \<in> U" and h: "dag \<longrightarrow> height t' < height t"
  have tU: "t \<in> U" using arg by (simp add: pass_arg_def)
  have "{j. j < N \<and> \<not> seen s' (NodeRef j)} \<subset> {j. j < N \<and> \<not> seen s (NodeRef j)}"
    using p nseen t tU universe by (auto simp: progress_def)
  then have rank: "pass_rank t' s' < pass_rank t s"
    unfolding pass_rank_def by (intro psubset_card_mono) auto
  have "finished s' j" if j: "dag" "j < N" "seen s' (NodeRef j)" "height (NodeRef j) \<le> height t'" for j
  proof (cases "fresh s s' j")
    case True
    then show ?thesis using p j h t by (auto simp: progress_def split: if_splits)
  next
    case False
    then have "seen s (NodeRef j)" using j by (simp add: fresh_def)
    moreover have "height (NodeRef j) \<le> height t" using h j(1,4) by simp
    ultimately have "finished s j" using arg left_belowD j(1,2) unfolding pass_arg_def by blast
    moreover have "NodeRef j \<noteq> t" using j h by auto
    ultimately show ?thesis
      using p False j finished_stable [of s j s'] by (auto simp: progress_def)
  qed
  then have "pass_arg t' s'" using t' by (auto simp: pass_arg_def left_below_def)
  from call [OF progress_inv [OF inv p] this rank]
  show "spec errs (call t' s') (\<lambda>s''. progress t s s'' \<and> later s' s'' \<and> pass_post t' s'' \<and>
     (seen s' t' \<longrightarrow> s'' = s'))"
  proof (rule spec_mono, elim conjE)
    fix s'' assume r: "pass_inv s''" "pass_rel s' s''" "pass_post t' s''" "seen s' t' \<longrightarrow> s'' = s'"
    then show "progress t s s'' \<and> later s' s'' \<and> pass_post t' s'' \<and> (seen s' t' \<longrightarrow> s'' = s')"
      using progress_rel [OF p r(2) pass_invD [OF r(1)]] rel_later by blast
  qed
qed

lemma body_contract:
  assumes inv: "pass_inv s" and arg: "pass_arg t s"
    and call: "\<And>t' s'. pass_inv s' \<Longrightarrow> pass_arg t' s' \<Longrightarrow> pass_rank t' s' < pass_rank t s \<Longrightarrow>
      spec errs (call t' s') (\<lambda>s''. pass_inv s'' \<and> pass_rel s' s'' \<and> pass_post t' s'' \<and>
        (seen s' t' \<longrightarrow> s'' = s'))"
  shows "spec errs (body call t s) (\<lambda>s'. pass_inv s' \<and> pass_rel s s' \<and> pass_post t s')"
proof (cases "seen s t")
  case True
  have "pass_post t s"
    using True arg universe by (auto simp: pass_post_def pass_arg_def left_below_def)
  then show ?thesis using inv True arg
    by (simp add: body_seen [OF pass_invD [OF inv]] pass_rel_refl pass_arg_def)
next
  case False
  have tU: "t \<in> U" using arg by (simp add: pass_arg_def)
  have "node_at (gr s) i = n0 i" if "t = NodeRef i" for i
    using inv tU False universe that by (auto simp: pass_inv_def)
  moreover have "accepts t s call" if "t = NodeRef i" "markable t" for i
    using accepts_intro [OF inv arg False that call] by blast
  ultimately have "spec errs (body call t s) (\<lambda>s'. progress t s s' \<and> final s' t \<and>
      (\<forall>u \<in> set (cov t). markable u \<longrightarrow> seen s' u))"
    by (intro body_visit pass_invD [OF inv] tU False)
  then show ?thesis
  proof (rule spec_mono, elim conjE)
    fix s' assume e: "progress t s s'" "final s' t" "\<forall>u \<in> set (cov t). markable u \<longrightarrow> seen s' u"
    have "pass_post t s'"
      using e tU by (auto simp: pass_post_def finished_def progress_def)
    then show "pass_inv s' \<and> pass_rel s s' \<and> pass_post t s'"
      using progress_inv [OF inv e(1)] progress_end [OF e(1) False tU e(2,3)] by blast
  qed
qed

sublocale walk: ranked_recursion body pass_inv pass_arg pass_rel pass_post "\<lambda>t s. seen s t" pass_rank errs
proof (unfold_locales, goal_cases)
  case (2 s s' s'')
  then show ?case by (rule pass_rel_trans)
next
  case (3 t s s')
  then show ?case by (rule pass_arg_rel)
next
  case (4 t s s')
  then show ?case by (rule pass_post_rel)
next
  case (5 s t call)
  then show ?case using body_seen [OF pass_invD] by (simp add: pass_arg_def)
next
  case (6 s t call)
  then show ?case by (intro body_contract)
qed (rule pass_rel_refl)

text \<open>A whole run from a state in which no node is marked.\<close>

theorem run:
  assumes "ok s" and "\<And>t. \<not> seen s t" and "\<And>i. i < N \<Longrightarrow> node_at (gr s) i = n0 i"
    and "set ts \<subseteq> U" and "N < fuel"
  shows "spec errs (for_each (recur body fuel) ts s) (\<lambda>s'. ok s' \<and> frame s s' \<and>
     (\<forall>t \<in> set ts. markable t \<longrightarrow> seen s' t) \<and>
     (\<forall>i < N. if seen s' (NodeRef i)
        then NodeRef i \<in> U \<and> final s' (NodeRef i) \<and>
          (\<forall>u \<in> set (cov (NodeRef i)). markable u \<longrightarrow> seen s' u)
        else node_at (gr s') i = n0 i))"
proof (rule spec_mono)
  have "card {i. i < N \<and> \<not> seen s' (NodeRef i)} < fuel" for s'
    using assms(5) card_mono [of "{..<N}" "{i. i < N \<and> \<not> seen s' (NodeRef i)}"] by fastforce
  then show "spec errs (for_each (recur body fuel) ts s)
      (\<lambda>s'. pass_inv s' \<and> pass_rel s s' \<and> (\<forall>t \<in> set ts. pass_post t s'))"
    using assms by (intro walk.recur_for_each)
      (auto simp: pass_inv_def pass_rank_def pass_arg_def left_below_def)
qed (use assms in \<open>auto simp: pass_inv_def pass_rel_def pass_post_def fresh_def finished_def\<close>)

end

section \<open>The contract of a pass\<close>

text \<open>
  A walk in five steps: \<open>enter\<close> marks and may change the node and yields the types to accept first,
  \<open>mid\<close> changes it again and yields further types, \<open>leave\<close> changes it a last time.
\<close>

locale node_pass = walk_frame gr seen markable N n0 U ok frame "\<lambda>t. cov1 t @ cov2 t" final errs
    False "\<lambda>t. 0"
  for gr :: "'s \<Rightarrow> type_graph" and seen markable N n0 U ok frame cov1 cov2 final errs +
  fixes stage1 stage2 :: "'s \<Rightarrow> tref \<Rightarrow> bool"
    and enter mid :: "tref \<Rightarrow> 's \<Rightarrow> (tref list \<times> 's) outcome"
    and leave :: "tref \<Rightarrow> 's \<Rightarrow> 's outcome"
    and body :: "(tref, 's, 's) call \<Rightarrow> (tref, 's, 's) call"
  assumes body_eq: "ok s \<Longrightarrow> t \<in> U \<Longrightarrow> body call t s = (if seen s t then Inr s else
      bindE (enter t s) (\<lambda>(ts, s1). bindE (for_each call ts s1) (\<lambda>s2.
      bindE (mid t s2) (\<lambda>(us, s3). bindE (for_each call us s3) (leave t)))))"
    and stage1_stable: "stage1 s t \<Longrightarrow> frame s s' \<Longrightarrow>
      (\<And>i. t = NodeRef i \<Longrightarrow> node_at (gr s') i = node_at (gr s) i) \<Longrightarrow> stage1 s' t"
    and stage2_stable: "stage2 s t \<Longrightarrow> frame s s' \<Longrightarrow>
      (\<And>i. t = NodeRef i \<Longrightarrow> node_at (gr s') i = node_at (gr s) i) \<Longrightarrow> stage2 s' t"
    and enter_step: "ok s \<Longrightarrow> t \<in> U \<Longrightarrow> \<not> seen s t \<Longrightarrow>
      (\<And>i. t = NodeRef i \<Longrightarrow> node_at (gr s) i = n0 i) \<Longrightarrow>
      spec errs (enter t s) (\<lambda>(ts, s1). ok s1 \<and> frame s s1 \<and> stage1 s1 t \<and> set (cov1 t) \<subseteq> set ts \<and>
        set ts \<subseteq> U \<and> (\<not> markable t \<longrightarrow> ts = []) \<and> (case t of PrimRef k \<Rightarrow> ts = [] | NodeRef i \<Rightarrow> True) \<and>
        (\<forall>u. seen s1 u \<longleftrightarrow> seen s u \<or> u = t \<and> markable t) \<and>
        (\<forall>i < N. NodeRef i \<noteq> t \<or> \<not> markable t \<longrightarrow> node_at (gr s1) i = node_at (gr s) i))"
    and mid_step: "ok s \<Longrightarrow> t \<in> U \<Longrightarrow> stage1 s t \<Longrightarrow>
      spec errs (mid t s) (\<lambda>(ts, s1). ok s1 \<and> frame s s1 \<and> stage2 s1 t \<and> set (cov2 t) \<subseteq> set ts \<and>
        set ts \<subseteq> U \<and> (\<not> markable t \<longrightarrow> ts = []) \<and> (case t of PrimRef k \<Rightarrow> ts = [] | NodeRef i \<Rightarrow> True) \<and>
        (\<forall>u. seen s1 u \<longleftrightarrow> seen s u) \<and>
        (\<forall>i < N. NodeRef i \<noteq> t \<or> \<not> markable t \<longrightarrow> node_at (gr s1) i = node_at (gr s) i))"
    and leave_step: "ok s \<Longrightarrow> t \<in> U \<Longrightarrow> stage2 s t \<Longrightarrow>
      spec errs (leave t s) (\<lambda>s1. ok s1 \<and> frame s s1 \<and> final s1 t \<and>
        (\<forall>u. seen s1 u \<longleftrightarrow> seen s u) \<and>
        (\<forall>i < N. NodeRef i \<noteq> t \<or> \<not> markable t \<longrightarrow> node_at (gr s1) i = node_at (gr s) i))"
begin

text \<open>The loops of a visit; there is nothing to accept unless the node can be marked.\<close>

lemma visit_loop:
  assumes "\<And>i. t = NodeRef i \<Longrightarrow> markable t \<Longrightarrow> accepts t s call" "progress t s s1" "set ts \<subseteq> U"
    "\<not> markable t \<longrightarrow> ts = []" "case t of PrimRef k \<Rightarrow> ts = [] | NodeRef i \<Rightarrow> True" "t \<in> U"
  shows "spec errs (for_each call ts s1) (\<lambda>s2. progress t s s2 \<and> frame s1 s2 \<and>
     (\<forall>u. seen s1 u \<longrightarrow> seen s2 u) \<and> (\<forall>u \<in> set ts. markable u \<longrightarrow> seen s2 u) \<and>
     (\<forall>i. t = NodeRef i \<longrightarrow> node_at (gr s2) i = node_at (gr s1) i))"
proof (cases "ts = []")
  case True
  then show ?thesis using assms(2) by (simp add: frame_refl)
next
  case False
  then obtain i where "t = NodeRef i" "markable t" using assms(4,5) by (auto split: tref.splits)
  note t = this
  have "i < N" "seen s1 (NodeRef i)" using assms(2,6) t universe by (auto simp: progress_def)
  moreover have "False \<longrightarrow> (\<forall>u \<in> set ts. (0 :: nat) < 0)" by simp
  note accepts_for_each [OF assms(1) [OF t] assms(2,3) this]
  ultimately show ?thesis
    using t by (auto elim!: spec_mono simp: later_def pass_post_def)
qed

lemma visit_contract:
  assumes inv: "ok s" and tU: "t \<in> U" and nseen: "\<not> seen s t"
    and n0: "\<And>i. t = NodeRef i \<Longrightarrow> node_at (gr s) i = n0 i"
    and call: "\<And>i. t = NodeRef i \<Longrightarrow> markable t \<Longrightarrow> accepts t s call"
  shows "spec errs (body call t s) (\<lambda>s'. progress t s s' \<and> final s' t \<and>
        (\<forall>u \<in> set (cov1 t @ cov2 t). markable u \<longrightarrow> seen s' u))" (is "spec _ _ ?Post")
proof -
  note loop = visit_loop [where s = s and t = t, OF call]
  have "spec errs (bindE (enter t s) (\<lambda>(ts, s1). bindE (for_each call ts s1) (\<lambda>s2.
      bindE (mid t s2) (\<lambda>(us, s3). bindE (for_each call us s3) (leave t))))) ?Post"
  proof (rule spec_bind_prodI [OF enter_step [OF inv tU nseen n0]], assumption, elim conjE)
    fix ts s1 assume e: "ok s1" "frame s s1" "stage1 s1 t" "set (cov1 t) \<subseteq> set ts"
      "set ts \<subseteq> U" "\<not> markable t \<longrightarrow> ts = []" "case t of PrimRef k \<Rightarrow> ts = [] | NodeRef i \<Rightarrow> True"
      "\<forall>u. seen s1 u \<longleftrightarrow> seen s u \<or> u = t \<and> markable t"
      "\<forall>i < N. NodeRef i \<noteq> t \<or> \<not> markable t \<longrightarrow> node_at (gr s1) i = node_at (gr s) i"
    have p1: "progress t s s1" using e by (intro progress_start) auto
    show "spec errs (bindE (for_each call ts s1) (\<lambda>s2. bindE (mid t s2)
        (\<lambda>(us, s3). bindE (for_each call us s3) (leave t)))) ?Post"
    proof (rule spec_bindI [OF loop [OF _ _ p1 e(5,6,7) tU]], assumption+, elim conjE)
      fix s2 assume l: "progress t s s2" "frame s1 s2" "\<forall>u. seen s1 u \<longrightarrow> seen s2 u"
        "\<forall>u \<in> set ts. markable u \<longrightarrow> seen s2 u" "\<forall>i. t = NodeRef i \<longrightarrow> node_at (gr s2) i = node_at (gr s1) i"
      have "stage1 s2 t" using stage1_stable [OF e(3) l(2)] l(5) by blast
      from mid_step [OF progressD(1) [OF l(1)] tU this]
      show "spec errs (bindE (mid t s2) (\<lambda>(us, s3). bindE (for_each call us s3) (leave t))) ?Post"
      proof (rule spec_bind_prodI, elim conjE)
        fix us s3 assume m: "ok s3" "frame s2 s3" "stage2 s3 t" "set (cov2 t) \<subseteq> set us"
          "set us \<subseteq> U" "\<not> markable t \<longrightarrow> us = []" "case t of PrimRef k \<Rightarrow> us = [] | NodeRef i \<Rightarrow> True"
          "\<forall>u. seen s3 u = seen s2 u"
          "\<forall>i < N. NodeRef i \<noteq> t \<or> \<not> markable t \<longrightarrow> node_at (gr s3) i = node_at (gr s2) i"
        have p3: "progress t s s3" using progress_change [OF l(1) m(1,2)] m(8,9) by blast
        show "spec errs (bindE (for_each call us s3) (leave t)) ?Post"
        proof (rule spec_bindI [OF loop [OF _ _ p3 m(5,6,7) tU]], assumption+, elim conjE)
          fix s4 assume l': "progress t s s4" "frame s3 s4" "\<forall>u. seen s3 u \<longrightarrow> seen s4 u"
            "\<forall>u \<in> set us. markable u \<longrightarrow> seen s4 u"
            "\<forall>i. t = NodeRef i \<longrightarrow> node_at (gr s4) i = node_at (gr s3) i"
          have "stage2 s4 t" using stage2_stable [OF m(3) l'(2)] l'(5) by blast
          from leave_step [OF progressD(1) [OF l'(1)] tU this]
          show "spec errs (leave t s4) ?Post"
          proof (rule spec_mono, elim conjE)
            fix s5 assume v: "ok s5" "frame s4 s5" "final s5 t" "\<forall>u. seen s5 u = seen s4 u"
              "\<forall>i < N. NodeRef i \<noteq> t \<or> \<not> markable t \<longrightarrow> node_at (gr s5) i = node_at (gr s4) i"
            have "progress t s s5" using progress_change [OF l'(1) v(1,2)] v(4,5) by blast
            moreover have "seen s5 u" if "u \<in> set (cov1 t @ cov2 t)" "markable u" for u
              using that e(4) m(4,8) l(4) l'(3,4) v(4) by auto
            ultimately show "?Post s5" using v(3) by blast
          qed
        qed
      qed
    qed
  qed
  then show ?thesis using body_eq [OF inv tU] nseen by simp
qed

sublocale walk: node_walk gr seen markable N n0 U ok frame "\<lambda>t. cov1 t @ cov2 t" final errs
  False "\<lambda>t. 0" body
proof (unfold_locales, goal_cases)
  case (1 s t call)
  then show ?case by (simp add: body_eq)
next
  case (2 s t call)
  then show ?case by (intro visit_contract)
qed

end

end
