(* ===== verification/NodeTracker.thy ===== *)
theory NodeTracker
  imports Visitor
begin

text \<open>
  \<^verbatim>\<open>oi/type_graph/NodeTracker.h\<close>: the vector of marks indexed by node identifier, the holder that
  clears it between passes, and the vector of cached results. The two ways the passes mark a node
  (an identifier in a \<^verbatim>\<open>NodeTracker\<close>, a pointer in an \<^verbatim>\<open>unordered_set\<close>) provide one interface,
  the locale \<open>marks\<close>.
\<close>

section \<open>The trackers\<close>

text \<open>\<^verbatim>\<open>std::vector::resize\<close> with the value-initialised element \<open>d\<close>.\<close>

definition vec_resize :: "'a \<Rightarrow> nat \<Rightarrow> 'a list \<Rightarrow> 'a list" where
  "vec_resize d n xs = take n xs @ replicate (n - length xs) d"

lemma length_vec_resize [simp]: "length (vec_resize d n xs) = n"
  by (simp add: vec_resize_def)

lemma nth_vec_resize:
  "i < n \<Longrightarrow> vec_resize d n xs ! i = (if i < length xs then xs ! i else d)"
  by (simp add: vec_resize_def nth_append)

type_synonym node_tracker = "bool list"

definition tracker_visit :: "node_id \<Rightarrow> node_tracker \<Rightarrow> bool \<times> node_tracker" where
  "tracker_visit nid v =
     (if nid < 0 then (False, v)
      else let i = nat nid;
               v' = (if length v \<le> i then vec_resize False (i + 1) v else v)
           in (v' ! i, v'[i := True]))"

definition tracker_reset :: "node_tracker \<Rightarrow> node_tracker" where
  "tracker_reset v = map (\<lambda>_. False) v"

definition tracker_resize :: "nat \<Rightarrow> node_tracker \<Rightarrow> node_tracker" where
  "tracker_resize n v = vec_resize False n v"

definition holder_get :: "nat \<Rightarrow> node_tracker \<Rightarrow> node_tracker" where
  "holder_get n v = tracker_resize n (tracker_reset v)"

type_synonym 'a result_tracker = "'a option list"

definition result_get :: "node_id \<Rightarrow> 'a result_tracker \<Rightarrow> 'a option \<times> 'a result_tracker" where
  "result_get nid v =
     (if nid < 0 then (None, v)
      else let i = nat nid;
               v' = (if length v \<le> i then vec_resize None (i + 1) v else v)
           in (v' ! i, v'))"

definition result_set :: "node_id \<Rightarrow> 'a option \<Rightarrow> 'a result_tracker \<Rightarrow> 'a result_tracker" where
  "result_set nid r v =
     (if nid < 0 then v
      else let i = nat nid;
               v' = (if length v \<le> i then vec_resize None (i + 1) v else v)
           in v'[i := r])"

section \<open>What the trackers hold\<close>

definition tracked :: "node_tracker \<Rightarrow> node_id \<Rightarrow> bool" where
  "tracked v nid = (0 \<le> nid \<and> nat nid < length v \<and> v ! nat nid)"

definition cached :: "'a result_tracker \<Rightarrow> node_id \<Rightarrow> 'a option" where
  "cached v nid = (if 0 \<le> nid \<and> nat nid < length v then v ! nat nid else None)"

lemma tracker_visit_result: "fst (tracker_visit nid v) = tracked v nid"
  by (auto simp: tracker_visit_def tracked_def Let_def nth_vec_resize)

lemma tracker_visit_tracked:
  "tracked (snd (tracker_visit nid v)) m = (tracked v m \<or> m = nid \<and> 0 \<le> nid)"
  by (auto simp: tracker_visit_def tracked_def Let_def nth_vec_resize nth_list_update split: if_splits)

lemma tracker_visit_again: "tracked v nid \<Longrightarrow> snd (tracker_visit nid v) = v"
  by (auto simp: tracker_visit_def tracked_def Let_def) (metis list_update_id)

lemma holder_get_tracked [simp]: "\<not> tracked (holder_get n v) nid"
  by (auto simp: holder_get_def tracker_resize_def tracker_reset_def tracked_def nth_vec_resize)

lemma result_get_cached:
  "fst (result_get nid v) = cached v nid" "cached (snd (result_get nid v)) m = cached v m"
  by (auto simp: result_get_def cached_def Let_def nth_vec_resize)

lemma result_set_cached:
  "cached (result_set nid r v) m = (if m = nid \<and> 0 \<le> nid then r else cached v m)"
  by (auto simp: result_set_def cached_def Let_def nth_vec_resize nth_list_update)

text \<open>A sequence of visits, and what each of them answers.\<close>

fun tracker_visits :: "node_id list \<Rightarrow> node_tracker \<Rightarrow> bool list \<times> node_tracker" where
  "tracker_visits [] v = ([], v)"
| "tracker_visits (i # is) v =
     (let (r, v') = tracker_visit i v; (rs, v'') = tracker_visits is v' in (r # rs, v''))"

lemma tracker_visits_general:
  "k < length ids \<Longrightarrow>
   fst (tracker_visits ids v) ! k \<longleftrightarrow> tracked v (ids ! k) \<or> 0 \<le> ids ! k \<and> ids ! k \<in> set (take k ids)"
proof (induction ids arbitrary: v k)
  case (Cons i ids)
  then show ?case
    by (cases k)
      (auto simp: case_prod_beta Let_def tracker_visit_result tracker_visit_tracked)
qed simp

section \<open>Marking a node\<close>

text \<open>
  The interface of the marks of a pass. \<open>visit_mark\<close> marks the node a reference points to and
  tells whether it was marked, \<open>marked g0 v t\<close> is the mark of \<open>t\<close> in a run that started on the graph
  \<open>g0\<close>, and \<open>markable\<close> tells whether a node can be marked at all.
\<close>

locale marks =
  fixes visit_mark :: "type_graph \<Rightarrow> tref \<Rightarrow> 'v \<Rightarrow> (bool \<times> 'v) outcome"
    and marked :: "type_graph \<Rightarrow> 'v \<Rightarrow> tref \<Rightarrow> bool"
    and markable :: "type_graph \<Rightarrow> tref \<Rightarrow> bool"
    and clear :: "'v \<Rightarrow> bool"
  assumes visit_mark_law: "wf_ids g0 \<Longrightarrow> extends g0 g \<Longrightarrow> in_graph g0 t \<Longrightarrow>
      \<exists>v'. visit_mark g t v = Inr (marked g0 v t, v') \<and> (marked g0 v t \<longrightarrow> v' = v) \<and>
        (\<forall>u. marked g0 v' u \<longleftrightarrow> marked g0 v u \<or> u = t \<and> markable g0 t)"
    and clear_law: "clear v \<Longrightarrow> \<not> marked g0 v t"
    and marked_in_graph: "marked g0 v t \<Longrightarrow> in_graph g0 t"
begin

lemma visit_mark_cases:
  assumes "wf_ids g0" "extends g0 g" "in_graph g0 t"
  obtains (seen) "marked g0 v t" "visit_mark g t v = Inr (True, v)"
  | (unseen) v' where "\<not> marked g0 v t" "visit_mark g t v = Inr (False, v')"
      "\<And>u. marked g0 v' u \<longleftrightarrow> marked g0 v u \<or> u = t \<and> markable g0 t"
  using visit_mark_law [OF assms, of v] by (cases "marked g0 v t") auto

end

text \<open>The \<^verbatim>\<open>unordered_set<Type*>\<close>.\<close>

definition ptr_visit :: "type_graph \<Rightarrow> tref \<Rightarrow> tref set \<Rightarrow> (bool \<times> tref set) outcome" where
  "ptr_visit g t v = Inr (if t \<in> v then (True, v) else (False, insert t v))"

definition ptr_marked :: "type_graph \<Rightarrow> tref set \<Rightarrow> tref \<Rightarrow> bool" where
  "ptr_marked g0 v t = (t \<in> v \<and> in_graph g0 t)"

interpretation ptr: marks ptr_visit ptr_marked "\<lambda>g0 t. True" "\<lambda>v. v = {}"
  by unfold_locales (auto simp: ptr_visit_def ptr_marked_def)

text \<open>The \<^verbatim>\<open>NodeTracker\<close>, which cannot mark a node without an identifier.\<close>

definition trk_visit :: "type_graph \<Rightarrow> tref \<Rightarrow> node_tracker \<Rightarrow> (bool \<times> node_tracker) outcome" where
  "trk_visit g t v = bindE (deref g t) (\<lambda>n. Inr (tracker_visit (type_id n) v))"

definition id_of :: "type_graph \<Rightarrow> tref \<Rightarrow> node_id" where
  "id_of g t = (case deref g t of Inl _ \<Rightarrow> - 1 | Inr n \<Rightarrow> type_id n)"

definition trk_marked :: "type_graph \<Rightarrow> node_tracker \<Rightarrow> tref \<Rightarrow> bool" where
  "trk_marked g0 v t = (in_graph g0 t \<and> tracked v (id_of g0 t))"

definition trk_markable :: "type_graph \<Rightarrow> tref \<Rightarrow> bool" where
  "trk_markable g0 t = (0 \<le> id_of g0 t)"

lemma id_of_prim [simp]: "id_of g (PrimRef k) = - 1"
  by (simp add: id_of_def)

lemma id_of_node: "i < length (nodes g) \<Longrightarrow> id_of g (NodeRef i) = type_id (node_at g i)"
  by (simp add: id_of_def)

lemma id_of_inj:
  assumes "wf_ids g" "in_graph g t" "in_graph g u" "0 \<le> id_of g t" "id_of g t = id_of g u"
  shows "t = u"
  using assms wf_idsD [OF assms(1)]
  by (cases t; cases u) (auto simp: id_of_node)

lemma id_of_extends:
  "extends g0 g \<Longrightarrow> in_graph g0 t \<Longrightarrow> \<exists>n. deref g t = Inr n \<and> type_id n = id_of g0 t"
  using extends_deref [of g0 g t] deref_in_graph [of g0 t] by (auto simp: id_of_def)

interpretation trk: marks trk_visit trk_marked trk_markable "\<lambda>v. \<forall>nid. \<not> tracked v nid"
proof unfold_locales
  fix g0 g t and v :: node_tracker
  assume wf: "wf_ids g0" and ext: "extends g0 g" and t: "in_graph g0 t"
  obtain n where n: "deref g t = Inr n" "type_id n = id_of g0 t"
    using id_of_extends [OF ext t] by blast
  have "\<exists>v'. tracker_visit (id_of g0 t) v = (tracked v (id_of g0 t), v') \<and>
      (tracked v (id_of g0 t) \<longrightarrow> v' = v) \<and>
      (\<forall>m. tracked v' m \<longleftrightarrow> tracked v m \<or> m = id_of g0 t \<and> 0 \<le> id_of g0 t)"
    by (rule exI [of _ "snd (tracker_visit (id_of g0 t) v)"])
      (simp add: prod_eq_iff tracker_visit_result tracker_visit_tracked tracker_visit_again)
  then show "\<exists>v'. trk_visit g t v = Inr (trk_marked g0 v t, v') \<and> (trk_marked g0 v t \<longrightarrow> v' = v) \<and>
        (\<forall>u. trk_marked g0 v' u \<longleftrightarrow> trk_marked g0 v u \<or> u = t \<and> trk_markable g0 t)"
    using n t id_of_inj [OF wf _ t]
    by (fastforce simp: trk_visit_def trk_marked_def trk_markable_def)
qed (auto simp: trk_marked_def)

lemma trk_markable_iff:
  assumes "wf_ids g" "in_graph g t"
  shows "trk_markable g t \<longleftrightarrow> (\<exists>i. t = NodeRef i \<and> has_node_id (node_at g i))"
  using assms wf_idsD(1) [OF assms(1)] by (cases t) (auto simp: trk_markable_def id_of_node)

end
