(* ===== verification/MapPass.thy ===== *)
theory MapPass
  imports NodeTracker
begin

text \<open>
  The state of a pass, its \<^verbatim>\<open>accept\<close>, and the passes that change each node they reach on its own:
  the locale \<open>map_pass\<close> shows that such a pass returns for every graph and computes the map of its
  two local changes over the reachable nodes.
\<close>

record 'v pass_state =
  ps_marks :: 'v
  ps_graph :: type_graph

type_synonym 'v walker = "(tref, 'v pass_state, 'v pass_state) call"

section \<open>Accepting a type\<close>

definition accept_with ::
    "(type_graph \<Rightarrow> tref \<Rightarrow> 'v \<Rightarrow> (bool \<times> 'v) outcome) \<Rightarrow> ('v walker \<Rightarrow> 'v walker) \<Rightarrow>
     'v walker \<Rightarrow> 'v walker" where
  "accept_with visit_mark visit accept t s =
     bindE (visit_mark (ps_graph s) t (ps_marks s)) (\<lambda>(seen, v).
       if seen then Inr (s\<lparr>ps_marks := v\<rparr>) else visit accept t (s\<lparr>ps_marks := v\<rparr>))"

definition put_ty :: "tref \<Rightarrow> ty \<Rightarrow> 'v pass_state \<Rightarrow> 'v pass_state" where
  "put_ty t n s = s\<lparr>ps_graph := put_node t n (ps_graph s)\<rparr>"

definition get_ty :: "tref \<Rightarrow> 'v pass_state \<Rightarrow> ty outcome" where
  "get_ty t s = deref (ps_graph s) t"

text \<open>A member function works on the class its \<^verbatim>\<open>this\<close> or its reference denotes at that moment.\<close>

definition get_class :: "tref \<Rightarrow> 'v pass_state \<Rightarrow> class_node outcome" where
  "get_class t s = bindE (get_ty t s) (\<lambda>n. case n of
     Class c \<Rightarrow> Inr c | _ \<Rightarrow> Inl (Undefined ''bad cast''))"

definition get_container :: "tref \<Rightarrow> 'v pass_state \<Rightarrow> container_node outcome" where
  "get_container t s = bindE (get_ty t s) (\<lambda>n. case n of
     Container c \<Rightarrow> Inr c | _ \<Rightarrow> Inl (Undefined ''bad cast''))"

text \<open>
  What \<^verbatim>\<open>createPass\<close> builds: a function of the graph and of the tracker the passes share. A pass that
  keeps a pointer set of its own leaves the tracker alone. Its walk is as deep as the graph has
  nodes at the start, plus one.
\<close>

type_synonym pass_fn = "type_graph \<Rightarrow> node_tracker \<Rightarrow> (type_graph \<times> node_tracker) outcome"

definition walk_roots :: "('v walker \<Rightarrow> 'v walker) \<Rightarrow> 'v \<Rightarrow> type_graph \<Rightarrow> 'v pass_state outcome" where
  "walk_roots body v g =
     for_each (recur body (chain_depth g)) (rootTypes g) \<lparr>ps_marks = v, ps_graph = g\<rparr>"

definition tracker_pass :: "(node_tracker walker \<Rightarrow> node_tracker walker) \<Rightarrow> pass_fn" where
  "tracker_pass body g v = bindE (walk_roots body v g) (\<lambda>s. Inr (ps_graph s, ps_marks s))"

definition pointer_pass :: "(tref set walker \<Rightarrow> tref set walker) \<Rightarrow> pass_fn" where
  "pointer_pass body g v = bindE (walk_roots body {} g) (\<lambda>s. Inr (ps_graph s, v))"

text \<open>\<^verbatim>\<open>Pass::run\<close>: the tracker is cleared and has the size of the graph.\<close>

definition pass_run :: "pass_fn \<Rightarrow> pass_fn" where
  "pass_run fn g v = fn g (holder_get (graph_size g) v)"

lemma put_marks [simp]: "ps_marks (put_ty t n s) = ps_marks s"
  by (simp add: put_ty_def)

lemma put_self: "get_ty t s = Inr n \<Longrightarrow> put_ty t n s = s"
  by (simp add: put_ty_def get_ty_def put_node_self)

lemma get_put: "get_ty t s = Inr n \<Longrightarrow> ctor_of n \<noteq> 3 \<Longrightarrow> get_ty t (put_ty t n' s) = Inr n'"
  unfolding get_ty_def put_ty_def using deref_owner [of "ps_graph s" t n] deref_put by fastforce

lemma put_put_ty [simp]: "put_ty t n (put_ty t n' s) = put_ty t n s"
  by (simp add: put_ty_def)

lemma put_other:
  "get_ty t s = Inr n \<Longrightarrow> NodeRef i \<noteq> t \<Longrightarrow>
   node_at (ps_graph (put_ty t n' s)) i = node_at (ps_graph s) i"
  by (cases t) (auto simp: put_ty_def get_ty_def node_at_def put_node.simps)

lemma put_same: "get_ty (NodeRef i) s = Inr n \<Longrightarrow> node_at (ps_graph (put_ty (NodeRef i) n' s)) i = n'"
  unfolding put_ty_def get_ty_def by (drule deref_owned(1)) simp

section \<open>Reachable nodes\<close>

inductive_set reach :: "(tref \<Rightarrow> tref list) \<Rightarrow> tref list \<Rightarrow> tref set" for cov roots where
  root: "t \<in> set roots \<Longrightarrow> t \<in> reach cov roots"
| step: "t \<in> reach cov roots \<Longrightarrow> u \<in> set (cov t) \<Longrightarrow> u \<in> reach cov roots"

lemma reach_least:
  assumes "set roots \<subseteq> A" and "\<And>t. t \<in> A \<Longrightarrow> set (cov t) \<subseteq> A"
  shows "reach cov roots \<subseteq> A"
proof
  fix t assume "t \<in> reach cov roots"
  then show "t \<in> A" using assms by (induction rule: reach.induct) auto
qed

text \<open>A walk that marked the roots and what its marked nodes refer to has marked what is reachable.\<close>

lemma marked_iff_reach:
  assumes roots: "\<And>t. t \<in> set roots \<Longrightarrow> markable t \<Longrightarrow> seen t"
    and closed: "\<And>i u. i < N \<Longrightarrow> seen (NodeRef i) \<Longrightarrow> u \<in> set (cov (NodeRef i)) \<Longrightarrow> markable u \<Longrightarrow> seen u"
    and only: "\<And>i. i < N \<Longrightarrow> seen (NodeRef i) \<Longrightarrow> NodeRef i \<in> reach cov roots"
    and leaf: "\<And>t. t \<in> reach cov roots \<Longrightarrow> \<not> markable t \<Longrightarrow> cov t = []" "\<And>k. cov (PrimRef k) = []"
    and range: "\<And>i. NodeRef i \<in> reach cov roots \<Longrightarrow> i < N"
  shows "i < N \<Longrightarrow> markable (NodeRef i) \<Longrightarrow> seen (NodeRef i) \<longleftrightarrow> NodeRef i \<in> reach cov roots"
proof -
  have "t \<in> reach cov roots \<Longrightarrow> markable t \<longrightarrow> seen t" for t
  proof (induction rule: reach.induct)
    case (root t)
    then show ?case using roots by blast
  next
    case (step t u)
    show ?case
    proof (cases t)
      case (PrimRef k)
      then show ?thesis using step leaf by simp
    next
      case (NodeRef j)
      moreover have "markable t" using step leaf(1) by fastforce
      ultimately show ?thesis using step closed [of j u] range [of j] by blast
    qed
  qed
  then show "i < N \<Longrightarrow> markable (NodeRef i) \<Longrightarrow> seen (NodeRef i) \<longleftrightarrow> NodeRef i \<in> reach cov roots"
    using only by blast
qed

text \<open>The result of a whole walk, over the nodes that are reachable.\<close>

context node_walk
begin

theorem run_reach:
  assumes start: "ok s" "\<And>t. \<not> seen s t" "\<And>i. i < N \<Longrightarrow> node_at (gr s) i = n0 i" "N < fuel"
    and univ: "reach cov ts \<subseteq> U" "\<And>i. NodeRef i \<in> U \<Longrightarrow> NodeRef i \<in> reach cov ts"
    and leaf: "\<And>t. t \<in> reach cov ts \<Longrightarrow> \<not> markable t \<Longrightarrow> cov t = []" "\<And>k. cov (PrimRef k) = []"
    and seen_markable: "\<And>s i. i < N \<Longrightarrow> seen s (NodeRef i) \<Longrightarrow> markable (NodeRef i)"
  shows "spec errs (for_each (recur body fuel) ts s) (\<lambda>s'. ok s' \<and> frame s s' \<and>
     (\<forall>i < N. seen s' (NodeRef i) \<longleftrightarrow> markable (NodeRef i) \<and> NodeRef i \<in> reach cov ts) \<and>
     (\<forall>i < N. if markable (NodeRef i) \<and> NodeRef i \<in> reach cov ts then final s' (NodeRef i)
        else node_at (gr s') i = n0 i))"
proof (rule spec_mono)
  have "set ts \<subseteq> reach cov ts" by (auto intro: reach.root)
  then have "set ts \<subseteq> U" using univ(1) by blast
  from run [OF start(1-3) this start(4)]
  show "spec errs (for_each (recur body fuel) ts s) (\<lambda>s'. ok s' \<and> frame s s' \<and>
     (\<forall>t \<in> set ts. markable t \<longrightarrow> seen s' t) \<and>
     (\<forall>i < N. if seen s' (NodeRef i)
        then NodeRef i \<in> U \<and> final s' (NodeRef i) \<and>
          (\<forall>u \<in> set (cov (NodeRef i)). markable u \<longrightarrow> seen s' u)
        else node_at (gr s') i = n0 i))" .
  fix s' assume s': "ok s' \<and> frame s s' \<and> (\<forall>t \<in> set ts. markable t \<longrightarrow> seen s' t) \<and>
     (\<forall>i < N. if seen s' (NodeRef i)
        then NodeRef i \<in> U \<and> final s' (NodeRef i) \<and>
          (\<forall>u \<in> set (cov (NodeRef i)). markable u \<longrightarrow> seen s' u)
        else node_at (gr s') i = n0 i)"
  have "seen s' (NodeRef i) \<longleftrightarrow> markable (NodeRef i) \<and> NodeRef i \<in> reach cov ts" if i: "i < N" for i
  proof (cases "markable (NodeRef i)")
    case True
    have node: "NodeRef j \<in> U \<and> (\<forall>u \<in> set (cov (NodeRef j)). markable u \<longrightarrow> seen s' u)"
      if "j < N" "seen s' (NodeRef j)" for j using s' that by presburger
    have "seen s' (NodeRef i) \<longleftrightarrow> NodeRef i \<in> reach cov ts"
    proof (rule marked_iff_reach [where markable = markable and N = N])
      show "t \<in> set ts \<Longrightarrow> markable t \<Longrightarrow> seen s' t" for t using s' by blast
      show "j < N \<Longrightarrow> seen s' (NodeRef j) \<Longrightarrow> u \<in> set (cov (NodeRef j)) \<Longrightarrow> markable u \<Longrightarrow> seen s' u"
        for j u using node by blast
      show "j < N \<Longrightarrow> seen s' (NodeRef j) \<Longrightarrow> NodeRef j \<in> reach cov ts" for j
        using node univ(2) by blast
      show "NodeRef j \<in> reach cov ts \<Longrightarrow> j < N" for j using univ(1) universe by blast
    qed (use leaf i True in blast)+
    then show ?thesis using True by blast
  next
    case False
    then show ?thesis using seen_markable i by blast
  qed
  then show "ok s' \<and> frame s s' \<and>
     (\<forall>i < N. seen s' (NodeRef i) \<longleftrightarrow> markable (NodeRef i) \<and> NodeRef i \<in> reach cov ts) \<and>
     (\<forall>i < N. if markable (NodeRef i) \<and> NodeRef i \<in> reach cov ts then final s' (NodeRef i)
        else node_at (gr s') i = n0 i)"
    using s' by auto
qed

end

text \<open>The references met in at most \<open>k\<close> steps, for concrete graphs.\<close>

fun reach_upto :: "(tref \<Rightarrow> tref list) \<Rightarrow> nat \<Rightarrow> tref list \<Rightarrow> tref list" where
  "reach_upto cov 0 ts = ts"
| "reach_upto cov (Suc k) ts = reach_upto cov k (ts @ concat (map cov ts))"

lemma reach_upto_reach: "set ts \<subseteq> reach cov roots \<Longrightarrow> set (reach_upto cov k ts) \<subseteq> reach cov roots"
proof (induction k arbitrary: ts)
  case (Suc k)
  have "set (ts @ concat (map cov ts)) \<subseteq> reach cov roots" using Suc.prems by (auto intro: reach.step)
  then show ?case using Suc.IH by simp
qed simp

lemma set_reach_upto: "set ts \<subseteq> set (reach_upto cov k ts)"
proof (induction k arbitrary: ts)
  case (Suc k)
  from Suc [of "ts @ concat (map cov ts)"] show ?case by auto
qed simp

lemma reach_eq:
  assumes "list_all (\<lambda>t. list_all (\<lambda>u. u \<in> set (reach_upto cov k roots)) (cov t)) (reach_upto cov k roots)"
  shows "reach cov roots = set (reach_upto cov k roots)"
proof
  show "set (reach_upto cov k roots) \<subseteq> reach cov roots"
    by (rule reach_upto_reach) (auto intro: reach.root)
  show "reach cov roots \<subseteq> set (reach_upto cov k roots)"
    by (rule reach_least [OF set_reach_upto]) (use assms in \<open>auto simp: list_all_iff\<close>)
qed

text \<open>
  The references a walk follows that changes each node with \<open>pre\<close> before it descends, and the graph
  whose reachable nodes were replaced by their images under \<open>f\<close>.
\<close>

definition edges :: "(ty \<Rightarrow> ty) \<Rightarrow> type_graph \<Rightarrow> tref \<Rightarrow> tref list" where
  "edges pre g t = (case deref g t of Inl e \<Rightarrow> [] | Inr n \<Rightarrow> succs (pre n))"

definition map_reached :: "(ty \<Rightarrow> ty) \<Rightarrow> (ty \<Rightarrow> ty) \<Rightarrow> type_graph \<Rightarrow> type_graph" where
  "map_reached pre f g = g\<lparr>nodes := map (\<lambda>i.
     if NodeRef i \<in> reach (edges pre g) (rootTypes g) then f (node_at g i) else node_at g i)
     [0..<length (nodes g)]\<rparr>"

lemma map_reached_eval:
  assumes "list_all (\<lambda>t. list_all (\<lambda>u. u \<in> set (reach_upto (edges pre g) k (rootTypes g)))
    (edges pre g t)) (reach_upto (edges pre g) k (rootTypes g))"
  shows "map_reached pre f g = g\<lparr>nodes := map (\<lambda>i.
    if NodeRef i \<in> set (reach_upto (edges pre g) k (rootTypes g)) then f (node_at g i) else node_at g i)
    [0..<length (nodes g)]\<rparr>"
  unfolding map_reached_def reach_eq [OF assms] ..

section \<open>Changes of nodes that keep a graph well-formed\<close>

text \<open>A change of a node that keeps its class and its identifier and adds no reference.\<close>

definition keeps :: "(ty \<Rightarrow> ty) \<Rightarrow> bool" where
  "keeps f \<longleftrightarrow> (\<forall>n. ctor_of (f n) = ctor_of n \<and> type_id (f n) = type_id n \<and>
     set (refs (f n)) \<subseteq> set (refs n))"

lemma keepsD:
  assumes "keeps f"
  shows "ctor_of (f n) = ctor_of n" "type_id (f n) = type_id n" "set (refs (f n)) \<subseteq> set (refs n)"
  using assms by (simp_all add: keeps_def)

lemma keeps_comp: "keeps f \<Longrightarrow> keeps h \<Longrightarrow> keeps (\<lambda>n. f (h n))"
  by (auto simp: keeps_def)

definition keeps_children :: "(ty \<Rightarrow> ty) \<Rightarrow> bool" where
  "keeps_children f \<longleftrightarrow> (\<forall>c. \<exists>c'. f (Class c) = Class c' \<and> set (cl_children c') \<subseteq> set (cl_children c))"

lemma map_reached_nodes:
  "length (nodes (map_reached pre f g)) = length (nodes g)"
  "i < length (nodes g) \<Longrightarrow> node_at (map_reached pre f g) i =
     (if NodeRef i \<in> reach (edges pre g) (rootTypes g) then f (node_at g i) else node_at g i)"
  by (simp_all add: map_reached_def node_at_def)

lemma map_reached_extends: "keeps f \<Longrightarrow> extends g (map_reached pre f g)"
  by (auto simp: extends_def map_reached_nodes keeps_def) (simp_all add: map_reached_def)

lemma map_reached_wf:
  assumes "wf_graph g" "keeps f" "keeps_children f"
  shows "wf_graph (map_reached pre f g)"
proof -
  let ?g = "map_reached pre f g"
  have ext: "extends g ?g" using assms(2) by (rule map_reached_extends)
  have node: "\<exists>i < length (nodes g). n = node_at ?g i \<and> (n = node_at g i \<or> n = f (node_at g i))"
    if n: "n \<in> set (nodes ?g)" for n
  proof -
    obtain i where "i < length (nodes g)" "n = node_at ?g i"
      using n by (auto simp: in_set_conv_nth node_at_def map_reached_nodes(1))
    then show ?thesis using map_reached_nodes(2) [of i g pre f] by metis
  qed
  have "wf_refs ?g"
    unfolding wf_refs_def
  proof (intro conjI ballI)
    fix n assume n: "n \<in> set (nodes ?g)"
    obtain i where i: "i < length (nodes g)" "n = node_at g i \<or> n = f (node_at g i)"
      using node [OF n(1)] by blast
    have "ctor_of n = ctor_of (node_at g i)" using i(2) keepsD(1) [OF assms(2)] by auto
    moreover have "node_at g i \<in> set (nodes g)" using i(1) by (simp add: node_at_def)
    ultimately show "ctor_of n \<noteq> 3" using assms(1) by (auto simp: wf_graph_def wf_refs_def)
  next
    fix n t assume n: "n \<in> set (nodes ?g)" "t \<in> set (refs n)"
    obtain i where i: "i < length (nodes g)" "n = node_at g i \<or> n = f (node_at g i)"
      using node [OF n(1)] by blast
    then have "t \<in> set (refs (node_at g i))"
      using n(2) keepsD(3) [OF assms(2), of "node_at g i"] by auto
    then have "in_graph g t" using assms(1) i(1) wf_refsD by (auto simp: wf_graph_def)
    then show "in_graph ?g t" by (rule extends_in_graph [OF ext])
  next
    fix t assume "t \<in> set (rootTypes ?g)"
    then have "in_graph g t" using assms(1) ext by (auto simp: wf_graph_def wf_refs_def extends_def)
    then show "in_graph ?g t" by (rule extends_in_graph [OF ext])
  qed
  moreover have "wf_ids ?g"
  proof -
    have "next_id ?g = next_id g" by (simp add: map_reached_def)
    moreover have "type_id (node_at ?g i) = type_id (node_at g i) \<and>
        has_node_id (node_at ?g i) = has_node_id (node_at g i)" if "i < length (nodes g)" for i
      using extends_ctor [OF ext that] ctor_of_has_id by blast
    ultimately show ?thesis
      using assms(1) by (simp add: wf_graph_def wf_ids_def map_reached_nodes(1))
  qed
  moreover have "wf_children ?g"
    unfolding wf_children_def
  proof (intro ballI allI impI)
    fix n c t assume n: "n \<in> set (nodes ?g)" "n = Class c" "t \<in> set (cl_children c)"
    obtain i where i: "i < length (nodes g)" "n = node_at g i \<or> n = f (node_at g i)"
      using node [OF n(1)] by blast
    then have "ctor_of (node_at g i) = Suc 0" using n(2) keepsD(1) [OF assms(2)] by (metis ctor_of_iff(1))
    then obtain c0 where c0: "node_at g i = Class c0" by (auto simp: ctor_of_iff)
    then have "t \<in> set (cl_children c0)"
      using i(2) n(2,3) assms(3) unfolding keeps_children_def by fastforce
    moreover have "Class c0 \<in> set (nodes g)" using c0 i(1) by (metis node_at_def nth_mem)
    ultimately obtain d where "deref g t = Inr (Class d)"
      using assms(1) unfolding wf_graph_def wf_children_def by blast
    then show "\<exists>d. deref ?g t = Inr (Class d)"
      using extends_deref [OF ext] by (fastforce simp: ctor_of_iff)
  qed
  ultimately show ?thesis by (simp add: wf_graph_def)
qed

section \<open>Passes that map the nodes they reach\<close>

text \<open>
  The pass changes the nodes of the classes \<open>touched\<close>: \<open>pre\<close> changes such a node before the types it then holds are accepted, \<open>post\<close> after that; what \<open>post\<close>
  computes (\<open>fin\<close>) depends on the graph only through the classes of its nodes. \<open>g0\<close> is the graph
  the pass starts on and \<open>good\<close> what it requires of it.
\<close>

locale map_pass = marks visit_mark marked markable clear
  for visit_mark :: "type_graph \<Rightarrow> tref \<Rightarrow> 'v \<Rightarrow> (bool \<times> 'v) outcome"
    and marked markable and clear :: "'v \<Rightarrow> bool" +
  fixes visit :: "'v walker \<Rightarrow> 'v walker"
    and touched :: "nat \<Rightarrow> bool"
    and pre :: "ty \<Rightarrow> ty"
    and post :: "nat \<Rightarrow> type_graph \<Rightarrow> ty \<Rightarrow> ty outcome"
    and fin :: "type_graph \<Rightarrow> ty \<Rightarrow> ty"
    and good :: "type_graph \<Rightarrow> bool"
    and g0 :: type_graph
  assumes visit_touched: "get_ty t s = Inr n \<Longrightarrow> touched (ctor_of n) \<Longrightarrow> visit accept t s =
      bindE (for_each accept (succs (pre n)) (put_ty t (pre n) s)) (\<lambda>s'.
      bindE (get_ty t s') (\<lambda>n'. bindE (post (ctor_of n) (ps_graph s') n') (\<lambda>n''. Inr (put_ty t n'' s'))))"
    and visit_untouched: "get_ty t s = Inr n \<Longrightarrow> \<not> touched (ctor_of n) \<Longrightarrow>
      visit accept t s = for_each accept (succs n) s"
    and post_fin: "good g0 \<Longrightarrow> extends g0 g \<Longrightarrow> \<forall>t \<in> set (refs n). in_graph g0 t \<Longrightarrow>
      touched (ctor_of n) \<Longrightarrow> post (ctor_of n) g n = Inr (fin g0 n)"
    and untouched: "\<not> touched (ctor_of n) \<Longrightarrow> pre n = n \<and> fin g0 n = n"
    and pre_keeps: "keeps pre"
    and fin_keeps: "keeps (fin g0)"
    and unmarkable: "good g0 \<Longrightarrow> in_graph g0 t \<Longrightarrow> \<not> markable g0 t \<Longrightarrow> deref g0 t = Inr n \<Longrightarrow>
      ctor_of n = 3 \<or> ctor_of n = 4"
    and leaves: "\<not> touched 3" "\<not> touched 4"
begin

lemmas pre_same = keepsD(1,2) [OF pre_keeps]
lemmas fin_same = keepsD(1,2) [OF fin_keeps]
lemmas pre_refs = keepsD(3) [OF pre_keeps]
lemmas fin_refs = keepsD(3) [OF fin_keeps]

definition ctor0 :: "tref \<Rightarrow> nat" where
  "ctor0 t = (case deref g0 t of Inl e \<Rightarrow> 3 | Inr n \<Rightarrow> ctor_of n)"

definition cov :: "tref \<Rightarrow> tref list" where
  "cov = edges pre g0"

definition univ :: "tref set" where
  "univ = {t \<in> reach cov (rootTypes g0). in_graph g0 t}"

definition start :: "type_graph \<Rightarrow> bool" where
  "start g \<longleftrightarrow> good g \<and> wf_ids g \<and> wf_refs g"

definition ok :: "'v pass_state \<Rightarrow> bool" where
  "ok s \<longleftrightarrow> start g0 \<and> length (nodes (ps_graph s)) = length (nodes g0) \<and>
     next_id (ps_graph s) = next_id g0 \<and> finalTypes (ps_graph s) = finalTypes g0 \<and>
     extends g0 (ps_graph s) \<and> (\<forall>i < length (nodes g0).
       set (refs (node_at (ps_graph s) i)) \<subseteq> set (refs (node_at g0 i)))"

definition staged :: "(ty \<Rightarrow> ty) \<Rightarrow> 'v pass_state \<Rightarrow> tref \<Rightarrow> bool" where
  "staged f s t \<longleftrightarrow> (case t of PrimRef k \<Rightarrow> True
     | NodeRef i \<Rightarrow> node_at (ps_graph s) i = f (node_at g0 i))"

lemma ok_in_graph: "ok s \<Longrightarrow> in_graph (ps_graph s) t = in_graph g0 t"
  by (cases t) (auto simp: ok_def)

lemma ok_deref:
  assumes "ok s" "in_graph g0 t"
  obtains n where "get_ty t s = Inr n" "\<forall>u \<in> set (refs n). in_graph g0 u"
    "\<And>m. deref g0 t = Inr m \<Longrightarrow> ctor_of n = ctor_of m \<and> type_id n = type_id m"
    "\<And>i. t = NodeRef i \<Longrightarrow> n = node_at (ps_graph s) i \<and> i < length (nodes g0)"
proof (cases t)
  case (PrimRef k)
  then show ?thesis using that [of "Primitive k"] by (simp add: get_ty_def)
next
  case (NodeRef i)
  let ?n = "node_at (ps_graph s) i"
  have i: "i < length (nodes g0)" "i < length (nodes (ps_graph s))" 
    using assms NodeRef by (auto simp: ok_def)
  have "set (refs ?n) \<subseteq> set (refs (node_at g0 i))" using assms(1) i by (auto simp: ok_def)
  moreover have "\<forall>u \<in> set (refs (node_at g0 i)). in_graph g0 u"
    using assms(1) i wf_refsD by (auto simp: ok_def start_def)
  ultimately have "\<forall>u \<in> set (refs ?n). in_graph g0 u" by blast
  moreover have "extends g0 (ps_graph s)" using assms(1) by (simp add: ok_def)
  then have "ctor_of ?n = ctor_of (node_at g0 i)" "type_id ?n = type_id (node_at g0 i)"
    using extends_ctor i(1) by blast+
  moreover have "get_ty t s = Inr ?n" "deref g0 t = Inr (node_at g0 i)"
    unfolding get_ty_def NodeRef using i by (simp_all)
  ultimately show ?thesis by (intro that [of ?n]) (use i NodeRef in simp_all)
qed

lemma ok_put:
  assumes "ok s" "get_ty t s = Inr n" "ctor_of n' = ctor_of n" "type_id n' = type_id n"
    "set (refs n') \<subseteq> set (refs n)"
  shows "ok (put_ty t n' s)"
proof -
  have "extends (ps_graph s) (ps_graph (put_ty t n' s))"
    using assms by (simp add: put_ty_def get_ty_def extends_put)
  then have "extends g0 (ps_graph (put_ty t n' s))"
    using assms(1) extends_trans by (auto simp: ok_def)
  moreover have "set (refs (node_at (ps_graph (put_ty t n' s)) j)) \<subseteq> set (refs (node_at g0 j))"
    if "j < length (nodes g0)" for j
  proof (cases "NodeRef j = t")
    case True
    then have n: "get_ty (NodeRef j) s = Inr n" using assms(2) by simp
    have "set (refs (node_at (ps_graph s) j)) \<subseteq> set (refs (node_at g0 j))"
      using assms(1) that by (simp add: ok_def)
    moreover have "node_at (ps_graph s) j = n"
      using n unfolding get_ty_def by (rule deref_owned)
    ultimately have "set (refs n') \<subseteq> set (refs (node_at g0 j))" using assms(5) by blast
    then show ?thesis using put_same [OF n, of n'] True by simp
  next
    case False
    have "set (refs (node_at (ps_graph s) j)) \<subseteq> set (refs (node_at g0 j))"
      using assms(1) that by (simp add: ok_def)
    then show ?thesis using put_other [OF assms(2) False] by simp
  qed
  ultimately show ?thesis using assms(1) by (simp add: ok_def put_ty_def)
qed

lemma ok_marks: "ok (s\<lparr>ps_marks := v\<rparr>) = ok s"
  by (simp add: ok_def)

text \<open>The two halves of a visit in the form the contract of a pass asks for.\<close>

definition enter :: "tref \<Rightarrow> 'v pass_state \<Rightarrow> (tref list \<times> 'v pass_state) outcome" where
  "enter t s = bindE (visit_mark (ps_graph s) t (ps_marks s)) (\<lambda>(seen, v).
     bindE (get_ty t s) (\<lambda>n. Inr (succs (pre n), put_ty t (pre n) (s\<lparr>ps_marks := v\<rparr>))))"

definition leave :: "tref \<Rightarrow> 'v pass_state \<Rightarrow> 'v pass_state outcome" where
  "leave t s = (if touched (ctor0 t)
     then bindE (get_ty t s) (\<lambda>n. bindE (post (ctor0 t) (ps_graph s) n) (\<lambda>n'. Inr (put_ty t n' s)))
     else Inr s)"

lemma univ_closed: "t \<in> univ \<Longrightarrow> start g0 \<Longrightarrow> set (cov t) \<subseteq> univ"
proof
  fix u assume t: "t \<in> univ" "start g0" and u: "u \<in> set (cov t)"
  then have "u \<in> reach cov (rootTypes g0)" by (auto simp: univ_def intro: reach.step)
  moreover have "in_graph g0 u"
  proof (cases t)
    case (PrimRef k)
    then show ?thesis using u pre_same(1) [of "Primitive k"]
      by (auto simp: cov_def edges_def ctor_of_iff)
  next
    case (NodeRef i)
    then have "u \<in> set (refs (node_at g0 i))"
      using t u pre_refs succs_subset_refs by (auto simp: cov_def edges_def univ_def)
    then show ?thesis using t NodeRef wf_refsD by (auto simp: univ_def start_def)
  qed
  ultimately show "u \<in> univ" by (simp add: univ_def)
qed

lemma okD: "ok s \<Longrightarrow> start g0" "ok s \<Longrightarrow> extends g0 (ps_graph s)"
  "ok s \<Longrightarrow> length (nodes (ps_graph s)) = length (nodes g0)"
  by (simp_all add: ok_def)

lemma univ_in_graph: "t \<in> univ \<Longrightarrow> in_graph g0 t"
  by (simp add: univ_def)

lemma leaf_succs: "ctor_of n = 3 \<or> ctor_of n = 4 \<Longrightarrow> succs n = []"
  by (cases n) auto

lemma unmarkable_leaf:
  assumes "ok s" "in_graph g0 t" "\<not> markable g0 t" "get_ty t s = Inr n"
  shows "pre n = n" "fin g0 n = n" "succs n = []"
proof -
  obtain n' m where "get_ty t s = Inr n'" "deref g0 t = Inr m" "ctor_of n' = ctor_of m"
    using ok_deref [OF assms(1,2)] deref_in_graph [OF assms(2)] by metis
  moreover have "good g0" using okD(1) [OF assms(1)] by (simp add: start_def)
  ultimately have "ctor_of n = 3 \<or> ctor_of n = 4" using unmarkable [of t m] assms by auto
  then show "pre n = n" "fin g0 n = n" "succs n = []" using leaves untouched leaf_succs by metis+
qed

lemma body_shape:
  assumes "ok s" "t \<in> univ"
  shows "accept_with visit_mark visit call t s = (if marked g0 (ps_marks s) t then Inr s else
     bindE (enter t s) (\<lambda>(ts, s1). bindE (for_each call ts s1) (\<lambda>s2.
     bindE (Inr ([], s2)) (\<lambda>(us, s3). bindE (for_each call us s3) (leave t)))))"
proof -
  have tg: "in_graph g0 t" using assms(2) by (rule univ_in_graph)
  have wf: "wf_ids g0" using okD(1) [OF assms(1)] by (simp add: start_def)
  obtain m where m: "deref g0 t = Inr m" using deref_in_graph tg by blast
  obtain n where n: "get_ty t s = Inr n" "ctor_of n = ctor_of m"
    using ok_deref [OF assms(1) tg] m by metis
  show ?thesis
  proof (rule visit_mark_cases [OF wf okD(2) [OF assms(1)] tg, of "ps_marks s"], goal_cases)
    case 1
    then show ?case by (simp add: accept_with_def)
  next
    case (2 v')
    have "get_ty t (s\<lparr>ps_marks := v'\<rparr>) = Inr n" using n by (simp add: get_ty_def)
    from visit_touched [OF this, of call] visit_untouched [OF this, of call] 2 m n untouched [of n]
      put_self [OF this]
    show ?case
      by (cases "touched (ctor_of n)")
        (simp_all add: accept_with_def enter_def leave_def [abs_def] ctor0_def)
  qed
qed

lemma enter_contract:
  assumes "ok s" "t \<in> univ" "\<not> marked g0 (ps_marks s) t"
    and n0: "\<And>i. t = NodeRef i \<Longrightarrow> node_at (ps_graph s) i = node_at g0 i"
  shows "spec {} (enter t s) (\<lambda>(ts, s1). ok s1 \<and> staged pre s1 t \<and> ts = cov t \<and>
     (\<not> markable g0 t \<longrightarrow> ts = []) \<and> (\<forall>k. t = PrimRef k \<longrightarrow> ts = []) \<and>
     (\<forall>u. marked g0 (ps_marks s1) u \<longleftrightarrow> marked g0 (ps_marks s) u \<or> u = t \<and> markable g0 t) \<and>
     (\<forall>i. NodeRef i \<noteq> t \<longrightarrow> node_at (ps_graph s1) i = node_at (ps_graph s) i) \<and>
     (\<not> markable g0 t \<longrightarrow> ps_graph s1 = ps_graph s))"
proof -
  have tg: "in_graph g0 t" using assms(2) by (rule univ_in_graph)
  have wf: "wf_ids g0" using okD(1) [OF assms(1)] by (simp add: start_def)
  obtain v' where v': "visit_mark (ps_graph s) t (ps_marks s) = Inr (False, v')"
    "\<And>u. marked g0 v' u \<longleftrightarrow> marked g0 (ps_marks s) u \<or> u = t \<and> markable g0 t"
    using visit_mark_cases [OF wf okD(2) [OF assms(1)] tg, of "ps_marks s"] assms(3) by metis
  obtain n where n: "get_ty t s = Inr n" "deref g0 t = Inr n"
  proof (cases t)
    case (PrimRef k)
    then show ?thesis using that by (simp add: get_ty_def)
  next
    case (NodeRef i)
    obtain m where m: "get_ty t s = Inr m" "m = node_at (ps_graph s) i" "i < length (nodes g0)"
      using ok_deref [OF assms(1) tg] NodeRef by metis
    moreover from this have "deref g0 t = Inr m" using n0 [OF NodeRef] NodeRef by simp
    ultimately show ?thesis using that by blast
  qed
  let ?s = "s\<lparr>ps_marks := v'\<rparr>"
  have get: "get_ty t ?s = Inr n" using n(1) by (simp add: get_ty_def)
  have "ok (put_ty t (pre n) ?s)"
    using ok_put [of ?s, OF _ get] assms(1) pre_same pre_refs by (simp add: ok_marks)
  moreover have "staged pre (put_ty t (pre n) ?s) t"
    using get n(2) put_same [of _ ?s n "pre n"] deref_owned(2) [of g0]
    by (auto simp: staged_def split: tref.split)
  moreover have "(\<exists>k. t = PrimRef k) \<longrightarrow> succs (pre n) = []"
    using n(2) pre_same(1) [of n] by (auto simp: ctor_of_iff)
  moreover have "node_at (ps_graph (put_ty t (pre n) ?s)) i = node_at (ps_graph s) i"
    if "NodeRef i \<noteq> t" for i
    using put_other [OF get that] by simp
  moreover have "succs (pre n) = [] \<and> ps_graph (put_ty t (pre n) ?s) = ps_graph s"
    if "\<not> markable g0 t"
    using unmarkable_leaf [OF assms(1) tg that n(1)] put_self [OF get] by simp
  ultimately show ?thesis
    using v' n by (simp add: enter_def cov_def edges_def)
qed

lemma leave_contract:
  assumes "ok s" "t \<in> univ" "staged pre s t"
  shows "spec {} (leave t s) (\<lambda>s1. ok s1 \<and> staged (\<lambda>n. fin g0 (pre n)) s1 t \<and>
     ps_marks s1 = ps_marks s \<and>
     (\<forall>i. NodeRef i \<noteq> t \<or> \<not> markable g0 t \<longrightarrow> node_at (ps_graph s1) i = node_at (ps_graph s) i))"
proof -
  have tg: "in_graph g0 t" using assms(2) by (rule univ_in_graph)
  obtain n where n: "get_ty t s = Inr n" "\<forall>u \<in> set (refs n). in_graph g0 u"
    "\<And>i. t = NodeRef i \<Longrightarrow> n = node_at (ps_graph s) i \<and> i < length (nodes g0)"
    using ok_deref [OF assms(1) tg] by metis
  have "ctor0 t = ctor_of n"
    using ok_deref [OF assms(1) tg] deref_in_graph [OF tg] n(1) unfolding ctor0_def
    by (metis (no_types, lifting) sum.inject(2) sum.case(2))
  moreover have "touched (ctor_of n) \<Longrightarrow> post (ctor_of n) (ps_graph s) n = Inr (fin g0 n)"
    using post_fin okD [OF assms(1)] n(2) by (simp add: start_def)
  moreover have "\<not> touched (ctor_of n) \<Longrightarrow> put_ty t (fin g0 n) s = s"
    using untouched put_self [OF n(1)] by simp
  moreover have "ok (put_ty t (fin g0 n) s)"
    using ok_put [OF assms(1) n(1)] fin_same fin_refs by simp
  moreover have "staged (\<lambda>n. fin g0 (pre n)) (put_ty t (fin g0 n) s) t"
    using n assms(3) put_same [of _ s n "fin g0 n"]
    by (auto simp: staged_def split: tref.splits)
  moreover have "node_at (ps_graph (put_ty t (fin g0 n) s)) i = node_at (ps_graph s) i"
    if "NodeRef i \<noteq> t \<or> \<not> markable g0 t" for i
    using that put_other [OF n(1), of i] unmarkable_leaf(2) [OF assms(1) tg _ n(1)] put_self [OF n(1)]
    by auto
  ultimately show ?thesis using n(1)
    by (cases "touched (ctor_of n)") (simp_all add: leave_def)
qed

sublocale pass: node_pass ps_graph "\<lambda>s. marked g0 (ps_marks s)" "markable g0"
  "length (nodes g0)" "node_at g0" univ ok "\<lambda>s s'. True" cov "\<lambda>t. []"
  "staged (\<lambda>n. fin g0 (pre n))" "{}" "staged pre" "staged pre" enter "\<lambda>t s. Inr ([], s)" leave
  "accept_with visit_mark visit"
proof (unfold_locales, goal_cases)
  case (5 s t call)
  then show ?case by (rule body_shape)
next
  case (1 i)
  then show ?case using univ_in_graph by fastforce
next
  case (7 s t)
  show ?case
    by (rule spec_mono [OF enter_contract [OF 7(1,2,3,4)]])
      (use univ_closed [OF 7(2) okD(1) [OF 7(1)]] in \<open>auto split: tref.splits\<close>)
next
  case (9 s t)
  show ?case by (rule spec_mono [OF leave_contract [OF 9]]) auto
qed (auto simp: staged_def split: tref.splits)

text \<open>The result of the pass.\<close>

definition mapped :: type_graph where
  "mapped = map_reached pre (\<lambda>n. fin g0 (pre n)) g0"

theorem map_pass_result:
  assumes start: "start g0" and "clear v"
  shows "\<exists>s'. walk_roots (accept_with visit_mark visit) v g0 = Inr s' \<and> ps_graph s' = mapped"
proof -
  let ?s = "\<lparr>ps_marks = v, ps_graph = g0\<rparr>"
  let ?R = "reach cov (rootTypes g0)"
  have roots: "set (rootTypes g0) \<subseteq> univ"
    using start by (auto simp: univ_def start_def wf_refs_def intro: reach.root)
  have "ok ?s" using start by (simp add: ok_def)
  from pass.walk.run [OF this _ _ roots, of "chain_depth g0"]
  obtain s' where s': "for_each (recur (accept_with visit_mark visit) (chain_depth g0)) (rootTypes g0) ?s = Inr s'"
    and ok': "ok s'"
    and roots': "\<And>t. t \<in> set (rootTypes g0) \<Longrightarrow> markable g0 t \<Longrightarrow> marked g0 (ps_marks s') t"
    and nodes': "\<And>i. i < length (nodes g0) \<Longrightarrow> if marked g0 (ps_marks s') (NodeRef i)
        then NodeRef i \<in> univ \<and> staged (\<lambda>n. fin g0 (pre n)) s' (NodeRef i) \<and>
          (\<forall>u \<in> set (cov (NodeRef i)). markable g0 u \<longrightarrow> marked g0 (ps_marks s') u)
        else node_at (ps_graph s') i = node_at g0 i"
    using clear_law [OF \<open>clear v\<close>] by (auto simp: spec_empty_iff chain_depth_def)
  have good: "good g0" using start by (simp add: start_def)
  have cov_leaf: "cov t = []" if t: "in_graph g0 t" "\<not> markable g0 t \<or> (\<exists>k. t = PrimRef k)" for t
  proof -
    obtain n where n: "deref g0 t = Inr n" using deref_in_graph t(1) by blast
    then have "ctor_of n = 3 \<or> ctor_of n = 4" using unmarkable [OF good t(1) _ n] t(2) by auto
    then show ?thesis using leaves untouched leaf_succs n by (metis cov_def edges_def sum.case(2))
  qed
  have "?R \<subseteq> {t. in_graph g0 t \<and> (markable g0 t \<longrightarrow> marked g0 (ps_marks s') t)}"
  proof (rule reach_least)
    show "set (rootTypes g0) \<subseteq> {t. in_graph g0 t \<and> (markable g0 t \<longrightarrow> marked g0 (ps_marks s') t)}"
      using roots roots' by (auto simp: univ_def)
    fix t assume t: "t \<in> {t. in_graph g0 t \<and> (markable g0 t \<longrightarrow> marked g0 (ps_marks s') t)}"
    show "set (cov t) \<subseteq> {t. in_graph g0 t \<and> (markable g0 t \<longrightarrow> marked g0 (ps_marks s') t)}"
    proof (cases "cov t = []")
      case False
      then obtain i where i: "t = NodeRef i" "markable g0 t" "i < length (nodes g0)"
        using cov_leaf [of t] t by (cases t) auto
      then show ?thesis using nodes' [OF i(3)] t univ_closed [OF _ start, of t] univ_in_graph by auto
    qed simp
  qed
  then have reached: "NodeRef i \<in> ?R \<longleftrightarrow> marked g0 (ps_marks s') (NodeRef i)"
    if "i < length (nodes g0)" "markable g0 (NodeRef i)" for i
    using nodes' [OF that(1)] that by (auto simp: univ_def split: if_splits)
  have "node_at (ps_graph s') i = nodes mapped ! i" if i: "i < length (nodes g0)" for i
  proof (cases "markable g0 (NodeRef i)")
    case True
    show ?thesis using nodes' [OF i] reached [OF i True] i
      by (auto simp: mapped_def map_reached_def cov_def [symmetric] staged_def split: if_splits)
  next
    case False
    have "deref g0 (NodeRef i) = Inr (node_at g0 i)" using i by simp
    from unmarkable [OF good _ False this] i leaves untouched [of "node_at g0 i"]
    have same: "fin g0 (pre (node_at g0 i)) = node_at g0 i" by auto
    then show ?thesis using nodes' [OF i] i
      by (auto simp: mapped_def map_reached_def cov_def [symmetric] staged_def split: if_splits)
  qed
  then have "nodes (ps_graph s') = nodes mapped"
    using ok' by (intro nth_equalityI) (auto simp: ok_def mapped_def map_reached_def node_at_def)
  then have "ps_graph s' = mapped"
    using ok' by (intro type_graph.equality) (auto simp: ok_def mapped_def map_reached_def cov_def extends_def)
  then show ?thesis using s' by (simp add: walk_roots_def)
qed

end

end
