(* ===== verification/LocalPasses.thy ===== *)
theory LocalPasses
  imports MapPass
begin

text \<open>
  The passes that change nodes one by one: \<^verbatim>\<open>RemoveTopLevelPointer.cpp\<close>, \<^verbatim>\<open>RemoveMembers.cpp\<close>,
  \<^verbatim>\<open>EnforceCompatibility.cpp\<close> and \<^verbatim>\<open>Prune.cpp\<close>.
\<close>

section \<open>RemoveTopLevelPointer\<close>

text \<open>\<^verbatim>\<open>topLevelType_\<close> is the result; the visits of the other types take no action.\<close>

definition removeTopLevelPointer_visit :: "type_graph \<Rightarrow> tref \<Rightarrow> tref outcome" where
  "removeTopLevelPointer_visit g t = bindE (deref g t) (\<lambda>n. case n of
      Pointer p \<Rightarrow> Inr (pt_pointee p)
    | Reference r \<Rightarrow> Inr (rf_pointee r)
    | _ \<Rightarrow> Inr t)"

definition removeTopLevelPointers :: pass_fn where
  "removeTopLevelPointers g v = bindE (mapE (removeTopLevelPointer_visit g) (rootTypes g))
     (\<lambda>ts. Inr (g\<lparr>rootTypes := ts\<rparr>, v))"

section \<open>RemoveMembers\<close>

fun ignoreMember :: "(string \<times> string) list \<Rightarrow> string \<Rightarrow> string \<Rightarrow> bool" where
  "ignoreMember [] typeName memberName = False"
| "ignoreMember ((ignoredType, ignoredMember) # rest) typeName memberName =
     (if typeName = ignoredType \<and> (memberName = ignoredMember \<or> ignoredMember = ''*'')
      then True else ignoreMember rest typeName memberName)"

definition is_incomplete :: "ty \<Rightarrow> bool" where
  "is_incomplete n = (case n of Incomplete i \<Rightarrow> True | _ \<Rightarrow> False)"

definition member_removed ::
    "(string \<times> string) list \<Rightarrow> type_graph \<Rightarrow> string \<Rightarrow> member \<Rightarrow> bool outcome" where
  "member_removed ignore g inputName m =
     (if ignoreMember ignore inputName (m_name m) then Inr True
      else bindE (deref g (m_type m)) (\<lambda>n. Inr (is_incomplete n)))"

definition removeMembers_visit ::
    "(string \<times> string) list \<Rightarrow> tref set walker \<Rightarrow> tref set walker" where
  "removeMembers_visit ignore accept t s = bindE (get_ty t s) (\<lambda>n. case n of
      Class c \<Rightarrow>
        let c = (if cl_kind c = KUnion then c\<lparr>cl_members := []\<rparr> else c);
            s = put_ty t (Class c) s in
        bindE (for_each (\<lambda>p. accept (tp_type p)) (cl_templateParams c) s) (\<lambda>s.
        bindE (for_each (\<lambda>p. accept (p_type p)) (cl_parents c) s) (\<lambda>s.
        bindE (for_each (\<lambda>m. accept (m_type m)) (cl_members c) s) (\<lambda>s.
        bindE (for_each accept (cl_children c) s) (\<lambda>s.
        bindE (get_class t s) (\<lambda>c.
        bindE (filterE (\<lambda>m. bindE (member_removed ignore (ps_graph s) (cl_inputName c) m)
          (\<lambda>b. Inr (\<not> b))) (cl_members c)) (\<lambda>ms.
        Inr (put_ty t (Class (c\<lparr>cl_members := ms\<rparr>)) s)))))))
    | _ \<Rightarrow> recursive_visit accept n s)"

definition removeMembers_accept ::
    "(string \<times> string) list \<Rightarrow> tref set walker \<Rightarrow> tref set walker" where
  "removeMembers_accept ignore = accept_with ptr_visit (removeMembers_visit ignore)"

definition removeMembers_pass :: "(string \<times> string) list \<Rightarrow> pass_fn" where
  "removeMembers_pass ignore = pointer_pass (removeMembers_accept ignore)"

section \<open>EnforceCompatibility\<close>

definition typesToStub :: "string list" where
  "typesToStub = [''SharedMutex'', ''EnumMap'', ''function'', ''Function'', ''ConcurrentHashMap'',
     ''DelayedDestruction'', ''McServerSession'', ''Range'', ''ReadResumableHandle'',
     ''CountedIntrusiveList'', ''EventBaseAtomicNotificationQueue'', ''IOBufIovecBuilder'', ''event'']"

definition isTypeToStub :: "class_node \<Rightarrow> bool" where
  "isTypeToStub c = list_ex (\<lambda>p. starts_with (cl_name c) p) typesToStub"

definition ParentPrefix :: string where
  "ParentPrefix = ''__oi_parent''"

definition enforceCompatibility_visit :: "node_tracker walker \<Rightarrow> node_tracker walker" where
  "enforceCompatibility_visit accept t s = bindE (get_ty t s) (\<lambda>n. case n of
      Class c \<Rightarrow>
        let c = (if isTypeToStub c then c\<lparr>cl_members := []\<rparr> else c);
            s = put_ty t (Class c) s in
        bindE (for_each (\<lambda>p. accept (tp_type p)) (cl_templateParams c) s) (\<lambda>s.
        bindE (for_each (\<lambda>p. accept (p_type p)) (cl_parents c) s) (\<lambda>s.
        bindE (for_each (\<lambda>m. accept (m_type m)) (cl_members c) s) (\<lambda>s.
        bindE (for_each accept (cl_children c) s) (\<lambda>s.
        bindE (get_class t s) (\<lambda>c.
        Inr (put_ty t (Class (c\<lparr>cl_members :=
          filter (\<lambda>m. \<not> starts_with (m_name m) ParentPrefix) (cl_members c)\<rparr>)) s))))))
    | _ \<Rightarrow> recursive_visit accept n s)"

definition enforceCompatibility_accept :: "node_tracker walker \<Rightarrow> node_tracker walker" where
  "enforceCompatibility_accept = accept_with trk_visit enforceCompatibility_visit"

definition enforceCompatibility_pass :: pass_fn where
  "enforceCompatibility_pass = tracker_pass enforceCompatibility_accept"

section \<open>Prune\<close>

definition prune_visit :: "node_tracker walker \<Rightarrow> node_tracker walker" where
  "prune_visit accept t s = bindE (get_ty t s) (\<lambda>n. case n of
      Class c \<Rightarrow>
        bindE (recursive_visit accept n s) (\<lambda>s.
        bindE (get_class t s) (\<lambda>c.
        Inr (put_ty t (Class (c\<lparr>cl_templateParams := [], cl_parents := [],
          cl_functions := []\<rparr>)) s)))
    | Container c \<Rightarrow>
        bindE (recursive_visit accept n s) (\<lambda>s.
        bindE (get_container t s) (\<lambda>c.
        Inr (put_ty t (Container (c\<lparr>co_underlying := None\<rparr>)) s)))
    | _ \<Rightarrow> recursive_visit accept n s)"

definition prune_accept :: "node_tracker walker \<Rightarrow> node_tracker walker" where
  "prune_accept = accept_with trk_visit prune_visit"

definition prune_pass :: pass_fn where
  "prune_pass = tracker_pass prune_accept"

section \<open>The changes of one node\<close>

definition removed :: "(string \<times> string) list \<Rightarrow> type_graph \<Rightarrow> string \<Rightarrow> member \<Rightarrow> bool" where
  "removed ignore g inputName m \<longleftrightarrow> ignoreMember ignore inputName (m_name m) \<or>
     (case deref g (m_type m) of Inl e \<Rightarrow> False | Inr n \<Rightarrow> is_incomplete n)"

fun removeMembers_pre :: "ty \<Rightarrow> ty" where
  "removeMembers_pre (Class c) =
     Class (if cl_kind c = KUnion then c\<lparr>cl_members := []\<rparr> else c)"
| "removeMembers_pre n = n"

fun removeMembers_post :: "(string \<times> string) list \<Rightarrow> nat \<Rightarrow> type_graph \<Rightarrow> ty \<Rightarrow> ty outcome" where
  "removeMembers_post ignore k g (Class c) =
     bindE (filterE (\<lambda>m. bindE (member_removed ignore g (cl_inputName c) m) (\<lambda>b. Inr (\<not> b)))
       (cl_members c)) (\<lambda>ms. Inr (Class (c\<lparr>cl_members := ms\<rparr>)))"
| "removeMembers_post ignore k g n = Inl (Undefined ''bad cast'')"

fun removeMembers_fin :: "(string \<times> string) list \<Rightarrow> type_graph \<Rightarrow> ty \<Rightarrow> ty" where
  "removeMembers_fin ignore g (Class c) =
     Class (c\<lparr>cl_members := filter (\<lambda>m. \<not> removed ignore g (cl_inputName c) m) (cl_members c)\<rparr>)"
| "removeMembers_fin ignore g n = n"

fun enforceCompatibility_pre :: "ty \<Rightarrow> ty" where
  "enforceCompatibility_pre (Class c) =
     Class (if isTypeToStub c then c\<lparr>cl_members := []\<rparr> else c)"
| "enforceCompatibility_pre n = n"

fun enforceCompatibility_fin :: "ty \<Rightarrow> ty" where
  "enforceCompatibility_fin (Class c) = Class (c\<lparr>cl_members :=
     filter (\<lambda>m. \<not> starts_with (m_name m) ParentPrefix) (cl_members c)\<rparr>)"
| "enforceCompatibility_fin n = n"

fun enforceCompatibility_post :: "nat \<Rightarrow> type_graph \<Rightarrow> ty \<Rightarrow> ty outcome" where
  "enforceCompatibility_post k g (Class c) = Inr (enforceCompatibility_fin (Class c))"
| "enforceCompatibility_post k g n = Inl (Undefined ''bad cast'')"

fun prune_fin :: "ty \<Rightarrow> ty" where
  "prune_fin (Class c) = Class (c\<lparr>cl_templateParams := [], cl_parents := [], cl_functions := []\<rparr>)"
| "prune_fin (Container c) = Container (c\<lparr>co_underlying := None\<rparr>)"
| "prune_fin n = n"

lemma ignoreMember_iff:
  "ignoreMember ignore ty_name mem_name \<longleftrightarrow>
     (ty_name, mem_name) \<in> set ignore \<or> (ty_name, ''*'') \<in> set ignore"
  by (induction ignore ty_name mem_name rule: ignoreMember.induct) auto

lemma member_removed_iff:
  assumes "extends g0 g" "in_graph g0 (m_type m)"
  shows "member_removed ignore g name m = Inr (removed ignore g0 name m)"
proof -
  obtain n where n: "deref g0 (m_type m) = Inr n" using deref_in_graph assms(2) by blast
  then obtain n' where "deref g (m_type m) = Inr n'" "ctor_of n' = ctor_of n"
    using extends_deref [OF assms(1)] by blast
  moreover from this have "is_incomplete n' = is_incomplete n"
    by (cases n; cases n') (simp_all add: is_incomplete_def)
  ultimately show ?thesis using n by (simp add: member_removed_def removed_def)
qed

fun prune_post :: "nat \<Rightarrow> type_graph \<Rightarrow> ty \<Rightarrow> ty outcome" where
  "prune_post k g n = (if ctor_of n = k then Inr (prune_fin n) else Inl (Undefined ''bad cast''))"

text \<open>A graph without \<^verbatim>\<open>CaptureKeys\<close> nodes: only the leaves of such a graph cannot be tracked.\<close>

definition no_capture_keys :: "type_graph \<Rightarrow> bool" where
  "no_capture_keys g = list_all (\<lambda>n. ctor_of n \<noteq> 11) (nodes g)"

lemma untracked_leaf:
  assumes "wf_ids g \<and> no_capture_keys g" "in_graph g t" "\<not> trk_markable g t" "deref g t = Inr n"
  shows "ctor_of n = 3 \<or> ctor_of n = 4"
proof (cases t)
  case (NodeRef i)
  then have i: "i < length (nodes g)" "n = node_at g i" using assms(2,4) by auto
  then have "\<not> has_node_id n" using assms NodeRef trk_markable_iff by blast
  moreover have "ctor_of n \<noteq> 11"
    using assms(1) i nth_mem by (fastforce simp: no_capture_keys_def list_all_iff node_at_def)
  ultimately show ?thesis by (cases n) auto
qed (use assms in auto)

text \<open>What the changes have in common.\<close>

lemma changes_keep:
  "keeps removeMembers_pre" "keeps (removeMembers_fin ignore g)" "keeps enforceCompatibility_pre"
  "keeps enforceCompatibility_fin" "keeps prune_fin" "keeps (\<lambda>n. n)"
proof -
  show "keeps removeMembers_pre"
    unfolding keeps_def by (rule allI, rule ty.induct) auto
  show "keeps (removeMembers_fin ignore g)"
    unfolding keeps_def by (rule allI, rule ty.induct) auto
  show "keeps enforceCompatibility_pre"
    unfolding keeps_def by (rule allI, rule ty.induct) auto
  show "keeps enforceCompatibility_fin"
    unfolding keeps_def by (rule allI, rule ty.induct) auto
  show "keeps prune_fin"
    unfolding keeps_def by (rule allI, rule ty.induct) (auto split: option.splits)
qed (simp add: keeps_def)

lemma changes_untouched:
  "ctor_of n \<noteq> Suc 0 \<Longrightarrow> removeMembers_pre n = n \<and> removeMembers_fin ignore g n = n"
  "ctor_of n \<noteq> Suc 0 \<Longrightarrow> enforceCompatibility_pre n = n \<and> enforceCompatibility_fin n = n"
  "ctor_of n \<noteq> Suc 0 \<Longrightarrow> ctor_of n \<noteq> 2 \<Longrightarrow> prune_fin n = n"
  by (cases n; simp)+

text \<open>The four loops of a visit of a class, as the walk over its successors.\<close>

lemma class_loops:
  "bindE (for_each (\<lambda>p. accept (tp_type p)) (cl_templateParams c) s) (\<lambda>s.
   bindE (for_each (\<lambda>p. accept (p_type p)) (cl_parents c) s) (\<lambda>s.
   bindE (for_each (\<lambda>m. accept (m_type m)) (cl_members c) s) (\<lambda>s.
   bindE (for_each accept (cl_children c) s) k))) = bindE (for_each accept (succs (Class c)) s) k"
  by (simp add: for_each_fun for_each_map_fun bindE_assoc)

lemma get_class_eq:
  "bindE (get_class t s) f = bindE (get_ty t s) (\<lambda>n. case n of
     Class c \<Rightarrow> f c | _ \<Rightarrow> Inl (Undefined ''bad cast''))"
  "bindE (get_container t s) h = bindE (get_ty t s) (\<lambda>n. case n of
     Container c \<Rightarrow> h c | _ \<Rightarrow> Inl (Undefined ''bad cast''))"
  by (auto simp: get_class_def get_container_def bindE_assoc
    intro!: arg_cong [where f = "bindE (get_ty t s)"] split: ty.split)

interpretation rm: map_pass ptr_visit ptr_marked "\<lambda>g0 t. True" "\<lambda>v. v = {}"
  "removeMembers_visit ignore" "\<lambda>k. k = 1" removeMembers_pre "removeMembers_post ignore"
  "removeMembers_fin ignore" "\<lambda>g. True" g0 for ignore g0
proof (unfold_locales, goal_cases)
  case (1 t s n accept)
  then obtain c where "n = Class c" by (auto simp: ctor_of_iff)
  with 1 show ?case
    unfolding removeMembers_visit_def
    by (simp only: bindE_simps ty.case Let_def class_loops get_class_eq removeMembers_pre.simps)
      (auto intro!: bindE_cong simp: bindE_assoc split: ty.splits)
next
  case (2 t s n accept)
  then show ?case by (cases n) (simp_all add: removeMembers_visit_def recursive_visit_succs)
next
  case (3 g n)
  then obtain c where c: "n = Class c" by (auto simp: ctor_of_iff)
  have "filterE (\<lambda>m. bindE (member_removed ignore g (cl_inputName c) m) (\<lambda>b. Inr (\<not> b))) (cl_members c) =
      Inr (filter (\<lambda>m. \<not> removed ignore g0 (cl_inputName c) m) (cl_members c))"
    using 3 c by (intro filterE_pure) (auto simp: member_removed_iff)
  then show ?case using c by simp
qed (simp_all add: changes_keep changes_untouched)

interpretation ec: map_pass trk_visit trk_marked trk_markable "\<lambda>v. \<forall>nid. \<not> tracked v nid"
  enforceCompatibility_visit "\<lambda>k. k = 1" enforceCompatibility_pre enforceCompatibility_post
  "\<lambda>g. enforceCompatibility_fin" "\<lambda>g. wf_ids g \<and> no_capture_keys g" g0 for g0
proof (unfold_locales, goal_cases)
  case (1 t s n accept)
  then obtain c where "n = Class c" by (auto simp: ctor_of_iff)
  with 1 show ?case
    unfolding enforceCompatibility_visit_def
    by (simp only: bindE_simps ty.case Let_def class_loops get_class_eq enforceCompatibility_pre.simps)
      (auto intro!: bindE_cong simp: bindE_assoc split: ty.splits)
next
  case (2 t s n accept)
  then show ?case by (cases n) (simp_all add: enforceCompatibility_visit_def recursive_visit_succs)
next
  case (7 t n)
  then show ?case by (rule untracked_leaf)
qed (auto simp: changes_keep changes_untouched ctor_of_iff)

interpretation pr: map_pass trk_visit trk_marked trk_markable "\<lambda>v. \<forall>nid. \<not> tracked v nid"
  prune_visit "\<lambda>k. k = 1 \<or> k = 2" "\<lambda>n. n" prune_post
  "\<lambda>g. prune_fin" "\<lambda>g. wf_ids g \<and> no_capture_keys g" g0 for g0
proof (unfold_locales, goal_cases)
  case (1 t s n accept)
  let ?leave = "\<lambda>k s'. bindE (get_ty t s') (\<lambda>n'. bindE (prune_post k (ps_graph s') n')
      (\<lambda>n''. Inr (put_ty t n'' s')))"
  have recast: "(\<lambda>s'. bindE (get_class t s') (\<lambda>c. Inr (put_ty t (Class (c\<lparr>cl_templateParams := [],
      cl_parents := [], cl_functions := []\<rparr>)) s'))) = ?leave 1"
    "(\<lambda>s'. bindE (get_container t s') (\<lambda>c. Inr (put_ty t (Container (c\<lparr>co_underlying := None\<rparr>)) s')))
      = ?leave 2"
    by (rule ext, simp only: get_class_eq, rule bindE_cong, rule refl, simp split: ty.split)+
  have self: "put_ty t n s = s" using 1(1) by (simp add: put_ty_def get_ty_def put_node_self)
  from 1(2) consider c where "n = Class c" | c where "n = Container c" by (auto simp: ctor_of_iff)
  then show ?case
  proof cases
    case (1 c)
    then show ?thesis
      using \<open>get_ty t s = Inr n\<close> self
      by (simp only: prune_visit_def recursive_visit_succs recast bindE_simps ty.case ctor_of.simps)
  next
    case (2 c)
    then show ?thesis
      using \<open>get_ty t s = Inr n\<close> self
      by (simp only: prune_visit_def recursive_visit_succs recast bindE_simps ty.case ctor_of.simps)
  qed
next
  case (2 t s n accept)
  then show ?case by (cases n) (simp_all add: prune_visit_def recursive_visit_succs)
next
  case (7 t n)
  then show ?case by (rule untracked_leaf)
qed (auto simp: changes_keep changes_untouched ctor_of_iff)

section \<open>Properties\<close>

text \<open>What each pass makes of a node.\<close>

fun removeMembers_node :: "(string \<times> string) list \<Rightarrow> type_graph \<Rightarrow> ty \<Rightarrow> ty" where
  "removeMembers_node ignore g (Class c) = Class (c\<lparr>cl_members := if cl_kind c = KUnion then []
     else filter (\<lambda>m. \<not> removed ignore g (cl_inputName c) m) (cl_members c)\<rparr>)"
| "removeMembers_node ignore g n = n"

fun enforceCompatibility_node :: "ty \<Rightarrow> ty" where
  "enforceCompatibility_node (Class c) = Class (c\<lparr>cl_members := if isTypeToStub c then []
     else filter (\<lambda>m. \<not> prefix ''__oi_parent'' (m_name m)) (cl_members c)\<rparr>)"
| "enforceCompatibility_node n = n"

lemma removeMembers_node_eq:
  "removeMembers_fin ignore g (removeMembers_pre n) = removeMembers_node ignore g n"
  by (cases n) auto

lemma enforceCompatibility_node_eq:
  "enforceCompatibility_fin (enforceCompatibility_pre n) = enforceCompatibility_node n"
  by (cases n) (auto simp: starts_with_prefix ParentPrefix_def)

lemma node_changes_keep:
  "keeps (removeMembers_node ignore g)" "keeps enforceCompatibility_node"
proof -
  show "keeps (removeMembers_node ignore g)"
    unfolding keeps_def by (rule allI, rule ty.induct) auto
  show "keeps enforceCompatibility_node"
    unfolding keeps_def by (rule allI, rule ty.induct) auto
qed

lemma node_changes_keep_children:
  "keeps_children (removeMembers_node ignore g)" "keeps_children enforceCompatibility_node"
  "keeps_children prune_fin"
  by (auto simp: keeps_children_def)

lemma removeMembers_contract:
  assumes "wf_graph g"
  shows "removeMembers_pass ignore g v =
      Inr (map_reached removeMembers_pre (removeMembers_node ignore g) g, v) \<and>
    wf_graph (map_reached removeMembers_pre (removeMembers_node ignore g) g)"
proof -
  have "wf_graph (map_reached removeMembers_pre (removeMembers_node ignore g) g)"
    by (rule map_reached_wf [OF assms node_changes_keep(1) node_changes_keep_children(1)])
  then show ?thesis
    using rm.map_pass_result [of g "{}" ignore] assms
    by (auto simp: removeMembers_pass_def removeMembers_accept_def pointer_pass_def
      rm.mapped_def rm.start_def wf_graph_def removeMembers_node_eq)
qed

text \<open>
  C23: on every well-formed graph \<^verbatim>\<open>RemoveMembers\<close> returns, and the graph it leaves is the one it got
  with each reachable class changed: a union has lost all its members, any other class those that
  are ignored by name (or by \<^verbatim>\<open>*\<close>) or have an incomplete type. Nothing else is changed, what was
  reachable only through the members of a union is not visited, and the graph is well-formed again.
\<close>

theorem removeMembers_pass_result:
  assumes "wf_graph g"
  shows "removeMembers_pass ignore g v =
      Inr (map_reached removeMembers_pre (removeMembers_node ignore g) g, v) \<and>
    wf_graph (map_reached removeMembers_pre (removeMembers_node ignore g) g)"
  using assms by (rule removeMembers_contract)

definition remove_example :: type_graph where
  "remove_example = \<lparr>nodes = [
     Class ((mk_class KStruct ''A'' ''A'' 16 0 0)\<lparr>cl_members :=
       [mk_member (NodeRef 1) ''i'' 0 0, mk_member (PrimRef Int32) ''x'' 0 0,
        mk_member (NodeRef 2) ''u'' 64 0]\<rparr>),
     Incomplete (mk_incomplete 1 (Inl ''Fwd'')),
     Class ((mk_class KUnion ''U'' ''U'' 8 0 2)\<lparr>cl_members := [mk_member (NodeRef 3) ''b'' 0 0]\<rparr>),
     Class ((mk_class KStruct ''B'' ''B'' 8 0 3)\<lparr>cl_members := [mk_member (PrimRef Int8) ''x'' 0 0]\<rparr>)],
   rootTypes = [NodeRef 0], finalTypes = [], next_id = 4\<rparr>"

theorem removeMembers_pass_result_witness:
  "case removeMembers_pass [(''A'', ''x''), (''B'', ''*'')] remove_example [] of
     Inl e \<Rightarrow> False
   | Inr (g', v) \<Rightarrow> map (\<lambda>n. case n of Class c \<Rightarrow> map m_name (cl_members c) | _ \<Rightarrow> []) (nodes g') =
       [[''u''], [], [], [''x'']]"
proof -
  have "wf_graph remove_example" by (rule wf_checkD) code_simp
  note result = removeMembers_pass_result [THEN conjunct1, OF this, of "[(''A'', ''x''), (''B'', ''*'')]" "[]"]
  show ?thesis
    unfolding result sum.case prod.case by (subst map_reached_eval [where k = 2], code_simp, code_simp)
qed

lemma enforceCompatibility_contract:
  assumes "wf_graph g" "no_capture_keys g"
  shows "\<exists>v'. pass_run enforceCompatibility_pass g v =
      Inr (map_reached enforceCompatibility_pre enforceCompatibility_node g, v') \<and>
    wf_graph (map_reached enforceCompatibility_pre enforceCompatibility_node g)"
proof -
  have "wf_graph (map_reached enforceCompatibility_pre enforceCompatibility_node g)"
    by (rule map_reached_wf [OF assms(1) node_changes_keep(2) node_changes_keep_children(2)])
  then show ?thesis
    using ec.map_pass_result [of g "holder_get (graph_size g) v"] assms
    by (auto simp: enforceCompatibility_pass_def enforceCompatibility_accept_def tracker_pass_def
      pass_run_def ec.mapped_def ec.start_def wf_graph_def enforceCompatibility_node_eq)
qed

text \<open>
  C32: on every well-formed graph without \<^verbatim>\<open>CaptureKeys\<close> nodes, whatever the tracker held before,
  \<^verbatim>\<open>EnforceCompatibility\<close> returns; every reachable class whose name starts with a type to stub has
  lost its members, every other reachable class exactly the members whose name starts with
  \<^verbatim>\<open>__oi_parent\<close>, and the graph is well-formed again.
\<close>

theorem enforceCompatibility_pass_result:
  assumes "wf_graph g" "no_capture_keys g"
  shows "\<exists>v'. pass_run enforceCompatibility_pass g v =
      Inr (map_reached enforceCompatibility_pre enforceCompatibility_node g, v') \<and>
    wf_graph (map_reached enforceCompatibility_pre enforceCompatibility_node g)"
  using assms by (rule enforceCompatibility_contract)

definition stub_example :: type_graph where
  "stub_example = \<lparr>nodes = [
     Class ((mk_class KStruct ''A'' ''A'' 16 0 0)\<lparr>
       cl_templateParams := [mk_param (NodeRef 2)],
       cl_members := [mk_member (NodeRef 1) ''__oi_parent0'' 0 0, mk_member (NodeRef 1) ''x'' 64 0]\<rparr>),
     Class ((mk_class KStruct ''event_base'' ''event_base'' 8 0 1)\<lparr>
       cl_members := [mk_member (NodeRef 2) ''p'' 0 0]\<rparr>),
     Class ((mk_class KStruct ''B'' ''B'' 8 0 2)\<lparr>
       cl_members := [mk_member (PrimRef Int8) ''__oi_parent1'' 0 0]\<rparr>)],
   rootTypes = [NodeRef 0], finalTypes = [], next_id = 3\<rparr>"

lemma stub_example_wf: "wf_graph stub_example" "no_capture_keys stub_example"
  by (rule wf_checkD, code_simp, code_simp)

theorem enforceCompatibility_pass_result_witness:
  "case pass_run enforceCompatibility_pass stub_example [True, True] of
     Inl e \<Rightarrow> False
   | Inr (g', v) \<Rightarrow> map (\<lambda>n. case n of Class c \<Rightarrow> map m_name (cl_members c) | _ \<Rightarrow> []) (nodes g') =
       [[''x''], [], []]"
proof -
  obtain v' where result: "pass_run enforceCompatibility_pass stub_example [True, True] =
      Inr (map_reached enforceCompatibility_pre enforceCompatibility_node stub_example, v')"
    using enforceCompatibility_pass_result [OF stub_example_wf, of "[True, True]"] by blast
  show ?thesis
    unfolding result sum.case prod.case by (subst map_reached_eval [where k = 2], code_simp, code_simp)
qed

lemma prune_contract:
  assumes "wf_graph g" "no_capture_keys g"
  shows "\<exists>v'. pass_run prune_pass g v = Inr (map_reached (\<lambda>n. n) prune_fin g, v') \<and>
    wf_graph (map_reached (\<lambda>n. n) prune_fin g)"
proof -
  have "wf_graph (map_reached (\<lambda>n. n) prune_fin g)"
    by (rule map_reached_wf [OF assms(1) changes_keep(5) node_changes_keep_children(3)])
  then show ?thesis
    using pr.map_pass_result [of g "holder_get (graph_size g) v"] assms
    by (auto simp: prune_pass_def prune_accept_def tracker_pass_def
      pass_run_def pr.mapped_def pr.start_def wf_graph_def)
qed

text \<open>
  C24: on every well-formed graph without \<^verbatim>\<open>CaptureKeys\<close> nodes, whatever the tracker held before,
  \<^verbatim>\<open>Prune\<close> returns; every reachable class has lost its template parameters, parents and functions,
  every reachable container its underlying type, and the graph is well-formed again. Nodes that are
  reachable only through what is pruned are pruned too.
\<close>

theorem prune_pass_result:
  assumes "wf_graph g" "no_capture_keys g"
  shows "\<exists>v'. pass_run prune_pass g v = Inr (map_reached (\<lambda>n. n) prune_fin g, v') \<and>
    wf_graph (map_reached (\<lambda>n. n) prune_fin g)"
  using assms by (rule prune_contract)

theorem prune_pass_result_witness:
  "case pass_run prune_pass stub_example [True] of
     Inl e \<Rightarrow> False
   | Inr (g', v) \<Rightarrow> map (\<lambda>n. case n of Class c \<Rightarrow> length (cl_templateParams c) | _ \<Rightarrow> 9) (nodes g') =
       [0, 0, 0]"
proof -
  obtain v' where result: "pass_run prune_pass stub_example [True] =
      Inr (map_reached (\<lambda>n. n) prune_fin stub_example, v')"
    using prune_pass_result [OF stub_example_wf, of "[True]"] by blast
  show ?thesis
    unfolding result sum.case prod.case by (subst map_reached_eval [where k = 2], code_simp, code_simp)
qed

lemma removeTopLevelPointers_contract:
  assumes "wf_graph g"
  shows "\<exists>g'. removeTopLevelPointers g v = Inr (g', v) \<and> wf_graph g' \<and> nodes g' = nodes g \<and>
    rootTypes g' = map (\<lambda>t. case deref g t of
      Inr (Pointer p) \<Rightarrow> pt_pointee p | Inr (Reference r) \<Rightarrow> rf_pointee r | _ \<Rightarrow> t) (rootTypes g)"
proof -
  let ?f = "\<lambda>t. case deref g t of
      Inr (Pointer p) \<Rightarrow> pt_pointee p | Inr (Reference r) \<Rightarrow> rf_pointee r | _ \<Rightarrow> t"
  have visit: "removeTopLevelPointer_visit g t = Inr (?f t) \<and> in_graph g (?f t)"
    if t: "t \<in> set (rootTypes g)" for t
  proof -
    have tg: "in_graph g t" using assms t by (auto simp: wf_graph_def wf_refs_def)
    then obtain n where n: "deref g t = Inr n" using deref_in_graph by blast
    have "in_graph g u" if u: "u \<in> set (refs n)" for u
      using tg n u assms wf_refsD [of g _ u]
      by (cases t) (auto simp: wf_graph_def)
    then show ?thesis using n tg
      by (cases n) (auto simp: removeTopLevelPointer_visit_def)
  qed
  then have "removeTopLevelPointers g v = Inr (g\<lparr>rootTypes := map ?f (rootTypes g)\<rparr>, v)"
    using mapE_pure [of "rootTypes g" "removeTopLevelPointer_visit g" ?f]
    by (simp add: removeTopLevelPointers_def)
  moreover have "wf_graph (g\<lparr>rootTypes := map ?f (rootTypes g)\<rparr>)"
  proof -
    let ?g = "g\<lparr>rootTypes := map ?f (rootTypes g)\<rparr>"
    have "in_graph ?g t = in_graph g t" "deref ?g t = deref g t" "node_at ?g i = node_at g i" for t i
      by (cases t; simp add: deref.simps node_at_def)+
    then show ?thesis using assms visit
      by (auto simp: wf_graph_def wf_refs_def wf_ids_def wf_children_def)
  qed
  ultimately show ?thesis by auto
qed

text \<open>
  On every well-formed graph \<^verbatim>\<open>RemoveTopLevelPointer\<close> replaces each root that is a pointer or a
  reference by what it points to (one level, in place), keeps the other roots and all the nodes, and
  leaves a well-formed graph.
\<close>

theorem removeTopLevelPointers_result:
  assumes "wf_graph g"
  shows "\<exists>g'. removeTopLevelPointers g v = Inr (g', v) \<and> wf_graph g' \<and> nodes g' = nodes g \<and>
    rootTypes g' = map (\<lambda>t. case deref g t of
      Inr (Pointer p) \<Rightarrow> pt_pointee p | Inr (Reference r) \<Rightarrow> rf_pointee r | _ \<Rightarrow> t) (rootTypes g)"
  using assms by (rule removeTopLevelPointers_contract)

theorem removeTopLevelPointers_result_witness:
  "removeTopLevelPointers \<lparr>nodes = [Pointer \<lparr>pt_id = 0, pt_pointee = NodeRef 1, pt_inputName = '''',
      pt_name = ''''\<rparr>, Pointer \<lparr>pt_id = 1, pt_pointee = PrimRef Int8, pt_inputName = '''',
      pt_name = ''''\<rparr>], rootTypes = [NodeRef 0, PrimRef Bool], finalTypes = [], next_id = 2\<rparr> [] =
   Inr (\<lparr>nodes = [Pointer \<lparr>pt_id = 0, pt_pointee = NodeRef 1, pt_inputName = '''',
      pt_name = ''''\<rparr>, Pointer \<lparr>pt_id = 1, pt_pointee = PrimRef Int8, pt_inputName = '''',
      pt_name = ''''\<rparr>], rootTypes = [NodeRef 1, PrimRef Bool], finalTypes = [], next_id = 2\<rparr>, [])"
  (is "removeTopLevelPointers ?g [] = _")
proof -
  have "wf_graph ?g" by (rule wf_checkD) code_simp
  from removeTopLevelPointers_result [OF this, of "[]"] show ?thesis
    by (auto simp: removeTopLevelPointers_def removeTopLevelPointer_visit_def deref.simps)
qed

end
