(* ===== verification/GrowingPass.thy ===== *)
theory GrowingPass
  imports LocalPasses
begin

text \<open>
  The walks that create nodes while they run and go through what they have created. The locale
  \<open>growing_walk\<close> gives their termination and what holds of every type that is reachable in the
  resulting graph; \<open>strip_cong\<close> says which changes of a graph keep what typedefs stand for.
\<close>

section \<open>Typedefs in a growing graph\<close>

lemma nxt_in_graph:
  assumes "wf_refs g" "in_graph g u" "nxt_ref f g u = Some w" "\<And>n v. f n = Some v \<Longrightarrow> v \<in> set (refs n)"
    "\<And>k. f (Primitive k) = None"
  shows "in_graph g w"
proof -
  obtain n where n: "deref g u = Inr n" "f n = Some w"
    using assms(3) by (auto simp: nxt_ref_def split: sum.splits)
  show ?thesis
  proof (cases u)
    case (NodeRef i)
    then show ?thesis using wf_refsD [OF assms(1)] assms(2) n assms(4) by auto
  next
    case (PrimRef k)
    then show ?thesis using n assms(5) by auto
  qed
qed

lemma strip_cong:
  assumes "wf_refs g" "in_graph g t" and same: "\<And>i. i < length (nodes g) \<Longrightarrow>
    i < length (nodes g') \<and> typedef_nxt (node_at g' i) = typedef_nxt (node_at g i)"
  shows "stripTypedefs g' t = stripTypedefs g t"
  unfolding stripTypedefs_def
proof (rule st.chain_cong [where P = "in_graph g", OF assms(2)])
  fix u assume u: "in_graph g u"
  show "nxt_ref typedef_nxt g' u = nxt_ref typedef_nxt g u \<and>
      stripTypedefs_body (\<lambda>t g. Inr t) u g' = stripTypedefs_body (\<lambda>t g. Inr t) u g \<and> Inr = Inr"
  proof (cases u)
    case (NodeRef i)
    then have i: "i < length (nodes g)" "i < length (nodes g')" using u same by auto
    show ?thesis
      using same [OF i(1)] i NodeRef
      by (cases "node_at g i"; cases "node_at g' i") (auto simp: nxt_ref_def stripTypedefs_body_def)
  qed (simp add: nxt_ref_def stripTypedefs_body_def)
next
  fix u w assume "in_graph g u" "nxt_ref typedef_nxt g u = Some w"
  then show "in_graph g w" by (rule nxt_in_graph [OF assms(1)]) (auto elim!: typedef_nxt.elims)
qed

section \<open>Walks that create nodes\<close>

lemma tracked_id: "tracked v nid \<Longrightarrow> 0 \<le> nid"
  by (simp add: tracked_def)

lemma extends_refs_keep: "extends g g' \<Longrightarrow> deref g t = Inr n \<Longrightarrow> \<exists>n'. deref g' t = Inr n' \<and>
    type_id n' = type_id n \<and> has_node_id n' = has_node_id n"
  using extends_deref ctor_of_has_id by metis

lemma id_owner:
  assumes "deref g t = Inr n" "has_node_id n"
  obtains i where "t = NodeRef i" "i < length (nodes g)" "node_at g i = n"
proof -
  have "ctor_of n \<noteq> 3" using assms(2) by (cases n) simp_all
  from deref_owner [OF assms(1) this] that show ?thesis .
qed

lemma refs_in_graph:
  assumes "wf_graph g" "deref g t = Inr n" "u \<in> set (refs n)"
  shows "in_graph g u"
proof (cases t)
  case (NodeRef i)
  note own = deref_owned [OF assms(2) [unfolded NodeRef]]
  have "wf_refs g" using assms(1) by (simp add: wf_graph_def)
  from wf_refsD [OF this own(1)] show ?thesis using assms(3) own(2) by simp
qed (use assms in auto)

text \<open>
  A visit of a type that is not marked (\<open>visit\<close>) marks it, may change its node, append nodes and
  otherwise change the state in ways \<open>frame\<close> allows, and yields the types to accept: those the node
  then holds, as far as the walk follows them (\<open>cov\<close>). From then on the node satisfies \<open>good\<close>. \<open>rank\<close>
  bounds the depth of the recursion. Nodes without an identifier are never marked; what they hold is.
\<close>

locale growing_walk =
  fixes trk :: "'v \<Rightarrow> node_tracker"
    and ok :: "'v pass_state \<Rightarrow> bool"
    and frame :: "'v pass_state \<Rightarrow> 'v pass_state \<Rightarrow> bool"
    and cov :: "ty \<Rightarrow> tref list"
    and good :: "type_graph \<Rightarrow> ty \<Rightarrow> bool"
    and rank :: "tref \<Rightarrow> 'v pass_state \<Rightarrow> nat"
    and errs :: "error set"
    and visit :: "tref \<Rightarrow> 'v pass_state \<Rightarrow> (tref list \<times> 'v pass_state) outcome"
    and body :: "'v walker \<Rightarrow> 'v walker"
  assumes ok_wf: "ok s \<Longrightarrow> wf_graph (ps_graph s)"
    and cov_refs: "set (cov n) \<subseteq> set (refs n)"
    and frame_refl: "frame s s"
    and frame_trans: "frame s s' \<Longrightarrow> frame s' s'' \<Longrightarrow> frame s s''"
    and good_stable: "good (ps_graph s) n \<Longrightarrow> frame s s' \<Longrightarrow> extends (ps_graph s) (ps_graph s') \<Longrightarrow>
      good (ps_graph s') n"
    and body_eq: "ok s \<Longrightarrow> deref (ps_graph s) t = Inr n \<Longrightarrow> body call t s =
      (if tracked (trk (ps_marks s)) (type_id n) then Inr s
       else bindE (visit t s) (\<lambda>(ts, s1). for_each call ts s1))"
    and unmarkable: "ok s \<Longrightarrow> deref (ps_graph s) t = Inr n \<Longrightarrow> \<not> has_node_id n \<Longrightarrow> w \<in> set (cov n) \<Longrightarrow>
      \<exists>m. deref (ps_graph s) w = Inr m \<and> has_node_id m"
    and visit_step: "ok s \<Longrightarrow> deref (ps_graph s) t = Inr n \<Longrightarrow> \<not> tracked (trk (ps_marks s)) (type_id n) \<Longrightarrow>
      spec errs (visit t s) (\<lambda>(ts, s1). ok s1 \<and> frame s s1 \<and> extends (ps_graph s) (ps_graph s1) \<and>
        (\<forall>nid. tracked (trk (ps_marks s1)) nid \<longleftrightarrow> tracked (trk (ps_marks s)) nid \<or> nid = type_id n \<and> 0 \<le> nid) \<and>
        (\<forall>i < length (nodes (ps_graph s)). NodeRef i \<noteq> t \<or> \<not> has_node_id n \<longrightarrow>
           node_at (ps_graph s1) i = node_at (ps_graph s) i) \<and>
        (\<forall>i < length (nodes (ps_graph s1)). length (nodes (ps_graph s)) \<le> i \<longrightarrow>
           \<not> tracked (trk (ps_marks s1)) (type_id (node_at (ps_graph s1) i))) \<and>
        (\<exists>n1. deref (ps_graph s1) t = Inr n1 \<and> ts = cov n1 \<and> good (ps_graph s1) n1))"
    and rank_step: "ok s \<Longrightarrow> deref (ps_graph s) t = Inr n \<Longrightarrow> \<not> tracked (trk (ps_marks s)) (type_id n) \<Longrightarrow>
      visit t s = Inr (ts, s1) \<Longrightarrow> u \<in> set ts \<Longrightarrow> ok s2 \<Longrightarrow> frame s1 s2 \<Longrightarrow>
      extends (ps_graph s1) (ps_graph s2) \<Longrightarrow>
      (\<And>nid. tracked (trk (ps_marks s1)) nid \<Longrightarrow> tracked (trk (ps_marks s2)) nid) \<Longrightarrow> rank u s2 < rank t s"
begin

definition marked :: "'v pass_state \<Rightarrow> ty \<Rightarrow> bool" where
  "marked s n = tracked (trk (ps_marks s)) (type_id n)"

definition covered :: "'v pass_state \<Rightarrow> tref \<Rightarrow> bool" where
  "covered s u \<longleftrightarrow> (\<exists>n. deref (ps_graph s) u = Inr n \<and> (if has_node_id n then marked s n
     else (\<forall>w \<in> set (cov n). \<exists>m. deref (ps_graph s) w = Inr m \<and> has_node_id m \<and> marked s m)))"

definition finished :: "'v pass_state \<Rightarrow> nat \<Rightarrow> bool" where
  "finished s i \<longleftrightarrow> good (ps_graph s) (node_at (ps_graph s) i) \<and>
     (\<forall>u \<in> set (cov (node_at (ps_graph s) i)). covered s u)"

definition fresh :: "'v pass_state \<Rightarrow> 'v pass_state \<Rightarrow> nat \<Rightarrow> bool" where
  "fresh s s' i \<longleftrightarrow> marked s' (node_at (ps_graph s') i) \<and>
     (i < length (nodes (ps_graph s)) \<longrightarrow> \<not> marked s (node_at (ps_graph s) i))"

definition later :: "'v pass_state \<Rightarrow> 'v pass_state \<Rightarrow> bool" where
  "later s s' \<longleftrightarrow> frame s s' \<and> extends (ps_graph s) (ps_graph s') \<and>
     (\<forall>nid. tracked (trk (ps_marks s)) nid \<longrightarrow> tracked (trk (ps_marks s')) nid) \<and>
     (\<forall>i < length (nodes (ps_graph s')). if fresh s s' i then finished s' i
        else i < length (nodes (ps_graph s)) \<longrightarrow> node_at (ps_graph s') i = node_at (ps_graph s) i)"

lemma marked_has_id: "wf_graph (ps_graph s) \<Longrightarrow> deref (ps_graph s) u = Inr n \<Longrightarrow> marked s n \<Longrightarrow> has_node_id n"
  using tracked_id type_id_noid unfolding marked_def by fastforce

lemma laterD:
  assumes "later s s'"
  shows "frame s s'" "extends (ps_graph s) (ps_graph s')"
    "tracked (trk (ps_marks s)) nid \<Longrightarrow> tracked (trk (ps_marks s')) nid"
    "i < length (nodes (ps_graph s')) \<Longrightarrow> fresh s s' i \<Longrightarrow> finished s' i"
    "i < length (nodes (ps_graph s)) \<Longrightarrow> \<not> fresh s s' i \<Longrightarrow> node_at (ps_graph s') i = node_at (ps_graph s) i"
proof -
  show "i < length (nodes (ps_graph s)) \<Longrightarrow> \<not> fresh s s' i \<Longrightarrow>
      node_at (ps_graph s') i = node_at (ps_graph s) i"
    using assms unfolding later_def extends_def by (meson order_less_le_trans)
qed (use assms in \<open>auto simp: later_def\<close>)

lemma later_refl: "later s s"
  by (simp add: later_def frame_refl fresh_def)

lemma later_marked:
  "later s s' \<Longrightarrow> i < length (nodes (ps_graph s)) \<Longrightarrow> marked s (node_at (ps_graph s) i) \<Longrightarrow>
   marked s' (node_at (ps_graph s') i)"
  using laterD(2,3) extends_ctor(2) by (metis marked_def)

lemma no_id_same:
  assumes l: "later s s'" and n: "deref (ps_graph s) t = Inr n" "\<not> has_node_id n"
  shows "deref (ps_graph s') t = Inr n"
proof (cases t)
  case (NodeRef i)
  note own = deref_owned [OF n(1) [unfolded NodeRef]]
  note ext = laterD(2) [OF l]
  have i': "i < length (nodes (ps_graph s'))" using own(1) ext by (simp add: extends_def)
  have "\<not> has_node_id (node_at (ps_graph s') i)"
    using extends_ctor(1) [OF ext own(1)] ctor_of_has_id own(2) n(2) by metis
  then have "\<not> marked s' (node_at (ps_graph s') i)"
    using tracked_id type_id_noid unfolding marked_def by fastforce
  then have "\<not> fresh s s' i" by (simp add: fresh_def)
  then show ?thesis using laterD(5) [OF l own(1)] own(2) NodeRef i' by simp
qed (use n in simp)

lemma covered_later:
  assumes c: "covered s u" and l: "later s s'"
  shows "covered s' u"
proof -
  have keep: "\<exists>n'. deref (ps_graph s') w = Inr n' \<and> has_node_id n' \<and> marked s' n'"
    if w: "deref (ps_graph s) w = Inr n" "has_node_id n" "marked s n" for w n
    using extends_refs_keep [OF laterD(2) [OF l] w(1)] w(2,3) laterD(3) [OF l] by (auto simp: marked_def)
  obtain n where n: "deref (ps_graph s) u = Inr n" using c by (auto simp: covered_def)
  show ?thesis
  proof (cases "has_node_id n")
    case True
    then have "marked s n" using c n by (auto simp: covered_def)
    then show ?thesis using keep [OF n True] by (auto simp: covered_def)
  next
    case False
    have "deref (ps_graph s') u = Inr n" by (rule no_id_same [OF l n False])
    moreover have "\<forall>w \<in> set (cov n). \<exists>m. deref (ps_graph s') w = Inr m \<and> has_node_id m \<and> marked s' m"
      using c n False keep unfolding covered_def by fastforce
    ultimately show ?thesis using False by (auto simp: covered_def)
  qed
qed

lemma finished_later:
  assumes "finished s i" "later s s'" "node_at (ps_graph s') i = node_at (ps_graph s) i"
  shows "finished s' i"
  using assms covered_later [OF _ assms(2)] good_stable laterD(1,2) [OF assms(2)]
  by (auto simp: finished_def)

lemma later_trans:
  assumes "later s s'" "later s' s''"
  shows "later s s''"
proof -
  have "if fresh s s'' i then finished s'' i
      else i < length (nodes (ps_graph s)) \<longrightarrow> node_at (ps_graph s'') i = node_at (ps_graph s) i"
    if i: "i < length (nodes (ps_graph s''))" for i
  proof (cases "fresh s' s'' i")
    case True
    have "finished s'' i" by (rule laterD(4) [OF assms(2) i True])
    moreover have "fresh s s'' i"
      using True later_marked [OF assms(1)] laterD(2) [OF assms(1)] by (auto simp: fresh_def extends_def)
    ultimately show ?thesis by simp
  next
    case old: False
    show ?thesis
    proof (cases "i < length (nodes (ps_graph s'))")
      case True
      note same = laterD(5) [OF assms(2) True old]
      show ?thesis
      proof (cases "fresh s s'' i")
        case f: True
        then have "fresh s s' i" using old same True by (auto simp: fresh_def)
        then have "finished s' i" by (rule laterD(4) [OF assms(1) True])
        then show ?thesis using f finished_later [OF _ assms(2) same] by simp
      next
        case False
        then have "\<not> fresh s s' i" using later_marked [OF assms(2) True] by (auto simp: fresh_def)
        then show ?thesis using False laterD(5) [OF assms(1)] same by auto
      qed
    next
      case new: False
      then have "\<not> i < length (nodes (ps_graph s))"
        using laterD(2) [OF assms(1)] by (auto simp: extends_def)
      moreover have "\<not> fresh s s'' i" using old new by (auto simp: fresh_def)
      ultimately show ?thesis by simp
    qed
  qed
  then show ?thesis
    using frame_trans extends_trans laterD(1-3) [OF assms(1)] laterD(1-3) [OF assms(2)]
    unfolding later_def by blast
qed

text \<open>The loop over the types to accept.\<close>

lemma accept_loop:
  assumes call: "\<And>u s2. u \<in> set ts \<Longrightarrow> ok s2 \<Longrightarrow> in_graph (ps_graph s2) u \<Longrightarrow> later s1 s2 \<Longrightarrow>
      spec errs (call u s2) (\<lambda>s3. ok s3 \<and> later s2 s3 \<and> covered s3 u)"
    and "ok s1" "\<forall>u \<in> set ts. in_graph (ps_graph s1) u"
  shows "spec errs (for_each call ts s1) (\<lambda>s2. ok s2 \<and> later s1 s2 \<and> (\<forall>u \<in> set ts. covered s2 u))"
  using assms
proof (induction ts arbitrary: s1)
  case (Cons u us)
  have "spec errs (call u s1) (\<lambda>s3. ok s3 \<and> later s1 s3 \<and> covered s3 u)"
    using Cons.prems later_refl by simp
  then show ?case
    unfolding for_each.simps
  proof (rule spec_bindI, elim conjE)
    fix s2 assume s2: "ok s2" "later s1 s2" "covered s2 u"
    have "spec errs (for_each call us s2) (\<lambda>s3. ok s3 \<and> later s2 s3 \<and> (\<forall>w \<in> set us. covered s3 w))"
    proof (rule Cons.IH)
      show "\<forall>w \<in> set us. in_graph (ps_graph s2) w"
        using Cons.prems(3) extends_in_graph [OF laterD(2) [OF s2(2)]] by simp
      show "spec errs (call w s3) (\<lambda>s4. ok s4 \<and> later s3 s4 \<and> covered s4 w)"
        if "w \<in> set us" "ok s3" "in_graph (ps_graph s3) w" "later s2 s3" for w s3
        using Cons.prems(1) [of w s3] that later_trans [OF s2(2)] by simp
    qed (rule s2)
    then show "spec errs (for_each call us s2)
        (\<lambda>s3. ok s3 \<and> later s1 s3 \<and> (\<forall>w \<in> set (u # us). covered s3 w))"
      by (rule spec_mono) (use s2 later_trans covered_later in auto)
  qed
qed (simp add: later_refl)

lemma visit_later:
  assumes s: "ok s" "deref (ps_graph s) t = Inr n" "\<not> marked s n"
    and fr: "frame s s1" and ext: "extends (ps_graph s) (ps_graph s1)"
    and marks: "\<And>nid. tracked (trk (ps_marks s1)) nid \<longleftrightarrow> tracked (trk (ps_marks s)) nid \<or> nid = type_id n \<and> 0 \<le> nid"
    and same: "\<And>i. i < length (nodes (ps_graph s)) \<Longrightarrow> NodeRef i \<noteq> t \<or> \<not> has_node_id n \<Longrightarrow>
      node_at (ps_graph s1) i = node_at (ps_graph s) i"
    and new: "\<And>i. i < length (nodes (ps_graph s1)) \<Longrightarrow> length (nodes (ps_graph s)) \<le> i \<Longrightarrow>
      \<not> tracked (trk (ps_marks s1)) (type_id (node_at (ps_graph s1) i))"
    and n1: "deref (ps_graph s1) t = Inr n1" "good (ps_graph s1) n1"
    and s2: "ok s2" "later s1 s2" "\<forall>u \<in> set (cov n1). covered s2 u"
  shows "later s s2" "covered s2 t"
proof -
  have grows: "length (nodes (ps_graph s)) \<le> length (nodes (ps_graph s1))" using ext by (simp add: extends_def)
  have id1: "type_id (node_at (ps_graph s1) i) = type_id (node_at (ps_graph s) i)"
    if "i < length (nodes (ps_graph s))" for i using extends_ctor(2) [OF ext that] .
  have fresh1: "fresh s s2 i" if "fresh s1 s2 i" "i < length (nodes (ps_graph s2))" for i
    using that id1 marks grows by (auto simp: fresh_def marked_def)
  have "if fresh s s2 i then finished s2 i
      else i < length (nodes (ps_graph s)) \<longrightarrow> node_at (ps_graph s2) i = node_at (ps_graph s) i"
    if i: "i < length (nodes (ps_graph s2))" for i
  proof (cases "fresh s1 s2 i")
    case True
    then show ?thesis using laterD(4) [OF s2(2) i True] fresh1 i by simp
  next
    case old: False
    show ?thesis
    proof (cases "i < length (nodes (ps_graph s1))")
      case False
      then show ?thesis using old grows by (auto simp: fresh_def)
    next
      case i1: True
      note eq = laterD(5) [OF s2(2) i1 old]
      show ?thesis
      proof (cases "fresh s s2 i")
        case True
        then have m1: "marked s1 (node_at (ps_graph s1) i)" using old eq by (auto simp: fresh_def)
        then have i0: "i < length (nodes (ps_graph s))" using new [OF i1] not_le unfolding marked_def by blast
        then have "\<not> marked s (node_at (ps_graph s) i)" using True by (simp add: fresh_def)
        then have tid: "type_id (node_at (ps_graph s) i) = type_id n" "0 \<le> type_id n"
          using m1 marks id1 [OF i0] by (auto simp: marked_def)
        have hn: "has_node_id n" using tid(2) type_id_noid by fastforce
        obtain j where j: "t = NodeRef j" "j < length (nodes (ps_graph s))" "node_at (ps_graph s) j = n"
          using id_owner [OF s(2) hn] .
        have ids: "wf_ids (ps_graph s)" using ok_wf [OF s(1)] by (simp add: wf_graph_def)
        have "has_node_id (node_at (ps_graph s) i)"
          using tid type_id_noid by fastforce
        then have "i = j" using wf_idsD(3) [OF ids i0 _ j(2)] j(3) hn tid(1) by simp
        then have "node_at (ps_graph s1) i = n1" using n1(1) j(1) deref_owned(2) by blast
        then have "finished s2 i"
          using eq n1(2) s2(3) good_stable laterD(1,2) [OF s2(2)] by (auto simp: finished_def)
        then show ?thesis using True by simp
      next
        case False
        have "node_at (ps_graph s1) i = node_at (ps_graph s) i" if i0: "i < length (nodes (ps_graph s))"
        proof (rule same [OF i0], rule ccontr)
          assume "\<not> (NodeRef i \<noteq> t \<or> \<not> has_node_id n)"
          then have t: "t = NodeRef i" "has_node_id n" by auto
          note own = deref_owned [OF s(2) [unfolded t(1)]]
          have ids: "wf_ids (ps_graph s)" using ok_wf [OF s(1)] by (simp add: wf_graph_def)
          have "0 \<le> type_id n" using wf_idsD(1) [OF ids own(1)] own(2) t(2) by simp
          then have "marked s1 (node_at (ps_graph s1) i)" using marks id1 [OF i0] own(2) by (auto simp: marked_def)
          then have "fresh s s2 i"
            using later_marked [OF s2(2) i1] s(3) own(2) by (simp add: fresh_def)
          then show False using False by simp
        qed
        then show ?thesis using False eq by simp
      qed
    qed
  qed
  moreover have "frame s s2" using frame_trans fr laterD(1) [OF s2(2)] .
  moreover have "extends (ps_graph s) (ps_graph s2)" using extends_trans ext laterD(2) [OF s2(2)] .
  moreover have "tracked (trk (ps_marks s2)) nid" if "tracked (trk (ps_marks s)) nid" for nid
    using laterD(3) [OF s2(2)] marks that by blast
  ultimately show "later s s2" by (simp add: later_def)
  show "covered s2 t"
  proof (cases "has_node_id n")
    case True
    have "0 \<le> type_id n"
    proof -
      obtain j where j: "t = NodeRef j" "j < length (nodes (ps_graph s))" "node_at (ps_graph s) j = n"
        using id_owner [OF s(2) True] .
      have "wf_ids (ps_graph s)" using ok_wf [OF s(1)] by (simp add: wf_graph_def)
      from wf_idsD(1) [OF this j(2)] show ?thesis using j(3) True by simp
    qed
    then have "tracked (trk (ps_marks s2)) (type_id n)" using laterD(3) [OF s2(2)] marks by blast
    then show ?thesis
      using extends_refs_keep [OF \<open>extends (ps_graph s) (ps_graph s2)\<close> s(2)] True by (auto simp: covered_def marked_def)
  next
    case False
    then have "\<not> has_node_id n1" using extends_refs_keep [OF ext s(2)] n1(1) by auto
    note d2 = no_id_same [OF s2(2) n1(1) this]
    have "\<exists>m. deref (ps_graph s2) w = Inr m \<and> has_node_id m \<and> marked s2 m" if w: "w \<in> set (cov n1)" for w
      using unmarkable [OF s2(1) d2 \<open>\<not> has_node_id n1\<close> w] s2(3) w by (auto simp: covered_def)
    then show ?thesis using d2 \<open>\<not> has_node_id n1\<close> by (auto simp: covered_def)
  qed
qed

lemma body_contract:
  assumes s: "ok s" "in_graph (ps_graph s) t"
    and call: "\<And>t' s'. ok s' \<Longrightarrow> in_graph (ps_graph s') t' \<Longrightarrow> rank t' s' < rank t s \<Longrightarrow>
      spec errs (call t' s') (\<lambda>s''. ok s'' \<and> later s' s'' \<and> covered s'' t')"
  shows "spec errs (body call t s) (\<lambda>s'. ok s' \<and> later s s' \<and> covered s' t)"
proof -
  obtain n where n: "deref (ps_graph s) t = Inr n" using deref_in_graph [OF s(2)] by blast
  note wf = ok_wf [OF s(1)]
  show ?thesis
  proof (cases "marked s n")
    case True
    then have "covered s t" using n marked_has_id [OF wf n] by (simp add: covered_def)
    then show ?thesis using True s(1) body_eq [OF s(1) n] later_refl by (simp add: marked_def)
  next
    case new: False
    have "spec errs (bindE (visit t s) (\<lambda>(ts, s1). for_each call ts s1)) (\<lambda>s'. ok s' \<and> later s s' \<and> covered s' t)"
    proof (cases "visit t s")
      case (Inl e)
      then show ?thesis using visit_step [OF s(1) n] new by (simp add: marked_def)
    next
      case (Inr r)
      obtain ts s1 where r: "r = (ts, s1)" by (cases r)
      note v = spec_ret [OF visit_step [OF s(1) n new [unfolded marked_def]] Inr [unfolded r], simplified]
      obtain n1 where n1: "deref (ps_graph s1) t = Inr n1" "ts = cov n1" "good (ps_graph s1) n1" using v by blast
      have ok1: "ok s1" "frame s s1" and ext: "extends (ps_graph s) (ps_graph s1)" using v by blast+
      have marks: "tracked (trk (ps_marks s1)) nid \<longleftrightarrow>
          tracked (trk (ps_marks s)) nid \<or> nid = type_id n \<and> 0 \<le> nid" for nid using v by blast
      have same: "i < length (nodes (ps_graph s)) \<Longrightarrow> NodeRef i \<noteq> t \<or> \<not> has_node_id n \<Longrightarrow>
          node_at (ps_graph s1) i = node_at (ps_graph s) i" for i using v by blast
      have unmarked: "i < length (nodes (ps_graph s1)) \<Longrightarrow> length (nodes (ps_graph s)) \<le> i \<Longrightarrow>
          \<not> tracked (trk (ps_marks s1)) (type_id (node_at (ps_graph s1) i))" for i using v by blast
      have "spec errs (for_each call ts s1) (\<lambda>s2. ok s2 \<and> later s1 s2 \<and> (\<forall>u \<in> set ts. covered s2 u))"
      proof (rule accept_loop [OF _ ok1(1)])
        show "\<forall>u \<in> set ts. in_graph (ps_graph s1) u"
          using refs_in_graph [OF ok_wf [OF ok1(1)] n1(1)] n1(2) cov_refs by blast
        fix u s2 assume u: "u \<in> set ts" "ok s2" "in_graph (ps_graph s2) u" "later s1 s2"
        have "rank u s2 < rank t s"
          using rank_step [OF s(1) n new [unfolded marked_def] Inr [unfolded r] u(1,2)] laterD(1-3) [OF u(4)]
          by blast
        then show "spec errs (call u s2) (\<lambda>s3. ok s3 \<and> later s2 s3 \<and> covered s3 u)"
          by (rule call [OF u(2,3)])
      qed
      then show ?thesis
        unfolding Inr r bindE_simps prod.case
      proof (rule spec_mono, elim conjE)
        fix s2 assume s2: "ok s2" "later s1 s2" "\<forall>u \<in> set ts. covered s2 u"
        have "\<forall>u \<in> set (cov n1). covered s2 u" using s2(3) n1(2) by simp
        note l = visit_later [OF s(1) n new ok1(2) ext marks same unmarked n1(1,3) s2(1,2) this]
        show "ok s2 \<and> later s s2 \<and> covered s2 t" using s2(1) l by blast
      qed
    qed
    then show ?thesis using new body_eq [OF s(1) n] by (simp add: marked_def)
  qed
qed

sublocale walk: ranked_recursion body ok "\<lambda>t s. in_graph (ps_graph s) t" later "\<lambda>t s. covered s t"
  "\<lambda>t s. False" rank errs
proof (unfold_locales, goal_cases)
  case (2 s s' s'')
  then show ?case by (rule later_trans)
next
  case (3 t s s')
  then show ?case using extends_in_graph laterD(2) by blast
next
  case (4 t s s')
  then show ?case using covered_later by blast
next
  case (6 s t call)
  then show ?case by (intro body_contract) auto
qed (simp_all add: later_refl)

text \<open>
  A whole walk from a state in which nothing is marked: every type that can be reached from the
  roots in the resulting graph is marked and good.
\<close>

theorem run:
  assumes s: "ok s" "\<And>nid. \<not> tracked (trk (ps_marks s)) nid"
    and ts: "\<forall>t \<in> set ts. in_graph (ps_graph s) t"
    and fuel: "\<And>t s'. ok s' \<Longrightarrow> rank t s' < fuel"
  shows "spec errs (for_each (recur body fuel) ts s) (\<lambda>s'. ok s' \<and> frame s s' \<and>
     extends (ps_graph s) (ps_graph s') \<and>
     (\<forall>i < length (nodes (ps_graph s')). has_node_id (node_at (ps_graph s') i) \<and>
        NodeRef i \<in> reach (\<lambda>t. case deref (ps_graph s') t of Inl e \<Rightarrow> [] | Inr n \<Rightarrow> cov n) ts \<longrightarrow>
        tracked (trk (ps_marks s')) (type_id (node_at (ps_graph s') i)) \<and>
        good (ps_graph s') (node_at (ps_graph s') i)))"
proof (rule spec_mono)
  show "spec errs (for_each (recur body fuel) ts s)
      (\<lambda>s'. ok s' \<and> later s s' \<and> (\<forall>t \<in> set ts. covered s' t))"
    using s(1) ts fuel by (intro walk.recur_for_each) auto
  fix s' assume s': "ok s' \<and> later s s' \<and> (\<forall>t \<in> set ts. covered s' t)"
  let ?cov = "\<lambda>t. case deref (ps_graph s') t of Inl e \<Rightarrow> [] | Inr n \<Rightarrow> cov n"
  have fin: "finished s' i" if "i < length (nodes (ps_graph s'))" "marked s' (node_at (ps_graph s') i)" for i
    using laterD(4) [of s s' i] s' that s(2) by (simp add: fresh_def marked_def)
  have cov: "covered s' t" if "t \<in> reach ?cov ts" for t
    using that
  proof (induction rule: reach.induct)
    case (root t)
    then show ?case using s' by blast
  next
    case (step t u)
    obtain n where n: "deref (ps_graph s') t = Inr n" using step.IH by (auto simp: covered_def)
    then have u: "u \<in> set (cov n)" using step.hyps(2) by simp
    show ?case
    proof (cases "has_node_id n")
      case True
      then have "marked s' n" using step.IH n by (auto simp: covered_def)
      moreover obtain i where i: "t = NodeRef i" "i < length (nodes (ps_graph s'))" "node_at (ps_graph s') i = n"
        using id_owner [OF n True] .
      ultimately have "finished s' i" using fin by simp
      then show ?thesis using u i(3) by (simp add: finished_def)
    next
      case False
      then obtain m where "deref (ps_graph s') u = Inr m" "has_node_id m" "marked s' m"
        using step.IH n u by (auto simp: covered_def)
      then show ?thesis by (auto simp: covered_def)
    qed
  qed
  have "marked s' (node_at (ps_graph s') i) \<and> good (ps_graph s') (node_at (ps_graph s') i)"
    if i: "i < length (nodes (ps_graph s'))" "has_node_id (node_at (ps_graph s') i)" "NodeRef i \<in> reach ?cov ts" for i
  proof -
    have "marked s' (node_at (ps_graph s') i)" using cov [OF i(3)] i(1,2) by (auto simp: covered_def)
    then show ?thesis using fin i(1) by (simp add: finished_def)
  qed
  note good = this [unfolded marked_def]
  show "ok s' \<and> frame s s' \<and> extends (ps_graph s) (ps_graph s') \<and>
     (\<forall>i < length (nodes (ps_graph s')). has_node_id (node_at (ps_graph s') i) \<and> NodeRef i \<in> reach ?cov ts \<longrightarrow>
        tracked (trk (ps_marks s')) (type_id (node_at (ps_graph s') i)) \<and>
        good (ps_graph s') (node_at (ps_graph s') i))"
    using s' laterD(1,2) good by blast
qed

end

end
