(* ===== verification/DrgnParser.thy ===== *)
theory DrgnParser
  imports GrowingPass "HOL-Library.Multiset"
begin

text \<open>
  \<^verbatim>\<open>oi/type_graph/DrgnParser.cpp\<close>: the construction of a type graph from the debug information of a
  program. The library drgn is a parameter: a record of what its functions answer. What the parser has done
  before it throws stays done, so that its operations return the state also with an exception.
\<close>

section \<open>The debug information\<close>

datatype drgn_kind =
    DK_VOID | DK_INT | DK_BOOL | DK_FLOAT | DK_STRUCT | DK_UNION | DK_CLASS | DK_ENUM | DK_TYPEDEF
  | DK_POINTER | DK_ARRAY | DK_FUNCTION | DK_OTHER

datatype object_encoding = ENC_BUFFER | ENC_SIGNED | ENC_UNSIGNED | ENC_FLOAT | ENC_OTHER

text \<open>
  The value of a template parameter; \<open>ob_value\<close> is the integer of the union, \<open>ob_fvalue\<close> the text of
  its float, \<open>ob_ibuf\<close> and \<open>ob_bufp\<close> are the strings in the two buffers.
\<close>

record 'd drgn_object =
  ob_encoding :: object_encoding
  ob_type :: 'd
  ob_value :: u64
  ob_fvalue :: string
  ob_size :: u64
  ob_ibuf :: string
  ob_bufp :: "string option"

text \<open>
  \<open>None\<close> is an error of a lookup, a string that is not there, or (for the object of a template
  parameter) a null pointer. Parents and members come with their offset in bits, enumerators with the bits of their
  value.
\<close>

record 'd drgn_param =
  dq_type :: "('d \<times> bool) option"
  dq_object :: "'d drgn_object option option"

record 'd drgn_member =
  dm_type :: "('d \<times> u64) option"
  dm_name :: "string option"
  dm_bit_offset :: u64

record 'd drgn =
  dr_kind :: "'d \<Rightarrow> drgn_kind"
  dr_sizeof :: "'d \<Rightarrow> u64 option"
  dr_is_signed :: "'d \<Rightarrow> bool"
  dr_name :: "'d \<Rightarrow> string option"
  dr_tag :: "'d \<Rightarrow> string option"
  dr_fq_name :: "'d \<Rightarrow> string option option"
  dr_has_virtuality :: "'d \<Rightarrow> bool"
  dr_virtuality :: "'d \<Rightarrow> int"
  dr_params :: "'d \<Rightarrow> 'd drgn_param list"
  dr_parents :: "'d \<Rightarrow> ('d option \<times> u64) list"
  dr_members :: "'d \<Rightarrow> 'd drgn_member list"
  dr_functions :: "'d \<Rightarrow> 'd option list"
  dr_enumerators :: "'d \<Rightarrow> (u64 \<times> string) list"
  dr_type :: "'d \<Rightarrow> 'd"
  dr_length :: "'d \<Rightarrow> u64"
  dr_ibuf_size :: u64

text \<open>
  \<^verbatim>\<open>std::sort\<close> leaves the order of elements that compare equal open: it is a parameter.
\<close>

record sorts =
  sort_members :: "member list \<Rightarrow> member list"
  sort_parents :: "parent list \<Rightarrow> parent list"

definition sorts_ok :: "sorts \<Rightarrow> bool" where
  "sorts_ok srt \<longleftrightarrow> (\<forall>ms. mset (sort_members srt ms) = mset ms \<and> sorted (map m_bitOffset (sort_members srt ms))) \<and>
     (\<forall>ps. mset (sort_parents srt ps) = mset ps \<and> sorted (map p_bitOffset (sort_parents srt ps)))"

section \<open>The parser\<close>

record drgn_options =
  chaseRawPointers :: bool
  readEnumValues :: bool

text \<open>The key \<open>None\<close> of the map is the null pointer.\<close>

record 'd parser =
  dp_types :: "'d option \<Rightarrow> tref option"
  dp_graph :: type_graph
  dp_depth :: int

type_synonym ('d, 'a) parse_op = "'d parser \<Rightarrow> 'a outcome \<times> 'd parser"

definition bindP :: "('d, 'a) parse_op \<Rightarrow> ('a \<Rightarrow> ('d, 'b) parse_op) \<Rightarrow> ('d, 'b) parse_op" where
  "bindP m f s = (case m s of (Inl e, s) \<Rightarrow> (Inl e, s) | (Inr x, s) \<Rightarrow> f x s)"

definition returnP :: "'a \<Rightarrow> ('d, 'a) parse_op" where
  "returnP x s = (Inr x, s)"

definition liftP :: "('d parser \<Rightarrow> 'a outcome) \<Rightarrow> ('d, 'a) parse_op" where
  "liftP m s = (m s, s)"

definition DrgnParserError :: error where
  "DrgnParserError = Throw ''DrgnParserError''"

fun each :: "('a \<Rightarrow> ('d, unit) parse_op) \<Rightarrow> 'a list \<Rightarrow> ('d, unit) parse_op" where
  "each f [] = returnP ()"
| "each f (x # xs) = bindP (f x) (\<lambda>_. each f xs)"

text \<open>\<^verbatim>\<open>makeType\<close>: a new node is remembered as the one of a drgn type.\<close>

definition remember :: "'d option \<Rightarrow> tref \<Rightarrow> 'd parser \<Rightarrow> 'd parser" where
  "remember k t s = s\<lparr>dp_types := (dp_types s)(k \<mapsto> t)\<rparr>"

definition make_node :: "'d option \<Rightarrow> (node_id \<Rightarrow> ty) \<Rightarrow> ('d, tref) parse_op" where
  "make_node k mk s = (let (t, g) = make_type mk (dp_graph s) in (Inr t, remember k t (s\<lparr>dp_graph := g\<rparr>)))"

definition make_prim :: "'d option \<Rightarrow> prim_kind \<Rightarrow> ('d, tref) parse_op" where
  "make_prim k p s = (case make_primitive p of Inl e \<Rightarrow> (Inl e, s) | Inr t \<Rightarrow> (Inr t, remember k t s))"

definition get_drgn_type_size :: "'d drgn \<Rightarrow> 'd \<Rightarrow> u64 outcome" where
  "get_drgn_type_size api d = (case dr_sizeof api d of None \<Rightarrow> Inl DrgnParserError | Some sz \<Rightarrow> Inr sz)"

definition primitiveIntKind :: "'d drgn \<Rightarrow> 'd \<Rightarrow> prim_kind outcome" where
  "primitiveIntKind api d = bindE (get_drgn_type_size api d) (\<lambda>sz. let is_signed = dr_is_signed api d in
     if sz = 1 then Inr (if is_signed then Int8 else UInt8)
     else if sz = 2 then Inr (if is_signed then Int16 else UInt16)
     else if sz = 4 then Inr (if is_signed then Int32 else UInt32)
     else if sz = 8 then Inr (if is_signed then Int64 else UInt64)
     else Inl DrgnParserError)"

definition primitiveFloatKind :: "'d drgn \<Rightarrow> 'd \<Rightarrow> prim_kind outcome" where
  "primitiveFloatKind api d = bindE (get_drgn_type_size api d) (\<lambda>sz.
     if sz = 4 then Inr Float32 else if sz = 8 then Inr Float64 else if sz = 16 then Inr Float128
     else Inl DrgnParserError)"

definition getDrgnFullyQualifiedName :: "'d drgn \<Rightarrow> 'd \<Rightarrow> string outcome" where
  "getDrgnFullyQualifiedName api d = (case dr_fq_name api d of
      None \<Rightarrow> Inl DrgnParserError
    | Some None \<Rightarrow> Inr ''''
    | Some (Some nm) \<Rightarrow> Inr nm)"

text \<open>The lists of a class are filled in place.\<close>

definition upd_class :: "tref \<Rightarrow> (class_node \<Rightarrow> class_node) \<Rightarrow> ('d, unit) parse_op" where
  "upd_class t f s = (case deref (dp_graph s) t of
      Inr (Class c) \<Rightarrow> (Inr (), s\<lparr>dp_graph := put_node t (Class (f c)) (dp_graph s)\<rparr>)
    | _ \<Rightarrow> (Inl (Undefined ''not a class''), s))"

text \<open>\<^verbatim>\<open>enumeratorMap\<close>: a map in the order of its keys, each set to the last name it gets.\<close>

fun map_assign :: "int \<Rightarrow> string \<Rightarrow> (int \<times> string) list \<Rightarrow> (int \<times> string) list" where
  "map_assign k v [] = [(k, v)]"
| "map_assign k v ((k', v') # kvs) =
     (if k < k' then (k, v) # (k', v') # kvs
      else if k = k' then (k, v) # kvs
      else (k', v') # map_assign k v kvs)"

definition enumerator_map :: "(u64 \<times> string) list \<Rightarrow> (int \<times> string) list" where
  "enumerator_map es = foldl (\<lambda>m (v, name). map_assign (sint v) name m) [] es"

text \<open>The value of a template parameter whose type was parsed to the node \<open>n\<close>.\<close>

definition enum_param_value :: "'d drgn \<Rightarrow> string \<Rightarrow> 'd drgn_object \<Rightarrow> string outcome" where
  "enum_param_value api inputName obj =
     bindE (if ob_encoding obj = ENC_SIGNED \<or> ob_encoding obj = ENC_UNSIGNED then Inr (ob_value obj)
            else Inl DrgnParserError) (\<lambda>enumVal.
     case find (\<lambda>(v, name). v = enumVal) (dr_enumerators api (ob_type obj)) of
       None \<Rightarrow> Inl DrgnParserError
     | Some (v, name) \<Rightarrow> Inr (inputName @ ''::'' @ name))"

definition plain_param_value :: "'d drgn \<Rightarrow> 'd drgn_object \<Rightarrow> string outcome" where
  "plain_param_value api obj = (case ob_encoding obj of
      ENC_BUFFER \<Rightarrow> if ob_size obj \<le> dr_ibuf_size api then Inr (ob_ibuf obj)
        else Inr (case ob_bufp obj of None \<Rightarrow> '''' | Some str \<Rightarrow> str)
    | ENC_SIGNED \<Rightarrow> Inr (dec_int (sint (ob_value obj)))
    | ENC_UNSIGNED \<Rightarrow> Inr (dec_u64 (ob_value obj))
    | ENC_FLOAT \<Rightarrow> Inr (ob_fvalue obj)
    | ENC_OTHER \<Rightarrow> Inl DrgnParserError)"

definition param_value :: "'d drgn \<Rightarrow> tref \<Rightarrow> 'd drgn_object \<Rightarrow> 'd parser \<Rightarrow> string outcome" where
  "param_value api t obj s = bindE (deref (dp_graph s) t) (\<lambda>n. case n of
      Enum e \<Rightarrow> enum_param_value api (en_inputName e) obj
    | _ \<Rightarrow> plain_param_value api obj)"

definition push_param :: "tref \<Rightarrow> template_param \<Rightarrow> ('d, unit) parse_op" where
  "push_param c p = upd_class c (\<lambda>c. c\<lparr>cl_templateParams := cl_templateParams c @ [p]\<rparr>)"

type_synonym 'd enumerator = "'d \<Rightarrow> ('d, tref) parse_op"

definition enumerateTemplateParam :: "'d drgn \<Rightarrow> 'd enumerator \<Rightarrow> tref \<Rightarrow> 'd drgn_param \<Rightarrow> ('d, unit) parse_op" where
  "enumerateTemplateParam api call c q = (case dq_type q of
      None \<Rightarrow> returnP ()
    | Some (d, const) \<Rightarrow> bindP (call d) (\<lambda>ttype. case dq_object q of
        None \<Rightarrow> returnP ()
      | Some None \<Rightarrow> push_param c \<lparr>tp_type = ttype, tp_qualifiers = (if const then {Const} else {}), tp_value = None\<rparr>
      | Some (Some obj) \<Rightarrow> bindP (liftP (param_value api ttype obj)) (\<lambda>value.
          push_param c \<lparr>tp_type = ttype, tp_qualifiers = {}, tp_value = Some value\<rparr>)))"

definition enumerateClassTemplateParams :: "'d drgn \<Rightarrow> 'd enumerator \<Rightarrow> 'd \<Rightarrow> tref \<Rightarrow> ('d, unit) parse_op" where
  "enumerateClassTemplateParams api call d c = each (enumerateTemplateParam api call c) (dr_params api d)"

definition enumerateClassParents :: "'d drgn \<Rightarrow> sorts \<Rightarrow> 'd enumerator \<Rightarrow> 'd \<Rightarrow> tref \<Rightarrow> ('d, unit) parse_op" where
  "enumerateClassParents api srt call d c =
     bindP (each (\<lambda>(q, poffset). case q of
         None \<Rightarrow> returnP ()
       | Some p \<Rightarrow> bindP (call p) (\<lambda>ptype.
           upd_class c (\<lambda>c. c\<lparr>cl_parents := cl_parents c @ [\<lparr>p_type = ptype, p_bitOffset = poffset\<rparr>]\<rparr>)))
       (dr_parents api d)) (\<lambda>_.
     upd_class c (\<lambda>c. c\<lparr>cl_parents := sort_parents srt (cl_parents c)\<rparr>))"

definition enumerateClassMembers :: "'d drgn \<Rightarrow> sorts \<Rightarrow> 'd enumerator \<Rightarrow> 'd \<Rightarrow> tref \<Rightarrow> ('d, unit) parse_op" where
  "enumerateClassMembers api srt call d c =
     bindP (each (\<lambda>q. case dm_type q of
         None \<Rightarrow> returnP ()
       | Some (m, bit_field_size) \<Rightarrow>
           let member_name = (case dm_name q of None \<Rightarrow> '''' | Some nm \<Rightarrow> nm) in
           bindP (call m) (\<lambda>mtype. upd_class c (\<lambda>c. c\<lparr>cl_members := cl_members c @
             [mk_member mtype member_name (dm_bit_offset q) bit_field_size]\<rparr>)))
       (dr_members api d)) (\<lambda>_.
     upd_class c (\<lambda>c. c\<lparr>cl_members := sort_members srt (cl_members c)\<rparr>))"

definition enumerateClassFunctions :: "'d drgn \<Rightarrow> 'd \<Rightarrow> tref \<Rightarrow> ('d, unit) parse_op" where
  "enumerateClassFunctions api d c =
     each (\<lambda>q. case q of
         None \<Rightarrow> returnP ()
       | Some f \<Rightarrow> (case dr_tag api f of
           None \<Rightarrow> liftP (\<lambda>s. Inl (Undefined ''string from a null pointer''))
         | Some name \<Rightarrow> upd_class c (\<lambda>c. c\<lparr>cl_functions := cl_functions c @
             [\<lparr>f_name = name, f_virtuality = dr_virtuality api f\<rparr>]\<rparr>)))
       (dr_functions api d)"

definition class_kind_of :: "drgn_kind \<Rightarrow> class_kind outcome" where
  "class_kind_of k = (case k of
      DK_CLASS \<Rightarrow> Inr KClass
    | DK_STRUCT \<Rightarrow> Inr KStruct
    | DK_UNION \<Rightarrow> Inr KUnion
    | _ \<Rightarrow> Inl DrgnParserError)"

definition tag_or_empty :: "'d drgn \<Rightarrow> 'd \<Rightarrow> string" where
  "tag_or_empty api d = (case dr_tag api d of None \<Rightarrow> '''' | Some tag \<Rightarrow> tag)"

definition class_fq_name :: "'d drgn \<Rightarrow> 'd \<Rightarrow> string" where
  "class_fq_name api d = (case dr_fq_name api d of Some (Some nm) \<Rightarrow> nm | _ \<Rightarrow> '''')"

definition enumerateClass :: "'d drgn \<Rightarrow> sorts \<Rightarrow> 'd enumerator \<Rightarrow> 'd \<Rightarrow> ('d, tref) parse_op" where
  "enumerateClass api srt call d =
     bindP (liftP (\<lambda>_. get_drgn_type_size api d)) (\<lambda>sz.
     bindP (liftP (\<lambda>_. class_kind_of (dr_kind api d))) (\<lambda>kind.
     let virtuality = (if dr_has_virtuality api d then dr_virtuality api d else 0) in
     bindP (make_node (Some d) (\<lambda>nid. Class (mk_class kind (tag_or_empty api d) (class_fq_name api d) sz virtuality nid))) (\<lambda>c.
     bindP (enumerateClassTemplateParams api call d c) (\<lambda>_.
     bindP (enumerateClassParents api srt call d c) (\<lambda>_.
     bindP (enumerateClassMembers api srt call d c) (\<lambda>_.
     bindP (enumerateClassFunctions api d c) (\<lambda>_. returnP c)))))))"

definition enumerateEnum :: "'d drgn \<Rightarrow> drgn_options \<Rightarrow> 'd \<Rightarrow> ('d, tref) parse_op" where
  "enumerateEnum api opts d =
     bindP (liftP (\<lambda>_. getDrgnFullyQualifiedName api d)) (\<lambda>fqName.
     bindP (liftP (\<lambda>_. get_drgn_type_size api d)) (\<lambda>sz. \<lambda>s.
     let (t, g) = make_type_noid (Enum \<lparr>en_name = tag_or_empty api d, en_inputName = fqName, en_size = sz,
       en_enumerators = (if readEnumValues opts then enumerator_map (dr_enumerators api d) else [])\<rparr>) (dp_graph s)
     in (Inr t, remember (Some d) t (s\<lparr>dp_graph := g\<rparr>))))"

definition enumerateTypedef :: "'d drgn \<Rightarrow> 'd enumerator \<Rightarrow> 'd \<Rightarrow> ('d, tref) parse_op" where
  "enumerateTypedef api call d = (case dr_name api d of
      None \<Rightarrow> liftP (\<lambda>s. Inl (Undefined ''string from a null pointer''))
    | Some name \<Rightarrow> bindP (call (dr_type api d)) (\<lambda>t.
        make_node (Some d) (\<lambda>nid. Typedef (mk_typedef name t nid))))"

partial_function (option) getPtrUnderlyingType :: "'d drgn \<Rightarrow> 'd \<Rightarrow> 'd option" where
  "getPtrUnderlyingType api d =
     (if dr_kind api d = DK_POINTER \<or> dr_kind api d = DK_TYPEDEF
      then getPtrUnderlyingType api (dr_type api d) else Some d)"

declare getPtrUnderlyingType.simps [code]

definition chasePointer :: "drgn_options \<Rightarrow> 'd parser \<Rightarrow> bool" where
  "chasePointer opts s = (if dp_depth s = 1 then True else chaseRawPointers opts)"

definition enumeratePointer :: "'d drgn \<Rightarrow> drgn_options \<Rightarrow> 'd enumerator \<Rightarrow> 'd \<Rightarrow> ('d, tref) parse_op" where
  "enumeratePointer api opts call d s =
     (if \<not> chasePointer opts s then make_prim (Some d) StubbedPointer s
      else case getPtrUnderlyingType api d of
        None \<Rightarrow> (Inl Diverge, s)
      | Some u \<Rightarrow>
          if dr_kind api u = DK_FUNCTION then make_prim (Some d) StubbedPointer s
          else bindP (call (dr_type api d)) (\<lambda>t.
            bindP (liftP (\<lambda>s. pointer_name (dp_graph s) t)) (\<lambda>nm.
            make_node (Some d) (\<lambda>nid. Pointer \<lparr>pt_id = nid, pt_pointee = t, pt_inputName = '''', pt_name = nm\<rparr>))) s)"

definition enumerateArray :: "'d drgn \<Rightarrow> 'd enumerator \<Rightarrow> 'd \<Rightarrow> ('d, tref) parse_op" where
  "enumerateArray api call d =
     bindP (call (dr_type api d)) (\<lambda>t. \<lambda>s. case make_array t (dr_length api d) (dp_graph s) of
         Inl e \<Rightarrow> (Inl e, s)
       | Inr (a, g) \<Rightarrow> (Inr a, remember (Some d) a (s\<lparr>dp_graph := g\<rparr>)))"

definition primitive_kind :: "'d drgn \<Rightarrow> 'd \<Rightarrow> prim_kind outcome" where
  "primitive_kind api d = (case dr_kind api d of
      DK_INT \<Rightarrow> primitiveIntKind api d
    | DK_FLOAT \<Rightarrow> primitiveFloatKind api d
    | DK_BOOL \<Rightarrow> Inr Bool
    | DK_VOID \<Rightarrow> Inr Void
    | _ \<Rightarrow> Inl DrgnParserError)"

definition enumeratePrimitive :: "'d drgn \<Rightarrow> 'd \<Rightarrow> ('d, tref) parse_op" where
  "enumeratePrimitive api d = bindP (liftP (\<lambda>_. primitive_kind api d)) (\<lambda>k. make_prim (Some d) k)"

definition enumerateKind :: "'d drgn \<Rightarrow> sorts \<Rightarrow> drgn_options \<Rightarrow> 'd enumerator \<Rightarrow> 'd \<Rightarrow> ('d, tref) parse_op" where
  "enumerateKind api srt opts call d = (case dr_kind api d of
      DK_CLASS \<Rightarrow> enumerateClass api srt call d
    | DK_STRUCT \<Rightarrow> enumerateClass api srt call d
    | DK_UNION \<Rightarrow> enumerateClass api srt call d
    | DK_ENUM \<Rightarrow> enumerateEnum api opts d
    | DK_TYPEDEF \<Rightarrow> enumerateTypedef api call d
    | DK_POINTER \<Rightarrow> enumeratePointer api opts call d
    | DK_ARRAY \<Rightarrow> enumerateArray api call d
    | DK_INT \<Rightarrow> enumeratePrimitive api d
    | DK_BOOL \<Rightarrow> enumeratePrimitive api d
    | DK_FLOAT \<Rightarrow> enumeratePrimitive api d
    | DK_VOID \<Rightarrow> enumeratePrimitive api d
    | _ \<Rightarrow> liftP (\<lambda>_. Inl DrgnParserError))"

text \<open>The size of a type decides whether it is complete (\<^verbatim>\<open>drgn_utils::isSizeComplete\<close>).\<close>

definition isSizeComplete :: "'d drgn \<Rightarrow> 'd \<Rightarrow> bool" where
  "isSizeComplete api d = (dr_sizeof api d \<noteq> None)"

definition isTypeIncomplete :: "'d drgn \<Rightarrow> 'd \<Rightarrow> bool" where
  "isTypeIncomplete api d = (\<not> isSizeComplete api d \<and> dr_kind api d \<noteq> DK_VOID)"

definition incomplete_type_name :: "'d drgn \<Rightarrow> 'd \<Rightarrow> string" where
  "incomplete_type_name api d = (case dr_name api d of
      Some name \<Rightarrow> name
    | None \<Rightarrow> (case dr_tag api d of Some tag \<Rightarrow> tag | None \<Rightarrow> ''<incomplete>''))"

definition change_depth :: "int \<Rightarrow> 'd parser \<Rightarrow> 'd parser" where
  "change_depth i s = s\<lparr>dp_depth := dp_depth s + i\<rparr>"

definition enumerate_new :: "'d drgn \<Rightarrow> sorts \<Rightarrow> drgn_options \<Rightarrow> 'd enumerator \<Rightarrow> 'd \<Rightarrow> ('d, tref) parse_op" where
  "enumerate_new api srt opts call d s = (case enumerateKind api srt opts call d (change_depth 1 s) of
      (Inl e, s) \<Rightarrow>
        if e \<noteq> DrgnParserError then (Inl e, s)
        else if isTypeIncomplete api d
        then make_node None (\<lambda>nid. Incomplete (mk_incomplete nid (Inl (incomplete_type_name api d)))) (change_depth (- 1) s)
        else (Inl e, change_depth (- 1) s)
    | (Inr t, s) \<Rightarrow>
        if isTypeIncomplete api d
        then make_node None (\<lambda>nid. Incomplete (mk_incomplete nid (Inr t))) (change_depth (- 1) s)
        else (Inr t, change_depth (- 1) s))"

primrec enumerateType :: "'d drgn \<Rightarrow> sorts \<Rightarrow> drgn_options \<Rightarrow> nat \<Rightarrow> 'd enumerator" where
  "enumerateType api srt opts 0 d s = (Inl Diverge, s)"
| "enumerateType api srt opts (Suc n) d s = (case dp_types s (Some d) of
      Some t \<Rightarrow> (Inr t, s)
    | None \<Rightarrow> enumerate_new api srt opts (enumerateType api srt opts n) d s)"

definition drgn_parse :: "'d drgn \<Rightarrow> sorts \<Rightarrow> drgn_options \<Rightarrow> nat \<Rightarrow> 'd \<Rightarrow> ('d, tref) parse_op" where
  "drgn_parse api srt opts fuel root s = enumerateType api srt opts fuel root (s\<lparr>dp_depth := 0\<rparr>)"

section \<open>What a graph has to say of a type\<close>

definition is_class_kind :: "drgn_kind \<Rightarrow> bool" where
  "is_class_kind k \<longleftrightarrow> k = DK_CLASS \<or> k = DK_STRUCT \<or> k = DK_UNION"

definition is_link_kind :: "drgn_kind \<Rightarrow> bool" where
  "is_link_kind k \<longleftrightarrow> k = DK_TYPEDEF \<or> k = DK_POINTER \<or> k = DK_ARRAY"

text \<open>The parts of a class whose lookups succeed.\<close>

definition found_param :: "'d drgn_param \<Rightarrow> ('d \<times> bool \<times> 'd drgn_object option) option" where
  "found_param q = (case dq_type q of None \<Rightarrow> None | Some (p, const) \<Rightarrow>
     (case dq_object q of None \<Rightarrow> None | Some obj \<Rightarrow> Some (p, const, obj)))"

definition found_params :: "'d drgn \<Rightarrow> 'd \<Rightarrow> ('d \<times> bool \<times> 'd drgn_object option) list" where
  "found_params api d = List.map_filter found_param (dr_params api d)"

definition found_parents :: "'d drgn \<Rightarrow> 'd \<Rightarrow> ('d \<times> u64) list" where
  "found_parents api d = List.map_filter (\<lambda>(q, off). map_option (\<lambda>p. (p, off)) q) (dr_parents api d)"

definition found_members :: "'d drgn \<Rightarrow> 'd \<Rightarrow> ('d \<times> string \<times> u64 \<times> u64) list" where
  "found_members api d = List.map_filter (\<lambda>q. map_option (\<lambda>(m, bits).
     (m, case dm_name q of None \<Rightarrow> '''' | Some nm \<Rightarrow> nm, dm_bit_offset q, bits)) (dm_type q)) (dr_members api d)"

definition found_functions :: "'d drgn \<Rightarrow> 'd \<Rightarrow> member_function list" where
  "found_functions api d = List.map_filter (map_option (\<lambda>f.
     \<lparr>f_name = the (dr_tag api f), f_virtuality = dr_virtuality api f\<rparr>)) (dr_functions api d)"

text \<open>The text of a template parameter that is a value.\<close>

definition value_text :: "'d drgn \<Rightarrow> 'd \<Rightarrow> 'd drgn_object \<Rightarrow> string outcome" where
  "value_text api p obj =
     (if dr_kind api p = DK_ENUM \<and> isSizeComplete api p
      then bindE (getDrgnFullyQualifiedName api p) (\<lambda>fq. enum_param_value api fq obj)
      else plain_param_value api obj)"

definition param_ok :: "'d drgn \<Rightarrow> ('d \<Rightarrow> tref \<Rightarrow> bool) \<Rightarrow> 'd \<times> bool \<times> 'd drgn_object option \<Rightarrow> template_param \<Rightarrow> bool" where
  "param_ok api St q p = (case q of (d, const, obj) \<Rightarrow> St d (tp_type p) \<and> (case obj of
      None \<Rightarrow> tp_qualifiers p = (if const then {Const} else {}) \<and> tp_value p = None
    | Some obj \<Rightarrow> tp_qualifiers p = {} \<and> (\<exists>v. value_text api d obj = Inr v \<and> tp_value p = Some v)))"

definition parent_ok :: "('d \<Rightarrow> tref \<Rightarrow> bool) \<Rightarrow> 'd \<times> u64 \<Rightarrow> parent \<Rightarrow> bool" where
  "parent_ok St q p = (case q of (d, off) \<Rightarrow> St d (p_type p) \<and> p_bitOffset p = off)"

definition member_ok :: "('d \<Rightarrow> tref \<Rightarrow> bool) \<Rightarrow> 'd \<times> string \<times> u64 \<times> u64 \<Rightarrow> member \<Rightarrow> bool" where
  "member_ok St q m = (case q of (d, name, off, bits) \<Rightarrow> St d (m_type m) \<and> m = mk_member (m_type m) name off bits)"

definition lists_ok :: "'d drgn \<Rightarrow> sorts \<Rightarrow> ('d \<Rightarrow> tref \<Rightarrow> bool) \<Rightarrow> 'd \<Rightarrow> class_node \<Rightarrow> bool" where
  "lists_ok api srt St d c \<longleftrightarrow>
     list_all2 (param_ok api St) (found_params api d) (cl_templateParams c) \<and>
     (\<exists>ps. list_all2 (parent_ok St) (found_parents api d) ps \<and> cl_parents c = sort_parents srt ps) \<and>
     (\<exists>ms. list_all2 (member_ok St) (found_members api d) ms \<and> cl_members c = sort_members srt ms) \<and>
     cl_functions c = found_functions api d"

definition header_ok :: "'d drgn \<Rightarrow> 'd \<Rightarrow> class_node \<Rightarrow> bool" where
  "header_ok api d c \<longleftrightarrow> class_kind_of (dr_kind api d) = Inr (cl_kind c) \<and> cl_name c = tag_or_empty api d \<and>
     cl_inputName c = class_fq_name api d \<and> dr_sizeof api d = Some (cl_size c) \<and>
     cl_virtuality c = (if dr_has_virtuality api d then dr_virtuality api d else 0)"

text \<open>
  A primitive, and a node, for a type; \<open>St\<close> says which references stand for which types. A class that is not
  finished has its header only.
\<close>

definition prim_for :: "'d drgn \<Rightarrow> drgn_options \<Rightarrow> 'd \<Rightarrow> prim_kind \<Rightarrow> bool" where
  "prim_for api opts d k =
     (if dr_kind api d = DK_POINTER
      then k = StubbedPointer \<and> (\<not> chaseRawPointers opts \<or>
        (\<exists>u. getPtrUnderlyingType api d = Some u \<and> dr_kind api u = DK_FUNCTION))
      else primitive_kind api d = Inr k)"

definition node_ok :: "'d drgn \<Rightarrow> sorts \<Rightarrow> drgn_options \<Rightarrow> ('d \<Rightarrow> tref \<Rightarrow> bool) \<Rightarrow> 'd \<Rightarrow> bool \<Rightarrow> ty \<Rightarrow> bool" where
  "node_ok api srt opts St d done n \<longleftrightarrow> (case n of
      Class c \<Rightarrow> is_class_kind (dr_kind api d) \<and> header_ok api d c \<and> (done \<longrightarrow> lists_ok api srt St d c)
    | Enum e \<Rightarrow> dr_kind api d = DK_ENUM \<and> getDrgnFullyQualifiedName api d = Inr (en_inputName e) \<and>
        en_name e = tag_or_empty api d \<and> dr_sizeof api d = Some (en_size e) \<and>
        en_enumerators e = (if readEnumValues opts then enumerator_map (dr_enumerators api d) else [])
    | Typedef td \<Rightarrow> dr_kind api d = DK_TYPEDEF \<and> dr_name api d = Some (td_name td) \<and> St (dr_type api d) (td_underlying td)
    | Pointer p \<Rightarrow> dr_kind api d = DK_POINTER \<and> St (dr_type api d) (pt_pointee p)
    | Array a \<Rightarrow> dr_kind api d = DK_ARRAY \<and> ar_len a = dr_length api d \<and> St (dr_type api d) (ar_elementType a)
    | _ \<Rightarrow> False)"

lemma param_ok_mono: "(\<And>d u. St d u \<Longrightarrow> St' d u) \<Longrightarrow> param_ok api St q p \<Longrightarrow> param_ok api St' q p"
  by (auto simp: param_ok_def)

lemma parent_ok_mono: "(\<And>d u. St d u \<Longrightarrow> St' d u) \<Longrightarrow> parent_ok St q p \<Longrightarrow> parent_ok St' q p"
  by (auto simp: parent_ok_def)

lemma member_ok_mono: "(\<And>d u. St d u \<Longrightarrow> St' d u) \<Longrightarrow> member_ok St q m \<Longrightarrow> member_ok St' q m"
  by (auto simp: member_ok_def)

lemma lists_ok_mono:
  assumes "\<And>d u. St d u \<Longrightarrow> St' d u" "lists_ok api srt St d c"
  shows "lists_ok api srt St' d c"
proof -
  have "list_all2 (param_ok api St) qs ps \<Longrightarrow> list_all2 (param_ok api St') qs ps" for qs ps
    by (auto elim!: list_all2_mono intro: param_ok_mono [OF assms(1)])
  moreover have "list_all2 (parent_ok St) qs ps \<Longrightarrow> list_all2 (parent_ok St') qs ps" for qs ps
    by (auto elim!: list_all2_mono intro: parent_ok_mono [OF assms(1)])
  moreover have "list_all2 (member_ok St) qs ps \<Longrightarrow> list_all2 (member_ok St') qs ps" for qs ps
    by (auto elim!: list_all2_mono intro: member_ok_mono [OF assms(1)])
  ultimately show ?thesis using assms(2) unfolding lists_ok_def by blast
qed

lemma node_ok_mono [mono]:
  assumes "\<And>d u. St d u \<longrightarrow> St' d u"
  shows "node_ok api srt opts St d b n \<longrightarrow> node_ok api srt opts St' d b n"
proof -
  have "lists_ok api srt St d c \<Longrightarrow> lists_ok api srt St' d c" for c using lists_ok_mono assms by metis
  then show ?thesis using assms by (auto simp: node_ok_def split: ty.splits)
qed

text \<open>
  The reference \<open>u\<close> stands for the type \<open>d\<close>: its node has what the debug information says of \<open>d\<close>, and so on
  through all references of the node. A type without a size may be an \<^verbatim>\<open>Incomplete\<close>.
\<close>

coinductive represents :: "'d drgn \<Rightarrow> sorts \<Rightarrow> drgn_options \<Rightarrow> type_graph \<Rightarrow> 'd \<Rightarrow> tref \<Rightarrow> bool"
  for api srt opts g where
  rep_prim: "prim_for api opts d k \<Longrightarrow> represents api srt opts g d (PrimRef k)"
| rep_incomplete: "isTypeIncomplete api d \<Longrightarrow> deref g u = Inr (Incomplete n) \<Longrightarrow> represents api srt opts g d u"
| rep_node: "deref g u = Inr n \<Longrightarrow> node_ok api srt opts (represents api srt opts g) d True n \<Longrightarrow>
    represents api srt opts g d u"

section \<open>Specifications of the parser\<close>

text \<open>From \<open>s\<close>, \<open>m\<close> either returns with \<open>R\<close> or throws with \<open>E\<close>.\<close>

definition trip :: "('d, 'a) parse_op \<Rightarrow> 'd parser \<Rightarrow> ('a \<Rightarrow> 'd parser \<Rightarrow> bool) \<Rightarrow> (error \<Rightarrow> 'd parser \<Rightarrow> bool) \<Rightarrow> bool" where
  "trip m s R E \<longleftrightarrow> (case m s of (Inl e, s') \<Rightarrow> E e s' | (Inr x, s') \<Rightarrow> R x s')"

lemma trip_return: "R x s \<Longrightarrow> trip (returnP x) s R E"
  by (simp add: trip_def returnP_def)

lemma trip_lift: "(\<And>x. m s = Inr x \<Longrightarrow> R x s) \<Longrightarrow> (\<And>e. m s = Inl e \<Longrightarrow> E e s) \<Longrightarrow> trip (liftP m) s R E"
  by (cases "m s") (auto simp: trip_def liftP_def)

lemma trip_bind:
  assumes "trip m s R E" "\<And>x s'. R x s' \<Longrightarrow> trip (f x) s' R' E"
  shows "trip (bindP m f) s R' E"
proof -
  obtain r s' where "m s = (r, s')" by (cases "m s")
  then show ?thesis using assms by (cases r) (auto simp: trip_def bindP_def)
qed

lemma trip_mono:
  assumes "trip m s R E" "\<And>x s'. R x s' \<Longrightarrow> R' x s'" "\<And>e s'. E e s' \<Longrightarrow> E' e s'"
  shows "trip m s R' E'"
  using assms by (auto simp: trip_def split: prod.splits sum.splits)

lemma trip_each:
  assumes "J [] s" "\<And>ys x s'. x \<in> set xs \<Longrightarrow> J ys s' \<Longrightarrow> trip (f x) s' (\<lambda>_ s''. J (ys @ [x]) s'') E"
  shows "trip (each f xs) s (\<lambda>_ s'. J xs s') E"
proof -
  have "trip (each f zs) s' (\<lambda>_ s''. J (ys @ zs) s'') E" if "set zs \<subseteq> set xs" "J ys s'" for zs ys s'
    using that
  proof (induction zs arbitrary: ys s')
    case Nil
    then show ?case by (auto intro: trip_return)
  next
    case (Cons z zs)
    show ?case
      unfolding each.simps
    proof (rule trip_bind)
      show "trip (f z) s' (\<lambda>_ s''. J (ys @ [z]) s'') E" using Cons.prems by (intro assms(2)) auto
      show "trip (each f zs) s'' (\<lambda>_ s''. J (ys @ z # zs) s'') E" if "J (ys @ [z]) s''" for s''
        using Cons.IH [of "ys @ [z]" s''] Cons.prems that by simp
    qed
  qed
  from this [of xs "[]" s] assms(1) show ?thesis by simp
qed

section \<open>The invariant\<close>

text \<open>
  The type each node of the graph was made for, and whether the node is finished. The parser does not keep
  this: its own map forgets a node when another one is made for the type.
\<close>

type_synonym 'd origin = "nat \<Rightarrow> ('d \<times> bool) option"

definition stands :: "'d drgn \<Rightarrow> drgn_options \<Rightarrow> 'd origin \<Rightarrow> type_graph \<Rightarrow> 'd \<Rightarrow> tref \<Rightarrow> bool" where
  "stands api opts og g d u \<longleftrightarrow> (case u of
      PrimRef k \<Rightarrow> prim_for api opts d k
    | NodeRef i \<Rightarrow> (\<exists>b. og i = Some (d, b)) \<or>
        isTypeIncomplete api d \<and> i < length (nodes g) \<and> ctor_of (node_at g i) = 0)"

definition made :: "'d drgn \<Rightarrow> drgn_options \<Rightarrow> 'd origin \<Rightarrow> 'd \<Rightarrow> tref \<Rightarrow> bool" where
  "made api opts og d u \<longleftrightarrow> (case u of PrimRef k \<Rightarrow> prim_for api opts d k | NodeRef i \<Rightarrow> (\<exists>b. og i = Some (d, b)))"

text \<open>
  What the parser relies on in the debug information: the types are finitely many, only classes lead back to
  themselves (typedefs, pointers and arrays descend along \<open>rk\<close>, up to \<open>M\<close>), and typedefs and member functions have names.
\<close>

definition type_refs :: "'d drgn \<Rightarrow> 'd \<Rightarrow> 'd set" where
  "type_refs api d =
     (if is_class_kind (dr_kind api d)
      then {p. \<exists>q \<in> set (dr_params api d). \<exists>const. dq_type q = Some (p, const)} \<union>
        {p. \<exists>off. (Some p, off) \<in> set (dr_parents api d)} \<union>
        {m. \<exists>q \<in> set (dr_members api d). \<exists>bits. dm_type q = Some (m, bits)}
      else if is_link_kind (dr_kind api d) then {dr_type api d} else {})"

definition debug_info :: "'d drgn \<Rightarrow> 'd set \<Rightarrow> ('d \<Rightarrow> nat) \<Rightarrow> nat \<Rightarrow> bool" where
  "debug_info api D rk M \<longleftrightarrow> finite D \<and> (\<forall>d \<in> D. type_refs api d \<subseteq> D \<and> rk d \<le> M \<and>
     (is_link_kind (dr_kind api d) \<longrightarrow> rk (dr_type api d) < rk d) \<and>
     (dr_kind api d = DK_TYPEDEF \<longrightarrow> dr_name api d \<noteq> None) \<and>
     (\<forall>f. Some f \<in> set (dr_functions api d) \<longrightarrow> dr_tag api f \<noteq> None))"

text \<open>Every type that has a size can be read.\<close>

definition readable :: "'d drgn \<Rightarrow> 'd set \<Rightarrow> bool" where
  "readable api D \<longleftrightarrow> (\<forall>d \<in> D. (isTypeIncomplete api d \<or>
       (case dr_kind api d of
          DK_FUNCTION \<Rightarrow> False
        | DK_OTHER \<Rightarrow> False
        | DK_INT \<Rightarrow> (\<exists>k. primitive_kind api d = Inr k)
        | DK_FLOAT \<Rightarrow> (\<exists>k. primitive_kind api d = Inr k)
        | DK_ENUM \<Rightarrow> dr_fq_name api d \<noteq> None
        | _ \<Rightarrow> True)) \<and>
     (\<forall>p const obj. (p, const, Some obj) \<in> set (found_params api d) \<longrightarrow> (\<exists>v. value_text api p obj = Inr v)))"

definition inv :: "'d drgn \<Rightarrow> sorts \<Rightarrow> drgn_options \<Rightarrow> 'd set \<Rightarrow> 'd origin \<Rightarrow> 'd parser \<Rightarrow> bool" where
  "inv api srt opts D og s \<longleftrightarrow> wf_graph (dp_graph s) \<and>
     (\<forall>i d b. og i = Some (d, b) \<longrightarrow> d \<in> D \<and> i < length (nodes (dp_graph s)) \<and>
        node_ok api srt opts (stands api opts og (dp_graph s)) d b (node_at (dp_graph s) i)) \<and>
     (\<forall>d t. dp_types s (Some d) = Some t \<longrightarrow> made api opts og d t) \<and>
     (\<forall>i d b. og i = Some (d, b) \<longrightarrow> is_class_kind (dr_kind api d) \<longrightarrow> dp_types s (Some d) = Some (NodeRef i))"

text \<open>The children of a node: the parser makes nodes without any.\<close>

fun kids :: "ty \<Rightarrow> tref list" where
  "kids (Class c) = cl_children c"
| "kids _ = []"

definition same_kids :: "type_graph \<Rightarrow> type_graph \<Rightarrow> bool" where
  "same_kids g g' \<longleftrightarrow> (\<forall>i < length (nodes g').
     kids (node_at g' i) = (if i < length (nodes g) then kids (node_at g i) else []))"

lemma same_kids_trans: "same_kids g g' \<Longrightarrow> same_kids g' g'' \<Longrightarrow> length (nodes g) \<le> length (nodes g') \<Longrightarrow> same_kids g g''"
  by (auto simp: same_kids_def)

lemma same_kids_append: "nodes g' = nodes g @ [n] \<Longrightarrow> kids n = [] \<Longrightarrow> same_kids g g'"
  by (auto simp: same_kids_def node_at_def nth_append less_Suc_eq)

text \<open>What happens to the state: nodes are added; those in \<open>X\<close> may change. In readable debug information everything
  that was made is finished, apart from \<open>X\<close>.\<close>

definition og_le :: "'d origin \<Rightarrow> 'd origin \<Rightarrow> bool" where
  "og_le og og' \<longleftrightarrow> (\<forall>i d b. og i = Some (d, b) \<longrightarrow> (\<exists>b'. og' i = Some (d, b') \<and> (b \<longrightarrow> b')))"

definition ext :: "bool \<Rightarrow> nat set \<Rightarrow> 'd origin \<Rightarrow> 'd parser \<Rightarrow> 'd origin \<Rightarrow> 'd parser \<Rightarrow> bool" where
  "ext ready X og s og' s' \<longleftrightarrow> og \<subseteq>\<^sub>m og' \<and> extends (dp_graph s) (dp_graph s') \<and>
     finalTypes (dp_graph s') = finalTypes (dp_graph s) \<and> dp_depth s' = dp_depth s \<and>
     (\<forall>i < length (nodes (dp_graph s)). i \<notin> X \<longrightarrow> node_at (dp_graph s') i = node_at (dp_graph s) i) \<and>
     (\<forall>k. dp_types s k \<noteq> None \<longrightarrow> dp_types s' k \<noteq> None) \<and> same_kids (dp_graph s) (dp_graph s') \<and>
     (ready \<longrightarrow> (\<forall>i d. og' i = Some (d, False) \<longrightarrow> og i = Some (d, False)))"

lemma ext_refl: "ext ready X og s og s"
  by (simp add: ext_def same_kids_def)

lemma ext_trans:
  assumes "ext ready X og s og' s'" "ext ready Y og' s' og'' s''" "Y \<subseteq> X"
  shows "ext ready X og s og'' s''"
proof -
  have "og \<subseteq>\<^sub>m og''" using assms(1,2) map_le_trans by (auto simp: ext_def)
  moreover have "extends (dp_graph s) (dp_graph s'')" using assms(1,2) extends_trans by (auto simp: ext_def)
  moreover have "node_at (dp_graph s'') i = node_at (dp_graph s) i" if "i < length (nodes (dp_graph s))" "i \<notin> X" for i
  proof -
    have "i < length (nodes (dp_graph s'))" using assms(1) that(1) by (auto simp: ext_def extends_def)
    then show ?thesis using assms that by (auto simp: ext_def)
  qed
  moreover have "same_kids (dp_graph s) (dp_graph s'')"
    using assms(1,2) same_kids_trans unfolding ext_def extends_def by blast
  ultimately show ?thesis using assms(1,2) by (simp add: ext_def)
qed

lemma og_le_map: "og \<subseteq>\<^sub>m og' \<Longrightarrow> og_le og og'"
  by (auto simp: og_le_def map_le_def dom_def)

lemma stands_le:
  assumes "stands api opts og g d u" "og_le og og'" "extends g g'"
  shows "stands api opts og' g' d u"
proof (cases u)
  case (NodeRef i)
  then show ?thesis
    using assms extends_ctor(1) [OF assms(3), of i]
    by (fastforce simp: stands_def og_le_def extends_def)
qed (use assms in \<open>simp add: stands_def\<close>)

lemma made_le: "made api opts og d u \<Longrightarrow> og_le og og' \<Longrightarrow> made api opts og' d u"
  unfolding made_def og_le_def by (cases u) (simp_all, blast)

lemma made_stands: "made api opts og d u \<Longrightarrow> stands api opts og g d u"
  by (cases u) (auto simp: made_def stands_def)

lemma node_ok_le:
  assumes "node_ok api srt opts (stands api opts og g) d b n" "og_le og og'" "extends g g'"
  shows "node_ok api srt opts (stands api opts og' g') d b n"
  using node_ok_mono [of "stands api opts og g" "stands api opts og' g'"] stands_le [OF _ assms(2,3)] assms(1) by blast

lemma inv_in_graph:
  assumes "inv api srt opts D og s" "stands api opts og (dp_graph s) d u"
  shows "in_graph (dp_graph s) u"
proof (cases u)
  case (PrimRef k)
  have "primitive_kind api d \<noteq> Inr Float80"
    by (auto simp: primitive_kind_def primitiveIntKind_def primitiveFloatKind_def Let_def bindE_Inr_iff
      split: drgn_kind.splits if_splits)
  then show ?thesis using assms(2) PrimRef by (auto simp: stands_def prim_for_def split: if_splits)
qed (use assms in \<open>auto simp: stands_def inv_def\<close>)

lemma inv_node:
  assumes "inv api srt opts D og s" "og i = Some (d, b)"
  shows "d \<in> D" "i < length (nodes (dp_graph s))"
    "node_ok api srt opts (stands api opts og (dp_graph s)) d b (node_at (dp_graph s) i)"
  using assms by (auto simp: inv_def)

lemma inv_fresh: "inv api srt opts D og s \<Longrightarrow> og (length (nodes (dp_graph s))) = None"
proof (rule ccontr)
  assume inv: "inv api srt opts D og s" and "og (length (nodes (dp_graph s))) \<noteq> None"
  then obtain d b where "og (length (nodes (dp_graph s))) = Some (d, b)" by auto
  from inv_node(2) [OF inv this] show False by simp
qed

lemma inv_memo: "inv api srt opts D og s \<Longrightarrow> dp_types s (Some d) = Some t \<Longrightarrow> stands api opts og (dp_graph s) d t"
  unfolding inv_def by (intro made_stands) blast

text \<open>A node is made for a type.\<close>

lemma inv_new:
  assumes inv: "inv api srt opts D og s" and d: "d \<in> D"
    and g': "nodes g' = nodes (dp_graph s) @ [n]" "wf_graph g'" "extends (dp_graph s) g'" "finalTypes g' = finalTypes (dp_graph s)"
    and n: "node_ok api srt opts (stands api opts og (dp_graph s)) d b n" "ready \<longrightarrow> b"
      "kids n = []" "is_class_kind (dr_kind api d) \<longrightarrow> dp_types s (Some d) = None"
    and t: "t = NodeRef (length (nodes (dp_graph s)))"
    and og': "og' = og(length (nodes (dp_graph s)) \<mapsto> (d, b))"
    and s': "s' = remember (Some d) t (s\<lparr>dp_graph := g'\<rparr>)"
  shows "inv api srt opts D og' s'" "ext ready {} og s og' s'" "stands api opts og' (dp_graph s') d t"
proof -
  let ?i = "length (nodes (dp_graph s))"
  have g: "dp_graph s' = g'" "dp_types s' = (dp_types s)(Some d \<mapsto> t)" "dp_depth s' = dp_depth s"
    by (simp_all add: s' remember_def)
  have sub: "og \<subseteq>\<^sub>m og'" using inv_fresh [OF inv] by (auto simp: og' map_le_def dom_def)
  note le = og_le_map [OF sub]
  have at: "node_at g' j = (if j = ?i then n else node_at (dp_graph s) j)" if "j \<le> ?i" for j
    using that g'(1) by (auto simp: node_at_def nth_append)
  show "ext ready {} og s og' s'"
    using sub g' at n(2) same_kids_append [OF g'(1) n(3)] by (auto simp: ext_def g og' fun_upd_def split: if_splits)
  have "node_ok api srt opts (stands api opts og' g') e c (node_at g' j) \<and> e \<in> D \<and> j < length (nodes g')"
    if j: "og' j = Some (e, c)" for j e c
  proof (cases "j = ?i")
    case True
    then have "e = d" "c = b" using j by (simp_all add: og')
    then show ?thesis using True node_ok_le [OF n(1) le g'(3)] at d g'(1) by simp
  next
    case False
    then have "og j = Some (e, c)" using j by (simp add: og')
    from inv_node [OF inv this] show ?thesis using node_ok_le [OF _ le g'(3)] at [of j] False g'(1) by auto
  qed
  moreover have "made api opts og' e u" if "((dp_types s)(Some d \<mapsto> t)) (Some e) = Some u" for e u
  proof (cases "e = d")
    case True
    then have "u = NodeRef (length (nodes (dp_graph s)))" using that t by simp
    then show ?thesis using True by (simp add: made_def og')
  next
    case False
    then have "made api opts og e u" using that inv by (simp add: inv_def)
    then show ?thesis by (rule made_le [OF _ le])
  qed
  moreover have "((dp_types s)(Some d \<mapsto> t)) (Some e) = Some (NodeRef j)"
    if j: "og' j = Some (e, c)" "is_class_kind (dr_kind api e)" for j e c
  proof (cases "j = ?i")
    case True
    then show ?thesis using j(1) t by (simp add: og')
  next
    case False
    then have "og j = Some (e, c)" using j(1) by (simp add: og')
    then have "dp_types s (Some e) = Some (NodeRef j)" using inv j(2) unfolding inv_def by blast
    then show ?thesis using n(4) j(2) by auto
  qed
  ultimately show "inv api srt opts D og' s'" using g'(2) unfolding inv_def g by blast
  show "stands api opts og' (dp_graph s') d t" by (simp add: stands_def t og')
qed

text \<open>A primitive is found for a type, and an \<^verbatim>\<open>Incomplete\<close> is made.\<close>

lemma inv_prim:
  assumes inv: "inv api srt opts D og s" and k: "prim_for api opts d k" and s': "s' = remember (Some d) (PrimRef k) s"
  shows "inv api srt opts D og s'" "ext ready {} og s og s'" "stands api opts og (dp_graph s') d (PrimRef k)"
proof -
  have "made api opts og e u" if "((dp_types s)(Some d \<mapsto> PrimRef k)) (Some e) = Some u" for e u
    using that inv k by (auto simp: inv_def made_def split: if_splits)
  moreover have "\<not> is_class_kind (dr_kind api d)"
    using k by (auto simp: prim_for_def primitive_kind_def is_class_kind_def split: if_splits)
  ultimately show "inv api srt opts D og s'" using inv by (auto simp: inv_def s' remember_def)
  show "ext ready {} og s og s'" by (simp add: ext_def s' remember_def same_kids_def)
  show "stands api opts og (dp_graph s') d (PrimRef k)" using k by (simp add: stands_def)
qed

lemma inv_incomplete:
  assumes inv: "inv api srt opts D og s" and d: "isTypeIncomplete api d"
    and x: "\<And>t. x = Inr t \<Longrightarrow> in_graph (dp_graph s) t"
  shows "trip (make_node None (\<lambda>nid. Incomplete (mk_incomplete nid x))) s (\<lambda>t s'. inv api srt opts D og s' \<and>
    ext ready {} og s og s' \<and> stands api opts og (dp_graph s') d t) E"
proof -
  let ?mk = "\<lambda>nid. Incomplete (mk_incomplete nid x)"
  obtain t g' where tg: "make_type ?mk (dp_graph s) = (t, g')" by (cases "make_type ?mk (dp_graph s)")
  let ?s' = "remember None t (s\<lparr>dp_graph := g'\<rparr>)"
  have wf: "wf_graph (dp_graph s)" using inv by (simp add: inv_def)
  have r: "\<forall>u \<in> set (refs (?mk (next_id (dp_graph s)))). in_graph (dp_graph s) u"
    using x by (auto simp: mk_incomplete_def split: sum.splits)
  have g': "wf_graph g'" "t = NodeRef (length (nodes (dp_graph s)))" "nodes g' = nodes (dp_graph s) @ [?mk (next_id (dp_graph s))]"
    using make_type_wf [OF wf tg _ _ r] by (simp_all add: mk_incomplete_def)
  have e: "extends (dp_graph s) g'" using make_type_extends [OF tg] by (simp add: mk_incomplete_def)
  have f: "finalTypes g' = finalTypes (dp_graph s)" using tg by (auto simp: make_type_def make_type_id_def)
  have at: "node_at g' j = node_at (dp_graph s) j" if "j < length (nodes (dp_graph s))" for j
    using that g'(3) by (simp add: node_at_def nth_append)
  have le: "og_le og og" by (simp add: og_le_def)
  have "inv api srt opts D og ?s'"
    using inv g'(1,3) at node_ok_le [OF _ le e] by (fastforce simp: inv_def remember_def)
  moreover have "ext ready {} og s og ?s'"
    using e f at same_kids_append [OF g'(3)] by (simp add: ext_def remember_def)
  moreover have "stands api opts og g' d t" using d g'(2,3) by (simp add: stands_def node_at_def)
  ultimately show ?thesis by (simp add: trip_def make_node_def tg remember_def)
qed

text \<open>A class that is not finished gets another entry in one of its lists.\<close>

lemma upd_class_spec:
  assumes inv: "inv api srt opts D og s" and i: "og i = Some (d, False)" "node_at (dp_graph s) i = Class c"
    and f: "cl_id (f c) = cl_id c" "header_ok api d c \<Longrightarrow> header_ok api d (f c)" "cl_children (f c) = cl_children c"
    and r: "\<And>u. u \<in> set (refs (Class (f c))) \<Longrightarrow> u \<in> set (refs (Class c)) \<or> in_graph (dp_graph s) u"
  shows "trip (upd_class (NodeRef i) f) s (\<lambda>_ s'. inv api srt opts D og s' \<and> ext ready {i} og s og s' \<and>
    node_at (dp_graph s') i = Class (f c)) E"
proof -
  note n = inv_node [OF inv i(1)]
  let ?g = "put_node (NodeRef i) (Class (f c)) (dp_graph s)"
  have wf: "wf_graph (dp_graph s)" using inv by (simp add: inv_def)
  have der: "deref (dp_graph s) (NodeRef i) = Inr (Class c)" using n(2) i(2) by simp
  have wf': "wf_graph ?g"
  proof (rule wf_graph_put [OF wf der])
    show "\<forall>u \<in> set (refs (Class (f c))). in_graph (dp_graph s) u" using r refs_in_graph [OF wf der] by blast
    have "Class c \<in> set (nodes (dp_graph s))" using n(2) i(2) nth_mem by (metis node_at_def)
    then show "\<exists>d. deref (dp_graph s) u = Inr (Class d)" if "Class (f c) = Class c'" "u \<in> set (cl_children c')" for c' u
      using that f(3) wf unfolding wf_graph_def wf_children_def by auto
  qed (simp_all add: f(1))
  have e: "extends (dp_graph s) ?g" using extends_put [OF der] f(1) by simp
  have at: "node_at ?g j = (if i = j then Class (f c) else node_at (dp_graph s) j)" for j using n(2) by simp
  have le: "og_le og og" by (simp add: og_le_def)
  have "node_ok api srt opts (stands api opts og ?g) e' b (node_at ?g j)" if j: "og j = Some (e', b)" for j e' b
  proof (cases "i = j")
    case True
    then have "e' = d" "b = False" using i(1) j by auto
    moreover have "is_class_kind (dr_kind api d)" "header_ok api d c" using n(3) i(2) by (simp_all add: node_ok_def)
    ultimately show ?thesis using True at f(2) by (simp add: node_ok_def)
  next
    case False
    then show ?thesis using at node_ok_le [OF inv_node(3) [OF inv j] le e] by simp
  qed
  then have "inv api srt opts D og (s\<lparr>dp_graph := ?g\<rparr>)" using inv wf' by (simp add: inv_def)
  moreover have "ext ready {i} og s og (s\<lparr>dp_graph := ?g\<rparr>)"
    using e at f(3) i(2) by (simp add: ext_def same_kids_def)
  ultimately show ?thesis using der at by (simp add: trip_def upd_class_def)
qed

section \<open>Classes\<close>

definition unseen_classes :: "'d drgn \<Rightarrow> 'd set \<Rightarrow> 'd parser \<Rightarrow> 'd set" where
  "unseen_classes api D s = {d \<in> D. is_class_kind (dr_kind api d) \<and> dp_types s (Some d) = None}"

text \<open>A call goes to a type of smaller rank: a class that is seen the first time counts more than all links.\<close>

definition dp_rank :: "'d drgn \<Rightarrow> 'd set \<Rightarrow> ('d \<Rightarrow> nat) \<Rightarrow> nat \<Rightarrow> 'd \<Rightarrow> 'd parser \<Rightarrow> nat" where
  "dp_rank api D rk M d s = card (unseen_classes api D s) * Suc M + rk d"

definition returned :: "'d drgn \<Rightarrow> sorts \<Rightarrow> drgn_options \<Rightarrow> 'd set \<Rightarrow> 'd origin \<Rightarrow> 'd parser \<Rightarrow> 'd \<Rightarrow> tref \<Rightarrow> 'd parser \<Rightarrow> bool" where
  "returned api srt opts D og s d t s' \<longleftrightarrow> (\<exists>og'. inv api srt opts D og' s' \<and> ext (readable api D) {} og s og' s' \<and>
     stands api opts og' (dp_graph s') d t)"

definition thrown :: "'d drgn \<Rightarrow> sorts \<Rightarrow> drgn_options \<Rightarrow> 'd set \<Rightarrow> nat set \<Rightarrow> 'd origin \<Rightarrow> 'd parser \<Rightarrow> bool \<Rightarrow> error \<Rightarrow> 'd parser \<Rightarrow> bool" where
  "thrown api srt opts D X og s allowed e s' \<longleftrightarrow> e = DrgnParserError \<and> (readable api D \<longrightarrow> allowed) \<and>
     (\<exists>og'. inv api srt opts D og' s' \<and> ext (readable api D) X og s og' s')"

definition call_ok :: "'d drgn \<Rightarrow> sorts \<Rightarrow> drgn_options \<Rightarrow> 'd set \<Rightarrow> ('d \<Rightarrow> nat) \<Rightarrow> nat \<Rightarrow> nat \<Rightarrow> 'd enumerator \<Rightarrow> bool" where
  "call_ok api srt opts D rk M R call \<longleftrightarrow> (\<forall>d s og. d \<in> D \<longrightarrow> inv api srt opts D og s \<longrightarrow> dp_rank api D rk M d s < R \<longrightarrow>
     trip (call d) s (returned api srt opts D og s d) (thrown api srt opts D {} og s False))"

text \<open>
  While the lists of the class of node \<open>i\<close> are filled: \<open>L\<close> is what holds of the class so far. The references it
  mentions go on standing for their types.
\<close>

definition filling :: "'d drgn \<Rightarrow> sorts \<Rightarrow> drgn_options \<Rightarrow> 'd set \<Rightarrow> 'd origin \<Rightarrow> 'd parser \<Rightarrow> nat \<Rightarrow> 'd \<Rightarrow>
    (('d \<Rightarrow> tref \<Rightarrow> bool) \<Rightarrow> class_node \<Rightarrow> bool) \<Rightarrow> 'd parser \<Rightarrow> bool" where
  "filling api srt opts D og1 s1 i d L s \<longleftrightarrow> (\<exists>og c. inv api srt opts D og s \<and> ext (readable api D) {i} og1 s1 og s \<and>
     og i = Some (d, False) \<and> node_at (dp_graph s) i = Class c \<and> header_ok api d c \<and> L (stands api opts og (dp_graph s)) c)"

definition steady :: "(('d \<Rightarrow> tref \<Rightarrow> bool) \<Rightarrow> class_node \<Rightarrow> bool) \<Rightarrow> bool" where
  "steady L \<longleftrightarrow> (\<forall>St St' c. (\<forall>d u. St d u \<longrightarrow> St' d u) \<longrightarrow> L St c \<longrightarrow> L St' c)"

lemma filling_call:
  assumes fill: "filling api srt opts D og1 s1 i d L s" and L: "steady L"
    and call: "call_ok api srt opts D rk M R call" and p: "p \<in> D" "dp_rank api D rk M p s < R"
  shows "trip (call p) s (\<lambda>t. filling api srt opts D og1 s1 i d (\<lambda>St c. L St c \<and> St p t))
    (thrown api srt opts D {i} og1 s1 False)"
proof -
  obtain og c where f: "inv api srt opts D og s" "ext (readable api D) {i} og1 s1 og s" "og i = Some (d, False)"
    "node_at (dp_graph s) i = Class c" "header_ok api d c" "L (stands api opts og (dp_graph s)) c"
    using fill by (auto simp: filling_def)
  have "trip (call p) s (returned api srt opts D og s p) (thrown api srt opts D {} og s False)"
    using call p f(1) by (simp add: call_ok_def)
  then show ?thesis
  proof (rule trip_mono)
    fix t s' assume "returned api srt opts D og s p t s'"
    then obtain og' where r: "inv api srt opts D og' s'" "ext (readable api D) {} og s og' s'"
      "stands api opts og' (dp_graph s') p t" by (auto simp: returned_def)
    have sub: "og \<subseteq>\<^sub>m og'" and e: "extends (dp_graph s) (dp_graph s')" using r(2) by (simp_all add: ext_def)
    have "og' i = Some (d, False)" using sub f(3) by (metis domI map_le_def)
    moreover have "node_at (dp_graph s') i = Class c"
      using r(2) f(4) inv_node(2) [OF f(1,3)] by (simp add: ext_def)
    moreover have "L (stands api opts og' (dp_graph s')) c"
      using L f(6) stands_le [OF _ og_le_map [OF sub] e] unfolding steady_def by blast
    moreover have "ext (readable api D) {i} og1 s1 og' s'" using ext_trans [OF f(2) r(2)] by simp
    ultimately show "filling api srt opts D og1 s1 i d (\<lambda>St c. L St c \<and> St p t) s'"
      using r(1,3) f(5) by (auto simp: filling_def)
  next
    fix e s' assume "thrown api srt opts D {} og s False e s'"
    then show "thrown api srt opts D {i} og1 s1 False e s'" using ext_trans [OF f(2)] by (fastforce simp: thrown_def)
  qed
qed

lemma filling_upd:
  assumes fill: "filling api srt opts D og1 s1 i d L s"
    and f: "\<And>c. cl_id (f c) = cl_id c \<and> (header_ok api d c \<longrightarrow> header_ok api d (f c)) \<and> cl_children (f c) = cl_children c"
    and r: "\<And>St c u. L St c \<Longrightarrow> u \<in> set (refs (Class (f c))) \<Longrightarrow> u \<in> set (refs (Class c)) \<or> (\<exists>e. St e u)"
    and L': "\<And>St c. L St c \<Longrightarrow> L' St (f c)" "steady L'"
  shows "trip (upd_class (NodeRef i) f) s (\<lambda>_. filling api srt opts D og1 s1 i d L') E"
proof -
  obtain og c where c: "inv api srt opts D og s" "ext (readable api D) {i} og1 s1 og s" "og i = Some (d, False)"
    "node_at (dp_graph s) i = Class c" "header_ok api d c" "L (stands api opts og (dp_graph s)) c"
    using fill by (auto simp: filling_def)
  have "trip (upd_class (NodeRef i) f) s (\<lambda>_ s'. inv api srt opts D og s' \<and> ext (readable api D) {i} og s og s' \<and>
    node_at (dp_graph s') i = Class (f c)) E"
    by (rule upd_class_spec [OF c(1,3,4)]) (use f r [OF c(6)] inv_in_graph [OF c(1)] in blast)+
  then show ?thesis
  proof (rule trip_mono)
    fix x s' assume s': "inv api srt opts D og s' \<and> ext (readable api D) {i} og s og s' \<and> node_at (dp_graph s') i = Class (f c)"
    have "og_le og og" by (simp add: og_le_def)
    moreover have "extends (dp_graph s) (dp_graph s')" using s' by (simp add: ext_def)
    ultimately have "stands api opts og (dp_graph s) e u \<longrightarrow> stands api opts og (dp_graph s') e u" for e u
      using stands_le by metis
    then have "L' (stands api opts og (dp_graph s')) (f c)"
      using L'(2) [unfolded steady_def, rule_format, OF _ L'(1) [OF c(6)]] by simp
    moreover have "ext (readable api D) {i} og1 s1 og s'" using s' ext_trans [OF c(2), of "{i}" og s'] by simp
    moreover have "inv api srt opts D og s'" "node_at (dp_graph s') i = Class (f c)" using s' by blast+
    moreover have "header_ok api d (f c)" using f c(5) by blast
    ultimately show "filling api srt opts D og1 s1 i d L' s'"
      unfolding filling_def using c(3) by (intro exI [of _ og] exI [of _ "f c"] conjI)
  qed
qed

lemma filling_mono: "filling api srt opts D og1 s1 i d L s \<Longrightarrow> (\<And>St c. L St c \<Longrightarrow> L' St c) \<Longrightarrow> filling api srt opts D og1 s1 i d L' s"
  unfolding filling_def by blast

text \<open>The value of a parameter is the one the debug information gives.\<close>

lemma param_value_eq:
  assumes inv: "inv api srt opts D og s" and st: "stands api opts og (dp_graph s) p t"
  shows "param_value api t obj s = value_text api p obj"
proof -
  have prim: "PrimRef k = t \<Longrightarrow> \<not> (dr_kind api p = DK_ENUM)" for k
    using st by (auto simp: stands_def prim_for_def primitive_kind_def)
  show ?thesis
  proof (cases t)
    case (PrimRef k)
    then show ?thesis using prim by (simp add: param_value_def value_text_def)
  next
    case (NodeRef i)
    show ?thesis
    proof (cases "\<exists>b. og i = Some (p, b)")
      case True
      then obtain b where b: "og i = Some (p, b)" by blast
      note n = inv_node(2,3) [OF inv b]
      show ?thesis
        using n NodeRef
        by (cases "node_at (dp_graph s) i")
          (auto simp: param_value_def value_text_def node_ok_def isSizeComplete_def is_class_kind_def)
    next
      case False
      then have "isTypeIncomplete api p" "i < length (nodes (dp_graph s))" "ctor_of (node_at (dp_graph s) i) = 0"
        using st NodeRef by (auto simp: stands_def)
      then show ?thesis using NodeRef by (auto simp: param_value_def value_text_def isTypeIncomplete_def ctor_of_iff)
    qed
  qed
qed

lemma value_text_error: "value_text api p obj = Inl e \<Longrightarrow> e = DrgnParserError"
  by (auto simp: value_text_def enum_param_value_def plain_param_value_def getDrgnFullyQualifiedName_def bindE_Inl_iff
    split: if_splits option.splits object_encoding.splits)

named_theorems steady_intros "predicates that go on holding when more references stand for types"

lemma steady_conj [steady_intros]: "steady A \<Longrightarrow> steady B \<Longrightarrow> steady (\<lambda>St c. A St c \<and> B St c)"
  unfolding steady_def by blast

lemma steady_const [steady_intros]: "steady (\<lambda>St c. K c)"
  by (simp add: steady_def)

lemma steady_stands [steady_intros]: "steady (\<lambda>St c. St p t)"
  by (simp add: steady_def)

lemma steady_params [steady_intros]: "steady (\<lambda>St c. list_all2 (param_ok api St) qs (xs c))"
  unfolding steady_def by (auto elim!: list_all2_mono intro: param_ok_mono)

lemma steady_parents [steady_intros]: "steady (\<lambda>St c. list_all2 (parent_ok St) qs (xs c))"
  unfolding steady_def by (auto elim!: list_all2_mono intro: parent_ok_mono)

lemma steady_members [steady_intros]: "steady (\<lambda>St c. list_all2 (member_ok St) qs (xs c))"
  unfolding steady_def by (auto elim!: list_all2_mono intro: member_ok_mono)

lemma steady_ex [steady_intros]: "(\<And>x. steady (\<lambda>St c. A x St c)) \<Longrightarrow> steady (\<lambda>St c. \<exists>x. A x St c)"
  unfolding steady_def by blast

lemma map_filter_snoc:
  "List.map_filter f (xs @ [x]) = List.map_filter f xs @ (case f x of None \<Rightarrow> [] | Some y \<Rightarrow> [y])"
  by (induction xs) (auto simp: List.map_filter_simps split: option.splits)

lemma map_filter_mem: "x \<in> set xs \<Longrightarrow> f x = Some y \<Longrightarrow> y \<in> set (List.map_filter f xs)"
  by (induction xs) (auto simp: List.map_filter_simps split: option.splits)

lemma filling_rank:
  assumes "filling api srt opts D og1 s1 i d L s" "debug_info api D rk M" "p \<in> D"
    "card (unseen_classes api D s1) * Suc M + M < R"
  shows "dp_rank api D rk M p s < R"
proof -
  obtain og where "ext (readable api D) {i} og1 s1 og s" using assms(1) by (auto simp: filling_def)
  then have "unseen_classes api D s \<subseteq> unseen_classes api D s1" by (auto simp: unseen_classes_def ext_def)
  moreover have "finite (unseen_classes api D s1)" using assms(2) by (simp add: debug_info_def unseen_classes_def)
  ultimately have "card (unseen_classes api D s) \<le> card (unseen_classes api D s1)" by (intro card_mono)
  then have "card (unseen_classes api D s) * Suc M \<le> card (unseen_classes api D s1) * Suc M" by (rule mult_le_mono1)
  moreover have "rk p \<le> M" using assms(2,3) by (simp add: debug_info_def)
  ultimately show ?thesis using assms(4) by (simp add: dp_rank_def)
qed

lemma filling_thrown:
  "filling api srt opts D og1 s1 i d L s \<Longrightarrow> e = DrgnParserError \<Longrightarrow> \<not> readable api D \<Longrightarrow>
   thrown api srt opts D {i} og1 s1 False e s"
  unfolding filling_def thrown_def by blast

text \<open>A call for one element of a list, and what is done with its result.\<close>

lemma filling_element:
  assumes ctx: "debug_info api D rk M" "call_ok api srt opts D rk M R call" "card (unseen_classes api D s1) * Suc M + M < R"
    and fill: "filling api srt opts D og1 s1 i d L s" "steady L" and p: "p \<in> D"
    and rest: "\<And>t s'. filling api srt opts D og1 s1 i d (\<lambda>St c. L St c \<and> St p t) s' \<Longrightarrow>
      trip (f t) s' R' (thrown api srt opts D {i} og1 s1 False)"
  shows "trip (bindP (call p) f) s R' (thrown api srt opts D {i} og1 s1 False)"
  by (rule trip_bind [OF filling_call [OF fill ctx(2) p filling_rank [OF fill(1) ctx(1) p ctx(3)]]], rule rest)

lemma params_spec:
  assumes ctx: "debug_info api D rk M" "call_ok api srt opts D rk M R call" "card (unseen_classes api D s1) * Suc M + M < R"
    and d: "d \<in> D" "is_class_kind (dr_kind api d)"
    and fill: "filling api srt opts D og1 s1 i d (\<lambda>St c. cl_templateParams c = [] \<and> cl_parents c = [] \<and> cl_members c = [] \<and> cl_functions c = []) s"
  shows "trip (enumerateClassTemplateParams api call d (NodeRef i)) s
    (\<lambda>_. filling api srt opts D og1 s1 i d (\<lambda>St c. list_all2 (param_ok api St) (found_params api d) (cl_templateParams c) \<and>
      cl_parents c = [] \<and> cl_members c = [] \<and> cl_functions c = []))
    (thrown api srt opts D {i} og1 s1 False)"
proof -
  have fps: "found_params api d = List.map_filter found_param (dr_params api d)" by (simp add: found_params_def)
  let ?L = "\<lambda>ys St c. list_all2 (param_ok api St) (List.map_filter found_param ys) (cl_templateParams c) \<and>
      cl_parents c = [] \<and> cl_members c = [] \<and> cl_functions c = []"
  let ?E = "thrown api srt opts D {i} og1 s1 False"
  have steady: "steady (?L ys)" for ys by (intro steady_intros)
  show ?thesis
    unfolding enumerateClassTemplateParams_def fps
  proof (rule trip_each [where J = "\<lambda>ys. filling api srt opts D og1 s1 i d (?L ys)"])
    show "filling api srt opts D og1 s1 i d (?L []) s"
      by (rule filling_mono [OF fill]) (simp add: List.map_filter_simps)
    fix ys q s' assume q: "q \<in> set (dr_params api d)" and J: "filling api srt opts D og1 s1 i d (?L ys) s'"
    show "trip (enumerateTemplateParam api call (NodeRef i) q) s' (\<lambda>_. filling api srt opts D og1 s1 i d (?L (ys @ [q]))) ?E"
    proof (cases "dq_type q")
      case None
      then have "List.map_filter found_param (ys @ [q]) = List.map_filter found_param ys" by (simp add: map_filter_snoc found_param_def)
      then show ?thesis using J None by (simp add: enumerateTemplateParam_def trip_return)
    next
      case (Some pc)
      then obtain p const where pc: "dq_type q = Some (p, const)" by (cases pc) auto
      then have p: "p \<in> D" using ctx(1) d q by (fastforce simp: debug_info_def type_refs_def)
      show ?thesis
        unfolding enumerateTemplateParam_def pc option.case prod.case
      proof (rule filling_element [OF ctx J steady p])
        fix t s2 assume f: "filling api srt opts D og1 s1 i d (\<lambda>St c. ?L ys St c \<and> St p t) s2"
        have push: "trip (push_param (NodeRef i) pa) s3 (\<lambda>_. filling api srt opts D og1 s1 i d (?L (ys @ [q]))) ?E"
          if ob: "dq_object q = Some obj" and pa: "tp_type pa = t"
            and L3: "filling api srt opts D og1 s1 i d (\<lambda>St c. ?L ys St c \<and> param_ok api St (p, const, obj) pa) s3" for obj pa s3
          unfolding push_param_def
        proof (rule filling_upd [OF L3 _ _ _ steady])
          show "?L (ys @ [q]) St (c\<lparr>cl_templateParams := cl_templateParams c @ [pa]\<rparr>)"
            if "?L ys St c \<and> param_ok api St (p, const, obj) pa" for St c
            using that pc ob by (simp add: map_filter_snoc found_param_def list_all2_appendI)
          show "u \<in> set (refs (Class c)) \<or> (\<exists>e. St e u)" if "?L ys St c \<and> param_ok api St (p, const, obj) pa"
            "u \<in> set (refs (Class (c\<lparr>cl_templateParams := cl_templateParams c @ [pa]\<rparr>)))" for St c u
            using that by (auto simp: param_ok_def)
        qed (simp add: header_ok_def)
        show "trip (case dq_object q of None \<Rightarrow> returnP ()
            | Some None \<Rightarrow> push_param (NodeRef i) \<lparr>tp_type = t, tp_qualifiers = if const then {Const} else {}, tp_value = None\<rparr>
            | Some (Some obj) \<Rightarrow> bindP (liftP (param_value api t obj)) (\<lambda>value. push_param (NodeRef i)
                \<lparr>tp_type = t, tp_qualifiers = {}, tp_value = Some value\<rparr>)) s2
          (\<lambda>_. filling api srt opts D og1 s1 i d (?L (ys @ [q]))) ?E"
        proof (cases "dq_object q")
          case None
          then have "List.map_filter found_param (ys @ [q]) = List.map_filter found_param ys"
            using pc by (simp add: map_filter_snoc found_param_def)
          moreover have "filling api srt opts D og1 s1 i d (?L ys) s2" by (rule filling_mono [OF f]) simp
          ultimately show ?thesis using None by (simp add: trip_return)
        next
          case (Some ob)
          show ?thesis
          proof (cases ob)
            case None
            show ?thesis
              unfolding Some None option.case
              by (rule push [OF Some]) (simp, rule filling_mono [OF f], simp add: param_ok_def None)
          next
            case ob: (Some obj)
            have val: "param_value api t obj s2 = value_text api p obj"
              using f unfolding filling_def by (elim exE conjE) (rule param_value_eq)
            have mem: "(p, const, Some obj) \<in> set (found_params api d)"
              unfolding fps by (rule map_filter_mem [OF q]) (simp add: found_param_def pc Some ob)
            show ?thesis
              unfolding Some ob option.case
            proof (rule trip_bind)
              show "trip (liftP (param_value api t obj)) s2 (\<lambda>v s'. s' = s2 \<and> value_text api p obj = Inr v) ?E"
              proof (rule trip_lift)
                fix e assume "param_value api t obj s2 = Inl e"
                then have e: "value_text api p obj = Inl e" by (simp add: val)
                then have "\<not> readable api D" using mem d(1) by (fastforce simp: readable_def)
                then show "?E e s2" by (rule filling_thrown [OF f value_text_error [OF e]])
              qed (simp add: val)
              fix v s3 assume v: "s3 = s2 \<and> value_text api p obj = Inr v"
              show "trip (push_param (NodeRef i) \<lparr>tp_type = t, tp_qualifiers = {}, tp_value = Some v\<rparr>) s3
                  (\<lambda>_. filling api srt opts D og1 s1 i d (?L (ys @ [q]))) ?E"
                by (rule push [OF Some]) (simp, use v in \<open>auto intro!: filling_mono [OF f] simp: param_ok_def ob\<close>)
            qed
          qed
        qed
      qed
    qed
  qed
qed

text \<open>The loops over parents and members: every entry that is found is parsed and added.\<close>

lemma entries_spec:
  assumes ctx: "debug_info api D rk M" "call_ok api srt opts D rk M R call" "card (unseen_classes api D s1) * Suc M + M < R"
    and f: "\<And>x. x \<in> set xs \<Longrightarrow> f x = (case get x of None \<Rightarrow> returnP ()
      | Some (p, y) \<Rightarrow> bindP (call p) (\<lambda>t. upd_class (NodeRef i) (add y t)))"
    and get: "\<And>x p y. x \<in> set xs \<Longrightarrow> get x = Some (p, y) \<Longrightarrow> p \<in> D"
    and fill: "filling api srt opts D og1 s1 i d (L []) s" and steady: "\<And>qs. steady (L qs)"
    and add: "\<And>St c qs p y t. L qs St c \<Longrightarrow> St p t \<Longrightarrow> L (qs @ [(p, y)]) St (add y t c)"
      "\<And>y t c. cl_id (add y t c) = cl_id c \<and> (header_ok api d c \<longrightarrow> header_ok api d (add y t c)) \<and> cl_children (add y t c) = cl_children c"
      "\<And>u y t c. u \<in> set (refs (Class (add y t c))) \<Longrightarrow> u \<in> set (refs (Class c)) \<or> u = t"
  shows "trip (each f xs) s (\<lambda>_. filling api srt opts D og1 s1 i d (L (List.map_filter get xs)))
    (thrown api srt opts D {i} og1 s1 False)"
proof (rule trip_each [where J = "\<lambda>ys. filling api srt opts D og1 s1 i d (L (List.map_filter get ys))"])
  show "filling api srt opts D og1 s1 i d (L (List.map_filter get [])) s" using fill by (simp add: List.map_filter_simps)
  fix ys x s' assume x: "x \<in> set xs" and J: "filling api srt opts D og1 s1 i d (L (List.map_filter get ys)) s'"
  show "trip (f x) s' (\<lambda>_. filling api srt opts D og1 s1 i d (L (List.map_filter get (ys @ [x]))))
      (thrown api srt opts D {i} og1 s1 False)"
  proof (cases "get x")
    case None
    then show ?thesis using J by (simp add: f [OF x] map_filter_snoc trip_return)
  next
    case (Some py)
    obtain p y where py: "get x = Some (p, y)" using Some by (cases py) auto
    show ?thesis
      unfolding f [OF x] py option.case prod.case map_filter_snoc
    proof (rule filling_element [OF ctx J steady get [OF x py]])
      fix t s2 assume s2: "filling api srt opts D og1 s1 i d (\<lambda>St c. L (List.map_filter get ys) St c \<and> St p t) s2"
      show "trip (upd_class (NodeRef i) (add y t)) s2 (\<lambda>_. filling api srt opts D og1 s1 i d (L (List.map_filter get ys @ [(p, y)])))
          (thrown api srt opts D {i} og1 s1 False)"
      proof (rule filling_upd [OF s2 _ _ _ steady])
        show "u \<in> set (refs (Class c)) \<or> (\<exists>e. St e u)"
          if "L (List.map_filter get ys) St c \<and> St p t" "u \<in> set (refs (Class (add y t c)))" for St c u
          using add(3) [OF that(2)] that(1) by blast
      qed (use add(1,2) in blast)+
    qed
  qed
qed

text \<open>The functions are added without a call.\<close>

lemma functions_spec:
  assumes names: "\<forall>f. Some f \<in> set (dr_functions api d) \<longrightarrow> dr_tag api f \<noteq> None"
    and fill: "filling api srt opts D og1 s1 i d (\<lambda>St c. L St c \<and> cl_functions c = []) s"
    and L: "\<And>St c fs. L St c \<Longrightarrow> L St (c\<lparr>cl_functions := fs\<rparr>)" "steady L"
  shows "trip (enumerateClassFunctions api d (NodeRef i)) s
    (\<lambda>_. filling api srt opts D og1 s1 i d (\<lambda>St c. L St c \<and> cl_functions c = found_functions api d)) E"
proof -
  let ?get = "map_option (\<lambda>f. \<lparr>f_name = the (dr_tag api f), f_virtuality = dr_virtuality api f\<rparr>)"
  let ?L = "\<lambda>ys St c. L St c \<and> cl_functions c = List.map_filter ?get ys"
  have steady: "steady (?L ys)" for ys by (intro steady_intros L(2))
  show ?thesis
    unfolding enumerateClassFunctions_def found_functions_def
  proof (rule trip_each [where J = "\<lambda>ys. filling api srt opts D og1 s1 i d (?L ys)"])
    show "filling api srt opts D og1 s1 i d (?L []) s" using fill by (simp add: List.map_filter_simps)
    fix ys q s' assume q: "q \<in> set (dr_functions api d)" and J: "filling api srt opts D og1 s1 i d (?L ys) s'"
    show "trip (case q of None \<Rightarrow> returnP ()
      | Some f \<Rightarrow> (case dr_tag api f of None \<Rightarrow> liftP (\<lambda>s. Inl (Undefined ''string from a null pointer''))
        | Some name \<Rightarrow> upd_class (NodeRef i) (\<lambda>c. c\<lparr>cl_functions := cl_functions c @
             [\<lparr>f_name = name, f_virtuality = dr_virtuality api f\<rparr>]\<rparr>))) s'
      (\<lambda>_. filling api srt opts D og1 s1 i d (?L (ys @ [q]))) E"
    proof (cases q)
      case None
      then show ?thesis using J by (simp add: map_filter_snoc trip_return)
    next
      case (Some f)
      then obtain name where name: "dr_tag api f = Some name" using names q by auto
      show ?thesis
        unfolding Some name option.case
      proof (rule filling_upd [OF J _ _ _ steady])
        show "?L (ys @ [Some f]) St (c\<lparr>cl_functions := cl_functions c @ [\<lparr>f_name = name, f_virtuality = dr_virtuality api f\<rparr>]\<rparr>)"
          if "?L ys St c" for St c using that L(1) name by (simp add: map_filter_snoc)
      qed (simp_all add: header_ok_def)
    qed
  qed
qed

text \<open>The class as a whole.\<close>

lemma class_close:
  assumes start: "ext False {} og s og1 s1" "og1 = og(i \<mapsto> (d, False))" "i = length (nodes (dp_graph s))" "og i = None"
    and fill: "ext ready {i} og1 s1 og2 s'" and fin: "ready \<longrightarrow> b"
  shows "ext ready {} og s (og2(i \<mapsto> (d, b))) s'"
proof -
  have sub: "og2 j = Some e" if "og j = Some e" for j e
  proof -
    have "og1 j = Some e" using that start(2,4) by auto
    then show ?thesis using fill by (metis domI ext_def map_le_def)
  qed
  then have "og \<subseteq>\<^sub>m og2(i \<mapsto> (d, b))" using start(4) by (auto simp: map_le_def dom_def)
  moreover have "extends (dp_graph s) (dp_graph s')" using start(1) fill extends_trans by (auto simp: ext_def)
  moreover have "node_at (dp_graph s') j = node_at (dp_graph s) j" if "j < length (nodes (dp_graph s))" for j
  proof -
    have "j < length (nodes (dp_graph s1))" using start(1) that by (simp add: ext_def extends_def)
    then show ?thesis using start(1,3) fill that by (simp add: ext_def)
  qed
  moreover have "og j = Some (e, False)" if "ready" "(og2(i \<mapsto> (d, b))) j = Some (e, False)" for j e
  proof -
    have "j \<noteq> i" using that fin by auto
    then have "og2 j = Some (e, False)" using that by simp
    then have "og1 j = Some (e, False)" using fill that(1) by (auto simp: ext_def)
    then show ?thesis using start(2) \<open>j \<noteq> i\<close> by simp
  qed
  moreover have "same_kids (dp_graph s) (dp_graph s')"
    using start(1) fill same_kids_trans unfolding ext_def extends_def by blast
  ultimately show ?thesis using start(1) fill by (simp add: ext_def)
qed

lemma filling_done:
  assumes start: "ext False {} og s og1 s1" "og1 = og(i \<mapsto> (d, False))" "i = length (nodes (dp_graph s))" "og i = None"
    and fill: "filling api srt opts D og1 s1 i d (\<lambda>St c. lists_ok api srt St d c) s'"
  shows "returned api srt opts D og s d (NodeRef i) s'"
proof -
  obtain og2 c where f: "inv api srt opts D og2 s'" "ext (readable api D) {i} og1 s1 og2 s'" "og2 i = Some (d, False)"
    "node_at (dp_graph s') i = Class c" "header_ok api d c" "lists_ok api srt (stands api opts og2 (dp_graph s')) d c"
    using fill by (auto simp: filling_def)
  let ?og = "og2(i \<mapsto> (d, True))"
  have le: "og_le og2 ?og" using f(3) by (auto simp: og_le_def)
  have e: "extends (dp_graph s') (dp_graph s')" by simp
  have "node_ok api srt opts (stands api opts ?og (dp_graph s')) a b (node_at (dp_graph s') j) \<and> a \<in> D \<and> j < length (nodes (dp_graph s'))"
    if j: "?og j = Some (a, b)" for j a b
  proof (cases "j = i")
    case True
    then have ab: "a = d" "b = True" using j by simp_all
    have "is_class_kind (dr_kind api d)" using inv_node(3) [OF f(1,3)] f(4) by (simp add: node_ok_def)
    then have "node_ok api srt opts (stands api opts og2 (dp_graph s')) d True (Class c)" using f(5,6) by (simp add: node_ok_def)
    then show ?thesis using node_ok_le [OF _ le e] ab True f(4) inv_node(1,2) [OF f(1,3)] by simp
  next
    case False
    then have "og2 j = Some (a, b)" using j by simp
    from inv_node [OF f(1) this] show ?thesis using node_ok_le [OF _ le e] by simp
  qed
  moreover have "made api opts ?og a t" if "dp_types s' (Some a) = Some t" for a t
    using made_le [OF _ le] f(1) that by (simp add: inv_def)
  moreover have "dp_types s' (Some a) = Some (NodeRef j)" if "?og j = Some (a, b)" "is_class_kind (dr_kind api a)" for j a b
    using that f(1,3) unfolding inv_def by (metis fun_upd_apply option.inject prod.inject)
  ultimately have "inv api srt opts D ?og s'" using f(1) unfolding inv_def by blast
  moreover have "ext (readable api D) {} og s ?og s'" by (rule class_close [OF start f(2)]) simp
  moreover have "stands api opts ?og (dp_graph s') d (NodeRef i)" by (simp add: stands_def ex_bool_eq)
  ultimately show ?thesis unfolding returned_def by blast
qed

lemma filling_failed:
  assumes start: "ext False {} og s og1 s1" "og1 = og(i \<mapsto> (d, False))" "i = length (nodes (dp_graph s))" "og i = None"
    and fill: "thrown api srt opts D {i} og1 s1 False e s'"
  shows "thrown api srt opts D {} og s allowed e s'"
proof -
  obtain og2 where f: "e = DrgnParserError" "\<not> readable api D" "inv api srt opts D og2 s'" "ext (readable api D) {i} og1 s1 og2 s'"
    using fill by (auto simp: thrown_def)
  have "og2 i = Some (d, False)" using f(4) start(2) by (metis domI ext_def fun_upd_same map_le_def)
  then have "og2(i \<mapsto> (d, False)) = og2" by (simp add: fun_upd_idem)
  then have "ext (readable api D) {} og s og2 s'" using class_close [OF start f(4), of False] f(2) by simp
  then show ?thesis using f(1-3) unfolding thrown_def by blast
qed

lemma class_kind_Inr: "is_class_kind k \<Longrightarrow> \<exists>ck. class_kind_of k = Inr ck"
  by (auto simp: is_class_kind_def class_kind_of_def)

lemma class_refs:
  assumes "debug_info api D rk M" "d \<in> D" "is_class_kind (dr_kind api d)"
  shows "(Some p, off) \<in> set (dr_parents api d) \<Longrightarrow> p \<in> D"
    "q \<in> set (dr_members api d) \<Longrightarrow> dm_type q = Some (p, bits) \<Longrightarrow> p \<in> D"
proof -
  have "type_refs api d \<subseteq> D" using assms(1,2) by (simp add: debug_info_def)
  then show "(Some p, off) \<in> set (dr_parents api d) \<Longrightarrow> p \<in> D"
    "q \<in> set (dr_members api d) \<Longrightarrow> dm_type q = Some (p, bits) \<Longrightarrow> p \<in> D"
    using assms(3) unfolding type_refs_def by (simp_all, blast+)
qed

lemma class_lists_spec:
  assumes ctx: "debug_info api D rk M" "call_ok api srt opts D rk M R call" "card (unseen_classes api D s1) * Suc M + M < R"
    and d: "d \<in> D" "is_class_kind (dr_kind api d)"
    and fill: "filling api srt opts D og1 s1 i d (\<lambda>St c. cl_templateParams c = [] \<and> cl_parents c = [] \<and> cl_members c = [] \<and> cl_functions c = []) s"
    and srt: "sorts_ok srt"
  shows "trip (bindP (enumerateClassTemplateParams api call d (NodeRef i)) (\<lambda>_.
     bindP (enumerateClassParents api srt call d (NodeRef i)) (\<lambda>_.
     bindP (enumerateClassMembers api srt call d (NodeRef i)) (\<lambda>_.
     bindP (enumerateClassFunctions api d (NodeRef i)) (\<lambda>_. returnP (NodeRef i)))))) s
    (\<lambda>t s'. t = NodeRef i \<and> filling api srt opts D og1 s1 i d (\<lambda>St c. lists_ok api srt St d c) s')
    (thrown api srt opts D {i} og1 s1 False)"
proof -
  let ?E = "thrown api srt opts D {i} og1 s1 False"
  let ?P = "\<lambda>St c. list_all2 (param_ok api St) (found_params api d) (cl_templateParams c)"
  let ?Q = "\<lambda>qs St c. ?P St c \<and> list_all2 (parent_ok St) qs (cl_parents c) \<and> cl_members c = [] \<and> cl_functions c = []"
  let ?Q' = "\<lambda>St c. ?P St c \<and> (\<exists>ps. list_all2 (parent_ok St) (found_parents api d) ps \<and> cl_parents c = sort_parents srt ps)"
  let ?S = "\<lambda>qs St c. ?Q' St c \<and> list_all2 (member_ok St) qs (cl_members c) \<and> cl_functions c = []"
  let ?S' = "\<lambda>St c. ?Q' St c \<and> (\<exists>ms. list_all2 (member_ok St) (found_members api d) ms \<and> cl_members c = sort_members srt ms)"
  have mems: "set (sort_members srt ms) = set ms" "set (sort_parents srt ps) = set ps" for ms ps
    using srt by (metis mset_eq_setD sorts_ok_def)+
  have parents: "trip (enumerateClassParents api srt call d (NodeRef i)) s2
      (\<lambda>_. filling api srt opts D og1 s1 i d (\<lambda>St c. ?Q' St c \<and> cl_members c = [] \<and> cl_functions c = [])) ?E"
    if s2: "filling api srt opts D og1 s1 i d (\<lambda>St c. ?P St c \<and> cl_parents c = [] \<and> cl_members c = [] \<and> cl_functions c = []) s2" for s2
    unfolding enumerateClassParents_def
  proof (rule trip_bind [OF entries_spec [OF ctx, where L = ?Q and get = "\<lambda>(q, off). map_option (\<lambda>p. (p, off)) q"
      and add = "\<lambda>off t c. c\<lparr>cl_parents := cl_parents c @ [\<lparr>p_type = t, p_bitOffset = off\<rparr>]\<rparr>"]])
    show "filling api srt opts D og1 s1 i d (?Q []) s2" by (rule filling_mono [OF s2]) simp
    show "steady (?Q qs)" for qs by (intro steady_intros)
    show "p \<in> D" if "x \<in> set (dr_parents api d)" "(case x of (q, off) \<Rightarrow> map_option (\<lambda>p. (p, off)) q) = Some (p, y)" for x p y
      using class_refs(1) [OF ctx(1) d] that by (cases x) auto
    show "trip (upd_class (NodeRef i) (\<lambda>c. c\<lparr>cl_parents := sort_parents srt (cl_parents c)\<rparr>)) s3
        (\<lambda>_. filling api srt opts D og1 s1 i d (\<lambda>St c. ?Q' St c \<and> cl_members c = [] \<and> cl_functions c = [])) ?E"
      if s3: "filling api srt opts D og1 s1 i d (?Q (List.map_filter (\<lambda>(q, off). map_option (\<lambda>p. (p, off)) q) (dr_parents api d))) s3" for s3
    proof (rule filling_upd [OF s3])
      show "steady (\<lambda>St c. ?Q' St c \<and> cl_members c = [] \<and> cl_functions c = [])" by (intro steady_intros)
      show "?Q' St (c\<lparr>cl_parents := sort_parents srt (cl_parents c)\<rparr>) \<and>
          cl_members (c\<lparr>cl_parents := sort_parents srt (cl_parents c)\<rparr>) = [] \<and>
          cl_functions (c\<lparr>cl_parents := sort_parents srt (cl_parents c)\<rparr>) = []"
        if "?Q (List.map_filter (\<lambda>(q, off). map_option (\<lambda>p. (p, off)) q) (dr_parents api d)) St c" for St c
        using that unfolding found_parents_def by simp blast
    qed (simp_all add: header_ok_def mems)
  qed (auto simp: parent_ok_def header_ok_def split: option.splits intro!: list_all2_appendI)
  have members: "trip (enumerateClassMembers api srt call d (NodeRef i)) s2
      (\<lambda>_. filling api srt opts D og1 s1 i d (\<lambda>St c. ?S' St c \<and> cl_functions c = [])) ?E"
    if s2: "filling api srt opts D og1 s1 i d (\<lambda>St c. ?Q' St c \<and> cl_members c = [] \<and> cl_functions c = []) s2" for s2
    unfolding enumerateClassMembers_def
  proof (rule trip_bind [OF entries_spec [OF ctx, where L = ?S and get = "\<lambda>q. map_option (\<lambda>(m, bits).
     (m, case dm_name q of None \<Rightarrow> '''' | Some nm \<Rightarrow> nm, dm_bit_offset q, bits)) (dm_type q)"
      and add = "\<lambda>(name, off, bits) t c. c\<lparr>cl_members := cl_members c @ [mk_member t name off bits]\<rparr>"]])
    show "filling api srt opts D og1 s1 i d (?S []) s2" by (rule filling_mono [OF s2]) simp
    show "steady (?S qs)" for qs by (intro steady_intros)
    show "p \<in> D" if "x \<in> set (dr_members api d)" "map_option (\<lambda>(m, bits).
       (m, case dm_name x of None \<Rightarrow> '''' | Some nm \<Rightarrow> nm, dm_bit_offset x, bits)) (dm_type x) = Some (p, y)" for x p y
      using class_refs(2) [OF ctx(1) d that(1)] that(2) by auto
    show "trip (upd_class (NodeRef i) (\<lambda>c. c\<lparr>cl_members := sort_members srt (cl_members c)\<rparr>)) s3
        (\<lambda>_. filling api srt opts D og1 s1 i d (\<lambda>St c. ?S' St c \<and> cl_functions c = [])) ?E"
      if s3: "filling api srt opts D og1 s1 i d (?S (List.map_filter (\<lambda>q. map_option (\<lambda>(m, bits).
        (m, case dm_name q of None \<Rightarrow> '''' | Some nm \<Rightarrow> nm, dm_bit_offset q, bits)) (dm_type q)) (dr_members api d))) s3" for s3
    proof (rule filling_upd [OF s3])
      show "steady (\<lambda>St c. ?S' St c \<and> cl_functions c = [])" by (intro steady_intros)
      show "?S' St (c\<lparr>cl_members := sort_members srt (cl_members c)\<rparr>) \<and>
          cl_functions (c\<lparr>cl_members := sort_members srt (cl_members c)\<rparr>) = []"
        if "?S (List.map_filter (\<lambda>q. map_option (\<lambda>(m, bits). (m, case dm_name q of None \<Rightarrow> '''' | Some nm \<Rightarrow> nm,
          dm_bit_offset q, bits)) (dm_type q)) (dr_members api d)) St c" for St c
        using that unfolding found_members_def by simp blast
    qed (simp_all add: header_ok_def mems)
  qed (auto simp: member_ok_def mk_member_def header_ok_def Let_def split: option.splits prod.splits intro!: list_all2_appendI)
  have names: "\<forall>f. Some f \<in> set (dr_functions api d) \<longrightarrow> dr_tag api f \<noteq> None" using ctx(1) d(1) by (simp add: debug_info_def)
  show ?thesis
  proof (rule trip_bind [OF params_spec [OF ctx d fill]], rule trip_bind [OF parents], assumption,
      rule trip_bind [OF members], assumption, rule trip_bind [OF functions_spec [OF names]], assumption)
    show "?S' St c \<Longrightarrow> ?S' St (c\<lparr>cl_functions := fs\<rparr>)" for St c fs by simp
    show "steady ?S'" by (intro steady_intros)
    fix u s' assume s': "filling api srt opts D og1 s1 i d (\<lambda>St c. ?S' St c \<and> cl_functions c = found_functions api d) s'"
    have "filling api srt opts D og1 s1 i d (\<lambda>St c. lists_ok api srt St d c) s'"
      by (rule filling_mono [OF s']) (simp add: lists_ok_def)
    then show "trip (returnP (NodeRef i)) s' (\<lambda>t s'. t = NodeRef i \<and> filling api srt opts D og1 s1 i d (\<lambda>St c. lists_ok api srt St d c) s') ?E"
      by (simp add: trip_return)
  qed
qed

lemma enumerateClass_spec:
  assumes info: "debug_info api D rk M" and call: "call_ok api srt opts D rk M (dp_rank api D rk M d s) call"
    and inv: "inv api srt opts D og s" and d: "d \<in> D" "is_class_kind (dr_kind api d)" "dp_types s (Some d) = None"
    and srt: "sorts_ok srt"
  shows "trip (enumerateClass api srt call d) s (returned api srt opts D og s d)
    (thrown api srt opts D {} og s (isTypeIncomplete api d))"
proof (cases "dr_sizeof api d")
  case None
  then have "isTypeIncomplete api d" using d(2) by (auto simp: isTypeIncomplete_def isSizeComplete_def is_class_kind_def)
  then show ?thesis
    using None inv ext_refl by (fastforce simp: enumerateClass_def get_drgn_type_size_def trip_def bindP_def liftP_def thrown_def)
next
  case (Some sz)
  obtain ck where ck: "class_kind_of (dr_kind api d) = Inr ck" using class_kind_Inr [OF d(2)] by blast
  define mk where "mk = (\<lambda>nid. Class (mk_class ck (tag_or_empty api d) (class_fq_name api d) sz
    (if dr_has_virtuality api d then dr_virtuality api d else 0) nid))"
  let ?i = "length (nodes (dp_graph s))"
  let ?n = "mk (next_id (dp_graph s))"
  obtain t g' where tg: "make_type mk (dp_graph s) = (t, g')" by (cases "make_type mk (dp_graph s)")
  let ?s1 = "remember (Some d) t (s\<lparr>dp_graph := g'\<rparr>)"
  let ?og = "og(?i \<mapsto> (d, False))"
  have wf: "wf_graph (dp_graph s)" using inv by (simp add: inv_def)
  have g': "wf_graph g'" "t = NodeRef ?i" "nodes g' = nodes (dp_graph s) @ [?n]"
    using make_type_wf [OF wf tg] by (simp_all add: mk_def mk_class_def)
  have e: "extends (dp_graph s) g'" using make_type_extends [OF tg] by (simp add: mk_def mk_class_def)
  have fin: "finalTypes g' = finalTypes (dp_graph s)" using tg by (auto simp: make_type_def make_type_id_def)
  have head: "header_ok api d c \<and> cl_templateParams c = [] \<and> cl_parents c = [] \<and> cl_members c = [] \<and> cl_functions c = []"
    if "?n = Class c" for c using that ck Some by (auto simp: mk_def mk_class_def header_ok_def)
  have kids: "kids ?n = []" by (simp add: mk_def mk_class_def)
  have "node_ok api srt opts (stands api opts og (dp_graph s)) d False ?n"
    using head d(2) by (simp add: node_ok_def mk_def)
  note new = inv_new [OF inv d(1) g'(3,1) e fin this _ kids _ g'(2) refl refl, of False]
  have "node_at g' ?i = ?n" using g'(3) by (simp add: node_at_def)
  then have fill: "filling api srt opts D ?og ?s1 ?i d
      (\<lambda>St c. cl_templateParams c = [] \<and> cl_parents c = [] \<and> cl_members c = [] \<and> cl_functions c = []) ?s1"
    using new(1) d(3) ext_refl head unfolding filling_def
    by (intro exI [of _ ?og] exI [of _ "case ?n of Class c \<Rightarrow> c"]) (simp add: mk_def remember_def)
  have "unseen_classes api D ?s1 \<subseteq> unseen_classes api D s - {d}" by (auto simp: unseen_classes_def remember_def)
  moreover have "finite (unseen_classes api D s)" "d \<in> unseen_classes api D s"
    using info d by (simp_all add: debug_info_def unseen_classes_def)
  ultimately have "card (unseen_classes api D ?s1) < card (unseen_classes api D s)"
    by (meson Diff_subset card_mono card_Diff1_less finite_Diff le_less_trans)
  then have "Suc (card (unseen_classes api D ?s1)) * Suc M \<le> card (unseen_classes api D s) * Suc M"
    by (intro mult_le_mono1) simp
  then have R: "card (unseen_classes api D ?s1) * Suc M + M < dp_rank api D rk M d s" by (simp add: dp_rank_def)
  note start = new(2) [simplified, OF d(3) [THEN impI]] refl refl inv_fresh [OF inv]
  let ?m = "bindP (enumerateClassTemplateParams api call d (NodeRef ?i)) (\<lambda>_.
     bindP (enumerateClassParents api srt call d (NodeRef ?i)) (\<lambda>_.
     bindP (enumerateClassMembers api srt call d (NodeRef ?i)) (\<lambda>_.
     bindP (enumerateClassFunctions api d (NodeRef ?i)) (\<lambda>_. returnP (NodeRef ?i)))))"
  have run: "enumerateClass api srt call d s = ?m ?s1"
    using Some ck tg g'(2) by (simp add: enumerateClass_def get_drgn_type_size_def bindP_def [of "liftP f" for f]
      bindP_def [of "make_node k m" for k m] liftP_def make_node_def Let_def mk_def)
  have "trip ?m ?s1 (returned api srt opts D og s d) (thrown api srt opts D {} og s (isTypeIncomplete api d))"
  proof (rule trip_mono [OF class_lists_spec [OF info call R d(1,2) fill srt]])
    show "returned api srt opts D og s d t' s'"
      if "t' = NodeRef ?i \<and> filling api srt opts D ?og ?s1 ?i d (\<lambda>St c. lists_ok api srt St d c) s'" for t' s'
      using filling_done [OF start] that by blast
    show "thrown api srt opts D {} og s (isTypeIncomplete api d) e' s'" if "thrown api srt opts D {?i} ?og ?s1 False e' s'" for e' s'
      using filling_failed [OF start that] .
  qed
  then show ?thesis by (simp only: trip_def run)
qed

lemma thrown_allowed: "thrown api srt opts D {} og s False e s' \<Longrightarrow> thrown api srt opts D {} og s b e s'"
  by (auto simp: thrown_def)

text \<open>A node made after a call.\<close>

lemma made_returned:
  assumes inv: "inv api srt opts D og1 s1" "ext (readable api D) {} og s og1 s1" and d: "d \<in> D"
    and g': "nodes g' = nodes (dp_graph s1) @ [n]" "wf_graph g'" "extends (dp_graph s1) g'" "finalTypes g' = finalTypes (dp_graph s1)"
    and n: "node_ok api srt opts (stands api opts og1 (dp_graph s1)) d True n"
    and k: "kids n = []" "\<not> is_class_kind (dr_kind api d)"
    and t: "t = NodeRef (length (nodes (dp_graph s1)))"
  shows "returned api srt opts D og s d t (remember (Some d) t (s1\<lparr>dp_graph := g'\<rparr>))"
proof -
  note new = inv_new [OF inv(1) d g' n _ k(1) _ t refl refl, of "readable api D"]
  show ?thesis unfolding returned_def using new ext_trans [OF inv(2) new(2)] k(2) by blast
qed

lemma make_node_returned:
  assumes inv: "inv api srt opts D og1 s1" "ext (readable api D) {} og s og1 s1" and d: "d \<in> D"
    and n: "\<And>nid. node_ok api srt opts (stands api opts og1 (dp_graph s1)) d True (mk nid)"
    and mk: "\<And>nid. type_id (mk nid) = nid" "\<And>nid. has_node_id (mk nid)" "\<And>nid c. mk nid \<noteq> Class c"
      "\<And>nid u. u \<in> set (refs (mk nid)) \<Longrightarrow> \<exists>e. stands api opts og1 (dp_graph s1) e u"
  shows "trip (make_node (Some d) mk) s1 (returned api srt opts D og s d) E"
proof -
  obtain t g' where tg: "make_type mk (dp_graph s1) = (t, g')" by (cases "make_type mk (dp_graph s1)")
  have wf: "wf_graph (dp_graph s1)" using inv(1) by (simp add: inv_def)
  have r: "\<forall>u \<in> set (refs (mk (next_id (dp_graph s1)))). in_graph (dp_graph s1) u"
    using mk(4) inv_in_graph [OF inv(1)] by blast
  have g': "wf_graph g'" "t = NodeRef (length (nodes (dp_graph s1)))" "nodes g' = nodes (dp_graph s1) @ [mk (next_id (dp_graph s1))]"
    using make_type_wf [OF wf tg mk(1,2) r] mk(3) by simp_all
  have e: "extends (dp_graph s1) g'" by (rule make_type_extends [OF tg mk(1)])
  have fin: "finalTypes g' = finalTypes (dp_graph s1)" using tg by (auto simp: make_type_def make_type_id_def)
  have "kids (mk (next_id (dp_graph s1))) = []" "\<not> is_class_kind (dr_kind api d)"
    using mk(3) [of "next_id (dp_graph s1)"] n [of "next_id (dp_graph s1)"]
    by (cases "mk (next_id (dp_graph s1))"; simp add: node_ok_def is_class_kind_def)+
  from made_returned [OF inv d g'(3,1) e fin n this g'(2)] show ?thesis by (simp add: trip_def make_node_def tg)
qed

lemma make_prim_returned:
  assumes inv: "inv api srt opts D og s" and k: "prim_for api opts d k"
  shows "trip (make_prim (Some d) k) s (returned api srt opts D og s d) E"
proof -
  have "in_graph (dp_graph s) (PrimRef k)" using inv_in_graph [OF inv, of d "PrimRef k"] k by (simp add: stands_def)
  then obtain nm where "prim_name k = Inr nm" using prim_name_ok by fastforce
  then have "make_prim (Some d) k s = (Inr (PrimRef k), remember (Some d) (PrimRef k) s)"
    by (simp add: make_prim_def make_primitive_def)
  then show ?thesis using inv_prim [OF inv k refl] unfolding trip_def returned_def by auto
qed

section \<open>All kinds of types\<close>

lemma ptr_underlying_ends:
  assumes info: "debug_info api D rk M"
  shows "d \<in> D \<Longrightarrow> \<exists>u. getPtrUnderlyingType api d = Some u"
proof (induction "rk d" arbitrary: d rule: less_induct)
  case less
  show ?case
  proof (cases "dr_kind api d = DK_POINTER \<or> dr_kind api d = DK_TYPEDEF")
    case True
    then have "is_link_kind (dr_kind api d)" "\<not> is_class_kind (dr_kind api d)" by (auto simp: is_link_kind_def is_class_kind_def)
    then have "rk (dr_type api d) < rk d" "dr_type api d \<in> D"
      using info less.prems by (auto simp: debug_info_def type_refs_def)
    from less.hyps [OF this] True show ?thesis by (subst getPtrUnderlyingType.simps) simp
  qed (subst getPtrUnderlyingType.simps, simp)
qed

lemma link_call:
  assumes info: "debug_info api D rk M" and call: "call_ok api srt opts D rk M (dp_rank api D rk M d s) call"
    and inv: "inv api srt opts D og s" and d: "d \<in> D" "is_link_kind (dr_kind api d)"
    and rest: "\<And>t s' og'. inv api srt opts D og' s' \<Longrightarrow> ext (readable api D) {} og s og' s' \<Longrightarrow>
      stands api opts og' (dp_graph s') (dr_type api d) t \<Longrightarrow>
      trip (f t) s' (returned api srt opts D og s d) (thrown api srt opts D {} og s b)"
  shows "trip (bindP (call (dr_type api d)) f) s (returned api srt opts D og s d) (thrown api srt opts D {} og s b)"
proof (rule trip_bind [OF trip_mono])
  have "\<not> is_class_kind (dr_kind api d)" using d(2) by (auto simp: is_link_kind_def is_class_kind_def)
  then have "dr_type api d \<in> D" "rk (dr_type api d) < rk d" using info d by (auto simp: debug_info_def type_refs_def)
  then show "trip (call (dr_type api d)) s (returned api srt opts D og s (dr_type api d)) (thrown api srt opts D {} og s False)"
    using call inv by (simp add: call_ok_def dp_rank_def)
  show "thrown api srt opts D {} og s False e s' \<Longrightarrow> thrown api srt opts D {} og s b e s'" for e s' by (rule thrown_allowed)
  show "returned api srt opts D og s (dr_type api d) t s' \<Longrightarrow> returned api srt opts D og s (dr_type api d) t s'" for t s' .
  show "trip (f t) s' (returned api srt opts D og s d) (thrown api srt opts D {} og s b)"
    if "returned api srt opts D og s (dr_type api d) t s'" for t s' using that rest by (auto simp: returned_def)
qed

lemma thrown_here:
  "inv api srt opts D og s \<Longrightarrow> e = DrgnParserError \<Longrightarrow> (readable api D \<Longrightarrow> b) \<Longrightarrow> thrown api srt opts D {} og s b e s"
  unfolding thrown_def using ext_refl by blast

lemma enumerateEnum_spec:
  assumes inv: "inv api srt opts D og s" and d: "d \<in> D" "dr_kind api d = DK_ENUM"
  shows "trip (enumerateEnum api opts d) s (returned api srt opts D og s d) (thrown api srt opts D {} og s (isTypeIncomplete api d))"
proof (cases "getDrgnFullyQualifiedName api d")
  case (Inl e)
  then have e: "e = DrgnParserError" "dr_fq_name api d = None"
    by (auto simp: getDrgnFullyQualifiedName_def split: option.splits)
  then have "readable api D \<Longrightarrow> isTypeIncomplete api d" using d by (auto simp: readable_def)
  then have "thrown api srt opts D {} og s (isTypeIncomplete api d) e s" using inv e by (intro thrown_here)
  then show ?thesis using Inl by (simp add: enumerateEnum_def trip_def bindP_def liftP_def)
next
  case fq: (Inr fq)
  show ?thesis
  proof (cases "dr_sizeof api d")
    case None
    then have "isTypeIncomplete api d" using d(2) by (simp add: isTypeIncomplete_def isSizeComplete_def)
    then have "thrown api srt opts D {} og s (isTypeIncomplete api d) DrgnParserError s" using inv by (intro thrown_here) simp_all
    then show ?thesis using fq None by (simp add: enumerateEnum_def trip_def bindP_def liftP_def get_drgn_type_size_def)
  next
    case (Some sz)
    let ?n = "Enum \<lparr>en_name = tag_or_empty api d, en_inputName = fq, en_size = sz,
       en_enumerators = (if readEnumValues opts then enumerator_map (dr_enumerators api d) else [])\<rparr>"
    let ?g = "(dp_graph s)\<lparr>nodes := nodes (dp_graph s) @ [?n]\<rparr>"
    have wf: "wf_graph (dp_graph s)" using inv by (simp add: inv_def)
    have "wf_graph ?g" by (rule append_wf [OF wf _ _ _ refl]) simp_all
    moreover have "extends (dp_graph s) ?g" by (simp add: extends_def node_at_def nth_append)
    moreover have "node_ok api srt opts (stands api opts og (dp_graph s)) d True ?n" using d(2) fq Some by (simp add: node_ok_def)
    ultimately have "returned api srt opts D og s d (NodeRef (length (nodes (dp_graph s))))
        (remember (Some d) (NodeRef (length (nodes (dp_graph s)))) (s\<lparr>dp_graph := ?g\<rparr>))"
      using made_returned [OF inv ext_refl d(1)] d(2) by (simp add: is_class_kind_def)
    then show ?thesis
      using fq Some by (simp add: enumerateEnum_def trip_def bindP_def liftP_def get_drgn_type_size_def make_type_noid_def)
  qed
qed

lemma primitive_kind_error: "primitive_kind api d = Inl e \<Longrightarrow> e = DrgnParserError"
  by (auto simp: primitive_kind_def primitiveIntKind_def primitiveFloatKind_def get_drgn_type_size_def Let_def bindE_Inl_iff
    split: drgn_kind.splits option.splits if_splits)

lemma enumeratePrimitive_spec:
  assumes inv: "inv api srt opts D og s" and d: "d \<in> D" "dr_kind api d \<in> {DK_INT, DK_BOOL, DK_FLOAT, DK_VOID}"
  shows "trip (enumeratePrimitive api d) s (returned api srt opts D og s d) (thrown api srt opts D {} og s (isTypeIncomplete api d))"
proof (cases "primitive_kind api d")
  case (Inl e)
  then have "readable api D \<Longrightarrow> isTypeIncomplete api d" using d by (auto simp: readable_def primitive_kind_def)
  then have "thrown api srt opts D {} og s (isTypeIncomplete api d) e s"
    using inv primitive_kind_error [OF Inl] by (intro thrown_here)
  then show ?thesis using Inl by (simp add: enumeratePrimitive_def trip_def bindP_def liftP_def)
next
  case (Inr k)
  then have "prim_for api opts d k" using d(2) by (auto simp: prim_for_def)
  from make_prim_returned [OF inv this] Inr show ?thesis
    by (simp add: enumeratePrimitive_def trip_def bindP_def liftP_def)
qed

lemma enumeratePointer_spec:
  assumes info: "debug_info api D rk M" and call: "call_ok api srt opts D rk M (dp_rank api D rk M d s) call"
    and inv: "inv api srt opts D og s" and d: "d \<in> D" "dr_kind api d = DK_POINTER"
  shows "trip (enumeratePointer api opts call d) s (returned api srt opts D og s d) (thrown api srt opts D {} og s b)"
proof -
  obtain u where u: "getPtrUnderlyingType api d = Some u" using ptr_underlying_ends [OF info d(1)] by blast
  show ?thesis
  proof (cases "chasePointer opts s \<and> dr_kind api u \<noteq> DK_FUNCTION")
    case False
    then have "prim_for api opts d StubbedPointer" using d(2) u by (auto simp: prim_for_def chasePointer_def split: if_splits)
    from make_prim_returned [OF inv this] show ?thesis
      using False u by (auto simp: enumeratePointer_def trip_def)
  next
    case True
    let ?m = "bindP (call (dr_type api d)) (\<lambda>t. bindP (liftP (\<lambda>s. pointer_name (dp_graph s) t)) (\<lambda>nm.
            make_node (Some d) (\<lambda>nid. Pointer \<lparr>pt_id = nid, pt_pointee = t, pt_inputName = '''', pt_name = nm\<rparr>)))"
    have "trip ?m s (returned api srt opts D og s d) (thrown api srt opts D {} og s b)"
    proof (rule link_call [OF info call inv d(1)])
      show "is_link_kind (dr_kind api d)" by (simp add: d(2) is_link_kind_def)
      fix t s' og' assume r: "inv api srt opts D og' s'" "ext (readable api D) {} og s og' s'"
        "stands api opts og' (dp_graph s') (dr_type api d) t"
      have "wf_refs (dp_graph s')" using r(1) by (simp add: inv_def wf_graph_def)
      then obtain nm where nm: "pointer_name (dp_graph s') t = Inr (nm @ ''*'')"
        using type_name_ok inv_in_graph [OF r(1,3)] by (fastforce simp: pointer_name_def)
      show "trip (bindP (liftP (\<lambda>s. pointer_name (dp_graph s) t)) (\<lambda>nm.
            make_node (Some d) (\<lambda>nid. Pointer \<lparr>pt_id = nid, pt_pointee = t, pt_inputName = '''', pt_name = nm\<rparr>))) s'
          (returned api srt opts D og s d) (thrown api srt opts D {} og s b)"
      proof (rule trip_bind [where R = "\<lambda>x s''. s'' = s'", OF trip_lift])
        show "s' = s'" by simp
        show "pointer_name (dp_graph s') t = Inl e \<Longrightarrow> thrown api srt opts D {} og s b e s'" for e using nm by simp
        show "trip (make_node (Some d) (\<lambda>nid. Pointer \<lparr>pt_id = nid, pt_pointee = t, pt_inputName = '''', pt_name = x\<rparr>)) s''
            (returned api srt opts D og s d) (thrown api srt opts D {} og s b)" if "s'' = s'" for x s''
          unfolding that using r(3) d(2) by (intro make_node_returned [OF r(1,2) d(1)]) (auto simp: node_ok_def)
      qed
    qed
    then show ?thesis using True u by (simp add: enumeratePointer_def trip_def)
  qed
qed

lemma enumerateTypedef_spec:
  assumes info: "debug_info api D rk M" and call: "call_ok api srt opts D rk M (dp_rank api D rk M d s) call"
    and inv: "inv api srt opts D og s" and d: "d \<in> D" "dr_kind api d = DK_TYPEDEF"
  shows "trip (enumerateTypedef api call d) s (returned api srt opts D og s d) (thrown api srt opts D {} og s b)"
proof -
  obtain name where name: "dr_name api d = Some name" using info d by (auto simp: debug_info_def)
  show ?thesis
    unfolding enumerateTypedef_def name option.case
  proof (rule link_call [OF info call inv d(1)])
    show "is_link_kind (dr_kind api d)" by (simp add: d(2) is_link_kind_def)
    fix t s' og' assume r: "inv api srt opts D og' s'" "ext (readable api D) {} og s og' s'"
      "stands api opts og' (dp_graph s') (dr_type api d) t"
    show "trip (make_node (Some d) (\<lambda>nid. Typedef (mk_typedef name t nid))) s'
        (returned api srt opts D og s d) (thrown api srt opts D {} og s b)"
      using r(3) d(2) name by (intro make_node_returned [OF r(1,2) d(1)]) (auto simp: node_ok_def mk_typedef_def)
  qed
qed

lemma enumerateArray_spec:
  assumes info: "debug_info api D rk M" and call: "call_ok api srt opts D rk M (dp_rank api D rk M d s) call"
    and inv: "inv api srt opts D og s" and d: "d \<in> D" "dr_kind api d = DK_ARRAY"
  shows "trip (enumerateArray api call d) s (returned api srt opts D og s d) (thrown api srt opts D {} og s b)"
  unfolding enumerateArray_def
proof (rule link_call [OF info call inv d(1)])
  show "is_link_kind (dr_kind api d)" by (simp add: d(2) is_link_kind_def)
  fix t s' og' assume r: "inv api srt opts D og' s'" "ext (readable api D) {} og s og' s'"
    "stands api opts og' (dp_graph s') (dr_type api d) t"
  have wf: "wf_graph (dp_graph s')" using r(1) by (simp add: inv_def)
  obtain nm where nm: "array_name (dp_graph s') t (dr_length api d) = Inr nm"
    using type_name_ok [OF _ inv_in_graph [OF r(1,3)]] wf by (fastforce simp: array_name_def wf_graph_def)
  let ?mk = "\<lambda>nid. Array \<lparr>ar_id = nid, ar_elementType = t, ar_inputName = '''', ar_len = dr_length api d, ar_name = nm\<rparr>"
  have "trip (make_node (Some d) ?mk) s' (returned api srt opts D og s d) (thrown api srt opts D {} og s b)"
    using r(3) d(2) by (intro make_node_returned [OF r(1,2) d(1)]) (auto simp: node_ok_def)
  then show "trip (\<lambda>s. case make_array t (dr_length api d) (dp_graph s) of Inl e \<Rightarrow> (Inl e, s)
       | Inr (a, g) \<Rightarrow> (Inr a, remember (Some d) a (s\<lparr>dp_graph := g\<rparr>))) s'
     (returned api srt opts D og s d) (thrown api srt opts D {} og s b)"
    using nm by (cases "make_type ?mk (dp_graph s')") (simp add: trip_def make_node_def make_array_def)
qed

lemma enumerateKind_spec:
  assumes info: "debug_info api D rk M" and call: "call_ok api srt opts D rk M (dp_rank api D rk M d s) call"
    and inv: "inv api srt opts D og s" and d: "d \<in> D" "dp_types s (Some d) = None" and srt: "sorts_ok srt"
  shows "trip (enumerateKind api srt opts call d) s (returned api srt opts D og s d)
    (thrown api srt opts D {} og s (isTypeIncomplete api d))"
proof -
  have other: "trip (liftP (\<lambda>_. Inl DrgnParserError)) s (returned api srt opts D og s d)
      (thrown api srt opts D {} og s (isTypeIncomplete api d))" if k: "dr_kind api d \<in> {DK_FUNCTION, DK_OTHER}"
  proof -
    have "readable api D \<Longrightarrow> isTypeIncomplete api d" using d(1) k by (auto simp: readable_def)
    then show ?thesis using thrown_here [OF inv refl] by (simp add: trip_def liftP_def)
  qed
  show ?thesis
  proof (cases "is_class_kind (dr_kind api d)")
    case True
    then have "enumerateKind api srt opts call d = enumerateClass api srt call d"
      by (auto simp: enumerateKind_def is_class_kind_def)
    then show ?thesis using enumerateClass_spec [OF info call inv d(1) True d(2) srt] by simp
  next
    case False
    then show ?thesis
      using enumerateEnum_spec [OF inv d(1)] enumeratePrimitive_spec [OF inv d(1)] enumeratePointer_spec [OF info call inv d(1)]
        enumerateTypedef_spec [OF info call inv d(1)] enumerateArray_spec [OF info call inv d(1)] other
      by (cases "dr_kind api d") (simp_all add: enumerateKind_def is_class_kind_def)
  qed
qed

section \<open>The recursion\<close>

lemma change_depth_inv: "inv api srt opts D og (change_depth k s) = inv api srt opts D og s"
  by (simp add: inv_def change_depth_def)

lemma change_depth_ext:
  "ext ready X og (change_depth 1 s) og' s' = ext ready X og s og' (change_depth (- 1) s')"
  by (auto simp: ext_def change_depth_def)

lemma change_depth_rank: "dp_rank api D rk M d (change_depth k s) = dp_rank api D rk M d s"
  by (simp add: dp_rank_def unseen_classes_def change_depth_def)

lemma incomplete_returned:
  assumes inv: "inv api srt opts D og1 s1" "ext (readable api D) {} og s og1 s1" and d: "isTypeIncomplete api d"
    and x: "\<And>t. x = Inr t \<Longrightarrow> in_graph (dp_graph s1) t"
  shows "trip (make_node None (\<lambda>nid. Incomplete (mk_incomplete nid x))) s1 (returned api srt opts D og s d) E"
proof (rule trip_mono [OF inv_incomplete [OF inv(1) d x]])
  fix t s' assume r: "inv api srt opts D og1 s' \<and> ext (readable api D) {} og1 s1 og1 s' \<and> stands api opts og1 (dp_graph s') d t"
  then have "ext (readable api D) {} og s og1 s'" using ext_trans [OF inv(2), of "{}" og1 s'] by simp
  then show "returned api srt opts D og s d t s'" using r unfolding returned_def by blast
qed

lemma enumerate_new_spec:
  assumes info: "debug_info api D rk M" and call: "call_ok api srt opts D rk M (dp_rank api D rk M d s) call"
    and inv: "inv api srt opts D og s" and d: "d \<in> D" "dp_types s (Some d) = None" and srt: "sorts_ok srt"
  shows "trip (enumerate_new api srt opts call d) s (returned api srt opts D og s d) (thrown api srt opts D {} og s False)"
proof -
  let ?s = "change_depth 1 s"
  have call': "call_ok api srt opts D rk M (dp_rank api D rk M d ?s) call" using call by (simp add: change_depth_rank)
  have inv': "inv api srt opts D og ?s" using inv by (simp add: change_depth_inv)
  have d': "dp_types ?s (Some d) = None" using d(2) by (simp add: change_depth_def)
  note kind = enumerateKind_spec [OF info call' inv' d(1) d' srt, unfolded trip_def]
  obtain r s' where run: "enumerateKind api srt opts call d ?s = (r, s')" by (cases "enumerateKind api srt opts call d ?s")
  show ?thesis
  proof (cases r)
    case (Inl e)
    then obtain og' where e: "e = DrgnParserError" "readable api D \<longrightarrow> isTypeIncomplete api d"
      "inv api srt opts D og' (change_depth (- 1) s')" "ext (readable api D) {} og s og' (change_depth (- 1) s')"
      using kind run by (auto simp: thrown_def change_depth_inv change_depth_ext)
    show ?thesis
    proof (cases "isTypeIncomplete api d")
      case True
      have "trip (make_node None (\<lambda>nid. Incomplete (mk_incomplete nid (Inl (incomplete_type_name api d))))) (change_depth (- 1) s')
          (returned api srt opts D og s d) (thrown api srt opts D {} og s False)"
        by (rule incomplete_returned [OF e(3,4) True]) simp
      then show ?thesis using run Inl e(1) True by (simp add: trip_def enumerate_new_def)
    next
      case False
      then have "thrown api srt opts D {} og s False e (change_depth (- 1) s')" using e by (auto simp: thrown_def)
      then show ?thesis using run Inl e(1) False by (simp add: trip_def enumerate_new_def)
    qed
  next
    case (Inr t)
    then obtain og' where r: "inv api srt opts D og' (change_depth (- 1) s')" "ext (readable api D) {} og s og' (change_depth (- 1) s')"
      "stands api opts og' (dp_graph s') d t"
      using kind run by (auto simp: returned_def change_depth_inv change_depth_ext)
    have same: "dp_graph (change_depth (- 1) s') = dp_graph s'" by (simp add: change_depth_def)
    show ?thesis
    proof (cases "isTypeIncomplete api d")
      case True
      have "trip (make_node None (\<lambda>nid. Incomplete (mk_incomplete nid (Inr t)))) (change_depth (- 1) s')
          (returned api srt opts D og s d) (thrown api srt opts D {} og s False)"
        using inv_in_graph [OF r(1)] r(3) same by (intro incomplete_returned [OF r(1,2) True]) auto
      then show ?thesis using run Inr True by (simp add: trip_def enumerate_new_def)
    next
      case False
      have "returned api srt opts D og s d t (change_depth (- 1) s')" using r same by (auto simp: returned_def)
      then show ?thesis using run Inr False by (simp add: trip_def enumerate_new_def)
    qed
  qed
qed

lemma enumerateType_spec:
  assumes info: "debug_info api D rk M" and srt: "sorts_ok srt"
  shows "call_ok api srt opts D rk M n (enumerateType api srt opts n)"
proof (induction n)
  case (Suc n)
  show ?case
    unfolding call_ok_def
  proof (intro allI impI)
    fix d and s :: "'a parser" and og assume d: "d \<in> D" "inv api srt opts D og s" "dp_rank api D rk M d s < Suc n"
    show "trip (enumerateType api srt opts (Suc n) d) s (returned api srt opts D og s d) (thrown api srt opts D {} og s False)"
    proof (cases "dp_types s (Some d)")
      case None
      have "call_ok api srt opts D rk M (dp_rank api D rk M d s) (enumerateType api srt opts n)"
        using Suc.IH d(3) unfolding call_ok_def by (meson less_Suc_eq_le order_less_le_trans)
      from enumerate_new_spec [OF info this d(2,1) None srt] show ?thesis using None by (simp add: trip_def)
    next
      case (Some t)
      have "returned api srt opts D og s d t s"
        using inv_memo [OF d(2) Some] d(2) ext_refl unfolding returned_def by blast
      then show ?thesis using Some by (simp add: trip_def)
    qed
  qed
qed (simp add: call_ok_def)

lemma drgn_rank_bound:
  assumes "debug_info api D rk M" "d \<in> D"
  shows "dp_rank api D rk M d s \<le> card D * Suc M + M"
proof -
  have "card (unseen_classes api D s) \<le> card D" using assms(1) by (intro card_mono) (auto simp: unseen_classes_def debug_info_def)
  then have "card (unseen_classes api D s) * Suc M \<le> card D * Suc M" by (rule mult_le_mono1)
  moreover have "rk d \<le> M" using assms by (simp add: debug_info_def)
  ultimately show ?thesis by (simp add: dp_rank_def)
qed

text \<open>In readable debug information what stands for a type represents it.\<close>

lemma stands_represents:
  assumes inv: "inv api srt opts D og s" and fin: "\<And>i d. og i \<noteq> Some (d, False)"
    and st: "stands api opts og (dp_graph s) d u"
  shows "represents api srt opts (dp_graph s) d u"
  using st
proof (coinduction arbitrary: d u rule: represents.coinduct)
  case (represents d u)
  show ?case
  proof (cases u)
    case (PrimRef k)
    then show ?thesis using represents by (simp add: stands_def)
  next
    case (NodeRef i)
    show ?thesis
    proof (cases "\<exists>b. og i = Some (d, b)")
      case True
      then have b: "og i = Some (d, True)" using fin by (metis (full_types))
      note n = inv_node(2,3) [OF inv b]
      have "node_ok api srt opts (\<lambda>d u. stands api opts og (dp_graph s) d u \<or> represents api srt opts (dp_graph s) d u)
          d True (node_at (dp_graph s) i)"
        using node_ok_mono [of "stands api opts og (dp_graph s)" "\<lambda>d u. stands api opts og (dp_graph s) d u \<or>
          represents api srt opts (dp_graph s) d u" api srt opts d True] n(2) by simp
      then show ?thesis using NodeRef n(1) by auto
    next
      case False
      then have "isTypeIncomplete api d" "i < length (nodes (dp_graph s))" "ctor_of (node_at (dp_graph s) i) = 0"
        using represents NodeRef by (auto simp: stands_def)
      then show ?thesis using NodeRef by (auto simp: ctor_of_iff)
    qed
  qed
qed

text \<open>
  C3: the parser ends on debug information with finitely many types in which only classes are recursive: it
  returns a reference or throws its error, with every node the graph had as it was, a well-formed graph and its depth back at 0. Where every
  type that has a size can be read it returns, also for types without a size, and the reference it returns
  represents the type: the graph behind it says what the debug information says, members and parents in the order of their offsets.
\<close>

theorem drgnParser_represents:
  assumes "debug_info api D rk M" and "sorts_ok srt" and "wf_graph g" and "root \<in> D" and "card D * Suc M + M < fuel"
  shows "case drgn_parse api srt opts fuel root \<lparr>dp_types = Map.empty, dp_graph = g, dp_depth = depth\<rparr> of (r, s) \<Rightarrow>
    wf_graph (dp_graph s) \<and> extends g (dp_graph s) \<and> finalTypes (dp_graph s) = finalTypes g \<and> dp_depth s = 0 \<and>
    (\<forall>i < length (nodes g). node_at (dp_graph s) i = node_at g i) \<and>
    (case r of Inl e \<Rightarrow> e = DrgnParserError \<and> \<not> readable api D
      | Inr t \<Rightarrow> in_graph (dp_graph s) t \<and> (readable api D \<longrightarrow> represents api srt opts (dp_graph s) root t))"
proof -
  let ?s = "\<lparr>dp_types = Map.empty, dp_graph = g, dp_depth = 0\<rparr> :: 'a parser"
  have inv: "inv api srt opts D Map.empty ?s" using assms(3) by (simp add: inv_def)
  have "dp_rank api D rk M root ?s < fuel" using drgn_rank_bound [OF assms(1,4)] assms(5) order_le_less_trans by blast
  then have run: "trip (enumerateType api srt opts fuel root) ?s (returned api srt opts D Map.empty ?s root)
      (thrown api srt opts D {} Map.empty ?s False)"
    using enumerateType_spec [OF assms(1,2)] inv assms(4) by (auto simp: call_ok_def)
  have start: "drgn_parse api srt opts fuel root \<lparr>dp_types = Map.empty, dp_graph = g, dp_depth = depth\<rparr> =
      enumerateType api srt opts fuel root ?s" by (simp add: drgn_parse_def)
  obtain r s where rs: "enumerateType api srt opts fuel root ?s = (r, s)" by (cases "enumerateType api srt opts fuel root ?s")
  show ?thesis
  proof (cases r)
    case (Inl e)
    then obtain og where "e = DrgnParserError" "\<not> readable api D" "inv api srt opts D og s" "ext (readable api D) {} Map.empty ?s og s"
      using run rs by (auto simp: trip_def thrown_def)
    then show ?thesis unfolding start rs using Inl by (auto simp: inv_def ext_def)
  next
    case (Inr t)
    then obtain og where og: "inv api srt opts D og s" "ext (readable api D) {} Map.empty ?s og s" "stands api opts og (dp_graph s) root t"
      using run rs by (auto simp: trip_def returned_def)
    have "represents api srt opts (dp_graph s) root t" if "readable api D"
      using og(2) that by (intro stands_represents [OF og(1) _ og(3)]) (auto simp: ext_def)
    moreover have "in_graph (dp_graph s) t" by (rule inv_in_graph [OF og(1,3)])
    moreover have "wf_graph (dp_graph s)" using og(1) by (simp add: inv_def)
    moreover have "extends g (dp_graph s) \<and> finalTypes (dp_graph s) = finalTypes g \<and> dp_depth s = 0 \<and>
      (\<forall>i < length (nodes g). node_at (dp_graph s) i = node_at g i)" using og(2) by (simp add: ext_def)
    ultimately show ?thesis unfolding start rs using Inr by simp
  qed
qed

section \<open>Concrete debug information\<close>

text \<open>
  A list whose nodes (0) hold an integer (1), a pointer to a node (2) and, twice, a type (3) that stands for a
  class (4) that is only declared.
\<close>

definition info_example :: "nat drgn" where
  "info_example = \<lparr>
     dr_kind = (\<lambda>d. if d = 1 then DK_INT else if d = 2 then DK_POINTER else if d = 3 then DK_TYPEDEF else DK_STRUCT),
     dr_sizeof = (\<lambda>d. if d = 0 then Some 24 else if d = 1 then Some 4 else if d = 2 then Some 8 else None),
     dr_is_signed = (\<lambda>d. True),
     dr_name = (\<lambda>d. if d = 3 then Some ''Alias'' else None),
     dr_tag = (\<lambda>d. if d = 0 then Some ''Node'' else if d = 4 then Some ''Hidden'' else None),
     dr_fq_name = (\<lambda>d. Some (if d = 0 then Some ''ns::Node'' else None)),
     dr_has_virtuality = (\<lambda>d. False), dr_virtuality = (\<lambda>d. 0), dr_params = (\<lambda>d. []), dr_parents = (\<lambda>d. []),
     dr_members = (\<lambda>d. if d = 0 then
       [\<lparr>dm_type = Some (2, 0), dm_name = Some ''next'', dm_bit_offset = 64\<rparr>,
        \<lparr>dm_type = Some (1, 0), dm_name = Some ''x'', dm_bit_offset = 0\<rparr>,
        \<lparr>dm_type = Some (3, 0), dm_name = Some ''a'', dm_bit_offset = 128\<rparr>,
        \<lparr>dm_type = Some (3, 0), dm_name = Some ''b'', dm_bit_offset = 160\<rparr>] else []),
     dr_functions = (\<lambda>d. []), dr_enumerators = (\<lambda>d. []), dr_type = (\<lambda>d. if d = 2 then 0 else 4), dr_length = (\<lambda>d. 0),
     dr_ibuf_size = 8\<rparr>"

definition stable_sorts :: sorts where
  "stable_sorts = \<lparr>sort_members = sort_key m_bitOffset, sort_parents = sort_key p_bitOffset\<rparr>"

lemma stable_sorts_ok: "sorts_ok stable_sorts"
  by (simp add: sorts_ok_def stable_sorts_def)

lemma info_example_ok: "debug_info info_example {0, 1, 2, 3, 4} (\<lambda>d. if d = 2 \<or> d = 3 then 1 else 0) 1"
  by (auto simp: debug_info_def info_example_def is_link_kind_def type_refs_def is_class_kind_def)

lemma info_example_readable: "readable info_example {0, 1, 2, 3, 4}"
  by (simp add: readable_def info_example_def isTypeIncomplete_def isSizeComplete_def found_params_def List.map_filter_simps
      primitive_kind_def primitiveIntKind_def get_drgn_type_size_def)

theorem drgnParser_represents_witness:
  "\<exists>t s. drgn_parse info_example stable_sorts \<lparr>chaseRawPointers = True, readEnumValues = False\<rparr> 12 0
       \<lparr>dp_types = Map.empty, dp_graph = empty_graph, dp_depth = 0\<rparr> = (Inr t, s) \<and>
     represents info_example stable_sorts \<lparr>chaseRawPointers = True, readEnumValues = False\<rparr> (dp_graph s) 0 t"
proof -
  have "wf_graph empty_graph" by (rule wf_checkD) code_simp
  from drgnParser_represents [OF info_example_ok stable_sorts_ok this, of 0 12
      "\<lparr>chaseRawPointers = True, readEnumValues = False\<rparr>" 0]
  show ?thesis using info_example_readable by (auto split: prod.splits sum.splits)
qed

text \<open>
  A typedef without a size gives two different types when it is referred to twice: the first time an
  \<^verbatim>\<open>Incomplete\<close> around the typedef, then the typedef itself, which the map has by then.
\<close>

lemma drgnParser_incomplete_twice:
  assumes "dr_kind api d = DK_TYPEDEF" and "dr_name api d = Some nm" and "isTypeIncomplete api d" and "dp_types s (Some d) = None"
    and "enumerateType api srt opts n (dr_type api d) (change_depth 1 s) = (Inr u, s1)"
  shows "\<exists>t v s2. enumerateType api srt opts (Suc n) d s = (Inr (NodeRef t), s2) \<and> t \<noteq> v \<and>
    ctor_of (node_at (dp_graph s2) t) = 0 \<and> enumerateType api srt opts (Suc n) d s2 = (Inr (NodeRef v), s2) \<and>
    ctor_of (node_at (dp_graph s2) v) = 6"
  using assms by (simp add: enumerate_new_def enumerateKind_def enumerateTypedef_def bindP_def make_node_def remember_def
      make_type_def make_type_id_def change_depth_def node_at_def nth_append Let_def)

end
