(* ===== verification/Flattener.thy ===== *)
theory Flattener
  imports LocalPasses "HOL-Library.Multiset"
begin

text \<open>
  \<^verbatim>\<open>oi/type_graph/Flattener.cpp\<close>: the pass that removes the parents of the classes and puts their
  members, functions and children into the derived classes.
\<close>

section \<open>The pass\<close>

text \<open>\<^verbatim>\<open>TypeIdentifier::isAllocator\<close> of a class.\<close>

definition isAllocator :: "class_node \<Rightarrow> bool" where
  "isAllocator c = list_ex (\<lambda>f. f_name f = ''allocate'') (cl_functions c)"

fun shift_members :: "u64 \<Rightarrow> u64 \<Rightarrow> bool \<Rightarrow> member list \<Rightarrow> member list" where
  "shift_members offset align first [] = []"
| "shift_members offset align first (m # ms) =
     m\<lparr>m_bitOffset := m_bitOffset m + offset, m_align := (if first then max (m_align m) align else m_align m)\<rparr> #
     shift_members offset align False ms"

definition flattenParent :: "type_graph \<Rightarrow> parent \<Rightarrow> member list \<Rightarrow> member list outcome" where
  "flattenParent g p flattened = bindE (stripTypedefs g (p_type p)) (\<lambda>t. bindE (deref g t) (\<lambda>n. case n of
      Class c \<Rightarrow> Inr (flattened @ shift_members (p_bitOffset p) (cl_align c) True (cl_members c))
    | Container c \<Rightarrow> Inr (flattened @ [mk_member t ParentPrefix (p_bitOffset p) 0])
    | Incomplete i \<Rightarrow> Inr flattened
    | _ \<Rightarrow> Inl (Throw ''Invalid type for parent'')))"

fun flattenMembers :: "type_graph \<Rightarrow> member list \<Rightarrow> parent list \<Rightarrow> member list \<Rightarrow> member list outcome" where
  "flattenMembers g [] [] flattened = Inr flattened"
| "flattenMembers g (m # ms) [] flattened = flattenMembers g ms [] (flattened @ [m])"
| "flattenMembers g [] (p # ps) flattened = bindE (flattenParent g p flattened) (flattenMembers g [] ps)"
| "flattenMembers g (m # ms) (p # ps) flattened =
     (if m_bitOffset m < p_bitOffset p then flattenMembers g ms (p # ps) (flattened @ [m])
      else bindE (flattenParent g p flattened) (flattenMembers g (m # ms) ps))"

definition fixAllocatorParams :: "type_graph \<Rightarrow> class_node \<Rightarrow> class_node outcome" where
  "fixAllocatorParams g alloc =
     (if \<not> isAllocator alloc \<or> cl_templateParams alloc \<noteq> [] then Inr alloc
      else case cl_parents alloc of
        [] \<Rightarrow> Inr alloc
      | p # _ \<Rightarrow> bindE (stripTypedefs g (p_type p)) (\<lambda>t. bindE (deref g t) (\<lambda>n. case n of
          Class c \<Rightarrow>
            (case cl_templateParams c of
               [] \<Rightarrow> Inr alloc
             | q # _ \<Rightarrow> if tp_value q \<noteq> None then Inr alloc
                 else bindE (stripTypedefs g (tp_type q)) (\<lambda>u.
                   Inr (alloc\<lparr>cl_templateParams := cl_templateParams alloc @ [mk_param u]\<rparr>)))
        | _ \<Rightarrow> Inr alloc)))"

definition pullFunctions :: "tref \<Rightarrow> parent \<Rightarrow> node_tracker pass_state \<Rightarrow> node_tracker pass_state outcome" where
  "pullFunctions t p s = bindE (stripTypedefs (ps_graph s) (p_type p)) (\<lambda>u. bindE (get_ty u s) (\<lambda>n. case n of
      Class pc \<Rightarrow>
        if u = t \<and> cl_functions pc \<noteq> [] then Inl (Undefined ''insertion of a vector into itself'')
        else bindE (get_class t s) (\<lambda>c.
          Inr (put_ty t (Class (c\<lparr>cl_functions := cl_functions c @ cl_functions pc\<rparr>)) s))
    | _ \<Rightarrow> Inr s))"

text \<open>
  The last loop inserts into the vector it goes through. Inserting nothing leaves its iterators valid;
  otherwise the loop goes on with an iterator that is not valid any more.
\<close>

definition pullChildren :: "tref \<Rightarrow> node_tracker pass_state \<Rightarrow> node_tracker pass_state outcome" where
  "pullChildren child s = bindE (get_class child s) (\<lambda>c.
     if cl_children c = [] then Inr s else Inl (Undefined ''insertion into the vector of the loop''))"

text \<open>The part of a visit of a class between the loops that accept types.\<close>

definition flatten_class :: "tref \<Rightarrow> node_tracker pass_state \<Rightarrow> node_tracker pass_state outcome" where
  "flatten_class t s = bindE (get_class t s) (\<lambda>c. bindE (for_each (pullFunctions t) (cl_parents c) s) (\<lambda>s.
     bindE (get_class t s) (\<lambda>c.
     bindE (flattenMembers (ps_graph s) (cl_members c) (cl_parents c) []) (\<lambda>ms.
     bindE (fixAllocatorParams (ps_graph s) c) (\<lambda>c.
     Inr (put_ty t (Class (c\<lparr>cl_parents := [], cl_members := ms\<rparr>)) s))))))"

definition flattener_visit :: "node_tracker walker \<Rightarrow> node_tracker walker" where
  "flattener_visit accept t s = bindE (get_ty t s) (\<lambda>n. case n of
      Class c \<Rightarrow>
        bindE (for_each (\<lambda>p. accept (tp_type p)) (cl_templateParams c) s) (\<lambda>s.
        bindE (for_each (\<lambda>p. accept (p_type p)) (cl_parents c) s) (\<lambda>s.
        bindE (for_each (\<lambda>m. accept (m_type m)) (cl_members c) s) (\<lambda>s.
        bindE (flatten_class t s) (\<lambda>s.
        bindE (get_class t s) (\<lambda>c.
        bindE (for_each accept (cl_children c) s) (\<lambda>s.
        bindE (get_class t s) (\<lambda>c.
        for_each pullChildren (cl_children c) s)))))))
    | _ \<Rightarrow> recursive_visit accept n s)"

definition flattener_accept :: "node_tracker walker \<Rightarrow> node_tracker walker" where
  "flattener_accept = accept_with trk_visit flattener_visit"

definition flattener_pass :: pass_fn where
  "flattener_pass = tracker_pass flattener_accept"

section \<open>What the pass keeps\<close>

text \<open>
  Only classes change, and of a class only its parents, members, functions, to which others are appended, and its template
  parameters, where one is given to an allocator that has none. A class without parents does not change.
\<close>

definition class_kept :: "class_node \<Rightarrow> class_node \<Rightarrow> bool" where
  "class_kept c c' \<longleftrightarrow> cl_id c' = cl_id c \<and> cl_kind c' = cl_kind c \<and> cl_name c' = cl_name c \<and>
     cl_inputName c' = cl_inputName c \<and> cl_size c' = cl_size c \<and> cl_align c' = cl_align c \<and>
     cl_virtuality c' = cl_virtuality c \<and> cl_packed c' = cl_packed c \<and> cl_children c' = cl_children c \<and>
     prefix (cl_functions c) (cl_functions c') \<and>
     (cl_templateParams c' = cl_templateParams c \<or> cl_templateParams c = [] \<and> length (cl_templateParams c') = 1 \<and>
        list_ex (\<lambda>f. f_name f = ''allocate'') (cl_functions c')) \<and>
     (cl_parents c = [] \<longrightarrow> c' = c)"

lemma class_kept_refl [simp]: "class_kept c c"
  by (simp add: class_kept_def)

lemma prefix_list_ex: "prefix xs ys \<Longrightarrow> list_ex P xs \<Longrightarrow> list_ex P ys"
  by (auto simp: prefix_def)

lemma class_kept_trans:
  assumes "class_kept c c'" and "class_kept c' c''"
  shows "class_kept c c''"
proof (cases "cl_parents c = []")
  case True
  then have "c' = c" using assms(1) by (simp add: class_kept_def)
  then show ?thesis using assms(2) by simp
next
  case False
  have "prefix (cl_functions c) (cl_functions c')" "prefix (cl_functions c') (cl_functions c'')"
    using assms by (simp_all add: class_kept_def)
  then have "prefix (cl_functions c) (cl_functions c'')" by (rule prefix_order.trans)
  moreover have "cl_templateParams c'' = cl_templateParams c \<or> cl_templateParams c = [] \<and>
      length (cl_templateParams c'') = 1 \<and> list_ex (\<lambda>f. f_name f = ''allocate'') (cl_functions c'')"
  proof (cases "cl_templateParams c'' = cl_templateParams c'")
    case True
    then show ?thesis
      using assms(1) prefix_list_ex [OF \<open>prefix (cl_functions c') (cl_functions c'')\<close>] by (auto simp: class_kept_def)
  next
    case False
    then have "cl_templateParams c' = []" "length (cl_templateParams c'') = 1"
        "list_ex (\<lambda>f. f_name f = ''allocate'') (cl_functions c'')"
      using assms(2) by (auto simp: class_kept_def)
    then show ?thesis using assms(1) by (auto simp: class_kept_def)
  qed
  ultimately show ?thesis using assms False by (simp add: class_kept_def)
qed

lemma class_kept_same: "class_kept c c' \<Longrightarrow> cl_parents c = [] \<Longrightarrow> c' = c"
  by (simp add: class_kept_def)

definition flat_node :: "ty \<Rightarrow> ty \<Rightarrow> bool" where
  "flat_node n n' = (case n of Class c \<Rightarrow> \<exists>c'. n' = Class c' \<and> class_kept c c' | _ \<Rightarrow> n' = n)"

lemma flat_node_refl [simp]: "flat_node n n"
  by (cases n) (simp_all add: flat_node_def)

lemma flat_node_trans: "flat_node n n' \<Longrightarrow> flat_node n' n'' \<Longrightarrow> flat_node n n''"
  by (cases n) (auto simp: flat_node_def, erule (1) class_kept_trans)

lemma flat_node_keeps:
  "flat_node n n' \<Longrightarrow> ctor_of n' = ctor_of n" "flat_node n n' \<Longrightarrow> type_id n' = type_id n"
  "flat_node n n' \<Longrightarrow> typedef_nxt n' = typedef_nxt n"
  by (cases n; force simp: flat_node_def class_kept_def)+

definition flat_graph :: "type_graph \<Rightarrow> type_graph \<Rightarrow> bool" where
  "flat_graph g g' \<longleftrightarrow> length (nodes g') = length (nodes g) \<and> next_id g' = next_id g \<and>
     rootTypes g' = rootTypes g \<and> finalTypes g' = finalTypes g \<and>
     (\<forall>i < length (nodes g). flat_node (node_at g i) (node_at g' i))"

lemma flat_graph_refl [simp]: "flat_graph g g"
  by (simp add: flat_graph_def)

lemma flat_graph_trans: "flat_graph g g' \<Longrightarrow> flat_graph g' g'' \<Longrightarrow> flat_graph g g''"
  unfolding flat_graph_def using flat_node_trans by metis

lemma flat_graph_in_graph: "flat_graph g g' \<Longrightarrow> in_graph g' t = in_graph g t"
  by (cases t) (auto simp: flat_graph_def)

lemma flat_graph_extends: "flat_graph g g' \<Longrightarrow> extends g g'"
  using flat_node_keeps by (auto simp: flat_graph_def extends_def)

lemma flat_graph_put:
  assumes "deref g t = Inr n" and "flat_node n n'"
  shows "flat_graph g (put_node t n' g)"
proof (cases t)
  case (NodeRef i)
  note own = deref_owned [OF assms(1) [unfolded NodeRef]]
  have "flat_node (node_at g j) (node_at (put_node t n' g) j)" for j
    using own NodeRef assms(2) by (cases "i = j") simp_all
  then show ?thesis by (simp add: flat_graph_def)
qed simp

text \<open>What typedefs stand for does not change.\<close>

lemma flat_graph_strip:
  assumes "flat_graph g g'"
  shows "stripTypedefs g' t = stripTypedefs g t"
proof -
  have "recur stripTypedefs_body k t g' = recur stripTypedefs_body k t g" for k
  proof (induction k arbitrary: t)
    case (Suc k)
    show ?case
    proof (cases t)
      case (NodeRef i)
      show ?thesis
      proof (cases "i < length (nodes g)")
        case True
        then have "flat_node (node_at g i) (node_at g' i)" "i < length (nodes g')"
          using assms by (auto simp: flat_graph_def)
        then show ?thesis
          using True NodeRef Suc by (cases "node_at g i") (auto simp: stripTypedefs_body_def flat_node_def)
      next
        case False
        then show ?thesis using assms NodeRef by (simp add: stripTypedefs_body_def deref.simps flat_graph_def)
      qed
    qed (simp add: stripTypedefs_body_def)
  qed simp
  moreover have "chain_depth g' = chain_depth g" using assms by (simp add: chain_depth_def flat_graph_def)
  ultimately show ?thesis by (simp add: stripTypedefs_def)
qed

definition typedefs_end :: "type_graph \<Rightarrow> bool" where
  "typedefs_end g \<longleftrightarrow> (\<forall>t. in_graph g t \<longrightarrow> stripTypedefs g t \<noteq> Inl Diverge)"

lemma strip_upto:
  assumes "wf_refs g"
  shows "in_graph g t \<Longrightarrow> recur stripTypedefs_body k t g \<noteq> Inl Diverge \<Longrightarrow>
    \<exists>u. recur stripTypedefs_body k t g = Inr u \<and> in_graph g u"
proof (induction k arbitrary: t)
  case (Suc k)
  show ?case
  proof (cases t)
    case (NodeRef i)
    then have i: "i < length (nodes g)" using Suc.prems(1) by simp
    have "in_graph g u" if "u \<in> set (refs (node_at g i))" for u using wf_refsD [OF assms i that] .
    then show ?thesis
      using Suc NodeRef i by (cases "node_at g i") (auto simp: stripTypedefs_body_def)
  qed (use Suc.prems in \<open>simp add: stripTypedefs_body_def\<close>)
qed simp

lemma strip_ok:
  assumes "wf_refs g" and "typedefs_end g" and "flat_graph g g'" and "in_graph g t"
  obtains u n where "stripTypedefs g' t = Inr u" "in_graph g u" "in_graph g' u" "deref g' u = Inr n"
proof -
  obtain u where u: "stripTypedefs g t = Inr u" "in_graph g u"
    using strip_upto [OF assms(1,4)] assms(2,4) unfolding stripTypedefs_def typedefs_end_def by blast
  moreover have "in_graph g' u" using u(2) flat_graph_in_graph assms(3) by blast
  moreover obtain n where "deref g' u = Inr n" using calculation(3) deref_in_graph by blast
  ultimately show ?thesis using that flat_graph_strip [OF assms(3)] by metis
qed

section \<open>One class\<close>

definition flat_errors :: "error set" where
  "flat_errors = {Throw ''Invalid type for parent'', Undefined ''insertion of a vector into itself'',
     Undefined ''insertion into the vector of the loop''}"

text \<open>The class a reference stands for has no parents left.\<close>

definition flat_ref :: "type_graph \<Rightarrow> tref \<Rightarrow> bool" where
  "flat_ref g t \<longleftrightarrow> (\<forall>u c. stripTypedefs g t = Inr u \<and> deref g u = Inr (Class c) \<longrightarrow> cl_parents c = [])"

lemma flat_node_class: "flat_node n (Class c) \<Longrightarrow> \<exists>c0. n = Class c0"
  by (cases n) (auto simp: flat_node_def)

lemma flat_deref:
  assumes "flat_graph g g'" and "deref g u = Inr n"
  obtains n' where "deref g' u = Inr n'" "flat_node n n'"
proof (cases u)
  case (NodeRef i)
  note own = deref_owned [OF assms(2) [unfolded NodeRef]]
  have "i < length (nodes g')" "flat_node n (node_at g' i)" using own assms(1) by (auto simp: flat_graph_def)
  then show ?thesis using that [of "node_at g' i"] NodeRef by simp
qed (use assms that in simp)

lemma flat_deref_back:
  assumes "flat_graph g g'" and "deref g' u = Inr n'"
  obtains n where "deref g u = Inr n" "flat_node n n'"
proof (cases u)
  case (NodeRef i)
  note own = deref_owned [OF assms(2) [unfolded NodeRef]]
  have "i < length (nodes g)" "flat_node (node_at g i) n'" using own assms(1) by (auto simp: flat_graph_def)
  then show ?thesis using that [of "node_at g i"] NodeRef by simp
qed (use assms that in simp)

lemma flat_ref_stable:
  assumes "flat_ref g t" and "flat_graph g g'"
  shows "flat_ref g' t"
  unfolding flat_ref_def
proof (intro allI impI, elim conjE)
  fix u c assume u: "stripTypedefs g' t = Inr u" "deref g' u = Inr (Class c)"
  obtain n where n: "deref g u = Inr n" "flat_node n (Class c)" using flat_deref_back [OF assms(2) u(2)] .
  then obtain c0 where c0: "n = Class c0" using flat_node_class by blast
  then have "cl_parents c0 = []"
    using assms(1) u(1) n(1) flat_graph_strip [OF assms(2)] by (simp add: flat_ref_def)
  then show "cl_parents c = []" using n(2) c0 class_kept_same by (auto simp: flat_node_def)
qed

lemma no_parents: "flattenMembers g ms [] acc = Inr (acc @ ms)"
  by (induction ms arbitrary: acc) simp_all

text \<open>
  What a parent gives to a class: its functions, its members shifted to where it is, the first with the alignment of the parent
  at least, and its first template parameter, which an allocator without one takes.
\<close>

definition parent_type :: "type_graph \<Rightarrow> parent \<Rightarrow> (tref \<times> ty) option" where
  "parent_type g p = (case stripTypedefs g (p_type p) of Inl e \<Rightarrow> None
     | Inr u \<Rightarrow> (case deref g u of Inl e \<Rightarrow> None | Inr n \<Rightarrow> Some (u, n)))"

definition parent_functions :: "type_graph \<Rightarrow> parent \<Rightarrow> member_function list" where
  "parent_functions g p = (case parent_type g p of Some (u, Class c) \<Rightarrow> cl_functions c | _ \<Rightarrow> [])"

definition parent_members :: "type_graph \<Rightarrow> parent \<Rightarrow> member list" where
  "parent_members g p = (case parent_type g p of
      Some (u, Class c) \<Rightarrow> map (\<lambda>(i, m). m\<lparr>m_bitOffset := m_bitOffset m + p_bitOffset p,
        m_align := (if i = 0 then max (m_align m) (cl_align c) else m_align m)\<rparr>) (List.enumerate 0 (cl_members c))
    | Some (u, Container c) \<Rightarrow> [mk_member u ParentPrefix (p_bitOffset p) 0]
    | _ \<Rightarrow> [])"

definition parent_params :: "type_graph \<Rightarrow> parent \<Rightarrow> template_param list" where
  "parent_params g p = (case parent_type g p of
      Some (u, Class c) \<Rightarrow> (case cl_templateParams c of [] \<Rightarrow> [] | q # qs \<Rightarrow>
        if tp_value q \<noteq> None then [] else (case stripTypedefs g (tp_type q) of Inr v \<Rightarrow> [mk_param v] | Inl e \<Rightarrow> []))
    | _ \<Rightarrow> [])"

type_synonym gift = "member_function list \<times> member list \<times> template_param list"

definition gift :: "type_graph \<Rightarrow> parent \<Rightarrow> gift" where
  "gift g p = (parent_functions g p, parent_members g p, parent_params g p)"

lemma gift_stable:
  assumes ref: "flat_ref g (p_type p)" and fg: "flat_graph g g'"
  shows "gift g' p = gift g p"
proof -
  have "parent_type g' p = parent_type g p"
  proof (cases "stripTypedefs g (p_type p)")
    case (Inr u)
    have s': "stripTypedefs g' (p_type p) = Inr u" using flat_graph_strip [OF fg] Inr by simp
    show ?thesis
    proof (cases "deref g u")
      case (Inl e)
      then have "deref g' u = Inl e"
        using fg by (cases u) (auto simp: deref.simps flat_graph_def split: if_splits)
      then show ?thesis using Inl s' Inr by (simp add: parent_type_def)
    next
      case n: (Inr n)
      obtain n' where n': "deref g' u = Inr n'" "flat_node n n'" using flat_deref [OF fg n] .
      have "n' = n"
      proof (cases n)
        case (Class c)
        then have "cl_parents c = []" using ref Inr n by (simp add: flat_ref_def)
        then show ?thesis using n'(2) Class class_kept_same by (auto simp: flat_node_def)
      qed (use n' in \<open>simp_all add: flat_node_def\<close>)
      then show ?thesis using n n' s' Inr by (simp add: parent_type_def)
    qed
  qed (simp add: parent_type_def flat_graph_strip [OF fg])
  moreover have "stripTypedefs g' = stripTypedefs g" using flat_graph_strip [OF fg] by blast
  ultimately show ?thesis by (simp only: gift_def parent_functions_def parent_members_def parent_params_def)
qed

text \<open>Every class is as it was or done.\<close>

definition settled :: "type_graph \<Rightarrow> type_graph \<Rightarrow> bool" where
  "settled g0 g \<longleftrightarrow> (\<forall>i < length (nodes g0). node_at g i = node_at g0 i \<or> (\<exists>c. node_at g i = Class c \<and> cl_parents c = []))"

lemma gift_settled:
  assumes fg: "flat_graph g0 g" and "settled g0 g" and "\<not> flat_ref g (p_type p)"
  shows "gift g p = gift g0 p"
proof -
  obtain u c where u: "stripTypedefs g (p_type p) = Inr u" "deref g u = Inr (Class c)" "cl_parents c \<noteq> []"
    using assms(3) by (auto simp: flat_ref_def)
  obtain i where i: "u = NodeRef i" "i < length (nodes g)" "node_at g i = Class c"
    using deref_owner [OF u(2)] by (metis ctor_of.simps(2) numeral_One numeral_eq_iff semiring_norm(86))
  then have "node_at g0 i = Class c" "i < length (nodes g0)"
    using assms(1,2) u(3) by (auto simp: settled_def flat_graph_def)
  then have "parent_type g p = Some (u, Class c)" "parent_type g0 p = Some (u, Class c)"
    using u flat_graph_strip [OF fg, of "p_type p"] i by (simp_all add: parent_type_def)
  moreover have "stripTypedefs g = stripTypedefs g0" using flat_graph_strip [OF fg] by blast
  ultimately show ?thesis by (simp only: gift_def parent_functions_def parent_members_def parent_params_def)
qed

text \<open>
  The members of a class and the blocks its parents give are merged: nothing is lost and nothing comes twice, both keep their
  order, and when both are in the order of their offsets, the result is the stable sorting by offset, a block before a member
  that starts where it does.
\<close>

definition merged :: "u64 list \<Rightarrow> member list \<Rightarrow> member list list \<Rightarrow> member list \<Rightarrow> bool" where
  "merged offs ms blocks out \<longleftrightarrow> mset out = mset ms + (\<Sum>b\<leftarrow>blocks. mset b) \<and> subseq ms out \<and> subseq (concat blocks) out \<and>
     (sorted offs \<and> sorted (map m_bitOffset ms) \<longrightarrow>
        out = concat (map snd (sort_key fst (zip offs blocks @ map (\<lambda>m. (m_bitOffset m, [m])) ms))))"

lemma sort_key_least:
  assumes "\<forall>x \<in> set xs. f m < f x" and "\<forall>y \<in> set ys. f m \<le> f y"
  shows "sort_key f (xs @ m # ys) = m # sort_key f (xs @ ys)"
  using assms
proof (induction xs)
  case Nil
  then show ?case by (simp add: insort_is_Cons)
next
  case (Cons x xs)
  then have "\<not> f x \<le> f m" by auto
  then show ?case using Cons by simp
qed

lemma merged_own:
  assumes "merged (p # offs) ms (b # blocks) out" and "m_bitOffset m < p"
  shows "merged (p # offs) (m # ms) (b # blocks) (m # out)"
proof -
  let ?own = "\<lambda>m. (m_bitOffset m, [m])"
  have "sort_key fst (zip (p # offs) (b # blocks) @ ?own m # map ?own ms) =
      ?own m # sort_key fst (zip (p # offs) (b # blocks) @ map ?own ms)"
    if "sorted (p # offs)" "sorted (map m_bitOffset (m # ms))"
  proof (rule sort_key_least)
    show "\<forall>x \<in> set (zip (p # offs) (b # blocks)). fst (?own m) < fst x"
      using that assms(2) by (fastforce dest: set_zip_leftD)
  qed (use that in auto)
  then show ?thesis
    using assms(1) subseq_Cons' by (auto simp: merged_def simp del: sort_key_simps)
qed

lemma merged_parent:
  assumes "merged offs ms blocks out" and "\<forall>m ms'. ms = m # ms' \<longrightarrow> \<not> m_bitOffset m < p"
  shows "merged (p # offs) ms (b # blocks) (b @ out)"
proof -
  let ?own = "\<lambda>m. (m_bitOffset m, [m])"
  have "sort_key fst ([] @ (p, b) # (zip offs blocks @ map ?own ms)) = (p, b) # sort_key fst ([] @ zip offs blocks @ map ?own ms)"
    if "sorted (p # offs)" "sorted (map m_bitOffset ms)"
  proof (rule sort_key_least)
    have "\<forall>m \<in> set ms. p \<le> m_bitOffset m"
      using that(2) assms(2) by (cases ms) (auto intro: order_trans)
    then show "\<forall>y \<in> set (zip offs blocks @ map ?own ms). fst (p, b) \<le> fst y"
      using that by (auto dest: set_zip_leftD)
  qed simp
  then show ?thesis
    using assms(1) list_emb_append2 by (auto simp: merged_def list_emb_append_mono simp del: sort_key_simps)
qed

lemma merged_rest: "merged [] ms [] ms"
proof -
  have "sort_key fst (map (\<lambda>m. (m_bitOffset m, [m])) ms) = map (\<lambda>m. (m_bitOffset m, [m])) ms"
    if "sorted (map m_bitOffset ms)"
    using that by (intro sort_key_id_if_sorted) (simp add: comp_def)
  then show ?thesis by (simp add: merged_def comp_def)
qed

lemma shift_members_rest:
  "k > 0 \<Longrightarrow> shift_members off al False ms = map (\<lambda>(i, m). m\<lparr>m_bitOffset := m_bitOffset m + off,
     m_align := (if i = (0 :: nat) then max (m_align m) al else m_align m)\<rparr>) (List.enumerate k ms)"
proof (induction ms arbitrary: k)
  case (Cons m ms)
  then show ?case by (simp add: Cons.IH [of "Suc k"])
qed simp

lemma shift_members_map:
  "shift_members off al True ms = map (\<lambda>(i, m). m\<lparr>m_bitOffset := m_bitOffset m + off,
     m_align := (if i = (0 :: nat) then max (m_align m) al else m_align m)\<rparr>) (List.enumerate 0 ms)"
  by (cases ms) (simp_all add: shift_members_rest [of "Suc 0"])

lemma flattenParent_members: "flattenParent g p acc = Inr ms \<Longrightarrow> ms = acc @ parent_members g p"
  by (auto simp: flattenParent_def parent_members_def parent_type_def shift_members_map bindE_def split: sum.splits ty.splits)

lemma flattenMembers_merged:
  "flattenMembers g ms ps acc = Inr out \<Longrightarrow>
    \<exists>rest. out = acc @ rest \<and> merged (map p_bitOffset ps) ms (map (parent_members g) ps) rest"
proof (induction g ms ps acc rule: flattenMembers.induct)
  case (1 g acc)
  then show ?case using merged_rest [of "[]"] by simp
next
  case (2 g m ms acc)
  then have "out = acc @ (m # ms)" using no_parents [of g "m # ms" acc] by simp
  then show ?case using merged_rest [of "m # ms"] by simp
next
  case (3 g p ps acc)
  then obtain fs where fs: "flattenParent g p acc = Inr fs" by (cases "flattenParent g p acc") auto
  then obtain rest where rest: "out = fs @ rest" "merged (map p_bitOffset ps) [] (map (parent_members g) ps) rest"
    using 3 by auto
  then show ?case
    using merged_parent [OF rest(2)] flattenParent_members [OF fs] by (intro exI [of _ "parent_members g p @ rest"]) simp
next
  case (4 g m ms p ps acc)
  show ?case
  proof (cases "m_bitOffset m < p_bitOffset p")
    case True
    then obtain rest where rest: "out = (acc @ [m]) @ rest"
        "merged (map p_bitOffset (p # ps)) ms (map (parent_members g) (p # ps)) rest"
      using 4(1) [OF True] 4(3) by auto
    then show ?thesis using merged_own [OF _ True] by (intro exI [of _ "m # rest"]) simp
  next
    case False
    then obtain fs where fs: "flattenParent g p acc = Inr fs" using 4(3) by (cases "flattenParent g p acc") auto
    then obtain rest where rest: "out = fs @ rest" "merged (map p_bitOffset ps) (m # ms) (map (parent_members g) ps) rest"
      using 4(2) [OF False] 4(3) False by auto
    then show ?thesis
      using merged_parent [OF rest(2)] False flattenParent_members [OF fs]
      by (intro exI [of _ "parent_members g p @ rest"]) simp
  qed
qed

lemma shift_types: "set (map m_type (shift_members off al first ms)) = set (map m_type ms)"
  by (induction ms arbitrary: first) auto

lemma flattenParent_types:
  assumes wf: "wf_refs g" "typedefs_end g" "flat_graph g g'" "wf_refs g'"
    and p: "in_graph g (p_type p)" and acc: "\<forall>m \<in> set acc. in_graph g (m_type m)"
  shows "spec flat_errors (flattenParent g' p acc) (\<lambda>ms. \<forall>m \<in> set ms. in_graph g (m_type m))"
proof -
  obtain u n where u: "stripTypedefs g' (p_type p) = Inr u" "in_graph g u" "deref g' u = Inr n"
    using strip_ok [OF wf(1-3) p] .
  show ?thesis
  proof (cases n)
    case (Class c)
    obtain i where i: "i < length (nodes g')" "node_at g' i = Class c"
      using deref_owner [OF u(3)] Class by (metis ctor_of.simps(2) numeral_One numeral_eq_iff semiring_norm(86))
    have "in_graph g (m_type m)" if m: "m \<in> set (shift_members off al True (cl_members c))" for m off al
    proof -
      have "m_type m \<in> set (map m_type (cl_members c))" using shift_types m by (metis image_eqI set_map)
      then have "in_graph g' (m_type m)" using wf_refsD [OF wf(4) i(1)] i(2) by auto
      then show ?thesis using flat_graph_in_graph [OF wf(3)] by simp
    qed
    then show ?thesis using u Class acc by (auto simp: flattenParent_def)
  qed (use u acc in \<open>auto simp: flattenParent_def flat_errors_def mk_member_def\<close>)
qed

lemma flattenMembers_types:
  assumes "wf_refs g" "typedefs_end g" "flat_graph g g'" "wf_refs g'"
    and "\<forall>p \<in> set ps. in_graph g (p_type p)" "\<forall>m \<in> set ms. in_graph g (m_type m)"
    and "\<forall>m \<in> set acc. in_graph g (m_type m)"
  shows "spec flat_errors (flattenMembers g' ms ps acc) (\<lambda>ms. \<forall>m \<in> set ms. in_graph g (m_type m))"
  using assms
proof (induction g' ms ps acc rule: flattenMembers.induct)
  case (3 g' p ps acc)
  have "spec flat_errors (flattenParent g' p acc) (\<lambda>ms. \<forall>m \<in> set ms. in_graph g (m_type m))"
    using 3(2-) by (intro flattenParent_types) auto
  then show ?case using 3 by (cases "flattenParent g' p acc") simp_all
next
  case (4 g' m ms p ps acc)
  have "spec flat_errors (flattenParent g' p acc) (\<lambda>ms. \<forall>m \<in> set ms. in_graph g (m_type m))"
    using 4(3-) by (intro flattenParent_types) auto
  then have "spec flat_errors (bindE (flattenParent g' p acc) (flattenMembers g' (m # ms) ps))
      (\<lambda>ms. \<forall>m \<in> set ms. in_graph g (m_type m))" if "\<not> m_bitOffset m < p_bitOffset p"
    using 4(2) [OF that] 4(3-) by (cases "flattenParent g' p acc") simp_all
  moreover have "spec flat_errors (flattenMembers g' ms (p # ps) (acc @ [m]))
      (\<lambda>ms. \<forall>m \<in> set ms. in_graph g (m_type m))" if "m_bitOffset m < p_bitOffset p"
    by (rule 4(1) [OF that]) (use 4(3-) in auto)
  ultimately show ?case by simp
qed simp_all

lemma fixAllocatorParams_ok:
  assumes wf: "wf_refs g" "typedefs_end g" "flat_graph g g'" "wf_refs g'"
    and ps: "\<forall>p \<in> set (cl_parents c). in_graph g (p_type p)"
    and qs: "qs = (if cl_templateParams c = [] \<and> isAllocator c then concat (map (parent_params g') (take 1 (cl_parents c))) else [])"
  shows "fixAllocatorParams g' c = Inr (c\<lparr>cl_templateParams := cl_templateParams c @ qs\<rparr>) \<and>
    (\<forall>q \<in> set qs. in_graph g (tp_type q)) \<and> length qs \<le> 1"
proof (cases "cl_templateParams c = [] \<and> isAllocator c \<and> cl_parents c \<noteq> []")
  case False
  then show ?thesis by (cases "cl_parents c") (auto simp: fixAllocatorParams_def qs)
next
  case True
  then obtain p rest where Cons: "cl_parents c = p # rest" by (cases "cl_parents c") auto
  then obtain u n where u: "stripTypedefs g' (p_type p) = Inr u" "in_graph g u" "deref g' u = Inr n"
    using strip_ok [OF wf(1-3)] ps by (metis list.set_intros(1))
  have pt: "parent_type g' p = Some (u, n)" using u by (simp add: parent_type_def)
  show ?thesis
  proof (cases "\<exists>pc q qs. n = Class pc \<and> cl_templateParams pc = q # qs \<and> tp_value q = None")
    case False
    then show ?thesis
      using Cons u True pt by (auto simp: fixAllocatorParams_def qs parent_params_def split: ty.split list.split)
  next
    case ex: True
    then obtain pc q rs where pc: "n = Class pc" "cl_templateParams pc = q # rs" "tp_value q = None" by blast
    obtain i where i: "i < length (nodes g')" "node_at g' i = Class pc"
      using deref_owner [OF u(3)] pc(1) by (metis ctor_of.simps(2) numeral_One numeral_eq_iff semiring_norm(86))
    have "in_graph g' (tp_type q)" using wf_refsD [OF wf(4) i(1)] i(2) pc(2) by simp
    then have "in_graph g (tp_type q)" using flat_graph_in_graph [OF wf(3)] by simp
    then obtain v where "stripTypedefs g' (tp_type q) = Inr v" "in_graph g v"
      using strip_ok [OF wf(1-3)] by metis
    then show ?thesis
      using Cons u pc True pt by (simp add: fixAllocatorParams_def mk_param_def qs parent_params_def)
  qed
qed

text \<open>Pulling functions appends those of the parents and changes nothing else.\<close>

lemma pullFunctions_ok:
  assumes wf: "wf_refs g" "typedefs_end g" "flat_graph g (ps_graph s)" and c: "get_ty t s = Inr (Class c)"
    and ps: "\<forall>p \<in> set ps. in_graph g (p_type p)" and "cl_parents c \<noteq> []"
  shows "spec flat_errors (for_each (pullFunctions t) ps (put_ty t (Class (c\<lparr>cl_functions := cl_functions c @ fs\<rparr>)) s))
    (\<lambda>s'. s' = put_ty t (Class (c\<lparr>cl_functions := cl_functions c @ fs @ concat (map (parent_functions (ps_graph s)) ps)\<rparr>)) s)"
  using ps
proof (induction ps arbitrary: fs)
  case (Cons p ps)
  let ?s = "put_ty t (Class (c\<lparr>cl_functions := cl_functions c @ fs\<rparr>)) s"
  have get: "get_ty t ?s = Inr (Class (c\<lparr>cl_functions := cl_functions c @ fs\<rparr>))" using get_put [OF c] by simp
  have "flat_node (Class c) (Class (c\<lparr>cl_functions := cl_functions c @ fs\<rparr>))"
    using assms(6) by (simp add: flat_node_def class_kept_def)
  from flat_graph_put [OF _ this] have fs: "flat_graph (ps_graph s) (ps_graph ?s)"
    using c by (simp add: put_ty_def get_ty_def)
  then have fg: "flat_graph g (ps_graph ?s)" using wf(3) flat_graph_trans by blast
  obtain u n where u: "stripTypedefs (ps_graph ?s) (p_type p) = Inr u" "deref (ps_graph ?s) u = Inr n"
    using strip_ok [OF wf(1,2) fg] Cons.prems by (metis list.set_intros(1))
  have u0: "stripTypedefs (ps_graph s) (p_type p) = Inr u" using u(1) flat_graph_strip [OF fs] by simp
  have "spec flat_errors (pullFunctions t p ?s)
    (\<lambda>s'. s' = put_ty t (Class (c\<lparr>cl_functions := cl_functions c @ fs @ parent_functions (ps_graph s) p\<rparr>)) s)"
  proof (cases "u = t")
    case True
    then have "n = Class (c\<lparr>cl_functions := cl_functions c @ fs\<rparr>)" using u(2) get by (simp add: get_ty_def)
    moreover have "parent_functions (ps_graph s) p = cl_functions c"
      using True u0 c by (simp add: parent_functions_def parent_type_def get_ty_def)
    ultimately show ?thesis
      using u True get by (auto simp: pullFunctions_def get_ty_def get_class_def flat_errors_def)
  next
    case False
    then have "deref (ps_graph s) u = Inr n" using u(2) c by (cases u; cases t) (auto simp: put_ty_def get_ty_def deref.simps put_node.simps split: if_splits)
    then have "parent_functions (ps_graph s) p = (case n of Class pc \<Rightarrow> cl_functions pc | _ \<Rightarrow> [])"
      using u0 by (simp add: parent_functions_def parent_type_def)
    then show ?thesis
      using u False get by (cases n) (auto simp: pullFunctions_def get_ty_def get_class_def)
  qed
  then show ?case
    unfolding for_each.simps
  proof (rule spec_bindI)
    fix s' assume "s' = put_ty t (Class (c\<lparr>cl_functions := cl_functions c @ fs @ parent_functions (ps_graph s) p\<rparr>)) s"
    then show "spec flat_errors (for_each (pullFunctions t) ps s') (\<lambda>s'. s' = put_ty t (Class (c\<lparr>cl_functions :=
        cl_functions c @ fs @ concat (map (parent_functions (ps_graph s)) (p # ps))\<rparr>)) s)"
      using Cons.IH [of "fs @ parent_functions (ps_graph s) p"] Cons.prems by simp
  qed
qed simp

lemma pullChildren_ok:
  assumes "\<forall>u \<in> set us. \<exists>d. get_ty u s = Inr (Class d)"
  shows "spec flat_errors (for_each pullChildren us s) (\<lambda>s'. s' = s)"
  by (rule spec_for_each) (use assms in \<open>force simp: pullChildren_def get_class_def flat_errors_def\<close>)+

section \<open>The walk\<close>

type_synonym flat_state = "node_tracker pass_state"

definition descending :: "(tref \<Rightarrow> nat) \<Rightarrow> type_graph \<Rightarrow> bool" where
  "descending height g \<longleftrightarrow>
     (\<forall>i < length (nodes g). \<forall>u \<in> set (succs (node_at g i)). height u < height (NodeRef i))"

definition flat_start :: "type_graph \<Rightarrow> bool" where
  "flat_start g \<longleftrightarrow> wf_graph g \<and> no_capture_keys g \<and> typedefs_end g"

definition fl_ok :: "type_graph \<Rightarrow> bool \<Rightarrow> (tref \<Rightarrow> nat) \<Rightarrow> flat_state \<Rightarrow> bool" where
  "fl_ok g0 dag height s \<longleftrightarrow> flat_start g0 \<and> flat_graph g0 (ps_graph s) \<and> wf_refs (ps_graph s) \<and>
     settled g0 (ps_graph s) \<and> (dag \<longrightarrow> descending height g0)"

definition fl_frame :: "flat_state \<Rightarrow> flat_state \<Rightarrow> bool" where
  "fl_frame s s' \<longleftrightarrow> flat_graph (ps_graph s) (ps_graph s')"

text \<open>
  A class that is done has no parents, but what they have given to it: each parent gives what it has when it is done itself or,
  where there is a cycle, what it had at the start.
\<close>

definition flattened :: "bool \<Rightarrow> type_graph \<Rightarrow> type_graph \<Rightarrow> class_node \<Rightarrow> class_node \<Rightarrow> bool" where
  "flattened dag g0 g c0 c \<longleftrightarrow> cl_parents c = [] \<and> (\<exists>gifts :: gift list.
     list_all2 (\<lambda>p gf. flat_ref g (p_type p) \<and> gf = gift g p \<or> \<not> dag \<and> gf = gift g0 p) (cl_parents c0) gifts \<and>
     cl_functions c = cl_functions c0 @ concat (map fst gifts) \<and>
     merged (map p_bitOffset (cl_parents c0)) (cl_members c0) (map (\<lambda>gf. fst (snd gf)) gifts) (cl_members c) \<and>
     cl_templateParams c = cl_templateParams c0 @
       (if cl_templateParams c0 = [] \<and> list_ex (\<lambda>f. f_name f = ''allocate'') (cl_functions c)
        then concat (map (\<lambda>gf. snd (snd gf)) (take 1 gifts)) else []))"

definition fl_final :: "type_graph \<Rightarrow> bool \<Rightarrow> flat_state \<Rightarrow> tref \<Rightarrow> bool" where
  "fl_final g0 dag s t \<longleftrightarrow> (\<forall>i. t = NodeRef i \<longrightarrow> (case node_at g0 i of
      Class c0 \<Rightarrow> \<exists>c. node_at (ps_graph s) i = Class c \<and> flattened dag g0 (ps_graph s) c0 c
    | Typedef td \<Rightarrow> dag \<longrightarrow> flat_ref (ps_graph s) t
    | _ \<Rightarrow> True))"

definition fl_univ :: "type_graph \<Rightarrow> tref set" where
  "fl_univ g0 = {t. in_graph g0 t \<and> t \<in> reach (edges (\<lambda>n. n) g0) (rootTypes g0)}"

lemma flattened_stable:
  assumes "flattened dag g0 g c0 c" and fg: "flat_graph g g'"
  shows "flattened dag g0 g' c0 c"
proof -
  have "flat_ref g (p_type p) \<and> gf = gift g p \<or> \<not> dag \<and> gf = gift g0 p \<Longrightarrow>
      flat_ref g' (p_type p) \<and> gf = gift g' p \<or> \<not> dag \<and> gf = gift g0 p" for p gf
    using flat_ref_stable [OF _ fg] gift_stable [OF _ fg] by auto
  then show ?thesis using assms(1) unfolding flattened_def by (blast intro: list_all2_mono)
qed

lemma fl_final_stable:
  assumes "fl_final g0 dag s t" and "fl_frame s s'"
    and "\<And>i. t = NodeRef i \<Longrightarrow> node_at (ps_graph s') i = node_at (ps_graph s) i"
  shows "fl_final g0 dag s' t"
proof (cases t)
  case (NodeRef i)
  have g: "flat_graph (ps_graph s) (ps_graph s')" using assms(2) by (simp add: fl_frame_def)
  show ?thesis
    using assms(1) assms(3) [OF NodeRef] NodeRef flattened_stable [OF _ g] flat_ref_stable [OF _ g]
    by (cases "node_at g0 i") (auto simp: fl_final_def)
qed (simp add: fl_final_def)

interpretation flf: walk_frame ps_graph "\<lambda>s. trk_marked g0 (ps_marks s)" "trk_markable g0"
  "length (nodes g0)" "node_at g0" "fl_univ g0" "fl_ok g0 dag height" fl_frame "edges (\<lambda>n. n) g0"
  "fl_final g0 dag" flat_errors dag height for g0 dag height
proof (unfold_locales, goal_cases)
  case (3 s s' s'')
  then show ?case using flat_graph_trans by (simp add: fl_frame_def)
next
  case (4 s t s')
  then show ?case by (rule fl_final_stable)
qed (simp_all add: fl_univ_def fl_frame_def)

lemma strip_self:
  assumes "deref g t = Inr n" and "typedef_nxt n = None"
  shows "stripTypedefs g t = Inr t"
  using assms by (subst stripTypedefs_unfold) (cases n; simp add: stripTypedefs_body_def)

lemma unmarked_class: "flat_start g0 \<Longrightarrow> in_graph g0 t \<Longrightarrow> \<not> trk_markable g0 t \<Longrightarrow> deref g0 t = Inr n \<Longrightarrow>
    succs n = [] \<and> typedef_nxt n = None \<and> ctor_of n \<noteq> 1"
  using untracked_leaf [of g0 t n] by (cases n) (auto simp: flat_start_def wf_graph_def)

text \<open>What has been accepted without cycles stands for a class that is done.\<close>

lemma accepted_flat:
  assumes ok: "fl_ok g0 dag height s" and t: "in_graph g0 t" and post: "flf.pass_post g0 dag t s" and dag: dag
  shows "flat_ref (ps_graph s) t"
proof -
  have fg: "flat_graph g0 (ps_graph s)" using ok by (simp add: fl_ok_def)
  obtain n0 where n0: "deref g0 t = Inr n0" using deref_in_graph [OF t] by blast
  obtain n where n: "deref (ps_graph s) t = Inr n" "flat_node n0 n" using flat_deref [OF fg n0] .
  have other: ?thesis if "typedef_nxt n0 = None" "ctor_of n0 \<noteq> 1"
  proof -
    have "typedef_nxt n = None" "ctor_of n \<noteq> 1" using that flat_node_keeps [OF n(2)] by simp_all
    then show ?thesis using strip_self [OF n(1)] n(1) by (auto simp: flat_ref_def)
  qed
  show ?thesis
  proof (cases "trk_markable g0 t")
    case False
    then show ?thesis using unmarked_class [OF _ t _ n0] ok other by (simp add: fl_ok_def)
  next
    case True
    then obtain i where i: "t = NodeRef i" by (cases t) (auto simp: trk_markable_def)
    then have fin: "fl_final g0 dag s t" using post dag True by (auto simp: flf.pass_post_def flf.finished_def)
    have at: "node_at g0 i = n0" "node_at (ps_graph s) i = n" using n0 n(1) i deref_owned by blast+
    show ?thesis
    proof (cases n0)
      case (Class c0)
      then obtain c where "n = Class c" "cl_parents c = []" using fin i at by (auto simp: fl_final_def flattened_def)
      then show ?thesis using strip_self [OF n(1)] n(1) by (simp add: flat_ref_def)
    next
      case (Typedef td)
      then show ?thesis using fin i at dag by (simp add: fl_final_def)
    qed (use other in simp_all)
  qed
qed

lemma parent_type_put:
  assumes "deref (ps_graph s) (NodeRef i) = Inr (Class c)" and "s1 = put_ty (NodeRef i) n1 s"
    and "\<And>u. stripTypedefs (ps_graph s1) u = stripTypedefs (ps_graph s) u"
  shows "parent_type (ps_graph s1) p = (case parent_type (ps_graph s) p of None \<Rightarrow> None
    | Some (u, n) \<Rightarrow> Some (u, if u = NodeRef i then n1 else n))"
proof -
  have "deref (ps_graph s1) u = (case deref (ps_graph s) u of Inl e \<Rightarrow> Inl e | Inr n \<Rightarrow> Inr (if u = NodeRef i then n1 else n))" for u
    using assms(1,2) by (cases u) (auto simp: put_ty_def deref.simps put_node.simps split: if_splits)
  then show ?thesis using assms(3) by (auto simp: parent_type_def split: sum.split)
qed

lemma same_gift:
  assumes "deref (ps_graph s) t = Inr (Class c)"
    and "\<And>p. parent_type (ps_graph s1) p = (case parent_type (ps_graph s) p of None \<Rightarrow> None
      | Some (u, n) \<Rightarrow> Some (u, if u = t then Class (c\<lparr>cl_functions := fs\<rparr>) else n))"
    and "\<And>u. stripTypedefs (ps_graph s1) u = stripTypedefs (ps_graph s) u"
  shows "parent_members (ps_graph s1) p = parent_members (ps_graph s) p"
    and "parent_params (ps_graph s1) p = parent_params (ps_graph s) p"
proof -
  have strip: "stripTypedefs (ps_graph s1) = stripTypedefs (ps_graph s)" using assms(3) by blast
  show "parent_members (ps_graph s1) p = parent_members (ps_graph s) p"
    using assms(1,2) by (auto simp: parent_members_def parent_type_def split: sum.split)
  show "parent_params (ps_graph s1) p = parent_params (ps_graph s) p"
    unfolding parent_params_def strip using assms(1,2) by (auto simp: parent_type_def split: sum.split)
qed

lemma flatten_class_ok:
  assumes ok: "fl_ok g0 dag height s" and i: "t = NodeRef i" "i < length (nodes g0)" "node_at g0 i = Class c0"
    and get: "get_ty t s = Inr (Class c0)"
    and post: "\<And>u. u \<in> set (map tp_type (cl_templateParams c0) @ map p_type (cl_parents c0) @ map m_type (cl_members c0)) \<Longrightarrow>
      flf.pass_post g0 dag u s"
  shows "spec flat_errors (flatten_class t s) (\<lambda>s'. \<exists>c. s' = put_ty t (Class c) s \<and> fl_ok g0 dag height s' \<and>
    fl_frame s s' \<and> cl_parents c = [] \<and> cl_children c = cl_children c0 \<and> fl_final g0 dag s' t)"
proof -
  have wf: "wf_refs g0" "typedefs_end g0" "flat_graph g0 (ps_graph s)" "wf_refs (ps_graph s)"
    using ok by (auto simp: fl_ok_def flat_start_def wf_graph_def)
  have refs: "in_graph g0 u" if "u \<in> set (succs (Class c0))" for u
    using wf_refsD [OF wf(1) i(2)] i(3) that by simp
  have ps: "\<forall>p \<in> set (cl_parents c0). in_graph g0 (p_type p)" and ms: "\<forall>m \<in> set (cl_members c0). in_graph g0 (m_type m)"
    using refs by auto
  have fd: "deref (ps_graph s) t = Inr (Class c0)" using get by (simp add: get_ty_def)
  have rec: "flat_graph g0 (ps_graph (put_ty t (Class c) s))" "flat_graph (ps_graph s) (ps_graph (put_ty t (Class c) s))"
    if "flat_node (Class c0) (Class c)" for c
    using flat_graph_put [OF fd that] flat_graph_trans [OF wf(3)] by (auto simp: put_ty_def)
  let ?c1 = "c0\<lparr>cl_functions := cl_functions c0 @ concat (map (parent_functions (ps_graph s)) (cl_parents c0))\<rparr>"
  have fn1: "flat_node (Class c0) (Class ?c1)" by (cases "cl_parents c0 = []") (simp_all add: flat_node_def class_kept_def)
  have pulled: "spec flat_errors (for_each (pullFunctions t) (cl_parents c0) s) (\<lambda>s'. s' = put_ty t (Class ?c1) s)"
  proof (cases "cl_parents c0 = []")
    case True
    then show ?thesis using put_self [OF get] by simp
  next
    case False
    then show ?thesis using pullFunctions_ok [OF wf(1-3) get ps, of "[]"] put_self [OF get] by simp
  qed
  have given: "\<forall>p \<in> set (cl_parents c0). flat_ref (ps_graph s) (p_type p) \<or> \<not> dag \<and> gift (ps_graph s) p = gift g0 p"
  proof
    fix p assume p: "p \<in> set (cl_parents c0)"
    show "flat_ref (ps_graph s) (p_type p) \<or> \<not> dag \<and> gift (ps_graph s) p = gift g0 p"
    proof (cases dag)
      case True
      have "flf.pass_post g0 dag (p_type p) s" using p by (intro post) auto
      then show ?thesis using accepted_flat [OF ok _ _ True, of "p_type p"] ps p by blast
    next
      case False
      then show ?thesis using gift_settled [OF wf(3), of p] ok by (auto simp: fl_ok_def)
    qed
  qed
  show ?thesis
    unfolding flatten_class_def
  proof (rule spec_bindI [where Q = "\<lambda>c. c = c0"])
    show "spec flat_errors (get_class t s) (\<lambda>c. c = c0)" using get by (simp add: get_class_def)
    fix c assume "c = c0"
    then show "spec flat_errors (bindE (for_each (pullFunctions t) (cl_parents c) s) (\<lambda>s. bindE (get_class t s) (\<lambda>c.
        bindE (flattenMembers (ps_graph s) (cl_members c) (cl_parents c) []) (\<lambda>ms.
        bindE (fixAllocatorParams (ps_graph s) c) (\<lambda>c.
        Inr (put_ty t (Class (c\<lparr>cl_parents := [], cl_members := ms\<rparr>)) s))))))
      (\<lambda>s'. \<exists>c. s' = put_ty t (Class c) s \<and> fl_ok g0 dag height s' \<and>
        fl_frame s s' \<and> cl_parents c = [] \<and> cl_children c = cl_children c0 \<and> fl_final g0 dag s' t)"
    proof (elim ssubst, intro spec_bindI [OF pulled])
      fix s1 assume s1: "s1 = put_ty t (Class ?c1) s"
      have get1: "get_class t s1 = Inr ?c1" using get_put [OF get] s1 by (simp add: get_class_def)
      have fg1: "flat_graph g0 (ps_graph s1)" "flat_graph (ps_graph s) (ps_graph s1)"
        using rec [of ?c1] s1 fn1 by simp_all
      have wf1: "wf_refs (ps_graph s1)"
        using wf_refs_put [OF wf(4), of "Class ?c1" t] refs flat_graph_in_graph [OF wf(3)] s1
        by (simp add: put_ty_def)
      have type1: "parent_type (ps_graph s1) p = (case parent_type (ps_graph s) p of None \<Rightarrow> None
          | Some (u, n) \<Rightarrow> Some (u, if u = t then Class ?c1 else n))" for p
        using fd s1 flat_graph_strip [OF fg1(2)] unfolding i(1) by (rule parent_type_put)
      have same: "parent_members (ps_graph s1) = parent_members (ps_graph s)"
          "parent_params (ps_graph s1) = parent_params (ps_graph s)"
        using same_gift [OF fd type1 flat_graph_strip [OF fg1(2)]] by blast+
      obtain qs where qs: "qs = (if cl_templateParams ?c1 = [] \<and> isAllocator ?c1
          then concat (map (parent_params (ps_graph s1)) (take 1 (cl_parents ?c1))) else [])" by simp
      have fix_ok: "fixAllocatorParams (ps_graph s1) ?c1 = Inr (?c1\<lparr>cl_templateParams := cl_templateParams ?c1 @ qs\<rparr>)"
          "\<forall>q \<in> set qs. in_graph g0 (tp_type q)" "length qs \<le> 1"
        using fixAllocatorParams_ok [OF wf(1,2) fg1(1) wf1 _ qs] ps by simp_all
      show "spec flat_errors (bindE (get_class t s1) (\<lambda>c.
          bindE (flattenMembers (ps_graph s1) (cl_members c) (cl_parents c) []) (\<lambda>ms.
          bindE (fixAllocatorParams (ps_graph s1) c) (\<lambda>c.
          Inr (put_ty t (Class (c\<lparr>cl_parents := [], cl_members := ms\<rparr>)) s1)))))
        (\<lambda>s'. \<exists>c. s' = put_ty t (Class c) s \<and> fl_ok g0 dag height s' \<and>
          fl_frame s s' \<and> cl_parents c = [] \<and> cl_children c = cl_children c0 \<and> fl_final g0 dag s' t)"
      proof (cases "flattenMembers (ps_graph s1) (cl_members c0) (cl_parents c0) []")
        case (Inl e)
        then have "e \<in> flat_errors"
          using flattenMembers_types [OF wf(1,2) fg1(1) wf1 ps ms, of "[]"] by simp
        then show ?thesis using get1 Inl by simp
      next
        case (Inr fm)
        then have fm: "\<forall>m \<in> set fm. in_graph g0 (m_type m)"
          using flattenMembers_types [OF wf(1,2) fg1(1) wf1 ps ms, of "[]"] by simp
        let ?c2 = "?c1\<lparr>cl_templateParams := cl_templateParams ?c1 @ qs, cl_parents := [], cl_members := fm\<rparr>"
        let ?s2 = "put_ty t (Class ?c2) s"
        have "class_kept c0 ?c2"
        proof (cases "cl_parents c0 = []")
          case True
          then have "qs = []" "fm = cl_members c0" using Inr by (auto simp: qs no_parents)
          then show ?thesis using True by (simp add: class_kept_def)
        next
          case False
          have "qs = [] \<or> cl_templateParams c0 = [] \<and> length qs = 1 \<and> isAllocator ?c1"
          proof (cases "cl_templateParams c0 = [] \<and> isAllocator ?c1")
            case True
            then show ?thesis using fix_ok(3) by (cases qs) auto
          qed (use qs in auto)
          then show ?thesis using False by (auto simp: class_kept_def isAllocator_def)
        qed
        then have fn: "flat_node (Class c0) (Class ?c2)" by (simp add: flat_node_def)
        note fg2 = rec [OF fn]
        have "\<forall>u \<in> set (refs (Class ?c2)). in_graph (ps_graph s) u"
          using refs fm fix_ok(2) flat_graph_in_graph [OF wf(3)] by auto
        then have wf2: "wf_refs (ps_graph ?s2)" using wf_refs_put [OF wf(4)] by (simp add: put_ty_def)
        have at: "node_at (ps_graph ?s2) i = Class ?c2" using put_same get i(1) by blast
        have "merged (map p_bitOffset (cl_parents c0)) (cl_members c0) (map (parent_members (ps_graph s)) (cl_parents c0)) fm"
          using flattenMembers_merged [OF Inr] same(1) by simp
        moreover have "qs = (if cl_templateParams c0 = [] \<and> list_ex (\<lambda>f. f_name f = ''allocate'') (cl_functions ?c2)
            then concat (map (\<lambda>gf. snd (snd gf)) (take 1 (map (gift (ps_graph s)) (cl_parents c0)))) else [])"
          unfolding qs same(2) isAllocator_def by (simp add: gift_def take_map comp_def cong: if_cong)
        moreover have "list_all2 (\<lambda>p gf. flat_ref (ps_graph s) (p_type p) \<and> gf = gift (ps_graph s) p \<or>
            \<not> dag \<and> gf = gift g0 p) (cl_parents c0) (map (gift (ps_graph s)) (cl_parents c0))"
          using given by (auto simp: list_all2_map2 list_all2_same)
        ultimately have "flattened dag g0 (ps_graph s) c0 ?c2"
          unfolding flattened_def
          by (intro conjI exI [of _ "map (gift (ps_graph s)) (cl_parents c0)"]) (simp_all add: comp_def gift_def)
        then have "flattened dag g0 (ps_graph ?s2) c0 ?c2" using flattened_stable fg2(2) by blast
        then have "fl_final g0 dag ?s2 t" using at i by (simp add: fl_final_def)
        moreover have "settled g0 (ps_graph ?s2)"
          unfolding settled_def
        proof (intro allI impI)
          fix j assume j: "j < length (nodes g0)"
          show "node_at (ps_graph ?s2) j = node_at g0 j \<or> (\<exists>c. node_at (ps_graph ?s2) j = Class c \<and> cl_parents c = [])"
          proof (cases "j = i")
            case False
            then have "node_at (ps_graph ?s2) j = node_at (ps_graph s) j" using put_other [OF get] i(1) by simp
            then show ?thesis using ok j by (simp add: fl_ok_def settled_def)
          qed (use at in simp)
        qed
        then have "fl_ok g0 dag height ?s2" using ok fg2(1) wf2 by (simp add: fl_ok_def)
        ultimately show ?thesis
          using get1 Inr fix_ok(1) fg2(2) s1 by (simp add: fl_frame_def) (rule exI [of _ ?c2], simp)
      qed
    qed
  qed
qed

lemma flattener_class_visit:
  "get_ty t s = Inr (Class c) \<Longrightarrow> flattener_visit accept t s =
    bindE (for_each accept (map tp_type (cl_templateParams c) @ map p_type (cl_parents c) @
      map m_type (cl_members c)) s) (\<lambda>s. bindE (flatten_class t s) (\<lambda>s. bindE (get_class t s) (\<lambda>c'.
      bindE (for_each accept (cl_children c') s) (\<lambda>s. bindE (get_class t s) (\<lambda>c''.
      for_each pullChildren (cl_children c'') s)))))"
  by (simp add: flattener_visit_def bindE_assoc for_each_map)

lemma fl_visit_class:
  assumes ok: "fl_ok g0 dag height s" and i: "t = NodeRef i" "t \<in> fl_univ g0" "node_at g0 i = Class c0"
    and acc: "flf.accepts g0 dag height t s call" and mark: "trk_markable g0 t"
    and p0: "flf.progress g0 dag height t s s0" and get0: "get_ty t s0 = Inr (Class c0)"
  shows "spec flat_errors (flattener_visit call t s0) (\<lambda>s'. flf.progress g0 dag height t s s' \<and> fl_final g0 dag s' t \<and>
    (\<forall>u \<in> set (succs (Class c0)). trk_markable g0 u \<longrightarrow> trk_marked g0 (ps_marks s') u))"
proof -
  let ?first = "map tp_type (cl_templateParams c0) @ map p_type (cl_parents c0) @ map m_type (cl_members c0)"
  have len: "i < length (nodes g0)" using i by (simp add: fl_univ_def)
  have start: "flat_start g0" using ok by (simp add: fl_ok_def)
  have sub: "set (succs (Class c0)) \<subseteq> fl_univ g0"
  proof
    fix u assume u: "u \<in> set (succs (Class c0))"
    then have "u \<in> set (edges (\<lambda>n. n) g0 t)" using i len by (simp add: edges_def)
    then have "u \<in> reach (edges (\<lambda>n. n) g0) (rootTypes g0)" using i(2) reach.step unfolding fl_univ_def by blast
    moreover have "in_graph g0 u"
      using wf_refsD [OF _ len] i(3) u start by (auto simp: flat_start_def wf_graph_def)
    ultimately show "u \<in> fl_univ g0" by (simp add: fl_univ_def)
  qed
  have low: "dag \<longrightarrow> (\<forall>u \<in> set (succs (Class c0)). height u < height t)"
    using ok len i by (auto simp: fl_ok_def descending_def)
  have first: "set ?first \<subseteq> fl_univ g0" "dag \<longrightarrow> (\<forall>u \<in> set ?first. height u < height t)"
    using sub low by auto
  have at: "get_ty t s2 = Inr n" if "get_ty t s1 = Inr n" "flf.later g0 s1 s2" "trk_marked g0 (ps_marks s1) t"
      "fl_ok g0 dag height s2" for s1 s2 n
  proof -
    have "i < length (nodes (ps_graph s2))" using that(4) len by (simp add: fl_ok_def flat_graph_def)
    moreover have "node_at (ps_graph s1) i = n" using that(1) i(1) deref_owned(2) unfolding get_ty_def by blast
    moreover have "node_at (ps_graph s2) i = node_at (ps_graph s1) i"
      using that(2,3) len i(1) by (simp add: flf.later_def)
    ultimately show ?thesis using i(1) by (simp add: get_ty_def)
  qed
  show ?thesis
    unfolding flattener_class_visit [OF get0]
  proof (rule spec_bindI [OF flf.accepts_for_each [OF acc p0 first]], elim conjE)
    fix s1 assume p1: "flf.progress g0 dag height t s s1" and l1: "flf.later g0 s0 s1"
      and post: "\<forall>u \<in> set ?first. flf.pass_post g0 dag u s1"
    have ok1: "fl_ok g0 dag height s1" using flf.progressD(1) [OF p1] .
    have get1: "get_ty t s1 = Inr (Class c0)" using at [OF get0 l1 _ ok1] flf.progressD(3) [OF p0 mark] .
    show "spec flat_errors (bindE (flatten_class t s1) (\<lambda>s. bindE (get_class t s) (\<lambda>c'.
        bindE (for_each call (cl_children c') s) (\<lambda>s. bindE (get_class t s) (\<lambda>c''.
        for_each pullChildren (cl_children c'') s)))))
      (\<lambda>s'. flf.progress g0 dag height t s s' \<and> fl_final g0 dag s' t \<and>
        (\<forall>u \<in> set (succs (Class c0)). trk_markable g0 u \<longrightarrow> trk_marked g0 (ps_marks s') u))"
    proof (rule spec_bindI [OF flatten_class_ok [OF ok1 i(1) len i(3) get1]])
      show "u \<in> set ?first \<Longrightarrow> flf.pass_post g0 dag u s1" for u using post by blast
      fix s2 assume "\<exists>c. s2 = put_ty t (Class c) s1 \<and> fl_ok g0 dag height s2 \<and> fl_frame s1 s2 \<and>
        cl_parents c = [] \<and> cl_children c = cl_children c0 \<and> fl_final g0 dag s2 t"
      then obtain c where s2: "s2 = put_ty t (Class c) s1" and ok2: "fl_ok g0 dag height s2" and f2: "fl_frame s1 s2"
        and kids: "cl_children c = cl_children c0" and fin2: "fl_final g0 dag s2 t" by blast
      have marks2: "ps_marks s2 = ps_marks s1" by (simp add: s2)
      have other2: "node_at (ps_graph s2) j = node_at (ps_graph s1) j" if "NodeRef j \<noteq> t" for j
        using put_other [OF get1 that] s2 by simp
      have p2: "flf.progress g0 dag height t s s2"
        using flf.progress_change [OF p1 ok2 f2] marks2 other2 mark by auto
      have get2: "get_ty t s2 = Inr (Class c)" using get_put [OF get1] s2 by simp
      have low2: "set (cl_children c) \<subseteq> fl_univ g0" "dag \<longrightarrow> (\<forall>u \<in> set (cl_children c). height u < height t)"
        using sub low kids by auto
      have "spec flat_errors (bindE (for_each call (cl_children c) s2) (\<lambda>s. bindE (get_class t s) (\<lambda>c''.
          for_each pullChildren (cl_children c'') s)))
        (\<lambda>s'. flf.progress g0 dag height t s s' \<and> fl_final g0 dag s' t \<and>
          (\<forall>u \<in> set (succs (Class c0)). trk_markable g0 u \<longrightarrow> trk_marked g0 (ps_marks s') u))"
      proof (rule spec_bindI [OF flf.accepts_for_each [OF acc p2 low2]], elim conjE)
        fix s3 assume p3: "flf.progress g0 dag height t s s3" and l3: "flf.later g0 s2 s3"
          and post3: "\<forall>u \<in> set (cl_children c). flf.pass_post g0 dag u s3"
        have ok3: "fl_ok g0 dag height s3" using flf.progressD(1) [OF p3] .
        have get3: "get_ty t s3 = Inr (Class c)" using at [OF get2 l3 _ ok3] flf.progressD(3) [OF p2 mark] .
        have "fl_final g0 dag s3 t"
        proof (rule fl_final_stable [OF fin2])
          show "fl_frame s2 s3" using flf.laterD(1) [OF l3] .
          fix j assume "t = NodeRef j"
          then show "node_at (ps_graph s3) j = node_at (ps_graph s2) j"
            using get2 get3 deref_owned(2) unfolding get_ty_def by metis
        qed
        moreover have "trk_marked g0 (ps_marks s3) u" if u: "u \<in> set (succs (Class c0))" "trk_markable g0 u" for u
        proof (cases "u \<in> set (cl_children c)")
          case True
          then show ?thesis using post3 u(2) by (simp add: flf.pass_post_def)
        next
          case False
          then have "u \<in> set ?first" using u(1) kids by auto
          then have "trk_marked g0 (ps_marks s1) u" using post u(2) by (simp add: flf.pass_post_def)
          then show ?thesis using flf.laterD(2) [OF l3] marks2 by simp
        qed
        moreover have "\<exists>d. get_ty u s3 = Inr (Class d)" if u: "u \<in> set (cl_children c)" for u
        proof -
          have "Class c0 \<in> set (nodes g0)" using i(3) len nth_mem unfolding node_at_def by metis
          then obtain d where d: "deref g0 u = Inr (Class d)"
            using start u kids unfolding flat_start_def wf_graph_def wf_children_def by metis
          have "flat_graph g0 (ps_graph s3)" using ok3 by (simp add: fl_ok_def)
          from flat_deref [OF this d] show ?thesis by (auto simp: get_ty_def flat_node_def)
        qed
        then have "spec flat_errors (for_each pullChildren (cl_children c) s3) (\<lambda>s'. s' = s3)"
          by (intro pullChildren_ok) blast
        ultimately show "spec flat_errors (bindE (get_class t s3) (\<lambda>c''. for_each pullChildren (cl_children c'') s3))
          (\<lambda>s'. flf.progress g0 dag height t s s' \<and> fl_final g0 dag s' t \<and>
            (\<forall>u \<in> set (succs (Class c0)). trk_markable g0 u \<longrightarrow> trk_marked g0 (ps_marks s') u))"
          using p3 get3 by (auto simp: get_class_def elim!: spec_mono)
      qed
      then show "spec flat_errors (bindE (get_class t s2) (\<lambda>c'.
          bindE (for_each call (cl_children c') s2) (\<lambda>s. bindE (get_class t s) (\<lambda>c''.
          for_each pullChildren (cl_children c'') s))))
        (\<lambda>s'. flf.progress g0 dag height t s s' \<and> fl_final g0 dag s' t \<and>
          (\<forall>u \<in> set (succs (Class c0)). trk_markable g0 u \<longrightarrow> trk_marked g0 (ps_marks s') u))"
        using get2 by (simp add: get_class_def)
    qed
  qed
qed

lemma fl_visit_other:
  assumes ok: "fl_ok g0 dag height s" and t: "t \<in> fl_univ g0" and n0: "deref g0 t = Inr n" "ctor_of n \<noteq> 1"
    and acc: "\<And>i. t = NodeRef i \<Longrightarrow> trk_markable g0 t \<Longrightarrow> flf.accepts g0 dag height t s call"
    and p0: "flf.progress g0 dag height t s s0" and get0: "get_ty t s0 = Inr n"
  shows "spec flat_errors (flattener_visit call t s0) (\<lambda>s'. flf.progress g0 dag height t s s' \<and> fl_final g0 dag s' t \<and>
    (\<forall>u \<in> set (succs n). trk_markable g0 u \<longrightarrow> trk_marked g0 (ps_marks s') u))"
proof -
  have tg: "in_graph g0 t" using t by (simp add: fl_univ_def)
  have start: "flat_start g0" using ok by (simp add: fl_ok_def)
  have eq: "flattener_visit call t s0 = for_each call (succs n) s0"
    using get0 n0(2) by (cases n) (simp_all add: flattener_visit_def recursive_visit_succs)
  have at: "node_at g0 i = n" "i < length (nodes g0)" if "t = NodeRef i" for i
    using n0(1) that deref_owned by blast+
  show ?thesis
  proof (cases "trk_markable g0 t")
    case False
    have "succs n = [] \<and> typedef_nxt n = None" using unmarked_class [OF start tg False n0(1)] by blast
    then show ?thesis
      using p0 at n0(2) unfolding eq by (cases n) (auto simp: fl_final_def)
  next
    case True
    then obtain i where i: "t = NodeRef i" by (cases t) (auto simp: trk_markable_def)
    have sub: "set (succs n) \<subseteq> fl_univ g0"
    proof
      fix u assume u: "u \<in> set (succs n)"
      then have "u \<in> set (edges (\<lambda>n. n) g0 t)" using n0(1) by (simp add: edges_def)
      then have "u \<in> reach (edges (\<lambda>n. n) g0) (rootTypes g0)" using t reach.step unfolding fl_univ_def by blast
      moreover have "in_graph g0 u"
        using wf_refsD [OF _ at(2) [OF i]] at(1) [OF i] u succs_subset_refs start
        by (auto simp: flat_start_def wf_graph_def)
      ultimately show "u \<in> fl_univ g0" by (simp add: fl_univ_def)
    qed
    have low: "dag \<longrightarrow> (\<forall>u \<in> set (succs n). height u < height t)"
      using ok at [OF i] i by (auto simp: fl_ok_def descending_def)
    show ?thesis
      unfolding eq
    proof (rule spec_mono [OF flf.accepts_for_each [OF acc [OF i True] p0 sub low]], elim conjE)
      fix s1 assume p1: "flf.progress g0 dag height t s s1" and l1: "flf.later g0 s0 s1"
        and post: "\<forall>u \<in> set (succs n). flf.pass_post g0 dag u s1"
      have ok1: "fl_ok g0 dag height s1" using flf.progressD(1) [OF p1] .
      have "flat_ref (ps_graph s1) t" if td: "n = Typedef td" "dag" for td
      proof -
        let ?u = "td_underlying td"
        have "in_graph g0 ?u" using sub td by (auto simp: fl_univ_def)
        from accepted_flat [OF ok1 this _ td(2)] have u: "flat_ref (ps_graph s1) ?u" using post td by simp
        have "trk_marked g0 (ps_marks s0) t" using flf.progressD(3) [OF p0 True] .
        then have "node_at (ps_graph s1) i = n"
          using l1 get0 i at [OF i] deref_owned(2) [of "ps_graph s0" i n] by (simp add: flf.later_def get_ty_def)
        then have "deref (ps_graph s1) t = Inr (Typedef td)"
          using ok1 at [OF i] i td by (simp add: fl_ok_def flat_graph_def)
        then have "stripTypedefs (ps_graph s1) t = stripTypedefs (ps_graph s1) ?u"
          by (subst stripTypedefs_unfold) (simp add: stripTypedefs_body_def)
        then show ?thesis using u by (simp add: flat_ref_def)
      qed
      then have "fl_final g0 dag s1 t"
        using at(1) n0(2) i by (cases n) (simp_all add: fl_final_def)
      then show "flf.progress g0 dag height t s s1 \<and> fl_final g0 dag s1 t \<and>
        (\<forall>u \<in> set (succs n). trk_markable g0 u \<longrightarrow> trk_marked g0 (ps_marks s1) u)"
        using p1 post by (simp add: flf.pass_post_def)
    qed
  qed
qed

interpretation fl: node_walk ps_graph "\<lambda>s. trk_marked g0 (ps_marks s)" "trk_markable g0"
  "length (nodes g0)" "node_at g0" "fl_univ g0" "fl_ok g0 dag height" fl_frame "edges (\<lambda>n. n) g0"
  "fl_final g0 dag" flat_errors dag height flattener_accept for g0 dag height
proof (unfold_locales, goal_cases)
  case (1 s t call)
  then have wf: "wf_ids g0" "extends g0 (ps_graph s)" "in_graph g0 t"
    using flat_graph_extends by (auto simp: fl_ok_def flat_start_def wf_graph_def fl_univ_def)
  show ?case
    by (rule trk.visit_mark_cases [OF wf, of "ps_marks s"]) (use 1 in \<open>simp_all add: flattener_accept_def accept_with_def\<close>)
next
  case (2 s t call)
  then have wf: "wf_ids g0" "extends g0 (ps_graph s)" and tg: "in_graph g0 t" and fg: "flat_graph g0 (ps_graph s)"
    using flat_graph_extends by (auto simp: fl_ok_def flat_start_def wf_graph_def fl_univ_def)
  obtain v where v: "trk_visit (ps_graph s) t (ps_marks s) = Inr (False, v)"
    "\<And>u. trk_marked g0 v u \<longleftrightarrow> trk_marked g0 (ps_marks s) u \<or> u = t \<and> trk_markable g0 t"
    by (rule trk.visit_mark_cases [OF wf tg, of "ps_marks s"]) (use 2(3) in auto)
  let ?s0 = "s\<lparr>ps_marks := v\<rparr>"
  have eq: "flattener_accept call t s = flattener_visit call t ?s0"
    using v(1) by (simp add: flattener_accept_def accept_with_def)
  have p: "flf.progress g0 dag height t s ?s0"
    using 2(1) v(2) by (intro flf.progress_start) (auto simp: fl_ok_def fl_frame_def)
  obtain n where n: "deref g0 t = Inr n" using deref_in_graph [OF tg] by blast
  have get: "get_ty t ?s0 = Inr n"
  proof (cases t)
    case (NodeRef i)
    then have "node_at g0 i = n" "i < length (nodes g0)" using n deref_owned by blast+
    then show ?thesis using 2(4) NodeRef fg by (simp add: get_ty_def flat_graph_def)
  qed (use n in \<open>simp add: get_ty_def\<close>)
  have cov: "edges (\<lambda>n. n) g0 t = succs n" using n by (simp add: edges_def)
  show ?case
  proof (cases "ctor_of n = 1")
    case True
    then obtain c where c: "n = Class c" by (auto simp: ctor_of_iff)
    then obtain i where i: "t = NodeRef i" "node_at g0 i = Class c"
      using n deref_owner [of g0 t n] by (metis ctor_of.simps(2) numeral_One numeral_eq_iff semiring_norm(86))
    have "trk_markable g0 t"
      using unmarked_class [OF _ tg _ n] 2(1) c by (force simp: fl_ok_def)
    then show ?thesis
      unfolding eq cov using fl_visit_class [OF 2(1) i(1) 2(2) i(2) 2(5) [OF i(1)] _ p] get c by simp
  next
    case False
    then show ?thesis unfolding eq cov using fl_visit_other [OF 2(1,2) n False 2(5) p get] by simp
  qed
qed

section \<open>Properties\<close>

lemma flattener_run:
  assumes start: "flat_start g" and dag: "dag \<longrightarrow> descending height g"
  shows "spec flat_errors (pass_run flattener_pass g v) (\<lambda>(g', v'). flat_graph g g' \<and> wf_refs g' \<and>
    (\<forall>i < length (nodes g). NodeRef i \<in> reach (edges (\<lambda>n. n) g) (rootTypes g) \<longrightarrow>
      (\<forall>c0. node_at g i = Class c0 \<longrightarrow> (\<exists>c. node_at g' i = Class c \<and> flattened dag g g' c0 c))) \<and>
    (\<forall>i < length (nodes g). NodeRef i \<notin> reach (edges (\<lambda>n. n) g) (rootTypes g) \<longrightarrow> node_at g' i = node_at g i))"
proof -
  let ?v = "holder_get (graph_size g) v" and ?R = "reach (edges (\<lambda>n. n) g) (rootTypes g)"
  let ?s = "\<lparr>ps_marks = ?v, ps_graph = g\<rparr>"
  have wf: "wf_refs g" and ids: "wf_ids g \<and> no_capture_keys g"
    using start by (auto simp: flat_start_def wf_graph_def)
  have sub: "?R \<subseteq> fl_univ g"
  proof -
    have "?R \<subseteq> {t. in_graph g t}"
    proof (rule reach_least)
      show "set (rootTypes g) \<subseteq> {t. in_graph g t}" using wf by (auto simp: wf_refs_def)
      fix t assume "t \<in> {t. in_graph g t}"
      then show "set (edges (\<lambda>n. n) g t) \<subseteq> {t. in_graph g t}"
        using wf_refsD [OF wf] succs_subset_refs by (cases t) (fastforce simp: edges_def)+
    qed
    then show ?thesis by (auto simp: fl_univ_def)
  qed
  have leaf: "edges (\<lambda>n. n) g t = []" if "t \<in> ?R" "\<not> trk_markable g t" for t
  proof -
    have "in_graph g t" using that(1) sub by (auto simp: fl_univ_def)
    then obtain n where "deref g t = Inr n" using deref_in_graph by blast
    then show ?thesis using unmarked_class [OF start \<open>in_graph g t\<close> that(2)] by (simp add: edges_def)
  qed
  have "spec flat_errors (walk_roots flattener_accept ?v g) (\<lambda>s'. fl_ok g dag height s' \<and> fl_frame ?s s' \<and>
     (\<forall>i < length (nodes g). trk_marked g (ps_marks s') (NodeRef i) \<longleftrightarrow> trk_markable g (NodeRef i) \<and> NodeRef i \<in> ?R) \<and>
     (\<forall>i < length (nodes g). if trk_markable g (NodeRef i) \<and> NodeRef i \<in> ?R then fl_final g dag s' (NodeRef i)
        else node_at (ps_graph s') i = node_at g i))"
    unfolding walk_roots_def
  proof (rule fl.run_reach)
    show "fl_ok g dag height ?s" using start dag wf by (simp add: fl_ok_def settled_def)
    show "trk_markable g (NodeRef i)" if "trk_marked g (ps_marks s) (NodeRef i)" for s i
      using that by (auto simp: trk_marked_def trk_markable_def tracked_def)
  qed (use sub leaf in \<open>auto simp: trk_marked_def chain_depth_def fl_univ_def edges_def\<close>)
  then show ?thesis
    unfolding pass_run_def flattener_pass_def tracker_pass_def
  proof (rule spec_bindI, elim conjE)
    fix s' assume ok: "fl_ok g dag height s'"
      and fin: "\<forall>i < length (nodes g). if trk_markable g (NodeRef i) \<and> NodeRef i \<in> ?R
        then fl_final g dag s' (NodeRef i) else node_at (ps_graph s') i = node_at g i"
    have "\<exists>c. node_at (ps_graph s') i = Class c \<and> flattened dag g (ps_graph s') c0 c"
      if i: "i < length (nodes g)" "NodeRef i \<in> ?R" "node_at g i = Class c0" for i c0
    proof -
      have "trk_markable g (NodeRef i)"
        using unmarked_class [OF start, of "NodeRef i" "Class c0"] i by force
      then show ?thesis using fin i by (auto simp: fl_final_def)
    qed
    moreover have "flat_graph g (ps_graph s')" "wf_refs (ps_graph s')" using ok by (simp_all add: fl_ok_def)
    moreover have "node_at (ps_graph s') i = node_at g i" if "i < length (nodes g)" "NodeRef i \<notin> ?R" for i
      using fin that by auto
    ultimately show "spec flat_errors (Inr (ps_graph s', ps_marks s')) (\<lambda>(g', v'). flat_graph g g' \<and> wf_refs g' \<and>
      (\<forall>i < length (nodes g). NodeRef i \<in> ?R \<longrightarrow>
        (\<forall>c0. node_at g i = Class c0 \<longrightarrow> (\<exists>c. node_at g' i = Class c \<and> flattened dag g g' c0 c))) \<and>
      (\<forall>i < length (nodes g). NodeRef i \<notin> ?R \<longrightarrow> node_at g' i = node_at g i))"
      by auto
  qed
qed

lemma flattener_contract:
  assumes "wf_graph g" and "no_capture_keys g" and "typedefs_end g"
  shows "spec flat_errors (pass_run flattener_pass g v) (\<lambda>(g', v'). flat_graph g g' \<and> wf_refs g' \<and>
    (\<forall>i < length (nodes g). NodeRef i \<in> reach (edges (\<lambda>n. n) g) (rootTypes g) \<longrightarrow>
      (\<forall>c0. node_at g i = Class c0 \<longrightarrow> (\<exists>c. node_at g' i = Class c \<and> cl_parents c = []))))"
proof -
  have "flat_start g" using assms by (simp add: flat_start_def)
  then show ?thesis
    by (rule spec_mono [OF flattener_run [of g False]]) (fastforce simp: flattened_def)+
qed

text \<open>
  C8: on every graph in which typedefs end, cyclic or not, the pass either returns or fails with one of
  three errors: a parent that is no class, container or incomplete type, a class that is its own parent,
  or a child that has children. If it returns, every reference still leads to a type of the graph, and no reachable class
  has a parent any more: it has the functions of its parents after its own, the members of its parents merged with its own
  and, as an allocator without template parameter, the one of its first parent. Each parent has given either what it has in the
  resulting graph, being done itself, or what it had in the graph before, as happens in a cycle. What cannot be reached is as before, and
  a class keeps its other fields.
\<close>

theorem flattener_result:
  assumes "wf_graph g" and "no_capture_keys g" and "typedefs_end g"
  shows "spec flat_errors (pass_run flattener_pass g v) (\<lambda>(g', v'). flat_graph g g' \<and> wf_refs g' \<and>
    (\<forall>i < length (nodes g). NodeRef i \<in> reach (edges (\<lambda>n. n) g) (rootTypes g) \<longrightarrow>
      (\<forall>c0. node_at g i = Class c0 \<longrightarrow> (\<exists>c. node_at g' i = Class c \<and> flattened False g g' c0 c))) \<and>
    (\<forall>i < length (nodes g). NodeRef i \<notin> reach (edges (\<lambda>n. n) g) (rootTypes g) \<longrightarrow> node_at g' i = node_at g i))"
proof -
  have "flat_start g" using assms by (simp add: flat_start_def)
  from flattener_run [OF this, of False] show ?thesis by simp
qed

lemma gifts_map: "list_all2 (\<lambda>p gf. flat_ref g (p_type p) \<and> gf = gift g p) ps gifts \<longleftrightarrow>
    (\<forall>p \<in> set ps. flat_ref g (p_type p)) \<and> gifts = map (gift g) ps"
  by (auto simp: list_all2_conv_all_nth list_eq_iff_nth_eq all_set_conv_all_nth)

text \<open>
  C31: on a graph without cycles what every parent gives is what it has once it is done itself, members shifted to where the
  parent is: no member is lost and none is there twice, the order of the class's own members and that of its parents' stay, and
  where both are in the order of their offsets the members of the class are those blocks stably sorted by offset,
  a parent before a member that starts where it does.
\<close>

theorem flattener_members:
  assumes "wf_graph g" and "no_capture_keys g" and "typedefs_end g" and "descending height g"
  shows "spec flat_errors (pass_run flattener_pass g v) (\<lambda>(g', v').
    \<forall>i < length (nodes g). NodeRef i \<in> reach (edges (\<lambda>n. n) g) (rootTypes g) \<longrightarrow>
      (\<forall>c0. node_at g i = Class c0 \<longrightarrow> (\<exists>c. node_at g' i = Class c \<and> cl_parents c = [] \<and>
        (\<forall>p \<in> set (cl_parents c0). flat_ref g' (p_type p)) \<and>
        cl_functions c = cl_functions c0 @ concat (map (parent_functions g') (cl_parents c0)) \<and>
        merged (map p_bitOffset (cl_parents c0)) (cl_members c0) (map (parent_members g') (cl_parents c0)) (cl_members c))))"
proof -
  have fs: "flat_start g" and dag: "True \<longrightarrow> descending height g" using assms by (simp_all add: flat_start_def)
  show ?thesis
  proof (rule spec_mono [OF flattener_run [OF fs dag]], clarify)
    fix g' v' i c0
    assume "\<forall>i < length (nodes g). NodeRef i \<in> reach (edges (\<lambda>n. n) g) (rootTypes g) \<longrightarrow>
        (\<forall>c0. node_at g i = Class c0 \<longrightarrow> (\<exists>c. node_at g' i = Class c \<and> flattened True g g' c0 c))"
      and "i < length (nodes g)" "NodeRef i \<in> reach (edges (\<lambda>n. n) g) (rootTypes g)" "node_at g i = Class c0"
    then obtain c where c: "node_at g' i = Class c" "flattened True g g' c0 c" by blast
    then obtain gifts where "list_all2 (\<lambda>p gf. flat_ref g' (p_type p) \<and> gf = gift g' p) (cl_parents c0) gifts"
      "cl_functions c = cl_functions c0 @ concat (map fst gifts)"
      "merged (map p_bitOffset (cl_parents c0)) (cl_members c0) (map (\<lambda>gf. fst (snd gf)) gifts) (cl_members c)"
      by (auto simp: flattened_def)
    moreover from this(1) have "(\<forall>p \<in> set (cl_parents c0). flat_ref g' (p_type p)) \<and> gifts = map (gift g') (cl_parents c0)"
      by (simp add: gifts_map)
    moreover have "cl_parents c = []" using c(2) by (simp add: flattened_def)
    ultimately show "\<exists>c. node_at g' i = Class c \<and> cl_parents c = [] \<and> (\<forall>p \<in> set (cl_parents c0). flat_ref g' (p_type p)) \<and>
        cl_functions c = cl_functions c0 @ concat (map (parent_functions g') (cl_parents c0)) \<and>
        merged (map p_bitOffset (cl_parents c0)) (cl_members c0) (map (parent_members g') (cl_parents c0)) (cl_members c)"
      using c(1) by (intro exI [of _ c]) (simp add: gift_def comp_def)
  qed
qed

section \<open>Concrete graphs\<close>

lemma typedefs_endI:
  assumes "list_all (\<lambda>i. stripTypedefs g (NodeRef i) \<noteq> Inl Diverge) [0..<length (nodes g)]"
  shows "typedefs_end g"
  unfolding typedefs_end_def
proof (intro allI impI)
  fix t assume "in_graph g t"
  then show "stripTypedefs g t \<noteq> Inl Diverge"
    by (cases t) (use assms in \<open>simp_all add: list_all_iff stripTypedefs_def chain_depth_def stripTypedefs_body_def\<close>)
qed

lemma descendingI:
  assumes "list_all (\<lambda>i. list_all (\<lambda>u. h u < h (NodeRef i)) (succs (nodes g ! i))) [0..<length (nodes g)]"
  shows "descending h g"
  using assms by (auto simp: descending_def list_all_iff node_at_def)

text \<open>A class whose parent is a typedef of a class, with a member before it and one after it.\<close>

definition parent_class :: class_node where
  "parent_class = (mk_class KStruct ''P'' ''P'' 8 0 1)\<lparr>cl_align := 4, cl_members :=
     [mk_member (PrimRef Int32) ''x'' 0 0, mk_member (PrimRef Int32) ''y'' 32 0]\<rparr>"

definition flat_example :: type_graph where
  "flat_example = \<lparr>nodes = [
     Class ((mk_class KStruct ''D'' ''D'' 24 0 0)\<lparr>cl_parents := [\<lparr>p_type = NodeRef 2, p_bitOffset = 64\<rparr>],
       cl_members := [mk_member (PrimRef Int64) ''a'' 0 0, mk_member (PrimRef Int64) ''b'' 128 0]\<rparr>),
     Class parent_class,
     Typedef (mk_typedef ''T'' (NodeRef 1) 2)],
   rootTypes = [NodeRef 0], finalTypes = [], next_id = 3\<rparr>"

lemma flat_example_ok: "wf_graph flat_example" "no_capture_keys flat_example" "typedefs_end flat_example"
proof -
  show "wf_graph flat_example" by (rule wf_checkD) code_simp
  show "typedefs_end flat_example" by (rule typedefs_endI) code_simp
qed code_simp

lemma flat_example_root: "NodeRef 0 \<in> reach (edges (\<lambda>n. n) flat_example) (rootTypes flat_example)"
  by (rule reach.root) (simp add: flat_example_def)

fun flat_height :: "tref \<Rightarrow> nat" where
  "flat_height (PrimRef k) = 0"
| "flat_height (NodeRef i) = (if i = 0 then 3 else if i = 1 then 1 else 2)"

definition member_names :: "ty \<Rightarrow> string list" where
  "member_names n = (case n of Class c \<Rightarrow> map m_name (cl_members c) | _ \<Rightarrow> [])"

lemma flat_example_run:
  "case pass_run flattener_pass flat_example [] of Inl e \<Rightarrow> False
   | Inr (g', v') \<Rightarrow> member_names (node_at g' 0) = [''a'', ''x'', ''y'', ''b'']"
  by code_simp

lemma flat_example_returns:
  obtains g' v' where "pass_run flattener_pass flat_example [] = Inr (g', v')"
    "member_names (node_at g' 0) = [''a'', ''x'', ''y'', ''b'']"
  using flat_example_run by (auto split: sum.splits prod.splits)

theorem flattener_result_witness:
  "\<exists>g' v' c0 c. pass_run flattener_pass flat_example [] = Inr (g', v') \<and> node_at flat_example 0 = Class c0 \<and>
     node_at g' 0 = Class c \<and> flattened False flat_example g' c0 c \<and> map m_name (cl_members c) = [''a'', ''x'', ''y'', ''b'']"
proof -
  obtain g' v' where run: "pass_run flattener_pass flat_example [] = Inr (g', v')"
    "member_names (node_at g' 0) = [''a'', ''x'', ''y'', ''b'']" by (rule flat_example_returns)
  obtain c0 where c0: "node_at flat_example 0 = Class c0" "0 < length (nodes flat_example)"
    by (simp add: flat_example_def node_at_def)
  from flattener_result [OF flat_example_ok, of "[]"] run(1)
  have "\<forall>i < length (nodes flat_example). NodeRef i \<in> reach (edges (\<lambda>n. n) flat_example) (rootTypes flat_example) \<longrightarrow>
      (\<forall>c0. node_at flat_example i = Class c0 \<longrightarrow> (\<exists>c. node_at g' i = Class c \<and> flattened False flat_example g' c0 c))"
    by simp
  then obtain c where "node_at g' 0 = Class c" "flattened False flat_example g' c0 c"
    using c0 flat_example_root by blast
  then show ?thesis using run c0 by (simp add: member_names_def)
qed

theorem flattener_members_witness:
  "\<exists>g' v' c0 c. pass_run flattener_pass flat_example [] = Inr (g', v') \<and> node_at flat_example 0 = Class c0 \<and>
     node_at g' 0 = Class c \<and> cl_parents c = [] \<and> map m_name (cl_members c) = [''a'', ''x'', ''y'', ''b''] \<and>
     merged [64] (cl_members c0) [parent_members g' \<lparr>p_type = NodeRef 2, p_bitOffset = 64\<rparr>] (cl_members c)"
proof -
  obtain g' v' where run: "pass_run flattener_pass flat_example [] = Inr (g', v')"
    "member_names (node_at g' 0) = [''a'', ''x'', ''y'', ''b'']" by (rule flat_example_returns)
  obtain c0 where c0: "node_at flat_example 0 = Class c0" "0 < length (nodes flat_example)"
      "cl_parents c0 = [\<lparr>p_type = NodeRef 2, p_bitOffset = 64\<rparr>]"
    by (simp add: flat_example_def node_at_def)
  have d: "descending flat_height flat_example" by (rule descendingI) code_simp
  from flattener_members [OF flat_example_ok d, of "[]"] run(1)
  have "\<forall>i < length (nodes flat_example). NodeRef i \<in> reach (edges (\<lambda>n. n) flat_example) (rootTypes flat_example) \<longrightarrow>
      (\<forall>c0. node_at flat_example i = Class c0 \<longrightarrow> (\<exists>c. node_at g' i = Class c \<and> cl_parents c = [] \<and>
        merged (map p_bitOffset (cl_parents c0)) (cl_members c0) (map (parent_members g') (cl_parents c0)) (cl_members c)))"
    by simp blast
  then obtain c where "node_at g' 0 = Class c" "cl_parents c = []"
    "merged (map p_bitOffset (cl_parents c0)) (cl_members c0) (map (parent_members g') (cl_parents c0)) (cl_members c)"
    using c0(1,2) flat_example_root by blast
  then show ?thesis using run c0 by (simp add: member_names_def)
qed

text \<open>A class, one derived from it and one derived from that.\<close>

definition grandchild_graph :: type_graph where
  "grandchild_graph = \<lparr>nodes = [
     Class ((mk_class KStruct ''A'' ''A'' 8 1 0)\<lparr>cl_children := [NodeRef 1]\<rparr>),
     Class ((mk_class KStruct ''B'' ''B'' 8 1 1)\<lparr>cl_parents := [\<lparr>p_type = NodeRef 0, p_bitOffset = 0\<rparr>],
       cl_children := [NodeRef 2]\<rparr>),
     Class ((mk_class KStruct ''C'' ''C'' 8 1 2)\<lparr>cl_parents := [\<lparr>p_type = NodeRef 1, p_bitOffset = 0\<rparr>]\<rparr>)],
   rootTypes = [NodeRef 0], finalTypes = [], next_id = 3\<rparr>"

text \<open>
  \<^verbatim>\<open>struct Base { int x; }; struct Node : Base { Derived *d; }; struct Derived : Node { };\<close> with the root \<^verbatim>\<open>Node\<close>.
\<close>

definition cycle_graph :: type_graph where
  "cycle_graph = \<lparr>nodes = [
     Class ((mk_class KStruct ''Node'' ''Node'' 16 0 0)\<lparr>cl_parents := [\<lparr>p_type = NodeRef 1, p_bitOffset = 0\<rparr>],
       cl_members := [mk_member (NodeRef 2) ''d'' 64 0]\<rparr>),
     Class ((mk_class KStruct ''Base'' ''Base'' 4 0 1)\<lparr>cl_members := [mk_member (PrimRef Int32) ''x'' 0 0]\<rparr>),
     Pointer \<lparr>pt_id = 2, pt_pointee = NodeRef 3, pt_inputName = '''', pt_name = ''Derived*''\<rparr>,
     Class ((mk_class KStruct ''Derived'' ''Derived'' 16 0 3)\<lparr>cl_parents := [\<lparr>p_type = NodeRef 0, p_bitOffset = 0\<rparr>]\<rparr>)],
   rootTypes = [NodeRef 0], finalTypes = [], next_id = 4\<rparr>"

text \<open>
  The last loop of a visit inserts into the vector of children it goes through, so that the pass is undefined on three classes
  derived from one another. In a cycle the pass can lose members: a class derived from one that is still being visited
  gets the members that one has by then, here the member of the base class is in \<^verbatim>\<open>Node\<close> and not in \<^verbatim>\<open>Derived\<close>,
  which is a \<^verbatim>\<open>Node\<close>.
\<close>

lemma grandchild_example:
  "pass_run flattener_pass grandchild_graph [] = Inl (Undefined ''insertion into the vector of the loop'')"
  by code_simp

lemma cycle_example:
  "case pass_run flattener_pass cycle_graph [] of Inl e \<Rightarrow> False
   | Inr (g', v') \<Rightarrow> member_names (node_at g' 0) = [''x'', ''d''] \<and> member_names (node_at g' 3) = [''d'']"
  by code_simp

end
