(* ===== verification/AddChildren.thy ===== *)
theory AddChildren
  imports DrgnParser Flattener
begin

text \<open>
  \<^verbatim>\<open>oi/type_graph/AddChildren.cpp\<close>: debug information names the parents of a class only. The pass
  goes through all types of the program, records each class under the names of its parents, and then gives the
  dynamic classes it meets in the graph their children, which it parses with a parser of its own. What the type
  iterator of drgn answers is a parameter; the sequence of its answers is finite.
\<close>

section \<open>The map from parents to children\<close>

text \<open>
  \<open>ts_env\<close>: the environment variable could be set. \<open>ts_types\<close>: \<open>None\<close> if no iterator could be made, and else its
  answers in their order, \<open>None\<close> where an answer is an error.
\<close>

record 'd type_source =
  ts_env :: bool
  ts_types :: "'d option list option"

partial_function (option) underlyingType :: "'d drgn \<Rightarrow> 'd \<Rightarrow> 'd option" where
  "underlyingType api d = (if dr_kind api d = DK_TYPEDEF then underlyingType api (dr_type api d) else Some d)"

declare underlyingType.simps [code]

type_synonym 'd child_classes = "string \<Rightarrow> 'd list option"

definition push_class :: "string \<Rightarrow> 'd \<Rightarrow> 'd child_classes \<Rightarrow> 'd child_classes" where
  "push_class name d m = m(name \<mapsto> (case m name of None \<Rightarrow> [] | Some ds \<Rightarrow> ds) @ [d])"

definition record_parent :: "'d drgn \<Rightarrow> 'd \<Rightarrow> 'd option \<times> u64 \<Rightarrow> 'd child_classes \<Rightarrow> 'd child_classes outcome" where
  "record_parent api d q m = (case fst q of
      None \<Rightarrow> Inr m
    | Some t \<Rightarrow> (case underlyingType api t of
        None \<Rightarrow> Inl Diverge
      | Some parent \<Rightarrow>
          if \<not> isSizeComplete api parent then Inr m
          else case dr_tag api parent of
            None \<Rightarrow> Inr m
          | Some parentName \<Rightarrow> Inr (push_class parentName d m)))"

definition recordChildren :: "'d drgn \<Rightarrow> 'd \<Rightarrow> 'd child_classes \<Rightarrow> 'd child_classes outcome" where
  "recordChildren api d m = for_each (record_parent api d) (dr_parents api d) m"

definition enumerateChildClasses :: "'d drgn \<Rightarrow> 'd type_source \<Rightarrow> 'd child_classes \<Rightarrow> 'd child_classes outcome" where
  "enumerateChildClasses api src m =
     (if \<not> ts_env src then Inl Aborted
      else case ts_types src of
        None \<Rightarrow> Inl Aborted
      | Some answers \<Rightarrow> for_each (\<lambda>a m. case a of
            None \<Rightarrow> Inr m
          | Some d \<Rightarrow>
              if dr_kind api d \<noteq> DK_CLASS \<and> dr_kind api d \<noteq> DK_STRUCT then Inr m
              else recordChildren api d m) answers m)"

section \<open>The visitor\<close>

record 'd ac_state =
  ac_parser :: "'d parser"
  ac_visited :: "tref set"

definition ac_graph :: "'d ac_state \<Rightarrow> type_graph" where
  "ac_graph s = dp_graph (ac_parser s)"

type_synonym 'd ac_walker = "(tref, 'd ac_state, 'd ac_state) call"

text \<open>Whether one of the parents is, behind typedefs, a class of the name \<open>fq\<close>.\<close>

fun isActuallyChild :: "type_graph \<Rightarrow> string \<Rightarrow> parent list \<Rightarrow> bool outcome" where
  "isActuallyChild g fq [] = Inr False"
| "isActuallyChild g fq (p # ps) =
     bindE (stripTypedefs g (p_type p)) (\<lambda>t. bindE (deref g t) (\<lambda>n. case n of
         Class parentClass \<Rightarrow> if fqName parentClass = fq then Inr True else isActuallyChild g fq ps
       | _ \<Rightarrow> isActuallyChild g fq ps))"

definition push_child :: "tref \<Rightarrow> tref \<Rightarrow> 'd ac_state \<Rightarrow> 'd ac_state outcome" where
  "push_child t child s = bindE (deref (ac_graph s) t) (\<lambda>n. case n of
      Class c \<Rightarrow> Inr (s\<lparr>ac_parser := (ac_parser s)\<lparr>dp_graph :=
        put_node t (Class (c\<lparr>cl_children := cl_children c @ [child]\<rparr>)) (ac_graph s)\<rparr>\<rparr>)
    | _ \<Rightarrow> Inl (Undefined ''not a class''))"

definition add_child :: "'d drgn \<Rightarrow> sorts \<Rightarrow> drgn_options \<Rightarrow> nat \<Rightarrow> tref \<Rightarrow> string \<Rightarrow> 'd \<Rightarrow> 'd ac_state \<Rightarrow> 'd ac_state outcome" where
  "add_child api srt opts fuel t fq drgnChild s = (case drgn_parse api srt opts fuel drgnChild (ac_parser s) of
      (Inl e, p) \<Rightarrow> Inl e
    | (Inr child, p) \<Rightarrow>
        bindE (deref (dp_graph p) child) (\<lambda>n. case n of
          Class childClass \<Rightarrow>
            bindE (isActuallyChild (dp_graph p) fq (cl_parents childClass)) (\<lambda>b.
            if b then push_child t child (s\<lparr>ac_parser := p\<rparr>) else Inr (s\<lparr>ac_parser := p\<rparr>))
        | _ \<Rightarrow> Inl Aborted))"

text \<open>
  \<open>c\<close> is the class when its visit begins. Only its children change during the visit, and they are read again.
  What parses and adds one child is an argument, since the parser may be gone when the pass runs.
\<close>

definition visit_class :: "(tref \<Rightarrow> string \<Rightarrow> 'd \<Rightarrow> 'd ac_state \<Rightarrow> 'd ac_state outcome) \<Rightarrow> 'd child_classes \<Rightarrow> 'd ac_walker \<Rightarrow>
    tref \<Rightarrow> class_node \<Rightarrow> 'd ac_state \<Rightarrow> 'd ac_state outcome" where
  "visit_class add childClasses accept t c s =
     bindE (for_each (\<lambda>p. accept (tp_type p)) (cl_templateParams c) s) (\<lambda>s.
     bindE (for_each (\<lambda>m. accept (m_type m)) (cl_members c) s) (\<lambda>s.
     if \<not> isDynamic c then Inr s
     else case childClasses (cl_name c) of
       None \<Rightarrow> Inr s
     | Some drgnChildren \<Rightarrow>
         bindE (for_each (add t (fqName c)) drgnChildren s) (\<lambda>s.
         bindE (deref (ac_graph s) t) (\<lambda>n. case n of
           Class c \<Rightarrow> for_each accept (cl_children c) s
         | _ \<Rightarrow> Inl (Undefined ''not a class'')))))"

definition add_children_body :: "(tref \<Rightarrow> string \<Rightarrow> 'd \<Rightarrow> 'd ac_state \<Rightarrow> 'd ac_state outcome) \<Rightarrow> 'd child_classes \<Rightarrow>
    'd ac_walker \<Rightarrow> 'd ac_walker" where
  "add_children_body add childClasses accept t s =
     (if t \<in> ac_visited s then Inr s
      else let s = s\<lparr>ac_visited := insert t (ac_visited s)\<rparr> in
        bindE (deref (ac_graph s) t) (\<lambda>n. case n of
          Class c \<Rightarrow> visit_class add childClasses accept t c s
        | _ \<Rightarrow> recursive_visit accept n s))"

definition addChildren_run :: "(tref \<Rightarrow> string \<Rightarrow> 'd \<Rightarrow> 'd ac_state \<Rightarrow> 'd ac_state outcome) \<Rightarrow> 'd drgn \<Rightarrow> 'd type_source \<Rightarrow> nat \<Rightarrow>
    'd parser \<Rightarrow> type_graph outcome" where
  "addChildren_run add api src depth p =
     bindE (enumerateChildClasses api src Map.empty) (\<lambda>childClasses.
     bindE (for_each (recur (add_children_body add childClasses) depth) (rootTypes (dp_graph p))
       \<lparr>ac_parser = p, ac_visited = {}\<rparr>) (\<lambda>s. Inr (ac_graph s)))"

definition addChildren_pass :: "'d drgn \<Rightarrow> sorts \<Rightarrow> drgn_options \<Rightarrow> 'd type_source \<Rightarrow> nat \<Rightarrow> nat \<Rightarrow> 'd parser \<Rightarrow> type_graph outcome" where
  "addChildren_pass api srt opts src fuel depth = addChildren_run (add_child api srt opts fuel) api src depth"

section \<open>What the map holds\<close>

text \<open>The name under which a class is recorded for a parent, and the classes recorded under a name.\<close>

definition parent_name :: "'d drgn \<Rightarrow> 'd option \<times> u64 \<Rightarrow> string option" where
  "parent_name api q = (case fst q of None \<Rightarrow> None | Some t \<Rightarrow> (case underlyingType api t of None \<Rightarrow> None | Some parent \<Rightarrow>
     if isSizeComplete api parent then dr_tag api parent else None))"

definition recorded_for :: "'d drgn \<Rightarrow> string \<Rightarrow> 'd option \<Rightarrow> 'd list" where
  "recorded_for api name a = (case a of None \<Rightarrow> [] | Some d \<Rightarrow>
     if dr_kind api d = DK_CLASS \<or> dr_kind api d = DK_STRUCT
     then map (\<lambda>_. d) (filter (\<lambda>q. parent_name api q = Some name) (dr_parents api d)) else [])"

definition recorded :: "'d drgn \<Rightarrow> 'd option list \<Rightarrow> string \<Rightarrow> 'd list" where
  "recorded api answers name = concat (map (recorded_for api name) answers)"

definition classes_of :: "'d child_classes \<Rightarrow> string \<Rightarrow> 'd list" where
  "classes_of m name = (case m name of None \<Rightarrow> [] | Some ds \<Rightarrow> ds)"

lemma underlying_ends:
  assumes "debug_info api D rk M" and "d \<in> D"
  shows "\<exists>u. underlyingType api d = Some u"
  using assms(2)
proof (induction "rk d" arbitrary: d rule: less_induct)
  case less
  show ?case
  proof (cases "dr_kind api d = DK_TYPEDEF")
    case True
    then have "dr_type api d \<in> D" "rk (dr_type api d) < rk d"
      using assms(1) less.prems by (auto simp: debug_info_def is_link_kind_def type_refs_def is_class_kind_def)
    then show ?thesis using less.hyps True by (subst underlyingType.simps) simp
  qed (simp add: underlyingType.simps)
qed

definition no_empty :: "'d child_classes \<Rightarrow> bool" where
  "no_empty m \<longleftrightarrow> (\<forall>name. m name \<noteq> Some [])"

lemma classes_of_push: "classes_of (push_class name d m) name' = classes_of m name' @ (if name' = name then [d] else [])"
  by (simp add: classes_of_def push_class_def)

lemma no_empty_push: "no_empty m \<Longrightarrow> no_empty (push_class name d m)"
  by (simp add: no_empty_def push_class_def)

lemma recordChildren_result:
  assumes "debug_info api D rk M" and "d \<in> D" and "is_class_kind (dr_kind api d)"
  shows "\<exists>m'. recordChildren api d m = Inr m' \<and> (no_empty m \<longrightarrow> no_empty m') \<and> (\<forall>name. classes_of m' name =
    classes_of m name @ map (\<lambda>_. d) (filter (\<lambda>q. parent_name api q = Some name) (dr_parents api d)))"
proof -
  have "\<exists>m'. for_each (record_parent api d) qs m = Inr m' \<and> (no_empty m \<longrightarrow> no_empty m') \<and> (\<forall>name. classes_of m' name =
      classes_of m name @ map (\<lambda>_. d) (filter (\<lambda>q. parent_name api q = Some name) qs))"
    if "\<And>t. Some t \<in> fst ` set qs \<Longrightarrow> t \<in> D" for qs
    using that
  proof (induction qs arbitrary: m)
    case (Cons q qs)
    have "\<exists>m'. record_parent api d q m = Inr m' \<and> (no_empty m \<longrightarrow> no_empty m') \<and> (\<forall>name. classes_of m' name =
        classes_of m name @ (if parent_name api q = Some name then [d] else []))"
    proof (cases "fst q")
      case (Some t)
      then obtain u where "underlyingType api t = Some u" using underlying_ends [OF assms(1), of t] Cons.prems by auto
      then show ?thesis using Some by (auto simp: record_parent_def parent_name_def classes_of_push no_empty_push split: option.splits)
    qed (simp add: record_parent_def parent_name_def)
    then show ?case using Cons.IH Cons.prems by fastforce
  qed simp
  moreover have "t \<in> D" if "Some t \<in> fst ` set (dr_parents api d)" for t
    using class_refs(1) [OF assms] that by (metis imageE prod.collapse)
  ultimately show ?thesis unfolding recordChildren_def by blast
qed

lemma enumerateChildClasses_result:
  assumes "debug_info api D rk M" and "\<And>d. Some d \<in> set answers \<Longrightarrow> d \<in> D" and "ts_env src" and "ts_types src = Some answers"
  shows "\<exists>m'. enumerateChildClasses api src m = Inr m' \<and> (no_empty m \<longrightarrow> no_empty m') \<and> (\<forall>name. classes_of m' name = classes_of m name @ recorded api answers name)"
proof -
  let ?f = "\<lambda>a m. case a of None \<Rightarrow> Inr m | Some d \<Rightarrow> if dr_kind api d \<noteq> DK_CLASS \<and> dr_kind api d \<noteq> DK_STRUCT then Inr m
      else recordChildren api d m"
  have "\<exists>m'. for_each ?f as m = Inr m' \<and> (no_empty m \<longrightarrow> no_empty m') \<and> (\<forall>name. classes_of m' name = classes_of m name @ recorded api as name)"
    if "set as \<subseteq> set answers" for as
    using that
  proof (induction as arbitrary: m)
    case (Cons a as)
    have "\<exists>m'. ?f a m = Inr m' \<and> (no_empty m \<longrightarrow> no_empty m') \<and> (\<forall>name. classes_of m' name = classes_of m name @ recorded_for api name a)"
    proof (cases a)
      case (Some d)
      then have "d \<in> D" using Cons.prems assms(2) by simp
      then show ?thesis
        using Some recordChildren_result [OF assms(1), of d m] by (auto simp: recorded_for_def is_class_kind_def)
    qed (simp add: recorded_for_def)
    then show ?case using Cons.IH Cons.prems by (fastforce simp: recorded_def)
  qed (simp add: recorded_def)
  then show ?thesis using assms(3,4) by (simp add: enumerateChildClasses_def)
qed

section \<open>The children of a node\<close>

fun sans_kids :: "ty \<Rightarrow> ty" where
  "sans_kids (Class c) = Class (c\<lparr>cl_children := []\<rparr>)"
| "sans_kids n = n"

lemma sans_kids_class: "sans_kids n = Class (c\<lparr>cl_children := []\<rparr>) \<longleftrightarrow> (\<exists>ks. n = Class (c\<lparr>cl_children := ks\<rparr>))"
proof
  assume e: "sans_kids n = Class (c\<lparr>cl_children := []\<rparr>)"
  then obtain d where d: "n = Class d" by (cases n) auto
  then have "d\<lparr>cl_children := []\<rparr> = c\<lparr>cl_children := []\<rparr>" using e by simp
  then have "d = c\<lparr>cl_children := cl_children d\<rparr>"
    by (metis class_node.surjective class_node.update_convs(13))
  then show "\<exists>ks. n = Class (c\<lparr>cl_children := ks\<rparr>)" using d by blast
qed auto

lemma sans_kids_keeps: "typedef_nxt (sans_kids n) = typedef_nxt n" "ctor_of (sans_kids n) = ctor_of n"
  by (cases n; simp)+

lemma sans_kids_same: "sans_kids n' = sans_kids n \<Longrightarrow> typedef_nxt n' = typedef_nxt n \<and> ctor_of n' = ctor_of n"
  using sans_kids_keeps by metis

lemma sans_kids_fields [simp]:
  "fqName (c\<lparr>cl_children := ks\<rparr>) = fqName c" "isDynamic (c\<lparr>cl_children := ks\<rparr>) = isDynamic c"
  by (simp_all add: fqName_def isDynamic_def)

definition ac_kids :: "type_graph \<Rightarrow> nat \<Rightarrow> tref list" where
  "ac_kids g0 i = (if i < length (nodes g0) then kids (node_at g0 i) else [])"

definition child_of :: "type_graph \<Rightarrow> string \<Rightarrow> tref \<Rightarrow> bool" where
  "child_of g fq u = (case deref g u of Inr (Class c) \<Rightarrow> isActuallyChild g fq (cl_parents c) = Inr True | _ \<Rightarrow> False)"

text \<open>Between two graphs nodes are added, and nodes get children.\<close>

definition shape_le :: "type_graph \<Rightarrow> type_graph \<Rightarrow> bool" where
  "shape_le g g' \<longleftrightarrow> extends g g' \<and> finalTypes g' = finalTypes g \<and>
     (\<forall>i < length (nodes g). sans_kids (node_at g' i) = sans_kids (node_at g i))"

lemma shape_le_refl [simp]: "shape_le g g"
  by (simp add: shape_le_def)

lemma shape_le_trans: "shape_le g g' \<Longrightarrow> shape_le g' g'' \<Longrightarrow> shape_le g g''"
  using extends_trans by (auto simp: shape_le_def extends_def)

lemma shape_le_strip:
  assumes "wf_refs g" "in_graph g t" "shape_le g g'"
  shows "stripTypedefs g' t = stripTypedefs g t"
proof (rule strip_cong [OF assms(1,2)])
  show "i < length (nodes g') \<and> typedef_nxt (node_at g' i) = typedef_nxt (node_at g i)" if "i < length (nodes g)" for i
    using assms(3) that sans_kids_same [of "node_at g' i" "node_at g i"] by (simp add: shape_le_def extends_def)
qed

lemma shape_le_deref:
  assumes "shape_le g g'" "deref g t = Inr n"
  shows "\<exists>n'. deref g' t = Inr n' \<and> sans_kids n' = sans_kids n"
proof (cases t)
  case (NodeRef i)
  note own = deref_owned [OF assms(2) [unfolded NodeRef]]
  then show ?thesis using assms(1) NodeRef by (auto simp: shape_le_def extends_def)
qed (use assms in simp)

lemma strip_in_graph:
  assumes "wf_refs g" "in_graph g t" "stripTypedefs g t = Inr v"
  shows "in_graph g v"
  using strip_upto [OF assms(1,2), of "chain_depth g"] assms(3) unfolding stripTypedefs_def by auto

lemma isActuallyChild_le:
  assumes "wf_refs g" "shape_le g g'" and "\<And>p. p \<in> set ps \<Longrightarrow> in_graph g (p_type p)"
  shows "isActuallyChild g' fq ps = isActuallyChild g fq ps"
  using assms(3)
proof (induction ps)
  case (Cons p ps)
  have IH: "isActuallyChild g' fq ps = isActuallyChild g fq ps" using Cons by simp
  have p: "in_graph g (p_type p)" using Cons.prems by simp
  have strip: "stripTypedefs g' (p_type p) = stripTypedefs g (p_type p)" by (rule shape_le_strip [OF assms(1) p assms(2)])
  show ?case
  proof (cases "stripTypedefs g (p_type p)")
    case (Inr v)
    then obtain n where n: "deref g v = Inr n" using strip_in_graph [OF assms(1) p] deref_in_graph by blast
    then obtain n' where n': "deref g' v = Inr n'" "sans_kids n' = sans_kids n" using shape_le_deref [OF assms(2)] by blast
    show ?thesis
    proof (cases "\<exists>c. n = Class c")
      case True
      then show ?thesis using n' n Inr strip IH by (auto simp: sans_kids_class)
    next
      case False
      then show ?thesis using n' n Inr strip IH by (cases n; cases n') simp_all
    qed
  qed (simp add: strip)
qed simp

lemma child_of_le:
  assumes "wf_refs g" "shape_le g g'" "deref g u = Inr (Class c)"
  shows "child_of g' fq u = child_of g fq u"
proof -
  obtain ks where c': "deref g' u = Inr (Class (c\<lparr>cl_children := ks\<rparr>))"
    using shape_le_deref [OF assms(2,3)] by (auto simp: sans_kids_class)
  obtain i where i: "i < length (nodes g)" "node_at g i = Class c" by (rule deref_owner [OF assms(3)]) simp_all
  have "in_graph g (p_type p)" if "p \<in> set (cl_parents c)" for p
    using wf_refsD [OF assms(1) i(1)] i(2) that by simp
  then show ?thesis using isActuallyChild_le [OF assms(1,2)] c' assms(3) by (simp add: child_of_def)
qed

section \<open>The invariant of the pass\<close>

text \<open>
  \<open>og\<close> are the types of the nodes the parser of the pass has made (as in \<open>DrgnParser\<close>), \<open>g0\<close> is the graph at the
  start, \<open>G\<close> are the nodes whose visit is under way. Every other node that is visited has its children, and all it
  leads to is visited; a node that is not visited has the children it began with.
\<close>

definition ac_succs :: "(string \<Rightarrow> 'd list) \<Rightarrow> ty \<Rightarrow> tref list" where
  "ac_succs classes n = (case n of
      Class c \<Rightarrow> map tp_type (cl_templateParams c) @ map m_type (cl_members c) @
        (if isDynamic c \<and> classes (cl_name c) \<noteq> [] then cl_children c else [])
    | _ \<Rightarrow> succs n)"

definition made_class :: "'d origin \<Rightarrow> 'd \<Rightarrow> tref \<Rightarrow> bool" where
  "made_class og d u \<longleftrightarrow> (\<exists>i. u = NodeRef i \<and> og i = Some (d, True))"

definition wanted :: "'d child_classes \<Rightarrow> class_node \<Rightarrow> 'd list" where
  "wanted m c = (if isDynamic c then classes_of m (cl_name c) else [])"

definition has_kids :: "type_graph \<Rightarrow> 'd origin \<Rightarrow> type_graph \<Rightarrow> nat \<Rightarrow> 'd list \<Rightarrow> class_node \<Rightarrow> bool" where
  "has_kids g0 og g i ds c \<longleftrightarrow> (\<exists>us. list_all2 (made_class og) ds us \<and>
     cl_children c = ac_kids g0 i @ filter (child_of g (fqName c)) us)"

definition ac_done :: "'d child_classes \<Rightarrow> type_graph \<Rightarrow> 'd origin \<Rightarrow> 'd ac_state \<Rightarrow> nat \<Rightarrow> bool" where
  "ac_done m g0 og s i \<longleftrightarrow> set (ac_succs (classes_of m) (node_at (ac_graph s) i)) \<subseteq> ac_visited s \<and>
     (\<forall>c. node_at (ac_graph s) i = Class c \<longrightarrow> has_kids g0 og (ac_graph s) i (wanted m c) c)"

definition ac_inv :: "'d drgn \<Rightarrow> sorts \<Rightarrow> drgn_options \<Rightarrow> 'd set \<Rightarrow> 'd child_classes \<Rightarrow> type_graph \<Rightarrow> nat set \<Rightarrow> 'd origin \<Rightarrow> 'd ac_state \<Rightarrow> bool" where
  "ac_inv api srt opts D m g0 G og s \<longleftrightarrow> inv api srt opts D og (ac_parser s) \<and> (\<forall>i d. og i \<noteq> Some (d, False)) \<and>
     shape_le g0 (ac_graph s) \<and> (\<forall>t \<in> ac_visited s. in_graph (ac_graph s) t) \<and>
     (\<forall>i < length (nodes (ac_graph s)). NodeRef i \<notin> ac_visited s \<longrightarrow> kids (node_at (ac_graph s) i) = ac_kids g0 i) \<and>
     (\<forall>i. NodeRef i \<in> ac_visited s \<longrightarrow> i \<notin> G \<longrightarrow> ac_done m g0 og s i)"

text \<open>Between two states; the visited nodes stay as they are, apart from those in \<open>X\<close>.\<close>

definition ac_le :: "nat set \<Rightarrow> 'd origin \<Rightarrow> 'd ac_state \<Rightarrow> 'd origin \<Rightarrow> 'd ac_state \<Rightarrow> bool" where
  "ac_le X og s og' s' \<longleftrightarrow> og \<subseteq>\<^sub>m og' \<and> shape_le (ac_graph s) (ac_graph s') \<and> ac_visited s \<subseteq> ac_visited s' \<and>
     (\<forall>i < length (nodes (ac_graph s)). NodeRef i \<in> ac_visited s \<longrightarrow> i \<notin> X \<longrightarrow>
        node_at (ac_graph s') i = node_at (ac_graph s) i)"

lemma ac_le_refl [simp]: "ac_le X og s og s"
  by (simp add: ac_le_def)

lemma ac_le_trans:
  assumes "ac_le X og s og' s'" "ac_le Y og' s' og'' s''" "Y \<subseteq> X"
  shows "ac_le X og s og'' s''"
proof -
  have "node_at (ac_graph s'') i = node_at (ac_graph s) i"
    if i: "i < length (nodes (ac_graph s))" "NodeRef i \<in> ac_visited s" "i \<notin> X" for i
  proof -
    have "i < length (nodes (ac_graph s'))" using i assms(1) by (simp add: ac_le_def shape_le_def extends_def)
    then show ?thesis using i assms unfolding ac_le_def by (metis subsetD)
  qed
  moreover have "og \<subseteq>\<^sub>m og''" using assms(1,2) map_le_trans by (auto simp: ac_le_def)
  moreover have "shape_le (ac_graph s) (ac_graph s'')" using assms(1,2) shape_le_trans by (auto simp: ac_le_def)
  moreover have "ac_visited s \<subseteq> ac_visited s''" using assms(1,2) by (auto simp: ac_le_def)
  ultimately show ?thesis by (simp add: ac_le_def)
qed

lemma ac_le_mono: "ac_le X og s og' s' \<Longrightarrow> X \<subseteq> Y \<Longrightarrow> ac_le Y og s og' s'"
  by (auto simp: ac_le_def)

lemma made_class_le: "made_class og d u \<Longrightarrow> og \<subseteq>\<^sub>m og' \<Longrightarrow> made_class og' d u"
  by (fastforce simp: made_class_def map_le_def dom_def)

lemma inv_wf: "inv api srt opts D og p \<Longrightarrow> wf_graph (dp_graph p) \<and> wf_refs (dp_graph p)"
  by (simp add: inv_def wf_graph_def)

lemma made_class_deref:
  assumes "inv api srt opts D og p" "made_class og d u" "is_class_kind (dr_kind api d)"
  obtains c where "deref (dp_graph p) u = Inr (Class c)" "lists_ok api srt (stands api opts og (dp_graph p)) d c"
    "header_ok api d c"
proof -
  obtain i where i: "u = NodeRef i" "og i = Some (d, True)" using assms(2) by (auto simp: made_class_def)
  note n = inv_node [OF assms(1) i(2)]
  have "\<exists>c. node_at (dp_graph p) i = Class c" using n(3) assms(3) by (auto simp: node_ok_def is_class_kind_def split: ty.splits)
  then show ?thesis using that n(2,3) i(1) by (auto simp: node_ok_def)
qed

lemma list_all2_set2: "list_all2 P xs ys \<Longrightarrow> y \<in> set ys \<Longrightarrow> \<exists>x \<in> set xs. P x y"
  by (induction rule: list_all2_induct) auto

lemma filter_child_of_le:
  assumes "inv api srt opts D og p" "dp_graph p = g" and le: "shape_le g g'"
    and ds: "\<forall>d \<in> set ds. is_class_kind (dr_kind api d)" and us: "list_all2 (made_class og) ds us"
  shows "filter (child_of g' fq) us = filter (child_of g fq) us"
proof -
  have "child_of g' fq u = child_of g fq u" if u: "u \<in> set us" for u
  proof -
    obtain d where d: "d \<in> set ds" "made_class og d u" using list_all2_set2 [OF us u] by blast
    obtain cc where "deref g u = Inr (Class cc)" using made_class_deref [OF assms(1) d(2)] ds d(1) assms(2) by blast
    then show ?thesis using child_of_le [OF _ le] inv_wf [OF assms(1)] assms(2) by blast
  qed
  then show ?thesis by (simp cong: filter_cong)
qed

lemma has_kids_le:
  assumes "inv api srt opts D og p" "dp_graph p = g" and le: "og \<subseteq>\<^sub>m og'" "shape_le g g'"
    and ds: "\<forall>d \<in> set ds. is_class_kind (dr_kind api d)" and has: "has_kids g0 og g i ds c"
  shows "has_kids g0 og' g' i ds c"
proof -
  obtain us where us: "list_all2 (made_class og) ds us" "cl_children c = ac_kids g0 i @ filter (child_of g (fqName c)) us"
    using has by (auto simp: has_kids_def)
  have "list_all2 (made_class og') ds us" by (rule list_all2_mono [OF us(1)]) (rule made_class_le [OF _ le(1)])
  then show ?thesis
    using us(2) filter_child_of_le [OF assms(1,2) le(2) ds us(1)] unfolding has_kids_def by (intro exI [of _ us]) simp
qed

definition class_map :: "'d drgn \<Rightarrow> 'd set \<Rightarrow> 'd child_classes \<Rightarrow> bool" where
  "class_map api D m \<longleftrightarrow> no_empty m \<and> (\<forall>name. \<forall>d \<in> set (classes_of m name).
     d \<in> D \<and> is_class_kind (dr_kind api d) \<and> isSizeComplete api d)"

lemma wanted_class: "class_map api D m \<Longrightarrow> d \<in> set (wanted m c) \<Longrightarrow> d \<in> D \<and> is_class_kind (dr_kind api d) \<and> isSizeComplete api d"
  by (auto simp: wanted_def class_map_def split: if_splits)

lemma ac_done_le:
  assumes "ac_inv api srt opts D m g0 G og s" and le: "ac_le X og s og' s'" and m: "class_map api D m"
    and i: "NodeRef i \<in> ac_visited s" "i \<notin> X" "ac_done m g0 og s i"
  shows "ac_done m g0 og' s' i"
proof -
  have "i < length (nodes (ac_graph s))" using assms(1) i(1) by (auto simp: ac_inv_def)
  then have same: "node_at (ac_graph s') i = node_at (ac_graph s) i" using le i by (simp add: ac_le_def)
  moreover have "has_kids g0 og' (ac_graph s') i (wanted m c) c" if "has_kids g0 og (ac_graph s) i (wanted m c) c" for c
  proof (rule has_kids_le [OF _ _ _ _ _ that])
    show "inv api srt opts D og (ac_parser s)" using assms(1) by (simp add: ac_inv_def)
    show "dp_graph (ac_parser s) = ac_graph s" by (simp add: ac_graph_def)
    show "og \<subseteq>\<^sub>m og'" "shape_le (ac_graph s) (ac_graph s')" using le by (simp_all add: ac_le_def)
    show "\<forall>d \<in> set (wanted m c). is_class_kind (dr_kind api d)" using wanted_class [OF m] by blast
  qed
  ultimately show ?thesis using i(3) le by (auto simp: ac_done_def ac_le_def)
qed

section \<open>Adding a child\<close>

lemma strip_stands:
  assumes info: "debug_info api D rk M" and inv: "inv api srt opts D og p"
  shows "d \<in> D \<Longrightarrow> stands api opts og (dp_graph p) d u \<Longrightarrow> \<exists>v. stripTypedefs (dp_graph p) u = Inr v"
proof (induction "rk d" arbitrary: d u rule: less_induct)
  case less
  show ?case
  proof (cases u)
    case (PrimRef k)
    then show ?thesis by (subst stripTypedefs_unfold) (simp add: stripTypedefs_body_def)
  next
    case (NodeRef i)
    have i: "i < length (nodes (dp_graph p))" using inv_in_graph [OF inv less.prems(2)] NodeRef by simp
    show ?thesis
    proof (cases "\<exists>td. node_at (dp_graph p) i = Typedef td")
      case False
      then show ?thesis using NodeRef i
        by (subst stripTypedefs_unfold) (auto simp: stripTypedefs_body_def split: ty.splits)
    next
      case True
      then obtain td where td: "node_at (dp_graph p) i = Typedef td" by blast
      then obtain b where "og i = Some (d, b)" using less.prems(2) NodeRef by (auto simp: stands_def)
      from inv_node(3) [OF inv this] td have k: "dr_kind api d = DK_TYPEDEF" "stands api opts og (dp_graph p) (dr_type api d) (td_underlying td)"
        by (auto simp: node_ok_def)
      have "dr_type api d \<in> D" "rk (dr_type api d) < rk d"
        using info less.prems(1) k(1) by (auto simp: debug_info_def is_link_kind_def type_refs_def is_class_kind_def)
      from less.hyps [OF this(2,1) k(2)] show ?thesis using NodeRef i td
        by (subst stripTypedefs_unfold) (simp add: stripTypedefs_body_def)
    qed
  qed
qed

lemma isActuallyChild_ok:
  assumes "wf_refs g" and "\<And>p. p \<in> set ps \<Longrightarrow> in_graph g (p_type p) \<and> (\<exists>v. stripTypedefs g (p_type p) = Inr v)"
  shows "\<exists>b. isActuallyChild g fq ps = Inr b"
  using assms(2)
proof (induction ps)
  case (Cons p ps)
  obtain v where v: "stripTypedefs g (p_type p) = Inr v" "in_graph g (p_type p)" using Cons.prems [of p] by auto
  obtain b where "isActuallyChild g fq ps = Inr b" using Cons by auto
  obtain n where "deref g v = Inr n" using strip_in_graph [OF assms(1) v(2,1)] deref_in_graph by blast
  then show ?case using v \<open>isActuallyChild g fq ps = Inr b\<close> by (cases n) auto
qed (simp add: ex_bool_eq)

lemma class_parents_strip:
  assumes info: "debug_info api D rk M" and inv: "inv api srt opts D og p" and srt: "sorts_ok srt"
    and d: "d \<in> D" "is_class_kind (dr_kind api d)" and lists: "lists_ok api srt (stands api opts og (dp_graph p)) d c"
  shows "\<exists>b. isActuallyChild (dp_graph p) fq (cl_parents c) = Inr b"
proof (rule isActuallyChild_ok)
  show "wf_refs (dp_graph p)" using inv_wf [OF inv] by simp
  fix q assume q: "q \<in> set (cl_parents c)"
  obtain ps where ps: "list_all2 (parent_ok (stands api opts og (dp_graph p))) (found_parents api d) ps" "cl_parents c = sort_parents srt ps"
    using lists by (auto simp: lists_ok_def)
  have "set (sort_parents srt ps) = set ps" using srt by (metis mset_eq_setD sorts_ok_def)
  then have "q \<in> set ps" using q ps(2) by simp
  from list_all2_set2 [OF ps(1) this] obtain e off where
    e: "(e, off) \<in> set (found_parents api d)" "stands api opts og (dp_graph p) e (p_type q)" by (auto simp: parent_ok_def)
  have "(Some e, off) \<in> set (dr_parents api d)"
    using e(1) by (auto simp: found_parents_def List.map_filter_def)
  then have "e \<in> D" using class_refs(1) [OF info d] by blast
  from strip_stands [OF info inv this e(2)] inv_in_graph [OF inv e(2)]
  show "in_graph (dp_graph p) (p_type q) \<and> (\<exists>v. stripTypedefs (dp_graph p) (p_type q) = Inr v)" by blast
qed

lemma parse_child:
  assumes info: "debug_info api D rk M" "readable api D" "sorts_ok srt" "class_map api D m"
    and inv: "ac_inv api srt opts D m g0 G og s"
    and d: "d \<in> D" "is_class_kind (dr_kind api d)" "isSizeComplete api d" and fuel: "card D * Suc M + M < fuel"
  obtains u p og' where "drgn_parse api srt opts fuel d (ac_parser s) = (Inr u, p)" "made_class og' d u"
    "ac_inv api srt opts D m g0 G og' (s\<lparr>ac_parser := p\<rparr>)" "ac_le {} og s og' (s\<lparr>ac_parser := p\<rparr>)"
proof -
  let ?p = "(ac_parser s)\<lparr>dp_depth := 0\<rparr>"
  have inv0: "inv api srt opts D og ?p" using inv by (simp add: ac_inv_def inv_def)
  have "dp_rank api D rk M d ?p < fuel" using drgn_rank_bound [OF info(1) d(1), of ?p] fuel by linarith
  then have "trip (enumerateType api srt opts fuel d) ?p (returned api srt opts D og ?p d) (thrown api srt opts D {} og ?p False)"
    using enumerateType_spec [OF info(1,3)] inv0 d(1) by (auto simp: call_ok_def)
  then obtain u p where run: "enumerateType api srt opts fuel d ?p = (Inr u, p)" "returned api srt opts D og ?p d u p"
    using info(2) by (auto simp: trip_def thrown_def split: prod.splits sum.splits)
  then obtain og' where r: "inv api srt opts D og' p" "ext True {} og ?p og' p" "stands api opts og' (dp_graph p) d u"
    using info(2) by (auto simp: returned_def)
  let ?s = "s\<lparr>ac_parser := p\<rparr>"
  have fin: "\<forall>i d. og' i \<noteq> Some (d, False)" using r(2) inv by (auto simp: ext_def ac_inv_def)
  have made: "made_class og' d u"
  proof (cases u)
    case (PrimRef k)
    then show ?thesis using r(3) d(2) by (auto simp: stands_def prim_for_def primitive_kind_def is_class_kind_def split: if_splits)
  next
    case (NodeRef i)
    then obtain b where b: "og' i = Some (d, b)" using r(3) d(3) by (auto simp: stands_def isTypeIncomplete_def)
    then have "b = True" using fin by (cases b) auto
    then show ?thesis using NodeRef b by (simp add: made_class_def)
  qed
  have g: "extends (ac_graph s) (dp_graph p)" "finalTypes (dp_graph p) = finalTypes (ac_graph s)" "og \<subseteq>\<^sub>m og'"
    "\<And>i. i < length (nodes (ac_graph s)) \<Longrightarrow> node_at (dp_graph p) i = node_at (ac_graph s) i"
    "same_kids (ac_graph s) (dp_graph p)" using r(2) by (simp_all add: ext_def ac_graph_def)
  have sh: "shape_le (ac_graph s) (dp_graph p)" using g by (simp add: shape_le_def)
  have le: "ac_le {} og s og' ?s" using g sh by (simp add: ac_le_def ac_graph_def)
  have "kids (node_at (dp_graph p) i) = ac_kids g0 i" if i: "i < length (nodes (dp_graph p))" "NodeRef i \<notin> ac_visited s" for i
  proof (cases "i < length (nodes (ac_graph s))")
    case True
    then show ?thesis using inv i(2) g(4) by (simp add: ac_inv_def)
  next
    case False
    then have "\<not> i < length (nodes g0)" using inv by (auto simp: ac_inv_def shape_le_def extends_def)
    then show ?thesis using g(5) i(1) False by (simp add: same_kids_def ac_kids_def)
  qed
  moreover have "ac_done m g0 og' ?s i" if "NodeRef i \<in> ac_visited s" "i \<notin> G" for i
    by (rule ac_done_le [OF inv le info(4) that(1)]) (use inv that in \<open>simp_all add: ac_inv_def\<close>)
  moreover have "in_graph (dp_graph p) t" if "t \<in> ac_visited s" for t
    using inv that extends_in_graph [OF g(1)] by (simp add: ac_inv_def)
  moreover have "shape_le g0 (dp_graph p)" using inv sh shape_le_trans by (auto simp: ac_inv_def)
  ultimately have "ac_inv api srt opts D m g0 G og' ?s" using r(1) fin by (simp add: ac_inv_def ac_graph_def)
  then show ?thesis using that run(1) made le by (simp add: drgn_parse_def)
qed

lemma stands_put:
  "ctor_of n = ctor_of (node_at g i) \<Longrightarrow> i < length (nodes g) \<Longrightarrow> stands api opts og (put_node (NodeRef i) n g) d u = stands api opts og g d u"
  by (cases u) (auto simp: stands_def)

lemma push_child_ok:
  assumes inv: "ac_inv api srt opts D m g0 G og s" and m: "class_map api D m"
    and i: "NodeRef i \<in> ac_visited s" "i \<in> G" "node_at (ac_graph s) i = Class c"
    and u: "deref (ac_graph s) u = Inr (Class d)"
  obtains s' where "push_child (NodeRef i) u s = Inr s'" "ac_inv api srt opts D m g0 G og s'" "ac_le {i} og s og s'"
    "node_at (ac_graph s') i = Class (c\<lparr>cl_children := cl_children c @ [u]\<rparr>)" "ac_visited s' = ac_visited s"
proof -
  let ?g = "ac_graph s"
  let ?n = "Class (c\<lparr>cl_children := cl_children c @ [u]\<rparr>)"
  let ?g' = "put_node (NodeRef i) ?n ?g"
  let ?s = "s\<lparr>ac_parser := (ac_parser s)\<lparr>dp_graph := ?g'\<rparr>\<rparr>"
  have p: "inv api srt opts D og (ac_parser s)" using inv by (simp add: ac_inv_def)
  have wf: "wf_graph ?g" using inv_wf [OF p] by (simp add: ac_graph_def)
  have len: "i < length (nodes ?g)" using inv i(1) by (auto simp: ac_inv_def)
  then have der: "deref ?g (NodeRef i) = Inr (Class c)" using i(3) by simp
  have "in_graph ?g u" using u by (rule deref_owner) simp_all
  then have refs: "\<forall>v \<in> set (refs ?n). in_graph ?g v"
    using wf_refsD [of ?g i] wf len i(3) by (auto simp: wf_graph_def)
  have "Class c \<in> set (nodes ?g)" using len i(3) nth_mem by (metis node_at_def)
  then have "\<exists>e. deref ?g v = Inr (Class e)" if "v \<in> set (cl_children c)" for v
    using wf that unfolding wf_graph_def wf_children_def by blast
  then have wf': "wf_graph ?g'" using u by (intro wf_graph_put [OF wf der _ _ refs]) auto
  have at: "node_at ?g' j = (if i = j then ?n else node_at ?g j)" for j using len by simp
  have st: "stands api opts og ?g' = stands api opts og ?g" using stands_put [of ?n ?g i] i(3) len by (intro ext) simp
  have "node_ok api srt opts (stands api opts og ?g') e b (node_at ?g' j)" if "og j = Some (e, b)" for j e b
    unfolding st
    using inv_node(3) [OF p that, folded ac_graph_def] i(3) at
    by (cases "i = j") (simp_all add: node_ok_def header_ok_def lists_ok_def)
  then have inv': "inv api srt opts D og ((ac_parser s)\<lparr>dp_graph := ?g'\<rparr>)"
    using p wf' unfolding inv_def by (simp add: ac_graph_def)
  have sh: "shape_le ?g ?g'" using extends_put [OF der, of ?n] at i(3) by (simp add: shape_le_def)
  have le: "ac_le {i} og s og ?s" using sh at by (simp add: ac_le_def ac_graph_def)
  have "ac_done m g0 og ?s j" if "NodeRef j \<in> ac_visited s" "j \<notin> G" for j
    by (rule ac_done_le [OF inv le m that(1)]) (use inv that i(2) in \<open>auto simp: ac_inv_def\<close>)
  moreover have "shape_le g0 ?g'" using inv sh shape_le_trans by (auto simp: ac_inv_def)
  ultimately have "ac_inv api srt opts D m g0 G og ?s"
    using inv inv' at i(1) by (auto simp: ac_inv_def ac_graph_def)
  moreover have "push_child (NodeRef i) u s = Inr ?s" using der by (simp add: push_child_def)
  ultimately show ?thesis using that le at by (simp add: ac_graph_def)
qed

lemma add_child_ok:
  assumes info: "debug_info api D rk M" "readable api D" "sorts_ok srt" "class_map api D m" and fuel: "card D * Suc M + M < fuel"
    and inv: "ac_inv api srt opts D m g0 G og s" and d: "d \<in> D" "is_class_kind (dr_kind api d)" "isSizeComplete api d"
    and i: "NodeRef i \<in> ac_visited s" "i \<in> G" "node_at (ac_graph s) i = Class c"
  shows "\<exists>u s' og'. add_child api srt opts fuel (NodeRef i) fq d s = Inr s' \<and> ac_inv api srt opts D m g0 G og' s' \<and>
    ac_le {i} og s og' s' \<and> made_class og' d u \<and> ac_visited s' = ac_visited s \<and>
    node_at (ac_graph s') i = Class (c\<lparr>cl_children := cl_children c @ filter (child_of (ac_graph s') fq) [u]\<rparr>)"
proof -
  obtain u p og' where run: "drgn_parse api srt opts fuel d (ac_parser s) = (Inr u, p)" and made: "made_class og' d u"
    and inv1: "ac_inv api srt opts D m g0 G og' (s\<lparr>ac_parser := p\<rparr>)" and le: "ac_le {} og s og' (s\<lparr>ac_parser := p\<rparr>)"
    by (rule parse_child [OF info inv d fuel])
  let ?s = "s\<lparr>ac_parser := p\<rparr>"
  have g: "ac_graph ?s = dp_graph p" by (simp add: ac_graph_def)
  have p: "inv api srt opts D og' p" using inv1 by (simp add: ac_inv_def)
  obtain cc where cc: "deref (dp_graph p) u = Inr (Class cc)" "lists_ok api srt (stands api opts og' (dp_graph p)) d cc"
    using made_class_deref [OF p made d(2)] by blast
  obtain b where b: "isActuallyChild (dp_graph p) fq (cl_parents cc) = Inr b"
    using class_parents_strip [OF info(1) p info(3) d(1,2) cc(2)] by blast
  have i1: "NodeRef i \<in> ac_visited ?s" "node_at (ac_graph ?s) i = Class c"
    using i le inv by (auto simp: ac_le_def ac_inv_def)
  show ?thesis
  proof (cases b)
    case False
    then have "\<not> child_of (ac_graph ?s) fq u" using b cc by (simp add: child_of_def g)
    moreover have "add_child api srt opts fuel (NodeRef i) fq d s = Inr ?s" using run cc b False by (simp add: add_child_def)
    ultimately show ?thesis using inv1 made i1(2) ac_le_mono [OF le, of "{i}"]
      by (intro exI [of _ u] exI [of _ ?s] exI [of _ og']) simp
  next
    case True
    obtain s' where s': "push_child (NodeRef i) u ?s = Inr s'" "ac_inv api srt opts D m g0 G og' s'" "ac_le {i} og' ?s og' s'"
      "node_at (ac_graph s') i = Class (c\<lparr>cl_children := cl_children c @ [u]\<rparr>)" "ac_visited s' = ac_visited ?s"
      by (rule push_child_ok [OF inv1 info(4) i1(1) i(2) i1(2) cc(1) [folded g]]) simp
    have "child_of (ac_graph ?s) fq u" using b cc True by (simp add: child_of_def g)
    then have "child_of (ac_graph s') fq u"
      using child_of_le [of "ac_graph ?s" "ac_graph s'" u cc fq] s'(3) inv_wf [OF p] cc(1) by (simp add: ac_le_def g)
    moreover have "add_child api srt opts fuel (NodeRef i) fq d s = Inr s'" using run cc b True s'(1) by (simp add: add_child_def)
    moreover have "ac_le {i} og s og' s'" by (rule ac_le_trans [OF ac_le_mono [OF le] s'(3)]) simp_all
    ultimately show ?thesis using s' made by (intro exI [of _ u] exI [of _ s'] exI [of _ og']) simp
  qed
qed

lemma add_children_ok:
  assumes info: "debug_info api D rk M" "readable api D" "sorts_ok srt" "class_map api D m" and fuel: "card D * Suc M + M < fuel"
    and "ac_inv api srt opts D m g0 G og s" and ds: "\<forall>d \<in> set ds. d \<in> D \<and> is_class_kind (dr_kind api d) \<and> isSizeComplete api d"
    and "NodeRef i \<in> ac_visited s" "i \<in> G" "node_at (ac_graph s) i = Class c"
  shows "\<exists>us s' og'. for_each (add_child api srt opts fuel (NodeRef i) fq) ds s = Inr s' \<and>
    ac_inv api srt opts D m g0 G og' s' \<and> ac_le {i} og s og' s' \<and> list_all2 (made_class og') ds us \<and> ac_visited s' = ac_visited s \<and>
    node_at (ac_graph s') i = Class (c\<lparr>cl_children := cl_children c @ filter (child_of (ac_graph s') fq) us\<rparr>)"
  using assms(6-)
proof (induction ds arbitrary: og s c)
  case Nil
  then show ?case by (intro exI [of _ "[]"] exI [of _ s] exI [of _ og]) simp
next
  case (Cons d ds)
  obtain u s1 og1 where s1: "add_child api srt opts fuel (NodeRef i) fq d s = Inr s1" "ac_inv api srt opts D m g0 G og1 s1"
    "ac_le {i} og s og1 s1" "made_class og1 d u" "ac_visited s1 = ac_visited s"
    "node_at (ac_graph s1) i = Class (c\<lparr>cl_children := cl_children c @ filter (child_of (ac_graph s1) fq) [u]\<rparr>)"
    using add_child_ok [OF info fuel Cons.prems(1), of d i c fq] Cons.prems by auto
  have "\<forall>d \<in> set ds. d \<in> D \<and> is_class_kind (dr_kind api d) \<and> isSizeComplete api d" "NodeRef i \<in> ac_visited s1"
    using Cons.prems s1(5) by simp_all
  from Cons.IH [OF s1(2) this Cons.prems(4) s1(6)] obtain us s' og' where
    s': "for_each (add_child api srt opts fuel (NodeRef i) fq) ds s1 = Inr s'" "ac_inv api srt opts D m g0 G og' s'"
    "ac_le {i} og1 s1 og' s'" "list_all2 (made_class og') ds us" "ac_visited s' = ac_visited s1"
    "node_at (ac_graph s') i = Class (c\<lparr>cl_children := (cl_children c @ filter (child_of (ac_graph s1) fq) [u]) @
       filter (child_of (ac_graph s') fq) us\<rparr>)" by auto
  have "inv api srt opts D og1 (ac_parser s1)" "dp_graph (ac_parser s1) = ac_graph s1" "shape_le (ac_graph s1) (ac_graph s')"
    using s1(2) s'(3) by (simp_all add: ac_inv_def ac_le_def ac_graph_def)
  from filter_child_of_le [OF this, of "[d]" "[u]" fq]
  have "filter (child_of (ac_graph s') fq) [u] = filter (child_of (ac_graph s1) fq) [u]" using s1(4) Cons.prems(2) by simp
  then have "node_at (ac_graph s') i = Class (c\<lparr>cl_children := cl_children c @ filter (child_of (ac_graph s') fq) (u # us)\<rparr>)"
    using s'(6) by (metis append.assoc append_Cons append_Nil filter_append)
  moreover have "made_class og' d u" using made_class_le [OF s1(4)] s'(3) by (simp add: ac_le_def)
  moreover have "ac_le {i} og s og' s'" by (rule ac_le_trans [OF s1(3) s'(3)]) simp
  ultimately show ?case using s1(1,5) s' by (intro exI [of _ "u # us"] exI [of _ s'] exI [of _ og']) simp
qed

section \<open>Termination\<close>

text \<open>
  What is still to be visited: the nodes of the graph at the start, and a class for each class of the debug
  information. From a node that is none of these the walk follows typedefs, pointers and arrays only.
\<close>

definition old_todo :: "type_graph \<Rightarrow> 'd ac_state \<Rightarrow> nat set" where
  "old_todo g0 s = {i. i < length (nodes g0) \<and> NodeRef i \<notin> ac_visited s}"

definition new_todo :: "'d drgn \<Rightarrow> 'd set \<Rightarrow> 'd ac_state \<Rightarrow> 'd set" where
  "new_todo api D s = {d \<in> D. is_class_kind (dr_kind api d) \<and>
     (\<forall>i. dp_types (ac_parser s) (Some d) = Some (NodeRef i) \<longrightarrow> NodeRef i \<notin> ac_visited s)}"

definition todo :: "'d drgn \<Rightarrow> 'd set \<Rightarrow> type_graph \<Rightarrow> 'd ac_state \<Rightarrow> nat" where
  "todo api D g0 s = card (old_todo g0 s) + card (new_todo api D s)"

definition level :: "('d \<Rightarrow> nat) \<Rightarrow> nat \<Rightarrow> type_graph \<Rightarrow> 'd origin \<Rightarrow> tref \<Rightarrow> nat" where
  "level rk M g0 og t = (case t of PrimRef k \<Rightarrow> 0 | NodeRef i \<Rightarrow> (case og i of Some (d, b) \<Rightarrow> rk d
     | None \<Rightarrow> if i < length (nodes g0) \<and> ctor_of (node_at g0 i) \<noteq> 0 then M else 0))"

definition reached :: "type_graph \<Rightarrow> 'd origin \<Rightarrow> 'd ac_state \<Rightarrow> tref \<Rightarrow> bool" where
  "reached g0 og s t \<longleftrightarrow> in_graph (ac_graph s) t \<and> (\<forall>i. t = NodeRef i \<longrightarrow>
     og i \<noteq> None \<or> i < length (nodes g0) \<or> ctor_of (node_at (ac_graph s) i) = 0)"

lemma level_bound:
  assumes "debug_info api D rk M" "inv api srt opts D og p"
  shows "level rk M g0 og t \<le> M"
proof -
  have "rk d \<le> M" if "og i = Some (d, b)" for i d b using inv_node(1) [OF assms(2) that] assms(1) by (simp add: debug_info_def)
  then show ?thesis by (auto simp: level_def split: tref.splits option.splits)
qed

lemma old_node_in_graph: "shape_le g0 g \<Longrightarrow> in_graph g0 t \<Longrightarrow> in_graph g t"
  using extends_in_graph by (auto simp: shape_le_def)

lemma reached_le:
  assumes "reached g0 og s t" "ac_le X og s og' s'"
  shows "reached g0 og' s' t"
proof (cases t)
  case (NodeRef i)
  have i: "i < length (nodes (ac_graph s))" using assms(1) NodeRef by (simp add: reached_def)
  have e: "extends (ac_graph s) (ac_graph s')" "og \<subseteq>\<^sub>m og'" using assms(2) by (simp_all add: ac_le_def shape_le_def)
  have "og' i \<noteq> None" if "og i \<noteq> None" using e(2) that by (auto simp: map_le_def dom_def)
  then show ?thesis
    using assms(1) NodeRef extends_ctor(1) [OF e(1) i] extends_in_graph [OF e(1), of t] by (auto simp: reached_def)
qed (use assms in \<open>simp add: reached_def\<close>)

lemma stands_reached:
  assumes "ac_inv api srt opts D m g0 G og s" "stands api opts og (ac_graph s) d u"
  shows "reached g0 og s u"
  using assms inv_in_graph [of api srt opts D og "ac_parser s" d u]
  by (auto simp: reached_def ac_inv_def ac_graph_def stands_def)

lemma old_reached:
  assumes "ac_inv api srt opts D m g0 G og s" "in_graph g0 u"
  shows "reached g0 og s u"
  using assms old_node_in_graph [of g0 "ac_graph s" u] by (auto simp: reached_def ac_inv_def)

lemma made_class_reached:
  assumes "ac_inv api srt opts D m g0 G og s" "made_class og d u"
  shows "reached g0 og s u"
  using assms inv_node(2) [of api srt opts D og "ac_parser s"] by (auto simp: reached_def made_class_def ac_inv_def ac_graph_def)

lemma stands_level:
  assumes "ac_inv api srt opts D m g0 G og s" "stands api opts og (ac_graph s) d u"
  shows "level rk M g0 og u \<le> rk d"
proof (cases u)
  case (NodeRef j)
  show ?thesis
  proof (cases "og j")
    case None
    then have "j < length (nodes (ac_graph s))" "ctor_of (node_at (ac_graph s) j) = 0" using assms(2) NodeRef by (auto simp: stands_def)
    moreover have "shape_le g0 (ac_graph s)" using assms(1) by (simp add: ac_inv_def)
    ultimately have "j < length (nodes g0) \<longrightarrow> ctor_of (node_at g0 j) = 0" using extends_ctor(1) by (auto simp: shape_le_def)
    then show ?thesis using None NodeRef by (auto simp: level_def)
  next
    case (Some e)
    then obtain b where e: "og j = Some (fst e, b)" by (cases e) auto
    have "inv api srt opts D og (ac_parser s)" using assms(1) by (simp add: ac_inv_def)
    from inv_node(3) [OF this e] have "ctor_of (node_at (ac_graph s) j) \<noteq> 0"
      by (cases "node_at (ac_graph s) j") (simp_all add: node_ok_def ac_graph_def)
    then show ?thesis using assms(2) NodeRef e by (auto simp: stands_def level_def)
  qed
qed (simp add: level_def)

lemma todo_le:
  assumes "debug_info api D rk M" and inv: "ac_inv api srt opts D m g0 G og s" "ac_inv api srt opts D m g0 G' og' s'"
    and le: "ac_le X og s og' s'"
  shows "todo api D g0 s' \<le> todo api D g0 s"
proof -
  have D: "finite D" using assms(1) by (simp add: debug_info_def)
  have "old_todo g0 s' \<subseteq> old_todo g0 s" using le by (auto simp: old_todo_def ac_le_def)
  then have "card (old_todo g0 s') \<le> card (old_todo g0 s)" by (intro card_mono) (simp_all add: old_todo_def)
  moreover have "new_todo api D s' \<subseteq> new_todo api D s"
  proof
    fix d assume d: "d \<in> new_todo api D s'"
    have "NodeRef i \<notin> ac_visited s" if i: "dp_types (ac_parser s) (Some d) = Some (NodeRef i)" for i
    proof
      assume v: "NodeRef i \<in> ac_visited s"
      have "made api opts og d (NodeRef i)" using inv(1) i by (simp add: ac_inv_def inv_def)
      then obtain b where "og i = Some (d, b)" by (auto simp: made_def)
      then have "og' i = Some (d, b)" using le by (auto simp: ac_le_def map_le_def dom_def)
      then have "dp_types (ac_parser s') (Some d) = Some (NodeRef i)" using inv(2) d by (auto simp: ac_inv_def inv_def new_todo_def)
      then show False using d v le by (auto simp: new_todo_def ac_le_def)
    qed
    then show "d \<in> new_todo api D s" using d by (simp add: new_todo_def)
  qed
  then have "card (new_todo api D s') \<le> card (new_todo api D s)" using D by (intro card_mono) (simp_all add: new_todo_def)
  ultimately show ?thesis by (simp add: todo_def)
qed

definition mark :: "tref \<Rightarrow> 'd ac_state \<Rightarrow> 'd ac_state" where
  "mark t s = s\<lparr>ac_visited := insert t (ac_visited s)\<rparr>"

lemma mark_simps [simp]: "ac_graph (mark t s) = ac_graph s" "ac_visited (mark t s) = insert t (ac_visited s)"
  "ac_parser (mark t s) = ac_parser s"
  by (simp_all add: mark_def ac_graph_def)

lemma mark_le: "ac_le X og s og (mark t s)"
  by (auto simp: ac_le_def)

lemma mark_inv:
  assumes inv: "ac_inv api srt opts D m g0 G og s" and m: "class_map api D m" and t: "in_graph (ac_graph s) t"
  shows "ac_inv api srt opts D m g0 (G \<union> {i. t = NodeRef i}) og (mark t s)"
proof -
  have "ac_done m g0 og (mark t s) i" if "NodeRef i \<in> ac_visited s" "i \<notin> G" for i
    by (rule ac_done_le [OF inv mark_le [of "{}"] m that(1)]) (use inv that in \<open>simp_all add: ac_inv_def\<close>)
  then show ?thesis using inv t by (auto simp: ac_inv_def)
qed

lemma mark_todo:
  assumes "debug_info api D rk M" and inv: "ac_inv api srt opts D m g0 G og s" and t: "NodeRef i \<notin> ac_visited s"
    and k: "(\<exists>d b. og i = Some (d, b) \<and> is_class_kind (dr_kind api d)) \<or> i < length (nodes g0)"
  shows "todo api D g0 (mark (NodeRef i) s) < todo api D g0 s"
proof -
  have fin: "finite (old_todo g0 s)" "finite (new_todo api D s)"
    using assms(1) by (simp_all add: old_todo_def new_todo_def debug_info_def)
  have old: "old_todo g0 (mark (NodeRef i) s) = old_todo g0 s - {i}" by (auto simp: old_todo_def)
  have new: "new_todo api D (mark (NodeRef i) s) =
      new_todo api D s - {d. dp_types (ac_parser s) (Some d) = Some (NodeRef i)}"
    by (auto simp: new_todo_def)
  have le: "card (old_todo g0 (mark (NodeRef i) s)) \<le> card (old_todo g0 s)"
    "card (new_todo api D (mark (NodeRef i) s)) \<le> card (new_todo api D s)"
    unfolding old new using fin by (intro card_mono; simp)+
  show ?thesis
    using k
  proof
    assume "\<exists>d b. og i = Some (d, b) \<and> is_class_kind (dr_kind api d)"
    then obtain d b where d: "og i = Some (d, b)" "is_class_kind (dr_kind api d)" by blast
    have p: "inv api srt opts D og (ac_parser s)" using inv by (simp add: ac_inv_def)
    then have "dp_types (ac_parser s) (Some d) = Some (NodeRef i)" using d unfolding inv_def by blast
    then have "d \<in> new_todo api D s" "d \<notin> new_todo api D (mark (NodeRef i) s)"
      using inv_node(1) [OF p d(1)] d(2) t by (auto simp: new_todo_def)
    then have "card (new_todo api D (mark (NodeRef i) s)) < card (new_todo api D s)"
      unfolding new using fin(2) by (intro psubset_card_mono) auto
    then show ?thesis using le(1) by (simp add: todo_def)
  next
    assume "i < length (nodes g0)"
    then have "i \<in> old_todo g0 s" using t by (simp add: old_todo_def)
    then have "card (old_todo g0 (mark (NodeRef i) s)) < card (old_todo g0 s)"
      unfolding old using fin(1) by (intro psubset_card_mono) auto
    then show ?thesis using le(2) by (simp add: todo_def)
  qed
qed

section \<open>The walk\<close>

definition ac_call_ok :: "'d drgn \<Rightarrow> sorts \<Rightarrow> drgn_options \<Rightarrow> 'd set \<Rightarrow> ('d \<Rightarrow> nat) \<Rightarrow> nat \<Rightarrow> 'd child_classes \<Rightarrow> type_graph \<Rightarrow> nat \<Rightarrow>
    'd ac_walker \<Rightarrow> bool" where
  "ac_call_ok api srt opts D rk M m g0 R call \<longleftrightarrow> (\<forall>G og s t. ac_inv api srt opts D m g0 G og s \<longrightarrow> reached g0 og s t \<longrightarrow>
     todo api D g0 s * Suc M + level rk M g0 og t < R \<longrightarrow>
     (\<exists>s' og'. call t s = Inr s' \<and> ac_inv api srt opts D m g0 G og' s' \<and> ac_le {} og s og' s' \<and> t \<in> ac_visited s'))"

lemma accept_all:
  assumes info: "debug_info api D rk M" and call: "ac_call_ok api srt opts D rk M m g0 R call"
    and "ac_inv api srt opts D m g0 G og s" and "\<forall>t \<in> set ts. reached g0 og s t" and "todo api D g0 s * Suc M + M < R"
  shows "\<exists>s' og'. for_each call ts s = Inr s' \<and> ac_inv api srt opts D m g0 G og' s' \<and> ac_le {} og s og' s' \<and> set ts \<subseteq> ac_visited s'"
  using assms(3-)
proof (induction ts arbitrary: og s)
  case Nil
  then show ?case by auto
next
  case (Cons t ts)
  have "inv api srt opts D og (ac_parser s)" using Cons.prems(1) by (simp add: ac_inv_def)
  then have "todo api D g0 s * Suc M + level rk M g0 og t < R" using level_bound [OF info, of srt opts og "ac_parser s" g0 t] Cons.prems(3) by linarith
  then obtain s1 og1 where s1: "call t s = Inr s1" "ac_inv api srt opts D m g0 G og1 s1" "ac_le {} og s og1 s1" "t \<in> ac_visited s1"
    using call Cons.prems(1,2) unfolding ac_call_ok_def by (metis list.set_intros(1))
  have "todo api D g0 s1 * Suc M \<le> todo api D g0 s * Suc M"
    by (rule mult_le_mono1 [OF todo_le [OF info Cons.prems(1) s1(2,3)]])
  then have "todo api D g0 s1 * Suc M + M < R" using Cons.prems(3) by linarith
  moreover have "\<forall>t \<in> set ts. reached g0 og1 s1 t" using Cons.prems(2) reached_le [OF _ s1(3)] by simp
  ultimately obtain s' og' where s': "for_each call ts s1 = Inr s'" "ac_inv api srt opts D m g0 G og' s'" "ac_le {} og1 s1 og' s'"
    "set ts \<subseteq> ac_visited s'" using Cons.IH [OF s1(2)] by blast
  moreover have "ac_le {} og s og' s'" by (rule ac_le_trans [OF s1(3) s'(3)]) simp
  moreover have "t \<in> ac_visited s'" using s1(4) s'(3) by (auto simp: ac_le_def)
  ultimately show ?case using s1(1) by auto
qed

lemma ac_node:
  assumes inv: "ac_inv api srt opts D m g0 G og s" and i: "og i = Some (d, b)"
  shows "b = True" "d \<in> D" "node_ok api srt opts (stands api opts og (ac_graph s)) d True (node_at (ac_graph s) i)"
proof -
  show b: "b = True" using inv i by (cases b) (auto simp: ac_inv_def)
  have "inv api srt opts D og (ac_parser s)" using inv by (simp add: ac_inv_def)
  from inv_node [OF this i] b show "d \<in> D" "node_ok api srt opts (stands api opts og (ac_graph s)) d True (node_at (ac_graph s) i)"
    by (simp_all add: ac_graph_def)
qed

lemma class_refs_reached:
  assumes inv: "ac_inv api srt opts D m g0 G og s" and wf: "wf_graph g0" and srt: "sorts_ok srt"
    and r: "reached g0 og s (NodeRef i)" and c: "node_at (ac_graph s) i = Class c"
    and t: "t \<in> tp_type ` set (cl_templateParams c) \<union> m_type ` set (cl_members c) \<union> set (ac_kids g0 i)"
  shows "reached g0 og s t"
proof -
  have g0: "in_graph g0 u" if "i < length (nodes g0)" "u \<in> set (refs (node_at g0 i))" for u
    using wf_refsD [of g0 i u] wf that by (simp add: wf_graph_def)
  show ?thesis
  proof (cases "t \<in> set (ac_kids g0 i)")
    case True
    then have "i < length (nodes g0)" "t \<in> set (refs (node_at g0 i))"
      by (auto simp: ac_kids_def split: if_splits elim!: kids.elims) (cases "node_at g0 i"; simp)
    then show ?thesis using old_reached [OF inv] g0 by blast
  next
    case False
    then have t: "t \<in> tp_type ` set (cl_templateParams c) \<union> m_type ` set (cl_members c)" using t by blast
    show ?thesis
    proof (cases "og i")
      case None
      then have i: "i < length (nodes g0)" using r c by (auto simp: reached_def)
      then have "sans_kids (node_at g0 i) = Class (c\<lparr>cl_children := []\<rparr>)" using inv c by (auto simp: ac_inv_def shape_le_def)
      then obtain ks where "node_at g0 i = Class (c\<lparr>cl_children := ks\<rparr>)" by (auto simp: sans_kids_class)
      then have "t \<in> set (refs (node_at g0 i))" using t by auto
      then show ?thesis using old_reached [OF inv] g0 [OF i] by blast
    next
      case (Some e)
      then obtain d b where d: "og i = Some (d, b)" by (cases e) auto
      let ?St = "stands api opts og (ac_graph s)"
      have "lists_ok api srt ?St d c" using ac_node(3) [OF inv d] c by (simp add: node_ok_def)
      then obtain ms where l: "list_all2 (param_ok api ?St) (found_params api d) (cl_templateParams c)"
        "list_all2 (member_ok ?St) (found_members api d) ms" "cl_members c = sort_members srt ms" by (auto simp: lists_ok_def)
      have "set (cl_members c) = set ms" unfolding l(3) using srt by (metis mset_eq_setD sorts_ok_def)
      then have "\<exists>e. ?St e t" using t list_all2_set2 [OF l(1)] list_all2_set2 [OF l(2)] by (auto simp: param_ok_def member_ok_def) blast+
      then show ?thesis using stands_reached [OF inv] by blast
    qed
  qed
qed

lemma ac_le_unmark: "ac_le {i} og s og' s' \<Longrightarrow> NodeRef i \<notin> ac_visited s \<Longrightarrow> ac_le {} og s og' s'"
  by (auto simp: ac_le_def)

lemma finish_visit:
  assumes "ac_inv api srt opts D m g0 (insert i G) og s" "ac_done m g0 og s i"
  shows "ac_inv api srt opts D m g0 G og s"
  using assms by (auto simp: ac_inv_def)

lemma no_class_wanted: "class_map api D m \<Longrightarrow> m name = Some ds \<Longrightarrow> classes_of m name = ds \<and> ds \<noteq> []"
  by (auto simp: class_map_def no_empty_def classes_of_def)

lemma ac_kept:
  assumes "ac_inv api srt opts D m g0 G og s" "ac_le {} og s og' s'" "NodeRef i \<in> ac_visited s"
  shows "node_at (ac_graph s') i = node_at (ac_graph s) i" "NodeRef i \<in> ac_visited s'"
  using assms by (auto simp: ac_inv_def ac_le_def)

lemma children_visit:
  assumes info: "debug_info api D rk M" "readable api D" "sorts_ok srt" "class_map api D m" and fuel: "card D * Suc M + M < fuel"
    and call: "ac_call_ok api srt opts D rk M m g0 R call" and wf: "wf_graph g0"
    and inv: "ac_inv api srt opts D m g0 (insert i G) og s" and R: "todo api D g0 s * Suc M + M < R"
    and i: "NodeRef i \<in> ac_visited s" "node_at (ac_graph s) i = Class c" "cl_children c = ac_kids g0 i" "reached g0 og s (NodeRef i)"
    and parts: "tp_type ` set (cl_templateParams c) \<union> m_type ` set (cl_members c) \<subseteq> ac_visited s"
    and ds: "isDynamic c" "m (cl_name c) = Some ds"
  shows "\<exists>s' og'. bindE (for_each (add_child api srt opts fuel (NodeRef i) (fqName c)) ds s) (\<lambda>s.
         bindE (deref (ac_graph s) (NodeRef i)) (\<lambda>n. case n of
           Class c \<Rightarrow> for_each call (cl_children c) s
         | _ \<Rightarrow> Inl (Undefined ''not a class''))) = Inr s' \<and>
     ac_inv api srt opts D m g0 (insert i G) og' s' \<and> ac_le {i} og s og' s' \<and> ac_done m g0 og' s' i"
proof -
  have w: "wanted m c = ds" "ds \<noteq> []" "classes_of m (cl_name c) = ds" using ds no_class_wanted [OF info(4) ds(2)] by (simp_all add: wanted_def)
  have dsD: "\<forall>d \<in> set ds. d \<in> D \<and> is_class_kind (dr_kind api d) \<and> isSizeComplete api d"
    using wanted_class [OF info(4), of _ c] w(1) by blast
  from add_children_ok [OF info fuel inv this i(1) _ i(2), of "fqName c"] obtain us s1 og1 where
    s1: "for_each (add_child api srt opts fuel (NodeRef i) (fqName c)) ds s = Inr s1" "ac_inv api srt opts D m g0 (insert i G) og1 s1"
    "ac_le {i} og s og1 s1" "list_all2 (made_class og1) ds us" "ac_visited s1 = ac_visited s"
    "node_at (ac_graph s1) i = Class (c\<lparr>cl_children := cl_children c @ filter (child_of (ac_graph s1) (fqName c)) us\<rparr>)" by auto
  let ?c = "c\<lparr>cl_children := cl_children c @ filter (child_of (ac_graph s1) (fqName c)) us\<rparr>"
  have v1: "NodeRef i \<in> ac_visited s1" using s1(5) i(1) by simp
  then have der: "deref (ac_graph s1) (NodeRef i) = Inr (Class ?c)" using s1(2,6) by (auto simp: ac_inv_def)
  have "todo api D g0 s1 * Suc M \<le> todo api D g0 s * Suc M" by (rule mult_le_mono1 [OF todo_le [OF info(1) inv s1(2,3)]])
  then have R1: "todo api D g0 s1 * Suc M + M < R" using R by linarith
  have "reached g0 og1 s1 u" if u: "u \<in> set (cl_children ?c)" for u
  proof (cases "u \<in> set (ac_kids g0 i)")
    case True
    then show ?thesis using class_refs_reached [OF s1(2) wf info(3) reached_le [OF i(4) s1(3)] s1(6)] by blast
  next
    case False
    then have "u \<in> set us" using u i(3) by auto
    then show ?thesis using list_all2_set2 [OF s1(4)] made_class_reached [OF s1(2)] by blast
  qed
  then obtain s' og' where s': "for_each call (cl_children ?c) s1 = Inr s'" "ac_inv api srt opts D m g0 (insert i G) og' s'"
    "ac_le {} og1 s1 og' s'" "set (cl_children ?c) \<subseteq> ac_visited s'"
    using accept_all [OF info(1) call s1(2) _ R1] by blast
  have at: "node_at (ac_graph s') i = Class ?c" using ac_kept [OF s1(2) s'(3) v1] s1(6) by simp
  have le: "ac_le {i} og s og' s'" by (rule ac_le_trans [OF s1(3) s'(3)]) simp
  have "has_kids g0 og1 (ac_graph s1) i ds ?c" using s1(4) i(3) by (auto simp: has_kids_def)
  then have "has_kids g0 og' (ac_graph s') i ds ?c"
  proof (rule has_kids_le [rotated -1])
    show "inv api srt opts D og1 (ac_parser s1)" "dp_graph (ac_parser s1) = ac_graph s1" using s1(2) by (simp_all add: ac_inv_def ac_graph_def)
    show "og1 \<subseteq>\<^sub>m og'" "shape_le (ac_graph s1) (ac_graph s')" using s'(3) by (simp_all add: ac_le_def)
  qed (use dsD in blast)
  moreover have "wanted m ?c = ds" by (simp add: wanted_def ds(1) w(3))
  moreover have "tp_type ` set (cl_templateParams c) \<union> m_type ` set (cl_members c) \<subseteq> ac_visited s'" using parts le by (auto simp: ac_le_def)
  ultimately have "ac_done m g0 og' s' i" using s'(4) w ds(1) by (auto simp: ac_done_def at ac_succs_def)
  then show ?thesis using s1(1) der s' le by (intro exI [of _ s'] exI [of _ og']) simp
qed

lemma class_visit:
  assumes info: "debug_info api D rk M" "readable api D" "sorts_ok srt" "class_map api D m" and fuel: "card D * Suc M + M < fuel"
    and call: "ac_call_ok api srt opts D rk M m g0 R call" and wf: "wf_graph g0"
    and inv: "ac_inv api srt opts D m g0 G og s" and R: "todo api D g0 s * Suc M \<le> R"
    and i: "NodeRef i \<notin> ac_visited s" "node_at (ac_graph s) i = Class c" "reached g0 og s (NodeRef i)"
  shows "\<exists>s' og'. visit_class (add_child api srt opts fuel) m call (NodeRef i) c (mark (NodeRef i) s) = Inr s' \<and>
     ac_inv api srt opts D m g0 G og' s' \<and> ac_le {} og s og' s' \<and> NodeRef i \<in> ac_visited s'"
proof -
  let ?s1 = "mark (NodeRef i) s"
  have len: "i < length (nodes (ac_graph s))" using i(3) by (simp add: reached_def)
  have inv1: "ac_inv api srt opts D m g0 (insert i G) og ?s1" using mark_inv [OF inv info(4), of "NodeRef i"] len by simp
  have "(\<exists>d b. og i = Some (d, b) \<and> is_class_kind (dr_kind api d)) \<or> i < length (nodes g0)"
    using i(2,3) ac_node(3) [OF inv, of i] by (fastforce simp: reached_def node_ok_def)
  from mark_todo [OF info(1) inv i(1) this] have "Suc (todo api D g0 ?s1) * Suc M \<le> todo api D g0 s * Suc M"
    by (intro mult_le_mono1) simp
  then have R1: "todo api D g0 ?s1 * Suc M + M < R" using R by simp
  have c1: "node_at (ac_graph ?s1) i = Class c" and r1: "reached g0 og ?s1 (NodeRef i)"
    using i(2,3) by (simp_all add: reached_def)
  have kids: "cl_children c = ac_kids g0 i" using inv len i(1,2) by (fastforce simp: ac_inv_def)
  let ?ts = "map tp_type (cl_templateParams c) @ map m_type (cl_members c)"
  have "\<forall>t \<in> set ?ts. reached g0 og ?s1 t" using class_refs_reached [OF inv1 wf info(3) r1 c1] by auto
  from accept_all [OF info(1) call inv1 this R1] obtain s2 og2 where s2: "for_each call ?ts ?s1 = Inr s2"
    "ac_inv api srt opts D m g0 (insert i G) og2 s2" "ac_le {} og ?s1 og2 s2" "set ?ts \<subseteq> ac_visited s2" by blast
  have c2: "node_at (ac_graph s2) i = Class c" "NodeRef i \<in> ac_visited s2"
    using ac_kept [OF inv1 s2(3), of i] c1 by simp_all
  have le2: "ac_le {} og s og2 s2" by (rule ac_le_trans [OF mark_le s2(3)]) simp
  let ?rest = "\<lambda>s. if \<not> isDynamic c then Inr s else case m (cl_name c) of None \<Rightarrow> Inr s | Some ds \<Rightarrow>
     bindE (for_each (add_child api srt opts fuel (NodeRef i) (fqName c)) ds s) (\<lambda>s.
         bindE (deref (ac_graph s) (NodeRef i)) (\<lambda>n. case n of
           Class c \<Rightarrow> for_each call (cl_children c) s
         | _ \<Rightarrow> Inl (Undefined ''not a class'')))"
  have run: "visit_class (add_child api srt opts fuel) m call (NodeRef i) c ?s1 = ?rest s2"
    using s2(1) unfolding visit_class_def by (auto simp: for_each_map bindE_Inr_iff)
  show ?thesis
  proof (cases "wanted m c = []")
    case True
    then have "ac_done m g0 og2 s2 i" using s2(4) c2(1) kids by (auto simp: ac_done_def ac_succs_def has_kids_def wanted_def)
    moreover have "?rest s2 = Inr s2"
      using True no_class_wanted [OF info(4)] by (auto simp: wanted_def split: option.splits)
    ultimately show ?thesis using run finish_visit [OF s2(2)] le2 c2(2) by auto
  next
    case False
    then obtain ds where ds: "isDynamic c" "m (cl_name c) = Some ds" by (auto simp: wanted_def classes_of_def split: if_splits option.splits)
    have "todo api D g0 s2 * Suc M \<le> todo api D g0 ?s1 * Suc M" by (rule mult_le_mono1 [OF todo_le [OF info(1) inv1 s2(2,3)]])
    then have R2: "todo api D g0 s2 * Suc M + M < R" using R1 by linarith
    have "tp_type ` set (cl_templateParams c) \<union> m_type ` set (cl_members c) \<subseteq> ac_visited s2" using s2(4) by auto
    from children_visit [OF info fuel call wf s2(2) R2 c2(2,1) kids reached_le [OF r1 s2(3)] this ds] ds
    obtain s' og' where s': "?rest s2 = Inr s'" "ac_inv api srt opts D m g0 (insert i G) og' s'" "ac_le {i} og2 s2 og' s'"
      "ac_done m g0 og' s' i" by auto
    have "ac_le {i} og s og' s'" by (rule ac_le_trans [OF ac_le_mono [OF le2] s'(3)]) simp_all
    then have "ac_le {} og s og' s'" using i(1) by (rule ac_le_unmark)
    moreover have "NodeRef i \<in> ac_visited s'" using s'(3) c2(2) by (auto simp: ac_le_def)
    ultimately show ?thesis using run s'(1) finish_visit [OF s'(2,4)] by auto
  qed
qed

text \<open>The other nodes.\<close>

lemma link_succs:
  assumes "node_ok api srt opts St d True n" "ctor_of n \<noteq> 1"
  shows "succs n = [] \<or> is_link_kind (dr_kind api d) \<and> (\<exists>u. succs n = [u] \<and> St (dr_type api d) u)"
  using assms by (cases n) (auto simp: node_ok_def is_link_kind_def)

lemma other_visit:
  assumes info: "debug_info api D rk M" "class_map api D m" and wf: "wf_graph g0"
    and call: "ac_call_ok api srt opts D rk M m g0 R call"
    and inv: "ac_inv api srt opts D m g0 G og s" and R: "todo api D g0 s * Suc M + level rk M g0 og (NodeRef i) \<le> R"
    and i: "NodeRef i \<notin> ac_visited s" "ctor_of (node_at (ac_graph s) i) \<noteq> 1" "reached g0 og s (NodeRef i)"
  shows "\<exists>s' og'. for_each call (succs (node_at (ac_graph s) i)) (mark (NodeRef i) s) = Inr s' \<and>
     ac_inv api srt opts D m g0 G og' s' \<and> ac_le {} og s og' s' \<and> NodeRef i \<in> ac_visited s'"
proof -
  let ?n = "node_at (ac_graph s) i"
  let ?s1 = "mark (NodeRef i) s"
  have len: "i < length (nodes (ac_graph s))" using i(3) by (simp add: reached_def)
  have inv1: "ac_inv api srt opts D m g0 (insert i G) og ?s1" using mark_inv [OF inv info(2), of "NodeRef i"] len by simp
  have todo1: "todo api D g0 ?s1 * Suc M \<le> todo api D g0 s * Suc M"
    by (rule mult_le_mono1 [OF todo_le [OF info(1) inv inv1 mark_le]])
  have "\<exists>s' og'. for_each call (succs ?n) ?s1 = Inr s' \<and> ac_inv api srt opts D m g0 (insert i G) og' s' \<and>
      ac_le {} og ?s1 og' s' \<and> set (succs ?n) \<subseteq> ac_visited s'"
  proof (cases "og i")
    case None
    show ?thesis
    proof (cases "ctor_of ?n = 0")
      case True
      then have "succs ?n = []" by (auto simp: ctor_of_iff)
      then show ?thesis using inv1 by auto
    next
      case False
      then have old: "i < length (nodes g0)" using None i(3) by (auto simp: reached_def)
      then have "sans_kids ?n = sans_kids (node_at g0 i)" using inv by (simp add: ac_inv_def shape_le_def)
      then have n: "?n = node_at g0 i" using i(2) by (cases ?n; cases "node_at g0 i") simp_all
      have "in_graph g0 u" if "u \<in> set (succs ?n)" for u
        using wf_refsD [of g0 i u] wf old that n succs_subset_refs [of ?n] by (auto simp: wf_graph_def)
      then have r: "\<forall>u \<in> set (succs ?n). reached g0 og ?s1 u" using old_reached [OF inv1] by blast
      have "Suc (todo api D g0 ?s1) * Suc M \<le> todo api D g0 s * Suc M"
        using mark_todo [OF info(1) inv i(1)] old by (intro mult_le_mono1) simp
      then have "todo api D g0 ?s1 * Suc M + M < R" using R by simp
      from accept_all [OF info(1) call inv1 r this] show ?thesis by blast
    qed
  next
    case (Some e)
    then obtain d b where d: "og i = Some (d, b)" by (cases e) auto
    note n = ac_node [OF inv d]
    show ?thesis
      using link_succs [OF n(3) i(2)]
    proof
      assume "succs ?n = []"
      then show ?thesis using inv1 by auto
    next
      assume "is_link_kind (dr_kind api d) \<and> (\<exists>u. succs ?n = [u] \<and> stands api opts og (ac_graph s) (dr_type api d) u)"
      then obtain u where u: "is_link_kind (dr_kind api d)" "succs ?n = [u]" "stands api opts og (ac_graph ?s1) (dr_type api d) u" by auto
      have "rk (dr_type api d) < rk d" using info(1) n(2) u(1) by (simp add: debug_info_def)
      then have "level rk M g0 og u < rk d" using stands_level [OF inv1 u(3), of rk M] by simp
      then have "todo api D g0 ?s1 * Suc M + level rk M g0 og u < R" using todo1 R d by (simp add: level_def)
      moreover have "reached g0 og ?s1 u" by (rule stands_reached [OF inv1 u(3)])
      ultimately obtain s' og' where "call u ?s1 = Inr s'" "ac_inv api srt opts D m g0 (insert i G) og' s'" "ac_le {} og ?s1 og' s'"
        "u \<in> ac_visited s'" using call inv1 unfolding ac_call_ok_def by blast
      then show ?thesis using u(2) by auto
    qed
  qed
  then obtain s' og' where s': "for_each call (succs ?n) ?s1 = Inr s'" "ac_inv api srt opts D m g0 (insert i G) og' s'"
    "ac_le {} og ?s1 og' s'" "set (succs ?n) \<subseteq> ac_visited s'" by blast
  have "node_at (ac_graph s') i = ?n" "NodeRef i \<in> ac_visited s'" using ac_kept [OF inv1 s'(3), of i] by simp_all
  moreover have "ac_succs (classes_of m) ?n = succs ?n" using i(2) by (cases ?n) (simp_all add: ac_succs_def)
  ultimately have "ac_done m g0 og' s' i" using s'(4) i(2) by (auto simp: ac_done_def)
  moreover have "ac_le {} og s og' s'" by (rule ac_le_trans [OF mark_le s'(3)]) simp
  ultimately show ?thesis using s' finish_visit [OF s'(2)] \<open>NodeRef i \<in> ac_visited s'\<close> by blast
qed

lemma add_children_body_ok:
  assumes info: "debug_info api D rk M" "readable api D" "sorts_ok srt" "class_map api D m" and fuel: "card D * Suc M + M < fuel"
    and wf: "wf_graph g0" and call: "ac_call_ok api srt opts D rk M m g0 R call"
  shows "ac_call_ok api srt opts D rk M m g0 (Suc R) (add_children_body (add_child api srt opts fuel) m call)"
  unfolding ac_call_ok_def
proof (intro allI impI)
  fix G og s t
  assume inv: "ac_inv api srt opts D m g0 G og s" and r: "reached g0 og s t" and R: "todo api D g0 s * Suc M + level rk M g0 og t < Suc R"
  have g: "in_graph (ac_graph s) t" using r by (simp add: reached_def)
  then obtain n where n: "deref (ac_graph s) t = Inr n" using deref_in_graph by blast
  show "\<exists>s' og'. add_children_body (add_child api srt opts fuel) m call t s = Inr s' \<and> ac_inv api srt opts D m g0 G og' s' \<and>
      ac_le {} og s og' s' \<and> t \<in> ac_visited s'"
  proof (cases "t \<in> ac_visited s")
    case True
    then show ?thesis using inv by (intro exI [of _ s] exI [of _ og]) (simp add: add_children_body_def)
  next
    case False
    show ?thesis
    proof (cases t)
      case (PrimRef k)
      have "ac_inv api srt opts D m g0 G og (mark t s)" using mark_inv [OF inv info(4) g] PrimRef by simp
      then show ?thesis using False n PrimRef mark_le
        by (intro exI [of _ "mark t s"] exI [of _ og])
          (auto simp: add_children_body_def recursive_visit_def Let_def mark_def [symmetric])
    next
      case (NodeRef i)
      have i: "i < length (nodes (ac_graph s))" "n = node_at (ac_graph s) i" using deref_owned [of "ac_graph s" i n] n NodeRef by simp_all
      show ?thesis
      proof (cases "\<exists>c. n = Class c")
        case True
        then obtain c where c: "n = Class c" by blast
        have "todo api D g0 s * Suc M \<le> R" using R by linarith
        from class_visit [OF info fuel call wf inv this, of i c] obtain s' og' where
          s': "visit_class (add_child api srt opts fuel) m call (NodeRef i) c (mark (NodeRef i) s) = Inr s'" "ac_inv api srt opts D m g0 G og' s'"
          "ac_le {} og s og' s'" "NodeRef i \<in> ac_visited s'" using False r NodeRef i(2) c by auto
        have "add_children_body (add_child api srt opts fuel) m call t s = visit_class (add_child api srt opts fuel) m call t c (mark t s)"
          using False n c by (simp add: add_children_body_def Let_def mark_def [symmetric])
        then show ?thesis using s' NodeRef by auto
      next
        case other: False
        have "ctor_of (node_at (ac_graph s) i) \<noteq> 1" using other i(2) by (simp add: ctor_of_iff)
        from other_visit [OF info(1,4) wf call inv _ _ this] obtain s' og' where
          s': "for_each call (succs n) (mark (NodeRef i) s) = Inr s'" "ac_inv api srt opts D m g0 G og' s'"
          "ac_le {} og s og' s'" "NodeRef i \<in> ac_visited s'" using False r R NodeRef i(2) by auto
        have "add_children_body (add_child api srt opts fuel) m call t s = for_each call (succs n) (mark t s)"
          using False n other
          by (cases n) (simp_all add: add_children_body_def Let_def mark_def [symmetric] recursive_visit_succs)
        then show ?thesis using s' NodeRef by auto
      qed
    qed
  qed
qed

lemma add_children_recur_ok:
  assumes "debug_info api D rk M" "readable api D" "sorts_ok srt" "class_map api D m" "card D * Suc M + M < fuel" "wf_graph g0"
  shows "ac_call_ok api srt opts D rk M m g0 n (recur (add_children_body (add_child api srt opts fuel) m) n)"
proof (induction n)
  case (Suc n)
  show ?case unfolding recur.simps by (rule add_children_body_ok [OF assms Suc])
qed (simp add: ac_call_ok_def)

section \<open>The result\<close>

text \<open>The types of a graph the pass goes to: the parents of a class are not among them.\<close>

inductive child_reach :: "(string \<Rightarrow> 'd list) \<Rightarrow> type_graph \<Rightarrow> tref \<Rightarrow> bool"
  for classes g where
  child_reach_root: "t \<in> set (rootTypes g) \<Longrightarrow> child_reach classes g t"
| child_reach_step: "child_reach classes g t \<Longrightarrow> deref g t = Inr n \<Longrightarrow> u \<in> set (ac_succs classes n) \<Longrightarrow> child_reach classes g u"

lemma child_reach_visited:
  assumes inv: "ac_inv api srt opts D m g0 {} og s" and roots: "set (rootTypes (ac_graph s)) \<subseteq> ac_visited s"
  shows "child_reach (classes_of m) (ac_graph s) t \<Longrightarrow> t \<in> ac_visited s"
proof (induction rule: child_reach.induct)
  case (child_reach_step t n u)
  show ?case
  proof (cases t)
    case (NodeRef i)
    then have "ac_done m g0 og s i" using inv child_reach_step.IH by (simp add: ac_inv_def)
    moreover have "n = node_at (ac_graph s) i" using deref_owned [of "ac_graph s" i n] child_reach_step.hyps(2) NodeRef by simp
    ultimately show ?thesis using child_reach_step.hyps(3) by (auto simp: ac_done_def)
  next
    case (PrimRef k)
    then have "n = Primitive k" using child_reach_step.hyps(2) by simp
    then show ?thesis using child_reach_step.hyps(3) by (simp add: ac_succs_def)
  qed
qed (use roots in blast)

lemma made_class_represents:
  assumes inv: "ac_inv api srt opts D m g0 G og s" and made: "made_class og d u"
  shows "represents api srt opts (ac_graph s) d u"
proof -
  have "inv api srt opts D og (ac_parser s)" "\<And>i d. og i \<noteq> Some (d, False)" using inv by (simp_all add: ac_inv_def)
  moreover have "stands api opts og (dp_graph (ac_parser s)) d u" using made by (auto simp: made_class_def stands_def)
  ultimately show ?thesis unfolding ac_graph_def by (rule stands_represents)
qed

text \<open>
  C9: on readable debug information the pass returns. The graph it returns is well-formed and has the nodes of the
  graph it was given, with nothing but children added. Every dynamic class the pass can reach in the result has
  got, besides the children it had, those classes that were recorded under its unqualified name, in the order of the type
  iterator, and that name, behind typedefs, a class of its fully qualified name among their parents; each
  of these nodes represents its type. A class that is not dynamic has got none. No class that is recorded may lack a size.
\<close>

theorem addChildren_result:
  assumes "debug_info api D rk M" and "readable api D" and "sorts_ok srt" and "wf_graph (dp_graph p)" and "dp_types p = Map.empty"
    and "ts_env src" and "ts_types src = Some answers" and "\<And>d. Some d \<in> set answers \<Longrightarrow> d \<in> D"
    and "\<And>name d. d \<in> set (recorded api answers name) \<Longrightarrow> isSizeComplete api d"
    and "card D * Suc M + M < fuel" and "(length (nodes (dp_graph p)) + card D) * Suc M + M < depth"
  shows "\<exists>g. addChildren_pass api srt opts src fuel depth p = Inr g \<and> wf_graph g \<and> shape_le (dp_graph p) g \<and>
    (\<forall>i c. child_reach (recorded api answers) g (NodeRef i) \<longrightarrow> node_at g i = Class c \<longrightarrow>
      (\<exists>us. list_all2 (represents api srt opts g) (if isDynamic c then recorded api answers (cl_name c) else []) us \<and>
         cl_children c = ac_kids (dp_graph p) i @ filter (child_of g (fqName c)) us))"
proof -
  let ?g0 = "dp_graph p"
  obtain m where m: "enumerateChildClasses api src Map.empty = Inr m" "no_empty m" "\<And>name. classes_of m name = recorded api answers name"
    using enumerateChildClasses_result [OF assms(1,8,6,7), of Map.empty] by (auto simp: no_empty_def classes_of_def)
  have "d \<in> D \<and> is_class_kind (dr_kind api d)" if d: "d \<in> set (recorded api answers name)" for d name
    using d assms(8) by (auto simp: recorded_def recorded_for_def is_class_kind_def split: option.splits if_splits)
  then have cm: "class_map api D m" using m(2,3) assms(9) by (simp add: class_map_def)
  let ?s = "\<lparr>ac_parser = p, ac_visited = {}\<rparr>"
  have g: "ac_graph ?s = ?g0" by (simp add: ac_graph_def)
  have "kids (node_at ?g0 i) = ac_kids ?g0 i" if "i < length (nodes ?g0)" for i using that by (simp add: ac_kids_def)
  then have inv: "ac_inv api srt opts D m ?g0 {} Map.empty ?s" using assms(4,5) by (simp add: ac_inv_def inv_def g)
  have "card (old_todo ?g0 ?s) \<le> length (nodes ?g0)" by (simp add: old_todo_def)
  moreover have "card (new_todo api D ?s) \<le> card D" using assms(1) by (intro card_mono) (auto simp: new_todo_def debug_info_def)
  ultimately have "todo api D ?g0 ?s * Suc M \<le> (length (nodes ?g0) + card D) * Suc M" by (intro mult_le_mono1) (simp add: todo_def)
  then have "todo api D ?g0 ?s * Suc M + M < depth" using assms(11) by linarith
  moreover have "\<forall>t \<in> set (rootTypes ?g0). reached ?g0 Map.empty ?s t"
    using old_reached [OF inv] assms(4) by (auto simp: wf_graph_def wf_refs_def)
  ultimately obtain s og where s: "for_each (recur (add_children_body (add_child api srt opts fuel) m) depth) (rootTypes ?g0) ?s = Inr s"
    "ac_inv api srt opts D m ?g0 {} og s" "set (rootTypes ?g0) \<subseteq> ac_visited s"
    using accept_all [OF assms(1) add_children_recur_ok [OF assms(1-3) cm assms(10,4)] inv] by blast
  have sh: "shape_le ?g0 (ac_graph s)" using s(2) by (simp add: ac_inv_def)
  then have "set (rootTypes (ac_graph s)) \<subseteq> ac_visited s" using s(3) by (simp add: shape_le_def extends_def)
  note visited = child_reach_visited [OF s(2) this]
  have rec: "recorded api answers = classes_of m" using m(3) by (simp add: fun_eq_iff)
  have "\<exists>us. list_all2 (represents api srt opts (ac_graph s)) (if isDynamic c then recorded api answers (cl_name c) else []) us \<and>
      cl_children c = ac_kids ?g0 i @ filter (child_of (ac_graph s) (fqName c)) us"
    if c: "child_reach (recorded api answers) (ac_graph s) (NodeRef i)" "node_at (ac_graph s) i = Class c" for i c
  proof -
    have "ac_done m ?g0 og s i" using visited c(1) s(2) unfolding rec by (simp add: ac_inv_def)
    then obtain us where us: "list_all2 (made_class og) (wanted m c) us"
      "cl_children c = ac_kids ?g0 i @ filter (child_of (ac_graph s) (fqName c)) us" using c(2) by (auto simp: ac_done_def has_kids_def)
    have "list_all2 (represents api srt opts (ac_graph s)) (wanted m c) us"
      by (rule list_all2_mono [OF us(1)]) (rule made_class_represents [OF s(2)])
    then show ?thesis using us(2) unfolding rec wanted_def by blast
  qed
  moreover have "wf_graph (ac_graph s)" using s(2) by (simp add: ac_inv_def inv_def ac_graph_def)
  ultimately show ?thesis using m(1) s(1) sh by (simp add: addChildren_pass_def addChildren_run_def)
qed

section \<open>A concrete class hierarchy\<close>

text \<open>
  A dynamic class \<open>ns::A\<close> (0), its child \<open>ns::B\<close> (1), which is derived from it twice under a name of the same
  spelling (3 is \<open>other::A\<close>), and a child (2) of \<open>other::A\<close> only.
\<close>

definition info_classes :: "nat drgn" where
  "info_classes = \<lparr>
     dr_kind = (\<lambda>d. DK_CLASS), dr_sizeof = (\<lambda>d. Some 8), dr_is_signed = (\<lambda>d. False), dr_name = (\<lambda>d. None),
     dr_tag = (\<lambda>d. Some (if d = 1 then ''B'' else if d = 2 then ''C'' else ''A'')),
     dr_fq_name = (\<lambda>d. Some (Some (if d = 0 then ''ns::A'' else if d = 1 then ''ns::B'' else if d = 2 then ''ns::C'' else ''other::A''))),
     dr_has_virtuality = (\<lambda>d. True), dr_virtuality = (\<lambda>d. if d = 0 then 1 else 0), dr_params = (\<lambda>d. []),
     dr_parents = (\<lambda>d. if d = 1 then [(Some 0, 0), (Some 3, 64)] else if d = 2 then [(Some 3, 0)] else []),
     dr_members = (\<lambda>d. []), dr_functions = (\<lambda>d. []), dr_enumerators = (\<lambda>d. []), dr_type = (\<lambda>d. 0), dr_length = (\<lambda>d. 0),
     dr_ibuf_size = 8\<rparr>"

definition classes_source :: "nat type_source" where
  "classes_source = \<lparr>ts_env = True, ts_types = Some [Some 0, None, Some 1, Some 2, Some 3]\<rparr>"

definition class_a :: type_graph where
  "class_a = \<lparr>nodes = [Class (mk_class KClass ''A'' ''ns::A'' 8 1 0)], rootTypes = [NodeRef 0], finalTypes = [], next_id = 1\<rparr>"

definition classes_options :: drgn_options where
  "classes_options = \<lparr>chaseRawPointers = False, readEnumValues = False\<rparr>"

lemma info_classes_ok: "debug_info info_classes {0, 1, 2, 3} (\<lambda>d. 0) 0"
  by (auto simp: debug_info_def info_classes_def is_link_kind_def type_refs_def is_class_kind_def split: if_splits)

lemma info_classes_readable: "readable info_classes {0, 1, 2, 3}"
  by (simp add: readable_def info_classes_def found_params_def List.map_filter_simps)

lemma info_classes_underlying: "underlyingType info_classes d = Some d"
  by (subst underlyingType.simps) (simp add: info_classes_def)

lemma info_classes_parent:
  "parent_name info_classes (Some t, off) = Some (if t = 1 then ''B'' else if t = 2 then ''C'' else ''A'')"
proof -
  have "isSizeComplete info_classes t" by (simp add: isSizeComplete_def info_classes_def)
  then show ?thesis by (simp add: parent_name_def info_classes_underlying) (simp add: info_classes_def)
qed

lemma info_classes_recorded:
  "recorded info_classes [Some 0, None, Some 1, Some 2, Some 3] ''A'' = [1, 1, 2]"
  "d \<in> set (recorded info_classes answers name) \<Longrightarrow> isSizeComplete info_classes d"
proof -
  have kind: "dr_kind info_classes d = DK_CLASS" for d by (simp add: info_classes_def)
  have parents: "dr_parents info_classes d = (if d = 1 then [(Some 0, 0), (Some 3, 64)] else if d = 2 then [(Some 3, 0)] else [])" for d
    by (simp add: info_classes_def)
  show "recorded info_classes [Some 0, None, Some 1, Some 2, Some 3] ''A'' = [1, 1, 2]"
    by (simp add: recorded_def recorded_for_def kind parents info_classes_parent)
  show "d \<in> set (recorded info_classes answers name) \<Longrightarrow> isSizeComplete info_classes d"
    by (simp add: isSizeComplete_def info_classes_def)
qed

theorem addChildren_result_witness:
  "\<exists>g c us. addChildren_pass info_classes stable_sorts classes_options classes_source 5 6
       \<lparr>dp_types = Map.empty, dp_graph = class_a, dp_depth = 0\<rparr> = Inr g \<and> node_at g 0 = Class c \<and>
     list_all2 (represents info_classes stable_sorts classes_options g) [1, 1, 2] us \<and>
     cl_children c = filter (child_of g ''ns::A'') us"
proof -
  have wf: "wf_graph class_a" by (rule wf_checkD) code_simp
  obtain g where g: "addChildren_pass info_classes stable_sorts classes_options classes_source 5 6
       \<lparr>dp_types = Map.empty, dp_graph = class_a, dp_depth = 0\<rparr> = Inr g" "shape_le class_a g"
    "\<And>i c. child_reach (recorded info_classes [Some 0, None, Some 1, Some 2, Some 3]) g (NodeRef i) \<Longrightarrow> node_at g i = Class c \<Longrightarrow>
      \<exists>us. list_all2 (represents info_classes stable_sorts classes_options g)
          (if isDynamic c then recorded info_classes [Some 0, None, Some 1, Some 2, Some 3] (cl_name c) else []) us \<and>
         cl_children c = ac_kids class_a i @ filter (child_of g (fqName c)) us"
    using addChildren_result [OF info_classes_ok info_classes_readable stable_sorts_ok, of
        "\<lparr>dp_types = Map.empty, dp_graph = class_a, dp_depth = 0\<rparr>" classes_source "[Some 0, None, Some 1, Some 2, Some 3]" 5 6 classes_options]
      wf info_classes_recorded(2) by (auto simp: classes_source_def class_a_def)
  let ?A = "mk_class KClass ''A'' ''ns::A'' 8 1 0"
  have "sans_kids (node_at g 0) = Class (?A\<lparr>cl_children := []\<rparr>)" and roots: "rootTypes g = [NodeRef 0]"
    using g(2) by (simp_all add: shape_le_def extends_def class_a_def node_at_def)
  then obtain ks where "node_at g 0 = Class (?A\<lparr>cl_children := ks\<rparr>)" unfolding sans_kids_class by blast
  then obtain c where c: "node_at g 0 = Class c" "isDynamic c" "cl_name c = ''A''" "fqName c = ''ns::A''"
    by (simp add: mk_class_def isDynamic_def fqName_def)
  have "child_reach (recorded info_classes [Some 0, None, Some 1, Some 2, Some 3]) g (NodeRef 0)"
    by (rule child_reach_root) (simp add: roots)
  moreover have "ac_kids class_a 0 = []" by (simp add: ac_kids_def class_a_def node_at_def mk_class_def)
  ultimately show ?thesis using g(1) g(3) [of 0 c] c info_classes_recorded(1) by auto
qed

text \<open>
  A class with two parents of the same unqualified name is recorded twice under it, and becomes a child of each of them
  twice.
\<close>

lemma addChildren_twice:
  "recorded info_classes [Some 1] ''A'' = [1, 1]"
  "case for_each (add_child info_classes stable_sorts classes_options 3 (NodeRef 0) ''ns::A'') [1, 1]
       \<lparr>ac_parser = \<lparr>dp_types = Map.empty, dp_graph = class_a, dp_depth = 0\<rparr>, ac_visited = {}\<rparr> of
     Inr s \<Rightarrow> kids (node_at (ac_graph s) 0) = [NodeRef 1, NodeRef 1] | Inl _ \<Rightarrow> False"
  by code_simp+

end
