(* ===== verification/IdentifyContainers.thy ===== *)
theory IdentifyContainers
  imports GrowingPass
begin

text \<open>
  \<^verbatim>\<open>oi/type_graph/IdentifyContainers.cpp\<close>, and the mutator of \<^verbatim>\<open>Visitor.h\<close> it is built on: the pass that
  replaces the classes a container description matches by containers.
\<close>

section \<open>Recursive mutation\<close>

text \<open>
  The references \<^verbatim>\<open>RecursiveMutator\<close> sets, in the order of its loops. A container is visited by the pass itself,
  which leaves the underlying class alone.
\<close>

fun mut_refs :: "ty \<Rightarrow> tref list" where
  "mut_refs (Container c) = map tp_type (co_templateParams c)"
| "mut_refs n = succs n"

text \<open>\<^verbatim>\<open>setType\<close>, \<^verbatim>\<open>setElementType\<close>, \<^verbatim>\<open>setUnderlyingType\<close>, \<^verbatim>\<open>setPointeeType\<close>, \<^verbatim>\<open>setAllocType\<close>: the names stay.\<close>

definition set_param :: "nat \<Rightarrow> tref \<Rightarrow> template_param list \<Rightarrow> template_param list" where
  "set_param k u ps = ps[k := (ps ! k)\<lparr>tp_type := u\<rparr>]"

definition set_parent :: "nat \<Rightarrow> tref \<Rightarrow> parent list \<Rightarrow> parent list" where
  "set_parent k u ps = ps[k := (ps ! k)\<lparr>p_type := u\<rparr>]"

definition set_member :: "nat \<Rightarrow> tref \<Rightarrow> member list \<Rightarrow> member list" where
  "set_member k u ms = ms[k := (ms ! k)\<lparr>m_type := u\<rparr>]"

definition set_class_ref :: "nat \<Rightarrow> tref \<Rightarrow> class_node \<Rightarrow> class_node" where
  "set_class_ref k u c =
     (let p = length (cl_templateParams c); q = p + length (cl_parents c); r = q + length (cl_members c) in
      if k < p then c\<lparr>cl_templateParams := set_param k u (cl_templateParams c)\<rparr>
      else if k < q then c\<lparr>cl_parents := set_parent (k - p) u (cl_parents c)\<rparr>
      else if k < r then c\<lparr>cl_members := set_member (k - q) u (cl_members c)\<rparr>
      else c\<lparr>cl_children := (cl_children c)[k - r := u]\<rparr>)"

fun set_ref :: "nat \<Rightarrow> tref \<Rightarrow> ty \<Rightarrow> ty" where
  "set_ref k u (Class c) = Class (set_class_ref k u c)"
| "set_ref k u (Container c) = Container (c\<lparr>co_templateParams := set_param k u (co_templateParams c)\<rparr>)"
| "set_ref k u (Array a) = Array (a\<lparr>ar_elementType := u\<rparr>)"
| "set_ref k u (Typedef td) = Typedef (td\<lparr>td_underlying := u\<rparr>)"
| "set_ref k u (Pointer p) = Pointer (p\<lparr>pt_pointee := u\<rparr>)"
| "set_ref k u (Reference r) = Reference (r\<lparr>rf_pointee := u\<rparr>)"
| "set_ref k u (DummyAllocator d) = DummyAllocator (d\<lparr>da_type := u\<rparr>)"
| "set_ref k u (CaptureKeys c) = CaptureKeys (c\<lparr>ck_underlying := u\<rparr>)"
| "set_ref k u n = n"

text \<open>The last references of a class are its children, whose loop casts what it gets to a class.\<close>

definition is_child :: "nat \<Rightarrow> ty \<Rightarrow> bool" where
  "is_child k n = (case n of
      Class c \<Rightarrow> length (cl_templateParams c) + length (cl_parents c) + length (cl_members c) \<le> k
    | _ \<Rightarrow> False)"

type_synonym ic_state = "tref result_tracker pass_state"
type_synonym mutator = "(tref, ic_state, tref \<times> ic_state) call"

definition mutate_ref :: "mutator \<Rightarrow> tref \<Rightarrow> nat \<Rightarrow> ic_state \<Rightarrow> ic_state outcome" where
  "mutate_ref mutate t k s = bindE (get_ty t s) (\<lambda>n. bindE (mutate (mut_refs n ! k) s) (\<lambda>(u, s).
     bindE (get_ty t s) (\<lambda>n. bindE (get_ty u s) (\<lambda>m.
     if is_child k n \<and> ctor_of m \<noteq> 1 then Inl (Throw ''bad_cast'')
     else Inr (put_ty t (set_ref k u n) s)))))"

definition recursive_mutate :: "mutator \<Rightarrow> tref \<Rightarrow> ty \<Rightarrow> ic_state \<Rightarrow> (tref \<times> ic_state) outcome" where
  "recursive_mutate mutate t n s = bindE (for_each (mutate_ref mutate t) [0..<length (mut_refs n)] s) (\<lambda>s. Inr (t, s))"

section \<open>The pass\<close>

type_synonym matcher = "class_node \<Rightarrow> container_info option"

definition find_container :: "(string \<Rightarrow> string \<Rightarrow> bool) \<Rightarrow> container_info list \<Rightarrow> matcher" where
  "find_container regex_search infos c = find (\<lambda>info. ci_matches regex_search info (fqName c)) infos"

definition container_of :: "container_info \<Rightarrow> class_node \<Rightarrow> tref \<Rightarrow> node_id \<Rightarrow> container_node" where
  "container_of info c t nid = (mk_container info (cl_size c) (Some t) nid)\<lparr>co_templateParams := cl_templateParams c\<rparr>"

definition set_mark :: "node_id \<Rightarrow> tref \<Rightarrow> ic_state \<Rightarrow> ic_state" where
  "set_mark nid u s = s\<lparr>ps_marks := result_set nid (Some u) (ps_marks s)\<rparr>"

definition identify_visit :: "matcher \<Rightarrow> mutator \<Rightarrow> mutator" where
  "identify_visit lookup mutate t s = bindE (get_ty t s) (\<lambda>n. case n of
      Class c \<Rightarrow> (case lookup c of
        Some info \<Rightarrow>
          let (u, g) = make_type (\<lambda>nid. Container (container_of info c t nid)) (ps_graph s) in
          bindE (deref g u) (\<lambda>container.
          recursive_mutate mutate u container (set_mark (cl_id c) u (s\<lparr>ps_graph := g\<rparr>)))
      | None \<Rightarrow> recursive_mutate mutate t n (set_mark (cl_id c) t s))
    | _ \<Rightarrow> recursive_mutate mutate t n s)"

definition identify_mutate :: "matcher \<Rightarrow> mutator \<Rightarrow> mutator" where
  "identify_mutate lookup mutate t s = bindE (get_ty t s) (\<lambda>n.
     let (r, trk) = result_get (type_id n) (ps_marks s); s = s\<lparr>ps_marks := trk\<rparr> in
     case r of
       Some u \<Rightarrow> Inr (u, s)
     | None \<Rightarrow> bindE (identify_visit lookup mutate t s) (\<lambda>(u, s). Inr (u, set_mark (type_id n) u s)))"

text \<open>The mutator goes back to a type it has left only through a class.\<close>

definition ic_depth :: "type_graph \<Rightarrow> nat" where
  "ic_depth g = Suc (length (nodes g)) * Suc (length (nodes g))"

definition identify_root :: "matcher \<Rightarrow> nat \<Rightarrow> nat \<Rightarrow> ic_state \<Rightarrow> ic_state outcome" where
  "identify_root lookup depth k s =
     bindE (recur (identify_mutate lookup) depth (rootTypes (ps_graph s) ! k) s) (\<lambda>(u, s).
       Inr (s\<lparr>ps_graph := (ps_graph s)\<lparr>rootTypes := (rootTypes (ps_graph s))[k := u]\<rparr>\<rparr>))"

definition identifyContainers_pass ::
    "(string \<Rightarrow> string \<Rightarrow> bool) \<Rightarrow> container_info list \<Rightarrow> type_graph \<Rightarrow> type_graph outcome" where
  "identifyContainers_pass regex_search infos g =
     bindE (for_each (identify_root (find_container regex_search infos) (ic_depth g)) [0..<length (rootTypes g)]
       \<lparr>ps_marks = replicate (graph_size g) None, ps_graph = g\<rparr>) (\<lambda>s. Inr (ps_graph s))"

section \<open>Nodes and their references\<close>

text \<open>A node with all the references changed that a mutator sets.\<close>

fun map_refs :: "(tref \<Rightarrow> tref) \<Rightarrow> ty \<Rightarrow> ty" where
  "map_refs f (Class c) = Class (c\<lparr>
     cl_templateParams := map (\<lambda>p. p\<lparr>tp_type := f (tp_type p)\<rparr>) (cl_templateParams c),
     cl_parents := map (\<lambda>p. p\<lparr>p_type := f (p_type p)\<rparr>) (cl_parents c),
     cl_members := map (\<lambda>m. m\<lparr>m_type := f (m_type m)\<rparr>) (cl_members c),
     cl_children := map f (cl_children c)\<rparr>)"
| "map_refs f (Container c) = Container (c\<lparr>
     co_templateParams := map (\<lambda>p. p\<lparr>tp_type := f (tp_type p)\<rparr>) (co_templateParams c)\<rparr>)"
| "map_refs f (Array a) = Array (a\<lparr>ar_elementType := f (ar_elementType a)\<rparr>)"
| "map_refs f (Typedef td) = Typedef (td\<lparr>td_underlying := f (td_underlying td)\<rparr>)"
| "map_refs f (Pointer p) = Pointer (p\<lparr>pt_pointee := f (pt_pointee p)\<rparr>)"
| "map_refs f (Reference r) = Reference (r\<lparr>rf_pointee := f (rf_pointee r)\<rparr>)"
| "map_refs f (DummyAllocator d) = DummyAllocator (d\<lparr>da_type := f (da_type d)\<rparr>)"
| "map_refs f (CaptureKeys c) = CaptureKeys (c\<lparr>ck_underlying := f (ck_underlying c)\<rparr>)"
| "map_refs f n = n"

lemma mut_refs_map [simp]: "mut_refs (map_refs f n) = map f (mut_refs n)"
  by (cases n) (simp_all add: comp_def)

lemma map_refs_fields [simp]:
  "ctor_of (map_refs f n) = ctor_of n" "type_id (map_refs f n) = type_id n"
  "has_node_id (map_refs f n) = has_node_id n"
  by (cases n; simp)+

lemma map_refs_cong: "(\<And>u. u \<in> set (mut_refs n) \<Longrightarrow> f u = f' u) \<Longrightarrow> map_refs f n = map_refs f' n"
  by (cases n) auto

lemma map_refs_id: "(\<And>u. u \<in> set (mut_refs n) \<Longrightarrow> f u = u) \<Longrightarrow> map_refs f n = n"
proof (cases n)
  case (Class c)
  assume a: "\<And>u. u \<in> set (mut_refs n) \<Longrightarrow> f u = u"
  then have "map (\<lambda>p. p\<lparr>tp_type := f (tp_type p)\<rparr>) (cl_templateParams c) = cl_templateParams c"
    "map (\<lambda>p. p\<lparr>p_type := f (p_type p)\<rparr>) (cl_parents c) = cl_parents c"
    "map (\<lambda>m. m\<lparr>m_type := f (m_type m)\<rparr>) (cl_members c) = cl_members c" "map f (cl_children c) = cl_children c"
    using Class by (auto intro!: map_idI)
  then show ?thesis using Class by simp
next
  case (Container c)
  assume a: "\<And>u. u \<in> set (mut_refs n) \<Longrightarrow> f u = u"
  then have "map (\<lambda>p. p\<lparr>tp_type := f (tp_type p)\<rparr>) (co_templateParams c) = co_templateParams c"
    using Container by (auto intro!: map_idI)
  then show ?thesis using Container by simp
qed simp_all

lemma set_lists:
  "k < length ps \<Longrightarrow> map tp_type (set_param k u ps) = (map tp_type ps)[k := u]"
  "k < length qs \<Longrightarrow> map p_type (set_parent k u qs) = (map p_type qs)[k := u]"
  "k < length ms \<Longrightarrow> map m_type (set_member k u ms) = (map m_type ms)[k := u]"
  "k < length ps \<Longrightarrow> map (\<lambda>p. p\<lparr>tp_type := f (tp_type p)\<rparr>) (set_param k u ps) =
     set_param k (f u) (map (\<lambda>p. p\<lparr>tp_type := f (tp_type p)\<rparr>) ps)"
  "k < length qs \<Longrightarrow> map (\<lambda>p. p\<lparr>p_type := f (p_type p)\<rparr>) (set_parent k u qs) =
     set_parent k (f u) (map (\<lambda>p. p\<lparr>p_type := f (p_type p)\<rparr>) qs)"
  "k < length ms \<Longrightarrow> map (\<lambda>m. m\<lparr>m_type := f (m_type m)\<rparr>) (set_member k u ms) =
     set_member k (f u) (map (\<lambda>m. m\<lparr>m_type := f (m_type m)\<rparr>) ms)"
  "length (set_param k u ps) = length ps" "length (set_parent k u qs) = length qs"
  "length (set_member k u ms) = length ms"
  by (simp_all add: set_param_def set_parent_def set_member_def map_update)

lemma mut_refs_set:
  assumes "k < length (mut_refs n)"
  shows "mut_refs (set_ref k u n) = (mut_refs n)[k := u]"
proof (cases n)
  case (Class c)
  then show ?thesis
    using assms by (auto simp: set_class_ref_def Let_def set_lists list_update_append)
qed (use assms in \<open>auto simp: set_lists\<close>)

lemma map_refs_set:
  assumes "k < length (mut_refs n)"
  shows "map_refs f (set_ref k u n) = set_ref k (f u) (map_refs f n)"
proof (cases n)
  case (Class c)
  then show ?thesis
    using assms by (auto simp: set_class_ref_def Let_def set_lists map_update)
qed (use assms in \<open>auto simp: set_lists\<close>)

lemma set_lists_same:
  "k < length ps \<Longrightarrow> set_param k (tp_type (ps ! k)) ps = ps"
  "k < length qs \<Longrightarrow> set_parent k (p_type (qs ! k)) qs = qs"
  "k < length ms \<Longrightarrow> set_member k (m_type (ms ! k)) ms = ms"
  by (simp_all add: set_param_def set_parent_def set_member_def)

lemma set_ref_same:
  assumes "k < length (mut_refs n)"
  shows "set_ref k (mut_refs n ! k) n = n"
proof (cases n)
  case (Class c)
  let ?p = "length (cl_templateParams c)" and ?q = "length (cl_templateParams c) + length (cl_parents c)"
  let ?r = "length (cl_templateParams c) + length (cl_parents c) + length (cl_members c)"
  consider "k < ?p" | "?p \<le> k" "k < ?q" | "?q \<le> k" "k < ?r" | "?r \<le> k" by linarith
  then show ?thesis
  proof cases
    case 1
    then show ?thesis using Class by (simp add: set_class_ref_def Let_def nth_append set_lists_same)
  next
    case 2
    then have "k - ?p < length (cl_parents c)" by linarith
    then show ?thesis using 2 Class by (simp add: set_class_ref_def Let_def nth_append set_lists_same)
  next
    case 3
    then have "k - ?q < length (cl_members c)" by linarith
    then show ?thesis using 3 Class
      by (simp add: set_class_ref_def Let_def nth_append set_lists_same diff_diff_left)
  next
    case 4
    then show ?thesis using Class by (simp add: set_class_ref_def Let_def nth_append diff_diff_left)
  qed
qed (use assms in \<open>auto simp: set_lists_same\<close>)

lemma set_ref_fields [simp]:
  "ctor_of (set_ref k u n) = ctor_of n" "type_id (set_ref k u n) = type_id n"
  "has_node_id (set_ref k u n) = has_node_id n"
  by (cases n; simp add: set_class_ref_def Let_def)+

section \<open>Where the containers come from\<close>

text \<open>
  \<open>matched\<close>: the classes of the graph \<open>g0\<close> of the start that become containers. The nodes from
  \<open>length (nodes g0)\<close> on are the new containers; \<open>origin\<close> takes a reference to one of them back to
  its class. A reference is \<open>final\<close> when it is not to a matched class.
\<close>

definition matched :: "matcher \<Rightarrow> type_graph \<Rightarrow> nat \<Rightarrow> bool" where
  "matched lookup g0 i \<longleftrightarrow> i < length (nodes g0) \<and> (\<exists>c. node_at g0 i = Class c \<and> lookup c \<noteq> None)"

definition origin :: "type_graph \<Rightarrow> type_graph \<Rightarrow> tref \<Rightarrow> tref" where
  "origin g0 g u = (case u of
      PrimRef k \<Rightarrow> u
    | NodeRef i \<Rightarrow> if i < length (nodes g0) then u
        else (case node_at g i of Container c \<Rightarrow> the (co_underlying c) | _ \<Rightarrow> u))"

definition final :: "matcher \<Rightarrow> type_graph \<Rightarrow> tref \<Rightarrow> bool" where
  "final lookup g0 u \<longleftrightarrow> (\<forall>i. u = NodeRef i \<longrightarrow> \<not> matched lookup g0 i)"

definition mark :: "ic_state \<Rightarrow> nat \<Rightarrow> tref option" where
  "mark s i = cached (ps_marks s) (type_id (node_at (ps_graph s) i))"

text \<open>A new node is a copy of the class it replaces.\<close>

definition replaces :: "matcher \<Rightarrow> type_graph \<Rightarrow> type_graph \<Rightarrow> nat \<Rightarrow> nat \<Rightarrow> bool" where
  "replaces lookup g0 g i j \<longleftrightarrow> j < length (nodes g0) \<and> (\<exists>c info nid. node_at g0 j = Class c \<and> lookup c = Some info \<and>
     map_refs (origin g0 g) (node_at g i) = Container (container_of info c (NodeRef j) nid))"

definition ic_ok :: "matcher \<Rightarrow> type_graph \<Rightarrow> ic_state \<Rightarrow> bool" where
  "ic_ok lookup g0 s \<longleftrightarrow> wf_graph (ps_graph s) \<and> length (nodes g0) \<le> length (nodes (ps_graph s)) \<and>
     (\<forall>nid \<ge> next_id (ps_graph s). cached (ps_marks s) nid = None) \<and>
     (\<forall>i < length (nodes g0). map_refs (origin g0 (ps_graph s)) (node_at (ps_graph s) i) = node_at g0 i) \<and>
     (\<forall>i. matched lookup g0 i \<longrightarrow> node_at (ps_graph s) i = node_at g0 i) \<and>
     (\<forall>i < length (nodes (ps_graph s)). length (nodes g0) \<le> i \<longrightarrow>
        (\<exists>j. replaces lookup g0 (ps_graph s) i j \<and> mark s j = Some (NodeRef i))) \<and>
     (\<forall>i w. i < length (nodes (ps_graph s)) \<longrightarrow> mark s i = Some w \<longrightarrow> in_graph (ps_graph s) w \<and> final lookup g0 w \<and>
        origin g0 (ps_graph s) w = origin g0 (ps_graph s) (NodeRef i))"

definition covered :: "type_graph \<Rightarrow> ic_state \<Rightarrow> tref \<Rightarrow> bool" where
  "covered g0 s w \<longleftrightarrow> (\<forall>i < length (nodes g0). w = NodeRef i \<and> has_node_id (node_at (ps_graph s) i) \<longrightarrow> mark s i \<noteq> None)"

definition closed :: "matcher \<Rightarrow> type_graph \<Rightarrow> ic_state \<Rightarrow> nat \<Rightarrow> bool" where
  "closed lookup g0 s k \<longleftrightarrow> k < length (nodes (ps_graph s)) \<and>
     (\<forall>w \<in> set (mut_refs (node_at (ps_graph s) k)). final lookup g0 w \<and> covered g0 s w)"

definition evolves :: "matcher \<Rightarrow> type_graph \<Rightarrow> tref \<Rightarrow> tref \<Rightarrow> bool" where
  "evolves lookup g0 w w' \<longleftrightarrow> w' = w \<or> \<not> final lookup g0 w"

text \<open>What every call keeps; what it marks is closed when it returns, but for the nodes \<open>X\<close>.\<close>

definition later :: "matcher \<Rightarrow> type_graph \<Rightarrow> nat set \<Rightarrow> ic_state \<Rightarrow> ic_state \<Rightarrow> bool" where
  "later lookup g0 X s s' \<longleftrightarrow>
     length (nodes (ps_graph s)) \<le> length (nodes (ps_graph s')) \<and>
     rootTypes (ps_graph s') = rootTypes (ps_graph s) \<and> finalTypes (ps_graph s') = finalTypes (ps_graph s) \<and>
     (\<forall>i < length (nodes (ps_graph s)).
        type_id (node_at (ps_graph s') i) = type_id (node_at (ps_graph s) i) \<and>
        ctor_of (node_at (ps_graph s') i) = ctor_of (node_at (ps_graph s) i) \<and>
        origin g0 (ps_graph s') (NodeRef i) = origin g0 (ps_graph s) (NodeRef i) \<and>
        list_all2 (evolves lookup g0) (mut_refs (node_at (ps_graph s) i)) (mut_refs (node_at (ps_graph s') i)) \<and>
        (\<forall>w. mark s i = Some w \<longrightarrow> mark s' i = Some w)) \<and>
     (\<forall>i < length (nodes (ps_graph s')). \<forall>k. mark s' i = Some (NodeRef k) \<longrightarrow>
        i < length (nodes (ps_graph s)) \<and> mark s i \<noteq> None \<or> closed lookup g0 s' k \<or> k \<in> X)"

lemma origin_prim [simp]: "origin g0 g (PrimRef k) = PrimRef k"
  by (simp add: origin_def)

lemma origin_old [simp]: "i < length (nodes g0) \<Longrightarrow> origin g0 g (NodeRef i) = NodeRef i"
  by (simp add: origin_def)

lemma final_prim [simp]: "final lookup g0 (PrimRef k)"
  by (simp add: final_def)

lemma ic_laterD:
  assumes "later lookup g0 X s s'"
  shows "length (nodes (ps_graph s)) \<le> length (nodes (ps_graph s'))"
    "in_graph (ps_graph s) w \<Longrightarrow> in_graph (ps_graph s') w"
    "in_graph (ps_graph s) w \<Longrightarrow> origin g0 (ps_graph s') w = origin g0 (ps_graph s) w"
    "i < length (nodes (ps_graph s)) \<Longrightarrow> mark s i = Some w \<Longrightarrow> mark s' i = Some w"
    "i < length (nodes (ps_graph s)) \<Longrightarrow>
       list_all2 (evolves lookup g0) (mut_refs (node_at (ps_graph s) i)) (mut_refs (node_at (ps_graph s') i))"
    "i < length (nodes (ps_graph s')) \<Longrightarrow> mark s' i = Some (NodeRef k) \<Longrightarrow>
       i < length (nodes (ps_graph s)) \<and> mark s i \<noteq> None \<or> closed lookup g0 s' k \<or> k \<in> X"
    "i < length (nodes (ps_graph s)) \<Longrightarrow> type_id (node_at (ps_graph s') i) = type_id (node_at (ps_graph s) i)"
    "i < length (nodes (ps_graph s)) \<Longrightarrow> ctor_of (node_at (ps_graph s') i) = ctor_of (node_at (ps_graph s) i)"
    "rootTypes (ps_graph s') = rootTypes (ps_graph s)" "finalTypes (ps_graph s') = finalTypes (ps_graph s)"
proof -
  show "in_graph (ps_graph s) w \<Longrightarrow> in_graph (ps_graph s') w"
    "in_graph (ps_graph s) w \<Longrightarrow> origin g0 (ps_graph s') w = origin g0 (ps_graph s) w"
    using assms unfolding later_def by (cases w; auto)+
qed (use assms in \<open>simp_all add: later_def\<close>)

lemma ic_covered_later:
  assumes "length (nodes g0) \<le> length (nodes (ps_graph s))" "later lookup g0 X s s'" "covered g0 s w"
  shows "covered g0 s' w"
proof -
  have "mark s' i \<noteq> None"
    if i: "i < length (nodes g0)" "w = NodeRef i" "has_node_id (node_at (ps_graph s') i)" for i
  proof -
    have l: "i < length (nodes (ps_graph s))" using i assms(1) by simp
    have "has_node_id (node_at (ps_graph s) i)"
      using ctor_of_has_id [OF ic_laterD(8) [OF assms(2) l]] i(3) by simp
    then obtain r where "mark s i = Some r" using assms(3) i by (auto simp: covered_def)
    then show ?thesis using ic_laterD(4) [OF assms(2) l] by simp
  qed
  then show ?thesis by (auto simp: covered_def)
qed

lemma evolves_final: "list_all2 (evolves lookup g0) ws ws' \<Longrightarrow> \<forall>w \<in> set ws. final lookup g0 w \<Longrightarrow> ws' = ws"
  by (induction rule: list_all2_induct) (auto simp: evolves_def)

lemma evolves_trans:
  assumes "list_all2 (evolves lookup g0) ws ws'" "list_all2 (evolves lookup g0) ws' ws''"
  shows "list_all2 (evolves lookup g0) ws ws''"
  by (rule list_all2_trans [OF _ assms]) (auto simp: evolves_def)

lemma ic_closed_later:
  assumes "length (nodes g0) \<le> length (nodes (ps_graph s))" "later lookup g0 X s s'" "closed lookup g0 s k"
  shows "closed lookup g0 s' k"
proof -
  have k: "k < length (nodes (ps_graph s))" "\<forall>w \<in> set (mut_refs (node_at (ps_graph s) k)). final lookup g0 w"
    using assms(3) by (simp_all add: closed_def)
  have "mut_refs (node_at (ps_graph s') k) = mut_refs (node_at (ps_graph s) k)"
    by (rule evolves_final [OF ic_laterD(5) [OF assms(2) k(1)] k(2)])
  moreover have "k < length (nodes (ps_graph s'))" using k(1) ic_laterD(1) [OF assms(2)] by simp
  ultimately show ?thesis using assms(3) ic_covered_later [OF assms(1,2)] by (simp add: closed_def)
qed

lemma ic_later_refl: "later lookup g0 X s s"
  by (auto simp: later_def evolves_def intro: list_all2_refl)

lemma ic_later_trans:
  assumes big: "length (nodes g0) \<le> length (nodes (ps_graph s))" and l: "later lookup g0 X s s'" "later lookup g0 X s' s''"
  shows "later lookup g0 X s s''"
proof -
  have big': "length (nodes g0) \<le> length (nodes (ps_graph s'))" using big ic_laterD(1) [OF l(1)] by simp
  have old: "i < length (nodes (ps_graph s'))" if "i < length (nodes (ps_graph s))" for i
    using that ic_laterD(1) [OF l(1)] by simp
  have fresh: "i < length (nodes (ps_graph s)) \<and> mark s i \<noteq> None \<or> closed lookup g0 s'' k \<or> k \<in> X"
    if i: "i < length (nodes (ps_graph s''))" "mark s'' i = Some (NodeRef k)" for i k
  proof (rule ccontr)
    assume no: "\<not> ?thesis"
    then have i': "i < length (nodes (ps_graph s'))" "mark s' i \<noteq> None" using ic_laterD(6) [OF l(2) i] by auto
    then obtain w where w: "mark s' i = Some w" by blast
    then have "w = NodeRef k" using ic_laterD(4) [OF l(2) i'(1) w] i(2) by simp
    then have "closed lookup g0 s' k \<or> k \<in> X" using ic_laterD(6) [OF l(1) i'(1)] w no by blast
    then show False using ic_closed_later [OF big' l(2)] no by blast
  qed
  have "type_id (node_at (ps_graph s'') i) = type_id (node_at (ps_graph s) i) \<and>
      ctor_of (node_at (ps_graph s'') i) = ctor_of (node_at (ps_graph s) i) \<and>
      origin g0 (ps_graph s'') (NodeRef i) = origin g0 (ps_graph s) (NodeRef i) \<and>
      list_all2 (evolves lookup g0) (mut_refs (node_at (ps_graph s) i)) (mut_refs (node_at (ps_graph s'') i)) \<and>
      (\<forall>w. mark s i = Some w \<longrightarrow> mark s'' i = Some w)" if i: "i < length (nodes (ps_graph s))" for i
    using ic_laterD(3-5,7,8) [OF l(1)] ic_laterD(3-5,7,8) [OF l(2)] i old [OF i]
      evolves_trans [OF ic_laterD(5) [OF l(1) i] ic_laterD(5) [OF l(2) old [OF i]]] by simp
  then show ?thesis
    using fresh ic_laterD(1,9,10) [OF l(1)] ic_laterD(1,9,10) [OF l(2)] unfolding later_def by auto
qed

lemma ic_later_closed:
  assumes "later lookup g0 X s s'" "\<And>k. k \<in> X \<Longrightarrow> closed lookup g0 s' k"
  shows "later lookup g0 {} s s'"
  using assms unfolding later_def by blast

lemma ic_later_mono: "later lookup g0 X s s' \<Longrightarrow> X \<subseteq> Y \<Longrightarrow> later lookup g0 Y s s'"
  unfolding later_def by blast

lemma ic_okD:
  assumes "ic_ok lookup g0 s"
  shows "wf_graph (ps_graph s)" "length (nodes g0) \<le> length (nodes (ps_graph s))"
    "i < length (nodes g0) \<Longrightarrow> map_refs (origin g0 (ps_graph s)) (node_at (ps_graph s) i) = node_at g0 i"
    "matched lookup g0 i \<Longrightarrow> node_at (ps_graph s) i = node_at g0 i"
    "mark s i = Some w \<Longrightarrow> i < length (nodes (ps_graph s)) \<Longrightarrow> in_graph (ps_graph s) w"
    "mark s i = Some w \<Longrightarrow> i < length (nodes (ps_graph s)) \<Longrightarrow> final lookup g0 w"
    "mark s i = Some w \<Longrightarrow> i < length (nodes (ps_graph s)) \<Longrightarrow>
       origin g0 (ps_graph s) w = origin g0 (ps_graph s) (NodeRef i)"
proof -
  show "i < length (nodes g0) \<Longrightarrow> map_refs (origin g0 (ps_graph s)) (node_at (ps_graph s) i) = node_at g0 i"
    using assms unfolding ic_ok_def by blast
qed (use assms in \<open>simp_all add: ic_ok_def\<close>)

lemma ic_ok_new:
  assumes "ic_ok lookup g0 s" "i < length (nodes (ps_graph s))" "length (nodes g0) \<le> i"
  shows "\<exists>j. replaces lookup g0 (ps_graph s) i j \<and> mark s j = Some (NodeRef i)"
  using assms unfolding ic_ok_def by blast

lemma replacesE:
  assumes "replaces lookup g0 g i j"
  obtains c info nid where "matched lookup g0 j" "node_at g0 j = Class c" "lookup c = Some info"
    "map_refs (origin g0 g) (node_at g i) = Container (container_of info c (NodeRef j) nid)"
  using assms unfolding replaces_def matched_def by auto

lemma replaces_container:
  assumes "replaces lookup g0 g i j"
  obtains c where "node_at g i = Container c" "co_underlying c = Some (NodeRef j)"
proof -
  obtain c info nid where "map_refs (origin g0 g) (node_at g i) = Container (container_of info c (NodeRef j) nid)"
    using assms by (rule replacesE)
  then obtain d where d: "node_at g i = Container d" "d\<lparr>co_templateParams := map (\<lambda>p. p\<lparr>tp_type := origin g0 g (tp_type p)\<rparr>) (co_templateParams d)\<rparr> =
      container_of info c (NodeRef j) nid" by (cases "node_at g i") auto
  have "co_underlying d = co_underlying (d\<lparr>co_templateParams := map (\<lambda>p. p\<lparr>tp_type := origin g0 g (tp_type p)\<rparr>) (co_templateParams d)\<rparr>)"
    by simp
  then have "co_underlying d = Some (NodeRef j)" unfolding d(2) by (simp add: container_of_def mk_container_def)
  then show ?thesis using that d(1) by blast
qed

lemma origin_new:
  assumes "replaces lookup g0 g i j" "length (nodes g0) \<le> i"
  shows "origin g0 g (NodeRef i) = NodeRef j"
proof -
  obtain c where "node_at g i = Container c" "co_underlying c = Some (NodeRef j)"
    by (rule replaces_container [OF assms(1)])
  then show ?thesis using assms(2) by (simp add: origin_def)
qed

lemma origin_in_graph:
  assumes "ic_ok lookup g0 s" "in_graph (ps_graph s) w"
  shows "in_graph g0 (origin g0 (ps_graph s) w)"
proof (cases w)
  case (NodeRef i)
  show ?thesis
  proof (cases "i < length (nodes g0)")
    case False
    then obtain j where j: "replaces lookup g0 (ps_graph s) i j" using ic_ok_new [OF assms(1), of i] assms(2) NodeRef by auto
    have "j < length (nodes g0)" using j by (simp add: replaces_def)
    then show ?thesis using NodeRef origin_new [OF j] False by simp
  qed (use NodeRef in simp)
qed (use assms in simp)

text \<open>Every class has one container at most.\<close>

lemma final_unique:
  assumes ok: "ic_ok lookup g0 s" and w: "in_graph (ps_graph s) w" "in_graph (ps_graph s) r"
    "final lookup g0 w" "final lookup g0 r" "origin g0 (ps_graph s) w = origin g0 (ps_graph s) r"
  shows "w = r"
proof -
  have same: "u = v" if u: "in_graph (ps_graph s) u" "in_graph (ps_graph s) v" "final lookup g0 v"
      "origin g0 (ps_graph s) u = origin g0 (ps_graph s) v" "u = NodeRef i" "length (nodes g0) \<le> i" for u v i
  proof -
    obtain j where j: "replaces lookup g0 (ps_graph s) i j" "mark s j = Some (NodeRef i)"
      using ic_ok_new [OF ok, of i] u by auto
    have o: "origin g0 (ps_graph s) v = NodeRef j" using u(4,5) origin_new [OF j(1) u(6)] by simp
    show ?thesis
    proof (cases v)
      case (NodeRef k)
      show ?thesis
      proof (cases "k < length (nodes g0)")
        case True
        then have "k = j" using o NodeRef by simp
        then show ?thesis using u(3) NodeRef j(1) by (auto simp: final_def elim: replacesE)
      next
        case False
        then obtain j' where j': "replaces lookup g0 (ps_graph s) k j'" "mark s j' = Some (NodeRef k)"
          using ic_ok_new [OF ok, of k] u(2) NodeRef by auto
        then have "j' = j" using o NodeRef origin_new [OF j'(1)] False by simp
        then show ?thesis using j(2) j'(2) u(5) NodeRef by simp
      qed
    qed (use o in simp)
  qed
  show ?thesis
  proof (cases "\<exists>i. w = NodeRef i \<and> length (nodes g0) \<le> i")
    case True
    then show ?thesis using same w by blast
  next
    case w': False
    show ?thesis
    proof (cases "\<exists>i. r = NodeRef i \<and> length (nodes g0) \<le> i")
      case True
      then obtain i where "r = NodeRef i" "length (nodes g0) \<le> i" by blast
      then have "r = w" by (intro same [OF w(2,1,3) w(5) [symmetric]])
      then show ?thesis by simp
    next
      case False
      have old: "origin g0 (ps_graph s) x = x" if "\<not> (\<exists>i. x = NodeRef i \<and> length (nodes g0) \<le> i)" for x
        using that by (cases x) (auto simp: origin_def)
      show ?thesis using w(5) unfolding old [OF w'] old [OF False] .
    qed
  qed
qed

lemma mark_final:
  assumes "ic_ok lookup g0 s" "i < length (nodes (ps_graph s))" "mark s i = Some w" "final lookup g0 (NodeRef i)"
  shows "w = NodeRef i"
proof (rule final_unique [OF assms(1)])
  show "in_graph (ps_graph s) w" "final lookup g0 w" "origin g0 (ps_graph s) w = origin g0 (ps_graph s) (NodeRef i)"
    using ic_okD(5-7) [OF assms(1,3,2)] .
qed (use assms in simp_all)

section \<open>The three changes of the state\<close>

lemma set_mark_simps [simp]: "ps_graph (set_mark nid u s) = ps_graph s"
  by (simp add: set_mark_def)

lemma set_mark_noid: "nid < 0 \<Longrightarrow> set_mark nid u s = s"
  by (simp add: set_mark_def result_set_def)

lemma set_mark_mark:
  assumes "wf_graph (ps_graph s)" "i < length (nodes (ps_graph s))" "has_node_id (node_at (ps_graph s) i)"
    "j < length (nodes (ps_graph s))"
  shows "mark (set_mark (type_id (node_at (ps_graph s) i)) w s) j = (if j = i then Some w else mark s j)"
proof -
  have ids: "wf_ids (ps_graph s)" using assms(1) by (simp add: wf_graph_def)
  have pos: "0 \<le> type_id (node_at (ps_graph s) i)" using wf_idsD(1) [OF ids assms(2)] assms(3) by simp
  have "j = i" if "type_id (node_at (ps_graph s) j) = type_id (node_at (ps_graph s) i)"
    using wf_idsD(1,3) [OF ids assms(4)] wf_idsD(1) [OF ids assms(2)] assms(2,3) that pos by auto
  then show ?thesis using pos by (auto simp: mark_def set_mark_def result_set_cached)
qed

lemma later_mark:
  assumes ok: "ic_ok lookup g0 s" and i: "i < length (nodes (ps_graph s))" "has_node_id (node_at (ps_graph s) i)"
    and w: "in_graph (ps_graph s) w" "final lookup g0 w" "origin g0 (ps_graph s) w = origin g0 (ps_graph s) (NodeRef i)"
  shows "ic_ok lookup g0 (set_mark (type_id (node_at (ps_graph s) i)) w s) \<and>
    later lookup g0 {k. w = NodeRef k} s (set_mark (type_id (node_at (ps_graph s) i)) w s)"
proof -
  let ?s = "set_mark (type_id (node_at (ps_graph s) i)) w s"
  note wf = ic_okD(1) [OF ok]
  have mk: "mark ?s j = (if j = i then Some w else mark s j)" if "j < length (nodes (ps_graph s))" for j
    by (rule set_mark_mark [OF wf i that])
  have keep: "v = w" if "mark s i = Some v" for v
    using final_unique [OF ok ic_okD(5) [OF ok that i(1)] w(1) ic_okD(6) [OF ok that i(1)] w(2)]
      ic_okD(7) [OF ok that i(1)] w(3) by simp
  have "\<exists>j. replaces lookup g0 (ps_graph s) k j \<and> mark ?s j = Some (NodeRef k)"
    if k: "k < length (nodes (ps_graph s))" "length (nodes g0) \<le> k" for k
  proof -
    obtain j where j: "replaces lookup g0 (ps_graph s) k j" "mark s j = Some (NodeRef k)" using ic_ok_new [OF ok k] by blast
    then have "j < length (nodes (ps_graph s))" using ic_okD(2) [OF ok] by (simp add: replaces_def)
    then have "mark ?s j = Some (NodeRef k)" using mk [of j] keep [of "NodeRef k"] j(2) by (cases "j = i") simp_all
    then show ?thesis using j(1) by blast
  qed
  moreover have "in_graph (ps_graph s) v \<and> final lookup g0 v \<and> origin g0 (ps_graph s) v = origin g0 (ps_graph s) (NodeRef k)"
    if "k < length (nodes (ps_graph s))" "mark ?s k = Some v" for k v
    using that mk w ic_okD(5-7) [OF ok _ that(1), of v] by (auto split: if_splits)
  moreover have "cached (ps_marks ?s) nid = None" if "next_id (ps_graph s) \<le> nid" for nid
  proof -
    have "wf_ids (ps_graph s)" using wf by (simp add: wf_graph_def)
    then show ?thesis using wf_idsD(2) [OF _ i] that ok by (simp add: ic_ok_def set_mark_def result_set_cached)
  qed
  ultimately have "ic_ok lookup g0 ?s"
    using ok unfolding ic_ok_def by simp
  moreover have "later lookup g0 {k. w = NodeRef k} s ?s"
    unfolding later_def using mk keep by (auto simp: evolves_def intro!: list_all2_refl)
  ultimately show ?thesis by blast
qed

lemma origin_put:
  assumes "k < length (nodes g)"
  shows "origin g0 (put_node (NodeRef k) (set_ref q r (node_at g k)) g) w = origin g0 g w"
proof (cases w)
  case (NodeRef i)
  show ?thesis
  proof (cases "i = k")
    case True
    then show ?thesis using assms NodeRef by (cases "node_at g k") (simp_all add: origin_def)
  next
    case False
    then show ?thesis using assms NodeRef by (simp add: origin_def)
  qed
qed simp

lemma refs_set_ref: "q < length (mut_refs n) \<Longrightarrow> set (refs (set_ref q r n)) \<subseteq> insert r (set (refs n))"
proof -
  assume q: "q < length (mut_refs n)"
  have *: "set (mut_refs (set_ref q r n)) \<subseteq> insert r (set (mut_refs n))"
    unfolding mut_refs_set [OF q] by (rule set_update_subset_insert)
  show ?thesis
  proof (cases n)
    case (Container c)
    then show ?thesis using * by (auto split: option.splits)
  qed (use * q in auto)
qed

lemma children_set_ref:
  "set (cl_children (set_class_ref q r c)) \<subseteq> insert r (set (cl_children c))"
    "\<not> is_child q (Class c) \<Longrightarrow> cl_children (set_class_ref q r c) = cl_children c"
  using set_update_subset_insert [of "cl_children c"] by (auto simp: set_class_ref_def Let_def is_child_def dest: subsetD)

lemma ref_in_graph:
  assumes "wf_graph g" "k < length (nodes g)" "q < length (mut_refs (node_at g k))"
  shows "in_graph g (mut_refs (node_at g k) ! q)"
proof -
  have "mut_refs (node_at g k) ! q \<in> set (mut_refs (node_at g k))" using assms(3) by simp
  moreover have "set (mut_refs (node_at g k)) \<subseteq> set (refs (node_at g k))" by (cases "node_at g k") auto
  ultimately show ?thesis using assms(1,2) wf_refsD by (auto simp: wf_graph_def)
qed

lemma later_put:
  assumes ok: "ic_ok lookup g0 s" and k: "k < length (nodes (ps_graph s))" "\<not> matched lookup g0 k"
    and q: "q < length (mut_refs (node_at (ps_graph s) k))"
    and r: "in_graph (ps_graph s) r" "final lookup g0 r"
      "origin g0 (ps_graph s) r = origin g0 (ps_graph s) (mut_refs (node_at (ps_graph s) k) ! q)"
    and cast: "is_child q (node_at (ps_graph s) k) \<Longrightarrow> \<exists>d. deref (ps_graph s) r = Inr (Class d)"
  defines "s' \<equiv> put_ty (NodeRef k) (set_ref q r (node_at (ps_graph s) k)) s"
  shows "ic_ok lookup g0 s'" "later lookup g0 {} s s'"
proof -
  let ?n = "node_at (ps_graph s) k"
  have g': "ps_graph s' = put_node (NodeRef k) (set_ref q r ?n) (ps_graph s)" "ps_marks s' = ps_marks s"
    by (simp_all add: s'_def put_ty_def)
  have n: "deref (ps_graph s) (NodeRef k) = Inr ?n" using k by (simp add: node_at_def deref.simps)
  have at: "node_at (ps_graph s') i = (if i = k then set_ref q r ?n else node_at (ps_graph s) i)" for i
    using k(1) by (simp add: g')
  have org: "origin g0 (ps_graph s') w = origin g0 (ps_graph s) w" for w
    using origin_put [OF k(1)] by (simp add: g')
  have org': "origin g0 (ps_graph s') = origin g0 (ps_graph s)" by (rule ext) (rule org)
  have mk: "mark s' i = mark s i" for i unfolding mark_def at g'(2) by simp
  have size: "length (nodes (ps_graph s')) = length (nodes (ps_graph s))" by (simp add: g')
  have mr: "map_refs (origin g0 (ps_graph s')) (node_at (ps_graph s') i) =
      map_refs (origin g0 (ps_graph s)) (node_at (ps_graph s) i)" for i
  proof (cases "i = k")
    case True
    have "set_ref q (origin g0 (ps_graph s) r) (map_refs (origin g0 (ps_graph s)) ?n) = map_refs (origin g0 (ps_graph s)) ?n"
      using set_ref_same [of q "map_refs (origin g0 (ps_graph s)) ?n"] q r(3) by simp
    then show ?thesis using True q by (simp add: at org' map_refs_set)
  qed (simp add: at org')
  have "wf_graph (ps_graph s')"
    unfolding g'
  proof (rule wf_graph_put [OF ic_okD(1) [OF ok] n])
    have "in_graph (ps_graph s) u" if "u \<in> set (refs ?n)" for u
      using wf_refsD that k(1) ic_okD(1) [OF ok] by (auto simp: wf_graph_def)
    then show "\<forall>u \<in> set (refs (set_ref q r ?n)). in_graph (ps_graph s) u"
      using refs_set_ref [OF q, of r] r(1) by blast
    fix c u assume c: "set_ref q r ?n = Class c" "u \<in> set (cl_children c)"
    then obtain d where d: "?n = Class d" "c = set_class_ref q r d" by (cases ?n) auto
    have "Class d \<in> set (nodes (ps_graph s))" using d(1) k(1) by (metis node_at_def nth_mem)
    then have old: "\<exists>e. deref (ps_graph s) u = Inr (Class e)" if "u \<in> set (cl_children d)"
      using ic_okD(1) [OF ok] that unfolding wf_graph_def wf_children_def by blast
    show "\<exists>e. deref (ps_graph s) u = Inr (Class e)"
    proof (cases "is_child q ?n")
      case True
      have "set (cl_children c) \<subseteq> insert r (set (cl_children d))"
        unfolding d(2) by (rule children_set_ref(1))
      then have "u = r \<or> u \<in> set (cl_children d)" using c(2) by blast
      then show ?thesis using old cast [OF True] by blast
    next
      case False
      have "cl_children c = cl_children d"
        unfolding d(2) by (rule children_set_ref(2)) (use d(1) False in simp)
      then show ?thesis using old c(2) by simp
    qed
  qed simp_all
  moreover have "\<exists>j. replaces lookup g0 (ps_graph s') i j \<and> mark s' j = Some (NodeRef i)"
    if "i < length (nodes (ps_graph s))" "length (nodes g0) \<le> i" for i
    using ic_ok_new [OF ok that] by (simp add: replaces_def mr mk)
  moreover have "node_at (ps_graph s') i = node_at g0 i" if "matched lookup g0 i" for i
    using ic_okD(4) [OF ok that] k(2) that by (auto simp: at)
  ultimately show "ic_ok lookup g0 s'"
    using ok unfolding ic_ok_def by (simp add: mr mk size org) (simp add: g')
  have "list_all2 (evolves lookup g0) (mut_refs (node_at (ps_graph s) i)) (mut_refs (node_at (ps_graph s') i))" for i
  proof (cases "i = k")
    case True
    let ?w = "mut_refs ?n ! q"
    have w: "in_graph (ps_graph s) ?w" by (rule ref_in_graph [OF ic_okD(1) [OF ok] k(1) q])
    have "evolves lookup g0 ?w r" using final_unique [OF ok r(1) w r(2) _ r(3)] by (auto simp: evolves_def)
    then have "list_all2 (evolves lookup g0) ((mut_refs ?n)[q := ?w]) ((mut_refs ?n)[q := r])"
      by (intro list_all2_update_cong) (auto simp: evolves_def intro!: list_all2_refl)
    then show ?thesis using True q by (simp add: at mut_refs_set)
  qed (auto simp: at evolves_def intro!: list_all2_refl)
  moreover have "rootTypes (ps_graph s') = rootTypes (ps_graph s)" "finalTypes (ps_graph s') = finalTypes (ps_graph s)"
    by (simp_all add: g')
  moreover have "type_id (node_at (ps_graph s') i) = type_id (node_at (ps_graph s) i)"
    "ctor_of (node_at (ps_graph s') i) = ctor_of (node_at (ps_graph s) i)" for i
    by (simp_all add: at)
  ultimately show "later lookup g0 {} s s'"
    unfolding later_def by (simp add: mk size org)
qed

lemma later_create:
  assumes ok: "ic_ok lookup g0 s" and m: "matched lookup g0 j" "deref (ps_graph s) (NodeRef j) = Inr (Class c)"
    "lookup c = Some info" "mark s j = None"
    and make: "make_type (\<lambda>nid. Container (container_of info c (NodeRef j) nid)) (ps_graph s) = (u, g')"
  defines "N \<equiv> length (nodes (ps_graph s))" and "s' \<equiv> set_mark (cl_id c) u (s\<lparr>ps_graph := g'\<rparr>)"
  shows "u = NodeRef N" "deref g' u = Inr (Container (container_of info c (NodeRef j) (next_id (ps_graph s))))"
    "ic_ok lookup g0 s'" "later lookup g0 {N} s s'"
proof -
  let ?n = "Container (container_of info c (NodeRef j) (next_id (ps_graph s)))"
  note wf = ic_okD(1) [OF ok]
  have j: "j < length (nodes g0)" "j < N" using m(1) ic_okD(2) [OF ok] by (auto simp: matched_def N_def)
  have c: "node_at g0 j = Class c" using ic_okD(4) [OF ok m(1)] deref_owned(2) [OF m(2)] by simp
  have params: "in_graph (ps_graph s) (tp_type p)" if "p \<in> set (cl_templateParams c)" for p
  proof -
    have "tp_type p \<in> set (refs (Class c))" using that by simp
    from refs_in_graph [OF wf m(2) this] show ?thesis .
  qed
  have fields: "co_id (container_of info c (NodeRef j) nid) = nid" "co_templateParams (container_of info c (NodeRef j) nid) = cl_templateParams c"
    "co_underlying (container_of info c (NodeRef j) nid) = Some (NodeRef j)" for nid
    by (simp_all add: container_of_def mk_container_def)
  have mt: "wf_graph g'" "u = NodeRef (length (nodes (ps_graph s)))" "deref g' u = Inr ?n"
    "next_id g' = next_id (ps_graph s) + 1" "nodes g' = nodes (ps_graph s) @ [?n]"
    using make_type_wf [OF wf make] fields params j(2) by (auto simp: N_def)
  have roots: "rootTypes g' = rootTypes (ps_graph s)" "finalTypes g' = finalTypes (ps_graph s)"
    using make by (auto simp: make_type_def make_type_id_def)
  show u: "u = NodeRef N" and "deref g' u = Inr ?n" using mt by (simp_all add: N_def)
  have at: "node_at g' i = (if i < N then node_at (ps_graph s) i else ?n)" if "i < Suc N" for i
    using that mt(5) by (auto simp: N_def node_at_def nth_append less_Suc_eq)
  have size: "length (nodes g') = Suc N" by (simp add: mt(5) N_def)
  have g': "ps_graph s' = g'" by (simp add: s'_def)
  have org: "origin g0 g' w = origin g0 (ps_graph s) w" if "in_graph (ps_graph s) w" for w
    using that at by (cases w) (auto simp: origin_def N_def)
  have mrefs: "in_graph (ps_graph s) w" if "w \<in> set (mut_refs (node_at (ps_graph s) i))" "i < N" for w i
  proof -
    obtain q where "q < length (mut_refs (node_at (ps_graph s) i))" "mut_refs (node_at (ps_graph s) i) ! q = w"
      using \<open>w \<in> _\<close> by (auto simp: in_set_conv_nth)
    then show ?thesis using ref_in_graph [OF wf] that(2) N_def by metis
  qed
  have mr: "map_refs (origin g0 g') (node_at g' i) = map_refs (origin g0 (ps_graph s)) (node_at (ps_graph s) i)" if "i < N" for i
    using map_refs_cong [of "node_at (ps_graph s) i" "origin g0 g'" "origin g0 (ps_graph s)"] mrefs that org at by simp
  have "origin g0 g' w = w" if "w \<in> set (mut_refs ?n)" for w
  proof -
    have "w \<in> set (map tp_type (cl_templateParams c))" using that fields by simp
    moreover have "map_refs (origin g0 g') (Class c) = Class c"
      using mr [OF j(2)] at [of j] ic_okD(3) [OF ok j(1)] c ic_okD(4) [OF ok m(1)] j(2) by simp
    then have "map (origin g0 g') (mut_refs (Class c)) = mut_refs (Class c)" by (metis mut_refs_map)
    ultimately show ?thesis by (auto simp: map_eq_append_conv dest!: map_eq_conv [THEN iffD1])
  qed
  then have "map_refs (origin g0 g') ?n = ?n" by (rule map_refs_id)
  then have mrN: "map_refs (origin g0 g') (node_at g' N) = ?n" using at [of N] by simp
  have repl: "replaces lookup g0 g' N j"
    using j(1) c m(3) mrN by (auto simp: replaces_def)
  have old: "replaces lookup g0 g' i k" if "replaces lookup g0 (ps_graph s) i k" "i < N" for i k
    using that mr by (auto simp: replaces_def)
  have cid: "cl_id c = type_id (node_at (ps_graph s') j)" "has_node_id (node_at (ps_graph s') j)"
    using deref_owned(2) [OF m(2)] at j(2) by (simp_all add: g')
  have mk: "mark s' i = (if i = j then Some u else if i < N then mark s i else None)" if i: "i < Suc N" for i
  proof -
    have "mark s' i = (if i = j then Some u else mark (s\<lparr>ps_graph := g'\<rparr>) i)"
      unfolding s'_def cid(1) [unfolded g']
      using set_mark_mark [of "s\<lparr>ps_graph := g'\<rparr>" j i u] mt(1) cid(2) size i j(2) by (simp add: g')
    moreover have "mark (s\<lparr>ps_graph := g'\<rparr>) N = None"
      using ok at by (simp add: mark_def ic_ok_def fields)
    ultimately show ?thesis using i at by (auto simp: mark_def less_Suc_eq)
  qed
  have finu: "final lookup g0 u" using ic_okD(2) [OF ok] u by (auto simp: final_def matched_def N_def)
  have orgu: "origin g0 g' u = NodeRef j"
    unfolding u by (rule origin_new [OF repl]) (use ic_okD(2) [OF ok] in \<open>simp add: N_def\<close>)
  have "\<exists>k. replaces lookup g0 g' i k \<and> mark s' k = Some (NodeRef i)"
    if i: "i < Suc N" "length (nodes g0) \<le> i" for i
  proof (cases "i = N")
    case True
    then show ?thesis using repl mk [of j] j(2) u by auto
  next
    case False
    then have "i < N" using i(1) by simp
    then obtain k where k: "replaces lookup g0 (ps_graph s) i k" "mark s k = Some (NodeRef i)"
      using ic_ok_new [OF ok] i(2) by (auto simp: N_def)
    moreover have "k < N" using k(1) ic_okD(2) [OF ok] by (simp add: replaces_def N_def)
    ultimately have "mark s' k = Some (NodeRef i)" using mk [of k] m(4) by auto
    then show ?thesis using old [OF k(1) \<open>i < N\<close>] by blast
  qed
  moreover have "in_graph g' w \<and> final lookup g0 w \<and> origin g0 g' w = origin g0 g' (NodeRef i)"
    if i: "i < Suc N" "mark s' i = Some w" for i w
  proof (cases "i = j")
    case True
    then show ?thesis using i mk finu orgu j u by (auto simp: size)
  next
    case False
    then have i': "i < N" "mark s i = Some w" using i mk by (auto split: if_splits)
    note old = ic_okD(5-7) [OF ok i'(2) i'(1) [unfolded N_def]]
    have "in_graph (ps_graph s) (NodeRef i)" using i'(1) by (simp add: N_def)
    moreover have "in_graph g' w" using old(1) by (cases w) (simp_all add: size N_def)
    ultimately show ?thesis using old org by metis
  qed
  moreover have "node_at g' i = node_at g0 i" if "matched lookup g0 i" for i
    using ic_okD(4) [OF ok that] that ic_okD(2) [OF ok] at by (auto simp: matched_def N_def)
  moreover have "map_refs (origin g0 g') (node_at g' i) = node_at g0 i" if "i < length (nodes g0)" for i
    using mr ic_okD(2,3) [OF ok] that by (simp add: N_def)
  moreover have "cached (ps_marks s') nid = None" if "next_id g' \<le> nid" for nid
  proof -
    have "cl_id c < next_id (ps_graph s)"
      using wf_idsD(2) [of "ps_graph s" j] wf deref_owned [OF m(2)] by (simp add: wf_graph_def)
    then show ?thesis using that ok mt(4) by (simp add: s'_def ic_ok_def set_mark_def result_set_cached)
  qed
  moreover have "length (nodes g0) \<le> Suc N" using ic_okD(2) [OF ok] by (simp add: N_def)
  ultimately show "ic_ok lookup g0 s'"
    unfolding ic_ok_def g' size using mt(1) by blast
  have "list_all2 (evolves lookup g0) (mut_refs (node_at (ps_graph s) i)) (mut_refs (node_at g' i))" if "i < N" for i
    using at [of i] that by (auto simp: evolves_def intro!: list_all2_refl)
  moreover have "origin g0 g' (NodeRef i) = origin g0 (ps_graph s) (NodeRef i)" if "i < N" for i
    using org that by (simp add: N_def)
  moreover have "mark s' i = Some w" if "mark s i = Some w" "i < N" for i w
    using mk [of i] that m(4) by auto
  moreover have ids: "type_id (node_at g' i) = type_id (node_at (ps_graph s) i)" "ctor_of (node_at g' i) = ctor_of (node_at (ps_graph s) i)"
    if "i < N" for i using at [of i] that by simp_all
  moreover have "\<forall>i < Suc N. \<forall>k. mark s' i = Some (NodeRef k) \<longrightarrow> i < N \<and> mark s i \<noteq> None \<or> k = N"
    using mk u by (fastforce split: if_splits)
  ultimately show "later lookup g0 {N} s s'"
    unfolding later_def g' size N_def [symmetric] using ids roots by auto
qed

section \<open>Mutating the references of a node\<close>

definition passed_refs :: "ty \<Rightarrow> tref list" where
  "passed_refs n = (case n of Class c \<Rightarrow> map tp_type (cl_templateParams c) | n \<Rightarrow> mut_refs n)"

text \<open>The cast fails for a child that is replaced, and for no other.\<close>

definition cast_errors :: "matcher \<Rightarrow> type_graph \<Rightarrow> error set" where
  "cast_errors lookup g0 = {e. e = Throw ''bad_cast'' \<and> (\<exists>i < length (nodes g0). \<exists>c u. node_at g0 i = Class c \<and>
     u \<in> set (cl_children c) \<and> \<not> final lookup g0 u)}"

definition call_ok :: "matcher \<Rightarrow> type_graph \<Rightarrow> mutator \<Rightarrow> tref \<Rightarrow> ic_state \<Rightarrow> bool" where
  "call_ok lookup g0 mutate t s \<longleftrightarrow> spec (cast_errors lookup g0) (mutate t s) (\<lambda>(r, s').
     ic_ok lookup g0 s' \<and> later lookup g0 {} s s' \<and> in_graph (ps_graph s') r \<and>
     origin g0 (ps_graph s') r = origin g0 (ps_graph s) t \<and> final lookup g0 r \<and> covered g0 s' r)"

definition source_refs :: "type_graph \<Rightarrow> nat \<Rightarrow> tref \<Rightarrow> tref list" where
  "source_refs g0 k u = (if k < length (nodes g0) then mut_refs (node_at g0 k)
     else case u of NodeRef j \<Rightarrow> passed_refs (node_at g0 j) | PrimRef p \<Rightarrow> [])"

lemma origin_refs:
  assumes ok: "ic_ok lookup g0 s" and k: "k < length (nodes (ps_graph s))"
  shows "map (origin g0 (ps_graph s)) (mut_refs (node_at (ps_graph s) k)) =
    source_refs g0 k (origin g0 (ps_graph s) (NodeRef k))"
proof (cases "k < length (nodes g0)")
  case True
  then show ?thesis using arg_cong [OF ic_okD(3) [OF ok True], of mut_refs] by (simp add: source_refs_def)
next
  case False
  then obtain j where j: "replaces lookup g0 (ps_graph s) k j" using ic_ok_new [OF ok k] by auto
  then obtain c info nid where "node_at g0 j = Class c"
    "map_refs (origin g0 (ps_graph s)) (node_at (ps_graph s) k) = Container (container_of info c (NodeRef j) nid)"
    by (rule replacesE)
  then show ?thesis
    using arg_cong [of _ _ mut_refs] origin_new [OF j] False mut_refs_map [of "origin g0 (ps_graph s)" "node_at (ps_graph s) k"]
    by (simp add: source_refs_def passed_refs_def container_of_def)
qed

lemma old_ctor:
  assumes "ic_ok lookup g0 s" "i < length (nodes g0)"
  shows "ctor_of (node_at (ps_graph s) i) = ctor_of (node_at g0 i)"
  using ic_okD(3) [OF assms] map_refs_fields(1) by metis

lemma is_child_map [simp]: "is_child q (map_refs f n) = is_child q n"
  by (cases n) (auto simp: is_child_def)

lemma child_ref:
  assumes "is_child q (Class c)" "q < length (mut_refs (Class c))"
  shows "mut_refs (Class c) ! q \<in> set (cl_children c)"
  using assms by (auto simp: is_child_def nth_append)

lemma bad_cast_error:
  assumes g0: "wf_graph g0" and ok: "ic_ok lookup g0 s" and k: "k < length (nodes (ps_graph s))"
    and q: "q < length (mut_refs (node_at (ps_graph s) k))" "is_child q (node_at (ps_graph s) k)"
    and r: "in_graph (ps_graph s) r" "final lookup g0 r"
      "origin g0 (ps_graph s) r = origin g0 (ps_graph s) (mut_refs (node_at (ps_graph s) k) ! q)"
    and m: "deref (ps_graph s) r = Inr m" "ctor_of m \<noteq> 1"
  shows "Throw ''bad_cast'' \<in> cast_errors lookup g0"
proof -
  have "ctor_of (node_at (ps_graph s) k) = 1" using q(2) by (cases "node_at (ps_graph s) k") (auto simp: is_child_def)
  have old: "k < length (nodes g0)"
  proof (rule ccontr)
    assume "\<not> k < length (nodes g0)"
    then obtain j where "replaces lookup g0 (ps_graph s) k j" using ic_ok_new [OF ok k] by auto
    then obtain c where "node_at (ps_graph s) k = Container c" by (rule replaces_container)
    then show False using q(2) by (simp add: is_child_def)
  qed
  then obtain c where c: "node_at g0 k = Class c"
    using \<open>ctor_of _ = 1\<close> old_ctor [OF ok old] by (auto simp: ctor_of_iff)
  let ?u = "mut_refs (Class c) ! q"
  have refs: "map (origin g0 (ps_graph s)) (mut_refs (node_at (ps_graph s) k)) = mut_refs (Class c)"
    using origin_refs [OF ok k] old c by (simp add: source_refs_def)
  then have len: "q < length (mut_refs (Class c))" using q(1) by (metis length_map)
  have orgr: "origin g0 (ps_graph s) r = ?u" using r(3) refs q(1) by (metis nth_map)
  have child: "?u \<in> set (cl_children c)"
  proof (rule child_ref [OF _ len])
    show "is_child q (Class c)" using q(2) ic_okD(3) [OF ok old] c is_child_map by metis
  qed
  have "Class c \<in> set (nodes g0)" using c old by (metis node_at_def nth_mem)
  then obtain d where d: "deref g0 ?u = Inr (Class d)"
    using g0 child unfolding wf_graph_def wf_children_def by blast
  then obtain i where i: "?u = NodeRef i" "i < length (nodes g0)" "node_at g0 i = Class d"
    using deref_owner [of g0 ?u "Class d"] by auto
  have "\<not> final lookup g0 ?u"
  proof
    assume f: "final lookup g0 ?u"
    have "r = ?u"
      by (rule final_unique [OF ok r(1) _ r(2) f]) (use i ic_okD(2) [OF ok] orgr in auto)
    then have "m = node_at (ps_graph s) i" using m(1) i(1) deref_owned(2) by metis
    then show False using m(2) old_ctor [OF ok i(2)] i(3) by simp
  qed
  then show ?thesis using old c child unfolding cast_errors_def by blast
qed

lemma mutate_refs_spec:
  assumes g0: "wf_graph g0" and ok: "ic_ok lookup g0 s" and k: "k < length (nodes (ps_graph s))" "\<not> matched lookup g0 k"
    and call: "\<And>w s2. ic_ok lookup g0 s2 \<Longrightarrow> later lookup g0 {} s s2 \<Longrightarrow> in_graph (ps_graph s2) w \<Longrightarrow>
      origin g0 (ps_graph s2) w \<in> set (source_refs g0 k (origin g0 (ps_graph s) (NodeRef k))) \<Longrightarrow> call_ok lookup g0 mutate w s2"
  shows "spec (cast_errors lookup g0)
    (for_each (mutate_ref mutate (NodeRef k)) [0..<length (mut_refs (node_at (ps_graph s) k))] s)
    (\<lambda>s'. ic_ok lookup g0 s' \<and> later lookup g0 {} s s' \<and> closed lookup g0 s' k)"
proof -
  let ?L = "length (mut_refs (node_at (ps_graph s) k))"
  let ?J = "\<lambda>m s'. ic_ok lookup g0 s' \<and> later lookup g0 {} s s' \<and>
     (\<forall>q < m. final lookup g0 (mut_refs (node_at (ps_graph s') k) ! q) \<and> covered g0 s' (mut_refs (node_at (ps_graph s') k) ! q))"
  have len: "length (mut_refs (node_at (ps_graph s') k)) = ?L" if "later lookup g0 {} s s'" for s'
    using list_all2_lengthD [OF ic_laterD(5) [OF that k(1)]] by simp
  have big: "length (nodes g0) \<le> length (nodes (ps_graph s))" using ic_okD(2) [OF ok] .
  have "spec (cast_errors lookup g0) (for_each (mutate_ref mutate (NodeRef k)) [0..<?L] s) (?J ?L)"
  proof (rule spec_for_each_upt)
    show "?J 0 s" using ok ic_later_refl by simp
    fix q s1 assume q: "q < ?L" and J: "?J q s1"
    have l1: "later lookup g0 {} s s1" and ok1: "ic_ok lookup g0 s1" using J by blast+
    have k1: "k < length (nodes (ps_graph s1))" using k(1) ic_laterD(1) [OF l1] by simp
    let ?n = "node_at (ps_graph s1) k"
    have q1: "q < length (mut_refs ?n)" using q len [OF l1] by simp
    have get: "get_ty (NodeRef k) s1 = Inr ?n" using k1 by (simp add: get_ty_def node_at_def deref.simps)
    have "map (origin g0 (ps_graph s1)) (mut_refs ?n) = source_refs g0 k (origin g0 (ps_graph s) (NodeRef k))"
      using origin_refs [OF ok1 k1] ic_laterD(3) [OF l1, of "NodeRef k"] k(1) by simp
    then have "origin g0 (ps_graph s1) (mut_refs ?n ! q) \<in> set (source_refs g0 k (origin g0 (ps_graph s) (NodeRef k)))"
      using q1 by (metis length_map nth_map nth_mem)
    then have "call_ok lookup g0 mutate (mut_refs ?n ! q) s1"
      by (rule call [OF ok1 l1 ref_in_graph [OF ic_okD(1) [OF ok1] k1 q1]])
    then show "spec (cast_errors lookup g0) (mutate_ref mutate (NodeRef k) q s1) (?J (Suc q))"
      unfolding mutate_ref_def get bindE_simps call_ok_def
    proof (rule spec_bind_prodI, elim conjE)
      fix r s2 assume ok2: "ic_ok lookup g0 s2" and l2: "later lookup g0 {} s1 s2" and r: "in_graph (ps_graph s2) r"
        "origin g0 (ps_graph s2) r = origin g0 (ps_graph s1) (mut_refs ?n ! q)" "final lookup g0 r" "covered g0 s2 r"
      let ?n2 = "node_at (ps_graph s2) k"
      have l02: "later lookup g0 {} s s2" by (rule ic_later_trans [OF big l1 l2])
      have k2: "k < length (nodes (ps_graph s2))" using k(1) ic_laterD(1) [OF l02] by simp
      have get2: "get_ty (NodeRef k) s2 = Inr ?n2" using k2 by (simp add: get_ty_def node_at_def deref.simps)
      have q2: "q < length (mut_refs ?n2)" using q len [OF l02] by simp
      obtain m where m: "get_ty r s2 = Inr m" using deref_in_graph [OF r(1)] by (auto simp: get_ty_def)
      have "map (origin g0 (ps_graph s2)) (mut_refs ?n2) = map (origin g0 (ps_graph s1)) (mut_refs ?n)"
        using origin_refs [OF ok2 k2] origin_refs [OF ok1 k1] ic_laterD(3) [OF l2, of "NodeRef k"] k1 by simp
      then have r': "origin g0 (ps_graph s2) r = origin g0 (ps_graph s2) (mut_refs ?n2 ! q)"
        using r(2) q1 q2 by (metis nth_map)
      show "spec (cast_errors lookup g0) (bindE (get_ty (NodeRef k) s2) (\<lambda>n. bindE (get_ty r s2) (\<lambda>m.
          if is_child q n \<and> ctor_of m \<noteq> 1 then Inl (Throw ''bad_cast'')
          else Inr (put_ty (NodeRef k) (set_ref q r n) s2)))) (?J (Suc q))"
      proof (cases "is_child q ?n2 \<and> ctor_of m \<noteq> 1")
        case True
        have "Throw ''bad_cast'' \<in> cast_errors lookup g0"
          using bad_cast_error [OF g0 ok2 k2 q2 _ r(1,3) r' m [unfolded get_ty_def]] True by blast
        then show ?thesis using get2 m True by simp
      next
        case False
        let ?s = "put_ty (NodeRef k) (set_ref q r ?n2) s2"
        have cast: "\<exists>d. deref (ps_graph s2) r = Inr (Class d)" if "is_child q ?n2"
          using False m that by (auto simp: get_ty_def ctor_of_iff)
        note p = later_put [OF ok2 k2 k(2) q2 r(1,3) r' cast]
        have big2: "length (nodes g0) \<le> length (nodes (ps_graph s2))" using ic_okD(2) [OF ok2] .
        have l: "later lookup g0 {} s1 ?s" by (rule ic_later_trans [OF ic_okD(2) [OF ok1] l2 p(2)])
        have at: "mut_refs (node_at (ps_graph ?s) k) = (mut_refs ?n2)[q := r]"
          using k2 mut_refs_set [OF q2] by (simp add: put_ty_def)
        have "final lookup g0 (mut_refs (node_at (ps_graph ?s) k) ! i) \<and> covered g0 ?s (mut_refs (node_at (ps_graph ?s) k) ! i)"
          if i: "i < Suc q" for i
        proof (cases "i = q")
          case True
          then show ?thesis using at q2 r(3) ic_covered_later [OF big2 p(2) r(4)] by simp
        next
          case False
          then have "i < q" using i by simp
          then have f: "final lookup g0 (mut_refs ?n ! i)" "covered g0 s1 (mut_refs ?n ! i)" using J by blast+
          have "evolves lookup g0 (mut_refs ?n ! i) (mut_refs (node_at (ps_graph ?s) k) ! i)"
            using list_all2_nthD [OF ic_laterD(5) [OF l k1]] q1 \<open>i < q\<close> by simp
          then have "mut_refs (node_at (ps_graph ?s) k) ! i = mut_refs ?n ! i" using f(1) by (simp add: evolves_def)
          then show ?thesis using f ic_covered_later [OF ic_okD(2) [OF ok1] l f(2)] by simp
        qed
        moreover have "later lookup g0 {} s ?s" by (rule ic_later_trans [OF big l1 l])
        ultimately have "?J (Suc q) ?s" using p(1) by blast
        then show ?thesis unfolding get2 m bindE_simps if_not_P [OF False] spec_simps .
      qed
    qed
  qed simp
  then show ?thesis
  proof (rule spec_mono, elim conjE)
    fix s' assume s': "ic_ok lookup g0 s'" "later lookup g0 {} s s'"
      "\<forall>q < ?L. final lookup g0 (mut_refs (node_at (ps_graph s') k) ! q) \<and> covered g0 s' (mut_refs (node_at (ps_graph s') k) ! q)"
    have "closed lookup g0 s' k"
      unfolding closed_def using s'(3) len [OF s'(2)] k(1) ic_laterD(1) [OF s'(2)] by (auto simp: in_set_conv_nth)
    then show "ic_ok lookup g0 s' \<and> later lookup g0 {} s s' \<and> closed lookup g0 s' k" using s' by blast
  qed
qed

section \<open>Mutating a type\<close>

text \<open>
  A cycle of the graph goes through a class that stays: otherwise a type would be one of its own template
  parameters. \<open>rk\<close> counts how far it is to such a class.
\<close>

definition class_rank :: "matcher \<Rightarrow> type_graph \<Rightarrow> (tref \<Rightarrow> nat) \<Rightarrow> bool" where
  "class_rank lookup g0 rk \<longleftrightarrow> (\<forall>t. rk t \<le> length (nodes g0)) \<and>
     (\<forall>i < length (nodes g0). (\<forall>c. node_at g0 i = Class c \<longrightarrow> lookup c \<noteq> None) \<longrightarrow>
        (\<forall>u \<in> set (passed_refs (node_at g0 i)). rk u < rk (NodeRef i)))"

definition by_name :: "matcher \<Rightarrow> bool" where
  "by_name lookup \<longleftrightarrow> (\<forall>c c'. fqName c = fqName c' \<longrightarrow> lookup c = lookup c')"

definition todo :: "matcher \<Rightarrow> type_graph \<Rightarrow> ic_state \<Rightarrow> nat set" where
  "todo lookup g0 s = {i. i < length (nodes g0) \<and> (\<exists>c. node_at g0 i = Class c \<and> lookup c = None) \<and> mark s i = None}"

definition ic_rank :: "matcher \<Rightarrow> type_graph \<Rightarrow> (tref \<Rightarrow> nat) \<Rightarrow> tref \<Rightarrow> ic_state \<Rightarrow> nat" where
  "ic_rank lookup g0 rk t s = card (todo lookup g0 s) * Suc (length (nodes g0)) + rk (origin g0 (ps_graph s) t)"

lemma todo_later:
  assumes "length (nodes g0) \<le> length (nodes (ps_graph s))" "later lookup g0 X s s'"
  shows "todo lookup g0 s' \<subseteq> todo lookup g0 s"
proof
  fix i assume i: "i \<in> todo lookup g0 s'"
  then have "i < length (nodes (ps_graph s))" using assms(1) by (simp add: todo_def)
  then show "i \<in> todo lookup g0 s" using i ic_laterD(4) [OF assms(2)] by (cases "mark s i") (auto simp: todo_def)
qed

lemma todo_finite [simp]: "finite (todo lookup g0 s)"
  by (rule finite_subset [of _ "{..<length (nodes g0)}"]) (auto simp: todo_def)

lemma rank_less:
  assumes rk: "class_rank lookup g0 rk"
    and "todo lookup g0 s2 \<subset> todo lookup g0 s \<or> todo lookup g0 s2 \<subseteq> todo lookup g0 s \<and>
      rk (origin g0 (ps_graph s2) w) < rk (origin g0 (ps_graph s) t)"
  shows "ic_rank lookup g0 rk w s2 < ic_rank lookup g0 rk t s"
  using assms(2)
proof
  assume "todo lookup g0 s2 \<subset> todo lookup g0 s"
  then have "Suc (card (todo lookup g0 s2)) \<le> card (todo lookup g0 s)" by (simp add: Suc_leI psubset_card_mono)
  then have "Suc (card (todo lookup g0 s2)) * Suc (length (nodes g0)) \<le> card (todo lookup g0 s) * Suc (length (nodes g0))"
    by (rule mult_le_mono1)
  moreover have "rk (origin g0 (ps_graph s2) w) < Suc (length (nodes g0))" using rk by (simp add: class_rank_def less_Suc_eq_le)
  ultimately show ?thesis by (simp add: ic_rank_def)
next
  assume a: "todo lookup g0 s2 \<subseteq> todo lookup g0 s \<and> rk (origin g0 (ps_graph s2) w) < rk (origin g0 (ps_graph s) t)"
  then have "card (todo lookup g0 s2) * Suc (length (nodes g0)) \<le> card (todo lookup g0 s) * Suc (length (nodes g0))"
    by (intro mult_le_mono1 card_mono) auto
  then show ?thesis using a by (simp add: ic_rank_def)
qed

lemma rank_bound:
  assumes "class_rank lookup g0 rk"
  shows "ic_rank lookup g0 rk t s < ic_depth g0"
proof -
  have "card (todo lookup g0 s) \<le> card {..<length (nodes g0)}" by (rule card_mono) (auto simp: todo_def)
  then have "card (todo lookup g0 s) * Suc (length (nodes g0)) \<le> length (nodes g0) * Suc (length (nodes g0))"
    by (intro mult_le_mono1) simp
  moreover have "rk (origin g0 (ps_graph s) t) < Suc (length (nodes g0))" using assms by (simp add: class_rank_def less_Suc_eq_le)
  ultimately show ?thesis by (simp add: ic_rank_def ic_depth_def)
qed

text \<open>Only the entries of the tracker matter, not its length.\<close>

lemma same_marks:
  assumes "\<And>nid. cached m nid = cached (ps_marks s) nid"
  shows "mark (s\<lparr>ps_marks := m\<rparr>) i = mark s i" "ic_ok lookup g0 s \<Longrightarrow> ic_ok lookup g0 (s\<lparr>ps_marks := m\<rparr>)"
    "later lookup g0 {} s (s\<lparr>ps_marks := m\<rparr>)" "todo lookup g0 (s\<lparr>ps_marks := m\<rparr>) = todo lookup g0 s"
proof -
  show mk: "mark (s\<lparr>ps_marks := m\<rparr>) i = mark s i" for i using assms by (simp add: mark_def)
  show "ic_ok lookup g0 s \<Longrightarrow> ic_ok lookup g0 (s\<lparr>ps_marks := m\<rparr>)"
    using assms by (simp add: ic_ok_def mk)
  show "later lookup g0 {} s (s\<lparr>ps_marks := m\<rparr>)"
    unfolding later_def by (auto simp: mk evolves_def intro!: list_all2_refl)
  show "todo lookup g0 (s\<lparr>ps_marks := m\<rparr>) = todo lookup g0 s" by (simp add: todo_def mk)
qed

lemma covered_mark:
  assumes ok: "ic_ok lookup g0 s" and i: "i < length (nodes (ps_graph s))" "mark s i = Some u"
  shows "covered g0 s u"
proof -
  have "mark s k \<noteq> None" if k: "k < length (nodes g0)" "u = NodeRef k" for k
  proof (cases "i < length (nodes g0)")
    case True
    then show ?thesis using ic_okD(7) [OF ok i(2,1)] k i(2) by simp
  next
    case False
    then obtain j where j: "replaces lookup g0 (ps_graph s) i j" using ic_ok_new [OF ok i(1)] by auto
    then have "NodeRef k = NodeRef j" using ic_okD(7) [OF ok i(2,1)] k origin_new [OF j] False by simp
    then have "matched lookup g0 k" using j by (auto elim: replacesE)
    then show ?thesis using ic_okD(6) [OF ok i(2,1)] k(2) by (simp add: final_def)
  qed
  then show ?thesis by (auto simp: covered_def)
qed

lemma finish_call:
  assumes ok: "ic_ok lookup g0 s'" and l: "length (nodes g0) \<le> length (nodes (ps_graph s))" "later lookup g0 {} s s'"
    and i: "i < length (nodes (ps_graph s))" "\<not> has_node_id (node_at (ps_graph s) i) \<Longrightarrow> u = NodeRef i"
    and u: "in_graph (ps_graph s') u" "final lookup g0 u" "origin g0 (ps_graph s') u = origin g0 (ps_graph s) (NodeRef i)"
      "\<And>k. u = NodeRef k \<Longrightarrow> closed lookup g0 s' k"
  defines "s'' \<equiv> set_mark (type_id (node_at (ps_graph s) i)) u s'"
  shows "ic_ok lookup g0 s'' \<and> later lookup g0 {} s s'' \<and> in_graph (ps_graph s'') u \<and>
     origin g0 (ps_graph s'') u = origin g0 (ps_graph s) (NodeRef i) \<and> final lookup g0 u \<and> covered g0 s'' u"
proof (cases "has_node_id (node_at (ps_graph s) i)")
  case True
  have i': "i < length (nodes (ps_graph s'))" using i(1) ic_laterD(1) [OF l(2)] by simp
  have id': "has_node_id (node_at (ps_graph s') i)" using ctor_of_has_id [OF ic_laterD(8) [OF l(2) i(1)]] True by simp
  have s'': "s'' = set_mark (type_id (node_at (ps_graph s') i)) u s'" using ic_laterD(7) [OF l(2) i(1)] by (simp add: s''_def)
  have "origin g0 (ps_graph s') u = origin g0 (ps_graph s') (NodeRef i)" using u(3) ic_laterD(3) [OF l(2), of "NodeRef i"] i(1) by simp
  note m = later_mark [OF ok i' id' u(1,2) this, folded s'']
  then have ok'': "ic_ok lookup g0 s''" and l'': "later lookup g0 {k. u = NodeRef k} s' s''" by blast+
  have "mark s'' i = Some u" unfolding s'' using set_mark_mark [OF ic_okD(1) [OF ok] i' id' i'] by simp
  then have "covered g0 s'' u" by (rule covered_mark [OF ok'', rotated]) (simp add: s'' i')
  moreover have "later lookup g0 {} s s''"
  proof (rule ic_later_trans [OF l ic_later_closed [OF l'']])
    fix k assume "k \<in> {k. u = NodeRef k}"
    then have "closed lookup g0 s' k" using u(4) by simp
    then show "closed lookup g0 s'' k" using ic_closed_later [OF ic_okD(2) [OF ok] l''] by blast
  qed
  ultimately show ?thesis using ok'' u by (simp add: s'')
next
  case False
  then have "s'' = s'" unfolding s''_def by (simp add: type_id_noid set_mark_noid)
  moreover have "\<not> has_node_id (node_at (ps_graph s') i)" using ctor_of_has_id [OF ic_laterD(8) [OF l(2) i(1)]] False by simp
  ultimately show ?thesis using ok l u i(2) [OF False] by (simp add: covered_def)
qed

lemma recursive_mutate_spec:
  assumes g0: "wf_graph g0" and ok: "ic_ok lookup g0 s" and k: "k < length (nodes (ps_graph s))" "\<not> matched lookup g0 k"
    and call: "\<And>w s2. ic_ok lookup g0 s2 \<Longrightarrow> later lookup g0 {} s s2 \<Longrightarrow> in_graph (ps_graph s2) w \<Longrightarrow>
      origin g0 (ps_graph s2) w \<in> set (source_refs g0 k (origin g0 (ps_graph s) (NodeRef k))) \<Longrightarrow> call_ok lookup g0 mutate w s2"
    and n: "n = node_at (ps_graph s) k"
  shows "spec (cast_errors lookup g0) (recursive_mutate mutate (NodeRef k) n s) (\<lambda>(u, s').
    u = NodeRef k \<and> ic_ok lookup g0 s' \<and> later lookup g0 {} s s' \<and> closed lookup g0 s' k)"
  unfolding recursive_mutate_def n by (rule spec_bindI [OF mutate_refs_spec [OF g0 ok k call]]) simp_all

lemma new_not_matched: "length (nodes g0) \<le> k \<Longrightarrow> \<not> matched lookup g0 k"
  by (simp add: matched_def)

lemma visit_class_replaced:
  assumes g0: "wf_graph g0" and rk: "class_rank lookup g0 rk" and ok: "ic_ok lookup g0 s"
    and i: "i < length (nodes g0)" "node_at (ps_graph s) i = Class c" "lookup c = Some info" "matched lookup g0 i" "mark s i = None"
    and call: "\<And>w s2. ic_ok lookup g0 s2 \<Longrightarrow> in_graph (ps_graph s2) w \<Longrightarrow>
      ic_rank lookup g0 rk w s2 < ic_rank lookup g0 rk (NodeRef i) s \<Longrightarrow> call_ok lookup g0 mutate w s2"
  shows "spec (cast_errors lookup g0) (identify_visit lookup mutate (NodeRef i) s) (\<lambda>(u, s').
    ic_ok lookup g0 s' \<and> later lookup g0 {} s s' \<and> in_graph (ps_graph s') u \<and> final lookup g0 u \<and>
    origin g0 (ps_graph s') u = NodeRef i \<and> (\<forall>k. u = NodeRef k \<longrightarrow> closed lookup g0 s' k))"
proof -
  note big = ic_okD(2) [OF ok]
  have n: "deref (ps_graph s) (NodeRef i) = Inr (Class c)" using i(1,2) big by (simp add: node_at_def deref.simps)
  obtain u g' where make: "make_type (\<lambda>nid. Container (container_of info c (NodeRef i) nid)) (ps_graph s) = (u, g')" by fastforce
  define N where "N = length (nodes (ps_graph s))"
  define s1 where "s1 = set_mark (cl_id c) u (s\<lparr>ps_graph := g'\<rparr>)"
  let ?n = "Container (container_of info c (NodeRef i) (next_id (ps_graph s)))"
  note cr = later_create [OF ok i(4) n i(3,5) make, folded N_def s1_def]
  have g1: "ps_graph s1 = g'" by (simp add: s1_def)
  have N: "N < length (nodes (ps_graph s1))" "node_at (ps_graph s1) N = ?n"
    using deref_owned [OF cr(2) [unfolded cr(1)]] by (simp_all add: g1)
  have newN: "length (nodes g0) \<le> N" using big by (simp add: N_def)
  have c0: "node_at g0 i = Class c" using ic_okD(4) [OF ok i(4)] i(2) by simp
  have markN: "mark s1 i = Some u"
  proof -
    have "has_node_id (node_at g' i)" "type_id (node_at g' i) = cl_id c"
      using ic_laterD(7,8) [OF cr(4), of i] i(1,2) big by (auto simp: g1 ctor_of_iff)
    then show ?thesis
      using set_mark_mark [of "s\<lparr>ps_graph := g'\<rparr>" i i u] ic_okD(1) [OF cr(3)] i(1) big ic_laterD(1) [OF cr(4)]
      by (simp add: s1_def)
  qed
  have orgN: "origin g0 (ps_graph s1) (NodeRef N) = NodeRef i"
    using ic_okD(7) [OF cr(3) markN] i(1) big ic_laterD(1) [OF cr(4)] cr(1) by simp
  have src: "set (source_refs g0 N (origin g0 (ps_graph s1) (NodeRef N))) = tp_type ` set (cl_templateParams c)"
    using newN c0 orgN by (simp add: source_refs_def passed_refs_def)
  have run: "spec (cast_errors lookup g0) (recursive_mutate mutate (NodeRef N) ?n s1) (\<lambda>(u, s').
      u = NodeRef N \<and> ic_ok lookup g0 s' \<and> later lookup g0 {} s1 s' \<and> closed lookup g0 s' N)"
  proof (rule recursive_mutate_spec [OF g0 cr(3) N(1) new_not_matched [OF newN] _ N(2) [symmetric]])
    fix w s2 assume w: "ic_ok lookup g0 s2" "later lookup g0 {} s1 s2" "in_graph (ps_graph s2) w"
      "origin g0 (ps_graph s2) w \<in> set (source_refs g0 N (origin g0 (ps_graph s1) (NodeRef N)))"
    have "rk (origin g0 (ps_graph s2) w) < rk (NodeRef i)"
      using rk i(1,3) c0 w(4) unfolding src class_rank_def by (auto simp: passed_refs_def)
    moreover have "todo lookup g0 s2 \<subseteq> todo lookup g0 s"
      using todo_later [OF ic_okD(2) [OF cr(3)] w(2)] todo_later [OF big cr(4)] by blast
    ultimately have "ic_rank lookup g0 rk w s2 < ic_rank lookup g0 rk (NodeRef i) s"
      using i(1) by (intro rank_less [OF rk]) simp
    then show "call_ok lookup g0 mutate w s2" by (rule call [OF w(1,3)])
  qed
  have eq: "identify_visit lookup mutate (NodeRef i) s = recursive_mutate mutate (NodeRef N) ?n s1"
    unfolding identify_visit_def get_ty_def n using i(3) make cr(1,2) by (simp add: s1_def)
  show ?thesis
    unfolding eq
  proof (rule spec_mono [OF run])
    fix r assume "case r of (u, s') \<Rightarrow> u = NodeRef N \<and> ic_ok lookup g0 s' \<and> later lookup g0 {} s1 s' \<and> closed lookup g0 s' N"
    then obtain s' where r: "r = (NodeRef N, s')" and
      s': "ic_ok lookup g0 s'" "later lookup g0 {} s1 s'" "closed lookup g0 s' N" by (cases r) auto
    have "later lookup g0 {N} s s'" by (rule ic_later_trans [OF big cr(4) ic_later_mono [OF s'(2)]]) simp
    then have "later lookup g0 {} s s'" by (rule ic_later_closed) (use s'(3) in simp)
    moreover have "in_graph (ps_graph s') (NodeRef N)" using s'(3) by (simp add: closed_def)
    moreover have "origin g0 (ps_graph s') (NodeRef N) = NodeRef i"
      using ic_laterD(3) [OF s'(2), of "NodeRef N"] N(1) orgN by simp
    ultimately show "case r of (u, s') \<Rightarrow> ic_ok lookup g0 s' \<and> later lookup g0 {} s s' \<and> in_graph (ps_graph s') u \<and>
        final lookup g0 u \<and> origin g0 (ps_graph s') u = NodeRef i \<and> (\<forall>k. u = NodeRef k \<longrightarrow> closed lookup g0 s' k)"
      using s' new_not_matched [OF newN] by (simp add: r final_def)
  qed
qed

lemma visit_class_kept:
  assumes g0: "wf_graph g0" and rk: "class_rank lookup g0 rk" and ok: "ic_ok lookup g0 s"
    and i: "i < length (nodes g0)" "node_at (ps_graph s) i = Class c" "lookup c = None" "\<not> matched lookup g0 i" "mark s i = None"
    and call: "\<And>w s2. ic_ok lookup g0 s2 \<Longrightarrow> in_graph (ps_graph s2) w \<Longrightarrow>
      ic_rank lookup g0 rk w s2 < ic_rank lookup g0 rk (NodeRef i) s \<Longrightarrow> call_ok lookup g0 mutate w s2"
  shows "spec (cast_errors lookup g0) (identify_visit lookup mutate (NodeRef i) s) (\<lambda>(u, s').
    u = NodeRef i \<and> ic_ok lookup g0 s' \<and> later lookup g0 {} s s' \<and> closed lookup g0 s' i)"
proof -
  note big = ic_okD(2) [OF ok]
  have i': "i < length (nodes (ps_graph s))" using i(1) big by simp
  have n: "deref (ps_graph s) (NodeRef i) = Inr (Class c)" using i(2) i' by (simp add: node_at_def deref.simps)
  define s1 where "s1 = set_mark (cl_id c) (NodeRef i) s"
  have s1: "s1 = set_mark (type_id (node_at (ps_graph s) i)) (NodeRef i) s" by (simp add: s1_def i(2))
  have m: "ic_ok lookup g0 s1" "later lookup g0 {i} s s1"
    using later_mark [OF ok i', of "NodeRef i"] i(2,4) i' unfolding s1 by (auto simp: final_def)
  have g1: "ps_graph s1 = ps_graph s" by (simp add: s1_def)
  have "mark s1 i = Some (NodeRef i)"
    unfolding s1 using set_mark_mark [OF ic_okD(1) [OF ok] i' _ i'] i(2) by simp
  then have "i \<notin> todo lookup g0 s1" by (simp add: todo_def)
  moreover have "i \<in> todo lookup g0 s"
  proof -
    have "ctor_of (node_at g0 i) = 1" using old_ctor [OF ok i(1)] i(2) by simp
    then obtain c0 where "node_at g0 i = Class c0" by (auto simp: ctor_of_iff)
    then show ?thesis using i(1,4,5) by (auto simp: todo_def matched_def)
  qed
  ultimately have smaller: "todo lookup g0 s1 \<subset> todo lookup g0 s"
    using todo_later [OF big m(2)] by blast
  have run: "spec (cast_errors lookup g0) (recursive_mutate mutate (NodeRef i) (Class c) s1) (\<lambda>(u, s').
      u = NodeRef i \<and> ic_ok lookup g0 s' \<and> later lookup g0 {} s1 s' \<and> closed lookup g0 s' i)"
  proof (rule recursive_mutate_spec [OF g0 m(1) _ i(4)])
    show "i < length (nodes (ps_graph s1))" "Class c = node_at (ps_graph s1) i" using i' i(2) by (simp_all add: g1)
    fix w s2 assume w: "ic_ok lookup g0 s2" "later lookup g0 {} s1 s2" "in_graph (ps_graph s2) w"
    have "todo lookup g0 s2 \<subset> todo lookup g0 s"
      using todo_later [OF ic_okD(2) [OF m(1)] w(2)] smaller by blast
    then have "ic_rank lookup g0 rk w s2 < ic_rank lookup g0 rk (NodeRef i) s" by (intro rank_less [OF rk]) blast
    then show "call_ok lookup g0 mutate w s2" by (rule call [OF w(1,3)])
  qed
  have eq: "identify_visit lookup mutate (NodeRef i) s = recursive_mutate mutate (NodeRef i) (Class c) s1"
    unfolding identify_visit_def get_ty_def n using i(3) by (simp add: s1_def)
  show ?thesis
    unfolding eq
  proof (rule spec_mono [OF run])
    fix r assume "case r of (u, s') \<Rightarrow> u = NodeRef i \<and> ic_ok lookup g0 s' \<and> later lookup g0 {} s1 s' \<and> closed lookup g0 s' i"
    then obtain s' where r: "r = (NodeRef i, s')" and
      s': "ic_ok lookup g0 s'" "later lookup g0 {} s1 s'" "closed lookup g0 s' i" by (cases r) auto
    have "later lookup g0 {i} s s'" by (rule ic_later_trans [OF big m(2) ic_later_mono [OF s'(2)]]) simp
    then have "later lookup g0 {} s s'" by (rule ic_later_closed) (use s'(3) in simp)
    then show "case r of (u, s') \<Rightarrow> u = NodeRef i \<and> ic_ok lookup g0 s' \<and> later lookup g0 {} s s' \<and> closed lookup g0 s' i"
      using s' by (simp add: r)
  qed
qed

lemma visit_other:
  assumes g0: "wf_graph g0" and rk: "class_rank lookup g0 rk" and ok: "ic_ok lookup g0 s"
    and i: "i < length (nodes (ps_graph s))" "ctor_of (node_at (ps_graph s) i) \<noteq> 1"
    and call: "\<And>w s2. ic_ok lookup g0 s2 \<Longrightarrow> in_graph (ps_graph s2) w \<Longrightarrow>
      ic_rank lookup g0 rk w s2 < ic_rank lookup g0 rk (NodeRef i) s \<Longrightarrow> call_ok lookup g0 mutate w s2"
  shows "\<not> matched lookup g0 i" "spec (cast_errors lookup g0) (identify_visit lookup mutate (NodeRef i) s) (\<lambda>(u, s').
    u = NodeRef i \<and> ic_ok lookup g0 s' \<and> later lookup g0 {} s s' \<and> closed lookup g0 s' i)"
proof -
  let ?n = "node_at (ps_graph s) i"
  note big = ic_okD(2) [OF ok]
  have n: "deref (ps_graph s) (NodeRef i) = Inr ?n" using i(1) by (simp add: node_at_def deref.simps)
  show nm: "\<not> matched lookup g0 i" using i(2) old_ctor [OF ok] by (auto simp: matched_def)
  have src: "rk u < rk (origin g0 (ps_graph s) (NodeRef i))"
    if "u \<in> set (source_refs g0 i (origin g0 (ps_graph s) (NodeRef i)))" for u
  proof (cases "i < length (nodes g0)")
    case True
    then have "\<forall>c. node_at g0 i \<noteq> Class c" using old_ctor [OF ok True] i(2) by auto
    then have "passed_refs (node_at g0 i) = mut_refs (node_at g0 i)" by (cases "node_at g0 i") (auto simp: passed_refs_def)
    then show ?thesis
      using rk True that \<open>\<forall>c. node_at g0 i \<noteq> Class c\<close> unfolding class_rank_def source_refs_def by auto
  next
    case False
    then obtain j where j: "replaces lookup g0 (ps_graph s) i j" using ic_ok_new [OF ok i(1)] by auto
    then obtain c info where "j < length (nodes g0)" "node_at g0 j = Class c" "lookup c = Some info" by (auto simp: replaces_def)
    then show ?thesis
      using rk that False origin_new [OF j] unfolding class_rank_def source_refs_def by auto
  qed
  have "spec (cast_errors lookup g0) (recursive_mutate mutate (NodeRef i) ?n s) (\<lambda>(u, s').
      u = NodeRef i \<and> ic_ok lookup g0 s' \<and> later lookup g0 {} s s' \<and> closed lookup g0 s' i)"
  proof (rule recursive_mutate_spec [OF g0 ok i(1) nm _ refl])
    fix w s2 assume w: "ic_ok lookup g0 s2" "later lookup g0 {} s s2" "in_graph (ps_graph s2) w"
      "origin g0 (ps_graph s2) w \<in> set (source_refs g0 i (origin g0 (ps_graph s) (NodeRef i)))"
    have "ic_rank lookup g0 rk w s2 < ic_rank lookup g0 rk (NodeRef i) s"
      using todo_later [OF big w(2)] src [OF w(4)] by (intro rank_less [OF rk]) blast
    then show "call_ok lookup g0 mutate w s2" by (rule call [OF w(1,3)])
  qed
  moreover have "identify_visit lookup mutate (NodeRef i) s = recursive_mutate mutate (NodeRef i) ?n s"
    unfolding identify_visit_def get_ty_def n using i(2) by (auto split: ty.splits)
  ultimately show "spec (cast_errors lookup g0) (identify_visit lookup mutate (NodeRef i) s) (\<lambda>(u, s').
    u = NodeRef i \<and> ic_ok lookup g0 s' \<and> later lookup g0 {} s s' \<and> closed lookup g0 s' i)" by simp
qed

lemma mutate_contract:
  assumes g0: "wf_graph g0" and rk: "class_rank lookup g0 rk" and name: "by_name lookup" and ok: "ic_ok lookup g0 s"
    and t: "in_graph (ps_graph s) t"
    and call: "\<And>w s2. ic_ok lookup g0 s2 \<Longrightarrow> in_graph (ps_graph s2) w \<Longrightarrow>
      ic_rank lookup g0 rk w s2 < ic_rank lookup g0 rk t s \<Longrightarrow> call_ok lookup g0 mutate w s2"
  shows "call_ok lookup g0 (identify_mutate lookup mutate) t s"
proof (cases t)
  case (PrimRef k)
  have "identify_mutate lookup mutate t s = Inr (t, s)"
    by (simp add: PrimRef identify_mutate_def get_ty_def result_get_def identify_visit_def recursive_mutate_def set_mark_noid)
  then show ?thesis using ok t PrimRef ic_later_refl by (simp add: call_ok_def covered_def)
next
  case (NodeRef i)
  then have i: "i < length (nodes (ps_graph s))" using t by simp
  let ?n = "node_at (ps_graph s) i"
  have get: "get_ty t s = Inr ?n" using i NodeRef by (simp add: get_ty_def node_at_def deref.simps)
  define m where "m = snd (result_get (type_id ?n) (ps_marks s))"
  define s0 where "s0 = s\<lparr>ps_marks := m\<rparr>"
  have "cached m nid = cached (ps_marks s) nid" for nid unfolding m_def by (rule result_get_cached(2))
  note same = same_marks [OF this, folded s0_def]
  have g: "ps_graph s0 = ps_graph s" by (simp add: s0_def)
  note ok0 = same(2) [OF ok] and big = ic_okD(2) [OF ok]
  have ranks: "ic_rank lookup g0 rk t s0 = ic_rank lookup g0 rk t s" by (simp add: ic_rank_def same(4) g)
  have run: "identify_mutate lookup mutate t s = (case mark s0 i of Some u \<Rightarrow> Inr (u, s0)
      | None \<Rightarrow> bindE (identify_visit lookup mutate t s0) (\<lambda>(u, s'). Inr (u, set_mark (type_id ?n) u s')))"
    unfolding identify_mutate_def get bindE_simps same(1) mark_def
    by (simp add: case_prod_beta Let_def result_get_cached s0_def m_def split: option.split)
  show ?thesis
  proof (cases "mark s0 i")
    case (Some u)
    have i0: "i < length (nodes (ps_graph s0))" using i by (simp add: g)
    show ?thesis
      unfolding call_ok_def run Some option.case spec_simps prod.case
      using ok0 same(3) ic_okD(5-7) [OF ok0 Some i0] covered_mark [OF ok0 i0 Some] NodeRef by (simp add: g)
  next
    case None
    have visited: "spec (cast_errors lookup g0) (identify_visit lookup mutate t s0) (\<lambda>(u, s').
        ic_ok lookup g0 s' \<and> later lookup g0 {} s0 s' \<and> in_graph (ps_graph s') u \<and> final lookup g0 u \<and>
        origin g0 (ps_graph s') u = origin g0 (ps_graph s0) t \<and> (\<forall>k. u = NodeRef k \<longrightarrow> closed lookup g0 s' k) \<and>
        (\<not> has_node_id ?n \<longrightarrow> u = t))" (is "spec _ _ ?P")
    proof -
      have kept: "spec (cast_errors lookup g0) (identify_visit lookup mutate t s0) ?P"
        if "spec (cast_errors lookup g0) (identify_visit lookup mutate t s0) (\<lambda>(u, s').
           u = t \<and> ic_ok lookup g0 s' \<and> later lookup g0 {} s0 s' \<and> closed lookup g0 s' i)" "\<not> matched lookup g0 i"
      proof (rule spec_mono [OF that(1)])
        fix r assume "case r of (u, s') \<Rightarrow> u = t \<and> ic_ok lookup g0 s' \<and> later lookup g0 {} s0 s' \<and> closed lookup g0 s' i"
        then obtain s' where r: "r = (t, s')" and s': "ic_ok lookup g0 s'" "later lookup g0 {} s0 s'" "closed lookup g0 s' i"
          by (cases r) auto
        then show "?P r" using ic_laterD(2,3) [OF s'(2), of t] t that(2) NodeRef by (simp add: g final_def)
      qed
      note call0 = call [folded ranks]
      show ?thesis
      proof (cases "\<exists>c. ?n = Class c")
        case True
        then obtain c where c: "?n = Class c" by blast
        have old: "i < length (nodes g0)"
        proof (rule ccontr)
          assume "\<not> i < length (nodes g0)"
          then obtain j where "replaces lookup g0 (ps_graph s) i j" using ic_ok_new [OF ok i] by auto
          then obtain d where "?n = Container d" by (rule replaces_container)
          then show False using c by simp
        qed
        have "map_refs (origin g0 (ps_graph s)) (Class c) = node_at g0 i" using ic_okD(3) [OF ok old] c by simp
        then obtain c0 where c0: "node_at g0 i = Class c0" "fqName c0 = fqName c"
          by (cases "node_at g0 i") (auto simp: fqName_def)
        then have lk: "lookup c = lookup c0" using name unfolding by_name_def by metis
        show ?thesis
        proof (cases "lookup c")
          case None
          then have "\<not> matched lookup g0 i" using c0 lk by (simp add: matched_def)
          then show ?thesis
            using visit_class_kept [OF g0 rk ok0 old _ None _ \<open>mark s0 i = None\<close> call0 [unfolded NodeRef]] c
            unfolding NodeRef by (intro kept [unfolded NodeRef]) (simp_all add: g)
        next
          case (Some info)
          then have m: "matched lookup g0 i" using c0 lk old by (simp add: matched_def)
          have "spec (cast_errors lookup g0) (identify_visit lookup mutate (NodeRef i) s0) (\<lambda>(u, s').
              ic_ok lookup g0 s' \<and> later lookup g0 {} s0 s' \<and> in_graph (ps_graph s') u \<and> final lookup g0 u \<and>
              origin g0 (ps_graph s') u = NodeRef i \<and> (\<forall>k. u = NodeRef k \<longrightarrow> closed lookup g0 s' k))"
            by (rule visit_class_replaced [OF g0 rk ok0 old _ Some m \<open>mark s0 i = None\<close> call0 [unfolded NodeRef]])
              (simp_all add: g c)
          then show ?thesis unfolding NodeRef by (rule spec_mono) (use old c in auto)
        qed
      next
        case False
        then have "ctor_of (node_at (ps_graph s0) i) \<noteq> 1" by (simp add: g ctor_of_iff)
        note o = visit_other [OF g0 rk ok0 _ this call0 [unfolded NodeRef]]
        show ?thesis using kept [unfolded NodeRef] o i unfolding NodeRef by (simp add: g)
      qed
    qed
    show ?thesis
      unfolding call_ok_def run None option.case
    proof (rule spec_bind_prodI [OF visited], elim conjE)
      fix u s' assume a: "ic_ok lookup g0 s'" "later lookup g0 {} s0 s'" "in_graph (ps_graph s') u" "final lookup g0 u"
        "origin g0 (ps_graph s') u = origin g0 (ps_graph s0) t" "\<forall>k. u = NodeRef k \<longrightarrow> closed lookup g0 s' k"
        "\<not> has_node_id ?n \<longrightarrow> u = t"
      have l: "later lookup g0 {} s s'" by (rule ic_later_trans [OF big same(3) a(2)])
      have "ic_ok lookup g0 (set_mark (type_id ?n) u s') \<and> later lookup g0 {} s (set_mark (type_id ?n) u s') \<and>
          in_graph (ps_graph (set_mark (type_id ?n) u s')) u \<and>
          origin g0 (ps_graph (set_mark (type_id ?n) u s')) u = origin g0 (ps_graph s) (NodeRef i) \<and>
          final lookup g0 u \<and> covered g0 (set_mark (type_id ?n) u s') u"
        by (rule finish_call [OF a(1) big l i _ a(3,4)]) (use a(5-7) NodeRef in \<open>auto simp: g\<close>)
      then show "spec (cast_errors lookup g0) (Inr (u, set_mark (type_id ?n) u s')) (\<lambda>(r, s').
          ic_ok lookup g0 s' \<and> later lookup g0 {} s s' \<and> in_graph (ps_graph s') r \<and>
          origin g0 (ps_graph s') r = origin g0 (ps_graph s) t \<and> final lookup g0 r \<and> covered g0 s' r)"
        using NodeRef by simp
    qed
  qed
qed

lemma mutate_spec:
  assumes g0: "wf_graph g0" and rk: "class_rank lookup g0 rk" and name: "by_name lookup"
  shows "ic_ok lookup g0 s \<Longrightarrow> in_graph (ps_graph s) t \<Longrightarrow> ic_rank lookup g0 rk t s < fuel \<Longrightarrow>
    call_ok lookup g0 (recur (identify_mutate lookup) fuel) t s"
proof (induction fuel arbitrary: s t)
  case (Suc n)
  show ?case
    unfolding recur.simps
  proof (rule mutate_contract [OF g0 rk name Suc.prems(1,2)])
    fix w s2 assume "ic_ok lookup g0 s2" "in_graph (ps_graph s2) w" "ic_rank lookup g0 rk w s2 < ic_rank lookup g0 rk t s"
    then show "call_ok lookup g0 (recur (identify_mutate lookup) n) w s2" using Suc.prems(3) by (intro Suc.IH) simp_all
  qed
qed simp

section \<open>The pass\<close>

definition mut_succs :: "type_graph \<Rightarrow> tref \<Rightarrow> tref list" where
  "mut_succs g t = (case deref g t of Inr n \<Rightarrow> mut_refs n | Inl e \<Rightarrow> [])"

text \<open>A container that stands for the class \<open>j\<close> of the first graph.\<close>

definition container_for :: "matcher \<Rightarrow> type_graph \<Rightarrow> type_graph \<Rightarrow> nat \<Rightarrow> nat \<Rightarrow> bool" where
  "container_for lookup g g' i j \<longleftrightarrow> j < length (nodes g) \<and> (\<exists>c d. node_at g j = Class c \<and> node_at g' i = Container d \<and>
     lookup c = Some (co_info d) \<and> co_size d = cl_size c \<and> co_underlying d = Some (NodeRef j) \<and>
     map (\<lambda>p. p\<lparr>tp_type := origin g g' (tp_type p)\<rparr>) (co_templateParams d) = cl_templateParams c)"

lemma replaces_container_for:
  assumes "replaces lookup g g' i j"
  shows "container_for lookup g g' i j" "container_for lookup g g' i k \<Longrightarrow> k = j"
proof -
  obtain c info nid where c: "j < length (nodes g)" "node_at g j = Class c" "lookup c = Some info"
    "map_refs (origin g g') (node_at g' i) = Container (container_of info c (NodeRef j) nid)"
    using assms by (auto simp: replaces_def)
  then obtain d where d: "node_at g' i = Container d"
    "d\<lparr>co_templateParams := map (\<lambda>p. p\<lparr>tp_type := origin g g' (tp_type p)\<rparr>) (co_templateParams d)\<rparr> = container_of info c (NodeRef j) nid"
    by (cases "node_at g' i") auto
  have "co_info d = info" "co_size d = cl_size c" "co_underlying d = Some (NodeRef j)"
    "map (\<lambda>p. p\<lparr>tp_type := origin g g' (tp_type p)\<rparr>) (co_templateParams d) = cl_templateParams c"
    using arg_cong [OF d(2), of co_info] arg_cong [OF d(2), of co_size] arg_cong [OF d(2), of co_underlying]
      arg_cong [OF d(2), of co_templateParams] by (simp_all add: container_of_def mk_container_def)
  then show "container_for lookup g g' i j" "container_for lookup g g' i k \<Longrightarrow> k = j"
    using c d(1) by (auto simp: container_for_def)
qed

text \<open>What the pass does: the final graph, its references taken back to their origins, is the first one.\<close>

definition identified :: "matcher \<Rightarrow> type_graph \<Rightarrow> type_graph \<Rightarrow> bool" where
  "identified lookup g g' \<longleftrightarrow> wf_graph g' \<and> length (nodes g) \<le> length (nodes g') \<and> finalTypes g' = finalTypes g \<and>
     (\<forall>i < length (nodes g). map_refs (origin g g') (node_at g' i) = node_at g i) \<and>
     map (origin g g') (rootTypes g') = rootTypes g \<and>
     (\<forall>i. matched lookup g i \<longrightarrow> node_at g' i = node_at g i) \<and>
     (\<forall>i < length (nodes g'). length (nodes g) \<le> i \<longrightarrow> (\<exists>j. container_for lookup g g' i j)) \<and>
     (\<forall>i k j. length (nodes g) \<le> i \<longrightarrow> i < length (nodes g') \<longrightarrow> length (nodes g) \<le> k \<longrightarrow> k < length (nodes g') \<longrightarrow>
        container_for lookup g g' i j \<longrightarrow> container_for lookup g g' k j \<longrightarrow> i = k) \<and>
     (\<forall>t \<in> reach (mut_succs g') (rootTypes g'). final lookup g t)"

lemma start_ok:
  assumes "wf_graph g"
  shows "ic_ok lookup g \<lparr>ps_marks = replicate n None, ps_graph = g\<rparr>"
    "mark \<lparr>ps_marks = replicate n None, ps_graph = g\<rparr> i = None"
proof -
  have none: "cached (replicate n None :: tref result_tracker) nid = None" for nid by (simp add: cached_def)
  then show "mark \<lparr>ps_marks = replicate n None, ps_graph = g\<rparr> i = None" for i by (simp add: mark_def)
  moreover have "map_refs (origin g g) (node_at g i) = node_at g i" if i: "i < length (nodes g)" for i
  proof (rule map_refs_id)
    fix u assume "u \<in> set (mut_refs (node_at g i))"
    then have "in_graph g u" using ref_in_graph [OF assms i] by (auto simp: in_set_conv_nth)
    then show "origin g g u = u" by (cases u) auto
  qed
  ultimately show "ic_ok lookup g \<lparr>ps_marks = replicate n None, ps_graph = g\<rparr>"
    using assms none by (simp add: ic_ok_def)
qed

definition roots_done :: "matcher \<Rightarrow> type_graph \<Rightarrow> nat \<Rightarrow> ic_state \<Rightarrow> bool" where
  "roots_done lookup g m s \<longleftrightarrow> ic_ok lookup g s \<and> finalTypes (ps_graph s) = finalTypes g \<and>
     length (rootTypes (ps_graph s)) = length (rootTypes g) \<and>
     (\<forall>q < length (rootTypes g). origin g (ps_graph s) (rootTypes (ps_graph s) ! q) = rootTypes g ! q \<and>
        (q < m \<longrightarrow> final lookup g (rootTypes (ps_graph s) ! q) \<and> covered g s (rootTypes (ps_graph s) ! q))) \<and>
     (\<forall>i < length (nodes (ps_graph s)). \<forall>k. mark s i = Some (NodeRef k) \<longrightarrow> closed lookup g s k)"

lemma put_root:
  assumes ok: "ic_ok lookup g0 s" and r: "in_graph (ps_graph s) r"
  fixes k :: nat
  defines "s' \<equiv> s\<lparr>ps_graph := (ps_graph s)\<lparr>rootTypes := (rootTypes (ps_graph s))[k := r]\<rparr>\<rparr>"
  shows "ic_ok lookup g0 s'" "origin g0 (ps_graph s') = origin g0 (ps_graph s)" "mark s' i = mark s i"
    "covered g0 s' w = covered g0 s w" "closed lookup g0 s' i = closed lookup g0 s i"
proof -
  let ?g = "(ps_graph s)\<lparr>rootTypes := (rootTypes (ps_graph s))[k := r]\<rparr>"
  have g: "ps_graph s' = ?g" "ps_marks s' = ps_marks s" by (simp_all add: s'_def)
  have at: "node_at ?g i = node_at (ps_graph s) i" for i by (simp add: node_at_def)
  have ig: "in_graph ?g = in_graph (ps_graph s)"
  proof
    show "in_graph ?g u = in_graph (ps_graph s) u" for u by (cases u) simp_all
  qed
  show org: "origin g0 (ps_graph s') = origin g0 (ps_graph s)"
  proof
    show "origin g0 (ps_graph s') u = origin g0 (ps_graph s) u" for u by (cases u) (simp_all add: g origin_def at)
  qed
  show mk: "mark s' i = mark s i" for i by (simp add: mark_def g at)
  show cov: "covered g0 s' w = covered g0 s w" for w by (simp add: covered_def mk) (simp add: g at)
  show "closed lookup g0 s' i = closed lookup g0 s i" by (simp add: closed_def cov) (simp add: g at)
  have "deref ?g u = deref (ps_graph s) u" for u by (cases u) (simp_all add: deref.simps)
  moreover have "\<forall>t \<in> set ((rootTypes (ps_graph s))[k := r]). in_graph (ps_graph s) t"
    using set_update_subset_insert [of "rootTypes (ps_graph s)" k r] r ic_okD(1) [OF ok] by (auto simp: wf_graph_def wf_refs_def)
  ultimately have "wf_graph ?g"
    using ic_okD(1) [OF ok] by (simp add: wf_graph_def wf_refs_def wf_ids_def wf_children_def at ig)
  then show "ic_ok lookup g0 s'"
    using ok unfolding ic_ok_def by (simp add: replaces_def mk org) (simp add: g at ig)
qed

lemma identify_root_step:
  assumes g: "wf_graph g" and rk: "class_rank lookup g rk" and name: "by_name lookup"
    and J: "roots_done lookup g q s" and q: "q < length (rootTypes g)"
  shows "spec (cast_errors lookup g) (identify_root lookup (ic_depth g) q s) (roots_done lookup g (Suc q))"
proof -
  have ok: "ic_ok lookup g s" and J': "length (rootTypes (ps_graph s)) = length (rootTypes g)"
    "finalTypes (ps_graph s) = finalTypes g"
    "\<And>p. p < length (rootTypes g) \<Longrightarrow> origin g (ps_graph s) (rootTypes (ps_graph s) ! p) = rootTypes g ! p"
    "\<And>p. p < q \<Longrightarrow> final lookup g (rootTypes (ps_graph s) ! p) \<and> covered g s (rootTypes (ps_graph s) ! p)"
    "\<And>i k. i < length (nodes (ps_graph s)) \<Longrightarrow> mark s i = Some (NodeRef k) \<Longrightarrow> closed lookup g s k"
    using J q by (auto simp: roots_done_def)
  have roots: "in_graph (ps_graph s) (rootTypes (ps_graph s) ! p)" if "p < length (rootTypes g)" for p
    using ic_okD(1) [OF ok] J'(1) that by (simp add: wf_graph_def wf_refs_def)
  have "call_ok lookup g (recur (identify_mutate lookup) (ic_depth g)) (rootTypes (ps_graph s) ! q) s"
    by (rule mutate_spec [OF g rk name ok roots [OF q] rank_bound [OF rk]])
  then show ?thesis
    unfolding identify_root_def call_ok_def
  proof (rule spec_bind_prodI, elim conjE)
    fix r s1 assume ok1: "ic_ok lookup g s1" and l: "later lookup g {} s s1" and r: "in_graph (ps_graph s1) r"
      "origin g (ps_graph s1) r = origin g (ps_graph s) (rootTypes (ps_graph s) ! q)" "final lookup g r" "covered g s1 r"
    let ?s = "s1\<lparr>ps_graph := (ps_graph s1)\<lparr>rootTypes := (rootTypes (ps_graph s1))[q := r]\<rparr>\<rparr>"
    note p = put_root [OF ok1 r(1)]
    have rt: "rootTypes (ps_graph s1) = rootTypes (ps_graph s)" by (rule ic_laterD(9) [OF l])
    have "origin g (ps_graph s1) (((rootTypes (ps_graph s))[q := r]) ! i) = rootTypes g ! i \<and>
        (i < Suc q \<longrightarrow> final lookup g (((rootTypes (ps_graph s))[q := r]) ! i) \<and> covered g s1 (((rootTypes (ps_graph s))[q := r]) ! i))"
      if i: "i < length (rootTypes g)" for i
    proof (cases "i = q")
      case True
      then show ?thesis using r J'(1,3) q by simp
    next
      case False
      then show ?thesis
        using J'(3) [OF i] J'(4) [of i] ic_laterD(3) [OF l roots [OF i]] ic_covered_later [OF ic_okD(2) [OF ok] l] by (auto simp: less_Suc_eq)
    qed
    moreover have "closed lookup g s1 k" if "i < length (nodes (ps_graph s1))" "mark s1 i = Some (NodeRef k)" for i k
    proof (cases "i < length (nodes (ps_graph s)) \<and> mark s i \<noteq> None")
      case True
      then obtain w where "mark s i = Some w" by blast
      then have "w = NodeRef k" using ic_laterD(4) [OF l] True that(2) by force
      then show ?thesis using J'(5) True \<open>mark s i = Some w\<close> ic_closed_later [OF ic_okD(2) [OF ok] l] by blast
    next
      case False
      then show ?thesis using ic_laterD(6) [OF l that] by blast
    qed
    ultimately show "spec (cast_errors lookup g) (Inr ?s) (roots_done lookup g (Suc q))"
      unfolding roots_done_def spec_simps p(2-5)
      using p(1) J'(1,2) ic_laterD(10) [OF l] rt by simp
  qed
qed

lemma roots_done_result:
  assumes nc: "no_capture_keys g" and J: "roots_done lookup g (length (rootTypes g)) s"
  shows "identified lookup g (ps_graph s)"
proof -
  have ok: "ic_ok lookup g s" and J': "length (rootTypes (ps_graph s)) = length (rootTypes g)"
    "finalTypes (ps_graph s) = finalTypes g"
    "\<And>p. p < length (rootTypes g) \<Longrightarrow> origin g (ps_graph s) (rootTypes (ps_graph s) ! p) = rootTypes g ! p"
    "\<And>p. p < length (rootTypes g) \<Longrightarrow> final lookup g (rootTypes (ps_graph s) ! p) \<and> covered g s (rootTypes (ps_graph s) ! p)"
    "\<And>i k. i < length (nodes (ps_graph s)) \<Longrightarrow> mark s i = Some (NodeRef k) \<Longrightarrow> closed lookup g s k"
    using J by (auto simp: roots_done_def)
  note big = ic_okD(2) [OF ok]
  have reached: "final lookup g t \<and> covered g s t" if "t \<in> reach (mut_succs (ps_graph s)) (rootTypes (ps_graph s))" for t
    using that
  proof (induction rule: reach.induct)
    case (root t)
    then show ?case using J'(1,4) by (auto simp: in_set_conv_nth)
  next
    case (step t u)
    then obtain n where n: "deref (ps_graph s) t = Inr n" "u \<in> set (mut_refs n)"
      by (cases "deref (ps_graph s) t") (auto simp: mut_succs_def)
    then obtain i where i: "t = NodeRef i" "i < length (nodes (ps_graph s))" "node_at (ps_graph s) i = n"
      using deref_owner [OF n(1)] by (cases n) auto
    have "closed lookup g s i"
    proof (cases "i < length (nodes g)")
      case True
      have "ctor_of n \<noteq> 11" using nc old_ctor [OF ok True] True i(3) by (simp add: no_capture_keys_def list_all_length node_at_def)
      then have "has_node_id n" using n(2) by (cases n) auto
      then obtain w where w: "mark s i = Some w" using step.IH i True by (auto simp: covered_def)
      then have "w = NodeRef i" using mark_final [OF ok i(2)] step.IH i(1) by blast
      then show ?thesis using J'(5) [OF i(2)] w by blast
    next
      case False
      then obtain j where j: "replaces lookup g (ps_graph s) i j" "mark s j = Some (NodeRef i)" using ic_ok_new [OF ok i(2)] by auto
      then have "j < length (nodes (ps_graph s))" using big by (simp add: replaces_def)
      then show ?thesis using J'(5) j(2) by blast
    qed
    then show ?case using n(2) i(3) by (simp add: closed_def)
  qed
  have "i = k" if "length (nodes g) \<le> i" "i < length (nodes (ps_graph s))" "length (nodes g) \<le> k" "k < length (nodes (ps_graph s))"
    "container_for lookup g (ps_graph s) i j" "container_for lookup g (ps_graph s) k j" for i k j
  proof -
    have r: "replaces lookup g (ps_graph s) i j" "replaces lookup g (ps_graph s) k j"
      using that ic_ok_new [OF ok, of i] ic_ok_new [OF ok, of k] replaces_container_for(2) by metis+
    have "NodeRef i = NodeRef k"
      by (rule final_unique [OF ok])
        (use that origin_new [OF r(1) that(1)] origin_new [OF r(2) that(3)] new_not_matched in \<open>auto simp: final_def\<close>)
    then show ?thesis by simp
  qed
  moreover have "\<exists>j. container_for lookup g (ps_graph s) i j" if "i < length (nodes (ps_graph s))" "length (nodes g) \<le> i" for i
    using ic_ok_new [OF ok that] replaces_container_for(1) by blast
  moreover have "map (origin g (ps_graph s)) (rootTypes (ps_graph s)) = rootTypes g"
    using J'(1,3) by (intro nth_equalityI) simp_all
  ultimately show ?thesis
    unfolding identified_def using ic_okD(1,3,4) [OF ok] big J'(2) reached by blast
qed

lemma find_by_name: "by_name (find_container regex_search infos)"
  by (simp add: by_name_def find_container_def)

lemma identifyContainers_contract:
  assumes "wf_graph g" and "no_capture_keys g" and "class_rank (find_container regex_search infos) g rk"
  shows "spec (cast_errors (find_container regex_search infos) g) (identifyContainers_pass regex_search infos g)
    (identified (find_container regex_search infos) g)"
proof -
  let ?lookup = "find_container regex_search infos"
  have "spec (cast_errors ?lookup g) (for_each (identify_root ?lookup (ic_depth g)) [0..<length (rootTypes g)]
      \<lparr>ps_marks = replicate (graph_size g) None, ps_graph = g\<rparr>) (roots_done ?lookup g (length (rootTypes g)))"
  proof (rule spec_for_each_upt)
    have "origin g g t = t" if "in_graph g t" for t using that by (cases t) auto
    then show "roots_done ?lookup g 0 \<lparr>ps_marks = replicate (graph_size g) None, ps_graph = g\<rparr>"
      using start_ok [OF assms(1)] assms(1) by (auto simp: roots_done_def wf_graph_def wf_refs_def)
  qed (use identify_root_step [OF assms(1,3) find_by_name] in auto)
  then show ?thesis
    unfolding identifyContainers_pass_def
    by (rule spec_bindI) (use roots_done_result [OF assms(2)] in simp)
qed

text \<open>
  C10: where every cycle of the graph goes through a class that no description matches, the pass returns, unless
  a child of a class is matched, when the cast of the mutator throws. Each class that a description
  matches has one container at most, with the first such description, the size of the class, the class as its underlying type and
  its template parameters; every reference the pass can reach is either kept or goes to the container of the
  class it went to, none of them goes to a matched class, and everything else is as it was.
\<close>

theorem identifyContainers_result:
  assumes "wf_graph g" and "no_capture_keys g" and "class_rank (find_container regex_search infos) g rk"
  shows "spec (cast_errors (find_container regex_search infos) g) (identifyContainers_pass regex_search infos g)
    (identified (find_container regex_search infos) g)"
  using assms by (rule identifyContainers_contract)

text \<open>A class with a vector of itself, and a pointer to the vector.\<close>

definition vector_info :: container_info where
  "vector_info = \<lparr>ci_typeName = ''std::vector'', ci_numTemplateParams = Some 1, ci_ctype = SEQ_TYPE, ci_header = ''vector'',
     ci_ns = [], ci_replaceTemplateParamIndex = [], ci_allocatorIndex = None, ci_underlyingContainerIndex = None,
     ci_stubTemplateParams = [], ci_captureKeys = False, ci_requiredFeatures = {},
     ci_codegen = \<lparr>cc_decl = '''', cc_func = '''', cc_traversalFunc = '''', cc_extra = '''', cc_scopedExtra = '''', cc_processors = []\<rparr>,
     ci_matcher = ''std::vector<''\<rparr>"

definition ic_example :: type_graph where
  "ic_example = \<lparr>nodes = [
     Class ((mk_class KStruct ''Foo'' ''Foo'' 24 0 0)\<lparr>cl_members := [mk_member (NodeRef 1) ''v'' 0 0]\<rparr>),
     Class ((mk_class KStruct ''vector'' ''std::vector<Foo>'' 24 0 1)\<lparr>cl_templateParams := [mk_param (NodeRef 0)]\<rparr>),
     Pointer \<lparr>pt_id = 2, pt_pointee = NodeRef 1, pt_inputName = '''', pt_name = ''vector*''\<rparr>],
     rootTypes = [NodeRef 2], finalTypes = [], next_id = 3\<rparr>"

theorem identifyContainers_result_witness:
  "\<exists>g'. identifyContainers_pass (\<lambda>p s. starts_with s p) [vector_info] ic_example = Inr g' \<and>
     identified (find_container (\<lambda>p s. starts_with s p) [vector_info]) ic_example g'"
proof -
  let ?lookup = "find_container (\<lambda>p s. starts_with s p) [vector_info]"
  have wf: "wf_graph ic_example" by (rule wf_checkD) code_simp
  have size: "length (nodes ic_example) = 3" by (simp add: ic_example_def)
  have at: "node_at ic_example 0 = Class ((mk_class KStruct ''Foo'' ''Foo'' 24 0 0)\<lparr>cl_members := [mk_member (NodeRef 1) ''v'' 0 0]\<rparr>)"
    "node_at ic_example 1 = Class ((mk_class KStruct ''vector'' ''std::vector<Foo>'' 24 0 1)\<lparr>cl_templateParams := [mk_param (NodeRef 0)]\<rparr>)"
    "node_at ic_example 2 = Pointer \<lparr>pt_id = 2, pt_pointee = NodeRef 1, pt_inputName = '''', pt_name = ''vector*''\<rparr>"
    by (simp_all add: node_at_def ic_example_def)
  have cases3: "i = 0 \<or> i = 1 \<or> i = 2" if "i < 3" for i :: nat using that by linarith
  have "no_capture_keys ic_example" by code_simp
  moreover have "class_rank ?lookup ic_example (\<lambda>t. case t of NodeRef i \<Rightarrow> min i 3 | PrimRef k \<Rightarrow> 0)"
  proof -
    have "?lookup ((mk_class KStruct ''Foo'' ''Foo'' 24 0 0)\<lparr>cl_members := [mk_member (NodeRef 1) ''v'' 0 0]\<rparr>) = None"
      by code_simp
    then show ?thesis
      unfolding class_rank_def size using cases3 at
      by (auto simp: passed_refs_def mk_param_def mk_class_def split: tref.splits dest!: cases3)
  qed
  moreover have "cast_errors ?lookup ic_example = {}"
    unfolding cast_errors_def size using cases3 at by (fastforce simp: mk_class_def)
  ultimately show ?thesis
    using identifyContainers_result [OF wf, of "\<lambda>p s. starts_with s p" "[vector_info]"] by (simp add: spec_empty_iff)
qed

text \<open>The vector has become a container whose parameter is the class; the member and the pointer go to it.\<close>

lemma identifyContainers_example:
  "bindE (identifyContainers_pass (\<lambda>p s. starts_with s p) [vector_info] ic_example) (\<lambda>g. Inr (map refs (nodes g), map ctor_of (nodes g))) =
     Inr ([[NodeRef 3], [NodeRef 0], [NodeRef 3], [NodeRef 0, NodeRef 1]], [1, 1, 7, 2])"
  by code_simp

end
