(* ===== verification/KeyCapture.thy ===== *)
theory KeyCapture
  imports GrowingPass Flattener
begin

text \<open>
  \<^verbatim>\<open>oi/type_graph/KeyCapture.cpp\<close>: the pass that puts a node above the containers whose keys the user
  wants to capture.
\<close>

section \<open>The pass\<close>

text \<open>\<^verbatim>\<open>OICodeGen::Config::KeyToCapture\<close>.\<close>

record key_to_capture =
  kc_type :: "string option"
  kc_member :: "string option"
  kc_topLevel :: bool

text \<open>The visitor holds the tracker and a reference to the vector of the container descriptions.\<close>

type_synonym kc_marks = "node_tracker \<times> container_info list"
type_synonym kc_state = "kc_marks pass_state"

definition captured_info :: "container_info \<Rightarrow> container_info" where
  "captured_info info = info\<lparr>ci_captureKeys := True\<rparr>"

definition captureKey :: "tref \<Rightarrow> kc_state \<Rightarrow> (tref \<times> kc_state) outcome" where
  "captureKey t s = bindE (stripTypedefs (ps_graph s) t) (\<lambda>u. bindE (deref (ps_graph s) u) (\<lambda>n. case n of
      Container c \<Rightarrow>
        let info = captured_info (co_info c) in
        bindE (make_capture_keys t info (ps_graph s)) (\<lambda>(r, g).
          Inr (r, s\<lparr>ps_marks := (fst (ps_marks s), snd (ps_marks s) @ [info]), ps_graph := g\<rparr>))
    | _ \<Rightarrow> Inr (t, s)))"

fun capture_members :: "string \<Rightarrow> member list \<Rightarrow> kc_state \<Rightarrow> (member list \<times> kc_state) outcome" where
  "capture_members name [] s = Inr ([], s)"
| "capture_members name (m # ms) s =
     bindE (if m_name m \<noteq> name then Inr (m, s)
            else bindE (captureKey (m_type m) s) (\<lambda>(r, s). Inr (copy_member r m, s))) (\<lambda>(m, s).
     bindE (capture_members name ms s) (\<lambda>(ms, s). Inr (m # ms, s)))"

fun capture_keys ::
    "key_to_capture list \<Rightarrow> string \<Rightarrow> member list \<Rightarrow> kc_state \<Rightarrow> (member list \<times> kc_state) outcome" where
  "capture_keys [] name ms s = Inr (ms, s)"
| "capture_keys (k # ks) name ms s =
     (if kc_type k \<noteq> Some name then capture_keys ks name ms s
      else case kc_member k of
        None \<Rightarrow> capture_keys ks name ms s
      | Some mem \<Rightarrow> bindE (capture_members mem ms s) (\<lambda>(ms, s). capture_keys ks name ms s))"

definition keyCapture_visit :: "key_to_capture list \<Rightarrow> kc_marks walker \<Rightarrow> kc_marks walker" where
  "keyCapture_visit keys accept t s = bindE (get_ty t s) (\<lambda>n. case n of
      Class c \<Rightarrow> bindE (capture_keys keys (cl_name c) (cl_members c) s) (\<lambda>(ms, s).
        let c = c\<lparr>cl_members := ms\<rparr> in recursive_visit accept (Class c) (put_ty t (Class c) s))
    | _ \<Rightarrow> recursive_visit accept n s)"

definition kc_visit_mark :: "type_graph \<Rightarrow> tref \<Rightarrow> kc_marks \<Rightarrow> (bool \<times> kc_marks) outcome" where
  "kc_visit_mark g t v = bindE (trk_visit g t (fst v)) (\<lambda>(seen, trk). Inr (seen, (trk, snd v)))"

definition keyCapture_accept :: "key_to_capture list \<Rightarrow> kc_marks walker \<Rightarrow> kc_marks walker" where
  "keyCapture_accept keys = accept_with kc_visit_mark (keyCapture_visit keys)"

fun capture_roots :: "tref list \<Rightarrow> kc_state \<Rightarrow> (tref list \<times> kc_state) outcome" where
  "capture_roots [] s = Inr ([], s)"
| "capture_roots (t # ts) s = bindE (captureKey t s) (\<lambda>(r, s).
     bindE (capture_roots ts s) (\<lambda>(rs, s). Inr (r # rs, s)))"

definition capture_top :: "key_to_capture list \<Rightarrow> kc_state \<Rightarrow> kc_state outcome" where
  "capture_top keys s =
     (if list_ex kc_topLevel keys
      then bindE (capture_roots (rootTypes (ps_graph s)) s) (\<lambda>(ts, s).
        Inr (s\<lparr>ps_graph := (ps_graph s)\<lparr>rootTypes := ts\<rparr>\<rparr>))
      else Inr s)"

text \<open>Every second type on the stack of the walk may be one of the new nodes, which are not marked.\<close>

definition kc_depth :: "type_graph \<Rightarrow> nat" where
  "kc_depth g = 2 * length (nodes g) + 2"

definition insertCaptureDataNodes :: "key_to_capture list \<Rightarrow> kc_state \<Rightarrow> kc_state outcome" where
  "insertCaptureDataNodes keys s = bindE (capture_top keys s) (\<lambda>s.
     for_each (recur (keyCapture_accept keys) (kc_depth (ps_graph s))) (rootTypes (ps_graph s)) s)"

definition keyCapture_pass :: "key_to_capture list \<Rightarrow> container_info list \<Rightarrow> type_graph \<Rightarrow> node_tracker \<Rightarrow>
    (type_graph \<times> node_tracker \<times> container_info list) outcome" where
  "keyCapture_pass keys infos g v =
     bindE (insertCaptureDataNodes keys \<lparr>ps_marks = (v, infos), ps_graph = g\<rparr>) (\<lambda>s.
       Inr (ps_graph s, ps_marks s))"

section \<open>Capturing one type\<close>

text \<open>
  What becomes of a reference to \<open>t\<close>: above a container there is a new node whose description is the
  one of the container with \<^verbatim>\<open>captureKeys\<close> set; another type stays.
\<close>

definition captured_ref :: "type_graph \<Rightarrow> type_graph \<Rightarrow> tref \<Rightarrow> tref \<Rightarrow> bool" where
  "captured_ref g0 g t r \<longleftrightarrow> (\<exists>u n. stripTypedefs g0 t = Inr u \<and> deref g0 u = Inr n \<and> (case n of
      Container c \<Rightarrow> \<exists>nm. deref g r = Inr (CaptureKeys \<lparr>ck_underlying = t,
        ck_info = captured_info (co_info c), ck_name = nm\<rparr>)
    | _ \<Rightarrow> r = t))"

text \<open>The growth of the graph by nodes above types that have an identifier.\<close>

definition capture_node :: "type_graph \<Rightarrow> ty \<Rightarrow> bool" where
  "capture_node g n \<longleftrightarrow> (\<exists>ck m. n = CaptureKeys ck \<and> deref g (ck_underlying ck) = Inr m \<and> has_node_id m)"

definition kc_grows :: "kc_state \<Rightarrow> kc_state \<Rightarrow> bool" where
  "kc_grows s s' \<longleftrightarrow> (\<exists>new infos. nodes (ps_graph s') = nodes (ps_graph s) @ new \<and>
     (\<forall>n \<in> set new. capture_node (ps_graph s') n) \<and>
     next_id (ps_graph s') = next_id (ps_graph s) \<and> rootTypes (ps_graph s') = rootTypes (ps_graph s) \<and>
     finalTypes (ps_graph s') = finalTypes (ps_graph s) \<and>
     fst (ps_marks s') = fst (ps_marks s) \<and> snd (ps_marks s') = snd (ps_marks s) @ infos \<and>
     (\<forall>info \<in> set infos. ci_captureKeys info)) \<and>
     (wf_graph (ps_graph s) \<longrightarrow> wf_graph (ps_graph s'))"

lemma kc_grows_refl: "kc_grows s s"
  by (auto simp: kc_grows_def)

lemma kc_growsD:
  assumes "kc_grows s s'"
  shows "deref (ps_graph s) t = Inr n \<Longrightarrow> deref (ps_graph s') t = Inr n"
    "extends (ps_graph s) (ps_graph s')" "fst (ps_marks s') = fst (ps_marks s)"
    "wf_graph (ps_graph s) \<Longrightarrow> wf_graph (ps_graph s')"
    "i < length (nodes (ps_graph s)) \<Longrightarrow> node_at (ps_graph s') i = node_at (ps_graph s) i"
    "finalTypes (ps_graph s') = finalTypes (ps_graph s)"
    "length (nodes (ps_graph s)) \<le> i \<Longrightarrow> i < length (nodes (ps_graph s')) \<Longrightarrow>
       capture_node (ps_graph s') (node_at (ps_graph s') i)"
proof -
  obtain new infos where n: "nodes (ps_graph s') = nodes (ps_graph s) @ new"
    "\<forall>n \<in> set new. capture_node (ps_graph s') n" "next_id (ps_graph s') = next_id (ps_graph s)"
    "rootTypes (ps_graph s') = rootTypes (ps_graph s)" "finalTypes (ps_graph s') = finalTypes (ps_graph s)"
    "fst (ps_marks s') = fst (ps_marks s)" "wf_graph (ps_graph s) \<longrightarrow> wf_graph (ps_graph s')"
    using assms unfolding kc_grows_def by blast
  show "deref (ps_graph s) t = Inr n \<Longrightarrow> deref (ps_graph s') t = Inr n" by (rule deref_append [OF n(1)])
  show old: "i < length (nodes (ps_graph s)) \<Longrightarrow> node_at (ps_graph s') i = node_at (ps_graph s) i" for i
    using n(1) by (simp add: node_at_def nth_append)
  show "length (nodes (ps_graph s)) \<le> i \<Longrightarrow> i < length (nodes (ps_graph s')) \<Longrightarrow>
       capture_node (ps_graph s') (node_at (ps_graph s') i)"
    using n(1,2) by (simp add: node_at_def nth_append)
  show "extends (ps_graph s) (ps_graph s')" using n(1,3,4) old by (simp add: extends_def)
  show "fst (ps_marks s') = fst (ps_marks s)" "finalTypes (ps_graph s') = finalTypes (ps_graph s)"
    using n(5,6) by simp_all
  show "wf_graph (ps_graph s) \<Longrightarrow> wf_graph (ps_graph s')" using n(7) by blast
qed

lemma kc_grows_trans:
  assumes "kc_grows s s'" "kc_grows s' s''"
  shows "kc_grows s s''"
proof -
  obtain new infos where a: "nodes (ps_graph s') = nodes (ps_graph s) @ new"
    "\<forall>n \<in> set new. capture_node (ps_graph s') n" "next_id (ps_graph s') = next_id (ps_graph s)"
    "rootTypes (ps_graph s') = rootTypes (ps_graph s)" "finalTypes (ps_graph s') = finalTypes (ps_graph s)"
    "fst (ps_marks s') = fst (ps_marks s)" "snd (ps_marks s') = snd (ps_marks s) @ infos"
    "\<forall>info \<in> set infos. ci_captureKeys info" "wf_graph (ps_graph s) \<longrightarrow> wf_graph (ps_graph s')"
    using assms(1) unfolding kc_grows_def by blast
  obtain new' infos' where b: "nodes (ps_graph s'') = nodes (ps_graph s') @ new'"
    "\<forall>n \<in> set new'. capture_node (ps_graph s'') n" "next_id (ps_graph s'') = next_id (ps_graph s')"
    "rootTypes (ps_graph s'') = rootTypes (ps_graph s')" "finalTypes (ps_graph s'') = finalTypes (ps_graph s')"
    "fst (ps_marks s'') = fst (ps_marks s')" "snd (ps_marks s'') = snd (ps_marks s') @ infos'"
    "\<forall>info \<in> set infos'. ci_captureKeys info" "wf_graph (ps_graph s') \<longrightarrow> wf_graph (ps_graph s'')"
    using assms(2) unfolding kc_grows_def by blast
  have "\<forall>n \<in> set new. capture_node (ps_graph s'') n"
    using a(2) deref_append [OF b(1)] by (auto simp: capture_node_def)
  then have "\<forall>n \<in> set (new @ new'). capture_node (ps_graph s'') n" using b(2) by auto
  moreover have "\<forall>info \<in> set (infos @ infos'). ci_captureKeys info" using a(8) b(8) by auto
  moreover have "nodes (ps_graph s'') = nodes (ps_graph s) @ new @ new'" using a(1) b(1) by simp
  moreover have "snd (ps_marks s'') = snd (ps_marks s) @ infos @ infos'" using a(7) b(7) by simp
  moreover have "next_id (ps_graph s'') = next_id (ps_graph s) \<and> rootTypes (ps_graph s'') = rootTypes (ps_graph s) \<and>
     finalTypes (ps_graph s'') = finalTypes (ps_graph s) \<and> fst (ps_marks s'') = fst (ps_marks s)"
    using a(3-6) b(3-6) by simp
  ultimately show ?thesis unfolding kc_grows_def using a(9) b(9) by blast
qed

lemma captured_refE:
  assumes "captured_ref g0 g t r"
  obtains (container) u c nm where "stripTypedefs g0 t = Inr u" "deref g0 u = Inr (Container c)"
      "deref g r = Inr (CaptureKeys \<lparr>ck_underlying = t, ck_info = captured_info (co_info c), ck_name = nm\<rparr>)"
  | (other) u n where "stripTypedefs g0 t = Inr u" "deref g0 u = Inr n" "\<And>c. n \<noteq> Container c" "r = t"
proof -
  obtain u n where un: "stripTypedefs g0 t = Inr u" "deref g0 u = Inr n" "case n of
      Container c \<Rightarrow> \<exists>nm. deref g r = Inr (CaptureKeys \<lparr>ck_underlying = t,
        ck_info = captured_info (co_info c), ck_name = nm\<rparr>)
    | _ \<Rightarrow> r = t" using assms unfolding captured_ref_def by blast
  show ?thesis using un by (cases n) (auto intro: container other)
qed

lemma captured_refI:
  "stripTypedefs g0 t = Inr u \<Longrightarrow> deref g0 u = Inr (Container c) \<Longrightarrow>
     deref g r = Inr (CaptureKeys \<lparr>ck_underlying = t, ck_info = captured_info (co_info c), ck_name = nm\<rparr>) \<Longrightarrow>
     captured_ref g0 g t r"
  "stripTypedefs g0 t = Inr u \<Longrightarrow> deref g0 u = Inr n \<Longrightarrow> (\<And>c. n \<noteq> Container c) \<Longrightarrow> captured_ref g0 g t t"
  unfolding captured_ref_def by (auto split: ty.splits)

lemma captured_ref_grows:
  assumes "captured_ref g0 (ps_graph s) t r" "kc_grows s s'"
  shows "captured_ref g0 (ps_graph s') t r"
  using assms(1)
proof (cases rule: captured_refE)
  case (container u c nm)
  show ?thesis by (rule captured_refI(1) [OF container(1,2) kc_growsD(1) [OF assms(2) container(3)]])
next
  case (other u n)
  show ?thesis unfolding other(4) by (rule captured_refI(2) [OF other(1-3)])
qed

text \<open>The graph the pass works on has changed in classes and at its end only.\<close>

definition same_or_class :: "ty \<Rightarrow> ty \<Rightarrow> bool" where
  "same_or_class n n' \<longleftrightarrow> n' = n \<or> (\<exists>c c'. n = Class c \<and> n' = Class c')"

definition kc_base :: "type_graph \<Rightarrow> kc_state \<Rightarrow> bool" where
  "kc_base g0 s \<longleftrightarrow> wf_refs g0 \<and> typedefs_end g0 \<and> wf_graph (ps_graph s) \<and>
     (\<forall>i < length (nodes g0). i < length (nodes (ps_graph s)) \<and> same_or_class (node_at g0 i) (node_at (ps_graph s) i))"

lemma kc_base_grows:
  assumes "kc_base g0 s" "kc_grows s s'"
  shows "kc_base g0 s'"
proof -
  have "length (nodes (ps_graph s)) \<le> length (nodes (ps_graph s'))"
    using kc_growsD(2) [OF assms(2)] by (simp add: extends_def)
  moreover have "wf_graph (ps_graph s')" using assms kc_growsD(4) by (simp add: kc_base_def)
  ultimately show ?thesis
    using assms(1) kc_growsD(5) [OF assms(2)] unfolding kc_base_def by (metis order_less_le_trans)
qed

lemma kc_base_deref:
  assumes "kc_base g0 s" "deref g0 u = Inr n"
  shows "\<exists>n'. deref (ps_graph s) u = Inr n' \<and> same_or_class n n'"
proof (cases u)
  case (NodeRef i)
  note own = deref_owned [OF assms(2) [unfolded NodeRef]]
  then show ?thesis using assms(1) NodeRef by (auto simp: kc_base_def)
qed (use assms(2) in \<open>simp add: same_or_class_def\<close>)

lemma kc_base_strip:
  assumes "kc_base g0 s" "in_graph g0 t"
  obtains u n n' where "stripTypedefs g0 t = Inr u" "stripTypedefs (ps_graph s) t = Inr u" "deref g0 u = Inr n"
    "deref (ps_graph s) u = Inr n'" "same_or_class n n'"
proof -
  have "stripTypedefs g0 t \<noteq> Inl Diverge" "wf_refs g0"
    using assms by (auto simp: kc_base_def typedefs_end_def)
  then obtain u where u: "stripTypedefs g0 t = Inr u" "in_graph g0 u"
    using strip_upto [OF _ assms(2)] unfolding stripTypedefs_def by blast
  have "typedef_nxt (node_at (ps_graph s) i) = typedef_nxt (node_at g0 i)" if "i < length (nodes g0)" for i
    using assms(1) that by (auto simp: kc_base_def same_or_class_def)
  then have "stripTypedefs (ps_graph s) t = Inr u"
    using strip_cong [OF \<open>wf_refs g0\<close> assms(2), of "ps_graph s"] assms(1) u(1) by (simp add: kc_base_def)
  moreover obtain n where "deref g0 u = Inr n" using deref_in_graph [OF u(2)] by blast
  moreover from this obtain n' where "deref (ps_graph s) u = Inr n'" "same_or_class n n'"
    using kc_base_deref [OF assms(1)] by blast
  ultimately show ?thesis using that u(1) by blast
qed

lemma typedef_or_container:
  assumes "stripTypedefs g t = Inr u" "deref g u = Inr (Container c)"
  shows "\<exists>m. deref g t = Inr m \<and> has_node_id m"
proof -
  obtain m where m: "deref g t = Inr m"
    using assms(1) stripTypedefs_unfold [of g t] by (cases "deref g t") (auto simp: stripTypedefs_body_def)
  then show ?thesis
    using assms stripTypedefs_unfold [of g t] by (cases m) (auto simp: stripTypedefs_body_def)
qed

lemma captureKey_new:
  assumes base: "kc_base g0 s" and t: "in_graph g0 t"
  shows "\<exists>r s'. captureKey t s = Inr (r, s') \<and> kc_grows s s' \<and> captured_ref g0 (ps_graph s') t r \<and>
    in_graph (ps_graph s') r"
proof -
  obtain u n n' where u: "stripTypedefs g0 t = Inr u" "stripTypedefs (ps_graph s) t = Inr u"
    "deref g0 u = Inr n" "deref (ps_graph s) u = Inr n'" "same_or_class n n'"
    by (rule kc_base_strip [OF base t])
  have wf: "wf_graph (ps_graph s)" using base by (simp add: kc_base_def)
  have t': "in_graph (ps_graph s) t" using base t by (cases t) (auto simp: kc_base_def)
  show ?thesis
  proof (cases "\<exists>c. n = Container c")
    case True
    then obtain c where c: "n = Container c" "n' = Container c" using u(5) by (auto simp: same_or_class_def)
    obtain nm where nm: "capture_keys_name (ps_graph s) t = Inr nm"
      using type_name_ok [OF _ t'] wf by (auto simp: capture_keys_name_def wf_graph_def)
    define k where "k = CaptureKeys \<lparr>ck_underlying = t, ck_info = captured_info (co_info c), ck_name = nm\<rparr>"
    define g where "g = (ps_graph s)\<lparr>nodes := nodes (ps_graph s) @ [k]\<rparr>"
    define s' where "s' = s\<lparr>ps_marks := (fst (ps_marks s), snd (ps_marks s) @ [captured_info (co_info c)]), ps_graph := g\<rparr>"
    have run: "captureKey t s = Inr (NodeRef (length (nodes (ps_graph s))), s')"
      using u(2,4) c(2) nm
      by (simp add: captureKey_def make_capture_keys_def make_type_noid_def Let_def s'_def g_def k_def)
    have new: "nodes (ps_graph s') = nodes (ps_graph s) @ [k]" by (simp add: s'_def g_def)
    have k: "deref (ps_graph s') (NodeRef (length (nodes (ps_graph s)))) = Inr k"
      using new by (simp add: deref.simps)
    obtain m where "deref (ps_graph s) t = Inr m" "has_node_id m"
      using typedef_or_container [OF u(2)] u(4) c(2) by blast
    then have "capture_node (ps_graph s') k"
      using deref_append [OF new] by (auto simp: capture_node_def k_def)
    moreover have "wf_graph g"
      by (rule append_wf [OF wf _ _ _ g_def]) (use t' in \<open>simp_all add: k_def\<close>)
    ultimately have "kc_grows s s'"
      unfolding kc_grows_def by (auto simp: new) (simp_all add: s'_def g_def captured_info_def)
    moreover have "captured_ref g0 (ps_graph s') t (NodeRef (length (nodes (ps_graph s))))"
      by (rule captured_refI(1) [OF u(1) u(3) [unfolded c(1)] k [unfolded k_def]])
    ultimately show ?thesis using run new by simp
  next
    case False
    then have "n' \<noteq> Container c" for c using u(5) by (auto simp: same_or_class_def)
    then have "captureKey t s = Inr (t, s)" using u(2,4) by (auto simp: captureKey_def split: ty.splits)
    moreover have "captured_ref g0 (ps_graph s) t t"
      by (rule captured_refI(2) [OF u(1,3)]) (use False in blast)
    ultimately show ?thesis using t' kc_grows_refl by blast
  qed
qed

text \<open>Capturing twice is capturing once.\<close>

lemma captureKey_again:
  assumes base: "kc_base g0 s" and t: "in_graph g0 t" and r: "captured_ref g0 (ps_graph s) t r"
  shows "captureKey r s = Inr (r, s)"
  using r
proof (cases rule: captured_refE)
  case (container u c nm)
  then have "stripTypedefs (ps_graph s) r = Inr r"
    using stripTypedefs_unfold [of "ps_graph s" r] by (simp add: stripTypedefs_body_def)
  then show ?thesis using container(3) by (simp add: captureKey_def)
next
  case (other u n)
  obtain u' m n' where u': "stripTypedefs g0 t = Inr u'" "stripTypedefs (ps_graph s) t = Inr u'"
    "deref g0 u' = Inr m" "deref (ps_graph s) u' = Inr n'" "same_or_class m n'"
    by (rule kc_base_strip [OF base t])
  then have "m = n" using other(1,2) by simp
  then have "n' \<noteq> Container c" for c using u'(5) other(3) by (auto simp: same_or_class_def)
  then show ?thesis using u'(2,4) other(4) by (auto simp: captureKey_def split: ty.splits)
qed

section \<open>Capturing members\<close>

lemma list_all2_source: "list_all2 P xs ys \<Longrightarrow> y \<in> set ys \<Longrightarrow> \<exists>x \<in> set xs. P x y"
  by (induction rule: list_all2_induct) auto

text \<open>A member is replaced when its name is hit, by a copy of the other type.\<close>

definition captured_member :: "type_graph \<Rightarrow> type_graph \<Rightarrow> (string \<Rightarrow> bool) \<Rightarrow> member \<Rightarrow> member \<Rightarrow> bool" where
  "captured_member g0 g hit m m' \<longleftrightarrow>
     (if hit (m_name m) then \<exists>r. m' = copy_member r m \<and> captured_ref g0 g (m_type m) r else m' = m)"

definition hits :: "key_to_capture list \<Rightarrow> string \<Rightarrow> string \<Rightarrow> bool" where
  "hits keys name mem = list_ex (\<lambda>k. kc_type k = Some name \<and> kc_member k = Some mem) keys"

definition keeps_captures :: "type_graph \<Rightarrow> type_graph \<Rightarrow> bool" where
  "keeps_captures g g' \<longleftrightarrow> (\<forall>r ck. deref g r = Inr (CaptureKeys ck) \<longrightarrow> deref g' r = Inr (CaptureKeys ck))"

lemma captured_ref_keeps:
  assumes "captured_ref g0 g t r" "keeps_captures g g'"
  shows "captured_ref g0 g' t r"
  using assms(1)
proof (cases rule: captured_refE)
  case (container u c nm)
  then show ?thesis
    using assms(2) captured_refI(1) [OF container(1,2)] unfolding keeps_captures_def by blast
next
  case (other u n)
  show ?thesis unfolding other(4) by (rule captured_refI(2) [OF other(1-3)])
qed

lemma captured_members_keep:
  "list_all2 (captured_member g0 g hit) ms ms' \<Longrightarrow> keeps_captures g g' \<Longrightarrow>
   list_all2 (captured_member g0 g' hit) ms ms'"
  using captured_ref_keeps by (fastforce elim!: list_all2_mono simp: captured_member_def)

lemma grows_keeps: "kc_grows s s' \<Longrightarrow> keeps_captures (ps_graph s) (ps_graph s')"
  using kc_growsD(1) by (simp add: keeps_captures_def)

lemma copy_copy [simp]: "copy_member r (copy_member r' m) = copy_member r m" "m_name (copy_member r m) = m_name m"
  "m_type (copy_member r m) = r"
  by (simp_all add: copy_member_def)

lemma captured_ref_in_graph:
  assumes "kc_base g0 s" "in_graph g0 t" "captured_ref g0 (ps_graph s) t r"
  shows "in_graph (ps_graph s) r"
  using assms(3)
proof (cases rule: captured_refE)
  case (container u c nm)
  then show ?thesis using id_owner deref_owner [OF container(3)] by force
next
  case (other u n)
  then show ?thesis using assms(1,2) by (cases t) (auto simp: kc_base_def)
qed

lemma capture_members_spec:
  assumes "kc_base g0 s" "list_all2 (captured_member g0 (ps_graph s) hit) ms0 ms" "\<forall>m \<in> set ms0. in_graph g0 (m_type m)"
  shows "\<exists>ms' s'. capture_members name ms s = Inr (ms', s') \<and> kc_grows s s' \<and>
    list_all2 (captured_member g0 (ps_graph s') (\<lambda>x. hit x \<or> x = name)) ms0 ms'"
  using assms
proof (induction ms arbitrary: ms0 s)
  case Nil
  then show ?case using kc_grows_refl by simp
next
  case (Cons m ms)
  obtain m0 ms0' where ms0: "ms0 = m0 # ms0'" "captured_member g0 (ps_graph s) hit m0 m"
    "list_all2 (captured_member g0 (ps_graph s) hit) ms0' ms" "in_graph g0 (m_type m0)"
    "\<forall>m \<in> set ms0'. in_graph g0 (m_type m)"
    using Cons.prems(2,3) by (auto simp: list_all2_Cons2)
  have name: "m_name m = m_name m0"
    using ms0(2) by (auto simp: captured_member_def split: if_splits)
  let ?hit = "\<lambda>x. hit x \<or> x = name"
  have "\<exists>m' s1. (if m_name m \<noteq> name then Inr (m, s)
            else bindE (captureKey (m_type m) s) (\<lambda>(r, s). Inr (copy_member r m, s))) = Inr (m', s1) \<and>
      kc_grows s s1 \<and> captured_member g0 (ps_graph s1) ?hit m0 m'"
  proof (cases "m_name m = name")
    case False
    then have "captured_member g0 (ps_graph s) ?hit m0 m" using ms0(2) name by (simp add: captured_member_def)
    then show ?thesis using False kc_grows_refl by auto
  next
    case True
    show ?thesis
    proof (cases "hit (m_name m0)")
      case h: True
      then obtain r where r: "m = copy_member r m0" "captured_ref g0 (ps_graph s) (m_type m0) r"
        using ms0(2) by (auto simp: captured_member_def)
      then have "captureKey (m_type m) s = Inr (r, s)"
        using captureKey_again [OF Cons.prems(1) ms0(4) r(2)] by simp
      then show ?thesis using True h r kc_grows_refl by (auto simp: captured_member_def)
    next
      case h: False
      then have "m = m0" using ms0(2) by (simp add: captured_member_def)
      then show ?thesis
        using True name captureKey_new [OF Cons.prems(1) ms0(4)] by (auto simp: captured_member_def)
    qed
  qed
  then obtain m' s1 where m': "(if m_name m \<noteq> name then Inr (m, s)
      else bindE (captureKey (m_type m) s) (\<lambda>(r, s). Inr (copy_member r m, s))) = Inr (m', s1)"
    "kc_grows s s1" "captured_member g0 (ps_graph s1) ?hit m0 m'" by blast
  have "list_all2 (captured_member g0 (ps_graph s1) hit) ms0' ms"
    using captured_members_keep [OF ms0(3) grows_keeps [OF m'(2)]] .
  from Cons.IH [OF kc_base_grows [OF Cons.prems(1) m'(2)] this ms0(5)]
  obtain ms' s2 where ms': "capture_members name ms s1 = Inr (ms', s2)" "kc_grows s1 s2"
    "list_all2 (captured_member g0 (ps_graph s2) ?hit) ms0' ms'" by blast
  have "list_all2 (captured_member g0 (ps_graph s2) ?hit) [m0] [m']"
    using captured_members_keep [of g0 "ps_graph s1" ?hit "[m0]" "[m']"] m'(3) grows_keeps [OF ms'(2)] by simp
  then show ?case
    using m'(1) ms' kc_grows_trans [OF m'(2) ms'(2)] ms0(1) by simp
qed

lemma capture_keys_spec:
  assumes "kc_base g0 s" "list_all2 (captured_member g0 (ps_graph s) hit) ms0 ms" "\<forall>m \<in> set ms0. in_graph g0 (m_type m)"
  shows "\<exists>ms' s'. capture_keys keys name ms s = Inr (ms', s') \<and> kc_grows s s' \<and>
    list_all2 (captured_member g0 (ps_graph s') (\<lambda>x. hit x \<or> hits keys name x)) ms0 ms'"
  using assms
proof (induction keys arbitrary: hit ms s)
  case Nil
  then show ?case using kc_grows_refl by (auto simp: hits_def)
next
  case (Cons k keys)
  show ?case
  proof (cases "kc_type k = Some name \<and> kc_member k \<noteq> None")
    case False
    then have "hits (k # keys) name = hits keys name" by (auto simp: hits_def)
    then show ?thesis using False Cons.IH [OF Cons.prems] by (auto split: option.splits)
  next
    case True
    then obtain mem where mem: "kc_type k = Some name" "kc_member k = Some mem" by blast
    obtain ms1 s1 where 1: "capture_members mem ms s = Inr (ms1, s1)" "kc_grows s s1"
      "list_all2 (captured_member g0 (ps_graph s1) (\<lambda>x. hit x \<or> x = mem)) ms0 ms1"
      using capture_members_spec [OF Cons.prems] by blast
    obtain ms2 s2 where 2: "capture_keys keys name ms1 s1 = Inr (ms2, s2)" "kc_grows s1 s2"
      "list_all2 (captured_member g0 (ps_graph s2) (\<lambda>x. (hit x \<or> x = mem) \<or> hits keys name x)) ms0 ms2"
      using Cons.IH [OF kc_base_grows [OF Cons.prems(1) 1(2)] 1(3) Cons.prems(3)] by blast
    have "(\<lambda>x. (hit x \<or> x = mem) \<or> hits keys name x) = (\<lambda>x. hit x \<or> hits (k # keys) name x)"
      using mem by (auto simp: hits_def)
    then show ?thesis using mem 1(1) 2 kc_grows_trans [OF 1(2) 2(2)] by simp
  qed
qed

section \<open>The walk\<close>

definition kc_done :: "key_to_capture list \<Rightarrow> type_graph \<Rightarrow> type_graph \<Rightarrow> ty \<Rightarrow> ty \<Rightarrow> bool" where
  "kc_done keys g0 g n n' \<longleftrightarrow> (case n of
      Class c \<Rightarrow> \<exists>ms. n' = Class (c\<lparr>cl_members := ms\<rparr>) \<and>
        list_all2 (captured_member g0 g (hits keys (cl_name c))) (cl_members c) ms
    | _ \<Rightarrow> n' = n)"

definition kc_start :: "type_graph \<Rightarrow> bool" where
  "kc_start g \<longleftrightarrow> wf_graph g \<and> typedefs_end g \<and>
     (\<forall>i < length (nodes g). \<forall>ck. node_at g i = CaptureKeys ck \<longrightarrow> capture_node g (node_at g i))"

definition kc_ok :: "key_to_capture list \<Rightarrow> type_graph \<Rightarrow> kc_state \<Rightarrow> bool" where
  "kc_ok keys g0 s \<longleftrightarrow> kc_start g0 \<and> wf_graph (ps_graph s) \<and> extends g0 (ps_graph s) \<and>
     finalTypes (ps_graph s) = finalTypes g0 \<and>
     (\<forall>i < length (nodes (ps_graph s)). length (nodes g0) \<le> i \<longrightarrow> capture_node (ps_graph s) (node_at (ps_graph s) i)) \<and>
     (\<forall>i < length (nodes g0). if tracked (fst (ps_marks s)) (type_id (node_at g0 i))
        then kc_done keys g0 (ps_graph s) (node_at g0 i) (node_at (ps_graph s) i)
        else node_at (ps_graph s) i = node_at g0 i)"

definition kc_frame :: "kc_state \<Rightarrow> kc_state \<Rightarrow> bool" where
  "kc_frame s s' \<longleftrightarrow> (\<exists>infos. snd (ps_marks s') = snd (ps_marks s) @ infos \<and> (\<forall>info \<in> set infos. ci_captureKeys info))"

definition kc_rank :: "type_graph \<Rightarrow> tref \<Rightarrow> kc_state \<Rightarrow> nat" where
  "kc_rank g0 t s = 2 * card {i. i < length (nodes g0) \<and> has_node_id (node_at g0 i) \<and>
     \<not> tracked (fst (ps_marks s)) (type_id (node_at g0 i))} +
     (case deref (ps_graph s) t of Inl e \<Rightarrow> 0 | Inr n \<Rightarrow> if has_node_id n then 0 else 1)"

definition kc_step :: "key_to_capture list \<Rightarrow> tref \<Rightarrow> kc_state \<Rightarrow> (tref list \<times> kc_state) outcome" where
  "kc_step keys t s = bindE (deref (ps_graph s) t) (\<lambda>n.
     let s = s\<lparr>ps_marks := (snd (tracker_visit (type_id n) (fst (ps_marks s))), snd (ps_marks s))\<rparr> in
     case n of
       Class c \<Rightarrow> bindE (capture_keys keys (cl_name c) (cl_members c) s) (\<lambda>(ms, s).
         let n = Class (c\<lparr>cl_members := ms\<rparr>) in Inr (succs n, put_ty t n s))
     | _ \<Rightarrow> Inr (succs n, s))"

lemma kc_done_same: "kc_done keys g0 g n n' \<Longrightarrow> same_or_class n n'"
  by (cases n) (auto simp: kc_done_def same_or_class_def)

lemma kc_done_keeps:
  "kc_done keys g0 g n n' \<Longrightarrow> keeps_captures g g' \<Longrightarrow> kc_done keys g0 g' n n'"
  using captured_members_keep by (cases n) (fastforce simp: kc_done_def)+

lemma kc_ok_base: "kc_ok keys g0 s \<Longrightarrow> kc_base g0 s"
  using kc_done_same unfolding kc_ok_def kc_start_def kc_base_def extends_def wf_graph_def same_or_class_def
  by (metis order_less_le_trans)

lemma capture_node_extends: "capture_node g n \<Longrightarrow> extends g g' \<Longrightarrow> capture_node g' n"
  using extends_refs_keep by (fastforce simp: capture_node_def)

lemma kc_body:
  assumes "deref (ps_graph s) t = Inr n"
  shows "keyCapture_accept keys call t s = (if tracked (fst (ps_marks s)) (type_id n) then Inr s
    else bindE (kc_step keys t s) (\<lambda>(ts, s1). for_each call ts s1))"
proof -
  obtain b v where v: "tracker_visit (type_id n) (fst (ps_marks s)) = (b, v)"
    by (cases "tracker_visit (type_id n) (fst (ps_marks s))")
  have b: "b = tracked (fst (ps_marks s)) (type_id n)"
    using tracker_visit_result [of "type_id n" "fst (ps_marks s)"] v by simp
  have same: "s\<lparr>ps_marks := (v, snd (ps_marks s))\<rparr> = s" if "b"
    using tracker_visit_again [of "fst (ps_marks s)" "type_id n"] that b v by simp
  have "get_ty t (s\<lparr>ps_marks := m\<rparr>) = Inr n" for m using assms by (simp add: get_ty_def)
  then show ?thesis
    using assms v b same
    by (cases n) (simp_all add: keyCapture_accept_def accept_with_def kc_visit_mark_def trk_visit_def
      keyCapture_visit_def kc_step_def recursive_visit_succs Let_def bindE_assoc case_prod_unfold)
qed

lemma kc_step_class:
  assumes ok: "kc_ok keys g0 s" and i: "i < length (nodes g0)" "node_at g0 i = Class c" "node_at (ps_graph s) i = Class c"
    and new: "\<not> tracked (fst (ps_marks s)) (type_id (Class c))"
  shows "\<exists>ms s1. kc_step keys (NodeRef i) s = Inr (succs (Class (c\<lparr>cl_members := ms\<rparr>)), s1) \<and> kc_ok keys g0 s1 \<and>
    kc_frame s s1 \<and> extends (ps_graph s) (ps_graph s1) \<and>
    fst (ps_marks s1) = snd (tracker_visit (type_id (Class c)) (fst (ps_marks s))) \<and>
    (\<forall>j < length (nodes (ps_graph s)). j \<noteq> i \<longrightarrow> node_at (ps_graph s1) j = node_at (ps_graph s) j) \<and>
    node_at (ps_graph s1) i = Class (c\<lparr>cl_members := ms\<rparr>)"
proof -
  let ?s = "s\<lparr>ps_marks := (snd (tracker_visit (type_id (Class c)) (fst (ps_marks s))), snd (ps_marks s))\<rparr>"
  have base: "kc_base g0 ?s" using kc_ok_base [OF ok] by (simp add: kc_base_def)
  have wf0: "wf_refs g0" "wf_ids g0" using ok by (simp_all add: kc_ok_def kc_start_def wf_graph_def)
  have members: "\<forall>m \<in> set (cl_members c). in_graph g0 (m_type m)"
    using wf_refsD [OF wf0(1) i(1)] i(2) by auto
  have "list_all2 (captured_member g0 (ps_graph ?s) (\<lambda>x. False)) (cl_members c) (cl_members c)"
    by (simp add: captured_member_def list_all2_refl)
  from capture_keys_spec [OF base this members, of keys "cl_name c"]
  obtain ms s2 where ms: "capture_keys keys (cl_name c) (cl_members c) ?s = Inr (ms, s2)" "kc_grows ?s s2"
    "list_all2 (captured_member g0 (ps_graph s2) (hits keys (cl_name c))) (cl_members c) ms" by auto
  let ?n = "Class (c\<lparr>cl_members := ms\<rparr>)"
  let ?s1 = "put_ty (NodeRef i) ?n s2"
  have len: "length (nodes g0) \<le> length (nodes (ps_graph s))" using ok by (simp add: kc_ok_def extends_def)
  have len2: "length (nodes (ps_graph s)) \<le> length (nodes (ps_graph s2))"
    using kc_growsD(2) [OF ms(2)] by (simp add: extends_def)
  have i': "i < length (nodes (ps_graph s))" "i < length (nodes (ps_graph s2))" using i(1) len len2 by simp_all
  have old: "node_at (ps_graph s2) j = node_at (ps_graph s) j" if "j < length (nodes (ps_graph s))" for j
    using kc_growsD(5) [OF ms(2)] that by simp
  have d2: "deref (ps_graph s2) (NodeRef i) = Inr (Class c)" using i' i(3) old by simp
  have at1: "node_at (ps_graph ?s1) j = (if i = j then ?n else node_at (ps_graph s2) j)" for j
    using i'(2) by (simp add: put_ty_def)
  have wf2: "wf_graph (ps_graph s2)" using kc_growsD(4) [OF ms(2)] ok by (simp add: kc_ok_def)
  have base2: "kc_base g0 s2" using kc_base_grows [OF base ms(2)] .
  have wf1: "wf_graph (ps_graph ?s1)"
    unfolding put_ty_def pass_state.simps
  proof (simp, rule wf_graph_put [OF wf2 d2])
    have "in_graph (ps_graph s2) (m_type m')" if m': "m' \<in> set ms" for m'
    proof -
      obtain m where m: "m \<in> set (cl_members c)" "captured_member g0 (ps_graph s2) (hits keys (cl_name c)) m m'"
        using list_all2_source [OF ms(3) m'] by blast
      have "in_graph g0 (m_type m)" using members m(1) by blast
      moreover have "in_graph (ps_graph s2) t" if "in_graph g0 t" for t
        using base2 that by (cases t) (auto simp: kc_base_def)
      ultimately show ?thesis
        using m(2) captured_ref_in_graph [OF base2, of "m_type m"]
        by (auto simp: captured_member_def split: if_splits)
    qed
    then show "\<forall>u \<in> set (refs ?n). in_graph (ps_graph s2) u"
      using refs_in_graph [OF wf2 d2] by auto
    show "\<exists>d. deref (ps_graph s2) u = Inr (Class d)" if "?n = Class c'" "u \<in> set (cl_children c')" for c' u
    proof -
      have "Class c \<in> set (nodes (ps_graph s2))" using i'(2) i(3) old [OF i'(1)] nth_mem by (metis node_at_def)
      then show ?thesis using that wf2 unfolding wf_graph_def wf_children_def by auto
    qed
  qed simp_all
  have ext2: "extends (ps_graph s2) (ps_graph ?s1)"
    unfolding put_ty_def using extends_put [OF d2] by simp
  have ext: "extends (ps_graph s) (ps_graph ?s1)"
    using kc_growsD(2) [OF ms(2)] extends_trans [OF _ ext2] by simp
  have keeps2: "keeps_captures (ps_graph s2) (ps_graph ?s1)"
    unfolding keeps_captures_def
  proof (intro allI impI)
    fix r ck assume r: "deref (ps_graph s2) r = Inr (CaptureKeys ck)"
    obtain j where j: "r = NodeRef j" "j < length (nodes (ps_graph s2))" "node_at (ps_graph s2) j = CaptureKeys ck"
      using deref_owner [OF r] by auto
    then have "i \<noteq> j" using old [OF i'(1)] i(3) by auto
    then show "deref (ps_graph ?s1) r = Inr (CaptureKeys ck)" using j at1 by (simp add: put_ty_def)
  qed
  have keeps: "keeps_captures (ps_graph s) (ps_graph ?s1)"
    using grows_keeps [OF ms(2)] keeps2 unfolding keeps_captures_def by simp
  have marks: "fst (ps_marks ?s1) = snd (tracker_visit (type_id (Class c)) (fst (ps_marks s)))"
    using kc_growsD(3) [OF ms(2)] by simp
  have "kc_ok keys g0 ?s1"
    unfolding kc_ok_def
  proof (intro conjI allI impI)
    show "kc_start g0" "wf_graph (ps_graph ?s1)" using ok wf1 by (simp_all add: kc_ok_def)
    show "extends g0 (ps_graph ?s1)" using ok extends_trans [OF _ ext] by (simp add: kc_ok_def)
    show "finalTypes (ps_graph ?s1) = finalTypes g0"
      using ok kc_growsD(6) [OF ms(2)] by (simp add: put_ty_def kc_ok_def)
    fix j
    show "capture_node (ps_graph ?s1) (node_at (ps_graph ?s1) j)"
      if j: "j < length (nodes (ps_graph ?s1))" "length (nodes g0) \<le> j"
    proof -
      have "capture_node (ps_graph s2) (node_at (ps_graph s2) j)"
      proof (cases "j < length (nodes (ps_graph s))")
        case True
        then have "capture_node (ps_graph s) (node_at (ps_graph s) j)" using ok j(2) by (simp add: kc_ok_def)
        then show ?thesis using old [OF True] capture_node_extends kc_growsD(2) [OF ms(2)] by simp
      next
        case False
        then show ?thesis using kc_growsD(7) [OF ms(2), of j] j(1) by (simp add: put_ty_def)
      qed
      then show ?thesis using capture_node_extends [OF _ ext2] at1 i(1) j(2) by auto
    qed
    assume j: "j < length (nodes g0)"
    have j': "j < length (nodes (ps_graph s))" using j len by simp
    have ids: "type_id (node_at g0 j) = type_id (Class c) \<longleftrightarrow> i = j" if "0 \<le> type_id (Class c)"
    proof -
      have "has_node_id (node_at g0 j)" if "type_id (node_at g0 j) = type_id (Class c)"
        using that \<open>0 \<le> type_id (Class c)\<close> type_id_noid by fastforce
      then show ?thesis using wf_idsD(3) [OF wf0(2) i(1) _ j] i(2) by auto
    qed
    have tr: "tracked (fst (ps_marks ?s1)) (type_id (node_at g0 j)) \<longleftrightarrow>
        tracked (fst (ps_marks s)) (type_id (node_at g0 j)) \<or> i = j \<and> 0 \<le> type_id (Class c)"
      unfolding marks tracker_visit_tracked using ids by auto
    have pos: "0 \<le> type_id (Class c)" using wf_idsD(1) [OF wf0(2) i(1)] i(2) by simp
    show "if tracked (fst (ps_marks ?s1)) (type_id (node_at g0 j))
        then kc_done keys g0 (ps_graph ?s1) (node_at g0 j) (node_at (ps_graph ?s1) j)
        else node_at (ps_graph ?s1) j = node_at g0 j"
    proof (cases "i = j")
      case True
      have "kc_done keys g0 (ps_graph ?s1) (Class c) ?n"
        using captured_members_keep [OF ms(3) keeps2] by (auto simp: kc_done_def)
      then show ?thesis using True tr pos at1 i(2) by simp
    next
      case False
      then have "node_at (ps_graph ?s1) j = node_at (ps_graph s) j" using at1 old [OF j'] by simp
      moreover have "if tracked (fst (ps_marks s)) (type_id (node_at g0 j))
        then kc_done keys g0 (ps_graph s) (node_at g0 j) (node_at (ps_graph s) j)
        else node_at (ps_graph s) j = node_at g0 j" using ok j by (simp add: kc_ok_def)
      ultimately show ?thesis using tr False kc_done_keeps [OF _ keeps] by (auto split: if_splits)
    qed
  qed
  moreover have "kc_frame s ?s1" using ms(2) by (auto simp: kc_grows_def kc_frame_def)
  moreover have "kc_step keys (NodeRef i) s = Inr (succs ?n, ?s1)"
    using ms(1) i' i(3) by (simp add: kc_step_def Let_def)
  moreover have "\<forall>j < length (nodes (ps_graph s)). j \<noteq> i \<longrightarrow> node_at (ps_graph ?s1) j = node_at (ps_graph s) j"
    using at1 old by auto
  ultimately show ?thesis using ext marks at1 by (intro exI [of _ ms] exI [of _ ?s1]) simp
qed

lemma kc_ok_deref:
  assumes ok: "kc_ok keys g0 s" and n: "deref (ps_graph s) t = Inr n" "has_node_id n"
    "\<not> tracked (fst (ps_marks s)) (type_id n)"
  obtains i where "t = NodeRef i" "i < length (nodes g0)" "node_at g0 i = n" "node_at (ps_graph s) i = n"
proof -
  obtain i where i: "t = NodeRef i" "i < length (nodes (ps_graph s))" "node_at (ps_graph s) i = n"
    using id_owner [OF n(1,2)] .
  have "i < length (nodes g0)"
  proof (rule ccontr)
    assume "\<not> i < length (nodes g0)"
    then have "capture_node (ps_graph s) n" using ok i(2,3) by (auto simp: kc_ok_def)
    then show False using n(2) by (auto simp: capture_node_def)
  qed
  moreover from this have "type_id (node_at g0 i) = type_id n"
    using ok i(3) extends_ctor(2) [of g0 "ps_graph s" i] by (simp add: kc_ok_def)
  ultimately have "node_at g0 i = n"
    using ok n(3) i(3) by (auto simp: kc_ok_def split: if_splits)
  then show ?thesis using that i \<open>i < length (nodes g0)\<close> by blast
qed

lemma kc_step_other:
  assumes ok: "kc_ok keys g0 s" and n: "deref (ps_graph s) t = Inr n" "\<And>c. n \<noteq> Class c"
    and new: "\<not> tracked (fst (ps_marks s)) (type_id n)"
  shows "\<exists>s1. kc_step keys t s = Inr (succs n, s1) \<and> kc_ok keys g0 s1 \<and> ps_graph s1 = ps_graph s \<and>
    fst (ps_marks s1) = snd (tracker_visit (type_id n) (fst (ps_marks s))) \<and> snd (ps_marks s1) = snd (ps_marks s)"
proof -
  let ?s1 = "s\<lparr>ps_marks := (snd (tracker_visit (type_id n) (fst (ps_marks s))), snd (ps_marks s))\<rparr>"
  have run: "kc_step keys t s = Inr (succs n, ?s1)"
    using n by (auto simp: kc_step_def Let_def split: ty.splits)
  have "if tracked (fst (ps_marks ?s1)) (type_id (node_at g0 j))
      then kc_done keys g0 (ps_graph s) (node_at g0 j) (node_at (ps_graph s) j)
      else node_at (ps_graph s) j = node_at g0 j" if j: "j < length (nodes g0)" for j
  proof -
    have o: "if tracked (fst (ps_marks s)) (type_id (node_at g0 j))
      then kc_done keys g0 (ps_graph s) (node_at g0 j) (node_at (ps_graph s) j)
      else node_at (ps_graph s) j = node_at g0 j" using ok j by (simp add: kc_ok_def)
    have "kc_done keys g0 (ps_graph s) (node_at g0 j) (node_at (ps_graph s) j)"
      if tid: "type_id (node_at g0 j) = type_id n" "0 \<le> type_id n"
    proof -
      have hn: "has_node_id n" "has_node_id (node_at g0 j)" using tid type_id_noid by fastforce+
      obtain i where i: "i < length (nodes g0)" "node_at g0 i = n" "node_at (ps_graph s) i = n"
        using kc_ok_deref [OF ok n(1) hn(1) new] by blast
      have "wf_ids g0" using ok by (simp add: kc_ok_def kc_start_def wf_graph_def)
      then have "i = j" using wf_idsD(3) i(1,2) j hn tid by metis
      then show ?thesis using i n(2) by (auto simp: kc_done_def split: ty.splits)
    qed
    then show ?thesis using o by (auto simp: tracker_visit_tracked split: if_splits)
  qed
  then have "kc_ok keys g0 ?s1" using ok by (simp add: kc_ok_def)
  then show ?thesis using run by simp
qed

text \<open>Both cases of a step at once.\<close>

lemma kc_step_spec:
  assumes ok: "kc_ok keys g0 s" and n: "deref (ps_graph s) t = Inr n"
    and new: "\<not> tracked (fst (ps_marks s)) (type_id n)"
  shows "\<exists>ts s1 n1. kc_step keys t s = Inr (ts, s1) \<and> kc_ok keys g0 s1 \<and> kc_frame s s1 \<and>
    extends (ps_graph s) (ps_graph s1) \<and>
    (\<forall>nid. tracked (fst (ps_marks s1)) nid \<longleftrightarrow> tracked (fst (ps_marks s)) nid \<or> nid = type_id n \<and> 0 \<le> nid) \<and>
    (\<forall>i < length (nodes (ps_graph s)). NodeRef i \<noteq> t \<or> \<not> has_node_id n \<longrightarrow>
       node_at (ps_graph s1) i = node_at (ps_graph s) i) \<and>
    deref (ps_graph s1) t = Inr n1 \<and> ts = succs n1 \<and> (\<not> has_node_id n \<longrightarrow> n1 = n)"
proof (cases "\<exists>c. n = Class c")
  case True
  then obtain c where c: "n = Class c" by blast
  obtain i where i: "t = NodeRef i" "i < length (nodes g0)" "node_at g0 i = n" "node_at (ps_graph s) i = n"
    using kc_ok_deref [OF ok n _ new] c by auto
  obtain ms s1 where ms: "kc_step keys (NodeRef i) s = Inr (succs (Class (c\<lparr>cl_members := ms\<rparr>)), s1)"
    "kc_ok keys g0 s1" "kc_frame s s1" "extends (ps_graph s) (ps_graph s1)"
    "fst (ps_marks s1) = snd (tracker_visit (type_id (Class c)) (fst (ps_marks s)))"
    "\<forall>j < length (nodes (ps_graph s)). j \<noteq> i \<longrightarrow> node_at (ps_graph s1) j = node_at (ps_graph s) j"
    "node_at (ps_graph s1) i = Class (c\<lparr>cl_members := ms\<rparr>)"
    using kc_step_class [OF ok i(2) i(3,4) [unfolded c] new [unfolded c]] by blast
  have "i < length (nodes (ps_graph s1))" using ms(2) i(2) by (simp add: kc_ok_def extends_def)
  then have "deref (ps_graph s1) t = Inr (Class (c\<lparr>cl_members := ms\<rparr>))" using ms(7) i(1) by simp
  moreover have "\<forall>nid. tracked (fst (ps_marks s1)) nid \<longleftrightarrow>
      tracked (fst (ps_marks s)) nid \<or> nid = type_id n \<and> 0 \<le> nid"
    by (auto simp: ms(5) tracker_visit_tracked c)
  moreover have "\<forall>j < length (nodes (ps_graph s)). NodeRef j \<noteq> t \<or> \<not> has_node_id n \<longrightarrow>
      node_at (ps_graph s1) j = node_at (ps_graph s) j"
    using ms(6) i(1) c by auto
  ultimately show ?thesis using ms(1-4) i(1) c by auto
next
  case False
  then obtain s1 where s1: "kc_step keys t s = Inr (succs n, s1)" "kc_ok keys g0 s1" "ps_graph s1 = ps_graph s"
    "fst (ps_marks s1) = snd (tracker_visit (type_id n) (fst (ps_marks s)))" "snd (ps_marks s1) = snd (ps_marks s)"
    using kc_step_other [OF ok n _ new] by blast
  moreover have "\<forall>nid. tracked (fst (ps_marks s1)) nid \<longleftrightarrow>
      tracked (fst (ps_marks s)) nid \<or> nid = type_id n \<and> 0 \<le> nid"
    by (auto simp: s1(4) tracker_visit_tracked)
  moreover have "kc_frame s s1" using s1(5) by (simp add: kc_frame_def)
  ultimately show ?thesis using n by auto
qed

lemma kc_unmarkable:
  assumes ok: "kc_ok keys g0 s" and n: "deref (ps_graph s) t = Inr n" "\<not> has_node_id n" "w \<in> set (succs n)"
  shows "\<exists>m. deref (ps_graph s) w = Inr m \<and> has_node_id m"
proof -
  obtain ck where ck: "n = CaptureKeys ck" using n(2,3) by (cases n) auto
  obtain i where i: "t = NodeRef i" "i < length (nodes (ps_graph s))" "node_at (ps_graph s) i = n"
    using deref_owner [OF n(1)] ck by auto
  have "capture_node (ps_graph s) n"
  proof (cases "i < length (nodes g0)")
    case True
    have "ctor_of (node_at g0 i) = ctor_of n"
      using ok i(3) extends_ctor(1) [of g0 "ps_graph s" i] True by (simp add: kc_ok_def)
    then have g0n: "node_at g0 i = n"
      using ok True i(3) ck by (cases "node_at g0 i") (auto simp: kc_ok_def kc_done_def split: if_splits)
    then have "capture_node g0 n" using ok True ck by (auto simp: kc_ok_def kc_start_def)
    then show ?thesis using capture_node_extends ok by (auto simp: kc_ok_def)
  next
    case False
    then show ?thesis using ok i(2,3) by (auto simp: kc_ok_def)
  qed
  then show ?thesis using n(3) ck by (auto simp: capture_node_def)
qed

lemma kc_rank_step:
  assumes ok: "kc_ok keys g0 s" and n: "deref (ps_graph s) t = Inr n"
    and new: "\<not> tracked (fst (ps_marks s)) (type_id n)" and run: "kc_step keys t s = Inr (ts, s1)"
    and u: "u \<in> set ts" and ext: "extends (ps_graph s1) (ps_graph s2)"
    and mono: "\<And>nid. tracked (fst (ps_marks s1)) nid \<Longrightarrow> tracked (fst (ps_marks s2)) nid"
  shows "kc_rank g0 u s2 < kc_rank g0 t s"
proof -
  obtain n1 where st: "extends (ps_graph s) (ps_graph s1)" "ts = succs n1" "\<not> has_node_id n \<longrightarrow> n1 = n"
    and marks: "\<And>nid. tracked (fst (ps_marks s1)) nid \<longleftrightarrow> tracked (fst (ps_marks s)) nid \<or> nid = type_id n \<and> 0 \<le> nid"
    using kc_step_spec [OF ok n new] run by auto
  let ?K = "\<lambda>s. {i. i < length (nodes g0) \<and> has_node_id (node_at g0 i) \<and> \<not> tracked (fst (ps_marks s)) (type_id (node_at g0 i))}"
  have fin: "finite (?K s)" by simp
  have sub: "?K s2 \<subseteq> ?K s" using mono marks by auto
  have rank: "kc_rank g0 x s' \<le> 2 * card (?K s') + 1" "2 * card (?K s') \<le> kc_rank g0 x s'" for x s'
    by (auto simp: kc_rank_def split: sum.splits)
  show ?thesis
  proof (cases "has_node_id n")
    case True
    obtain i where i: "i < length (nodes g0)" "node_at g0 i = n"
      using kc_ok_deref [OF ok n True new] by blast
    have "wf_ids g0" using ok by (simp add: kc_ok_def kc_start_def wf_graph_def)
    then have "0 \<le> type_id n" using wf_idsD(1) i True by blast
    then have "i \<notin> ?K s2" "i \<in> ?K s" using mono marks i True new by auto
    then have "card (?K s2) < card (?K s)" using sub by (intro psubset_card_mono fin) auto
    then show ?thesis using rank(1) [of u s2] rank(2) [of s t] by linarith
  next
    case False
    then obtain m where "deref (ps_graph s) u = Inr m" "has_node_id m"
      using kc_unmarkable [OF ok n False] u st(2,3) by auto
    then have "\<exists>m'. deref (ps_graph s2) u = Inr m' \<and> has_node_id m'"
      using extends_refs_keep extends_trans [OF st(1) ext] by metis
    then have "kc_rank g0 u s2 = 2 * card (?K s2)" by (auto simp: kc_rank_def)
    moreover have "kc_rank g0 t s = 2 * card (?K s) + 1" using n False by (simp add: kc_rank_def)
    moreover have "card (?K s2) \<le> card (?K s)" using sub by (intro card_mono fin)
    ultimately show ?thesis by linarith
  qed
qed

interpretation kcw: growing_walk fst "kc_ok keys g0" kc_frame succs "\<lambda>g n. True" "kc_rank g0" "{}"
  "kc_step keys" "keyCapture_accept keys" for keys g0
proof (unfold_locales, goal_cases)
  case (4 s s' s'')
  then show ?case by (auto simp: kc_frame_def)
next
  case (6 s t n call)
  show ?case by (rule kc_body [OF 6(2)])
next
  case (7 s t n w)
  then show ?case by (rule kc_unmarkable)
next
  case (8 s t n)
  obtain ts s1 n1 where st: "kc_step keys t s = Inr (ts, s1)" "kc_ok keys g0 s1" "kc_frame s s1"
    "extends (ps_graph s) (ps_graph s1)"
    "\<forall>nid. tracked (fst (ps_marks s1)) nid \<longleftrightarrow> tracked (fst (ps_marks s)) nid \<or> nid = type_id n \<and> 0 \<le> nid"
    "\<forall>i < length (nodes (ps_graph s)). NodeRef i \<noteq> t \<or> \<not> has_node_id n \<longrightarrow>
       node_at (ps_graph s1) i = node_at (ps_graph s) i"
    "deref (ps_graph s1) t = Inr n1" "ts = succs n1"
    using kc_step_spec [OF 8] by blast
  have "\<not> tracked (fst (ps_marks s1)) (type_id (node_at (ps_graph s1) i))"
    if i: "i < length (nodes (ps_graph s1))" "length (nodes (ps_graph s)) \<le> i" for i
  proof -
    have "length (nodes g0) \<le> i" using 8(1) i(2) by (auto simp: kc_ok_def extends_def)
    then have "capture_node (ps_graph s1) (node_at (ps_graph s1) i)" using st(2) i(1) by (simp add: kc_ok_def)
    then show ?thesis by (auto simp: capture_node_def tracked_def)
  qed
  then show ?case using st by simp
next
  case (9 s t n ts s1 u s2)
  show ?case by (rule kc_rank_step [OF 9(1-5,8)]) (rule 9(9))
qed (auto simp: kc_ok_def kc_frame_def intro: succs_subset_refs [THEN subsetD])

section \<open>The pass as a whole\<close>

lemma capture_roots_spec:
  assumes "kc_base g0 s" "\<forall>t \<in> set ts. in_graph g0 t"
  shows "\<exists>rs s'. capture_roots ts s = Inr (rs, s') \<and> kc_grows s s' \<and> list_all2 (captured_ref g0 (ps_graph s')) ts rs \<and>
    (\<forall>r \<in> set rs. in_graph (ps_graph s') r)"
  using assms
proof (induction ts arbitrary: s)
  case Nil
  then show ?case using kc_grows_refl by simp
next
  case (Cons t ts)
  obtain r s1 where r: "captureKey t s = Inr (r, s1)" "kc_grows s s1" "captured_ref g0 (ps_graph s1) t r"
    "in_graph (ps_graph s1) r" using captureKey_new [OF Cons.prems(1), of t] Cons.prems(2) by auto
  obtain rs s2 where rs: "capture_roots ts s1 = Inr (rs, s2)" "kc_grows s1 s2"
    "list_all2 (captured_ref g0 (ps_graph s2)) ts rs" "\<forall>r \<in> set rs. in_graph (ps_graph s2) r"
    using Cons.IH [OF kc_base_grows [OF Cons.prems(1) r(2)]] Cons.prems(2) by auto
  have "in_graph (ps_graph s2) r" using extends_in_graph [OF kc_growsD(2) [OF rs(2)] r(4)] .
  then show ?case
    using r(1) rs captured_ref_grows [OF r(3) rs(2)] kc_grows_trans [OF r(2) rs(2)] by simp
qed

lemma captured_ref_back:
  assumes g: "wf_refs g" "typedefs_end g" "in_graph g t"
    and g1: "\<And>i. i < length (nodes g) \<Longrightarrow> i < length (nodes g1) \<and> node_at g1 i = node_at g i"
    and r: "captured_ref g1 g' t r"
  shows "captured_ref g g' t r"
proof -
  have "stripTypedefs g1 t = stripTypedefs g t" by (rule strip_cong [OF g(1,3)]) (use g1 in simp)
  moreover obtain u where u: "stripTypedefs g t = Inr u" "in_graph g u"
    using strip_upto [OF g(1,3)] g(2,3) unfolding stripTypedefs_def typedefs_end_def by blast
  moreover have "deref g1 u = deref g u" using u(2) g1 by (cases u) auto
  ultimately show ?thesis using r by (simp add: captured_ref_def)
qed

lemma kc_done_back:
  assumes g: "wf_refs g" "typedefs_end g" "i < length (nodes g)"
    and g1: "\<And>i. i < length (nodes g) \<Longrightarrow> i < length (nodes g1) \<and> node_at g1 i = node_at g i"
    and d: "kc_done keys g1 g' (node_at g i) n'"
  shows "kc_done keys g g' (node_at g i) n'"
proof (cases "node_at g i")
  case (Class c)
  then obtain ms where ms: "n' = Class (c\<lparr>cl_members := ms\<rparr>)"
    "list_all2 (captured_member g1 g' (hits keys (cl_name c))) (cl_members c) ms"
    using d by (auto simp: kc_done_def)
  have "captured_member g g' (hits keys (cl_name c)) m m'"
    if m: "m \<in> set (cl_members c)" "captured_member g1 g' (hits keys (cl_name c)) m m'" for m m'
  proof -
    have "in_graph g (m_type m)" using wf_refsD [OF g(1,3)] Class m(1) by auto
    from captured_ref_back [OF g(1,2) this g1] show ?thesis
      using m(2) by (auto simp: captured_member_def split: if_splits)
  qed
  then have "list_all2 (captured_member g g' (hits keys (cl_name c))) (cl_members c) ms"
    using ms(2) by (auto simp: list_all2_conv_all_nth)
  then show ?thesis unfolding kc_done_def Class ty.case ms(1) by blast
qed (use d in \<open>simp_all add: kc_done_def\<close>)

text \<open>The state in which the walk starts.\<close>

lemma capture_top_spec:
  assumes g: "wf_graph g" "no_capture_keys g" "typedefs_end g" and v: "\<And>nid. \<not> tracked v nid"
  shows "\<exists>s1 new. capture_top keys \<lparr>ps_marks = (v, infos), ps_graph = g\<rparr> = Inr s1 \<and>
    kc_ok keys (ps_graph s1) s1 \<and> fst (ps_marks s1) = v \<and>
    snd (ps_marks s1) = infos @ new \<and> (\<forall>info \<in> set new. ci_captureKeys info) \<and>
    finalTypes (ps_graph s1) = finalTypes g \<and> keeps_captures g (ps_graph s1) \<and>
    (\<forall>i < length (nodes g). i < length (nodes (ps_graph s1)) \<and> node_at (ps_graph s1) i = node_at g i) \<and>
    (\<forall>i < length (nodes (ps_graph s1)). length (nodes g) \<le> i \<longrightarrow> capture_node (ps_graph s1) (node_at (ps_graph s1) i)) \<and>
    (if list_ex kc_topLevel keys then list_all2 (captured_ref g (ps_graph s1)) (rootTypes g) (rootTypes (ps_graph s1))
     else rootTypes (ps_graph s1) = rootTypes g)"
proof -
  let ?s = "\<lparr>ps_marks = (v, infos), ps_graph = g\<rparr> :: kc_state"
  have wf: "wf_refs g" using g(1) by (simp add: wf_graph_def)
  have no: "node_at g i \<noteq> CaptureKeys ck" if "i < length (nodes g)" for i ck
    using g(2) that by (auto simp: no_capture_keys_def list_all_iff node_at_def dest!: nth_mem)
  have base: "kc_base g ?s" using g wf by (simp add: kc_base_def same_or_class_def)
  show ?thesis
  proof (cases "list_ex kc_topLevel keys")
    case False
    have "kc_start g" using g(1,3) no by (simp add: kc_start_def)
    then have "kc_ok keys g ?s" using g(1) v by (simp add: kc_ok_def)
    then show ?thesis using False by (simp add: capture_top_def keeps_captures_def)
  next
    case True
    have "\<forall>t \<in> set (rootTypes g). in_graph g t" using wf by (simp add: wf_refs_def)
    from capture_roots_spec [OF base this]
    obtain rs s' where rs: "capture_roots (rootTypes g) ?s = Inr (rs, s')" "kc_grows ?s s'"
      "list_all2 (captured_ref g (ps_graph s')) (rootTypes g) rs" "\<forall>r \<in> set rs. in_graph (ps_graph s') r"
      by blast
    let ?g1 = "(ps_graph s')\<lparr>rootTypes := rs\<rparr>"
    let ?s1 = "s'\<lparr>ps_graph := ?g1\<rparr>"
    have deref: "deref ?g1 t = deref (ps_graph s') t" for t by (cases t) (simp_all add: deref.simps)
    have at: "node_at ?g1 i = node_at (ps_graph s') i" for i by (simp add: node_at_def)
    have ing: "in_graph ?g1 t = in_graph (ps_graph s') t" for t by (cases t) simp_all
    have wf': "wf_graph (ps_graph s')" using kc_growsD(4) [OF rs(2)] g(1) by simp
    then have wf1: "wf_graph ?g1"
      using rs(4) by (simp add: wf_graph_def wf_refs_def wf_ids_def wf_children_def at deref ing)
    have old: "i < length (nodes (ps_graph s')) \<and> node_at (ps_graph s') i = node_at g i" if "i < length (nodes g)" for i
      using kc_growsD(2,5) [OF rs(2)] that by (auto simp: extends_def)
    have fresh: "capture_node (ps_graph s') (node_at (ps_graph s') i)"
      if "length (nodes g) \<le> i" "i < length (nodes (ps_graph s'))" for i
      using kc_growsD(7) [OF rs(2)] that by simp
    have "typedefs_end ?g1"
      unfolding typedefs_end_def
    proof (intro allI impI)
      fix t assume t: "in_graph ?g1 t"
      show "stripTypedefs ?g1 t \<noteq> Inl Diverge"
      proof (cases "in_graph g t")
        case True
        have "stripTypedefs ?g1 t = stripTypedefs g t"
          by (rule strip_cong [OF wf True]) (use old at in simp)
        then show ?thesis using g(3) True by (simp add: typedefs_end_def)
      next
        case False
        then obtain i where i: "t = NodeRef i" "length (nodes g) \<le> i" "i < length (nodes (ps_graph s'))"
          using t by (cases t) auto
        then obtain ck where "deref ?g1 t = Inr (CaptureKeys ck)"
          using fresh deref by (auto simp: capture_node_def)
        then show ?thesis using stripTypedefs_unfold [of ?g1 t] by (simp add: stripTypedefs_body_def)
      qed
    qed
    moreover have "capture_node ?g1 (node_at ?g1 i)" if "i < length (nodes ?g1)" "node_at ?g1 i = CaptureKeys ck" for i ck
    proof (cases "i < length (nodes g)")
      case True
      then show ?thesis using no old that at by fastforce
    next
      case False
      then have "capture_node (ps_graph s') (node_at (ps_graph s') i)" using fresh that(1) by simp
      then show ?thesis by (simp add: at capture_node_def deref)
    qed
    ultimately have "kc_start ?g1" using wf1 by (auto simp: kc_start_def)
    then have "kc_ok keys ?g1 ?s1"
      using wf1 kc_growsD(3) [OF rs(2)] v by (simp add: kc_ok_def)
    moreover have "capture_top keys ?s = Inr ?s1" using True rs(1) by (simp add: capture_top_def)
    moreover obtain new where "snd (ps_marks s') = infos @ new" "\<forall>info \<in> set new. ci_captureKeys info"
      using rs(2) by (auto simp: kc_grows_def)
    moreover have "finalTypes ?g1 = finalTypes g" using kc_growsD(6) [OF rs(2)] by simp
    moreover have "capture_node ?g1 (node_at ?g1 i)" if "length (nodes g) \<le> i" "i < length (nodes ?g1)" for i
      using fresh that by (simp add: at capture_node_def deref)
    moreover have "keeps_captures g ?g1" using grows_keeps [OF rs(2)] deref by (simp add: keeps_captures_def)
    moreover have "list_all2 (captured_ref g ?g1) (rootTypes g) rs"
      by (rule list_all2_mono [OF rs(3)], erule captured_ref_keeps) (simp add: keeps_captures_def deref)
    ultimately show ?thesis using True old at kc_growsD(3) [OF rs(2)] by (intro exI [of _ ?s1] exI [of _ new]) simp
  qed
qed

lemma keyCapture_contract:
  assumes "wf_graph g" and "no_capture_keys g" and "typedefs_end g"
  shows "\<exists>g' v' new. keyCapture_pass keys infos g (holder_get (graph_size g) v) = Inr (g', v', infos @ new) \<and>
    wf_graph g' \<and> finalTypes g' = finalTypes g \<and> (\<forall>info \<in> set new. ci_captureKeys info) \<and>
    length (nodes g) \<le> length (nodes g') \<and>
    (\<forall>i < length (nodes g'). length (nodes g) \<le> i \<longrightarrow> capture_node g' (node_at g' i)) \<and>
    (if list_ex kc_topLevel keys then list_all2 (captured_ref g g') (rootTypes g) (rootTypes g')
     else rootTypes g' = rootTypes g) \<and>
    (\<forall>i < length (nodes g).
       (node_at g' i = node_at g i \<or> kc_done keys g g' (node_at g i) (node_at g' i)) \<and>
       (NodeRef i \<in> reach (edges (\<lambda>n. n) g') (rootTypes g') \<longrightarrow> kc_done keys g g' (node_at g i) (node_at g' i)))"
proof -
  let ?s = "\<lparr>ps_marks = (holder_get (graph_size g) v, infos), ps_graph = g\<rparr> :: kc_state"
  have wf: "wf_refs g" using assms(1) by (simp add: wf_graph_def)
  have clear: "\<not> tracked (holder_get (graph_size g) v) nid" for nid by simp
  obtain s1 new where s1: "capture_top keys ?s = Inr s1" "kc_ok keys (ps_graph s1) s1"
    "fst (ps_marks s1) = holder_get (graph_size g) v" "snd (ps_marks s1) = infos @ new"
    "\<forall>info \<in> set new. ci_captureKeys info" "keeps_captures g (ps_graph s1)"
    and old: "\<And>i. i < length (nodes g) \<Longrightarrow> i < length (nodes (ps_graph s1)) \<and> node_at (ps_graph s1) i = node_at g i"
    and fresh: "\<And>i. i < length (nodes (ps_graph s1)) \<Longrightarrow> length (nodes g) \<le> i \<Longrightarrow> capture_node (ps_graph s1) (node_at (ps_graph s1) i)"
    and final: "finalTypes (ps_graph s1) = finalTypes g"
    and roots: "if list_ex kc_topLevel keys then list_all2 (captured_ref g (ps_graph s1)) (rootTypes g) (rootTypes (ps_graph s1))
     else rootTypes (ps_graph s1) = rootTypes g"
    using capture_top_spec [OF assms clear, of keys infos] by blast
  let ?g1 = "ps_graph s1"
  have "\<forall>t \<in> set (rootTypes ?g1). in_graph ?g1 t" using s1(2) by (simp add: kc_ok_def wf_graph_def wf_refs_def)
  moreover have "kc_rank ?g1 t s' < kc_depth ?g1" for t s'
  proof -
    let ?K = "{i. i < length (nodes ?g1) \<and> has_node_id (node_at ?g1 i) \<and> \<not> tracked (fst (ps_marks s')) (type_id (node_at ?g1 i))}"
    have "card ?K \<le> card {..<length (nodes ?g1)}" by (intro card_mono) auto
    moreover have "kc_rank ?g1 t s' \<le> 2 * card ?K + 1" by (auto simp: kc_rank_def split: sum.splits)
    ultimately show ?thesis by (simp add: kc_depth_def)
  qed
  ultimately obtain s' where s': "for_each (recur (keyCapture_accept keys) (kc_depth ?g1)) (rootTypes ?g1) s1 = Inr s'"
    "kc_ok keys ?g1 s'" "kc_frame s1 s'" "extends ?g1 (ps_graph s')"
    and marked: "\<And>i. i < length (nodes (ps_graph s')) \<Longrightarrow> has_node_id (node_at (ps_graph s') i) \<Longrightarrow>
      NodeRef i \<in> reach (edges (\<lambda>n. n) (ps_graph s')) (rootTypes ?g1) \<Longrightarrow>
      tracked (fst (ps_marks s')) (type_id (node_at (ps_graph s') i))"
    using kcw.run [OF s1(2), of "rootTypes ?g1" "kc_depth ?g1"] clear s1(3)
    by (auto simp: spec_empty_iff edges_def [abs_def])
  have same_roots: "rootTypes (ps_graph s') = rootTypes ?g1" using s'(4) by (simp add: extends_def)
  have keeps: "keeps_captures ?g1 (ps_graph s')"
    unfolding keeps_captures_def
  proof (intro allI impI)
    fix r ck assume r: "deref ?g1 r = Inr (CaptureKeys ck)"
    obtain n where n: "deref (ps_graph s') r = Inr n" "same_or_class (CaptureKeys ck) n"
      using kc_base_deref [OF kc_ok_base [OF s'(2)] r] by blast
    then show "deref (ps_graph s') r = Inr (CaptureKeys ck)" by (simp add: same_or_class_def)
  qed
  have node: "if tracked (fst (ps_marks s')) (type_id (node_at g i))
      then kc_done keys ?g1 (ps_graph s') (node_at g i) (node_at (ps_graph s') i)
      else node_at (ps_graph s') i = node_at g i" if "i < length (nodes g)" for i
  proof -
    note o = old [OF that]
    have "\<forall>i < length (nodes ?g1). if tracked (fst (ps_marks s')) (type_id (node_at ?g1 i))
      then kc_done keys ?g1 (ps_graph s') (node_at ?g1 i) (node_at (ps_graph s') i)
      else node_at (ps_graph s') i = node_at ?g1 i" using s'(2) unfolding kc_ok_def by (elim conjE)
    then show ?thesis using o by metis
  qed
  have len: "length (nodes ?g1) \<le> length (nodes (ps_graph s'))" "length (nodes g) \<le> length (nodes ?g1)"
    using s'(4) old by (auto simp: extends_def) (meson leI less_irrefl)
  have added: "capture_node (ps_graph s') (node_at (ps_graph s') i)"
    if i: "i < length (nodes (ps_graph s'))" "length (nodes g) \<le> i" for i
  proof (cases "i < length (nodes ?g1)")
    case True
    obtain ck n where ck: "node_at ?g1 i = CaptureKeys ck" "deref ?g1 (ck_underlying ck) = Inr n" "has_node_id n"
      using fresh [OF True i(2)] by (auto simp: capture_node_def)
    have "deref (ps_graph s') (NodeRef i) = Inr (CaptureKeys ck)"
      using keeps True ck(1) unfolding keeps_captures_def by simp
    then have "node_at (ps_graph s') i = CaptureKeys ck" using deref_owned(2) by blast
    then show ?thesis using extends_refs_keep [OF s'(4) ck(2)] ck(3) by (auto simp: capture_node_def)
  next
    case False
    then show ?thesis using s'(2) i(1) by (simp add: kc_ok_def)
  qed
  have orig: "kc_done keys ?g1 (ps_graph s') (node_at g i) n' \<Longrightarrow> kc_done keys g (ps_graph s') (node_at g i) n'"
    if "i < length (nodes g)" for i n'
    by (rule kc_done_back [OF wf assms(3) that]) (use old in auto)
  have reached: "kc_done keys g (ps_graph s') (node_at g i) (node_at (ps_graph s') i)"
    if i: "i < length (nodes g)" "NodeRef i \<in> reach (edges (\<lambda>n. n) (ps_graph s')) (rootTypes (ps_graph s'))" for i
  proof (cases "has_node_id (node_at g i)")
    case True
    have i': "i < length (nodes (ps_graph s'))" using old [OF i(1)] s'(4) by (auto simp: extends_def)
    have "type_id (node_at (ps_graph s') i) = type_id (node_at g i)"
      "ctor_of (node_at (ps_graph s') i) = ctor_of (node_at g i)"
      using extends_ctor [OF s'(4)] old [OF i(1)] by auto
    then have "tracked (fst (ps_marks s')) (type_id (node_at g i))"
      using marked [OF i'] i(2) True ctor_of_has_id same_roots by metis
    then show ?thesis using node [OF i(1)] orig [OF i(1)] by simp
  next
    case False
    then have "\<not> tracked (fst (ps_marks s')) (type_id (node_at g i))"
      using type_id_noid by (simp add: tracked_def)
    then have "node_at (ps_graph s') i = node_at g i" using node [OF i(1)] by simp
    then show ?thesis using False by (cases "node_at g i") (simp_all add: kc_done_def)
  qed
  obtain new' where "snd (ps_marks s') = infos @ new @ new'" "\<forall>info \<in> set new'. ci_captureKeys info"
    using s'(3) s1(4) by (auto simp: kc_frame_def)
  then have "keyCapture_pass keys infos g (holder_get (graph_size g) v) =
      Inr (ps_graph s', fst (ps_marks s'), infos @ new @ new')" "\<forall>info \<in> set (new @ new'). ci_captureKeys info"
    using s1(1,5) s'(1) by (auto simp: keyCapture_pass_def insertCaptureDataNodes_def prod_eq_iff)
  moreover have "wf_graph (ps_graph s')" using s'(2) by (simp add: kc_ok_def)
  moreover have "if list_ex kc_topLevel keys then list_all2 (captured_ref g (ps_graph s')) (rootTypes g) (rootTypes (ps_graph s'))
     else rootTypes (ps_graph s') = rootTypes g"
    using roots list_all2_mono [OF _ captured_ref_keeps [OF _ keeps]] same_roots by auto
  moreover have "finalTypes (ps_graph s') = finalTypes g" using s'(2) final by (simp add: kc_ok_def)
  moreover have "node_at (ps_graph s') i = node_at g i \<or> kc_done keys g (ps_graph s') (node_at g i) (node_at (ps_graph s') i)"
    if "i < length (nodes g)" for i using node [OF that] orig [OF that] by presburger
  ultimately show ?thesis
    using reached added len by (intro exI [of _ "ps_graph s'"] exI [of _ "fst (ps_marks s')"] exI [of _ "new @ new'"]) simp
qed

text \<open>
  C19: on every graph in which typedefs end and nothing is captured yet, the pass returns. With a
  top-level key it puts a node above every root that is a container, behind typedefs or not. In every class it
  reaches, a member is replaced exactly when a key names it and its class: by a copy that refers to a
  new node above a container, and to the type it had otherwise. No other node of the graph changes, and the
  container descriptions it appends are those of the new nodes, marked.
\<close>

theorem keyCapture_result:
  assumes "wf_graph g" and "no_capture_keys g" and "typedefs_end g"
  shows "\<exists>g' v' new. keyCapture_pass keys infos g (holder_get (graph_size g) v) = Inr (g', v', infos @ new) \<and>
    wf_graph g' \<and> finalTypes g' = finalTypes g \<and> (\<forall>info \<in> set new. ci_captureKeys info) \<and>
    length (nodes g) \<le> length (nodes g') \<and>
    (\<forall>i < length (nodes g'). length (nodes g) \<le> i \<longrightarrow> capture_node g' (node_at g' i)) \<and>
    (if list_ex kc_topLevel keys then list_all2 (captured_ref g g') (rootTypes g) (rootTypes g')
     else rootTypes g' = rootTypes g) \<and>
    (\<forall>i < length (nodes g).
       (node_at g' i = node_at g i \<or> kc_done keys g g' (node_at g i) (node_at g' i)) \<and>
       (NodeRef i \<in> reach (edges (\<lambda>n. n) g') (rootTypes g') \<longrightarrow> kc_done keys g g' (node_at g i) (node_at g' i)))"
  using assms by (rule keyCapture_contract)

section \<open>A concrete graph\<close>

definition map_info :: container_info where
  "map_info = \<lparr>ci_typeName = ''std::map'', ci_numTemplateParams = None, ci_ctype = STD_MAP_TYPE,
     ci_header = ''map'', ci_ns = [], ci_replaceTemplateParamIndex = [], ci_allocatorIndex = None,
     ci_underlyingContainerIndex = None, ci_stubTemplateParams = [2, 3], ci_captureKeys = False,
     ci_requiredFeatures = {}, ci_codegen = \<lparr>cc_decl = '''', cc_func = '''', cc_traversalFunc = '''',
     cc_extra = '''', cc_scopedExtra = '''', cc_processors = []\<rparr>, ci_matcher = ''^std::map''\<rparr>"

text \<open>A class with a typedef of a map and an aligned member, both named by keys.\<close>

definition capture_example :: type_graph where
  "capture_example = \<lparr>nodes = [
     Class ((mk_class KStruct ''S'' ''S'' 64 0 0)\<lparr>cl_members :=
       [mk_member (NodeRef 1) ''m'' 0 0, (mk_member (PrimRef Int8) ''x'' 384 0)\<lparr>m_align := 16\<rparr>]\<rparr>),
     Typedef (mk_typedef ''M'' (NodeRef 2) 1),
     Container ((mk_container map_info 48 None 2)\<lparr>co_templateParams :=
       [mk_param (PrimRef Int32), mk_param (PrimRef Int32)]\<rparr>)],
   rootTypes = [NodeRef 0], finalTypes = [], next_id = 3\<rparr>"

definition capture_example_keys :: "key_to_capture list" where
  "capture_example_keys =
     [\<lparr>kc_type = Some ''S'', kc_member = Some ''m'', kc_topLevel = False\<rparr>,
      \<lparr>kc_type = Some ''S'', kc_member = Some ''x'', kc_topLevel = False\<rparr>]"

lemma capture_example_ok: "wf_graph capture_example" "no_capture_keys capture_example" "typedefs_end capture_example"
proof -
  show "wf_graph capture_example" by (rule wf_checkD) code_simp
  show "typedefs_end capture_example" by (rule typedefs_endI) code_simp
qed code_simp

theorem keyCapture_result_witness:
  "\<exists>g' v' new. keyCapture_pass capture_example_keys [] capture_example (holder_get 3 []) = Inr (g', v', new) \<and>
     kc_done capture_example_keys capture_example g' (node_at capture_example 0) (node_at g' 0)"
proof -
  have "\<not> list_ex kc_topLevel capture_example_keys" by (simp add: capture_example_keys_def)
  moreover have "rootTypes capture_example = [NodeRef 0]" "graph_size capture_example = 3"
    "0 < length (nodes capture_example)"
    by (simp_all add: capture_example_def graph_size_def)
  ultimately show ?thesis
    using keyCapture_result [OF capture_example_ok, of capture_example_keys "[]" "[]"]
    by (force intro: reach.root)
qed

text \<open>
  A member that is copied loses its alignment, also where it keeps its type.
\<close>

definition member_aligns :: "ty \<Rightarrow> u64 list" where
  "member_aligns n = (case n of Class c \<Rightarrow> map m_align (cl_members c) | _ \<Rightarrow> [])"

lemma keyCapture_alignment:
  "case keyCapture_pass capture_example_keys [] capture_example [] of Inl e \<Rightarrow> False
   | Inr (g', v', infos) \<Rightarrow> member_aligns (node_at capture_example 0) = [0, 16] \<and>
       member_aligns (node_at g' 0) = [0, 0] \<and> length (nodes g') = 4 \<and> length infos = 1"
  by code_simp

end
