(* ===== verification/TypeIdentifier.thy ===== *)
theory TypeIdentifier
  imports KeyCapture
begin

text \<open>
  \<^verbatim>\<open>oi/type_graph/TypeIdentifier.cpp\<close>: the pass that replaces the template parameters of containers that
  the generated code must not depend on: by containers of their own for the types to pass through, and
  by dummies for the stubbed parameters.
\<close>

section \<open>The pass\<close>

text \<open>The visitor holds the tracker and the containers it has made, by the identifier of the class.\<close>

type_synonym ti_marks = "node_tracker \<times> (node_id \<Rightarrow> tref option)"
type_synonym ti_state = "ti_marks pass_state"

definition ti_dummys :: "ti_state \<Rightarrow> node_id \<Rightarrow> tref option" where
  "ti_dummys s = snd (ps_marks s)"

definition stub_size :: "u64 \<Rightarrow> u64" where
  "stub_size sz = (if sz = 1 then 0 else sz)"

definition stub_dummy :: "tref \<Rightarrow> u64 \<Rightarrow> ti_state \<Rightarrow> (template_param \<times> ti_state) outcome" where
  "stub_dummy t sz s =
     bindE (type_align (ps_graph s) t) (\<lambda>al. bindE (type_name (ps_graph s) t) (\<lambda>name.
     let (d, g) = make_type (\<lambda>nid. Dummy (mk_dummy sz al name nid)) (ps_graph s) in
     Inr (mk_param d, s\<lparr>ps_graph := g\<rparr>)))"

definition stub_allocator :: "tref \<Rightarrow> class_node \<Rightarrow> u64 \<Rightarrow> ti_state \<Rightarrow> (template_param \<times> ti_state) outcome" where
  "stub_allocator t allocator sz s = (case cl_templateParams allocator of
      [] \<Rightarrow> Inl (Throw ''std::out_of_range'')
    | q # _ \<Rightarrow> bindE (type_align (ps_graph s) t) (\<lambda>al.
        bindE (make_dummy_allocator (tp_type q) sz al (cl_name allocator) (ps_graph s)) (\<lambda>(d, g).
        Inr (mk_param d, s\<lparr>ps_graph := g\<rparr>))))"

definition stub_param :: "tref \<Rightarrow> ty \<Rightarrow> ti_state \<Rightarrow> (template_param \<times> ti_state) outcome" where
  "stub_param t n s = bindE (type_size (ps_graph s) t) (\<lambda>sz. case n of
      Class c \<Rightarrow> if isAllocator c then stub_allocator t c (stub_size sz) s else stub_dummy t (stub_size sz) s
    | _ \<Rightarrow> stub_dummy t (stub_size sz) s)"

definition pass_through :: "container_info \<Rightarrow> tref \<Rightarrow> class_node \<Rightarrow> ti_state \<Rightarrow> (template_param \<times> ti_state) outcome" where
  "pass_through info t c s = (case ti_dummys s (cl_id c) of
      Some d \<Rightarrow> Inr (mk_param d, s)
    | None \<Rightarrow> bindE (type_size (ps_graph s) t) (\<lambda>sz.
        let (d, g) = make_type (\<lambda>nid. Container ((mk_container info sz (Some t) nid)
              \<lparr>co_templateParams := cl_templateParams c\<rparr>)) (ps_graph s) in
        Inr (mk_param d, s\<lparr>ps_marks := (fst (ps_marks s), (ti_dummys s)(cl_id c \<mapsto> d)), ps_graph := g\<rparr>)))"

definition identify_param ::
    "(string \<Rightarrow> string \<Rightarrow> bool) \<Rightarrow> container_info list \<Rightarrow> nat list \<Rightarrow> nat \<Rightarrow> template_param \<Rightarrow> ti_state \<Rightarrow>
     (template_param \<times> ti_state) outcome" where
  "identify_param rx passThroughTypes stubParams i p s = bindE (get_ty (tp_type p) s) (\<lambda>n. case n of
      Dummy d \<Rightarrow> Inr (p, s)
    | DummyAllocator d \<Rightarrow> Inr (p, s)
    | Container c \<Rightarrow> Inr (p, s)
    | Class c \<Rightarrow> (case find (\<lambda>info. ci_matches rx info (fqName c)) passThroughTypes of
        Some info \<Rightarrow> pass_through info (tp_type p) c s
      | None \<Rightarrow> if i \<in> set stubParams then stub_param (tp_type p) n s else Inr (p, s))
    | _ \<Rightarrow> if i \<in> set stubParams then stub_param (tp_type p) n s else Inr (p, s))"

fun identify_params ::
    "(string \<Rightarrow> string \<Rightarrow> bool) \<Rightarrow> container_info list \<Rightarrow> nat list \<Rightarrow> nat \<Rightarrow> template_param list \<Rightarrow> ti_state \<Rightarrow>
     (template_param list \<times> ti_state) outcome" where
  "identify_params rx passThroughTypes stubParams i [] s = Inr ([], s)"
| "identify_params rx passThroughTypes stubParams i (p # ps) s =
     bindE (identify_param rx passThroughTypes stubParams i p s) (\<lambda>(p, s).
     bindE (identify_params rx passThroughTypes stubParams (Suc i) ps s) (\<lambda>(ps, s). Inr (p # ps, s)))"

definition typeIdentifier_visit ::
    "(string \<Rightarrow> string \<Rightarrow> bool) \<Rightarrow> container_info list \<Rightarrow> ti_marks walker \<Rightarrow> ti_marks walker" where
  "typeIdentifier_visit rx passThroughTypes accept t s = bindE (get_ty t s) (\<lambda>n. case n of
      Container c \<Rightarrow>
        bindE (identify_params rx passThroughTypes (ci_stubTemplateParams (co_info c)) 0 (co_templateParams c) s) (\<lambda>(ps, s).
        for_each (\<lambda>p. accept (tp_type p)) ps (put_ty t (Container (c\<lparr>co_templateParams := ps\<rparr>)) s))
    | _ \<Rightarrow> recursive_visit accept n s)"

definition ti_visit_mark :: "type_graph \<Rightarrow> tref \<Rightarrow> ti_marks \<Rightarrow> (bool \<times> ti_marks) outcome" where
  "ti_visit_mark g t v = bindE (trk_visit g t (fst v)) (\<lambda>(seen, trk). Inr (seen, (trk, snd v)))"

definition typeIdentifier_accept ::
    "(string \<Rightarrow> string \<Rightarrow> bool) \<Rightarrow> container_info list \<Rightarrow> ti_marks walker \<Rightarrow> ti_marks walker" where
  "typeIdentifier_accept rx passThroughTypes =
     accept_with ti_visit_mark (typeIdentifier_visit rx passThroughTypes)"

text \<open>
  The types the walk can meet: those of the graph, a container for each class, and between two of
  them an allocator.
\<close>

definition ti_depth :: "type_graph \<Rightarrow> nat" where
  "ti_depth g = 4 * length (nodes g) + 2"

definition typeIdentifier_pass :: "(string \<Rightarrow> string \<Rightarrow> bool) \<Rightarrow> container_info list \<Rightarrow> pass_fn" where
  "typeIdentifier_pass rx passThroughTypes g v =
     bindE (for_each (recur (typeIdentifier_accept rx passThroughTypes) (ti_depth g)) (rootTypes g)
       \<lparr>ps_marks = (v, Map.empty), ps_graph = g\<rparr>) (\<lambda>s. Inr (ps_graph s, fst (ps_marks s)))"

section \<open>Sizes and alignments\<close>

text \<open>The parameters of containers have no part in the size or the alignment of a type.\<close>

definition same_layout :: "ty \<Rightarrow> ty \<Rightarrow> bool" where
  "same_layout n n' \<longleftrightarrow> n' = n \<or> (\<exists>c ps. n = Container c \<and> n' = Container (c\<lparr>co_templateParams := ps\<rparr>))"

lemma layout_cong:
  assumes "wf_refs g" "in_graph g t" and same: "\<And>i. i < length (nodes g) \<Longrightarrow>
    i < length (nodes g') \<and> same_layout (node_at g i) (node_at g' i)"
  shows "type_size g' t = type_size g t" "type_align g' t = type_align g t"
proof -
  have deref: "\<exists>n n'. deref g u = Inr n \<and> deref g' u = Inr n' \<and> same_layout n n'" if "in_graph g u" for u
    using that same by (cases u) (auto simp: same_layout_def)
  have nxt: "in_graph g w" if "in_graph g u" "nxt_ref size_nxt g u = Some w" for u w
    using that by (rule nxt_in_graph [OF assms(1)]) (auto elim!: size_nxt.elims)
  show "type_size g' t = type_size g t"
    unfolding type_size_def
  proof (rule sz.chain_cong [where P = "in_graph g", OF assms(2) _ nxt])
    fix u assume "in_graph g u"
    from deref [OF this] show "nxt_ref size_nxt g' u = nxt_ref size_nxt g u \<and>
        size_body (\<lambda>t g. Inr 0) u g' = size_body (\<lambda>t g. Inr 0) u g \<and>
        (\<lambda>s. case deref g' u of Inr (Array a) \<Rightarrow> Inr (ar_len a * s) | _ \<Rightarrow> Inr s) =
        (\<lambda>s. case deref g u of Inr (Array a) \<Rightarrow> Inr (ar_len a * s) | _ \<Rightarrow> Inr s)"
      by (auto simp: same_layout_def nxt_ref_def size_body_def)
  qed
  show "type_align g' t = type_align g t"
    unfolding type_align_def
  proof (rule al.chain_cong [where P = "in_graph g", OF assms(2) _ nxt])
    fix u assume "in_graph g u"
    from deref [OF this] show "nxt_ref size_nxt g' u = nxt_ref size_nxt g u \<and>
        align_body (\<lambda>t g. Inr 0) u g' = align_body (\<lambda>t g. Inr 0) u g \<and> Inr = Inr"
      by (auto simp: same_layout_def nxt_ref_def align_body_def)
  qed
qed

definition sizes_end :: "type_graph \<Rightarrow> bool" where
  "sizes_end g \<longleftrightarrow> (\<forall>t. in_graph g t \<longrightarrow> type_size g t \<noteq> Inl Diverge)"

lemma prim_size_ok: "k \<noteq> Float80 \<Longrightarrow> \<exists>z. prim_size k = Inr z"
  by (cases k) auto

lemma recur_size_total:
  assumes "wf_refs g"
  shows "in_graph g t \<Longrightarrow> recur size_body k t g \<noteq> Inl Diverge \<Longrightarrow> \<exists>z. recur size_body k t g = Inr z"
    "in_graph g t \<Longrightarrow> recur align_body k t g \<noteq> Inl Diverge \<Longrightarrow> \<exists>z. recur align_body k t g = Inr z"
proof (induction k arbitrary: t)
  case (Suc k)
  have refs: "in_graph g u" if "in_graph g t" "deref g t = Inr n" "u \<in> set (refs n)" for t n u
    using that wf_refsD [OF assms] by (cases t) auto
  have prim: "k' \<noteq> Float80" if "in_graph g t" "deref g t = Inr (Primitive k')" for t k'
    using that assms by (cases t) (auto simp: wf_refs_def node_at_def dest!: nth_mem)
  {
    case 1
    obtain n where n: "deref g t = Inr n" using deref_in_graph [OF 1(1)] by blast
    have IH: "\<exists>z. recur size_body k u g = Inr z" if "u \<in> set (refs n)" "recur size_body k u g \<noteq> Inl Diverge" for u
      using Suc(1) refs [OF 1(1) n] that by blast
    have run: "recur size_body (Suc k) t g = size_body (recur size_body k) t g" by simp
    show ?case
    proof (cases "size_nxt n")
      case None
      then show ?thesis
        using n prim [OF 1(1)] prim_size_ok unfolding run
        by (cases n) (auto simp: size_body_def [of "recur size_body k"])
    next
      case (Some u)
      then have "u \<in> set (refs n)" by (auto elim!: size_nxt.elims)
      moreover have "recur size_body k u g \<noteq> Inl Diverge"
        using 1(2) n Some unfolding run
        by (cases n) (auto simp: size_body_def [of "recur size_body k"])
      ultimately obtain z where "recur size_body k u g = Inr z" using IH by blast
      then show ?thesis
        using n Some unfolding run by (cases n) (auto simp: size_body_def [of "recur size_body k"])
    qed
  next
    case 2
    obtain n where n: "deref g t = Inr n" using deref_in_graph [OF 2(1)] by blast
    have IH: "\<exists>z. recur align_body k u g = Inr z" if "u \<in> set (refs n)" "recur align_body k u g \<noteq> Inl Diverge" for u
      using Suc(2) refs [OF 2(1) n] that by blast
    have run: "recur align_body (Suc k) t g = align_body (recur align_body k) t g" by simp
    show ?case
    proof (cases "size_nxt n")
      case None
      then show ?thesis
        using n prim [OF 2(1)] prim_size_ok unfolding run
        by (cases n) (auto simp: align_body_def [of "recur align_body k"])
    next
      case (Some u)
      then have "u \<in> set (refs n)" by (auto elim!: size_nxt.elims)
      moreover have "recur align_body k u g \<noteq> Inl Diverge"
        using 2(2) n Some unfolding run
        by (cases n) (auto simp: align_body_def [of "recur align_body k"])
      ultimately obtain z where "recur align_body k u g = Inr z" using IH by blast
      then show ?thesis
        using n Some unfolding run by (cases n) (auto simp: align_body_def [of "recur align_body k"])
    qed
  }
qed simp_all

lemma layout_known:
  assumes "wf_refs g" "sizes_end g" "in_graph g t"
  obtains z a where "type_size g t = Inr z" "type_align g t = Inr a"
proof -
  have "type_size g t \<noteq> Inl Diverge" using assms(2,3) by (simp add: sizes_end_def)
  moreover from this have "type_align g t \<noteq> Inl Diverge"
    by (simp add: type_size_def type_align_def sz.recur_diverges al.recur_diverges)
  ultimately show ?thesis
    using that recur_size_total [OF assms(1,3)] unfolding type_size_def type_align_def by blast
qed

section \<open>What the pass keeps\<close>

text \<open>What stands for a parameter of type \<open>t\<close> of the graph \<open>g0\<close>, in the graph \<open>g\<close>.\<close>

definition dummy_for ::
    "(string \<Rightarrow> string \<Rightarrow> bool) \<Rightarrow> container_info list \<Rightarrow> type_graph \<Rightarrow> tref \<Rightarrow> type_graph \<Rightarrow> tref \<Rightarrow> bool" where
  "dummy_for rx infos g0 t g d \<longleftrightarrow> (\<exists>n. deref g d = Inr n \<and> (case n of
      Dummy du \<Rightarrow> \<exists>z a nm. type_size g0 t = Inr z \<and> type_align g0 t = Inr a \<and> type_name g0 t = Inr nm \<and>
        du_size du = stub_size z \<and> du_align du = a \<and> du_inputName du = nm
    | DummyAllocator da \<Rightarrow> \<exists>c q qs z a. deref g0 t = Inr (Class c) \<and> isAllocator c \<and>
        cl_templateParams c = q # qs \<and> type_size g0 t = Inr z \<and> type_align g0 t = Inr a \<and>
        da_type da = tp_type q \<and> da_size da = stub_size z \<and> da_align da = a \<and> da_inputName da = cl_name c
    | Container co \<Rightarrow> \<exists>c. deref g0 t = Inr (Class c) \<and> co_underlying co = Some t \<and> co_size co = cl_size c \<and>
        co_info co \<in> set infos \<and> ci_matches rx (co_info co) (fqName c)
    | _ \<Rightarrow> False))"

definition param_kept ::
    "(string \<Rightarrow> string \<Rightarrow> bool) \<Rightarrow> container_info list \<Rightarrow> type_graph \<Rightarrow> type_graph \<Rightarrow> template_param \<Rightarrow> template_param \<Rightarrow> bool" where
  "param_kept rx infos g0 g p p' \<longleftrightarrow> p' = p \<or> (\<exists>d. p' = mk_param d \<and> dummy_for rx infos g0 (tp_type p) g d)"

definition node_kept ::
    "(string \<Rightarrow> string \<Rightarrow> bool) \<Rightarrow> container_info list \<Rightarrow> type_graph \<Rightarrow> type_graph \<Rightarrow> ty \<Rightarrow> ty \<Rightarrow> bool" where
  "node_kept rx infos g0 g n n' \<longleftrightarrow> n' = n \<or> (\<exists>c ps. n = Container c \<and> n' = Container (c\<lparr>co_templateParams := ps\<rparr>) \<and>
     list_all2 (param_kept rx infos g0 g) (co_templateParams c) ps)"

text \<open>A parameter the generated code may use.\<close>

definition identified ::
    "(string \<Rightarrow> string \<Rightarrow> bool) \<Rightarrow> container_info list \<Rightarrow> nat list \<Rightarrow> type_graph \<Rightarrow> nat \<Rightarrow> template_param \<Rightarrow> bool" where
  "identified rx infos stubs g i p \<longleftrightarrow> (\<exists>n. deref g (tp_type p) = Inr n \<and> (case n of
      Dummy d \<Rightarrow> True
    | DummyAllocator d \<Rightarrow> True
    | Container c \<Rightarrow> True
    | Class c \<Rightarrow> i \<notin> set stubs \<and> (\<forall>info \<in> set infos. \<not> ci_matches rx info (fqName c))
    | _ \<Rightarrow> i \<notin> set stubs))"

definition ti_frame :: "ti_state \<Rightarrow> ti_state \<Rightarrow> bool" where
  "ti_frame s s' \<longleftrightarrow> (\<forall>t n. deref (ps_graph s) t = Inr n \<longrightarrow>
     (\<exists>n'. deref (ps_graph s') t = Inr n' \<and> same_layout n n')) \<and>
     (\<forall>k d. ti_dummys s k = Some d \<longrightarrow> ti_dummys s' k = Some d)"

lemma same_layout_refl: "same_layout n n"
  by (simp add: same_layout_def)

lemma same_layout_trans: "same_layout n n' \<Longrightarrow> same_layout n' n'' \<Longrightarrow> same_layout n n''"
  by (auto simp: same_layout_def)

lemma ti_frame_refl: "ti_frame s s"
  using same_layout_refl by (auto simp: ti_frame_def)

lemma ti_frame_trans: "ti_frame s s' \<Longrightarrow> ti_frame s' s'' \<Longrightarrow> ti_frame s s''"
  unfolding ti_frame_def using same_layout_trans by meson

lemma dummy_for_frame:
  assumes "dummy_for rx infos g0 t (ps_graph s) d" "ti_frame s s'"
  shows "dummy_for rx infos g0 t (ps_graph s') d"
proof -
  obtain n where n: "deref (ps_graph s) d = Inr n" using assms(1) by (auto simp: dummy_for_def)
  obtain n' where "deref (ps_graph s') d = Inr n'" "same_layout n n'"
    using assms(2) n unfolding ti_frame_def by blast
  then show ?thesis using assms(1) n by (cases n) (auto simp: dummy_for_def same_layout_def)
qed

lemma node_kept_frame:
  assumes "node_kept rx infos g0 (ps_graph s) n n'" "ti_frame s s'"
  shows "node_kept rx infos g0 (ps_graph s') n n'"
proof -
  have "param_kept rx infos g0 (ps_graph s') p p'" if "param_kept rx infos g0 (ps_graph s) p p'" for p p'
    using that dummy_for_frame [OF _ assms(2)] by (auto simp: param_kept_def)
  then show ?thesis using assms(1) list_all2_mono unfolding node_kept_def by metis
qed

lemma identified_frame:
  assumes "identified rx infos stubs (ps_graph s) i p" "ti_frame s s'"
  shows "identified rx infos stubs (ps_graph s') i p"
proof -
  obtain n where n: "deref (ps_graph s) (tp_type p) = Inr n" using assms(1) by (auto simp: identified_def)
  obtain n' where "deref (ps_graph s') (tp_type p) = Inr n'" "same_layout n n'"
    using assms(2) n unfolding ti_frame_def by blast
  then show ?thesis using assms(1) n by (cases n) (auto simp: identified_def same_layout_def)
qed

definition class_ids :: "type_graph \<Rightarrow> node_id set" where
  "class_ids g = {k. \<exists>i c. i < length (nodes g) \<and> node_at g i = Class c \<and> cl_id c = k}"

text \<open>
  The invariant of the states of a run on \<open>g0\<close>: \<open>ti_old\<close> about the nodes it started from, \<open>ti_new\<close> about those it
  has made: dummies, allocators of a type it started from, and the containers of the map.
\<close>

definition ti_start :: "type_graph \<Rightarrow> bool" where
  "ti_start g \<longleftrightarrow> wf_graph g \<and> no_capture_keys g \<and> sizes_end g"

definition ti_old :: "(string \<Rightarrow> string \<Rightarrow> bool) \<Rightarrow> container_info list \<Rightarrow> type_graph \<Rightarrow> ti_state \<Rightarrow> bool" where
  "ti_old rx infos g0 s \<longleftrightarrow> ti_start g0 \<and> wf_graph (ps_graph s) \<and> extends g0 (ps_graph s) \<and>
     finalTypes (ps_graph s) = finalTypes g0 \<and>
     (\<forall>i < length (nodes g0). node_kept rx infos g0 (ps_graph s) (node_at g0 i) (node_at (ps_graph s) i) \<and>
        (\<not> tracked (fst (ps_marks s)) (type_id (node_at g0 i)) \<longrightarrow> node_at (ps_graph s) i = node_at g0 i)) \<and>
     (\<forall>nid. tracked (fst (ps_marks s)) nid \<longrightarrow> nid < next_id (ps_graph s))"

definition new_node :: "type_graph \<Rightarrow> ti_state \<Rightarrow> nat \<Rightarrow> bool" where
  "new_node g0 s i \<longleftrightarrow> (case node_at (ps_graph s) i of
      Dummy d \<Rightarrow> True
    | DummyAllocator d \<Rightarrow> in_graph g0 (da_type d)
    | Container c \<Rightarrow> (\<exists>k \<in> class_ids g0. ti_dummys s k = Some (NodeRef i)) \<and>
        (\<not> tracked (fst (ps_marks s)) (co_id c) \<longrightarrow> (\<forall>p \<in> set (co_templateParams c). in_graph g0 (tp_type p)))
    | _ \<Rightarrow> False)"

definition made_for ::
    "(string \<Rightarrow> string \<Rightarrow> bool) \<Rightarrow> container_info list \<Rightarrow> type_graph \<Rightarrow> ti_state \<Rightarrow> node_id \<Rightarrow> tref \<Rightarrow> bool" where
  "made_for rx infos g0 s k d \<longleftrightarrow> (\<exists>j c. j < length (nodes g0) \<and> node_at g0 j = Class c \<and> cl_id c = k \<and>
     (\<exists>co. deref (ps_graph s) d = Inr (Container co) \<and> co_underlying co = Some (NodeRef j) \<and> co_size co = cl_size c \<and>
       co_info co \<in> set infos \<and> ci_matches rx (co_info co) (fqName c)))"

definition ti_new :: "(string \<Rightarrow> string \<Rightarrow> bool) \<Rightarrow> container_info list \<Rightarrow> type_graph \<Rightarrow> ti_state \<Rightarrow> bool" where
  "ti_new rx infos g0 s \<longleftrightarrow>
     (\<forall>i < length (nodes (ps_graph s)). length (nodes g0) \<le> i \<longrightarrow> new_node g0 s i) \<and>
     (\<forall>k d. ti_dummys s k = Some d \<longrightarrow> made_for rx infos g0 s k d)"

definition ti_ok :: "(string \<Rightarrow> string \<Rightarrow> bool) \<Rightarrow> container_info list \<Rightarrow> type_graph \<Rightarrow> ti_state \<Rightarrow> bool" where
  "ti_ok rx infos g0 s \<longleftrightarrow> ti_old rx infos g0 s \<and> ti_new rx infos g0 s"

lemma node_kept_layout: "node_kept rx infos g0 g n n' \<Longrightarrow> same_layout n n'"
  by (auto simp: node_kept_def same_layout_def)

lemma ti_deref:
  assumes "ti_old rx infos g0 s" "in_graph g0 t"
  obtains n n' where "deref g0 t = Inr n" "deref (ps_graph s) t = Inr n'" "same_layout n n'"
proof (cases t)
  case (PrimRef k)
  then show ?thesis using that same_layout_refl by simp
next
  case (NodeRef i)
  then have "i < length (nodes g0)" using assms(2) by simp
  moreover from this have "same_layout (node_at g0 i) (node_at (ps_graph s) i)"
    "i < length (nodes (ps_graph s))"
    using assms(1) node_kept_layout by (auto simp: ti_old_def extends_def)
  ultimately show ?thesis using that NodeRef by simp
qed

lemma ti_layout:
  assumes "ti_old rx infos g0 s" "in_graph g0 t"
  obtains z a nm where "type_size g0 t = Inr z" "type_align g0 t = Inr a" "type_name g0 t = Inr nm"
    "type_size (ps_graph s) t = Inr z" "type_align (ps_graph s) t = Inr a" "type_name (ps_graph s) t = Inr nm"
proof -
  have wf: "wf_refs g0" and se: "sizes_end g0" using assms(1) by (auto simp: ti_old_def ti_start_def wf_graph_def)
  obtain z a where za: "type_size g0 t = Inr z" "type_align g0 t = Inr a"
    using layout_known [OF wf se assms(2)] .
  have same: "i < length (nodes (ps_graph s)) \<and> same_layout (node_at g0 i) (node_at (ps_graph s) i)"
    if "i < length (nodes g0)" for i
    using assms(1) that node_kept_layout by (auto simp: ti_old_def extends_def)
  note eq = layout_cong [OF wf assms(2) same]
  obtain nm where nm: "type_name g0 t = Inr nm" using type_name_ok [OF wf assms(2)] by blast
  obtain n n' where n: "deref g0 t = Inr n" "deref (ps_graph s) t = Inr n'" "same_layout n n'"
    using ti_deref [OF assms] .
  then have "type_name (ps_graph s) t = Inr nm" using nm by (auto simp: type_name_def same_layout_def)
  then show ?thesis using that za nm eq by simp
qed

section \<open>New nodes\<close>

text \<open>What the identification of a parameter does to the state: it appends nodes.\<close>

definition ti_grows :: "ti_state \<Rightarrow> ti_state \<Rightarrow> bool" where
  "ti_grows s s' \<longleftrightarrow> (\<exists>new. nodes (ps_graph s') = nodes (ps_graph s) @ new \<and>
       (\<forall>n \<in> set new. next_id (ps_graph s) \<le> type_id n)) \<and>
     next_id (ps_graph s) \<le> next_id (ps_graph s') \<and>
     rootTypes (ps_graph s') = rootTypes (ps_graph s) \<and> fst (ps_marks s') = fst (ps_marks s) \<and>
     (\<forall>k d. ti_dummys s k = Some d \<longrightarrow> ti_dummys s' k = Some d)"

lemma ti_grows_refl: "ti_grows s s"
  by (simp add: ti_grows_def)

lemma ti_grows_trans: "ti_grows s s' \<Longrightarrow> ti_grows s' s'' \<Longrightarrow> ti_grows s s''"
  by (fastforce simp: ti_grows_def)

lemma ti_growsD:
  assumes "ti_grows s s'"
  shows "ti_frame s s'" "extends (ps_graph s) (ps_graph s')" "fst (ps_marks s') = fst (ps_marks s)"
    "i < length (nodes (ps_graph s)) \<Longrightarrow> node_at (ps_graph s') i = node_at (ps_graph s) i"
    "i < length (nodes (ps_graph s')) \<Longrightarrow> length (nodes (ps_graph s)) \<le> i \<Longrightarrow>
       next_id (ps_graph s) \<le> type_id (node_at (ps_graph s') i)"
    "deref (ps_graph s) t = Inr n \<Longrightarrow> deref (ps_graph s') t = Inr n"
proof -
  obtain new where new: "nodes (ps_graph s') = nodes (ps_graph s) @ new"
    "\<forall>n \<in> set new. next_id (ps_graph s) \<le> type_id n" "next_id (ps_graph s) \<le> next_id (ps_graph s')"
    "rootTypes (ps_graph s') = rootTypes (ps_graph s)" "fst (ps_marks s') = fst (ps_marks s)"
    "\<forall>k d. ti_dummys s k = Some d \<longrightarrow> ti_dummys s' k = Some d"
    using assms unfolding ti_grows_def by blast
  show deref: "deref (ps_graph s) t = Inr n \<Longrightarrow> deref (ps_graph s') t = Inr n" for t n
    using new(1) by (cases t) (auto simp: deref.simps nth_append split: if_splits)
  then show "ti_frame s s'" using new(6) same_layout_refl unfolding ti_frame_def by blast
  show old: "i < length (nodes (ps_graph s)) \<Longrightarrow> node_at (ps_graph s') i = node_at (ps_graph s) i" for i
    using new(1) by (simp add: node_at_def nth_append)
  show "i < length (nodes (ps_graph s')) \<Longrightarrow> length (nodes (ps_graph s)) \<le> i \<Longrightarrow>
       next_id (ps_graph s) \<le> type_id (node_at (ps_graph s') i)"
    using new(1,2) by (simp add: node_at_def nth_append)
  show "extends (ps_graph s) (ps_graph s')" using new(1,3,4) old by (simp add: extends_def)
  show "fst (ps_marks s') = fst (ps_marks s)" by (rule new(5))
qed

lemma made_for_grows:
  assumes "made_for rx infos g0 s k d" "ti_grows s s'"
  shows "made_for rx infos g0 s' k d"
proof -
  obtain j c co where m: "j < length (nodes g0)" "node_at g0 j = Class c" "cl_id c = k"
    "deref (ps_graph s) d = Inr (Container co)" "co_underlying co = Some (NodeRef j)" "co_size co = cl_size c"
    "co_info co \<in> set infos" "ci_matches rx (co_info co) (fqName c)"
    using assms(1) unfolding made_for_def by blast
  have "deref (ps_graph s') d = Inr (Container co)" by (rule ti_growsD(6) [OF assms(2) m(4)])
  then show ?thesis using m unfolding made_for_def by blast
qed

lemma new_node_grows:
  assumes "new_node g0 s i" "ti_grows s s'" "i < length (nodes (ps_graph s))"
  shows "new_node g0 s' i"
proof -
  have "node_at (ps_graph s') i = node_at (ps_graph s) i" "fst (ps_marks s') = fst (ps_marks s)"
    using ti_growsD(3,4) [OF assms(2)] assms(3) by auto
  moreover have "\<forall>k d. ti_dummys s k = Some d \<longrightarrow> ti_dummys s' k = Some d" using assms(2) by (simp add: ti_grows_def)
  ultimately show ?thesis using assms(1) by (auto simp: new_node_def split: ty.splits)
qed

lemma ti_add:
  assumes ok: "ti_ok rx infos g0 s" and mk: "make_type mk (ps_graph s) = (d, g')"
    and n: "n = mk (next_id (ps_graph s))" "type_id n = next_id (ps_graph s)" "has_node_id n"
      "\<forall>u \<in> set (refs n). in_graph (ps_graph s) u" "\<And>c. n \<noteq> Class c"
    and s': "s' = s\<lparr>ps_graph := g', ps_marks := (fst (ps_marks s), dm)\<rparr>"
    and dm: "\<And>k d. ti_dummys s k = Some d \<Longrightarrow> dm k = Some d"
      "\<And>k d'. dm k = Some d' \<Longrightarrow> ti_dummys s k = Some d' \<or> made_for rx infos g0 s' k d'"
    and new: "new_node g0 s' (length (nodes (ps_graph s)))"
  shows "ti_ok rx infos g0 s'" "ti_grows s s'" "deref (ps_graph s') d = Inr n" "in_graph (ps_graph s') d"
proof -
  have wf: "wf_graph (ps_graph s)" using ok by (simp add: ti_ok_def ti_old_def)
  note wf' = make_type_wf [OF wf mk, folded n(1), OF n(2-4)]
  have mt: "wf_graph g'" "d = NodeRef (length (nodes (ps_graph s)))" "deref g' d = Inr n"
    "next_id g' = next_id (ps_graph s) + 1" "nodes g' = nodes (ps_graph s) @ [n]"
    using wf' n(5) by auto
  have other: "rootTypes g' = rootTypes (ps_graph s)" "finalTypes g' = finalTypes (ps_graph s)"
    using mk by (auto simp: make_type_def make_type_id_def)
  have g: "ps_graph s' = g'" "fst (ps_marks s') = fst (ps_marks s)" "ti_dummys s' = dm"
    by (simp_all add: s' ti_dummys_def)
  show grows: "ti_grows s s'"
    using mt(4,5) other n(2) dm(1) g by (auto simp: ti_grows_def)
  show "deref (ps_graph s') d = Inr n" "in_graph (ps_graph s') d" using mt(2,3,5) g by simp_all
  have old: "ti_old rx infos g0 s" and tn: "ti_new rx infos g0 s" using ok by (simp_all add: ti_ok_def)
  have "ti_old rx infos g0 s'"
    unfolding ti_old_def g
  proof (intro conjI allI impI)
    show "ti_start g0" "wf_graph g'" using old mt(1) by (simp_all add: ti_old_def)
    show "extends g0 g'" using old ti_growsD(2) [OF grows] extends_trans g(1) by (metis ti_old_def)
    show "finalTypes g' = finalTypes g0" using old other by (simp add: ti_old_def)
    fix i assume i: "i < length (nodes g0)"
    have i': "i < length (nodes (ps_graph s))" using old i by (auto simp: ti_old_def extends_def)
    have at: "node_at g' i = node_at (ps_graph s) i" using ti_growsD(4) [OF grows i'] g(1) by simp
    have "node_kept rx infos g0 (ps_graph s) (node_at g0 i) (node_at (ps_graph s) i)"
      using old i by (simp add: ti_old_def)
    then show "node_kept rx infos g0 g' (node_at g0 i) (node_at g' i)"
      using node_kept_frame [OF _ ti_growsD(1) [OF grows]] at g(1) by simp
    show "node_at g' i = node_at g0 i" if "\<not> tracked (fst (ps_marks s)) (type_id (node_at g0 i))"
      using old i at that by (simp add: ti_old_def)
  next
    fix nid assume "tracked (fst (ps_marks s)) nid"
    then show "nid < next_id g'" using old mt(4) by (fastforce simp: ti_old_def)
  qed
  moreover have "ti_new rx infos g0 s'"
    unfolding ti_new_def g
  proof (intro conjI allI impI)
    fix i assume i: "i < length (nodes g')" "length (nodes g0) \<le> i"
    show "new_node g0 s' i"
    proof (cases "i < length (nodes (ps_graph s))")
      case True
      then have "new_node g0 s i" using tn i(2) by (simp add: ti_new_def)
      then show ?thesis using new_node_grows [OF _ grows True] by blast
    next
      case False
      then have "i = length (nodes (ps_graph s))" using i(1) mt(5) by simp
      then show ?thesis using new by simp
    qed
  next
    fix k d' assume "dm k = Some d'"
    then show "made_for rx infos g0 s' k d'"
      using dm(2) made_for_grows [OF _ grows] tn unfolding ti_new_def by blast
  qed
  ultimately show "ti_ok rx infos g0 s'" by (simp add: ti_ok_def)
qed

definition ti_errors :: "type_graph \<Rightarrow> error set" where
  "ti_errors g0 = {e. e = Throw ''std::out_of_range'' \<and>
     (\<exists>c. Class c \<in> set (nodes g0) \<and> isAllocator c \<and> cl_templateParams c = [])}"

text \<open>What the identification of a parameter achieves.\<close>

definition param_done ::
    "(string \<Rightarrow> string \<Rightarrow> bool) \<Rightarrow> container_info list \<Rightarrow> type_graph \<Rightarrow> nat list \<Rightarrow> nat \<Rightarrow> template_param \<Rightarrow> ti_state \<Rightarrow>
     template_param \<times> ti_state \<Rightarrow> bool" where
  "param_done rx infos g0 stubs i p s r = (case r of (p', s') \<Rightarrow> ti_ok rx infos g0 s' \<and> ti_grows s s' \<and>
     in_graph (ps_graph s') (tp_type p') \<and> identified rx infos stubs (ps_graph s') i p' \<and>
     param_kept rx infos g0 (ps_graph s') p p')"

lemma mk_param_type [simp]: "tp_type (mk_param d) = d"
  by (simp add: mk_param_def)

lemma ti_grown: "ti_ok rx infos g0 s \<Longrightarrow> in_graph g0 t \<Longrightarrow> in_graph (ps_graph s) t"
  using extends_in_graph by (auto simp: ti_ok_def ti_old_def)

lemma stub_dummy_spec:
  assumes ok: "ti_ok rx infos g0 s" and p: "in_graph g0 (tp_type p)" "type_size g0 (tp_type p) = Inr z"
  shows "spec (ti_errors g0) (stub_dummy (tp_type p) (stub_size z) s) (param_done rx infos g0 stubs i p s)"
proof -
  obtain z' a nm where l: "type_size g0 (tp_type p) = Inr z'" "type_align g0 (tp_type p) = Inr a" "type_name g0 (tp_type p) = Inr nm"
    "type_size (ps_graph s) (tp_type p) = Inr z'" "type_align (ps_graph s) (tp_type p) = Inr a" "type_name (ps_graph s) (tp_type p) = Inr nm"
    by (rule ti_layout [OF ok [unfolded ti_ok_def, THEN conjunct1] p(1)])
  define mk where "mk = (\<lambda>nid. Dummy (mk_dummy (stub_size z) a nm nid))"
  obtain d g' where dg: "make_type mk (ps_graph s) = (d, g')" by (cases "make_type mk (ps_graph s)")
  let ?s' = "s\<lparr>ps_graph := g'\<rparr>"
  have s': "?s' = s\<lparr>ps_graph := g', ps_marks := (fst (ps_marks s), ti_dummys s)\<rparr>" by (simp add: ti_dummys_def)
  have at: "node_at g' (length (nodes (ps_graph s))) = mk (next_id (ps_graph s))"
    using dg by (auto simp: make_type_def make_type_id_def node_at_def)
  have new: "new_node g0 ?s' (length (nodes (ps_graph s)))" by (simp add: new_node_def at) (simp add: mk_def)
  note add = ti_add [OF ok dg refl _ _ _ _ s' _ _ new]
  have add': "ti_ok rx infos g0 ?s'" "ti_grows s ?s'" "deref g' d = Inr (mk (next_id (ps_graph s)))" "in_graph g' d"
    using add by (simp_all add: mk_def mk_dummy_def)
  have "stub_dummy (tp_type p) (stub_size z) s = Inr (mk_param d, ?s')"
    using l dg by (simp add: stub_dummy_def mk_def)
  moreover have "dummy_for rx infos g0 (tp_type p) g' d"
    using add'(3) p(2) l by (auto simp: dummy_for_def mk_def mk_dummy_def)
  moreover have "identified rx infos stubs g' i (mk_param d)" using add'(3) by (simp add: identified_def mk_def)
  ultimately show ?thesis using add' by (auto simp: param_done_def param_kept_def)
qed

lemma stub_allocator_spec:
  assumes ok: "ti_ok rx infos g0 s" and p: "in_graph g0 (tp_type p)" "type_size g0 (tp_type p) = Inr z"
    and c: "deref g0 (tp_type p) = Inr (Class c)" "isAllocator c"
  shows "spec (ti_errors g0) (stub_allocator (tp_type p) c (stub_size z) s) (param_done rx infos g0 stubs i p s)"
proof (cases "cl_templateParams c")
  case Nil
  obtain j where "j < length (nodes g0)" "node_at g0 j = Class c"
    using deref_owner [OF c(1)] by (metis ctor_of.simps(2) numeral_One numeral_eq_iff semiring_norm(86))
  then have "Class c \<in> set (nodes g0)" unfolding node_at_def by (metis nth_mem)
  then show ?thesis using Nil c(2) by (auto simp: stub_allocator_def ti_errors_def)
next
  case (Cons q qs)
  obtain z' a nm where l: "type_size g0 (tp_type p) = Inr z'" "type_align g0 (tp_type p) = Inr a" "type_name g0 (tp_type p) = Inr nm"
    "type_size (ps_graph s) (tp_type p) = Inr z'" "type_align (ps_graph s) (tp_type p) = Inr a" "type_name (ps_graph s) (tp_type p) = Inr nm"
    by (rule ti_layout [OF ok [unfolded ti_ok_def, THEN conjunct1] p(1)])
  have wf0: "wf_graph g0" using ok by (simp add: ti_ok_def ti_old_def ti_start_def)
  have q: "in_graph g0 (tp_type q)" using refs_in_graph [OF wf0 c(1), of "tp_type q"] Cons by simp
  have wf: "wf_refs (ps_graph s)" using ok by (simp add: ti_ok_def ti_old_def wf_graph_def)
  obtain nm where nm: "dummy_allocator_name (ps_graph s) (tp_type q) (stub_size z) a (next_id (ps_graph s)) = Inr nm"
    using type_name_ok [OF wf ti_grown [OF ok q]] by (auto simp: dummy_allocator_name_def)
  define mk where "mk = (\<lambda>nid. DummyAllocator \<lparr>da_id = nid, da_type = tp_type q, da_size = stub_size z,
    da_align = a, da_name = nm, da_inputName = cl_name c\<rparr>)"
  obtain d g' where dg: "make_type mk (ps_graph s) = (d, g')" by (cases "make_type mk (ps_graph s)")
  let ?s' = "s\<lparr>ps_graph := g'\<rparr>"
  have s': "?s' = s\<lparr>ps_graph := g', ps_marks := (fst (ps_marks s), ti_dummys s)\<rparr>" by (simp add: ti_dummys_def)
  have at: "node_at g' (length (nodes (ps_graph s))) = mk (next_id (ps_graph s))"
    using dg by (auto simp: make_type_def make_type_id_def node_at_def)
  have new: "new_node g0 ?s' (length (nodes (ps_graph s)))" by (simp add: new_node_def at) (simp add: mk_def q)
  note add = ti_add [OF ok dg refl _ _ _ _ s' _ _ new]
  have add': "ti_ok rx infos g0 ?s'" "ti_grows s ?s'" "deref g' d = Inr (mk (next_id (ps_graph s)))" "in_graph g' d"
    using add ti_grown [OF ok q] by (simp_all add: mk_def)
  have "stub_allocator (tp_type p) c (stub_size z) s = Inr (mk_param d, ?s')"
    using l dg nm Cons by (simp add: stub_allocator_def make_dummy_allocator_def mk_def)
  moreover have "dummy_for rx infos g0 (tp_type p) g' d"
    using add'(3) p(2) l c Cons by (auto simp: dummy_for_def mk_def)
  moreover have "identified rx infos stubs g' i (mk_param d)" using add'(3) by (simp add: identified_def mk_def)
  ultimately show ?thesis using add' by (auto simp: param_done_def param_kept_def)
qed

lemma pass_through_spec:
  assumes ok: "ti_ok rx infos g0 s" and p: "in_graph g0 (tp_type p)"
    and c: "deref g0 (tp_type p) = Inr (Class c)" "info \<in> set infos" "ci_matches rx info (fqName c)"
  shows "spec (ti_errors g0) (pass_through info (tp_type p) c s) (param_done rx infos g0 stubs i p s)"
proof -
  have wf0: "wf_graph g0" using ok by (simp add: ti_ok_def ti_old_def ti_start_def)
  obtain j where j: "tp_type p = NodeRef j" "j < length (nodes g0)" "node_at g0 j = Class c"
    using id_owner [OF c(1)] by auto
  have tn: "ti_new rx infos g0 s" using ok by (simp add: ti_ok_def)
  show ?thesis
  proof (cases "ti_dummys s (cl_id c)")
    case (Some d)
    then obtain j' c' co where m: "j' < length (nodes g0)" "node_at g0 j' = Class c'" "cl_id c' = cl_id c"
      "deref (ps_graph s) d = Inr (Container co)" "co_underlying co = Some (NodeRef j')" "co_size co = cl_size c'"
      "co_info co \<in> set infos" "ci_matches rx (co_info co) (fqName c')"
      using tn unfolding ti_new_def made_for_def by blast
    have "wf_ids g0" using wf0 by (simp add: wf_graph_def)
    then have "j' = j" using wf_idsD(3) [OF _ m(1) _ j(2)] m(2,3) j(3) by simp
    then have "dummy_for rx infos g0 (tp_type p) (ps_graph s) d"
      using m j c(1) by (auto simp: dummy_for_def)
    moreover have "in_graph (ps_graph s) d" by (rule id_owner [OF m(4)]) simp_all
    moreover have "identified rx infos stubs (ps_graph s) i (mk_param d)" using m(4) by (simp add: identified_def)
    ultimately show ?thesis
      using Some ok ti_grows_refl by (auto simp: pass_through_def param_done_def param_kept_def)
  next
    case None
    obtain z a nm where z: "type_size g0 (tp_type p) = Inr z" "type_align g0 (tp_type p) = Inr a" "type_name g0 (tp_type p) = Inr nm"
      "type_size (ps_graph s) (tp_type p) = Inr z" "type_align (ps_graph s) (tp_type p) = Inr a" "type_name (ps_graph s) (tp_type p) = Inr nm"
      by (rule ti_layout [OF ok [unfolded ti_ok_def, THEN conjunct1] p])
    have "type_size g0 (tp_type p) = Inr (cl_size c)" using type_size_unfold [of g0 "tp_type p"] c(1)
      by (simp add: size_body_def)
    then have zc: "z = cl_size c" using z(1) by simp
    define mk where "mk = (\<lambda>nid. Container ((mk_container info z (Some (tp_type p)) nid)
      \<lparr>co_templateParams := cl_templateParams c\<rparr>))"
    obtain d g' where dg: "make_type mk (ps_graph s) = (d, g')" by (cases "make_type mk (ps_graph s)")
    have d: "d = NodeRef (length (nodes (ps_graph s)))" using dg by (auto simp: make_type_def make_type_id_def)
    let ?dm = "(ti_dummys s)(cl_id c \<mapsto> d)"
    let ?s' = "s\<lparr>ps_graph := g', ps_marks := (fst (ps_marks s), ?dm)\<rparr>"
    have at: "node_at g' (length (nodes (ps_graph s))) = mk (next_id (ps_graph s))"
      "length (nodes g') = Suc (length (nodes (ps_graph s)))"
      using dg by (auto simp: make_type_def make_type_id_def node_at_def)
    have ps: "\<forall>q \<in> set (cl_templateParams c). in_graph g0 (tp_type q)"
      using refs_in_graph [OF wf0 c(1)] by auto
    have new: "new_node g0 ?s' (length (nodes (ps_graph s)))"
      using ps j by (simp add: new_node_def at) (auto simp: mk_def mk_container_def ti_dummys_def class_ids_def d)
    have made: "made_for rx infos g0 ?s' (cl_id c) d"
    proof -
      have "deref g' d = Inr (mk (next_id (ps_graph s)))" using at by (simp add: d)
      then show ?thesis using j c(2,3) zc by (auto simp: made_for_def mk_def mk_container_def)
    qed
    have r: "\<forall>u \<in> set (refs (mk (next_id (ps_graph s)))). in_graph (ps_graph s) u"
      using ps p ti_grown [OF ok] by (auto simp: mk_def mk_container_def)
    have n: "type_id (mk (next_id (ps_graph s))) = next_id (ps_graph s)" "has_node_id (mk (next_id (ps_graph s)))"
      "mk (next_id (ps_graph s)) \<noteq> Class c'" for c' by (simp_all add: mk_def mk_container_def)
    have dm: "ti_dummys s k = Some d' \<Longrightarrow> ?dm k = Some d'"
      "?dm k = Some d' \<Longrightarrow> ti_dummys s k = Some d' \<or> made_for rx infos g0 ?s' k d'" for k d'
      using None made by (auto simp del: fun_upd_apply simp: fun_upd_def split: if_splits)
    note add = ti_add [OF ok dg refl n(1,2) r n(3) refl dm new]
    have add': "ti_ok rx infos g0 ?s'" "ti_grows s ?s'" "deref g' d = Inr (mk (next_id (ps_graph s)))" "in_graph g' d"
      using add by simp_all
    have "pass_through info (tp_type p) c s = Inr (mk_param d, ?s')"
      using None z(4) dg by (simp add: pass_through_def mk_def)
    moreover have "dummy_for rx infos g0 (tp_type p) g' d"
      using add'(3) c zc by (auto simp: dummy_for_def mk_def mk_container_def)
    moreover have "identified rx infos stubs g' i (mk_param d)" using add'(3) by (simp add: identified_def mk_def)
    ultimately show ?thesis using add' by (auto simp: param_done_def param_kept_def)
  qed
qed

lemma stub_param_spec:
  assumes ok: "ti_ok rx infos g0 s" and p: "in_graph g0 (tp_type p)" and n: "deref g0 (tp_type p) = Inr n"
  shows "spec (ti_errors g0) (stub_param (tp_type p) n s) (param_done rx infos g0 stubs i p s)"
proof -
  obtain z a nm where l: "type_size g0 (tp_type p) = Inr z" "type_align g0 (tp_type p) = Inr a" "type_name g0 (tp_type p) = Inr nm"
    "type_size (ps_graph s) (tp_type p) = Inr z" "type_align (ps_graph s) (tp_type p) = Inr a" "type_name (ps_graph s) (tp_type p) = Inr nm"
    by (rule ti_layout [OF ok [unfolded ti_ok_def, THEN conjunct1] p])
  show ?thesis
  proof (cases "\<exists>c. n = Class c \<and> isAllocator c")
    case True
    then show ?thesis using stub_allocator_spec [OF ok p l(1)] n l(4) by (auto simp: stub_param_def)
  next
    case False
    then have "stub_param (tp_type p) n s = stub_dummy (tp_type p) (stub_size z) s"
      using l(4) by (auto simp: stub_param_def split: ty.splits)
    then show ?thesis using stub_dummy_spec [OF ok p l(1)] by simp
  qed
qed

lemma identify_param_spec:
  assumes ok: "ti_ok rx infos g0 s" and p: "in_graph g0 (tp_type p)"
  shows "spec (ti_errors g0) (identify_param rx infos stubs i p s) (param_done rx infos g0 stubs i p s)"
proof -
  obtain n0 n where n: "deref g0 (tp_type p) = Inr n0" "deref (ps_graph s) (tp_type p) = Inr n" "same_layout n0 n"
    by (rule ti_deref [OF ok [unfolded ti_ok_def, THEN conjunct1] p])
  note stub = stub_param_spec [OF ok p n(1)]
  have keep: "param_done rx infos g0 stubs i p s (p, s)" if "identified rx infos stubs (ps_graph s) i p"
    using that ok ti_grows_refl ti_grown [OF ok p] by (simp add: param_done_def param_kept_def)
  show ?thesis
  proof (cases "\<exists>c. n = Class c")
    case True
    then obtain c where c: "n = Class c" "n0 = Class c" using n(3) by (auto simp: same_layout_def)
    show ?thesis
    proof (cases "find (\<lambda>info. ci_matches rx info (fqName c)) infos")
      case None
      then have "\<forall>info \<in> set infos. \<not> ci_matches rx info (fqName c)" by (auto simp: find_None_iff)
      then have "i \<notin> set stubs \<Longrightarrow> identified rx infos stubs (ps_graph s) i p"
        using n(2) c by (simp add: identified_def)
      then show ?thesis using stub None n(2) c keep by (auto simp: identify_param_def get_ty_def)
    next
      case (Some info)
      then have "info \<in> set infos" "ci_matches rx info (fqName c)" by (auto simp: find_Some_iff)
      from pass_through_spec [OF ok p n(1) [unfolded c(2)] this]
      show ?thesis using Some n(2) c by (simp add: identify_param_def get_ty_def)
    qed
  next
    case nc: False
    show ?thesis
    proof (cases "ctor_of n = 2 \<or> ctor_of n = 9 \<or> ctor_of n = 10")
      case True
      then have "identified rx infos stubs (ps_graph s) i p" using n(2) by (cases n) (auto simp: identified_def)
      moreover have "identify_param rx infos stubs i p s = Inr (p, s)"
        using True n(2) by (cases n) (auto simp: identify_param_def get_ty_def)
      ultimately show ?thesis using keep by simp
    next
      case False
      then have "n0 = n" using n(3) by (auto simp: same_layout_def)
      moreover have "identify_param rx infos stubs i p s =
          (if i \<in> set stubs then stub_param (tp_type p) n s else Inr (p, s))"
        using False nc n(2) by (cases n) (auto simp: identify_param_def get_ty_def)
      moreover have "identified rx infos stubs (ps_graph s) i p" if "i \<notin> set stubs"
        using that n(2) nc by (cases n) (auto simp: identified_def)
      ultimately show ?thesis using stub keep by simp
    qed
  qed
qed

lemma param_kept_grows:
  "param_kept rx infos g0 (ps_graph s) p p' \<Longrightarrow> ti_frame s s' \<Longrightarrow> param_kept rx infos g0 (ps_graph s') p p'"
  using dummy_for_frame by (auto simp: param_kept_def)

lemma identify_params_spec:
  assumes "ti_ok rx infos g0 s" "\<forall>p \<in> set ps. in_graph g0 (tp_type p)"
  shows "spec (ti_errors g0) (identify_params rx infos stubs k ps s) (\<lambda>(ps', s'). ti_ok rx infos g0 s' \<and> ti_grows s s' \<and>
    list_all2 (param_kept rx infos g0 (ps_graph s')) ps ps' \<and>
    (\<forall>j < length ps'. in_graph (ps_graph s') (tp_type (ps' ! j)) \<and>
       identified rx infos stubs (ps_graph s') (k + j) (ps' ! j)))"
  using assms
proof (induction ps arbitrary: k s)
  case Nil
  then show ?case using ti_grows_refl by simp
next
  case (Cons p ps)
  have "spec (ti_errors g0) (identify_param rx infos stubs k p s) (param_done rx infos g0 stubs k p s)"
    using Cons.prems by (intro identify_param_spec) auto
  then show ?case
    unfolding identify_params.simps
  proof (rule spec_bind_prodI [OF spec_mono])
    fix r assume "param_done rx infos g0 stubs k p s r"
    then show "case r of (p', s') \<Rightarrow> ti_ok rx infos g0 s' \<and> ti_grows s s' \<and>
     in_graph (ps_graph s') (tp_type p') \<and> identified rx infos stubs (ps_graph s') k p' \<and>
     param_kept rx infos g0 (ps_graph s') p p'" by (simp add: param_done_def)
  next
    fix p' s1 assume r: "ti_ok rx infos g0 s1 \<and> ti_grows s s1 \<and>
     in_graph (ps_graph s1) (tp_type p') \<and> identified rx infos stubs (ps_graph s1) k p' \<and>
     param_kept rx infos g0 (ps_graph s1) p p'"
    have "spec (ti_errors g0) (identify_params rx infos stubs (Suc k) ps s1) (\<lambda>(ps', s'). ti_ok rx infos g0 s' \<and>
      ti_grows s1 s' \<and> list_all2 (param_kept rx infos g0 (ps_graph s')) ps ps' \<and>
      (\<forall>j < length ps'. in_graph (ps_graph s') (tp_type (ps' ! j)) \<and>
         identified rx infos stubs (ps_graph s') (Suc k + j) (ps' ! j)))"
      using Cons.prems r by (intro Cons.IH) auto
    then show "spec (ti_errors g0) (bindE (identify_params rx infos stubs (Suc k) ps s1) (\<lambda>(ps, s). Inr (p' # ps, s)))
      (\<lambda>(ps', s'). ti_ok rx infos g0 s' \<and> ti_grows s s' \<and>
      list_all2 (param_kept rx infos g0 (ps_graph s')) (p # ps) ps' \<and>
      (\<forall>j < length ps'. in_graph (ps_graph s') (tp_type (ps' ! j)) \<and>
         identified rx infos stubs (ps_graph s') (k + j) (ps' ! j)))"
    proof (rule spec_bind_prodI, elim conjE)
      fix ps' s2 assume i: "ti_ok rx infos g0 s2" "ti_grows s1 s2"
        "list_all2 (param_kept rx infos g0 (ps_graph s2)) ps ps'"
        "\<forall>j < length ps'. in_graph (ps_graph s2) (tp_type (ps' ! j)) \<and>
           identified rx infos stubs (ps_graph s2) (Suc k + j) (ps' ! j)"
      note fr = ti_growsD(1,2) [OF i(2)]
      have "param_kept rx infos g0 (ps_graph s2) p p'" using r param_kept_grows [OF _ fr(1)] by blast
      moreover have "identified rx infos stubs (ps_graph s2) k p'" using r identified_frame [OF _ fr(1)] by blast
      moreover have "in_graph (ps_graph s2) (tp_type p')" using r extends_in_graph [OF fr(2)] by blast
      moreover have "ti_grows s s2" using r i(2) ti_grows_trans by blast
      ultimately show "spec (ti_errors g0) (Inr (p' # ps', s2)) (\<lambda>(ps', s'). ti_ok rx infos g0 s' \<and> ti_grows s s' \<and>
        list_all2 (param_kept rx infos g0 (ps_graph s')) (p # ps) ps' \<and>
        (\<forall>j < length ps'. in_graph (ps_graph s') (tp_type (ps' ! j)) \<and>
           identified rx infos stubs (ps_graph s') (k + j) (ps' ! j)))"
        using i by (auto simp: nth_Cons split: nat.splits)
    qed
  qed
qed

section \<open>A visit\<close>

definition ti_cov :: "ty \<Rightarrow> tref list" where
  "ti_cov n = (case n of Container c \<Rightarrow> map tp_type (co_templateParams c) | _ \<Rightarrow> succs n)"

definition ti_good :: "(string \<Rightarrow> string \<Rightarrow> bool) \<Rightarrow> container_info list \<Rightarrow> type_graph \<Rightarrow> ty \<Rightarrow> bool" where
  "ti_good rx infos g n \<longleftrightarrow> (\<forall>c. n = Container c \<longrightarrow> (\<forall>j < length (co_templateParams c).
     identified rx infos (ci_stubTemplateParams (co_info c)) g j (co_templateParams c ! j)))"

definition ti_mark :: "ty \<Rightarrow> ti_state \<Rightarrow> ti_state" where
  "ti_mark n s = s\<lparr>ps_marks := (snd (tracker_visit (type_id n) (fst (ps_marks s))), snd (ps_marks s))\<rparr>"

definition ti_step ::
    "(string \<Rightarrow> string \<Rightarrow> bool) \<Rightarrow> container_info list \<Rightarrow> tref \<Rightarrow> ti_state \<Rightarrow> (tref list \<times> ti_state) outcome" where
  "ti_step rx infos t s = bindE (deref (ps_graph s) t) (\<lambda>n. case n of
      Container c \<Rightarrow> bindE (identify_params rx infos (ci_stubTemplateParams (co_info c)) 0 (co_templateParams c) (ti_mark n s)) (\<lambda>(ps, s).
        Inr (map tp_type ps, put_ty t (Container (c\<lparr>co_templateParams := ps\<rparr>)) s))
    | _ \<Rightarrow> Inr (succs n, ti_mark n s))"

lemma ti_mark_simps [simp]: "ps_graph (ti_mark n s) = ps_graph s" "ti_dummys (ti_mark n s) = ti_dummys s"
  "tracked (fst (ps_marks (ti_mark n s))) nid \<longleftrightarrow> tracked (fst (ps_marks s)) nid \<or> nid = type_id n \<and> 0 \<le> nid"
  by (auto simp: ti_mark_def ti_dummys_def tracker_visit_tracked)

lemma ti_body:
  assumes "deref (ps_graph s) t = Inr n"
  shows "typeIdentifier_accept rx infos call t s = (if tracked (fst (ps_marks s)) (type_id n) then Inr s
    else bindE (ti_step rx infos t s) (\<lambda>(ts, s1). for_each call ts s1))"
proof -
  obtain b v where v: "tracker_visit (type_id n) (fst (ps_marks s)) = (b, v)"
    by (cases "tracker_visit (type_id n) (fst (ps_marks s))")
  have b: "b = tracked (fst (ps_marks s)) (type_id n)"
    using tracker_visit_result [of "type_id n" "fst (ps_marks s)"] v by simp
  have same: "s\<lparr>ps_marks := (v, snd (ps_marks s))\<rparr> = s" if "b"
    using tracker_visit_again [of "fst (ps_marks s)" "type_id n"] that b v by simp
  have m: "s\<lparr>ps_marks := (v, snd (ps_marks s))\<rparr> = ti_mark n s" using v by (simp add: ti_mark_def)
  have g: "get_ty t (ti_mark n s) = Inr n" using assms by (simp add: get_ty_def)
  have acc: "typeIdentifier_accept rx infos call t s = (if b then Inr s else typeIdentifier_visit rx infos call t (ti_mark n s))"
    using assms v same m by (auto simp: typeIdentifier_accept_def accept_with_def ti_visit_mark_def trk_visit_def)
  have "typeIdentifier_visit rx infos call t (ti_mark n s) =
      bindE (ti_step rx infos t s) (\<lambda>(ts, s1). for_each call ts s1)"
    using assms g
    by (cases n) (simp_all add: typeIdentifier_visit_def ti_step_def recursive_visit_succs bindE_assoc
      case_prod_unfold for_each_map)
  then show ?thesis using acc b by simp
qed

lemma ti_mark_ok:
  assumes ok: "ti_ok rx infos g0 s" and n: "deref (ps_graph s) t = Inr n"
  shows "ti_ok rx infos g0 (ti_mark n s)"
proof -
  have wf: "wf_ids (ps_graph s)" using ok by (simp add: ti_ok_def ti_old_def wf_graph_def)
  have "nid < next_id (ps_graph s)" if "nid = type_id n" "0 \<le> nid" for nid
  proof -
    have hn: "has_node_id n" using that type_id_noid by fastforce
    obtain i where "i < length (nodes (ps_graph s))" "node_at (ps_graph s) i = n" by (rule id_owner [OF n hn])
    then show ?thesis using wf_idsD(2) [OF wf] hn that(1) by auto
  qed
  then have "ti_old rx infos g0 (ti_mark n s)" using ok by (auto simp: ti_ok_def ti_old_def)
  moreover have "new_node g0 (ti_mark n s) i" if "new_node g0 s i" for i
    using that by (auto simp: new_node_def split: ty.splits)
  then have "ti_new rx infos g0 (ti_mark n s)"
    using ok unfolding ti_ok_def ti_new_def by (auto simp: made_for_def)
  ultimately show ?thesis by (simp add: ti_ok_def)
qed

text \<open>The container of a parameter list is written back.\<close>

lemma put_frame:
  assumes "deref (ps_graph s) t = Inr n" "same_layout n n'"
  shows "ti_frame s (put_ty t n' s)"
proof -
  have "\<exists>m'. deref (put_node t n' (ps_graph s)) u = Inr m' \<and> same_layout m m'" if u: "deref (ps_graph s) u = Inr m" for u m
  proof (cases t)
    case (PrimRef k)
    then show ?thesis using u same_layout_refl by simp
  next
    case (NodeRef i)
    note own = deref_owned [OF assms(1) [unfolded NodeRef]]
    show ?thesis
    proof (cases u)
      case (NodeRef j)
      note own' = deref_owned [OF u [unfolded NodeRef]]
      show ?thesis using own own' assms(2) \<open>t = NodeRef i\<close> NodeRef same_layout_refl by auto
    qed (use u same_layout_refl in auto)
  qed
  then show ?thesis by (simp add: ti_frame_def put_ty_def ti_dummys_def)
qed

lemma layout_simps:
  "same_layout n n' \<Longrightarrow> type_id n' = type_id n" "same_layout n n' \<Longrightarrow> ctor_of n' = ctor_of n"
  by (auto simp: same_layout_def)

lemma frame_tracked_made:
  assumes "made_for rx infos g0 s k d" "ti_frame s s'"
  shows "made_for rx infos g0 s' k d"
proof -
  obtain j c co where m: "j < length (nodes g0)" "node_at g0 j = Class c" "cl_id c = k"
    "deref (ps_graph s) d = Inr (Container co)" "co_underlying co = Some (NodeRef j)" "co_size co = cl_size c"
    "co_info co \<in> set infos" "ci_matches rx (co_info co) (fqName c)"
    using assms(1) unfolding made_for_def by blast
  obtain n' where "deref (ps_graph s') d = Inr n'" "same_layout (Container co) n'"
    using assms(2) m(4) unfolding ti_frame_def by blast
  then show ?thesis using m by (auto simp: made_for_def same_layout_def)
qed

lemma ti_put:
  assumes ok: "ti_ok rx infos g0 s" and c: "deref (ps_graph s) t = Inr (Container c)" "tracked (fst (ps_marks s)) (co_id c)"
    and ps: "\<forall>p \<in> set ps. in_graph (ps_graph s) (tp_type p)"
    and old: "\<And>i c0. t = NodeRef i \<Longrightarrow> i < length (nodes g0) \<Longrightarrow> node_at g0 i = Container c0 \<Longrightarrow>
      c0 = c \<and> list_all2 (param_kept rx infos g0 (ps_graph s)) (co_templateParams c0) ps"
    and s': "s' = put_ty t (Container (c\<lparr>co_templateParams := ps\<rparr>)) s"
  shows "ti_ok rx infos g0 s'" "ti_frame s s'" "extends (ps_graph s) (ps_graph s')"
  unfolding s'
proof -
  let ?s' = "put_ty t (Container (c\<lparr>co_templateParams := ps\<rparr>)) s"
  let ?n = "Container (c\<lparr>co_templateParams := ps\<rparr>)"
  have lay: "same_layout (Container c) ?n" by (auto simp: same_layout_def)
  show fr: "ti_frame s ?s'" by (rule put_frame [OF c(1) lay])
  show ext: "extends (ps_graph s) (ps_graph ?s')" unfolding put_ty_def using extends_put [OF c(1)] by simp
  have o: "ti_old rx infos g0 s" "ti_new rx infos g0 s" using ok by (simp_all add: ti_ok_def)
  have wf: "wf_graph (ps_graph s)" using o(1) by (simp add: ti_old_def)
  have g: "ps_marks ?s' = ps_marks s" "next_id (ps_graph ?s') = next_id (ps_graph s)" "ti_dummys ?s' = ti_dummys s"
    "length (nodes (ps_graph ?s')) = length (nodes (ps_graph s))" "finalTypes (ps_graph ?s') = finalTypes (ps_graph s)"
    by (simp_all add: put_ty_def ti_dummys_def)
  obtain i where i: "t = NodeRef i" "i < length (nodes (ps_graph s))" "node_at (ps_graph s) i = Container c"
    using deref_owner [OF c(1)] by auto
  have at: "node_at (ps_graph ?s') j = (if i = j then ?n else node_at (ps_graph s) j)" for j
    using i(1,2) by (simp add: put_ty_def)
  have "wf_graph (ps_graph ?s')"
    unfolding put_ty_def
    by (simp, rule wf_graph_put [OF wf c(1)]) (use refs_in_graph [OF wf c(1)] ps in auto)
  moreover have "extends g0 (ps_graph ?s')" using o(1) ext extends_trans by (auto simp: ti_old_def)
  moreover have "node_kept rx infos g0 (ps_graph ?s') (node_at g0 j) (node_at (ps_graph ?s') j) \<and>
      (\<not> tracked (fst (ps_marks s)) (type_id (node_at g0 j)) \<longrightarrow> node_at (ps_graph ?s') j = node_at g0 j)"
    if j: "j < length (nodes g0)" for j
  proof -
    have keep: "node_kept rx infos g0 (ps_graph s) (node_at g0 j) (node_at (ps_graph s) j)"
      "\<not> tracked (fst (ps_marks s)) (type_id (node_at g0 j)) \<longrightarrow> node_at (ps_graph s) j = node_at g0 j"
      using o(1) j by (simp_all add: ti_old_def)
    show ?thesis
    proof (cases "i = j")
      case False
      then show ?thesis using keep at node_kept_frame [OF keep(1) fr] by simp
    next
      case True
      then obtain c0 where c0: "node_at g0 j = Container c0" using keep(1) i(3) by (metis node_kept_def)
      note k = old [OF i(1) j [folded True] c0 [folded True]]
      have "node_kept rx infos g0 (ps_graph s) (node_at g0 j) ?n" using c0 k unfolding node_kept_def by blast
      from node_kept_frame [OF this fr] show ?thesis using True at c0 c(2) k by simp
    qed
  qed
  ultimately have "ti_old rx infos g0 ?s'" using o(1) unfolding ti_old_def g by blast
  moreover have "new_node g0 ?s' j" if j: "j < length (nodes (ps_graph s))" "length (nodes g0) \<le> j" for j
  proof -
    have "new_node g0 s j" using o(2) j by (simp add: ti_new_def)
    then show ?thesis using at [of j] i(3) c(2) by (cases "i = j") (auto simp: new_node_def g split: ty.splits)
  qed
  then have "ti_new rx infos g0 ?s'" using o(2) frame_tracked_made [OF _ fr] unfolding ti_new_def g by blast
  ultimately show "ti_ok rx infos g0 ?s'" by (simp add: ti_ok_def)
qed

text \<open>What is not marked yet: the nodes the run started from are as they were, and a container that was made
  still has the parameters of its class.\<close>

lemma ti_untracked:
  assumes ok: "ti_ok rx infos g0 s" and c: "deref (ps_graph s) t = Inr (Container c)"
    and new: "\<not> tracked (fst (ps_marks s)) (co_id c)"
  shows "\<forall>p \<in> set (co_templateParams c). in_graph g0 (tp_type p)"
    "t = NodeRef i \<Longrightarrow> i < length (nodes g0) \<Longrightarrow> node_at g0 i = Container c"
proof -
  have o: "ti_old rx infos g0 s" "ti_new rx infos g0 s" using ok by (simp_all add: ti_ok_def)
  show same: "node_at g0 i = Container c" if "t = NodeRef i" "i < length (nodes g0)" for i
  proof -
    have at: "node_at (ps_graph s) i = Container c" using deref_owned [OF c [unfolded that(1)]] by simp
    have "type_id (node_at g0 i) = type_id (node_at (ps_graph s) i)"
      using o(1) that(2) extends_ctor(2) [of g0 "ps_graph s" i] by (simp add: ti_old_def)
    then show ?thesis using o(1) that(2) new at by (auto simp: ti_old_def)
  qed
  show "\<forall>p \<in> set (co_templateParams c). in_graph g0 (tp_type p)"
  proof -
    obtain i where i: "t = NodeRef i" "i < length (nodes (ps_graph s))" "node_at (ps_graph s) i = Container c"
      using deref_owner [OF c] by auto
    show ?thesis
    proof (cases "i < length (nodes g0)")
      case True
      have wf: "wf_graph g0" using o(1) by (simp add: ti_old_def ti_start_def)
      have "deref g0 t = Inr (Container c)" using same [OF i(1) True] True i(1) by simp
      from refs_in_graph [OF wf this] show ?thesis by auto
    next
      case False
      then have "new_node g0 s i" using o(2) i(2) by (simp add: ti_new_def)
      then show ?thesis using i(3) new by (simp add: new_node_def)
    qed
  qed
qed

definition ti_stepped ::
    "(string \<Rightarrow> string \<Rightarrow> bool) \<Rightarrow> container_info list \<Rightarrow> type_graph \<Rightarrow> tref \<Rightarrow> ty \<Rightarrow> ti_state \<Rightarrow> tref list \<Rightarrow> ti_state \<Rightarrow> bool" where
  "ti_stepped rx infos g0 t n s ts s1 \<longleftrightarrow> ti_ok rx infos g0 s1 \<and> ti_frame s s1 \<and> extends (ps_graph s) (ps_graph s1) \<and>
     (\<forall>nid. tracked (fst (ps_marks s1)) nid \<longleftrightarrow> tracked (fst (ps_marks s)) nid \<or> nid = type_id n \<and> 0 \<le> nid) \<and>
     (\<forall>i < length (nodes (ps_graph s)). NodeRef i \<noteq> t \<or> \<not> has_node_id n \<longrightarrow>
        node_at (ps_graph s1) i = node_at (ps_graph s) i) \<and>
     (\<forall>i < length (nodes (ps_graph s1)). length (nodes (ps_graph s)) \<le> i \<longrightarrow>
        \<not> tracked (fst (ps_marks s1)) (type_id (node_at (ps_graph s1) i))) \<and>
     (\<exists>n1. deref (ps_graph s1) t = Inr n1 \<and> same_layout n n1 \<and> ts = ti_cov n1 \<and> ti_good rx infos (ps_graph s1) n1)"

lemma ti_step_other:
  assumes ok: "ti_ok rx infos g0 s" and n: "deref (ps_graph s) t = Inr n" "\<And>c. n \<noteq> Container c"
  shows "ti_step rx infos t s = Inr (succs n, ti_mark n s)" "ti_stepped rx infos g0 t n s (succs n) (ti_mark n s)"
proof -
  show "ti_step rx infos t s = Inr (succs n, ti_mark n s)" using n by (cases n) (auto simp: ti_step_def)
  have "ti_cov n = succs n" using n(2) by (cases n) (auto simp: ti_cov_def)
  then show "ti_stepped rx infos g0 t n s (succs n) (ti_mark n s)"
    using ti_mark_ok [OF ok n(1)] n same_layout_refl
    by (auto simp: ti_stepped_def ti_frame_def ti_good_def)
qed

lemma ti_step_container:
  assumes ok: "ti_ok rx infos g0 s" and c: "deref (ps_graph s) t = Inr (Container c)"
    and new: "\<not> tracked (fst (ps_marks s)) (co_id c)"
  shows "spec (ti_errors g0) (ti_step rx infos t s) (\<lambda>(ts, s1). ti_stepped rx infos g0 t (Container c) s ts s1)"
proof -
  let ?m = "ti_mark (Container c) s"
  let ?stubs = "ci_stubTemplateParams (co_info c)"
  have okm: "ti_ok rx infos g0 ?m" by (rule ti_mark_ok [OF ok c])
  note ut = ti_untracked [OF ok c new]
  have wf: "wf_graph (ps_graph s)" using ok by (simp add: ti_ok_def ti_old_def)
  obtain i where i: "t = NodeRef i" "i < length (nodes (ps_graph s))" "node_at (ps_graph s) i = Container c"
    using deref_owner [OF c] by auto
  have id0: "0 \<le> co_id c" using wf wf_idsD(1) [of "ps_graph s" i] i(2,3) by (simp add: wf_graph_def)
  note run = identify_params_spec [OF okm ut(1), of ?stubs 0]
  show ?thesis
    unfolding ti_step_def c bindE_simps ty.case
  proof (rule spec_bind_prodI [OF run], elim conjE)
    fix ps s2
    assume s2: "ti_ok rx infos g0 s2" "ti_grows ?m s2"
      "list_all2 (param_kept rx infos g0 (ps_graph s2)) (co_templateParams c) ps"
      "\<forall>j < length ps. in_graph (ps_graph s2) (tp_type (ps ! j)) \<and> identified rx infos ?stubs (ps_graph s2) (0 + j) (ps ! j)"
    let ?n1 = "Container (c\<lparr>co_templateParams := ps\<rparr>)"
    let ?s1 = "put_ty t ?n1 s2"
    note gr = ti_growsD [OF s2(2)]
    have c2: "deref (ps_graph s2) t = Inr (Container c)" using gr(6) c by simp
    have tr: "tracked (fst (ps_marks s2)) nid \<longleftrightarrow> tracked (fst (ps_marks s)) nid \<or> nid = co_id c \<and> 0 \<le> nid" for nid
      using gr(3) by simp
    have ps: "\<forall>p \<in> set ps. in_graph (ps_graph s2) (tp_type p)" using s2(4) by (auto simp: in_set_conv_nth)
    have put: "ti_ok rx infos g0 ?s1" "ti_frame s2 ?s1" "extends (ps_graph s2) (ps_graph ?s1)"
      using ti_put [OF s2(1) c2 _ ps _ refl] tr id0 ut(2) s2(3) by auto
    have fr: "ti_frame s ?s1" using ti_frame_trans [OF gr(1) put(2)] by (simp add: ti_frame_def)
    have ext: "extends (ps_graph s) (ps_graph ?s1)" using extends_trans [OF gr(2) put(3)] by simp
    have i2: "i < length (nodes (ps_graph s2))" using gr(2) i(2) by (simp add: extends_def)
    have at: "node_at (ps_graph ?s1) j = (if i = j then ?n1 else node_at (ps_graph s2) j)" for j
      using i(1) i2 by (simp add: put_ty_def)
    have len: "length (nodes (ps_graph ?s1)) = length (nodes (ps_graph s2))" by (simp add: put_ty_def)
    have "\<not> tracked (fst (ps_marks ?s1)) (type_id (node_at (ps_graph ?s1) j))"
      if j: "j < length (nodes (ps_graph s2))" "length (nodes (ps_graph s)) \<le> j" for j
    proof -
      have ge: "next_id (ps_graph s) \<le> type_id (node_at (ps_graph s2) j)" using gr(5) j by simp
      have "i \<noteq> j" using j(2) i(2) by simp
      moreover have "tracked (fst (ps_marks ?m)) nid \<Longrightarrow> nid < next_id (ps_graph s)" for nid
        using okm unfolding ti_ok_def ti_old_def ti_mark_simps(1) by blast
      then have "\<not> tracked (fst (ps_marks s2)) (type_id (node_at (ps_graph s2) j))" using gr(3) ge by fastforce
      ultimately show ?thesis using at by simp
    qed
    moreover have "deref (ps_graph ?s1) t = Inr ?n1" using c2 i(1) by (simp add: put_ty_def deref_put)
    moreover have "identified rx infos ?stubs (ps_graph ?s1) j (ps ! j)" if "j < length ps" for j
      using identified_frame [OF _ put(2)] s2(4) that by simp
    moreover have "\<forall>j < length (nodes (ps_graph s)). NodeRef j \<noteq> t \<longrightarrow> node_at (ps_graph ?s1) j = node_at (ps_graph s) j"
      using at gr(4) i(1) by auto
    moreover have "tracked (fst (ps_marks ?s1)) nid = tracked (fst (ps_marks s2)) nid" for nid by simp
    moreover have "same_layout (Container c) ?n1" by (auto simp: same_layout_def)
    ultimately have "ti_stepped rx infos g0 t (Container c) s (map tp_type ps) ?s1"
      using put(1) fr ext tr len by (simp add: ti_stepped_def ti_cov_def ti_good_def)
    then show "spec (ti_errors g0) (Inr (map tp_type ps, ?s1)) (\<lambda>(ts, s1). ti_stepped rx infos g0 t (Container c) s ts s1)"
      by simp
  qed
qed

lemma ti_step_spec:
  assumes "ti_ok rx infos g0 s" "deref (ps_graph s) t = Inr n" "\<not> tracked (fst (ps_marks s)) (type_id n)"
  shows "spec (ti_errors g0) (ti_step rx infos t s) (\<lambda>(ts, s1). ti_stepped rx infos g0 t n s ts s1)"
  using ti_step_container [of rx infos g0 s t] ti_step_other [of rx infos g0 s t] assms by (cases n) auto

section \<open>The depth of the walk\<close>

text \<open>
  Every visit of a type of the graph the run started from, or of a container made for a class of it,
  leaves one less to be visited; a new allocator leads back to such a type at once.
\<close>

definition unvisited :: "type_graph \<Rightarrow> ti_state \<Rightarrow> nat set" where
  "unvisited g0 s = {i. i < length (nodes g0) \<and> has_node_id (node_at g0 i) \<and>
     \<not> tracked (fst (ps_marks s)) (type_id (node_at g0 i))}"

definition unmade :: "type_graph \<Rightarrow> ti_state \<Rightarrow> node_id set" where
  "unmade g0 s = {k \<in> class_ids g0. \<not> (\<exists>d co. ti_dummys s k = Some d \<and>
     deref (ps_graph s) d = Inr (Container co) \<and> tracked (fst (ps_marks s)) (co_id co))}"

definition new_allocator :: "type_graph \<Rightarrow> tref \<Rightarrow> ti_state \<Rightarrow> bool" where
  "new_allocator g0 t s \<longleftrightarrow> \<not> in_graph g0 t \<and> (\<exists>d. deref (ps_graph s) t = Inr (DummyAllocator d))"

definition ti_rank :: "type_graph \<Rightarrow> tref \<Rightarrow> ti_state \<Rightarrow> nat" where
  "ti_rank g0 t s = 2 * (card (unvisited g0 s) + card (unmade g0 s)) + (if new_allocator g0 t s then 1 else 0)"

lemma class_ids_card: "finite (class_ids g)" "card (class_ids g) \<le> length (nodes g)"
proof -
  have sub: "class_ids g \<subseteq> (\<lambda>i. type_id (node_at g i)) ` {..<length (nodes g)}"
  proof
    fix k assume "k \<in> class_ids g"
    then obtain i c where "i < length (nodes g)" "node_at g i = Class c" "cl_id c = k" by (auto simp: class_ids_def)
    then show "k \<in> (\<lambda>i. type_id (node_at g i)) ` {..<length (nodes g)}" by (intro image_eqI [of _ _ i]) simp_all
  qed
  then show "finite (class_ids g)" by (rule finite_subset) simp
  show "card (class_ids g) \<le> length (nodes g)"
    using card_mono [OF _ sub] card_image_le [of "{..<length (nodes g)}" "\<lambda>i. type_id (node_at g i)"] by simp
qed

lemma ti_rank_bound: "ti_rank g0 t s < ti_depth g0"
proof -
  have "card (unvisited g0 s) \<le> card {..<length (nodes g0)}" by (intro card_mono) (auto simp: unvisited_def)
  moreover have "card (unmade g0 s) \<le> card (class_ids g0)"
    by (intro card_mono class_ids_card) (auto simp: unmade_def)
  ultimately show ?thesis using class_ids_card(2) [of g0] by (simp add: ti_rank_def ti_depth_def)
qed

lemma ti_no_captures:
  assumes ok: "ti_ok rx infos g0 s" and n: "deref (ps_graph s) t = Inr n" "\<not> has_node_id n"
  shows "ti_cov n = []"
proof -
  have "n \<noteq> CaptureKeys ck" for ck
  proof
    assume ck: "n = CaptureKeys ck"
    then obtain i where i: "i < length (nodes (ps_graph s))" "node_at (ps_graph s) i = n"
      using deref_owner [OF n(1)] by auto
    show False
    proof (cases "i < length (nodes g0)")
      case True
      then have "node_kept rx infos g0 (ps_graph s) (node_at g0 i) n" using ok i(2) by (auto simp: ti_ok_def ti_old_def)
      then have "node_at g0 i = CaptureKeys ck" using ck by (auto simp: node_kept_def)
      moreover have "no_capture_keys g0" using ok by (simp add: ti_ok_def ti_old_def ti_start_def)
      ultimately show False using True nth_mem by (force simp: no_capture_keys_def list_all_iff node_at_def)
    next
      case False
      then have "new_node g0 s i" using ok i(1) by (simp add: ti_ok_def ti_new_def)
      then show False using i(2) ck by (simp add: new_node_def)
    qed
  qed
  then show ?thesis using n(2) by (cases n) (auto simp: ti_cov_def)
qed

lemma ti_id_nonneg:
  assumes "ti_ok rx infos g0 s" "deref (ps_graph s) t = Inr n" "has_node_id n"
  shows "0 \<le> type_id n"
proof -
  obtain i where i: "i < length (nodes (ps_graph s))" "node_at (ps_graph s) i = n" by (rule id_owner [OF assms(2,3)])
  have "wf_ids (ps_graph s)" using assms(1) by (simp add: ti_ok_def ti_old_def wf_graph_def)
  from wf_idsD(1) [OF this i(1)] show ?thesis using i(2) assms(3) by simp
qed

lemma ti_rank_step:
  assumes ok: "ti_ok rx infos g0 s" and n: "deref (ps_graph s) t = Inr n"
    and new: "\<not> tracked (fst (ps_marks s)) (type_id n)" and st: "ti_stepped rx infos g0 t n s ts s1"
    and u: "u \<in> set ts" and fr: "ti_frame s1 s2"
    and mono: "\<And>nid. tracked (fst (ps_marks s1)) nid \<Longrightarrow> tracked (fst (ps_marks s2)) nid"
  shows "ti_rank g0 u s2 < ti_rank g0 t s"
proof -
  have fr2: "ti_frame s s2" using st ti_frame_trans [OF _ fr] by (auto simp: ti_stepped_def)
  have tr: "tracked (fst (ps_marks s)) nid \<Longrightarrow> tracked (fst (ps_marks s2)) nid" for nid
    using st mono by (simp add: ti_stepped_def)
  obtain n1 where n1: "same_layout n n1" "ts = ti_cov n1" "deref (ps_graph s1) t = Inr n1"
    using st by (auto simp: ti_stepped_def)
  have ok1: "ti_ok rx infos g0 s1" using st by (simp add: ti_stepped_def)
  have hid: "has_node_id n"
    using ti_no_captures [OF ok1 n1(3)] u n1(1,2) by (cases n) (auto simp: same_layout_def)
  have tn: "tracked (fst (ps_marks s2)) (type_id n)"
    using st mono ti_id_nonneg [OF ok n hid] by (simp add: ti_stepped_def)
  have fin: "finite (unvisited g0 s)" "finite (unmade g0 s)"
    using class_ids_card(1) by (auto simp: unvisited_def unmade_def)
  have sub1: "unvisited g0 s2 \<subseteq> unvisited g0 s" using tr by (auto simp: unvisited_def)
  have keep: "\<exists>co'. deref (ps_graph s2) d = Inr (Container co') \<and> co_id co' = co_id co"
    if "deref (ps_graph s) d = Inr (Container co)" for d co
    using fr2 that by (fastforce simp: ti_frame_def same_layout_def)
  have sub2: "unmade g0 s2 \<subseteq> unmade g0 s"
  proof
    fix k assume k: "k \<in> unmade g0 s2"
    have "\<exists>co'. ti_dummys s2 k = Some d \<and> deref (ps_graph s2) d = Inr (Container co') \<and>
        tracked (fst (ps_marks s2)) (co_id co')"
      if "ti_dummys s k = Some d" "deref (ps_graph s) d = Inr (Container co)" "tracked (fst (ps_marks s)) (co_id co)" for d co
      using keep [OF that(2)] that(1) tr [OF that(3)] fr2 by (auto simp: ti_frame_def)
    then show "k \<in> unmade g0 s" using k unfolding unmade_def by blast
  qed
  note le = card_mono [OF fin(1) sub1] card_mono [OF fin(2) sub2]
  have small: "ti_rank g0 u s2 \<le> 2 * (card (unvisited g0 s2) + card (unmade g0 s2)) + 1"
    "2 * (card (unvisited g0 s) + card (unmade g0 s)) \<le> ti_rank g0 t s" by (simp_all add: ti_rank_def)
  obtain i where i: "t = NodeRef i" "i < length (nodes (ps_graph s))" "node_at (ps_graph s) i = n"
    using id_owner [OF n hid] .
  show ?thesis
  proof (cases "i < length (nodes g0)")
    case True
    have "extends g0 (ps_graph s)" using ok by (simp add: ti_ok_def ti_old_def)
    from extends_ctor [OF this True] have "type_id (node_at g0 i) = type_id n" "has_node_id (node_at g0 i)"
      using i(3) ctor_of_has_id hid by metis+
    then have "i \<in> unvisited g0 s - unvisited g0 s2" using True new tn by (simp add: unvisited_def)
    then have "card (unvisited g0 s2) < card (unvisited g0 s)" using sub1 by (intro psubset_card_mono fin) auto
    then show ?thesis using le small by presburger
  next
    case False
    then have nn: "new_node g0 s i" using ok i(2) by (simp add: ti_ok_def ti_new_def)
    show ?thesis
    proof (cases "\<exists>c. n = Container c")
      case True
      then obtain c where c: "n = Container c" by blast
      obtain k where k: "k \<in> class_ids g0" "ti_dummys s k = Some t"
        using nn i(1,3) c by (auto simp: new_node_def)
      have "k \<in> unmade g0 s" using k n c new by (simp add: unmade_def)
      moreover have "ti_dummys s2 k = Some t" using fr2 k(2) by (simp add: ti_frame_def)
      then have "k \<notin> unmade g0 s2" using keep [OF n [unfolded c]] tn c by (auto simp: unmade_def)
      ultimately have "card (unmade g0 s2) < card (unmade g0 s)" using sub2 by (intro psubset_card_mono fin) auto
      then show ?thesis using le small by presburger
    next
      case nc: False
      then have eq: "n1 = n" using n1(1) by (auto simp: same_layout_def)
      obtain d where d: "n = DummyAllocator d" "in_graph g0 (da_type d)"
        using nn i(3) nc u n1(2) eq by (cases n) (auto simp: new_node_def ti_cov_def)
      then have "in_graph g0 u" using u n1(2) eq by (simp add: ti_cov_def)
      then have "ti_rank g0 u s2 = 2 * (card (unvisited g0 s2) + card (unmade g0 s2))"
        by (simp add: ti_rank_def new_allocator_def)
      moreover have "new_allocator g0 t s" using False i(1) n d(1) by (simp add: new_allocator_def)
      ultimately show ?thesis using le by (simp add: ti_rank_def)
    qed
  qed
qed

lemma ti_good_frame:
  assumes "ti_good rx infos (ps_graph s) n" "ti_frame s s'"
  shows "ti_good rx infos (ps_graph s') n"
  using assms identified_frame unfolding ti_good_def by blast

interpretation tiw: growing_walk fst "ti_ok rx infos g0" ti_frame ti_cov "ti_good rx infos" "ti_rank g0" "ti_errors g0"
  "ti_step rx infos" "typeIdentifier_accept rx infos" for rx infos g0
proof (unfold_locales, goal_cases)
  case (2 n)
  have "set (succs n) \<subseteq> set (refs n)" using succs_subset_refs .
  then show ?case by (cases n) (auto simp: ti_cov_def)
next
  case (4 s s' s'')
  then show ?case by (rule ti_frame_trans)
next
  case (5 s n s')
  then show ?case using ti_good_frame by blast
next
  case (6 s t n call)
  show ?case by (rule ti_body [OF 6(2)])
next
  case (7 s t n w)
  then show ?case using ti_no_captures [OF 7(1,2,3)] by simp
next
  case (8 s t n)
  show ?case
    by (rule spec_mono [OF ti_step_spec [OF 8]]) (auto simp: ti_stepped_def)
next
  case (9 s t n ts s1 u s2)
  have "ti_stepped rx infos g0 t n s ts s1" using ti_step_spec [OF 9(1,2,3)] 9(4) by simp
  then show ?case by (rule ti_rank_step [OF 9(1-3) _ 9(5) 9(7)]) (rule 9(9))
qed (auto simp: ti_ok_def ti_old_def ti_frame_refl)

section \<open>The pass as a whole\<close>

text \<open>Where a walk over the parameters of containers goes on from a type.\<close>

definition ti_edges :: "type_graph \<Rightarrow> tref \<Rightarrow> tref list" where
  "ti_edges g t = (case deref g t of Inl e \<Rightarrow> [] | Inr n \<Rightarrow> ti_cov n)"

lemma typeIdentifier_contract:
  assumes "wf_graph g" and "no_capture_keys g" and "sizes_end g"
  shows "spec (ti_errors g) (typeIdentifier_pass rx infos g (holder_get (graph_size g) v)) (\<lambda>(g', v').
    wf_graph g' \<and> extends g g' \<and> finalTypes g' = finalTypes g \<and>
    (\<forall>i < length (nodes g'). length (nodes g) \<le> i \<longrightarrow> ctor_of (node_at g' i) \<in> {2, 9, 10}) \<and>
    (\<forall>i < length (nodes g). node_kept rx infos g g' (node_at g i) (node_at g' i)) \<and>
    (\<forall>i c. i < length (nodes g') \<longrightarrow> node_at g' i = Container c \<longrightarrow> NodeRef i \<in> reach (ti_edges g') (rootTypes g') \<longrightarrow>
      (\<forall>j < length (co_templateParams c).
        identified rx infos (ci_stubTemplateParams (co_info c)) g' j (co_templateParams c ! j))))"
proof -
  let ?s = "\<lparr>ps_marks = (holder_get (graph_size g) v, Map.empty), ps_graph = g\<rparr> :: ti_state"
  have clear: "\<not> tracked (fst (ps_marks ?s)) nid" for nid by simp
  have "ti_ok rx infos g ?s"
    using assms by (simp add: ti_ok_def ti_old_def ti_new_def ti_start_def node_kept_def ti_dummys_def)
  moreover have "\<forall>t \<in> set (rootTypes g). in_graph (ps_graph ?s) t" using assms(1) by (simp add: wf_graph_def wf_refs_def)
  ultimately have run: "spec (ti_errors g) (for_each (recur (typeIdentifier_accept rx infos) (ti_depth g)) (rootTypes g) ?s)
    (\<lambda>s'. ti_ok rx infos g s' \<and> ti_frame ?s s' \<and> extends (ps_graph ?s) (ps_graph s') \<and>
     (\<forall>i < length (nodes (ps_graph s')). has_node_id (node_at (ps_graph s') i) \<and>
        NodeRef i \<in> reach (\<lambda>t. case deref (ps_graph s') t of Inl e \<Rightarrow> [] | Inr n \<Rightarrow> ti_cov n) (rootTypes g) \<longrightarrow>
        tracked (fst (ps_marks s')) (type_id (node_at (ps_graph s') i)) \<and>
        ti_good rx infos (ps_graph s') (node_at (ps_graph s') i)))"
    using clear ti_rank_bound by (intro tiw.run) auto
  show ?thesis
    unfolding typeIdentifier_pass_def
  proof (rule spec_bindI [OF run], elim conjE, unfold spec_simps)
    fix s' :: ti_state
    assume s': "ti_ok rx infos g s'" "extends (ps_graph ?s) (ps_graph s')"
      and reached: "\<forall>i < length (nodes (ps_graph s')). has_node_id (node_at (ps_graph s') i) \<and>
        NodeRef i \<in> reach (\<lambda>t. case deref (ps_graph s') t of Inl e \<Rightarrow> [] | Inr n \<Rightarrow> ti_cov n) (rootTypes g) \<longrightarrow>
        tracked (fst (ps_marks s')) (type_id (node_at (ps_graph s') i)) \<and>
        ti_good rx infos (ps_graph s') (node_at (ps_graph s') i)"
    have roots: "rootTypes (ps_graph s') = rootTypes g" using s'(2) by (simp add: extends_def)
    moreover have "identified rx infos (ci_stubTemplateParams (co_info c)) (ps_graph s') j (co_templateParams c ! j)"
      if "i < length (nodes (ps_graph s'))" "node_at (ps_graph s') i = Container c"
        "NodeRef i \<in> reach (ti_edges (ps_graph s')) (rootTypes g)" "j < length (co_templateParams c)" for i c j
      using reached that by (simp add: ti_good_def ti_edges_def [abs_def])
    moreover have "ctor_of (node_at (ps_graph s') i) \<in> {2, 9, 10}" if i: "i < length (nodes (ps_graph s'))" "length (nodes g) \<le> i" for i
    proof -
      have "new_node g s' i" using s'(1) i by (simp add: ti_ok_def ti_new_def)
      then show ?thesis by (cases "node_at (ps_graph s') i") (simp_all add: new_node_def)
    qed
    ultimately show "case (ps_graph s', fst (ps_marks s')) of (g', v') \<Rightarrow> wf_graph g' \<and> extends g g' \<and> finalTypes g' = finalTypes g \<and>
      (\<forall>i < length (nodes g'). length (nodes g) \<le> i \<longrightarrow> ctor_of (node_at g' i) \<in> {2, 9, 10}) \<and>
      (\<forall>i < length (nodes g). node_kept rx infos g g' (node_at g i) (node_at g' i)) \<and>
      (\<forall>i c. i < length (nodes g') \<longrightarrow> node_at g' i = Container c \<longrightarrow> NodeRef i \<in> reach (ti_edges g') (rootTypes g') \<longrightarrow>
        (\<forall>j < length (co_templateParams c).
          identified rx infos (ci_stubTemplateParams (co_info c)) g' j (co_templateParams c ! j)))"
      using s' by (simp add: ti_ok_def ti_old_def)
  qed
qed

text \<open>
  C20: on every graph in which the sizes of types exist and nothing is captured yet, the pass returns,
  unless an allocator to be stubbed has no template parameter. Only template parameters of containers
  change, each to a dummy of the size, alignment and name of the type it had (size 0 for 1), to an allocator that hands out
  the first parameter of the one it stands for, or to a container over the class it had; and no container that can be
  reached has a parameter left that is to be stubbed or passed through.
\<close>

theorem typeIdentifier_result:
  assumes "wf_graph g" and "no_capture_keys g" and "sizes_end g"
  shows "spec (ti_errors g) (typeIdentifier_pass rx infos g (holder_get (graph_size g) v)) (\<lambda>(g', v').
    wf_graph g' \<and> extends g g' \<and> finalTypes g' = finalTypes g \<and>
    (\<forall>i < length (nodes g'). length (nodes g) \<le> i \<longrightarrow> ctor_of (node_at g' i) \<in> {2, 9, 10}) \<and>
    (\<forall>i < length (nodes g). node_kept rx infos g g' (node_at g i) (node_at g' i)) \<and>
    (\<forall>i c. i < length (nodes g') \<longrightarrow> node_at g' i = Container c \<longrightarrow> NodeRef i \<in> reach (ti_edges g') (rootTypes g') \<longrightarrow>
      (\<forall>j < length (co_templateParams c).
        identified rx infos (ci_stubTemplateParams (co_info c)) g' j (co_templateParams c ! j))))"
  using assms by (rule typeIdentifier_contract)

section \<open>A concrete graph\<close>

text \<open>A map whose comparator, allocator and value type are to be replaced.\<close>

definition ti_example :: type_graph where
  "ti_example = \<lparr>nodes = [
     Container ((mk_container map_info 48 None 0)\<lparr>co_templateParams :=
       [mk_param (PrimRef Int32), mk_param (NodeRef 1), mk_param (NodeRef 2), mk_param (NodeRef 3)]\<rparr>),
     Class (mk_class KStruct ''ptr'' ''ptr'' 16 0 1),
     Class (mk_class KStruct ''less'' ''less'' 1 0 2),
     Class ((mk_class KStruct ''alloc'' ''alloc'' 1 0 3)\<lparr>cl_templateParams := [mk_param (PrimRef Int32)],
       cl_functions := [\<lparr>f_name = ''allocate'', f_virtuality = 0\<rparr>]\<rparr>)],
   rootTypes = [NodeRef 0], finalTypes = [], next_id = 4\<rparr>"

definition ptr_info :: container_info where
  "ptr_info = map_info\<lparr>ci_typeName := ''ptr'', ci_matcher := ''ptr'', ci_stubTemplateParams := []\<rparr>"

lemma sizes_endI:
  assumes "list_all (\<lambda>i. type_size g (NodeRef i) \<noteq> Inl Diverge) [0..<length (nodes g)]"
  shows "sizes_end g"
  unfolding sizes_end_def
proof (intro allI impI)
  fix t assume "in_graph g t"
  then show "type_size g t \<noteq> Inl Diverge"
  proof (cases t)
    case (PrimRef k)
    then show ?thesis using type_size_unfold [of g t] by (cases k) (auto simp: size_body_def)
  qed (use assms in \<open>simp add: list_all_iff\<close>)
qed

lemma ti_example_ok: "wf_graph ti_example" "no_capture_keys ti_example" "sizes_end ti_example"
proof -
  show "wf_graph ti_example" by (rule wf_checkD) code_simp
  show "sizes_end ti_example" by (rule sizes_endI) code_simp
qed code_simp

lemma ti_example_run:
  "map_sum (\<lambda>e. e) (\<lambda>r. ()) (typeIdentifier_pass (=) [ptr_info] ti_example (holder_get 4 [])) = Inr ()"
  by code_simp

theorem typeIdentifier_result_witness:
  "\<exists>g' v' c. typeIdentifier_pass (=) [ptr_info] ti_example (holder_get 4 []) = Inr (g', v') \<and>
     node_at g' 0 = Container c \<and> length (co_templateParams c) = 4 \<and>
     (\<forall>j < 4. identified (=) [ptr_info] [2, 3] g' j (co_templateParams c ! j))"
proof -
  obtain g' v' where run: "typeIdentifier_pass (=) [ptr_info] ti_example (holder_get 4 []) = Inr (g', v')"
    using ti_example_run by (cases "typeIdentifier_pass (=) [ptr_info] ti_example (holder_get 4 [])") auto
  have g: "graph_size ti_example = 4" "length (nodes ti_example) = 4" "rootTypes ti_example = [NodeRef 0]"
    by (simp_all add: ti_example_def graph_size_def)
  note res = typeIdentifier_result [OF ti_example_ok, of "(=)" "[ptr_info]" "[]", unfolded g(1), unfolded run spec_simps prod.case]
  have kept: "node_kept (=) [ptr_info] ti_example g' (node_at ti_example 0) (node_at g' 0)" using res g(2) by auto
  have n0: "\<exists>c. node_at ti_example 0 = Container c \<and> length (co_templateParams c) = 4 \<and> co_info c = map_info"
    by (simp add: ti_example_def node_at_def mk_container_def)
  then obtain c where c: "node_at g' 0 = Container c" "length (co_templateParams c) = 4" "co_info c = map_info"
    using kept by (auto simp: node_kept_def dest: list_all2_lengthD)
  have "0 < length (nodes g')"
  proof -
    have "NodeRef 0 \<in> set (rootTypes g')" "wf_graph g'" using res g(3) by (auto simp: extends_def)
    then show ?thesis by (auto simp: wf_graph_def wf_refs_def)
  qed
  moreover have "NodeRef 0 \<in> reach (ti_edges g') (rootTypes g')" using res g(3) by (auto simp: extends_def intro: reach.root)
  ultimately have "\<forall>j < 4. identified (=) [ptr_info] (ci_stubTemplateParams map_info) g' j (co_templateParams c ! j)"
    using res c by auto
  then show ?thesis using run c by (auto simp: map_info_def)
qed

end
