(* ===== verification/AddPadding.thy ===== *)
theory AddPadding
  imports MapPass
begin

text \<open>
  \<^verbatim>\<open>oi/type_graph/AddPadding.cpp\<close>: the members that fill the gaps of a class. Offsets and sizes are
  64-bit words; \<open>tiles\<close> states the layout the pass is there for.
\<close>

section \<open>The pass\<close>

definition MemberPrefix :: string where
  "MemberPrefix = ''__oi_padding''"

definition addPadding_bits ::
    "u64 \<Rightarrow> u64 \<Rightarrow> member list \<Rightarrow> type_graph \<Rightarrow> (member list \<times> type_graph) outcome" where
  "addPadding_bits paddingStartBits paddingEndBits paddedMembers g =
     (let paddingBits = paddingEndBits - paddingStartBits in
      if paddingBits = 0 then Inr (paddedMembers, g)
      else bindE (make_primitive Int8) (\<lambda>primitive.
        let paddedMembers = (if paddingBits mod 8 \<noteq> 0
              then paddedMembers @ [mk_member primitive MemberPrefix paddingStartBits (paddingBits mod 8)]
              else paddedMembers);
            paddingBytes = paddingBits div 8 in
        if paddingBytes > 0 then
          let paddingStartByte = (paddingStartBits + 7) div 8 in
          bindE (make_array primitive paddingBytes g) (\<lambda>(paddingArray, g).
            Inr (paddedMembers @ [(mk_member paddingArray '''' (paddingStartByte * 8) 0)
              \<lparr>m_name := MemberPrefix\<rparr>], g))
        else Inr (paddedMembers, g)))"

definition addPadding_after ::
    "member \<Rightarrow> u64 \<Rightarrow> member list \<Rightarrow> type_graph \<Rightarrow> (member list \<times> type_graph) outcome" where
  "addPadding_after prevMember paddingEndBits paddedMembers g =
     bindE (if m_bitsize prevMember = 0
            then bindE (type_size g (m_type prevMember)) (\<lambda>sz. Inr (sz * 8))
            else Inr (m_bitsize prevMember)) (\<lambda>prevMemberSizeBits.
       let prevMemberEndBits = m_bitOffset prevMember + prevMemberSizeBits in
       addPadding_bits prevMemberEndBits paddingEndBits paddedMembers g)"

text \<open>The loop over the members; \<open>prev\<close> is the member before the next one.\<close>

fun pad_loop ::
    "member option \<Rightarrow> member list \<Rightarrow> member list \<times> type_graph \<Rightarrow> (member list \<times> type_graph) outcome" where
  "pad_loop prev [] (padded, g) = Inr (padded, g)"
| "pad_loop prev (m # ms) (padded, g) =
     bindE (case prev of None \<Rightarrow> addPadding_bits 0 (m_bitOffset m) padded g
            | Some p \<Rightarrow> addPadding_after p (m_bitOffset m) padded g) (\<lambda>(padded, g).
     pad_loop (Some m) ms (padded @ [m], g))"

definition pad_members :: "class_node \<Rightarrow> type_graph \<Rightarrow> (member list \<times> type_graph) outcome" where
  "pad_members c g = bindE (pad_loop None (cl_members c) ([], g)) (\<lambda>(padded, g).
     if cl_members c \<noteq> [] then addPadding_after (last (cl_members c)) (cl_size c * 8) padded g
     else addPadding_bits 0 (cl_size c * 8) padded g)"

fun union_full :: "type_graph \<Rightarrow> class_node \<Rightarrow> member list \<Rightarrow> bool outcome" where
  "union_full g c [] = Inr False"
| "union_full g c (m # ms) =
     (if m_bitsize m = cl_size c * 8 then Inr True
      else bindE (type_size g (m_type m)) (\<lambda>sz.
        if sz = cl_size c then Inr True else union_full g c ms))"

definition pad_union :: "class_node \<Rightarrow> type_graph \<Rightarrow> (member list \<times> type_graph) outcome" where
  "pad_union c g = bindE (union_full g c (cl_members c)) (\<lambda>full.
     if full then Inr (cl_members c, g)
     else addPadding_bits 0 (cl_size c * 8) (cl_members c) g)"

definition addPadding_visit :: "tref set walker \<Rightarrow> tref set walker" where
  "addPadding_visit accept t s = bindE (get_ty t s) (\<lambda>n. case n of
      Class c \<Rightarrow>
        bindE (assertE (cl_parents c = [])) (\<lambda>_.
        bindE (for_each (\<lambda>p. accept (tp_type p)) (cl_templateParams c) s) (\<lambda>s.
        bindE (for_each (\<lambda>m. accept (m_type m)) (cl_members c) s) (\<lambda>s.
        bindE (get_class t s) (\<lambda>c.
        if cl_kind c = KUnion then
          bindE (pad_union c (ps_graph s)) (\<lambda>(ms, g).
            Inr (s\<lparr>ps_graph := put_node t (Class (c\<lparr>cl_members := ms\<rparr>)) g\<rparr>))
        else
          bindE (pad_members c (ps_graph s)) (\<lambda>(ms, g).
          let s = s\<lparr>ps_graph := put_node t (Class (c\<lparr>cl_members := ms\<rparr>)) g\<rparr> in
          for_each accept (cl_children c) s)))))
    | _ \<Rightarrow> recursive_visit accept n s)"

definition addPadding_accept :: "tref set walker \<Rightarrow> tref set walker" where
  "addPadding_accept = accept_with ptr_visit addPadding_visit"

definition addPadding_pass :: pass_fn where
  "addPadding_pass = pointer_pass addPadding_accept"

section \<open>Layouts\<close>

text \<open>The bits a member takes: its width if it is a bitfield, the size of its type otherwise.\<close>

definition member_bits :: "type_graph \<Rightarrow> member \<Rightarrow> nat outcome" where
  "member_bits g m = (if m_bitsize m = 0
     then bindE (type_size g (m_type m)) (\<lambda>sz. Inr (unat sz * 8)) else Inr (unat (m_bitsize m)))"

text \<open>
  The members lie one after the other and fill exactly the bits from \<open>a\<close> to \<open>b\<close>; and the layouts the
  pass starts from: members in the order of their offsets without overlap, where a gap of a byte or
  more ends at a byte.
\<close>

fun tiles :: "type_graph \<Rightarrow> nat \<Rightarrow> member list \<Rightarrow> nat \<Rightarrow> bool" where
  "tiles g a [] b = (a = b)"
| "tiles g a (m # ms) b = (unat (m_bitOffset m) = a \<and>
     (case member_bits g m of Inl e \<Rightarrow> False | Inr k \<Rightarrow> tiles g (a + k) ms b))"

definition gap_ok :: "nat \<Rightarrow> nat \<Rightarrow> bool" where
  "gap_ok a b = (a \<le> b \<and> (8 \<le> b - a \<longrightarrow> b mod 8 = 0))"

fun spread :: "type_graph \<Rightarrow> nat \<Rightarrow> member list \<Rightarrow> nat \<Rightarrow> bool" where
  "spread g a [] b = gap_ok a b"
| "spread g a (m # ms) b = (gap_ok a (unat (m_bitOffset m)) \<and>
     (case member_bits g m of Inl e \<Rightarrow> False | Inr k \<Rightarrow> spread g (unat (m_bitOffset m) + k) ms b))"

lemma tiles_append: "tiles g a (xs @ ys) b \<longleftrightarrow> (\<exists>c. tiles g a xs c \<and> tiles g c ys b)"
  by (induction xs arbitrary: a) (auto split: sum.splits)

text \<open>
  What the pass keeps of a graph at any time: only arrays of a primitive type are appended, and an old node
  keeps what the size of a type depends on. One call of \<open>addPadding\<close> does no more than append.
\<close>

definition pad_type :: "ty \<Rightarrow> bool" where
  "pad_type n \<longleftrightarrow> (\<exists>a k. n = Array a \<and> ar_elementType a = PrimRef k)"

definition sizes_kept :: "type_graph \<Rightarrow> type_graph \<Rightarrow> bool" where
  "sizes_kept g g' \<longleftrightarrow> extends g g' \<and> finalTypes g' = finalTypes g \<and>
     (\<forall>i < length (nodes g). same_size (node_at g i) (node_at g' i)) \<and>
     (\<forall>i < length (nodes g'). length (nodes g) \<le> i \<longrightarrow> pad_type (node_at g' i))"

definition grows :: "type_graph \<Rightarrow> type_graph \<Rightarrow> bool" where
  "grows g g' \<longleftrightarrow> wf_graph g' \<and> extends g g' \<and> finalTypes g' = finalTypes g \<and>
     (\<exists>new. nodes g' = nodes g @ new \<and> (\<forall>n \<in> set new. pad_type n))"

lemma sizes_kept_refl [simp]: "sizes_kept g g"
  by (simp add: sizes_kept_def)

lemma same_size_trans: "same_size n n' \<Longrightarrow> same_size n' n'' \<Longrightarrow> same_size n n''"
  by (auto simp: same_size_def)

lemma pad_type_size: "pad_type n \<Longrightarrow> same_size n n' \<Longrightarrow> pad_type n'"
  by (auto simp: pad_type_def same_size_def)

lemma sizes_kept_trans:
  assumes "sizes_kept g g'" "sizes_kept g' g''"
  shows "sizes_kept g g''"
proof -
  have len: "length (nodes g) \<le> length (nodes g')" using assms(1) by (simp add: sizes_kept_def extends_def)
  have "pad_type (node_at g'' i)" if "i < length (nodes g'')" "length (nodes g) \<le> i" for i
  proof (cases "i < length (nodes g')")
    case True
    then have "pad_type (node_at g' i)" "same_size (node_at g' i) (node_at g'' i)"
      using assms that(2) by (simp_all add: sizes_kept_def)
    then show ?thesis by (rule pad_type_size)
  qed (use assms(2) that(1) in \<open>simp add: sizes_kept_def\<close>)
  moreover have "same_size (node_at g i) (node_at g'' i)" if "i < length (nodes g)" for i
  proof (rule same_size_trans)
    show "same_size (node_at g i) (node_at g' i)" "same_size (node_at g' i) (node_at g'' i)"
      using assms that len by (simp_all add: sizes_kept_def)
  qed
  moreover have "extends g g''" "finalTypes g'' = finalTypes g"
    using assms extends_trans by (auto simp: sizes_kept_def)
  ultimately show ?thesis by (simp add: sizes_kept_def)
qed

lemma sizes_kept_extends: "sizes_kept g g' \<Longrightarrow> extends g g'"
  by (simp add: sizes_kept_def)

lemma grows_refl: "wf_graph g \<Longrightarrow> grows g g"
  by (simp add: grows_def)

lemma grows_trans: "grows g g' \<Longrightarrow> grows g' g'' \<Longrightarrow> grows g g''"
  unfolding grows_def using extends_trans by fastforce

lemma grows_node: "grows g g' \<Longrightarrow> i < length (nodes g) \<Longrightarrow> i < length (nodes g') \<and> node_at g' i = node_at g i"
  by (auto simp: grows_def node_at_def nth_append)

lemma grows_new: "grows g g' \<Longrightarrow> length (nodes g) \<le> i \<Longrightarrow> i < length (nodes g') \<Longrightarrow> pad_type (node_at g' i)"
  by (auto simp: grows_def node_at_def nth_append)

lemma grows_kept: "grows g g' \<Longrightarrow> sizes_kept g g'"
  using grows_node [of g g'] grows_new [of g g'] by (auto simp: sizes_kept_def grows_def)

lemma grows_wf: "grows g g' \<Longrightarrow> wf_graph g'"
  by (simp add: grows_def)

lemma kept_size:
  assumes "wf_refs g" "sizes_kept g g'" "in_graph g t"
  shows "type_size g' t = type_size g t"
proof (rule type_size_cong [OF assms(1,3)])
  fix i assume i: "i < length (nodes g)"
  then have "i < length (nodes g')" using assms(2) by (auto simp: sizes_kept_def extends_def)
  then show "i < length (nodes g') \<and> same_size (node_at g i) (node_at g' i)"
    using assms(2) i by (simp add: sizes_kept_def)
qed

lemma kept_bits:
  "wf_refs g \<Longrightarrow> sizes_kept g g' \<Longrightarrow> in_graph g (m_type m) \<Longrightarrow> member_bits g' m = member_bits g m"
  using kept_size [of g g' "m_type m"] by (simp add: member_bits_def)

lemma kept_tiles:
  assumes "wf_refs g" "sizes_kept g g'"
  shows "\<forall>m \<in> set ms. in_graph g (m_type m) \<Longrightarrow> tiles g' a ms b = tiles g a ms b"
proof (induction ms arbitrary: a)
  case (Cons m ms)
  then show ?case using kept_bits [OF assms, of m] by (auto split: sum.splits)
qed simp

lemma kept_spread:
  assumes "wf_refs g" "sizes_kept g g'"
  shows "\<forall>m \<in> set ms. in_graph g (m_type m) \<Longrightarrow> spread g' a ms b = spread g a ms b"
proof (induction ms arbitrary: a)
  case (Cons m ms)
  then show ?case using kept_bits [OF assms, of m] by (auto split: sum.splits)
qed simp

definition is_padding :: "type_graph \<Rightarrow> member \<Rightarrow> bool" where
  "is_padding g m \<longleftrightarrow> m_name m = MemberPrefix \<and>
     (m_type m = PrimRef Int8 \<and> 0 < m_bitsize m \<or>
      m_bitsize m = 0 \<and> (\<exists>a. deref g (m_type m) = Inr (Array a) \<and> ar_elementType a = PrimRef Int8))"

lemma kept_array:
  assumes "sizes_kept g g'" "deref g t = Inr (Array a)"
  shows "deref g' t = Inr (Array a)"
proof (cases t)
  case (NodeRef i)
  note own = deref_owned [OF assms(2) [unfolded NodeRef]]
  then have "node_at g' i = Array a" "i < length (nodes g')"
    using assms(1) by (auto simp: sizes_kept_def same_size_def extends_def)
  then show ?thesis using NodeRef by simp
qed (use assms in simp)

lemma is_padding_kept: "sizes_kept g g' \<Longrightarrow> is_padding g m \<Longrightarrow> is_padding g' m"
  using kept_array [of g g'] unfolding is_padding_def by blast

lemma unat_mod8: "unat (w mod 8 :: u64) = unat w mod 8" "unat (w div 8 :: u64) = unat w div 8"
  by (simp_all add: unat_mod unat_div)

lemma gap_bits:
  fixes a b :: u64
  assumes "gap_ok (unat a) (unat b)"
  shows "unat (b - a) = unat b - unat a" "a \<le> b"
proof -
  show "a \<le> b" using assms by (simp add: gap_ok_def word_le_nat_alt)
  then show "unat (b - a) = unat b - unat a" by (rule unat_sub)
qed

lemma round_up_8:
  fixes x y :: nat
  assumes "y mod 8 = 0" "x \<le> y"
  shows "(x + 7) div 8 * 8 = x + (y - x) mod 8"
proof -
  obtain q where y: "y = 8 * q" using assms(1) by auto
  define p r where "p = x div 8" and "r = x mod 8"
  have x: "x = 8 * p + r" "r < 8" by (simp_all add: p_def r_def)
  show ?thesis
  proof (cases "r = 0")
    case True
    then have "y - x = 8 * (q - p)" using x y by simp
    then show ?thesis using True x by simp
  next
    case False
    then have "p < q" using assms(2) x y by linarith
    then have "y - x = (8 - r) + 8 * (q - p - 1)" using x y False by linarith
    then have "(y - x) mod 8 = 8 - r" using False by (simp add: mod_less)
    moreover have "(x + 7) div 8 = p + 1" using x False by linarith
    ultimately show ?thesis using x False by linarith
  qed
qed

lemma byte_start:
  fixes a b :: u64
  assumes "unat a \<le> unat b" and "8 \<le> unat b - unat a"
  shows "unat ((a + 7) div 8 * 8) = (unat a + 7) div 8 * 8"
proof -
  have lt: "unat b < 2 ^ 64" using unsigned_less [of b, where ?'a = nat] by simp
  have "unat (a + 7) = unat a + 7"
    using assms lt by (subst unat_add_lem [THEN iffD1]) simp_all
  then have div: "unat ((a + 7) div 8) = (unat a + 7) div 8" by (simp add: unat_mod8)
  have "(unat a + 7) div 8 * 8 \<le> unat a + 7" by simp
  then have "(unat a + 7) div 8 * 8 < 2 ^ 64" using assms lt by linarith
  then show ?thesis using div by (subst unat_mult_lem [THEN iffD1]) simp_all
qed

lemma gap_start:
  fixes a b :: u64
  assumes "gap_ok (unat a) (unat b)" "8 \<le> unat b - unat a"
  shows "unat ((a + 7) div 8 * 8) = unat a + (unat b - unat a) mod 8"
proof -
  have b8: "unat b mod 8 = 0" and le: "unat a \<le> unat b" using assms by (simp_all add: gap_ok_def)
  have "(unat a + 7) div 8 * 8 = unat a + (unat b - unat a) mod 8"
    using b8 le assms(2) by (intro round_up_8) simp_all
  then show ?thesis using byte_start [OF le assms(2)] by simp
qed

lemma array_size:
  assumes "deref g t = Inr (Array a)" "ar_elementType a = PrimRef Int8"
  shows "type_size g t = Inr (ar_len a)"
proof -
  have "type_size g (PrimRef Int8) = Inr 1"
    by (subst type_size_unfold) (simp add: size_body_def)
  then show ?thesis using assms by (subst type_size_unfold) (simp add: size_body_def)
qed

lemma addPadding_bits_spec:
  assumes "wf_graph g"
  shows "\<exists>pads g'. addPadding_bits a b ms g = Inr (ms @ pads, g') \<and> grows g g' \<and>
     (\<forall>m \<in> set pads. is_padding g' m \<and> in_graph g' (m_type m)) \<and>
     (gap_ok (unat a) (unat b) \<longrightarrow> tiles g' (unat a) pads (unat b))"
proof -
  let ?k = "b - a"
  let ?bits = "if ?k mod 8 \<noteq> 0 then [mk_member (PrimRef Int8) MemberPrefix a (?k mod 8)] else []"
  have bits_pad: "\<forall>m \<in> set ?bits. is_padding g' m \<and> in_graph g' (m_type m)" for g'
    by (auto simp: is_padding_def mk_member_def word_gt_0)
  have bits_tile: "tiles g' (unat a) ?bits (unat a + (unat b - unat a) mod 8)"
    if "gap_ok (unat a) (unat b)" for g'
  proof -
    have "unat (?k mod 8) = (unat b - unat a) mod 8"
      using gap_bits [OF that] by (simp add: unat_mod8)
    moreover from this have "?k mod 8 = 0 \<longleftrightarrow> (unat b - unat a) mod 8 = 0"
      by (metis unat_eq_zero)
    ultimately show ?thesis by (simp add: mk_member_def member_bits_def)
  qed
  show ?thesis
  proof (cases "?k div 8 = 0")
    case True
    have "addPadding_bits a b ms g = Inr (ms @ ?bits, g)"
      using True by (auto simp: addPadding_bits_def make_primitive_def Let_def)
    moreover have "tiles g (unat a) ?bits (unat b)" if gap: "gap_ok (unat a) (unat b)"
    proof -
      have "(unat b - unat a) div 8 = 0" using True gap_bits [OF gap] unat_mod8(2) [of ?k] by simp
      then have "unat a + (unat b - unat a) mod 8 = unat b"
        using gap by (simp add: gap_ok_def)
      then show ?thesis using bits_tile [OF gap] by metis
    qed
    ultimately show ?thesis using bits_pad assms grows_refl by blast
  next
    case False
    obtain arr g' where arr: "make_array (PrimRef Int8) (?k div 8) g = Inr (NodeRef (length (nodes g)), g')"
      "wf_graph g'" "extends g g'" "nodes g' = nodes g @ [Array arr]" "ar_elementType arr = PrimRef Int8"
      "ar_len arr = ?k div 8" "finalTypes g' = finalTypes g"
      using make_array_spec [OF assms, of "PrimRef Int8" "?k div 8"] by auto
    let ?arr = "(mk_member (NodeRef (length (nodes g))) '''' ((a + 7) div 8 * 8) 0)\<lparr>m_name := MemberPrefix\<rparr>"
    have deref: "deref g' (NodeRef (length (nodes g))) = Inr (Array arr)"
      using arr(4) by (simp add: deref.simps)
    have "?k \<noteq> 0" "?k div 8 > 0" using False by (auto simp: word_gt_0)
    then have "addPadding_bits a b ms g = Inr (ms @ ?bits @ [?arr], g')"
      using arr(1) by (simp add: addPadding_bits_def make_primitive_def Let_def)
    moreover have "grows g g'" using arr by (simp add: grows_def pad_type_def)
    moreover have "\<forall>m \<in> set (?bits @ [?arr]). is_padding g' m \<and> in_graph g' (m_type m)"
      using bits_pad [of g'] deref arr by (auto simp: is_padding_def mk_member_def)
    moreover have "tiles g' (unat a) (?bits @ [?arr]) (unat b)" if gap: "gap_ok (unat a) (unat b)"
    proof -
      have k: "unat (?k div 8) = (unat b - unat a) div 8"
        using gap_bits [OF gap] by (simp add: unat_mod8)
      then have "8 \<le> unat b - unat a" using False by (metis div_less not_less unat_eq_zero)
      then have "unat ((a + 7) div 8 * 8) = unat a + (unat b - unat a) mod 8"
        by (rule gap_start [OF gap])
      moreover have "unat b = unat a + (unat b - unat a) mod 8 + (unat b - unat a) div 8 * 8"
        using gap by (simp add: gap_ok_def)
      ultimately show ?thesis
        using bits_tile [OF gap, of g'] array_size [OF deref arr(5)] arr(6) k
        unfolding tiles_append by (auto simp: member_bits_def mk_member_def)
    qed
    ultimately show ?thesis by blast
  qed
qed

section \<open>Padding a class\<close>

definition prev_end :: "type_graph \<Rightarrow> member option \<Rightarrow> u64 outcome" where
  "prev_end g prev = (case prev of None \<Rightarrow> Inr 0
     | Some p \<Rightarrow> bindE (if m_bitsize p = 0 then bindE (type_size g (m_type p)) (\<lambda>sz. Inr (sz * 8))
         else Inr (m_bitsize p)) (\<lambda>k. Inr (m_bitOffset p + k)))"

lemma addPadding_prev:
  "(case prev of None \<Rightarrow> addPadding_bits 0 b padded g | Some p \<Rightarrow> addPadding_after p b padded g) =
   bindE (prev_end g prev) (\<lambda>e. addPadding_bits e b padded g)"
  by (cases prev) (simp_all add: prev_end_def addPadding_after_def bindE_assoc Let_def)

text \<open>A member whose type belongs to the graph and has a size.\<close>

definition sized :: "type_graph \<Rightarrow> member \<Rightarrow> bool" where
  "sized g m \<longleftrightarrow> in_graph g (m_type m) \<and> (\<exists>sz. type_size g (m_type m) = Inr sz)"

lemma sized_kept: "wf_refs g \<Longrightarrow> sizes_kept g g' \<Longrightarrow> sized g m \<Longrightarrow> sized g' m"
  using extends_in_graph [of g g'] kept_size [of g g'] sizes_kept_extends [of g g']
  by (auto simp: sized_def)

lemma prev_end_bits:
  assumes "sized g m"
  obtains e k where "prev_end g (Some m) = Inr e" "member_bits g m = Inr k"
    "unat (m_bitOffset m) + k < 2 ^ 64 \<Longrightarrow> unat e = unat (m_bitOffset m) + k"
proof -
  obtain sz where sz: "type_size g (m_type m) = Inr sz" using assms by (auto simp: sized_def)
  let ?w = "if m_bitsize m = 0 then sz * 8 else m_bitsize m"
  let ?k = "if m_bitsize m = 0 then unat sz * 8 else unat (m_bitsize m)"
  have e: "prev_end g (Some m) = Inr (m_bitOffset m + ?w)" and k: "member_bits g m = Inr ?k"
    using sz by (simp_all add: prev_end_def member_bits_def)
  have "unat (m_bitOffset m + ?w) = unat (m_bitOffset m) + ?k" if lt: "unat (m_bitOffset m) + ?k < 2 ^ 64"
  proof -
    have "unat ?w = ?k" using lt by (auto simp: unat_mult_lem [THEN iffD1])
    then show ?thesis using lt by (subst unat_add_lem [THEN iffD1]) (simp_all split: if_splits)
  qed
  then show ?thesis using that e k by blast
qed

lemma shuffles_step:
  assumes "zs \<in> shuffles ms pads"
  shows "p @ m # zs \<in> shuffles (m # ms) (p @ pads)"
proof (induction p)
  case Nil
  then show ?case using assms by (simp add: Cons_in_shuffles_leftI)
next
  case (Cons x p)
  then show ?case by (simp add: Cons_in_shuffles_rightI)
qed

lemma shuffles_end: "zs \<in> shuffles ms pads \<Longrightarrow> zs @ p \<in> shuffles ms (pads @ p)"
proof (induction ms pads arbitrary: zs rule: shuffles.induct)
  case (3 x xs y ys)
  then show ?case by (auto simp: Cons_in_shuffles_leftI Cons_in_shuffles_rightI)
next
  case (2 xs)
  have "xs @ p \<in> shuffles xs p"
  proof (induction xs)
    case (Cons x xs)
    then show ?case by (simp add: Cons_in_shuffles_leftI)
  qed simp
  then show ?case using 2 by simp
qed simp

lemma spread_le: "spread g a xs c \<Longrightarrow> a \<le> c"
proof (induction xs arbitrary: a)
  case (Cons x xs)
  then obtain k where "a \<le> unat (m_bitOffset x)" "spread g (unat (m_bitOffset x) + k) xs c"
    by (auto simp: gap_ok_def split: sum.splits)
  then show ?case using Cons.IH [of "unat (m_bitOffset x) + k"] by simp
qed (simp add: gap_ok_def)

definition padded_from :: "type_graph \<Rightarrow> member list \<Rightarrow> member list \<Rightarrow> bool" where
  "padded_from g ms ms' \<longleftrightarrow> (\<exists>pads. ms' \<in> shuffles ms pads \<and>
     (\<forall>m \<in> set pads. is_padding g m \<and> in_graph g (m_type m)))"

lemma padded_from_types:
  "padded_from g ms ms' \<Longrightarrow> \<forall>m \<in> set ms. in_graph g (m_type m) \<Longrightarrow> m \<in> set ms' \<Longrightarrow> in_graph g (m_type m)"
  using set_shuffles by (fastforce simp: padded_from_def)

lemma padded_from_refl: "padded_from g ms ms"
  unfolding padded_from_def by (rule exI [of _ "[]"]) simp

lemma padded_from_kept: "sizes_kept g g' \<Longrightarrow> padded_from g ms ms' \<Longrightarrow> padded_from g' ms ms'"
  using is_padding_kept [of g g'] extends_in_graph [OF sizes_kept_extends [of g g']]
  unfolding padded_from_def by blast

lemma padded_from_step:
  assumes "padded_from g ms ms'" "\<forall>m \<in> set p. is_padding g m \<and> in_graph g (m_type m)"
  shows "padded_from g (m # ms) (p @ m # ms')"
proof -
  obtain pads where "ms' \<in> shuffles ms pads" "\<forall>m \<in> set pads. is_padding g m \<and> in_graph g (m_type m)"
    using assms(1) by (auto simp: padded_from_def)
  then show ?thesis using assms(2) shuffles_step [of ms' ms pads p m] unfolding padded_from_def
    by (intro exI [of _ "p @ pads"]) auto
qed

lemma padded_from_end:
  assumes "padded_from g ms ms'" "\<forall>m \<in> set p. is_padding g m \<and> in_graph g (m_type m)"
  shows "padded_from g ms (ms' @ p)"
proof -
  obtain pads where "ms' \<in> shuffles ms pads" "\<forall>m \<in> set pads. is_padding g m \<and> in_graph g (m_type m)"
    using assms(1) by (auto simp: padded_from_def)
  then show ?thesis using assms(2) shuffles_end [of ms' ms pads p] unfolding padded_from_def
    by (intro exI [of _ "pads @ p"]) auto
qed

lemma pad_loop_spec:
  assumes "wf_graph g" "\<forall>m \<in> set ms. sized g m" "prev_end g prev = Inr e"
  shows "\<exists>ms' g' e'. pad_loop prev ms (padded, g) = Inr (padded @ ms', g') \<and> grows g g' \<and>
     padded_from g' ms ms' \<and> prev_end g' (if ms = [] then prev else Some (last ms)) = Inr e' \<and>
     (\<forall>b. spread g (unat e) ms b \<and> b < 2 ^ 64 \<longrightarrow>
        tiles g' (unat e) ms' (unat e') \<and> gap_ok (unat e') b)"
  using assms
proof (induction ms arbitrary: prev padded g e)
  case Nil
  then show ?case
    by (intro exI [of _ "[]"] exI [of _ g] exI [of _ e]) (auto simp: padded_from_def grows_refl)
next
  case (Cons m ms)
  obtain pads g1 where g1: "addPadding_bits e (m_bitOffset m) padded g = Inr (padded @ pads, g1)"
    "grows g g1" "\<forall>m \<in> set pads. is_padding g1 m \<and> in_graph g1 (m_type m)"
    "gap_ok (unat e) (unat (m_bitOffset m)) \<longrightarrow> tiles g1 (unat e) pads (unat (m_bitOffset m))"
    using addPadding_bits_spec [OF Cons.prems(1)] by blast
  have wf1: "wf_graph g1" using g1(2) by (simp add: grows_def)
  have sized1: "\<forall>x \<in> set (m # ms). sized g1 x"
    using Cons.prems(1,2) sized_kept [OF _ grows_kept [OF g1(2)]] by (auto simp: wf_graph_def)
  then obtain f k where f: "prev_end g1 (Some m) = Inr f" "member_bits g1 m = Inr k"
    "unat (m_bitOffset m) + k < 2 ^ 64 \<Longrightarrow> unat f = unat (m_bitOffset m) + k"
    using prev_end_bits [of g1 m] by (metis list.set_intros(1))
  have "\<forall>x \<in> set ms. sized g1 x" using sized1 by simp
  from Cons.IH [OF wf1 this f(1), of "(padded @ pads) @ [m]"]
  obtain ms' g' e' where IH: "pad_loop (Some m) ms ((padded @ pads) @ [m], g1) =
      Inr (((padded @ pads) @ [m]) @ ms', g')" "grows g1 g'" "padded_from g' ms ms'"
    "prev_end g' (if ms = [] then Some m else Some (last ms)) = Inr e'"
    "\<And>b. spread g1 (unat f) ms b \<and> b < 2 ^ 64 \<Longrightarrow> tiles g' (unat f) ms' (unat e') \<and> gap_ok (unat e') b"
    by blast
  let ?ms' = "pads @ m # ms'"
  have loop: "pad_loop prev (m # ms) (padded, g) = Inr (padded @ ?ms', g')"
    using Cons.prems(3) g1(1) IH(1) by (simp add: addPadding_prev)
  have grows: "grows g g'" using g1(2) IH(2) by (rule grows_trans)
  have pads: "padded_from g' (m # ms) ?ms'"
    using g1(3) is_padding_kept [OF grows_kept [OF IH(2)]] extends_in_graph [of g1 g'] IH(2)
    by (intro padded_from_step IH(3)) (auto simp: grows_def)
  have "tiles g' (unat e) ?ms' (unat e') \<and> gap_ok (unat e') b"
    if b: "spread g (unat e) (m # ms) b" "b < 2 ^ 64" for b
  proof -
    have bits: "member_bits g x = member_bits g1 x" if "x \<in> set (m # ms)" for x
    proof -
      have "in_graph g (m_type x)" using Cons.prems(2) that unfolding sized_def by blast
      then show ?thesis using kept_bits [OF _ grows_kept [OF g1(2)]] Cons.prems(1) by (simp add: wf_graph_def)
    qed
    have spread1: "spread g a xs b \<Longrightarrow> set xs \<subseteq> set (m # ms) \<Longrightarrow> spread g1 a xs b" for a xs
      using bits by (induction xs arbitrary: a) (auto split: sum.splits)
    from b(1) have gap: "gap_ok (unat e) (unat (m_bitOffset m))"
      and rest: "spread g (unat (m_bitOffset m) + k) ms b"
      using bits [of m] f(2) by (auto split: sum.splits)
    have "unat f = unat (m_bitOffset m) + k" using f(3) spread_le [OF rest] b(2) by simp
    then have ms': "tiles g' (unat f) ms' (unat e') \<and> gap_ok (unat e') b"
      using IH(5) spread1 [OF rest] b(2) by auto
    have "tiles g' (unat e) pads (unat (m_bitOffset m))"
      using g1(3,4) gap kept_tiles [OF _ grows_kept [OF IH(2)]] wf1 by (auto simp: wf_graph_def)
    moreover have "member_bits g' m = Inr k"
      using kept_bits [OF _ grows_kept [OF IH(2)]] wf1 sized1 f(2) by (simp add: sized_def wf_graph_def)
    ultimately show ?thesis
      using ms' \<open>unat f = _\<close> unfolding tiles_append by auto
  qed
  then show ?case using loop grows pads IH(4) by (auto split: if_splits)
qed

text \<open>The whole of a struct and the whole of a union.\<close>

lemma pad_members_spec:
  assumes "wf_graph g" "\<forall>m \<in> set (cl_members c). sized g m"
  shows "\<exists>ms' g'. pad_members c g = Inr (ms', g') \<and> grows g g' \<and>
     padded_from g' (cl_members c) ms' \<and>
     (unat (cl_size c) * 8 < 2 ^ 64 \<and> spread g 0 (cl_members c) (unat (cl_size c) * 8) \<longrightarrow>
        tiles g' 0 ms' (unat (cl_size c) * 8))"
proof -
  let ?ms = "cl_members c"
  have "prev_end g None = Inr 0" by (simp add: prev_end_def)
  from pad_loop_spec [OF assms this, of "[]"]
  obtain ms1 g1 e where l: "pad_loop None ?ms ([], g) = Inr (ms1, g1)" "grows g g1"
    "padded_from g1 ?ms ms1" "prev_end g1 (if ?ms = [] then None else Some (last ?ms)) = Inr e"
    "\<And>b. spread g 0 ?ms b \<and> b < 2 ^ 64 \<Longrightarrow> tiles g1 0 ms1 (unat e) \<and> gap_ok (unat e) b"
    by auto
  have wf1: "wf_graph g1" using l(2) by (simp add: grows_def)
  obtain pads g2 where p: "addPadding_bits e (cl_size c * 8) ms1 g1 = Inr (ms1 @ pads, g2)"
    "grows g1 g2" "\<forall>m \<in> set pads. is_padding g2 m \<and> in_graph g2 (m_type m)"
    "gap_ok (unat e) (unat (cl_size c * 8)) \<longrightarrow> tiles g2 (unat e) pads (unat (cl_size c * 8))"
    using addPadding_bits_spec [OF wf1] by blast
  have "pad_members c g = Inr (ms1 @ pads, g2)"
    using l(1,4) p(1) addPadding_prev [where prev = "if ?ms = [] then None else Some (last ?ms)"]
    by (auto simp: pad_members_def prev_end_def split: if_splits)
  moreover have "grows g g2" using l(2) p(2) by (rule grows_trans)
  moreover have "padded_from g2 ?ms (ms1 @ pads)"
    by (rule padded_from_end [OF padded_from_kept [OF grows_kept [OF p(2)] l(3)] p(3)])
  moreover have "tiles g2 0 (ms1 @ pads) (unat (cl_size c) * 8)"
    if lay: "unat (cl_size c) * 8 < 2 ^ 64" "spread g 0 ?ms (unat (cl_size c) * 8)"
  proof -
    have sz: "unat (cl_size c * 8) = unat (cl_size c) * 8"
      using lay(1) by (subst unat_mult_lem [THEN iffD1]) simp_all
    have "\<forall>m \<in> set ms1. in_graph g1 (m_type m)"
      using padded_from_types [OF l(3)] assms(2) extends_in_graph [of g g1] l(2)
      by (auto simp: sized_def grows_def)
    then have "tiles g2 0 ms1 (unat e)" "gap_ok (unat e) (unat (cl_size c) * 8)"
      using l(5) [of "unat (cl_size c) * 8"] lay kept_tiles [OF _ grows_kept [OF p(2)]] wf1 by (simp_all add: wf_graph_def)
    then show ?thesis using p(4) sz unfolding tiles_append by auto
  qed
  ultimately show ?thesis by blast
qed

lemma union_full_spec:
  assumes "\<forall>m \<in> set ms. sized g m"
  shows "union_full g c ms = Inr (\<exists>m \<in> set ms. m_bitsize m = cl_size c * 8 \<or>
     type_size g (m_type m) = Inr (cl_size c))"
  using assms by (induction ms) (auto simp: sized_def)

lemma addPadding_whole:
  assumes "wf_graph g" "0 < unat sz * 8" "unat sz * 8 < 2 ^ 64"
  shows "\<exists>m g'. addPadding_bits 0 (sz * 8) ms g = Inr (ms @ [m], g') \<and> grows g g' \<and>
     is_padding g' m \<and> in_graph g' (m_type m) \<and> type_size g' (m_type m) = Inr sz"
proof -
  have w: "unat (sz * 8) = unat sz * 8" using assms(3) by (subst unat_mult_lem [THEN iffD1]) simp_all
  then have "(sz * 8) mod 8 = 0" "(sz * 8) div 8 = sz" "sz * 8 \<noteq> 0" "0 < sz"
    using assms(2) unat_mod8 [of "sz * 8"]
    by (auto simp: word_gt_0) (metis mod_mult_self2_is_0 unat_eq_zero, metis unsigned_word_eqI nonzero_mult_div_cancel_right zero_neq_numeral)
  moreover obtain arr g' where arr: "make_array (PrimRef Int8) sz g = Inr (NodeRef (length (nodes g)), g')"
      "wf_graph g'" "extends g g'" "nodes g' = nodes g @ [Array arr]" "ar_elementType arr = PrimRef Int8"
      "ar_len arr = sz" "finalTypes g' = finalTypes g"
    using make_array_spec [OF assms(1), of "PrimRef Int8" sz] by auto
  moreover from this have deref: "deref g' (NodeRef (length (nodes g))) = Inr (Array arr)"
    by (simp add: deref.simps)
  ultimately show ?thesis
    using array_size [OF deref arr(5)]
    by (simp add: addPadding_bits_def make_primitive_def Let_def grows_def pad_type_def is_padding_def mk_member_def)
qed

lemma pad_union_spec:
  assumes "wf_graph g" "\<forall>m \<in> set (cl_members c). sized g m"
  shows "\<exists>ms' g'. pad_union c g = Inr (ms', g') \<and> grows g g' \<and>
     padded_from g' (cl_members c) ms' \<and> (0 < unat (cl_size c) * 8 \<and> unat (cl_size c) * 8 < 2 ^ 64 \<longrightarrow>
     (\<exists>m \<in> set ms'. m_bitsize m = cl_size c * 8 \<or> type_size g' (m_type m) = Inr (cl_size c)))"
proof (cases "\<exists>m \<in> set (cl_members c). m_bitsize m = cl_size c * 8 \<or>
     type_size g (m_type m) = Inr (cl_size c)")
  case True
  then show ?thesis
    using union_full_spec [OF assms(2), of c] grows_refl [OF assms(1)] padded_from_refl
    by (auto simp: pad_union_def)
next
  case False
  have "\<exists>pads g'. addPadding_bits 0 (cl_size c * 8) (cl_members c) g = Inr (cl_members c @ pads, g') \<and>
      grows g g' \<and> (\<forall>m \<in> set pads. is_padding g' m \<and> in_graph g' (m_type m)) \<and>
      (0 < unat (cl_size c) * 8 \<and> unat (cl_size c) * 8 < 2 ^ 64 \<longrightarrow>
        (\<exists>m \<in> set pads. type_size g' (m_type m) = Inr (cl_size c)))"
  proof (cases "0 < unat (cl_size c) * 8 \<and> unat (cl_size c) * 8 < 2 ^ 64")
    case True
    obtain m g' where "addPadding_bits 0 (cl_size c * 8) (cl_members c) g = Inr (cl_members c @ [m], g')"
      "grows g g'" "is_padding g' m" "in_graph g' (m_type m)" "type_size g' (m_type m) = Inr (cl_size c)"
      using addPadding_whole [OF assms(1)] True by blast
    then show ?thesis by (intro exI [of _ "[m]"] exI [of _ g']) simp
  next
    case False
    then show ?thesis using addPadding_bits_spec [OF assms(1)] by metis
  qed
  then obtain pads g' where p: "addPadding_bits 0 (cl_size c * 8) (cl_members c) g = Inr (cl_members c @ pads, g')"
    "grows g g'" "\<forall>m \<in> set pads. is_padding g' m \<and> in_graph g' (m_type m)"
    "0 < unat (cl_size c) * 8 \<and> unat (cl_size c) * 8 < 2 ^ 64 \<longrightarrow>
        (\<exists>m \<in> set pads. type_size g' (m_type m) = Inr (cl_size c))"
    by blast
  have "padded_from g' (cl_members c) (cl_members c @ pads)"
    by (rule padded_from_end [OF padded_from_refl p(3)])
  moreover have "pad_union c g = Inr (cl_members c @ pads, g')"
    using p(1) False union_full_spec [OF assms(2), of c] by (auto simp: pad_union_def)
  ultimately show ?thesis using p(2,4) by auto
qed

section \<open>The pass over a graph\<close>

text \<open>The references the pass follows: not those to the children of a union.\<close>

fun pad_view :: "ty \<Rightarrow> ty" where
  "pad_view (Class c) = Class (if cl_kind c = KUnion then c\<lparr>cl_children := []\<rparr> else c)"
| "pad_view n = n"

definition pad_cov1 :: "type_graph \<Rightarrow> tref \<Rightarrow> tref list" where
  "pad_cov1 g t = (case deref g t of Inl e \<Rightarrow> [] | Inr n \<Rightarrow> (case n of
     Class c \<Rightarrow> map tp_type (cl_templateParams c) @ map m_type (cl_members c) | _ \<Rightarrow> succs n))"

definition pad_cov2 :: "type_graph \<Rightarrow> tref \<Rightarrow> tref list" where
  "pad_cov2 g t = (case deref g t of Inl e \<Rightarrow> [] | Inr n \<Rightarrow> (case n of
     Class c \<Rightarrow> if cl_kind c = KUnion then [] else cl_children c | _ \<Rightarrow> []))"

text \<open>What the pass asks of a graph: it runs after the flattener, and members have sizes.\<close>

definition pad_ready :: "type_graph \<Rightarrow> bool" where
  "pad_ready g \<longleftrightarrow> wf_graph g \<and> (\<forall>c. Class c \<in> set (nodes g) \<longrightarrow>
     cl_parents c = [] \<and> (\<forall>m \<in> set (cl_members c). sized g m))"

text \<open>A class after the pass, on the graph \<open>g\<close>.\<close>

definition class_padded :: "type_graph \<Rightarrow> class_node \<Rightarrow> member list \<Rightarrow> bool" where
  "class_padded g c ms \<longleftrightarrow> padded_from g (cl_members c) ms \<and>
     (unat (cl_size c) * 8 < 2 ^ 64 \<longrightarrow>
       (if cl_kind c = KUnion then 0 < unat (cl_size c) \<longrightarrow>
          (\<exists>m \<in> set ms. m_bitsize m = cl_size c * 8 \<or> type_size g (m_type m) = Inr (cl_size c))
        else spread g 0 (cl_members c) (unat (cl_size c) * 8) \<longrightarrow>
          tiles g 0 ms (unat (cl_size c) * 8)))"

definition node_padded :: "type_graph \<Rightarrow> ty \<Rightarrow> ty \<Rightarrow> bool" where
  "node_padded g n n' \<longleftrightarrow> (case n of
     Class c \<Rightarrow> \<exists>ms. n' = Class (c\<lparr>cl_members := ms\<rparr>) \<and> class_padded g c ms
   | _ \<Rightarrow> n' = n)"

lemma class_padded_kept:
  assumes "wf_refs g" "sizes_kept g g'" "\<forall>m \<in> set (cl_members c). in_graph g (m_type m)"
    and pad: "class_padded g c ms"
  shows "class_padded g' c ms"
proof -
  have types: "\<forall>m \<in> set ms. in_graph g (m_type m)"
    using padded_from_types assms(3) pad by (auto simp: class_padded_def)
  have "padded_from g' (cl_members c) ms"
    using padded_from_kept [OF assms(2)] pad by (simp add: class_padded_def)
  moreover note kept_spread [OF assms(1-3), of 0 "unat (cl_size c) * 8"]
    and kept_tiles [OF assms(1,2) types, of 0 "unat (cl_size c) * 8"]
  moreover have "type_size g' (m_type m) = type_size g (m_type m)" if "m \<in> set ms" for m
    using kept_size [OF assms(1,2)] types that by blast
  ultimately show ?thesis using pad by (simp add: class_padded_def)
qed

lemma kept_put:
  assumes "wf_graph g" "deref g t = Inr (Class c)" "\<forall>m \<in> set ms. in_graph g (m_type m)"
    "cl_parents c = []"
  shows "wf_graph (put_node t (Class (c\<lparr>cl_members := ms\<rparr>)) g)"
    "sizes_kept g (put_node t (Class (c\<lparr>cl_members := ms\<rparr>)) g)"
proof -
  let ?n = "Class (c\<lparr>cl_members := ms\<rparr>)"
  obtain i where i: "t = NodeRef i" "i < length (nodes g)" "node_at g i = Class c"
    using deref_owner [OF assms(2)] by auto
  have c: "Class c \<in> set (nodes g)" using i(2,3) by (metis node_at_def nth_mem)
  have "u \<in> set (refs ?n) \<Longrightarrow> in_graph g u" for u
    using assms(1,3,4) c by (force simp: wf_graph_def wf_refs_def)
  then show "wf_graph (put_node t ?n g)"
    using assms(1) c by (intro wf_graph_put [OF assms(1,2)]) (auto simp: wf_graph_def wf_children_def)
  show "sizes_kept g (put_node t ?n g)"
    using i extends_put [OF assms(2), of ?n] by (auto simp: sizes_kept_def same_size_def)
qed

definition pad_class :: "tref \<Rightarrow> tref set pass_state \<Rightarrow> class_node \<Rightarrow> (tref list \<times> tref set pass_state) outcome" where
  "pad_class t s c = (if cl_kind c = KUnion
     then bindE (pad_union c (ps_graph s)) (\<lambda>(ms, g).
       Inr ([], s\<lparr>ps_graph := put_node t (Class (c\<lparr>cl_members := ms\<rparr>)) g\<rparr>))
     else bindE (pad_members c (ps_graph s)) (\<lambda>(ms, g).
       Inr (cl_children c, s\<lparr>ps_graph := put_node t (Class (c\<lparr>cl_members := ms\<rparr>)) g\<rparr>)))"

lemma pad_class_spec:
  assumes wf: "wf_graph (ps_graph s)" and t: "deref (ps_graph s) t = Inr (Class c)"
    and ms: "\<forall>m \<in> set (cl_members c). sized (ps_graph s) m" and par: "cl_parents c = []"
  shows "\<exists>ms' g'. pad_class t s c = Inr (if cl_kind c = KUnion then [] else cl_children c, s\<lparr>ps_graph := g'\<rparr>) \<and>
     wf_graph g' \<and> sizes_kept (ps_graph s) g' \<and> deref g' t = Inr (Class (c\<lparr>cl_members := ms'\<rparr>)) \<and>
     (\<forall>i. NodeRef i \<noteq> t \<longrightarrow> i < length (nodes (ps_graph s)) \<longrightarrow> node_at g' i = node_at (ps_graph s) i) \<and>
     class_padded g' c ms'"
proof -
  obtain ms' g1 where g1: "(if cl_kind c = KUnion then pad_union c (ps_graph s) else pad_members c (ps_graph s)) =
      Inr (ms', g1)" "grows (ps_graph s) g1" "class_padded g1 c ms'"
  proof (cases "cl_kind c = KUnion")
    case True
    obtain ms' g1 where p: "pad_union c (ps_graph s) = Inr (ms', g1)" "grows (ps_graph s) g1"
      "padded_from g1 (cl_members c) ms'" "0 < unat (cl_size c) * 8 \<and> unat (cl_size c) * 8 < 2 ^ 64 \<longrightarrow>
        (\<exists>m \<in> set ms'. m_bitsize m = cl_size c * 8 \<or> type_size g1 (m_type m) = Inr (cl_size c))"
      using pad_union_spec [OF wf ms] by blast
    show ?thesis by (rule that [of ms' g1]) (use p True in \<open>simp_all add: class_padded_def\<close>)
  next
    case False
    obtain ms' g1 where p: "pad_members c (ps_graph s) = Inr (ms', g1)" "grows (ps_graph s) g1"
      "padded_from g1 (cl_members c) ms'" "unat (cl_size c) * 8 < 2 ^ 64 \<and>
        spread (ps_graph s) 0 (cl_members c) (unat (cl_size c) * 8) \<longrightarrow> tiles g1 0 ms' (unat (cl_size c) * 8)"
      using pad_members_spec [OF wf ms] by blast
    have "spread g1 0 (cl_members c) (unat (cl_size c) * 8) =
        spread (ps_graph s) 0 (cl_members c) (unat (cl_size c) * 8)"
      using wf ms grows_kept [OF p(2)] by (intro kept_spread) (auto simp: wf_graph_def sized_def)
    then show ?thesis by (intro that [of ms' g1]) (use p False in \<open>simp_all add: class_padded_def\<close>)
  qed
  have wf1: "wf_graph g1" using g1(2) by (rule grows_wf)
  have kept1: "sizes_kept (ps_graph s) g1" using g1(2) by (rule grows_kept)
  obtain i where i: "t = NodeRef i" "i < length (nodes (ps_graph s))" "node_at (ps_graph s) i = Class c"
    using deref_owner [OF t] by auto
  have t1: "deref g1 t = Inr (Class c)" using grows_node [OF g1(2) i(2)] i by simp
  have old: "\<forall>m \<in> set (cl_members c). in_graph g1 (m_type m)"
    using ms extends_in_graph [OF sizes_kept_extends [OF kept1]] by (auto simp: sized_def)
  then have types: "\<forall>m \<in> set ms'. in_graph g1 (m_type m)"
    using padded_from_types g1(3) by (auto simp: class_padded_def)
  let ?g' = "put_node t (Class (c\<lparr>cl_members := ms'\<rparr>)) g1"
  note put = kept_put [OF wf1 t1 types par]
  have "class_padded ?g' c ms'"
    using class_padded_kept [OF _ put(2) old g1(3)] wf1 by (simp add: wf_graph_def)
  moreover have "deref ?g' t = Inr (Class (c\<lparr>cl_members := ms'\<rparr>))"
    using deref_put [of g1 i] t1 i(1) by simp
  moreover have "node_at ?g' j = node_at (ps_graph s) j" if "NodeRef j \<noteq> t" "j < length (nodes (ps_graph s))" for j
    using that i(1) grows_node [OF g1(2)] i(2) by simp
  moreover have "pad_class t s c = Inr (if cl_kind c = KUnion then [] else cl_children c, s\<lparr>ps_graph := ?g'\<rparr>)"
    using g1(1) by (auto simp: pad_class_def split: if_splits)
  ultimately show ?thesis
    using put sizes_kept_trans [OF kept1] by blast
qed

text \<open>The three parts of a visit, as the contract of a pass names them.\<close>

definition pad_enter :: "tref \<Rightarrow> tref set pass_state \<Rightarrow> (tref list \<times> tref set pass_state) outcome" where
  "pad_enter t s = bindE (get_ty t s) (\<lambda>n.
     let s = s\<lparr>ps_marks := insert t (ps_marks s)\<rparr> in (case n of
       Class c \<Rightarrow> bindE (assertE (cl_parents c = [])) (\<lambda>_.
         Inr (map tp_type (cl_templateParams c) @ map m_type (cl_members c), s))
     | _ \<Rightarrow> Inr (succs n, s)))"

definition pad_mid :: "type_graph \<Rightarrow> tref \<Rightarrow> tref set pass_state \<Rightarrow> (tref list \<times> tref set pass_state) outcome" where
  "pad_mid g0 t s = (case deref g0 t of Inr (Class _) \<Rightarrow> bindE (get_class t s) (pad_class t s)
     | _ \<Rightarrow> Inr ([], s))"

lemma addPadding_shape:
  assumes "deref (ps_graph s) t = Inr n" "deref g0 t = Inr n0" "ctor_of n = ctor_of n0" "t \<notin> ps_marks s"
  shows "addPadding_accept call t s =
     bindE (pad_enter t s) (\<lambda>(ts, s1). bindE (for_each call ts s1) (\<lambda>s2.
     bindE (pad_mid g0 t s2) (\<lambda>(us, s3). bindE (for_each call us s3) Inr)))"
proof (cases n)
  case (Class c)
  then obtain c0 where c0: "n0 = Class c0" using assms(3) by (cases n0) auto
  have tail: "(\<lambda>s2. bindE (get_class t s2) (\<lambda>c.
        if cl_kind c = KUnion then
          bindE (pad_union c (ps_graph s2)) (\<lambda>(ms, g).
            Inr (s2\<lparr>ps_graph := put_node t (Class (c\<lparr>cl_members := ms\<rparr>)) g\<rparr>))
        else
          bindE (pad_members c (ps_graph s2)) (\<lambda>(ms, g).
          let s = s2\<lparr>ps_graph := put_node t (Class (c\<lparr>cl_members := ms\<rparr>)) g\<rparr> in
          for_each call (cl_children c) s))) =
      (\<lambda>s2. bindE (pad_mid g0 t s2) (\<lambda>(us, s3). bindE (for_each call us s3) Inr))"
    using assms(2) c0
  proof (intro ext, goal_cases)
    case (1 s2)
    show ?case
    proof (cases "get_class t s2")
      case (Inr c)
      then show ?thesis
        using 1 by (cases "pad_union c (ps_graph s2)"; cases "pad_members c (ps_graph s2)")
          (auto simp: pad_mid_def pad_class_def Let_def split: if_splits)
    qed (use 1 in \<open>simp add: pad_mid_def\<close>)
  qed
  have "addPadding_accept call t s = addPadding_visit call t (s\<lparr>ps_marks := insert t (ps_marks s)\<rparr>)"
    using assms(4) by (simp add: addPadding_accept_def accept_with_def ptr_visit_def)
  also have "\<dots> = bindE (pad_enter t s) (\<lambda>(ts, s1). bindE (for_each call ts s1) (\<lambda>s2.
     bindE (pad_mid g0 t s2) (\<lambda>(us, s3). bindE (for_each call us s3) Inr)))"
    using assms(1) Class
    by (simp only: addPadding_visit_def tail)
      (simp add: pad_enter_def get_ty_def Let_def bindE_assoc for_each_map_fun for_each_map)
  finally show ?thesis .
qed (use assms in \<open>cases n0; simp add: addPadding_accept_def accept_with_def ptr_visit_def addPadding_visit_def
  recursive_visit_succs pad_enter_def pad_mid_def get_ty_def for_each_fun\<close>)+

definition pad_ok :: "type_graph \<Rightarrow> tref set pass_state \<Rightarrow> bool" where
  "pad_ok g0 s \<longleftrightarrow> pad_ready g0 \<and> wf_graph (ps_graph s) \<and> sizes_kept g0 (ps_graph s)"

definition pad_frame :: "tref set pass_state \<Rightarrow> tref set pass_state \<Rightarrow> bool" where
  "pad_frame s s' \<longleftrightarrow> (wf_graph (ps_graph s) \<longrightarrow>
     wf_graph (ps_graph s') \<and> sizes_kept (ps_graph s) (ps_graph s'))"

definition pad_univ :: "type_graph \<Rightarrow> tref set" where
  "pad_univ g0 = {t \<in> reach (edges pad_view g0) (rootTypes g0). in_graph g0 t}"

definition pad_stage :: "type_graph \<Rightarrow> tref set pass_state \<Rightarrow> tref \<Rightarrow> bool" where
  "pad_stage g0 s t \<longleftrightarrow> (case t of PrimRef k \<Rightarrow> True | NodeRef i \<Rightarrow> node_at (ps_graph s) i = node_at g0 i)"

definition pad_final :: "type_graph \<Rightarrow> tref set pass_state \<Rightarrow> tref \<Rightarrow> bool" where
  "pad_final g0 s t \<longleftrightarrow> (case t of PrimRef k \<Rightarrow> True
     | NodeRef i \<Rightarrow> i < length (nodes g0) \<and> pad_ok g0 s \<and>
         node_padded (ps_graph s) (node_at g0 i) (node_at (ps_graph s) i))"

lemma pad_readyD:
  assumes "pad_ready g" "i < length (nodes g)" "node_at g i = Class c"
  shows "cl_parents c = []" "\<forall>m \<in> set (cl_members c). sized g m"
    "\<forall>u \<in> set (refs (Class c)). in_graph g u"
proof -
  have "Class c \<in> set (nodes g)" using assms(2,3) by (metis node_at_def nth_mem)
  then show "cl_parents c = []" "\<forall>m \<in> set (cl_members c). sized g m"
    using assms(1) by (auto simp: pad_ready_def)
  show "\<forall>u \<in> set (refs (Class c)). in_graph g u"
    using assms wf_refsD [of g i] by (auto simp: pad_ready_def wf_graph_def)
qed

lemma pad_no_parents:
  assumes "pad_ready g"
  shows "map p_type (case deref g t of Inr (Class c) \<Rightarrow> cl_parents c | _ \<Rightarrow> []) = []"
proof (cases "\<exists>c. deref g t = Inr (Class c)")
  case True
  then obtain c where c: "deref g t = Inr (Class c)" by blast
  obtain i where "i < length (nodes g)" "node_at g i = Class c"
    by (rule deref_owner [OF c]) simp_all
  then show ?thesis using pad_readyD(1) [OF assms] c by simp
next
  case False
  then show ?thesis by (cases "deref g t") (auto split: ty.split)
qed

lemma pad_edges_set:
  "set (edges pad_view g0 t) = set (pad_cov1 g0 t) \<union> set (map p_type (case deref g0 t of
    Inr (Class c) \<Rightarrow> cl_parents c | _ \<Rightarrow> [])) \<union> set (pad_cov2 g0 t)"
proof (cases "deref g0 t")
  case (Inr n)
  then show ?thesis by (cases n) (auto simp: edges_def pad_cov1_def pad_cov2_def)
qed (simp add: edges_def pad_cov1_def pad_cov2_def)

lemma pad_view_refs: "set (succs (pad_view n)) \<subseteq> set (refs n)"
  using succs_subset_refs by (cases n) auto

lemma pad_univ_closed:
  assumes "t \<in> pad_univ g0" "pad_ready g0"
  shows "set (pad_cov1 g0 t) \<subseteq> pad_univ g0" "set (pad_cov2 g0 t) \<subseteq> pad_univ g0"
proof -
  have "set (edges pad_view g0 t) \<subseteq> pad_univ g0"
  proof
    fix u assume u: "u \<in> set (edges pad_view g0 t)"
    have "in_graph g0 u"
    proof (cases t)
      case (PrimRef k)
      then show ?thesis using u by (simp add: edges_def)
    next
      case (NodeRef i)
      then have "u \<in> set (refs (node_at g0 i))" "i < length (nodes g0)"
        using assms(1) u pad_view_refs by (auto simp: edges_def pad_univ_def)
      then show ?thesis using assms(2) wf_refsD by (auto simp: pad_ready_def wf_graph_def)
    qed
    then show "u \<in> pad_univ g0" using assms(1) u by (auto simp: pad_univ_def intro: reach.step)
  qed
  then show "set (pad_cov1 g0 t) \<subseteq> pad_univ g0" "set (pad_cov2 g0 t) \<subseteq> pad_univ g0"
    by (simp_all add: pad_edges_set)
qed

lemma pad_node:
  assumes "pad_ok g0 s" "t \<in> pad_univ g0"
  obtains n n0 where "deref (ps_graph s) t = Inr n" "deref g0 t = Inr n0" "ctor_of n = ctor_of n0"
    "\<And>i. t = NodeRef i \<Longrightarrow> n = node_at (ps_graph s) i \<and> n0 = node_at g0 i \<and> i < length (nodes g0) \<and>
       i < length (nodes (ps_graph s))"
proof -
  have tg: "in_graph g0 t" using assms(2) by (simp add: pad_univ_def)
  then obtain n0 where n0: "deref g0 t = Inr n0" using deref_in_graph by blast
  have ext: "extends g0 (ps_graph s)" using assms(1) by (simp add: pad_ok_def sizes_kept_def)
  then obtain n where "deref (ps_graph s) t = Inr n" "ctor_of n = ctor_of n0"
    using extends_deref n0 by blast
  moreover have "n = node_at (ps_graph s) i \<and> n0 = node_at g0 i \<and> i < length (nodes g0) \<and>
       i < length (nodes (ps_graph s))" if "t = NodeRef i" for i
    using that n0 calculation(1) deref_owned [of _ i] by metis
  ultimately show ?thesis using that n0 by blast
qed

lemma pad_final_stable:
  assumes "pad_final g0 s t" "pad_frame s s'" "\<And>i. t = NodeRef i \<Longrightarrow> node_at (ps_graph s') i = node_at (ps_graph s) i"
  shows "pad_final g0 s' t"
proof (cases t)
  case (NodeRef i)
  let ?g = "ps_graph s" and ?g' = "ps_graph s'"
  have f: "i < length (nodes g0)" "pad_ok g0 s" "node_padded ?g (node_at g0 i) (node_at ?g i)"
    using assms(1) NodeRef by (simp_all add: pad_final_def)
  have k: "wf_graph ?g" "wf_graph ?g'" "sizes_kept ?g ?g'" "sizes_kept g0 ?g" "pad_ready g0"
    using assms(2) f(2) by (simp_all add: pad_frame_def pad_ok_def)
  have "node_padded ?g' (node_at g0 i) (node_at ?g i)"
  proof (cases "\<exists>c. node_at g0 i = Class c")
    case True
    then obtain c ms where c: "node_at g0 i = Class c" "node_at ?g i = Class (c\<lparr>cl_members := ms\<rparr>)"
      "class_padded ?g c ms" using f(3) by (auto simp: node_padded_def)
    have "\<forall>m \<in> set (cl_members c). in_graph ?g (m_type m)"
      using pad_readyD(2) [OF k(5) f(1) c(1)] extends_in_graph [OF sizes_kept_extends [OF k(4)]]
      by (auto simp: sized_def)
    then have "class_padded ?g' c ms"
      using class_padded_kept [OF _ k(3) _ c(3)] k(1) by (simp add: wf_graph_def)
    then show ?thesis using c by (auto simp: node_padded_def)
  next
    case False
    then show ?thesis using f(3) by (auto simp: node_padded_def split: ty.splits)
  qed
  then show ?thesis
    using NodeRef f(1) k sizes_kept_trans [OF k(4,3)] assms(3) by (simp add: pad_final_def pad_ok_def)
qed (simp add: pad_final_def)

lemma pad_enter_step:
  assumes ok: "pad_ok g0 s" and t: "t \<in> pad_univ g0" and n0: "pad_stage g0 s t"
  shows "pad_enter t s = Inr (pad_cov1 g0 t, s\<lparr>ps_marks := insert t (ps_marks s)\<rparr>)"
proof -
  obtain n n1 where n: "deref (ps_graph s) t = Inr n" "deref g0 t = Inr n1"
    "\<And>i. t = NodeRef i \<Longrightarrow> n = node_at (ps_graph s) i \<and> n1 = node_at g0 i \<and> i < length (nodes g0)"
    using pad_node [OF ok t] by metis
  have "n = n1" using n n0 by (cases t) (auto simp: pad_stage_def)
  moreover have "cl_parents c = []" if c: "n1 = Class c" for c
  proof -
    obtain i where "i < length (nodes g0)" "node_at g0 i = Class c"
      using deref_owner [OF n(2)] c by auto
    then show ?thesis using ok pad_readyD(1) by (auto simp: pad_ok_def)
  qed
  ultimately show ?thesis
    using n(1,2) by (auto simp: pad_enter_def get_ty_def pad_cov1_def Let_def split: ty.split)
qed

lemma pad_mid_step:
  assumes ok: "pad_ok g0 s" and t: "t \<in> pad_univ g0" and st: "pad_stage g0 s t"
  shows "\<exists>g'. pad_mid g0 t s = Inr (pad_cov2 g0 t, s\<lparr>ps_graph := g'\<rparr>) \<and>
     pad_ok g0 (s\<lparr>ps_graph := g'\<rparr>) \<and> pad_frame s (s\<lparr>ps_graph := g'\<rparr>) \<and>
     pad_final g0 (s\<lparr>ps_graph := g'\<rparr>) t \<and>
     (\<forall>i < length (nodes g0). NodeRef i \<noteq> t \<longrightarrow> node_at g' i = node_at (ps_graph s) i)"
proof -
  obtain n n1 where n: "deref (ps_graph s) t = Inr n" "deref g0 t = Inr n1"
    "\<And>i. t = NodeRef i \<Longrightarrow> n = node_at (ps_graph s) i \<and> n1 = node_at g0 i \<and> i < length (nodes g0) \<and>
       i < length (nodes (ps_graph s))"
    using pad_node [OF ok t] by metis
  have same: "n = n1" using n st by (cases t) (auto simp: pad_stage_def)
  have wf: "wf_graph (ps_graph s)" and kept: "sizes_kept g0 (ps_graph s)" and ready: "pad_ready g0"
    using ok by (simp_all add: pad_ok_def)
  show ?thesis
  proof (cases "\<exists>c. n1 = Class c")
    case True
    then obtain c where c: "n1 = Class c" by blast
    obtain i where i: "t = NodeRef i" "i < length (nodes g0)" "node_at g0 i = Class c"
      using deref_owner [OF n(2)] c by auto
    note r = pad_readyD [OF ready i(2,3)]
    have sz: "\<forall>m \<in> set (cl_members c). sized (ps_graph s) m"
      using r(2) sized_kept [OF _ kept] ready by (auto simp: pad_ready_def wf_graph_def)
    have "deref (ps_graph s) t = Inr (Class c)" using n(1) same c by simp
    from pad_class_spec [OF wf this sz r(1)]
    obtain ms' g' where p: "pad_class t s c = Inr (if cl_kind c = KUnion then [] else cl_children c, s\<lparr>ps_graph := g'\<rparr>)"
      "wf_graph g'" "sizes_kept (ps_graph s) g'" "deref g' t = Inr (Class (c\<lparr>cl_members := ms'\<rparr>))"
      "\<forall>i. NodeRef i \<noteq> t \<longrightarrow> i < length (nodes (ps_graph s)) \<longrightarrow> node_at g' i = node_at (ps_graph s) i"
      "class_padded g' c ms'" by blast
    have "pad_mid g0 t s = Inr (pad_cov2 g0 t, s\<lparr>ps_graph := g'\<rparr>)"
      using p(1) n(1,2) c same by (simp add: pad_mid_def pad_cov2_def get_class_def get_ty_def)
    moreover have "pad_ok g0 (s\<lparr>ps_graph := g'\<rparr>)"
      using ready p(2) sizes_kept_trans [OF kept p(3)] by (simp add: pad_ok_def)
    moreover have "pad_frame s (s\<lparr>ps_graph := g'\<rparr>)" using p by (simp add: pad_frame_def)
    moreover have "node_at g' i = Class (c\<lparr>cl_members := ms'\<rparr>)"
      using p(4) i(1) deref_owned by blast
    then have "pad_final g0 (s\<lparr>ps_graph := g'\<rparr>) t"
      using i calculation(2) p(6) by (auto simp: pad_final_def node_padded_def)
    moreover have "\<forall>j < length (nodes g0). NodeRef j \<noteq> t \<longrightarrow> node_at g' j = node_at (ps_graph s) j"
      using p(5) kept by (auto simp: sizes_kept_def extends_def)
    ultimately show ?thesis by blast
  next
    case False
    have "pad_mid g0 t s = Inr (pad_cov2 g0 t, s)"
      using n(2) False by (auto simp: pad_mid_def pad_cov2_def split: ty.split)
    moreover have "pad_final g0 s t"
      using n ok same False by (cases t) (auto simp: pad_final_def node_padded_def split: ty.split)
    ultimately show ?thesis
      using ok by (intro exI [of _ "ps_graph s"]) (simp add: pad_frame_def)
  qed
qed

interpretation pad: node_pass ps_graph "\<lambda>s. ptr_marked g0 (ps_marks s)" "\<lambda>t. True"
  "length (nodes g0)" "node_at g0" "pad_univ g0" "pad_ok g0" pad_frame "pad_cov1 g0" "pad_cov2 g0"
  "pad_final g0" "{}" "pad_stage g0" "pad_final g0" pad_enter "pad_mid g0" "\<lambda>t. Inr"
  addPadding_accept for g0
proof (unfold_locales, goal_cases)
  case (5 s t call)
  obtain n n0 where n: "deref (ps_graph s) t = Inr n" "deref g0 t = Inr n0" "ctor_of n = ctor_of n0"
    using pad_node [OF 5] by metis
  show ?case
  proof (cases "t \<in> ps_marks s")
    case True
    then have "ptr_marked g0 (ps_marks s) t" using 5(2) by (simp add: ptr_marked_def pad_univ_def)
    then show ?thesis using True by (simp add: addPadding_accept_def accept_with_def ptr_visit_def)
  next
    case False
    then have "\<not> ptr_marked g0 (ps_marks s) t" by (simp add: ptr_marked_def)
    then show ?thesis using addPadding_shape [OF n False, of call] by simp
  qed
next
  case (1 i)
  then show ?case by (simp add: pad_univ_def)
next
  case (3 s s' s'')
  then show ?case using sizes_kept_trans by (auto simp: pad_frame_def)
next
  case (4 s t s')
  then show ?case by (rule pad_final_stable)
next
  case (7 s t)
  then have "pad_stage g0 s t" by (auto simp: pad_stage_def split: tref.split)
  moreover have "in_graph g0 t" using 7(2) by (simp add: pad_univ_def)
  moreover have "pad_cov1 g0 (PrimRef k) = []" for k by (simp add: pad_cov1_def)
  ultimately show ?case
    using pad_enter_step [OF 7(1,2)] 7 pad_univ_closed [OF 7(2)]
    by (auto simp: pad_ok_def pad_frame_def pad_stage_def ptr_marked_def split: tref.split)
next
  case (8 s t)
  obtain g' where m: "pad_mid g0 t s = Inr (pad_cov2 g0 t, s\<lparr>ps_graph := g'\<rparr>)"
     "pad_ok g0 (s\<lparr>ps_graph := g'\<rparr>)" "pad_frame s (s\<lparr>ps_graph := g'\<rparr>)"
     "pad_final g0 (s\<lparr>ps_graph := g'\<rparr>) t"
     "\<forall>i < length (nodes g0). NodeRef i \<noteq> t \<longrightarrow> node_at g' i = node_at (ps_graph s) i"
    using pad_mid_step [OF 8] by blast
  moreover have "set (pad_cov2 g0 t) \<subseteq> pad_univ g0"
    using pad_univ_closed(2) 8 by (simp add: pad_ok_def)
  moreover have "pad_cov2 g0 (PrimRef k) = []" for k by (simp add: pad_cov2_def)
  ultimately show ?case by (auto split: tref.split)
qed (auto simp: pad_frame_def pad_stage_def split: tref.splits)

section \<open>Properties\<close>

lemma addPadding_contract:
  assumes ready: "pad_ready g"
  shows "\<exists>g'. addPadding_pass g v = Inr (g', v) \<and> wf_graph g' \<and> sizes_kept g g' \<and>
    (\<forall>i < length (nodes g). if NodeRef i \<in> reach (edges pad_view g) (rootTypes g)
       then node_padded g' (node_at g i) (node_at g' i) else node_at g' i = node_at g i)"
proof -
  let ?s = "\<lparr>ps_marks = {}, ps_graph = g\<rparr>"
  let ?R = "reach (edges pad_view g) (rootTypes g)"
  have wf: "wf_graph g" using ready by (simp add: pad_ready_def)
  have "pad_ok g ?s" using ready wf by (simp add: pad_ok_def)
  moreover have roots: "set (rootTypes g) \<subseteq> pad_univ g"
    using wf by (auto simp: pad_univ_def wf_graph_def wf_refs_def intro: reach.root)
  ultimately have "spec {} (walk_roots addPadding_accept {} g) (\<lambda>s'. pad_ok g s' \<and> pad_frame ?s s' \<and>
      (\<forall>t \<in> set (rootTypes g). True \<longrightarrow> ptr_marked g (ps_marks s') t) \<and>
      (\<forall>i < length (nodes g). if ptr_marked g (ps_marks s') (NodeRef i)
        then NodeRef i \<in> pad_univ g \<and> pad_final g s' (NodeRef i) \<and>
          (\<forall>u \<in> set (pad_cov1 g (NodeRef i) @ pad_cov2 g (NodeRef i)). True \<longrightarrow>
             ptr_marked g (ps_marks s') u)
        else node_at (ps_graph s') i = node_at g i))"
    unfolding walk_roots_def by (intro pad.walk.run) (auto simp: ptr_marked_def chain_depth_def)
  then obtain s' where s': "walk_roots addPadding_accept {} g = Inr s'"
    and ok': "pad_ok g s'"
    and roots': "\<And>t. t \<in> set (rootTypes g) \<Longrightarrow> ptr_marked g (ps_marks s') t"
    and nodes': "\<And>i. i < length (nodes g) \<Longrightarrow> if ptr_marked g (ps_marks s') (NodeRef i)
        then NodeRef i \<in> pad_univ g \<and> pad_final g s' (NodeRef i) \<and>
          (\<forall>u \<in> set (pad_cov1 g (NodeRef i)) \<union> set (pad_cov2 g (NodeRef i)). ptr_marked g (ps_marks s') u)
        else node_at (ps_graph s') i = node_at g i"
    unfolding spec_empty_iff set_append by (metis (no_types, lifting))
  have range: "i < length (nodes g)" if "NodeRef i \<in> ?R" for i
  proof -
    have "?R \<subseteq> pad_univ g"
    proof (rule reach_least [OF roots])
      fix t assume t: "t \<in> pad_univ g"
      show "set (edges pad_view g t) \<subseteq> pad_univ g"
        using pad_univ_closed [OF t ready] by (simp add: pad_edges_set pad_no_parents [OF ready] del: set_map)
    qed
    then show ?thesis using that by (auto simp: pad_univ_def)
  qed
  have reached: "ptr_marked g (ps_marks s') (NodeRef i) \<longleftrightarrow> NodeRef i \<in> ?R" if "i < length (nodes g)" for i
  proof (rule marked_iff_reach [where markable = "\<lambda>t. True" and N = "length (nodes g)"])
    fix j u assume j: "j < length (nodes g)" "ptr_marked g (ps_marks s') (NodeRef j)"
      "u \<in> set (edges pad_view g (NodeRef j))"
    show "ptr_marked g (ps_marks s') u"
      using j nodes' [OF j(1)] unfolding pad_edges_set pad_no_parents [OF ready] by auto
  next
    fix j assume "j < length (nodes g)" "ptr_marked g (ps_marks s') (NodeRef j)"
    then show "NodeRef j \<in> ?R" using nodes' [of j] by (simp add: pad_univ_def)
  next
    show "edges pad_view g (PrimRef k) = []" for k by (simp add: edges_def)
  qed (use roots' range that in auto)
  have "if NodeRef i \<in> ?R then node_padded (ps_graph s') (node_at g i) (node_at (ps_graph s') i)
      else node_at (ps_graph s') i = node_at g i" if "i < length (nodes g)" for i
    using nodes' [OF that] reached [OF that] by (auto simp: pad_final_def split: if_splits)
  then show ?thesis
    using s' ok' by (auto simp: addPadding_pass_def pointer_pass_def pad_ok_def)
qed

text \<open>
  C25: on every well-formed graph whose classes have no parents and whose members have sizes,
  \<^verbatim>\<open>AddPadding\<close> returns. It keeps the size of every type, and only the classes it reaches change:
  their members keep their order, all added members are padding (an \<^verbatim>\<open>int8_t\<close> bitfield or an array
  of \<^verbatim>\<open>int8_t\<close> named \<^verbatim>\<open>__oi_padding\<close>), a struct whose members lie in order, without overlap and with
  every gap of a byte or more ending at a byte has afterwards members that fill exactly its size,
  and a union has a member of its own size.
\<close>

theorem addPadding_pass_result:
  assumes ready: "pad_ready g"
  shows "\<exists>g'. addPadding_pass g v = Inr (g', v) \<and> wf_graph g' \<and> sizes_kept g g' \<and>
    (\<forall>i < length (nodes g). if NodeRef i \<in> reach (edges pad_view g) (rootTypes g)
       then node_padded g' (node_at g i) (node_at g' i) else node_at g' i = node_at g i)"
  using assms by (rule addPadding_contract)

text \<open>A struct with a hole in the middle and at the end, and a union that is too small.\<close>

definition pad_example :: type_graph where
  "pad_example = \<lparr>nodes = [
     Class ((mk_class KStruct ''A'' ''A'' 24 0 0)\<lparr>cl_members :=
       [mk_member (PrimRef Int8) ''a'' 0 0, mk_member (PrimRef Int32) ''f'' 8 5,
        mk_member (NodeRef 1) ''u'' 64 0]\<rparr>),
     Class ((mk_class KUnion ''U'' ''U'' 8 0 1)\<lparr>cl_members := [mk_member (PrimRef Int32) ''i'' 0 0]\<rparr>)],
   rootTypes = [NodeRef 0], finalTypes = [], next_id = 2\<rparr>"

lemma pad_readyI:
  assumes "wf_check g" "list_all (\<lambda>n. case n of
      Class c \<Rightarrow> cl_parents c = [] \<and> list_all (\<lambda>m. in_graph g (m_type m) \<and>
        (case type_size g (m_type m) of Inl e \<Rightarrow> False | Inr sz \<Rightarrow> True)) (cl_members c)
    | _ \<Rightarrow> True) (nodes g)"
  shows "pad_ready g"
proof -
  have "cl_parents c = [] \<and> (\<forall>m \<in> set (cl_members c). sized g m)" if "Class c \<in> set (nodes g)" for c
    using bspec [OF assms(2) [unfolded list_all_iff [of _ "nodes g"]] that]
    by (auto simp: list_all_iff sized_def split: sum.splits) (metis sum.exhaust)+
  then show ?thesis using wf_checkD [OF assms(1)] by (simp add: pad_ready_def)
qed

theorem addPadding_pass_result_witness:
  "\<exists>g' c. addPadding_pass pad_example [] = Inr (g', []) \<and> node_at g' 0 = Class c \<and>
     {''a'', ''f'', ''u''} \<subseteq> set (map m_name (cl_members c)) \<and> tiles g' 0 (cl_members c) 192"
proof -
  have ready: "pad_ready pad_example" by (rule pad_readyI) code_simp+
  let ?c = "(mk_class KStruct ''A'' ''A'' 24 0 0)\<lparr>cl_members :=
       [mk_member (PrimRef Int8) ''a'' 0 0, mk_member (PrimRef Int32) ''f'' 8 5,
        mk_member (NodeRef 1) ''u'' 64 0]\<rparr>"
  obtain g' where g': "addPadding_pass pad_example [] = Inr (g', [])" "sizes_kept pad_example g'"
    "\<And>i. i < length (nodes pad_example) \<Longrightarrow>
      if NodeRef i \<in> reach (edges pad_view pad_example) (rootTypes pad_example)
      then node_padded g' (node_at pad_example i) (node_at g' i) else node_at g' i = node_at pad_example i"
    using addPadding_pass_result [OF ready, of "[]"] by blast
  have "NodeRef 0 \<in> reach (edges pad_view pad_example) (rootTypes pad_example)"
    by (rule reach.root) (simp add: pad_example_def)
  then have "node_padded g' (Class ?c) (node_at g' 0)"
    using g'(3) [of 0] by (simp add: pad_example_def node_at_def)
  then obtain ms where ms: "node_at g' 0 = Class (?c\<lparr>cl_members := ms\<rparr>)" "class_padded g' ?c ms"
    by (auto simp: node_padded_def)
  have size: "unat (cl_size ?c) * 8 = 192" by code_simp
  have wf: "wf_refs pad_example" using ready by (simp add: pad_ready_def wf_graph_def)
  have "spread g' 0 (cl_members ?c) 192 = spread pad_example 0 (cl_members ?c) 192"
    by (rule kept_spread [OF wf g'(2)]) code_simp
  moreover have "spread pad_example 0 (cl_members ?c) 192" by code_simp
  ultimately have tiles: "tiles g' 0 ms 192"
    using ms(2) unfolding class_padded_def size by (simp add: mk_class_def)
  obtain pads where "ms \<in> shuffles (cl_members ?c) pads"
    using ms(2) by (auto simp: class_padded_def padded_from_def)
  then have "set ms = set (cl_members ?c) \<union> set pads" by (rule set_shuffles)
  then show ?thesis
    using g'(1) ms(1) tiles by (intro exI [of _ g']) (auto simp: mk_member_def)
qed

text \<open>The array of a padding starts at the next byte boundary, which is where the bits before it end only if the gap ends at one.\<close>

lemma gap_end:
  fixes x y :: nat
  assumes "(x + 7) div 8 * 8 = x + (y - x) mod 8" and "x \<le> y"
  shows "y mod 8 = 0"
proof -
  have "y = x + (y - x) mod 8 + (y - x) div 8 * 8" using assms(2) by simp
  then have "y = ((x + 7) div 8 + (y - x) div 8) * 8" using assms(1) by (simp add: algebra_simps)
  then show ?thesis by (metis mod_mult_self2_is_0)
qed

lemma addPadding_long:
  assumes "wf_graph g" and le: "unat a \<le> unat b" and long: "8 \<le> unat b - unat a"
  obtains t n g' where
    "addPadding_bits a b ms g = Inr (ms @ (if (b - a) mod 8 \<noteq> 0 then [mk_member (PrimRef Int8) MemberPrefix a ((b - a) mod 8)] else []) @
       [(mk_member t n ((a + 7) div 8 * 8) 0)\<lparr>m_name := MemberPrefix\<rparr>], g')"
proof -
  have "unat ((b - a) div 8) = (unat b - unat a) div 8" using le by (simp add: unat_mod8 unat_sub word_le_nat_alt)
  then have pos: "(b - a) div 8 > 0" using long by (metis div_greater_zero_iff unat_gt_0 word_gt_0 zero_less_numeral)
  then have "b - a \<noteq> 0" by auto
  moreover obtain r g' where "make_array (PrimRef Int8) ((b - a) div 8) g = Inr (r, g')"
    using make_array_spec [OF assms(1), of "PrimRef Int8" "(b - a) div 8"] by auto
  ultimately show ?thesis using pos that [of r "[]" g'] by (simp add: addPadding_bits_def make_primitive_def Let_def)
qed

text \<open>
  C26: for every gap what the pass adds fills it, without overlap and without an uncovered bit, if and only if the gap is
  shorter than a byte or ends at one. The pass takes the bits in front of the whole bytes from the length of the gap and not
  from where it starts: for the 12 bits from bit 0 it adds a bitfield of 4 bits and an array of one byte that both
  start at bit 0, and bits 8 to 11 stay uncovered.
\<close>

theorem addPadding_gap_filled:
  assumes "wf_graph g" and "unat a \<le> unat b"
  shows "\<exists>pads g'. addPadding_bits a b ms g = Inr (ms @ pads, g') \<and>
    (tiles g' (unat a) pads (unat b) \<longleftrightarrow> unat b - unat a < 8 \<or> unat b mod 8 = 0)"
proof (cases "unat b - unat a < 8 \<or> unat b mod 8 = 0")
  case True
  then have "gap_ok (unat a) (unat b)" using assms(2) by (auto simp: gap_ok_def)
  then obtain pads g' where "addPadding_bits a b ms g = Inr (ms @ pads, g')" "tiles g' (unat a) pads (unat b)"
    using addPadding_bits_spec [OF assms(1), of a b ms] by blast
  then show ?thesis using True by (intro exI [of _ pads] exI [of _ g']) simp
next
  case False
  then have long: "8 \<le> unat b - unat a" by simp
  obtain t n g' where g': "addPadding_bits a b ms g = Inr (ms @ (if (b - a) mod 8 \<noteq> 0
       then [mk_member (PrimRef Int8) MemberPrefix a ((b - a) mod 8)] else []) @
       [(mk_member t n ((a + 7) div 8 * 8) 0)\<lparr>m_name := MemberPrefix\<rparr>], g')"
    using addPadding_long [OF assms long] .
  have k: "unat ((b - a) mod 8) = (unat b - unat a) mod 8" using assms(2) by (simp add: unat_mod8 unat_sub word_le_nat_alt)
  then have k0: "(b - a) mod 8 = 0 \<longleftrightarrow> (unat b - unat a) mod 8 = 0" by (metis unat_eq_zero)
  have start: "unat ((a + 7) div 8 * 8) = (unat a + 7) div 8 * 8" by (rule byte_start [OF assms(2) long])
  define pads where "pads = (if (b - a) mod 8 \<noteq> 0 then [mk_member (PrimRef Int8) MemberPrefix a ((b - a) mod 8)] else []) @
    [(mk_member t n ((a + 7) div 8 * 8) 0)\<lparr>m_name := MemberPrefix\<rparr>]"
  have "\<not> tiles g' (unat a) pads (unat b)"
  proof
    assume "tiles g' (unat a) pads (unat b)"
    then have "(unat a + 7) div 8 * 8 = unat a + (unat b - unat a) mod 8"
      using k k0 start by (auto simp: pads_def mk_member_def member_bits_def split: if_splits sum.splits)
    from gap_end [OF this assms(2)] False show False by simp
  qed
  moreover have "addPadding_bits a b ms g = Inr (ms @ pads, g')" using g' by (simp only: pads_def)
  ultimately show ?thesis using False by (intro exI [of _ pads] exI [of _ g']) simp
qed

theorem addPadding_gap_filled_witness:
  "(\<exists>pads g'. addPadding_bits 0 12 [] empty_graph = Inr (pads, g') \<and> \<not> tiles g' 0 pads 12) \<and>
   (\<exists>pads g'. addPadding_bits 5 32 [] empty_graph = Inr (pads, g') \<and> tiles g' 5 pads 32)"
proof -
  have "wf_graph empty_graph" by (rule wf_checkD) code_simp
  from addPadding_gap_filled [OF this, of 0 12 "[]"] addPadding_gap_filled [OF this, of 5 32 "[]"] show ?thesis by auto
qed

end
