(* ===== verification/AlignmentCalc.thy ===== *)
theory AlignmentCalc
  imports MapPass
begin

text \<open>
  \<^verbatim>\<open>oi/type_graph/AlignmentCalc.cpp\<close>: the alignment of classes and containers, and the classes that
  are packed. The pass reads the alignment of a member's type after it has accepted that type, which
  is the final one unless the type is still being visited further up.
\<close>

section \<open>The pass\<close>

text \<open>Changes of the class a reference denotes, and of one of its members.\<close>

definition change_class :: "tref \<Rightarrow> (class_node \<Rightarrow> class_node) \<Rightarrow> 'v pass_state \<Rightarrow> 'v pass_state outcome" where
  "change_class t f s = bindE (get_class t s) (\<lambda>c. Inr (put_ty t (Class (f c)) s))"

definition get_member :: "tref \<Rightarrow> nat \<Rightarrow> 'v pass_state \<Rightarrow> member outcome" where
  "get_member t i s = bindE (get_class t s) (\<lambda>c.
     if i < length (cl_members c) then Inr (cl_members c ! i)
     else Inl (Undefined ''iterator past the end''))"

definition change_member :: "tref \<Rightarrow> nat \<Rightarrow> (member \<Rightarrow> member) \<Rightarrow> 'v pass_state \<Rightarrow> 'v pass_state outcome" where
  "change_member t i f s = bindE (get_member t i s) (\<lambda>m.
     change_class t (\<lambda>c. c\<lparr>cl_members := (cl_members c)[i := f m]\<rparr>) s)"

text \<open>\<^verbatim>\<open>(member.bitOffset / 8) % member.align != 0\<close>, for a member that has an alignment.\<close>

definition misplaced :: "member \<Rightarrow> bool" where
  "misplaced m \<longleftrightarrow> m_align m \<noteq> 0 \<and> (m_bitOffset m div 8) mod m_align m \<noteq> 0"

definition alignmentCalc_member ::
    "tref set walker \<Rightarrow> tref \<Rightarrow> nat \<Rightarrow> u64 \<times> tref set pass_state \<Rightarrow>
     (u64 \<times> tref set pass_state) outcome" where
  "alignmentCalc_member accept t i = (\<lambda>(alignment, s).
     bindE (get_member t i s) (\<lambda>m.
     bindE (if m_align m = 0
       then bindE (accept (m_type m) s) (\<lambda>s.
         bindE (type_align (ps_graph s) (m_type m)) (\<lambda>a.
         change_member t i (\<lambda>m. m\<lparr>m_align := a\<rparr>) s))
       else Inr s) (\<lambda>s.
     bindE (get_member t i s) (\<lambda>m.
     bindE (if misplaced m then change_class t (\<lambda>c. c\<lparr>cl_packed := True\<rparr>) s else Inr s) (\<lambda>s.
     Inr (max alignment (m_align m), s))))))"

definition alignmentCalc_members :: "tref set walker \<Rightarrow> tref \<Rightarrow> tref set walker" where
  "alignmentCalc_members accept t t' s = bindE (get_class t s) (\<lambda>c.
     bindE (for_each (alignmentCalc_member accept t) [0..<length (cl_members c)] (1, s)) (\<lambda>(alignment, s).
     change_class t (\<lambda>c. c\<lparr>cl_align := alignment\<rparr>) s))"

definition alignmentCalc_visit :: "tref set walker \<Rightarrow> tref set walker" where
  "alignmentCalc_visit accept t s = bindE (get_ty t s) (\<lambda>n. case n of
      Class c \<Rightarrow>
        bindE (recursive_visit accept n s) (\<lambda>s.
        bindE (get_class t s) (\<lambda>c.
        bindE (if cl_align c = 0 then alignmentCalc_members accept t t s else Inr s) (\<lambda>s.
        bindE (get_class t s) (\<lambda>c.
        if cl_align c = 1 \<or> cl_size c mod cl_align c \<noteq> 0
        then change_class t (\<lambda>c. c\<lparr>cl_packed := True\<rparr>) s else Inr s))))
    | Container c \<Rightarrow>
        bindE (recursive_visit accept n s) (\<lambda>s.
        bindE (get_container t s) (\<lambda>c. case co_underlying c of
            None \<Rightarrow> Inr s
          | Some u \<Rightarrow> bindE (type_align (ps_graph s) u) (\<lambda>a.
              Inr (put_ty t (Container (c\<lparr>co_align := a\<rparr>)) s))))
    | _ \<Rightarrow> recursive_visit accept n s)"

definition alignmentCalc_accept :: "tref set walker \<Rightarrow> tref set walker" where
  "alignmentCalc_accept = accept_with ptr_visit alignmentCalc_visit"

definition alignmentCalc_pass :: pass_fn where
  "alignmentCalc_pass = pointer_pass alignmentCalc_accept"

section \<open>What the pass leaves alone\<close>

fun strip_align :: "ty \<Rightarrow> ty" where
  "strip_align (Class c) = Class (c\<lparr>cl_align := 0, cl_packed := False,
     cl_members := map (\<lambda>m. m\<lparr>m_align := 0\<rparr>) (cl_members c)\<rparr>)"
| "strip_align (Container c) = Container (c\<lparr>co_align := 0\<rparr>)"
| "strip_align n = n"

lemma strip_align_ctor [simp]: "ctor_of (strip_align n) = ctor_of n" "type_id (strip_align n) = type_id n"
  by (cases n; simp)+

lemma strip_align_refs [simp]: "succs (strip_align n) = succs n" "refs (strip_align n) = refs n"
  "size_nxt (strip_align n) = size_nxt n"
  by (cases n; simp add: o_def)+

lemma strip_same:
  assumes "strip_align n = strip_align n'"
  shows "ctor_of n = ctor_of n'" "type_id n = type_id n'" "succs n = succs n'" "refs n = refs n'"
    "size_nxt n = size_nxt n'"
  using arg_cong [OF assms, of ctor_of] arg_cong [OF assms, of type_id] arg_cong [OF assms, of succs]
    arg_cong [OF assms, of refs] arg_cong [OF assms, of size_nxt] by simp_all

definition same_shape :: "type_graph \<Rightarrow> type_graph \<Rightarrow> bool" where
  "same_shape g g' \<longleftrightarrow> length (nodes g') = length (nodes g) \<and> rootTypes g' = rootTypes g \<and>
     finalTypes g' = finalTypes g \<and> next_id g' = next_id g \<and>
     (\<forall>i < length (nodes g). strip_align (node_at g' i) = strip_align (node_at g i))"

lemma same_shape_refl [simp]: "same_shape g g"
  by (simp add: same_shape_def)

lemma same_shape_trans: "same_shape g g' \<Longrightarrow> same_shape g' g'' \<Longrightarrow> same_shape g g''"
  by (simp add: same_shape_def)

lemma same_shape_node:
  assumes "same_shape g g'" "i < length (nodes g)"
  shows "i < length (nodes g')" "ctor_of (node_at g' i) = ctor_of (node_at g i)"
    "type_id (node_at g' i) = type_id (node_at g i)" "succs (node_at g' i) = succs (node_at g i)"
    "refs (node_at g' i) = refs (node_at g i)" "size_nxt (node_at g' i) = size_nxt (node_at g i)"
  using assms strip_same [of "node_at g' i" "node_at g i"] by (simp_all add: same_shape_def)

lemma same_shape_extends: "same_shape g g' \<Longrightarrow> extends g g'"
  using same_shape_node by (simp add: extends_def same_shape_def)

lemma same_shape_in_graph: "same_shape g g' \<Longrightarrow> in_graph g' t = in_graph g t"
  by (cases t) (simp_all add: same_shape_def)

lemma same_shape_deref:
  assumes "same_shape g g'" "deref g t = Inr n"
  shows "\<exists>n'. deref g' t = Inr n' \<and> strip_align n' = strip_align n"
proof (cases t)
  case (NodeRef i)
  note own = deref_owned [OF assms(2) [unfolded NodeRef]]
  then show ?thesis using assms(1) NodeRef by (simp add: same_shape_def)
qed (use assms in simp)

lemma strip_classD: "strip_align n = strip_align (Class c) \<Longrightarrow> \<exists>c'. n = Class c'"
  by (cases n) simp_all

lemma strip_class_fields:
  assumes "strip_align (Class c) = strip_align (Class d)"
  shows "cl_children c = cl_children d" "cl_size c = cl_size d" "length (cl_members c) = length (cl_members d)"
    "map m_type (cl_members c) = map m_type (cl_members d)" "cl_templateParams c = cl_templateParams d"
    "cl_parents c = cl_parents d"
proof -
  let ?c = "c\<lparr>cl_align := 0, cl_packed := False, cl_members := map (\<lambda>m. m\<lparr>m_align := 0\<rparr>) (cl_members c)\<rparr>"
  let ?d = "d\<lparr>cl_align := 0, cl_packed := False, cl_members := map (\<lambda>m. m\<lparr>m_align := 0\<rparr>) (cl_members d)\<rparr>"
  have e: "?c = ?d" using assms by simp
  show "cl_children c = cl_children d" using arg_cong [OF e, of cl_children] by simp
  show "cl_size c = cl_size d" using arg_cong [OF e, of cl_size] by simp
  show "cl_templateParams c = cl_templateParams d" using arg_cong [OF e, of cl_templateParams] by simp
  show "cl_parents c = cl_parents d" using arg_cong [OF e, of cl_parents] by simp
  have m: "map (\<lambda>m. m\<lparr>m_align := 0\<rparr>) (cl_members c) = map (\<lambda>m. m\<lparr>m_align := 0\<rparr>) (cl_members d)"
    using arg_cong [OF e, of cl_members] by simp
  show "length (cl_members c) = length (cl_members d)" using arg_cong [OF m, of length] by simp
  show "map m_type (cl_members c) = map m_type (cl_members d)"
    using arg_cong [OF m, of "map m_type"] by (simp add: o_def)
qed

lemma same_shape_wf:
  assumes "wf_graph g" "same_shape g g'"
  shows "wf_graph g'"
proof -
  have len: "length (nodes g') = length (nodes g)" using assms(2) by (simp add: same_shape_def)
  have node: "\<exists>i < length (nodes g). n = node_at g' i" if "n \<in> set (nodes g')" for n
    using that len by (auto simp: in_set_conv_nth node_at_def)
  have "wf_refs g'"
    unfolding wf_refs_def
  proof (intro conjI ballI)
    fix n assume "n \<in> set (nodes g')"
    then obtain i where i: "i < length (nodes g)" "n = node_at g' i" using node by blast
    then have m: "node_at g i \<in> set (nodes g)" by (simp add: node_at_def)
    show "ctor_of n \<noteq> 3" using assms(1) m same_shape_node(2) [OF assms(2) i(1)] i(2)
      by (auto simp: wf_graph_def wf_refs_def)
    fix t assume "t \<in> set (refs n)"
    then have "t \<in> set (refs (node_at g i))" using same_shape_node(5) [OF assms(2) i(1)] i(2) by simp
    then show "in_graph g' t" using assms(1) m same_shape_in_graph [OF assms(2)]
      by (auto simp: wf_graph_def wf_refs_def)
  next
    fix t assume "t \<in> set (rootTypes g')"
    then show "in_graph g' t" using assms same_shape_in_graph [OF assms(2)]
      by (auto simp: wf_graph_def wf_refs_def same_shape_def)
  qed
  moreover have "wf_ids g'"
  proof -
    have "type_id (node_at g' i) = type_id (node_at g i)"
      "has_node_id (node_at g' i) = has_node_id (node_at g i)" if "i < length (nodes g)" for i
      using same_shape_node(2,3) [OF assms(2) that] ctor_of_has_id by blast+
    then show ?thesis
      using assms len by (auto simp: wf_graph_def wf_ids_def same_shape_def)
  qed
  moreover have "wf_children g'"
    unfolding wf_children_def
  proof (intro ballI allI impI)
    fix n c t assume n: "n \<in> set (nodes g')" "n = Class c" "t \<in> set (cl_children c)"
    obtain i where i: "i < length (nodes g)" "n = node_at g' i" using node n(1) by blast
    then have st: "strip_align (node_at g i) = strip_align (Class c)"
      using assms(2) n(2) unfolding same_shape_def by metis
    then obtain d where d: "node_at g i = Class d" using strip_classD by blast
    then have "cl_children d = cl_children c" using st strip_class_fields(1) by metis
    moreover have "Class d \<in> set (nodes g)" using d i(1) by (metis node_at_def nth_mem)
    ultimately obtain e where e: "deref g t = Inr (Class e)"
      using assms(1) n(3) unfolding wf_graph_def wf_children_def by metis
    from same_shape_deref [OF assms(2) this] show "\<exists>d. deref g' t = Inr (Class d)"
      using strip_classD by fastforce
  qed
  ultimately show ?thesis by (simp add: wf_graph_def)
qed

text \<open>Whether a type has an alignment does not depend on what the pass changes.\<close>

lemma align_body_chain: "deref g t = Inr n \<Longrightarrow> size_nxt n = Some u \<Longrightarrow> align_body call t g = call u g"
  by (cases n) (simp_all add: align_body_def)

lemma align_body_end:
  "deref g t = Inr n \<Longrightarrow> size_nxt n = None \<Longrightarrow> ctor_of n \<noteq> 3 \<Longrightarrow> \<exists>a. align_body call t g = Inr a"
  by (cases n) (simp_all add: align_body_def)

lemma recur_align_shape:
  assumes "wf_refs g" "same_shape g g'"
  shows "in_graph g t \<Longrightarrow> \<exists>a. recur align_body n t g = Inr a \<Longrightarrow> \<exists>a. recur align_body n t g' = Inr a"
proof (induction n arbitrary: t)
  case (Suc n)
  show ?case
  proof (cases t)
    case (PrimRef k)
    then show ?thesis using Suc.prems by (simp add: align_body_def)
  next
    case (NodeRef i)
    then have i: "i < length (nodes g)" "i < length (nodes g')"
      using Suc.prems(1) assms(2) by (simp_all add: same_shape_def)
    note shape = same_shape_node [OF assms(2) i(1)]
    have d: "deref g t = Inr (node_at g i)" "deref g' t = Inr (node_at g' i)" using i NodeRef by simp_all
    show ?thesis
    proof (cases "size_nxt (node_at g i)")
      case (Some u)
      then have "u \<in> set (refs (node_at g i))" by (cases "node_at g i") auto
      then have "in_graph g u" using wf_refsD [OF assms(1) i(1)] by blast
      then show ?thesis
        using Suc Some shape(6) align_body_chain [OF d(1) Some] align_body_chain [OF d(2)] by simp
    next
      case None
      have "ctor_of (node_at g i) \<noteq> 3" using assms(1) i(1) by (simp add: wf_refs_def node_at_def)
      then show ?thesis using align_body_end [OF d(2)] None shape by simp
    qed
  qed
qed simp

lemma type_align_shape:
  assumes "wf_refs g" "same_shape g g'" "in_graph g t" "\<exists>a. type_align g t = Inr a"
  shows "\<exists>a. type_align g' t = Inr a"
proof -
  have "chain_depth g' = chain_depth g" using assms(2) by (simp add: chain_depth_def same_shape_def)
  then show ?thesis
    using recur_align_shape [OF assms(1-3), of "chain_depth g"] assms(4) by (simp add: type_align_def)
qed

section \<open>Alignments that are settled\<close>

text \<open>
  The alignment of a type that no later step of the pass changes: of a class that has one, of a
  container that has that of its underlying class, and of every type the pass does not write.
\<close>

definition settled :: "type_graph \<Rightarrow> ty \<Rightarrow> u64 option" where
  "settled g n = (case n of
      Class c \<Rightarrow> if cl_align c = 0 then None else Some (cl_align c)
    | Container c \<Rightarrow> (case co_underlying c of None \<Rightarrow> Some (co_align c)
        | Some u \<Rightarrow> (case deref g u of
            Inr (Class d) \<Rightarrow> if cl_align d = co_align c \<and> cl_align d \<noteq> 0 then Some (co_align c) else None
          | _ \<Rightarrow> None))
    | _ \<Rightarrow> if size_nxt n = None then (case align_body (\<lambda>t g. Inl Diverge) (NodeRef 0)
        \<lparr>nodes = [n], rootTypes = [], finalTypes = [], next_id = 0\<rparr> of Inl e \<Rightarrow> None | Inr a \<Rightarrow> Some a) else None)"

lemma settled_iff:
  "settled g (Class c) = Some a \<longleftrightarrow> cl_align c = a \<and> a \<noteq> 0"
  "co_underlying k = None \<Longrightarrow> settled g (Container k) = Some a \<longleftrightarrow> co_align k = a"
  "co_underlying k = Some u \<Longrightarrow> settled g (Container k) = Some a \<longleftrightarrow>
     co_align k = a \<and> a \<noteq> 0 \<and> (\<exists>d. deref g u = Inr (Class d) \<and> cl_align d = a)"
proof -
  show "co_underlying k = Some u \<Longrightarrow> settled g (Container k) = Some a \<longleftrightarrow>
     co_align k = a \<and> a \<noteq> 0 \<and> (\<exists>d. deref g u = Inr (Class d) \<and> cl_align d = a)"
    unfolding settled_def by (simp split: sum.split ty.split) auto
qed (auto simp: settled_def)

definition align_frame :: "type_graph \<Rightarrow> type_graph \<Rightarrow> bool" where
  "align_frame g g' \<longleftrightarrow> same_shape g g' \<and>
     (\<forall>i < length (nodes g). \<forall>a. settled g (node_at g i) = Some a \<longrightarrow> settled g' (node_at g' i) = Some a)"

lemma align_frame_refl [simp]: "align_frame g g"
  by (simp add: align_frame_def)

lemma align_frame_trans: "align_frame g g' \<Longrightarrow> align_frame g' g'' \<Longrightarrow> align_frame g g''"
  by (auto simp: align_frame_def same_shape_def)

inductive align_cert :: "type_graph \<Rightarrow> tref \<Rightarrow> u64 \<Rightarrow> bool" for g where
  base: "deref g t = Inr n \<Longrightarrow> size_nxt n = None \<Longrightarrow> settled g n = Some a \<Longrightarrow> align_cert g t a"
| chain: "deref g t = Inr n \<Longrightarrow> size_nxt n = Some u \<Longrightarrow> align_cert g u a \<Longrightarrow> align_cert g t a"

lemma settled_align:
  assumes "deref g t = Inr n" "size_nxt n = None" "settled g n = Some a"
  shows "align_body call t g = Inr a"
  using assms
  by (cases n) (auto simp: align_body_def settled_def deref.simps split: if_splits option.splits sum.splits ty.splits)

lemma align_cert_align: "align_cert g t a \<Longrightarrow> type_align g t = Inr a"
proof (induction rule: align_cert.induct)
  case (base t n a)
  then show ?case by (subst type_align_unfold) (rule settled_align)
next
  case (chain t n u a)
  then show ?case by (subst type_align_unfold) (simp add: align_body_chain [OF chain(1,2)])
qed

lemma align_cert_frame:
  assumes "align_frame g g'"
  shows "align_cert g t a \<Longrightarrow> align_cert g' t a"
proof (induction rule: align_cert.induct)
  case (base t n a)
  show ?case
  proof (cases t)
    case (PrimRef k)
    then show ?thesis using base by (auto intro!: align_cert.base simp: settled_def)
  next
    case (NodeRef i)
    note own = deref_owned [OF base(1) [unfolded NodeRef]]
    have "same_shape g g'" using assms by (simp add: align_frame_def)
    note shape = same_shape_node [OF this own(1)]
    have "settled g' (node_at g' i) = Some a"
      using assms own base(3) by (auto simp: align_frame_def)
    then show ?thesis using shape own base(2) NodeRef by (intro align_cert.base) auto
  qed
next
  case (chain t n u a)
  have "same_shape g g'" using assms by (simp add: align_frame_def)
  from same_shape_deref [OF this chain(1)] obtain n' where
    "deref g' t = Inr n'" "strip_align n' = strip_align n" by blast
  from this(1) strip_same(5) [OF this(2)] show ?case
    using chain(2,4) align_cert.chain [of g' t n'] by metis
qed

text \<open>The writes of the pass keep what is settled.\<close>

lemma same_shape_put:
  assumes "deref g t = Inr n" "strip_align n' = strip_align n"
  shows "same_shape g (put_node t n' g)"
proof (cases t)
  case (NodeRef i)
  note own = deref_owned [OF assms(1) [unfolded NodeRef]]
  then show ?thesis using assms(2) NodeRef by (auto simp: same_shape_def)
qed simp

lemma deref_put_cases:
  assumes "deref g t = Inr n" "ctor_of n \<noteq> 3"
  shows "deref (put_node t n' g) u = (if u = t then Inr n' else deref g u)"
proof -
  obtain i where i: "t = NodeRef i" "i < length (nodes g)" using deref_owner [OF assms] by metis
  then show ?thesis by (cases u) (simp_all add: deref.simps put_node.simps nth_list_update)
qed

lemma settled_put:
  assumes "deref g t = Inr n" "ctor_of n \<noteq> 3"
    and kept: "\<And>c. n = Class c \<Longrightarrow> cl_align c \<noteq> 0 \<Longrightarrow> \<exists>c'. n' = Class c' \<and> cl_align c' = cl_align c"
    and "settled g m = Some a"
  shows "settled (put_node t n' g) m = Some a"
proof (cases "\<exists>c u. m = Container c \<and> co_underlying c = Some u")
  case True
  then obtain c u where m: "m = Container c" "co_underlying c = Some u" by blast
  then obtain d where d: "deref g u = Inr (Class d)" "cl_align d = co_align c" "cl_align d \<noteq> 0" "a = co_align c"
    using assms(4) settled_iff(3) by metis
  have "\<exists>d'. deref (put_node t n' g) u = Inr (Class d') \<and> cl_align d' = cl_align d"
  proof (cases "u = t")
    case True
    then have "n = Class d" using d(1) assms(1) by simp
    from kept [OF this d(3)] show ?thesis using True deref_put_cases [OF assms(1,2), of n' u] by auto
  next
    case False
    then show ?thesis using d(1) deref_put_cases [OF assms(1,2), of n' u] by simp
  qed
  then show ?thesis using m d settled_iff(3) by metis
next
  case False
  then show ?thesis using assms(4) by (cases m) (auto simp: settled_def split: option.split)
qed

lemma align_frame_put:
  assumes d: "deref g t = Inr n" and c: "ctor_of n \<noteq> 3" and st: "strip_align n' = strip_align n"
    and kept: "\<And>c. n = Class c \<Longrightarrow> cl_align c \<noteq> 0 \<Longrightarrow> \<exists>c'. n' = Class c' \<and> cl_align c' = cl_align c"
    and self: "\<And>a. settled g n = Some a \<Longrightarrow> settled g n' = Some a"
  shows "align_frame g (put_node t n' g)"
proof -
  obtain i where i: "t = NodeRef i" "i < length (nodes g)" "node_at g i = n"
    using deref_owner [OF d c] by metis
  have "settled (put_node t n' g) (node_at (put_node t n' g) j) = Some a"
    if "settled g (node_at g j) = Some a" for j a
    using settled_put [OF d c kept] self i that by (cases "i = j") auto
  then show ?thesis using same_shape_put [OF d st] by (simp add: align_frame_def)
qed

section \<open>What the pass asks for and what it leaves\<close>

definition has_align :: "type_graph \<Rightarrow> tref \<Rightarrow> bool" where
  "has_align g t \<longleftrightarrow> (\<exists>a. type_align g t = Inr a)"

definition align_ready :: "type_graph \<Rightarrow> bool" where
  "align_ready g \<longleftrightarrow> wf_graph g \<and> (\<forall>n \<in> set (nodes g).
     (\<forall>c. n = Class c \<longrightarrow> (\<forall>m \<in> set (cl_members c). has_align g (m_type m))) \<and>
     (\<forall>c u. n = Container c \<longrightarrow> co_underlying c = Some u \<longrightarrow> has_align g u))"

text \<open>A graph without cycles, where only classes are behind containers.\<close>

definition layered :: "(tref \<Rightarrow> nat) \<Rightarrow> type_graph \<Rightarrow> bool" where
  "layered height g \<longleftrightarrow> (\<forall>i < length (nodes g).
     (\<forall>u \<in> set (succs (node_at g i)). height u < height (NodeRef i)) \<and>
     (\<forall>c u. node_at g i = Container c \<longrightarrow> co_underlying c = Some u \<longrightarrow> (\<exists>d. deref g u = Inr (Class d))))"

text \<open>
  The layout of a class after the pass: explicit alignments stay, that of the class is the largest
  among its members, and it is packed if a member or the end of the class is not aligned.
\<close>

definition max_align :: "member list \<Rightarrow> u64" where
  "max_align ms = fold (\<lambda>m a. max a (m_align m)) ms 1"

definition laid_out :: "class_node \<Rightarrow> class_node \<Rightarrow> bool" where
  "laid_out c c' \<longleftrightarrow> strip_align (Class c') = strip_align (Class c) \<and>
     (\<forall>j < length (cl_members c). cl_align c \<noteq> 0 \<or> m_align (cl_members c ! j) \<noteq> 0 \<longrightarrow>
        cl_members c' ! j = cl_members c ! j) \<and>
     cl_align c' = (if cl_align c = 0 then max_align (cl_members c') else cl_align c) \<and>
     cl_packed c' = (cl_packed c \<or> cl_align c = 0 \<and> list_ex misplaced (cl_members c') \<or>
       cl_align c' = 1 \<or> cl_size c' mod cl_align c' \<noteq> 0)"

text \<open>Each alignment that was computed is that of the type of the member.\<close>

definition members_aligned :: "type_graph \<Rightarrow> class_node \<Rightarrow> class_node \<Rightarrow> nat \<Rightarrow> bool" where
  "members_aligned g c c' k \<longleftrightarrow> (\<forall>j < k. m_align (cl_members c ! j) = 0 \<longrightarrow>
     align_cert g (m_type (cl_members c ! j)) (m_align (cl_members c' ! j)))"

definition node_aligned :: "bool \<Rightarrow> type_graph \<Rightarrow> ty \<Rightarrow> ty \<Rightarrow> bool" where
  "node_aligned dag g n n' \<longleftrightarrow> (case n of
     Class c \<Rightarrow> \<exists>c'. n' = Class c' \<and> laid_out c c' \<and>
       (dag \<and> cl_align c = 0 \<longrightarrow> members_aligned g c c' (length (cl_members c)))
   | Container c \<Rightarrow> \<exists>a. n' = Container (c\<lparr>co_align := a\<rparr>) \<and>
       (case co_underlying c of None \<Rightarrow> a = co_align c | Some u \<Rightarrow> dag \<longrightarrow> align_cert g u a)
   | _ \<Rightarrow> n' = n)"

text \<open>The state within the loop over the members, after \<open>k\<close> of them.\<close>

definition aligning :: "bool \<Rightarrow> type_graph \<Rightarrow> class_node \<Rightarrow> nat \<Rightarrow> u64 \<Rightarrow> class_node \<Rightarrow> bool" where
  "aligning dag g c k al c' \<longleftrightarrow> strip_align (Class c') = strip_align (Class c) \<and>
     (\<forall>j < length (cl_members c). k \<le> j \<or> m_align (cl_members c ! j) \<noteq> 0 \<longrightarrow>
        cl_members c' ! j = cl_members c ! j) \<and>
     al = max_align (take k (cl_members c')) \<and>
     cl_packed c' = (cl_packed c \<or> list_ex misplaced (take k (cl_members c'))) \<and>
     cl_align c' = 0 \<and> (dag \<longrightarrow> members_aligned g c c' k)"

lemma max_align_Suc: "k < length ms \<Longrightarrow> max_align (take (Suc k) ms) = max (max_align (take k ms)) (m_align (ms ! k))"
  by (simp add: max_align_def take_Suc_conv_app_nth)

lemma max_align_pos: "1 \<le> max_align ms"
proof (induction ms rule: rev_induct)
  case (snoc m ms)
  then show ?case by (simp add: max_align_def le_max_iff_disj)
qed (simp add: max_align_def)

lemma max_align_nonzero [simp]: "max_align ms \<noteq> 0"
  using max_align_pos [of ms] by auto

lemma aligning_0: "cl_align c = 0 \<Longrightarrow> aligning dag g c 0 1 c"
  by (simp add: aligning_def max_align_def members_aligned_def)

text \<open>One round of the loop: the member gets its alignment, then the class may be packed.\<close>

lemma strip_member:
  assumes "k < length (cl_members c)"
  shows "strip_align (Class (c\<lparr>cl_members := (cl_members c)[k := (cl_members c ! k)\<lparr>m_align := a\<rparr>]\<rparr>)) =
    strip_align (Class c)"
proof -
  have "map (\<lambda>m. m\<lparr>m_align := 0\<rparr>) ((cl_members c)[k := (cl_members c ! k)\<lparr>m_align := a\<rparr>]) =
      map (\<lambda>m. m\<lparr>m_align := 0\<rparr>) (cl_members c)"
    using assms by (intro nth_equalityI) (auto simp: nth_list_update)
  then show ?thesis by simp
qed

lemma aligning_member:
  assumes al: "aligning dag g c k al c'" and k: "k < length (cl_members c)"
    and zero: "m_align (cl_members c ! k) = 0" and cert: "dag \<Longrightarrow> align_cert g (m_type (cl_members c ! k)) a"
    and m: "m = (cl_members c ! k)\<lparr>m_align := a\<rparr>"
    and d: "d = c'\<lparr>cl_members := (cl_members c')[k := m], cl_packed := cl_packed c' \<or> misplaced m\<rparr>"
  shows "aligning dag g c (Suc k) (max al a) d"
proof -
  have st: "strip_align (Class c') = strip_align (Class c)" using al by (simp add: aligning_def)
  have len: "length (cl_members c') = length (cl_members c)" using strip_class_fields(3) [OF st] .
  have mk: "cl_members c' ! k = cl_members c ! k" using al k by (simp add: aligning_def)
  have "strip_align (Class d) = strip_align (Class c')"
    using strip_member [of k c' a] k len mk unfolding d m by simp
  moreover have "take (Suc k) ((cl_members c')[k := m]) = take k (cl_members c') @ [m]"
    using k len by (simp add: take_Suc_conv_app_nth)
  ultimately show ?thesis
    using al k len zero cert unfolding aligning_def d m
    by (auto simp: members_aligned_def nth_list_update max_align_def less_Suc_eq st)
qed

lemma aligning_explicit:
  assumes al: "aligning dag g c k al c'" and k: "k < length (cl_members c)"
    and nz: "m_align (cl_members c ! k) \<noteq> 0" and m: "m = cl_members c ! k"
    and d: "d = c'\<lparr>cl_packed := cl_packed c' \<or> misplaced m\<rparr>"
  shows "aligning dag g c (Suc k) (max al (m_align m)) d"
proof -
  have st: "strip_align (Class c') = strip_align (Class c)" using al by (simp add: aligning_def)
  have len: "length (cl_members c') = length (cl_members c)" using strip_class_fields(3) [OF st] .
  have "cl_members c' ! k = m" using al k m by (simp add: aligning_def)
  then have "take (Suc k) (cl_members c') = take k (cl_members c') @ [m]"
    using k len by (simp add: take_Suc_conv_app_nth)
  then show ?thesis
    using al k len nz unfolding aligning_def d m
    by (auto simp: members_aligned_def max_align_def less_Suc_eq)
qed

section \<open>The walk\<close>

definition al_ok :: "type_graph \<Rightarrow> bool \<Rightarrow> (tref \<Rightarrow> nat) \<Rightarrow> tref set pass_state \<Rightarrow> bool" where
  "al_ok g0 dag height s \<longleftrightarrow> align_ready g0 \<and> same_shape g0 (ps_graph s) \<and> (dag \<longrightarrow> layered height g0)"

definition al_frame :: "tref set pass_state \<Rightarrow> tref set pass_state \<Rightarrow> bool" where
  "al_frame s s' \<longleftrightarrow> align_frame (ps_graph s) (ps_graph s')"

definition al_univ :: "type_graph \<Rightarrow> tref set" where
  "al_univ g0 = {t. in_graph g0 t \<and> t \<in> reach (edges (\<lambda>n. n) g0) (rootTypes g0)}"

definition al_final :: "type_graph \<Rightarrow> bool \<Rightarrow> tref set pass_state \<Rightarrow> tref \<Rightarrow> bool" where
  "al_final g0 dag s t \<longleftrightarrow> (\<forall>i. t = NodeRef i \<longrightarrow>
      node_aligned dag (ps_graph s) (node_at g0 i) (node_at (ps_graph s) i)) \<and>
     (dag \<longrightarrow> (\<exists>a. align_cert (ps_graph s) t a))"

lemma node_aligned_frame:
  assumes "node_aligned dag g n n'" "align_frame g g'"
  shows "node_aligned dag g' n n'"
  using assms align_cert_frame [OF assms(2)]
  by (cases n) (fastforce simp: node_aligned_def members_aligned_def split: option.splits)+

interpretation alf: walk_frame ps_graph "\<lambda>s. ptr_marked g0 (ps_marks s)" "\<lambda>t. True"
  "length (nodes g0)" "node_at g0" "al_univ g0" "al_ok g0 dag height" al_frame "edges (\<lambda>n. n) g0"
  "al_final g0 dag" "{}" dag height for g0 dag height
proof (unfold_locales, goal_cases)
  case (3 s s' s'')
  then show ?case using align_frame_trans by (simp add: al_frame_def)
next
  case (4 s t s')
  then show ?case
    using node_aligned_frame align_cert_frame unfolding al_final_def al_frame_def by metis
qed (simp_all add: al_univ_def al_frame_def)

lemma al_put:
  assumes p: "alf.progress g0 dag height t s s1" and n: "get_ty t s1 = Inr n" "ctor_of n \<noteq> 3"
    and st: "strip_align n' = strip_align n"
    and kept: "\<And>c. n = Class c \<Longrightarrow> cl_align c \<noteq> 0 \<Longrightarrow> \<exists>c'. n' = Class c' \<and> cl_align c' = cl_align c"
    and self: "\<And>a. settled (ps_graph s1) n = Some a \<Longrightarrow> settled (ps_graph s1) n' = Some a"
  shows "alf.progress g0 dag height t s (put_ty t n' s1)" "al_frame s1 (put_ty t n' s1)"
    "get_ty t (put_ty t n' s1) = Inr n'"
proof -
  have d: "deref (ps_graph s1) t = Inr n" using n(1) by (simp add: get_ty_def)
  show f: "al_frame s1 (put_ty t n' s1)"
    using align_frame_put [OF d n(2) st kept self] by (simp add: al_frame_def put_ty_def)
  have "al_ok g0 dag height (put_ty t n' s1)"
    using alf.progressD(1) [OF p] f same_shape_trans [of g0 "ps_graph s1"]
    by (simp add: al_ok_def al_frame_def align_frame_def)
  then show "alf.progress g0 dag height t s (put_ty t n' s1)"
    by (rule alf.progress_change [OF p _ f]) (use n put_other in auto)
  show "get_ty t (put_ty t n' s1) = Inr n'"
    using deref_put_cases [OF d n(2)] by (simp add: get_ty_def put_ty_def)
qed

lemma al_put_class:
  assumes "alf.progress g0 dag height t s s1" "get_ty t s1 = Inr (Class c1)"
    "strip_align (Class c2) = strip_align (Class c1)" "cl_align c1 \<noteq> 0 \<Longrightarrow> cl_align c2 = cl_align c1"
  shows "alf.progress g0 dag height t s (put_ty t (Class c2) s1)" "al_frame s1 (put_ty t (Class c2) s1)"
    "get_ty t (put_ty t (Class c2) s1) = Inr (Class c2)"
  by (rule al_put [OF assms(1,2)]; use assms(3,4) in \<open>auto simp: settled_iff\<close>)+

text \<open>The states of the loop over the members of the class \<open>c\<close>, which began in \<open>s1\<close>.\<close>

definition al_loop where
  "al_loop g0 dag height t c s s1 k = (\<lambda>(al, s'). alf.progress g0 dag height t s s' \<and> al_frame s1 s' \<and>
     ps_marks s' = ps_marks s1 \<and> (\<exists>c'. get_ty t s' = Inr (Class c') \<and> aligning dag (ps_graph s') c k al c'))"

lemma aligning_frame: "aligning dag g c k al c' \<Longrightarrow> align_frame g g' \<Longrightarrow> aligning dag g' c k al c'"
  using align_cert_frame by (auto simp: aligning_def members_aligned_def)

lemma al_loop_put:
  assumes loop: "al_loop g0 dag height t c s s1 k (al, s')" and c': "get_ty t s' = Inr (Class c')"
    and al: "aligning dag (ps_graph s') c k' al' d" and c0: "aligning dag (ps_graph s') c k al c'"
  shows "al_loop g0 dag height t c s s1 k' (al', put_ty t (Class d) s')"
proof -
  have p: "alf.progress g0 dag height t s s'" using loop by (simp add: al_loop_def)
  have st: "strip_align (Class d) = strip_align (Class c')" "cl_align c' = 0"
    using al c0 by (simp_all add: aligning_def)
  note put = al_put_class [OF p c' st(1)]
  have "al_frame s1 (put_ty t (Class d) s')"
    using loop put(2) st(2) align_frame_trans by (auto simp: al_loop_def al_frame_def)
  then show ?thesis
    using loop put st(2) aligning_frame [OF al, of "ps_graph (put_ty t (Class d) s')"]
    by (simp add: al_loop_def al_frame_def)
qed

lemma change_class_eq: "get_ty t s = Inr (Class c) \<Longrightarrow> change_class t f s = Inr (put_ty t (Class (f c)) s)"
  by (simp add: change_class_def get_class_def)

lemma alignmentCalc_member_step:
  assumes ok: "align_ready g0" and i: "t = NodeRef i" "i < length (nodes g0)" "node_at g0 i = Class c"
    and acc: "alf.accepts g0 dag height t s call"
    and loop: "al_loop g0 dag height t c s s1 k (al, s')" and k: "k < length (cl_members c)"
    and mt: "m_type (cl_members c ! k) \<in> al_univ g0" "dag \<longrightarrow> height (m_type (cl_members c ! k)) < height t"
    and seen: "ptr_marked g0 (ps_marks s1) (m_type (cl_members c ! k))"
    and cert: "dag \<longrightarrow> (\<exists>a. align_cert (ps_graph s1) (m_type (cl_members c ! k)) a)"
  shows "spec {} (alignmentCalc_member call t k (al, s')) (al_loop g0 dag height t c s s1 (Suc k))"
proof -
  let ?m = "cl_members c ! k"
  from loop obtain c' where p: "alf.progress g0 dag height t s s'" and f: "al_frame s1 s'"
    and mk: "ps_marks s' = ps_marks s1" and c': "get_ty t s' = Inr (Class c')"
    and al: "aligning dag (ps_graph s') c k al c'" by (auto simp: al_loop_def)
  have st: "strip_align (Class c') = strip_align (Class c)" using al by (simp add: aligning_def)
  have len: "length (cl_members c') = length (cl_members c)" using strip_class_fields(3) [OF st] .
  have m: "get_member t k s' = Inr ?m"
    using c' al k len by (simp add: get_member_def get_class_def aligning_def)
  have sh: "same_shape g0 (ps_graph s')" using alf.progressD(1) [OF p] by (simp add: al_ok_def)
  show ?thesis
  proof (cases "m_align ?m = 0")
    case True
    have "Class c \<in> set (nodes g0)" using i by (metis node_at_def nth_mem)
    then have "has_align g0 (m_type ?m)" "wf_refs g0"
      using ok k by (auto simp: align_ready_def wf_graph_def)
    then obtain a where a: "type_align (ps_graph s') (m_type ?m) = Inr a"
      using type_align_shape [OF _ sh] mt(1) by (auto simp: has_align_def al_univ_def)
    have b1: "call (m_type ?m) s' = Inr s'"
      using alf.acceptsD [OF acc p mt] seen mk by (auto simp: spec_empty_iff)
    have "align_cert (ps_graph s') (m_type ?m) a" if d: dag
    proof -
      obtain b where "align_cert (ps_graph s1) (m_type ?m) b" using cert d by blast
      then have "align_cert (ps_graph s') (m_type ?m) b"
        using align_cert_frame f by (simp add: al_frame_def)
      then show ?thesis using align_cert_align a by fastforce
    qed
    note al2 = aligning_member [OF al k True this refl refl]
    let ?m' = "?m\<lparr>m_align := a\<rparr>"
    let ?c1 = "c'\<lparr>cl_members := (cl_members c')[k := ?m']\<rparr>"
    have m1: "change_member t k (\<lambda>m. m\<lparr>m_align := a\<rparr>) s' = Inr (put_ty t (Class ?c1) s')"
      by (simp add: change_member_def m change_class_eq [OF c'])
    have c1: "get_ty t (put_ty t (Class ?c1) s') = Inr (Class ?c1)"
      using get_put [OF c'] by simp
    have g1: "get_member t k (put_ty t (Class ?c1) s') = Inr ?m'"
      using k len by (simp add: get_member_def get_class_def c1)
    let ?c2 = "?c1\<lparr>cl_packed := cl_packed c' \<or> misplaced ?m'\<rparr>"
    have "(if misplaced ?m' then change_class t (\<lambda>c. c\<lparr>cl_packed := True\<rparr>) (put_ty t (Class ?c1) s')
        else Inr (put_ty t (Class ?c1) s')) = Inr (put_ty t (Class ?c2) s')"
      by (simp add: change_class_eq [OF c1])
    with b1 have "alignmentCalc_member call t k (al, s') = Inr (max al a, put_ty t (Class ?c2) s')"
      using True by (simp add: alignmentCalc_member_def m a m1 g1)
    then show ?thesis using al_loop_put [OF loop c' al2 al] by simp
  next
    case False
    let ?c2 = "c'\<lparr>cl_packed := cl_packed c' \<or> misplaced ?m\<rparr>"
    have "(if misplaced ?m then change_class t (\<lambda>c. c\<lparr>cl_packed := True\<rparr>) s' else Inr s') =
        Inr (put_ty t (Class ?c2) s')"
      using put_self [OF c'] by (simp add: change_class_eq [OF c'])
    then have "alignmentCalc_member call t k (al, s') = Inr (max al (m_align ?m), put_ty t (Class ?c2) s')"
      using False by (simp add: alignmentCalc_member_def m)
    then show ?thesis
      using al_loop_put [OF loop c' aligning_explicit [OF al k False refl refl] al] by simp
  qed
qed

lemma alignmentCalc_members_step:
  assumes ok: "align_ready g0" and i: "t = NodeRef i" "i < length (nodes g0)" "node_at g0 i = Class c"
    and acc: "alf.accepts g0 dag height t s call" and p: "alf.progress g0 dag height t s s1"
    and c: "get_ty t s1 = Inr (Class c)" "cl_align c = 0"
    and mt: "\<forall>m \<in> set (cl_members c). m_type m \<in> al_univ g0 \<and> (dag \<longrightarrow> height (m_type m) < height t) \<and>
      ptr_marked g0 (ps_marks s1) (m_type m) \<and> (dag \<longrightarrow> (\<exists>a. align_cert (ps_graph s1) (m_type m) a))"
  shows "spec {} (alignmentCalc_members call t t s1) (\<lambda>s2. alf.progress g0 dag height t s s2 \<and>
    al_frame s1 s2 \<and> ps_marks s2 = ps_marks s1 \<and> (\<exists>al c2. get_ty t s2 = Inr (Class (c2\<lparr>cl_align := al\<rparr>)) \<and>
      aligning dag (ps_graph s2) c (length (cl_members c)) al c2))"
proof -
  let ?n = "length (cl_members c)"
  have start: "al_loop g0 dag height t c s s1 0 (1, s1)"
    using p c aligning_0 by (simp add: al_loop_def al_frame_def)
  have "spec {} (for_each (alignmentCalc_member call t) [0..<?n] (1, s1)) (al_loop g0 dag height t c s s1 ?n)"
  proof (rule spec_for_each_upt [of "al_loop g0 dag height t c s s1", OF start])
    fix k x assume k: "k < ?n" and x: "al_loop g0 dag height t c s s1 k x"
    obtain al s' where "x = (al, s')" by (cases x)
    moreover have "cl_members c ! k \<in> set (cl_members c)" using k by simp
    ultimately show "spec {} (alignmentCalc_member call t k x) (al_loop g0 dag height t c s s1 (Suc k))"
      using alignmentCalc_member_step [OF ok i acc _ k] x mt by blast
  qed simp
  moreover have "spec {} (change_class t (\<lambda>c. c\<lparr>cl_align := al\<rparr>) s') (\<lambda>s2. alf.progress g0 dag height t s s2 \<and>
    al_frame s1 s2 \<and> ps_marks s2 = ps_marks s1 \<and> (\<exists>al c2. get_ty t s2 = Inr (Class (c2\<lparr>cl_align := al\<rparr>)) \<and>
      aligning dag (ps_graph s2) c ?n al c2))" if x: "al_loop g0 dag height t c s s1 ?n (al, s')" for al s'
  proof -
    from x obtain c2 where p: "alf.progress g0 dag height t s s'" and f: "al_frame s1 s'"
      and mk: "ps_marks s' = ps_marks s1" and c2: "get_ty t s' = Inr (Class c2)"
      and al: "aligning dag (ps_graph s') c ?n al c2" by (auto simp: al_loop_def)
    have "strip_align (Class (c2\<lparr>cl_align := al\<rparr>)) = strip_align (Class c2)" "cl_align c2 = 0"
      using al by (simp_all add: aligning_def)
    note put = al_put_class [OF p c2 this(1)]
    have "al_frame s1 (put_ty t (Class (c2\<lparr>cl_align := al\<rparr>)) s')"
      using f put(2) \<open>cl_align c2 = 0\<close> align_frame_trans unfolding al_frame_def by blast
    moreover have "aligning dag (ps_graph (put_ty t (Class (c2\<lparr>cl_align := al\<rparr>)) s')) c ?n al c2"
      using aligning_frame [OF al] put(2) \<open>cl_align c2 = 0\<close> by (simp add: al_frame_def)
    ultimately show ?thesis
      using put \<open>cl_align c2 = 0\<close> mk by (auto simp: change_class_eq [OF c2])
  qed
  ultimately show ?thesis
    unfolding alignmentCalc_members_def using c(1)
    by (auto simp: get_class_def split: prod.split intro!: spec_bindI)
qed

text \<open>The last step of the visit of a class.\<close>

definition before_pack :: "bool \<Rightarrow> type_graph \<Rightarrow> class_node \<Rightarrow> class_node \<Rightarrow> bool" where
  "before_pack dag g c c' \<longleftrightarrow> strip_align (Class c') = strip_align (Class c) \<and>
     (\<forall>j < length (cl_members c). cl_align c \<noteq> 0 \<or> m_align (cl_members c ! j) \<noteq> 0 \<longrightarrow>
        cl_members c' ! j = cl_members c ! j) \<and>
     cl_align c' = (if cl_align c = 0 then max_align (cl_members c') else cl_align c) \<and>
     cl_packed c' = (cl_packed c \<or> cl_align c = 0 \<and> list_ex misplaced (cl_members c')) \<and>
     (dag \<and> cl_align c = 0 \<longrightarrow> members_aligned g c c' (length (cl_members c)))"

lemma aligning_before_pack:
  assumes "aligning dag g c (length (cl_members c)) al c2" "cl_align c = 0"
  shows "before_pack dag g c (c2\<lparr>cl_align := al\<rparr>)"
proof -
  have "length (cl_members c2) = length (cl_members c)"
    using assms strip_class_fields(3) [of c2 c] by (simp add: aligning_def)
  then show ?thesis using assms by (simp add: aligning_def before_pack_def members_aligned_def)
qed

lemma pack_laid_out:
  assumes "before_pack dag g c c'"
    "c'' = c'\<lparr>cl_packed := cl_packed c' \<or> cl_align c' = 1 \<or> cl_size c' mod cl_align c' \<noteq> 0\<rparr>"
  shows "laid_out c c''" "cl_align c'' \<noteq> 0"
    "dag \<and> cl_align c = 0 \<longrightarrow> members_aligned g c c'' (length (cl_members c))"
    "strip_align (Class c'') = strip_align (Class c')"
  using assms by (auto simp: before_pack_def laid_out_def members_aligned_def)

lemma alignmentCalc_pack_step:
  assumes i: "t = NodeRef i" "node_at g0 i = Class c" and p: "alf.progress g0 dag height t s s2"
    and c2: "get_ty t s2 = Inr (Class c2)" and b: "before_pack dag (ps_graph s2) c c2"
  shows "spec {} (if cl_align c2 = 1 \<or> cl_size c2 mod cl_align c2 \<noteq> 0
      then change_class t (\<lambda>c. c\<lparr>cl_packed := True\<rparr>) s2 else Inr s2)
    (\<lambda>s3. alf.progress g0 dag height t s s3 \<and> ps_marks s3 = ps_marks s2 \<and> al_final g0 dag s3 t)"
proof -
  let ?c3 = "c2\<lparr>cl_packed := cl_packed c2 \<or> cl_align c2 = 1 \<or> cl_size c2 mod cl_align c2 \<noteq> 0\<rparr>"
  let ?s3 = "put_ty t (Class ?c3) s2"
  note lo = pack_laid_out [OF b refl]
  note put = al_put_class [OF p c2 lo(4)]
  have node: "node_at (ps_graph ?s3) i = Class ?c3" using put_same [of i s2] c2 i(1) by simp
  have f: "align_frame (ps_graph s2) (ps_graph ?s3)" using put(2) by (simp add: al_frame_def)
  have "align_cert (ps_graph ?s3) t (cl_align ?c3)"
    using put(3) lo(2) by (intro align_cert.base [of _ _ "Class ?c3"]) (simp_all add: get_ty_def settled_iff)
  moreover have "node_aligned dag (ps_graph s2) (Class c) (Class ?c3)"
    using lo(1,3) by (auto simp: node_aligned_def)
  then have "node_aligned dag (ps_graph ?s3) (Class c) (Class ?c3)" by (rule node_aligned_frame [OF _ f])
  ultimately have "al_final g0 dag ?s3 t"
    using i node by (auto simp: al_final_def)
  moreover have "(if cl_align c2 = 1 \<or> cl_size c2 mod cl_align c2 \<noteq> 0
      then change_class t (\<lambda>c. c\<lparr>cl_packed := True\<rparr>) s2 else Inr s2) = Inr ?s3"
    using put_self [OF c2] by (simp add: change_class_eq [OF c2])
  ultimately show ?thesis using put(1) by simp
qed

section \<open>A visit\<close>

lemma prim_cert: "in_graph g (PrimRef k) \<Longrightarrow> \<exists>a. align_cert g' (PrimRef k) a"
proof -
  assume "in_graph g (PrimRef k)"
  then obtain a where "settled g' (Primitive k) = Some a"
    by (cases k) (auto simp: settled_def align_body_def deref.simps)
  then show ?thesis by (intro exI [of _ a] align_cert.base [of _ _ "Primitive k"]) simp_all
qed

lemma al_univ_succs:
  assumes "wf_refs g0" "NodeRef i \<in> al_univ g0"
  shows "i < length (nodes g0)" "set (succs (node_at g0 i)) \<subseteq> al_univ g0"
proof -
  show i: "i < length (nodes g0)" using assms(2) by (simp add: al_univ_def)
  show "set (succs (node_at g0 i)) \<subseteq> al_univ g0"
  proof
    fix u assume u: "u \<in> set (succs (node_at g0 i))"
    then have "in_graph g0 u" using wf_refsD [OF assms(1) i] succs_subset_refs by blast
    moreover have "u \<in> set (edges (\<lambda>n. n) g0 (NodeRef i))" using u i by (simp add: edges_def)
    ultimately show "u \<in> al_univ g0" using assms(2) by (auto simp: al_univ_def intro: reach.step)
  qed
qed

lemma al_descend:
  assumes ok: "al_ok g0 dag height s" and i: "t = NodeRef i" "NodeRef i \<in> al_univ g0"
    and acc: "alf.accepts g0 dag height t s call" and p: "alf.progress g0 dag height t s s0"
    and n: "get_ty t s0 = Inr n" "n = node_at g0 i"
  shows "spec {} (for_each call (succs n) s0) (\<lambda>s1. alf.progress g0 dag height t s s1 \<and> get_ty t s1 = Inr n \<and>
    (\<forall>u \<in> set (succs n). ptr_marked g0 (ps_marks s1) u \<and> (dag \<longrightarrow> al_final g0 dag s1 u)))"
proof -
  have wf: "wf_refs g0" using ok by (simp add: al_ok_def align_ready_def wf_graph_def)
  note U = al_univ_succs [OF wf i(2)]
  have h: "dag \<longrightarrow> (\<forall>u \<in> set (succs n). height u < height t)"
    using ok U(1) n(2) i(1) by (simp add: al_ok_def layered_def)
  show ?thesis
  proof (rule spec_mono [OF alf.accepts_for_each [OF acc p U(2) [folded n(2)] h]], elim conjE)
    fix s1 assume s1: "alf.progress g0 dag height t s s1" "alf.later g0 s0 s1"
      "\<forall>u \<in> set (succs n). alf.pass_post g0 dag u s1"
    have "ptr_marked g0 (ps_marks s0) (NodeRef i)" using alf.progressD(3) [OF p] i(1) by simp
    then have "node_at (ps_graph s1) i = node_at (ps_graph s0) i"
      using s1(2) U(1) by (simp add: alf.later_def)
    moreover have "node_at (ps_graph s0) i = n" "i < length (nodes (ps_graph s1))"
      using n(1) i(1) deref_owned [of "ps_graph s0" i n] alf.progressD(1) [OF s1(1)] U(1)
      by (simp_all add: get_ty_def al_ok_def same_shape_def)
    ultimately have "get_ty t s1 = Inr n" using i(1) by (simp add: get_ty_def)
    moreover have "ptr_marked g0 (ps_marks s1) u \<and> (dag \<longrightarrow> al_final g0 dag s1 u)" if u: "u \<in> set (succs n)" for u
    proof -
      have post: "alf.pass_post g0 dag u s1" using s1(3) u by blast
      have "in_graph g0 u" using U(2) n(2) u by (auto simp: al_univ_def)
      then show ?thesis
        using post prim_cert by (cases u) (auto simp: alf.pass_post_def alf.finished_def al_final_def)
    qed
    ultimately show "alf.progress g0 dag height t s s1 \<and> get_ty t s1 = Inr n \<and>
      (\<forall>u \<in> set (succs n). ptr_marked g0 (ps_marks s1) u \<and> (dag \<longrightarrow> al_final g0 dag s1 u))"
      using s1(1) by blast
  qed
qed

lemma alignmentCalc_class_visit:
  assumes ok: "al_ok g0 dag height s" and i: "t = NodeRef i" "NodeRef i \<in> al_univ g0"
    and acc: "alf.accepts g0 dag height t s call" and p: "alf.progress g0 dag height t s s0"
    and n: "get_ty t s0 = Inr (Class c)" "node_at g0 i = Class c"
  shows "spec {} (alignmentCalc_visit call t s0) (\<lambda>s'. alf.progress g0 dag height t s s' \<and> al_final g0 dag s' t \<and>
     (\<forall>u \<in> set (succs (Class c)). ptr_marked g0 (ps_marks s') u))"
proof -
  have ready: "align_ready g0" using ok by (simp add: al_ok_def)
  then have wf: "wf_refs g0" by (simp add: align_ready_def wf_graph_def)
  note U = al_univ_succs [OF wf i(2)]
  let ?Q = "\<lambda>s1. alf.progress g0 dag height t s s1 \<and> get_ty t s1 = Inr (Class c) \<and>
    (\<forall>u \<in> set (succs (Class c)). ptr_marked g0 (ps_marks s1) u \<and> (dag \<longrightarrow> al_final g0 dag s1 u))"
  let ?R = "\<lambda>s1 s2. alf.progress g0 dag height t s s2 \<and> ps_marks s2 = ps_marks s1 \<and>
    (\<exists>c2. get_ty t s2 = Inr (Class c2) \<and> before_pack dag (ps_graph s2) c c2)"
  have "spec {} (bindE (get_class t s1) (\<lambda>c. if cl_align c = 0 then alignmentCalc_members call t t s1 else Inr s1))
      (?R s1)" if s1: "?Q s1" for s1
  proof (cases "cl_align c = 0")
    case True
    have "\<forall>m \<in> set (cl_members c). m_type m \<in> al_univ g0 \<and> (dag \<longrightarrow> height (m_type m) < height t) \<and>
      ptr_marked g0 (ps_marks s1) (m_type m) \<and> (dag \<longrightarrow> (\<exists>a. align_cert (ps_graph s1) (m_type m) a))"
    proof
      fix m assume "m \<in> set (cl_members c)"
      then have u: "m_type m \<in> set (succs (Class c))" by simp
      then have "dag \<longrightarrow> height (m_type m) < height t"
        using ok U(1) n(2) i(1) by (fastforce simp: al_ok_def layered_def)
      then show "m_type m \<in> al_univ g0 \<and> (dag \<longrightarrow> height (m_type m) < height t) \<and>
          ptr_marked g0 (ps_marks s1) (m_type m) \<and> (dag \<longrightarrow> (\<exists>a. align_cert (ps_graph s1) (m_type m) a))"
        using U(2) u s1 n(2) unfolding al_final_def by auto
    qed
    note step = alignmentCalc_members_step [OF ready i(1) U(1) n(2) acc conjunct1 [OF s1] _ True this]
    from s1 have "spec {} (alignmentCalc_members call t t s1) (\<lambda>s2. alf.progress g0 dag height t s s2 \<and>
        al_frame s1 s2 \<and> ps_marks s2 = ps_marks s1 \<and> (\<exists>al c2. get_ty t s2 = Inr (Class (c2\<lparr>cl_align := al\<rparr>)) \<and>
          aligning dag (ps_graph s2) c (length (cl_members c)) al c2))"
      by (intro step) blast
    then have "spec {} (alignmentCalc_members call t t s1) (?R s1)"
      by (rule spec_mono) (use s1 aligning_before_pack [OF _ True] in blast)+
    then show ?thesis using s1 True by (simp add: get_class_def)
  next
    case False
    then have "before_pack dag (ps_graph s1) c c" by (simp add: before_pack_def)
    then show ?thesis using s1 False by (simp add: get_class_def)
  qed
  note step2 = this
  have step3: "spec {} (bindE (get_class t s2) (\<lambda>c. if cl_align c = 1 \<or> cl_size c mod cl_align c \<noteq> 0
        then change_class t (\<lambda>c. c\<lparr>cl_packed := True\<rparr>) s2 else Inr s2))
      (\<lambda>s3. alf.progress g0 dag height t s s3 \<and> ps_marks s3 = ps_marks s1 \<and> al_final g0 dag s3 t)"
    if s2: "?R s1 s2" for s1 s2
  proof -
    from s2 obtain c2 where c2: "get_ty t s2 = Inr (Class c2)" "before_pack dag (ps_graph s2) c c2" by blast
    from alignmentCalc_pack_step [OF i(1) n(2) conjunct1 [OF s2] c2] c2(1) s2
    show ?thesis by (simp add: get_class_def)
  qed
  have eq: "alignmentCalc_visit call t s0 = bindE (for_each call (succs (Class c)) s0) (\<lambda>s1.
      bindE (bindE (get_class t s1) (\<lambda>c. if cl_align c = 0 then alignmentCalc_members call t t s1 else Inr s1)) (\<lambda>s2.
      bindE (get_class t s2) (\<lambda>c. if cl_align c = 1 \<or> cl_size c mod cl_align c \<noteq> 0
        then change_class t (\<lambda>c. c\<lparr>cl_packed := True\<rparr>) s2 else Inr s2)))"
    by (simp only: alignmentCalc_visit_def n(1) recursive_visit_succs bindE_simps ty.case bindE_assoc)
  have "spec {} (for_each call (succs (Class c)) s0) ?Q"
    using al_descend [OF ok i acc p n(1)] n(2) by simp
  then show ?thesis
    unfolding eq
  proof (rule spec_bindI)
    fix s1 assume s1: "?Q s1"
    show "spec {} (bindE (bindE (get_class t s1) (\<lambda>c. if cl_align c = 0 then alignmentCalc_members call t t s1
        else Inr s1)) (\<lambda>s2. bindE (get_class t s2) (\<lambda>c. if cl_align c = 1 \<or> cl_size c mod cl_align c \<noteq> 0
        then change_class t (\<lambda>c. c\<lparr>cl_packed := True\<rparr>) s2 else Inr s2)))
      (\<lambda>s'. alf.progress g0 dag height t s s' \<and> al_final g0 dag s' t \<and>
         (\<forall>u \<in> set (succs (Class c)). ptr_marked g0 (ps_marks s') u))"
    proof (rule spec_bindI [OF step2 [OF s1]])
      fix s2 assume "?R s1 s2"
      from step3 [OF this] show "spec {} (bindE (get_class t s2) (\<lambda>c. if cl_align c = 1 \<or>
          cl_size c mod cl_align c \<noteq> 0 then change_class t (\<lambda>c. c\<lparr>cl_packed := True\<rparr>) s2 else Inr s2))
        (\<lambda>s'. alf.progress g0 dag height t s s' \<and> al_final g0 dag s' t \<and>
         (\<forall>u \<in> set (succs (Class c)). ptr_marked g0 (ps_marks s') u))"
        by (rule spec_mono) (use s1 in simp)
    qed
  qed
qed

lemma class_align: "deref g u = Inr (Class d) \<Longrightarrow> type_align g u = Inr (cl_align d)"
  by (subst type_align_unfold) (simp add: align_body_def)

lemma al_final_class:
  assumes "al_final g0 True s u" "deref g0 u = Inr (Class d)" "same_shape g0 (ps_graph s)"
  shows "\<exists>d'. deref (ps_graph s) u = Inr (Class d') \<and> cl_align d' \<noteq> 0"
proof -
  obtain i where i: "u = NodeRef i" "i < length (nodes g0)" "node_at g0 i = Class d"
    using deref_owner [OF assms(2)] by auto
  then obtain d' where d': "node_at (ps_graph s) i = Class d'" "laid_out d d'"
    using assms(1) by (auto simp: al_final_def node_aligned_def)
  then have "cl_align d' \<noteq> 0" by (simp add: laid_out_def)
  then show ?thesis using d' i assms(3) by (simp add: same_shape_def)
qed

lemma alignmentCalc_container_visit:
  assumes ok: "al_ok g0 dag height s" and i: "t = NodeRef i" "NodeRef i \<in> al_univ g0"
    and acc: "alf.accepts g0 dag height t s call" and p: "alf.progress g0 dag height t s s0"
    and n: "get_ty t s0 = Inr (Container c)" "node_at g0 i = Container c"
  shows "spec {} (alignmentCalc_visit call t s0) (\<lambda>s'. alf.progress g0 dag height t s s' \<and> al_final g0 dag s' t \<and>
     (\<forall>u \<in> set (succs (Container c)). ptr_marked g0 (ps_marks s') u))"
proof -
  have ready: "align_ready g0" using ok by (simp add: al_ok_def)
  then have wf: "wf_refs g0" by (simp add: align_ready_def wf_graph_def)
  note U = al_univ_succs [OF wf i(2)]
  have "alignmentCalc_visit call t s0 = bindE (for_each call (succs (Container c)) s0) (\<lambda>s.
        bindE (get_container t s) (\<lambda>c. case co_underlying c of
            None \<Rightarrow> Inr s
          | Some u \<Rightarrow> bindE (type_align (ps_graph s) u) (\<lambda>a. Inr (put_ty t (Container (c\<lparr>co_align := a\<rparr>)) s))))"
    by (simp only: alignmentCalc_visit_def n(1) recursive_visit_succs bindE_simps ty.case)
  moreover have "spec {} (bindE (get_container t s1) (\<lambda>c. case co_underlying c of
            None \<Rightarrow> Inr s1
          | Some u \<Rightarrow> bindE (type_align (ps_graph s1) u) (\<lambda>a. Inr (put_ty t (Container (c\<lparr>co_align := a\<rparr>)) s1))))
     (\<lambda>s'. alf.progress g0 dag height t s s' \<and> al_final g0 dag s' t \<and>
     (\<forall>u \<in> set (succs (Container c)). ptr_marked g0 (ps_marks s') u))"
    if s1: "alf.progress g0 dag height t s s1" "get_ty t s1 = Inr (Container c)"
      "\<forall>u \<in> set (succs (Container c)). ptr_marked g0 (ps_marks s1) u \<and> (dag \<longrightarrow> al_final g0 dag s1 u)" for s1
  proof (cases "co_underlying c")
    case None
    have "node_at (ps_graph s1) i = Container c"
      using deref_owned [of "ps_graph s1" i "Container c"] s1(2) i(1) by (simp add: get_ty_def)
    then have "node_aligned dag (ps_graph s1) (node_at g0 i) (node_at (ps_graph s1) i)"
      using None n(2) by (auto simp: node_aligned_def intro!: exI [of _ "co_align c"])
    moreover have "align_cert (ps_graph s1) t (co_align c)"
      using s1(2) None by (intro align_cert.base [of _ _ "Container c"]) (simp_all add: get_ty_def settled_iff)
    ultimately have "al_final g0 dag s1 t" using i(1) by (auto simp: al_final_def)
    then show ?thesis using s1 None by (simp add: get_container_def)
  next
    case (Some u)
    have sh: "same_shape g0 (ps_graph s1)" using alf.progressD(1) [OF s1(1)] by (simp add: al_ok_def)
    have "Container c \<in> set (nodes g0)" using U(1) n(2) by (metis node_at_def nth_mem)
    then have "has_align g0 u" using ready Some by (auto simp: align_ready_def)
    moreover have u: "u \<in> set (succs (Container c))" using Some by simp
    then have "in_graph g0 u" using U(2) n(2) by (auto simp: al_univ_def)
    ultimately obtain a where a: "type_align (ps_graph s1) u = Inr a"
      using type_align_shape [OF wf sh] by (auto simp: has_align_def)
    let ?n = "Container (c\<lparr>co_align := a\<rparr>)"
    have "settled (ps_graph s1) ?n = Some b" if b: "settled (ps_graph s1) (Container c) = Some b" for b
    proof -
      from b obtain d where d: "deref (ps_graph s1) u = Inr (Class d)" "cl_align d = b" "b \<noteq> 0"
        unfolding settled_iff(3) [OF Some] by blast
      then have "a = b" using a class_align by fastforce
      then show ?thesis using d Some settled_iff(3) [of "c\<lparr>co_align := a\<rparr>" u] by simp
    qed
    note put = al_put [OF s1(1,2), of ?n, simplified, OF this, simplified]
    let ?s = "put_ty t ?n s1"
    have "alf.progress g0 dag height t s ?s" by (rule put(1))
    have node: "node_at (ps_graph ?s) i = ?n" using put_same [of i s1] s1(2) i(1) by simp
    have cert: "align_cert (ps_graph ?s) u a" if dag: dag
    proof -
      obtain b where "align_cert (ps_graph s1) u b" using s1(3) u dag by (auto simp: al_final_def)
      moreover from this have "b = a" using align_cert_align a by fastforce
      ultimately show ?thesis using align_cert_frame put(2) by (simp add: al_frame_def)
    qed
    have self: "align_cert (ps_graph ?s) t a" if dag: dag
    proof -
      obtain d0 where "deref g0 u = Inr (Class d0)"
        using ok dag U(1) n(2) Some unfolding al_ok_def layered_def by metis
      then obtain d where d: "deref (ps_graph s1) u = Inr (Class d)" "cl_align d \<noteq> 0"
        using al_final_class [OF _ _ sh] s1(3) u dag by metis
      moreover from this have "cl_align d = a" using a class_align by fastforce
      moreover have "u \<noteq> t" using d s1(2) by (auto simp: get_ty_def)
      then have "deref (ps_graph ?s) u = Inr (Class d)"
        using d(1) deref_put_cases [of "ps_graph s1" t "Container c"] s1(2) by (simp add: put_ty_def get_ty_def)
      ultimately have "settled (ps_graph ?s) ?n = Some a"
        using settled_iff(3) [of "c\<lparr>co_align := a\<rparr>" u] Some by simp
      then show ?thesis
        using put(3) by (intro align_cert.base [of _ _ ?n]) (simp_all add: get_ty_def)
    qed
    have "node_aligned dag (ps_graph ?s) (node_at g0 i) (node_at (ps_graph ?s) i)"
      using n(2) node cert Some by (auto simp: node_aligned_def)
    then have "al_final g0 dag ?s t" using self i(1) by (auto simp: al_final_def)
    then show ?thesis using put(1) s1 Some a by (simp add: get_container_def)
  qed
  moreover have "spec {} (for_each call (succs (Container c)) s0) (\<lambda>s1. alf.progress g0 dag height t s s1 \<and>
      get_ty t s1 = Inr (Container c) \<and> (\<forall>u \<in> set (succs (Container c)).
        ptr_marked g0 (ps_marks s1) u \<and> (dag \<longrightarrow> al_final g0 dag s1 u)))"
    using al_descend [OF ok i acc p n(1)] n(2) by simp
  ultimately show ?thesis by (simp only:) (rule spec_bindI, assumption, blast)
qed

lemma chain_or_settled: "size_nxt n = None \<Longrightarrow> ctor_of n \<notin> {1, 2, 3} \<Longrightarrow> \<exists>a. settled g n = Some a"
  by (cases n) (simp_all add: settled_def align_body_def deref.simps)

lemma alignmentCalc_other_visit:
  assumes ok: "al_ok g0 dag height s" and i: "t = NodeRef i" "NodeRef i \<in> al_univ g0"
    and acc: "alf.accepts g0 dag height t s call" and p: "alf.progress g0 dag height t s s0"
    and n: "get_ty t s0 = Inr n" "node_at g0 i = n" "ctor_of n \<notin> {1, 2}"
  shows "spec {} (alignmentCalc_visit call t s0) (\<lambda>s'. alf.progress g0 dag height t s s' \<and> al_final g0 dag s' t \<and>
     (\<forall>u \<in> set (succs n). ptr_marked g0 (ps_marks s') u))"
proof -
  have wf: "wf_refs g0" using ok by (simp add: al_ok_def align_ready_def wf_graph_def)
  note U = al_univ_succs [OF wf i(2)]
  have c3: "ctor_of n \<noteq> 3" using wf U(1) n(2) nth_mem by (fastforce simp: wf_refs_def node_at_def)
  have "alignmentCalc_visit call t s0 = for_each call (succs n) s0"
    using n(1,3) by (cases n) (simp_all add: alignmentCalc_visit_def recursive_visit_succs)
  moreover have "al_final g0 dag s1 t"
    if s1: "get_ty t s1 = Inr n" "\<forall>u \<in> set (succs n). dag \<longrightarrow> al_final g0 dag s1 u" for s1
  proof -
    have "node_at (ps_graph s1) i = n"
      using deref_owned [of "ps_graph s1" i n] s1(1) i(1) by (simp add: get_ty_def)
    then have "node_aligned dag (ps_graph s1) (node_at g0 i) (node_at (ps_graph s1) i)"
      using n(2,3) by (cases n) (simp_all add: node_aligned_def)
    moreover have "\<exists>a. align_cert (ps_graph s1) t a" if dag: dag
    proof (cases "size_nxt n")
      case None
      then obtain a where "settled (ps_graph s1) n = Some a"
        using chain_or_settled [of n "ps_graph s1"] n(3) c3 by auto
      then show ?thesis using s1(1) None align_cert.base unfolding get_ty_def by metis
    next
      case (Some u)
      then have "u \<in> set (succs n)" by (cases n) auto
      then obtain a where "align_cert (ps_graph s1) u a" using s1(2) dag by (auto simp: al_final_def)
      then show ?thesis using s1(1) Some align_cert.chain unfolding get_ty_def by metis
    qed
    ultimately show ?thesis using i(1) by (auto simp: al_final_def)
  qed
  ultimately show ?thesis
    using al_descend [OF ok i acc p n(1) n(2) [symmetric]] by (auto elim!: spec_mono)
qed

interpretation al: node_walk ps_graph "\<lambda>s. ptr_marked g0 (ps_marks s)" "\<lambda>t. True"
  "length (nodes g0)" "node_at g0" "al_univ g0" "al_ok g0 dag height" al_frame "edges (\<lambda>n. n) g0"
  "al_final g0 dag" "{}" dag height alignmentCalc_accept for g0 dag height
proof (unfold_locales, goal_cases)
  case (1 s t call)
  then show ?case by (auto simp: alignmentCalc_accept_def accept_with_def ptr_visit_def ptr_marked_def)
next
  case (2 s t call)
  let ?s0 = "s\<lparr>ps_marks := insert t (ps_marks s)\<rparr>"
  have tg: "in_graph g0 t" using 2(2) by (simp add: al_univ_def)
  have new: "t \<notin> ps_marks s" using 2(3) tg by (simp add: ptr_marked_def)
  have p: "alf.progress g0 dag height t s ?s0"
    using 2(1) tg by (intro alf.progress_start) (auto simp: al_ok_def al_frame_def ptr_marked_def)
  have eq: "alignmentCalc_accept call t s = alignmentCalc_visit call t ?s0"
    using new by (simp add: alignmentCalc_accept_def accept_with_def ptr_visit_def)
  show ?case
  proof (cases t)
    case (PrimRef k)
    then have "alignmentCalc_visit call t ?s0 = Inr ?s0"
      by (simp add: alignmentCalc_visit_def get_ty_def recursive_visit_def)
    then show ?thesis using PrimRef p eq tg prim_cert by (simp add: al_final_def edges_def)
  next
    case (NodeRef i)
    have U: "NodeRef i \<in> al_univ g0" "i < length (nodes g0)" using 2(2) NodeRef by (simp_all add: al_univ_def)
    obtain n where n: "node_at g0 i = n" by blast
    have get: "get_ty t ?s0 = Inr n"
      using 2(1,4) NodeRef U(2) n by (simp add: get_ty_def al_ok_def same_shape_def)
    have cov: "edges (\<lambda>n. n) g0 t = succs n" using NodeRef U(2) n by (simp add: edges_def)
    have acc: "alf.accepts g0 dag height t s call" using 2(5) NodeRef by blast
    note visits = alignmentCalc_class_visit [OF 2(1) NodeRef U(1) acc p]
      alignmentCalc_container_visit [OF 2(1) NodeRef U(1) acc p]
      alignmentCalc_other_visit [OF 2(1) NodeRef U(1) acc p]
    show ?thesis
      unfolding eq cov using visits get n
      by (cases "ctor_of n = 1"; cases "ctor_of n = 2") (fastforce simp: ctor_of_iff)+
  qed
qed

section \<open>Properties\<close>

text \<open>The result of the pass over the nodes that are reachable.\<close>

lemma alignmentCalc_run:
  assumes ready: "align_ready g" and dag: "dag \<longrightarrow> layered height g"
  shows "\<exists>g'. alignmentCalc_pass g v = Inr (g', v) \<and> same_shape g g' \<and>
    (\<forall>i < length (nodes g). if NodeRef i \<in> reach (edges (\<lambda>n. n) g) (rootTypes g)
       then node_aligned dag g' (node_at g i) (node_at g' i) else node_at g' i = node_at g i)"
proof -
  let ?s = "\<lparr>ps_marks = {}, ps_graph = g\<rparr>"
  let ?R = "reach (edges (\<lambda>n. n) g) (rootTypes g)"
  have wf: "wf_refs g" using ready by (simp add: align_ready_def wf_graph_def)
  have sub: "?R \<subseteq> al_univ g"
  proof -
    have "?R \<subseteq> {t. in_graph g t}"
    proof (rule reach_least)
      show "set (rootTypes g) \<subseteq> {t. in_graph g t}" using wf by (auto simp: wf_refs_def)
      fix t assume "t \<in> {t. in_graph g t}"
      then show "set (edges (\<lambda>n. n) g t) \<subseteq> {t. in_graph g t}"
        using wf_refsD [OF wf] succs_subset_refs by (cases t) (fastforce simp: edges_def)+
    qed
    then show ?thesis by (auto simp: al_univ_def)
  qed
  have "spec {} (walk_roots alignmentCalc_accept {} g) (\<lambda>s'. al_ok g dag height s' \<and> al_frame ?s s' \<and>
     (\<forall>i < length (nodes g). ptr_marked g (ps_marks s') (NodeRef i) \<longleftrightarrow> True \<and> NodeRef i \<in> ?R) \<and>
     (\<forall>i < length (nodes g). if True \<and> NodeRef i \<in> ?R then al_final g dag s' (NodeRef i)
        else node_at (ps_graph s') i = node_at g i))"
    unfolding walk_roots_def
    by (rule al.run_reach)
      (use ready dag sub in \<open>auto simp: al_ok_def ptr_marked_def chain_depth_def al_univ_def edges_def\<close>)
  then obtain s' where s': "walk_roots alignmentCalc_accept {} g = Inr s'" "al_ok g dag height s'"
    "\<forall>i < length (nodes g). if NodeRef i \<in> ?R then al_final g dag s' (NodeRef i)
        else node_at (ps_graph s') i = node_at g i"
    by (auto simp: spec_empty_iff)
  then have "\<forall>i < length (nodes g). if NodeRef i \<in> ?R
      then node_aligned dag (ps_graph s') (node_at g i) (node_at (ps_graph s') i)
      else node_at (ps_graph s') i = node_at g i"
    unfolding al_final_def by metis
  then show ?thesis
    using s'(1,2) by (auto simp: alignmentCalc_pass_def pointer_pass_def al_ok_def)
qed

lemma alignmentCalc_contract:
  assumes "align_ready g"
  shows "\<exists>g'. alignmentCalc_pass g v = Inr (g', v) \<and> wf_graph g' \<and> same_shape g g' \<and>
    (\<forall>i < length (nodes g). if NodeRef i \<in> reach (edges (\<lambda>n. n) g) (rootTypes g)
       then node_aligned False g' (node_at g i) (node_at g' i) else node_at g' i = node_at g i)"
proof -
  have "wf_graph g" using assms by (simp add: align_ready_def)
  then show ?thesis
    using alignmentCalc_run [OF assms, of False "\<lambda>t. 0" v] same_shape_wf by blast
qed

text \<open>
  C16: for every well-formed graph whose members have types with an alignment, cyclic or not, the pass
  returns, changes nothing but alignments and \<^verbatim>\<open>packed\<close> flags, and lays out every class it reaches:
  explicit alignments stay, the class gets the largest alignment of its members, and it is packed
  exactly when a member is misplaced, the alignment is 1, or the size is no multiple of it.
\<close>

theorem alignmentCalc_pass_result:
  assumes "align_ready g"
  shows "\<exists>g'. alignmentCalc_pass g v = Inr (g', v) \<and> wf_graph g' \<and> same_shape g g' \<and>
    (\<forall>i < length (nodes g). if NodeRef i \<in> reach (edges (\<lambda>n. n) g) (rootTypes g)
       then node_aligned False g' (node_at g i) (node_at g' i) else node_at g' i = node_at g i)"
  using assms by (rule alignmentCalc_contract)

text \<open>
  C27: on a graph without cycles the alignment recorded for each member without an explicit one is
  that of its type in the resulting graph, and a container has the alignment of its underlying class.
\<close>

theorem alignmentCalc_acyclic:
  assumes "align_ready g" and "layered height g"
  shows "\<exists>g'. alignmentCalc_pass g v = Inr (g', v) \<and>
    (\<forall>i < length (nodes g). NodeRef i \<in> reach (edges (\<lambda>n. n) g) (rootTypes g) \<longrightarrow>
      (\<forall>c. node_at g i = Class c \<and> cl_align c = 0 \<longrightarrow> (\<exists>c'. node_at g' i = Class c' \<and>
         length (cl_members c') = length (cl_members c) \<and>
         (\<forall>j < length (cl_members c). m_align (cl_members c ! j) = 0 \<longrightarrow>
            type_align g' (m_type (cl_members c ! j)) = Inr (m_align (cl_members c' ! j))))) \<and>
      (\<forall>c u. node_at g i = Container c \<and> co_underlying c = Some u \<longrightarrow>
         (\<exists>a. node_at g' i = Container (c\<lparr>co_align := a\<rparr>) \<and> type_align g' u = Inr a)))"
proof -
  obtain g' where g': "alignmentCalc_pass g v = Inr (g', v)"
    "\<And>i. i < length (nodes g) \<Longrightarrow> NodeRef i \<in> reach (edges (\<lambda>n. n) g) (rootTypes g) \<Longrightarrow>
       node_aligned True g' (node_at g i) (node_at g' i)"
    using alignmentCalc_run [OF assms(1), of True height v] assms(2) by metis
  have cls: "\<exists>c'. n' = Class c' \<and> length (cl_members c') = length (cl_members c) \<and>
      (\<forall>j < length (cl_members c). m_align (cl_members c ! j) = 0 \<longrightarrow>
         type_align g' (m_type (cl_members c ! j)) = Inr (m_align (cl_members c' ! j)))"
    if n: "node_aligned True g' (Class c) n'" "cl_align c = 0" for c n'
  proof -
    obtain c' where c': "n' = Class c'" "laid_out c c'" "members_aligned g' c c' (length (cl_members c))"
      using n by (auto simp: node_aligned_def)
    moreover have "length (cl_members c') = length (cl_members c)"
      using c'(2) unfolding laid_out_def by (intro strip_class_fields(3)) blast
    moreover have "\<forall>j < length (cl_members c). m_align (cl_members c ! j) = 0 \<longrightarrow>
         type_align g' (m_type (cl_members c ! j)) = Inr (m_align (cl_members c' ! j))"
      using c'(3) align_cert_align unfolding members_aligned_def by blast
    ultimately show ?thesis by blast
  qed
  have con: "\<exists>a. n' = Container (c\<lparr>co_align := a\<rparr>) \<and> type_align g' u = Inr a"
    if "node_aligned True g' (Container c) n'" "co_underlying c = Some u" for c u n'
    using that align_cert_align by (auto simp: node_aligned_def)
  show ?thesis
  proof (intro exI [of _ g'] conjI allI impI; (elim conjE)?)
    fix i c assume i: "i < length (nodes g)" "NodeRef i \<in> reach (edges (\<lambda>n. n) g) (rootTypes g)"
    note n = g'(2) [OF this]
    show "node_at g i = Class c \<Longrightarrow> cl_align c = 0 \<Longrightarrow> \<exists>c'. node_at g' i = Class c' \<and>
         length (cl_members c') = length (cl_members c) \<and>
         (\<forall>j < length (cl_members c). m_align (cl_members c ! j) = 0 \<longrightarrow>
            type_align g' (m_type (cl_members c ! j)) = Inr (m_align (cl_members c' ! j)))"
      using cls n by simp
    fix c u show "node_at g i = Container c \<Longrightarrow> co_underlying c = Some u \<Longrightarrow>
        \<exists>a. node_at g' i = Container (c\<lparr>co_align := a\<rparr>) \<and> type_align g' u = Inr a"
      using con n by simp
  qed (rule g'(1))
qed

text \<open>A struct with a byte before a struct that holds a \<^verbatim>\<open>double\<close> and a pointer.\<close>

definition align_example :: type_graph where
  "align_example = \<lparr>nodes = [
     Class ((mk_class KStruct ''A'' ''A'' 24 0 0)\<lparr>cl_members :=
       [mk_member (PrimRef Int8) ''c'' 0 0, mk_member (NodeRef 1) ''b'' 64 0]\<rparr>),
     Class ((mk_class KStruct ''B'' ''B'' 16 0 1)\<lparr>cl_members :=
       [mk_member (PrimRef Float64) ''d'' 0 0, mk_member (NodeRef 2) ''p'' 64 0]\<rparr>),
     Pointer \<lparr>pt_id = 2, pt_pointee = PrimRef Void, pt_inputName = '''', pt_name = ''void*''\<rparr>],
   rootTypes = [NodeRef 0], finalTypes = [], next_id = 3\<rparr>"

lemma align_readyI:
  assumes "wf_check g" "list_all (\<lambda>n. case n of
      Class c \<Rightarrow> list_all (\<lambda>m. case type_align g (m_type m) of Inl e \<Rightarrow> False | Inr a \<Rightarrow> True) (cl_members c)
    | Container c \<Rightarrow> (case co_underlying c of None \<Rightarrow> True
        | Some u \<Rightarrow> (case type_align g u of Inl e \<Rightarrow> False | Inr a \<Rightarrow> True))
    | _ \<Rightarrow> True) (nodes g)"
  shows "align_ready g"
proof -
  have "(\<forall>c. n = Class c \<longrightarrow> (\<forall>m \<in> set (cl_members c). has_align g (m_type m))) \<and>
     (\<forall>c u. n = Container c \<longrightarrow> co_underlying c = Some u \<longrightarrow> has_align g u)" if "n \<in> set (nodes g)" for n
    using bspec [OF assms(2) [unfolded list_all_iff [of _ "nodes g"]] that]
    by (auto simp: list_all_iff has_align_def split: sum.splits) (metis sum.exhaust)+
  then show ?thesis using wf_checkD [OF assms(1)] by (simp add: align_ready_def)
qed

lemma align_example_ready: "align_ready align_example"
  by (rule align_readyI) code_simp+

theorem alignmentCalc_pass_result_witness:
  "\<exists>g'. alignmentCalc_pass align_example [] = Inr (g', []) \<and> same_shape align_example g' \<and>
     node_aligned False g' (node_at align_example 0) (node_at g' 0)"
proof -
  have "NodeRef 0 \<in> reach (edges (\<lambda>n. n) align_example) (rootTypes align_example)"
    "0 < length (nodes align_example)"
    by (auto simp: align_example_def intro: reach.root)
  then show ?thesis using alignmentCalc_pass_result [OF align_example_ready, of "[]"] by metis
qed

definition align_heights :: "tref \<Rightarrow> nat" where
  "align_heights t = (case t of PrimRef k \<Rightarrow> 0 | NodeRef i \<Rightarrow> 3 - i)"

lemma layeredI:
  assumes "list_all (\<lambda>i. list_all (\<lambda>u. height u < height (NodeRef i)) (succs (node_at g i)) \<and>
     (case node_at g i of Container c \<Rightarrow> (case co_underlying c of None \<Rightarrow> True
        | Some u \<Rightarrow> (case deref g u of Inl e \<Rightarrow> False | Inr n \<Rightarrow> ctor_of n = 1)) | _ \<Rightarrow> True))
     [0..<length (nodes g)]"
  shows "layered height g"
proof -
  have "(\<forall>u \<in> set (succs (node_at g i)). height u < height (NodeRef i)) \<and>
     (\<forall>c u. node_at g i = Container c \<longrightarrow> co_underlying c = Some u \<longrightarrow> (\<exists>d. deref g u = Inr (Class d)))"
    if "i < length (nodes g)" for i
  proof -
    have "i \<in> set [0..<length (nodes g)]" using that by simp
    note check = bspec [OF assms [unfolded list_all_iff [of _ "[0..<length (nodes g)]"]] this]
    then show ?thesis by (auto simp: list_all_iff ctor_of_iff split: sum.splits) (metis One_nat_def ctor_of_iff(1) sum.exhaust)
  qed
  then show ?thesis by (simp add: layered_def)
qed

theorem alignmentCalc_acyclic_witness:
  "\<exists>g' c'. alignmentCalc_pass align_example [] = Inr (g', []) \<and> node_at g' 0 = Class c' \<and>
     type_align g' (NodeRef 1) = Inr (m_align (cl_members c' ! 1))"
proof -
  have l: "layered align_heights align_example" by (rule layeredI) code_simp
  have 0: "NodeRef 0 \<in> reach (edges (\<lambda>n. n) align_example) (rootTypes align_example)"
    "0 < length (nodes align_example)"
    by (auto simp: align_example_def intro: reach.root)
  let ?c = "(mk_class KStruct ''A'' ''A'' 24 0 0)\<lparr>cl_members :=
       [mk_member (PrimRef Int8) ''c'' 0 0, mk_member (NodeRef 1) ''b'' 64 0]\<rparr>"
  have c: "node_at align_example 0 = Class ?c" by (simp add: align_example_def node_at_def)
  have z: "cl_align ?c = 0" "m_align (cl_members ?c ! 1) = 0" "m_type (cl_members ?c ! 1) = NodeRef 1"
    "1 < length (cl_members ?c)" by (simp_all add: mk_class_def mk_member_def)
  show ?thesis using alignmentCalc_acyclic [OF align_example_ready l, of "[]"] 0 c z by metis
qed

definition align_cycle :: type_graph where
  "align_cycle = \<lparr>nodes = [
     Class ((mk_class KStruct ''B'' ''B'' 16 0 0)\<lparr>cl_members :=
       [mk_member (NodeRef 1) ''a'' 0 0, mk_member (PrimRef Float64) ''d'' 64 0]\<rparr>),
     Pointer \<lparr>pt_id = 1, pt_pointee = NodeRef 2, pt_inputName = '''', pt_name = ''A*''\<rparr>,
     Class ((mk_class KStruct ''A'' ''A'' 16 0 2)\<lparr>cl_members := [mk_member (NodeRef 0) ''b'' 0 0]\<rparr>)],
   rootTypes = [NodeRef 0], finalTypes = [], next_id = 3\<rparr>"

text \<open>
  With a cycle of pointers the recorded alignment can be wrong: of \<^verbatim>\<open>struct B { A *a; double d; }\<close>
  and \<^verbatim>\<open>struct A { B b; }\<close>, with \<^verbatim>\<open>B\<close> as the root, \<^verbatim>\<open>A\<close> reads the alignment of \<^verbatim>\<open>B\<close> while \<^verbatim>\<open>B\<close> is still
  being visited. It records 0, so that \<^verbatim>\<open>A\<close> gets alignment 1 and is packed, whereas \<^verbatim>\<open>B\<close> gets 8.
\<close>

lemma cycle_example_aligned:
  "case alignmentCalc_pass align_cycle [] of Inl e \<Rightarrow> False | Inr (g, v) \<Rightarrow>
     (case (node_at g 0, node_at g 2) of (Class b, Class a) \<Rightarrow> cl_align b = 8 \<and> \<not> cl_packed b \<and>
        cl_align a = 1 \<and> cl_packed a | _ \<Rightarrow> False)"
  by code_simp

end
