(* ===== verification/NameGen.thy ===== *)
theory NameGen
  imports MapPass
begin

text \<open>
  \<^verbatim>\<open>oi/type_graph/NameGen.cpp\<close>: the pass that gives the types of a graph the names the generated code
  uses, and shows that the names it makes up are unique.
\<close>

section \<open>The pass\<close>

text \<open>\<^verbatim>\<open>n\<close> is an \<^verbatim>\<open>int\<close>: its increment may not go past the largest value.\<close>

record naming =
  ng_visited :: "tref set"
  ng_graph :: type_graph
  ng_n :: int

type_synonym naming_walker = "(tref, naming, naming) call"

definition ng_put :: "tref \<Rightarrow> ty \<Rightarrow> naming \<Rightarrow> naming" where
  "ng_put t n s = s\<lparr>ng_graph := put_node t n (ng_graph s)\<rparr>"

definition AnonPrefix :: string where
  "AnonPrefix = ''__oi_anon''"

definition removeTemplateParams :: "string \<Rightarrow> string" where
  "removeTemplateParams name = takeWhile (\<lambda>c. c \<noteq> CHR ''<'') name"

definition deduplicate :: "string \<Rightarrow> int \<Rightarrow> (string \<times> int) outcome" where
  "deduplicate name n =
     (if n = 2 ^ 31 - 1 then Inl (Undefined ''signed overflow'')
      else Inr ((if name = '''' then AnonPrefix else name) @ ''_'' @ dec_int n, n + 1))"

definition name_member :: "nat \<Rightarrow> member \<Rightarrow> member" where
  "name_member i m =
     (let name = (if m_name m = '''' then AnonPrefix else m_name m) @ ''_'' @ dec i in
      m\<lparr>m_name := map (\<lambda>c. if c = CHR ''.'' then CHR ''$'' else c) name,
        m_inputName := (if m_inputName m = '''' then name else m_inputName m)\<rparr>)"

definition name_members :: "member list \<Rightarrow> member list" where
  "name_members ms = map (\<lambda>(i, m). name_member i m) (List.enumerate 0 ms)"

definition name_class :: "class_node \<Rightarrow> int \<Rightarrow> (class_node \<times> int) outcome" where
  "name_class c n = bindE (deduplicate (removeTemplateParams (cl_name c)) n) (\<lambda>(name, n).
     Inr (c\<lparr>cl_name := name, cl_inputName := (if cl_name c = '''' then name else cl_inputName c),
       cl_members := name_members (cl_members c)\<rparr>, n))"

definition name_enum :: "enum_node \<Rightarrow> int \<Rightarrow> (enum_node \<times> int) outcome" where
  "name_enum e n = bindE (deduplicate (en_name e) n) (\<lambda>(name, n).
     Inr (e\<lparr>en_name := name, en_inputName := (if en_name e = '''' then name else en_inputName e)\<rparr>, n))"

definition name_typedef :: "typedef_node \<Rightarrow> int \<Rightarrow> (typedef_node \<times> int) outcome" where
  "name_typedef td n = bindE (deduplicate (removeTemplateParams (td_name td)) n) (\<lambda>(name, n).
     Inr (td\<lparr>td_name := name\<rparr>, n))"

definition param_names :: "type_graph \<Rightarrow> template_param \<Rightarrow> (string \<times> string) outcome" where
  "param_names g p = (case tp_value p of
      Some v \<Rightarrow> Inr (v, v)
    | None \<Rightarrow> bindE (type_name g (tp_type p)) (\<lambda>name. bindE (type_inputName g (tp_type p)) (\<lambda>inputName.
        let suffix = (if Const \<in> tp_qualifiers p then '' const'' else '''') in
        Inr (name @ suffix, inputName @ suffix))))"

fun params_names :: "type_graph \<Rightarrow> bool \<Rightarrow> template_param list \<Rightarrow> (string \<times> string) outcome" where
  "params_names g first [] = Inr ('''', '''')"
| "params_names g first (p # ps) =
     bindE (param_names g p) (\<lambda>(name, inputName).
     bindE (params_names g False ps) (\<lambda>(names, inputNames).
     let sep = (if first then '''' else '', '') in
     Inr (sep @ name @ names, sep @ inputName @ inputNames)))"

definition name_container :: "type_graph \<Rightarrow> container_node \<Rightarrow> container_node outcome" where
  "name_container g c = bindE (params_names g True (co_templateParams c)) (\<lambda>(names, inputNames).
     Inr (c\<lparr>co_name := removeTemplateParams (co_name c) @ ''<'' @ names @ ''>'',
       co_inputName := removeTemplateParams (co_inputName c) @ ''<'' @ inputNames @ ''>''\<rparr>))"

definition name_array :: "type_graph \<Rightarrow> array_node \<Rightarrow> array_node outcome" where
  "name_array g a = bindE (array_name g (ar_elementType a) (ar_len a)) (\<lambda>name.
     bindE (type_inputName g (ar_elementType a)) (\<lambda>inputName.
     Inr (a\<lparr>ar_name := name, ar_inputName := inputName @ ''['' @ dec_u64 (ar_len a) @ '']''\<rparr>)))"

definition name_pointer :: "type_graph \<Rightarrow> pointer_node \<Rightarrow> pointer_node outcome" where
  "name_pointer g p = bindE (pointer_name g (pt_pointee p)) (\<lambda>name.
     bindE (type_inputName g (pt_pointee p)) (\<lambda>inputName.
     Inr (p\<lparr>pt_name := name, pt_inputName := inputName @ ''*''\<rparr>)))"

definition name_reference :: "type_graph \<Rightarrow> reference_node \<Rightarrow> reference_node outcome" where
  "name_reference g r = bindE (pointer_name g (rf_pointee r)) (\<lambda>name.
     bindE (type_inputName g (rf_pointee r)) (\<lambda>inputName.
     Inr (r\<lparr>rf_name := name, rf_inputName := inputName @ ''&''\<rparr>)))"

definition is_alnum :: "char \<Rightarrow> bool" where
  "is_alnum c = (let k = of_char c :: nat in
     48 \<le> k \<and> k \<le> 57 \<or> 65 \<le> k \<and> k \<le> 90 \<or> 97 \<le> k \<and> k \<le> 122)"

definition incomplete_name :: "string \<Rightarrow> string" where
  "incomplete_name inputName =
     ''Incomplete<struct '' @ map (\<lambda>c. if is_alnum c then c else CHR ''_'') inputName @ ''>''"

text \<open>The name of the node of \<open>t\<close>, where it depends on the names of the types it holds.\<close>

definition name_late :: "type_graph \<Rightarrow> tref \<Rightarrow> ty \<Rightarrow> ty outcome" where
  "name_late g t n = (case n of
      Container c \<Rightarrow> if co_templateParams c = [] then Inr n else bindE (name_container g c) (\<lambda>c. Inr (Container c))
    | Array a \<Rightarrow> bindE (name_array g a) (\<lambda>a. Inr (Array a))
    | Pointer p \<Rightarrow> bindE (name_pointer g p) (\<lambda>p. Inr (Pointer p))
    | Reference r \<Rightarrow> bindE (name_reference g r) (\<lambda>r. Inr (Reference r))
    | DummyAllocator d \<Rightarrow> bindE (dummy_allocator_name g (da_type d) (da_size d) (da_align d) (da_id d))
        (\<lambda>name. Inr (DummyAllocator (d\<lparr>da_name := name\<rparr>)))
    | CaptureKeys c \<Rightarrow> bindE (capture_keys_name g (ck_underlying c)) (\<lambda>name. Inr (CaptureKeys (c\<lparr>ck_name := name\<rparr>)))
    | Incomplete i \<Rightarrow> bindE (type_inputName g t) (\<lambda>inputName. Inr (Incomplete (i\<lparr>in_name := incomplete_name inputName\<rparr>)))
    | _ \<Rightarrow> Inr n)"

definition finish_name :: "tref \<Rightarrow> naming \<Rightarrow> naming outcome" where
  "finish_name t s = bindE (deref (ng_graph s) t) (\<lambda>n.
     bindE (name_late (ng_graph s) t n) (\<lambda>n. Inr (ng_put t n s)))"

definition nameGen_visit :: "naming_walker \<Rightarrow> naming_walker" where
  "nameGen_visit accept t s = bindE (deref (ng_graph s) t) (\<lambda>n. case n of
      Class c \<Rightarrow> bindE (name_class c (ng_n s)) (\<lambda>(c, k).
        let s = (ng_put t (Class c) s)\<lparr>ng_n := k\<rparr> in
        bindE (for_each (\<lambda>p. accept (tp_type p)) (cl_templateParams c) s) (\<lambda>s.
        bindE (for_each (\<lambda>p. accept (p_type p)) (cl_parents c) s) (\<lambda>s.
        bindE (for_each (\<lambda>m. accept (m_type m)) (cl_members c) s) (\<lambda>s.
        for_each accept (cl_children c) s))))
    | Container c \<Rightarrow>
        if co_templateParams c = [] then Inr s
        else bindE (for_each (\<lambda>p. accept (tp_type p)) (co_templateParams c) s) (finish_name t)
    | Enum e \<Rightarrow> bindE (name_enum e (ng_n s)) (\<lambda>(e, k). Inr ((ng_put t (Enum e) s)\<lparr>ng_n := k\<rparr>))
    | Typedef td \<Rightarrow> bindE (name_typedef td (ng_n s)) (\<lambda>(td, k).
        accept (td_underlying td) ((ng_put t (Typedef td) s)\<lparr>ng_n := k\<rparr>))
    | _ \<Rightarrow> bindE (recursive_visit accept n s) (finish_name t))"

definition nameGen_accept :: "naming_walker \<Rightarrow> naming_walker" where
  "nameGen_accept accept t s =
     (if t \<in> ng_visited s then Inr s
      else nameGen_visit accept t (s\<lparr>ng_visited := insert t (ng_visited s)\<rparr>))"

definition nameGen_pass :: pass_fn where
  "nameGen_pass g v =
     bindE (for_each (recur nameGen_accept (chain_depth g)) (rootTypes g)
       \<lparr>ng_visited = {}, ng_graph = g, ng_n = 0\<rparr>) (\<lambda>s. Inr (ng_graph s, v))"

section \<open>Only names change\<close>

fun strip_names :: "ty \<Rightarrow> ty" where
  "strip_names (Incomplete i) = Incomplete (i\<lparr>in_name := ''''\<rparr>)"
| "strip_names (Class c) = Class (c\<lparr>cl_name := '''', cl_inputName := '''',
     cl_members := map (\<lambda>m. m\<lparr>m_name := '''', m_inputName := ''''\<rparr>) (cl_members c)\<rparr>)"
| "strip_names (Container c) = Container (c\<lparr>co_name := '''', co_inputName := ''''\<rparr>)"
| "strip_names (Primitive k) = Primitive k"
| "strip_names (Enum e) = Enum (e\<lparr>en_name := '''', en_inputName := ''''\<rparr>)"
| "strip_names (Array a) = Array (a\<lparr>ar_name := '''', ar_inputName := ''''\<rparr>)"
| "strip_names (Typedef td) = Typedef (td\<lparr>td_name := ''''\<rparr>)"
| "strip_names (Pointer p) = Pointer (p\<lparr>pt_name := '''', pt_inputName := ''''\<rparr>)"
| "strip_names (Reference r) = Reference (r\<lparr>rf_name := '''', rf_inputName := ''''\<rparr>)"
| "strip_names (Dummy d) = Dummy d"
| "strip_names (DummyAllocator d) = DummyAllocator (d\<lparr>da_name := ''''\<rparr>)"
| "strip_names (CaptureKeys c) = CaptureKeys (c\<lparr>ck_name := ''''\<rparr>)"

lemma strip_names_keeps [simp]:
  "ctor_of (strip_names n) = ctor_of n" "succs (strip_names n) = succs n" "refs (strip_names n) = refs n"
  "type_id (strip_names n) = type_id n" "inputName_nxt (strip_names n) = inputName_nxt n"
  by (cases n; simp add: comp_def)+

lemma strip_names_same:
  assumes "strip_names n' = strip_names n"
  shows "ctor_of n' = ctor_of n" "succs n' = succs n" "refs n' = refs n" "type_id n' = type_id n"
    "inputName_nxt n' = inputName_nxt n"
  using strip_names_keeps assms by metis+

definition names_only :: "type_graph \<Rightarrow> type_graph \<Rightarrow> bool" where
  "names_only g g' \<longleftrightarrow> length (nodes g') = length (nodes g) \<and> rootTypes g' = rootTypes g \<and>
     finalTypes g' = finalTypes g \<and> next_id g' = next_id g \<and>
     (\<forall>i < length (nodes g). strip_names (node_at g' i) = strip_names (node_at g i))"

lemma names_only_refl [simp]: "names_only g g"
  by (simp add: names_only_def)

lemma names_only_in_graph: "names_only g g' \<Longrightarrow> in_graph g' t = in_graph g t"
  by (cases t) (auto simp: names_only_def)

lemma names_only_put:
  assumes "names_only g g'" and "deref g' t = Inr n" and "strip_names n' = strip_names n"
  shows "names_only g (put_node t n' g')"
proof (cases t)
  case (NodeRef i)
  note own = deref_owned [OF assms(2) [unfolded NodeRef]]
  show ?thesis using assms(1,3) own NodeRef by (auto simp: names_only_def)
qed (use assms in simp)

lemma names_only_wf_refs:
  assumes "names_only g g'" and "wf_refs g"
  shows "wf_refs g'"
proof -
  have "(\<forall>u \<in> set (refs n). in_graph g' u) \<and> ctor_of n \<noteq> 3" if n: "n \<in> set (nodes g')" for n
  proof -
    obtain i where i: "i < length (nodes g)" "n = node_at g' i"
      using n assms(1) unfolding in_set_conv_nth node_at_def names_only_def by metis
    then have s: "strip_names n = strip_names (node_at g i)" using assms(1) by (simp add: names_only_def)
    have "(\<forall>u \<in> set (refs (node_at g i)). in_graph g u) \<and> ctor_of (node_at g i) \<noteq> 3"
      using assms(2) i(1) nth_mem unfolding wf_refs_def node_at_def by blast
    then show ?thesis using strip_names_same(1,3) [OF s] names_only_in_graph [OF assms(1)] by simp
  qed
  then show ?thesis
    using assms names_only_in_graph [OF assms(1)] by (auto simp: wf_refs_def names_only_def)
qed

text \<open>The chains that \<^verbatim>\<open>inputName\<close> follows do not depend on names.\<close>

definition names_end :: "type_graph \<Rightarrow> bool" where
  "names_end g \<longleftrightarrow> (\<forall>t. in_graph g t \<longrightarrow> type_inputName g t \<noteq> Inl Diverge)"

lemma names_only_follow:
  assumes "names_only g g'"
  shows "nm.follow g' k t = nm.follow g k t"
proof -
  have nxt: "nxt_ref inputName_nxt g' t = nxt_ref inputName_nxt g t" for t
  proof (cases t)
    case (NodeRef i)
    show ?thesis
    proof (cases "i < length (nodes g)")
      case True
      then show ?thesis
        using assms NodeRef strip_names_same(5) [of "node_at g' i" "node_at g i"]
        by (simp add: nxt_ref_def names_only_def)
    next
      case False
      then show ?thesis using assms NodeRef by (simp add: nxt_ref_def names_only_def deref.simps)
    qed
  qed (simp add: nxt_ref_def)
  show ?thesis
  proof (induction k arbitrary: t)
    case (Suc k)
    then have "nm.follow g' k = nm.follow g k" by blast
    then show ?case by (simp add: nxt)
  qed simp
qed

lemma inputName_ok_upto:
  assumes "wf_refs g"
  shows "in_graph g t \<Longrightarrow> recur inputName_body k t g \<noteq> Inl Diverge \<Longrightarrow>
    \<exists>s. recur inputName_body k t g = Inr s"
proof (induction k arbitrary: t)
  case (Suc k)
  show ?case
  proof (cases t)
    case (PrimRef p)
    then show ?thesis using Suc.prems(1) by (cases p) (simp_all add: inputName_body_def prim_inputName_def)
  next
    case (NodeRef i)
    then have i: "i < length (nodes g)" using Suc.prems(1) by simp
    let ?n = "node_at g i"
    have d: "deref g t = Inr ?n" using i NodeRef by simp
    have in_g: "in_graph g u" if "u \<in> set (refs ?n)" for u using wf_refsD [OF assms i that] .
    have "ctor_of ?n \<noteq> 3" using assms i nth_mem unfolding wf_refs_def node_at_def by blast
    then show ?thesis
      using d Suc.prems(2) in_g Suc.IH
      by (cases ?n) (auto simp: inputName_body_def split: sum.splits)
  qed
qed simp

lemma type_inputName_ok:
  assumes "wf_refs g" and "names_end g" and "names_only g g'" and "in_graph g t"
  shows "\<exists>s. type_inputName g' t = Inr s"
proof -
  have "type_inputName g t \<noteq> Inl Diverge" using assms(2,4) by (simp add: names_end_def)
  moreover have "chain_depth g' = chain_depth g" using assms(3) by (simp add: chain_depth_def names_only_def)
  ultimately have "recur inputName_body (chain_depth g') t g' \<noteq> Inl Diverge"
    using names_only_follow [OF assms(3)] by (simp add: type_inputName_def nm.recur_diverges)
  then show ?thesis
    unfolding type_inputName_def
    using inputName_ok_upto names_only_wf_refs assms names_only_in_graph by blast
qed

lemma names_only_type_name: "wf_refs g \<Longrightarrow> names_only g g' \<Longrightarrow> in_graph g t \<Longrightarrow> \<exists>s. type_name g' t = Inr s"
  using type_name_ok names_only_wf_refs names_only_in_graph by blast

text \<open>A late name can always be made, and changes only names.\<close>

lemma name_late_ok:
  assumes wf: "wf_refs g" "names_end g" "names_only g g'" and t: "in_graph g t"
    and n: "\<forall>u \<in> set (refs n). in_graph g u"
  shows "\<exists>n'. name_late g' t n = Inr n' \<and> strip_names n' = strip_names n"
proof -
  note names = names_only_type_name [OF wf(1,3)] and inputs = type_inputName_ok [OF wf]
  have params: "\<exists>x. params_names g' first ps = Inr x" if "\<forall>p \<in> set ps. in_graph g (tp_type p)" for first ps
    using that
  proof (induction ps arbitrary: first)
    case (Cons p ps)
    obtain a b where "type_name g' (tp_type p) = Inr a" "type_inputName g' (tp_type p) = Inr b"
      using names inputs Cons.prems by fastforce
    then obtain x where "param_names g' p = Inr x" by (cases "tp_value p") (auto simp: param_names_def Let_def)
    moreover obtain y where "params_names g' False ps = Inr y" using Cons by fastforce
    ultimately show ?case by (cases x; cases y) simp
  qed simp
  show ?thesis
  proof (cases n)
    case (Container c)
    then have "\<forall>p \<in> set (co_templateParams c). in_graph g (tp_type p)" using n by auto
    from params [OF this] obtain x where "params_names g' True (co_templateParams c) = Inr x" by blast
    then show ?thesis using Container by (cases x) (simp add: name_late_def name_container_def)
  next
    case (Incomplete i)
    then show ?thesis using inputs [OF t] by (auto simp: name_late_def)
  next
    case (Array a)
    then show ?thesis using names [of "ar_elementType a"] inputs [of "ar_elementType a"] n
      by (auto simp: name_late_def name_array_def array_name_def)
  next
    case (Pointer p)
    then show ?thesis using names [of "pt_pointee p"] inputs [of "pt_pointee p"] n
      by (auto simp: name_late_def name_pointer_def pointer_name_def)
  next
    case (Reference r)
    then show ?thesis using names [of "rf_pointee r"] inputs [of "rf_pointee r"] n
      by (auto simp: name_late_def name_reference_def pointer_name_def)
  next
    case (DummyAllocator d)
    then show ?thesis using names [of "da_type d"] n
      by (auto simp: name_late_def dummy_allocator_name_def)
  next
    case (CaptureKeys c)
    then show ?thesis using names [of "ck_underlying c"] n
      by (auto simp: name_late_def capture_keys_name_def)
  qed (simp_all add: name_late_def)
qed

section \<open>The numbers of the names\<close>

text \<open>What follows the last underscore of a name, as a number.\<close>

definition name_number :: "string \<Rightarrow> nat" where
  "name_number s = undec (rev (takeWhile (\<lambda>c. c \<noteq> CHR ''_'') (rev s)))"

lemma digit_not_underscore: "is_digit c \<Longrightarrow> c \<noteq> CHR ''_''" "is_digit c \<Longrightarrow> c \<noteq> CHR ''.''"
  by (auto simp: is_digit_def)

lemma name_number_dec [simp]: "name_number (s @ CHR ''_'' # dec k) = k"
proof -
  have "takeWhile (\<lambda>c. c \<noteq> CHR ''_'') (rev (dec k) @ CHR ''_'' # rev s) = rev (dec k)"
    using dec_digits digit_not_underscore by (subst takeWhile_append2) auto
  then show ?thesis by (simp only: name_number_def rev_append rev.simps append_assoc append.simps rev_rev_ident undec_dec)
qed

lemma dots_dec: "map (\<lambda>c. if c = CHR ''.'' then CHR ''$'' else c) (dec k) = dec k"
  using dec_digits digit_not_underscore by (intro map_idI) auto

lemma name_member_number [simp]: "name_number (m_name (name_member i m)) = i"
  by (simp add: name_member_def Let_def dots_dec)

lemma name_members_distinct: "distinct (map m_name (name_members ms))"
proof -
  have "map name_number (map m_name (name_members ms)) = [0..<length ms]"
    by (rule nth_equalityI) (simp_all add: name_members_def nth_enumerate_eq)
  then show ?thesis by (metis distinct_map distinct_upt)
qed

lemma name_members_strip:
  "map (\<lambda>m. m\<lparr>m_name := '''', m_inputName := ''''\<rparr>) (name_members ms) =
   map (\<lambda>m. m\<lparr>m_name := '''', m_inputName := ''''\<rparr>) ms"
  by (rule nth_equalityI) (simp_all add: name_members_def nth_enumerate_eq name_member_def Let_def)

lemma deduplicate_number:
  assumes "0 \<le> n" and "n < 2 ^ 31 - 1"
  shows "\<exists>name. deduplicate s n = Inr (name, n + 1) \<and> name_number name = nat n"
  using assms by (simp add: deduplicate_def dec_int_def)

text \<open>The types that get a number, and what a visit does with one before it accepts others.\<close>

fun numbered_name :: "ty \<Rightarrow> string option" where
  "numbered_name (Class c) = Some (cl_name c)"
| "numbered_name (Enum e) = Some (en_name e)"
| "numbered_name (Typedef td) = Some (td_name td)"
| "numbered_name n = None"

definition name_early :: "ty \<Rightarrow> int \<Rightarrow> (ty \<times> int) outcome" where
  "name_early n k = (case n of
      Class c \<Rightarrow> bindE (name_class c k) (\<lambda>(c, k). Inr (Class c, k))
    | Enum e \<Rightarrow> bindE (name_enum e k) (\<lambda>(e, k). Inr (Enum e, k))
    | Typedef td \<Rightarrow> bindE (name_typedef td k) (\<lambda>(td, k). Inr (Typedef td, k))
    | _ \<Rightarrow> Inr (n, k))"

definition naming_accepts :: "ty \<Rightarrow> tref list" where
  "naming_accepts n = (case n of Container c \<Rightarrow> map tp_type (co_templateParams c) | _ \<Rightarrow> succs n)"

definition member_names_distinct :: "ty \<Rightarrow> bool" where
  "member_names_distinct n = (case n of Class c \<Rightarrow> distinct (map m_name (cl_members c)) | _ \<Rightarrow> True)"

lemma name_early_ok:
  assumes "0 \<le> k" and "k < 2 ^ 31 - 1"
  shows "\<exists>n' k'. name_early n k = Inr (n', k') \<and> strip_names n' = strip_names n \<and> member_names_distinct n' \<and>
    (case numbered_name n' of None \<Rightarrow> k' = k | Some name \<Rightarrow> k' = k + 1 \<and> name_number name = nat k)"
proof (cases n)
  case (Class c)
  then show ?thesis
    using deduplicate_number [OF assms, of "removeTemplateParams (cl_name c)"] name_members_distinct
    by (auto simp: name_early_def name_class_def name_members_strip member_names_distinct_def)
next
  case (Enum e)
  then show ?thesis
    using deduplicate_number [OF assms, of "en_name e"]
    by (auto simp: name_early_def name_enum_def member_names_distinct_def)
next
  case (Typedef td)
  then show ?thesis
    using deduplicate_number [OF assms, of "removeTemplateParams (td_name td)"]
    by (auto simp: name_early_def name_typedef_def member_names_distinct_def)
qed (simp_all add: name_early_def member_names_distinct_def)

lemma name_late_numbered:
  assumes "name_late g t n = Inr n'"
  shows "numbered_name n' = numbered_name n" "member_names_distinct n' = member_names_distinct n"
  using assms by (cases n; auto simp: name_late_def bindE_Inr_iff member_names_distinct_def split: if_splits)+

section \<open>The walk\<close>

definition naming_edges :: "type_graph \<Rightarrow> tref \<Rightarrow> tref list" where
  "naming_edges g t = (case deref g t of Inl e \<Rightarrow> [] | Inr n \<Rightarrow> naming_accepts n)"

lemma naming_accepts_strip: "strip_names n' = strip_names n \<Longrightarrow> naming_accepts n' = naming_accepts n"
proof -
  have "naming_accepts (strip_names m) = naming_accepts m" for m
    by (cases m) (simp_all add: naming_accepts_def comp_def)
  then show "strip_names n' = strip_names n \<Longrightarrow> naming_accepts n' = naming_accepts n" by metis
qed

definition naming_univ :: "type_graph \<Rightarrow> tref set" where
  "naming_univ g = {t \<in> reach (naming_edges g) (rootTypes g). in_graph g t}"

definition named :: "naming \<Rightarrow> nat \<Rightarrow> string option" where
  "named s i = (if NodeRef i \<in> ng_visited s then numbered_name (node_at (ng_graph s) i) else None)"

definition naming_ok :: "type_graph \<Rightarrow> naming \<Rightarrow> bool" where
  "naming_ok g s \<longleftrightarrow> wf_refs g \<and> names_end g \<and> length (nodes g) < 2 ^ 31 \<and> names_only g (ng_graph s) \<and>
     0 \<le> ng_n s \<and> ng_n s \<le> int (card {i. i < length (nodes g) \<and> NodeRef i \<in> ng_visited s}) \<and>
     (\<forall>i < length (nodes g). \<forall>x. named s i = Some x \<longrightarrow> int (name_number x) < ng_n s) \<and>
     (\<forall>i < length (nodes g). \<forall>j < length (nodes g). \<forall>x y. named s i = Some x \<and> named s j = Some y \<and>
        name_number x = name_number y \<longrightarrow> i = j)"

definition naming_final :: "type_graph \<Rightarrow> naming \<Rightarrow> tref \<Rightarrow> bool" where
  "naming_final g s t \<longleftrightarrow> (\<forall>i. t = NodeRef i \<longrightarrow> member_names_distinct (node_at (ng_graph s) i))"

definition naming_enter :: "tref \<Rightarrow> naming \<Rightarrow> (tref list \<times> naming) outcome" where
  "naming_enter t s = bindE (deref (ng_graph s) t) (\<lambda>n. bindE (name_early n (ng_n s)) (\<lambda>(n', k).
     Inr (naming_accepts n', (ng_put t n' s)\<lparr>ng_visited := insert t (ng_visited s), ng_n := k\<rparr>)))"

definition named_late :: "ty \<Rightarrow> bool" where
  "named_late n = (case n of
      Class c \<Rightarrow> False | Enum e \<Rightarrow> False | Typedef td \<Rightarrow> False
    | Container c \<Rightarrow> co_templateParams c \<noteq> [] | _ \<Rightarrow> True)"

definition naming_leave :: "type_graph \<Rightarrow> tref \<Rightarrow> naming \<Rightarrow> naming outcome" where
  "naming_leave g t s = (case deref g t of Inl e \<Rightarrow> Inr s | Inr n \<Rightarrow> if named_late n then finish_name t s else Inr s)"

lemma named_late_strip: "strip_names n' = strip_names n \<Longrightarrow> named_late n' = named_late n"
proof -
  have "named_late (strip_names m) = named_late m" for m by (cases m) (simp_all add: named_late_def)
  then show "strip_names n' = strip_names n \<Longrightarrow> named_late n' = named_late n" by metis
qed

lemma naming_node:
  assumes "names_only g g'" and "in_graph g t"
  obtains n n0 where "deref g t = Inr n0" "deref g' t = Inr n" "strip_names n = strip_names n0"
    "\<And>i. t = NodeRef i \<Longrightarrow> node_at g' i = n \<and> node_at g i = n0"
proof (cases t)
  case (PrimRef k)
  then show ?thesis using that [of "Primitive k" "Primitive k"] by simp
next
  case (NodeRef i)
  then have i: "i < length (nodes g)" "i < length (nodes g')" using assms by (auto simp: names_only_def)
  then have d: "deref g t = Inr (node_at g i)" "deref g' t = Inr (node_at g' i)" using NodeRef by simp_all
  have "strip_names (node_at g' i) = strip_names (node_at g i)" using assms(1) i(1) by (simp add: names_only_def)
  from that [OF d this] show ?thesis using NodeRef by blast
qed

lemma ng_put_visited: "ng_put t n (s\<lparr>ng_visited := v\<rparr>) = (ng_put t n s)\<lparr>ng_visited := v\<rparr>"
  by (cases s) (simp add: ng_put_def)

lemma naming_body:
  assumes only: "names_only g (ng_graph s)" and t: "in_graph g t"
  shows "nameGen_accept call t s = (if t \<in> ng_visited s then Inr s
    else bindE (naming_enter t s) (\<lambda>(ts, s1). bindE (for_each call ts s1) (\<lambda>s2.
      bindE (Inr ([], s2)) (\<lambda>(us, s3). bindE (for_each call us s3) (naming_leave g t)))))"
proof (cases "t \<in> ng_visited s")
  case False
  obtain n n0 where n: "deref g t = Inr n0" "deref (ng_graph s) t = Inr n" "strip_names n = strip_names n0"
    using naming_node [OF only t] by metis
  have nl: "named_late n0 = named_late n" using named_late_strip n(3) by metis
  have late: "naming_leave g t = (if named_late n then finish_name t else Inr)"
    by (simp add: naming_leave_def fun_eq_iff n(1) nl)
  have self: "ng_put t n s = s" using put_node_self [OF n(2)] by (simp add: ng_put_def)
  have body: "nameGen_accept call t s = nameGen_visit call t (s\<lparr>ng_visited := insert t (ng_visited s)\<rparr>)"
    using False by (simp add: nameGen_accept_def)
  show ?thesis
  proof (cases n)
    case (Class c)
    then show ?thesis
      unfolding body late using n(2) False
      by (cases "name_class c (ng_n s)")
        (auto simp: nameGen_visit_def naming_enter_def name_early_def named_late_def naming_accepts_def
          ng_put_visited for_each_fun for_each_map_fun name_class_def bindE_Inr_iff for_each_map split: prod.splits)
  next
    case (Enum e)
    then show ?thesis
      unfolding body late using n(2) False
      by (cases "name_enum e (ng_n s)")
        (auto simp: nameGen_visit_def naming_enter_def name_early_def named_late_def naming_accepts_def ng_put_visited
          for_each_fun)
  next
    case (Typedef td)
    then show ?thesis
      unfolding body late using n(2) False
      by (cases "name_typedef td (ng_n s)")
        (auto simp: nameGen_visit_def naming_enter_def name_early_def named_late_def naming_accepts_def ng_put_visited
          for_each_fun name_typedef_def bindE_Inr_iff split: prod.splits)
  next
    case (Container c)
    then show ?thesis
      unfolding body late using n(2) False self
      by (simp add: nameGen_visit_def naming_enter_def name_early_def named_late_def naming_accepts_def
          for_each_fun for_each_map_fun)
  qed (use n(2) False self in \<open>simp_all add: body late nameGen_visit_def naming_enter_def name_early_def
      named_late_def naming_accepts_def recursive_visit_succs for_each_fun\<close>)
qed (simp add: nameGen_accept_def)


interpretation ngf: walk_frame ng_graph "\<lambda>s t. t \<in> ng_visited s" "\<lambda>t. True" "length (nodes g)" "node_at g"
  "naming_univ g" "naming_ok g" "\<lambda>s s'. True" "\<lambda>t. naming_edges g t @ []" "naming_final g" "{}" False "\<lambda>t. 0" for g
  by unfold_locales (simp_all add: naming_univ_def naming_final_def)

lemma naming_univ_step:
  assumes "wf_refs g" and "t \<in> naming_univ g"
  shows "set (naming_edges g t) \<subseteq> naming_univ g"
proof
  fix u assume u: "u \<in> set (naming_edges g t)"
  have "u \<in> reach (naming_edges g) (rootTypes g)" using assms(2) u reach.step unfolding naming_univ_def by blast
  moreover have "in_graph g u"
  proof (cases t)
    case (NodeRef i)
    then have i: "i < length (nodes g)" using assms(2) by (simp add: naming_univ_def)
    then have "u \<in> set (succs (node_at g i))"
      using u NodeRef by (cases "node_at g i") (auto simp: naming_edges_def naming_accepts_def)
    then show ?thesis using wf_refsD [OF assms(1) i] succs_subset_refs by blast
  qed (use u in \<open>simp add: naming_edges_def naming_accepts_def\<close>)
  ultimately show "u \<in> naming_univ g" by (simp add: naming_univ_def)
qed

lemma named_put:
  assumes "deref (ng_graph s) t = Inr n" and "numbered_name n' = numbered_name n"
  shows "numbered_name (node_at (ng_graph (ng_put t n' s)) i) = numbered_name (node_at (ng_graph s) i)"
proof (cases t)
  case (NodeRef j)
  note own = deref_owned [OF assms(1) [unfolded NodeRef]]
  then show ?thesis using assms(2) NodeRef by (cases "j = i") (simp_all add: ng_put_def)
qed (simp add: ng_put_def)

lemma naming_late_step:
  assumes ok: "naming_ok g s" and t: "t \<in> naming_univ g" and st: "naming_final g s t"
  shows "spec {} (naming_leave g t s) (\<lambda>s1. naming_ok g s1 \<and> naming_final g s1 t \<and>
     ng_visited s1 = ng_visited s \<and>
     (\<forall>i < length (nodes g). NodeRef i \<noteq> t \<longrightarrow> node_at (ng_graph s1) i = node_at (ng_graph s) i))"
proof -
  have tg: "in_graph g t" and wf: "wf_refs g" "names_end g" "names_only g (ng_graph s)"
    using ok t by (auto simp: naming_ok_def naming_univ_def)
  obtain n n0 where n: "deref g t = Inr n0" "deref (ng_graph s) t = Inr n" "strip_names n = strip_names n0"
    and at: "\<And>i. t = NodeRef i \<Longrightarrow> node_at (ng_graph s) i = n \<and> node_at g i = n0"
    using naming_node [OF wf(3) tg] by metis
  show ?thesis
  proof (cases "named_late n0")
    case True
    have "in_graph g u" if "u \<in> set (refs n)" for u
    proof (cases t)
      case (NodeRef i)
      have "refs n = refs (node_at g i)" using strip_names_same(3) [OF n(3)] at [OF NodeRef] by simp
      then show ?thesis using wf_refsD [OF wf(1), of i u] tg NodeRef that by simp
    qed (use n that in auto)
    with name_late_ok [OF wf tg] obtain n' where
      n': "name_late (ng_graph s) t n = Inr n'" "strip_names n' = strip_names n" by blast
    note same = name_late_numbered [OF n'(1)]
    let ?s = "ng_put t n' s"
    have res: "naming_leave g t s = Inr ?s" using n n' True by (simp add: naming_leave_def finish_name_def)
    have vis: "ng_visited ?s = ng_visited s" "ng_n ?s = ng_n s" by (simp_all add: ng_put_def)
    have "named ?s i = named s i" for i using named_put [OF n(2) same(1)] vis by (simp add: named_def)
    moreover have "names_only g (ng_graph ?s)"
      using names_only_put [OF wf(3) n(2) n'(2)] by (simp add: ng_put_def)
    ultimately have "naming_ok g ?s" using ok vis by (simp add: naming_ok_def)
    moreover have "naming_final g ?s t"
      using st same(2) at n(2) by (auto simp: naming_final_def ng_put_def dest: deref_owned)
    moreover have "node_at (ng_graph ?s) i = node_at (ng_graph s) i" if "NodeRef i \<noteq> t" for i
      using that by (cases t) (auto simp: ng_put_def node_at_def put_node.simps)
    ultimately show ?thesis by (simp add: res vis)
  qed (use n ok st in \<open>simp add: naming_leave_def\<close>)
qed

lemma naming_first_step:
  assumes ok: "naming_ok g s" and t: "t \<in> naming_univ g" and new: "t \<notin> ng_visited s"
  shows "spec {} (naming_enter t s) (\<lambda>(ts, s1). naming_ok g s1 \<and> naming_final g s1 t \<and>
     ts = naming_edges g t \<and> ng_visited s1 = insert t (ng_visited s) \<and>
     (\<forall>i < length (nodes g). NodeRef i \<noteq> t \<longrightarrow> node_at (ng_graph s1) i = node_at (ng_graph s) i))"
proof -
  have tg: "in_graph g t" and wf: "wf_refs g" "names_only g (ng_graph s)"
    using ok t by (auto simp: naming_ok_def naming_univ_def)
  obtain n n0 where n: "deref g t = Inr n0" "deref (ng_graph s) t = Inr n" "strip_names n = strip_names n0"
    and at: "\<And>i. t = NodeRef i \<Longrightarrow> node_at (ng_graph s) i = n \<and> node_at g i = n0"
    using naming_node [OF wf(2) tg] by metis
  let ?seen = "\<lambda>s. {i. i < length (nodes g) \<and> NodeRef i \<in> ng_visited s}"
  have seen_le: "card (?seen s) \<le> length (nodes g)"
    using card_mono [of "{..<length (nodes g)}" "?seen s"] by auto
  show ?thesis
  proof (cases t)
    case (PrimRef k)
    have n_prim: "n = Primitive k" using n(2) PrimRef by simp
    let ?s = "s\<lparr>ng_visited := insert t (ng_visited s)\<rparr>"
    have "naming_enter t s = Inr ([], ?s)"
      using PrimRef by (simp add: naming_enter_def name_early_def naming_accepts_def ng_put_def)
    moreover have "named ?s i = named s i" "NodeRef i \<in> ng_visited ?s \<longleftrightarrow> NodeRef i \<in> ng_visited s" for i
      using PrimRef by (auto simp: named_def)
    then have "naming_ok g ?s" using ok by (simp add: naming_ok_def)
    ultimately show ?thesis using PrimRef by (simp add: naming_final_def naming_edges_def naming_accepts_def)
  next
    case (NodeRef i)
    have i: "i < length (nodes g)" "node_at (ng_graph s) i = n" "i < length (nodes (ng_graph s))"
      using tg NodeRef at [OF NodeRef] wf(2) by (simp_all add: names_only_def)
    have ins: "?seen (s\<lparr>ng_visited := insert t (ng_visited s)\<rparr>) = insert i (?seen s)" "i \<notin> ?seen s"
      using NodeRef i new by auto
    have "insert i (?seen s) \<subseteq> {..<length (nodes g)}" using i by auto
    then have "card (insert i (?seen s)) \<le> length (nodes g)" using card_mono [OF finite_lessThan] by (metis card_lessThan)
    then have card: "Suc (card (?seen s)) \<le> length (nodes g)" using ins(2) by simp
    have num: "0 \<le> ng_n s" "ng_n s < 2 ^ 31 - 1" using ok card by (auto simp: naming_ok_def)
    obtain n' k where e: "name_early n (ng_n s) = Inr (n', k)" "strip_names n' = strip_names n"
      "member_names_distinct n'"
      "case numbered_name n' of None \<Rightarrow> k = ng_n s | Some x \<Rightarrow> k = ng_n s + 1 \<and> name_number x = nat (ng_n s)"
      using name_early_ok [OF num, of n] by (elim exE conjE)
    let ?s = "(ng_put t n' s)\<lparr>ng_visited := insert t (ng_visited s), ng_n := k\<rparr>"
    have res: "naming_enter t s = Inr (naming_accepts n', ?s)" by (simp only: naming_enter_def n(2) e(1) bindE_simps prod.case)
    have new_at: "node_at (ng_graph ?s) j = (if j = i then n' else node_at (ng_graph s) j)" for j
      using i NodeRef by (simp add: ng_put_def)
    have named_new: "named ?s j = (if j = i then numbered_name n' else named s j)" for j
      using NodeRef new_at by (simp add: named_def)
    have old: "named s i = None" using new NodeRef by (simp add: named_def)
    have below: "int (name_number x) < ng_n s" if "j < length (nodes g)" "named s j = Some x" for j x
      using ok that by (simp add: naming_ok_def)
    have kk: "ng_n s \<le> k" "k \<le> ng_n s + 1" using e(4) by (auto split: option.splits)
    have "names_only g (ng_graph ?s)"
      using names_only_put [OF wf(2) n(2) e(2)] by (simp add: ng_put_def)
    moreover have "k \<le> int (card (?seen ?s))"
    proof -
      have "card (?seen ?s) = Suc (card (?seen s))" using ins by simp
      then show ?thesis using ok kk by (simp add: naming_ok_def)
    qed
    moreover have "int (name_number x) < k" if j: "j < length (nodes g)" "named ?s j = Some x" for j x
    proof (cases "j = i")
      case True
      then show ?thesis using j named_new e(4) num(1) by simp
    next
      case False
      then show ?thesis using below [of j x] j named_new kk by simp
    qed
    moreover have "j = l" if jl: "j < length (nodes g)" "l < length (nodes g)" "named ?s j = Some x"
      "named ?s l = Some y" "name_number x = name_number y" for j l x y
    proof -
      have fresh: "name_number z \<noteq> nat (ng_n s)" if "m < length (nodes g)" "named s m = Some z" for m z
        using below [OF that] num(1) by linarith
      consider "j = i" "l = i" | "j = i" "l \<noteq> i" | "j \<noteq> i" "l = i" | "j \<noteq> i" "l \<noteq> i" by blast
      then show ?thesis
      proof cases
        case 2
        then have "name_number x = nat (ng_n s)" "named s l = Some y" using jl named_new e(4) by simp_all
        then show ?thesis using fresh [of l y] jl by simp
      next
        case 3
        then have "name_number y = nat (ng_n s)" "named s j = Some x" using jl named_new e(4) by simp_all
        then show ?thesis using fresh [of j x] jl by simp
      next
        case 4
        then have "named s j = Some x" "named s l = Some y" using jl named_new by simp_all
        then show ?thesis using ok jl unfolding naming_ok_def by blast
      qed simp
    qed
    ultimately have "naming_ok g ?s" using ok kk by (simp add: naming_ok_def)
    moreover have "naming_final g ?s t" using NodeRef new_at e(3) by (simp add: naming_final_def)
    moreover have "naming_accepts n' = naming_edges g t"
      using naming_accepts_strip e(2) n by (metis naming_edges_def sum.case(2))
    moreover have "ng_visited ?s = insert t (ng_visited s)" by simp
    moreover have "node_at (ng_graph ?s) j = node_at (ng_graph s) j" if "NodeRef j \<noteq> t" for j
      using that new_at NodeRef by simp
    ultimately show ?thesis unfolding res by simp
  qed
qed


interpretation ng: node_pass ng_graph "\<lambda>s t. t \<in> ng_visited s" "\<lambda>t. True" "length (nodes g)" "node_at g"
  "naming_univ g" "naming_ok g" "\<lambda>s s'. True" "naming_edges g" "\<lambda>t. []" "naming_final g" "{}"
  "naming_final g" "naming_final g" naming_enter "\<lambda>t s. Inr ([], s)" "naming_leave g" nameGen_accept for g
proof (unfold_locales, goal_cases)
  case (1 s t call)
  then show ?case using naming_body [of g s t call] by (simp add: naming_ok_def naming_univ_def)
next
  case (3 s t)
  then have wf: "wf_refs g" by (simp add: naming_ok_def)
  have prim: "naming_edges g (PrimRef k) = []" for k by (simp add: naming_edges_def naming_accepts_def)
  show ?case
    by (rule spec_mono [OF naming_first_step [OF 3(1-3)]])
      (use naming_univ_step [OF wf 3(2)] prim in \<open>auto split: tref.split\<close>)
next
  case (5 s t)
  then show ?case using spec_mono [OF naming_late_step [OF 5]] by auto
qed (auto simp: naming_final_def split: tref.split)

lemma nameGen_run:
  assumes "wf_graph g" and "names_end g" and "length (nodes g) < 2 ^ 31"
  shows "\<exists>s. nameGen_pass g v = Inr (ng_graph s, v) \<and> naming_ok g s \<and>
    (\<forall>i < length (nodes g). NodeRef i \<in> ng_visited s \<longleftrightarrow> NodeRef i \<in> reach (naming_edges g) (rootTypes g)) \<and>
    (\<forall>i < length (nodes g). if NodeRef i \<in> ng_visited s then naming_final g s (NodeRef i)
       else node_at (ng_graph s) i = node_at g i)"
proof -
  let ?s = "\<lparr>ng_visited = {}, ng_graph = g, ng_n = 0\<rparr>"
  have wf: "wf_refs g" using assms(1) by (simp add: wf_graph_def)
  have ok: "naming_ok g ?s" using assms wf by (auto simp: naming_ok_def named_def)
  have roots: "set (rootTypes g) \<subseteq> naming_univ g"
    using wf by (auto simp: naming_univ_def wf_refs_def intro: reach.root)
  obtain s where s: "for_each (recur nameGen_accept (chain_depth g)) (rootTypes g) ?s = Inr s" "naming_ok g s"
    "\<forall>t \<in> set (rootTypes g). t \<in> ng_visited s"
    "\<forall>i < length (nodes g). if NodeRef i \<in> ng_visited s
       then NodeRef i \<in> naming_univ g \<and> naming_final g s (NodeRef i) \<and>
         (\<forall>u \<in> set (naming_edges g (NodeRef i)). u \<in> ng_visited s)
       else node_at (ng_graph s) i = node_at g i"
    using ng.walk.run [OF ok _ _ roots, of "chain_depth g"]
    by (auto simp: spec_empty_iff chain_depth_def)
  have "NodeRef i \<in> ng_visited s \<longleftrightarrow> NodeRef i \<in> reach (naming_edges g) (rootTypes g)" if "i < length (nodes g)" for i
  proof (rule marked_iff_reach [where N = "length (nodes g)" and markable = "\<lambda>t. True"])
    show "naming_edges g (PrimRef k) = []" for k by (simp add: naming_edges_def naming_accepts_def)
    show "j < length (nodes g)" if "NodeRef j \<in> reach (naming_edges g) (rootTypes g)" for j
    proof -
      have "reach (naming_edges g) (rootTypes g) \<subseteq> naming_univ g"
        using roots naming_univ_step [OF wf] by (intro reach_least)
      then show ?thesis using that by (auto simp: naming_univ_def)
    qed
    show "NodeRef j \<in> reach (naming_edges g) (rootTypes g)"
      if "j < length (nodes g)" "NodeRef j \<in> ng_visited s" for j
      using s(4) that by (auto simp: naming_univ_def)
    show "u \<in> ng_visited s" if "j < length (nodes g)" "NodeRef j \<in> ng_visited s" "u \<in> set (naming_edges g (NodeRef j))" for j u
      using s(4) that by auto
  qed (use s(3) that in auto)
  moreover have "if NodeRef i \<in> ng_visited s then naming_final g s (NodeRef i)
       else node_at (ng_graph s) i = node_at g i" if "i < length (nodes g)" for i
    using s(4) that by auto
  moreover have "nameGen_pass g v = Inr (ng_graph s, v)" using s(1) by (simp add: nameGen_pass_def)
  ultimately show ?thesis using s(2) by blast
qed

lemma nameGen_contract:
  assumes "wf_graph g" and "names_end g" and "length (nodes g) < 2 ^ 31"
  shows "\<exists>g'. nameGen_pass g v = Inr (g', v) \<and> names_only g g' \<and>
    (\<forall>i < length (nodes g). NodeRef i \<in> reach (naming_edges g) (rootTypes g) \<longrightarrow>
       member_names_distinct (node_at g' i) \<and>
       (\<forall>j < length (nodes g). NodeRef j \<in> reach (naming_edges g) (rootTypes g) \<and> i \<noteq> j \<and>
          numbered_name (node_at g' i) \<noteq> None \<longrightarrow> numbered_name (node_at g' i) \<noteq> numbered_name (node_at g' j)))"
proof -
  obtain s where s: "nameGen_pass g v = Inr (ng_graph s, v)" "naming_ok g s"
    and seen: "\<And>i. i < length (nodes g) \<Longrightarrow> NodeRef i \<in> ng_visited s \<longleftrightarrow> NodeRef i \<in> reach (naming_edges g) (rootTypes g)"
    and fin: "\<And>i. i < length (nodes g) \<Longrightarrow> if NodeRef i \<in> ng_visited s then naming_final g s (NodeRef i)
       else node_at (ng_graph s) i = node_at g i"
    using nameGen_run [OF assms] by metis
  have "numbered_name (node_at (ng_graph s) i) \<noteq> numbered_name (node_at (ng_graph s) j)"
    if ij: "i < length (nodes g)" "j < length (nodes g)" "i \<noteq> j" "numbered_name (node_at (ng_graph s) i) = Some x"
      "NodeRef i \<in> ng_visited s" "NodeRef j \<in> ng_visited s" for i j x
    using s(2) ij unfolding naming_ok_def named_def by metis
  note differ = this
  have names: "names_only g (ng_graph s)" using s(2) by (simp add: naming_ok_def)
  have "member_names_distinct (node_at (ng_graph s) i)"
    if "i < length (nodes g)" "NodeRef i \<in> reach (naming_edges g) (rootTypes g)" for i
    using fin [OF that(1)] seen [OF that(1)] that(2) by (simp add: naming_final_def)
  then show ?thesis
    using s(1) names differ seen by (intro exI [of _ "ng_graph s"]) blast
qed

text \<open>
  C15: the pass returns on every graph, with cycles or not, in which \<^verbatim>\<open>inputName\<close> ends, and changes names
  only. Then no two reachable classes, enums and typedefs have the same name, and the members of a
  reachable class have different names.
\<close>

theorem nameGen_unique:
  assumes "wf_graph g" and "names_end g" and "length (nodes g) < 2 ^ 31"
  shows "\<exists>g'. nameGen_pass g v = Inr (g', v) \<and> names_only g g' \<and>
    (\<forall>i < length (nodes g). NodeRef i \<in> reach (naming_edges g) (rootTypes g) \<longrightarrow>
       member_names_distinct (node_at g' i) \<and>
       (\<forall>j < length (nodes g). NodeRef j \<in> reach (naming_edges g) (rootTypes g) \<and> i \<noteq> j \<and>
          numbered_name (node_at g' i) \<noteq> None \<longrightarrow> numbered_name (node_at g' i) \<noteq> numbered_name (node_at g' j)))"
  using assms by (rule nameGen_contract)

lemma names_endI:
  assumes "list_all (\<lambda>i. type_inputName g (NodeRef i) \<noteq> Inl Diverge) [0..<length (nodes g)]"
  shows "names_end g"
  unfolding names_end_def
proof (intro allI impI)
  fix t assume t: "in_graph g t"
  show "type_inputName g t \<noteq> Inl Diverge"
  proof (cases t)
    case (PrimRef k)
    then show ?thesis
      by (simp add: type_inputName_def chain_depth_def inputName_body_def)
  qed (use assms t in \<open>simp add: list_all_iff\<close>)
qed

text \<open>Two instances of a template whose names become the same, one with two members of the same name.\<close>

definition name_example :: type_graph where
  "name_example = \<lparr>nodes = [
     Class ((mk_class KStruct ''S<int>'' ''S<int>'' 16 0 0)\<lparr>cl_members :=
       [mk_member (NodeRef 1) ''x'' 0 0, mk_member (PrimRef Int64) ''x'' 64 0]\<rparr>),
     Pointer \<lparr>pt_id = 1, pt_pointee = NodeRef 2, pt_inputName = '''', pt_name = ''S<char>*''\<rparr>,
     Class ((mk_class KStruct ''S<char>'' ''S<char>'' 8 0 2)\<lparr>cl_members :=
       [mk_member (NodeRef 3) '''' 0 0]\<rparr>),
     Pointer \<lparr>pt_id = 3, pt_pointee = NodeRef 0, pt_inputName = '''', pt_name = ''S<int>*''\<rparr>],
   rootTypes = [NodeRef 0], finalTypes = [], next_id = 4\<rparr>"

lemma name_example_ok: "wf_graph name_example" "names_end name_example" "length (nodes name_example) < 2 ^ 31"
proof -
  show "wf_graph name_example" by (rule wf_checkD) code_simp
  show "names_end name_example" by (rule names_endI) code_simp
qed (simp add: name_example_def)

theorem nameGen_unique_witness:
  "\<exists>g'. nameGen_pass name_example [] = Inr (g', []) \<and> names_only name_example g' \<and>
     numbered_name (node_at g' 0) \<noteq> numbered_name (node_at g' 2) \<and> member_names_distinct (node_at g' 0)"
proof -
  obtain g' where g': "nameGen_pass name_example [] = Inr (g', [])" "names_only name_example g'"
    and names: "\<And>i j. i < length (nodes name_example) \<Longrightarrow> j < length (nodes name_example) \<Longrightarrow>
      NodeRef i \<in> reach (naming_edges name_example) (rootTypes name_example) \<Longrightarrow>
      NodeRef j \<in> reach (naming_edges name_example) (rootTypes name_example) \<Longrightarrow> i \<noteq> j \<Longrightarrow>
      member_names_distinct (node_at g' i) \<and>
      (numbered_name (node_at g' i) \<noteq> None \<longrightarrow> numbered_name (node_at g' i) \<noteq> numbered_name (node_at g' j))"
    using nameGen_unique [OF name_example_ok, of "[]"] by blast
  have r0: "NodeRef 0 \<in> reach (naming_edges name_example) (rootTypes name_example)"
    by (rule reach.root) (simp add: name_example_def)
  have "NodeRef 1 \<in> set (naming_edges name_example (NodeRef 0))" "NodeRef 2 \<in> set (naming_edges name_example (NodeRef 1))"
    by code_simp+
  then have r2: "NodeRef 2 \<in> reach (naming_edges name_example) (rootTypes name_example)"
    using r0 reach.step by blast
  have len: "0 < length (nodes name_example)" "2 < length (nodes name_example)" by (simp_all add: name_example_def)
  have "strip_names (node_at g' 0) = strip_names (node_at name_example 0)"
    using g'(2) len(1) by (simp add: names_only_def)
  from strip_names_same(1) [OF this] have "numbered_name (node_at g' 0) \<noteq> None"
    by (cases "node_at g' 0") (simp_all add: name_example_def node_at_def)
  then show ?thesis using names [OF len r0 r2] g' by auto
qed

end
