(* ===== verification/TopoSorter.thy ===== *)
theory TopoSorter
  imports MapPass
begin

text \<open>
  \<^verbatim>\<open>oi/type_graph/TopoSorter.cpp\<close>: the pass that orders the types of a graph so that the definitions
  the code generator writes come before their uses.
\<close>

section \<open>The pass\<close>

text \<open>The front of the queue is the head of the list.\<close>

record topo =
  to_visited :: "tref set"
  to_sorted :: "tref list"
  to_queue :: "tref list"

type_synonym topo_walker = "(tref, topo, topo) call"

definition topo_push :: "tref \<Rightarrow> topo \<Rightarrow> topo" where
  "topo_push t s = s\<lparr>to_sorted := to_sorted s @ [t]\<rparr>"

definition acceptAfter :: "tref \<Rightarrow> topo \<Rightarrow> topo" where
  "acceptAfter t s = s\<lparr>to_queue := to_queue s @ [t]\<rparr>"

definition containerAllowsIncompleteParam :: "container_node \<Rightarrow> nat \<Rightarrow> bool" where
  "containerAllowsIncompleteParam c i = (case ci_ctype (co_info c) of
      SEQ_TYPE \<Rightarrow> i = 0
    | LIST_TYPE \<Rightarrow> i = 0
    | UNIQ_PTR_TYPE \<Rightarrow> i = 0
    | SHRD_PTR_TYPE \<Rightarrow> i = 0
    | _ \<Rightarrow> False)"

definition is_typedef :: "ty \<Rightarrow> bool" where
  "is_typedef n = (case n of Typedef td \<Rightarrow> True | _ \<Rightarrow> False)"

definition topo_visit_pointee :: "type_graph \<Rightarrow> topo_walker \<Rightarrow> tref \<Rightarrow> topo \<Rightarrow> topo outcome" where
  "topo_visit_pointee g accept u s =
     bindE (deref g u) (\<lambda>n. if is_typedef n then accept u s else Inr (acceptAfter u s))"

definition topo_visit :: "type_graph \<Rightarrow> topo_walker \<Rightarrow> topo_walker" where
  "topo_visit g accept t s = bindE (deref g t) (\<lambda>n. case n of
      Class c \<Rightarrow>
        bindE (for_each (\<lambda>p. accept (p_type p)) (cl_parents c) s) (\<lambda>s.
        bindE (for_each (\<lambda>m. accept (m_type m)) (cl_members c) s) (\<lambda>s.
        bindE (for_each (\<lambda>p. accept (tp_type p)) (cl_templateParams c) s) (\<lambda>s.
        for_each (\<lambda>u s. Inr (acceptAfter u s)) (cl_children c) (topo_push t s))))
    | Primitive k \<Rightarrow> Inr (topo_push t s)
    | Container c \<Rightarrow>
        bindE (for_each (\<lambda>i s.
            if containerAllowsIncompleteParam c i then Inr (acceptAfter (tp_type (co_templateParams c ! i)) s)
            else accept (tp_type (co_templateParams c ! i)) s) [0..<length (co_templateParams c)] s) (\<lambda>s.
        Inr (topo_push t s))
    | Enum e \<Rightarrow> Inr (topo_push t s)
    | Typedef td \<Rightarrow> bindE (accept (td_underlying td) s) (\<lambda>s. Inr (topo_push t s))
    | Pointer p \<Rightarrow> bindE (topo_visit_pointee g accept (pt_pointee p) s) (\<lambda>s. Inr (topo_push t s))
    | Reference r \<Rightarrow> bindE (topo_visit_pointee g accept (rf_pointee r) s) (\<lambda>s. Inr (topo_push t s))
    | CaptureKeys c \<Rightarrow> bindE (accept (ck_underlying c) s) (\<lambda>s. Inr (topo_push t s))
    | Incomplete i \<Rightarrow> Inr (topo_push t s)
    | Array a \<Rightarrow> bindE (accept (ar_elementType a) s) (\<lambda>s. Inr (topo_push t s))
    | Dummy d \<Rightarrow> Inr s
    | DummyAllocator d \<Rightarrow> accept (da_type d) s)"

definition topo_accept :: "type_graph \<Rightarrow> topo_walker \<Rightarrow> topo_walker" where
  "topo_accept g accept t s =
     (if t \<in> to_visited s then Inr s
      else topo_visit g accept t (s\<lparr>to_visited := insert t (to_visited s)\<rparr>))"

text \<open>
  The loop over the queue. \<open>topo_fuel\<close> bounds its rounds: every type of the queue comes from a root or
  from a reference of a node.
\<close>

primrec topo_drain :: "type_graph \<Rightarrow> nat \<Rightarrow> topo \<Rightarrow> topo outcome" where
  "topo_drain g 0 s = (if to_queue s = [] then Inr s else Inl Diverge)"
| "topo_drain g (Suc n) s = (case to_queue s of
      [] \<Rightarrow> Inr s
    | t # _ \<Rightarrow> bindE (recur (topo_accept g) (chain_depth g) t s) (\<lambda>s.
        topo_drain g n (s\<lparr>to_queue := tl (to_queue s)\<rparr>)))"

definition topo_fuel :: "type_graph \<Rightarrow> nat" where
  "topo_fuel g = length (rootTypes g) + sum_list (map (\<lambda>n. length (succs n)) (nodes g))"

definition topo_sort :: "type_graph \<Rightarrow> tref list \<Rightarrow> topo outcome" where
  "topo_sort g types =
     topo_drain g (topo_fuel g) \<lparr>to_visited = {}, to_sorted = [], to_queue = types\<rparr>"

definition topoSorter_pass :: pass_fn where
  "topoSorter_pass g v = bindE (topo_sort g (rootTypes g)) (\<lambda>s. Inr (g\<lparr>finalTypes := to_sorted s\<rparr>, v))"

section \<open>A visit in steps\<close>

text \<open>What a visit does, in order: accept a type now, put it off, or emit the type it is on.\<close>

datatype topo_step = Now tref | After tref | Emit

definition pointee_step :: "type_graph \<Rightarrow> tref \<Rightarrow> topo_step" where
  "pointee_step g u = (case deref g u of Inl e \<Rightarrow> After u | Inr n \<Rightarrow> if is_typedef n then Now u else After u)"

fun node_steps :: "type_graph \<Rightarrow> ty \<Rightarrow> topo_step list" where
  "node_steps g (Class c) = map (\<lambda>p. Now (p_type p)) (cl_parents c) @ map (\<lambda>m. Now (m_type m)) (cl_members c) @
     map (\<lambda>p. Now (tp_type p)) (cl_templateParams c) @ Emit # map After (cl_children c)"
| "node_steps g (Container c) = map (\<lambda>i.
       (if containerAllowsIncompleteParam c i then After else Now) (tp_type (co_templateParams c ! i)))
     [0..<length (co_templateParams c)] @ [Emit]"
| "node_steps g (Typedef td) = [Now (td_underlying td), Emit]"
| "node_steps g (Pointer p) = [pointee_step g (pt_pointee p), Emit]"
| "node_steps g (Reference r) = [pointee_step g (rf_pointee r), Emit]"
| "node_steps g (CaptureKeys c) = [Now (ck_underlying c), Emit]"
| "node_steps g (Array a) = [Now (ar_elementType a), Emit]"
| "node_steps g (Dummy d) = []"
| "node_steps g (DummyAllocator d) = [Now (da_type d)]"
| "node_steps g (Primitive k) = [Emit]"
| "node_steps g (Enum e) = [Emit]"
| "node_steps g (Incomplete i) = [Emit]"

definition topo_steps :: "type_graph \<Rightarrow> tref \<Rightarrow> topo_step list" where
  "topo_steps g t = (case deref g t of Inl e \<Rightarrow> [] | Inr n \<Rightarrow> node_steps g n)"

fun do_step :: "topo_walker \<Rightarrow> tref \<Rightarrow> topo_step \<Rightarrow> topo \<Rightarrow> topo outcome" where
  "do_step accept t (Now u) s = accept u s"
| "do_step accept t (After u) s = Inr (acceptAfter u s)"
| "do_step accept t Emit s = Inr (topo_push t s)"

text \<open>The types that must come before \<open>t\<close>, those it can be declared without, and whether it is listed.\<close>

definition deps :: "type_graph \<Rightarrow> tref \<Rightarrow> tref list" where
  "deps g t = concat (map (\<lambda>x. case x of Now u \<Rightarrow> [u] | _ \<Rightarrow> []) (topo_steps g t))"

definition delayed :: "type_graph \<Rightarrow> tref \<Rightarrow> tref list" where
  "delayed g t = concat (map (\<lambda>x. case x of After u \<Rightarrow> [u] | _ \<Rightarrow> []) (topo_steps g t))"

definition listed :: "type_graph \<Rightarrow> tref \<Rightarrow> bool" where
  "listed g t = (Emit \<in> set (topo_steps g t))"

definition needs :: "type_graph \<Rightarrow> (tref \<times> tref) set" where
  "needs g = {(u, t). u \<in> set (deps g t)}"

lemma deps_iff: "u \<in> set (deps g t) \<longleftrightarrow> Now u \<in> set (topo_steps g t)"
  by (force simp: deps_def split: topo_step.splits)

lemma delayed_iff: "u \<in> set (delayed g t) \<longleftrightarrow> After u \<in> set (topo_steps g t)"
  by (force simp: delayed_def split: topo_step.splits)

lemma do_step_fun:
  "do_step accept t (Now u) = accept u"
  "do_step accept t (After u) = (\<lambda>s. Inr (acceptAfter u s))"
  "do_step accept t Emit = (\<lambda>s. Inr (topo_push t s))"
  by (simp_all add: fun_eq_iff)

lemma for_each_Cons_fun: "for_each f (x # xs) = (\<lambda>s. bindE (f x s) (for_each f xs))"
  by (simp add: fun_eq_iff)

lemma do_step_loops:
  "for_each (do_step accept t) (map (\<lambda>x. Now (f x)) xs) = for_each (\<lambda>x. accept (f x)) xs"
  "for_each (do_step accept t) (map After us) = for_each (\<lambda>u s. Inr (acceptAfter u s)) us"
  "for_each (do_step accept t) [] = Inr"
  "for_each (do_step accept t) [Emit] = (\<lambda>s. Inr (topo_push t s))"
  by (simp_all add: for_each_map_fun for_each_fun do_step_fun)

lemma topo_visit_steps:
  assumes "wf_refs g" and t: "in_graph g t"
  shows "topo_visit g accept t s = for_each (do_step accept t) (topo_steps g t) s"
proof -
  obtain n where n: "deref g t = Inr n" using deref_in_graph [OF t] by blast
  have pointee: "topo_visit_pointee g accept u s = do_step accept t (pointee_step g u) s"
    if u: "u \<in> set (succs n)" for u s
  proof -
    have "in_graph g u"
    proof (cases t)
      case (NodeRef i)
      then show ?thesis using n u wf_refsD [OF assms(1), of i u] succs_subset_refs deref_owned by blast
    qed (use n u in auto)
    then obtain m where "deref g u = Inr m" using deref_in_graph by blast
    then show ?thesis by (simp add: topo_visit_pointee_def pointee_step_def)
  qed
  have params: "for_each (do_step accept t) (map (\<lambda>i.
        (if containerAllowsIncompleteParam c i then After else Now) (tp_type (co_templateParams c ! i))) is) =
      for_each (\<lambda>i s. if containerAllowsIncompleteParam c i
            then Inr (acceptAfter (tp_type (co_templateParams c ! i)) s)
            else accept (tp_type (co_templateParams c ! i)) s) is" for c "is"
  proof -
    have "(\<lambda>i. do_step accept t ((if containerAllowsIncompleteParam c i then After else Now)
          (tp_type (co_templateParams c ! i)))) =
        (\<lambda>i s. if containerAllowsIncompleteParam c i
            then Inr (acceptAfter (tp_type (co_templateParams c ! i)) s)
            else accept (tp_type (co_templateParams c ! i)) s)"
      by (simp add: fun_eq_iff)
    then show ?thesis by (simp add: for_each_map_fun)
  qed
  show ?thesis
    using n pointee
    by (cases n) (simp_all add: topo_visit_def topo_steps_def do_step_loops params for_each_fun(3)
      for_each_Cons_fun do_step_fun)
qed

lemma topo_steps_shape:
  "\<exists>as bs. (topo_steps g t = as @ bs \<or> topo_steps g t = as @ Emit # bs) \<and> Emit \<notin> set as \<and>
     (\<forall>x \<in> set bs. \<exists>u. x = After u)"
proof (cases "deref g t")
  case (Inr n)
  have p: "pointee_step g u \<noteq> Emit" for u by (simp add: pointee_step_def split: sum.split)
  have c: "Emit \<notin> set (map (\<lambda>i. (if containerAllowsIncompleteParam c i then After else Now)
      (tp_type (co_templateParams c ! i))) is)" for c "is" by (auto split: if_splits)
  have shape: ?thesis if "node_steps g n = as @ bs \<or> node_steps g n = as @ Emit # bs" "Emit \<notin> set as"
    "\<forall>x \<in> set bs. \<exists>u. x = After u" for as bs
    using that Inr by (auto simp: topo_steps_def)
  have one: ?thesis if "node_steps g n = [Emit]" using that by (intro shape [of "[]" "[]"]) simp_all
  have two: ?thesis if "node_steps g n = [x, Emit]" "x \<noteq> Emit" for x
    using that by (intro shape [of "[x]" "[]"]) auto
  show ?thesis
  proof (cases n)
    case (Class c)
    show ?thesis
      by (rule shape [of "map (\<lambda>p. Now (p_type p)) (cl_parents c) @ map (\<lambda>m. Now (m_type m)) (cl_members c) @
        map (\<lambda>p. Now (tp_type p)) (cl_templateParams c)" "map After (cl_children c)"]) (auto simp: Class)
  next
    case (Container c)
    show ?thesis
      using c [of _ "[0..<length (co_templateParams c)]"] Container
      by (intro shape [of "butlast (node_steps g n)" "[]"]) (simp_all add: butlast_append)
  next
    case (DummyAllocator d)
    then show ?thesis by (intro shape [of "[Now (da_type d)]" "[]"]) simp_all
  next
    case (Dummy d)
    then show ?thesis by (intro shape [of "[]" "[]"]) simp_all
  qed (((rule one, simp; fail) | (rule two, simp, simp add: p))+)
qed (simp add: topo_steps_def)

lemma topo_steps_emit:
  assumes "topo_steps g t = xs @ Emit # ys"
  shows "Emit \<notin> set xs" "Emit \<notin> set ys" "u \<in> set (deps g t) \<Longrightarrow> Now u \<in> set xs"
proof -
  obtain as bs where eq: "topo_steps g t = as @ bs \<or> topo_steps g t = as @ Emit # bs"
    and as: "Emit \<notin> set as" and bs: "\<forall>x \<in> set bs. \<exists>u. x = After u"
    using topo_steps_shape by blast
  have "Emit \<in> set (topo_steps g t)" using assms by simp
  moreover have nb: "Emit \<notin> set bs" using bs by auto
  ultimately have "as @ Emit # bs = xs @ Emit # ys" using eq as assms by (metis Un_iff set_append)
  moreover note nb
  ultimately have "as = xs \<and> bs = ys" using as by (metis append_eq_Cons_conv append_Cons_eq_iff)
  then show "Emit \<notin> set xs" "Emit \<notin> set ys" "u \<in> set (deps g t) \<Longrightarrow> Now u \<in> set xs"
    using as bs assms by (auto simp: deps_iff)
qed

section \<open>What an acceptance leaves alone\<close>

text \<open>
  Without any assumption on cycles: what is listed is new and not listed twice, and the types that are
  put off come out of the types that are visited.
\<close>

definition pending :: "type_graph \<Rightarrow> tref set \<Rightarrow> nat" where
  "pending g v = (\<Sum>i < length (nodes g). if NodeRef i \<in> v then 0 else length (delayed g (NodeRef i)))"

definition quiet :: "type_graph \<Rightarrow> topo \<Rightarrow> topo \<Rightarrow> bool" where
  "quiet g s s' \<longleftrightarrow> to_visited s \<subseteq> to_visited s' \<and> prefix (to_queue s) (to_queue s') \<and>
     (\<exists>xs. to_sorted s' = to_sorted s @ xs \<and> distinct xs \<and> set xs \<subseteq> to_visited s' - to_visited s) \<and>
     length (to_queue s') + pending g (to_visited s') \<le> length (to_queue s) + pending g (to_visited s)"

lemma quiet_refl: "quiet g s s"
  by (simp add: quiet_def)

lemma quiet_trans: "quiet g s s' \<Longrightarrow> quiet g s' s'' \<Longrightarrow> quiet g s s''"
  unfolding quiet_def
proof (elim conjE exE, intro conjI)
  fix xs ys
  assume a: "to_visited s \<subseteq> to_visited s'" "to_visited s' \<subseteq> to_visited s''"
    "to_sorted s' = to_sorted s @ xs" "to_sorted s'' = to_sorted s' @ ys" "distinct xs" "distinct ys"
    "set xs \<subseteq> to_visited s' - to_visited s" "set ys \<subseteq> to_visited s'' - to_visited s'"
  then show "\<exists>zs. to_sorted s'' = to_sorted s @ zs \<and> distinct zs \<and> set zs \<subseteq> to_visited s'' - to_visited s"
    by (intro exI [of _ "xs @ ys"]) auto
qed auto

lemma spec_for_each_prefix:
  assumes "J [] s" and "\<And>ys x zs s. xs = ys @ x # zs \<Longrightarrow> J ys s \<Longrightarrow> spec E (f x s) (J (ys @ [x]))"
  shows "spec E (for_each f xs s) (J xs)"
  using assms(2)
proof (induction xs rule: rev_induct)
  case (snoc x xs)
  have "spec E (for_each f xs s) (J xs)" by (rule snoc.IH) (rule snoc.prems, simp_all)
  moreover have "spec E (f x s') (J (xs @ [x]))" if "J xs s'" for s' using snoc.prems [of xs x "[]"] that by simp
  ultimately show ?case unfolding for_each_append for_each_fun by (rule spec_bindI)
qed (simp add: assms(1))

text \<open>The types a visit deals with are those of its node.\<close>

lemma node_steps_succs: "Now u \<in> set (node_steps g n) \<or> After u \<in> set (node_steps g n) \<Longrightarrow> u \<in> set (succs n)"
  by (cases n) (auto simp: pointee_step_def split: if_splits sum.splits)

lemma topo_steps_in_graph:
  assumes "wf_refs g" and "in_graph g t" and "Now u \<in> set (topo_steps g t) \<or> After u \<in> set (topo_steps g t)"
  shows "in_graph g u"
proof (cases t)
  case (PrimRef k)
  then show ?thesis using assms(3) by (simp add: topo_steps_def)
next
  case (NodeRef i)
  then have i: "i < length (nodes g)" using assms(2) by simp
  then have "u \<in> set (succs (node_at g i))"
    using assms(3) NodeRef node_steps_succs by (simp add: topo_steps_def)
  then show ?thesis using wf_refsD [OF assms(1) i] succs_subset_refs by blast
qed

lemma pending_visit:
  assumes "t \<notin> v" and "in_graph g t"
  shows "pending g (insert t v) + length (delayed g t) = pending g v"
proof (cases t)
  case (PrimRef k)
  then show ?thesis by (simp add: pending_def delayed_def topo_steps_def)
next
  case (NodeRef i)
  then have i: "i \<in> {..<length (nodes g)}" using assms(2) by simp
  let ?f = "\<lambda>v j. if NodeRef j \<in> v then 0 else length (delayed g (NodeRef j))"
  have "sum (?f (insert t v)) ({..<length (nodes g)} - {i}) = sum (?f v) ({..<length (nodes g)} - {i})"
    by (rule sum.cong) (auto simp: NodeRef)
  then have "sum (?f (insert t v)) {..<length (nodes g)} + length (delayed g t) = sum (?f v) {..<length (nodes g)}"
    using assms(1) NodeRef sum.remove [OF _ i, of "?f (insert t v)"] sum.remove [OF _ i, of "?f v"] by simp
  then show ?thesis unfolding pending_def .
qed

lemma accept_quiet:
  assumes wf: "wf_refs g" and call: "\<And>u s. in_graph g u \<Longrightarrow> spec UNIV (call u s) (quiet g s)" and t: "in_graph g t"
  shows "spec UNIV (topo_accept g call t s) (quiet g s)"
proof (cases "t \<in> to_visited s")
  case False
  let ?s0 = "s\<lparr>to_visited := insert t (to_visited s)\<rparr>"
  let ?J = "\<lambda>xs (s' :: topo). to_visited ?s0 \<subseteq> to_visited s' \<and> prefix (to_queue s) (to_queue s') \<and>
    (\<exists>ys. to_sorted s' = to_sorted s @ ys \<and> distinct ys \<and> set ys \<subseteq> to_visited s' - to_visited s \<and>
      (Emit \<notin> set xs \<longrightarrow> t \<notin> set ys)) \<and>
    length (to_queue s') + pending g (to_visited s') \<le> length (to_queue s) + pending g (to_visited ?s0) +
      length (concat (map (\<lambda>x. case x of After u \<Rightarrow> [u] | _ \<Rightarrow> []) xs))"
  have "spec UNIV (for_each (do_step call t) (topo_steps g t) ?s0) (?J (topo_steps g t))"
  proof (rule spec_for_each_prefix)
    fix xs x zs and s' :: topo assume eq: "topo_steps g t = xs @ x # zs" and J: "?J xs s'"
    show "spec UNIV (do_step call t x s') (?J (xs @ [x]))"
    proof (cases x)
      case (Now u)
      have step: "?J (xs @ [x]) s''" if q: "quiet g s' s''" for s''
      proof -
        obtain ys where ys: "to_sorted s' = to_sorted s @ ys" "distinct ys"
          "set ys \<subseteq> to_visited s' - to_visited s" "Emit \<notin> set xs \<longrightarrow> t \<notin> set ys" using J by blast
        obtain zs where zs: "to_sorted s'' = to_sorted s' @ zs" "distinct zs"
          "set zs \<subseteq> to_visited s'' - to_visited s'" using q unfolding quiet_def by blast
        have "t \<in> to_visited s'" "to_visited s \<subseteq> to_visited s'" "to_visited s' \<subseteq> to_visited s''"
          using J q by (auto simp: quiet_def)
        then have "to_sorted s'' = to_sorted s @ (ys @ zs) \<and> distinct (ys @ zs) \<and>
            set (ys @ zs) \<subseteq> to_visited s'' - to_visited s \<and> (Emit \<notin> set (xs @ [x]) \<longrightarrow> t \<notin> set (ys @ zs))"
          using ys zs by auto
        moreover have "prefix (to_queue s) (to_queue s'')" "to_visited ?s0 \<subseteq> to_visited s''"
          using J q by (auto simp: quiet_def)
        moreover have "length (to_queue s'') + pending g (to_visited s'') \<le>
            length (to_queue s) + pending g (to_visited ?s0) +
            length (concat (map (\<lambda>x. case x of After u \<Rightarrow> [u] | _ \<Rightarrow> []) (xs @ [x])))"
          using J q Now unfolding quiet_def by simp
        ultimately show ?thesis by blast
      qed
      have "in_graph g u" using topo_steps_in_graph [OF wf t, of u] eq Now by simp
      moreover have "do_step call t x s' = call u s'" by (simp add: Now)
      ultimately have "spec UNIV (do_step call t x s') (quiet g s')" using call by simp
      then show ?thesis by (rule spec_mono) (rule step)
    next
      case (After u)
      then show ?thesis using J by (auto simp: acceptAfter_def)
    next
      case Emit
      have "Emit \<notin> set xs" using topo_steps_emit(1) eq Emit by blast
      then obtain ys where ys: "to_sorted s' = to_sorted s @ ys" "distinct ys"
        "set ys \<subseteq> to_visited s' - to_visited s" "t \<notin> set ys" using J by blast
      have "t \<in> to_visited s'" using J by auto
      then have "to_sorted (topo_push t s') = to_sorted s @ (ys @ [t]) \<and> distinct (ys @ [t]) \<and>
          set (ys @ [t]) \<subseteq> to_visited (topo_push t s') - to_visited s"
        using ys False by (auto simp: topo_push_def)
      moreover have "to_visited (topo_push t s') = to_visited s'" "to_queue (topo_push t s') = to_queue s'"
        by (simp_all add: topo_push_def)
      ultimately show ?thesis using J Emit by auto
    qed
  qed (simp add: quiet_def)
  then have "spec UNIV (topo_accept g call t s) (?J (topo_steps g t))"
    using False topo_visit_steps [OF wf t] by (simp add: topo_accept_def)
  then show ?thesis
  proof (rule spec_mono)
    fix s' assume J: "?J (topo_steps g t) s'"
    then have "length (to_queue s') + pending g (to_visited s') \<le> length (to_queue s) + pending g (to_visited s)"
      using pending_visit [OF False t] by (simp add: delayed_def [symmetric])
    then show "quiet g s s'" using J unfolding quiet_def by auto
  qed
qed (simp add: topo_accept_def quiet_refl)

lemma recur_quiet:
  assumes "wf_refs g"
  shows "in_graph g t \<Longrightarrow> spec UNIV (recur (topo_accept g) n t s) (quiet g s)"
proof (induction n arbitrary: t s)
  case (Suc n)
  then show ?case unfolding recur.simps by (intro accept_quiet [OF assms])
qed simp

section \<open>The walk\<close>

definition topo_edges :: "type_graph \<Rightarrow> tref \<Rightarrow> tref list" where
  "topo_edges g t = deps g t @ delayed g t"

definition topo_univ :: "type_graph \<Rightarrow> tref set" where
  "topo_univ g = {t \<in> reach (topo_edges g) (rootTypes g). in_graph g t}"

text \<open>Everything a type needs, directly or not, stands before it.\<close>

definition ordered :: "type_graph \<Rightarrow> tref list \<Rightarrow> bool" where
  "ordered g ts \<longleftrightarrow> (\<forall>k < length ts. \<forall>u. (u, ts ! k) \<in> (needs g)\<^sup>+ \<and> listed g u \<longrightarrow> u \<in> set (take k ts))"

definition descends :: "type_graph \<Rightarrow> (tref \<Rightarrow> nat) \<Rightarrow> bool" where
  "descends g height \<longleftrightarrow> (\<forall>t. in_graph g t \<longrightarrow> (\<forall>u \<in> set (deps g t). height u < height t))"

definition topo_ok :: "type_graph \<Rightarrow> bool \<Rightarrow> (tref \<Rightarrow> nat) \<Rightarrow> topo \<Rightarrow> bool" where
  "topo_ok g dag height s \<longleftrightarrow> wf_refs g \<and> to_visited s \<subseteq> topo_univ g \<and> set (to_queue s) \<subseteq> topo_univ g \<and>
     (\<forall>t \<in> set (to_sorted s). t \<in> to_visited s \<and> listed g t) \<and>
     (\<forall>k. PrimRef k \<in> to_visited s \<longrightarrow> PrimRef k \<in> set (to_sorted s)) \<and>
     (dag \<longrightarrow> descends g height \<and> ordered g (to_sorted s))"

definition topo_frame :: "topo \<Rightarrow> topo \<Rightarrow> bool" where
  "topo_frame s s' \<longleftrightarrow> to_visited s \<subseteq> to_visited s' \<and> prefix (to_sorted s) (to_sorted s') \<and>
     prefix (to_queue s) (to_queue s')"

definition topo_final :: "type_graph \<Rightarrow> bool \<Rightarrow> topo \<Rightarrow> tref \<Rightarrow> bool" where
  "topo_final g dag s t \<longleftrightarrow> (listed g t \<longrightarrow> t \<in> set (to_sorted s)) \<and>
     set (delayed g t) \<subseteq> to_visited s \<union> set (to_queue s) \<and>
     (dag \<longrightarrow> (\<forall>u. (u, t) \<in> (needs g)\<^sup>+ \<and> listed g u \<longrightarrow> u \<in> set (to_sorted s)))"

lemma topo_frame_trans: "topo_frame s s' \<Longrightarrow> topo_frame s' s'' \<Longrightarrow> topo_frame s s''"
  unfolding topo_frame_def using prefix_order.trans by blast

lemma topo_final_frame:
  assumes "topo_final g dag s t" and "topo_frame s s'"
  shows "topo_final g dag s' t"
proof -
  have "set (to_sorted s) \<subseteq> set (to_sorted s')" "set (to_queue s) \<subseteq> set (to_queue s')" "to_visited s \<subseteq> to_visited s'"
    using assms(2) set_mono_prefix unfolding topo_frame_def by blast+
  then show ?thesis using assms(1) unfolding topo_final_def by blast
qed

interpretation tpf: walk_frame "\<lambda>s. g" "\<lambda>s t. t \<in> to_visited s" "\<lambda>t. True" "length (nodes g)" "node_at g"
  "topo_univ g" "topo_ok g dag height" topo_frame "deps g" "topo_final g dag" "{}" dag height for g dag height
proof (unfold_locales, goal_cases)
  case (3 s s' s'')
  then show ?case by (rule topo_frame_trans)
next
  case (4 s t s')
  then show ?case using topo_final_frame by blast
qed (simp_all add: topo_univ_def topo_frame_def)

lemma topo_univ_step:
  assumes "wf_refs g" and "t \<in> topo_univ g" and "Now u \<in> set (topo_steps g t) \<or> After u \<in> set (topo_steps g t)"
  shows "u \<in> topo_univ g"
proof -
  have "u \<in> set (topo_edges g t)" using assms(3) by (auto simp: topo_edges_def deps_iff delayed_iff)
  then have "u \<in> reach (topo_edges g) (rootTypes g)" using assms(2) reach.step unfolding topo_univ_def by blast
  moreover have "in_graph g u" using topo_steps_in_graph assms unfolding topo_univ_def by blast
  ultimately show ?thesis by (simp add: topo_univ_def)
qed

lemma needs_steps:
  assumes "(v, t) \<in> (needs g)\<^sup>+"
  obtains (direct) "v \<in> set (deps g t)" | (indirect) u where "u \<in> set (deps g t)" "(v, u) \<in> (needs g)\<^sup>+"
  using tranclD2 [OF assms] by (auto simp: needs_def rtrancl_eq_or_trancl)

lemma prim_deps [simp]: "deps g (PrimRef k) = []" "listed g (PrimRef k)" "topo_steps g (PrimRef k) = [Emit]"
  "delayed g (PrimRef k) = []"
  by (simp_all add: deps_def topo_steps_def listed_def delayed_def)

lemma needed_listed:
  assumes ok: "topo_ok g dag height s" and dag: "dag"
    and post: "\<And>u. u \<in> set (deps g t) \<Longrightarrow> tpf.pass_post g dag u s"
    and v: "(v, t) \<in> (needs g)\<^sup>+" "listed g v"
  shows "v \<in> set (to_sorted s)"
proof -
  have below: "(listed g u \<longrightarrow> u \<in> set (to_sorted s)) \<and>
      (\<forall>w. (w, u) \<in> (needs g)\<^sup>+ \<and> listed g w \<longrightarrow> w \<in> set (to_sorted s))" if u: "u \<in> set (deps g t)" for u
  proof (cases u)
    case (PrimRef k)
    moreover have "u \<in> to_visited s" using post [OF u] by (simp add: tpf.pass_post_def)
    moreover have "(w, PrimRef k) \<notin> (needs g)\<^sup>+" for w by (metis needs_steps prim_deps(1) empty_iff empty_set)
    ultimately show ?thesis using ok by (auto simp: topo_ok_def)
  next
    case (NodeRef i)
    then have "tpf.finished g dag s i" using post [OF u] dag by (simp add: tpf.pass_post_def)
    then show ?thesis using dag NodeRef by (auto simp: tpf.finished_def topo_final_def)
  qed
  from v(1) show ?thesis by (cases rule: needs_steps) (use below v(2) in blast)+
qed

lemma ordered_push:
  assumes "ordered g ts" and "\<And>u. (u, t) \<in> (needs g)\<^sup>+ \<Longrightarrow> listed g u \<Longrightarrow> u \<in> set ts"
  shows "ordered g (ts @ [t])"
  using assms by (auto simp: ordered_def nth_append less_Suc_eq)

lemma ok_push:
  assumes ok: "topo_ok g dag height s" and t: "t \<in> to_visited s" "listed g t"
    and post: "\<And>u. u \<in> set (deps g t) \<Longrightarrow> tpf.pass_post g dag u s"
  shows "topo_ok g dag height (topo_push t s)" "topo_frame s (topo_push t s)"
proof -
  have "ordered g (to_sorted s @ [t])" if dag
    using ok that needed_listed [OF ok that post] by (intro ordered_push) (auto simp: topo_ok_def)
  then show "topo_ok g dag height (topo_push t s)" using ok t by (auto simp: topo_ok_def topo_push_def)
  show "topo_frame s (topo_push t s)" by (simp add: topo_frame_def topo_push_def)
qed

lemma topo_visit_contract:
  assumes ok: "topo_ok g dag height s" and t: "t \<in> topo_univ g" "t \<notin> to_visited s"
    and call: "\<And>i. t = NodeRef i \<Longrightarrow> tpf.accepts g dag height t s call"
  shows "spec {} (topo_accept g call t s) (\<lambda>s'. tpf.progress g dag height t s s' \<and> topo_final g dag s' t \<and>
    (\<forall>u \<in> set (deps g t). u \<in> to_visited s'))"
proof -
  let ?s0 = "s\<lparr>to_visited := insert t (to_visited s)\<rparr>"
  have wf: "wf_refs g" and tg: "in_graph g t" using ok t by (auto simp: topo_ok_def topo_univ_def)
  have eq: "topo_accept g call t s = for_each (do_step call t) (topo_steps g t) ?s0"
    using t(2) topo_visit_steps [OF wf tg] by (simp add: topo_accept_def)
  show ?thesis
  proof (cases t)
    case (PrimRef k)
    have none: "(u, PrimRef k) \<notin> (needs g)\<^sup>+" for u by (metis needs_steps prim_deps(1) empty_iff empty_set)
    have "ordered g (to_sorted s @ [t])" if dag
      using ok that none PrimRef by (intro ordered_push) (auto simp: topo_ok_def)
    then have "topo_ok g dag height (topo_push t ?s0)"
      using ok t PrimRef by (auto simp: topo_ok_def topo_push_def)
    then have "tpf.progress g dag height t s (topo_push t ?s0)"
      by (intro tpf.progress_start) (auto simp: topo_push_def topo_frame_def)
    moreover have "topo_final g dag (topo_push t ?s0) t"
      using none PrimRef by (simp add: topo_final_def topo_push_def)
    ultimately show ?thesis unfolding eq by (simp add: PrimRef)
  next
    case (NodeRef i)
    note acc = call [OF NodeRef]
    let ?J = "\<lambda>xs s'. tpf.progress g dag height t s s' \<and>
      (\<forall>u. Now u \<in> set xs \<longrightarrow> tpf.pass_post g dag u s') \<and>
      (\<forall>u. After u \<in> set xs \<longrightarrow> u \<in> set (to_queue s')) \<and> (Emit \<in> set xs \<longrightarrow> t \<in> set (to_sorted s'))"
    have "spec {} (for_each (do_step call t) (topo_steps g t) ?s0) (?J (topo_steps g t))"
    proof (rule spec_for_each_prefix)
      have "topo_ok g dag height ?s0" using ok t NodeRef by (auto simp: topo_ok_def)
      then show "?J [] ?s0" by (auto intro!: tpf.progress_start simp: topo_frame_def)
      fix xs x zs and s' assume eqs: "topo_steps g t = xs @ x # zs" and J: "?J xs s'"
      have p: "tpf.progress g dag height t s s'" using J by blast
      note ok' = tpf.progressD(1) [OF p]
      show "spec {} (do_step call t x s') (?J (xs @ [x]))"
      proof (cases x)
        case (Now u)
        have u: "u \<in> topo_univ g" by (rule topo_univ_step [OF wf t(1)]) (simp add: eqs Now)
        have "dag \<longrightarrow> height u < height t"
          using ok tg eqs Now by (auto simp: topo_ok_def descends_def deps_iff)
        from tpf.acceptsD [OF acc p u this]
        have "spec {} (call u s') (\<lambda>s''. tpf.progress g dag height t s s'' \<and> tpf.later g s' s'' \<and>
          tpf.pass_post g dag u s'' \<and> (u \<in> to_visited s' \<longrightarrow> s'' = s'))" .
        then have "spec {} (call u s') (?J (xs @ [x]))"
        proof (rule spec_mono, elim conjE)
          fix s'' assume a: "tpf.progress g dag height t s s''" "tpf.later g s' s''" "tpf.pass_post g dag u s''"
          have "topo_frame s' s''" using tpf.laterD(1) a(2) .
          then have f: "set (to_queue s') \<subseteq> set (to_queue s'')" "set (to_sorted s') \<subseteq> set (to_sorted s'')"
            using set_mono_prefix unfolding topo_frame_def by blast+
          have "tpf.pass_post g dag w s''" if "Now w \<in> set (xs @ [x])" for w
            using that J a Now tpf.post_later by auto
          moreover have "w \<in> set (to_queue s'')" if "After w \<in> set (xs @ [x])" for w
            using that J Now f by auto
          moreover have "Emit \<in> set (xs @ [x]) \<longrightarrow> t \<in> set (to_sorted s'')"
            using J Now f by auto
          ultimately show "?J (xs @ [x]) s''" using a(1) by blast
        qed
        then show ?thesis by (simp add: Now)
      next
        case (After u)
        have u: "u \<in> topo_univ g" by (rule topo_univ_step [OF wf t(1)]) (simp add: eqs After)
        let ?s2 = "acceptAfter u s'"
        have f: "topo_frame s' ?s2" by (simp add: topo_frame_def acceptAfter_def)
        have "topo_ok g dag height ?s2" using ok' u by (auto simp: topo_ok_def acceptAfter_def)
        from tpf.progress_change [OF p this f]
        have p2: "tpf.progress g dag height t s ?s2" by (simp add: acceptAfter_def)
        have "tpf.later g s' ?s2" using f by (simp add: tpf.later_def acceptAfter_def)
        then show ?thesis using J p2 After tpf.post_later by (auto simp: acceptAfter_def)
      next
        case Emit
        have listed: "listed g t" by (simp add: listed_def eqs Emit)
        have deps: "tpf.pass_post g dag u s'" if "u \<in> set (deps g t)" for u
          using topo_steps_emit(3) [OF eqs [unfolded Emit] that] J by blast
        have "t \<in> to_visited s'" using tpf.progressD(3) [OF p] by simp
        note push = ok_push [OF ok' this listed deps]
        from tpf.progress_change [OF p push]
        have p2: "tpf.progress g dag height t s (topo_push t s')" by (simp add: topo_push_def)
        have "tpf.later g s' (topo_push t s')" using push(2) by (simp add: tpf.later_def topo_push_def)
        then show ?thesis using J p2 Emit tpf.post_later by (auto simp: topo_push_def)
      qed
    qed
    then show ?thesis
      unfolding eq
    proof (rule spec_mono, elim conjE)
      fix s' assume p: "tpf.progress g dag height t s s'"
        and now: "\<forall>u. Now u \<in> set (topo_steps g t) \<longrightarrow> tpf.pass_post g dag u s'"
        and aft: "\<forall>u. After u \<in> set (topo_steps g t) \<longrightarrow> u \<in> set (to_queue s')"
        and em: "Emit \<in> set (topo_steps g t) \<longrightarrow> t \<in> set (to_sorted s')"
      have post: "tpf.pass_post g dag u s'" if "u \<in> set (deps g t)" for u
        using now that by (simp add: deps_iff)
      have "topo_final g dag s' t"
        using aft em needed_listed [OF tpf.progressD(1) [OF p] _ post]
        by (auto simp: topo_final_def listed_def delayed_iff)
      moreover have "\<forall>u \<in> set (deps g t). u \<in> to_visited s'" using post by (simp add: tpf.pass_post_def)
      ultimately show "tpf.progress g dag height t s s' \<and> topo_final g dag s' t \<and>
        (\<forall>u \<in> set (deps g t). u \<in> to_visited s')" using p by blast
    qed
  qed
qed


interpretation tp: node_walk "\<lambda>s. g" "\<lambda>s t. t \<in> to_visited s" "\<lambda>t. True" "length (nodes g)" "node_at g"
  "topo_univ g" "topo_ok g dag height" topo_frame "deps g" "topo_final g dag" "{}" dag height "topo_accept g"
  for g dag height
proof (unfold_locales, goal_cases)
  case (1 s t call)
  then show ?case by (simp add: topo_accept_def)
next
  case (2 s t call)
  then show ?case using topo_visit_contract [of g dag height s t call] by auto
qed

section \<open>The loop\<close>

text \<open>Between two rounds every visited type is dealt with.\<close>

definition topo_rest :: "type_graph \<Rightarrow> bool \<Rightarrow> (tref \<Rightarrow> nat) \<Rightarrow> topo \<Rightarrow> bool" where
  "topo_rest g dag height s \<longleftrightarrow> topo_ok g dag height s \<and> distinct (to_sorted s) \<and>
     set (rootTypes g) \<subseteq> to_visited s \<union> set (to_queue s) \<and>
     (\<forall>t \<in> to_visited s. topo_final g dag s t \<and> set (deps g t) \<subseteq> to_visited s)"

lemma topo_round:
  assumes rest: "topo_rest g dag height s" and q: "to_queue s = t # q"
  shows "\<exists>s'. recur (topo_accept g) (chain_depth g) t s = Inr s' \<and>
    topo_rest g dag height (s'\<lparr>to_queue := tl (to_queue s')\<rparr>) \<and> to_queue s' \<noteq> [] \<and>
    length (to_queue s') + pending g (to_visited s') \<le> length (to_queue s) + pending g (to_visited s)"
proof -
  have ok: "topo_ok g dag height s" using rest by (simp add: topo_rest_def)
  then have wf: "wf_refs g" and tU: "t \<in> topo_univ g" and vis: "to_visited s \<subseteq> topo_univ g"
    using q by (auto simp: topo_ok_def)
  have fin: "tpf.finished g dag s i" if "NodeRef i \<in> to_visited s" for i
    using rest vis that by (auto simp: topo_rest_def tpf.finished_def)
  have inv: "tpf.pass_inv g dag height s" using ok by (simp add: tpf.pass_inv_def)
  have arg: "tpf.pass_arg g dag height t s"
    using tU fin by (auto simp: tpf.pass_arg_def tpf.left_below_def)
  have "card {i. i < length (nodes g) \<and> NodeRef i \<notin> to_visited s} \<le> card {..<length (nodes g)}"
    by (rule card_mono) auto
  then have "tpf.pass_rank g t s < chain_depth g" by (simp add: tpf.pass_rank_def chain_depth_def)
  from tp.walk.recur_spec [OF inv arg this] obtain s' where
    s': "recur (topo_accept g) (chain_depth g) t s = Inr s'" and inv': "tpf.pass_inv g dag height s'"
    and rel: "tpf.pass_rel g dag s s'" and post: "tpf.pass_post g dag t s'"
    by (auto simp: spec_empty_iff)
  have quiet: "quiet g s s'"
    using recur_quiet [OF wf, of t "chain_depth g" s] tU s' by (simp add: topo_univ_def)
  have ok': "topo_ok g dag height s'" using tpf.pass_invD inv' .
  have tv: "t \<in> to_visited s'" using post by (simp add: tpf.pass_post_def)
  obtain q' where q': "to_queue s' = t # q'" using quiet q by (auto simp: quiet_def prefix_def)
  let ?s = "s'\<lparr>to_queue := tl (to_queue s')\<rparr>"
  have "topo_ok g dag height ?s" using ok' q' by (auto simp: topo_ok_def)
  moreover have "distinct (to_sorted ?s)"
  proof -
    have "set (to_sorted s) \<subseteq> to_visited s" using ok by (auto simp: topo_ok_def)
    moreover obtain xs where "to_sorted s' = to_sorted s @ xs" "distinct xs" "set xs \<subseteq> to_visited s' - to_visited s"
      using quiet unfolding quiet_def by blast
    moreover have "distinct (to_sorted s)" using rest by (simp add: topo_rest_def)
    ultimately show ?thesis by (simp, blast)
  qed
  moreover have "set (rootTypes g) \<subseteq> to_visited ?s \<union> set (to_queue ?s)"
  proof -
    have "set (rootTypes g) \<subseteq> to_visited s' \<union> set (to_queue s')"
      using rest quiet set_mono_prefix unfolding topo_rest_def quiet_def by blast
    then show ?thesis using q' tv by auto
  qed
  moreover have "topo_final g dag ?s u \<and> set (deps g u) \<subseteq> to_visited ?s" if u: "u \<in> to_visited ?s" for u
  proof (cases u)
    case (PrimRef k)
    have none: "(w, PrimRef k) \<notin> (needs g)\<^sup>+" for w by (metis needs_steps prim_deps(1) empty_iff empty_set)
    have "u \<in> set (to_sorted s')" using ok' u PrimRef by (auto simp: topo_ok_def)
    then show ?thesis using none PrimRef by (simp add: topo_final_def)
  next
    case (NodeRef i)
    have "NodeRef i \<in> topo_univ g" using ok' u NodeRef by (auto simp: topo_ok_def)
    then have i: "i < length (nodes g)" by (simp add: topo_univ_def)
    have "tpf.finished g dag s' i"
    proof (cases "NodeRef i \<in> to_visited s")
      case True
      then show ?thesis using tpf.rel_finished [OF rel i] fin by blast
    next
      case False
      then show ?thesis using rel u NodeRef i by (auto simp: tpf.pass_rel_def tpf.fresh_def)
    qed
    then have f: "topo_final g dag s' u" "set (deps g u) \<subseteq> to_visited s'"
      using NodeRef by (auto simp: tpf.finished_def)
    then show ?thesis using q' tv by (auto simp: topo_final_def)
  qed
  ultimately have "topo_rest g dag height ?s" unfolding topo_rest_def by blast
  then show ?thesis using s' quiet q' by (auto simp: quiet_def)
qed

lemma topo_drain_rest:
  assumes "topo_rest g dag height s" and "length (to_queue s) + pending g (to_visited s) \<le> n"
  shows "\<exists>s'. topo_drain g n s = Inr s' \<and> topo_rest g dag height s' \<and> to_queue s' = []"
  using assms
proof (induction n arbitrary: s)
  case (Suc n)
  show ?case
  proof (cases "to_queue s")
    case (Cons t q)
    from topo_round [OF Suc.prems(1) this] obtain s' where
      s': "recur (topo_accept g) (chain_depth g) t s = Inr s'"
      "topo_rest g dag height (s'\<lparr>to_queue := tl (to_queue s')\<rparr>)" "to_queue s' \<noteq> []"
      "length (to_queue s') + pending g (to_visited s') \<le> length (to_queue s) + pending g (to_visited s)" by blast
    then have "length (tl (to_queue s')) + pending g (to_visited s') \<le> n"
      using Suc.prems(2) by (cases "to_queue s'") auto
    with Suc.IH [OF s'(2)] show ?thesis using s'(1) Cons by simp
  qed (use Suc.prems in auto)
qed auto

lemma pending_start: "pending g {} \<le> sum_list (map (\<lambda>n. length (succs n)) (nodes g))"
proof -
  have "length (delayed g (NodeRef i)) \<le> length (succs (nodes g ! i))" if "i < length (nodes g)" for i
  proof -
    have "length (delayed g (NodeRef i)) \<le> length (filter (\<lambda>x. x \<noteq> Emit) (node_steps g (node_at g i)))"
    proof -
      have "length (concat (map (\<lambda>x. case x of After u \<Rightarrow> [u] | _ \<Rightarrow> []) xs)) \<le>
          length (filter (\<lambda>x. x \<noteq> Emit) xs)" for xs :: "topo_step list"
        by (induction xs) (auto split: topo_step.splits)
      then show ?thesis using that by (simp add: delayed_def topo_steps_def)
    qed
    also have "\<dots> \<le> length (succs (node_at g i))"
    proof -
      have "length (filter (\<lambda>x. x \<noteq> Emit) xs) \<le> length xs" for xs :: "topo_step list" by simp
      then show ?thesis
        by (cases "node_at g i") (auto simp: filter_empty_conv intro: order_trans [OF length_filter_le])
    qed
    finally show ?thesis by (simp add: node_at_def)
  qed
  then have "pending g {} \<le> (\<Sum>i < length (nodes g). length (succs (nodes g ! i)))"
    unfolding pending_def by (intro sum_mono) auto
  also have "\<dots> = sum_list (map (\<lambda>n. length (succs n)) (nodes g))"
    by (simp add: sum_list_sum_nth atLeast0LessThan)
  finally show ?thesis .
qed

lemma topo_sort_run:
  assumes wf: "wf_refs g" and dag: "dag \<longrightarrow> descends g height"
  shows "\<exists>s. topo_sort g (rootTypes g) = Inr s \<and> distinct (to_sorted s) \<and> (dag \<longrightarrow> ordered g (to_sorted s)) \<and>
    set (to_sorted s) = {t \<in> reach (topo_edges g) (rootTypes g). listed g t}"
proof -
  let ?s = "\<lparr>to_visited = {}, to_sorted = [], to_queue = rootTypes g\<rparr>"
  have "topo_rest g dag height ?s"
    using assms by (auto simp: topo_rest_def topo_ok_def topo_univ_def ordered_def wf_refs_def intro: reach.root)
  moreover have "length (to_queue ?s) + pending g (to_visited ?s) \<le> topo_fuel g"
    using pending_start by (simp add: topo_fuel_def)
  ultimately obtain s where s: "topo_sort g (rootTypes g) = Inr s" "topo_rest g dag height s" "to_queue s = []"
    using topo_drain_rest unfolding topo_sort_def by blast
  have "to_visited s = reach (topo_edges g) (rootTypes g)"
  proof
    show "to_visited s \<subseteq> reach (topo_edges g) (rootTypes g)"
      using s(2) by (auto simp: topo_rest_def topo_ok_def topo_univ_def)
    show "reach (topo_edges g) (rootTypes g) \<subseteq> to_visited s"
      using s(2,3) by (intro reach_least) (auto simp: topo_rest_def topo_edges_def topo_final_def)
  qed
  then have "set (to_sorted s) = {t \<in> reach (topo_edges g) (rootTypes g). listed g t}"
    using s(2) unfolding topo_rest_def topo_ok_def topo_final_def by blast
  then show ?thesis using s by (auto simp: topo_rest_def topo_ok_def)
qed

lemma topoSorter_contract:
  assumes "wf_graph g"
  shows "\<exists>ts. topoSorter_pass g v = Inr (g\<lparr>finalTypes := ts\<rparr>, v) \<and> distinct ts \<and>
    set ts = {t \<in> reach (topo_edges g) (rootTypes g). listed g t}"
  using topo_sort_run [of g False] assms by (auto simp: topoSorter_pass_def wf_graph_def)

text \<open>
  C11: the pass returns on every graph, with cycles or not, and changes nothing but \<^verbatim>\<open>finalTypes\<close>, which
  becomes a list without repetition of exactly the reachable types that have a definition (all but
  \<^verbatim>\<open>Dummy\<close> and \<^verbatim>\<open>DummyAllocator\<close>).
\<close>

theorem topoSorter_complete:
  assumes "wf_graph g"
  shows "\<exists>ts. topoSorter_pass g v = Inr (g\<lparr>finalTypes := ts\<rparr>, v) \<and> distinct ts \<and>
    set ts = {t \<in> reach (topo_edges g) (rootTypes g). listed g t}"
  using assms by (rule topoSorter_contract)

text \<open>
  C12: if the types that must be complete for a definition can be ranked, then everything a type needs,
  directly or through other types, stands before it.
\<close>

theorem topoSorter_order:
  assumes "wf_graph g" and "\<And>t u. in_graph g t \<Longrightarrow> u \<in> set (deps g t) \<Longrightarrow> height u < (height t :: nat)"
  shows "\<exists>ts. topoSorter_pass g v = Inr (g\<lparr>finalTypes := ts\<rparr>, v) \<and>
    (\<forall>k < length ts. \<forall>u. (u, ts ! k) \<in> (needs g)\<^sup>+ \<longrightarrow> listed g u \<longrightarrow> u \<in> set (take k ts))"
proof -
  have "descends g height" using assms(2) by (simp add: descends_def)
  then show ?thesis
    using topo_sort_run [of g True height] assms(1) by (auto simp: topoSorter_pass_def wf_graph_def ordered_def)
qed

text \<open>A list node with a pointer to the next one, a vector of itself, a number and a flag of a typedef.\<close>

definition topo_example :: type_graph where
  "topo_example = \<lparr>nodes = [
     Class ((mk_class KStruct ''Node'' ''Node'' 48 0 0)\<lparr>cl_members :=
       [mk_member (NodeRef 1) ''next'' 0 0, mk_member (NodeRef 2) ''kids'' 64 0,
        mk_member (PrimRef Int64) ''n'' 256 0, mk_member (NodeRef 3) ''flag'' 320 0]\<rparr>),
     Pointer \<lparr>pt_id = 1, pt_pointee = NodeRef 0, pt_inputName = '''', pt_name = ''Node*''\<rparr>,
     Container ((mk_container \<lparr>ci_typeName = ''std::vector'', ci_numTemplateParams = None, ci_ctype = SEQ_TYPE,
       ci_header = ''vector'', ci_ns = [], ci_replaceTemplateParamIndex = [], ci_allocatorIndex = None,
       ci_underlyingContainerIndex = None, ci_stubTemplateParams = [], ci_captureKeys = False,
       ci_requiredFeatures = {}, ci_codegen = \<lparr>cc_decl = '''', cc_func = '''', cc_traversalFunc = '''',
       cc_extra = '''', cc_scopedExtra = '''', cc_processors = []\<rparr>, ci_matcher = ''^std::vector<''\<rparr> 24 None 2)
       \<lparr>co_templateParams := [mk_param (NodeRef 0)]\<rparr>),
     Typedef (mk_typedef ''Flag'' (PrimRef Bool) 3)],
   rootTypes = [NodeRef 1], finalTypes = [], next_id = 4\<rparr>"

lemma topo_example_wf: "wf_graph topo_example"
  by (rule wf_checkD) code_simp

lemma topo_example_sorted: "topoSorter_pass topo_example [] = Inr (topo_example\<lparr>finalTypes :=
   [NodeRef 1, NodeRef 2, PrimRef Int64, PrimRef Bool, NodeRef 3, NodeRef 0]\<rparr>, [])"
  by code_simp

theorem topoSorter_complete_witness:
  "set [NodeRef 1, NodeRef 2, PrimRef Int64, PrimRef Bool, NodeRef 3, NodeRef 0] =
   {t \<in> reach (topo_edges topo_example) (rootTypes topo_example). listed topo_example t}"
proof -
  obtain ts where ts: "topoSorter_pass topo_example [] = Inr (topo_example\<lparr>finalTypes := ts\<rparr>, [])"
    "set ts = {t \<in> reach (topo_edges topo_example) (rootTypes topo_example). listed topo_example t}"
    using topoSorter_complete [OF topo_example_wf, of "[]"] by blast
  have "ts = [NodeRef 1, NodeRef 2, PrimRef Int64, PrimRef Bool, NodeRef 3, NodeRef 0]"
    using ts(1) unfolding topo_example_sorted by (simp add: topo_example_def)
  then show ?thesis using ts(2) by simp
qed

definition topo_heights :: "tref \<Rightarrow> nat" where
  "topo_heights t = (if t = NodeRef 0 then 2 else if t = PrimRef Bool \<or> t = NodeRef 1 \<or> t = PrimRef Int64 \<or> t = NodeRef 2 then 0 else 1)"

lemma topo_example_descends:
  assumes "in_graph topo_example t" and "u \<in> set (deps topo_example t)"
  shows "topo_heights u < topo_heights t"
proof (cases t)
  case (NodeRef i)
  have all: "list_all (\<lambda>i. list_all (\<lambda>u. topo_heights u < topo_heights (NodeRef i)) (deps topo_example (NodeRef i)))
    [0..<length (nodes topo_example)]" by code_simp
  then show ?thesis using assms NodeRef by (auto simp: list_all_iff)
qed (use assms in simp)

theorem topoSorter_order_witness:
  "\<exists>ts. topoSorter_pass topo_example [] = Inr (topo_example\<lparr>finalTypes := ts\<rparr>, []) \<and>
    (\<forall>k < length ts. \<forall>u. (u, ts ! k) \<in> (needs topo_example)\<^sup>+ \<longrightarrow> listed topo_example u \<longrightarrow> u \<in> set (take k ts))"
  by (rule topoSorter_order [OF topo_example_wf topo_example_descends])

end
