(* ===== verification/Transform.thy ===== *)
theory Transform
  imports AddChildren IdentifyContainers TypeIdentifier AddPadding AlignmentCalc NameGen TopoSorter
begin

text \<open>
  \<^verbatim>\<open>CodeGen::addDrgnRoot\<close>, \<^verbatim>\<open>CodeGen::transform\<close> and \<^verbatim>\<open>PassManager\<close>: the passes in their order. What each pass
  promises is what the next ones rely on.
\<close>

section \<open>The passes in their order\<close>

text \<open>
  The state the passes share: the graph, the tracker and the descriptions of containers, to which
  \<^verbatim>\<open>KeyCapture\<close> appends. A pass gets the tracker cleared.
\<close>

type_synonym pass_env = "type_graph \<times> node_tracker \<times> container_info list"

type_synonym cg_pass = "type_graph \<Rightarrow> node_tracker \<Rightarrow> container_info list \<Rightarrow> pass_env outcome"

definition plain_pass :: "pass_fn \<Rightarrow> cg_pass" where
  "plain_pass fn g v infos = bindE (fn g v) (\<lambda>(g, v). Inr (g, v, infos))"

definition run_pass :: "cg_pass \<Rightarrow> pass_env \<Rightarrow> pass_env outcome" where
  "run_pass p s = (case s of (g, v, infos) \<Rightarrow> p g (holder_get (graph_size g) v) infos)"

definition pm_run :: "cg_pass list \<Rightarrow> pass_env \<Rightarrow> pass_env outcome" where
  "pm_run passes s = for_each run_pass passes s"

record codegen_config =
  cg_features :: "feature enum_bitset"
  cg_passThroughTypes :: "container_info list"
  cg_membersToStub :: "(string \<times> string) list"
  cg_keysToCapture :: "key_to_capture list"

text \<open>
  What the passes ask of other libraries: the search of a regular expression, drgn, \<^verbatim>\<open>std::sort\<close>; and the bounds on the
  recursions of the parser and of \<^verbatim>\<open>AddChildren\<close>.
\<close>

record 'd codegen_lib =
  lib_regex :: "string \<Rightarrow> string \<Rightarrow> bool"
  lib_drgn :: "'d drgn"
  lib_sorts :: sorts
  lib_types :: "'d type_source"
  lib_fuel :: nat
  lib_depth :: nat

definition parser_options :: "codegen_config \<Rightarrow> drgn_options" where
  "parser_options cfg = \<lparr>chaseRawPointers = bit_get (cg_features cfg) ChaseRawPointers, readEnumValues = False\<rparr>"

definition new_parser :: "type_graph \<Rightarrow> 'd parser" where
  "new_parser g = \<lparr>dp_types = Map.empty, dp_graph = g, dp_depth = 0\<rparr>"

definition addDrgnRoot :: "codegen_config \<Rightarrow> 'd codegen_lib \<Rightarrow> 'd \<Rightarrow> type_graph \<Rightarrow> type_graph outcome" where
  "addDrgnRoot cfg lib drgnType g =
     (case drgn_parse (lib_drgn lib) (lib_sorts lib) (parser_options cfg) (lib_fuel lib) drgnType (new_parser g) of
        (Inl e, p) \<Rightarrow> Inl e
      | (Inr parsedRoot, p) \<Rightarrow> Inr (addRoot parsedRoot (dp_graph p)))"

definition identify_containers :: "(string \<Rightarrow> string \<Rightarrow> bool) \<Rightarrow> cg_pass" where
  "identify_containers rx g v infos = bindE (identifyContainers_pass rx infos g) (\<lambda>g. Inr (g, v, infos))"

text \<open>
  The parser for the children is a local variable of the block that adds the pass, which has ended when the passes run;
  the pass refers to an object that is no more.
\<close>

definition dangling_parse :: "tref \<Rightarrow> string \<Rightarrow> 'd \<Rightarrow> 'd ac_state \<Rightarrow> 'd ac_state outcome" where
  "dangling_parse t fq drgnChild s = Inl (Undefined ''use of a parser that has been destroyed'')"

definition add_children :: "'d codegen_lib \<Rightarrow> cg_pass" where
  "add_children lib g v infos =
     bindE (addChildren_run dangling_parse (lib_drgn lib) (lib_types lib) (lib_depth lib) (new_parser g)) (\<lambda>g. Inr (g, v, infos))"

definition capture_keys_pass :: "codegen_config \<Rightarrow> cg_pass" where
  "capture_keys_pass cfg g v infos = keyCapture_pass (cg_keysToCapture cfg) infos g v"

text \<open>The passes that run once more after \<^verbatim>\<open>AddChildren\<close>, all passes up to the one that adds padding, and all passes.\<close>

definition shaping_passes :: "codegen_config \<Rightarrow> 'd codegen_lib \<Rightarrow> cg_pass list" where
  "shaping_passes cfg lib =
     [identify_containers (lib_regex lib),
      plain_pass flattener_pass,
      plain_pass alignmentCalc_pass,
      plain_pass (typeIdentifier_pass (lib_regex lib) (cg_passThroughTypes cfg))] @
     (if bit_get (cg_features cfg) PruneTypeGraph then [plain_pass prune_pass] else [])"

definition front_passes :: "codegen_config \<Rightarrow> 'd codegen_lib \<Rightarrow> cg_pass list" where
  "front_passes cfg lib =
     [plain_pass removeTopLevelPointers] @
     shaping_passes cfg lib @
     (if bit_get (cg_features cfg) PolymorphicInheritance then [add_children lib] @ shaping_passes cfg lib else []) @
     [plain_pass (removeMembers_pass (cg_membersToStub cfg))] @
     (if \<not> bit_get (cg_features cfg) TreeBuilderV2 then [plain_pass enforceCompatibility_pass] else []) @
     (if bit_get (cg_features cfg) TreeBuilderV2 \<and> cg_keysToCapture cfg \<noteq> []
      then [capture_keys_pass cfg] else []) @
     [plain_pass addPadding_pass]"

definition transform_passes :: "codegen_config \<Rightarrow> 'd codegen_lib \<Rightarrow> cg_pass list" where
  "transform_passes cfg lib = front_passes cfg lib @ [plain_pass nameGen_pass, plain_pass topoSorter_pass]"

definition transform :: "codegen_config \<Rightarrow> 'd codegen_lib \<Rightarrow> type_graph \<Rightarrow> container_info list \<Rightarrow> pass_env outcome" where
  "transform cfg lib g infos = pm_run (transform_passes cfg lib) (g, [], infos)"

text \<open>
  The steps before: the files that describe containers are read one after the other (what the constructor of a
  description gives is a parameter), and the root is parsed. \<open>None\<close> is the return of \<^verbatim>\<open>false\<close>; what follows is \<^verbatim>\<open>generate\<close>.
\<close>

definition ContainerInfoError :: error where
  "ContainerInfoError = Throw ''ContainerInfoError''"

definition registerContainer :: "codegen_config \<Rightarrow> container_info outcome \<Rightarrow> container_info list \<Rightarrow> container_info list outcome" where
  "registerContainer cfg source infos = bindE source (\<lambda>info.
     if ci_requiredFeatures info \<noteq> bits_and (cg_features cfg) (ci_requiredFeatures info) then Inr infos
     else Inr (infos @ [info]))"

fun registerContainers :: "codegen_config \<Rightarrow> container_info outcome list \<Rightarrow> container_info list \<Rightarrow> (bool \<times> container_info list) outcome" where
  "registerContainers cfg [] infos = Inr (True, infos)"
| "registerContainers cfg (source # sources) infos = (case registerContainer cfg source infos of
     Inl e \<Rightarrow> if e = ContainerInfoError then Inr (False, infos) else Inl e
   | Inr infos \<Rightarrow> registerContainers cfg sources infos)"

definition codegenFromDrgn :: "codegen_config \<Rightarrow> 'd codegen_lib \<Rightarrow> container_info outcome list \<Rightarrow> 'd \<Rightarrow> type_graph \<Rightarrow>
    container_info list \<Rightarrow> pass_env option outcome" where
  "codegenFromDrgn cfg lib sources drgnType g infos =
     bindE (registerContainers cfg sources infos) (\<lambda>(ok, infos).
     if \<not> ok then Inr None
     else case addDrgnRoot cfg lib drgnType g of
       Inl e \<Rightarrow> if e = DrgnParserError then Inr None else Inl e
     | Inr g \<Rightarrow> bindE (transform cfg lib g infos) (\<lambda>s. Inr (Some s)))"

lemma registerContainers_features:
  "registerContainers cfg sources infos = Inr (ok, infos') \<Longrightarrow> info \<in> set infos' \<Longrightarrow>
    info \<in> set infos \<or> ci_requiredFeatures info \<subseteq> cg_features cfg"
proof (induction cfg sources infos rule: registerContainers.induct)
  case (2 cfg source sources infos)
  then show ?case
    by (cases source) (auto simp: registerContainer_def bits_and_def split: if_splits)
qed simp

section \<open>Chains of references that end\<close>

context reference_chain
begin

lemma ranked_ends:
  assumes "\<And>t u. nxt g t = Some u \<Longrightarrow> rk u < (rk t :: nat)"
  shows "recur body (chain_depth g) t g \<noteq> Inl Diverge"
proof -
  have bound: "follow g n t = Some u \<Longrightarrow> n + rk u \<le> rk t" for n u t
  proof (induction n arbitrary: t)
    case (Suc n)
    then obtain w where w: "nxt g t = Some w" "follow g n w = Some u" by (cases "nxt g t") auto
    then show ?case using Suc.IH [OF w(2)] assms [OF w(1)] by linarith
  qed simp
  have "follow g (Suc (rk t)) t = None"
  proof (rule ccontr)
    assume "follow g (Suc (rk t)) t \<noteq> None"
    then obtain u where "follow g (Suc (rk t)) t = Some u" by blast
    from bound [OF this] show False by simp
  qed
  then have "recur body (Suc (rk t)) t g \<noteq> Inl Diverge" unfolding recur_diverges by blast
  then show ?thesis using depth_exact by metis
qed

end

text \<open>The reference that one of the virtual functions follows from a node.\<close>

fun link_nxt :: "ty \<Rightarrow> tref option" where
  "link_nxt (Incomplete i) = (case in_underlying i of Inl _ \<Rightarrow> None | Inr u \<Rightarrow> Some u)"
| "link_nxt (Array a) = Some (ar_elementType a)"
| "link_nxt (Typedef td) = Some (td_underlying td)"
| "link_nxt (CaptureKeys c) = Some (ck_underlying c)"
| "link_nxt _ = None"

definition linked :: "(tref \<Rightarrow> nat) \<Rightarrow> type_graph \<Rightarrow> bool" where
  "linked rk g \<longleftrightarrow> (\<forall>i < length (nodes g). \<forall>u. link_nxt (node_at g i) = Some u \<longrightarrow> rk u < rk (NodeRef i))"

lemma linked_nxt:
  assumes "linked rk g" "\<And>n u. f n = Some u \<Longrightarrow> link_nxt n = Some u" "nxt_ref f g t = Some u"
  shows "rk u < rk t"
proof -
  obtain n where n: "deref g t = Inr n" "f n = Some u" using assms(3) by (auto simp: nxt_ref_def split: sum.splits)
  have l: "link_nxt n = Some u" by (rule assms(2) [OF n(2)])
  then obtain i where "t = NodeRef i" "i < length (nodes g)" "node_at g i = n"
    using deref_owner [OF n(1)] by (cases n) auto
  then show ?thesis using assms(1) l by (auto simp: linked_def)
qed

lemma linked_ends:
  assumes "linked rk g"
  shows "type_size g t \<noteq> Inl Diverge" "type_align g t \<noteq> Inl Diverge" "type_inputName g t \<noteq> Inl Diverge"
    "stripTypedefs g t \<noteq> Inl Diverge"
proof -
  have link: "size_nxt n = Some u \<Longrightarrow> link_nxt n = Some u" "inputName_nxt n = Some u \<Longrightarrow> link_nxt n = Some u"
    "typedef_nxt n = Some u \<Longrightarrow> link_nxt n = Some u" for n u
    by (cases n; auto split: sum.splits)+
  show "type_size g t \<noteq> Inl Diverge" "type_align g t \<noteq> Inl Diverge"
    unfolding type_size_def type_align_def
    by (rule sz.ranked_ends [where rk = rk] al.ranked_ends [where rk = rk], rule linked_nxt [OF assms link(1)], assumption+)+
  show "type_inputName g t \<noteq> Inl Diverge" unfolding type_inputName_def
    by (rule nm.ranked_ends [where rk = rk], rule linked_nxt [OF assms link(2)], assumption+)
  show "stripTypedefs g t \<noteq> Inl Diverge" unfolding stripTypedefs_def
    by (rule st.ranked_ends [where rk = rk], rule linked_nxt [OF assms link(3)], assumption+)
qed

lemma linked_extend:
  assumes wf: "wf_refs g" and rk: "linked rk g" and len: "length (nodes g) \<le> length (nodes g')"
    and old: "\<And>i. i < length (nodes g) \<Longrightarrow> link_nxt (node_at g' i) = link_nxt (node_at g i)"
    and new: "\<And>i j. length (nodes g) \<le> i \<Longrightarrow> i < length (nodes g') \<Longrightarrow> link_nxt (node_at g' i) = Some (NodeRef j) \<Longrightarrow>
      j < length (nodes g)"
  shows "\<exists>rk'. linked rk' g'"
proof -
  define rk' where "rk' = (\<lambda>t. case t of PrimRef k \<Rightarrow> rk t | NodeRef i \<Rightarrow>
    if i < length (nodes g) then rk t else Suc (rk (the (link_nxt (node_at g' i)))))"
  have "rk' u < rk' (NodeRef i)" if i: "i < length (nodes g')" "link_nxt (node_at g' i) = Some u" for i u
  proof (cases "i < length (nodes g)")
    case True
    then have l: "link_nxt (node_at g i) = Some u" using old i(2) by simp
    then have "u \<in> set (refs (node_at g i))" by (cases "node_at g i") (auto split: sum.splits)
    then have "in_graph g u" by (rule wf_refsD [OF wf True])
    then have "rk' u = rk u" by (cases u) (simp_all add: rk'_def)
    then show ?thesis using rk True l by (simp add: linked_def rk'_def)
  next
    case False
    then have "rk' u = rk u" using new [of i] i by (cases u) (simp_all add: rk'_def)
    then show ?thesis using False i(2) by (simp add: rk'_def)
  qed
  then show ?thesis unfolding linked_def by blast
qed

section \<open>What holds between the passes\<close>

definition sound :: "type_graph \<Rightarrow> bool" where
  "sound g \<longleftrightarrow> wf_graph g \<and> (\<exists>rk. linked rk g)"

definition no_parents :: "type_graph \<Rightarrow> bool" where
  "no_parents g \<longleftrightarrow> (\<forall>i < length (nodes g). \<forall>c. node_at g i = Class c \<longrightarrow> cl_parents c = [])"

text \<open>Every class with parents can be reached.\<close>

definition parents_reached :: "type_graph \<Rightarrow> bool" where
  "parents_reached g \<longleftrightarrow> (\<forall>i < length (nodes g). \<forall>c. node_at g i = Class c \<longrightarrow> cl_parents c \<noteq> [] \<longrightarrow>
     NodeRef i \<in> reach (edges (\<lambda>n. n) g) (rootTypes g))"

lemma soundD:
  assumes "sound g"
  shows "wf_graph g" "wf_refs g" "typedefs_end g" "sizes_end g" "names_end g"
proof -
  obtain rk where rk: "linked rk g" using assms by (auto simp: sound_def)
  show "wf_graph g" "wf_refs g" using assms by (simp_all add: sound_def wf_graph_def)
  show "typedefs_end g" "sizes_end g" "names_end g"
    using linked_ends [OF rk] by (simp_all add: typedefs_end_def sizes_end_def names_end_def)
qed

lemma sound_size: "sound g \<Longrightarrow> in_graph g t \<Longrightarrow> \<exists>z. type_size g t = Inr z"
  unfolding type_size_def using recur_size_total(1) soundD(2,4) by (fastforce simp: sizes_end_def type_size_def)

lemma sound_align:
  assumes "sound g" "in_graph g t"
  shows "has_align g t"
proof -
  obtain rk where "linked rk g" using assms(1) by (auto simp: sound_def)
  then have "type_align g t \<noteq> Inl Diverge" by (rule linked_ends)
  then show ?thesis using recur_size_total(2) [OF soundD(2) [OF assms(1)] assms(2)] by (auto simp: has_align_def type_align_def)
qed

lemma member_in_graph:
  assumes "wf_refs g" "Class c \<in> set (nodes g)" "m \<in> set (cl_members c)"
  shows "in_graph g (m_type m)"
proof -
  obtain i where "i < length (nodes g)" "node_at g i = Class c" using assms(2) by (auto simp: in_set_conv_nth node_at_def)
  then show ?thesis using wf_refsD [OF assms(1)] assms(3) by fastforce
qed

lemma sound_extend:
  assumes "sound g" "wf_graph g'" "length (nodes g) \<le> length (nodes g')"
    and "\<And>i. i < length (nodes g) \<Longrightarrow> link_nxt (node_at g' i) = link_nxt (node_at g i)"
    and "\<And>i j. length (nodes g) \<le> i \<Longrightarrow> i < length (nodes g') \<Longrightarrow> link_nxt (node_at g' i) = Some (NodeRef j) \<Longrightarrow> j < length (nodes g)"
  shows "sound g'"
proof -
  obtain rk where "linked rk g" using assms(1) by (auto simp: sound_def)
  from linked_extend [OF soundD(2) [OF assms(1)] this assms(3-5)] assms(2) show ?thesis by (simp add: sound_def)
qed

section \<open>The contract of a list of passes\<close>

text \<open>From an environment with \<open>P\<close> the passes fail with an error of \<open>E\<close> or leave one with \<open>Q\<close>.\<close>

definition contract :: "error set \<Rightarrow> (pass_env \<Rightarrow> bool) \<Rightarrow> cg_pass list \<Rightarrow> (pass_env \<Rightarrow> bool) \<Rightarrow> bool" where
  "contract E P ps Q \<longleftrightarrow> (\<forall>s. P s \<longrightarrow> spec E (pm_run ps s) Q)"

lemma pm_run_append: "pm_run (ps @ qs) s = bindE (pm_run ps s) (pm_run qs)"
proof -
  have "pm_run qs = for_each run_pass qs" by (rule ext) (simp add: pm_run_def)
  then show ?thesis by (simp add: pm_run_def)
qed

lemma contract_none: "contract E P [] P"
  by (simp add: contract_def pm_run_def)

lemma contract_seq:
  assumes "contract E P ps Q" "contract E Q qs R"
  shows "contract E P (ps @ qs) R"
  unfolding contract_def pm_run_def for_each_append
  using assms unfolding contract_def pm_run_def by (blast intro: spec_bindI)

lemma contract_Cons:
  assumes "contract E P [p] Q" "contract E Q qs R"
  shows "contract E P (p # qs) R"
  using contract_seq [OF assms] by simp

lemma contract_if:
  assumes "b \<Longrightarrow> contract E P ps P"
  shows "contract E P (if b then ps else []) P"
  using assms contract_none by simp

lemma contract_weaken:
  assumes "contract E P ps Q" "E \<subseteq> E'" "\<And>s. P' s \<Longrightarrow> P s" "\<And>s. Q s \<Longrightarrow> Q' s"
  shows "contract E' P' ps Q'"
  unfolding contract_def
  using assms spec_weaken_errors [OF _ assms(2)] spec_mono unfolding contract_def by metis

lemma contract_pass:
  assumes "\<And>g v infos. P (g, v, infos) \<Longrightarrow> spec E (p g (holder_get (graph_size g) v) infos) Q"
  shows "contract E P [p] Q"
proof -
  have "for_each run_pass [] = Inr" by (rule ext) simp
  then have "pm_run [p] s = run_pass p s" for s by (simp add: pm_run_def)
  then show ?thesis using assms by (simp add: contract_def run_pass_def split: prod.splits)
qed

lemma contract_plain:
  assumes "\<And>g v infos. P (g, v, infos) \<Longrightarrow> spec E (fn g (holder_get (graph_size g) v)) (\<lambda>(g', v'). Q (g', v', infos))"
  shows "contract E P [plain_pass fn] Q"
  by (rule contract_pass) (auto simp: plain_pass_def intro!: spec_bind_prodI assms)

section \<open>What the passes keep\<close>

definition parents_of :: "ty \<Rightarrow> parent list" where
  "parents_of n = (case n of Class c \<Rightarrow> cl_parents c | _ \<Rightarrow> [])"

definition virtuality_of :: "ty \<Rightarrow> int" where
  "virtuality_of n = (case n of Class c \<Rightarrow> cl_virtuality c | _ \<Rightarrow> 0)"

lemma no_parents_iff: "no_parents g \<longleftrightarrow> (\<forall>i < length (nodes g). parents_of (node_at g i) = [])"
  unfolding no_parents_def parents_of_def by (auto split: ty.splits)

text \<open>
  The graph \<open>g'\<close> has the nodes of \<open>g\<close>, with the same links and virtuality and no new parents, and perhaps more, which are not
  classes and link to old ones.
\<close>

definition keeps_node :: "ty \<Rightarrow> ty \<Rightarrow> bool" where
  "keeps_node n n' \<longleftrightarrow> link_nxt n' = link_nxt n \<and> ctor_of n' = ctor_of n \<and> (parents_of n = [] \<longrightarrow> parents_of n' = []) \<and>
     virtuality_of n' = virtuality_of n"

definition shaped :: "type_graph \<Rightarrow> type_graph \<Rightarrow> bool" where
  "shaped g g' \<longleftrightarrow> length (nodes g) \<le> length (nodes g') \<and>
     (\<forall>i < length (nodes g). keeps_node (node_at g i) (node_at g' i)) \<and>
     (\<forall>i < length (nodes g'). length (nodes g) \<le> i \<longrightarrow> ctor_of (node_at g' i) \<noteq> 1 \<and>
        (\<forall>j. link_nxt (node_at g' i) = Some (NodeRef j) \<longrightarrow> j < length (nodes g)))"

lemma keeps_node_refl [simp]: "keeps_node n n"
  by (simp add: keeps_node_def)

text \<open>What later passes rely on: chains of links end and no class has parents; there are no \<^verbatim>\<open>CaptureKeys\<close>; if \<open>q\<close>, no
  class is virtual itself.\<close>

definition steady :: "type_graph \<Rightarrow> bool" where
  "steady g \<longleftrightarrow> sound g \<and> no_parents g"

definition plain_classes :: "type_graph \<Rightarrow> bool" where
  "plain_classes g \<longleftrightarrow> (\<forall>i < length (nodes g). virtuality_of (node_at g i) = 0)"

definition ready :: "bool \<Rightarrow> type_graph \<Rightarrow> bool" where
  "ready q g \<longleftrightarrow> steady g \<and> no_capture_keys g \<and> (q \<longrightarrow> plain_classes g)"

lemma no_capture_iff: "no_capture_keys g \<longleftrightarrow> (\<forall>i < length (nodes g). ctor_of (node_at g i) \<noteq> 11)"
  by (simp add: no_capture_keys_def list_all_length node_at_def)

lemma shaped_sound: "sound g \<Longrightarrow> wf_graph g' \<Longrightarrow> shaped g g' \<Longrightarrow> sound g'"
  by (rule sound_extend [of g g']) (simp_all add: shaped_def keeps_node_def)

lemma shaped_steady:
  assumes "steady g" "wf_graph g'" "shaped g g'"
  shows "steady g'"
proof -
  have "parents_of (node_at g' i) = []" if i: "i < length (nodes g')" for i
  proof (cases "i < length (nodes g)")
    case True
    then show ?thesis using assms(1,3) by (simp add: steady_def no_parents_iff shaped_def keeps_node_def)
  next
    case False
    then have "ctor_of (node_at g' i) \<noteq> 1" using assms(3) i by (simp add: shaped_def)
    then show ?thesis by (cases "node_at g' i") (simp_all add: parents_of_def)
  qed
  then show ?thesis using shaped_sound [OF _ assms(2,3)] assms(1) by (simp add: steady_def no_parents_iff)
qed

lemma shaped_plain:
  assumes "plain_classes g" "shaped g g'"
  shows "plain_classes g'"
  unfolding plain_classes_def
proof (intro allI impI)
  fix i assume i: "i < length (nodes g')"
  show "virtuality_of (node_at g' i) = 0"
  proof (cases "i < length (nodes g)")
    case True
    then show ?thesis using assms by (simp add: plain_classes_def shaped_def keeps_node_def)
  next
    case False
    then have "ctor_of (node_at g' i) \<noteq> 1" using assms(2) i by (simp add: shaped_def)
    then show ?thesis by (cases "node_at g' i") (simp_all add: virtuality_of_def)
  qed
qed

lemma shaped_ready:
  assumes "ready q g" "wf_graph g'" "shaped g g'"
    and new: "\<And>i. length (nodes g) \<le> i \<Longrightarrow> i < length (nodes g') \<Longrightarrow> ctor_of (node_at g' i) \<noteq> 11"
  shows "ready q g'"
proof -
  have "ctor_of (node_at g' i) \<noteq> 11" if i: "i < length (nodes g')" for i
  proof (cases "i < length (nodes g)")
    case True
    then show ?thesis using assms(1,3) by (simp add: ready_def no_capture_iff shaped_def keeps_node_def)
  qed (use new i in simp)
  then show ?thesis using shaped_steady [OF _ assms(2,3)] shaped_plain [OF _ assms(3)] assms(1) by (simp add: ready_def no_capture_iff)
qed

lemma shaped_same_length:
  "length (nodes g') = length (nodes g) \<Longrightarrow> (\<And>i. i < length (nodes g) \<Longrightarrow> keeps_node (node_at g i) (node_at g' i)) \<Longrightarrow> shaped g g'"
  by (simp add: shaped_def)

text \<open>The nodes a pass rewrites, one pass after the other.\<close>

lemma keeps_flat: "flat_node n n' \<Longrightarrow> keeps_node n n'"
  by (cases n) (auto simp: flat_node_def class_kept_def keeps_node_def parents_of_def virtuality_of_def)

lemma keeps_aligned:
  assumes "strip_align n' = strip_align n"
  shows "keeps_node n n'"
proof -
  have "link_nxt (strip_align m) = link_nxt m" "parents_of (strip_align m) = parents_of m" "virtuality_of (strip_align m) = virtuality_of m" for m
    by (cases m; simp add: parents_of_def virtuality_of_def)+
  then have "link_nxt n' = link_nxt n" "parents_of n' = parents_of n" "virtuality_of n' = virtuality_of n" using assms by metis+
  then show ?thesis using strip_same(1) [OF assms] by (simp add: keeps_node_def)
qed

lemma keeps_identified: "node_kept rx infos g g' n n' \<Longrightarrow> keeps_node n n'"
  by (auto simp: node_kept_def keeps_node_def parents_of_def virtuality_of_def)

lemma keeps_local: "keeps_node n (removeMembers_node ignore g n)" "keeps_node n (enforceCompatibility_node n)" "keeps_node n (prune_fin n)"
  by (cases n; simp add: keeps_node_def parents_of_def virtuality_of_def)+

lemma keeps_captured: "kc_done keys g g' n n' \<Longrightarrow> keeps_node n n'"
  by (cases n) (auto simp: kc_done_def keeps_node_def parents_of_def virtuality_of_def)

lemma keeps_padded: "node_padded g n n' \<Longrightarrow> keeps_node n n'"
  by (cases n) (auto simp: node_padded_def keeps_node_def parents_of_def virtuality_of_def)

lemma keeps_named:
  assumes "strip_names n' = strip_names n"
  shows "keeps_node n n'"
proof -
  have "link_nxt (strip_names m) = link_nxt m" "parents_of (strip_names m) = parents_of m" "ctor_of (strip_names m) = ctor_of m"
    "virtuality_of (strip_names m) = virtuality_of m" for m
    by (cases m; simp add: parents_of_def virtuality_of_def)+
  then have "link_nxt n' = link_nxt n" "parents_of n' = parents_of n" "ctor_of n' = ctor_of n" "virtuality_of n' = virtuality_of n" using assms by metis+
  then show ?thesis by (simp add: keeps_node_def)
qed

section \<open>Before the flattener\<close>

text \<open>What the passes ask of a parsed graph: see \<open>class_rank\<close> for the order of the classes that no description matches.\<close>

definition well_parsed :: "matcher \<Rightarrow> type_graph \<Rightarrow> bool" where
  "well_parsed lookup g \<longleftrightarrow> sound g \<and> no_capture_keys g \<and> parents_reached g \<and> (\<exists>rk. class_rank lookup g rk)"

text \<open>Without its top-level pointers a graph has the same nodes, and the classes that could be reached still can.\<close>

lemma top_level_reach:
  assumes nodes: "nodes g' = nodes g"
    and roots: "rootTypes g' = map (\<lambda>t. case deref g t of
      Inr (Pointer p) \<Rightarrow> pt_pointee p | Inr (Reference r) \<Rightarrow> rf_pointee r | _ \<Rightarrow> t) (rootTypes g)"
    and t: "t \<in> reach (edges (\<lambda>n. n) g) (rootTypes g)"
  shows "t \<in> reach (edges (\<lambda>n. n) g') (rootTypes g') \<or>
    (\<exists>n u. deref g t = Inr n \<and> succs n = [u] \<and> ctor_of n \<in> {7, 8} \<and> u \<in> reach (edges (\<lambda>n. n) g') (rootTypes g'))"
  using t
proof (induction rule: reach.induct)
  case (root t)
  let ?u = "case deref g t of Inr (Pointer p) \<Rightarrow> pt_pointee p | Inr (Reference r) \<Rightarrow> rf_pointee r | _ \<Rightarrow> t"
  have "?u \<in> set (rootTypes g')" using root by (auto simp: roots)
  then have "?u \<in> reach (edges (\<lambda>n. n) g') (rootTypes g')" by (rule reach.root)
  then show ?case by (cases "deref g t") (auto split: ty.splits)
next
  case (step t u)
  have edges: "edges (\<lambda>n. n) g' t = edges (\<lambda>n. n) g t"
    by (cases t) (simp_all add: edges_def nodes deref.simps)
  show ?case
  proof (cases "t \<in> reach (edges (\<lambda>n. n) g') (rootTypes g')")
    case True
    then have "u \<in> reach (edges (\<lambda>n. n) g') (rootTypes g')"
      using step.hyps(2) unfolding edges [symmetric] by (rule reach.step)
    then show ?thesis ..
  next
    case False
    then obtain n w where w: "deref g t = Inr n" "succs n = [w]" "w \<in> reach (edges (\<lambda>n. n) g') (rootTypes g')"
      using step.IH by blast
    then have "u = w" using step.hyps(2) by (simp add: edges_def)
    then show ?thesis using w(3) by blast
  qed
qed

lemma top_level_step:
  assumes "well_parsed lookup g"
  shows "\<exists>g'. removeTopLevelPointers g v = Inr (g', v) \<and> nodes g' = nodes g \<and> well_parsed lookup g'"
proof -
  have g: "sound g" "no_capture_keys g" "parents_reached g" using assms by (simp_all add: well_parsed_def)
  obtain g' where g': "removeTopLevelPointers g v = Inr (g', v)" "wf_graph g'" "nodes g' = nodes g"
    "rootTypes g' = map (\<lambda>t. case deref g t of
      Inr (Pointer p) \<Rightarrow> pt_pointee p | Inr (Reference r) \<Rightarrow> rf_pointee r | _ \<Rightarrow> t) (rootTypes g)"
    using removeTopLevelPointers_contract [OF soundD(1) [OF g(1)], of v] by blast
  have at: "node_at g' i = node_at g i" for i by (simp add: node_at_def g'(3))
  have "sound g'" using g(1) g'(2) by (auto simp: sound_def linked_def at g'(3))
  moreover have "no_capture_keys g'" using g(2) by (simp add: no_capture_keys_def g'(3))
  moreover have "parents_reached g'"
    unfolding parents_reached_def
  proof (intro allI impI)
    fix i c assume i: "i < length (nodes g')" "node_at g' i = Class c" "cl_parents c \<noteq> []"
    then have "NodeRef i \<in> reach (edges (\<lambda>n. n) g) (rootTypes g)" using g(3) by (simp add: parents_reached_def at g'(3))
    from top_level_reach [OF g'(3,4) this] show "NodeRef i \<in> reach (edges (\<lambda>n. n) g') (rootTypes g')"
      using i(1,2) by (auto simp: at g'(3))
  qed
  moreover have "class_rank lookup g' rk = class_rank lookup g rk" for rk by (simp add: class_rank_def at g'(3))
  ultimately show ?thesis using assms g'(1,3) by (auto simp: well_parsed_def)
qed

text \<open>References that go to containers now go on to the classes they went to before.\<close>

lemma identify_node:
  assumes "IdentifyContainers.identified lookup g g'" "i < length (nodes g)"
  shows "map_refs (origin g g') (node_at g' i) = node_at g i"
  using assms by (simp add: IdentifyContainers.identified_def)

lemma identify_new:
  assumes "IdentifyContainers.identified lookup g g'" "i < length (nodes g')" "length (nodes g) \<le> i"
  shows "\<exists>d j. node_at g' i = Container d \<and> co_underlying d = Some (NodeRef j) \<and> j < length (nodes g)"
  using assms unfolding IdentifyContainers.identified_def container_for_def by blast

lemma origin_stays: "in_graph g u \<Longrightarrow> origin g g' u = u"
  by (cases u) (simp_all add: origin_def)

lemma identify_links:
  assumes wf: "wf_refs g" and id: "IdentifyContainers.identified lookup g g'" and rk: "linked rk g"
  shows "linked (\<lambda>t. rk (origin g g' t)) g'"
  unfolding linked_def
proof (intro allI impI)
  fix i u assume i: "i < length (nodes g')" "link_nxt (node_at g' i) = Some u"
  have old: "i < length (nodes g)" using identify_new [OF id i(1)] i(2) by (cases "i < length (nodes g)") auto
  then have here: "origin g g' (NodeRef i) = NodeRef i" by (simp add: origin_def)
  have "link_nxt (node_at g i) = Some (origin g g' u)"
  proof (cases "\<exists>n. node_at g' i = Incomplete n")
    case True
    then have "node_at g i = node_at g' i" using identify_node [OF id old] by auto
    then have l: "link_nxt (node_at g i) = Some u" using i(2) by simp
    then have "u \<in> set (refs (node_at g i))" by (cases "node_at g i") (auto split: sum.splits)
    then show ?thesis using l origin_stays wf_refsD [OF wf old] by auto
  next
    case False
    then have "link_nxt (map_refs (origin g g') (node_at g' i)) = map_option (origin g g') (link_nxt (node_at g' i))"
      by (cases "node_at g' i") simp_all
    then show ?thesis using identify_node [OF id old] i(2) by simp
  qed
  then show "rk (origin g g' u) < rk (origin g g' (NodeRef i))" using rk old here by (simp add: linked_def)
qed

lemma map_refs_succs: "u \<in> set (succs (map_refs f n)) \<Longrightarrow> u \<in> set (succs n) \<or> u \<in> f ` set (succs n)"
  by (cases n) (auto split: option.splits)

lemma edge_owner:
  assumes "u \<in> set (edges (\<lambda>n. n) g t)"
  obtains i where "t = NodeRef i" "i < length (nodes g)" "u \<in> set (succs (node_at g i))"
proof (cases t)
  case (NodeRef i)
  then show ?thesis using assms that [of i] by (auto simp: edges_def node_at_def deref.simps split: if_splits)
qed (use assms in \<open>simp add: edges_def\<close>)

lemma reach_in_graph:
  assumes wf: "wf_refs g" and u: "u \<in> reach (edges (\<lambda>n. n) g) (rootTypes g)"
  shows "in_graph g u"
  using u
proof (induction rule: reach.induct)
  case (step t u)
  obtain i where i: "i < length (nodes g)" "u \<in> set (succs (node_at g i))" using step.hyps(2) by (rule edge_owner) blast
  show ?case by (rule wf_refsD [OF wf i(1)]) (use i(2) succs_subset_refs in blast)
qed (use wf in \<open>simp add: wf_refs_def\<close>)

lemma origin_reach:
  assumes id: "IdentifyContainers.identified lookup g g'" and wf: "wf_refs g'"
    and u: "u \<in> reach (edges (\<lambda>n. n) g') (rootTypes g')"
  shows "origin g g' u \<in> reach (edges (\<lambda>n. n) g') (rootTypes g')"
proof (cases "in_graph g u")
  case True
  then show ?thesis using u origin_stays by simp
next
  case False
  have "in_graph g' u" by (rule reach_in_graph [OF wf u])
  show ?thesis
  proof (cases u)
    case (NodeRef i)
    then have i: "length (nodes g) \<le> i" "i < length (nodes g')" using False \<open>in_graph g' u\<close> by auto
    then obtain d j where d: "node_at g' i = Container d" "co_underlying d = Some (NodeRef j)" using identify_new [OF id] by blast
    have "origin g g' u \<in> set (edges (\<lambda>n. n) g' u)" using i d NodeRef by (simp add: origin_def edges_def)
    then show ?thesis by (rule reach.step [OF u])
  qed (use u in \<open>simp add: origin_def\<close>)
qed

lemma identify_reach:
  assumes id: "IdentifyContainers.identified lookup g g'" and wf: "wf_refs g'" and t: "t \<in> reach (edges (\<lambda>n. n) g) (rootTypes g)"
  shows "t \<in> reach (edges (\<lambda>n. n) g') (rootTypes g')"
  using t
proof (induction rule: reach.induct)
  case (root t)
  then have "t \<in> origin g g' ` set (rootTypes g')" using id unfolding IdentifyContainers.identified_def by (metis image_set)
  then show ?case using origin_reach [OF id wf] reach.root by blast
next
  case (step t u)
  obtain i where i: "t = NodeRef i" "i < length (nodes g)" "u \<in> set (succs (node_at g i))"
    using step.hyps(2) by (rule edge_owner)
  have len: "length (nodes g) \<le> length (nodes g')" using id by (simp add: IdentifyContainers.identified_def)
  have "u \<in> set (succs (node_at g' i)) \<or> u \<in> origin g g' ` set (succs (node_at g' i))"
    using map_refs_succs [of u "origin g g'" "node_at g' i"] identify_node [OF id i(2)] i(3) by simp
  moreover have "w \<in> reach (edges (\<lambda>n. n) g') (rootTypes g')" if "w \<in> set (succs (node_at g' i))" for w
    by (rule reach.step [OF step.IH]) (use that i(1,2) len in \<open>simp add: edges_def\<close>)
  ultimately show ?case using origin_reach [OF id wf] by blast
qed

definition unflattened :: "bool \<Rightarrow> type_graph \<Rightarrow> bool" where
  "unflattened q g \<longleftrightarrow> sound g \<and> no_capture_keys g \<and> parents_reached g \<and> (q \<longrightarrow> plain_classes g)"

lemma identify_plain:
  assumes id: "IdentifyContainers.identified lookup g g'" and g: "plain_classes g"
  shows "plain_classes g'"
  unfolding plain_classes_def
proof (intro allI impI)
  fix i assume i: "i < length (nodes g')"
  have same: "virtuality_of (map_refs f n) = virtuality_of n" for f n by (cases n) (simp_all add: virtuality_of_def)
  show "virtuality_of (node_at g' i) = 0"
  proof (cases "i < length (nodes g)")
    case True
    then show ?thesis using g identify_node [OF id True] same [of "origin g g'" "node_at g' i"] by (simp add: plain_classes_def)
  qed (use identify_new [OF id i] in \<open>auto simp: virtuality_of_def\<close>)
qed

lemma identify_step:
  assumes g: "well_parsed (find_container rx infos) g" and q: "q \<longrightarrow> plain_classes g"
  shows "spec (cast_errors (find_container rx infos) g) (identifyContainers_pass rx infos g)
    (unflattened q)"
proof -
  obtain rk rk' where *: "wf_graph g" "no_capture_keys g" "class_rank (find_container rx infos) g rk" "linked rk' g" "parents_reached g"
    using g by (auto simp: well_parsed_def sound_def)
  have "unflattened q g'" if id: "IdentifyContainers.identified (find_container rx infos) g g'" for g'
    unfolding unflattened_def
  proof (intro conjI)
    show "q \<longrightarrow> plain_classes g'" using q identify_plain [OF id] by blast
    have wf: "wf_graph g'" using id by (simp add: IdentifyContainers.identified_def)
    then have refs: "wf_refs g'" by (simp add: wf_graph_def)
    show "sound g'" using identify_links [OF _ id *(4)] *(1) wf by (auto simp: sound_def wf_graph_def)
    have ctor: "ctor_of (map_refs f n) = ctor_of n" for f n by (cases n) simp_all
    show "no_capture_keys g'"
      unfolding no_capture_iff
    proof (intro allI impI)
      fix i assume i: "i < length (nodes g')"
      show "ctor_of (node_at g' i) \<noteq> 11"
      proof (cases "i < length (nodes g)")
        case True
        then show ?thesis using *(2) identify_node [OF id True] ctor by (metis no_capture_iff)
      qed (use identify_new [OF id i] in auto)
    qed
    show "parents_reached g'"
      unfolding parents_reached_def
    proof (intro allI impI)
      fix i c assume i: "i < length (nodes g')" "node_at g' i = Class c" "cl_parents c \<noteq> []"
      then have old: "i < length (nodes g)" using identify_new [OF id i(1)] by (cases "i < length (nodes g)") auto
      obtain c0 where "node_at g i = Class c0" "cl_parents c0 \<noteq> []"
        by (rule that [OF identify_node [OF id old, unfolded i(2) map_refs.simps, symmetric]]) (simp add: i(3))
      then show "NodeRef i \<in> reach (edges (\<lambda>n. n) g') (rootTypes g')"
        using *(5) old identify_reach [OF id refs] by (simp add: parents_reached_def)
    qed
  qed
  from spec_mono [OF identifyContainers_contract [OF *(1-3)] this] show ?thesis .
qed

section \<open>From the flattener on\<close>

text \<open>The same identifiers, kinds of node and children.\<close>

lemma wf_transfer:
  assumes "wf_graph g" "wf_refs g'" "length (nodes g') = length (nodes g)" "next_id g' = next_id g"
    and node: "\<And>i. i < length (nodes g) \<Longrightarrow> type_id (node_at g' i) = type_id (node_at g i) \<and>
      ctor_of (node_at g' i) = ctor_of (node_at g i) \<and> kids (node_at g' i) = kids (node_at g i)"
  shows "wf_graph g'"
proof -
  have "has_node_id (node_at g' i) = has_node_id (node_at g i)" if "i < length (nodes g)" for i
    using node [OF that] ctor_of_has_id by blast
  then have "wf_ids g'" using assms(1,3,4) node by (simp add: wf_graph_def wf_ids_def)
  moreover have "wf_children g'"
    unfolding wf_children_def
  proof (intro ballI allI impI)
    fix n c t assume n: "n \<in> set (nodes g')" "n = Class c" "t \<in> set (cl_children c)"
    then obtain i where i: "i < length (nodes g)" "node_at g' i = Class c" by (auto simp: in_set_conv_nth node_at_def assms(3))
    from node [OF i(1)] obtain c0 where c0: "node_at g i = Class c0" "cl_children c0 = cl_children c"
      unfolding i(2) by (cases "node_at g i") simp_all
    moreover have "node_at g i \<in> set (nodes g)" using i(1) by (simp add: node_at_def)
    ultimately obtain d where d: "deref g t = Inr (Class d)" using assms(1) n(3) unfolding wf_graph_def wf_children_def by metis
    then obtain k where k: "t = NodeRef k" "k < length (nodes g)" "node_at g k = Class d"
      by (rule deref_owner) simp_all
    then show "\<exists>d. deref g' t = Inr (Class d)" using node [OF k(2)] assms(3) by (cases "node_at g' k") simp_all
  qed
  ultimately show ?thesis using assms(2) by (simp add: wf_graph_def)
qed

lemma flat_wf:
  assumes "wf_graph g" "flat_graph g g'" "wf_refs g'"
  shows "wf_graph g'"
proof (rule wf_transfer [OF assms(1,3)])
  have "kids n' = kids n" if "flat_node n n'" for n n'
    using that by (cases n) (auto simp: flat_node_def class_kept_def)
  then show "type_id (node_at g' i) = type_id (node_at g i) \<and> ctor_of (node_at g' i) = ctor_of (node_at g i) \<and>
      kids (node_at g' i) = kids (node_at g i)" if "i < length (nodes g)" for i
    using that assms(2) flat_node_keeps unfolding flat_graph_def by metis
qed (use assms(2) in \<open>simp_all add: flat_graph_def\<close>)

lemma flattener_step:
  assumes "unflattened q g"
  shows "spec flat_errors (pass_run flattener_pass g v) (\<lambda>(g', v'). ready q g')"
proof -
  have assms: "sound g" "no_capture_keys g" "parents_reached g" "q \<longrightarrow> plain_classes g" using assms by (simp_all add: unflattened_def)
  have "ready q g'" if "flat_graph g g'" "wf_refs g'" and gone: "\<And>i c0. i < length (nodes g) \<Longrightarrow>
      NodeRef i \<in> reach (edges (\<lambda>n. n) g) (rootTypes g) \<Longrightarrow> node_at g i = Class c0 \<Longrightarrow>
      \<exists>c. node_at g' i = Class c \<and> cl_parents c = []" for g'
  proof -
    have node: "flat_node (node_at g i) (node_at g' i)" if "i < length (nodes g)" for i
      using \<open>flat_graph g g'\<close> that by (simp add: flat_graph_def)
    have len: "length (nodes g') = length (nodes g)" using that(1) by (simp add: flat_graph_def)
    have shaped: "shaped g g'" by (rule shaped_same_length [OF len keeps_flat [OF node]])
    have "sound g'" by (rule shaped_sound [OF assms(1) flat_wf [OF soundD(1) [OF assms(1)] that(1,2)] shaped])
    moreover have "no_capture_keys g'" using assms(2) flat_node_keeps(1) [OF node] by (simp add: no_capture_iff len)
    moreover have "no_parents g'"
      unfolding no_parents_def
    proof (intro allI impI)
      fix i c assume i: "i < length (nodes g')" "node_at g' i = Class c"
      then have f: "flat_node (node_at g i) (Class c)" using node len by metis
      then obtain c0 where c0: "node_at g i = Class c0" using flat_node_class by blast
      show "cl_parents c = []"
      proof (cases "cl_parents c0 = []")
        case True
        then show ?thesis using f c0 class_kept_same by (auto simp: flat_node_def)
      next
        case False
        then show ?thesis using assms(3) gone [of i c0] i len c0 by (auto simp: parents_reached_def)
      qed
    qed
    ultimately show ?thesis using assms(4) shaped_plain [OF _ shaped] by (simp add: ready_def steady_def)
  qed
  then show ?thesis
    by (intro spec_mono [OF flattener_contract [OF soundD(1) [OF assms(1)] assms(2) soundD(3) [OF assms(1)]]]) auto
qed

lemma alignment_step:
  assumes "ready q g"
  shows "\<exists>g'. alignmentCalc_pass g v = Inr (g', v) \<and> ready q g'"
proof -
  have g: "sound g" using assms by (simp add: ready_def steady_def)
  have "has_align g u" if n: "n \<in> set (nodes g)" "u \<in> set (succs n)" for n u
  proof -
    obtain i where "i < length (nodes g)" "n = node_at g i" using n(1) by (auto simp: in_set_conv_nth node_at_def)
    then have "in_graph g u" using wf_refsD [OF soundD(2) [OF g]] n(2) succs_subset_refs by blast
    then show ?thesis by (rule sound_align [OF g])
  qed
  then have "align_ready g" using soundD(1) [OF g] by (fastforce simp: align_ready_def)
  then obtain g' where g': "alignmentCalc_pass g v = Inr (g', v)" "wf_graph g'" "same_shape g g'"
    using alignmentCalc_contract by blast
  have len: "length (nodes g') = length (nodes g)" using g'(3) by (simp add: same_shape_def)
  have "shaped g g'" using g'(3) by (intro shaped_same_length keeps_aligned) (simp_all add: same_shape_def)
  then have "ready q g'" by (rule shaped_ready [OF assms g'(2)]) (simp add: len)
  then show ?thesis using g'(1) by blast
qed

lemma typeIdentifier_step:
  assumes "ready q g"
  shows "spec {Throw ''std::out_of_range''} (typeIdentifier_pass rx infos g (holder_get (graph_size g) v)) (\<lambda>(g', v'). ready q g')"
proof -
  have g: "sound g" "no_capture_keys g" using assms by (simp_all add: ready_def steady_def)
  have "ready q g'" if g': "wf_graph g'" "extends g g'"
    and new: "\<forall>i < length (nodes g'). length (nodes g) \<le> i \<longrightarrow> ctor_of (node_at g' i) \<in> {2, 9, 10}"
    and old: "\<forall>i < length (nodes g). node_kept rx infos g g' (node_at g i) (node_at g' i)" for g'
  proof (rule shaped_ready [OF assms g'(1)])
    have "link_nxt (node_at g' i) = None \<and> ctor_of (node_at g' i) \<noteq> 1" if "length (nodes g) \<le> i" "i < length (nodes g')" for i
      using new that by (cases "node_at g' i") auto
    then show "shaped g g'" using old keeps_identified g'(2) by (auto simp: shaped_def extends_def)
  qed (use new in auto)
  then show ?thesis by (intro spec_mono [OF spec_weaken_errors [OF typeIdentifier_contract [OF soundD(1) [OF g(1)] g(2) soundD(4) [OF g(1)]]]])
      (auto simp: ti_errors_def)
qed

lemma mapped_ready:
  assumes "ready q g" "wf_graph (map_reached pre f g)" "\<And>n. keeps_node n (f n)"
  shows "ready q (map_reached pre f g)"
proof (rule shaped_ready [OF assms(1,2)])
  show "shaped g (map_reached pre f g)"
    by (rule shaped_same_length) (use assms(3) in \<open>auto simp: map_reached_nodes\<close>)
qed (simp add: map_reached_nodes)

text \<open>Whether there may be \<^verbatim>\<open>CaptureKeys\<close> nodes depends on the configuration: \<open>b\<close> says that there are none.\<close>

definition steady_unless :: "bool \<Rightarrow> type_graph \<Rightarrow> bool" where
  "steady_unless b g \<longleftrightarrow> steady g \<and> (b \<longrightarrow> no_capture_keys g)"

lemma ready_steady: "ready q g \<Longrightarrow> steady_unless b g"
  by (simp add: ready_def steady_unless_def)

lemma shaped_steady_unless:
  assumes "steady_unless b g" "wf_graph g'" "shaped g g'"
    and "\<And>i. length (nodes g) \<le> i \<Longrightarrow> i < length (nodes g') \<Longrightarrow> ctor_of (node_at g' i) \<noteq> 11"
  shows "steady_unless b g'"
proof (cases b)
  case True
  then have "ready False g" using assms(1) by (simp add: steady_unless_def ready_def)
  then show ?thesis by (rule ready_steady [OF shaped_ready [OF _ assms(2-4)]])
next
  case False
  then show ?thesis using shaped_steady [OF _ assms(2,3)] assms(1) by (simp add: steady_unless_def)
qed

lemma capture_step:
  assumes "ready q g"
  shows "\<exists>g' v' infos'. keyCapture_pass keys infos g (holder_get (graph_size g) v) = Inr (g', v', infos') \<and> steady_unless False g'"
proof -
  have g: "sound g" "no_capture_keys g" "steady g" using assms by (simp_all add: ready_def steady_def)
  obtain g' v' new where g': "keyCapture_pass keys infos g (holder_get (graph_size g) v) = Inr (g', v', infos @ new)"
    "wf_graph g'" "length (nodes g) \<le> length (nodes g')"
    and added: "\<forall>i < length (nodes g'). length (nodes g) \<le> i \<longrightarrow> capture_node g' (node_at g' i)"
    and old: "\<forall>i < length (nodes g). (node_at g' i = node_at g i \<or> kc_done keys g g' (node_at g i) (node_at g' i))"
    using keyCapture_contract [OF soundD(1) [OF g(1)] g(2) soundD(3) [OF g(1)], of keys infos v] by blast
  have "ctor_of (node_at g' i) \<noteq> 1 \<and> (\<forall>j. link_nxt (node_at g' i) = Some (NodeRef j) \<longrightarrow> j < length (nodes g))"
    if i: "i < length (nodes g')" "length (nodes g) \<le> i" for i
  proof -
    obtain ck m where ck: "node_at g' i = CaptureKeys ck" "deref g' (ck_underlying ck) = Inr m" "has_node_id m"
      using added i unfolding capture_node_def by blast
    have "j < length (nodes g)" if j: "ck_underlying ck = NodeRef j" for j
    proof (rule ccontr)
      assume "\<not> j < length (nodes g)"
      moreover have "j < length (nodes g')" "node_at g' j = m" using deref_owned [OF ck(2) [unfolded j]] by simp_all
      ultimately show False using added ck(3) unfolding capture_node_def by fastforce
    qed
    then show ?thesis using ck(1) by simp
  qed
  moreover have "keeps_node (node_at g i) (node_at g' i)" if "i < length (nodes g)" for i
    using old that keeps_captured keeps_node_refl by metis
  ultimately have "shaped g g'" using g'(3) by (simp add: shaped_def)
  then have "steady g'" by (rule shaped_steady [OF g(3) g'(2)])
  then show ?thesis using g'(1) by (auto simp: steady_unless_def)
qed

lemma padding_step:
  assumes "steady_unless b g"
  shows "\<exists>g'. addPadding_pass g v = Inr (g', v) \<and> steady_unless b g'"
proof -
  have g: "sound g" "no_parents g" using assms by (simp_all add: steady_unless_def steady_def)
  have "pad_ready g"
    unfolding pad_ready_def
  proof (intro conjI allI impI ballI)
    fix c assume c: "Class c \<in> set (nodes g)"
    then show "cl_parents c = []" using g(2) by (auto simp: no_parents_def in_set_conv_nth node_at_def)
    show "sized g m" if "m \<in> set (cl_members c)" for m
      using member_in_graph [OF soundD(2) [OF g(1)] c that] sound_size [OF g(1)] by (simp add: sized_def)
  qed (rule soundD(1) [OF g(1)])
  then obtain g' where g': "addPadding_pass g v = Inr (g', v)" "wf_graph g'" "sizes_kept g g'"
    and old: "\<forall>i < length (nodes g). if NodeRef i \<in> reach (edges pad_view g) (rootTypes g)
       then node_padded g' (node_at g i) (node_at g' i) else node_at g' i = node_at g i"
    using addPadding_contract by blast
  have keeps: "keeps_node (node_at g i) (node_at g' i)" if "i < length (nodes g)" for i
    using old that keeps_padded keeps_node_refl by metis
  have new: "\<exists>a k. node_at g' i = Array a \<and> ar_elementType a = PrimRef k" if "length (nodes g) \<le> i" "i < length (nodes g')" for i
    using g'(3) that by (simp add: sizes_kept_def pad_type_def)
  have "steady_unless b g'"
  proof (rule shaped_steady_unless [OF assms g'(2)])
    show "shaped g g'" using keeps new g'(3) by (fastforce simp: shaped_def sizes_kept_def extends_def)
    show "ctor_of (node_at g' i) \<noteq> 11" if "length (nodes g) \<le> i" "i < length (nodes g')" for i
      using new [OF that] by auto
  qed
  then show ?thesis using g'(1) by blast
qed

section \<open>Names and order\<close>

definition names_unique :: "type_graph \<Rightarrow> bool" where
  "names_unique g \<longleftrightarrow> (\<forall>i < length (nodes g). NodeRef i \<in> reach (naming_edges g) (rootTypes g) \<longrightarrow>
     member_names_distinct (node_at g i) \<and>
     (\<forall>j < length (nodes g). NodeRef j \<in> reach (naming_edges g) (rootTypes g) \<and> i \<noteq> j \<and>
        numbered_name (node_at g i) \<noteq> None \<longrightarrow> numbered_name (node_at g i) \<noteq> numbered_name (node_at g j)))"

lemma naming_step:
  assumes "steady_unless b g" "length (nodes g) < 2 ^ 31"
  shows "\<exists>g'. nameGen_pass g v = Inr (g', v) \<and> steady_unless b g' \<and> names_unique g'"
proof -
  have g: "sound g" using assms(1) by (simp add: steady_unless_def steady_def)
  obtain g' where g': "nameGen_pass g v = Inr (g', v)" "names_only g g'"
    and unique: "\<forall>i < length (nodes g). NodeRef i \<in> reach (naming_edges g) (rootTypes g) \<longrightarrow>
       member_names_distinct (node_at g' i) \<and>
       (\<forall>j < length (nodes g). NodeRef j \<in> reach (naming_edges g) (rootTypes g) \<and> i \<noteq> j \<and>
          numbered_name (node_at g' i) \<noteq> None \<longrightarrow> numbered_name (node_at g' i) \<noteq> numbered_name (node_at g' j))"
    using nameGen_contract [OF soundD(1) [OF g] soundD(5) [OF g] assms(2)] by blast
  have same: "length (nodes g') = length (nodes g)" "rootTypes g' = rootTypes g" "next_id g' = next_id g"
    and strip: "\<And>i. i < length (nodes g) \<Longrightarrow> strip_names (node_at g' i) = strip_names (node_at g i)"
    using g'(2) by (simp_all add: names_only_def)
  have kids: "kids (strip_names n) = kids n" for n by (cases n) simp_all
  have "wf_graph g'"
  proof (rule wf_transfer [OF soundD(1) [OF g] names_only_wf_refs [OF g'(2) soundD(2) [OF g]] same(1,3)])
    show "type_id (node_at g' i) = type_id (node_at g i) \<and> ctor_of (node_at g' i) = ctor_of (node_at g i) \<and>
      kids (node_at g' i) = kids (node_at g i)" if "i < length (nodes g)" for i
      using strip_names_same(1,4) [OF strip [OF that]] kids strip [OF that] by metis
  qed
  moreover have "shaped g g'" by (rule shaped_same_length [OF same(1) keeps_named [OF strip]])
  ultimately have "steady_unless b g'" by (rule shaped_steady_unless [OF assms(1)]) (simp add: same(1))
  moreover have "naming_edges g' t = naming_edges g t" for t
    using naming_accepts_strip [OF strip] same(1) by (cases t) (simp_all add: naming_edges_def node_at_def deref.simps)
  then have "naming_edges g' = naming_edges g" by (rule ext)
  then have "names_unique g'" using unique by (simp add: names_unique_def same)
  ultimately show ?thesis using g'(1) by blast
qed

text \<open>The list of the sorted types is no part of the graph.\<close>

lemma finalTypes_deref [simp]: "deref (g\<lparr>finalTypes := ts\<rparr>) t = deref g t"
  by (cases t) (simp_all add: deref.simps)

lemma finalTypes_topo: "topo_steps (g\<lparr>finalTypes := ts\<rparr>) t = topo_steps g t"
proof -
  have "node_steps (g\<lparr>finalTypes := ts\<rparr>) n = node_steps g n" for n by (cases n) (simp_all add: pointee_step_def)
  then show ?thesis by (simp add: topo_steps_def split: sum.split)
qed

section \<open>The composition\<close>

text \<open>What the generator of the code gets: every type has a size, nothing has parents, names differ, and the list.\<close>

definition transformed :: "bool \<Rightarrow> type_graph \<Rightarrow> bool" where
  "transformed b g \<longleftrightarrow> wf_graph g \<and> no_parents g \<and> (b \<longrightarrow> no_capture_keys g) \<and>
     (\<forall>t. in_graph g t \<longrightarrow> (\<exists>z. type_size g t = Inr z)) \<and> names_unique g \<and> distinct (finalTypes g) \<and>
     set (finalTypes g) = {t \<in> reach (topo_edges g) (rootTypes g). listed g t}"

lemma topo_step:
  assumes "steady_unless b g" "names_unique g"
  shows "\<exists>g'. topoSorter_pass g v = Inr (g', v) \<and> transformed b g'"
proof -
  have g: "sound g" "no_parents g" using assms(1) by (simp_all add: steady_unless_def steady_def)
  obtain ts where ts: "topoSorter_pass g v = Inr (g\<lparr>finalTypes := ts\<rparr>, v)" "distinct ts"
    "set ts = {t \<in> reach (topo_edges g) (rootTypes g). listed g t}"
    using topoSorter_contract [OF soundD(1) [OF g(1)], of v] by blast
  let ?g = "g\<lparr>finalTypes := ts\<rparr>"
  have at: "node_at ?g i = node_at g i" "in_graph ?g t = in_graph g t" for i t by (simp add: node_at_def) (cases t; simp)
  have "sound ?g" using g(1) by (simp add: sound_def linked_def at wf_graph_def wf_refs_def wf_ids_def wf_children_def)
  moreover have "topo_edges ?g = topo_edges g" "listed ?g = listed g"
    by (rule ext, simp add: topo_edges_def deps_def delayed_def listed_def finalTypes_topo)+
  moreover have "naming_edges ?g = naming_edges g" by (rule ext) (simp add: naming_edges_def)
  ultimately have "transformed b ?g"
    using assms ts(2,3) sound_size [of ?g] soundD(1) [of ?g]
    by (simp add: transformed_def steady_unless_def steady_def no_parents_def no_capture_keys_def names_unique_def at)
  then show ?thesis using ts(1) by blast
qed

definition transform_errors :: "(string \<Rightarrow> string \<Rightarrow> bool) \<Rightarrow> container_info list \<Rightarrow> type_graph \<Rightarrow> error set" where
  "transform_errors rx infos g = flat_errors \<union> cast_errors (find_container rx infos) g \<union> {Throw ''std::out_of_range''}"

text \<open>The passes that change single nodes leave a ready graph ready.\<close>

lemma contract_ready:
  assumes "\<And>g v. ready q g \<Longrightarrow> \<exists>g' v'. fn g (holder_get (graph_size g) v) = Inr (g', v') \<and> ready q g'"
  shows "contract E (\<lambda>(g, v, infos). ready q g) [plain_pass fn] (\<lambda>(g, v, infos). ready q g)"
proof (rule contract_plain)
  fix g :: type_graph and v :: node_tracker and infos :: "container_info list"
  assume "case (g, v, infos) of (g, v, infos) \<Rightarrow> ready q g"
  then obtain g' v' where "fn g (holder_get (graph_size g) v) = Inr (g', v')" "ready q g'" using assms [of g v] by auto
  then show "spec E (fn g (holder_get (graph_size g) v)) (\<lambda>(g', v'). case (g', v', infos) of (g, v, infos) \<Rightarrow> ready q g)" by simp
qed

lemma local_contract:
  "contract E (\<lambda>(g, v, infos). ready q g) [plain_pass alignmentCalc_pass] (\<lambda>(g, v, infos). ready q g)"
  "contract E (\<lambda>(g, v, infos). ready q g) [plain_pass (removeMembers_pass ignore)] (\<lambda>(g, v, infos). ready q g)"
  "contract E (\<lambda>(g, v, infos). ready q g) [plain_pass enforceCompatibility_pass] (\<lambda>(g, v, infos). ready q g)"
proof -
  have wf: "wf_graph g" "no_capture_keys g" if "ready q g" for g using that by (simp_all add: ready_def steady_def sound_def)
  have "\<exists>g' v'. alignmentCalc_pass g (holder_get (graph_size g) v) = Inr (g', v') \<and> ready q g'" if "ready q g" for g v
    using alignment_step [OF that] by blast
  then show "contract E (\<lambda>(g, v, infos). ready q g) [plain_pass alignmentCalc_pass] (\<lambda>(g, v, infos). ready q g)" by (rule contract_ready)
  have "\<exists>g' v'. removeMembers_pass ignore g (holder_get (graph_size g) v) = Inr (g', v') \<and> ready q g'" if g: "ready q g" for g v
    by (intro exI conjI, rule removeMembers_contract [OF wf(1) [OF g], THEN conjunct1],
      rule mapped_ready [OF g removeMembers_contract [OF wf(1) [OF g], THEN conjunct2] keeps_local(1)])
  then show "contract E (\<lambda>(g, v, infos). ready q g) [plain_pass (removeMembers_pass ignore)] (\<lambda>(g, v, infos). ready q g)"
    by (rule contract_ready)
  have "\<exists>g' v'. enforceCompatibility_pass g (holder_get (graph_size g) v) = Inr (g', v') \<and> ready q g'" if g: "ready q g" for g v
    using enforceCompatibility_contract [OF wf [OF g], of v] mapped_ready [OF g _ keeps_local(2)] unfolding pass_run_def by blast
  then show "contract E (\<lambda>(g, v, infos). ready q g) [plain_pass enforceCompatibility_pass] (\<lambda>(g, v, infos). ready q g)"
    by (rule contract_ready)
qed

text \<open>After \<^verbatim>\<open>Prune\<close> no class that can be reached has functions.\<close>

definition pruned :: "type_graph \<Rightarrow> bool" where
  "pruned g \<longleftrightarrow> (\<forall>i c. NodeRef i \<in> reach (edges (\<lambda>n. n) g) (rootTypes g) \<longrightarrow> node_at g i = Class c \<longrightarrow> cl_functions c = [])"

lemma map_reached_reach:
  assumes "keeps f" "\<And>n. set (succs (f n)) \<subseteq> set (succs n)"
    and t: "t \<in> reach (edges (\<lambda>n. n) (map_reached (\<lambda>n. n) f g)) (rootTypes g)"
  shows "t \<in> reach (edges (\<lambda>n. n) g) (rootTypes g)"
  using t
proof (induction rule: reach.induct)
  case (step t u)
  obtain i where i: "t = NodeRef i" "i < length (nodes (map_reached (\<lambda>n. n) f g))"
    "u \<in> set (succs (node_at (map_reached (\<lambda>n. n) f g) i))" using step.hyps(2) by (rule edge_owner)
  then have "u \<in> set (succs (node_at g i))"
    using assms(2) [of "node_at g i"] by (auto simp: map_reached_nodes split: if_splits)
  then have "u \<in> set (edges (\<lambda>n. n) g t)" using i(1,2) by (simp add: edges_def map_reached_nodes)
  then show ?case by (rule reach.step [OF step.IH])
qed (rule reach.root)

lemma prune_pruned:
  assumes "wf_refs (map_reached (\<lambda>n. n) prune_fin g)"
  shows "pruned (map_reached (\<lambda>n. n) prune_fin g)"
  unfolding pruned_def
proof (intro allI impI)
  let ?g = "map_reached (\<lambda>n. n) prune_fin g"
  fix i c assume i: "NodeRef i \<in> reach (edges (\<lambda>n. n) ?g) (rootTypes ?g)" "node_at ?g i = Class c"
  have roots: "rootTypes ?g = rootTypes g" by (simp add: map_reached_def)
  have "set (succs (prune_fin n)) \<subseteq> set (succs n)" for n by (cases n) auto
  moreover have "keeps prune_fin" using changes_keep(5) by blast
  ultimately have "NodeRef i \<in> reach (edges (\<lambda>n. n) g) (rootTypes g)" using map_reached_reach i(1) unfolding roots by blast
  moreover have "i < length (nodes g)" using reach_in_graph [OF assms i(1)] by (simp add: map_reached_nodes)
  ultimately have "prune_fin (node_at g i) = Class c" using i(2) by (simp add: map_reached_nodes)
  then show "cl_functions c = []" by (cases "node_at g i") auto
qed

lemma prune_pass_contract:
  "contract E (\<lambda>(g, v, infos). ready q g) [plain_pass prune_pass] (\<lambda>(g, v, infos). ready q g \<and> pruned g)"
proof (rule contract_plain)
  fix g :: type_graph and v :: node_tracker and infos :: "container_info list"
  let ?g = "map_reached (\<lambda>n. n) prune_fin g"
  assume "case (g, v, infos) of (g, v, infos) \<Rightarrow> ready q g"
  then have g: "ready q g" "wf_graph g" "no_capture_keys g" by (simp_all add: ready_def steady_def sound_def)
  obtain v' where v': "prune_pass g (holder_get (graph_size g) v) = Inr (?g, v')" "wf_graph ?g"
    using prune_contract [OF g(2,3), of v] unfolding pass_run_def by blast
  have "ready q ?g" by (rule mapped_ready [OF g(1) v'(2) keeps_local(3)])
  moreover have "pruned ?g" using v'(2) by (intro prune_pruned) (simp add: wf_graph_def)
  ultimately show "spec E (prune_pass g (holder_get (graph_size g) v)) (\<lambda>(g', v').
      case (g', v', infos) of (g, v, infos) \<Rightarrow> ready q g \<and> pruned g)" using v'(1) by simp
qed

text \<open>The environments a run begins with, and those after the passes that run first.\<close>

definition start_env :: "bool \<Rightarrow> (string \<Rightarrow> string \<Rightarrow> bool) \<Rightarrow> container_info list \<Rightarrow> type_graph \<Rightarrow> pass_env \<Rightarrow> bool" where
  "start_env q rx infos g0 s \<longleftrightarrow> (case s of (g, v, infos') \<Rightarrow>
     well_parsed (find_container rx infos) g \<and> (q \<longrightarrow> plain_classes g) \<and> nodes g = nodes g0 \<and> infos' = infos)"

definition shaped_env :: "bool \<Rightarrow> codegen_config \<Rightarrow> pass_env \<Rightarrow> bool" where
  "shaped_env q cfg s \<longleftrightarrow> (case s of (g, v, infos) \<Rightarrow>
     ready q g \<and> (bit_get (cg_features cfg) PruneTypeGraph \<longrightarrow> pruned g))"

lemma top_level_contract:
  "contract E (start_env q rx infos g0) [plain_pass removeTopLevelPointers] (start_env q rx infos g0)"
proof (rule contract_plain)
  fix g :: type_graph and v :: node_tracker and infos' :: "container_info list"
  assume *: "start_env q rx infos g0 (g, v, infos')"
  then obtain g' where g': "removeTopLevelPointers g (holder_get (graph_size g) v) = Inr (g', holder_get (graph_size g) v)"
    "nodes g' = nodes g" "well_parsed (find_container rx infos) g'"
    using top_level_step [of "find_container rx infos" g] unfolding start_env_def by blast
  have "plain_classes g' = plain_classes g" by (simp add: plain_classes_def node_at_def g'(2))
  then show "spec E (removeTopLevelPointers g (holder_get (graph_size g) v)) (\<lambda>(g', v'). start_env q rx infos g0 (g', v', infos'))"
    using * g' by (simp add: start_env_def)
qed

lemma identify_contract:
  assumes "cast_errors (find_container rx infos) g0 \<subseteq> E"
  shows "contract E (start_env q rx infos g0) [identify_containers rx] (\<lambda>(g, v, infos). unflattened q g)"
proof (rule contract_pass)
  fix g :: type_graph and v :: node_tracker and infos' :: "container_info list"
  assume *: "start_env q rx infos g0 (g, v, infos')"
  then have "cast_errors (find_container rx infos) g = cast_errors (find_container rx infos) g0"
    by (simp add: start_env_def cast_errors_def IdentifyContainers.final_def matched_def node_at_def)
  then have "spec E (identifyContainers_pass rx infos' g) (unflattened q)"
    using identify_step [of rx infos g q] * assms by (auto simp: start_env_def intro: spec_weaken_errors)
  then show "spec E (identify_containers rx g (holder_get (graph_size g) v) infos') (\<lambda>(g, v, infos). unflattened q g)"
    unfolding identify_containers_def by (rule spec_bindI) simp
qed

lemma shaping_contract:
  assumes E: "transform_errors (lib_regex lib) infos g0 \<subseteq> E"
  shows "contract E (start_env q (lib_regex lib) infos g0) (plain_pass removeTopLevelPointers # shaping_passes cfg lib) (shaped_env q cfg)"
proof -
  have E: "flat_errors \<subseteq> E" "cast_errors (find_container (lib_regex lib) infos) g0 \<subseteq> E" "{Throw ''std::out_of_range''} \<subseteq> E"
    using E by (simp_all add: transform_errors_def)
  have flat: "contract E (\<lambda>(g, v, infos). unflattened q g) [plain_pass flattener_pass] (\<lambda>(g, v, infos). ready q g)"
    using flattener_step E(1) by (auto intro!: contract_plain intro: spec_weaken_errors simp: pass_run_def)
  have tid: "contract E (\<lambda>(g, v, infos). ready q g) [plain_pass (typeIdentifier_pass (lib_regex lib) (cg_passThroughTypes cfg))]
      (\<lambda>(g, v, infos). ready q g)"
    by (rule contract_plain) (simp add: spec_weaken_errors [OF typeIdentifier_step E(3)])
  have prune: "contract E (\<lambda>(g, v, infos). ready q g)
      (if bit_get (cg_features cfg) PruneTypeGraph then [plain_pass prune_pass] else []) (shaped_env q cfg)"
  proof (cases "bit_get (cg_features cfg) PruneTypeGraph")
    case True
    show ?thesis
      unfolding if_P [OF True] by (rule contract_weaken [OF prune_pass_contract subset_refl]) (auto simp: shaped_env_def)
  next
    case False
    show ?thesis
      unfolding if_not_P [OF False] by (rule contract_weaken [OF contract_none subset_refl]) (use False in \<open>auto simp: shaped_env_def\<close>)
  qed
  show ?thesis
    unfolding shaping_passes_def append.simps
    by (rule contract_Cons [OF top_level_contract contract_Cons [OF identify_contract [OF E(2)] contract_Cons [OF flat
      contract_Cons [OF local_contract(1) contract_Cons [OF tid prune]]]]])
qed

definition keys_captured :: "codegen_config \<Rightarrow> bool" where
  "keys_captured cfg \<longleftrightarrow> bit_get (cg_features cfg) TreeBuilderV2 \<and> cg_keysToCapture cfg \<noteq> []"

lemma capture_contract:
  "contract E (\<lambda>(g, v, infos). ready q g) (if keys_captured cfg then [capture_keys_pass cfg] else [])
    (\<lambda>(g, v, infos). steady_unless (\<not> keys_captured cfg) g)"
proof (cases "keys_captured cfg")
  case True
  have "contract E (\<lambda>(g, v, infos). ready q g) [capture_keys_pass cfg] (\<lambda>(g, v, infos). steady_unless (\<not> keys_captured cfg) g)"
  proof (rule contract_pass)
    fix g :: type_graph and v :: node_tracker and infos' :: "container_info list"
    assume "case (g, v, infos') of (g, v, infos) \<Rightarrow> ready q g"
    then show "spec E (capture_keys_pass cfg g (holder_get (graph_size g) v) infos')
        (\<lambda>(g, v, infos). steady_unless (\<not> keys_captured cfg) g)"
      using capture_step [of q g "cg_keysToCapture cfg" infos' v] True by (auto simp: capture_keys_pass_def)
  qed
  then show ?thesis using True by simp
next
  case False
  then show ?thesis using ready_steady by (auto intro: contract_weaken [OF contract_none])
qed

lemma padding_contract:
  "contract E (\<lambda>(g, v, infos). steady_unless b g) [plain_pass addPadding_pass] (\<lambda>(g, v, infos). steady_unless b g)"
proof (rule contract_plain)
  fix g :: type_graph and v :: node_tracker and infos :: "container_info list"
  assume "case (g, v, infos) of (g, v, infos) \<Rightarrow> steady_unless b g"
  then show "spec E (addPadding_pass g (holder_get (graph_size g) v)) (\<lambda>(g', v').
      case (g', v', infos) of (g, v, infos) \<Rightarrow> steady_unless b g)"
    using padding_step [of b g "holder_get (graph_size g) v"] by auto
qed

lemma front_contract:
  assumes E: "transform_errors (lib_regex lib) infos g0 \<subseteq> E" and poly: "\<not> bit_get (cg_features cfg) PolymorphicInheritance"
  shows "contract E (start_env False (lib_regex lib) infos g0) (front_passes cfg lib)
    (\<lambda>(g, v, infos). steady_unless (\<not> keys_captured cfg) g)"
proof -
  have shaping: "contract E (start_env False (lib_regex lib) infos g0) (plain_pass removeTopLevelPointers # shaping_passes cfg lib)
      (\<lambda>(g, v, infos). ready False g)"
    by (rule contract_weaken [OF shaping_contract [OF E] subset_refl]) (auto simp: shaped_env_def)
  have "contract E (start_env False (lib_regex lib) infos g0)
      ((plain_pass removeTopLevelPointers # shaping_passes cfg lib) @ [plain_pass (removeMembers_pass (cg_membersToStub cfg))] @
       (if \<not> bit_get (cg_features cfg) TreeBuilderV2 then [plain_pass enforceCompatibility_pass] else []) @
       (if keys_captured cfg then [capture_keys_pass cfg] else []) @ [plain_pass addPadding_pass])
      (\<lambda>(g, v, infos). steady_unless (\<not> keys_captured cfg) g)"
    by (intro contract_seq [OF shaping] contract_seq [OF local_contract(2)] contract_seq [OF contract_if [OF local_contract(3)]]
      contract_seq [OF capture_contract] padding_contract)
  then show ?thesis using poly by (simp add: front_passes_def keys_captured_def)
qed

text \<open>
  C1: without \<^verbatim>\<open>PolymorphicInheritance\<close>, \<^verbatim>\<open>CodeGen::transform\<close> ends on every parsed graph. It fails with one of the errors of
  the passes, or the graph it leaves is one the code generator can use: every type has a size, no class has parents, the names of
  the named types it reaches differ and so do those of the members of a class, there are no \<^verbatim>\<open>CaptureKeys\<close> unless keys are
  captured, and the list of the sorted types holds exactly the types that are reached, once each.
\<close>

theorem transform_result:
  assumes "well_parsed (find_container (lib_regex lib) infos) g" and "\<not> bit_get (cg_features cfg) PolymorphicInheritance"
    and "\<And>s. pm_run (front_passes cfg lib) (g, [], infos) = Inr s \<Longrightarrow> length (nodes (fst s)) < 2 ^ 31"
  shows "spec (transform_errors (lib_regex lib) infos g) (transform cfg lib g infos)
    (\<lambda>(g', v', infos'). transformed (\<not> keys_captured cfg) g')"
proof -
  let ?E = "transform_errors (lib_regex lib) infos g" and ?front = "pm_run (front_passes cfg lib) (g, [], infos)"
  have "spec ?E ?front (\<lambda>(g, v, infos). steady_unless (\<not> keys_captured cfg) g)"
    using front_contract [of lib infos g ?E cfg] assms(1,2) by (simp add: contract_def start_env_def)
  then have front: "spec ?E ?front (\<lambda>(g, v, infos). steady_unless (\<not> keys_captured cfg) g \<and> length (nodes g) < 2 ^ 31)"
    using assms(3) by (auto simp: spec_def split: sum.splits)
  have last: "spec ?E (pm_run [plain_pass nameGen_pass, plain_pass topoSorter_pass] (g1, v1, infos1))
      (\<lambda>(g', v', infos'). transformed (\<not> keys_captured cfg) g')"
    if h: "steady_unless (\<not> keys_captured cfg) g1" "length (nodes g1) < 2 ^ 31" for g1 v1 infos1
  proof -
    obtain g2 where g2: "nameGen_pass g1 (holder_get (graph_size g1) v1) = Inr (g2, holder_get (graph_size g1) v1)"
      "steady_unless (\<not> keys_captured cfg) g2" "names_unique g2" using naming_step [OF h] by blast
    show ?thesis
      using g2(1) topo_step [OF g2(2,3), of "holder_get (graph_size g2) (holder_get (graph_size g1) v1)"]
      by (auto simp: pm_run_def run_pass_def plain_pass_def)
  qed
  show ?thesis
    unfolding transform_def transform_passes_def pm_run_def for_each_append
    by (rule spec_bindI [OF front [unfolded pm_run_def]]) (use last in \<open>auto simp: pm_run_def\<close>)
qed

section \<open>Children of pruned classes\<close>

text \<open>On a graph without dynamic classes \<^verbatim>\<open>AddChildren\<close> is a walk that changes nothing, whatever would parse the children.\<close>

lemma idle_walk:
  fixes p :: "'d parser"
  assumes wf: "wf_refs (dp_graph p)" and roots: "U = reach (edges (\<lambda>n. n) (dp_graph p)) (rootTypes (dp_graph p))"
    and idle: "\<And>i c. NodeRef i \<in> U \<Longrightarrow> node_at (dp_graph p) i = Class c \<Longrightarrow> \<not> isDynamic c"
  shows "ac_parser s = p \<Longrightarrow> t \<in> U \<Longrightarrow> card {i. i < length (nodes (dp_graph p)) \<and> NodeRef i \<notin> ac_visited s} < n \<Longrightarrow>
    \<exists>s'. recur (add_children_body add m) n t s = Inr s' \<and> ac_parser s' = p \<and> ac_visited s \<subseteq> ac_visited s'"
proof (induction n arbitrary: s t)
  case (Suc n)
  let ?s1 = "s\<lparr>ac_visited := insert t (ac_visited s)\<rparr>" and ?g = "dp_graph p"
  let ?left = "\<lambda>s. {i. i < length (nodes ?g) \<and> NodeRef i \<notin> ac_visited s}"
  have body: "recur (add_children_body add m) (Suc n) t s = add_children_body add m (recur (add_children_body add m) n) t s" by simp
  show ?case
  proof (cases "t \<in> ac_visited s")
    case True
    then show ?thesis unfolding body by (simp add: add_children_body_def Suc.prems(1))
  next
    case False
    have U: "in_graph ?g t" using reach_in_graph [OF wf] Suc.prems(2) roots by blast
    then obtain k where k: "deref ?g t = Inr k" using deref_in_graph by blast
    have calls: "\<exists>s'. for_each (recur (add_children_body add m) n) us ?s1 = Inr s' \<and> ac_parser s' = p \<and> ac_visited ?s1 \<subseteq> ac_visited s'"
      if us: "set us \<subseteq> set (succs k)" for us
    proof (cases t)
      case (PrimRef x)
      then show ?thesis using k us Suc.prems(1) by auto
    next
      case (NodeRef i)
      then have "?left ?s1 \<subset> ?left s" using False U by auto
      then have less: "card (?left ?s1) < card (?left s)" by (intro psubset_card_mono) simp_all
      have "spec {} (for_each (recur (add_children_body add m) n) us ?s1) (\<lambda>s'. ac_parser s' = p \<and> ac_visited ?s1 \<subseteq> ac_visited s')"
      proof (rule spec_for_each)
        fix u and s' :: "'d ac_state" assume u: "u \<in> set us" and s': "ac_parser s' = p \<and> ac_visited ?s1 \<subseteq> ac_visited s'"
        have "u \<in> set (edges (\<lambda>n. n) ?g t)" using us u k by (auto simp: edges_def)
        then have "u \<in> U" using reach.step Suc.prems(2) unfolding roots by blast
        moreover have "?left s' \<subseteq> ?left ?s1" using s' by auto
        then have "card (?left s') \<le> card (?left ?s1)" by (intro card_mono) simp_all
        then have "card (?left s') < n" using less Suc.prems(3) by linarith
        ultimately show "spec {} (recur (add_children_body add m) n u s') (\<lambda>s'. ac_parser s' = p \<and> ac_visited ?s1 \<subseteq> ac_visited s')"
          using Suc.IH [of s' u] s' by (auto simp: spec_empty_iff)
      qed (use Suc.prems(1) in simp)
      then show ?thesis by (simp add: spec_empty_iff)
    qed
    have graph: "ac_graph ?s1 = ?g" using Suc.prems(1) by (simp add: ac_graph_def)
    show ?thesis
    proof (cases "\<exists>c. k = Class c")
      case True
      then obtain c where c: "k = Class c" by blast
      then obtain i where "t = NodeRef i" "node_at ?g i = Class c" using k deref_owner [OF k] by auto
      then have "\<not> isDynamic c" using idle Suc.prems(2) by blast
      then have "recur (add_children_body add m) (Suc n) t s =
          for_each (recur (add_children_body add m) n) (map tp_type (cl_templateParams c) @ map m_type (cl_members c)) ?s1"
        unfolding body using False k c graph
        by (simp add: add_children_body_def visit_class_def Let_def for_each_map_fun)
      then show ?thesis using calls [of "map tp_type (cl_templateParams c) @ map m_type (cl_members c)"] c by auto
    next
      case no_class: False
      have "recur (add_children_body add m) (Suc n) t s = for_each (recur (add_children_body add m) n) (succs k) ?s1"
        unfolding body using False k no_class graph
        by (cases k) (simp_all add: add_children_body_def Let_def recursive_visit_succs)
      then show ?thesis using calls [of "succs k"] by auto
    qed
  qed
qed simp

definition graph_of :: "pass_env outcome \<Rightarrow> type_graph outcome" where
  "graph_of m = bindE m (\<lambda>(g, v, infos). Inr g)"

lemma add_children_idle:
  fixes lib :: "'d codegen_lib"
  assumes info: "debug_info (lib_drgn lib) D rk M" "ts_env (lib_types lib)" "ts_types (lib_types lib) = Some answers"
      "\<And>d. Some d \<in> set answers \<Longrightarrow> d \<in> D"
    and g: "ready True g" "pruned g" and depth: "length (nodes g) < lib_depth lib"
  shows "add_children lib g v infos = Inr (g, v, infos)"
proof -
  let ?p = "new_parser g" and ?U = "reach (edges (\<lambda>n. n) g) (rootTypes g)"
  have p: "dp_graph ?p = g" by (simp add: new_parser_def)
  obtain m where m: "enumerateChildClasses (lib_drgn lib) (lib_types lib) Map.empty = Inr m"
    using enumerateChildClasses_result [OF info(1,4,2,3), of Map.empty] by (auto simp: no_empty_def classes_of_def)
  have wf: "wf_refs g" using g(1) soundD(2) by (simp add: ready_def steady_def)
  have idle: "\<not> isDynamic c" if "NodeRef i \<in> ?U" "node_at g i = Class c" for i c
  proof -
    have "i < length (nodes g)" using reach_in_graph [OF wf that(1)] by simp
    then have "cl_virtuality c = 0" using g(1) that(2) by (auto simp: ready_def plain_classes_def virtuality_of_def)
    moreover have "cl_functions c = []" using g(2) that by (simp add: pruned_def)
    ultimately show ?thesis by (simp add: isDynamic_def)
  qed
  have few: "card {i. i < length (nodes g) \<and> Q i} < lib_depth lib" for Q
    using card_mono [of "{i. i < length (nodes g)}" "{i. i < length (nodes g) \<and> Q i}"] depth by fastforce
  have walk: "\<exists>s'. recur (add_children_body dangling_parse m) (lib_depth lib) t s = Inr s' \<and> ac_parser s' = ?p"
    if "ac_parser s = ?p" "t \<in> ?U" for s t
  proof -
    have "\<exists>s'. recur (add_children_body dangling_parse m) (lib_depth lib) t s = Inr s' \<and> ac_parser s' = ?p \<and> ac_visited s \<subseteq> ac_visited s'"
      by (rule idle_walk [of ?p ?U, unfolded p, OF wf refl]) ((rule idle, assumption+) | rule that few)+
    then show ?thesis by blast
  qed
  have "spec {} (for_each (recur (add_children_body dangling_parse m) (lib_depth lib)) (rootTypes g) \<lparr>ac_parser = ?p, ac_visited = {}\<rparr>)
      (\<lambda>s. ac_parser s = ?p)"
  proof (rule spec_for_each)
    fix t and s :: "'d ac_state" assume "t \<in> set (rootTypes g)" "ac_parser s = ?p"
    then show "spec {} (recur (add_children_body dangling_parse m) (lib_depth lib) t s) (\<lambda>s. ac_parser s = ?p)"
      unfolding spec_empty_iff by (intro walk reach.root)
  qed simp
  then show ?thesis using m by (auto simp: spec_empty_iff add_children_def addChildren_run_def p ac_graph_def)
qed

text \<open>
  C34: with both \<^verbatim>\<open>PolymorphicInheritance\<close> and \<^verbatim>\<open>PruneTypeGraph\<close>, where no class has a virtuality of its own, \<^verbatim>\<open>AddChildren\<close> is no
  pass at all: it finds the functions of every class it reaches pruned and so no dynamic class. The graph it leaves is the one it
  got, and no child is ever parsed.
\<close>

theorem transform_pruned_children:
  assumes "well_parsed (find_container (lib_regex lib) infos) g" and "\<And>c. Class c \<in> set (nodes g) \<Longrightarrow> cl_virtuality c = 0"
    and "bit_get (cg_features cfg) PolymorphicInheritance" and "bit_get (cg_features cfg) PruneTypeGraph"
    and "debug_info (lib_drgn lib) D rk M" and "ts_env (lib_types lib)" and "ts_types (lib_types lib) = Some answers"
    and "\<And>d. Some d \<in> set answers \<Longrightarrow> d \<in> D"
    and "\<And>s. pm_run (plain_pass removeTopLevelPointers # shaping_passes cfg lib) (g, [], infos) = Inr s \<Longrightarrow>
      length (nodes (fst s)) < lib_depth lib"
  shows "\<exists>rest. transform_passes cfg lib = (plain_pass removeTopLevelPointers # shaping_passes cfg lib) @ add_children lib # rest \<and>
    graph_of (pm_run ((plain_pass removeTopLevelPointers # shaping_passes cfg lib) @ [add_children lib]) (g, [], infos)) =
    graph_of (pm_run (plain_pass removeTopLevelPointers # shaping_passes cfg lib) (g, [], infos))"
proof -
  let ?passes = "plain_pass removeTopLevelPointers # shaping_passes cfg lib"
  have "virtuality_of n = 0" if "n \<in> set (nodes g)" for n
  proof (cases n)
    case (Class c)
    then show ?thesis using that assms(2) by (simp add: virtuality_of_def)
  qed (simp_all add: virtuality_of_def)
  then have "plain_classes g" by (simp add: plain_classes_def node_at_def)
  then have "spec (transform_errors (lib_regex lib) infos g) (pm_run ?passes (g, [], infos)) (shaped_env True cfg)"
    using shaping_contract [of lib infos g "transform_errors (lib_regex lib) infos g" True cfg] assms(1)
    by (simp add: contract_def start_env_def)
  then have "graph_of (pm_run (?passes @ [add_children lib]) (g, [], infos)) = graph_of (pm_run ?passes (g, [], infos))"
    unfolding pm_run_append
  proof (cases "pm_run ?passes (g, [], infos)")
    case (Inr s)
    obtain g1 v1 infos1 where s: "s = (g1, v1, infos1)" by (cases s)
    assume "spec (transform_errors (lib_regex lib) infos g) (pm_run ?passes (g, [], infos)) (shaped_env True cfg)"
    then have "ready True g1" "pruned g1" "length (nodes g1) < lib_depth lib"
      using assms(4) assms(9) [OF Inr] Inr s by (simp_all add: shaped_env_def)
    then show "graph_of (bindE (pm_run ?passes (g, [], infos)) (pm_run [add_children lib])) = graph_of (pm_run ?passes (g, [], infos))"
      using add_children_idle [OF assms(5-8)] Inr s by (simp add: pm_run_def run_pass_def graph_of_def)
  qed (simp add: graph_of_def)
  then show ?thesis using assms(3) by (simp add: transform_passes_def front_passes_def)
qed

section \<open>Concrete runs\<close>

text \<open>
  A pointer (3) to a class (0) that is derived from another (2) and has a vector (1) of its own type. Ranks for the links and for
  the classes that no description matches are given as a list.
\<close>

definition rank_in :: "nat list \<Rightarrow> tref \<Rightarrow> nat" where
  "rank_in rs t = (case t of PrimRef k \<Rightarrow> 0 | NodeRef i \<Rightarrow> if i < length rs then rs ! i else 0)"

lemma well_parsedI:
  assumes "wf_check g" "no_capture_keys g" "length rs = length (nodes g)" "list_all (\<lambda>r. r \<le> length (nodes g)) rs"
    and links: "list_all (\<lambda>i. case link_nxt (node_at g i) of None \<Rightarrow> True | Some u \<Rightarrow> rank_in rs u < rs ! i) [0..<length (nodes g)]"
    and ranks: "list_all (\<lambda>i. (case node_at g i of Class c \<Rightarrow> lookup c = None | _ \<Rightarrow> False) \<or>
      list_all (\<lambda>u. rank_in rs u < rs ! i) (passed_refs (node_at g i))) [0..<length (nodes g)]"
    and reached: "\<And>i. i < length (nodes g) \<Longrightarrow> parents_of (node_at g i) \<noteq> [] \<Longrightarrow> NodeRef i \<in> reach (edges (\<lambda>n. n) g) (rootTypes g)"
  shows "well_parsed lookup g"
proof -
  have "linked (rank_in rs) g"
    unfolding linked_def using links assms(3) by (auto simp: list_all_iff rank_in_def split: option.splits)
  then have "sound g" using wf_checkD [OF assms(1)] unfolding sound_def by blast
  moreover have "parents_reached g" using reached by (force simp: parents_reached_def parents_of_def)
  moreover have "rank_in rs t \<le> length (nodes g)" for t
    using assms(4) nth_mem unfolding rank_in_def list_all_iff by (auto split: tref.splits)
  moreover have "rank_in rs u < rank_in rs (NodeRef i)"
    if i: "i < length (nodes g)" "\<forall>c. node_at g i = Class c \<longrightarrow> lookup c \<noteq> None" "u \<in> set (passed_refs (node_at g i))" for i u
  proof -
    have "\<not> (case node_at g i of Class c \<Rightarrow> lookup c = None | _ \<Rightarrow> False)" using i(2) by (cases "node_at g i") auto
    moreover have "i \<in> set [0..<length (nodes g)]" using i(1) by simp
    ultimately have "rank_in rs u < rs ! i" using ranks i(3) unfolding list_all_iff by blast
    then show ?thesis using i(1) assms(3) by (simp add: rank_in_def)
  qed
  ultimately have "class_rank lookup g (rank_in rs)" unfolding class_rank_def by blast
  with \<open>sound g\<close> \<open>parents_reached g\<close> show ?thesis using assms(2) unfolding well_parsed_def by blast
qed

definition example_graph :: type_graph where
  "example_graph = \<lparr>nodes = [
     Class ((mk_class KStruct ''Foo'' ''Foo'' 32 0 0)\<lparr>cl_members := [mk_member (NodeRef 1) ''v'' 64 0],
       cl_parents := [\<lparr>p_type = NodeRef 2, p_bitOffset = 0\<rparr>]\<rparr>),
     Class ((mk_class KStruct ''vector'' ''std::vector<Foo>'' 24 0 1)\<lparr>cl_templateParams := [mk_param (NodeRef 0)]\<rparr>),
     Class ((mk_class KStruct ''Base'' ''Base'' 8 0 2)\<lparr>cl_members := [mk_member (PrimRef Int32) ''n'' 0 0]\<rparr>),
     Pointer \<lparr>pt_id = 3, pt_pointee = NodeRef 0, pt_inputName = '''', pt_name = ''Foo*''\<rparr>],
     rootTypes = [NodeRef 3], finalTypes = [], next_id = 4\<rparr>"

definition example_lib :: "nat codegen_lib" where
  "example_lib = \<lparr>lib_regex = (\<lambda>p s. starts_with s p), lib_drgn = info_classes, lib_sorts = stable_sorts,
     lib_types = classes_source, lib_fuel = 5, lib_depth = 6\<rparr>"

definition example_config :: "feature list \<Rightarrow> codegen_config" where
  "example_config fs = \<lparr>cg_features = set fs, cg_passThroughTypes = [], cg_membersToStub = [], cg_keysToCapture = []\<rparr>"

lemma example_parsed: "well_parsed (find_container (lib_regex example_lib) [vector_info]) example_graph"
proof (rule well_parsedI [of _ "[0, 1, 0, 2]"])
  fix i assume "i < length (nodes example_graph)" "parents_of (node_at example_graph i) \<noteq> []"
  moreover have "parents_of (node_at example_graph i) = []" if "i \<in> {1, 2, 3}"
    using that by (auto simp: example_graph_def node_at_def parents_of_def mk_class_def)
  moreover have "length (nodes example_graph) = 4" by (simp add: example_graph_def)
  ultimately have i: "i = 0" by force
  have "NodeRef 3 \<in> reach (edges (\<lambda>n. n) example_graph) (rootTypes example_graph)"
    by (rule reach.root) (simp add: example_graph_def)
  then show "NodeRef i \<in> reach (edges (\<lambda>n. n) example_graph) (rootTypes example_graph)"
    unfolding i by (rule reach.step) (simp add: example_graph_def edges_def deref.simps)
qed code_simp+

lemma example_front:
  "case pm_run (front_passes (example_config []) example_lib) (example_graph, [], [vector_info]) of
     Inl e \<Rightarrow> False | Inr (g, v, infos) \<Rightarrow> length (nodes g) < 100"
  by code_simp

theorem transform_result_witness:
  "\<exists>g' v' infos'. transform (example_config []) example_lib example_graph [vector_info] = Inr (g', v', infos') \<and> transformed True g'"
proof -
  have "spec (transform_errors (lib_regex example_lib) [vector_info] example_graph)
      (transform (example_config []) example_lib example_graph [vector_info])
      (\<lambda>(g', v', infos'). transformed (\<not> keys_captured (example_config [])) g')"
  proof (rule transform_result [OF example_parsed])
    show "\<not> bit_get (cg_features (example_config [])) PolymorphicInheritance" by code_simp
    fix s assume "pm_run (front_passes (example_config []) example_lib) (example_graph, [], [vector_info]) = Inr s"
    then show "length (nodes (fst s)) < 2 ^ 31" using example_front by (cases s) simp
  qed
  moreover have "case transform (example_config []) example_lib example_graph [vector_info] of Inl e \<Rightarrow> False | Inr s \<Rightarrow> True"
    by code_simp
  moreover have "\<not> keys_captured (example_config [])" by code_simp
  ultimately show ?thesis by (auto split: sum.splits)
qed

text \<open>A class \<open>ns::A\<close> with a virtual function and no virtuality of its own; the type iterator lists a class derived from it.\<close>

definition dynamic_graph :: type_graph where
  "dynamic_graph = \<lparr>nodes = [Class ((mk_class KClass ''A'' ''ns::A'' 8 0 0)\<lparr>cl_functions := [\<lparr>f_name = ''f'', f_virtuality = 1\<rparr>]\<rparr>)],
     rootTypes = [NodeRef 0], finalTypes = [], next_id = 1\<rparr>"

lemma dynamic_parsed: "well_parsed (find_container (lib_regex example_lib) []) dynamic_graph"
proof (rule well_parsedI [of _ "[0]"])
  fix i assume "i < length (nodes dynamic_graph)" "parents_of (node_at dynamic_graph i) \<noteq> []"
  then show "NodeRef i \<in> reach (edges (\<lambda>n. n) dynamic_graph) (rootTypes dynamic_graph)"
    by (simp add: dynamic_graph_def node_at_def parents_of_def mk_class_def)
qed code_simp+

theorem transform_pruned_children_witness:
  "isDynamic (case node_at dynamic_graph 0 of Class c \<Rightarrow> c) \<and>
   graph_of (pm_run ((plain_pass removeTopLevelPointers # shaping_passes (example_config [PolymorphicInheritance, PruneTypeGraph]) example_lib) @
       [add_children example_lib]) (dynamic_graph, [], [])) =
     graph_of (pm_run (plain_pass removeTopLevelPointers #
       shaping_passes (example_config [PolymorphicInheritance, PruneTypeGraph]) example_lib) (dynamic_graph, [], []))"
proof -
  let ?cfg = "example_config [PolymorphicInheritance, PruneTypeGraph]"
  let ?passes = "plain_pass removeTopLevelPointers # shaping_passes ?cfg example_lib"
  have "\<exists>rest. transform_passes ?cfg example_lib = ?passes @ add_children example_lib # rest \<and>
      graph_of (pm_run (?passes @ [add_children example_lib]) (dynamic_graph, [], [])) =
      graph_of (pm_run ?passes (dynamic_graph, [], []))"
  proof (rule transform_pruned_children [OF dynamic_parsed])
    show "cl_virtuality c = 0" if "Class c \<in> set (nodes dynamic_graph)" for c
      using that by (auto simp: dynamic_graph_def mk_class_def)
    show "bit_get (cg_features ?cfg) PolymorphicInheritance" "bit_get (cg_features ?cfg) PruneTypeGraph" by code_simp+
    show "debug_info (lib_drgn example_lib) {0, 1, 2, 3} (\<lambda>d. 0) 0" unfolding example_lib_def codegen_lib.simps by (rule info_classes_ok)
    show "ts_env (lib_types example_lib)" "ts_types (lib_types example_lib) = Some [Some 0, None, Some 1, Some 2, Some 3]"
      by (simp_all add: example_lib_def classes_source_def)
    have "case pm_run ?passes (dynamic_graph, [], []) of Inl e \<Rightarrow> True | Inr (g, v, infos) \<Rightarrow> length (nodes g) < 6" by code_simp
    then show "length (nodes (fst s)) < lib_depth example_lib" if "pm_run ?passes (dynamic_graph, [], []) = Inr s" for s
      using that by (cases s) (simp add: example_lib_def)
  qed auto
  then show ?thesis by (auto simp: dynamic_graph_def node_at_def isDynamic_def)
qed

text \<open>Without \<^verbatim>\<open>PruneTypeGraph\<close> the children of the class are to be parsed, by a parser that has been destroyed.\<close>

lemma transform_dangling:
  "transform (example_config [PolymorphicInheritance]) example_lib dynamic_graph [] =
     Inl (Undefined ''use of a parser that has been destroyed'')"
  by code_simp

end
