(* ===== verification/DataSegment.thy ===== *)
theory DataSegment
  imports OI_Prelude
begin

text \<open>
  The data segment the generated code fills in and the exporters read: the static types that
  write it (\<^verbatim>\<open>include/oi/types/st.h\<close>), their run-time descriptions (\<^verbatim>\<open>include/oi/types/dy.h\<close>) and the lazy
  parser (\<^verbatim>\<open>include/oi/exporters/ParsedData.h\<close>, \<^verbatim>\<open>oi/exporters/ParsedData.cpp\<close>).
\<close>

unbundle bit_operations_syntax

section \<open>Descriptions\<close>

text \<open>
  \<^verbatim>\<open>Dynamic\<close> is a variant of pointers to constants that describe a static type; the template
  arguments of a static type are finite, so that the descriptions are trees.
\<close>

datatype dynamic =
    DUnit
  | DVarInt
  | DPair dynamic dynamic
  | DSum "dynamic list"
  | DList dynamic

section \<open>Writing\<close>

text \<open>
  A static type holds nothing but a \<^verbatim>\<open>DataBuffer\<close>; its operations are functions of the bytes written
  so far. A callback gets the object of the part it has to write and returns its \<^verbatim>\<open>Unit\<close>.
\<close>

type_synonym data_buffer = "u8 list"

definition write_byte :: "u8 \<Rightarrow> data_buffer \<Rightarrow> data_buffer" where
  "write_byte b buf = buf @ [b]"

definition buffer_offset :: "data_buffer \<Rightarrow> nat" where
  "buffer_offset buf = length buf"

function varint_write :: "u64 \<Rightarrow> data_buffer \<Rightarrow> data_buffer" where
  "varint_write val buf =
     (if 0x80 \<le> val then varint_write (drop_bit 7 val) (write_byte (ucast (0x80 OR (val AND 0x7f))) buf)
      else write_byte (ucast val) buf)"
  by pat_completeness auto

lemma unat_drop_bit_7: "unat (drop_bit 7 (val :: u64)) = unat val div 128"
  by (simp only: unat_drop_bit_eq) (simp only: drop_bit_eq_div, simp)

lemma unat_drop_7_less: "0x80 \<le> (val :: u64) \<Longrightarrow> unat (drop_bit 7 val) < unat val"
  by (simp add: unat_drop_bit_7 word_le_nat_alt)

termination varint_write
  by (relation "measure (\<lambda>(val, buf). unat val)") (simp_all add: unat_drop_7_less)

declare varint_write.simps [simp del]

definition consume :: "(data_buffer \<Rightarrow> data_buffer) \<Rightarrow> data_buffer \<Rightarrow> data_buffer" where
  "consume cb buf = cb buf"

definition pair_write :: "(u64 \<Rightarrow> data_buffer \<Rightarrow> data_buffer) \<Rightarrow> u64 \<Rightarrow> data_buffer \<Rightarrow> data_buffer" where
  "pair_write write1 val buf = write1 val buf"

definition pair_delegate :: "(data_buffer \<Rightarrow> data_buffer) \<Rightarrow> data_buffer \<Rightarrow> data_buffer" where
  "pair_delegate cb buf = cb buf"

definition sum_write :: "nat \<Rightarrow> data_buffer \<Rightarrow> data_buffer" where
  "sum_write i buf = pair_write varint_write (of_nat i) buf"

definition sum_delegate :: "nat \<Rightarrow> (data_buffer \<Rightarrow> data_buffer) \<Rightarrow> data_buffer \<Rightarrow> data_buffer" where
  "sum_delegate i cb buf = cb (sum_write i buf)"

definition list_contents_delegate :: "(data_buffer \<Rightarrow> data_buffer) \<Rightarrow> data_buffer \<Rightarrow> data_buffer" where
  "list_contents_delegate cb buf = cb buf"

definition list_contents_finish :: "data_buffer \<Rightarrow> data_buffer" where
  "list_contents_finish buf = buf"

section \<open>Parsing\<close>

text \<open>
  The iterator over the segment is the rest of the bytes. Reading past the end and shifting by the
  width of the type or more are undefined.
\<close>

fun parseVarint_loop :: "u64 \<Rightarrow> nat \<Rightarrow> u8 list \<Rightarrow> (u64 \<times> u8 list) outcome" where
  "parseVarint_loop v shift [] = Inl (Undefined ''read past the end'')"
| "parseVarint_loop v shift (b # it) =
     (if 64 \<le> shift then Inl (Undefined ''shift'')
      else let v' = v OR push_bit shift (ucast (b AND 0x7f)) in
        if 0x80 \<le> b then parseVarint_loop v' (shift + 7) it else Inr (v', it))"

definition parseVarint :: "u8 list \<Rightarrow> (u64 \<times> u8 list) outcome" where
  "parseVarint it = parseVarint_loop 0 0 it"

text \<open>
  What \<^verbatim>\<open>parse\<close> returns. A \<^verbatim>\<open>Lazy\<close> refers to the one iterator and to a description, so that it is its
  description here and the iterator is passed to the call.
\<close>

datatype parsed =
    PUnit
  | PVarInt u64
  | PPair dynamic dynamic
  | PList u64 dynamic
  | PSum u64 dynamic

definition parse :: "dynamic \<Rightarrow> u8 list \<Rightarrow> (parsed \<times> u8 list) outcome" where
  "parse ty it = (case ty of
      DUnit \<Rightarrow> Inr (PUnit, it)
    | DVarInt \<Rightarrow> bindE (parseVarint it) (\<lambda>(v, it). Inr (PVarInt v, it))
    | DPair a b \<Rightarrow> Inr (PPair a b, it)
    | DList e \<Rightarrow> bindE (parseVarint it) (\<lambda>(n, it). Inr (PList n e, it))
    | DSum ts \<Rightarrow> bindE (parseVarint it) (\<lambda>(i, it).
        bindE (assertE (unat i < length ts)) (\<lambda>_. Inr (PSum i (ts ! unat i), it))))"

definition lazy_call :: "dynamic \<Rightarrow> u8 list \<Rightarrow> (parsed \<times> u8 list) outcome" where
  "lazy_call l it = parse l it"

section \<open>The encoding of integers\<close>

lemma low_bits: "(w :: 'a :: len word) AND 0x7f = take_bit 7 w"
  by (simp add: take_bit_eq_mask mask_eq_exp_minus_1)

lemma high_bit: "bit (0x80 :: 'a :: len word) n \<longleftrightarrow> n = 7 \<and> 7 < LENGTH('a)"
proof -
  have "bit (2 ^ 7 :: 'a word) n \<longleftrightarrow> n = 7 \<and> 7 < LENGTH('a)"
    by (simp only: bit_exp_iff) auto
  then show ?thesis by simp
qed

lemma small_take_bit: "(val :: u64) < 0x80 \<Longrightarrow> take_bit 7 val = val"
  by (simp add: word_unat_eq_iff unsigned_take_bit_eq take_bit_nat_eq_self_iff word_less_nat_alt)

lemma decode_high: "ucast ((ucast (0x80 OR (val AND 0x7f) :: u64) :: u8) AND 0x7f) = val AND (0x7f :: u64)"
  unfolding low_bits
  by (rule bit_word_eqI)
    (simp only: bit_unsigned_iff bit_take_bit_iff bit_or_iff high_bit possible_bit_word, auto)

lemma decode_low: "val < 0x80 \<Longrightarrow> ucast ((ucast (val :: u64) :: u8) AND 0x7f) = val"
  unfolding low_bits
  by (subst (2) small_take_bit [symmetric], assumption) (rule bit_word_eqI, auto simp: bit_simps)

lemma high_byte: "0x80 \<le> (ucast (0x80 OR w :: u64) :: u8)"
proof -
  have "(ucast (0x80 OR w) :: u8) = 0x80 OR ucast w"
    by (rule bit_word_eqI) (auto simp: bit_simps high_bit)
  moreover have "uint (0x80 :: u8) \<le> uint (0x80 OR ucast w :: u8)"
    by (simp only: uint_or) (simp add: or_greater_eq)
  ultimately show ?thesis by (simp add: word_le_def)
qed

lemma low_byte: "val < 0x80 \<Longrightarrow> \<not> 0x80 \<le> (ucast (val :: u64) :: u8)"
  by (simp add: word_le_nat_alt word_less_nat_alt unsigned_ucast_eq take_bit_eq_mod)

lemma split_7: "push_bit s (val AND 0x7f) OR push_bit (s + 7) (drop_bit 7 val) = push_bit s (val :: u64)"
proof (rule bit_word_eqI)
  fix n assume "n < LENGTH(64)"
  have "7 + (n - (s + 7)) = n - s" if "\<not> n - s < 7" using that by simp
  then show "bit (push_bit s (val AND 0x7f) OR push_bit (s + 7) (drop_bit 7 val)) n = bit (push_bit s val) n"
    unfolding low_bits by (cases "n - s < 7") (auto simp: bit_simps)
qed

text \<open>What is read back is what was written, wherever the segment continues.\<close>

function varint_bytes :: "u64 \<Rightarrow> u8 list" where
  "varint_bytes val = (if 0x80 \<le> val then ucast (0x80 OR (val AND 0x7f)) # varint_bytes (drop_bit 7 val)
     else [ucast val])"
  by pat_completeness auto
termination
  by (relation "measure unat") (auto simp: unat_drop_7_less)

declare varint_bytes.simps [simp del]

lemma varint_write_bytes: "varint_write val buf = buf @ varint_bytes val"
proof (induction val buf rule: varint_write.induct)
  case (1 val buf)
  then show ?case
    by (subst varint_write.simps, subst varint_bytes.simps) (simp add: write_byte_def)
qed

lemma parseVarint_loop_bytes:
  "shift < 64 \<Longrightarrow> unat val < 2 ^ (64 - shift) \<Longrightarrow>
   parseVarint_loop v shift (varint_bytes val @ rest) = Inr (v OR push_bit shift val, rest)"
proof (induction val arbitrary: v shift rule: varint_bytes.induct)
  case (1 val)
  show ?case
  proof (cases "0x80 \<le> val")
    case True
    then have ge: "128 \<le> unat val" by (simp add: word_le_nat_alt)
    then have "(2 :: nat) ^ 7 < 2 ^ (64 - shift)" using "1.prems"(2) by simp
    then have shift: "shift + 7 < 64" by (subst (asm) power_strict_increasing_iff) auto
    then have "(2 :: nat) ^ (64 - shift) = 2 ^ (64 - (shift + 7)) * 128"
      using power_add [of "2 :: nat" "64 - (shift + 7)" 7] by simp
    then have "unat (drop_bit 7 val) < 2 ^ (64 - (shift + 7))"
      using "1.prems"(2) by (simp add: unat_drop_bit_7 less_mult_imp_div_less)
    note IH = "1.IH" [OF True shift this]
    show ?thesis
      using "1.prems"(1) True
      by (subst varint_bytes.simps)
        (simp only: if_True append_Cons parseVarint_loop.simps Let_def high_byte decode_high IH or.assoc split_7, simp)
  next
    case False
    then have "val < 0x80" by simp
    then show ?thesis
      using "1.prems"(1) by (subst varint_bytes.simps) (simp add: decode_low low_byte Let_def)
  qed
qed

lemma parseVarint_bytes: "parseVarint (varint_bytes val @ rest) = Inr (val, rest)"
  using parseVarint_loop_bytes [of 0 val 0 rest] unsigned_less [of val] by (simp add: parseVarint_def)

section \<open>Values\<close>

text \<open>
  The values of a type, how the operations of the static types write one, and a reader that calls
  every \<^verbatim>\<open>Lazy\<close> in order, as the processors of the generated code do.
\<close>

datatype data =
    VUnit
  | VInt u64
  | VPair data data
  | VSum nat data
  | VList "data list"

fun typed :: "dynamic \<Rightarrow> data \<Rightarrow> bool" where
  "typed DUnit VUnit = True"
| "typed DVarInt (VInt n) = True"
| "typed (DPair a b) (VPair x y) = (typed a x \<and> typed b y)"
| "typed (DSum ts) (VSum i v) = (i < length ts \<and> i < 2 ^ 64 \<and> typed (ts ! i) v)"
| "typed (DList e) (VList vs) = (length vs < 2 ^ 64 \<and> (\<forall>v \<in> set vs. typed e v))"
| "typed _ _ = False"

fun emit :: "data \<Rightarrow> data_buffer \<Rightarrow> data_buffer" where
  "emit VUnit buf = buf"
| "emit (VInt n) buf = consume (varint_write n) buf"
| "emit (VPair x y) buf = emit y (pair_delegate (emit x) buf)"
| "emit (VSum i v) buf = sum_delegate i (emit v) buf"
| "emit (VList vs) buf = list_contents_finish
     (fold (\<lambda>v. list_contents_delegate (emit v)) vs (pair_write varint_write (of_nat (length vs)) buf))"

primrec read_times :: "(u8 list \<Rightarrow> (data \<times> u8 list) outcome) \<Rightarrow> nat \<Rightarrow> u8 list \<Rightarrow>
    (data list \<times> u8 list) outcome" where
  "read_times f 0 it = Inr ([], it)"
| "read_times f (Suc n) it = bindE (f it) (\<lambda>(v, it). bindE (read_times f n it) (\<lambda>(vs, it). Inr (v # vs, it)))"

lemma read_times_cong [fundef_cong]:
  "n = n' \<Longrightarrow> it = it' \<Longrightarrow> (\<And>it. f it = g it) \<Longrightarrow> read_times f n it = read_times g n' it'"
proof -
  assume "n = n'" "it = it'" "\<And>it. f it = g it"
  then show ?thesis by (metis ext)
qed

lemma parse_part:
  "parse ty it = Inr (PPair a b, it') \<Longrightarrow> ty = DPair a b"
  "parse ty it = Inr (PList n a, it') \<Longrightarrow> ty = DList a"
  "parse ty it = Inr (PSum i a, it') \<Longrightarrow> \<exists>ts. ty = DSum ts \<and> unat i < length ts \<and> a = ts ! unat i"
  by (auto simp: parse_def bindE_Inr_iff assertE_def split: dynamic.splits if_splits)

lemma parse_smaller:
  assumes "parse ty it = Inr (p, it')"
  shows "p = PPair a b \<Longrightarrow> size a < size ty" "p = PPair a b \<Longrightarrow> size b < size ty"
    "p = PList n a \<Longrightarrow> size a < size ty" "p = PSum i a \<Longrightarrow> size a < size ty"
proof -
  show "p = PSum i a \<Longrightarrow> size a < size ty"
  proof -
    assume "p = PSum i a"
    then obtain ts where ts: "ty = DSum ts" "unat i < length ts" "a = ts ! unat i"
      using parse_part(3) assms by blast
    then have "size a < Suc (size_list size ts)"
      using size_list_estimation' [OF nth_mem [of "unat i" ts] order_refl, of size] by simp
    then show ?thesis using ts by simp
  qed
qed (use assms parse_part in fastforce)+

function read :: "dynamic \<Rightarrow> u8 list \<Rightarrow> (data \<times> u8 list) outcome" where
  "read ty it = bindE (lazy_call ty it) (\<lambda>(p, it). case p of
      PUnit \<Rightarrow> Inr (VUnit, it)
    | PVarInt n \<Rightarrow> Inr (VInt n, it)
    | PPair a b \<Rightarrow> bindE (read a it) (\<lambda>(x, it). bindE (read b it) (\<lambda>(y, it). Inr (VPair x y, it)))
    | PList n a \<Rightarrow> bindE (read_times (read a) (unat n) it) (\<lambda>(vs, it). Inr (VList vs, it))
    | PSum i a \<Rightarrow> bindE (read a it) (\<lambda>(v, it). Inr (VSum (unat i) v, it)))"
  by pat_completeness auto
termination
  by (relation "measure (\<lambda>(ty, it). size ty)") (auto simp: lazy_call_def dest: parse_smaller)

declare read.simps [simp del]

lemma read_unfold:
  "read DUnit it = Inr (VUnit, it)"
  "read DVarInt it = bindE (parseVarint it) (\<lambda>(n, it). Inr (VInt n, it))"
  "read (DPair a b) it = bindE (read a it) (\<lambda>(x, it). bindE (read b it) (\<lambda>(y, it). Inr (VPair x y, it)))"
  "read (DList a) it = bindE (parseVarint it) (\<lambda>(n, it).
     bindE (read_times (read a) (unat n) it) (\<lambda>(vs, it). Inr (VList vs, it)))"
  "read (DSum ts) it = bindE (parseVarint it) (\<lambda>(i, it). bindE (assertE (unat i < length ts)) (\<lambda>_.
     bindE (read (ts ! unat i) it) (\<lambda>(v, it). Inr (VSum (unat i) v, it))))"
  by (subst read.simps, auto simp: lazy_call_def parse_def bindE_def assertE_def split: sum.splits prod.splits)+

section \<open>Properties\<close>

lemma emit_append: "emit v buf = buf @ emit v []"
proof (induction v arbitrary: buf)
  case (VList vs)
  have "fold (\<lambda>v. list_contents_delegate (emit v)) vs buf = buf @ concat (map (\<lambda>v. emit v []) vs)" for buf
    using VList
  proof (induction vs arbitrary: buf)
    case (Cons v vs)
    have "fold (\<lambda>v. list_contents_delegate (emit v)) vs (emit v buf) =
        emit v buf @ concat (map (\<lambda>v. emit v []) vs)"
      by (rule Cons.IH, rule Cons.prems, simp)
    then show ?case using Cons.prems [of v buf] by (simp add: list_contents_delegate_def [of "emit v"])
  qed simp
  then show ?case
    by (simp add: list_contents_finish_def pair_write_def varint_write_bytes)
next
  case (VPair x y)
  from VPair(2) [of "emit x buf"] VPair(2) [of "emit x []"] VPair(1) [of buf]
  show ?case by (simp add: pair_delegate_def)
next
  case (VSum i v)
  from VSum [of "sum_write i buf"] VSum [of "sum_write i []"]
  show ?case by (simp add: sum_delegate_def sum_write_def pair_write_def varint_write_bytes)
qed (simp_all add: consume_def varint_write_bytes)

lemma emit_list:
  "emit (VList vs) buf = buf @ varint_bytes (of_nat (length vs)) @ concat (map (\<lambda>v. emit v []) vs)"
proof -
  have "fold (\<lambda>v. list_contents_delegate (emit v)) vs buf = buf @ concat (map (\<lambda>v. emit v []) vs)" for buf
  proof (induction vs arbitrary: buf)
    case (Cons v vs)
    then show ?case using emit_append [of v buf] by (simp add: list_contents_delegate_def)
  qed simp
  then show ?thesis by (simp add: list_contents_finish_def pair_write_def varint_write_bytes)
qed

lemma read_emit: "typed ty v \<Longrightarrow> read ty (emit v [] @ rest) = Inr (v, rest)"
proof (induction v arbitrary: ty rest)
  case VUnit
  then show ?case by (cases ty) (simp_all add: read_unfold)
next
  case (VInt n)
  then show ?case
    by (cases ty) (simp_all add: read_unfold consume_def varint_write_bytes parseVarint_bytes)
next
  case (VPair x y)
  then obtain a b where t: "ty = DPair a b" "typed a x" "typed b y" by (cases ty) auto
  have "emit (VPair x y) [] @ rest = emit x [] @ emit y [] @ rest"
    using emit_append [of y "emit x []"] by (simp add: pair_delegate_def)
  then show ?case using VPair.IH t by (simp add: read_unfold)
next
  case (VSum i v)
  then obtain ts where t: "ty = DSum ts" "i < length ts" "i < 2 ^ 64" "typed (ts ! i) v" by (cases ty) auto
  have "emit (VSum i v) [] @ rest = varint_bytes (of_nat i) @ emit v [] @ rest"
    using emit_append [of v "varint_bytes (of_nat i)"]
    by (simp add: sum_delegate_def sum_write_def pair_write_def varint_write_bytes)
  moreover have "unat (of_nat i :: u64) = i" using t(3) by (simp add: unat_of_nat)
  ultimately show ?case using VSum.IH t by (simp add: read_unfold parseVarint_bytes)
next
  case (VList vs)
  then obtain e where t: "ty = DList e" "length vs < 2 ^ 64" "\<forall>v \<in> set vs. typed e v" by (cases ty) auto
  have "read_times (read e) (length vs) (concat (map (\<lambda>v. emit v []) vs) @ rest) = Inr (vs, rest)"
    using VList.IH t(3) by (induction vs) auto
  moreover have "unat (of_nat (length vs) :: u64) = length vs" using t(2) by (simp add: unat_of_nat)
  ultimately show ?case using t by (simp add: emit_list read_unfold parseVarint_bytes del: emit.simps)
qed

text \<open>
  C14: what the static types write for a value of a type, followed by anything, is read back as that
  value and leaves what follows, for values of any depth and integers of any size.
\<close>

theorem read_emit_roundtrip:
  assumes "typed ty v"
  shows "read ty (drop (buffer_offset buf) (emit v buf) @ rest) = Inr (v, rest)"
  using read_emit [OF assms] emit_append [of v buf] by (simp add: buffer_offset_def)

theorem read_emit_roundtrip_witness:
  "read (DPair DVarInt (DSum [DUnit, DList DVarInt]))
     (drop (buffer_offset [7]) (emit (VPair (VInt 300) (VSum 1 (VList [VInt 5, VInt (- 1)]))) [7]) @ [9]) =
   Inr (VPair (VInt 300) (VSum 1 (VList [VInt 5, VInt (- 1)])), [9])"
  by (rule read_emit_roundtrip) simp

text \<open>The errors of the parser.\<close>

definition parse_errors :: "error set" where
  "parse_errors = {Undefined ''read past the end'', Undefined ''shift'', AssertFailed}"

lemma parseVarint_errors: "spec parse_errors (parseVarint it) (\<lambda>x. True)"
proof -
  have "spec parse_errors (parseVarint_loop v s it) (\<lambda>x. True)" for v s
    by (induction v s it rule: parseVarint_loop.induct) (simp_all add: Let_def parse_errors_def)
  then show ?thesis by (simp add: parseVarint_def)
qed

lemma read_times_typed:
  assumes "\<And>it. spec E (f it) (\<lambda>(v, it). P v)"
  shows "spec E (read_times f n it) (\<lambda>(vs, it). length vs = n \<and> (\<forall>v \<in> set vs. P v))"
proof (induction n arbitrary: it)
  case (Suc n)
  show ?case
    unfolding read_times.simps
    by (rule spec_bind_prodI [OF assms], rule spec_bind_prodI [OF Suc]) simp
qed simp

text \<open>
  C33: whatever the reader accepts is a value of the description it was given, on any bytes; and it
  always ends: it returns, reads past the end, shifts too far, or fails the assertion on the index of
  a sum.
\<close>

theorem read_typed: "spec parse_errors (read ty it) (\<lambda>(v, it'). typed ty v)"
proof (induction ty arbitrary: it)
  case (DPair a b)
  show ?case
    unfolding read_unfold
    by (rule spec_bind_prodI [OF DPair(1)], rule spec_bind_prodI [OF DPair(2)]) simp
next
  case (DSum ts)
  show ?case
    unfolding read_unfold
  proof (rule spec_bind_prodI, rule spec_mono [OF parseVarint_errors])
    fix x :: "u64 \<times> u8 list" show "case x of (i, it) \<Rightarrow> True" by (simp add: split_def)
  next
    fix i it' assume True
    show "spec parse_errors (bindE (assertE (unat (i :: u64) < length ts)) (\<lambda>_.
       bindE (read (ts ! unat i) it') (\<lambda>(v, it). Inr (VSum (unat i) v, it)))) (\<lambda>(v, it'). typed (DSum ts) v)"
    proof (cases "unat i < length ts")
      case True
      then have "ts ! unat i \<in> set ts" by simp
      from DSum [OF this, of it'] show ?thesis
        using True unsigned_less [of i] by (auto intro!: spec_bindI)
    qed (simp add: parse_errors_def)
  qed
next
  case (DList e)
  show ?case
    unfolding read_unfold
  proof (rule spec_bind_prodI, rule spec_mono [OF parseVarint_errors])
    fix x :: "u64 \<times> u8 list" show "case x of (n, it) \<Rightarrow> True" by (simp add: split_def)
  next
    fix n it' assume True
    show "spec parse_errors (bindE (read_times (read e) (unat (n :: u64)) it') (\<lambda>(vs, it). Inr (VList vs, it)))
        (\<lambda>(v, it'). typed (DList e) v)"
      by (rule spec_bind_prodI [OF read_times_typed [OF DList]]) (use unsigned_less [of n] in simp)
  qed
next
  case DVarInt
  show ?case
    unfolding read_unfold by (rule spec_bindI [OF parseVarint_errors]) (simp add: split_def)
qed (simp add: read_unfold)

lemma varint_bytes_length:
  "1 \<le> k \<Longrightarrow> unat val < 2 ^ (7 * k) \<Longrightarrow> 1 \<le> length (varint_bytes val) \<and> length (varint_bytes val) \<le> k"
proof (induction val arbitrary: k rule: varint_bytes.induct)
  case (1 val)
  show ?case
  proof (cases "0x80 \<le> val")
    case True
    then have "128 \<le> unat val" by (simp add: word_le_nat_alt)
    then have "k \<noteq> 1" using "1.prems"(2) by auto
    then obtain j where k: "k = Suc j" "1 \<le> j" using "1.prems"(1) by (cases k) auto
    then have "unat (drop_bit 7 val) < 2 ^ (7 * j)"
      using "1.prems"(2) by (simp add: unat_drop_bit_7 power_add less_mult_imp_div_less mult.commute)
    from "1.IH" [OF True k(2) this] show ?thesis
      using True k(1) by (subst (1 2) varint_bytes.simps) simp
  next
    case False
    then show ?thesis using "1.prems"(1) by (subst (1 2) varint_bytes.simps) simp
  qed
qed

text \<open>
  The encoding of an integer has at least one and at most ten bytes, and \<open>k\<close> bytes are enough
  for the integers below \<open>2 ^ (7 * k)\<close>.
\<close>

theorem varint_write_length:
  "length (varint_write val []) \<in> {1..10} \<and>
   (\<forall>k \<in> {1..10}. unat val < 2 ^ (7 * k) \<longrightarrow> length (varint_write val []) \<le> k)"
proof -
  have "unat val < 2 ^ 64" using unsigned_less [of val, where ?'a = nat] by simp
  then have "unat val < 2 ^ (7 * 10)" by simp
  from varint_bytes_length [OF _ this] varint_bytes_length [of _ val] show ?thesis
    by (simp add: varint_write_bytes)
qed

theorem varint_write_length_witness:
  "length (varint_write 300 []) \<le> 2"
proof -
  have "2 \<in> {1..10 :: nat}" "unat (300 :: u64) < 2 ^ (7 * 2)" by simp_all
  then show ?thesis using varint_write_length [of 300] by blast
qed

end
