(* ===== verification/CodeGen.thy ===== *)
theory CodeGen
  imports AddPadding DataSegment
begin

text \<open>
  The C++ text that \<^verbatim>\<open>oi/CodeGen.cpp\<close> prints for the types of a graph: declarations, definitions, assertions, names,
  sizes, and for each class a static type of its data, a function that writes the data and instructions that read them. The text
  itself is a string here; what the static type and the function mean, as far as \<^verbatim>\<open>st.h\<close> says, is in the second half.
\<close>

section \<open>Names and sizes\<close>

definition nl :: string where "nl = [CHR 0x0A]"
definition dq :: string where "dq = [CHR 0x22]"

text \<open>\<^verbatim>\<open>for (const Type& t : typeGraph.finalTypes)\<close>\<close>

definition for_final :: "type_graph \<Rightarrow> (tref \<Rightarrow> ty \<Rightarrow> 's \<Rightarrow> 's outcome) \<Rightarrow> 's \<Rightarrow> 's outcome" where
  "for_final g f = for_each (\<lambda>t s. bindE (deref g t) (\<lambda>n. f t n s)) (finalTypes g)"

definition enumerateTypeNames_body :: "(tref, type_graph, string list) call \<Rightarrow> (tref, type_graph, string list) call" where
  "enumerateTypeNames_body call t g = bindE (deref g t) (\<lambda>n. bindE (type_inputName g t) (\<lambda>nm. case n of
      Typedef td \<Rightarrow> bindE (call (td_underlying td) g) (\<lambda>names. Inr (nm # names))
    | _ \<Rightarrow> Inr [nm]))"

definition enumerateTypeNames :: "type_graph \<Rightarrow> tref \<Rightarrow> string list outcome" where
  "enumerateTypeNames g t = bindE (deref g t) (\<lambda>n.
     recur enumerateTypeNames_body (chain_depth g) (case n of CaptureKeys ck \<Rightarrow> ck_underlying ck | _ \<Rightarrow> t) g)"

definition padded_name :: "member \<Rightarrow> bool" where
  "padded_name m = starts_with (m_name m) MemberPrefix"

text \<open>
  \<^verbatim>\<open>std::accumulate\<close> starts with the \<^verbatim>\<open>int\<close> 0 and so keeps an \<^verbatim>\<open>int\<close> between the members.
\<close>

definition add_exclusive :: "type_graph \<Rightarrow> member \<Rightarrow> 32 word \<Rightarrow> 32 word outcome" where
  "add_exclusive g m a = (if padded_name m
     then bindE (type_size g (m_type m)) (\<lambda>sz. Inr (ucast ((scast a :: u64) + sz)))
     else Inr a)"

definition calculateExclusiveSize :: "type_graph \<Rightarrow> tref \<Rightarrow> u64 outcome" where
  "calculateExclusiveSize g t = bindE (stripTypedefs g t) (\<lambda>u. bindE (deref g u) (\<lambda>n. case n of
      Class c \<Rightarrow> bindE (for_each (add_exclusive g) (cl_members c) 0) (\<lambda>a. Inr (scast a))
    | _ \<Rightarrow> type_size g u))"

section \<open>Declarations and definitions\<close>

text \<open>\<^verbatim>\<open>std::set\<close>: in the order of \<^verbatim>\<open>string_view\<close>, once each.\<close>

fun str_less :: "string \<Rightarrow> string \<Rightarrow> bool" where
  "str_less [] [] = False"
| "str_less [] (d # ds) = True"
| "str_less (c # cs) [] = False"
| "str_less (c # cs) (d # ds) = (if (of_char c :: nat) = of_char d then str_less cs ds else (of_char c :: nat) < of_char d)"

fun emplace :: "string \<Rightarrow> string list \<Rightarrow> string list" where
  "emplace s [] = [s]"
| "emplace s (t # ts) = (if s = t then t # ts else if str_less s t then s # t # ts else t # emplace s ts)"

definition addIncludes :: "type_graph \<Rightarrow> feature enum_bitset \<Rightarrow> string \<Rightarrow> string outcome" where
  "addIncludes g features code =
     (let includes = emplace ''cstddef'' [];
        (code, includes) = (if bit_get features TreeBuilderV2
          then (code @ ''#define DEFINE_DESCRIBE 1'' @ nl, fold emplace [''functional'', ''oi/exporters/inst.h'', ''oi/types/dy.h'', ''oi/types/st.h''] includes)
          else (code, includes));
        includes = (if bit_get features Library then fold emplace [''memory'', ''oi/IntrospectionResult.h'', ''vector''] includes else includes);
        includes = (if bit_get features JitTiming then emplace ''chrono'' includes else includes) in
      bindE (for_final g (\<lambda>t n includes. case n of
          Container c \<Rightarrow> Inr (emplace (ci_header (co_info c)) includes)
        | _ \<Rightarrow> Inr includes) includes) (\<lambda>includes.
      Inr (fold (\<lambda>inc code. code @ ''#include <'' @ inc @ ''>'' @ nl) includes code)))"

definition class_key :: "class_node \<Rightarrow> string" where
  "class_key c = (if cl_kind c = KUnion then ''union '' else ''struct '')"

definition genDeclsClass :: "class_node \<Rightarrow> string \<Rightarrow> string" where
  "genDeclsClass c code = code @ class_key c @ cl_name c @ '';'' @ nl"

definition genDeclsEnum :: "enum_node \<Rightarrow> string \<Rightarrow> string outcome" where
  "genDeclsEnum e code = bindE
     (if en_size e = 8 then Inr ''uint64_t'' else if en_size e = 4 then Inr ''uint32_t''
      else if en_size e = 2 then Inr ''uint16_t'' else if en_size e = 1 then Inr ''uint8_t'' else Inl Aborted)
     (\<lambda>ut. Inr (code @ ''enum class '' @ en_name e @ '' : '' @ ut @ '' {};'' @ nl))"

definition genDecls :: "type_graph \<Rightarrow> string \<Rightarrow> string outcome" where
  "genDecls g = for_final g (\<lambda>t n code. case n of
      Class c \<Rightarrow> Inr (genDeclsClass c code)
    | Enum e \<Rightarrow> genDeclsEnum e code
    | _ \<Rightarrow> Inr code)"

definition names_prelude :: string where
  "names_prelude = nl @ ''template <typename T>'' @ nl @ ''struct NameProvider;'' @ nl @
     nl @ ''template <unsigned int N, unsigned int align, int32_t Id>'' @ nl @
     ''struct NameProvider<DummySizedOperator<N, align, Id>> {'' @ nl @
     ''  static constexpr std::array<std::string_view, 0> names = { };'' @ nl @ ''};'' @ nl"

definition genNames :: "type_graph \<Rightarrow> string \<Rightarrow> string outcome" where
  "genNames g code = bindE (for_final g (\<lambda>t n (code, emittedTypes). case n of
       Typedef td \<Rightarrow> Inr (code, emittedTypes)
     | _ \<Rightarrow> bindE (type_name g t) (\<lambda>nm.
         if nm \<in> emittedTypes then Inr (code, emittedTypes)
         else bindE (type_inputName g t) (\<lambda>inm. Inr (
           code @ ''template <> struct NameProvider<'' @ nm @
             ''> { static constexpr std::array<std::string_view, 1> names = {'' @ dq @ inm @ dq @ ''}; };'' @ nl,
           insert nm emittedTypes)))) (code @ names_prelude, {})) (\<lambda>(code, emittedTypes). Inr code)"

definition genExclusiveSizes :: "type_graph \<Rightarrow> string \<Rightarrow> string outcome" where
  "genExclusiveSizes g code = for_final g (\<lambda>t n code. case n of
       Typedef td \<Rightarrow> Inr code
     | _ \<Rightarrow> bindE (calculateExclusiveSize g t) (\<lambda>exclusiveSize. bindE (type_size g t) (\<lambda>sz.
         if exclusiveSize = sz then Inr code
         else bindE (type_name g t) (\<lambda>nm. Inr (
           code @ ''template <> struct ExclusiveSizeProvider<'' @ nm @ ''> { static constexpr size_t size = '' @
             dec_u64 exclusiveSize @ ''; };'' @ nl)))))
     (code @ nl @ ''template <typename T>'' @ nl @ ''struct ExclusiveSizeProvider {'' @ nl @
        ''  static constexpr size_t size = sizeof(T);'' @ nl @ ''};'' @ nl)"

definition rfind_colons :: "string \<Rightarrow> nat option" where
  "rfind_colons name = find (\<lambda>i. take 2 (drop i name) = ''::'') (rev [0..<length name])"

definition declareFullyQualifiedStruct :: "string \<Rightarrow> string \<Rightarrow> string" where
  "declareFullyQualifiedStruct name code = (case rfind_colons name of
      Some pos \<Rightarrow> let ns = take pos name; structName = drop (pos + 2) name in
        code @ ''namespace '' @ ns @ '' {'' @ nl @ ''struct '' @ structName @ '';'' @ nl @ ''} // namespace '' @ ns @ nl
    | None \<Rightarrow> code @ ''struct '' @ name @ '';'' @ nl)"

definition genDefsThriftClass :: "class_node \<Rightarrow> string \<Rightarrow> string" where
  "genDefsThriftClass c code = declareFullyQualifiedStruct (fqName c) code @
     ''namespace apache { namespace thrift {'' @ nl @
     ''template <> struct TStructDataStorage<'' @ fqName c @ ''> {'' @ nl @
     ''  static constexpr const std::size_t fields_size = 1; // Invalid, do not use'' @ nl @
     ''  static const std::array<folly::StringPiece, fields_size> fields_names;'' @ nl @
     ''  static const std::array<int16_t, fields_size> fields_ids;'' @ nl @
     ''  static const std::array<protocol::TType, fields_size> fields_types;'' @ nl @ nl @
     ''  static const std::array<folly::StringPiece, fields_size> storage_names;'' @ nl @
     ''  static const std::array<int, fields_size> __attribute__((weak)) isset_indexes;'' @ nl @
     ''};'' @ nl @ ''}} // namespace thrift, namespace apache'' @ nl"

text \<open>\<^verbatim>\<open>thriftIssetMembers_\<close>: the member of a class that holds Thrift's isset bits, by its position.\<close>

type_synonym isset_members = "tref \<Rightarrow> nat option"

fun isset_member :: "type_graph \<Rightarrow> nat \<Rightarrow> member list \<Rightarrow> nat option outcome" where
  "isset_member g i [] = Inr None"
| "isset_member g i (m # ms) = bindE (deref g (m_type m)) (\<lambda>n. case n of
      Container c \<Rightarrow> if ci_ctype (co_info c) = THRIFT_ISSET_TYPE then Inr (Some i) else isset_member g (Suc i) ms
    | _ \<Rightarrow> isset_member g (Suc i) ms)"

definition genDefsThrift :: "type_graph \<Rightarrow> string \<times> isset_members \<Rightarrow> (string \<times> isset_members) outcome" where
  "genDefsThrift g = for_final g (\<lambda>t n (code, thriftIssetMembers). case n of
      Class c \<Rightarrow> bindE (isset_member g 0 (cl_members c)) (\<lambda>issetMember. case issetMember of
          None \<Rightarrow> Inr (code, thriftIssetMembers)
        | Some i \<Rightarrow> Inr (genDefsThriftClass c code, thriftIssetMembers(t := Some i)))
    | _ \<Rightarrow> Inr (code, thriftIssetMembers))"

definition genDefsClass :: "type_graph \<Rightarrow> class_node \<Rightarrow> string \<Rightarrow> string outcome" where
  "genDefsClass g c code =
     (let code = code @ class_key c;
        code = (if cl_packed c then code @ ''__attribute__((__packed__)) '' else code);
        code = (if length (cl_members c) = 1 \<and> padded_name (cl_members c ! 0)
          then code @ ''alignas('' @ dec_u64 (cl_align c) @ '') '' else code) in
      bindE (for_each (\<lambda>mem code. bindE (type_name g (m_type mem)) (\<lambda>nm. Inr (
          code @ ''  '' @ nm @ '' '' @ m_name mem @
          (if m_bitsize mem \<noteq> 0 then '' : '' @ dec_u64 (m_bitsize mem) else '''') @ '';'' @ nl)))
        (cl_members c) (code @ cl_name c @ '' {'' @ nl)) (\<lambda>code.
      Inr (code @ ''};'' @ nl @ nl)))"

definition genDefsTypedef :: "type_graph \<Rightarrow> typedef_node \<Rightarrow> string \<Rightarrow> string outcome" where
  "genDefsTypedef g td code = bindE (type_name g (td_underlying td)) (\<lambda>nm.
     Inr (code @ ''using '' @ td_name td @ '' = '' @ nm @ '';'' @ nl))"

definition genDefs :: "type_graph \<Rightarrow> string \<Rightarrow> string outcome" where
  "genDefs g = for_final g (\<lambda>t n code. case n of
      Class c \<Rightarrow> genDefsClass g c code
    | Typedef td \<Rightarrow> genDefsTypedef g td code
    | _ \<Rightarrow> Inr code)"

definition validate_size :: "string \<Rightarrow> u64 \<Rightarrow> string" where
  "validate_size name sz = ''static_assert(validate_size<'' @ name @ '', '' @ dec_u64 sz @ ''>::value);'' @ nl"

definition validate_offset :: "string \<Rightarrow> member \<Rightarrow> string" where
  "validate_offset name m = ''static_assert(validate_offset<offsetof('' @ name @ '', '' @ m_name m @ ''), '' @
     dec_u64 (m_bitOffset m div 8) @ ''>::value, '' @ dq @ ''Unexpected offset of '' @ name @ ''::'' @ m_name m @ dq @ '');'' @ nl"

definition genStaticAssertsClass :: "class_node \<Rightarrow> string \<Rightarrow> string" where
  "genStaticAssertsClass c code =
     fold (\<lambda>m code. if 0 < m_bitsize m then code else code @ validate_offset (cl_name c) m) (cl_members c)
       (code @ validate_size (cl_name c) (cl_size c)) @ nl"

definition genStaticAssertsContainer :: "container_node \<Rightarrow> string \<Rightarrow> string" where
  "genStaticAssertsContainer c code = code @ validate_size (co_name c) (co_size c) @ nl"

definition genStaticAsserts :: "type_graph \<Rightarrow> string \<Rightarrow> string outcome" where
  "genStaticAsserts g = for_final g (\<lambda>t n code. case n of
      Class c \<Rightarrow> Inr (genStaticAssertsClass c code)
    | Container con \<Rightarrow> Inr (genStaticAssertsContainer con code)
    | _ \<Rightarrow> Inr code)"

section \<open>The first version of the functions\<close>

definition getClassSizeFuncDecl :: "class_node \<Rightarrow> string \<Rightarrow> string" where
  "getClassSizeFuncDecl c code = code @ ''void getSizeType(const '' @ cl_name c @ '' &t, size_t &returnArg);'' @ nl"

text \<open>Whether the member at \<open>i\<close> has an isset bit: there is an isset member, and it is another one.\<close>

definition has_isset :: "nat option \<Rightarrow> nat \<Rightarrow> bool" where
  "has_isset thriftIssetMember i = (case thriftIssetMember of None \<Rightarrow> False | Some k \<Rightarrow> k \<noteq> i)"

definition save_isset :: "class_node \<Rightarrow> nat option \<Rightarrow> nat \<Rightarrow> string" where
  "save_isset c thriftIssetMember thriftFieldIdx =
     (let issetIdxStr = ''thrift_data::isset_indexes['' @ dec thriftFieldIdx @ '']'' in
      ''  if (&thrift_data::isset_indexes != nullptr && '' @ issetIdxStr @ '' != -1) {'' @ nl @
      ''    SAVE_DATA(t.'' @ m_name (cl_members c ! the thriftIssetMember) @ ''.get('' @ issetIdxStr @ ''));'' @ nl @
      ''  } else {'' @ nl @ ''    SAVE_DATA(-1);'' @ nl @ ''  }'' @ nl)"

definition size_of_member :: "class_node \<Rightarrow> nat option \<Rightarrow> nat \<Rightarrow> nat \<times> string \<Rightarrow> (nat \<times> string) outcome" where
  "size_of_member c thriftIssetMember i = (\<lambda>(thriftFieldIdx, code).
     let m = cl_members c ! i in
     if padded_name m then Inr (thriftFieldIdx, code)
     else let (thriftFieldIdx, code) = (if has_isset thriftIssetMember i
         then (thriftFieldIdx + 1, code @ save_isset c thriftIssetMember thriftFieldIdx) else (thriftFieldIdx, code)) in
       Inr (thriftFieldIdx, code @ ''  JLOG('' @ dq @ m_name m @ '' @'' @ dq @ '');'' @ nl @
         (if m_bitsize m = 0 then ''  JLOGPTR(&t.'' @ m_name m @ '');'' @ nl else '''') @
         ''  getSizeType(t.'' @ m_name m @ '', returnArg);'' @ nl))"

definition getClassSizeFuncConcrete :: "string \<Rightarrow> class_node \<Rightarrow> nat option \<Rightarrow> string \<Rightarrow> string outcome" where
  "getClassSizeFuncConcrete funcName c thriftIssetMember code =
     bindE (for_each (size_of_member c thriftIssetMember) [0..<length (cl_members c)]
       (0, code @ ''void '' @ funcName @ ''(const '' @ cl_name c @ '' &t, size_t &returnArg) {'' @ nl @
        (if thriftIssetMember \<noteq> None
         then ''  using thrift_data = apache::thrift::TStructDataStorage<'' @ fqName c @ ''>;'' @ nl else '''')))
       (\<lambda>(thriftFieldIdx, code). Inr (code @ ''}'' @ nl))"

text \<open>The symbols of the vtables: \<^verbatim>\<open>locateSymbol\<close> looks names up in the object files, its answers are a parameter.\<close>

record symbol_info =
  sym_addr :: u64
  sym_size :: u64

definition hex_digit :: "nat \<Rightarrow> char" where
  "hex_digit d = char_of (if d < 10 then 48 + d else 87 + d)"

fun hexadecimal :: "nat \<Rightarrow> string" where
  "hexadecimal n = (if n < 16 then [hex_digit n] else hexadecimal (n div 16) @ [hex_digit (n mod 16)])"

declare hexadecimal.simps [simp del]

fun child_vtables :: "type_graph \<Rightarrow> (string \<Rightarrow> symbol_info option) \<Rightarrow> tref list \<Rightarrow> symbol_info list \<Rightarrow> symbol_info list outcome" where
  "child_vtables g locateSymbol [] childVtableAddrs = Inr childVtableAddrs"
| "child_vtables g locateSymbol (t # ts) childVtableAddrs = bindE (deref g t) (\<lambda>n. case n of
      Class childClass \<Rightarrow> (case locateSymbol (''vtable for '' @ ''TODO - implement me'') of
          None \<Rightarrow> Inr []
        | Some vtableSym \<Rightarrow> child_vtables g locateSymbol ts (childVtableAddrs @ [vtableSym]))
    | _ \<Rightarrow> Inl Aborted)"

definition child_case :: "type_graph \<Rightarrow> class_node \<Rightarrow> symbol_info list \<Rightarrow> nat \<Rightarrow> string \<Rightarrow> string outcome" where
  "child_case g c childVtableAddrs i code =
     (if length childVtableAddrs \<le> i then Inl (Undefined ''index past the end of a vector'')
      else let vtableSym = childVtableAddrs ! i in
      bindE (type_name g (cl_children c ! i)) (\<lambda>childName. Inr (code @
        ''  if (vptrVal >= 0x'' @ hexadecimal (unat (sym_addr vtableSym)) @ '' && vptrVal < 0x'' @
        hexadecimal (unat (sym_addr vtableSym + sym_size vtableSym)) @ '') {'' @ nl @
        ''    SAVE_DATA('' @ dec i @ '');'' @ nl @
        ''    uintptr_t baseAddress = reinterpret_cast<uintptr_t>(&t) + topOffset;'' @ nl @
        ''    getSizeTypeConcrete(*reinterpret_cast<const '' @ childName @ ''*>(baseAddress), returnArg);'' @ nl @
        ''    return;'' @ nl @ ''  }'' @ nl)))"

definition getClassSizeFuncDef :: "feature enum_bitset \<Rightarrow> (string \<Rightarrow> symbol_info option) \<Rightarrow> type_graph \<Rightarrow> class_node \<Rightarrow>
    nat option \<Rightarrow> string \<Rightarrow> string outcome" where
  "getClassSizeFuncDef features locateSymbol g c thriftIssetMember code =
     (if \<not> bit_get features PolymorphicInheritance \<or> \<not> isDynamic c
      then getClassSizeFuncConcrete ''getSizeType'' c thriftIssetMember code
      else bindE (getClassSizeFuncConcrete ''getSizeTypeConcrete'' c thriftIssetMember code) (\<lambda>code.
        bindE (child_vtables g locateSymbol (cl_children c) []) (\<lambda>childVtableAddrs.
        bindE (for_each (child_case g c childVtableAddrs) [0..<length (cl_children c)]
          (code @ ''void getSizeType(const '' @ cl_name c @ '' &t, size_t &returnArg) {'' @ nl @
           ''  auto *vptr = *reinterpret_cast<uintptr_t * const *>(&t);'' @ nl @
           ''  uintptr_t topOffset = *(vptr - 2);'' @ nl @
           ''  uintptr_t vptrVal = reinterpret_cast<uintptr_t>(vptr);'' @ nl)) (\<lambda>code.
        Inr (code @ ''  SAVE_DATA(-1);'' @ nl @ ''  getSizeTypeConcrete(t, returnArg);'' @ nl @ ''}'' @ nl)))))"

text \<open>
  \<^verbatim>\<open>boost::format\<close> replaces the place holders of a text of the container's description, or throws; \<open>fmt\<close> is what it does.
  \<open>addr\<close> says which description a node refers to, and \<open>used\<close> holds those that have been printed.
\<close>

definition getContainerSizeFuncDecl :: "(string \<Rightarrow> string \<Rightarrow> string outcome) \<Rightarrow> container_node \<Rightarrow> string \<Rightarrow> string outcome" where
  "getContainerSizeFuncDecl fmt c code =
     bindE (fmt (cc_decl (ci_codegen (co_info c))) (ci_typeName (co_info c))) (\<lambda>txt. Inr (code @ txt))"

definition getContainerSizeFuncDef :: "(string \<Rightarrow> string \<Rightarrow> string outcome) \<Rightarrow> nat \<Rightarrow> container_node \<Rightarrow> nat set \<times> string \<Rightarrow>
    (nat set \<times> string) outcome" where
  "getContainerSizeFuncDef fmt info c = (\<lambda>(used, code).
     if info \<in> used then Inr (used, code)
     else bindE (fmt (cc_func (ci_codegen (co_info c))) (ci_typeName (co_info c))) (\<lambda>txt. Inr (insert info used, code @ txt)))"

definition addGetSizeFuncDecls :: "(string \<Rightarrow> string \<Rightarrow> string outcome) \<Rightarrow> type_graph \<Rightarrow> string \<Rightarrow> string outcome" where
  "addGetSizeFuncDecls fmt g = for_final g (\<lambda>t n code. case n of
      Class c \<Rightarrow> Inr (getClassSizeFuncDecl c code)
    | Container con \<Rightarrow> getContainerSizeFuncDecl fmt con code
    | _ \<Rightarrow> Inr code)"

definition addGetSizeFuncDefs :: "(string \<Rightarrow> string \<Rightarrow> string outcome) \<Rightarrow> feature enum_bitset \<Rightarrow> (string \<Rightarrow> symbol_info option) \<Rightarrow>
    isset_members \<Rightarrow> (tref \<Rightarrow> nat) \<Rightarrow> type_graph \<Rightarrow> nat set \<times> string \<Rightarrow> (nat set \<times> string) outcome" where
  "addGetSizeFuncDefs fmt features locateSymbol isset addr g = for_final g (\<lambda>t n (used, code). case n of
      Class c \<Rightarrow> bindE (getClassSizeFuncDef features locateSymbol g c (isset t) code) (\<lambda>code. Inr (used, code))
    | Container con \<Rightarrow> getContainerSizeFuncDef fmt (addr t) con (used, code)
    | _ \<Rightarrow> Inr (used, code))"

section \<open>Type handlers\<close>

text \<open>The position after the last member that is not padding, 0 if there is none (\<^verbatim>\<open>-1 + 1\<close>).\<close>

fun last_before :: "member list \<Rightarrow> nat \<Rightarrow> nat option" where
  "last_before members 0 = None"
| "last_before members (Suc i) = (if \<not> padded_name (members ! i) then Some i else last_before members i)"

definition getLastNonPaddingMemberIndex :: "member list \<Rightarrow> nat option" where
  "getLastNonPaddingMemberIndex members = last_before members (length members)"

definition past_last :: "nat option \<Rightarrow> nat" where
  "past_last i = (case i of None \<Rightarrow> 0 | Some i \<Rightarrow> i + 1)"

text \<open>The pieces of the two texts that must fit each other.\<close>

definition return_arg :: string where "return_arg = ''    return returnArg''"
definition write_open :: string where "write_open = nl @ ''      .write(getThriftIsset(t, ''"
definition write_close :: string where "write_close = ''))''"
definition consume_open :: string where "consume_open = ''consume''"
definition delegate_open :: string where "delegate_open = ''delegate''"
definition call_open :: string where
  "call_open = ''([&ctx, &t](auto ret) { return OIInternal::getSizeType<Ctx>(ctx, t.''"
definition call_close :: string where "call_close = '', ret); })''"
definition dot :: string where "dot = nl @ ''      .''"

definition traverse_member :: "class_node \<Rightarrow> nat option \<Rightarrow> nat \<Rightarrow> nat option \<Rightarrow> nat \<Rightarrow> nat \<times> string \<Rightarrow> (nat \<times> string) outcome" where
  "traverse_member c thriftIssetMember emptySize lastNonPaddingElement i = (\<lambda>(thriftFieldIdx, code).
     let m = cl_members c ! i in
     if padded_name m then Inr (thriftFieldIdx, code)
     else let code = (if length code = emptySize then code @ return_arg else code);
         (thriftFieldIdx, code) = (if has_isset thriftIssetMember i
           then (thriftFieldIdx + 1, code @ write_open @ dec thriftFieldIdx @ write_close) else (thriftFieldIdx, code)) in
       Inr (thriftFieldIdx, code @ dot @ (if lastNonPaddingElement = Some i then consume_open else delegate_open) @
         call_open @ m_name m @ call_close))"

definition genClassTraversalFunction :: "class_node \<Rightarrow> nat option \<Rightarrow> string \<Rightarrow> string outcome" where
  "genClassTraversalFunction c thriftIssetMember code =
     (let code = code @ ''  static types::st::Unit<DB> '' @ ''getSizeType'' @ ''('' @ nl @ ''      Ctx& ctx,'' @ nl @ ''    const '' @
          cl_name c @ ''& t,'' @ nl @ ''      typename TypeHandler<Ctx, '' @ cl_name c @ ''>::type returnArg) {'' @ nl;
        emptySize = length code;
        lastNonPaddingElement = getLastNonPaddingMemberIndex (cl_members c) in
      bindE (for_each (traverse_member c thriftIssetMember emptySize lastNonPaddingElement) [0..<past_last lastNonPaddingElement] (0, code))
        (\<lambda>(thriftFieldIdx, code).
      let code = (if length code = emptySize then code @ return_arg @ '';'' else code) in
      Inr (code @ '';'' @ nl @ ''  }'' @ nl)))"

definition pair_open :: string where "pair_open = ''types::st::Pair<DB, ''"
definition varint_type :: string where "varint_type = ''types::st::VarInt<DB>''"
definition unit_type :: string where "unit_type = ''types::st::Unit<DB>''"
definition comma :: string where "comma = '', ''"

definition handler_type :: "class_node \<Rightarrow> member \<Rightarrow> string" where
  "handler_type c m = ''typename TypeHandler<Ctx, decltype('' @ cl_name c @ ''::'' @ m_name m @ '')>::type''"

definition type_of_member :: "class_node \<Rightarrow> nat option \<Rightarrow> nat option \<Rightarrow> nat \<Rightarrow> nat \<times> string \<Rightarrow> (nat \<times> string) outcome" where
  "type_of_member c thriftIssetMember lastNonPaddingElement i = (\<lambda>(pairs, code).
     let m = cl_members c ! i; last = (lastNonPaddingElement = Some i) in
     if padded_name m then Inr (pairs, code)
     else let (pairs, code) = (if \<not> last then (pairs + 1, code @ pair_open) else (pairs, code));
         (pairs, code) = (if has_isset thriftIssetMember i
           then (pairs + 1, if last then code @ pair_open @ varint_type @ comma else code @ varint_type @ comma @ pair_open)
           else (pairs, code));
         code = code @ handler_type c m in
       Inr (pairs, if \<not> last then code @ comma else code))"

definition genClassStaticType :: "class_node \<Rightarrow> nat option \<Rightarrow> string \<Rightarrow> string outcome" where
  "genClassStaticType c thriftIssetMember code =
     (let lastNonPaddingElement = getLastNonPaddingMemberIndex (cl_members c); emptySize = length code in
      bindE (for_each (type_of_member c thriftIssetMember lastNonPaddingElement) [0..<past_last lastNonPaddingElement] (0, code))
        (\<lambda>(pairs, code).
      let code = code @ replicate pairs (CHR ''>'') in
      Inr (if length code = emptySize then code @ unit_type else code)))"

text \<open>The instructions that read the data of a class: the names of the types of a member, and one field for each member.\<close>

definition type_names_of :: "type_graph \<Rightarrow> member \<Rightarrow> nat \<times> string \<Rightarrow> (nat \<times> string) outcome" where
  "type_names_of g m = (\<lambda>(index, code).
     let index = index + 1 in
     if padded_name m then Inr (index, code)
     else bindE (enumerateTypeNames g (m_type m)) (\<lambda>names. Inr (index,
       code @ ''  static constexpr std::array<std::string_view, '' @ dec (length names) @ ''> member_'' @ dec index @
       ''_type_names = {'' @ concat (map (\<lambda>name. dq @ name @ dq @ '','') names) @ ''};'' @ nl)))"

definition count_fields :: "class_node \<Rightarrow> nat" where
  "count_fields c = length (filter (\<lambda>m. \<not> padded_name m) (cl_members c))"

definition field_open :: string where "field_open = ''      inst::Field{''"

definition field_of :: "type_graph \<Rightarrow> class_node \<Rightarrow> nat option \<Rightarrow> nat \<Rightarrow> string \<Rightarrow> string outcome" where
  "field_of g c thriftIssetMember i code =
     (let m = cl_members c ! i; index = i + 1 in
     if padded_name m then Inr code
     else let fullName = cl_name c @ ''::'' @ m_name m; isset = has_isset thriftIssetMember i in
       bindE (if m_bitsize m = 0
           then bindE (calculateExclusiveSize g (m_type m)) (\<lambda>sz. Inr (field_open @ ''sizeof('' @ fullName @ ''), '' @ dec_u64 sz))
           else Inr (field_open @ ''0, 0'')) (\<lambda>sizes.
       bindE (deref g (m_type m)) (\<lambda>n.
       let isPrimitive = (case n of Primitive k \<Rightarrow> True | _ \<Rightarrow> False) in
       Inr (code @ sizes @ '', '' @ dq @ m_inputName m @ dq @ '', member_'' @ dec index @
         ''_type_names, TypeHandler<Ctx, decltype('' @ fullName @ '')>::fields, '' @
         (if isset then ''ThriftIssetHandler<'' else '''') @ ''TypeHandler<Ctx, decltype('' @ fullName @ '')>'' @
         (if isset then ''>'' else '''') @ ''::processors, '' @ (if isPrimitive then ''true'' else ''false'') @ ''},'' @ nl))))"

definition private_open :: string where "private_open = '' private:'' @ nl"

definition fields_header :: "nat \<Rightarrow> string" where
  "fields_header n = '' public:'' @ nl @ ''  static constexpr std::array<inst::Field, '' @ dec n @ ''> fields{'' @ nl"

definition fields_footer :: string where
  "fields_footer = ''  };'' @ nl @ ''static constexpr std::array<exporters::inst::ProcessorInst, 0> processors{};'' @ nl"

definition genClassTreeBuilderInstructions :: "type_graph \<Rightarrow> class_node \<Rightarrow> nat option \<Rightarrow> string \<Rightarrow> string outcome" where
  "genClassTreeBuilderInstructions g c thriftIssetMember code =
     bindE (for_each (type_names_of g) (cl_members c) (0, code @ private_open)) (\<lambda>(index, code).
     bindE (for_each (field_of g c thriftIssetMember) [0..<length (cl_members c)] (code @ fields_header (count_fields c))) (\<lambda>code.
     Inr (code @ fields_footer)))"

definition isset_helper :: "class_node \<Rightarrow> nat \<Rightarrow> string" where
  "isset_helper c k = nl @ ''  static int getThriftIsset(const '' @ cl_name c @ ''& t, size_t i) {'' @ nl @
     ''    using thrift_data = apache::thrift::TStructDataStorage<'' @ fqName c @ ''>;'' @ nl @ nl @
     ''    if (&thrift_data::isset_indexes == nullptr) return 2;'' @ nl @ nl @
     ''    auto idx = thrift_data::isset_indexes[i];'' @ nl @ ''    if (idx == -1) return 2;'' @ nl @ nl @
     ''    return t.'' @ m_name (cl_members c ! k) @ ''.get(idx);'' @ nl @ ''  }'' @ nl"

definition genClassTypeHandler :: "type_graph \<Rightarrow> class_node \<Rightarrow> nat option \<Rightarrow> string \<Rightarrow> string outcome" where
  "genClassTypeHandler g c thriftIssetMember code =
     (let helpers = (case thriftIssetMember of None \<Rightarrow> '''' | Some k \<Rightarrow> isset_helper c k);
        code = code @ ''template <typename Ctx>'' @ nl @ ''class TypeHandler<Ctx, '' @ cl_name c @ ''> {'' @ nl @
          ''  using DB = typename Ctx::DataBuffer;'' @ nl @ helpers @ '' public:'' @ nl @ ''  using type = '' in
      bindE (genClassStaticType c thriftIssetMember code) (\<lambda>code.
      bindE (genClassTreeBuilderInstructions g c thriftIssetMember (code @ '';'' @ nl)) (\<lambda>code.
      bindE (genClassTraversalFunction c thriftIssetMember code) (\<lambda>code.
      Inr (code @ ''};'' @ nl)))))"

text \<open>The handler of a container, printed once for each description, for the kinds of template parameters of the container.\<close>

fun parameter_names :: "template_param list \<Rightarrow> nat \<Rightarrow> nat \<Rightarrow> string" where
  "parameter_names [] types values = ''''"
| "parameter_names (p # ps) types values = (if 0 < types \<or> 0 < values then '', '' else '''') @
     (case tp_value p of Some v \<Rightarrow> ''N'' @ dec values @ parameter_names ps types (values + 1)
      | None \<Rightarrow> ''T'' @ dec types @ parameter_names ps (types + 1) values)"

definition container_with_types :: "container_info \<Rightarrow> template_param list \<Rightarrow> string" where
  "container_with_types c templateParams =
     (let containerWithTypes = ci_typeName c @ (if templateParams \<noteq> [] then ''<'' else '''') @
          parameter_names templateParams 0 0 @ (if templateParams \<noteq> [] then ''>'' else '''') in
      if ci_captureKeys c then ''OICaptureKeys<'' @ containerWithTypes @ ''>'' else containerWithTypes)"

fun parameter_decls :: "type_graph \<Rightarrow> template_param list \<Rightarrow> nat \<Rightarrow> nat \<Rightarrow> string outcome" where
  "parameter_decls g [] types values = Inr ''''"
| "parameter_decls g (p # ps) types values = (case tp_value p of
      Some v \<Rightarrow> bindE (deref g (tp_type p)) (\<lambda>n. bindE (case n of
          Enum e \<Rightarrow> Inr (en_inputName e)
        | _ \<Rightarrow> type_name g (tp_type p)) (\<lambda>nm.
        bindE (parameter_decls g ps types (values + 1)) (\<lambda>rest. Inr ('', '' @ nm @ '' N'' @ dec values @ rest))))
    | None \<Rightarrow> bindE (parameter_decls g ps (types + 1) values) (\<lambda>rest. Inr ('', typename T'' @ dec types @ rest)))"

fun processor_types :: "container_processor list \<Rightarrow> string" where
  "processor_types [] = ''''"
| "processor_types [pr] = cp_type pr"
| "processor_types (pr # prs) = pair_open @ cp_type pr @ comma @ processor_types prs"

definition processors_type :: "container_processor list \<Rightarrow> string" where
  "processors_type processors = (if processors = [] then unit_type
     else processor_types processors @ replicate (length processors - 1) (CHR ''>''))"

definition processor_funcs :: "container_processor list \<Rightarrow> string" where
  "processor_funcs processors = concat (map (\<lambda>(count, pr).
     ''  static void processor_'' @ dec count @
     ''(result::Element& el, std::function<void(inst::Inst)> stack_ins, ParsedData d) {'' @ nl @ cp_func pr @ ''  }'' @ nl)
     (enumerate 0 processors))"

definition processor_insts :: "container_processor list \<Rightarrow> string" where
  "processor_insts processors = concat (map (\<lambda>(count, pr).
     ''    exporters::inst::ProcessorInst{'' @ cp_type pr @ ''::describe, &processor_'' @ dec count @ ''},'' @ nl)
     (enumerate 0 processors))"

definition genContainerTypeHandler :: "type_graph \<Rightarrow> nat \<Rightarrow> container_info \<Rightarrow> template_param list \<Rightarrow> nat set \<times> string \<Rightarrow>
    (nat set \<times> string) outcome" where
  "genContainerTypeHandler g info c templateParams = (\<lambda>(used, code).
     if info \<in> used then Inr (used, code)
     else if cc_traversalFunc (ci_codegen c) = '''' then Inl (Throw ''missing `codegen.traversal_func`'')
     else let code = code @ cc_extra (ci_codegen c); processors = cc_processors (ci_codegen c);
         containerWithTypes = container_with_types c templateParams in
       bindE (if ci_typeName c = ''std::variant''
         then Inr (code @ nl @ ''template <typename Ctx, typename... Types>'' @ nl @
           ''struct TypeHandler<Ctx, std::variant<Types...>> {'' @ nl @ ''  using container_type = std::variant<Types...>;'' @ nl)
         else bindE (parameter_decls g templateParams 0 0) (\<lambda>decls. Inr (code @ ''template <typename Ctx'' @ decls @ ''>'' @ nl @
           ''struct TypeHandler<Ctx, '' @ containerWithTypes @ ''> {'' @ nl @ ''  using container_type = '' @ containerWithTypes @ '';'' @ nl)))
       (\<lambda>code. Inr (insert info used, code @ ''  using DB = typename Ctx::DataBuffer;'' @ nl @
         (if ci_captureKeys c then ''  static constexpr bool captureKeys = true;'' @ nl
          else ''  static constexpr bool captureKeys = false;'' @ nl) @
         ''  using type = '' @ processors_type processors @ '';'' @ nl @ cc_scopedExtra (ci_codegen c) @
         ''  static types::st::Unit<DB> getSizeType('' @ nl @ ''      Ctx& ctx,'' @ nl @ ''      const container_type& container,'' @ nl @
         ''      typename TypeHandler<Ctx, container_type>::type returnArg) {'' @ nl @ cc_traversalFunc (ci_codegen c) @ ''  }'' @ nl @
         '' private:'' @ nl @ processor_funcs processors @ '' public:'' @ nl @
         ''  static constexpr std::array<exporters::inst::Field, 0> fields{};'' @ nl @
         ''  static constexpr std::array<exporters::inst::ProcessorInst, '' @ dec (length processors) @ ''> processors{'' @ nl @
         processor_insts processors @ ''  };'' @ nl @ ''};'' @ nl @ nl)))"

definition addTypeHandlers :: "isset_members \<Rightarrow> (tref \<Rightarrow> nat) \<Rightarrow> type_graph \<Rightarrow> nat set \<times> string \<Rightarrow> (nat set \<times> string) outcome" where
  "addTypeHandlers isset addr g = for_final g (\<lambda>t n (definedContainers, code). case n of
      Class c \<Rightarrow> bindE (genClassTypeHandler g c (isset t) code) (\<lambda>code. Inr (definedContainers, code))
    | Container con \<Rightarrow> genContainerTypeHandler g (addr t) (co_info con) (co_templateParams con) (definedContainers, code)
    | CaptureKeys cap \<Rightarrow> bindE (stripTypedefs g (ck_underlying cap)) (\<lambda>u. bindE (deref g u) (\<lambda>m. case m of
          Container container \<Rightarrow>
            genContainerTypeHandler g (addr t) (ck_info cap) (co_templateParams container) (definedContainers, code)
        | _ \<Rightarrow> Inl (Throw ''KaptureKeys requires a container'')))
    | _ \<Rightarrow> Inr (definedContainers, code))"

section \<open>What the static type and the function mean\<close>

text \<open>
  The members that are not padding, by position; the type that the text denotes; and the calls of the function in their order, where
  \<open>CWrite k\<close> writes the isset bit of the field \<open>k\<close>.
\<close>

definition shown :: "class_node \<Rightarrow> nat list" where
  "shown c = filter (\<lambda>i. \<not> padded_name (cl_members c ! i)) [0..<length (cl_members c)]"

datatype st_type = StUnit | StVarInt | StHandler nat | StPair st_type st_type

datatype st_call = CWrite nat | CDelegate nat | CConsume nat

fun static_of :: "nat option \<Rightarrow> nat list \<Rightarrow> st_type" where
  "static_of isset [] = StUnit"
| "static_of isset (i # is) =
     (let rest = (if is = [] then StHandler i else StPair (StHandler i) (static_of isset is)) in
      if has_isset isset i then StPair StVarInt rest else rest)"

fun calls_of :: "nat option \<Rightarrow> nat \<Rightarrow> nat list \<Rightarrow> st_call list" where
  "calls_of isset k [] = []"
| "calls_of isset k (i # is) = (let own = (if is = [] then CConsume i else CDelegate i) in
     if has_isset isset i then CWrite k # own # calls_of isset (k + 1) is else own # calls_of isset k is)"

fun st_text :: "class_node \<Rightarrow> st_type \<Rightarrow> string" where
  "st_text c StUnit = unit_type"
| "st_text c StVarInt = varint_type"
| "st_text c (StHandler i) = handler_type c (cl_members c ! i)"
| "st_text c (StPair a b) = pair_open @ st_text c a @ comma @ st_text c b @ ''>''"

fun call_text :: "class_node \<Rightarrow> st_call \<Rightarrow> string" where
  "call_text c (CWrite k) = write_open @ dec k @ write_close"
| "call_text c (CDelegate i) = dot @ delegate_open @ call_open @ m_name (cl_members c ! i) @ call_close"
| "call_text c (CConsume i) = dot @ consume_open @ call_open @ m_name (cl_members c ! i) @ call_close"

text \<open>The loops skip padding, and the last member they do not skip is the last that is not padding.\<close>

lemma for_each_filter:
  assumes "\<And>x s. x \<in> set xs \<Longrightarrow> \<not> P x \<Longrightarrow> f x s = Inr s"
  shows "for_each f xs = for_each f (filter P xs)"
  using assms
proof (induction xs)
  case (Cons x xs)
  then have IH: "for_each f xs = for_each f (filter P xs)" by simp
  show ?case using Cons.prems [of x] by (intro ext) (cases "P x"; simp add: IH)
qed simp

lemma last_before_spec:
  "case last_before ms n of
     None \<Rightarrow> filter (\<lambda>i. \<not> padded_name (ms ! i)) [0..<n] = []
   | Some l \<Rightarrow> l < n \<and> filter (\<lambda>i. \<not> padded_name (ms ! i)) [0..<n] = filter (\<lambda>i. \<not> padded_name (ms ! i)) [0..<l] @ [l]"
proof (induction n)
  case (Suc n)
  then show ?case by (auto split: option.splits)
qed simp

lemma shown_last:
  obtains (none) "getLastNonPaddingMemberIndex (cl_members c) = None" "shown c = []"
  | (some) l where "getLastNonPaddingMemberIndex (cl_members c) = Some l" "l < length (cl_members c)"
      "shown c = filter (\<lambda>i. \<not> padded_name (cl_members c ! i)) [0..<l] @ [l]" "\<not> padded_name (cl_members c ! l)"
proof (cases "getLastNonPaddingMemberIndex (cl_members c)")
  case None
  then show ?thesis
    using last_before_spec [of "cl_members c" "length (cl_members c)"] none
    by (simp add: getLastNonPaddingMemberIndex_def shown_def)
next
  case (Some l)
  then have l: "l < length (cl_members c)" "shown c = filter (\<lambda>i. \<not> padded_name (cl_members c ! i)) [0..<l] @ [l]"
    using last_before_spec [of "cl_members c" "length (cl_members c)"]
    by (simp_all add: getLastNonPaddingMemberIndex_def shown_def)
  then have "l \<in> set (shown c)" by simp
  then have "\<not> padded_name (cl_members c ! l)" by (simp add: shown_def)
  then show ?thesis using some [OF Some l] by blast
qed

lemma member_loop:
  assumes skip: "\<And>i s. padded_name (cl_members c ! i) \<Longrightarrow> f i s = Inr s"
    and last: "getLastNonPaddingMemberIndex (cl_members c) = lst"
  shows "for_each f [0..<past_last lst] s = for_each f (shown c) s"
proof -
  have "for_each f [0..<past_last lst] = for_each f (filter (\<lambda>i. \<not> padded_name (cl_members c ! i)) [0..<past_last lst])"
    by (rule for_each_filter) (use skip in blast)
  moreover have "filter (\<lambda>i. \<not> padded_name (cl_members c ! i)) [0..<past_last lst] = shown c"
    using last by (cases rule: shown_last [of c]) (auto simp: past_last_def)
  ultimately show ?thesis by simp
qed

text \<open>In a list of positions only the last is the last one.\<close>

definition ends_at :: "nat option \<Rightarrow> nat list \<Rightarrow> bool" where
  "ends_at l is \<longleftrightarrow> (\<forall>k < length is. (l = Some (is ! k)) = (Suc k = length is))"

lemma ends_at_Cons: "ends_at l (i # is) \<Longrightarrow> (l = Some i) = (is = []) \<and> ends_at l is"
proof -
  assume *: "ends_at l (i # is)"
  have "(l = Some i) = (is = [])" using * [unfolded ends_at_def, rule_format, of 0] by simp
  moreover have "(l = Some (is ! k)) = (Suc k = length is)" if "k < length is" for k
    using * [unfolded ends_at_def, rule_format, of "Suc k"] that by simp
  ultimately show ?thesis by (simp add: ends_at_def)
qed

lemma shown_ends: "ends_at (getLastNonPaddingMemberIndex (cl_members c)) (shown c)"
proof (cases rule: shown_last [of c])
  case (some l)
  let ?f = "filter (\<lambda>i. \<not> padded_name (cl_members c ! i)) [0..<l]"
  have "l \<noteq> ?f ! k" if "k < length ?f" for k using nth_mem [OF that] by auto
  then show ?thesis unfolding some(1,3) ends_at_def by (auto simp: nth_append)
qed (simp add: ends_at_def)

text \<open>The text of the static type: what the loop has opened is closed at the end.\<close>

fun type_body :: "class_node \<Rightarrow> nat option \<Rightarrow> nat list \<Rightarrow> string" where
  "type_body c isset [] = ''''"
| "type_body c isset (i # is) =
     (if is = [] then (if has_isset isset i then pair_open @ varint_type @ comma else '''') @ handler_type c (cl_members c ! i)
      else pair_open @ (if has_isset isset i then varint_type @ comma @ pair_open else '''') @
        handler_type c (cl_members c ! i) @ comma @ type_body c isset is)"

fun opened :: "nat option \<Rightarrow> nat list \<Rightarrow> nat" where
  "opened isset [] = 0"
| "opened isset (i # is) = (if is = [] then 0 else 1) + (if has_isset isset i then 1 else 0) + opened isset is"

lemma type_body_closed:
  "is \<noteq> [] \<Longrightarrow> type_body c isset is @ replicate (opened isset is) (CHR ''>'') = st_text c (static_of isset is)"
proof (induction "is")
  case (Cons i "is")
  show ?case
  proof (cases "is = []")
    case True
    then show ?thesis by (simp add: Let_def)
  next
    case False
    note IH = Cons.IH [OF False, symmetric]
    show ?thesis using False by (simp add: Let_def IH replicate_app_Cons_same)
  qed
qed simp

lemma type_loop:
  assumes "\<forall>i \<in> set is. \<not> padded_name (cl_members c ! i)" and "ends_at l is"
  shows "for_each (type_of_member c isset l) is (pairs, code) = Inr (pairs + opened isset is, code @ type_body c isset is)"
  using assms
proof (induction "is" arbitrary: pairs code)
  case (Cons i "is")
  have l: "(l = Some i) = (is = [])" "ends_at l is" using ends_at_Cons [OF Cons.prems(2)] by blast+
  have IH: "for_each (type_of_member c isset l) is (pairs, code) = Inr (pairs + opened isset is, code @ type_body c isset is)"
    for pairs code using Cons.IH l(2) Cons.prems(1) by simp
  have "type_of_member c isset l i (pairs, code) = Inr (pairs + (if is = [] then 0 else 1) + (if has_isset isset i then 1 else 0),
      code @ (if is = [] then (if has_isset isset i then pair_open @ varint_type @ comma else '''') @ handler_type c (cl_members c ! i)
        else pair_open @ (if has_isset isset i then varint_type @ comma @ pair_open else '''') @ handler_type c (cl_members c ! i) @ comma))"
    using Cons.prems(1) by (simp add: type_of_member_def Let_def l(1))
  then show ?case using IH by simp
qed simp

lemma static_type_text: "genClassStaticType c isset code = Inr (code @ st_text c (static_of isset (shown c)))"
proof -
  let ?l = "getLastNonPaddingMemberIndex (cl_members c)"
  have "for_each (type_of_member c isset ?l) [0..<past_last ?l] (0, code) = for_each (type_of_member c isset ?l) (shown c) (0, code)"
    by (rule member_loop [OF _ refl]) (auto simp: type_of_member_def)
  also have "\<dots> = Inr (opened isset (shown c), code @ type_body c isset (shown c))"
    using type_loop [where pairs = 0 and code = code and isset = isset, OF _ shown_ends] by (simp add: shown_def)
  finally have loop: "for_each (type_of_member c isset ?l) [0..<past_last ?l] (0, code) =
    Inr (opened isset (shown c), code @ type_body c isset (shown c))" .
  show ?thesis
  proof (cases "shown c = []")
    case True
    then show ?thesis using loop by (simp add: genClassStaticType_def Let_def)
  next
    case False
    have "type_body c isset is \<noteq> ''''" if "is \<noteq> []" for "is"
      using that by (cases "is") (simp_all add: handler_type_def pair_open_def)
    then show ?thesis
      using False loop type_body_closed [OF False, of c isset] by (simp add: genClassStaticType_def Let_def)
  qed
qed

text \<open>The text of the function: the calls, after \<^verbatim>\<open>return returnArg\<close>.\<close>

definition calls_text :: "class_node \<Rightarrow> nat option \<Rightarrow> nat \<Rightarrow> nat list \<Rightarrow> string" where
  "calls_text c isset k is = concat (map (call_text c) (calls_of isset k is))"

definition traversal_header :: "class_node \<Rightarrow> string" where
  "traversal_header c = ''  static types::st::Unit<DB> '' @ ''getSizeType'' @ ''('' @ nl @ ''      Ctx& ctx,'' @ nl @ ''    const '' @
     cl_name c @ ''& t,'' @ nl @ ''      typename TypeHandler<Ctx, '' @ cl_name c @ ''>::type returnArg) {'' @ nl"

lemma traverse_step:
  assumes "\<not> padded_name (cl_members c ! i)" "(l = Some i) = (is = [])"
  shows "traverse_member c isset n l i (k, code) = Inr (if has_isset isset i then k + 1 else k,
    code @ (if length code = n then return_arg else '''') @
    (if has_isset isset i then call_text c (CWrite k) else '''') @ call_text c (if is = [] then CConsume i else CDelegate i))"
  using assms by (simp add: traverse_member_def Let_def)

lemma traverse_rest:
  assumes "\<forall>i \<in> set is. \<not> padded_name (cl_members c ! i)" and "ends_at l is" and "n < length code"
  shows "\<exists>k'. for_each (traverse_member c isset n l) is (k, code) = Inr (k', code @ calls_text c isset k is)"
  using assms
proof (induction "is" arbitrary: k code)
  case Nil
  then show ?case by (simp add: calls_text_def)
next
  case (Cons i "is")
  have l: "(l = Some i) = (is = [])" "ends_at l is" using ends_at_Cons [OF Cons.prems(2)] by blast+
  have "\<not> padded_name (cl_members c ! i)" using Cons.prems(1) by simp
  note step = traverse_step [OF this l(1), of isset n k code]
  let ?code = "code @ (if has_isset isset i then call_text c (CWrite k) else '''') @ call_text c (if is = [] then CConsume i else CDelegate i)"
  obtain k' where "for_each (traverse_member c isset n l) is (if has_isset isset i then k + 1 else k, ?code) =
      Inr (k', ?code @ calls_text c isset (if has_isset isset i then k + 1 else k) is)"
    using Cons.IH [OF _ l(2), of ?code] Cons.prems(1,3) by auto
  then show ?case using Cons.prems(3) by (auto simp: step calls_text_def Let_def)
qed

lemma traversal_text:
  "genClassTraversalFunction c isset code = Inr (code @ traversal_header c @ return_arg @
     (if shown c = [] then '';'' else calls_text c isset 0 (shown c)) @ '';'' @ nl @ ''  }'' @ nl)"
proof -
  let ?l = "getLastNonPaddingMemberIndex (cl_members c)" and ?code = "code @ traversal_header c"
  let ?n = "length ?code"
  have loop: "for_each (traverse_member c isset ?n ?l) [0..<past_last ?l] (0, ?code) = for_each (traverse_member c isset ?n ?l) (shown c) (0, ?code)"
    by (rule member_loop [OF _ refl]) (auto simp: traverse_member_def)
  have gen: "genClassTraversalFunction c isset code = bindE (for_each (traverse_member c isset ?n ?l) [0..<past_last ?l] (0, ?code))
      (\<lambda>(k, code). Inr ((if length code = ?n then code @ return_arg @ '';'' else code) @ '';'' @ nl @ ''  }'' @ nl))"
    by (simp add: genClassTraversalFunction_def traversal_header_def Let_def)
  show ?thesis
  proof (cases "shown c")
    case Nil
    then show ?thesis unfolding gen loop by simp
  next
    case (Cons i "is")
    have ends: "ends_at ?l (i # is)" using shown_ends [of c] by (simp add: Cons)
    have shown: "\<forall>j \<in> set (i # is). \<not> padded_name (cl_members c ! j)" unfolding Cons [symmetric] by (simp add: shown_def)
    then have i: "\<not> padded_name (cl_members c ! i)" "(?l = Some i) = (is = [])" using ends_at_Cons [OF ends] by simp_all
    let ?code' = "?code @ return_arg @ (if has_isset isset i then call_text c (CWrite 0) else '''') @
      call_text c (if is = [] then CConsume i else CDelegate i)"
    have long: "?n < length ?code'" by (simp add: return_arg_def)
    obtain k' where k': "for_each (traverse_member c isset ?n ?l) is (if has_isset isset i then 0 + 1 else 0, ?code') =
        Inr (k', ?code' @ calls_text c isset (if has_isset isset i then 0 + 1 else 0) is)"
      using traverse_rest [OF _ conjunct2 [OF ends_at_Cons [OF ends]] long] shown by (metis list.set_intros(2))
    have same: "?code' @ calls_text c isset (if has_isset isset i then 0 + 1 else 0) is = ?code @ return_arg @ calls_text c isset 0 (i # is)"
      by (simp add: calls_text_def Let_def)
    have "for_each (traverse_member c isset ?n ?l) (shown c) (0, ?code) = Inr (k', ?code @ return_arg @ calls_text c isset 0 (i # is))"
      unfolding Cons for_each.simps traverse_step [OF i] if_P [OF refl] bindE_simps append_assoc
      using k' same by (simp only: append_assoc)
    then show ?thesis unfolding gen loop Cons by (simp add: return_arg_def)
  qed
qed

text \<open>
  The calls on an object of the static type, as \<^verbatim>\<open>st.h\<close> gives it its operations: \<open>None\<close> where the type has no such operation, or
  where a member would be written with the type of another. \<open>bits k\<close> is the isset bit of the field \<open>k\<close>, \<open>f i\<close> what \<^verbatim>\<open>getSizeType\<close>
  of the member \<open>i\<close> writes. A function that returns has a \<^verbatim>\<open>Unit\<close>.
\<close>

fun run_calls :: "(nat \<Rightarrow> u64) \<Rightarrow> (nat \<Rightarrow> data_buffer \<Rightarrow> data_buffer) \<Rightarrow> st_call list \<Rightarrow> st_type \<Rightarrow> data_buffer \<Rightarrow> data_buffer option" where
  "run_calls bits f [] StUnit buf = Some buf"
| "run_calls bits f (CWrite k # cs) (StPair StVarInt T) buf = run_calls bits f cs T (pair_write varint_write (bits k) buf)"
| "run_calls bits f (CDelegate i # cs) (StPair (StHandler j) T) buf =
     (if i = j then run_calls bits f cs T (pair_delegate (f i) buf) else None)"
| "run_calls bits f (CConsume i # cs) (StHandler j) buf = (if i = j then run_calls bits f cs StUnit (consume (f i) buf) else None)"
| "run_calls bits f cs T buf = None"

fun describe :: "(nat \<Rightarrow> dynamic) \<Rightarrow> st_type \<Rightarrow> dynamic" where
  "describe h StUnit = DUnit"
| "describe h StVarInt = DVarInt"
| "describe h (StHandler i) = h i"
| "describe h (StPair a b) = DPair (describe h a) (describe h b)"

fun class_data :: "nat option \<Rightarrow> (nat \<Rightarrow> u64) \<Rightarrow> (nat \<Rightarrow> data) \<Rightarrow> nat \<Rightarrow> nat list \<Rightarrow> data" where
  "class_data isset bits v k [] = VUnit"
| "class_data isset bits v k (i # is) =
     (let k' = (if has_isset isset i then k + 1 else k);
        rest = (if is = [] then v i else VPair (v i) (class_data isset bits v k' is)) in
      if has_isset isset i then VPair (VInt (bits k)) rest else rest)"

lemma run_calls_emit:
  assumes "\<And>i buf. i \<in> set is \<Longrightarrow> f i buf = emit (v i) buf"
  shows "run_calls bits f (calls_of isset k is) (static_of isset is) buf = Some (emit (class_data isset bits v k is) buf)"
  using assms
proof (induction "is" arbitrary: k buf)
  case (Cons i "is")
  have f: "f i buf = emit (v i) buf" for buf using Cons.prems [of i] by simp
  show ?case
  proof (cases "is")
    case Nil
    then show ?thesis by (simp add: Let_def f consume_def pair_write_def pair_delegate_def)
  next
    case (Cons j js)
    then have ne: "is \<noteq> []" by simp
    have IH: "run_calls bits f (calls_of isset k is) (static_of isset is) buf = Some (emit (class_data isset bits v k is) buf)" for k buf
      using Cons.IH Cons.prems by simp
    show ?thesis using ne by (simp add: Let_def f IH consume_def pair_write_def pair_delegate_def)
  qed
qed simp

lemma class_data_typed:
  assumes "\<And>i. i \<in> set is \<Longrightarrow> typed (h i) (v i)"
  shows "typed (describe h (static_of isset is)) (class_data isset bits v k is)"
  using assms by (induction "is" arbitrary: k) (auto simp: Let_def)

lemma traversal_calls:
  "genClassTraversalFunction c isset code = Inr (code @ traversal_header c @ return_arg @
     (if calls_of isset 0 (shown c) = [] then '';'' else concat (map (call_text c) (calls_of isset 0 (shown c)))) @ '';'' @ nl @ ''  }'' @ nl)"
proof -
  have "(calls_of isset 0 (shown c) = []) = (shown c = [])" by (cases "shown c") (simp_all add: Let_def)
  then show ?thesis by (simp add: traversal_text calls_text_def)
qed

text \<open>
  C4: the static type and the function that are generated for a class fit each other. The calls in the text of the function, on an
  object of the type in the text of the static type, are operations the type has, and use it up. Where the members write data of
  their types, the function writes data of the class's type, which is read back with its description.
\<close>

theorem class_data_roundtrip:
  assumes "\<And>i. i \<in> set (shown c) \<Longrightarrow> typed (h i) (v i)"
  shows "\<exists>T calls d. genClassStaticType c isset code = Inr (code @ st_text c T) \<and>
    genClassTraversalFunction c isset code = Inr (code @ traversal_header c @ return_arg @
      (if calls = [] then '';'' else concat (map (call_text c) calls)) @ '';'' @ nl @ ''  }'' @ nl) \<and>
    run_calls bits (\<lambda>i. emit (v i)) calls T [] = Some (emit d []) \<and>
    typed (describe h T) d \<and> read (describe h T) (emit d [] @ rest) = Inr (d, rest)"
proof -
  let ?T = "static_of isset (shown c)" and ?calls = "calls_of isset 0 (shown c)" and ?d = "class_data isset bits v 0 (shown c)"
  have d: "typed (describe h ?T) ?d" by (rule class_data_typed [OF assms])
  show ?thesis
    using traversal_calls static_type_text run_calls_emit [of "shown c" "\<lambda>i. emit (v i)" v bits isset 0 "[]"] d read_emit [OF d, of rest] by blast
qed

text \<open>
  One entry of the array of the fields: the position of its member, the exclusive size unless it is a bitfield, whether the processor
  of an isset bit stands before those of the member, and whether the member is a primitive. Then its text, and the array of names it refers to.
\<close>

record field_entry =
  fe_member :: nat
  fe_exclusive :: "u64 option"
  fe_isset :: bool
  fe_primitive :: bool

definition entry_for :: "type_graph \<Rightarrow> class_node \<Rightarrow> nat option \<Rightarrow> nat \<Rightarrow> field_entry \<Rightarrow> bool" where
  "entry_for g c isset i e \<longleftrightarrow> fe_member e = i \<and>
     (case fe_exclusive e of None \<Rightarrow> m_bitsize (cl_members c ! i) \<noteq> 0
      | Some sz \<Rightarrow> m_bitsize (cl_members c ! i) = 0 \<and> calculateExclusiveSize g (m_type (cl_members c ! i)) = Inr sz) \<and>
     (fe_isset e \<longleftrightarrow> (\<exists>k. isset = Some k \<and> k \<noteq> i)) \<and>
     (fe_primitive e \<longleftrightarrow> (\<exists>k. deref g (m_type (cl_members c ! i)) = Inr (Primitive k)))"

definition entry_text :: "class_node \<Rightarrow> field_entry \<Rightarrow> string" where
  "entry_text c e = (let m = cl_members c ! fe_member e;
       full = cl_name c @ ''::'' @ m_name m; handler = ''TypeHandler<Ctx, decltype('' @ full @ '')>'' in
     ''      inst::Field{'' @ (case fe_exclusive e of None \<Rightarrow> ''0, 0'' | Some sz \<Rightarrow> ''sizeof('' @ full @ ''), '' @ dec_u64 sz) @
     '', '' @ dq @ m_inputName m @ dq @ '', member_'' @ dec (Suc (fe_member e)) @ ''_type_names, '' @ handler @ ''::fields, '' @
     (if fe_isset e then ''ThriftIssetHandler<'' @ handler @ ''>'' else handler) @ ''::processors, '' @
     (if fe_primitive e then ''true'' else ''false'') @ ''},'' @ nl)"

definition names_text :: "nat \<Rightarrow> string list \<Rightarrow> string" where
  "names_text i names = ''  static constexpr std::array<std::string_view, '' @ dec (length names) @ ''> member_'' @ dec (Suc i) @
     ''_type_names = {'' @ concat (map (\<lambda>name. dq @ name @ dq @ '','') names) @ ''};'' @ nl"

text \<open>
  What the processors of the entries read, one entry after the other: the isset bit, if the entry has one, and the data of the member,
  whose description is \<open>h i\<close>.
\<close>

fun read_entries :: "(nat \<Rightarrow> dynamic) \<Rightarrow> field_entry list \<Rightarrow> u8 list \<Rightarrow> ((data option \<times> data) list \<times> u8 list) outcome" where
  "read_entries h [] it = Inr ([], it)"
| "read_entries h (e # es) it =
     bindE (if fe_isset e then bindE (read DVarInt it) (\<lambda>(v, it). Inr (Some v, it)) else Inr (None, it)) (\<lambda>(bit, it).
     bindE (read (h (fe_member e)) it) (\<lambda>(v, it). bindE (read_entries h es it) (\<lambda>(vs, it). Inr ((bit, v) # vs, it))))"

text \<open>The bits and values of the members at some positions, the bits numbered from \<open>k\<close> without the isset member.\<close>

fun field_values :: "nat option \<Rightarrow> (nat \<Rightarrow> u64) \<Rightarrow> (nat \<Rightarrow> data) \<Rightarrow> nat \<Rightarrow> nat list \<Rightarrow> (data option \<times> data) list" where
  "field_values isset bits v k [] = []"
| "field_values isset bits v k (i # is) = (if isset = None \<or> isset = Some i then (None, v i) # field_values isset bits v k is
     else (Some (VInt (bits k)), v i) # field_values isset bits v (Suc k) is)"

lemma emit_pair: "emit (VPair x y) [] @ rest = emit x [] @ emit y [] @ rest"
  using emit_append [of y "emit x []"] by (simp add: pair_delegate_def)

lemma has_isset_iff: "has_isset isset i \<longleftrightarrow> (\<exists>k. isset = Some k \<and> k \<noteq> i)"
  by (simp add: has_isset_def split: option.split)

lemma read_entries_data:
  assumes "list_all2 (entry_for g c isset) is entries" and "\<And>i. i \<in> set is \<Longrightarrow> typed (h i) (v i)"
  shows "read_entries h entries (emit (class_data isset bits v k is) [] @ rest) = Inr (field_values isset bits v k is, rest)"
  using assms
proof (induction "is" entries arbitrary: k rule: list_all2_induct)
  case (Cons i "is" e es)
  let ?k = "if has_isset isset i then k + 1 else k"
  have e: "fe_member e = i" "fe_isset e = has_isset isset i" using Cons.hyps(1) by (simp_all add: entry_for_def has_isset_iff)
  have own: "read (h i) (emit (v i) [] @ rest') = Inr (v i, rest')" for rest' using Cons.prems [of i] by (intro read_emit) simp
  have bit: "read DVarInt (emit (VInt n) [] @ rest') = Inr (VInt n, rest')" for n rest' by (rule read_emit) simp
  have IH: "read_entries h es (emit (class_data isset bits v k' is) [] @ rest) = Inr (field_values isset bits v k' is, rest)" for k'
    using Cons.IH Cons.prems by simp
  have vals: "field_values isset bits v k (i # is) =
      ((if has_isset isset i then Some (VInt (bits k)) else None), v i) # field_values isset bits v ?k is"
    by (cases isset) (auto simp: has_isset_def)
  let ?rest = "if is = [] then v i else VPair (v i) (class_data isset bits v ?k is)"
  have data: "class_data isset bits v k (i # is) = (if has_isset isset i then VPair (VInt (bits k)) ?rest else ?rest)"
    by (simp add: Let_def)
  have member: "emit ?rest [] @ rest = emit (v i) [] @ emit (class_data isset bits v ?k is) [] @ rest"
    using emit_pair by (cases "is") simp_all
  show ?case
  proof (cases "has_isset isset i")
    case True
    then have "emit (class_data isset bits v k (i # is)) [] @ rest =
        emit (VInt (bits k)) [] @ emit (v i) [] @ emit (class_data isset bits v ?k is) [] @ rest"
      unfolding data if_P [OF True] emit_pair member [unfolded if_P [OF True]] by (simp add: True)
    then show ?thesis unfolding vals using True e bit own IH by simp
  next
    case False
    then have "emit (class_data isset bits v k (i # is)) [] @ rest = emit (v i) [] @ emit (class_data isset bits v ?k is) [] @ rest"
      unfolding data using member by simp
    then show ?thesis unfolding vals using False e own IH by simp
  qed
qed simp

lemma field_of_append: "field_of g c isset i (code @ code1) = bindE (field_of g c isset i code1) (\<lambda>txt. Inr (code @ txt))"
  by (simp add: field_of_def Let_def bindE_assoc)

lemma field_of_entry:
  assumes "field_of g c isset i code = Inr code'" and "\<not> padded_name (cl_members c ! i)"
  shows "\<exists>e. entry_for g c isset i e \<and> code' = code @ entry_text c e"
proof -
  let ?m = "cl_members c ! i"
  obtain n where n: "deref g (m_type ?m) = Inr n"
    using assms by (auto simp: field_of_def Let_def bindE_Inr_iff)
  obtain ex where ex: "case ex of None \<Rightarrow> m_bitsize ?m \<noteq> 0
      | Some sz \<Rightarrow> m_bitsize ?m = 0 \<and> calculateExclusiveSize g (m_type ?m) = Inr sz"
  proof (cases "m_bitsize ?m = 0")
    case True
    then obtain sz where "calculateExclusiveSize g (m_type ?m) = Inr sz"
      using assms by (auto simp: field_of_def Let_def bindE_Inr_iff)
    then show ?thesis using True that [of "Some sz"] by simp
  qed (use that [of None] in simp)
  let ?e = "\<lparr>fe_member = i, fe_exclusive = ex, fe_isset = has_isset isset i,
    fe_primitive = (case n of Primitive k \<Rightarrow> True | _ \<Rightarrow> False)\<rparr>"
  have "entry_for g c isset i ?e" using ex n by (auto simp: entry_for_def has_isset_iff split: ty.splits)
  moreover have "code' = code @ entry_text c ?e"
    using assms n ex by (cases ex) (auto simp: field_of_def entry_text_def field_open_def Let_def)
  ultimately show ?thesis by blast
qed

lemma field_loop:
  assumes "for_each (field_of g c isset) is code = Inr code'" and "\<forall>i \<in> set is. \<not> padded_name (cl_members c ! i)"
  shows "\<exists>entries. list_all2 (entry_for g c isset) is entries \<and> code' = code @ concat (map (entry_text c) entries)"
  using assms
proof (induction "is" arbitrary: code)
  case (Cons i "is")
  then obtain code1 where code1: "field_of g c isset i code = Inr code1" "for_each (field_of g c isset) is code1 = Inr code'"
    by (auto simp: bindE_Inr_iff)
  obtain e where e: "entry_for g c isset i e" "code1 = code @ entry_text c e"
    using field_of_entry [OF code1(1)] Cons.prems(2) by auto
  obtain es where es: "list_all2 (entry_for g c isset) is es" "code' = code1 @ concat (map (entry_text c) es)"
    using Cons.IH [OF code1(2)] Cons.prems(2) by auto
  then show ?case using e by (intro exI [of _ "e # es"]) simp
qed simp

lemma names_loop:
  assumes "for_each (type_names_of g) (drop k ms) (k, code) = Inr (k', code')" and "k \<le> length ms"
  shows "\<exists>names. list_all2 (\<lambda>i ns. enumerateTypeNames g (m_type (ms ! i)) = Inr ns)
      (filter (\<lambda>i. \<not> padded_name (ms ! i)) [k..<length ms]) names \<and>
    code' = code @ concat (map2 names_text (filter (\<lambda>i. \<not> padded_name (ms ! i)) [k..<length ms]) names)"
  using assms
proof (induction "length ms - k" arbitrary: k code)
  case (Suc n)
  then have k: "k < length ms" "n = length ms - Suc k" by simp_all
  then have d: "drop k ms = ms ! k # drop (Suc k) ms" "[k..<length ms] = k # [Suc k..<length ms]"
    by (simp_all add: Cons_nth_drop_Suc upt_conv_Cons)
  obtain k1 code1 where step: "type_names_of g (ms ! k) (k, code) = Inr (k1, code1)"
    "for_each (type_names_of g) (drop (Suc k) ms) (k1, code1) = Inr (k', code')"
    using Suc.prems(1) unfolding d(1) by (auto simp: bindE_Inr_iff)
  have k1: "k1 = Suc k" using step(1) by (auto simp: type_names_of_def Let_def bindE_Inr_iff split: if_splits)
  obtain names where names: "list_all2 (\<lambda>i ns. enumerateTypeNames g (m_type (ms ! i)) = Inr ns)
      (filter (\<lambda>i. \<not> padded_name (ms ! i)) [Suc k..<length ms]) names"
    "code' = code1 @ concat (map2 names_text (filter (\<lambda>i. \<not> padded_name (ms ! i)) [Suc k..<length ms]) names)"
    using Suc.hyps(1) [OF k(2) step(2) [unfolded k1]] k by auto
  show ?case
  proof (cases "padded_name (ms ! k)")
    case True
    then have "code1 = code" using step(1) by (simp add: type_names_of_def Let_def)
    then show ?thesis using names True unfolding d(2) by (intro exI [of _ names]) simp
  next
    case False
    then obtain ns where "enumerateTypeNames g (m_type (ms ! k)) = Inr ns" "code1 = code @ names_text k ns"
      using step(1) by (auto simp: type_names_of_def Let_def bindE_Inr_iff names_text_def)
    then show ?thesis using names False unfolding d(2) by (intro exI [of _ "ns # names"]) simp
  qed
qed simp

lemma count_fields_shown: "count_fields c = length (shown c)"
proof -
  have "filter P xs = map (\<lambda>i. xs ! i) (filter (\<lambda>i. P (xs ! i)) [0..<length xs])" for P and xs :: "member list"
    using filter_map [of P "\<lambda>i. xs ! i" "[0..<length xs]"] unfolding map_nth comp_def .
  from this [of "\<lambda>m. \<not> padded_name m" "cl_members c"] show ?thesis unfolding count_fields_def shown_def by simp
qed

text \<open>
  C35: the instructions of a class fit the data its function writes. They consist of an array of type names for each member that is
  not padding, under the number of the member, and of one array of fields, as long as its type says, with an entry for each of these members in their
  order: it refers to that very member and its names, has its exclusive size unless the member is a bitfield, and prepends the processor of an isset bit
  exactly if the class has an isset member and this is another one. Reading what the function of the class writes entry by entry
  gives the isset bits and the values of the members, each in its entry, and ends where the data of the class ends.
\<close>

theorem class_fields:
  assumes "genClassTreeBuilderInstructions g c isset code = Inr code'" and "\<And>i. i \<in> set (shown c) \<Longrightarrow> typed (h i) (v i)"
  shows "\<exists>names entries T calls buf.
    code' = code @ '' private:'' @ nl @ concat (map2 names_text (shown c) names) @ '' public:'' @ nl @
      ''  static constexpr std::array<inst::Field, '' @ dec (length entries) @ ''> fields{'' @ nl @
      concat (map (entry_text c) entries) @ ''  };'' @ nl @
      ''static constexpr std::array<exporters::inst::ProcessorInst, 0> processors{};'' @ nl \<and>
    list_all2 (\<lambda>i ns. enumerateTypeNames g (m_type (cl_members c ! i)) = Inr ns) (shown c) names \<and>
    list_all2 (entry_for g c isset) (shown c) entries \<and>
    genClassStaticType c isset code = Inr (code @ st_text c T) \<and>
    genClassTraversalFunction c isset code = Inr (code @ traversal_header c @ return_arg @
      (if calls = [] then '';'' else concat (map (call_text c) calls)) @ '';'' @ nl @ ''  }'' @ nl) \<and>
    run_calls bits (\<lambda>i. emit (v i)) calls T [] = Some buf \<and>
    read_entries h entries (buf @ rest) = Inr (field_values isset bits v 0 (shown c), rest)"
proof -
  obtain index code1 where one: "for_each (type_names_of g) (drop 0 (cl_members c)) (0, code @ private_open) = Inr (index, code1)"
    using assms(1) unfolding genClassTreeBuilderInstructions_def bindE_Inr_iff by (auto split: prod.splits)
  let ?start = "code1 @ fields_header (count_fields c)"
  obtain code2 where two: "for_each (field_of g c isset) [0..<length (cl_members c)] ?start = Inr code2"
    "code' = code2 @ fields_footer"
    using assms(1) one by (auto simp: genClassTreeBuilderInstructions_def bindE_Inr_iff)
  obtain names where names: "list_all2 (\<lambda>i ns. enumerateTypeNames g (m_type (cl_members c ! i)) = Inr ns) (shown c) names"
    "code1 = (code @ private_open) @ concat (map2 names_text (shown c) names)"
    using names_loop [OF one] unfolding shown_def by auto
  have "for_each (field_of g c isset) [0..<length (cl_members c)] = for_each (field_of g c isset) (shown c)"
    unfolding shown_def by (rule for_each_filter) (simp add: field_of_def Let_def)
  moreover have not_padded: "\<forall>i \<in> set (shown c). \<not> padded_name (cl_members c ! i)" by (simp add: shown_def)
  ultimately obtain entries where entries: "list_all2 (entry_for g c isset) (shown c) entries"
    "code2 = ?start @ concat (map (entry_text c) entries)"
    using field_loop [of g c isset "shown c" ?start code2] two(1) not_padded by metis
  have len: "count_fields c = length entries" using list_all2_lengthD [OF entries(1)] count_fields_shown by simp
  have "code' = code @ '' private:'' @ nl @ concat (map2 names_text (shown c) names) @ '' public:'' @ nl @
      ''  static constexpr std::array<inst::Field, '' @ dec (length entries) @ ''> fields{'' @ nl @
      concat (map (entry_text c) entries) @ ''  };'' @ nl @
      ''static constexpr std::array<exporters::inst::ProcessorInst, 0> processors{};'' @ nl"
    unfolding two(2) entries(2) names(2) len private_open_def fields_header_def fields_footer_def by (simp only: append_assoc)
  moreover have "run_calls bits (\<lambda>i. emit (v i)) (calls_of isset 0 (shown c)) (static_of isset (shown c)) [] =
      Some (emit (class_data isset bits v 0 (shown c)) [])" by (rule run_calls_emit) simp
  moreover have "read_entries h entries (emit (class_data isset bits v 0 (shown c)) [] @ rest) = Inr (field_values isset bits v 0 (shown c), rest)"
    by (rule read_entries_data [OF entries(1) assms(2)])
  ultimately show ?thesis
    using names(1) entries(1) static_type_text [of c isset code] traversal_calls [of c isset code] by blast
qed

section \<open>Exclusive sizes and vtables\<close>


lemma narrow_signed:
  fixes s :: u64
  shows "(scast (ucast s :: 32 word) :: u64) = word_of_int (signed_take_bit 31 (int (unat s)))"
proof -
  have "sint (ucast s :: 32 word) = signed_take_bit 31 (int (unat s))"
    by (transfer fixing: ) (simp add: signed_take_bit_take_bit min_def)
  then show ?thesis by (metis of_int_sint)
qed

lemma narrow_iff:
  fixes s :: u64
  assumes "unat s < 2 ^ 63"
  shows "(scast (ucast s :: 32 word) :: u64) = s \<longleftrightarrow> unat s < 2 ^ 31"
proof -
  define m where "m = unat s"
  define n where "n = int m"
  have s: "n < 2 ^ 63" "0 \<le> n" "unat s < 2 ^ 31 \<longleftrightarrow> n < 2 ^ 31" "uint s = n" "word_of_int n = s"
    subgoal using assms unfolding m_def [symmetric] by (simp add: n_def)
    subgoal by (simp add: n_def)
    subgoal unfolding m_def [symmetric] by (simp add: n_def)
    subgoal by (simp add: n_def m_def)
    subgoal by (simp add: n_def m_def)
    done
  let ?k = "signed_take_bit 31 n"
  have k: "(scast (ucast s :: 32 word) :: u64) = word_of_int ?k" by (simp add: narrow_signed n_def m_def)
  have range: "- (2 ^ 31) \<le> ?k" "?k < 2 ^ 31"
    using signed_take_bit_int_greater_eq_minus_exp [of 31 n] signed_take_bit_int_less_exp [of 31 n] by simp_all
  show ?thesis unfolding k s(3)
  proof
    assume "n < 2 ^ 31"
    then have "?k = n" using s(2) by (intro signed_take_bit_int_eq_self) simp_all
    then show "word_of_int ?k = s" using s(5) by simp
  next
    assume "word_of_int ?k = s"
    then have n: "n = ?k mod 2 ^ 64" using s(4) uint_word_of_int [where 'a = 64, of ?k] by simp
    show "n < 2 ^ 31"
    proof (cases "0 \<le> ?k")
      case True
      then have "?k mod 2 ^ 64 = ?k" using range by (intro mod_pos_pos_trivial) simp_all
      then show ?thesis using n range by simp
    next
      case False
      then have "(?k + 2 ^ 64) mod 2 ^ 64 = ?k + 2 ^ 64" using range by (intro mod_pos_pos_trivial) simp_all
      then show ?thesis using n range s(1) by simp
    qed
  qed
qed

lemma ucast_add_narrow: "(ucast (x + y :: u64) :: 32 word) = ucast x + ucast y"
proof (transfer, goal_cases)
  case (1 x y)
  have "take_bit 32 (take_bit 64 x + take_bit 64 y) = take_bit 32 (take_bit 32 (take_bit 64 x) + take_bit 32 (take_bit 64 y))"
    by (rule take_bit_add [symmetric])
  then show ?case by (simp add: take_bit_add)
qed

lemma ucast_scast_narrow: "(ucast (scast (a :: 32 word) :: u64) :: 32 word) = a"
  by transfer (simp add: take_bit_signed_take_bit)

lemma exclusive_total:
  assumes "list_all2 (\<lambda>m sz. type_size g (m_type m) = Inr sz) (filter padded_name ms) sizes"
  shows "for_each (add_exclusive g) ms a = Inr (a + ucast (sum_list sizes))"
  using assms
proof (induction ms arbitrary: a sizes)
  case (Cons m ms)
  show ?case
  proof (cases "padded_name m")
    case True
    then obtain sz sizes' where sizes: "sizes = sz # sizes'" "type_size g (m_type m) = Inr sz"
      "list_all2 (\<lambda>m sz. type_size g (m_type m) = Inr sz) (filter padded_name ms) sizes'"
      using Cons.prems by (auto simp: list_all2_Cons1)
    have "(ucast ((scast a :: u64) + sz) :: 32 word) = a + ucast sz"
      by (simp add: ucast_add_narrow ucast_scast_narrow)
    then show ?thesis using True sizes Cons.IH [OF sizes(3)]
      by (simp add: add_exclusive_def ucast_add_narrow)
  next
    case False
    then show ?thesis using Cons by (simp add: add_exclusive_def)
  qed
qed simp

lemma unat_sum_list: "sum_list (map unat sizes) < 2 ^ 64 \<Longrightarrow> unat (sum_list sizes :: u64) = sum_list (map unat sizes)"
proof (induction sizes)
  case (Cons sz sizes)
  then have "unat (sum_list sizes) = sum_list (map unat sizes)" by simp
  then show ?case using Cons.prems by (simp add: unat_word_ariths)
qed simp

text \<open>
  C36: the exclusive size of a class is the sum of the sizes of its padding members, but it is summed up in an \<^verbatim>\<open>int\<close>: it is right
  exactly when the sum is below 2 GiB. From there on it is the sum cut to 32 bits with its sign extended.
\<close>

theorem exclusive_size:
  assumes "stripTypedefs g t = Inr u" and "deref g u = Inr (Class c)"
    and "list_all2 (\<lambda>m sz. type_size g (m_type m) = Inr sz) (filter padded_name (cl_members c)) sizes"
    and "sum_list (map unat sizes) < 2 ^ 63"
  shows "calculateExclusiveSize g t = Inr (scast (ucast (sum_list sizes) :: 32 word)) \<and>
    (calculateExclusiveSize g t = Inr (sum_list sizes)) = (sum_list (map unat sizes) < 2 ^ 31)"
proof -
  have size: "calculateExclusiveSize g t = Inr (scast (ucast (sum_list sizes) :: 32 word))"
    using assms(1,2) exclusive_total [OF assms(3)] by (simp add: calculateExclusiveSize_def)
  have "unat (sum_list sizes) = sum_list (map unat sizes)" using assms(4) by (intro unat_sum_list) simp
  then show ?thesis
    using narrow_iff [of "sum_list sizes"] assms(4) by (simp add: size)
qed
definition text_example :: class_node where
  "text_example = (mk_class KStruct ''S'' ''ns::S'' 24 0 0)\<lparr>cl_members :=
     [mk_member (PrimRef Int32) ''a'' 0 0, mk_member (NodeRef 1) (MemberPrefix @ ''0'') 32 0,
      mk_member (PrimRef Int64) ''isset'' 64 0, mk_member (PrimRef Int32) ''b'' 128 0], cl_virtuality := 1,
     cl_children := [NodeRef 0]\<rparr>"

definition text_graph :: type_graph where
  "text_graph = \<lparr>nodes = [Class text_example,
      Array \<lparr>ar_id = 1, ar_elementType = PrimRef Int8, ar_inputName = [], ar_len = 2147483648, ar_name = []\<rparr>],
     rootTypes = [NodeRef 0], finalTypes = [NodeRef 0], next_id = 2\<rparr>"

lemma shown_example: "shown text_example = [0, 2, 3]" by code_simp

theorem class_data_roundtrip_witness:
  "length (shown text_example) = 3 \<and> typed DVarInt (VInt 3) \<and>
   (\<exists>T calls d. genClassStaticType text_example (Some 2) [] = Inr (st_text text_example T) \<and>
     run_calls (\<lambda>k. 2) (\<lambda>i. emit (VInt (of_nat i))) calls T [] = Some (emit d []) \<and> read (describe (\<lambda>i. DVarInt) T) (emit d [] @ []) = Inr (d, []))"
  using class_data_roundtrip [of text_example "\<lambda>i. DVarInt" "\<lambda>i. VInt (of_nat i)" "Some 2" "[]" "\<lambda>k. 2" "[]"] 
  by (auto simp: shown_example)

theorem class_fields_witness:
  "\<exists>code' entries buf. genClassTreeBuilderInstructions text_graph text_example (Some 2) [] = Inr code' \<and>
     list_all2 (entry_for text_graph text_example (Some 2)) [0, 2, 3] entries \<and>
     read_entries (\<lambda>i. DVarInt) entries (buf @ [9]) =
       Inr ([(Some (VInt 100), VInt 0), (None, VInt 2), (Some (VInt 101), VInt 3)], [9])"
proof -
  have "case genClassTreeBuilderInstructions text_graph text_example (Some 2) [] of Inl e \<Rightarrow> False | Inr code' \<Rightarrow> True" by code_simp
  then obtain code' where code': "genClassTreeBuilderInstructions text_graph text_example (Some 2) [] = Inr code'"
    by (auto split: sum.splits)
  have vals: "field_values (Some 2) (\<lambda>k. 100 + of_nat k) (\<lambda>i. VInt (of_nat i)) 0 (shown text_example) =
      [(Some (VInt 100), VInt 0), (None, VInt 2), (Some (VInt 101), VInt 3)]" by (simp add: shown_example)
  show ?thesis
    using class_fields [OF code', of "\<lambda>i. DVarInt" "\<lambda>i. VInt (of_nat i)" "\<lambda>k. 100 + of_nat k" "[9]"] code'
    unfolding vals shown_example by auto
qed

theorem exclusive_size_witness:
  "calculateExclusiveSize text_graph (NodeRef 0) = Inr (- 2147483648) \<and>
   calculateExclusiveSize text_graph (NodeRef 0) \<noteq> Inr (sum_list [2147483648])"
proof -
  have "calculateExclusiveSize text_graph (NodeRef 0) = Inr (scast (ucast (sum_list [2147483648 :: u64]) :: 32 word)) \<and>
      (calculateExclusiveSize text_graph (NodeRef 0) = Inr (sum_list [2147483648])) = (sum_list (map unat [2147483648 :: u64]) < 2 ^ 31)"
    by (rule exclusive_size [of _ _ "NodeRef 0" text_example], code_simp, code_simp, code_simp, simp)
  moreover have "(scast (ucast (sum_list [2147483648 :: u64]) :: 32 word) :: u64) = - 2147483648" by code_simp
  ultimately show ?thesis by simp
qed

text \<open>The functions of the classes that are dynamic.\<close>

lemma concrete_returns: "\<exists>code'. getClassSizeFuncConcrete funcName c isset code = Inr code'"
proof -
  have "\<exists>s'. for_each (size_of_member c isset) is s = Inr s'" for "is" s
  proof (induction "is" arbitrary: s)
    case (Cons i "is")
    have "\<exists>s'. size_of_member c isset i s = Inr s'" by (cases s) (auto simp: size_of_member_def Let_def split: prod.splits)
    then show ?case using Cons.IH by auto
  qed simp
  then obtain s' where "for_each (size_of_member c isset) [0..<length (cl_members c)]
       (0, code @ ''void '' @ funcName @ ''(const '' @ cl_name c @ '' &t, size_t &returnArg) {'' @ nl @
        (if isset \<noteq> None then ''  using thrift_data = apache::thrift::TStructDataStorage<'' @ fqName c @ ''>;'' @ nl else '''')) = Inr s'"
    by metis
  then show ?thesis by (simp add: getClassSizeFuncConcrete_def split: prod.splits)
qed

lemma child_vtables_symbol:
  assumes "\<And>t. t \<in> set ts \<Longrightarrow> \<exists>k. deref g t = Inr (Class k)"
  shows "child_vtables g locateSymbol ts addrs = (case locateSymbol ''vtable for TODO - implement me'' of
      None \<Rightarrow> Inr (if ts = [] then addrs else [])
    | Some symbol \<Rightarrow> Inr (addrs @ replicate (length ts) symbol))"
  using assms
proof (induction ts arbitrary: addrs)
  case (Cons t ts)
  obtain k where "deref g t = Inr (Class k)" using Cons.prems by fastforce
  then show ?case using Cons by (simp add: replicate_append_same [symmetric] split: option.splits)
qed (simp split: option.splits)

text \<open>
  The tests in the printed function: the range of addresses a test compares the vptr with, the number it saves and the name of the child. The
  function saves the number of the first test that holds, and -1 if none does.
\<close>

record vtable_test =
  vt_low :: u64
  vt_high :: u64
  vt_index :: nat
  vt_child :: string

definition test_text :: "vtable_test \<Rightarrow> string" where
  "test_text test = ''  if (vptrVal >= 0x'' @ hexadecimal (unat (vt_low test)) @ '' && vptrVal < 0x'' @ hexadecimal (unat (vt_high test)) @
     '') {'' @ nl @ ''    SAVE_DATA('' @ dec (vt_index test) @ '');'' @ nl @
     ''    uintptr_t baseAddress = reinterpret_cast<uintptr_t>(&t) + topOffset;'' @ nl @
     ''    getSizeTypeConcrete(*reinterpret_cast<const '' @ vt_child test @ ''*>(baseAddress), returnArg);'' @ nl @
     ''    return;'' @ nl @ ''  }'' @ nl"

definition lookup_header :: "class_node \<Rightarrow> string" where
  "lookup_header c = ''void getSizeType(const '' @ cl_name c @ '' &t, size_t &returnArg) {'' @ nl @
     ''  auto *vptr = *reinterpret_cast<uintptr_t * const *>(&t);'' @ nl @
     ''  uintptr_t topOffset = *(vptr - 2);'' @ nl @ ''  uintptr_t vptrVal = reinterpret_cast<uintptr_t>(vptr);'' @ nl"

definition lookup_footer :: string where
  "lookup_footer = ''  SAVE_DATA(-1);'' @ nl @ ''  getSizeTypeConcrete(t, returnArg);'' @ nl @ ''}'' @ nl"

definition saved_index :: "vtable_test list \<Rightarrow> u64 \<Rightarrow> nat option" where
  "saved_index tests vptrVal = map_option vt_index (find (\<lambda>test. vt_low test \<le> vptrVal \<and> vptrVal < vt_high test) tests)"

definition same_tests :: "symbol_info \<Rightarrow> nat \<Rightarrow> string list \<Rightarrow> vtable_test list" where
  "same_tests symbol k names = map (\<lambda>(i, nm). \<lparr>vt_low = sym_addr symbol, vt_high = sym_addr symbol + sym_size symbol,
     vt_index = i, vt_child = nm\<rparr>) (List.enumerate k names)"

lemma child_cases:
  assumes "\<And>i. i < length (cl_children c) \<Longrightarrow> type_name g (cl_children c ! i) = Inr (names ! i)"
    and "length names = length (cl_children c)" and "k \<le> length names"
  shows "for_each (child_case g c (replicate (length (cl_children c)) symbol)) [k..<length (cl_children c)] code =
    Inr (code @ concat (map test_text (same_tests symbol k (drop k names))))"
  using assms(3)
proof (induction "length names - k" arbitrary: k code)
  case (Suc n)
  then have k: "k < length names" "n = length names - Suc k" "drop k names = names ! k # drop (Suc k) names"
      "[k..<length (cl_children c)] = k # [Suc k..<length (cl_children c)]"
    using assms(2) by (simp_all add: Cons_nth_drop_Suc upt_conv_Cons)
  then show ?case
    using Suc.hyps(1) [OF k(2)] assms(1) [of k] assms(2)
    by (simp add: child_case_def same_tests_def test_text_def Let_def)
qed (use assms(2) in \<open>simp add: same_tests_def\<close>)

lemma same_tests_saved:
  "names \<noteq> [] \<Longrightarrow> saved_index (same_tests symbol 0 names) vptrVal =
     (if sym_addr symbol \<le> vptrVal \<and> vptrVal < sym_addr symbol + sym_size symbol then Some 0 else None)"
proof (cases names)
  case (Cons nm names')
  have "find (\<lambda>test. False) ts = None" for ts :: "vtable_test list" by (induction ts) simp_all
  moreover have "find (\<lambda>test. vt_low test \<le> vptrVal \<and> vptrVal < vt_high test) (same_tests symbol k ns) = None"
    if "\<not> (sym_addr symbol \<le> vptrVal \<and> vptrVal < sym_addr symbol + sym_size symbol)" for k ns
    using that by (auto simp: find_None_iff same_tests_def)
  ultimately show ?thesis using Cons by (auto simp: saved_index_def same_tests_def split: if_splits)
qed simp

text \<open>
  C37: with \<^verbatim>\<open>PolymorphicInheritance\<close> the function of a dynamic class with children looks the vtable of every child up under the one
  name that stands in the code. Where there is no such symbol, the vector of the vtables is emptied and then read past its end. Where
  there is one, the printed function has one test for each child, in their order, and all of them compare the vptr with the addresses of that
  symbol: whatever the vptr is, the function saves 0, for the first child, or -1, and never selects another child.
\<close>

theorem vtable_lookup:
  assumes "bit_get features PolymorphicInheritance" and "isDynamic c" and "cl_children c \<noteq> []"
    and "\<And>t. t \<in> set (cl_children c) \<Longrightarrow> \<exists>k. deref g t = Inr (Class k)"
  shows "case locateSymbol ''vtable for TODO - implement me'' of
      None \<Rightarrow> getClassSizeFuncDef features locateSymbol g c isset code = Inl (Undefined ''index past the end of a vector'')
    | Some symbol \<Rightarrow> \<exists>concrete tests.
        getClassSizeFuncConcrete ''getSizeTypeConcrete'' c isset code = Inr concrete \<and>
        getClassSizeFuncDef features locateSymbol g c isset code =
          Inr (concrete @ lookup_header c @ concat (map test_text tests) @ lookup_footer) \<and>
        map vt_index tests = [0..<length (cl_children c)] \<and>
        list_all2 (\<lambda>t test. type_name g t = Inr (vt_child test) \<and> vt_low test = sym_addr symbol \<and>
          vt_high test = sym_addr symbol + sym_size symbol) (cl_children c) tests \<and>
        (\<forall>vptrVal. saved_index tests vptrVal =
          (if sym_addr symbol \<le> vptrVal \<and> vptrVal < sym_addr symbol + sym_size symbol then Some 0 else None))"
proof -
  obtain concrete where concrete: "getClassSizeFuncConcrete ''getSizeTypeConcrete'' c isset code = Inr concrete"
    using concrete_returns by blast
  show ?thesis
  proof (cases "locateSymbol ''vtable for TODO - implement me''")
    case None
    have "[0..<length (cl_children c)] = 0 # [1..<length (cl_children c)]" using assms(3) by (simp add: upt_conv_Cons)
    then show ?thesis
      using None concrete assms(1-3) child_vtables_symbol [of "cl_children c" g locateSymbol "[]"] assms(4)
      by (simp add: getClassSizeFuncDef_def child_case_def)
  next
    case (Some symbol)
    define names where "names = map (\<lambda>t. case deref g t of Inr (Class k) \<Rightarrow> cl_name k | _ \<Rightarrow> []) (cl_children c)"
    have nm: "type_name g (cl_children c ! i) = Inr (names ! i)" if i: "i < length (cl_children c)" for i
    proof -
      obtain k where k: "deref g (cl_children c ! i) = Inr (Class k)" using assms(4) nth_mem [OF i] by blast
      then show ?thesis using i by (simp add: type_name_def names_def)
    qed
    have ne: "names \<noteq> []" using assms(3) by (simp add: names_def)
    have printed: "getClassSizeFuncDef features locateSymbol g c isset code =
        Inr (concrete @ lookup_header c @ concat (map test_text (same_tests symbol 0 names)) @ lookup_footer)"
      using Some concrete assms(1,2) child_vtables_symbol [of "cl_children c" g locateSymbol "[]"] assms(4)
        child_cases [OF nm, of 0 symbol] by (simp add: getClassSizeFuncDef_def names_def lookup_header_def lookup_footer_def)
    have "list_all2 (\<lambda>t test. type_name g t = Inr (vt_child test) \<and> vt_low test = sym_addr symbol \<and>
          vt_high test = sym_addr symbol + sym_size symbol) (cl_children c) (same_tests symbol 0 names)"
      using nm by (auto simp: list_all2_conv_all_nth same_tests_def names_def nth_enumerate_eq)
    moreover have "map vt_index (same_tests symbol 0 names) = [0..<length (cl_children c)]"
      by (rule nth_equalityI) (simp_all add: same_tests_def names_def nth_enumerate_eq)
    ultimately show ?thesis
      unfolding Some option.case using concrete printed same_tests_saved [OF ne] by blast
  qed
qed

theorem vtable_lookup_witness:
  "getClassSizeFuncDef {PolymorphicInheritance} (\<lambda>name. None) text_graph text_example None [] =
     Inl (Undefined ''index past the end of a vector'') \<and>
   (\<exists>concrete test. getClassSizeFuncDef {PolymorphicInheritance} (\<lambda>name. Some \<lparr>sym_addr = 4096, sym_size = 64\<rparr>) text_graph text_example None [] =
       Inr (concrete @ lookup_header text_example @ test_text test @ lookup_footer) \<and> vt_low test = 4096 \<and> vt_high test = 4160)"
proof -
  have "bit_get {PolymorphicInheritance} PolymorphicInheritance" "isDynamic text_example" "cl_children text_example \<noteq> []"
    by code_simp+
  moreover have "\<exists>k. deref text_graph t = Inr (Class k)" if "t \<in> set (cl_children text_example)" for t
    using that by (simp add: text_example_def text_graph_def node_at_def)
  moreover have "cl_children text_example = [NodeRef 0]" by (simp add: text_example_def)
  ultimately have run: "getClassSizeFuncDef {PolymorphicInheritance} (\<lambda>name. None) text_graph text_example None [] =
     Inl (Undefined ''index past the end of a vector'')"
    "\<exists>concrete tests. getClassSizeFuncDef {PolymorphicInheritance} (\<lambda>name. Some \<lparr>sym_addr = 4096, sym_size = 64\<rparr>) text_graph text_example None [] =
       Inr (concrete @ lookup_header text_example @ concat (map test_text tests) @ lookup_footer) \<and>
     list_all2 (\<lambda>t test. vt_low test = 4096 \<and> vt_high test = 4160) [NodeRef 0] tests"
    using vtable_lookup [of "{PolymorphicInheritance}" text_example text_graph "\<lambda>name. None" None "[]"]
      vtable_lookup [of "{PolymorphicInheritance}" text_example text_graph "\<lambda>name. Some \<lparr>sym_addr = 4096, sym_size = 64\<rparr>" None "[]"]
    by (simp_all, blast intro: list_all2_mono)
  from run(2) obtain concrete test where
    "getClassSizeFuncDef {PolymorphicInheritance} (\<lambda>name. Some \<lparr>sym_addr = 4096, sym_size = 64\<rparr>) text_graph text_example None [] =
       Inr (concrete @ lookup_header text_example @ test_text test @ lookup_footer)" "vt_low test = 4096" "vt_high test = 4160"
    by (auto simp: list_all2_Cons1)
  then show ?thesis using run(1) by blast
qed

end
