(* ===== verification/PointerSet.thy ===== *)
theory PointerSet
  imports OI_Prelude
begin

text \<open>
  \<^verbatim>\<open>oi/OITraceCode.cpp\<close>: the set of pointers that the generated code keeps of the objects it has gone
  through, a table of fixed size with linear probing. It refines a set of bounded size.
\<close>

unbundle bit_operations_syntax

section \<open>The table\<close>

text \<open>
  \<open>ph_data\<close> is the array; its length is the template parameter \<^verbatim>\<open>Size\<close>. Pointers and \<^verbatim>\<open>size_t\<close> have
  64 bits.
\<close>

record pointer_hash_set =
  ph_data :: "u64 list"
  ph_numEntries :: u64

definition twang_mix64 :: "u64 \<Rightarrow> u64" where
  "twang_mix64 key = (
     let key = NOT key + push_bit 21 key;
         key = key XOR drop_bit 24 key;
         key = key + push_bit 3 key + push_bit 8 key;
         key = key XOR drop_bit 14 key;
         key = key + push_bit 2 key + push_bit 4 key;
         key = key XOR drop_bit 28 key
     in key + push_bit 31 key)"

definition ph_initialize :: "pointer_hash_set \<Rightarrow> pointer_hash_set" where
  "ph_initialize s = \<lparr>ph_data = replicate (length (ph_data s)) 0, ph_numEntries = 0\<rparr>"

definition ph_size :: "pointer_hash_set \<Rightarrow> u64" where
  "ph_size s = ph_numEntries s"

definition ph_capacity :: "pointer_hash_set \<Rightarrow> u64" where
  "ph_capacity s = of_nat (length (ph_data s))"

text \<open>The loop of \<^verbatim>\<open>add\<close>; \<open>None\<close> is a loop that does not end.\<close>

partial_function (option) ph_probe :: "u64 \<Rightarrow> u64 \<Rightarrow> pointer_hash_set \<Rightarrow> (bool \<times> pointer_hash_set) option" where
  "ph_probe pointer index s = (
     let entry = ph_data s ! unat index in
     if entry = 0 then
       Some (True, s\<lparr>ph_data := (ph_data s)[unat index := pointer], ph_numEntries := ph_numEntries s + 1\<rparr>)
     else if entry = pointer \<or> ph_capacity s \<le> ph_numEntries s then Some (False, s)
     else ph_probe pointer ((index + 1) mod ph_capacity s) s)"

definition ph_add :: "u64 \<Rightarrow> pointer_hash_set \<Rightarrow> (bool \<times> pointer_hash_set) option" where
  "ph_add pointer s =
     (if pointer = 0 then Some (False, s)
      else ph_probe pointer (twang_mix64 pointer mod ph_capacity s) s)"

section \<open>Sets of bounded size\<close>

text \<open>What a set of at most \<open>n\<close> pointers answers to a sequence of additions, and what it is afterwards.\<close>

fun bounded_adds :: "'p \<Rightarrow> 'p set \<Rightarrow> nat \<Rightarrow> 'p list \<Rightarrow> bool list \<times> 'p set" where
  "bounded_adds null P n [] = ([], P)"
| "bounded_adds null P n (p # ps) =
     (let b = (p \<noteq> null \<and> p \<notin> P \<and> card P < n); r = bounded_adds null (if b then insert p P else P) n ps
      in (b # fst r, snd r))"

lemma bounded_adds_Cons:
  "p \<noteq> null \<and> p \<notin> P \<and> card P < n \<Longrightarrow> bounded_adds null P n (p # ps) =
     (True # fst (bounded_adds null (insert p P) n ps), snd (bounded_adds null (insert p P) n ps))"
  "\<not> (p \<noteq> null \<and> p \<notin> P \<and> card P < n) \<Longrightarrow> bounded_adds null P n (p # ps) =
     (False # fst (bounded_adds null P n ps), snd (bounded_adds null P n ps))"
  by (simp_all only: bounded_adds.simps Let_def if_True if_False simp_thms)

declare bounded_adds.simps(2) [simp del]

text \<open>
  The contract: a pointer is added unless it is null, a member, or there is no room for it. The client's
  lemma is about a sequence of pointers.
\<close>

locale bounded_set =
  fixes add :: "'p \<Rightarrow> 's \<Rightarrow> (bool \<times> 's) option"
    and null :: 'p
    and members :: "'s \<Rightarrow> 'p set"
    and room :: "'s \<Rightarrow> nat"
    and invar :: "'s \<Rightarrow> bool"
  assumes members_finite: "invar s \<Longrightarrow> finite (members s)"
    and add_new: "invar s \<Longrightarrow> p \<noteq> null \<Longrightarrow> p \<notin> members s \<Longrightarrow> card (members s) < room s \<Longrightarrow>
      \<exists>s'. add p s = Some (True, s') \<and> invar s' \<and> members s' = insert p (members s) \<and> room s' = room s"
    and add_known: "invar s \<Longrightarrow> p = null \<or> p \<in> members s \<or> room s \<le> card (members s) \<Longrightarrow>
      add p s = Some (False, s)"
begin

fun adds :: "'p list \<Rightarrow> 's \<Rightarrow> (bool list \<times> 's) option" where
  "adds [] s = Some ([], s)"
| "adds (p # ps) s = Option.bind (add p s) (\<lambda>(b, s). Option.bind (adds ps s) (\<lambda>(bs, s). Some (b # bs, s)))"

lemma adds_added:
  assumes "invar s"
  shows "\<exists>s'. adds ps s = Some (fst (bounded_adds null (members s) (room s) ps), s') \<and> invar s' \<and>
    members s' = snd (bounded_adds null (members s) (room s) ps) \<and> room s' = room s"
  using assms
proof (induction ps arbitrary: s)
  case (Cons p ps)
  show ?case
  proof (cases "p \<noteq> null \<and> p \<notin> members s \<and> card (members s) < room s")
    case True
    then obtain s1 where s1: "add p s = Some (True, s1)" "invar s1" "members s1 = insert p (members s)" "room s1 = room s"
      using add_new Cons.prems by blast
    obtain s' where "adds ps s1 = Some (fst (bounded_adds null (members s1) (room s1) ps), s')" "invar s'"
      "members s' = snd (bounded_adds null (members s1) (room s1) ps)" "room s' = room s1"
      using Cons.IH [OF s1(2)] by blast
    then show ?thesis using s1 bounded_adds_Cons(1) [OF True] by simp
  next
    case False
    then have "add p s = Some (False, s)" using add_known Cons.prems by auto
    moreover obtain s' where "adds ps s = Some (fst (bounded_adds null (members s) (room s) ps), s')" "invar s'"
      "members s' = snd (bounded_adds null (members s) (room s) ps)" "room s' = room s"
      using Cons.IH [OF Cons.prems] by blast
    ultimately show ?thesis using bounded_adds_Cons(2) [OF False] by simp
  qed
qed simp

text \<open>What is added and what is not, in closed form.\<close>

lemma added_result:
  assumes "finite P" "card P \<le> n" "null \<notin> P"
  shows "length (fst (bounded_adds null P n ps)) = length ps"
    "finite (snd (bounded_adds null P n ps))" "card (snd (bounded_adds null P n ps)) \<le> n" "P \<subseteq> snd (bounded_adds null P n ps)"
    "snd (bounded_adds null P n ps) \<subseteq> P \<union> (set ps - {null})"
    "card (snd (bounded_adds null P n ps)) < n \<Longrightarrow> snd (bounded_adds null P n ps) = P \<union> (set ps - {null})"
    "length (filter id (fst (bounded_adds null P n ps))) + card P = card (snd (bounded_adds null P n ps))"
proof -
  have "length (fst (bounded_adds null P n ps)) = length ps \<and>
    finite (snd (bounded_adds null P n ps)) \<and> card (snd (bounded_adds null P n ps)) \<le> n \<and> P \<subseteq> snd (bounded_adds null P n ps) \<and>
    snd (bounded_adds null P n ps) \<subseteq> P \<union> (set ps - {null}) \<and>
    (card (snd (bounded_adds null P n ps)) < n \<longrightarrow> snd (bounded_adds null P n ps) = P \<union> (set ps - {null})) \<and>
    length (filter id (fst (bounded_adds null P n ps))) + card P = card (snd (bounded_adds null P n ps))"
    using assms
  proof (induction ps arbitrary: P)
    case (Cons p ps)
    show ?case
    proof (cases "p \<noteq> null \<and> p \<notin> P \<and> card P < n")
      case True
      then have "finite (insert p P)" "card (insert p P) \<le> n" "null \<notin> insert p P" "card (insert p P) = Suc (card P)"
        using Cons.prems by auto
      note IH = Cons.IH [OF this(1-3)] this(4)
      show ?thesis unfolding bounded_adds_Cons(1) [OF True] fst_conv snd_conv using IH True by auto
    next
      case False
      note IH = Cons.IH [OF Cons.prems]
      have "p \<noteq> null \<longrightarrow> p \<in> P" if "card (snd (bounded_adds null P n ps)) < n"
      proof -
        have "card P \<le> card (snd (bounded_adds null P n ps))" using IH by (intro card_mono) auto
        then show ?thesis using False that by auto
      qed
      then show ?thesis unfolding bounded_adds_Cons(2) [OF False] fst_conv snd_conv using IH by auto
    qed
  qed simp
  then show "length (fst (bounded_adds null P n ps)) = length ps"
    "finite (snd (bounded_adds null P n ps))" "card (snd (bounded_adds null P n ps)) \<le> n" "P \<subseteq> snd (bounded_adds null P n ps)"
    "snd (bounded_adds null P n ps) \<subseteq> P \<union> (set ps - {null})"
    "card (snd (bounded_adds null P n ps)) < n \<Longrightarrow> snd (bounded_adds null P n ps) = P \<union> (set ps - {null})"
    "length (filter id (fst (bounded_adds null P n ps))) + card P = card (snd (bounded_adds null P n ps))" by blast+
qed

end

section \<open>Linear probing\<close>

text \<open>
  The slots a pointer is looked for in, in order; \<open>ph_ok\<close> is the invariant of the table: the counter counts, no
  pointer is in it twice, and no empty slot comes before the slot a pointer is in.
\<close>

definition ph_slot :: "pointer_hash_set \<Rightarrow> u64 \<Rightarrow> nat \<Rightarrow> nat" where
  "ph_slot s p k = (unat (twang_mix64 p mod ph_capacity s) + k) mod length (ph_data s)"

definition ph_entry :: "pointer_hash_set \<Rightarrow> u64 \<Rightarrow> nat \<Rightarrow> u64" where
  "ph_entry s p k = ph_data s ! ph_slot s p k"

definition ph_members :: "pointer_hash_set \<Rightarrow> u64 set" where
  "ph_members s = set (ph_data s) - {0}"

definition ph_room :: "pointer_hash_set \<Rightarrow> nat" where
  "ph_room s = length (ph_data s)"

definition ph_ok :: "pointer_hash_set \<Rightarrow> bool" where
  "ph_ok s \<longleftrightarrow> 0 < length (ph_data s) \<and> length (ph_data s) < 2 ^ 64 \<and>
     distinct (filter (\<lambda>p. p \<noteq> 0) (ph_data s)) \<and>
     unat (ph_numEntries s) = length (filter (\<lambda>p. p \<noteq> 0) (ph_data s)) \<and>
     (\<forall>p \<in> ph_members s. \<exists>k < length (ph_data s). ph_entry s p k = p \<and> (\<forall>m < k. ph_entry s p m \<noteq> 0))"

lemma word_of_unat: "unat (w :: u64) = n \<Longrightarrow> w = word_of_nat n"
  by (metis of_nat_unat ucast_id)

lemma unat_Suc_bound:
  assumes "Suc (unat (w :: u64)) < 2 ^ 64"
  shows "unat (w + 1) = Suc (unat w)"
proof -
  have "w + 1 = word_of_nat (Suc (unat w))" using word_of_unat [OF refl, of w] by simp
  then show ?thesis using assms by (simp only: unat_of_nat) (simp add: take_bit_nat_eq_self)
qed

lemma ph_members_card:
  assumes "ph_ok s"
  shows "card (ph_members s) = unat (ph_numEntries s)"
proof -
  have "ph_members s = set (filter (\<lambda>p. p \<noteq> 0) (ph_data s))" by (auto simp: ph_members_def)
  then show ?thesis using assms distinct_card [of "filter (\<lambda>p. p \<noteq> 0) (ph_data s)"] by (simp add: ph_ok_def)
qed

lemma ph_capacity_unat:
  "ph_ok s \<Longrightarrow> unat (ph_capacity s) = length (ph_data s)"
  by (simp add: ph_ok_def ph_capacity_def unat_of_nat take_bit_nat_eq_self)

lemma ph_full_iff: "ph_ok s \<Longrightarrow> ph_capacity s \<le> ph_numEntries s \<longleftrightarrow> length (ph_data s) \<le> card (ph_members s)"
  by (simp add: word_le_nat_alt ph_capacity_unat ph_members_card)

lemma ph_slot_less: "ph_ok s \<Longrightarrow> ph_slot s p k < length (ph_data s)"
  by (simp add: ph_slot_def ph_ok_def)

lemma ph_slot_first: "ph_ok s \<Longrightarrow> unat (twang_mix64 p mod ph_capacity s) = ph_slot s p 0"
  by (simp add: ph_slot_def unat_mod ph_capacity_unat)

lemma ph_slot_step:
  assumes "ph_ok s"
  shows "(word_of_nat (ph_slot s p k) + 1) mod ph_capacity s = word_of_nat (ph_slot s p (Suc k))"
proof -
  let ?N = "length (ph_data s)"
  have N: "0 < ?N" "?N < 2 ^ 64" using assms by (simp_all add: ph_ok_def)
  have "Suc (ph_slot s p k) < 2 ^ 64" using ph_slot_less [OF assms, of p k] N by simp
  then have "unat (word_of_nat (Suc (ph_slot s p k)) :: u64) = Suc (ph_slot s p k)"
    by (simp only: unat_of_nat) (simp add: take_bit_nat_eq_self)
  moreover have "word_of_nat (ph_slot s p k) + 1 = (word_of_nat (Suc (ph_slot s p k)) :: u64)" by simp
  ultimately have "unat ((word_of_nat (ph_slot s p k) + 1) mod ph_capacity s) = Suc (ph_slot s p k) mod ?N"
    by (simp only: unat_mod ph_capacity_unat [OF assms])
  also have "\<dots> = ph_slot s p (Suc k)" by (simp add: ph_slot_def mod_Suc_eq)
  finally have "unat ((word_of_nat (ph_slot s p k) + 1) mod ph_capacity s) = ph_slot s p (Suc k)" .
  then show ?thesis by (rule word_of_unat)
qed

lemma ph_index:
  assumes "ph_ok s"
  shows "unat (word_of_nat (ph_slot s p k) :: u64) = ph_slot s p k"
proof -
  have "ph_slot s p k < 2 ^ 64" using ph_slot_less [OF assms, of p k] assms by (simp add: ph_ok_def)
  then show ?thesis by (simp add: unat_of_nat take_bit_nat_eq_self)
qed

text \<open>Every slot is among the first as many as there are slots.\<close>

lemma ph_slot_onto:
  assumes "ph_ok s" "i < length (ph_data s)"
  obtains k where "k < length (ph_data s)" "ph_slot s p k = i"
proof -
  let ?N = "length (ph_data s)" and ?h = "unat (twang_mix64 p mod ph_capacity s)"
  have h: "?h < ?N" using ph_slot_less [OF assms(1), of p 0] ph_slot_first [OF assms(1)] by simp
  let ?k = "if ?h \<le> i then i - ?h else i + ?N - ?h"
  have "?k < ?N" using h assms(2) by auto
  moreover have "ph_slot s p ?k = i" using h assms(2) by (auto simp: ph_slot_def)
  ultimately show ?thesis using that by blast
qed

text \<open>What a probe finds that starts before the first slot which is empty or holds the pointer.\<close>

lemma ph_probe_found:
  assumes ok: "ph_ok s" and room: "\<not> ph_capacity s \<le> ph_numEntries s"
    and k: "j \<le> k" "\<And>m. m < k \<Longrightarrow> ph_entry s p m \<noteq> 0 \<and> ph_entry s p m \<noteq> p" "ph_entry s p k = 0 \<or> ph_entry s p k = p"
  shows "ph_probe p (word_of_nat (ph_slot s p j)) s =
    (if ph_entry s p k = 0 then Some (True, s\<lparr>ph_data := (ph_data s)[ph_slot s p k := p], ph_numEntries := ph_numEntries s + 1\<rparr>)
     else Some (False, s))"
  using k(1)
proof (induction "k - j" arbitrary: j)
  case 0
  then have "j = k" by simp
  then show ?case
    using k(3) by (subst ph_probe.simps) (auto simp: ph_index [OF ok] ph_entry_def)
next
  case (Suc n)
  then have "j < k" by simp
  from k(2) [OF this] have "ph_data s ! ph_slot s p j \<noteq> 0" "ph_data s ! ph_slot s p j \<noteq> p" by (simp_all add: ph_entry_def)
  then have "ph_probe p (word_of_nat (ph_slot s p j)) s = ph_probe p (word_of_nat (ph_slot s p (Suc j))) s"
    using room by (subst ph_probe.simps) (simp add: ph_index [OF ok] ph_slot_step [OF ok])
  then show ?case using Suc.hyps(1) [of "Suc j"] Suc.hyps(2) \<open>j < k\<close> by simp
qed

lemma ph_add_found:
  assumes "ph_ok s" "p \<noteq> 0" "\<not> ph_capacity s \<le> ph_numEntries s"
    and "\<And>m. m < k \<Longrightarrow> ph_entry s p m \<noteq> 0 \<and> ph_entry s p m \<noteq> p" "ph_entry s p k = 0 \<or> ph_entry s p k = p"
  shows "ph_add p s =
    (if ph_entry s p k = 0 then Some (True, s\<lparr>ph_data := (ph_data s)[ph_slot s p k := p], ph_numEntries := ph_numEntries s + 1\<rparr>)
     else Some (False, s))"
proof -
  have "twang_mix64 p mod ph_capacity s = word_of_nat (ph_slot s p 0)"
    by (rule word_of_unat [OF ph_slot_first [OF assms(1)]])
  then show ?thesis using ph_probe_found [OF assms(1,3) _ assms(4,5), of 0] assms(2) by (simp add: ph_add_def)
qed

text \<open>An empty slot exists as long as there is room.\<close>

lemma ph_empty_slot:
  assumes ok: "ph_ok s" and "card (ph_members s) < length (ph_data s)"
  obtains k where "k < length (ph_data s)" "ph_entry s p k = 0"
proof -
  have "length (filter (\<lambda>p. p \<noteq> 0) (ph_data s)) < length (ph_data s)"
    using assms ph_members_card [OF ok] by (simp add: ph_ok_def)
  then have "\<exists>q \<in> set (ph_data s). q = 0" by (metis (mono_tags, lifting) filter_True nat_less_le)
  then obtain i where i: "i < length (ph_data s)" "ph_data s ! i = 0" by (metis in_set_conv_nth)
  obtain k where "k < length (ph_data s)" "ph_slot s p k = i" using ph_slot_onto [OF ok i(1)] .
  then show ?thesis using that i(2) by (simp add: ph_entry_def)
qed

lemma filter_update_empty:
  assumes "i < length xs" "xs ! i = 0" "p \<noteq> (0 :: u64)"
  shows "\<exists>us vs. filter (\<lambda>q. q \<noteq> 0) xs = us @ vs \<and> filter (\<lambda>q. q \<noteq> 0) (xs[i := p]) = us @ p # vs"
proof -
  have "xs = take i xs @ 0 # drop (Suc i) xs" using id_take_nth_drop [OF assms(1)] assms(2) by simp
  then have "filter (\<lambda>q. q \<noteq> 0) xs = filter (\<lambda>q. q \<noteq> 0) (take i xs @ 0 # drop (Suc i) xs)" by simp
  then show ?thesis using assms by (auto simp: upd_conv_take_nth_drop)
qed

lemma ph_insert_ok:
  assumes ok: "ph_ok s" and p: "p \<noteq> 0" "p \<notin> ph_members s"
    and k: "k < length (ph_data s)" "ph_entry s p k = 0" "\<And>m. m < k \<Longrightarrow> ph_entry s p m \<noteq> 0"
    and s': "s' = s\<lparr>ph_data := (ph_data s)[ph_slot s p k := p], ph_numEntries := ph_numEntries s + 1\<rparr>"
  shows "ph_ok s'" "ph_members s' = insert p (ph_members s)" "ph_room s' = ph_room s"
proof -
  let ?i = "ph_slot s p k"
  have i: "?i < length (ph_data s)" "ph_data s ! ?i = 0"
    using ph_slot_less [OF ok] k(2) by (simp_all add: ph_entry_def)
  obtain us vs where f: "filter (\<lambda>q. q \<noteq> 0) (ph_data s) = us @ vs" "filter (\<lambda>q. q \<noteq> 0) (ph_data s') = us @ p # vs"
    using filter_update_empty [OF i p(1)] by (auto simp: s')
  have mem: "ph_members t = set (filter (\<lambda>q. q \<noteq> 0) (ph_data t))" for t by (auto simp: ph_members_def)
  show ms: "ph_members s' = insert p (ph_members s)" unfolding mem f by auto
  show room: "ph_room s' = ph_room s" by (simp add: s' ph_room_def)
  have slot: "ph_slot s' q m = ph_slot s q m" for q m by (simp add: s' ph_slot_def ph_capacity_def)
  have entry: "ph_entry s' q m = (if ph_slot s q m = ?i then p else ph_entry s q m)" for q m
    using i(1) by (simp add: ph_entry_def slot) (simp add: s' nth_list_update)
  have old: "distinct (us @ vs)" "unat (ph_numEntries s) = length (us @ vs)" "length (ph_data s) < 2 ^ 64"
    using ok f(1) by (simp_all add: ph_ok_def)
  have "p \<notin> set (us @ vs)" using p(2) unfolding mem f .
  then have "distinct (us @ p # vs)" using old(1) by auto
  moreover have "unat (ph_numEntries s') = length (us @ p # vs)"
  proof -
    have "length (us @ p # vs) \<le> length (ph_data s')" using f(2) by (metis length_filter_le)
    then have "Suc (unat (ph_numEntries s)) < 2 ^ 64" using old by (simp add: s')
    then have "unat (ph_numEntries s + 1) = Suc (unat (ph_numEntries s))"
      using word_of_unat [of "ph_numEntries s" "unat (ph_numEntries s)"] by (simp add: unat_Suc_bound)
    then show ?thesis using old(2) by (simp add: s')
  qed
  moreover have "\<exists>k < length (ph_data s'). ph_entry s' q k = q \<and> (\<forall>m < k. ph_entry s' q m \<noteq> 0)" if "q \<in> ph_members s'" for q
  proof (cases "q = p")
    case True
    then show ?thesis using k p(1) entry by (intro exI [of _ k]) (auto simp: s')
  next
    case False
    then have "q \<in> ph_members s" using that ms by simp
    then obtain k' where k': "k' < length (ph_data s)" "ph_entry s q k' = q" "\<forall>m < k'. ph_entry s q m \<noteq> 0" "q \<noteq> 0"
      using ok by (auto simp: ph_ok_def ph_members_def)
    then have "ph_slot s q k' \<noteq> ?i" using i(2) by (auto simp: ph_entry_def)
    then show ?thesis using k' p(1) entry by (intro exI [of _ k']) (auto simp: s')
  qed
  ultimately show "ph_ok s'" using ok unfolding ph_ok_def f(2) by (simp add: s')
qed

lemma ph_add_new:
  assumes ok: "ph_ok s" and p: "p \<noteq> 0" "p \<notin> ph_members s" and room: "card (ph_members s) < ph_room s"
  shows "\<exists>s'. ph_add p s = Some (True, s') \<and> ph_ok s' \<and> ph_members s' = insert p (ph_members s) \<and> ph_room s' = ph_room s"
proof -
  obtain k0 where k0: "k0 < length (ph_data s)" "ph_entry s p k0 = 0"
    using ph_empty_slot [OF ok, of p] room by (auto simp: ph_room_def)
  obtain k where k: "k \<le> k0" "\<And>m. m < k \<Longrightarrow> ph_entry s p m \<noteq> 0" "ph_entry s p k = 0"
    using ex_least_nat_le [of "\<lambda>k. ph_entry s p k = 0", OF k0(2)] by blast
  have k': "k < length (ph_data s)" using k(1) k0(1) by simp
  have other: "ph_entry s p m \<noteq> p" for m
  proof
    assume "ph_entry s p m = p"
    then have "p \<in> set (ph_data s)" using ph_slot_less [OF ok, of p m] nth_mem unfolding ph_entry_def by metis
    then show False using p by (simp add: ph_members_def)
  qed
  have "\<not> ph_capacity s \<le> ph_numEntries s" using ph_full_iff [OF ok] room by (simp add: ph_room_def)
  then have "ph_add p s = (if ph_entry s p k = 0
      then Some (True, s\<lparr>ph_data := (ph_data s)[ph_slot s p k := p], ph_numEntries := ph_numEntries s + 1\<rparr>)
      else Some (False, s))"
    by (rule ph_add_found [OF ok p(1)]) (use k other in auto)
  then have "ph_add p s = Some (True, s\<lparr>ph_data := (ph_data s)[ph_slot s p k := p], ph_numEntries := ph_numEntries s + 1\<rparr>)"
    using k(3) by simp
  then show ?thesis using ph_insert_ok [OF ok p k' k(3,2) refl] by blast
qed

lemma ph_add_known:
  assumes ok: "ph_ok s" and p: "p = 0 \<or> p \<in> ph_members s \<or> ph_room s \<le> card (ph_members s)"
  shows "ph_add p s = Some (False, s)"
proof (cases "p = 0")
  case nz: False
  show ?thesis
  proof (cases "ph_room s \<le> card (ph_members s)")
    case True
    then have full: "ph_capacity s \<le> ph_numEntries s" using ph_full_iff [OF ok] by (simp add: ph_room_def)
    have "length (ph_data s) \<le> length (filter (\<lambda>p. p \<noteq> 0) (ph_data s))"
      using True ph_members_card [OF ok] ok by (simp add: ph_room_def ph_ok_def)
    then have "\<forall>q \<in> set (ph_data s). q \<noteq> 0" by (metis (mono_tags, lifting) length_filter_less not_le)
    then have "ph_data s ! ph_slot s p 0 \<noteq> 0" using ph_slot_less [OF ok] by simp
    then show ?thesis using nz full
      by (simp add: ph_add_def) (subst ph_probe.simps, simp add: ph_slot_first [OF ok])
  next
    case False
    then have "p \<in> ph_members s" using p nz by simp
    then obtain k where k: "ph_entry s p k = p" "\<forall>m < k. ph_entry s p m \<noteq> 0" using ok by (auto simp: ph_ok_def)
    obtain k' where k': "k' \<le> k" "\<And>m. m < k' \<Longrightarrow> ph_entry s p m \<noteq> p" "ph_entry s p k' = p"
      using ex_least_nat_le [of "\<lambda>k. ph_entry s p k = p", OF k(1)] by blast
    have "\<not> ph_capacity s \<le> ph_numEntries s" using ph_full_iff [OF ok] False by (simp add: ph_room_def)
    moreover have "ph_entry s p m \<noteq> 0 \<and> ph_entry s p m \<noteq> p" if "m < k'" for m using k(2) k'(1,2) that by auto
    ultimately have "ph_add p s = (if ph_entry s p k' = 0 then Some (True, s\<lparr>ph_data := (ph_data s)[ph_slot s p k' := p],
        ph_numEntries := ph_numEntries s + 1\<rparr>) else Some (False, s))"
      by (rule ph_add_found [OF ok nz]) (use k'(3) in auto)
    then show ?thesis using k'(3) nz by simp
  qed
qed (simp add: ph_add_def)

interpretation ph: bounded_set ph_add 0 ph_members ph_room ph_ok
proof (unfold_locales, goal_cases)
  case (1 s)
  then show ?case by (simp add: ph_members_def)
next
  case (2 s p)
  then show ?case by (rule ph_add_new)
next
  case (3 s p)
  then show ?case by (rule ph_add_known)
qed

section \<open>A run of the generated code\<close>

text \<open>The pointers the code comes across, in order.\<close>

fun ph_adds :: "u64 list \<Rightarrow> pointer_hash_set \<Rightarrow> (bool list \<times> pointer_hash_set) option" where
  "ph_adds [] s = Some ([], s)"
| "ph_adds (p # ps) s = Option.bind (ph_add p s) (\<lambda>(b, s).
     Option.bind (ph_adds ps s) (\<lambda>(bs, s). Some (b # bs, s)))"

lemma ph_adds_eq: "ph_adds ps s = ph.adds ps s"
proof (induction ps arbitrary: s)
  case (Cons p ps)
  then have "ph_adds ps = ph.adds ps" by blast
  then show ?case by simp
qed simp

lemma ph_initialize_ok:
  assumes "0 < length (ph_data s)" "length (ph_data s) < 2 ^ 64"
  shows "ph_ok (ph_initialize s)" "ph_members (ph_initialize s) = {}" "ph_room (ph_initialize s) = length (ph_data s)"
proof -
  show "ph_members (ph_initialize s) = {}" by (auto simp: ph_initialize_def ph_members_def)
  then show "ph_ok (ph_initialize s)" using assms by (simp add: ph_ok_def) (simp add: ph_initialize_def)
qed (simp add: ph_initialize_def ph_room_def)

text \<open>
  C21: from the initialised table every sequence of additions returns. Each answer is true exactly when the
  pointer is not null, was not added before and the table has a slot left: the answers and the pointers
  kept are those of a set bounded by the size of the array. The counter is the number of pointers kept, and as
  long as it is below the size, every pointer but null is kept.
\<close>

theorem pointerSet_adds:
  assumes "0 < length (ph_data s)" and "length (ph_data s) < 2 ^ 64"
  shows "\<exists>bs s'. ph_adds ps (ph_initialize s) = Some (bs, s') \<and>
    (bs, ph_members s') = bounded_adds 0 {} (length (ph_data s)) ps \<and>
    ph_members s' \<subseteq> set ps - {0} \<and> unat (ph_size s') = card (ph_members s') \<and>
    length (filter id bs) = card (ph_members s') \<and> card (ph_members s') \<le> length (ph_data s) \<and>
    (card (ph_members s') < length (ph_data s) \<longrightarrow> ph_members s' = set ps - {0})"
proof -
  note i = ph_initialize_ok [OF assms]
  obtain s' where s': "ph.adds ps (ph_initialize s) = Some (fst (bounded_adds 0 {} (length (ph_data s)) ps), s')"
    "ph_ok s'" "ph_members s' = snd (bounded_adds 0 {} (length (ph_data s)) ps)"
    using ph.adds_added [OF i(1), of ps] i(2,3) by auto
  note r = ph.added_result [of "{}" "length (ph_data s)" ps, simplified]
  show ?thesis
    using s' r ph_members_card [OF s'(2)] by (auto simp: ph_adds_eq ph_size_def)
qed

theorem pointerSet_adds_witness:
  "\<exists>bs s'. ph_adds [8, 16, 8, 0, 24, 16] (ph_initialize \<lparr>ph_data = [0, 0], ph_numEntries = 7\<rparr>) = Some (bs, s') \<and>
     bs = [True, True, False, False, False, False] \<and> ph_members s' = {8, 16}"
proof -
  have spec: "bounded_adds 0 {} 2 [8, 16, 8, 0, 24, 16] = ([True, True, False, False, False, False], {8, 16 :: u64})"
    by (simp add: bounded_adds_Cons insert_commute [of 16 8])
  define t where "t = \<lparr>ph_data = [0, 0], ph_numEntries = 7\<rparr>"
  have "length (ph_data t) = 2" by (simp add: t_def)
  with pointerSet_adds [of t "[8, 16, 8, 0, 24, 16]"] spec show ?thesis unfolding t_def [symmetric] by auto
qed

end
