(* ===== verification/TypeWalker.thy ===== *)
theory TypeWalker
  imports DataSegment
begin

text \<open>
  \<^verbatim>\<open>oi/exporters/TypeCheckingWalker.h\<close> and \<^verbatim>\<open>TypeCheckingWalker.cpp\<close>: the walker that takes the words of
  a data segment apart along the description of its type, with a stack of what is still to come.
\<close>

section \<open>The walker\<close>

datatype walk_element =
    WVarInt u64
  | WSumIndex u64
  | WListLength u64

text \<open>The top of the stack is the head of the list.\<close>

record type_walker =
  wk_stack :: "dynamic list"
  wk_buf :: "u64 list"

definition mk_walker :: "dynamic \<Rightarrow> u64 list \<Rightarrow> type_walker" where
  "mk_walker rootType buf = \<lparr>wk_stack = [rootType], wk_buf = buf\<rparr>"

definition popFront :: "type_walker \<Rightarrow> (u64 \<times> type_walker) outcome" where
  "popFront w = (case wk_buf w of
      [] \<Rightarrow> Inl (Throw ''unexpected end of data segment'')
    | el # rest \<Rightarrow> Inr (el, w\<lparr>wk_buf := rest\<rparr>))"

definition invalid_sum_index :: "u64 \<Rightarrow> dynamic list \<Rightarrow> error" where
  "invalid_sum_index el variants =
     Throw (''invalid sum index: got '' @ dec_u64 el @ '', max '' @ dec (length variants))"

function advance :: "type_walker \<Rightarrow> (walk_element option \<times> type_walker) outcome" where
  "advance w = (case wk_stack w of
      [] \<Rightarrow> Inr (None, w)
    | el # st \<Rightarrow> (case el of
        DUnit \<Rightarrow> advance (w\<lparr>wk_stack := st\<rparr>)
      | DVarInt \<Rightarrow> bindE (popFront (w\<lparr>wk_stack := st\<rparr>)) (\<lambda>(n, w). Inr (Some (WVarInt n), w))
      | DPair a b \<Rightarrow> advance (w\<lparr>wk_stack := a # b # st\<rparr>)
      | DList e \<Rightarrow> bindE (popFront (w\<lparr>wk_stack := st\<rparr>)) (\<lambda>(n, w).
          Inr (Some (WListLength n), w\<lparr>wk_stack := replicate (unat n) e @ wk_stack w\<rparr>))
      | DSum variants \<Rightarrow> bindE (popFront (w\<lparr>wk_stack := st\<rparr>)) (\<lambda>(i, w).
          if length variants \<le> unat i then Inl (invalid_sum_index i variants)
          else Inr (Some (WSumIndex i), w\<lparr>wk_stack := variants ! unat i # wk_stack w\<rparr>))))"
  by pat_completeness auto
termination
  by (relation "measure (\<lambda>w. sum_list (map (\<lambda>d. Suc (2 * size d)) (wk_stack w)))") auto

declare advance.simps [simp del]

lemma advance_cases:
  "advance \<lparr>wk_stack = [], wk_buf = buf\<rparr> = Inr (None, \<lparr>wk_stack = [], wk_buf = buf\<rparr>)"
  "advance \<lparr>wk_stack = DUnit # st, wk_buf = buf\<rparr> = advance \<lparr>wk_stack = st, wk_buf = buf\<rparr>"
  "advance \<lparr>wk_stack = DPair a b # st, wk_buf = buf\<rparr> = advance \<lparr>wk_stack = a # b # st, wk_buf = buf\<rparr>"
  "advance \<lparr>wk_stack = DVarInt # st, wk_buf = n # buf\<rparr> =
     Inr (Some (WVarInt n), \<lparr>wk_stack = st, wk_buf = buf\<rparr>)"
  "advance \<lparr>wk_stack = DList e # st, wk_buf = n # buf\<rparr> =
     Inr (Some (WListLength n), \<lparr>wk_stack = replicate (unat n) e @ st, wk_buf = buf\<rparr>)"
  "advance \<lparr>wk_stack = DSum ts # st, wk_buf = n # buf\<rparr> =
     (if length ts \<le> unat n then Inl (invalid_sum_index n ts)
      else Inr (Some (WSumIndex n), \<lparr>wk_stack = ts ! unat n # st, wk_buf = buf\<rparr>))"
  by (subst advance.simps, simp add: popFront_def)+

text \<open>A caller advances until there is no element; \<open>n\<close> bounds the number of calls.\<close>

primrec walk :: "nat \<Rightarrow> type_walker \<Rightarrow> (walk_element list \<times> type_walker) outcome" where
  "walk 0 w = Inr ([], w)"
| "walk (Suc n) w = bindE (advance w) (\<lambda>(e, w). case e of
      None \<Rightarrow> Inr ([], w)
    | Some e \<Rightarrow> bindE (walk n w) (\<lambda>(es, w). Inr (e # es, w)))"

section \<open>What a value looks like\<close>

fun trace :: "data \<Rightarrow> walk_element list" where
  "trace VUnit = []"
| "trace (VInt n) = [WVarInt n]"
| "trace (VPair x y) = trace x @ trace y"
| "trace (VSum i v) = WSumIndex (of_nat i) # trace v"
| "trace (VList vs) = WListLength (of_nat (length vs)) # concat (map trace vs)"

fun word_of :: "walk_element \<Rightarrow> u64" where
  "word_of (WVarInt n) = n"
| "word_of (WSumIndex n) = n"
| "word_of (WListLength n) = n"

definition data_words :: "data \<Rightarrow> u64 list" where
  "data_words v = map word_of (trace v)"

lemma walk_same:
  "advance w = advance w' \<Longrightarrow> walk (Suc n) w = walk (Suc n) w'"
  by simp

lemma walk_list:
  assumes "\<And>v st rest n. v \<in> set vs \<Longrightarrow>
      walk (length (trace v) + Suc n) \<lparr>wk_stack = e # st, wk_buf = map word_of (trace v) @ rest\<rparr> =
      bindE (walk (Suc n) \<lparr>wk_stack = st, wk_buf = rest\<rparr>) (\<lambda>(es, w). Inr (trace v @ es, w))"
  shows "walk (length (concat (map trace vs)) + Suc n)
      \<lparr>wk_stack = replicate (length vs) e @ st, wk_buf = map word_of (concat (map trace vs)) @ rest\<rparr> =
    bindE (walk (Suc n) \<lparr>wk_stack = st, wk_buf = rest\<rparr>) (\<lambda>(es, w). Inr (concat (map trace vs) @ es, w))"
  using assms
proof (induction vs)
  case (Cons v vs)
  let ?m = "length (concat (map trace vs)) + n"
  have "walk (length (trace v) + Suc ?m) \<lparr>wk_stack = e # replicate (length vs) e @ st,
      wk_buf = map word_of (trace v) @ map word_of (concat (map trace vs)) @ rest\<rparr> =
    bindE (walk (Suc ?m) \<lparr>wk_stack = replicate (length vs) e @ st,
      wk_buf = map word_of (concat (map trace vs)) @ rest\<rparr>) (\<lambda>(es, w). Inr (trace v @ es, w))"
    by (rule Cons.prems) simp
  moreover have "walk (Suc ?m) \<lparr>wk_stack = replicate (length vs) e @ st,
      wk_buf = map word_of (concat (map trace vs)) @ rest\<rparr> =
    bindE (walk (Suc n) \<lparr>wk_stack = st, wk_buf = rest\<rparr>) (\<lambda>(es, w). Inr (concat (map trace vs) @ es, w))"
    using Cons.IH Cons.prems by (simp del: walk.simps)
  ultimately show ?case
    by (simp del: walk.simps add: bindE_assoc case_prod_beta add.assoc)
qed simp

lemma walk_value:
  "typed ty v \<Longrightarrow> walk (length (trace v) + Suc n) \<lparr>wk_stack = ty # st, wk_buf = map word_of (trace v) @ rest\<rparr> =
   bindE (walk (Suc n) \<lparr>wk_stack = st, wk_buf = rest\<rparr>) (\<lambda>(es, w). Inr (trace v @ es, w))"
proof (induction v arbitrary: ty st rest n)
  case VUnit
  then have "ty = DUnit" by (cases ty) auto
  then show ?case using walk_same [OF advance_cases(2)] by (simp del: walk.simps)
next
  case (VInt k)
  then have "ty = DVarInt" by (cases ty) auto
  then show ?case
    using walk.simps(2) [of "Suc n" "\<lparr>wk_stack = DVarInt # st, wk_buf = k # rest\<rparr>"]
    by (simp del: walk.simps add: advance_cases)
next
  case (VPair x y)
  then obtain a b where t: "ty = DPair a b" "typed a x" "typed b y" by (cases ty) auto
  have "walk (length (trace (VPair x y)) + Suc n) \<lparr>wk_stack = ty # st, wk_buf = map word_of (trace (VPair x y)) @ rest\<rparr> =
      walk (length (trace x) + Suc (length (trace y) + n))
        \<lparr>wk_stack = a # b # st, wk_buf = map word_of (trace x) @ map word_of (trace y) @ rest\<rparr>"
    using walk_same [OF advance_cases(3)] t(1) by (simp del: walk.simps add: add.assoc)
  also have "\<dots> = bindE (walk (length (trace y) + Suc n) \<lparr>wk_stack = b # st, wk_buf = map word_of (trace y) @ rest\<rparr>)
      (\<lambda>(es, w). Inr (trace x @ es, w))"
    using VPair.IH(1) [OF t(2), of "length (trace y) + n"] by (simp del: walk.simps)
  finally show ?case
    using VPair.IH(2) [OF t(3)] by (simp del: walk.simps add: bindE_assoc case_prod_beta)
next
  case (VSum i v)
  then obtain ts where t: "ty = DSum ts" "i < length ts" "i < 2 ^ 64" "typed (ts ! i) v" by (cases ty) auto
  have i: "unat (of_nat i :: u64) = i" using t(3) by (simp add: unat_of_nat)
  show ?case
    using t VSum.IH [OF t(4)] i
      walk.simps(2) [of "length (trace v) + Suc n" "\<lparr>wk_stack = DSum ts # st, wk_buf = of_nat i # map word_of (trace v) @ rest\<rparr>"]
    by (simp del: walk.simps add: advance_cases bindE_assoc case_prod_beta)
next
  case (VList vs)
  then obtain e where t: "ty = DList e" "length vs < 2 ^ 64" "\<forall>v \<in> set vs. typed e v" by (cases ty) auto
  have n: "unat (of_nat (length vs) :: u64) = length vs" using t(2) by (simp add: unat_of_nat)
  note vs = walk_list [of vs e, OF VList.IH]
  show ?case
    using t n vs walk.simps(2) [of "length (concat (map trace vs)) + Suc n"
      "\<lparr>wk_stack = DList e # st, wk_buf = of_nat (length vs) # map word_of (concat (map trace vs)) @ rest\<rparr>"]
    by (simp del: walk.simps add: advance_cases bindE_assoc case_prod_beta)
qed

section \<open>What the walker accepts\<close>

definition walk_errors :: "error set" where
  "walk_errors = insert (Throw ''unexpected end of data segment'')
     {e. \<exists>i ts. e = invalid_sum_index i ts \<and> length ts \<le> unat i}"

text \<open>The values that a stack of descriptions still asks for.\<close>

definition stands_for :: "dynamic list \<Rightarrow> walk_element list \<Rightarrow> bool" where
  "stands_for st es \<longleftrightarrow> (\<exists>vs. list_all2 typed st vs \<and> es = concat (map trace vs))"

lemma stands_for_nil [simp]: "stands_for [] es \<longleftrightarrow> es = []"
  by (auto simp: stands_for_def)

lemma stands_for_cons: "typed d v \<Longrightarrow> stands_for st es \<Longrightarrow> stands_for (d # st) (trace v @ es)"
  unfolding stands_for_def by (metis concat.simps(2) list.simps(9) list_all2_Cons)

lemma stands_for_consE:
  assumes "stands_for (d # st) es"
  obtains v es' where "typed d v" "stands_for st es'" "es = trace v @ es'"
  using assms by (fastforce simp: stands_for_def list_all2_Cons1)

lemma stands_for_replicate:
  "stands_for (replicate n d @ st) es \<Longrightarrow> \<exists>vs es'. length vs = n \<and> (\<forall>v \<in> set vs. typed d v) \<and>
     stands_for st es' \<and> es = concat (map trace vs) @ es'"
proof (induction n arbitrary: es)
  case 0
  then show ?case by (intro exI [of _ "[]"] exI [of _ es]) simp
next
  case (Suc n)
  then obtain v es1 where v: "typed d v" "stands_for (replicate n d @ st) es1" "es = trace v @ es1"
    by (auto elim: stands_for_consE)
  from Suc.IH [OF v(2)] obtain vs es' where
    "length vs = n" "\<forall>v \<in> set vs. typed d v" "stands_for st es'" "es1 = concat (map trace vs) @ es'" by blast
  then show ?case using v by (intro exI [of _ "v # vs"] exI [of _ es']) simp
qed

lemma advance_accepts:
  "spec walk_errors (advance w) (\<lambda>(r, w'). case r of
      None \<Rightarrow> wk_stack w' = [] \<and> wk_buf w' = wk_buf w \<and> stands_for (wk_stack w) []
    | Some e \<Rightarrow> wk_buf w = word_of e # wk_buf w' \<and>
        (\<forall>es. stands_for (wk_stack w') es \<longrightarrow> stands_for (wk_stack w) (e # es)))"
proof (induction w rule: advance.induct)
  case (1 w)
  obtain st buf where w: "w = \<lparr>wk_stack = st, wk_buf = buf\<rparr>" by (cases w)
  show ?case
  proof (cases st)
    case Nil
    then show ?thesis by (simp add: w advance_cases)
  next
    case (Cons d st')
    have unit: "stands_for st' es \<Longrightarrow> stands_for (DUnit # st') es" for es
      using stands_for_cons [of DUnit VUnit] by fastforce
    have pair: "stands_for (a # b # st') es \<Longrightarrow> stands_for (DPair a b # st') es" for a b es
      by (elim stands_for_consE) (use stands_for_cons [of "DPair a b" "VPair _ _"] in fastforce)
    have int: "stands_for st' es \<Longrightarrow> stands_for (DVarInt # st') (WVarInt n # es)" for n es
      using stands_for_cons [of DVarInt "VInt n"] by fastforce
    have sum: "unat i < length ts \<Longrightarrow> stands_for (ts ! unat i # st') es \<Longrightarrow>
        stands_for (DSum ts # st') (WSumIndex i # es)" for i ts es
      by (elim stands_for_consE)
        (use stands_for_cons [of "DSum ts" "VSum (unat i) _"] unsigned_less [of i, where ?'a = nat] in fastforce)
    have list: "stands_for (DList e # st') (WListLength n # es)"
      if s: "stands_for (replicate (unat n) e @ st') es" for n e es
    proof -
      obtain vs es' where vs: "length vs = unat n" "\<forall>v \<in> set vs. typed e v" "stands_for st' es'"
        "es = concat (map trace vs) @ es'" using stands_for_replicate [OF s] by blast
      then have "typed (DList e) (VList vs)" using unsigned_less [of n, where ?'a = nat] by simp
      from stands_for_cons [OF this vs(3)] show ?thesis using vs(1,4) by simp
    qed
    show ?thesis
    proof (cases d)
      case DUnit
      then show ?thesis
        using "1.IH"(1) [of DUnit st'] w Cons
        by (auto simp: advance_cases unit elim!: spec_mono split: option.splits)
    next
      case (DPair a b)
      then show ?thesis
        using "1.IH"(2) [of "DPair a b" st'] w Cons
        by (auto simp: advance_cases pair elim!: spec_mono split: option.splits)
    next
      case DVarInt
      then show ?thesis
        using w Cons int
        by (cases buf) (auto simp: advance_cases, simp add: advance.simps popFront_def walk_errors_def)
    next
      case (DList e)
      then show ?thesis
        using w Cons list
        by (cases buf) (auto simp: advance_cases, simp add: advance.simps popFront_def walk_errors_def)
    next
      case (DSum ts)
      show ?thesis
      proof (cases buf)
        case Nil
        then show ?thesis
          using w Cons DSum by (simp add: advance.simps popFront_def walk_errors_def)
      next
        case (Cons i buf')
        then show ?thesis
          using w \<open>st = d # st'\<close> DSum sum by (auto simp: advance_cases walk_errors_def)
      qed
    qed
  qed
qed

lemma walk_accepts:
  "length (wk_buf w) < n \<Longrightarrow> spec walk_errors (walk n w) (\<lambda>(es, w'). wk_stack w' = [] \<and>
     stands_for (wk_stack w) es \<and> wk_buf w = map word_of es @ wk_buf w')"
proof (induction n arbitrary: w)
  case (Suc n)
  show ?case
    unfolding walk.simps
  proof (rule spec_bindI [OF advance_accepts], clarify)
    fix r :: "walk_element option" and w1 :: type_walker
    assume r: "case r of None \<Rightarrow> wk_stack w1 = [] \<and> wk_buf w1 = wk_buf w \<and> stands_for (wk_stack w) []
      | Some e \<Rightarrow> wk_buf w = word_of e # wk_buf w1 \<and>
          (\<forall>es. stands_for (wk_stack w1) es \<longrightarrow> stands_for (wk_stack w) (e # es))"
    show "spec walk_errors (case r of None \<Rightarrow> Inr ([], w1)
        | Some e \<Rightarrow> bindE (walk n w1) (\<lambda>(es, w). Inr (e # es, w)))
      (\<lambda>(es, w'). wk_stack w' = [] \<and> stands_for (wk_stack w) es \<and> wk_buf w = map word_of es @ wk_buf w')"
    proof (cases r)
      case (Some e)
      then have "length (wk_buf w1) < n" using r Suc.prems by simp
      note IH = Suc.IH [OF this]
      show ?thesis
        unfolding Some option.case by (rule spec_bind_prodI [OF IH]) (use r Some in auto)
    qed (use r in simp)
  qed
qed simp

section \<open>Properties\<close>

text \<open>
  C28: on the words of a value of its type, the walker yields exactly the integers, sum indices and list
  lengths of the value in order, then nothing, and leaves the words behind the value alone.
\<close>

theorem walk_typed:
  assumes "typed ty v"
  shows "walk (Suc (length (data_words v))) (mk_walker ty (data_words v @ rest)) =
    Inr (trace v, \<lparr>wk_stack = [], wk_buf = rest\<rparr>)"
  using walk_value [OF assms, of 0 "[]" rest] by (simp add: data_words_def mk_walker_def advance_cases)

theorem walk_typed_witness:
  "walk 5 (mk_walker (DPair (DList DVarInt) (DSum [DVarInt, DUnit])) ([2, 7, 8, 1] @ [9])) =
    Inr ([WListLength 2, WVarInt 7, WVarInt 8, WSumIndex 1], \<lparr>wk_stack = [], wk_buf = [9]\<rparr>)"
  using walk_typed [of "DPair (DList DVarInt) (DSum [DVarInt, DUnit])"
    "VPair (VList [VInt 7, VInt 8]) (VSum 1 VUnit)" "[9]"]
  by (simp add: data_words_def del: walk.simps) (simp add: numeral_eq_Suc del: walk.simps)

text \<open>
  C38: on any words the walker ends after at most one call more than there are words. Either it throws,
  because the segment is too short or a sum index is out of range, or it has read a value of its type.
\<close>

theorem walk_any:
  "spec walk_errors (walk (Suc (length buf)) (mk_walker ty buf)) (\<lambda>(es, w).
     wk_stack w = [] \<and> (\<exists>v. typed ty v \<and> es = trace v \<and> buf = data_words v @ wk_buf w))"
proof -
  have v: "\<exists>v. typed ty v \<and> es = trace v" if "stands_for [ty] es" for es
    using that by (elim stands_for_consE) auto
  have "spec walk_errors (walk (Suc (length buf)) (mk_walker ty buf)) (\<lambda>(es, w'). wk_stack w' = [] \<and>
     stands_for [ty] es \<and> buf = map word_of es @ wk_buf w')"
    using walk_accepts [of "mk_walker ty buf" "Suc (length buf)"] by (simp add: mk_walker_def)
  then show ?thesis
    by (rule spec_mono) (auto simp: data_words_def dest!: v)
qed

end
