(* ===== verification/Introspection.thy ===== *)
theory Introspection
  imports TypeWalker
begin

text \<open>
  The result of an introspection: \<^verbatim>\<open>include/oi/result/Element.h\<close>, the instructions of
  \<^verbatim>\<open>include/oi/exporters/inst.h\<close> and the iterator of \<^verbatim>\<open>include/oi/IntrospectionResult.h\<close>,
  \<^verbatim>\<open>IntrospectionResult-inl.h\<close> and \<^verbatim>\<open>oi/IntrospectionResult.cpp\<close>, which runs them over a data segment.
\<close>

section \<open>Elements and instructions\<close>

datatype element_data =
    NoData
  | PointerData u64
  | ScalarData u64
  | StringData string

record container_stats =
  cs_capacity :: u64
  cs_length :: u64

record element =
  el_name :: string
  el_type_path :: "string list"
  el_type_names :: "string list"
  el_static_size :: u64
  el_exclusive_size :: u64
  el_pointer :: "u64 option"
  el_data :: element_data
  el_container_stats :: "container_stats option"
  el_is_set_stats :: "bool option"
  el_is_primitive :: bool

text \<open>
  A \<^verbatim>\<open>Field\<close> is a constant of the generated code that others refer to, possibly in a cycle: a
  reference to one is its number. A processor is a generated function of the element, of the parsed
  data and of the segment its \<^verbatim>\<open>Lazy\<close> values read on; it returns the element, the instructions it
  passed to its callback, and the rest of the segment.
\<close>

type_synonym field_ref = nat

datatype inst =
    PopTypePath
  | Repeat u64 field_ref
  | FieldInst field_ref

type_synonym processor =
  "element \<Rightarrow> parsed \<Rightarrow> u8 list \<Rightarrow> (element \<times> inst list \<times> u8 list) outcome"

record field =
  fd_static_size :: u64
  fd_exclusive_size :: u64
  fd_name :: string
  fd_type_names :: "string list"
  fd_fields :: "field_ref list"
  fd_processors :: "(dynamic \<times> processor) list"
  fd_is_primitive :: bool

definition mk_field ::
    "u64 \<Rightarrow> string \<Rightarrow> string list \<Rightarrow> field_ref list \<Rightarrow> (dynamic \<times> processor) list \<Rightarrow> bool \<Rightarrow> field" where
  "mk_field static_size name type_names subfields processors is_primitive =
     \<lparr>fd_static_size = static_size, fd_exclusive_size = static_size, fd_name = name,
      fd_type_names = type_names, fd_fields = subfields, fd_processors = processors,
      fd_is_primitive = is_primitive\<rparr>"

section \<open>The iterator\<close>

text \<open>The position in the segment is what is left of it; the top of the stack is the head of the list.\<close>

record iterator =
  it_data :: "u8 list"
  it_stack :: "inst list"
  it_next :: "element option"
  it_type_path :: "string list"
  it_dynamic :: "(nat \<times> string) list"
  it_increments :: u64

definition it_start :: "u8 list \<Rightarrow> inst \<Rightarrow> iterator" where
  "it_start buf inst = \<lparr>it_data = buf, it_stack = [inst], it_next = None, it_type_path = [],
     it_dynamic = [], it_increments = 0\<rparr>"

definition it_end :: iterator where
  "it_end = \<lparr>it_data = [], it_stack = [], it_next = None, it_type_path = [],
     it_dynamic = [], it_increments = 0\<rparr>"

definition it_equal :: "iterator \<Rightarrow> iterator \<Rightarrow> bool" where
  "it_equal a b =
     (if it_data a \<noteq> it_data b then False
      else if it_next a = None \<and> it_next b = None then True
      else it_increments a = it_increments b)"

definition it_deref :: "iterator \<Rightarrow> element outcome" where
  "it_deref it = (case it_next it of None \<Rightarrow> Inl AssertFailed | Some el \<Rightarrow> Inr el)"

fun hex :: "nat \<Rightarrow> string" where
  "hex n = (if n < 16 then [''0123456789abcdef'' ! n] else hex (n div 16) @ [''0123456789abcdef'' ! (n mod 16)])"

declare hex.simps [simp del]

text \<open>A stream prints a null pointer as \<^verbatim>\<open>0\<close>.\<close>

definition genNameFromData :: "element_data \<Rightarrow> string option" where
  "genNameFromData d = (case d of
      NoData \<Rightarrow> None
    | PointerData p \<Rightarrow> Some (''['' @ (if p = 0 then ''0'' else ''0x'' @ hex (unat p)) @ '']'')
    | ScalarData n \<Rightarrow> Some (''['' @ dec_u64 n @ '']'')
    | StringData s \<Rightarrow> Some (''['' @ s @ '']''))"

fun run_processors ::
    "(dynamic \<times> processor) list \<Rightarrow> element \<times> inst list \<times> u8 list \<Rightarrow> (element \<times> inst list \<times> u8 list) outcome" where
  "run_processors [] x = Inr x"
| "run_processors ((dy, handler) # ps) (el, stack, dat) =
     bindE (parse dy dat) (\<lambda>(parsed, dat).
     bindE (handler el parsed dat) (\<lambda>(el, pushed, dat).
     run_processors ps (el, rev pushed @ stack, dat)))"

definition field_element :: "field \<Rightarrow> string list \<Rightarrow> element" where
  "field_element ty type_path = \<lparr>el_name = fd_name ty, el_type_path = type_path,
     el_type_names = fd_type_names ty, el_static_size = fd_static_size ty,
     el_exclusive_size = fd_exclusive_size ty, el_pointer = None, el_data = NoData,
     el_container_stats = None, el_is_set_stats = None, el_is_primitive = fd_is_primitive ty\<rparr>"

text \<open>
  The path of an element is a view of the path of the iterator, so that a generated name replaces the
  last entry of both.
\<close>

definition rename_element :: "element \<Rightarrow> string list \<Rightarrow> string option \<Rightarrow> element \<times> string list" where
  "rename_element el path nm = (case nm of
      None \<Rightarrow> (el\<lparr>el_type_path := path\<rparr>, path)
    | Some nm \<Rightarrow> (el\<lparr>el_name := nm, el_type_path := butlast path @ [nm]\<rparr>, butlast path @ [nm]))"

definition visit_field :: "field \<Rightarrow> iterator \<Rightarrow> iterator outcome" where
  "visit_field ty it =
     (let path = it_type_path it @ [fd_name ty] in
      bindE (run_processors (fd_processors ty) (field_element ty path, PopTypePath # it_stack it, it_data it))
        (\<lambda>(el, stack, dat).
      let nm = genNameFromData (el_data el);
          (el, path') = rename_element el path nm in
      Inr (it\<lparr>it_data := dat, it_stack := map FieldInst (fd_fields ty) @ stack, it_next := Some el,
        it_type_path := path',
        it_dynamic := it_dynamic it @ (case nm of None \<Rightarrow> [] | Some nm \<Rightarrow> [(length path, nm)])\<rparr>)))"

definition drop_name :: "nat \<Rightarrow> (nat \<times> string) list \<Rightarrow> (nat \<times> string) list" where
  "drop_name k dyn = (if dyn \<noteq> [] \<and> fst (last dyn) = k then butlast dyn else dyn)"

definition pop_path :: "iterator \<Rightarrow> iterator outcome" where
  "pop_path it =
     (if it_type_path it = [] then Inl (Undefined ''pop_back of an empty vector'')
      else Inr (it\<lparr>it_dynamic := drop_name (length (it_type_path it)) (it_dynamic it),
        it_type_path := butlast (it_type_path it)\<rparr>))"

fun inst_steps :: "inst \<Rightarrow> nat" where
  "inst_steps PopTypePath = 1"
| "inst_steps (Repeat n f) = 2 * unat n + 1"
| "inst_steps (FieldInst f) = 0"

function increment :: "(field_ref \<Rightarrow> field) \<Rightarrow> iterator \<Rightarrow> iterator outcome" where
  "increment env it = (case it_stack it of
      [] \<Rightarrow> Inr (if it_next it \<noteq> None
        then it\<lparr>it_increments := it_increments it + 1, it_next := None\<rparr> else it)
    | el # st \<Rightarrow>
        let it = it\<lparr>it_increments := it_increments it + 1, it_stack := st\<rparr> in
        (case el of
           PopTypePath \<Rightarrow> bindE (pop_path it) (increment env)
         | Repeat n f \<Rightarrow>
             increment env (if n \<noteq> 0 then it\<lparr>it_stack := FieldInst f # Repeat (n - 1) f # st\<rparr> else it)
         | FieldInst f \<Rightarrow> visit_field (env f) it))"
  by pat_completeness auto
termination
proof (relation "measure (\<lambda>(env, it). sum_list (map inst_steps (it_stack it)))", goal_cases)
  case (3 env it el st it' n f)
  have "unat (n - 1) < unat n" if "n \<noteq> 0" using that by (metis unat_gt_0 unat_minus_one diff_less less_one)
  then show ?case using 3 by auto
qed (auto simp: pop_path_def split: if_splits)

declare increment.simps [simp del]

definition it_begin :: "(field_ref \<Rightarrow> field) \<Rightarrow> u8 list \<Rightarrow> inst \<Rightarrow> iterator outcome" where
  "it_begin env buf inst = increment env (it_start buf inst)"

definition it_post_increment :: "(field_ref \<Rightarrow> field) \<Rightarrow> iterator \<Rightarrow> (iterator \<times> iterator) outcome" where
  "it_post_increment env it = bindE (increment env it) (\<lambda>it'. Inr (it, it'))"

text \<open>A copy gets a path of its own, and its element has to refer to that one.\<close>

definition it_clone :: "iterator \<Rightarrow> iterator" where
  "it_clone it = (case it_next it of None \<Rightarrow> it
     | Some el \<Rightarrow> it\<lparr>it_next := Some (el\<lparr>el_type_path := it_type_path it\<rparr>)\<rparr>)"

lemma it_clone_same: "(\<And>el. it_next it = Some el \<Longrightarrow> el_type_path el = it_type_path it) \<Longrightarrow> it_clone it = it"
  by (cases "it_next it") (simp_all add: it_clone_def)

text \<open>A loop from an iterator to the end, of at most \<open>n\<close> rounds, over the elements it denotes.\<close>

primrec collect :: "(field_ref \<Rightarrow> field) \<Rightarrow> nat \<Rightarrow> iterator \<Rightarrow> element list outcome" where
  "collect env 0 it = (if it_equal it it_end then Inr [] else Inl Diverge)"
| "collect env (Suc n) it = (if it_equal it it_end then Inr []
     else bindE (it_deref it) (\<lambda>el. bindE (increment env it) (\<lambda>it.
       bindE (collect env n it) (\<lambda>els. Inr (el # els)))))"

section \<open>The stack and the path stay in step\<close>

definition pops :: "inst list \<Rightarrow> nat" where
  "pops st = length (filter (\<lambda>i. i = PopTypePath) st)"

text \<open>
  Every entry of the path has an instruction that removes it, and every generated name owns one entry of
  the path, the longest path first removed.
\<close>

definition names_owned :: "string list \<Rightarrow> (nat \<times> string) list \<Rightarrow> bool" where
  "names_owned path dyn \<longleftrightarrow> sorted_wrt (<) (map fst dyn) \<and>
     (\<forall>(k, nm) \<in> set dyn. 0 < k \<and> k \<le> length path \<and> path ! (k - 1) = nm)"

definition balanced :: "iterator \<Rightarrow> bool" where
  "balanced it \<longleftrightarrow> pops (it_stack it) = length (it_type_path it) \<and> names_owned (it_type_path it) (it_dynamic it)"

lemma pops_simps [simp]:
  "pops [] = 0" "pops (PopTypePath # st) = Suc (pops st)" "pops (Repeat n f # st) = pops st"
  "pops (FieldInst f # st) = pops st" "pops (st @ st') = pops st + pops st'" "pops (map FieldInst fs) = 0"
  by (auto simp: pops_def)

lemma names_owned_shorter:
  "names_owned path dyn \<Longrightarrow> \<forall>(k, nm) \<in> set dyn. k < length path \<Longrightarrow> names_owned (butlast path) dyn"
  by (fastforce simp: names_owned_def nth_butlast)

lemma names_owned_pop:
  assumes "names_owned path dyn"
  shows "names_owned (butlast path) (drop_name (length path) dyn)"
proof (cases dyn rule: rev_cases)
  case (snoc xs x)
  obtain k nm where x: "x = (k, nm)" by (cases x)
  have less: "\<forall>(j, nm) \<in> set xs. j < k" and k: "k \<le> length path" and xs: "names_owned path xs"
    using assms snoc x by (auto simp: names_owned_def sorted_wrt_append)
  show ?thesis
  proof (cases "k = length path")
    case True
    then show ?thesis using names_owned_shorter [OF xs] less snoc x by (simp add: drop_name_def)
  next
    case False
    then have "\<forall>(j, nm) \<in> set dyn. j < length path" using less k snoc x by fastforce
    then show ?thesis using names_owned_shorter [OF assms] False snoc x by (simp add: drop_name_def)
  qed
qed (simp add: drop_name_def names_owned_def)

lemma names_owned_push:
  assumes "names_owned path dyn"
  shows "names_owned (path @ [nm]) dyn" "names_owned (path @ [nm]) (dyn @ [(Suc (length path), nm)])"
  using assms by (fastforce simp: names_owned_def nth_append sorted_wrt_append)+

lemma rename_path: "snd (rename_element el (path @ [name]) nm) = path @ [case nm of None \<Rightarrow> name | Some nm \<Rightarrow> nm]"
  by (simp add: rename_element_def split: option.split)

lemma rename_type_path: "el_type_path (fst (rename_element el path nm)) = snd (rename_element el path nm)"
  by (simp add: rename_element_def split: option.split)

lemma increment_balanced:
  assumes procs: "\<And>f el st dat. spec E (run_processors (fd_processors (env f)) (el, st, dat))
      (\<lambda>(el', st', dat'). pops st' = pops st)"
  shows "balanced it \<Longrightarrow> spec E (increment env it) (\<lambda>it'. balanced it' \<and>
    (\<forall>el. it_next it' = Some el \<longrightarrow> el_type_path el = it_type_path it'))"
  using procs
proof (induction env it rule: increment.induct)
  case (1 env it)
  note procs = "1.prems"(2) and bal = "1.prems"(1)
  show ?case
  proof (cases "it_stack it")
    case Nil
    then show ?thesis using bal by (subst increment.simps) (auto simp: balanced_def)
  next
    case (Cons el st)
    let ?it = "it\<lparr>it_increments := it_increments it + 1, it_stack := st\<rparr>"
    show ?thesis
    proof (cases el)
      case PopTypePath
      have path: "it_type_path it \<noteq> []" using bal Cons PopTypePath by (auto simp: balanced_def)
      then obtain it2 where it2: "pop_path ?it = Inr it2" by (simp add: pop_path_def)
      have "balanced it2"
        using it2 bal Cons PopTypePath names_owned_pop [of "it_type_path it" "it_dynamic it"]
        by (auto simp: balanced_def pop_path_def path)
      then show ?thesis
        using "1.IH"(1) [OF Cons refl PopTypePath it2 _ procs] it2 Cons PopTypePath
        by (subst increment.simps) simp
    next
      case (Repeat n f)
      then have "balanced (if n \<noteq> 0 then ?it\<lparr>it_stack := FieldInst f # Repeat (n - 1) f # st\<rparr> else ?it)"
        using bal Cons by (simp add: balanced_def)
      then show ?thesis
        using "1.IH"(2) [OF Cons refl Repeat _ procs] Cons Repeat
        by (subst increment.simps) (simp add: Let_def)
    next
      case (FieldInst f)
      let ?ty = "env f" let ?path = "it_type_path it @ [fd_name (env f)]"
      have "spec E (visit_field ?ty ?it) (\<lambda>it'. balanced it' \<and>
          (\<forall>el. it_next it' = Some el \<longrightarrow> el_type_path el = it_type_path it'))"
      proof -
        let ?done = "\<lambda>(el, stack, dat). let nm = genNameFromData (el_data el);
            (el, path') = rename_element el ?path nm in
            Inr (?it\<lparr>it_data := dat, it_stack := map FieldInst (fd_fields ?ty) @ stack, it_next := Some el,
              it_type_path := path',
              it_dynamic := it_dynamic it @ (case nm of None \<Rightarrow> [] | Some nm \<Rightarrow> [(length ?path, nm)])\<rparr>)"
        have "spec E (?done (el, st', dat)) (\<lambda>it'. balanced it' \<and>
          (\<forall>el. it_next it' = Some el \<longrightarrow> el_type_path el = it_type_path it'))"
          if st': "pops st' = Suc (pops st)" for el st' dat
        proof -
          obtain el' path' where r: "rename_element el ?path (genNameFromData (el_data el)) = (el', path')"
            by (cases "rename_element el ?path (genNameFromData (el_data el))")
          have "path' = it_type_path it @ [case genNameFromData (el_data el) of None \<Rightarrow> fd_name ?ty | Some nm \<Rightarrow> nm]"
            using rename_path [of el "it_type_path it" "fd_name ?ty" "genNameFromData (el_data el)"] r by simp
          moreover have "el_type_path el' = path'"
            using rename_type_path [of el ?path "genNameFromData (el_data el)"] r by simp
          ultimately show ?thesis
            using bal st' Cons FieldInst names_owned_push [of "it_type_path it" "it_dynamic it"] r
            by (auto simp: balanced_def Let_def split: option.split)
        qed
        then have fin: "spec E (?done x) (\<lambda>it'. balanced it' \<and>
          (\<forall>el. it_next it' = Some el \<longrightarrow> el_type_path el = it_type_path it'))"
          if "case x of (el, st', dat) \<Rightarrow> pops st' = Suc (pops st)" for x
          using that by (cases x) (simp only: split)
        have "visit_field ?ty ?it = bindE (run_processors (fd_processors ?ty)
            (field_element ?ty ?path, PopTypePath # st, it_data it)) ?done"
          by (simp add: visit_field_def Let_def)
        moreover have "spec E (run_processors (fd_processors ?ty) (field_element ?ty ?path, PopTypePath # st, it_data it))
            (\<lambda>(el, st', dat). pops st' = Suc (pops st))"
          using procs [of f "field_element ?ty ?path" "PopTypePath # st" "it_data it"] by simp
        ultimately show ?thesis using spec_bindI fin by (metis (no_types, lifting))
      qed
      then show ?thesis
        using Cons FieldInst by (subst increment.simps) simp
    qed
  qed
qed

section \<open>The elements as a traversal\<close>

text \<open>
  What a stack of instructions yields: the element of a field, then its fields in order, then what its
  processors asked for, all below its path. The pair is the segment and the number of increments so
  far; an element comes with the number it was reached with.
\<close>

inductive produces :: "(field_ref \<Rightarrow> field) \<Rightarrow> inst list \<Rightarrow> string list \<Rightarrow> u8 list \<times> nat \<Rightarrow>
    (element \<times> nat) list \<Rightarrow> u8 list \<times> nat \<Rightarrow> bool" for env where
  nil: "produces env [] path x [] x"
| repeat_none: "produces env rest path (d, Suc i) es x \<Longrightarrow> produces env (Repeat 0 f # rest) path (d, i) es x"
| repeat_more: "n \<noteq> 0 \<Longrightarrow> produces env (FieldInst f # Repeat (n - 1) f # rest) path (d, Suc i) es x \<Longrightarrow>
    produces env (Repeat n f # rest) path (d, i) es x"
| field: "run_processors (fd_processors (env f)) (field_element (env f) (path @ [fd_name (env f)]), [], d) =
      Inr (el, pushed, d1) \<Longrightarrow>
    rename_element el (path @ [fd_name (env f)]) (genNameFromData (el_data el)) = (el', path') \<Longrightarrow>
    produces env (map FieldInst (fd_fields (env f)) @ pushed) path' (d1, Suc i) es (d2, j) \<Longrightarrow>
    produces env rest path (d2, Suc j) es2 x \<Longrightarrow>
    produces env (FieldInst f # rest) path (d, i) ((el', Suc i) # es @ es2) x"

lemma produces_numbers:
  "produces env insts path x es y \<Longrightarrow> snd x \<le> snd y \<and> (\<forall>(e, k) \<in> set es. snd x < k \<and> k \<le> snd y)"
  by (induction rule: produces.induct) fastforce+

lemma run_processors_stack:
  "run_processors ps (el, st, d) = bindE (run_processors ps (el, [], d)) (\<lambda>(el, pushed, d). Inr (el, pushed @ st, d))"
proof (induction ps arbitrary: el st d)
  case (Cons p ps)
  obtain dy handler where p: "p = (dy, handler)" by (cases p)
  have "run_processors ps (el, rev pushed @ st, d) =
      bindE (run_processors ps (el, rev pushed, d)) (\<lambda>(el, pushed, d). Inr (el, pushed @ st, d))" for el pushed d
    using Cons [of el "rev pushed @ st" d] Cons [of el "rev pushed" d]
    by (simp add: bindE_assoc case_prod_beta)
  then show ?case
    by (auto simp: p bindE_assoc case_prod_beta intro!: bindE_cong)
qed simp

text \<open>Increments until there is no element; \<open>n\<close> bounds their number.\<close>

primrec drain :: "(field_ref \<Rightarrow> field) \<Rightarrow> nat \<Rightarrow> iterator \<Rightarrow> ((element \<times> u64) list \<times> iterator) outcome" where
  "drain env 0 it = Inl Diverge"
| "drain env (Suc n) it = bindE (increment env it) (\<lambda>it. case it_next it of
      None \<Rightarrow> Inr ([], it)
    | Some el \<Rightarrow> bindE (drain env n it) (\<lambda>(es, it'). Inr ((el, it_increments it) # es, it')))"

lemma drain_same: "increment env it = increment env it' \<Longrightarrow> drain env (Suc n) it = drain env (Suc n) it'"
  by simp

definition numbered :: "u64 \<Rightarrow> (element \<times> nat) list \<Rightarrow> (element \<times> u64) list" where
  "numbered c es = map (\<lambda>(e, k). (e, c + of_nat k)) es"

definition after :: "u64 \<Rightarrow> inst list \<Rightarrow> (element \<times> nat) list \<Rightarrow> u8 list \<times> nat \<Rightarrow> iterator \<Rightarrow> iterator" where
  "after c st es y it = it\<lparr>it_data := fst y, it_stack := st,
     it_next := (if es = [] then it_next it else Some (fst (last es))), it_increments := c + of_nat (snd y)\<rparr>"

definition short_names :: "iterator \<Rightarrow> bool" where
  "short_names it \<longleftrightarrow> (\<forall>x \<in> set (it_dynamic it). fst x \<le> length (it_type_path it))"

lemma increment_cases:
  "it_stack it = Repeat n f # st \<Longrightarrow> increment env it = increment env
     (it\<lparr>it_increments := it_increments it + 1, it_stack := (if n \<noteq> 0 then FieldInst f # Repeat (n - 1) f # st else st)\<rparr>)"
  "it_stack it = FieldInst f # st \<Longrightarrow> increment env it =
     visit_field (env f) (it\<lparr>it_increments := it_increments it + 1, it_stack := st\<rparr>)"
  "it_stack it = PopTypePath # st \<Longrightarrow> increment env it =
     bindE (pop_path (it\<lparr>it_increments := it_increments it + 1, it_stack := st\<rparr>)) (increment env)"
  by (subst increment.simps, simp add: Let_def)+

lemma drop_pushed:
  assumes "\<forall>x \<in> set dyn. fst x \<le> k"
  shows "drop_name (Suc k) (dyn @ (case nm of None \<Rightarrow> [] | Some nm \<Rightarrow> [(Suc k, nm)])) = dyn"
proof (cases nm)
  case None
  have "fst (last dyn) \<noteq> Suc k" if "dyn \<noteq> []" using assms last_in_set [OF that] by fastforce
  then show ?thesis using None by (auto simp: drop_name_def)
qed (simp add: drop_name_def)

lemma drain_produces:
  "produces env insts path x es y \<Longrightarrow> it_stack it = insts @ st \<Longrightarrow> it_type_path it = path \<Longrightarrow> it_data it = fst x \<Longrightarrow>
   it_increments it = c + of_nat (snd x) \<Longrightarrow> short_names it \<Longrightarrow>
   drain env (length es + Suc n) it =
     bindE (drain env (Suc n) (after c st es y it)) (\<lambda>(es', it'). Inr (numbered c es @ es', it'))"
proof (induction arbitrary: it st n rule: produces.induct)
  case (nil path x)
  have "after c st [] x it = it" using nil by (simp add: after_def)
  then show ?case by (simp add: numbered_def del: drain.simps)
next
  case (repeat_none rest path d i es x f)
  let ?it = "it\<lparr>it_increments := it_increments it + 1, it_stack := rest @ st\<rparr>"
  have "drain env (length es + Suc n) it = drain env (length es + Suc n) ?it"
    using drain_same increment_cases(1) [of it 0 f "rest @ st" env] repeat_none.prems by simp
  moreover have "after c st es x ?it = after c st es x it" by (simp add: after_def)
  ultimately show ?case
    using repeat_none.IH [of ?it st n] repeat_none.prems by (simp add: short_names_def add.assoc del: drain.simps)
next
  case (repeat_more k f rest path d i es x)
  let ?it = "it\<lparr>it_increments := it_increments it + 1, it_stack := FieldInst f # Repeat (k - 1) f # rest @ st\<rparr>"
  have "drain env (length es + Suc n) it = drain env (length es + Suc n) ?it"
    using drain_same increment_cases(1) [of it k f "rest @ st" env] repeat_more by simp
  moreover have "after c st es x ?it = after c st es x it" by (simp add: after_def)
  ultimately show ?case
    using repeat_more.IH [of ?it st n] repeat_more.prems by (simp add: short_names_def add.assoc del: drain.simps)
next
  case (field f path d el pushed d1 el' path' i es d2 j rest es2 x)
  let ?nm = "genNameFromData (el_data el)"
  let ?it1 = "it\<lparr>it_increments := it_increments it + 1, it_stack := map FieldInst (fd_fields (env f)) @ pushed @ PopTypePath # rest @ st,
    it_data := d1, it_next := Some el', it_type_path := path',
    it_dynamic := it_dynamic it @ (case ?nm of None \<Rightarrow> [] | Some nm \<Rightarrow> [(Suc (length path), nm)])\<rparr>"
  have path': "path' = path @ [case ?nm of None \<Rightarrow> fd_name (env f) | Some nm \<Rightarrow> nm]"
    using rename_path [of el path "fd_name (env f)" ?nm] field.hyps(2) by simp
  have inc1: "increment env it = Inr ?it1"
    using field.prems field.hyps(1,2) increment_cases(2) [of it f "rest @ st" env]
    by (auto simp: visit_field_def Let_def run_processors_stack [of _ _ "PopTypePath # _"]
      intro!: iterator.equality split: option.split)
  let ?it2 = "after c (PopTypePath # rest @ st) es (d2, j) ?it1"
  let ?it3 = "it\<lparr>it_increments := c + of_nat (Suc j), it_stack := rest @ st, it_data := d2,
    it_next := (if es = [] then Some el' else Some (fst (last es)))\<rparr>"
  have "short_names ?it1"
    using field.prems(2,5) path' by (auto simp: short_names_def split: option.split)
  then have d1: "drain env (length es + Suc (length es2 + n)) ?it1 =
      bindE (drain env (Suc (length es2 + n)) ?it2) (\<lambda>(es', it'). Inr (numbered c es @ es', it'))"
    using field.prems by (intro field.IH(1)) (simp_all add: add.assoc)
  have "pop_path (?it2\<lparr>it_increments := it_increments ?it2 + 1, it_stack := rest @ st\<rparr>) = Inr ?it3"
    using field.prems(2,5) path' drop_pushed [of "it_dynamic it" "length path" ?nm]
    by (simp add: pop_path_def after_def short_names_def add.assoc)
  then have "increment env ?it2 = increment env ?it3"
    using increment_cases(3) [of ?it2 "rest @ st" env] by (simp add: after_def)
  then have d2: "drain env (Suc (length es2 + n)) ?it2 = drain env (Suc (length es2 + n)) ?it3"
    by (rule drain_same)
  have d3: "drain env (length es2 + Suc n) ?it3 =
      bindE (drain env (Suc n) (after c st es2 x ?it3)) (\<lambda>(es', it'). Inr (numbered c es2 @ es', it'))"
    using field.prems by (intro field.IH(2)) (simp_all add: short_names_def)
  have a: "after c st es2 x ?it3 = after c st ((el', Suc i) # es @ es2) x it"
    by (simp add: after_def)
  have "drain env (length ((el', Suc i) # es @ es2) + Suc n) it =
      bindE (drain env (length es + Suc (length es2 + n)) ?it1) (\<lambda>(es', it'). Inr ((el', it_increments ?it1) # es', it'))"
    using inc1 by (simp add: add.assoc)
  then show ?case
    using d1 d2 d3 a field.prems(4)
    by (simp add: bindE_assoc case_prod_beta numbered_def ac_simps del: drain.simps)
qed

section \<open>Properties\<close>

lemma drain_collect:
  "drain env n it = Inr (es, it') \<Longrightarrow> \<forall>(e, k) \<in> set es. k \<noteq> 0 \<Longrightarrow>
   it_next it' = None \<and> bindE (increment env it) (collect env (length es + m)) =
     (if it_data it' = [] then Inr (map fst es) else if m = 0 then Inl Diverge else Inl AssertFailed)"
proof (induction n arbitrary: it es)
  case (Suc n)
  obtain it1 where it1: "increment env it = Inr it1" using Suc.prems(1) by (auto simp: bindE_Inr_iff)
  show ?case
  proof (cases "it_next it1")
    case None
    then have "es = []" "it' = it1" using Suc.prems(1) it1 by simp_all
    then show ?thesis
      using it1 None by (cases m) (simp_all add: it_equal_def it_end_def it_deref_def)
  next
    case (Some el)
    then obtain es1 where es: "drain env n it1 = Inr (es1, it')" "es = (el, it_increments it1) # es1"
      using Suc.prems(1) it1 by (auto simp: bindE_Inr_iff)
    have "\<not> it_equal it1 it_end"
      using Suc.prems(2) es(2) Some by (simp add: it_equal_def it_end_def)
    then have "collect env (length es + m) it1 =
        bindE (bindE (increment env it1) (collect env (length es1 + m))) (\<lambda>els. Inr (el # els))"
      using es(2) Some by (simp add: it_deref_def bindE_assoc)
    moreover have "\<forall>(e, k) \<in> set es1. k \<noteq> 0" using Suc.prems(2) es(2) by simp
    note Suc.IH [OF es(1) this]
    ultimately show ?thesis using es(2) it1 by simp
  qed
qed simp

lemma introspection_run:
  assumes p: "produces env [inst] [] (buf, 0) es (rest, j)" and j: "j < 2 ^ 64"
  shows "bindE (it_begin env buf inst) (collect env (length es + m)) =
    (if rest = [] then Inr (map fst es) else if m = 0 then Inl Diverge else Inl AssertFailed)"
proof -
  let ?it = "it_start buf inst"
  let ?a = "after 0 [] es (rest, j) ?it"
  have "drain env (length es + Suc 0) ?it =
      bindE (drain env (Suc 0) ?a) (\<lambda>(es', it'). Inr (numbered 0 es @ es', it'))"
    using p by (intro drain_produces [OF p]) (simp_all add: it_start_def short_names_def)
  moreover have "increment env ?a = Inr (if it_next ?a \<noteq> None
      then ?a\<lparr>it_increments := it_increments ?a + 1, it_next := None\<rparr> else ?a)"
    by (subst increment.simps) (simp add: after_def)
  then obtain it' where "drain env (Suc 0) ?a = Inr ([], it')" "it_data it' = rest"
    by (cases "it_next ?a") (simp_all add: after_def)
  ultimately have d: "drain env (length es + Suc 0) ?it = Inr (numbered 0 es, it')" by simp
  have "(of_nat k :: u64) \<noteq> 0" if "0 < k" "k \<le> j" for k
  proof -
    have "unat (of_nat k :: u64) = k" using that j by (simp add: unat_of_nat)
    then show ?thesis using that by fastforce
  qed
  then have "\<forall>(e, k) \<in> set (numbered 0 es). k \<noteq> 0"
    using produces_numbers [OF p] by (fastforce simp: numbered_def)
  from drain_collect [OF d this, of m] show ?thesis
    using \<open>it_data it' = rest\<close> by (simp add: it_begin_def numbered_def o_def case_prod_beta)
qed

text \<open>
  C5: if the instructions yield a list of elements and use up the whole segment, then the loop from
  \<^verbatim>\<open>begin()\<close> to \<^verbatim>\<open>end()\<close> visits exactly these elements in that order and ends: the iterator with its
  explicit stack implements the recursive traversal.
\<close>

theorem iterate_traversal:
  assumes "produces env [inst] [] (buf, 0) es ([], j)" and "j < 2 ^ 64"
  shows "bindE (it_begin env buf inst) (collect env (length es)) = Inr (map fst es)"
  using introspection_run [OF assms, of 0] by simp

text \<open>
  C29: if a byte of the segment is left over, the loop does not stop after the last element: it takes
  the element of an iterator that has none, which the assertion in \<^verbatim>\<open>operator*\<close> catches.
\<close>

theorem iterate_leftover:
  assumes "produces env [inst] [] (buf, 0) es (b # rest, j)" and "j < 2 ^ 64"
  shows "bindE (it_begin env buf inst) (collect env (length es + Suc m)) = Inl AssertFailed"
  using introspection_run [OF assms, of "Suc m"] by simp

text \<open>
  the path never underflows: as long as processors do not push \<^verbatim>\<open>PopTypePath\<close>, an increment fails
  only with an error \<open>E\<close> of a processor or of the parser, keeps one \<^verbatim>\<open>PopTypePath\<close> per entry of the
  path, keeps every generated name that the path views owned, and gives the element the iterator's path.
\<close>

theorem increment_safe:
  assumes "\<And>f el st dat. spec E (run_processors (fd_processors (env f)) (el, st, dat))
      (\<lambda>(el', st', dat'). pops st' = pops st)" and "balanced it"
  shows "spec E (increment env it) (\<lambda>it'. balanced it' \<and>
    (\<forall>el. it_next it' = Some el \<longrightarrow> el_type_path el = it_type_path it'))"
  using increment_balanced assms by blast

text \<open>A struct with an integer and a vector, whose processor repeats the element field.\<close>

definition vec_processor :: processor where
  "vec_processor el p dat = (case p of
      PList n ty \<Rightarrow> Inr (el\<lparr>el_container_stats := Some \<lparr>cs_capacity = n, cs_length = n\<rparr>\<rparr>, [Repeat n 3], dat)
    | _ \<Rightarrow> Inl Aborted)"

definition example_env :: "field_ref \<Rightarrow> field" where
  "example_env f =
     (if f = 0 then mk_field 32 ''a0'' [''S''] [1, 2] [] False
      else if f = 1 then mk_field 4 ''n'' [''int32_t''] [] [] True
      else if f = 2 then mk_field 24 ''v'' [''vector''] [] [(DList DUnit, vec_processor)] False
      else mk_field 8 ''[]'' [''int64_t''] [] [] True)"

definition example_element :: "u64 \<Rightarrow> string \<Rightarrow> string list \<Rightarrow> string list \<Rightarrow> bool \<Rightarrow> element" where
  "example_element sz nm path ty prim = field_element (mk_field sz nm ty [] [] prim) path"

text \<open>The traversal as a function, to evaluate examples; \<open>n\<close> bounds its depth.\<close>

fun traverse :: "(field_ref \<Rightarrow> field) \<Rightarrow> nat \<Rightarrow> inst list \<Rightarrow> string list \<Rightarrow> u8 list \<times> nat \<Rightarrow>
    ((element \<times> nat) list \<times> u8 list \<times> nat) outcome" where
  "traverse env n [] path x = Inr ([], x)"
| "traverse env 0 (inst # rest) path x = Inl Diverge"
| "traverse env (Suc n) (PopTypePath # rest) path x = Inl Aborted"
| "traverse env (Suc n) (Repeat k f # rest) path (d, i) =
     traverse env n (if k = 0 then rest else FieldInst f # Repeat (k - 1) f # rest) path (d, Suc i)"
| "traverse env (Suc n) (FieldInst f # rest) path (d, i) =
     bindE (run_processors (fd_processors (env f)) (field_element (env f) (path @ [fd_name (env f)]), [], d))
       (\<lambda>(el, pushed, d).
     case rename_element el (path @ [fd_name (env f)]) (genNameFromData (el_data el)) of (el, path') \<Rightarrow>
     bindE (traverse env n (map FieldInst (fd_fields (env f)) @ pushed) path' (d, Suc i)) (\<lambda>(es, d, j).
     bindE (traverse env n rest path (d, Suc j)) (\<lambda>(es2, x). Inr ((el, Suc i) # es @ es2, x))))"

lemma traverse_produces: "traverse env n insts path x = Inr (es, y) \<Longrightarrow> produces env insts path x es y"
proof (induction env n insts path x arbitrary: es y rule: traverse.induct)
  case (1 env n path x)
  then show ?case by (auto intro: produces.nil)
next
  case (4 env n k f rest path d i)
  then show ?case by (cases "k = 0") (auto intro: produces.intros)
next
  case (5 env n f rest path d i)
  from 5(3) obtain el pushed d1 where r: "run_processors (fd_processors (env f))
      (field_element (env f) (path @ [fd_name (env f)]), [], d) = Inr (el, pushed, d1)"
    by (auto simp: bindE_Inr_iff)
  obtain el' path' where nm: "rename_element el (path @ [fd_name (env f)]) (genNameFromData (el_data el)) = (el', path')"
    by (cases "rename_element el (path @ [fd_name (env f)]) (genNameFromData (el_data el))")
  from 5(3) r nm obtain es1 d2 j es2 where
    t: "traverse env n (map FieldInst (fd_fields (env f)) @ pushed) path' (d1, Suc i) = Inr (es1, d2, j)"
    "traverse env n rest path (d2, Suc j) = Inr (es2, y)" and es: "es = (el', Suc i) # es1 @ es2"
    by (auto simp: bindE_Inr_iff split: prod.splits)
  have "produces env (map FieldInst (fd_fields (env f)) @ pushed) path' (d1, Suc i) es1 (d2, j)"
    by (rule 5(1) [OF r _ _ nm [symmetric] t(1)]) (rule refl)+
  moreover have "produces env rest path (d2, Suc j) es2 y"
    by (rule 5(2) [OF r _ _ nm [symmetric] t(1) _ _ t(2)]) (rule refl)+
  moreover note r nm es
  ultimately show ?case by (auto intro: produces.field)
qed simp_all

definition example_elements :: "(element \<times> nat) list" where
  "example_elements =
    [(example_element 32 ''a0'' [''a0''] [''S''] False, 1),
     (example_element 4 ''n'' [''a0'', ''n''] [''int32_t''] True, 2),
     ((example_element 24 ''v'' [''a0'', ''v''] [''vector''] False)
        \<lparr>el_container_stats := Some \<lparr>cs_capacity = 2, cs_length = 2\<rparr>\<rparr>, 4),
     (example_element 8 ''[]'' [''a0'', ''v'', ''[]''] [''int64_t''] True, 6),
     (example_element 8 ''[]'' [''a0'', ''v'', ''[]''] [''int64_t''] True, 9)]"

lemma parse_two: "parseVarint (2 # it) = Inr (2, it)"
  by (simp add: parseVarint_def Let_def)

lemma example_fields:
  "fd_processors (example_env 0) = []" "fd_processors (example_env 1) = []" "fd_processors (example_env 3) = []"
  "fd_processors (example_env 2) = [(DList DUnit, vec_processor)]"
  "fd_fields (example_env 0) = [1, 2]" "fd_fields (example_env 1) = []" "fd_fields (example_env 2) = []"
  "fd_fields (example_env 3) = []"
  by (simp_all add: example_env_def mk_field_def)

lemma example_names:
  "fd_name (example_env 0) = ''a0''" "fd_name (example_env 1) = ''n''" "fd_name (example_env 2) = ''v''"
  "fd_name (example_env 3) = ''[]''"
  "field_element (example_env 0) path = example_element 32 ''a0'' path [''S''] False"
  "field_element (example_env 1) path = example_element 4 ''n'' path [''int32_t''] True"
  "field_element (example_env 2) path = example_element 24 ''v'' path [''vector''] False"
  "field_element (example_env 3) path = example_element 8 ''[]'' path [''int64_t''] True"
  "rename_element (example_element sz nm path ty prim) path' None = (example_element sz nm path' ty prim, path')"
  "rename_element ((example_element sz nm path ty prim)\<lparr>el_container_stats := cs\<rparr>) path' None =
    ((example_element sz nm path' ty prim)\<lparr>el_container_stats := cs\<rparr>, path')"
  "el_data (example_element sz nm path ty prim) = NoData"
  by (simp_all add: example_env_def mk_field_def example_element_def field_element_def rename_element_def)

lemma example_vector: "run_processors [(DList DUnit, vec_processor)] (el, [], 2 # rest) =
    Inr (el\<lparr>el_container_stats := Some \<lparr>cs_capacity = 2, cs_length = 2\<rparr>\<rparr>, [Repeat 2 3], rest)"
  by (simp add: parse_def parse_two vec_processor_def)

lemma example_produces:
  "produces example_env [FieldInst 0] [] (2 # rest, 0) example_elements (rest, 13)"
  by (rule traverse_produces [of _ "Suc (Suc (Suc (Suc (Suc (Suc (Suc (Suc 0)))))))"])
    (simp add: example_fields example_names example_vector genNameFromData_def example_elements_def
      example_fields [unfolded One_nat_def] example_names [unfolded One_nat_def]
      del: run_processors.simps(2))

lemma example_length: "length example_elements = 5" "(13 :: nat) < 2 ^ 64"
  by (simp_all add: example_elements_def)

theorem iterate_traversal_witness:
  "\<exists>els. bindE (it_begin example_env [2] (FieldInst 0)) (collect example_env 5) = Inr els \<and>
     map el_name els = [''a0'', ''n'', ''v'', ''[]'', ''[]'']"
proof -
  have "map el_name (map fst example_elements) = [''a0'', ''n'', ''v'', ''[]'', ''[]'']" by code_simp
  then show ?thesis
    using iterate_traversal [OF example_produces example_length(2), unfolded example_length(1)]
    by (intro exI [of _ "map fst example_elements"] conjI)
qed

theorem iterate_leftover_witness:
  "bindE (it_begin example_env [2, 0] (FieldInst 0)) (collect example_env (5 + Suc 0)) = Inl AssertFailed"
  using iterate_leftover [OF example_produces example_length(2), of 0] by (simp only: example_length)

lemma example_processors:
  "spec {Undefined ''read past the end'', Undefined ''shift'', AssertFailed, Aborted}
     (run_processors (fd_processors (example_env f)) (el, st, dat)) (\<lambda>(el', st', dat'). pops st' = pops st)"
proof (cases "f = 2")
  case True
  then have "fd_processors (example_env f) = [(DList DUnit, vec_processor)]"
    by (simp add: example_env_def mk_field_def)
  then show ?thesis
    using parseVarint_errors [of dat]
    by (cases "parseVarint dat") (auto simp: parse_def vec_processor_def parse_errors_def)
qed (simp add: example_env_def mk_field_def)

theorem increment_safe_witness:
  "spec {Undefined ''read past the end'', Undefined ''shift'', AssertFailed, Aborted}
     (increment example_env (it_start [2] (FieldInst 0))) balanced"
proof -
  have "balanced (it_start [2] (FieldInst 0))" by (simp add: balanced_def it_start_def names_owned_def)
  from increment_safe [OF example_processors this] show ?thesis by (rule spec_mono) simp
qed

end
