(* ===== verification/ResultForest.thy ===== *)
theory ResultForest
  imports Introspection
begin

text \<open>
  The shape of a result. The elements an introspection yields are the nodes of an ordered forest, each
  before the ones below it, and the length of an element's path is its depth. The consumers of a result
  (\<^verbatim>\<open>SizedResult\<close> and the exporters) rely on this shape; what they compute is stated over the forest.
\<close>

text \<open>An element, what is below it, and what is beside it.\<close>

datatype 'a forest = Bare | Grow 'a "'a forest" "'a forest"

primrec preorder :: "'a forest \<Rightarrow> 'a list" where
  "preorder Bare = []"
| "preorder (Grow e kids rest) = e # preorder kids @ preorder rest"

primrec forest_at :: "nat \<Rightarrow> ('z element_scheme) forest \<Rightarrow> bool" where
  "forest_at d Bare = True"
| "forest_at d (Grow e kids rest) =
     (length (el_type_path e) = d \<and> forest_at (Suc d) kids \<and> forest_at d rest)"

definition forest_length :: "'a forest \<Rightarrow> nat" where
  "forest_length t = length (preorder t)"

lemma forest_length_simps [simp]:
  "forest_length Bare = 0"
  "forest_length (Grow e kids rest) = Suc (forest_length kids + forest_length rest)"
  by (simp_all add: forest_length_def)

lemma forest_depth: "forest_at d t \<Longrightarrow> e \<in> set (preorder t) \<Longrightarrow> d \<le> length (el_type_path e)"
  by (induction t arbitrary: d) (auto, fastforce)

lemma forest_starts: "forest_at d t \<Longrightarrow> preorder t = e # es \<Longrightarrow> length (el_type_path e) = d"
  by (cases t) auto

lemma produces_forest_at:
  "produces env insts path x es y \<Longrightarrow> \<exists>t. map fst es = preorder t \<and> forest_at (Suc (length path)) t"
proof (induction rule: produces.induct)
  case (nil path x)
  then show ?case by (intro exI [of _ Bare]) simp
next
  case (field f path d el pushed d1 el' path' i es d2 j rest es2 x)
  have path': "length path' = Suc (length path)" "el_type_path el' = path'"
    using rename_path [of el path "fd_name (env f)" "genNameFromData (el_data el)"]
      rename_type_path [of el "path @ [fd_name (env f)]" "genNameFromData (el_data el)"]
    by (simp_all add: field.hyps(2))
  from field.IH obtain kids sibs where
    "map fst es = preorder kids" "forest_at (Suc (length path')) kids"
    "map fst es2 = preorder sibs" "forest_at (Suc (length path)) sibs" by blast
  then show ?case by (intro exI [of _ "Grow el' kids sibs"]) (simp add: path')
qed auto

text \<open>
  C6: the elements of an introspection are the nodes of a forest in preorder, the roots at depth one, and
  an element's path is as long as its depth.
\<close>

theorem result_forest:
  assumes "produces env [inst] [] (buf, 0) es ([], j)" and "j < 2 ^ 64"
  shows "\<exists>t. bindE (it_begin env buf inst) (collect env (length es)) = Inr (preorder t) \<and> forest_at 1 t"
proof -
  obtain t where "map fst es = preorder t" "forest_at 1 t"
    using produces_forest_at [OF assms(1)] by auto
  then show ?thesis using introspection_run [OF assms, of 0] by auto
qed

theorem result_forest_witness:
  "\<exists>t. bindE (it_begin example_env [2] (FieldInst 0)) (collect example_env 5) = Inr (preorder t) \<and> forest_at 1 t"
  using result_forest [OF example_produces example_length(2), unfolded example_length(1)] .

end
