(* ===== verification/SizedResult.thy ===== *)
theory SizedResult
  imports ResultForest
begin

text \<open>
  \<^verbatim>\<open>include/oi/result/SizedResult.h\<close> and \<^verbatim>\<open>SizedResult-inl.h\<close>: a view of a result that gives every
  element the size of all that is below it. The result it wraps is the list of the elements it yields,
  and an iterator of it is what is left of the list.
\<close>

section \<open>The view\<close>

record sized_element = element +
  sized_size :: u64

definition mk_sized :: "element \<Rightarrow> u64 \<Rightarrow> sized_element" where
  "mk_sized el sz = element.extend el (sized_element.fields sz)"

definition sized_inner :: "sized_element \<Rightarrow> element" where
  "sized_inner el = element.truncate el"

lemma sized_inner_mk [simp]: "sized_inner (mk_sized el sz) = el" "sized_size (mk_sized el sz) = sz"
  by (simp_all add: sized_inner_def mk_sized_def element.defs sized_element.defs)

record size_helper =
  sh_size :: u64
  sh_last_child :: u64

text \<open>An entry of the stack is the index and the depth of an element whose last child is not known yet.\<close>

type_synonym stack_entry = "u64 \<times> nat"

record sizing =
  sz_helpers :: "size_helper list"
  sz_stack :: "stack_entry list"
  sz_size :: u64
  sz_count :: u64

record sized_iterator =
  si_data :: "element list"
  si_helpers :: "size_helper list"
  si_count :: u64
  si_next :: "sized_element option"

definition set_last_child :: "u64 \<Rightarrow> u64 \<Rightarrow> size_helper list \<Rightarrow> size_helper list outcome" where
  "set_last_child i v hs =
     (if unat i < length hs then Inr (hs[unat i := (hs ! unat i)\<lparr>sh_last_child := v\<rparr>])
      else Inl (Undefined ''index out of range''))"

fun close_deeper :: "nat \<Rightarrow> u64 \<Rightarrow> stack_entry list \<Rightarrow> size_helper list \<Rightarrow>
    (stack_entry list \<times> size_helper list) outcome" where
  "close_deeper depth v [] hs = Inr ([], hs)"
| "close_deeper depth v ((i, d) # stack) hs =
     (if depth \<le> d then bindE (set_last_child i v hs) (close_deeper depth v stack)
      else Inr ((i, d) # stack, hs))"

definition count_element :: "element \<Rightarrow> sizing \<Rightarrow> sizing outcome" where
  "count_element el s =
     (let count = sz_count s + 1;
          depth = length (el_type_path el) in
      bindE (close_deeper depth (count - 1) (sz_stack s) (sz_helpers s)) (\<lambda>(stack, helpers).
      let size = sz_size s + el_exclusive_size el in
      Inr \<lparr>sz_helpers = helpers @ [\<lparr>sh_size = size, sh_last_child = -1\<rparr>],
        sz_stack = (count, depth) # stack, sz_size = size, sz_count = count\<rparr>))"

fun close_all :: "u64 \<Rightarrow> stack_entry list \<Rightarrow> size_helper list \<Rightarrow> size_helper list outcome" where
  "close_all v [] hs = Inr hs"
| "close_all v ((i, d) # stack) hs = bindE (set_last_child i v hs) (close_all v stack)"

definition sized_start :: "element list \<Rightarrow> sized_iterator outcome" where
  "sized_start els =
     bindE (for_each count_element els \<lparr>sz_helpers = [], sz_stack = [], sz_size = 0, sz_count = -1\<rparr>) (\<lambda>s.
     bindE (close_all (sz_count s) (sz_stack s) (sz_helpers s)) (\<lambda>helpers.
     Inr \<lparr>si_data = els, si_helpers = helpers, si_count = 0, si_next = None\<rparr>))"

definition sized_end :: sized_iterator where
  "sized_end = \<lparr>si_data = [], si_helpers = [], si_count = 0, si_next = None\<rparr>"

definition helper_at :: "size_helper list \<Rightarrow> u64 \<Rightarrow> size_helper outcome" where
  "helper_at hs i = (if unat i < length hs then Inr (hs ! unat i) else Inl (Undefined ''index out of range''))"

text \<open>Advancing the wrapped iterator at its end does nothing; taking its element there fails.\<close>

definition sized_increment :: "sized_iterator \<Rightarrow> sized_iterator outcome" where
  "sized_increment it =
     (let it = (if si_count it \<noteq> 0 then it\<lparr>si_data := tl (si_data it)\<rparr> else it) in
      if unat (si_count it) = length (si_helpers it) then Inr (it\<lparr>si_next := None\<rparr>)
      else
        bindE (helper_at (si_helpers it) (si_count it)) (\<lambda>h.
        bindE (helper_at (si_helpers it) (sh_last_child h)) (\<lambda>l.
        bindE (if si_count it \<noteq> 0
               then bindE (helper_at (si_helpers it) (si_count it - 1)) (\<lambda>p. Inr (sh_size l - sh_size p))
               else Inr (sh_size l)) (\<lambda>size.
        case si_data it of
          [] \<Rightarrow> Inl AssertFailed
        | el # _ \<Rightarrow> Inr (it\<lparr>si_next := Some (mk_sized el size), si_count := si_count it + 1\<rparr>)))))"

definition sized_begin :: "element list \<Rightarrow> sized_iterator outcome" where
  "sized_begin els = bindE (sized_start els) sized_increment"

definition sized_deref :: "sized_iterator \<Rightarrow> sized_element outcome" where
  "sized_deref it = (case si_next it of None \<Rightarrow> Inl (Undefined ''empty optional'') | Some el \<Rightarrow> Inr el)"

definition sized_equal :: "sized_iterator \<Rightarrow> sized_iterator \<Rightarrow> bool" where
  "sized_equal a b = (si_data a = si_data b)"

definition sized_post_increment :: "sized_iterator \<Rightarrow> (sized_iterator \<times> sized_iterator) outcome" where
  "sized_post_increment it = bindE (sized_increment it) (\<lambda>it'. Inr (it, it'))"

text \<open>A loop from an iterator to the end, of at most \<open>n\<close> rounds.\<close>

primrec sized_collect :: "nat \<Rightarrow> sized_iterator \<Rightarrow> sized_element list outcome" where
  "sized_collect 0 it = (if sized_equal it sized_end then Inr [] else Inl Diverge)"
| "sized_collect (Suc n) it = (if sized_equal it sized_end then Inr []
     else bindE (sized_deref it) (\<lambda>el. bindE (sized_increment it) (\<lambda>it.
       bindE (sized_collect n it) (\<lambda>els. Inr (el # els)))))"

section \<open>The sizes of a forest\<close>

primrec exclusive :: "element forest \<Rightarrow> u64" where
  "exclusive Bare = 0"
| "exclusive (Grow e kids rest) = el_exclusive_size e + exclusive kids + exclusive rest"

primrec sized :: "element forest \<Rightarrow> sized_element list" where
  "sized Bare = []"
| "sized (Grow e kids rest) = mk_sized e (el_exclusive_size e + exclusive kids) # sized kids @ sized rest"

text \<open>The helpers of a forest whose first element has the number \<open>i\<close>, after elements of total size \<open>s\<close>.\<close>

primrec helper_table :: "nat \<Rightarrow> u64 \<Rightarrow> element forest \<Rightarrow> size_helper list" where
  "helper_table i s Bare = []"
| "helper_table i s (Grow e kids rest) =
     \<lparr>sh_size = s + el_exclusive_size e, sh_last_child = of_nat (i + forest_length kids)\<rparr> #
     helper_table (Suc i) (s + el_exclusive_size e) kids @
     helper_table (Suc i + forest_length kids) (s + el_exclusive_size e + exclusive kids) rest"

lemma helper_table_length [simp]: "length (helper_table i s t) = forest_length t"
  by (induction t arbitrary: i s) auto

lemma sized_length [simp]: "length (sized t) = forest_length t"
  by (induction t) auto

lemma close_deeper_noop: "\<forall>(i, d') \<in> set st. d' < d \<Longrightarrow> close_deeper d v st hs = Inr (st, hs)"
  by (cases st) auto

lemma close_deeper_split:
  "d' \<le> d \<Longrightarrow> close_deeper d' v st hs = bindE (close_deeper d v st hs) (\<lambda>(st, hs). close_deeper d' v st hs)"
proof (induction st arbitrary: hs)
  case (Cons a st)
  obtain i k where a: "a = (i, k)" by (cases a)
  show ?case
  proof (cases "set_last_child i v hs")
    case (Inr hs')
    then show ?thesis using Cons.IH [OF Cons.prems, of hs'] Cons.prems a by auto
  qed (use Cons.prems a in auto)
qed simp

lemma close_all_deeper: "close_deeper 0 v st hs = bindE (close_all v st hs) (\<lambda>hs. Inr ([], hs))"
proof (induction v st hs rule: close_all.induct)
  case (2 v i d stack hs)
  then show ?case by (cases "set_last_child i v hs") auto
qed simp

lemma count_element_first:
  assumes "close_deeper d c st hs = Inr (st1, hs1)" and "length (el_type_path e) = d"
  shows "count_element e \<lparr>sz_helpers = hs, sz_stack = st, sz_size = s, sz_count = c\<rparr> =
    Inr \<lparr>sz_helpers = hs1 @ [\<lparr>sh_size = s + el_exclusive_size e, sh_last_child = -1\<rparr>],
      sz_stack = (c + 1, d) # st1, sz_size = s + el_exclusive_size e, sz_count = c + 1\<rparr>"
  using assms by (simp add: count_element_def Let_def)

lemma set_last_child_at:
  "length hs < 2 ^ 64 \<Longrightarrow> set_last_child (of_nat (length hs)) v (hs @ h # hs') = Inr (hs @ h\<lparr>sh_last_child := v\<rparr> # hs')"
  by (simp add: set_last_child_def unat_of_nat)

text \<open>
  Counting the elements of a forest, and then closing what is not above it, appends the helpers of the
  forest.
\<close>

lemma count_forest:
  assumes "forest_at d t" and "close_deeper d (of_nat (length hs1) - 1) st hs = Inr (st1, hs1)"
    and "\<forall>(i, d') \<in> set st1. d' < d" and "length hs1 + forest_length t < 2 ^ 64"
  shows "\<exists>hs' st'. for_each count_element (preorder t)
      \<lparr>sz_helpers = hs, sz_stack = st, sz_size = s, sz_count = of_nat (length hs1) - 1\<rparr> =
      Inr \<lparr>sz_helpers = hs', sz_stack = st', sz_size = s + exclusive t,
        sz_count = of_nat (length hs1 + forest_length t) - 1\<rparr> \<and>
    close_deeper d (of_nat (length hs1 + forest_length t) - 1) st' hs' =
      Inr (st1, hs1 @ helper_table (length hs1) s t)"
  using assms
proof (induction t arbitrary: d hs st hs1 st1 s)
  case Bare
  then show ?case by simp
next
  case (Grow e kids rest)
  let ?n = "length hs1" and ?s = "s + el_exclusive_size e"
  let ?h = "\<lparr>sh_size = ?s, sh_last_child = -1\<rparr>"
  let ?hs2 = "hs1 @ [?h]" and ?st2 = "(of_nat ?n, d) # st1" and ?m = "Suc ?n + forest_length kids"
  have depth: "length (el_type_path e) = d" and kids: "forest_at (Suc d) kids" and rest: "forest_at d rest"
    using Grow.prems(1) by auto
  have first: "count_element e \<lparr>sz_helpers = hs, sz_stack = st, sz_size = s, sz_count = of_nat ?n - 1\<rparr> =
      Inr \<lparr>sz_helpers = ?hs2, sz_stack = ?st2, sz_size = ?s, sz_count = of_nat (length ?hs2) - 1\<rparr>"
    using count_element_first [OF Grow.prems(2) depth] by simp
  have "close_deeper (Suc d) (of_nat (length ?hs2) - 1) ?st2 ?hs2 = Inr (?st2, ?hs2)"
    using Grow.prems(3) by (intro close_deeper_noop) auto
  then have cl: "close_deeper (Suc d) (of_nat (length ?hs2) - 1) ?st2 ?hs2 = Inr (?st2, ?hs2)" .
  have st2: "\<forall>(i, d') \<in> set ?st2. d' < Suc d" using Grow.prems(3) by auto
  have bound: "length ?hs2 + forest_length kids < 2 ^ 64" using Grow.prems(4) by simp
  have m: "length ?hs2 + forest_length kids = ?m" by simp
  obtain hs3 st3 where
    k1: "for_each count_element (preorder kids)
      \<lparr>sz_helpers = ?hs2, sz_stack = ?st2, sz_size = ?s, sz_count = of_nat (length ?hs2) - 1\<rparr> =
      Inr \<lparr>sz_helpers = hs3, sz_stack = st3, sz_size = ?s + exclusive kids, sz_count = of_nat ?m - 1\<rparr>" and
    k2: "close_deeper (Suc d) (of_nat ?m - 1) st3 hs3 =
      Inr (?st2, ?hs2 @ helper_table (length ?hs2) ?s kids)"
    using Grow.IH(1) [OF kids cl st2 bound, of ?s] unfolding m by blast
  let ?hs4 = "hs1 @ ?h\<lparr>sh_last_child := of_nat ?m - 1\<rparr> # helper_table (Suc ?n) ?s kids"
  have "close_deeper d (of_nat ?m - 1) st3 hs3 =
      close_deeper d (of_nat ?m - 1) ?st2 (?hs2 @ helper_table (length ?hs2) ?s kids)"
    using close_deeper_split [of d "Suc d" "of_nat ?m - 1" st3 hs3] k2 by simp
  also have "\<dots> = close_deeper d (of_nat ?m - 1) st1 ?hs4"
    using set_last_child_at [of hs1 "of_nat ?m - 1" ?h "helper_table (Suc ?n) ?s kids"] Grow.prems(4) by simp
  also have "\<dots> = Inr (st1, ?hs4)" by (rule close_deeper_noop [OF Grow.prems(3)])
  finally have closed: "close_deeper d (of_nat (length ?hs4) - 1) st3 hs3 = Inr (st1, ?hs4)" by simp
  have bound2: "length ?hs4 + forest_length rest < 2 ^ 64" using Grow.prems(4) by simp
  obtain hs5 st5 where
    r1: "for_each count_element (preorder rest)
      \<lparr>sz_helpers = hs3, sz_stack = st3, sz_size = ?s + exclusive kids, sz_count = of_nat (length ?hs4) - 1\<rparr> =
      Inr \<lparr>sz_helpers = hs5, sz_stack = st5, sz_size = ?s + exclusive kids + exclusive rest,
        sz_count = of_nat (length ?hs4 + forest_length rest) - 1\<rparr>" and
    r2: "close_deeper d (of_nat (length ?hs4 + forest_length rest) - 1) st5 hs5 =
      Inr (st1, ?hs4 @ helper_table (length ?hs4) (?s + exclusive kids) rest)"
    using Grow.IH(2) [OF rest closed Grow.prems(3) bound2, of "?s + exclusive kids"] by blast
  have len: "length ?hs4 = ?m" by simp
  have tot: "?m + forest_length rest = ?n + forest_length (Grow e kids rest)" by simp
  have "for_each count_element (preorder (Grow e kids rest))
      \<lparr>sz_helpers = hs, sz_stack = st, sz_size = s, sz_count = of_nat ?n - 1\<rparr> =
    Inr \<lparr>sz_helpers = hs5, sz_stack = st5, sz_size = s + exclusive (Grow e kids rest),
        sz_count = of_nat (?n + forest_length (Grow e kids rest)) - 1\<rparr>"
    using r1 unfolding preorder.simps for_each.simps for_each_append first bindE_simps k1 len tot
    by (simp add: ac_simps)
  moreover have "?hs4 @ helper_table (length ?hs4) (?s + exclusive kids) rest =
      hs1 @ helper_table ?n s (Grow e kids rest)"
    by simp
  ultimately show ?case using r2 unfolding len tot by metis
qed

lemma sized_start_forest:
  assumes "forest_at d t" and "forest_length t < 2 ^ 64"
  shows "sized_start (preorder t) =
    Inr \<lparr>si_data = preorder t, si_helpers = helper_table 0 0 t, si_count = 0, si_next = None\<rparr>"
proof -
  obtain hs' st' where
    r: "for_each count_element (preorder t) \<lparr>sz_helpers = [], sz_stack = [], sz_size = 0, sz_count = -1\<rparr> =
      Inr \<lparr>sz_helpers = hs', sz_stack = st', sz_size = exclusive t, sz_count = of_nat (forest_length t) - 1\<rparr>"
    and c: "close_deeper d (of_nat (forest_length t) - 1) st' hs' = Inr ([], helper_table 0 0 t)"
    using count_forest [of d t "[]" "[]" "[]" "[]" 0] assms by auto
  have "close_deeper 0 (of_nat (forest_length t) - 1) st' hs' = Inr ([], helper_table 0 0 t)"
    using close_deeper_split [of 0 d "of_nat (forest_length t) - 1" st' hs'] c by simp
  then have "close_all (of_nat (forest_length t) - 1) st' hs' = Inr (helper_table 0 0 t)"
    by (simp add: close_all_deeper bindE_Inr_iff)
  then show ?thesis by (simp add: sized_start_def r)
qed

section \<open>What the view yields\<close>

primrec sized_forest :: "element forest \<Rightarrow> sized_element forest" where
  "sized_forest Bare = Bare"
| "sized_forest (Grow e kids rest) =
     Grow (mk_sized e (el_exclusive_size e + exclusive kids)) (sized_forest kids) (sized_forest rest)"

lemma preorder_sized_forest [simp]: "preorder (sized_forest t) = sized t"
  by (induction t) auto

lemma sized_forest_at [simp]: "forest_at d (sized_forest t) = forest_at d t"
  by (induction t arbitrary: d) (auto simp: mk_sized_def element.defs sized_element.defs)

lemma sized_forest_Bare [simp]: "sized_forest t = Bare \<longleftrightarrow> t = Bare"
  by (cases t) auto

lemma helper_table_nil [simp]: "helper_table i s t = [] \<longleftrightarrow> t = Bare"
  by (cases t) auto

lemma table_last:
  "t \<noteq> Bare \<Longrightarrow> sh_size (last (helper_table i s t)) = s + exclusive t"
proof (induction t arbitrary: i s)
  case (Grow e kids rest)
  show ?case
  proof (cases "rest = Bare")
    case True
    then show ?thesis using Grow.IH(1) by (cases "kids = Bare") (auto simp: ac_simps)
  next
    case False
    then show ?thesis using Grow.IH(2) [OF False] by (simp add: ac_simps)
  qed
qed simp

text \<open>The size of the element with the number \<open>n\<close>, as the increment looks it up.\<close>

definition lookup_size :: "size_helper list \<Rightarrow> nat \<Rightarrow> u64" where
  "lookup_size hs n = sh_size (hs ! unat (sh_last_child (hs ! n))) - (if n = 0 then 0 else sh_size (hs ! (n - 1)))"

definition last_size :: "size_helper list \<Rightarrow> u64" where
  "last_size hs = (if hs = [] then 0 else sh_size (last hs))"

lemma lookup_sizes:
  assumes "hs = pre @ helper_table (length pre) (last_size pre) t @ post" and "length hs < 2 ^ 64"
  shows "\<forall>m < forest_length t. unat (sh_last_child (hs ! (length pre + m))) < length hs \<and>
    lookup_size hs (length pre + m) = sized_size (sized t ! m)"
  using assms
proof (induction t arbitrary: pre post)
  case Bare
  then show ?case by simp
next
  case (Grow e kids rest)
  let ?n = "length pre" and ?s = "last_size pre"
  let ?h = "\<lparr>sh_size = ?s + el_exclusive_size e, sh_last_child = of_nat (?n + forest_length kids)\<rparr>"
  let ?kt = "helper_table (Suc ?n) (?s + el_exclusive_size e) kids"
  let ?pre2 = "pre @ ?h # ?kt"
  let ?rt = "helper_table (length ?pre2) (?s + el_exclusive_size e + exclusive kids) rest"
  have hs: "hs = pre @ ?h # ?kt @ ?rt @ post" using Grow.prems(1) by simp
  have last_kids: "last_size ?pre2 = ?s + el_exclusive_size e + exclusive kids"
    using table_last [of kids "Suc ?n" "?s + el_exclusive_size e"]
    by (cases "kids = Bare") (auto simp: last_size_def)
  have kids: "\<forall>m < forest_length kids. unat (sh_last_child (hs ! (Suc ?n + m))) < length hs \<and>
      lookup_size hs (Suc ?n + m) = sized_size (sized kids ! m)"
    using Grow.IH(1) [of "pre @ [?h]" "?rt @ post"] hs Grow.prems(2) by (simp add: last_size_def)
  have rest: "\<forall>m < forest_length rest. unat (sh_last_child (hs ! (length ?pre2 + m))) < length hs \<and>
      lookup_size hs (length ?pre2 + m) = sized_size (sized rest ! m)"
    using Grow.IH(2) [of ?pre2 post] hs Grow.prems(2) last_kids by simp
  have num: "unat (of_nat (?n + forest_length kids) :: u64) = ?n + forest_length kids"
    using Grow.prems(2) hs by (subst unat_of_nat) (simp add: hs)
  have at: "hs ! ?n = ?h" by (simp add: hs)
  have first: "lookup_size hs ?n = el_exclusive_size e + exclusive kids"
  proof -
    have "hs ! (?n + forest_length kids) = last ?pre2"
      by (simp add: hs nth_append last_conv_nth) (simp add: nth_Cons nth_append split: nat.split)
    then have "sh_size (hs ! (?n + forest_length kids)) = ?s + el_exclusive_size e + exclusive kids"
      using last_kids by (simp add: last_size_def)
    moreover have "(if ?n = 0 then 0 else sh_size (hs ! (?n - 1))) = ?s"
      by (cases pre rule: rev_cases) (auto simp: hs last_size_def nth_append)
    ultimately show ?thesis by (simp only: lookup_size_def at num size_helper.simps) simp
  qed
  show ?case
  proof (intro allI impI)
    fix m assume m: "m < forest_length (Grow e kids rest)"
    consider "m = 0" | k where "m = Suc k" "k < forest_length kids"
      | k where "m = Suc (forest_length kids + k)" "k < forest_length rest"
      using m by (cases m) (auto simp: not_less dest!: le_Suc_ex, metis add_less_cancel_left leI le_Suc_ex)
    then show "unat (sh_last_child (hs ! (?n + m))) < length hs \<and>
        lookup_size hs (?n + m) = sized_size (sized (Grow e kids rest) ! m)"
    proof cases
      case 1
      have "?n + forest_length kids < length hs" by (simp add: hs)
      then show ?thesis using 1 first at num by (simp only: add_0_right size_helper.simps) simp
    next
      case (2 k)
      then show ?thesis using kids by (simp add: nth_append)
    next
      case (3 k)
      then show ?thesis using rest by (simp add: nth_append ac_simps)
    qed
  qed
qed

lemma sized_inner_list: "map sized_inner (sized t) = preorder t"
  by (induction t) auto

lemma sized_element_eq: "mk_sized (sized_inner el) (sized_size el) = el"
  by (simp add: sized_inner_def mk_sized_def element.defs sized_element.defs)

lemma sized_nth: "n < forest_length t \<Longrightarrow> mk_sized (preorder t ! n) (sized_size (sized t ! n)) = sized t ! n"
  by (metis sized_inner_list nth_map sized_element_eq sized_length)

text \<open>The iterator after \<open>n\<close> elements.\<close>

definition sized_at :: "element forest \<Rightarrow> nat \<Rightarrow> sized_iterator" where
  "sized_at t n = \<lparr>si_data = drop n (preorder t), si_helpers = helper_table 0 0 t,
     si_count = of_nat (Suc n), si_next = Some (sized t ! n)\<rparr>"

lemma sized_size_lookup:
  assumes "n < forest_length t" and "forest_length t < 2 ^ 64"
  shows "unat (sh_last_child (helper_table 0 0 t ! n)) < forest_length t"
    and "lookup_size (helper_table 0 0 t) n = sized_size (sized t ! n)"
  using lookup_sizes [of "helper_table 0 0 t" "[]" t "[]"] assms by (auto simp: last_size_def)

lemma sized_increment_from:
  assumes n: "n < forest_length t" and max: "forest_length t < 2 ^ 64"
    and count: "si_count it = of_nat n" and helpers: "si_helpers it = helper_table 0 0 t"
    and data: "(if n = 0 then si_data it else tl (si_data it)) = drop n (preorder t)"
  shows "sized_increment it = Inr (sized_at t n)"
proof -
  have num: "unat (of_nat n :: u64) = n" using n max by (simp add: unat_of_nat)
  then have zero: "(of_nat n :: u64) = 0 \<longleftrightarrow> n = 0" by (metis unat_eq_zero)
  have pred: "unat (of_nat n - 1 :: u64) = n - 1" if "n \<noteq> 0"
    using num that by (metis zero unat_minus_one)
  obtain x els where drop: "drop n (preorder t) = x # els"
    and el: "mk_sized x (sized_size (sized t ! n)) = sized t ! n"
    using n Cons_nth_drop_Suc [of n "preorder t"] sized_nth [OF n] by (metis forest_length_def)
  note look = sized_size_lookup [OF n max]
  show ?thesis
  proof (cases "n = 0")
    case True
    then show ?thesis
      using n data count helpers look drop el
      by (cases it) (simp add: sized_increment_def helper_at_def lookup_size_def sized_at_def)
  next
    case False
    then have size: "sh_size (helper_table 0 0 t ! unat (sh_last_child (helper_table 0 0 t ! n))) -
        sh_size (helper_table 0 0 t ! (n - 1)) = sized_size (sized t ! n)"
      using look(2) by (simp add: lookup_size_def)
    show ?thesis
      using False n data count helpers look(1) drop el num pred zero size
      by (cases it) (simp add: sized_increment_def helper_at_def sized_at_def ac_simps)
  qed
qed

lemma sized_increment_end:
  assumes "forest_length t < 2 ^ 64"
  shows "\<exists>it'. sized_increment \<lparr>si_data = drop n (preorder t), si_helpers = helper_table 0 0 t,
      si_count = of_nat (forest_length t), si_next = e\<rparr> = Inr it' \<and>
    si_data it' = (if forest_length t = 0 then drop n (preorder t) else drop (Suc n) (preorder t))"
proof -
  have num: "unat (of_nat (forest_length t) :: u64) = forest_length t" using assms by (simp add: unat_of_nat)
  then have "(of_nat (forest_length t) :: u64) = 0 \<longleftrightarrow> forest_length t = 0" by (metis unat_eq_zero)
  then show ?thesis by (simp add: sized_increment_def num drop_Suc tl_drop)
qed

lemma sized_collect_from:
  assumes "forest_length t < 2 ^ 64" and "n < forest_length t"
  shows "sized_collect (forest_length t - n) (sized_at t n) = Inr (drop n (sized t))"
  using assms(2)
proof (induction "forest_length t - n" arbitrary: n)
  case (Suc k)
  have more: "drop n (preorder t) \<noteq> []" using Suc.prems by (simp add: forest_length_def)
  have el: "drop n (sized t) = sized t ! n # drop (Suc n) (sized t)"
    using Suc.prems by (simp add: Cons_nth_drop_Suc)
  have "\<exists>it'. sized_increment (sized_at t n) = Inr it' \<and> sized_collect k it' = Inr (drop (Suc n) (sized t))"
  proof (cases "Suc n < forest_length t")
    case True
    have "sized_increment (sized_at t n) = Inr (sized_at t (Suc n))"
      by (rule sized_increment_from) (use True assms(1) in \<open>simp_all add: sized_at_def drop_Suc tl_drop\<close>)
    moreover have "k = forest_length t - Suc n" using Suc.hyps(2) by simp
    ultimately show ?thesis using Suc.hyps(1) [of "Suc n"] True by simp
  next
    case False
    then have n: "Suc n = forest_length t" using Suc.prems by simp
    obtain it' where it': "sized_increment (sized_at t n) = Inr it'" "si_data it' = drop (Suc n) (preorder t)"
      using sized_increment_end [OF assms(1), of n "Some (sized t ! n)"] n by (auto simp: sized_at_def)
    moreover have "drop (Suc n) (preorder t) = []" using n by (simp add: forest_length_def)
    ultimately show ?thesis using n by (cases k) (simp_all add: sized_equal_def sized_end_def)
  qed
  then show ?case
    using Suc.hyps(2) more el
    by (auto simp: sized_equal_def sized_end_def sized_deref_def sized_at_def simp flip: Suc.hyps(2))
qed simp

lemma sized_loop:
  assumes "forest_at 1 t" and "length (preorder t) < 2 ^ 64"
  shows "bindE (sized_begin (preorder t)) (sized_collect (length (preorder t))) = Inr (sized t)"
proof -
  have max: "forest_length t < 2 ^ 64" using assms(2) by (simp add: forest_length_def)
  note start = sized_start_forest [OF assms(1) max]
  show ?thesis
  proof (cases "forest_length t = 0")
    case True
    then have "t = Bare" by (cases t) auto
    then show ?thesis
      by (simp add: sized_begin_def sized_start_def sized_increment_def sized_equal_def sized_end_def)
  next
    case False
    have "sized_begin (preorder t) = Inr (sized_at t 0)"
      unfolding sized_begin_def start bindE_simps
      by (rule sized_increment_from) (use False max in simp_all)
    then show ?thesis
      using sized_collect_from [OF max, of 0] False by (simp add: forest_length_def)
  qed
qed

text \<open>
  C17: the loop over the view yields the elements of the result in order, each with the sum of the
  exclusive sizes of itself and of everything below it, and ends.
\<close>

theorem sized_result:
  assumes "forest_at 1 t" and "length (preorder t) < 2 ^ 64"
  shows "bindE (sized_begin (preorder t)) (sized_collect (length (preorder t))) = Inr (sized t)"
  using assms by (rule sized_loop)

definition example_forest :: "element forest" where
  "example_forest = Grow (example_element 32 ''a0'' [''a0''] [''S''] False)
     (Grow (example_element 4 ''n'' [''a0'', ''n''] [''int32_t''] True) Bare Bare) Bare"

theorem sized_result_witness:
  "\<exists>els. bindE (sized_begin (preorder example_forest)) (sized_collect 2) = Inr els \<and> map sized_size els = [36, 4]"
proof -
  have "forest_at 1 example_forest" "length (preorder example_forest) < 2 ^ 64" "length (preorder example_forest) = 2"
    "map sized_size (sized example_forest) = [36, 4]"
    by (simp_all add: example_forest_def example_element_def field_element_def mk_field_def)
  then show ?thesis using sized_result [of example_forest] by metis
qed

end
