(* ===== verification/Exporters.thy ===== *)
theory Exporters
  imports SizedResult
begin

text \<open>
  The exporters of a result: \<^verbatim>\<open>CSV\<close> (\<^verbatim>\<open>include/oi/exporters/CSV.h\<close>, \<^verbatim>\<open>oi/exporters/CSV.cpp\<close>) and
  \<^verbatim>\<open>Json\<close> (\<^verbatim>\<open>include/oi/exporters/Json.h\<close>). The output stream is the string written so far, and an
  iterator of a result is the list of the elements left.
\<close>

section \<open>CSV\<close>

definition kCRLF :: string where "kCRLF = [CHR 0x0D, CHR 0x0A]"
definition kDelimiter :: string where "kDelimiter = '',''"
definition kQuote :: char where "kQuote = CHR 0x22"
definition kEscapedQuote :: string where "kEscapedQuote = [CHR 0x5C, CHR 0x22]"
definition kListDelimiter :: string where "kListDelimiter = '';''"

definition kColumns :: "string list" where
  "kColumns = [''id'', ''name'', ''typePath'', ''typeNames'', ''staticSize'', ''exclusiveSize'', ''pointer'',
     ''length'', ''capacity'', ''is_set'', ''parent_id'']"

text \<open>The stack of the identifiers of the parents has its top first.\<close>

record csv =
  csv_id :: u64
  csv_parents :: "u64 list"
  csv_out :: string

definition mk_csv :: csv where
  "mk_csv = \<lparr>csv_id = 0, csv_parents = [0], csv_out = []\<rparr>"

text \<open>\<^verbatim>\<open>std::string::find\<close> of a character, from a position.\<close>

definition find_from :: "char \<Rightarrow> string \<Rightarrow> nat \<Rightarrow> nat option" where
  "find_from c s pos =
     (let k = pos + length (takeWhile (\<lambda>x. x \<noteq> c) (drop pos s)) in if k < length s then Some k else None)"

lemma find_from_Some: "find_from c s pos = Some i \<Longrightarrow> pos \<le> i \<and> i < length s"
  by (auto simp: find_from_def Let_def split: if_splits)

function escape_loop :: "string \<Rightarrow> nat \<Rightarrow> string" where
  "escape_loop s pos = (case find_from kQuote s pos of
      None \<Rightarrow> s
    | Some i \<Rightarrow> escape_loop (take i s @ kEscapedQuote @ drop (Suc i) s) (i + length kEscapedQuote))"
  by pat_completeness auto
termination
  by (relation "measure (\<lambda>(s, pos). length s - pos)") (auto dest: find_from_Some simp: kEscapedQuote_def)

declare escape_loop.simps [simp del]

definition escapeField :: "string \<Rightarrow> string" where
  "escapeField s = [kQuote] @ escape_loop s 0 @ [kQuote]"

fun join_with :: "string \<Rightarrow> string list \<Rightarrow> string" where
  "join_with sep [] = []"
| "join_with sep [x] = x"
| "join_with sep (x # y # xs) = x @ sep @ join_with sep (y # xs)"

definition escapeField_list :: "string list \<Rightarrow> string" where
  "escapeField_list xs = escapeField (join_with kListDelimiter xs)"

definition printHeader :: "csv \<Rightarrow> csv" where
  "printHeader c = c\<lparr>csv_out := csv_out c @ join_with kDelimiter kColumns @ kCRLF\<rparr>"

text \<open>What is printed of an element between its identifier and that of its parent.\<close>

definition csv_fields :: "'z element_scheme \<Rightarrow> string" where
  "csv_fields el =
     escapeField (el_name el) @ kDelimiter @
     escapeField_list (el_type_path el) @ kDelimiter @
     escapeField_list (el_type_names el) @ kDelimiter @
     dec_u64 (el_static_size el) @ kDelimiter @
     dec_u64 (el_exclusive_size el) @ kDelimiter @
     (case el_pointer el of None \<Rightarrow> kDelimiter | Some p \<Rightarrow> dec_u64 p @ kDelimiter) @
     (case el_container_stats el of None \<Rightarrow> kDelimiter @ kDelimiter
      | Some cs \<Rightarrow> dec_u64 (cs_length cs) @ kDelimiter @ dec_u64 (cs_capacity cs) @ kDelimiter) @
     (case el_is_set_stats el of None \<Rightarrow> kDelimiter
      | Some b \<Rightarrow> (if b then ''1'' else ''0'') @ kDelimiter)"

fun drop_parents :: "nat \<Rightarrow> u64 list \<Rightarrow> u64 list" where
  "drop_parents d [] = []"
| "drop_parents d (p # ps) = (if d < length (p # ps) then drop_parents d ps else p # ps)"

definition csv_row :: "'z element_scheme \<Rightarrow> csv \<Rightarrow> csv outcome" where
  "csv_row el c =
     (let i = csv_id c + 1;
          parents = drop_parents (length (el_type_path el)) (csv_parents c) in
      case parents of
        [] \<Rightarrow> Inl (Undefined ''back of an empty vector'')
      | p # _ \<Rightarrow> Inr \<lparr>csv_id = i, csv_parents = i # parents,
          csv_out = csv_out c @ dec_u64 i @ kDelimiter @ csv_fields el @ dec_u64 p @ kCRLF\<rparr>)"

definition csv_print :: "('z element_scheme) list \<Rightarrow> csv \<Rightarrow> csv outcome" where
  "csv_print els c =
     (let c = printHeader c in
      for_each csv_row els (c\<lparr>csv_parents := (case csv_parents c of [] \<Rightarrow> [0] | ps \<Rightarrow> [last ps])\<rparr>))"

section \<open>What the CSV exporter prints\<close>

definition escape_char :: "char \<Rightarrow> string" where
  "escape_char c = (if c = kQuote then kEscapedQuote else [c])"

lemma find_from_append: "find_from c (pre @ s) (length pre) =
    (if c \<in> set s then Some (length pre + length (takeWhile (\<lambda>x. x \<noteq> c) s)) else None)"
proof -
  have "length (takeWhile (\<lambda>x. x \<noteq> c) s) < length s \<longleftrightarrow> c \<in> set s"
    by (induction s) auto
  then show ?thesis by (simp add: find_from_def)
qed

lemma escape_loop_append: "escape_loop (pre @ s) (length pre) = pre @ concat (map escape_char s)"
proof (induction "length s" arbitrary: pre s rule: less_induct)
  case less
  show ?case
  proof (cases "kQuote \<in> set s")
    case False
    then have "concat (map escape_char s) = s"
      by (induction s) (auto simp: escape_char_def)
    then show ?thesis using False by (subst escape_loop.simps) (simp add: find_from_append)
  next
    case True
    then obtain a b where s: "s = a @ kQuote # b" and a: "kQuote \<notin> set a" by (metis split_list_first)
    have first: "takeWhile (\<lambda>x. x \<noteq> kQuote) s = a" using s a by (induction a arbitrary: s) auto
    have esc: "concat (map escape_char a) = a" using a by (induction a) (auto simp: escape_char_def)
    have "escape_loop (pre @ s) (length pre) =
        escape_loop ((pre @ a @ kEscapedQuote) @ b) (length (pre @ a @ kEscapedQuote))"
      using True first by (subst escape_loop.simps) (simp add: find_from_append s add.assoc)
    also have "\<dots> = (pre @ a @ kEscapedQuote) @ concat (map escape_char b)"
      by (rule less) (simp add: s)
    also have "\<dots> = pre @ concat (map escape_char s)"
      by (simp add: s esc escape_char_def)
    finally show ?thesis .
  qed
qed

text \<open>
  escaping a field puts quotes around it and a backslash before each quote in it, and leaves the rest
  as it is.
\<close>

theorem escapeField_quotes:
  "escapeField s = [kQuote] @ concat (map (\<lambda>c. if c = kQuote then kEscapedQuote else [c]) s) @ [kQuote]"
  using escape_loop_append [of "[]" s] by (simp add: escapeField_def escape_char_def [abs_def])

lemma drop_parents_drop: "drop_parents d ps = drop (length ps - d) ps"
proof (induction ps)
  case (Cons p ps)
  then show ?case by (cases "d < length (p # ps)") (auto simp: Suc_diff_le)
qed simp

text \<open>The rows of a forest whose elements have the identifiers after \<open>i\<close>, below an element \<open>p\<close>.\<close>

primrec csv_rows :: "u64 \<Rightarrow> u64 \<Rightarrow> ('z element_scheme) forest \<Rightarrow> string" where
  "csv_rows p i Bare = []"
| "csv_rows p i (Grow e kids rest) =
     dec_u64 (i + 1) @ kDelimiter @ csv_fields e @ dec_u64 p @ kCRLF @
     csv_rows (i + 1) (i + 1) kids @
     csv_rows p (i + 1 + of_nat (forest_length kids)) rest"

lemma csv_rows_forest:
  assumes "forest_at d t" and "drop_parents d st = p # ps" and "length (p # ps) = d"
  shows "\<exists>st'. for_each csv_row (preorder t) \<lparr>csv_id = i, csv_parents = st, csv_out = out\<rparr> =
      Inr \<lparr>csv_id = i + of_nat (forest_length t), csv_parents = st', csv_out = out @ csv_rows p i t\<rparr> \<and>
    drop_parents d st' = p # ps"
  using assms
proof (induction t arbitrary: d st p ps i out)
  case Bare
  then show ?case by simp
next
  case (Grow e kids rest)
  have d: "length (el_type_path e) = d" "forest_at (Suc d) kids" "forest_at d rest" using Grow.prems(1) by auto
  let ?out1 = "out @ dec_u64 (i + 1) @ kDelimiter @ csv_fields e @ dec_u64 p @ kCRLF"
  have first: "csv_row e \<lparr>csv_id = i, csv_parents = st, csv_out = out\<rparr> =
      Inr \<lparr>csv_id = i + 1, csv_parents = (i + 1) # p # ps, csv_out = ?out1\<rparr>"
    using Grow.prems(2) d(1) by (simp add: csv_row_def Let_def)
  have "drop_parents (Suc d) ((i + 1) # p # ps) = (i + 1) # p # ps" using Grow.prems(3) by simp
  from Grow.IH(1) [OF d(2) this, of "i + 1" ?out1] Grow.prems(3) obtain st2 where
    k1: "for_each csv_row (preorder kids) \<lparr>csv_id = i + 1, csv_parents = (i + 1) # p # ps, csv_out = ?out1\<rparr> =
      Inr \<lparr>csv_id = i + 1 + of_nat (forest_length kids), csv_parents = st2,
        csv_out = ?out1 @ csv_rows (i + 1) (i + 1) kids\<rparr>"
    and k2: "drop_parents (Suc d) st2 = (i + 1) # p # ps" by auto
  have len: "length st2 - Suc d + length ((i + 1) # p # ps) = length st2"
    using k2 Grow.prems(3) unfolding drop_parents_drop by (metis length_drop diff_diff_cancel diff_le_self le_add_diff_inverse2 add.commute)
  have "drop_parents d st2 = p # ps"
  proof -
    have "length st2 - d = Suc (length st2 - Suc d)" using len Grow.prems(3) by simp
    then show ?thesis using k2 by (simp add: drop_parents_drop drop_Suc flip: tl_drop)
  qed
  from Grow.IH(2) [OF d(3) this Grow.prems(3), of "i + 1 + of_nat (forest_length kids)"
      "?out1 @ csv_rows (i + 1) (i + 1) kids"] obtain st3 where
    "for_each csv_row (preorder rest) \<lparr>csv_id = i + 1 + of_nat (forest_length kids), csv_parents = st2,
        csv_out = ?out1 @ csv_rows (i + 1) (i + 1) kids\<rparr> =
      Inr \<lparr>csv_id = i + 1 + of_nat (forest_length kids) + of_nat (forest_length rest), csv_parents = st3,
        csv_out = (?out1 @ csv_rows (i + 1) (i + 1) kids) @ csv_rows p (i + 1 + of_nat (forest_length kids)) rest\<rparr>"
    "drop_parents d st3 = p # ps" by auto
  then show ?case using first k1 by (simp add: ac_simps)
qed

text \<open>
  C30: the exporter prints the header and a row for each element of a result, in order, numbered from the
  last identifier it gave, with the identifier of the element above it, or 0 for a root; and it can be
  used again.
\<close>

theorem csv_print_rows:
  assumes "forest_at 1 t" and "csv_parents c \<noteq> []" and "last (csv_parents c) = 0"
  shows "\<exists>ps. csv_print (preorder t) c = Inr \<lparr>csv_id = csv_id c + of_nat (length (preorder t)), csv_parents = ps,
      csv_out = csv_out c @ join_with kDelimiter kColumns @ kCRLF @ csv_rows 0 (csv_id c) t\<rparr> \<and>
    ps \<noteq> [] \<and> last ps = 0"
proof -
  obtain ps where r: "for_each csv_row (preorder t) \<lparr>csv_id = csv_id c, csv_parents = [0],
      csv_out = csv_out (printHeader c)\<rparr> =
    Inr \<lparr>csv_id = csv_id c + of_nat (forest_length t), csv_parents = ps,
      csv_out = csv_out (printHeader c) @ csv_rows 0 (csv_id c) t\<rparr>" and ps: "drop_parents 1 ps = [0]"
    using csv_rows_forest [OF assms(1), of "[0]" 0 "[]"] by auto
  have "ps \<noteq> []" "last ps = 0" using ps by (auto simp: drop_parents_drop) (metis last_drop last.simps length_drop length_0_conv list.distinct(1) not_less drop_all)
  moreover have "csv_print (preorder t) c = Inr \<lparr>csv_id = csv_id c + of_nat (forest_length t), csv_parents = ps,
      csv_out = csv_out (printHeader c) @ csv_rows 0 (csv_id c) t\<rparr>"
    using assms(2,3) r by (cases c) (auto simp: csv_print_def Let_def printHeader_def neq_Nil_conv)
  ultimately show ?thesis by (auto simp: printHeader_def forest_length_def)
qed

theorem csv_print_rows_witness:
  "\<exists>c. csv_print (preorder example_forest) mk_csv = Inr c \<and> csv_id c = 2"
proof -
  have "forest_at 1 example_forest" "length (preorder example_forest) = 2"
    by (simp_all add: example_forest_def example_element_def field_element_def mk_field_def)
  then show ?thesis using csv_print_rows [of example_forest mk_csv] by (auto simp: mk_csv_def)
qed

section \<open>Json\<close>

text \<open>
  The printing functions return what they write; \<open>pretty\<close> is the flag of the exporter. A quote is
  \<open>json_quote\<close> and a line end \<open>json_lf\<close>.
\<close>

definition json_quote :: string where "json_quote = [CHR 0x22]"
definition json_lf :: string where "json_lf = [CHR 0x0A]"

definition json_tab :: "bool \<Rightarrow> string" where
  "json_tab pretty = (if pretty then ''  '' else '''')"

definition json_space :: "bool \<Rightarrow> string" where
  "json_space pretty = (if pretty then '' '' else '''')"

definition json_endl :: "bool \<Rightarrow> string" where
  "json_endl pretty = (if pretty then json_lf else '''')"

definition makeIndent :: "nat \<Rightarrow> string" where
  "makeIndent depth = replicate ((max depth 1 - 1) * 4) (CHR '' '')"

definition printStringField :: "bool \<Rightarrow> string \<Rightarrow> string \<Rightarrow> string \<Rightarrow> string" where
  "printStringField pretty name val indent =
     json_tab pretty @ json_quote @ name @ json_quote @ '':'' @ json_space pretty @ json_quote @ val @
     json_quote @ '','' @ json_endl pretty @ indent"

definition printBoolField :: "bool \<Rightarrow> string \<Rightarrow> bool \<Rightarrow> string \<Rightarrow> string" where
  "printBoolField pretty name val indent =
     json_tab pretty @ json_quote @ name @ json_quote @ '':'' @ json_space pretty @
     (if val then ''true'' else ''false'') @ '','' @ json_endl pretty @ indent"

definition printUnsignedField :: "bool \<Rightarrow> string \<Rightarrow> u64 \<Rightarrow> string \<Rightarrow> string" where
  "printUnsignedField pretty name val indent =
     json_tab pretty @ json_quote @ name @ json_quote @ '':'' @ json_space pretty @ dec_u64 val @
     '','' @ json_endl pretty @ indent"

definition printPointerField :: "bool \<Rightarrow> string \<Rightarrow> u64 \<Rightarrow> string \<Rightarrow> string" where
  "printPointerField pretty name val indent =
     json_tab pretty @ json_quote @ name @ json_quote @ '':'' @ json_space pretty @ json_quote @ ''0x'' @
     hex (unat val) @ json_quote @ '','' @ json_endl pretty @ indent"

fun json_list_items :: "bool \<Rightarrow> bool \<Rightarrow> string list \<Rightarrow> string" where
  "json_list_items pretty first [] = ''''"
| "json_list_items pretty first (x # xs) =
     (if first then '''' else '','' @ json_space pretty) @ json_quote @ x @ json_quote @
     json_list_items pretty False xs"

definition printListField :: "bool \<Rightarrow> string \<Rightarrow> string list \<Rightarrow> string \<Rightarrow> string" where
  "printListField pretty name items indent =
     json_tab pretty @ json_quote @ name @ json_quote @ '':'' @ json_space pretty @ ''['' @
     json_list_items pretty True items @ ''],'' @ json_endl pretty @ indent"

definition printFields :: "bool \<Rightarrow> 'z element_scheme \<Rightarrow> string \<Rightarrow> string" where
  "printFields pretty el indent =
     printStringField pretty ''name'' (el_name el) indent @
     printListField pretty ''typePath'' (el_type_path el) indent @
     printListField pretty ''typeNames'' (el_type_names el) indent @
     printUnsignedField pretty ''staticSize'' (el_static_size el) indent @
     printUnsignedField pretty ''exclusiveSize'' (el_exclusive_size el) indent @
     (case el_pointer el of None \<Rightarrow> '''' | Some p \<Rightarrow> printUnsignedField pretty ''pointer'' p indent) @
     (case el_data el of
        ScalarData n \<Rightarrow> printUnsignedField pretty ''data'' n indent
      | PointerData p \<Rightarrow> printPointerField pretty ''data'' p indent
      | StringData s \<Rightarrow> printStringField pretty ''data'' s indent
      | NoData \<Rightarrow> '''') @
     (case el_container_stats el of None \<Rightarrow> ''''
      | Some cs \<Rightarrow> printUnsignedField pretty ''length'' (cs_length cs) indent @
          printUnsignedField pretty ''capacity'' (cs_capacity cs) indent) @
     (case el_is_set_stats el of None \<Rightarrow> '''' | Some b \<Rightarrow> printBoolField pretty ''is_set'' b indent) @
     printBoolField pretty ''is_primitive'' (el_is_primitive el) indent"

definition printFields_sized :: "bool \<Rightarrow> sized_element \<Rightarrow> string \<Rightarrow> string" where
  "printFields_sized pretty el indent =
     printUnsignedField pretty ''size'' (sized_size el) indent @ printFields pretty (sized_inner el) indent"

text \<open>
  \<^verbatim>\<open>print\<close> is a template over the iterator: \<open>pf\<close> prints the fields of its elements. At depth 0 the
  indentation of the closing bracket would be longer than a string can be. \<open>n\<close> bounds the number of
  nested calls and rounds.
\<close>

definition lastIndent :: "bool \<Rightarrow> nat \<Rightarrow> string outcome" where
  "lastIndent pretty depth =
     (if \<not> pretty then Inr '''' else if depth = 0 then Inl (Throw ''std::length_error'') else Inr (makeIndent (depth - 1)))"

fun json_print :: "('z element_scheme \<Rightarrow> string \<Rightarrow> string) \<Rightarrow> bool \<Rightarrow> nat \<Rightarrow> ('z element_scheme) list \<Rightarrow>
      (string \<times> ('z element_scheme) list) outcome"
  and json_members :: "('z element_scheme \<Rightarrow> string \<Rightarrow> string) \<Rightarrow> bool \<Rightarrow> nat \<Rightarrow> nat \<Rightarrow> bool \<Rightarrow>
      ('z element_scheme) list \<Rightarrow> (string \<times> ('z element_scheme) list) outcome" where
  "json_print pf pretty 0 els = Inl Diverge"
| "json_print pf pretty (Suc n) els =
     (case els of [] \<Rightarrow> Inl (Undefined ''no element'') | el # _ \<Rightarrow>
      let depth = length (el_type_path el);
          thisIndent = (if pretty then makeIndent depth else '''') in
      bindE (lastIndent pretty depth) (\<lambda>lastIndent.
      bindE (json_members pf pretty n depth True els) (\<lambda>(s, els).
      Inr (''['' @ json_endl pretty @ thisIndent @ s @
        (if depth = 1 then json_endl pretty @ '']'' @ json_endl pretty
         else json_endl pretty @ lastIndent @ json_tab pretty @ '']'' @ json_endl pretty), els))))"
| "json_members pf pretty 0 depth first els = Inl Diverge"
| "json_members pf pretty (Suc n) depth first els =
     (case els of [] \<Rightarrow> Inr ('''', els) | el # rest \<Rightarrow>
      if length (el_type_path el) < depth then Inr ('''', els)
      else
        let thisIndent = (if pretty then makeIndent depth else '''') in
        bindE (if rest \<noteq> [] \<and> depth < length (el_type_path (hd rest)) then json_print pf pretty n rest
               else Inr (''[]'' @ json_endl pretty, rest)) (\<lambda>(kids, rest).
        bindE (json_members pf pretty n depth False rest) (\<lambda>(s, rest).
        Inr ((if first then '''' else '','' @ json_endl pretty @ thisIndent) @
          ''{'' @ json_endl pretty @ thisIndent @ pf el thisIndent @
          json_tab pretty @ json_quote @ ''members'' @ json_quote @ '':'' @ json_space pretty @ kids @
          thisIndent @ ''}'' @ s, rest))))"

section \<open>What the Json exporter prints\<close>

text \<open>The text of a forest at a depth: a list of objects, each with the list of the objects below it.\<close>

definition json_brackets :: "bool \<Rightarrow> nat \<Rightarrow> string \<Rightarrow> string" where
  "json_brackets pretty depth s =
     ''['' @ json_endl pretty @ (if pretty then makeIndent depth else '''') @ s @ json_endl pretty @
     (if depth = 1 then '''' else (if pretty then makeIndent (depth - 1) else '''') @ json_tab pretty) @
     '']'' @ json_endl pretty"

primrec json_objects :: "('z element_scheme \<Rightarrow> string \<Rightarrow> string) \<Rightarrow> bool \<Rightarrow> nat \<Rightarrow> bool \<Rightarrow>
    ('z element_scheme) forest \<Rightarrow> string" where
  "json_objects pf pretty depth first Bare = ''''"
| "json_objects pf pretty depth first (Grow e kids rest) =
     (let indent = (if pretty then makeIndent depth else '''') in
      (if first then '''' else '','' @ json_endl pretty @ indent) @
      ''{'' @ json_endl pretty @ indent @ pf e indent @
      json_tab pretty @ json_quote @ ''members'' @ json_quote @ '':'' @ json_space pretty @
      (if kids = Bare then ''[]'' @ json_endl pretty
       else json_brackets pretty (Suc depth) (json_objects pf pretty (Suc depth) True kids)) @
      indent @ ''}'' @ json_objects pf pretty depth False rest)"

text \<open>What follows a forest at a depth: nothing, or an element above it.\<close>

definition ends_at :: "nat \<Rightarrow> ('z element_scheme) list \<Rightarrow> bool" where
  "ends_at depth els \<longleftrightarrow> (els = [] \<or> length (el_type_path (hd els)) < depth)"

lemma json_print_members:
  assumes "preorder t = el # els" and "forest_at d t" and "d \<noteq> 0"
    and "json_members pf pretty n d True (preorder t @ tail) = Inr (json_objects pf pretty d True t, tail)"
  shows "json_print pf pretty (Suc n) (preorder t @ tail) =
    Inr (json_brackets pretty d (json_objects pf pretty d True t), tail)"
proof -
  have "length (el_type_path el) = d" using forest_starts assms(1,2) by blast
  then show ?thesis using assms by (simp add: lastIndent_def json_brackets_def Let_def)
qed

lemma json_members_forest:
  assumes "forest_at d t" and "d \<noteq> 0" and "ends_at d tail" and "2 * forest_length t < n"
  shows "json_members pf pretty n d first (preorder t @ tail) = Inr (json_objects pf pretty d first t, tail)"
  using assms
proof (induction t arbitrary: d n first tail)
  case Bare
  then obtain m where "n = Suc m" by (cases n) auto
  then show ?case using Bare.prems(3) by (cases "tail") (auto simp: ends_at_def)
next
  case (Grow e kids rest)
  obtain m where n: "n = Suc (Suc m)" using Grow.prems(4) by (cases n; cases "n - 1") auto
  have d: "length (el_type_path e) = d" "forest_at (Suc d) kids" "forest_at d rest" using Grow.prems(1) by auto
  let ?rest = "preorder rest @ tail"
  have top: "ends_at (Suc d) ?rest"
    using Grow.prems(3) d(3) by (cases rest) (auto simp: ends_at_def)
  have kids: "(if preorder kids @ ?rest \<noteq> [] \<and> d < length (el_type_path (hd (preorder kids @ ?rest)))
      then json_print pf pretty (Suc m) (preorder kids @ ?rest)
      else Inr (''[]'' @ json_endl pretty, preorder kids @ ?rest)) =
    Inr (if kids = Bare then ''[]'' @ json_endl pretty
       else json_brackets pretty (Suc d) (json_objects pf pretty (Suc d) True kids), ?rest)"
  proof (cases kids)
    case Bare
    then show ?thesis using top by (auto simp: ends_at_def)
  next
    case (Grow e' kids' rest')
    have "json_members pf pretty m (Suc d) True (preorder kids @ ?rest) =
        Inr (json_objects pf pretty (Suc d) True kids, ?rest)"
      using Grow.prems(4) n by (intro Grow.IH(1) d(2) top) auto
    then have "json_print pf pretty (Suc m) (preorder kids @ ?rest) =
        Inr (json_brackets pretty (Suc d) (json_objects pf pretty (Suc d) True kids), ?rest)"
      using Grow d(2) by (intro json_print_members) auto
    moreover have "length (el_type_path (hd (preorder kids @ ?rest))) = Suc d" using Grow d(2) by simp
    ultimately show ?thesis using Grow by simp
  qed
  have "json_members pf pretty (Suc m) d False ?rest = Inr (json_objects pf pretty d False rest, tail)"
    using Grow.prems n by (intro Grow.IH(2) d(3)) auto
  then show ?case using kids d(1) n by (simp add: Let_def)
qed

lemma json_print_forest:
  assumes "forest_at 1 t" and "t \<noteq> Bare" and "2 * length (preorder t) + 2 \<le> n"
  shows "json_print pf pretty n (preorder t) =
    Inr (json_brackets pretty 1 (json_objects pf pretty 1 True t), [])"
proof -
  obtain m where n: "n = Suc m" using assms(3) by (cases n) auto
  obtain el els where "preorder t = el # els" using assms(2) by (cases t) auto
  moreover have "json_members pf pretty m 1 True (preorder t @ []) = Inr (json_objects pf pretty 1 True t, [])"
    using assms n by (intro json_members_forest) (auto simp: ends_at_def forest_length_def)
  ultimately show ?thesis using json_print_members [of t el els 1 pf pretty m "[]"] assms(1) n by simp
qed

text \<open>
  C18: of a result that is not empty, the exporter prints the text of its forest and reads all of it: every
  element is an object in the list of the members of the element above it, in order.
\<close>

theorem json_print_result:
  assumes "forest_at 1 t" and "t \<noteq> Bare" and "2 * length (preorder t) + 2 \<le> n"
  shows "json_print (printFields pretty) pretty n (preorder t) =
    Inr (json_brackets pretty 1 (json_objects (printFields pretty) pretty 1 True t), [])"
  using assms by (rule json_print_forest)

lemma example_forest_ok:
  "forest_at 1 example_forest" "example_forest \<noteq> Bare" "length (preorder example_forest) = 2"
  by (simp_all add: example_forest_def example_element_def field_element_def mk_field_def)

theorem json_print_result_witness:
  "json_print (printFields False) False 6 (preorder example_forest) =
    Inr (json_brackets False 1 (json_objects (printFields False) False 1 True example_forest), [])"
  by (rule json_print_result [OF example_forest_ok(1,2)]) (simp add: example_forest_ok(3))

text \<open>
  Printing the sized view of a result prints the same forest, each object led by the sum of the
  exclusive sizes of its element and of everything below it.
\<close>

theorem json_print_sized:
  assumes "forest_at 1 t" and "t \<noteq> Bare" and "length (preorder t) < 2 ^ 64" and "2 * length (preorder t) + 2 \<le> n"
  shows "bindE (bindE (sized_begin (preorder t)) (sized_collect (length (preorder t))))
      (json_print (printFields_sized pretty) pretty n) =
    Inr (json_brackets pretty 1 (json_objects (printFields_sized pretty) pretty 1 True (sized_forest t)), [])"
proof -
  have "json_print (printFields_sized pretty) pretty n (preorder (sized_forest t)) =
      Inr (json_brackets pretty 1 (json_objects (printFields_sized pretty) pretty 1 True (sized_forest t)), [])"
    using assms by (intro json_print_forest) (simp_all add: forest_length_def)
  then show ?thesis using sized_loop [OF assms(1,3)] by simp
qed

theorem json_print_sized_witness:
  "bindE (bindE (sized_begin (preorder example_forest)) (sized_collect 2)) (json_print (printFields_sized True) True 6) =
    Inr (json_brackets True 1 (json_objects (printFields_sized True) True 1 True (sized_forest example_forest)), [])"
  by (rule json_print_sized [OF example_forest_ok(1,2), unfolded example_forest_ok(3)]) simp_all

end
