(* ===== verification/TreeBuilder.thy ===== *)
theory TreeBuilder
  imports DrgnParser
begin

text \<open>
  The tree of an object (\<^verbatim>\<open>oi/TreeBuilder.cpp\<close>): \<^verbatim>\<open>build\<close> reads the words that the generated code has stored, guided by the types that
  the code generator has described (\<^verbatim>\<open>oi/TypeHierarchy.h\<close>), and puts a node for every object it finds into a database, under ids
  that it hands out; \<^verbatim>\<open>dumpJson\<close> prints the trees from the database.
\<close>

section \<open>Runs\<close>

text \<open>A run changes its state whether it returns or throws.\<close>

type_synonym ('s, 'a) run = "'s \<Rightarrow> 'a outcome \<times> 's"

definition bindR :: "('s, 'a) run \<Rightarrow> ('a \<Rightarrow> ('s, 'b) run) \<Rightarrow> ('s, 'b) run" where
  "bindR m f s = (case m s of (Inl e, s) \<Rightarrow> (Inl e, s) | (Inr x, s) \<Rightarrow> f x s)"

definition returnR :: "'a \<Rightarrow> ('s, 'a) run" where
  "returnR x s = (Inr x, s)"

definition liftR :: "'a outcome \<Rightarrow> ('s, 'a) run" where
  "liftR m s = (m, s)"

definition updateR :: "('s \<Rightarrow> 's) \<Rightarrow> ('s, unit) run" where
  "updateR f s = (Inr (), f s)"

section \<open>Types\<close>

text \<open>
  What drgn says about a type: its kind, the size or the code and the text of the error, the names, the length and the element type of an
  array, whether it is a primitive type; and the code of a type error. A type that the type graph has exported belongs to no program and
  brings its own name and size.
\<close>

record 'd drgn_answers =
  da_kind :: "'d \<Rightarrow> drgn_kind"
  da_program :: "'d \<Rightarrow> bool"
  da_typeToName :: "'d \<Rightarrow> string"
  da_oi_name :: "'d \<Rightarrow> string option"
  da_sizeof :: "'d \<Rightarrow> string + u64"
  da_oi_size :: "'d \<Rightarrow> u64"
  da_length :: "'d \<Rightarrow> u64"
  da_element :: "'d \<Rightarrow> 'd"
  da_primitive :: "'d \<Rightarrow> bool"
  da_error_type :: string

text \<open>The position of a member in bits is not read here.\<close>

record 'd class_member =
  cm_type :: 'd
  cm_member_name :: string
  cm_isStubbed :: bool

text \<open>A \<^verbatim>\<open>std::map\<close> that is iterated over is the list of its entries in their order.\<close>

record 'd type_hierarchy =
  th_classMembers :: "'d \<rightharpoonup> 'd class_member list"
  th_containerTypes :: "'d \<rightharpoonup> container_type \<times> 'd list"
  th_typedefs :: "'d \<rightharpoonup> 'd"
  th_sizes :: "(string \<times> u64) list"
  th_knownDummyTypes :: "'d set"
  th_pointerToType :: "'d \<rightharpoonup> 'd"
  th_thriftIssetStructTypes :: "'d set"
  th_descendantClasses :: "'d \<rightharpoonup> 'd list"

record 'd variable =
  v_type :: 'd
  v_name :: string
  v_typePath :: string
  v_isset :: "bool option"
  v_isStubbed :: bool

definition plain_variable :: "'d \<Rightarrow> string \<Rightarrow> string \<Rightarrow> 'd variable" where
  "plain_variable t name typePath = \<lparr>v_type = t, v_name = name, v_typePath = typePath, v_isset = None, v_isStubbed = False\<rparr>"

section \<open>Nodes and the builder\<close>

record tb_container_stats =
  st_length :: u64
  st_capacity :: u64
  st_elementStaticSize :: u64

record tb_node =
  tn_id :: u64
  tn_name :: string
  tn_typeName :: string
  tn_typePath :: string
  tn_isTypedef :: bool
  tn_staticSize :: u64
  tn_dynamicSize :: u64
  tn_paddingSavingsSize :: "u64 option"
  tn_pointer :: "u64 option"
  tn_containerStats :: "tb_container_stats option"
  tn_children :: "(u64 \<times> u64) option"
  tn_isset :: "bool option"
  tn_exclusiveSize :: u64

record padding_info =
  pi_structSize :: u64
  pi_alignmentRequirement :: u64
  pi_savingSize :: u64
  pi_paddingSize :: u64
  pi_isSetSize :: u64
  pi_isSetOffset :: u64
  pi_definition :: string
  pi_instancesCnt :: u64
  pi_isThriftStruct :: bool
  pi_paddings :: "u64 list"

record tb_config =
  tc_features :: feature_set
  tc_strict :: bool
  tc_jsonPath :: bool

definition ROOT_NODE_ID :: u64 where "ROOT_NODE_ID = 0"
definition ERROR_NODE_ID :: u64 where "ERROR_NODE_ID = 1023"
definition FIRST_NODE_ID :: nat where "FIRST_NODE_ID = 1024"
definition VERSION :: u64 where "VERSION = 2"

text \<open>
  The members of the builder. The counter of the ids is a \<^verbatim>\<open>uint64_t\<close>: \<open>nextNodeID\<close> counts the ids that were handed out, and every id is
  its \<open>of_nat\<close>. The database maps the decimal text of an id to a node; the documented behaviour of RocksDB and msgpack is that what
  was put under a key is what is got from it. \<open>put\<close> says with which status a put fails, if it does.
\<close>

record tree_builder =
  nextNodeID :: nat
  oidData :: "u64 list"
  oidDataIndex :: nat
  rootIDs :: "u64 list"
  paddedStructs :: "(string \<rightharpoonup> padding_info) option"
  db :: "u64 \<rightharpoonup> tb_node"

definition setPaddedStructs :: "(string \<rightharpoonup> padding_info) option \<Rightarrow> tree_builder \<Rightarrow> tree_builder" where [simp]:
  "setPaddedStructs padded s = s\<lparr>paddedStructs := padded\<rparr>"

definition newNodeIDs :: "nat \<Rightarrow> (tree_builder, u64) run" where
  "newNodeIDs n s = (Inr (of_nat (nextNodeID s)), s\<lparr>nextNodeID := nextNodeID s + n\<rparr>)"

definition next_word :: "(tree_builder, u64) run" where
  "next_word s = (if length (oidData s) \<le> oidDataIndex s then (Inl (Throw ''Unexpected end of data''), s)
     else (Inr (oidData s ! oidDataIndex s), s\<lparr>oidDataIndex := oidDataIndex s + 1\<rparr>))"

definition drgnTypeToName :: "'d drgn_answers \<Rightarrow> 'd \<Rightarrow> string" where
  "drgnTypeToName da t = (if da_program da t then da_typeToName da t else case da_oi_name da t of Some n \<Rightarrow> n | None \<Rightarrow> '''')"

definition drgnTypeSizeof :: "'d drgn_answers \<Rightarrow> 'd \<Rightarrow> string + u64" where
  "drgnTypeSizeof da t =
     (if da_kind da t = DK_FUNCTION then Inr 8
      else if da_program da t then da_sizeof da t
      else if da_oi_size da t = - 1 then Inl (da_error_type da @ '' '' @ ''cannot get size of incomplete type'')
      else Inr (da_oi_size da t))"

text \<open>\<^verbatim>\<open>sizeof(std::string)\<close> is that of the library the program is built with, libstdc++.\<close>

definition getDrgnTypeSize :: "'d drgn_answers \<Rightarrow> 'd type_hierarchy \<Rightarrow> 'd \<Rightarrow> u64 outcome" where
  "getDrgnTypeSize da th t = (case drgnTypeSizeof da t of
      Inr sz \<Rightarrow> Inr sz
    | Inl err \<Rightarrow> let typeName = drgnTypeToName da t in
       case find (\<lambda>(typeName2, size2). starts_with typeName typeName2) (th_sizes th) of
         Some (typeName2, size2) \<Rightarrow> Inr size2
       | None \<Rightarrow> if starts_with typeName ''basic_string<char, std::char_traits<char>, std::allocator<char> >'' then Inr 32
           else Inl (Throw (''Failed to get size: '' @ err)))"

definition isContainer :: "'d drgn_answers \<Rightarrow> 'd type_hierarchy \<Rightarrow> tb_config \<Rightarrow> 'd \<Rightarrow> bool" where
  "isContainer da th cfg t =
     (if th_containerTypes th t \<noteq> None then True
      else if da_kind da t = DK_ARRAY then bit_get (tc_features cfg) TypeGraph \<or> 0 < da_length da t
      else False)"

text \<open>Typedefs and arrays are followed at most \<open>n\<close> deep.\<close>

fun isPrimitive :: "'d drgn_answers \<Rightarrow> 'd type_hierarchy \<Rightarrow> nat \<Rightarrow> 'd \<Rightarrow> bool outcome" where
  "isPrimitive da th 0 t = Inl Diverge"
| "isPrimitive da th (Suc n) t =
     (if da_kind da t = DK_TYPEDEF
      then case th_typedefs th t of None \<Rightarrow> Inr False | Some u \<Rightarrow> isPrimitive da th n u
      else Inr (da_primitive da t))"

fun getDrgnArrayElementType :: "'d drgn_answers \<Rightarrow> nat \<Rightarrow> 'd \<Rightarrow> u64 \<Rightarrow> ('d \<times> u64) outcome" where
  "getDrgnArrayElementType da 0 t elems = Inl Diverge"
| "getDrgnArrayElementType da (Suc n) t elems =
     (if da_kind da t = DK_ARRAY then getDrgnArrayElementType da n (da_element da t) (elems * da_length da t)
      else Inr (t, elems))"

fun allE :: "('a \<Rightarrow> bool outcome) \<Rightarrow> 'a list \<Rightarrow> bool outcome" where
  "allE p [] = Inr True"
| "allE p (x # xs) = bindE (p x) (\<lambda>b. if b then allE p xs else Inr False)"


section \<open>Processing\<close>

definition setSize :: "tb_node \<Rightarrow> u64 \<Rightarrow> u64 \<Rightarrow> tb_node" where
  "setSize node dynamicSize memberSizes =
     (let node = node\<lparr>tn_dynamicSize := dynamicSize\<rparr> in
      if tn_staticSize node + tn_dynamicSize node < memberSizes then node\<lparr>tn_exclusiveSize := 0\<rparr>
      else node\<lparr>tn_exclusiveSize := tn_staticSize node + tn_dynamicSize node - memberSizes\<rparr>)"

definition isStandardInteger :: "string \<Rightarrow> bool" where
  "isStandardInteger name \<longleftrightarrow> name \<in> {''size_t'', ''ssize_t'', ''ptrdiff_t''} \<union>
     (\<lambda>((u, f), w). u @ ''int'' @ f @ w @ ''_t'') ` (({'''', ''u''} \<times> {'''', ''_fast'', ''_least''}) \<times> {''8'', ''16'', ''32'', ''64'', ''128'', ''ptr''})"

type_synonym 'd tb_process = "u64 \<Rightarrow> 'd variable \<Rightarrow> (tree_builder, tb_node) run"

text \<open>One new child, as behind a pointer, a typedef, an adapter and in a variant.\<close>

definition process_child :: "'d tb_process \<Rightarrow> 'd variable \<Rightarrow> tb_node \<Rightarrow> (tb_node \<Rightarrow> tb_node \<Rightarrow> tb_node) \<Rightarrow> (tree_builder, tb_node) run" where
  "process_child process v node f = bindR (newNodeIDs 1) (\<lambda>childID. bindR (process childID v) (\<lambda>child.
     returnR (f child (node\<lparr>tn_children := Some (childID, childID + 1)\<rparr>))))"

definition skipped :: u64 where "skipped = 0"

definition element_variable :: "'d drgn_answers \<Rightarrow> 'd \<Rightarrow> 'd variable" where
  "element_variable da t = plain_variable t '''' (drgnTypeToName da t @ ''[]'')"

text \<open>
  What the switch over the kinds of containers ends with: a \<^verbatim>\<open>return\<close>, or a \<^verbatim>\<open>break\<close> with the value of \<open>contentsStoredInline\<close>.
  \<open>stats\<close> writes the lengths into the statistics of the node.
\<close>

datatype switch = Return tb_node | Break bool tb_node

definition stats :: "u64 \<Rightarrow> u64 \<Rightarrow> tb_node \<Rightarrow> tb_node" where
  "stats len cap node = node\<lparr>tn_containerStats := map_option (\<lambda>s. s\<lparr>st_length := len, st_capacity := cap\<rparr>) (tn_containerStats node)\<rparr>"

definition element_size :: "tb_node \<Rightarrow> u64" where
  "element_size node = (case tn_containerStats node of None \<Rightarrow> 0 | Some s \<Rightarrow> st_elementStaticSize s)"

definition set_element_size :: "u64 \<Rightarrow> tb_node \<Rightarrow> tb_node" where
  "set_element_size n node = node\<lparr>tn_containerStats := map_option (\<lambda>s. s\<lparr>st_elementStaticSize := n\<rparr>) (tn_containerStats node)\<rparr>"

definition set_pointer :: "u64 \<Rightarrow> tb_node \<Rightarrow> tb_node" where
  "set_pointer p node = node\<lparr>tn_pointer := Some p\<rparr>"

definition pointer_container :: "(u64 \<Rightarrow> u64) \<Rightarrow> tb_node \<Rightarrow> (tree_builder, switch) run" where
  "pointer_container len node = bindR next_word (\<lambda>p. bindR next_word (\<lambda>tag.
     let node = stats (len p) 1 (set_pointer p node) in
     returnR (if tag = skipped then Return node else Break False node)))"

definition capacity_length :: "bool \<Rightarrow> tb_node \<Rightarrow> (tree_builder, switch) run" where
  "capacity_length inline node = bindR next_word (\<lambda>cap. bindR next_word (\<lambda>len. returnR (Break inline (stats len cap node))))"

definition length_only :: "bool \<Rightarrow> tb_node \<Rightarrow> (tree_builder, switch) run" where
  "length_only inline node = bindR next_word (\<lambda>len. returnR (Break inline (stats len len node)))"

definition max_size :: "'d drgn_answers \<Rightarrow> 'd type_hierarchy \<Rightarrow> 'd \<Rightarrow> u64 \<Rightarrow> u64 outcome" where
  "max_size da th t n = bindE (getDrgnTypeSize da th t) (\<lambda>sz. Inr (max n sz))"

definition variant_child :: "'d drgn_answers \<Rightarrow> 'd tb_process \<Rightarrow> 'd list \<Rightarrow> tb_node \<Rightarrow> (tree_builder, switch) run" where
  "variant_child da process elementTypes node = bindR next_word (\<lambda>index.
     if unat index < length elementTypes
     then bindR (process_child process (element_variable da (elementTypes ! unat index)) node
         (\<lambda>child node. setSize node (tn_dynamicSize child) (tn_dynamicSize child + tn_staticSize child))) (\<lambda>node. returnR (Return node))
     else returnR (Return node))"

definition adapter_child :: "'d drgn_answers \<Rightarrow> 'd tb_process \<Rightarrow> 'd list \<Rightarrow> tb_node \<Rightarrow> (tree_builder, switch) run" where
  "adapter_child da process elementTypes node = bindR next_word (\<lambda>p.
     if elementTypes = [] then liftR (Inl (Undefined ''index past the end of a vector''))
     else bindR (process_child process (element_variable da (elementTypes ! 0)) (set_pointer p node)
         (\<lambda>child node. (setSize node (tn_dynamicSize child) (tn_dynamicSize child + tn_staticSize child))\<lparr>tn_containerStats := tn_containerStats child\<rparr>))
         (\<lambda>node. returnR (Return node)))"

definition container_switch :: "'d drgn_answers \<Rightarrow> 'd type_hierarchy \<Rightarrow> 'd tb_process \<Rightarrow> container_type \<Rightarrow> 'd list \<Rightarrow> tb_node \<Rightarrow>
    (tree_builder, switch) run" where
  "container_switch da th process kind elementTypes node = (case kind of
      OPTIONAL_TYPE \<Rightarrow> bindR next_word (\<lambda>b. returnR (if b = 0 then Return (stats 0 1 node) else Break True (stats 1 1 node)))
    | FOLLY_OPTIONAL_TYPE \<Rightarrow> bindR next_word (\<lambda>p. let node = set_pointer p node in
        returnR (if p = 0 then Return (stats 0 1 node) else Break True (stats 1 1 node)))
    | WEAK_PTR_TYPE \<Rightarrow> returnR (Break False node)
    | SHRD_PTR_TYPE \<Rightarrow> pointer_container (\<lambda>p. if p = 0 then 0 else 1) node
    | UNIQ_PTR_TYPE \<Rightarrow> pointer_container (\<lambda>p. if p = 0 then 0 else 1) node
    | TRY_TYPE \<Rightarrow> pointer_container (\<lambda>p. 1) node
    | REF_WRAPPER_TYPE \<Rightarrow> pointer_container (\<lambda>p. 1) node
    | SORTED_VEC_SET_TYPE \<Rightarrow> adapter_child da process elementTypes node
    | CONTAINER_ADAPTER_TYPE \<Rightarrow> adapter_child da process elementTypes node
    | STD_VARIANT_TYPE \<Rightarrow> bindR (liftR (for_each (max_size da th) elementTypes 0)) (\<lambda>sz.
        variant_child da process elementTypes ((set_element_size sz (stats 1 1 node))\<lparr>tn_dynamicSize := 0\<rparr>))
    | PAIR_TYPE \<Rightarrow> returnR (Break True (stats 1 1 node))
    | SEQ_TYPE \<Rightarrow> bindR next_word (\<lambda>p. capacity_length False (set_pointer p node))
    | MICROLIST_TYPE \<Rightarrow> bindR next_word (\<lambda>p. capacity_length False (set_pointer p node))
    | FEED_QUICK_HASH_SET \<Rightarrow> bindR next_word (\<lambda>p. capacity_length False (set_pointer p node))
    | FEED_QUICK_HASH_MAP \<Rightarrow> bindR next_word (\<lambda>p. capacity_length False (set_pointer p node))
    | FB_HASH_MAP_TYPE \<Rightarrow> bindR next_word (\<lambda>p. capacity_length False (set_pointer p node))
    | FB_HASH_SET_TYPE \<Rightarrow> bindR next_word (\<lambda>p. capacity_length False (set_pointer p node))
    | MAP_SEQ_TYPE \<Rightarrow> bindR next_word (\<lambda>p. capacity_length False (set_pointer p node))
    | FOLLY_SMALL_HEAP_VECTOR_MAP \<Rightarrow> bindR next_word (\<lambda>p. capacity_length False (set_pointer p node))
    | REPEATED_FIELD_TYPE \<Rightarrow> bindR next_word (\<lambda>p. capacity_length False (set_pointer p node))
    | LIST_TYPE \<Rightarrow> bindR next_word (\<lambda>p. length_only False (set_pointer p node))
    | FOLLY_IOBUFQUEUE_TYPE \<Rightarrow> bindR next_word (\<lambda>p. bindR next_word (\<lambda>tag.
        let node = stats 0 0 (set_pointer p node) in
        if tag = skipped then returnR (Return node) else capacity_length False node))
    | FOLLY_IOBUF_TYPE \<Rightarrow> capacity_length False node
    | FB_STRING_TYPE \<Rightarrow> bindR next_word (\<lambda>p. bindR next_word (\<lambda>cap. bindR next_word (\<lambda>len. bindR next_word (\<lambda>b.
        let node = stats len cap (set_pointer p node) in
        returnR (Break (b = 0) (if cap < 255 then node\<lparr>tn_pointer := None\<rparr> else node))))))
    | STRING_TYPE \<Rightarrow> bindR next_word (\<lambda>cap. bindR next_word (\<lambda>len.
        bindR (liftR (assertE (tn_staticSize node = 24 \<or> tn_staticSize node = 32))) (\<lambda>_.
        returnR (Break (cap \<le> (if tn_staticSize node = 24 then 22 else 15)) (stats len cap node)))))
    | CAFFE2_BLOB_TYPE \<Rightarrow> bindR next_word (\<lambda>sz. returnR (Return (setSize node sz 0)))
    | ARRAY_TYPE \<Rightarrow> length_only True node
    | SMALL_VEC_TYPE \<Rightarrow> bindR next_word (\<lambda>requestedMaxInline.
        bindR (liftR (if requestedMaxInline = 0 then Inr 0
          else if element_size node = 0 then Inl (Undefined ''division by zero'')
          else Inr (max (8 div element_size node) requestedMaxInline))) (\<lambda>maxInline.
        bindR next_word (\<lambda>cap. bindR next_word (\<lambda>len. returnR (Break (cap \<le> maxInline) (stats len cap node))))))
    | BOOST_BIMAP_TYPE \<Rightarrow> length_only False node
    | SET_TYPE \<Rightarrow> bindR next_word (\<lambda>overhead. length_only False (set_element_size (element_size node + overhead) node))
    | STD_MAP_TYPE \<Rightarrow> bindR next_word (\<lambda>overhead. length_only False (set_element_size (element_size node + overhead) node))
    | UNORDERED_SET_TYPE \<Rightarrow> bindR next_word (\<lambda>overhead. bindR next_word (\<lambda>bucketCount.
        length_only False (setSize (set_element_size (element_size node + overhead) node) (tn_dynamicSize node + bucketCount * 8) 0)))
    | UNORDERED_MULTISET_TYPE \<Rightarrow> bindR next_word (\<lambda>overhead. bindR next_word (\<lambda>bucketCount.
        length_only False (setSize (set_element_size (element_size node + overhead) node) (tn_dynamicSize node + bucketCount * 8) 0)))
    | STD_UNORDERED_MULTIMAP_TYPE \<Rightarrow> bindR next_word (\<lambda>overhead. bindR next_word (\<lambda>bucketCount.
        length_only False (setSize (set_element_size (element_size node + overhead) node) (tn_dynamicSize node + bucketCount * 8) 0)))
    | STD_UNORDERED_MAP_TYPE \<Rightarrow> bindR next_word (\<lambda>overhead. bindR next_word (\<lambda>bucketCount.
        length_only False (setSize (set_element_size (element_size node + overhead) node) (tn_dynamicSize node + bucketCount * 8) 0)))
    | F14_MAP \<Rightarrow> bindR next_word (\<lambda>sz. capacity_length True (setSize node (tn_dynamicSize node + sz) 0))
    | F14_SET \<Rightarrow> bindR next_word (\<lambda>sz. capacity_length True (setSize node (tn_dynamicSize node + sz) 0))
    | RADIX_TREE_TYPE \<Rightarrow> length_only False node
    | MULTI_SET_TYPE \<Rightarrow> length_only False node
    | MULTI_MAP_TYPE \<Rightarrow> length_only False node
    | BY_MULTI_QRT_TYPE \<Rightarrow> length_only False node
    | THRIFT_ISSET_TYPE \<Rightarrow> returnR (Break False (set_element_size 0 node))
    | DUMMY_TYPE \<Rightarrow> returnR (Break False (set_element_size 0 node))
    | UNKNOWN_TYPE \<Rightarrow> liftR (Inl (Throw ''Unknown container (type was 0x0)''))
    | ENUM_MAP_TYPE \<Rightarrow> liftR (Inl (Throw ''Unknown container (type was 0x39)'')))"

definition CONTAINER_SIZE_THRESHOLD :: u64 where "CONTAINER_SIZE_THRESHOLD = push_bit 38 1"

text \<open>A loop over children: the id of each is one more than that of the one before, and its sizes are added up.\<close>

definition add_sizes :: "tb_node \<Rightarrow> tb_node \<times> u64 \<Rightarrow> tb_node \<times> u64" where
  "add_sizes child = (\<lambda>(node, memberSizes).
     (node\<lparr>tn_dynamicSize := tn_dynamicSize node + tn_dynamicSize child\<rparr>, memberSizes + (tn_dynamicSize child + tn_staticSize child)))"

fun each_child :: "'d tb_process \<Rightarrow> (tree_builder, 'd variable) run list \<Rightarrow> u64 \<Rightarrow> tb_node \<times> u64 \<Rightarrow> (tree_builder, tb_node \<times> u64) run" where
  "each_child process [] childID acc = returnR acc"
| "each_child process (v # vs) childID acc = bindR v (\<lambda>var. bindR (process childID var) (\<lambda>child.
     each_child process vs (childID + 1) (add_sizes child acc)))"

definition processElements :: "'d drgn_answers \<Rightarrow> 'd type_hierarchy \<Rightarrow> nat \<Rightarrow> 'd tb_process \<Rightarrow> 'd list \<Rightarrow> bool \<Rightarrow> tb_node \<Rightarrow>
    (tree_builder, tb_node) run" where
  "processElements da th n process elementTypes contentsStoredInline node =
     (let containerStats = the (tn_containerStats node);
        contents = st_elementStaticSize containerStats * st_capacity containerStats;
        node = (if contentsStoredInline then node else setSize node (tn_dynamicSize node + contents) 0) in
      if CONTAINER_SIZE_THRESHOLD \<le> contents
      then liftR (Inl (Throw ''Container size exceeds threshold, this is likely due to reading uninitialized data in the target process''))
      else bindR (liftR (allE (isPrimitive da th n) elementTypes)) (\<lambda>primitive.
        let numChildren = st_length containerStats * of_nat (length elementTypes) in
        if primitive \<or> numChildren = 0 then returnR node
        else bindR (newNodeIDs (unat numChildren)) (\<lambda>childID.
          bindR (each_child process
              (concat (replicate (unat (st_length containerStats)) (map (\<lambda>t. returnR (element_variable da t)) elementTypes)))
              childID (node\<lparr>tn_children := Some (childID, childID + numChildren)\<rparr>, 0)) (\<lambda>(node, memberSizes).
          returnR (setSize node (tn_dynamicSize node) memberSizes)))))"

definition container_kind :: "'d drgn_answers \<Rightarrow> 'd type_hierarchy \<Rightarrow> tb_config \<Rightarrow> nat \<Rightarrow> 'd \<Rightarrow> string \<Rightarrow> (container_type \<times> 'd list) outcome" where
  "container_kind da th cfg n t typeName =
     (if da_kind da t = DK_ARRAY
      then bindE (if bit_get (tc_features cfg) TypeGraph then Inr (da_element da t, da_length da t)
          else getDrgnArrayElementType da n t 1) (\<lambda>(arrayElementType, numElems).
        bindE (assertE (0 < numElems)) (\<lambda>_. Inr (ARRAY_TYPE, [arrayElementType])))
      else case th_containerTypes th t of
          None \<Rightarrow> Inl (Throw (''Could not find container information for type with name '' @ [CHR 0x27] @ typeName @ [CHR 0x27]))
        | Some info \<Rightarrow> Inr info)"

definition add_size :: "'d drgn_answers \<Rightarrow> 'd type_hierarchy \<Rightarrow> 'd \<Rightarrow> u64 \<Rightarrow> u64 outcome" where
  "add_size da th t n = bindE (getDrgnTypeSize da th t) (\<lambda>sz. Inr (n + sz))"

definition processContainer :: "'d drgn_answers \<Rightarrow> 'd type_hierarchy \<Rightarrow> tb_config \<Rightarrow> nat \<Rightarrow> 'd tb_process \<Rightarrow> 'd variable \<Rightarrow> tb_node \<Rightarrow>
    (tree_builder, tb_node) run" where
  "processContainer da th cfg n process var node =
     bindR (liftR (container_kind da th cfg n (v_type var) (tn_typeName node))) (\<lambda>(kind, elementTypes).
     bindR (liftR (for_each (add_size da th) elementTypes 0)) (\<lambda>sz.
     bindR (container_switch da th process kind elementTypes
         (node\<lparr>tn_containerStats := Some \<lparr>st_length = 0, st_capacity = 0, st_elementStaticSize = sz\<rparr>\<rparr>)) (\<lambda>sw.
     case sw of Return node \<Rightarrow> returnR node
     | Break contentsStoredInline node \<Rightarrow> processElements da th n process elementTypes contentsStoredInline node)))"

definition processPointer :: "'d drgn_answers \<Rightarrow> 'd type_hierarchy \<Rightarrow> tb_config \<Rightarrow> 'd tb_process \<Rightarrow> 'd variable \<Rightarrow> tb_node \<Rightarrow>
    (tree_builder, tb_node) run" where
  "processPointer da th cfg process var node =
     (let follow = (\<lambda>inner node. process_child process (plain_variable inner '''' '''') node (\<lambda>child node.
         setSize node (tn_staticSize child + tn_dynamicSize child) (tn_staticSize child + tn_dynamicSize child))) in
      if \<not> bit_get (tc_features cfg) ChaseRawPointers \<or> v_type var \<in> th_knownDummyTypes th then returnR node
      else case th_pointerToType th (v_type var) of
        None \<Rightarrow> returnR node
      | Some inner \<Rightarrow>
          if da_kind da inner = DK_FUNCTION then follow inner node
          else bindR next_word (\<lambda>p. let node = set_pointer p node in
            if da_kind da inner = DK_VOID then returnR node
            else bindR next_word (\<lambda>tag. if tag = skipped then returnR node else follow inner node)))"

definition processTypedef :: "'d type_hierarchy \<Rightarrow> 'd tb_process \<Rightarrow> 'd variable \<Rightarrow> tb_node \<Rightarrow> (tree_builder, tb_node) run" where
  "processTypedef th process var node =
     (if isStandardInteger (tn_typeName node) then returnR node
      else let node = node\<lparr>tn_isTypedef := True\<rparr> in
        case th_typedefs th (v_type var) of
          None \<Rightarrow> returnR node
        | Some u \<Rightarrow> process_child process (plain_variable u '''' '''') node (\<lambda>child node.
            setSize node (tn_dynamicSize child) (tn_dynamicSize child + tn_staticSize child)))"

text \<open>The variable for a member: with Thrift's isset data, a word is read for each member but the last.\<close>

definition member_variable :: "bool \<Rightarrow> 'd class_member \<Rightarrow> (tree_builder, 'd variable) run" where
  "member_variable reads_isset m = bindR (if reads_isset then bindR next_word (\<lambda>val. returnR (if val = - 1 then None else Some (val \<noteq> 0))) else returnR None)
     (\<lambda>isset. returnR \<lparr>v_type = cm_type m, v_name = cm_member_name m, v_typePath = cm_member_name m, v_isset = isset,
       v_isStubbed = cm_isStubbed m\<rparr>)"

definition member_variables :: "bool \<Rightarrow> 'd class_member list \<Rightarrow> (tree_builder, 'd variable) run list" where
  "member_variables captureThriftIsset members =
     map (\<lambda>(i, m). member_variable (captureThriftIsset \<and> i < length members - 1) m) (enumerate 0 members)"

definition concrete_class :: "'d drgn_answers \<Rightarrow> 'd type_hierarchy \<Rightarrow> 'd \<Rightarrow> tb_node \<Rightarrow> (tree_builder, 'd \<times> tb_node) run" where
  "concrete_class da th t node = (case th_descendantClasses th t of
      None \<Rightarrow> returnR (t, node)
    | Some descendants \<Rightarrow> bindR next_word (\<lambda>val.
        if val = - 1 then returnR (t, node)
        else if length descendants \<le> unat val then liftR (Inl (Undefined ''index past the end of a vector''))
        else let objectType = descendants ! unat val in
          bindR (liftR (getDrgnTypeSize da th objectType)) (\<lambda>sz.
          returnR (objectType, node\<lparr>tn_typeName := drgnTypeToName da objectType, tn_staticSize := sz\<rparr>))))"

definition processClass :: "'d drgn_answers \<Rightarrow> 'd type_hierarchy \<Rightarrow> 'd tb_process \<Rightarrow> 'd variable \<Rightarrow> tb_node \<Rightarrow> (tree_builder, tb_node) run" where
  "processClass da th process var node = bindR (concrete_class da th (v_type var) node) (\<lambda>(objectType, node).
     case th_classMembers th objectType of
       None \<Rightarrow> returnR node
     | Some members \<Rightarrow>
         if members = [] then returnR node
         else bindR (newNodeIDs (length members)) (\<lambda>childID.
           bindR (each_child process (member_variables (objectType \<in> th_thriftIssetStructTypes th) members) childID
               (node\<lparr>tn_children := Some (childID, childID + of_nat (length members))\<rparr>, 0)) (\<lambda>(node, memberSizes).
           returnR (setSize node (tn_dynamicSize node) memberSizes))))"

definition process_kind :: "'d drgn_answers \<Rightarrow> 'd type_hierarchy \<Rightarrow> tb_config \<Rightarrow> nat \<Rightarrow> 'd tb_process \<Rightarrow> 'd variable \<Rightarrow> tb_node \<Rightarrow>
    (tree_builder, tb_node) run" where
  "process_kind da th cfg n process var node =
     (let k = da_kind da (v_type var) in
      if k = DK_POINTER then processPointer da th cfg process var node
      else if k = DK_TYPEDEF then processTypedef th process var node
      else if k = DK_CLASS \<or> k = DK_STRUCT \<or> k = DK_ARRAY
      then (if v_type var \<in> th_knownDummyTypes th then returnR node
        else if isContainer da th cfg (v_type var) then processContainer da th cfg n process var node
        else processClass da th process var node)
      else returnR node)"

definition padding_stats :: "tb_config \<Rightarrow> tb_node \<Rightarrow> (tree_builder, tb_node) run" where
  "padding_stats cfg node s =
     (if \<not> bit_get (tc_features cfg) GenPaddingStats then (Inr node, s)
      else case paddedStructs s of
        None \<Rightarrow> (Inl (Undefined ''null pointer''), s)
      | Some padded \<Rightarrow> (case padded (tn_typeName node) of
          None \<Rightarrow> (Inr node, s)
        | Some info \<Rightarrow> (Inr (node\<lparr>tn_paddingSavingsSize := Some (pi_savingSize info)\<rparr>),
            s\<lparr>paddedStructs := Some (padded(tn_typeName node \<mapsto> info\<lparr>pi_instancesCnt := pi_instancesCnt info + 1\<rparr>))\<rparr>)))"

definition db_put :: "(tb_node \<Rightarrow> string option) \<Rightarrow> tb_node \<Rightarrow> (tree_builder, tb_node) run" where
  "db_put put node s = (case put node of
      None \<Rightarrow> (Inr node, s\<lparr>db := (db s)(tn_id node \<mapsto> node)\<rparr>)
    | Some status \<Rightarrow> (Inl (Throw (''RocksDB error while inserting node ['' @ dec_u64 (tn_id node) @ '']: '' @ status)), s))"

definition process_body :: "'d drgn_answers \<Rightarrow> 'd type_hierarchy \<Rightarrow> tb_config \<Rightarrow> (tb_node \<Rightarrow> string option) \<Rightarrow> nat \<Rightarrow> 'd tb_process \<Rightarrow> 'd tb_process" where
  "process_body da th cfg put n process nid var =
     bindR (liftR (getDrgnTypeSize da th (v_type var))) (\<lambda>sz.
     let node = setSize \<lparr>tn_id = nid, tn_name = v_name var, tn_typeName = drgnTypeToName da (v_type var), tn_typePath = v_typePath var,
       tn_isTypedef = False, tn_staticSize = sz, tn_dynamicSize = 0, tn_paddingSavingsSize = None, tn_pointer = None,
       tn_containerStats = None, tn_children = None, tn_isset = v_isset var, tn_exclusiveSize = 0\<rparr> 0 0 in
     bindR (if v_isStubbed var then returnR node
       else bindR (process_kind da th cfg n process var node) (padding_stats cfg)) (db_put put))"

fun process :: "'d drgn_answers \<Rightarrow> 'd type_hierarchy \<Rightarrow> tb_config \<Rightarrow> (tb_node \<Rightarrow> string option) \<Rightarrow> nat \<Rightarrow> 'd tb_process" where
  "process da th cfg put 0 nid var = liftR (Inl Diverge)"
| "process da th cfg put (Suc n) nid var = process_body da th cfg put (Suc n) (process da th cfg put n) nid var"

section \<open>Building and printing\<close>

text \<open>
  A build reads new data; its root is the next id, or the id of errors where it throws. In strict mode unread data end the program
  (\<^verbatim>\<open>LOG(FATAL)\<close>).
\<close>

definition build :: "'d drgn_answers \<Rightarrow> 'd type_hierarchy \<Rightarrow> tb_config \<Rightarrow> (tb_node \<Rightarrow> string option) \<Rightarrow> nat \<Rightarrow> u64 list \<Rightarrow> string \<Rightarrow> 'd \<Rightarrow>
    (tree_builder, unit) run" where
  "build da th cfg put n data argName t s =
     (let s = s\<lparr>oidData := data, oidDataIndex := 4\<rparr>; rootID = of_nat (nextNodeID s); ids = rootIDs s;
        s = s\<lparr>nextNodeID := nextNodeID s + 1, rootIDs := ids @ [rootID]\<rparr> in
      case process da th cfg put n rootID (plain_variable t argName argName) s of
        (Inl e, s) \<Rightarrow> (Inl e, case e of Throw m \<Rightarrow> s\<lparr>rootIDs := ids @ [ERROR_NODE_ID]\<rparr> | _ \<Rightarrow> s)
      | (Inr node, s) \<Rightarrow> if oidDataIndex s \<noteq> length (oidData s) \<and> tc_strict cfg then (Inl Aborted, s) else (Inr (), s))"

definition emptyOutput :: "tree_builder \<Rightarrow> bool" where
  "emptyOutput s = list_all (\<lambda>id. id = ERROR_NODE_ID) (rootIDs s)"

text \<open>What the destructor puts under \<open>ROOT_NODE_ID\<close>: the version and the roots without the errors.\<close>

definition db_header :: "tree_builder \<Rightarrow> u64 \<times> u64 list" where
  "db_header s = (VERSION, filter (\<lambda>i. i \<noteq> ERROR_NODE_ID) (rootIDs s))"

definition quoted :: "string \<Rightarrow> string" where
  "quoted s = [CHR 0x22] @ s @ [CHR 0x22]"

definition json_bool :: "bool \<Rightarrow> string" where
  "json_bool b = (if b then ''true'' else ''false'')"

definition no_backslash :: "string \<Rightarrow> string" where
  "no_backslash = List.map (\<lambda>c. if c = CHR 0x5C then CHR '' '' else c)"

definition json_node :: "tb_node \<Rightarrow> string" where
  "json_node node = ''{'' @ quoted ''name'' @ '':'' @ quoted (tn_name node) @ '','' @
     quoted ''typePath'' @ '':'' @ quoted (no_backslash (tn_typePath node)) @ '','' @
     quoted ''typeName'' @ '':'' @ quoted (no_backslash (tn_typeName node)) @ '','' @
     quoted ''isTypedef'' @ '':'' @ json_bool (tn_isTypedef node) @ '','' @
     quoted ''staticSize'' @ '':'' @ dec_u64 (tn_staticSize node) @ '','' @
     quoted ''dynamicSize'' @ '':'' @ dec_u64 (tn_dynamicSize node) @ '','' @
     quoted ''exclusiveSize'' @ '':'' @ dec_u64 (tn_exclusiveSize node) @
     (case tn_paddingSavingsSize node of None \<Rightarrow> '''' | Some n \<Rightarrow> '','' @ quoted ''paddingSavingsSize'' @ '':'' @ dec_u64 n) @
     (case tn_pointer node of None \<Rightarrow> '''' | Some p \<Rightarrow> '','' @ quoted ''pointer'' @ '':'' @ dec_u64 p) @
     (case tn_containerStats node of None \<Rightarrow> '''' | Some st \<Rightarrow> '','' @ quoted ''length'' @ '':'' @ dec_u64 (st_length st) @ '','' @
        quoted ''capacity'' @ '':'' @ dec_u64 (st_capacity st) @ '','' @
        quoted ''elementStaticSize'' @ '':'' @ dec_u64 (st_elementStaticSize st)) @
     (case tn_isset node of None \<Rightarrow> '''' | Some b \<Rightarrow> '','' @ quoted ''isset'' @ '':'' @ json_bool b)"

text \<open>\<^verbatim>\<open>JSON\<close> prints a node after what is in the stream; it calls itself for the children, at most \<open>n\<close> deep.\<close>

fun JSON :: "(u64 \<rightharpoonup> tb_node) \<Rightarrow> nat \<Rightarrow> u64 \<Rightarrow> string \<Rightarrow> string outcome" where
  "JSON DB 0 nid output = Inl Diverge"
| "JSON DB (Suc n) nid output = (case DB nid of
      None \<Rightarrow> Inl (Throw (''RocksDB error while reading node ['' @ dec_u64 nid @ '']: NotFound: ''))
    | Some node \<Rightarrow> bindE (case tn_children node of
          None \<Rightarrow> Inr (output @ json_node node)
        | Some (childIDStart, childIDEnd) \<Rightarrow> bindE (assertE (childIDStart < childIDEnd)) (\<lambda>_.
            bindE (JSON DB n childIDStart (output @ json_node node @ '','' @ quoted ''members'' @ '':'' @ ''['')) (\<lambda>output.
            bindE (for_each (\<lambda>childID output. JSON DB n (of_nat childID) (output @ '',''))
                [unat childIDStart + 1..<unat childIDEnd] output) (\<lambda>output.
            Inr (output @ '']''))))) (\<lambda>output. Inr (output @ ''}'')))"

text \<open>The comma after the last object is overwritten.\<close>

definition json_root :: "(u64 \<rightharpoonup> tb_node) \<Rightarrow> nat \<Rightarrow> u64 \<Rightarrow> string \<Rightarrow> string outcome" where
  "json_root DB n rootID output = (if rootID = ERROR_NODE_ID then Inr (output @ ''{},'')
     else bindE (JSON DB n rootID output) (\<lambda>output. Inr (output @ '','')))"

definition dumpJson :: "tb_config \<Rightarrow> nat \<Rightarrow> tree_builder \<Rightarrow> string outcome" where
  "dumpJson cfg n s =
     (if \<not> tc_jsonPath cfg then Inr ''''
      else bindE (for_each (json_root (db s) n) (rootIDs s) ''['') (\<lambda>output.
        Inr ((if rootIDs s \<noteq> [] then butlast output else output) @ '']'' @ [CHR 0x0A])))"

end
