(* ===== verification/TreeNames.thy ===== *)
theory TreeNames
  imports TreeBuilder
begin

text \<open>Whatever a run of the builder makes of a node, the node keeps its name.\<close>

definition yields :: "('a \<Rightarrow> bool) \<Rightarrow> ('s, 'a) run \<Rightarrow> bool" where
  "yields P m \<longleftrightarrow> (\<forall>s x s'. m s = (Inr x, s') \<longrightarrow> P x)"

lemma yields_return [simp]: "yields P (returnR x) \<longleftrightarrow> P x"
  by (auto simp: yields_def returnR_def)

lemma yields_lift [simp]: "yields P (liftR m) \<longleftrightarrow> (\<forall>x. m = Inr x \<longrightarrow> P x)"
  by (auto simp: yields_def liftR_def)

lemma yields_bind: "yields Q m \<Longrightarrow> (\<And>x. Q x \<Longrightarrow> yields P (f x)) \<Longrightarrow> yields P (bindR m f)"
  by (fastforce simp: yields_def bindR_def split: prod.splits sum.splits)

lemma yields_any: "(\<And>x. yields P (f x)) \<Longrightarrow> yields P (bindR m f)"
  by (rule yields_bind [where Q = "\<lambda>_. True"]) (simp_all add: yields_def)

definition named :: "string \<Rightarrow> switch \<Rightarrow> bool" where
  "named name sw \<longleftrightarrow> (case sw of Return node \<Rightarrow> tn_name node = name | Break b node \<Rightarrow> tn_name node = name)"

lemma named_simps [simp]: "named name (Return node) \<longleftrightarrow> tn_name node = name" "named name (Break b node) \<longleftrightarrow> tn_name node = name"
  by (simp_all add: named_def)

lemma name_kept [simp]: "tn_name (setSize node d m) = tn_name node" "tn_name (stats len cap node) = tn_name node"
  "tn_name (set_element_size k node) = tn_name node" "tn_name (set_pointer p node) = tn_name node"
  by (simp_all add: setSize_def stats_def set_element_size_def set_pointer_def Let_def)

lemma process_child_named:
  "(\<And>child n. tn_name (f child n) = tn_name n) \<Longrightarrow> tn_name node = name \<Longrightarrow>
    yields (\<lambda>node. tn_name node = name) (process_child proc v node f)"
  unfolding process_child_def by (intro yields_any) simp

lemma pointer_container_named: "tn_name node = name \<Longrightarrow> yields (named name) (pointer_container len node)"
  unfolding pointer_container_def by (intro yields_any) (simp add: Let_def)

lemma lengths_named: "tn_name node = name \<Longrightarrow> yields (named name) (capacity_length b node)"
  "tn_name node = name \<Longrightarrow> yields (named name) (length_only b node)"
  unfolding capacity_length_def length_only_def by (intro yields_any; simp)+

lemma child_returned:
  "yields (\<lambda>node. tn_name node = name) m \<Longrightarrow> yields (named name) (bindR m (\<lambda>node. returnR (Return node)))"
  by (rule yields_bind) simp_all

lemma variant_child_named: "tn_name node = name \<Longrightarrow> yields (named name) (variant_child da proc ts node)"
  unfolding variant_child_def by (auto intro!: yields_any child_returned process_child_named)

lemma adapter_child_named: "tn_name node = name \<Longrightarrow> yields (named name) (adapter_child da proc ts node)"
  unfolding adapter_child_def by (rule yields_any) (auto intro!: child_returned process_child_named)

lemma container_switch_named: "tn_name node = name \<Longrightarrow> yields (named name) (container_switch da th proc kind ts node)"
  by (cases kind)
    (auto simp: container_switch_def Let_def intro!: yields_any pointer_container_named lengths_named variant_child_named adapter_child_named)

lemma add_sizes_name: "tn_name (fst (add_sizes child acc)) = tn_name (fst acc)"
  by (cases acc) (simp add: add_sizes_def)

lemma each_child_named: "tn_name (fst acc) = name \<Longrightarrow> yields (\<lambda>r. tn_name (fst r) = name) (each_child proc vs childID acc)"
proof (induction vs arbitrary: childID acc)
  case (Cons v vs)
  have "yields (\<lambda>r. tn_name (fst r) = name) (each_child proc vs (childID + 1) (add_sizes child acc))" for child
    by (rule Cons.IH) (simp add: add_sizes_name Cons.prems)
  then show ?case by (auto intro!: yields_any)
qed simp

lemma children_named:
  assumes "tn_name node' = name"
  shows "yields (\<lambda>node. tn_name node = name) (bindR (each_child proc vs childID (node', 0)) (\<lambda>(node, memberSizes). returnR (setSize node (tn_dynamicSize node) memberSizes)))"
  by (rule yields_bind [OF each_child_named [of _ name]]) (use assms in auto)

lemma processElements_named: "tn_name node = name \<Longrightarrow> yields (\<lambda>node. tn_name node = name) (processElements da th n proc ts b node)"
  unfolding processElements_def Let_def by (auto intro!: yields_any children_named)

lemma processContainer_named: "tn_name node = name \<Longrightarrow> yields (\<lambda>node. tn_name node = name) (processContainer da th cfg n proc v node)"
proof -
  assume a: "tn_name node = name"
  have "yields (\<lambda>node. tn_name node = name) (bindR (container_switch da th proc kind ts node') (\<lambda>sw. case sw of Return node \<Rightarrow> returnR node
      | Break b node \<Rightarrow> processElements da th n proc ts b node))" if "tn_name node' = name" for kind ts node'
    by (rule yields_bind [OF container_switch_named [OF that]]) (auto intro!: processElements_named split: switch.split)
  then show ?thesis using a unfolding processContainer_def by (auto intro!: yields_any [where m = "liftR _"])
qed

lemma concrete_class_named: "tn_name node = name \<Longrightarrow> yields (\<lambda>r. tn_name (snd r) = name) (concrete_class da th t node)"
  unfolding concrete_class_def by (auto simp: Let_def split: option.splits intro!: yields_any)

lemma processClass_named: "tn_name node = name \<Longrightarrow> yields (\<lambda>node. tn_name node = name) (processClass da th proc v node)"
  unfolding processClass_def
  by (rule yields_bind [OF concrete_class_named [of _ name]]) (auto split: option.splits intro!: yields_any children_named)

lemma processPointer_named: "tn_name node = name \<Longrightarrow> yields (\<lambda>node. tn_name node = name) (processPointer da th cfg proc v node)"
  unfolding processPointer_def Let_def by (auto split: option.splits intro!: yields_any process_child_named)

lemma processTypedef_named: "tn_name node = name \<Longrightarrow> yields (\<lambda>node. tn_name node = name) (processTypedef th proc v node)"
  unfolding processTypedef_def Let_def by (auto split: option.splits intro!: process_child_named)

lemma process_kind_named: "tn_name node = name \<Longrightarrow> yields (\<lambda>node. tn_name node = name) (process_kind da th cfg n proc v node)"
  by (simp add: process_kind_def Let_def processPointer_named processTypedef_named processContainer_named processClass_named)

lemma kept_named:
  "tn_name node = name \<Longrightarrow> yields (\<lambda>node. tn_name node = name) (padding_stats cfg node)"
  "tn_name node = name \<Longrightarrow> yields (\<lambda>node. tn_name node = name) (db_put put node)"
  by (auto simp: yields_def padding_stats_def db_put_def split: option.splits if_splits)

lemma process_named: "yields (\<lambda>node. tn_name node = v_name v) (process da th cfg put n i v)"
proof (cases n)
  case (Suc k)
  have "yields (\<lambda>node. tn_name node = v_name v) (bindR (if v_isStubbed v then returnR node else bindR (process_kind da th cfg (Suc k) proc v node) (padding_stats cfg)) (db_put put))"
    if "tn_name node = v_name v" for node proc
    using that by (auto intro!: yields_bind [where Q = "\<lambda>node. tn_name node = v_name v"] kept_named process_kind_named)
  then show ?thesis by (simp add: Suc process_body_def Let_def) (rule yields_any, simp)
qed simp

lemma process_name: "process da th cfg put n i v s = (Inr node, s') \<Longrightarrow> tn_name node = v_name v"
  using process_named unfolding yields_def by blast

end
