(* ===== verification/StoredTree.thy ===== *)
theory StoredTree
  imports TreeNames
begin

text \<open>
  What the builder leaves in the database: a tree under the id of the root, whose nodes are all the ids that were handed out, each once,
  with exclusive sizes that account for every byte, so that \<^verbatim>\<open>JSON\<close> prints the tree.
\<close>

section \<open>Trees\<close>

text \<open>A tree of nodes, with the ids the nodes carry; \<open>stored\<close> says that the database holds it.\<close>

datatype tb_tree = TBTree (tree_node: tb_node) (tree_children: "tb_tree list")

definition root_id :: "tb_tree \<Rightarrow> nat" where
  "root_id t = unat (tn_id (tree_node t))"

fun tree_ids :: "tb_tree \<Rightarrow> nat list" where
  "tree_ids (TBTree node ts) = unat (tn_id node) # concat (map tree_ids ts)"

definition children_range :: "tb_node \<Rightarrow> nat list \<Rightarrow> bool" where
  "children_range node ids = (case tn_children node of None \<Rightarrow> ids = []
     | Some (a, b) \<Rightarrow> a < b \<and> ids = [unat a..<unat b])"

fun stored :: "(u64 \<rightharpoonup> tb_node) \<Rightarrow> tb_tree \<Rightarrow> bool" where
  "stored DB (TBTree node ts) = (DB (tn_id node) = Some node \<and> children_range node (map root_id ts) \<and> (\<forall>t \<in> set ts. stored DB t))"

definition node_size :: "tb_node \<Rightarrow> u64" where
  "node_size node = tn_staticSize node + tn_dynamicSize node"

definition sizes :: "tb_tree list \<Rightarrow> u64" where
  "sizes ts = sum_list (map (\<lambda>t. node_size (tree_node t)) ts)"

text \<open>The exclusive size of a node is what its size has above that of its children, or 0 if it has less.\<close>

definition exact :: "tb_node \<Rightarrow> tb_tree list \<Rightarrow> bool" where
  "exact node ts \<longleftrightarrow> tn_exclusiveSize node + sizes ts = node_size node"

definition cut_off :: "tb_node \<Rightarrow> tb_tree list \<Rightarrow> bool" where
  "cut_off node ts \<longleftrightarrow> tn_exclusiveSize node = 0 \<and> node_size node < sizes ts"

fun accounted :: "tb_tree \<Rightarrow> bool" where
  "accounted (TBTree node ts) = ((exact node ts \<or> cut_off node ts) \<and> (\<forall>t \<in> set ts. accounted t))"

fun exclusive_sum :: "tb_tree \<Rightarrow> u64" where
  "exclusive_sum (TBTree node ts) = tn_exclusiveSize node + sum_list (map exclusive_sum ts)"

fun no_cut_off :: "tb_tree \<Rightarrow> bool" where
  "no_cut_off (TBTree node ts) = (\<not> cut_off node ts \<and> (\<forall>t \<in> set ts. no_cut_off t))"

lemma exclusive_sum_exact: "accounted t \<Longrightarrow> no_cut_off t \<Longrightarrow> exclusive_sum t = node_size (tree_node t)"
proof (induction t)
  case (TBTree node ts)
  then have "sum_list (map exclusive_sum ts) = sizes ts" unfolding sizes_def by (intro arg_cong [where f = sum_list] map_cong) auto
  then show ?case using TBTree.prems by (simp add: exact_def)
qed

lemma accounted_setSize: "ms = sizes ts \<Longrightarrow> exact (setSize node d ms) ts \<or> cut_off (setSize node d ms) ts"
  by (auto simp: setSize_def exact_def cut_off_def node_size_def Let_def)

lemma setSize_simps [simp]:
  "tn_id (setSize node d m) = tn_id node" "tn_children (setSize node d m) = tn_children node"
  "tn_staticSize (setSize node d m) = tn_staticSize node" "tn_dynamicSize (setSize node d m) = d"
  "tn_containerStats (setSize node d m) = tn_containerStats node" "tn_typeName (setSize node d m) = tn_typeName node"
  by (simp_all add: setSize_def Let_def)

lemma setSize_whole [simp]: "tn_exclusiveSize (setSize node d 0) = tn_staticSize node + d"
  by (simp add: setSize_def Let_def)

text \<open>What the printed text of a tree is.\<close>

fun tree_json :: "tb_tree \<Rightarrow> string" where
  "tree_json (TBTree node ts) = json_node node @
     (case ts of [] \<Rightarrow> '''' | t # us \<Rightarrow> '','' @ quoted ''members'' @ '':'' @ ''['' @ tree_json t @ concat (map (\<lambda>t. '','' @ tree_json t) us) @ '']'') @ ''}''"

fun tree_depth :: "tb_tree \<Rightarrow> nat" where
  "tree_depth (TBTree node ts) = Suc (Max (insert 0 (tree_depth ` set ts)))"

lemma JSON_stored: "stored DB t \<Longrightarrow> tree_depth t \<le> n \<Longrightarrow> JSON DB n (tn_id (tree_node t)) out = Inr (out @ tree_json t)"
proof (induction t arbitrary: n out)
  case (TBTree node ts)
  then obtain k where n: "n = Suc k" by (cases n) auto
  have depth: "tree_depth t \<le> k" if "t \<in> set ts" for t
    using TBTree.prems(2) that by (simp add: n)
  have IH: "JSON DB k (tn_id (tree_node t)) out = Inr (out @ tree_json t)" if "t \<in> set ts" for t out
    using TBTree.IH [OF that _ depth [OF that]] TBTree.prems(1) that by simp
  have node: "DB (tn_id node) = Some node" and range: "children_range node (map root_id ts)" using TBTree.prems(1) by simp_all
  show ?case
  proof (cases ts)
    case Nil
    have "tn_children node = None"
    proof (cases "tn_children node")
      case (Some ab)
      then show ?thesis using range Nil by (cases ab) (auto simp: children_range_def word_less_nat_alt eq_commute [of "[]"])
    qed
    then show ?thesis using node Nil by (simp add: n)
  next
    case (Cons t us)
    obtain a b where ab: "tn_children node = Some (a, b)" "a < b" "map root_id ts = [unat a..<unat b]"
      using range by (auto simp: children_range_def Cons split: option.splits)
    have "[unat a..<unat b] = unat a # [unat a + 1..<unat b]" using ab(2) by (simp add: upt_conv_Cons word_less_nat_alt)
    then have ids: "root_id t = unat a" "map root_id us = [unat a + 1..<unat b]" using ab(3) by (simp_all add: Cons)
    have a: "a = tn_id (tree_node t)" using ids(1) by (simp add: root_id_def word_unat_eq_iff)
    have loop: "for_each (\<lambda>childID out. JSON DB k (of_nat childID) (out @ '','')) (map root_id vs) out =
        Inr (out @ concat (map (\<lambda>t. '','' @ tree_json t) vs))" if "set vs \<subseteq> set ts" for vs out
      using that
    proof (induction vs arbitrary: out)
      case (Cons v vs)
      then show ?case by (simp add: IH root_id_def)
    qed simp
    have "set us \<subseteq> set ts" by (auto simp: Cons)
    then show ?thesis
      using node ab(1,2) IH [of t] loop [of us, unfolded ids(2)] by (simp add: n Cons a [symmetric])
  qed
qed

section \<open>The contract of process\<close>

text \<open>
  What a run may change: it hands out the ids from \<open>nextNodeID s\<close> on, reads forward, and puts nodes under these ids and those of \<open>I\<close> only.
\<close>

definition moved :: "nat set \<Rightarrow> tree_builder \<Rightarrow> tree_builder \<Rightarrow> bool" where
  "moved I s s' \<longleftrightarrow> nextNodeID s \<le> nextNodeID s' \<and> oidDataIndex s \<le> oidDataIndex s' \<and> oidData s' = oidData s \<and>
     rootIDs s' = rootIDs s \<and>
     (nextNodeID s' < 2 ^ 64 \<longrightarrow> (\<forall>w. unat w \<notin> I \<longrightarrow> unat w \<notin> {nextNodeID s..<nextNodeID s'} \<longrightarrow> db s' w = db s w))"

lemma bindR_cases:
  assumes "bindR m f s = (r, s')"
  obtains (error) e where "m s = (Inl e, s')" "r = Inl e"
  | (step) x s1 where "m s = (Inr x, s1)" "f x s1 = (r, s')"
  using assms by (auto simp: bindR_def split: prod.splits sum.splits)

lemma run_simps [simp]: "returnR x s = (r, s') \<longleftrightarrow> r = Inr x \<and> s' = s" "liftR m s = (r, s') \<longleftrightarrow> r = m \<and> s' = s"
  by (auto simp: returnR_def liftR_def)

lemma moved_refl [simp]: "moved I s s"
  by (simp add: moved_def)

lemma moved_trans:
  assumes "moved I s s1" and "moved J s1 s2" and "J \<subseteq> I \<union> {nextNodeID s..<nextNodeID s1}"
  shows "moved I s s2"
proof -
  have "db s2 w = db s w" if "nextNodeID s2 < 2 ^ 64" "unat w \<notin> I" "unat w \<notin> {nextNodeID s..<nextNodeID s2}" for w
  proof -
    have mono: "nextNodeID s \<le> nextNodeID s1" "nextNodeID s1 \<le> nextNodeID s2" using assms(1,2) by (simp_all add: moved_def)
    then have "unat w \<notin> {nextNodeID s..<nextNodeID s1}" "unat w \<notin> {nextNodeID s1..<nextNodeID s2}" using that(3) by auto
    moreover from this have "unat w \<notin> J" using assms(3) that(2) by blast
    ultimately have "db s2 w = db s1 w" "db s1 w = db s w" using assms(1,2) that(1,2) mono unfolding moved_def by simp_all
    then show ?thesis by simp
  qed
  then show ?thesis using assms(1,2) by (simp add: moved_def)
qed

lemma moved_mono: "moved I s s' \<Longrightarrow> I \<subseteq> J \<Longrightarrow> moved J s s'"
  unfolding moved_def by blast

text \<open>Every class that can be found in place of another has members.\<close>

definition complete :: "'d type_hierarchy \<Rightarrow> bool" where
  "complete th \<longleftrightarrow> (\<forall>t ts d. th_descendantClasses th t = Some ts \<longrightarrow> d \<in> set ts \<longrightarrow> th_classMembers th d \<notin> {None, Some []})"

text \<open>The numbers of children are below \<open>2 ^ 64\<close>: the lengths are words of the data, or 0 or 1.\<close>

definition no_wrap :: "'d type_hierarchy \<Rightarrow> u64 list \<Rightarrow> bool" where
  "no_wrap th data \<longleftrightarrow> (\<forall>t k ts. th_containerTypes th t = Some (k, ts) \<longrightarrow> length ts < 2 ^ 64 \<and> (\<forall>w \<in> set data. unat w * length ts < 2 ^ 64))"

text \<open>The trees below a node that has been completed, and a node with its tree.\<close>

definition forest :: "'d type_hierarchy \<Rightarrow> tree_builder \<Rightarrow> tb_tree list \<Rightarrow> nat set \<Rightarrow> bool" where
  "forest th s ts ids \<longleftrightarrow> (\<forall>t \<in> set ts. stored (db s) t) \<and> distinct (concat (map tree_ids ts)) \<and> set (concat (map tree_ids ts)) = ids \<and>
     (complete th \<longrightarrow> (\<forall>t \<in> set ts. accounted t))"

definition grown :: "'d type_hierarchy \<Rightarrow> tb_node \<Rightarrow> tree_builder \<Rightarrow> tb_node outcome \<Rightarrow> tree_builder \<Rightarrow> bool" where
  "grown th node s r s' \<longleftrightarrow> moved {} s s' \<and> (\<forall>node'. r = Inr node' \<longrightarrow> nextNodeID s' < 2 ^ 64 \<longrightarrow>
     tn_id node' = tn_id node \<and> (\<exists>ts. children_range node' (map root_id ts) \<and> forest th s' ts {nextNodeID s..<nextNodeID s'} \<and>
       (complete th \<longrightarrow> exact node' ts \<or> cut_off node' ts)))"

definition processed :: "'d type_hierarchy \<Rightarrow> nat \<Rightarrow> tree_builder \<Rightarrow> tb_node outcome \<Rightarrow> tree_builder \<Rightarrow> bool" where
  "processed th i s r s' \<longleftrightarrow> moved {i} s s' \<and> (\<forall>node. r = Inr node \<longrightarrow> nextNodeID s' < 2 ^ 64 \<longrightarrow> i < nextNodeID s \<longrightarrow>
     (\<exists>t. tree_node t = node \<and> root_id t = i \<and> forest th s' [t] (insert i {nextNodeID s..<nextNodeID s'})))"

text \<open>A forest stays stored when nodes with other ids are put.\<close>

lemma stored_frame: "stored DB t \<Longrightarrow> (\<And>w. unat w \<in> set (tree_ids t) \<Longrightarrow> DB' w = DB w) \<Longrightarrow> stored DB' t"
  by (induction t) auto

lemma forest_frame:
  assumes "forest th s ts ids" and "\<And>w. unat w \<in> ids \<Longrightarrow> db s' w = db s w"
  shows "forest th s' ts ids"
proof -
  have "stored (db s') t" if "t \<in> set ts" for t
  proof (rule stored_frame)
    show "stored (db s) t" using assms(1) that by (simp add: forest_def)
    show "db s' w = db s w" if "unat w \<in> set (tree_ids t)" for w
      using assms \<open>t \<in> set ts\<close> that unfolding forest_def by (intro assms(2)) auto
  qed
  then show ?thesis using assms(1) by (simp add: forest_def)
qed

lemma forest_moved:
  assumes "forest th s ts ids" and "moved J s s'" and "nextNodeID s' < 2 ^ 64" and "ids \<inter> J = {}" and "\<And>i. i \<in> ids \<Longrightarrow> i < nextNodeID s"
  shows "forest th s' ts ids"
  using assms(1)
proof (rule forest_frame)
  fix w :: u64 assume "unat w \<in> ids"
  moreover from this have "unat w \<notin> J" "unat w < nextNodeID s" using assms(4,5) by blast+
  ultimately show "db s' w = db s w" using assms(2,3) by (simp add: moved_def)
qed

lemma forest_append:
  assumes "forest th s ts ids" and "forest th s us ids'" and "ids \<inter> ids' = {}"
  shows "forest th s (ts @ us) (ids \<union> ids')"
  using assms by (auto simp: forest_def)

text \<open>A run that only reads, and what it may do with a node that has no children yet.\<close>

definition calm :: "tree_builder \<Rightarrow> tree_builder \<Rightarrow> bool" where
  "calm s s' \<longleftrightarrow> nextNodeID s' = nextNodeID s \<and> db s' = db s \<and> oidData s' = oidData s \<and> rootIDs s' = rootIDs s \<and>
     oidDataIndex s \<le> oidDataIndex s'"

definition whole :: "tb_node \<Rightarrow> tb_node \<Rightarrow> bool" where
  "whole node node' \<longleftrightarrow> tn_id node' = tn_id node \<and> tn_children node' = None \<and> tn_exclusiveSize node' = node_size node'"

lemma calm_refl [simp]: "calm s s"
  by (simp add: calm_def)

lemma calm_trans: "calm s s1 \<Longrightarrow> calm s1 s2 \<Longrightarrow> calm s s2"
  by (simp add: calm_def)

lemma calm_moved: "calm s s' \<Longrightarrow> moved I s s'"
  by (simp add: calm_def moved_def)

lemma next_word_cases:
  assumes "next_word s = (r, s')"
  obtains (error) "r = Inl (Throw ''Unexpected end of data'')" "calm s s'"
  | (word) w where "r = Inr w" "calm s s'" "w \<in> set (oidData s)" "oidDataIndex s < oidDataIndex s'" "oidDataIndex s' \<le> length (oidData s)"
  using assms by (auto simp: next_word_def calm_def split: if_splits)

lemma grown_leaf: "calm s s' \<Longrightarrow> whole node node' \<Longrightarrow> grown th node s (Inr node') s'"
  unfolding grown_def
  by (auto simp: calm_moved calm_def whole_def children_range_def forest_def exact_def sizes_def intro!: exI [of _ "[]"])

lemma grown_error: "moved {} s s' \<Longrightarrow> grown th node s (Inl e) s'"
  by (simp add: grown_def)

lemma grown_calm:
  assumes "calm s s1" and "tn_id node1 = tn_id node" and "grown th node1 s1 r s'"
  shows "grown th node s r s'"
proof -
  have "moved {} s s'" using moved_trans [OF calm_moved [OF assms(1)], of "{}"] assms(3) by (simp add: grown_def)
  moreover have eq: "nextNodeID s1 = nextNodeID s" using assms(1) by (simp add: calm_def)
  ultimately show ?thesis using assms(3) [unfolded grown_def eq assms(2)] unfolding grown_def by blast
qed

lemma children_range_upt:
  assumes "0 < n" and "a + n < 2 ^ 64" and "tn_children node = Some (of_nat a, of_nat a + of_nat n)"
  shows "children_range node [a..<a + n]"
proof -
  have "unat (of_nat k :: u64) = k" if "k < 2 ^ 64" for k
    using that by (simp add: unat_of_nat take_bit_nat_eq_self)
  from this [of a] this [of "a + n"] have "unat (of_nat a :: u64) = a" "unat (of_nat a + of_nat n :: u64) = a + n"
    using assms(2) by simp_all
  then show ?thesis using assms(1,3) by (simp add: children_range_def word_less_nat_alt)
qed

text \<open>The children of one node: ids in a row, with everything below them.\<close>

definition grown_children :: "'d type_hierarchy \<Rightarrow> nat set \<Rightarrow> nat list \<Rightarrow> tb_node \<times> u64 \<Rightarrow> tree_builder \<Rightarrow> (tb_node \<times> u64) outcome \<Rightarrow>
    tree_builder \<Rightarrow> bool" where
  "grown_children th I ids acc s r s' \<longleftrightarrow> moved I s s' \<and> (\<forall>node' m'. r = Inr (node', m') \<longrightarrow> nextNodeID s' < 2 ^ 64 \<longrightarrow>
     (\<exists>ts. map root_id ts = ids \<and> forest th s' ts (set ids \<union> {nextNodeID s..<nextNodeID s'}) \<and> m' = snd acc + sizes ts \<and>
       node' = (fst acc)\<lparr>tn_dynamicSize := tn_dynamicSize node'\<rparr>))"

text \<open>
  Runs that only read: \<open>quiet W P m\<close> says that \<open>m\<close>, on data with the words \<open>W\<close>, ends without \<open>Diverge\<close>, and where it returns \<open>x\<close> after
  reading \<open>k\<close> words, \<open>P k x\<close> holds.
\<close>

definition quiet :: "u64 set \<Rightarrow> (nat \<Rightarrow> 'a \<Rightarrow> bool) \<Rightarrow> (tree_builder, 'a) run \<Rightarrow> bool" where
  "quiet W P m \<longleftrightarrow> (\<forall>s r s'. set (oidData s) = W \<longrightarrow> m s = (r, s') \<longrightarrow> calm s s' \<and> r \<noteq> Inl Diverge \<and>
     (oidDataIndex s \<le> length (oidData s) \<longrightarrow> oidDataIndex s' \<le> length (oidData s)) \<and>
     (\<forall>x. r = Inr x \<longrightarrow> P (oidDataIndex s' - oidDataIndex s) x))"

named_theorems quiet_intros "runs that only read"

lemma quietD:
  assumes "quiet W P m" and "set (oidData s) = W" and "m s = (r, s')"
  shows "calm s s'" "r \<noteq> Inl Diverge" "r = Inr x \<Longrightarrow> P (oidDataIndex s' - oidDataIndex s) x"
    "oidDataIndex s \<le> length (oidData s) \<Longrightarrow> oidDataIndex s' \<le> length (oidData s)"
  using assms unfolding quiet_def by blast+

lemma quiet_return [quiet_intros]: "P 0 x \<Longrightarrow> quiet W P (returnR x)"
  by (simp add: quiet_def)

lemma quiet_lift [quiet_intros]: "m \<noteq> Inl Diverge \<Longrightarrow> (\<And>x. m = Inr x \<Longrightarrow> P 0 x) \<Longrightarrow> quiet W P (liftR m)"
  by (simp add: quiet_def)

lemma quiet_bind:
  assumes "quiet W Q m" and "\<And>k x. Q k x \<Longrightarrow> quiet W (\<lambda>k'. P (k + k')) (f x)"
  shows "quiet W P (bindR m f)"
  unfolding quiet_def
proof (intro allI impI)
  fix s r s' assume W: "set (oidData s) = W" and "bindR m f s = (r, s')"
  from this(2) show "calm s s' \<and> r \<noteq> Inl Diverge \<and>
     (oidDataIndex s \<le> length (oidData s) \<longrightarrow> oidDataIndex s' \<le> length (oidData s)) \<and>
     (\<forall>x. r = Inr x \<longrightarrow> P (oidDataIndex s' - oidDataIndex s) x)"
  proof (cases rule: bindR_cases)
    case (error e)
    then show ?thesis using quietD [OF assms(1) W error(1)] by simp
  next
    case (step x s1)
    note m = quietD [OF assms(1) W step(1)]
    have W1: "set (oidData s1) = W" "oidData s1 = oidData s" using m(1) W by (simp_all add: calm_def)
    note f = quietD [OF assms(2) [OF m(3) [OF refl]] W1(1) step(2)]
    have "oidDataIndex s1 - oidDataIndex s + (oidDataIndex s' - oidDataIndex s1) = oidDataIndex s' - oidDataIndex s"
      using m(1) f(1) by (simp add: calm_def)
    then show ?thesis using m f W1(2) calm_trans [OF m(1) f(1)] by auto
  qed
qed

lemma quiet_next_word: "quiet W (\<lambda>k w. k = 1 \<and> w \<in> W) next_word"
  by (auto simp: quiet_def next_word_def calm_def split: if_splits)

lemma quiet_bind_next [quiet_intros]:
  "(\<And>w. w \<in> W \<Longrightarrow> quiet W (\<lambda>k. P (Suc k)) (f w)) \<Longrightarrow> quiet W P (bindR next_word f)"
  by (rule quiet_bind [OF quiet_next_word]) simp

lemma quiet_bind_lift [quiet_intros]:
  "m \<noteq> Inl Diverge \<Longrightarrow> (\<And>x. m = Inr x \<Longrightarrow> quiet W P (f x)) \<Longrightarrow> quiet W P (bindR (liftR m) f)"
  by (rule quiet_bind [where Q = "\<lambda>k x. k = 0 \<and> m = Inr x"]) (simp_all add: quiet_def)

lemma quiet_if [quiet_intros]: "(b \<Longrightarrow> quiet W P m) \<Longrightarrow> (\<not> b \<Longrightarrow> quiet W P m') \<Longrightarrow> quiet W P (if b then m else m')"
  by simp

lemma quiet_mono: "quiet W P m \<Longrightarrow> (\<And>k x. P k x \<Longrightarrow> P' k x) \<Longrightarrow> quiet W P' m"
  unfolding quiet_def by blast

lemma stats_simps [simp]:
  "tn_id (stats l c node) = tn_id node" "tn_children (stats l c node) = tn_children node"
  "tn_exclusiveSize (stats l c node) = tn_exclusiveSize node" "tn_staticSize (stats l c node) = tn_staticSize node"
  "tn_dynamicSize (stats l c node) = tn_dynamicSize node"
  "tn_containerStats (stats l c node) = map_option (\<lambda>s. s\<lparr>st_length := l, st_capacity := c\<rparr>) (tn_containerStats node)"
  by (simp_all add: stats_def)

lemma set_element_size_simps [simp]:
  "tn_id (set_element_size n node) = tn_id node" "tn_children (set_element_size n node) = tn_children node"
  "tn_exclusiveSize (set_element_size n node) = tn_exclusiveSize node" "tn_staticSize (set_element_size n node) = tn_staticSize node"
  "tn_dynamicSize (set_element_size n node) = tn_dynamicSize node"
  "tn_containerStats (set_element_size n node) = map_option (\<lambda>s. s\<lparr>st_elementStaticSize := n\<rparr>) (tn_containerStats node)"
  by (simp_all add: set_element_size_def)

lemma set_pointer_simps [simp]:
  "tn_id (set_pointer p node) = tn_id node" "tn_children (set_pointer p node) = tn_children node"
  "tn_exclusiveSize (set_pointer p node) = tn_exclusiveSize node" "tn_staticSize (set_pointer p node) = tn_staticSize node"
  "tn_dynamicSize (set_pointer p node) = tn_dynamicSize node" "tn_containerStats (set_pointer p node) = tn_containerStats node"
  by (simp_all add: set_pointer_def)

text \<open>A node that a switch hands on has lengths that were read, or 0 or 1; without reading, only a pair has an element.\<close>

definition switched :: "u64 set \<Rightarrow> container_type \<Rightarrow> tb_node \<Rightarrow> nat \<Rightarrow> switch \<Rightarrow> bool" where
  "switched W kind node k sw = (case sw of
      Return node' \<Rightarrow> whole node node'
    | Break inline node' \<Rightarrow> whole node node' \<and> (case tn_containerStats node' of None \<Rightarrow> False
        | Some st \<Rightarrow> st_length st \<in> insert 0 (insert 1 W) \<and> (st_length st = 0 \<or> kind = PAIR_TYPE \<or> 0 < k)))"

lemma switch_quiet:
  assumes "tn_children node = None" "tn_exclusiveSize node = node_size node" "tn_containerStats node = Some \<lparr>st_length = 0, st_capacity = 0, st_elementStaticSize = sz\<rparr>"
    and "kind \<notin> {SORTED_VEC_SET_TYPE, CONTAINER_ADAPTER_TYPE, STD_VARIANT_TYPE}"
  shows "quiet W (switched W kind node) (container_switch da th proc kind ts node)"
  using assms(4)
  by (cases kind; simp add: container_switch_def Let_def pointer_container_def capacity_length_def length_only_def;
      (intro quiet_intros)?; auto simp: switched_def whole_def assms(1-3) node_size_def assertE_def capacity_length_def intro!: quiet_intros)

text \<open>A node before its kind is looked at, and what a switch leaves.\<close>

definition fresh_node :: "tb_node \<Rightarrow> bool" where
  "fresh_node node \<longleftrightarrow> tn_children node = None \<and> tn_dynamicSize node = 0 \<and> tn_exclusiveSize node = node_size node"

definition switch_post :: "'d type_hierarchy \<Rightarrow> tb_node \<Rightarrow> tree_builder \<Rightarrow> switch outcome \<Rightarrow> tree_builder \<Rightarrow> bool" where
  "switch_post th node s r s' \<longleftrightarrow> (case r of
      Inl e \<Rightarrow> moved {} s s'
    | Inr (Return node') \<Rightarrow> grown th node s (Inr node') s'
    | Inr (Break inline node') \<Rightarrow> calm s s' \<and> whole node node' \<and>
        (\<exists>st. tn_containerStats node' = Some st \<and> st_length st \<in> insert 0 (insert 1 (set (oidData s)))))"

lemma whole_trans: "whole node1 node2 \<Longrightarrow> tn_id node1 = tn_id node \<Longrightarrow> whole node node2"
  by (simp add: whole_def)

lemma fresh_whole: "fresh_node node \<Longrightarrow> whole node node"
  by (simp add: fresh_node_def whole_def)

lemma exact_cong: "tn_exclusiveSize node = tn_exclusiveSize node' \<Longrightarrow> node_size node = node_size node' \<Longrightarrow>
    exact node ts \<or> cut_off node ts \<longleftrightarrow> exact node' ts \<or> cut_off node' ts"
  by (simp add: exact_def cut_off_def)

lemma sizes_single: "sizes [t] = node_size (tree_node t)"
  by (simp add: sizes_def)

locale tree_process =
  fixes th :: "'d type_hierarchy" and process :: "'d tb_process"
  assumes process_ok: "no_wrap th (oidData s) \<Longrightarrow> i < nextNodeID s \<Longrightarrow> process (of_nat i) v s = (r, s') \<Longrightarrow> processed th i s r s'"
begin

lemma each_child_ok:
  assumes "each_child process vs (of_nat a) acc s = (r, s')" and "no_wrap th (oidData s)"
    and "\<And>m s r s'. m \<in> set vs \<Longrightarrow> m s = (r, s') \<Longrightarrow> calm s s'" and "a + length vs \<le> nextNodeID s"
  shows "grown_children th {a..<a + length vs} [a..<a + length vs] acc s r s'"
  using assms
proof (induction vs arbitrary: a acc s)
  case Nil
  then show ?case by (auto simp: grown_children_def forest_def sizes_def)
next
  case (Cons v vs)
  let ?I = "{a..<a + length (v # vs)}" and ?J = "{a + 1..<a + 1 + length vs}"
  have a: "(of_nat a + 1 :: u64) = of_nat (a + 1)" by simp
  from Cons.prems(1) [unfolded each_child.simps a] show ?case
  proof (cases rule: bindR_cases)
    case (error e)
    then have "calm s s'" using Cons.prems(3) [of v s] by simp
    then show ?thesis using error(2) by (simp add: grown_children_def calm_moved)
  next
    case (step x s1)
    then have s1: "calm s s1" using Cons.prems(3) [of v s] by simp
    then have eqs: "nextNodeID s1 = nextNodeID s" "no_wrap th (oidData s1)" using Cons.prems(2) by (simp_all add: calm_def)
    from step(2) show ?thesis
    proof (cases rule: bindR_cases)
      case (error e)
      then have "processed th a s1 (Inl e) s'" using process_ok [OF eqs(2)] Cons.prems(4) eqs(1) by simp
      then have "moved ?I s s'" using moved_trans [OF calm_moved [OF s1], of "{a}" s' ?I] by (simp add: processed_def)
      then show ?thesis using error(2) by (simp add: grown_children_def)
    next
      case (step child s2)
      then have proc: "processed th a s1 (Inr child) s2" using process_ok [OF eqs(2)] Cons.prems(4) eqs(1) by simp
      then have m2: "moved ?I s s2" using moved_trans [OF calm_moved [OF s1], of "{a}" s2 ?I] by (simp add: processed_def)
      then have s2: "no_wrap th (oidData s2)" "a + 1 + length vs \<le> nextNodeID s2" "nextNodeID s \<le> nextNodeID s2"
        using Cons.prems(2,4) by (simp_all add: moved_def)
      have rest: "grown_children th ?J [a + 1..<a + 1 + length vs] (add_sizes child acc) s2 r s'"
        by (rule Cons.IH [OF step(2) s2(1) _ s2(2)]) (use Cons.prems(3) in auto)
      then have m3: "moved ?J s2 s'" by (simp add: grown_children_def)
      have "moved ?I s s'" by (rule moved_trans [OF m2 m3]) auto
      moreover have "\<exists>ts. map root_id ts = [a..<a + length (v # vs)] \<and>
          forest th s' ts (set [a..<a + length (v # vs)] \<union> {nextNodeID s..<nextNodeID s'}) \<and> m' = snd acc + sizes ts \<and>
          node' = (fst acc)\<lparr>tn_dynamicSize := tn_dynamicSize node'\<rparr>"
        if r: "r = Inr (node', m')" and bound: "nextNodeID s' < 2 ^ 64" for node' m'
      proof -
        have mono: "nextNodeID s2 \<le> nextNodeID s'" using m3 by (simp add: moved_def)
        obtain ts where ts: "map root_id ts = [a + 1..<a + 1 + length vs]" "forest th s' ts (?J \<union> {nextNodeID s2..<nextNodeID s'})"
          "m' = snd (add_sizes child acc) + sizes ts" "node' = (fst (add_sizes child acc))\<lparr>tn_dynamicSize := tn_dynamicSize node'\<rparr>"
          using rest r bound unfolding grown_children_def by (metis set_upt)
        obtain t where t: "tree_node t = child" "root_id t = a" "forest th s2 [t] (insert a {nextNodeID s..<nextNodeID s2})"
          using proc bound mono Cons.prems(4) unfolding processed_def eqs(1) by auto
        have "forest th s' [t] (insert a {nextNodeID s..<nextNodeID s2})"
          by (rule forest_moved [OF t(3) m3 bound]) (use Cons.prems(4) s2(3) in auto)
        then have "forest th s' ([t] @ ts) (insert a {nextNodeID s..<nextNodeID s2} \<union> (?J \<union> {nextNodeID s2..<nextNodeID s'}))"
          by (rule forest_append [OF _ ts(2)]) (use Cons.prems(4) s2(3) in auto)
        moreover have "insert a {nextNodeID s..<nextNodeID s2} \<union> (?J \<union> {nextNodeID s2..<nextNodeID s'}) =
            set [a..<a + length (v # vs)] \<union> {nextNodeID s..<nextNodeID s'}" using s2(3) mono by (auto simp: Suc_le_eq)
        moreover have "map root_id ([t] @ ts) = [a..<a + length (v # vs)]" using ts(1) t(2) by (simp add: upt_conv_Cons del: upt_Suc)
        moreover have "m' = snd acc + sizes ([t] @ ts)" using ts(3) t(1)
          by (cases acc) (simp add: add_sizes_def sizes_def node_size_def algebra_simps)
        moreover have "node' = (fst acc)\<lparr>tn_dynamicSize := tn_dynamicSize node'\<rparr>" using ts(4) by (cases acc) (simp add: add_sizes_def)
        ultimately show ?thesis by metis
      qed
      ultimately show ?thesis by (simp add: grown_children_def)
    qed
  qed
qed

lemma new_ids:
  assumes "newNodeIDs n s = (r, s1)"
  shows "r = Inr (of_nat (nextNodeID s))" "nextNodeID s1 = nextNodeID s + n" "moved {} s s1" "oidData s1 = oidData s"
    "oidDataIndex s1 = oidDataIndex s"
  using assms by (auto simp: newNodeIDs_def moved_def)

lemma process_child_ok:
  assumes "process_child process v node f s = (r, s')" and "no_wrap th (oidData s)"
    and "\<And>child n. tn_id (f child n) = tn_id n" "\<And>child n. tn_children (f child n) = tn_children n"
    and "\<And>t n. exact (f (tree_node t) n) [t] \<or> cut_off (f (tree_node t) n) [t]"
  shows "grown th node s r s'"
proof -
  let ?a = "nextNodeID s"
  from assms(1) [unfolded process_child_def] show ?thesis
  proof (cases rule: bindR_cases)
    case (error e)
    then show ?thesis using new_ids(1) by blast
  next
    case (step childID s1)
    note ids = new_ids [OF step(1)]
    from step(2) have "bindR (process (of_nat ?a) v) (\<lambda>child. returnR (f child (node\<lparr>tn_children := Some (childID, childID + 1)\<rparr>))) s1 = (r, s')"
      using ids(1) by simp
    then show ?thesis
    proof (cases rule: bindR_cases)
      case (error e)
      then have "processed th ?a s1 (Inl e) s'" using process_ok [of s1] ids(2,4) assms(2) by simp
      then have "moved {} s s'" using moved_trans [OF ids(3), of "{?a}"] ids(2) by (simp add: processed_def)
      then show ?thesis using error(2) by (simp add: grown_def)
    next
      case (step child s2)
      then have proc: "processed th ?a s1 (Inr child) s2" using process_ok [of s1] ids(2,4) assms(2) by simp
      have s2: "s' = s2" "r = Inr (f child (node\<lparr>tn_children := Some (childID, childID + 1)\<rparr>))" using step(2) by simp_all
      have moved: "moved {} s s'" using moved_trans [OF ids(3), of "{?a}"] ids(2) proc s2(1) by (simp add: processed_def)
      moreover have "\<exists>ts. children_range node' (map root_id ts) \<and> forest th s' ts {?a..<nextNodeID s'} \<and>
          (complete th \<longrightarrow> exact node' ts \<or> cut_off node' ts)" if r: "r = Inr node'" and bound: "nextNodeID s' < 2 ^ 64" for node'
      proof -
        have mono: "?a + 1 \<le> nextNodeID s'" using proc ids(2) s2(1) by (simp add: processed_def moved_def)
        obtain t where t: "tree_node t = child" "root_id t = ?a" "forest th s' [t] (insert ?a {?a + 1..<nextNodeID s'})"
          using proc bound ids(2) s2(1) unfolding processed_def by auto
        have node': "node' = f (tree_node t) (node\<lparr>tn_children := Some (of_nat ?a, of_nat ?a + of_nat 1)\<rparr>)" using r s2(2) ids(1) t(1) by simp
        have "children_range node' [?a..<?a + 1]"
          by (rule children_range_upt) (use bound mono in \<open>simp_all add: node' assms(4)\<close>)
        moreover have "insert ?a {?a + 1..<nextNodeID s'} = {?a..<nextNodeID s'}" using mono by auto
        ultimately show ?thesis using t assms(5) [of t] by (intro exI [of _ "[t]"]) (simp add: node')
      qed
      ultimately show ?thesis using s2(2) by (simp add: grown_def assms(3))
    qed
  qed
qed

lemma children_ok:
  assumes "bindR (newNodeIDs (length vs)) (\<lambda>childID.
      bindR (each_child process vs childID (node\<lparr>tn_children := Some (childID, childID + of_nat (length vs))\<rparr>, 0)) (\<lambda>(node, memberSizes).
      returnR (setSize node (tn_dynamicSize node) memberSizes))) s = (r, s')"
    and "no_wrap th (oidData s)" and "\<And>m s r s'. m \<in> set vs \<Longrightarrow> m s = (r, s') \<Longrightarrow> calm s s'" and "0 < length vs"
  shows "grown th node s r s'"
proof -
  let ?a = "nextNodeID s"
  let ?node = "node\<lparr>tn_children := Some (of_nat ?a, of_nat ?a + of_nat (length vs))\<rparr>"
  from assms(1) show ?thesis
  proof (cases rule: bindR_cases)
    case (error e)
    then show ?thesis using new_ids(1) by blast
  next
    case (step childID s1)
    note ids = new_ids [OF step(1)]
    from step(2) have "bindR (each_child process vs (of_nat ?a) (?node, 0)) (\<lambda>(node, memberSizes).
        returnR (setSize node (tn_dynamicSize node) memberSizes)) s1 = (r, s')" using ids(1) by simp
    then show ?thesis
    proof (cases rule: bindR_cases)
      case (error e)
      then have "grown_children th {?a..<?a + length vs} [?a..<?a + length vs] (?node, 0) s1 (Inl e) s'"
        using each_child_ok [of vs ?a "(?node, 0)" s1 "Inl e" s'] ids assms(2,3) by simp
      then have "moved {} s s'" using moved_trans [OF ids(3), of "{?a..<?a + length vs}"] ids(2) by (simp add: grown_children_def)
      then show ?thesis using error(2) by (simp add: grown_def)
    next
      case (step acc s2)
      obtain n m where acc: "acc = (n, m)" by fastforce
      have s2: "s' = s2" "r = Inr (setSize n (tn_dynamicSize n) m)" using step(2) by (simp_all add: acc)
      have grown: "grown_children th {?a..<?a + length vs} [?a..<?a + length vs] (?node, 0) s1 (Inr (n, m)) s'"
        using each_child_ok [OF step(1)] ids assms(2,3) by (simp add: acc s2(1))
      have moved: "moved {} s s'" using moved_trans [OF ids(3), of "{?a..<?a + length vs}"] ids(2) grown by (simp add: grown_children_def)
      moreover have "tn_id node' = tn_id node \<and> (\<exists>ts. children_range node' (map root_id ts) \<and> forest th s' ts {?a..<nextNodeID s'} \<and>
          (complete th \<longrightarrow> exact node' ts \<or> cut_off node' ts))" if r: "r = Inr node'" and bound: "nextNodeID s' < 2 ^ 64" for node'
      proof -
        have mono: "?a + length vs \<le> nextNodeID s'" using grown ids(2) by (simp add: grown_children_def moved_def)
        obtain ts where ts: "map root_id ts = [?a..<?a + length vs]"
            "forest th s' ts (set [?a..<?a + length vs] \<union> {?a + length vs..<nextNodeID s'})" "m = sizes ts"
            "n = ?node\<lparr>tn_dynamicSize := tn_dynamicSize n\<rparr>"
          using grown bound ids(2) unfolding grown_children_def by auto
        have node': "node' = setSize n (tn_dynamicSize n) m" using r s2(2) by simp
        have n: "tn_id n = tn_id node" "tn_children n = Some (of_nat ?a, of_nat ?a + of_nat (length vs))"
          by (subst ts(4), simp)+
        have range: "children_range node' (map root_id ts)" unfolding ts(1)
          by (rule children_range_upt [OF assms(4)]) (use bound mono in \<open>simp_all add: node' n(2)\<close>)
        have all: "set [?a..<?a + length vs] \<union> {?a + length vs..<nextNodeID s'} = {?a..<nextNodeID s'}" using mono by auto
        have "exact node' ts \<or> cut_off node' ts" unfolding node' by (rule accounted_setSize [OF ts(3)])
        moreover have "tn_id node' = tn_id node" by (simp add: node' n(1))
        ultimately show ?thesis using range ts(2) unfolding all by blast
      qed
      ultimately show ?thesis unfolding grown_def by blast
    qed
  qed
qed

lemma children_ok':
  "bindR (newNodeIDs n) (\<lambda>childID.
      bindR (each_child process vs childID (node\<lparr>tn_children := Some (childID, childID + w)\<rparr>, 0)) (\<lambda>(node, memberSizes).
      returnR (setSize node (tn_dynamicSize node) memberSizes))) s = (r, s') \<Longrightarrow> n = length vs \<Longrightarrow> w = of_nat (length vs) \<Longrightarrow>
   no_wrap th (oidData s) \<Longrightarrow> (\<And>m s r s'. m \<in> set vs \<Longrightarrow> m s = (r, s') \<Longrightarrow> calm s s') \<Longrightarrow> 0 < length vs \<Longrightarrow> grown th node s r s'"
  by (hypsubst, rule children_ok)

lemma variant_ok:
  assumes "variant_child da process ts node s = (r, s')" and "no_wrap th (oidData s)" and "fresh_node node"
  shows "switch_post th node s r s'"
proof -
  from assms(1) [unfolded variant_child_def] show ?thesis
  proof (cases rule: bindR_cases)
    case (error e)
    then show ?thesis by (auto simp: switch_post_def calm_moved elim: next_word_cases)
  next
    case (step index s1)
    then have s1: "calm s s1" by (auto elim: next_word_cases)
    then have data: "no_wrap th (oidData s1)" using assms(2) by (simp add: calm_def)
    show ?thesis
    proof (cases "unat index < length ts")
      case False
      then show ?thesis using step(2) grown_leaf [OF s1 fresh_whole [OF assms(3)]] by (simp add: switch_post_def)
    next
      case True
      from step(2) [simplified if_P [OF True]] show ?thesis
      proof (cases rule: bindR_cases)
        case (error e)
        then have "grown th node s1 (Inl e) s'"
          by (rule_tac process_child_ok [OF error(1) data]) (simp_all add: accounted_setSize sizes_single node_size_def add.commute)
        then show ?thesis using grown_calm [OF s1 refl] error(2) by (fastforce simp: switch_post_def grown_def)
      next
        case (step node' s2)
        then have "grown th node s1 (Inr node') s2"
          by (rule_tac process_child_ok [OF step(1) data]) (simp_all add: accounted_setSize sizes_single node_size_def add.commute)
        then show ?thesis using grown_calm [OF s1 refl] step(2) by (fastforce simp: switch_post_def)
      qed
    qed
  qed
qed

lemma adapter_ok:
  assumes "adapter_child da process ts node s = (r, s')" and "no_wrap th (oidData s)" and "fresh_node node"
  shows "switch_post th node s r s'"
proof -
  let ?f = "\<lambda>child node. (setSize node (tn_dynamicSize child) (tn_dynamicSize child + tn_staticSize child))\<lparr>tn_containerStats := tn_containerStats child\<rparr>"
  have f: "exact (?f (tree_node t) n) [t] \<or> cut_off (?f (tree_node t) n) [t]" for t n
  proof -
    have "exact (setSize n (tn_dynamicSize (tree_node t)) (tn_dynamicSize (tree_node t) + tn_staticSize (tree_node t))) [t] \<or>
        cut_off (setSize n (tn_dynamicSize (tree_node t)) (tn_dynamicSize (tree_node t) + tn_staticSize (tree_node t))) [t]"
      by (rule accounted_setSize) (simp add: sizes_single node_size_def)
    then show ?thesis by (subst exact_cong) (simp_all add: node_size_def)
  qed
  from assms(1) [unfolded adapter_child_def] show ?thesis
  proof (cases rule: bindR_cases)
    case (error e)
    then show ?thesis by (auto simp: switch_post_def calm_moved elim: next_word_cases)
  next
    case (step p s1)
    then have s1: "calm s s1" by (auto elim: next_word_cases)
    then have data: "no_wrap th (oidData s1)" using assms(2) by (simp add: calm_def)
    show ?thesis
    proof (cases "ts = []")
      case True
      then show ?thesis using step(2) s1 by (simp add: switch_post_def calm_moved)
    next
      case False
      from step(2) [simplified if_not_P [OF False]] show ?thesis
      proof (cases rule: bindR_cases)
        case (error e)
        then have "grown th (set_pointer p node) s1 (Inl e) s'"
          by (rule_tac process_child_ok [OF error(1) data _ _ f]) simp_all
        then show ?thesis using grown_calm [OF s1, of "set_pointer p node" node] error(2) by (fastforce simp: switch_post_def grown_def)
      next
        case (step node' s2)
        then have "grown th (set_pointer p node) s1 (Inr node') s2"
          by (rule_tac process_child_ok [OF step(1) data _ _ f]) simp_all
        then show ?thesis using grown_calm [OF s1, of "set_pointer p node" node] step(2) by (fastforce simp: switch_post_def)
      qed
    qed
  qed
qed

lemma switch_ok:
  assumes "container_switch da th process kind ts node s = (r, s')" and "no_wrap th (oidData s)" and "fresh_node node"
    and "tn_containerStats node = Some \<lparr>st_length = 0, st_capacity = 0, st_elementStaticSize = sz\<rparr>"
  shows "switch_post th node s r s'"
proof (cases "kind \<in> {SORTED_VEC_SET_TYPE, CONTAINER_ADAPTER_TYPE, STD_VARIANT_TYPE}")
  case True
  then consider "adapter_child da process ts node s = (r, s')"
    | "bindR (liftR (for_each (max_size da th) ts 0)) (\<lambda>sz.
        variant_child da process ts ((set_element_size sz (stats 1 1 node))\<lparr>tn_dynamicSize := 0\<rparr>)) s = (r, s')"
    using assms(1) by (auto simp: container_switch_def)
  then show ?thesis
  proof cases
    case 1
    then show ?thesis by (rule adapter_ok [OF _ assms(2,3)])
  next
    case 2
    then show ?thesis
    proof (cases rule: bindR_cases)
      case (step sz s1)
      let ?node = "(set_element_size sz (stats 1 1 node))\<lparr>tn_dynamicSize := 0\<rparr>"
      have "fresh_node ?node" using assms(3) by (simp add: fresh_node_def node_size_def)
      then have "switch_post th ?node s r s'" using variant_ok [OF step(2)] step(1) assms(2) by simp
      then show ?thesis by (simp add: switch_post_def grown_def whole_def split: sum.splits switch.splits)
    qed (auto simp: switch_post_def)
  qed
next
  case False
  have "quiet (set (oidData s)) (switched (set (oidData s)) kind node) (container_switch da th process kind ts node)"
    by (rule switch_quiet [OF _ _ assms(4) False]) (use assms(3) in \<open>simp_all add: fresh_node_def\<close>)
  note q = quietD [OF this refl assms(1)]
  show ?thesis using q(1,3) grown_leaf [OF q(1)]
    by (auto simp: switch_post_def switched_def calm_moved split: sum.splits switch.splits option.splits)
qed

lemma elements_ok:
  assumes "processElements da th n process ts inline node s = (r, s')" and "no_wrap th (oidData s)"
    and "whole node0 node" and "tn_containerStats node = Some st" and "unat (st_length st) * length ts < 2 ^ 64"
  shows "grown th node0 s r s'"
proof -
  let ?contents = "st_elementStaticSize st * st_capacity st"
  let ?node = "if inline then node else setSize node (tn_dynamicSize node + ?contents) 0"
  let ?L = "unat (st_length st)" and ?num = "st_length st * of_nat (length ts)"
  let ?vs = "concat (replicate ?L (map (\<lambda>t. returnR (element_variable da t)) ts)) :: (tree_builder, 'd variable) run list"
  have node: "whole node0 ?node" using assms(3) by (simp add: whole_def node_size_def)
  have len: "length ?vs = ?L * length ts" by (simp add: length_concat sum_list_replicate)
  have "?num = of_nat (?L * length ts)" by simp
  then have num: "?num = of_nat (length ?vs)" "unat ?num = length ?vs"
    using assms(5) unfolding len by (simp, simp only: unat_of_nat) (simp add: take_bit_nat_eq_self)
  show ?thesis
  proof (cases "CONTAINER_SIZE_THRESHOLD \<le> ?contents")
    case True
    then show ?thesis using assms(1,4) by (simp add: processElements_def Let_def grown_def)
  next
    case False
    then have "bindR (liftR (allE (isPrimitive da th n) ts)) (\<lambda>primitive.
        if primitive \<or> ?num = 0 then returnR ?node
        else bindR (newNodeIDs (unat ?num)) (\<lambda>childID.
          bindR (each_child process ?vs childID (?node\<lparr>tn_children := Some (childID, childID + ?num)\<rparr>, 0)) (\<lambda>(node, memberSizes).
          returnR (setSize node (tn_dynamicSize node) memberSizes)))) s = (r, s')"
      using assms(1,4) by (simp add: processElements_def Let_def)
    then show ?thesis
    proof (cases rule: bindR_cases)
      case (error e)
      then show ?thesis by (simp add: grown_def)
    next
      case (step primitive s1)
      then have s1: "s1 = s" by simp
      show ?thesis
      proof (cases "primitive \<or> ?num = 0")
        case True
        then have r: "r = Inr ?node" "s' = s" using step(2) by (simp_all add: s1)
        show ?thesis unfolding r by (rule grown_leaf [OF calm_refl node])
      next
        case False
        have pos: "0 < length ?vs"
        proof (rule ccontr)
          assume "\<not> 0 < length ?vs"
          then have zero: "length ?vs = 0" by linarith
          then have "st_length st = 0 \<or> ts = []" unfolding len by (simp add: unat_eq_0)
          then have "?num = 0" by auto
          then show False using False by blast
        qed
        have "grown th ?node s r s'"
          by (rule children_ok' [OF step(2) [unfolded if_not_P [OF False] s1] num(2,1) assms(2) _ pos]) (auto split: if_splits)
        then show ?thesis using grown_calm [OF calm_refl, of ?node node0] node unfolding whole_def by blast
      qed
    qed
  qed
qed

lemma container_ok:
  assumes "processContainer da th cfg n process v node s = (r, s')" and "no_wrap th (oidData s)" and "fresh_node node"
  shows "grown th node s r s'"
proof -
  from assms(1) [unfolded processContainer_def] show ?thesis
  proof (cases rule: bindR_cases)
    case (error e)
    then show ?thesis by (simp add: grown_def)
  next
    case (step info s1)
    obtain kind ts where info: "info = (kind, ts)" by fastforce
    have s1: "s1 = s" and kind: "container_kind da th cfg n (v_type v) (tn_typeName node) = Inr (kind, ts)" using step(1) info by simp_all
    have wrap: "unat w * length ts < 2 ^ 64" if "w \<in> insert 0 (insert 1 (set (oidData s)))" for w :: u64
    proof (cases "length ts = 1")
      case True
      then show ?thesis using unsigned_less [where 'a = nat, of w] by simp
    next
      case False
      then have "th_containerTypes th (v_type v) = Some (kind, ts)"
        using kind by (auto simp: container_kind_def bindE_Inr_iff assertE_def split: if_splits option.splits)
      then show ?thesis using assms(2) that unfolding no_wrap_def by auto
    qed
    from step(2) [unfolded info s1 prod.case] show ?thesis
    proof (cases rule: bindR_cases)
      case (error e)
      then show ?thesis by (simp add: grown_def)
    next
      case (step sz s1)
      let ?node = "node\<lparr>tn_containerStats := Some \<lparr>st_length = 0, st_capacity = 0, st_elementStaticSize = sz\<rparr>\<rparr>"
      have s1: "s1 = s" using step(1) by simp
      have fresh: "fresh_node ?node" using assms(3) by (simp add: fresh_node_def node_size_def)
      from step(2) [unfolded s1] show ?thesis
      proof (cases rule: bindR_cases)
        case (error e)
        then have "switch_post th ?node s (Inl e) s'" using switch_ok [OF error(1) assms(2) fresh] by simp
        then show ?thesis using error(2) by (simp add: switch_post_def grown_def)
      next
        case (step sw s2)
        then have post: "switch_post th ?node s (Inr sw) s2" using switch_ok [OF step(1) assms(2) fresh] by simp
        show ?thesis
        proof (cases sw)
          case (Return node')
          then show ?thesis using post step(2) by (simp add: switch_post_def grown_def)
        next
          case (Break inline node')
          then obtain st where st: "calm s s2" "whole ?node node'" "tn_containerStats node' = Some st"
              "st_length st \<in> insert 0 (insert 1 (set (oidData s)))"
            using post by (auto simp: switch_post_def)
          have "whole node node'" using whole_trans [OF st(2)] by simp
          then have "grown th node s2 r s'"
            using step(2) elements_ok [OF _ _ _ st(3) wrap [OF st(4)]] assms(2) st(1) by (simp add: Break calm_def)
          then show ?thesis by (rule grown_calm [OF st(1) refl])
        qed
      qed
    qed
  qed
qed

lemma pointer_ok:
  assumes "processPointer da th cfg process v node s = (r, s')" and "no_wrap th (oidData s)" and "fresh_node node"
  shows "grown th node s r s'"
proof -
  let ?f = "\<lambda>child node. setSize node (tn_staticSize child + tn_dynamicSize child) (tn_staticSize child + tn_dynamicSize child)"
  have leaf: "calm s s1 \<Longrightarrow> node1 = node \<or> node1 = set_pointer p node \<Longrightarrow> grown th node s (Inr node1) s1" for s1 node1 p
    by (rule grown_leaf) (use assms(3) in \<open>auto simp: fresh_node_def whole_def node_size_def\<close>)
  have follow: "grown th node s r s'" if "calm s s1" "tn_id node1 = tn_id node" "process_child process (plain_variable u '''' '''') node1 ?f s1 = (r, s')" for s1 node1 u
  proof -
    have "grown th node1 s1 r s'"
      by (rule process_child_ok [OF that(3)]) (use assms(2) that(1) in \<open>simp_all add: calm_def accounted_setSize sizes_single node_size_def\<close>)
    then show ?thesis by (rule grown_calm [OF that(1,2)])
  qed
  show ?thesis
  proof (cases "\<not> bit_get (tc_features cfg) ChaseRawPointers \<or> v_type v \<in> th_knownDummyTypes th \<or> th_pointerToType th (v_type v) = None")
    case True
    then show ?thesis using assms(1) leaf [OF calm_refl] by (auto simp: processPointer_def Let_def split: if_splits)
  next
    case False
    then obtain inner where inner: "th_pointerToType th (v_type v) = Some inner" by blast
    show ?thesis
    proof (cases "da_kind da inner = DK_FUNCTION")
      case True
      then show ?thesis using assms(1) False inner follow [OF calm_refl refl] by (simp add: processPointer_def Let_def)
    next
      case nofun: False
      from assms(1) False inner nofun have "bindR next_word (\<lambda>p. if da_kind da inner = DK_VOID then returnR (set_pointer p node)
          else bindR next_word (\<lambda>tag. if tag = skipped then returnR (set_pointer p node)
            else process_child process (plain_variable inner '''' '''') (set_pointer p node) ?f)) s = (r, s')"
        by (simp add: processPointer_def Let_def)
      then show ?thesis
      proof (cases rule: bindR_cases)
        case (error e)
        then show ?thesis by (auto simp: grown_def calm_moved elim: next_word_cases)
      next
        case (step p s1)
        then have s1: "calm s s1" by (auto elim: next_word_cases)
        show ?thesis
        proof (cases "da_kind da inner = DK_VOID")
          case True
          then show ?thesis using step(2) leaf [OF s1] by auto
        next
          case False
          from step(2) [unfolded if_not_P [OF False]] show ?thesis
          proof (cases rule: bindR_cases)
            case (error e)
            then have "calm s1 s'" by (auto elim: next_word_cases)
            then show ?thesis using calm_trans [OF s1] error(2) by (simp add: grown_def calm_moved)
          next
            case (step tag s2)
            then have "calm s1 s2" by (auto elim: next_word_cases)
            then have s2: "calm s s2" by (rule calm_trans [OF s1])
            show ?thesis
            proof (cases "tag = skipped")
              case True
              then show ?thesis using step(2) leaf [OF s2] by auto
            next
              case False
              then show ?thesis using step(2) follow [OF s2, of "set_pointer p node"] by simp
            qed
          qed
        qed
      qed
    qed
  qed
qed

lemma typedef_ok:
  assumes "processTypedef th process v node s = (r, s')" and "no_wrap th (oidData s)" and "fresh_node node"
  shows "grown th node s r s'"
proof (cases "isStandardInteger (tn_typeName node) \<or> th_typedefs th (v_type v) = None")
  case True
  then show ?thesis using assms(1,3) grown_leaf [OF calm_refl, of node "node\<lparr>tn_isTypedef := True\<rparr>"] grown_leaf [OF calm_refl, of node node]
    by (auto simp: processTypedef_def Let_def fresh_node_def whole_def node_size_def split: if_splits)
next
  case False
  then obtain u where "th_typedefs th (v_type v) = Some u" by blast
  then have run: "process_child process (plain_variable u [] []) (node\<lparr>tn_isTypedef := True\<rparr>)
      (\<lambda>child node. setSize node (tn_dynamicSize child) (tn_dynamicSize child + tn_staticSize child)) s = (r, s')"
    using assms(1) False by (simp add: processTypedef_def Let_def)
  have "grown th (node\<lparr>tn_isTypedef := True\<rparr>) s r s'"
    by (rule process_child_ok [OF run assms(2)]) (simp_all add: accounted_setSize sizes_single node_size_def add.commute)
  then show ?thesis by (rule grown_calm [OF calm_refl, rotated]) simp
qed

lemma concrete_class_calm:
  assumes "concrete_class da th t node s = (r, s')"
  shows "calm s s'" "r = Inr (u, node') \<Longrightarrow> tn_id node' = tn_id node \<and> tn_children node' = tn_children node \<and>
      (node' = node \<or> (\<exists>ts. th_descendantClasses th t = Some ts \<and> u \<in> set ts))"
proof -
  let ?P = "\<lambda>k (u, node'). tn_id node' = tn_id node \<and> tn_children node' = tn_children node \<and>
      (node' = node \<or> (\<exists>ts. th_descendantClasses th t = Some ts \<and> u \<in> set ts))"
  have "getDrgnTypeSize da th u \<noteq> Inl Diverge" for u
    by (auto simp: getDrgnTypeSize_def Let_def split: sum.splits option.splits)
  then have "quiet (set (oidData s)) ?P (concrete_class da th t node)"
    unfolding concrete_class_def by (cases "th_descendantClasses th t") (auto simp: Let_def intro!: quiet_intros)
  note q = quietD [OF this refl assms]
  show "calm s s'" by (rule q(1))
  show "r = Inr (u, node') \<Longrightarrow> tn_id node' = tn_id node \<and> tn_children node' = tn_children node \<and>
      (node' = node \<or> (\<exists>ts. th_descendantClasses th t = Some ts \<and> u \<in> set ts))"
    using q(3) [of "(u, node')"] by simp
qed

lemma member_variable_calm: "member_variable b m s = (r, s') \<Longrightarrow> calm s s'"
proof -
  assume "member_variable b m s = (r, s')"
  moreover have "quiet (set (oidData s)) (\<lambda>k x. True) (member_variable b m)"
  proof (cases b)
    case True
    have "quiet (set (oidData s)) (\<lambda>k x. True) (bindR next_word (\<lambda>val. returnR (if val = - 1 then None else Some (val \<noteq> 0))))"
      by (intro quiet_intros) simp
    then show ?thesis unfolding member_variable_def using True by (auto intro!: quiet_bind [where Q = "\<lambda>k x. True"] quiet_intros)
  next
    case False
    then show ?thesis unfolding member_variable_def by (auto intro!: quiet_bind [where Q = "\<lambda>k x. True"] quiet_intros)
  qed
  ultimately show ?thesis using quietD(1) by blast
qed

lemma class_ok:
  assumes "processClass da th process v node s = (r, s')" and "no_wrap th (oidData s)" and "fresh_node node"
  shows "grown th node s r s'"
proof -
  from assms(1) [unfolded processClass_def] show ?thesis
  proof (cases rule: bindR_cases)
    case (error e)
    then show ?thesis using concrete_class_calm(1) [OF error(1)] by (simp add: grown_def calm_moved)
  next
    case (step x s1)
    obtain u node1 where x: "x = (u, node1)" by fastforce
    note c = concrete_class_calm [OF step(1)]
    have node1: "tn_id node1 = tn_id node" "tn_children node1 = None"
      "node1 = node \<or> (\<exists>ts. th_descendantClasses th (v_type v) = Some ts \<and> u \<in> set ts)"
      using c(2) [of u node1] assms(3) by (simp_all add: x fresh_node_def)
    have s1: "calm s s1" by (rule c(1))
    then have data: "no_wrap th (oidData s1)" using assms(2) by (simp add: calm_def)
    show ?thesis
    proof (cases "th_classMembers th u = None \<or> th_classMembers th u = Some []")
      case True
      then have r: "r = Inr node1" "s' = s1" using step(2) by (auto simp: x)
      have "exact node1 []" if "complete th"
      proof -
        have "node1 = node" using that node1(3) True unfolding complete_def by blast
        then show ?thesis using assms(3) by (simp add: fresh_node_def exact_def sizes_def)
      qed
      then show ?thesis using s1 node1(1,2)
        unfolding r grown_def by (auto simp: calm_moved calm_def children_range_def forest_def intro!: exI [of _ "[]"])
    next
      case False
      then obtain members where members: "th_classMembers th u = Some members" "members \<noteq> []" by auto
      let ?vs = "member_variables (u \<in> th_thriftIssetStructTypes th) members"
      have len: "length ?vs = length members" by (simp add: member_variables_def)
      have "bindR (newNodeIDs (length members)) (\<lambda>childID.
          bindR (each_child process ?vs childID (node1\<lparr>tn_children := Some (childID, childID + of_nat (length members))\<rparr>, 0)) (\<lambda>(node, memberSizes).
          returnR (setSize node (tn_dynamicSize node) memberSizes))) s1 = (r, s')"
        using step(2) members by (simp add: x)
      then have "grown th node1 s1 r s'"
        by (rule children_ok' [OF _ _ _ data]) (use members(2) in \<open>auto simp: len member_variables_def member_variable_calm\<close>)
      then show ?thesis by (rule grown_calm [OF s1 node1(1)])
    qed
  qed
qed

lemma kind_ok:
  assumes "process_kind da th cfg n process v node s = (r, s')" and "no_wrap th (oidData s)" and "fresh_node node"
  shows "grown th node s r s'"
proof -
  have "grown th node s (Inr node) s" by (rule grown_leaf [OF calm_refl fresh_whole [OF assms(3)]])
  then show ?thesis using assms(1) pointer_ok [OF _ assms(2,3)] typedef_ok [OF _ assms(2,3)] container_ok [OF _ assms(2,3)] class_ok [OF _ assms(2,3)]
    unfolding process_kind_def Let_def by (auto split: if_splits)
qed

lemma body_ok:
  assumes "process_body da th cfg put n process (of_nat i) v s = (r, s')" and "no_wrap th (oidData s)" and "i < nextNodeID s"
  shows "processed th i s r s'"
proof -
  from assms(1) [unfolded process_body_def] show ?thesis
  proof (cases rule: bindR_cases)
    case (error e)
    then show ?thesis by (simp add: processed_def)
  next
    case (step sz s0)
    let ?node = "setSize \<lparr>tn_id = of_nat i, tn_name = v_name v, tn_typeName = drgnTypeToName da (v_type v), tn_typePath = v_typePath v,
       tn_isTypedef = False, tn_staticSize = sz, tn_dynamicSize = 0, tn_paddingSavingsSize = None, tn_pointer = None,
       tn_containerStats = None, tn_children = None, tn_isset = v_isset v, tn_exclusiveSize = 0\<rparr> 0 0"
    have fresh: "fresh_node ?node" "tn_id ?node = of_nat i" by (simp_all add: fresh_node_def node_size_def)
    have "bindR (if v_isStubbed v then returnR ?node else bindR (process_kind da th cfg n process v ?node) (padding_stats cfg)) (db_put put) s = (r, s')"
      using step by (simp add: Let_def)
    then show ?thesis
    proof (cases rule: bindR_cases)
      case (error e)
      have "moved {} s s'"
      proof (cases "v_isStubbed v")
        case False
        then have "bindR (process_kind da th cfg n process v ?node) (padding_stats cfg) s = (Inl e, s')" using error(1) by simp
        then show ?thesis
        proof (cases rule: bindR_cases)
          case (error e)
          then show ?thesis using kind_ok [OF error(1) assms(2) fresh(1)] by (simp add: grown_def)
        next
          case (step node1 s1)
          then show ?thesis using kind_ok [OF step(1) assms(2) fresh(1)]
            by (simp add: grown_def padding_stats_def split: if_splits option.splits)
        qed
      qed (use error(1) in simp)
      then show ?thesis using error(2) moved_mono [of "{}" s s' "{i}"] by (simp add: processed_def)
    next
      case (step node2 s2)
      have grown: "grown th ?node s (Inr node2) s2"
      proof (cases "v_isStubbed v")
        case True
        then show ?thesis using step(1) grown_leaf [OF calm_refl fresh_whole [OF fresh(1)]] by simp
      next
        case False
        then have "bindR (process_kind da th cfg n process v ?node) (padding_stats cfg) s = (Inr node2, s2)" using step(1) by simp
        then show ?thesis
        proof (cases rule: bindR_cases)
          case (step node1 s1)
          then have "grown th ?node s (Inr node1) s1" using kind_ok [OF step(1) assms(2) fresh(1)] by simp
          moreover have "node2 = node1 \<and> s2 = s1 \<or> (\<exists>p q. node2 = node1\<lparr>tn_paddingSavingsSize := p\<rparr> \<and> s2 = s1\<lparr>paddedStructs := q\<rparr>)"
            using step(2) by (auto simp: padding_stats_def split: if_splits option.splits)
          moreover have "children_range (node1\<lparr>tn_paddingSavingsSize := p\<rparr>) = children_range node1" for p by (simp add: children_range_def fun_eq_iff)
          ultimately show ?thesis
            by (auto simp: grown_def moved_def forest_def exact_def cut_off_def node_size_def)
        qed simp
      qed
      then have moved: "moved {} s s2" by (simp add: grown_def)
      show ?thesis
      proof (cases "put node2")
        case (Some status)
        then show ?thesis using step(2) moved_mono [OF moved, of "{i}"] by (auto simp: db_put_def processed_def)
      next
        case None
        then have r: "r = Inr node2" "s' = s2\<lparr>db := (db s2)(tn_id node2 \<mapsto> node2)\<rparr>" using step(2) by (simp_all add: db_put_def)
        have post: "tn_id node2 = of_nat i \<and> unat (of_nat i :: u64) = i \<and> (\<exists>ts. children_range node2 (map root_id ts) \<and> forest th s2 ts {nextNodeID s..<nextNodeID s2} \<and>
            (complete th \<longrightarrow> exact node2 ts \<or> cut_off node2 ts))" if "nextNodeID s2 < 2 ^ 64"
        proof -
          have "i < 2 ^ 64" using that assms(3) moved by (simp add: moved_def)
          then have "unat (of_nat i :: u64) = i" by (simp add: unat_of_nat take_bit_nat_eq_self)
          then show ?thesis using grown that fresh(2) unfolding grown_def by simp
        qed
        have "moved {i} s s'" using moved post unfolding r(2) moved_def by auto
        moreover have "\<exists>t. tree_node t = node2 \<and> root_id t = i \<and> forest th s' [t] (insert i {nextNodeID s..<nextNodeID s'})"
          if bound: "nextNodeID s' < 2 ^ 64"
        proof -
          obtain ts where ts: "tn_id node2 = of_nat i" "unat (of_nat i :: u64) = i" "children_range node2 (map root_id ts)"
              "forest th s2 ts {nextNodeID s..<nextNodeID s2}" "complete th \<longrightarrow> exact node2 ts \<or> cut_off node2 ts"
            using post bound r(2) by auto
          have ts': "forest th s' ts {nextNodeID s..<nextNodeID s2}"
            by (rule forest_frame [OF ts(4)]) (use ts(1,2) assms(3) in \<open>auto simp: r(2)\<close>)
          have "forest th s' [TBTree node2 ts] (insert i {nextNodeID s..<nextNodeID s'})"
            using ts' ts(1-3,5) assms(3) by (auto simp: forest_def r(2))
          then show ?thesis using ts(1,2) by (intro exI [of _ "TBTree node2 ts"]) (simp add: root_id_def)
        qed
        ultimately show ?thesis using r(1) by (simp add: processed_def)
      qed
    qed
  qed
qed

end

lemma tree_process: "tree_process th (process da th cfg put n)"
proof (induction n)
  case 0
  show ?case by (rule tree_process.intro) (simp add: processed_def)
next
  case (Suc n)
  show ?case
  proof (rule tree_process.intro)
    fix s i v r s'
    assume "no_wrap th (oidData s)" "i < nextNodeID s" "process da th cfg put (Suc n) (of_nat i) v s = (r, s')"
    then show "processed th i s r s'" using tree_process.body_ok [OF Suc] by simp
  qed
qed

interpretation tb: tree_process th "process da th cfg put n" for th :: "'d type_hierarchy" and da cfg put n
  by (rule tree_process)


section \<open>Builds\<close>

lemma forest_idsD:
  assumes "forest th s [t] ids"
  shows "stored (db s) t" "distinct (tree_ids t)" "set (tree_ids t) = ids" "complete th \<Longrightarrow> accounted t"
  using assms by (simp_all add: forest_def)

lemma build_stored:
  assumes "build da th cfg put n data argName t s = (r, s')" and "no_wrap th data" and "nextNodeID s' < 2 ^ 64"
  shows "nextNodeID s < nextNodeID s'"
    and "unat w \<notin> {nextNodeID s..<nextNodeID s'} \<Longrightarrow> db s' w = db s w"
    and "r = Inl (Throw m) \<Longrightarrow> rootIDs s' = rootIDs s @ [ERROR_NODE_ID]"
    and "r = Inr () \<Longrightarrow> \<exists>tr. rootIDs s' = rootIDs s @ [tn_id (tree_node tr)] \<and> root_id tr = nextNodeID s \<and>
        tn_name (tree_node tr) = argName \<and> forest th s' [tr] {nextNodeID s..<nextNodeID s'}"
proof -
  let ?i = "nextNodeID s"
  let ?s1 = "s\<lparr>oidData := data, oidDataIndex := 4, nextNodeID := ?i + 1, rootIDs := rootIDs s @ [of_nat ?i]\<rparr>"
  let ?p = "process da th cfg put n (of_nat ?i) (plain_variable t argName argName)"
  obtain q s2 where s2: "?p ?s1 = (q, s2)" by fastforce
  have proc: "processed th ?i ?s1 q s2" by (rule tb.process_ok [OF _ _ s2]) (use assms(2) in simp_all)
  then have moved: "moved {?i} ?s1 s2" by (simp add: processed_def)
  have build: "build da th cfg put n data argName t s = (case q of
      Inl e \<Rightarrow> (Inl e, case e of Throw m \<Rightarrow> s2\<lparr>rootIDs := rootIDs s @ [ERROR_NODE_ID]\<rparr> | _ \<Rightarrow> s2)
    | Inr node \<Rightarrow> if oidDataIndex s2 \<noteq> length (oidData s2) \<and> tc_strict cfg then (Inl Aborted, s2) else (Inr (), s2))"
    using s2 by (cases q) (auto simp: build_def Let_def split: error.splits)
  have same: "nextNodeID s' = nextNodeID s2" "db s' = db s2"
    using assms(1) unfolding build by (auto split: sum.splits error.splits if_splits)
  show "nextNodeID s < nextNodeID s'" using moved by (simp add: moved_def same)
  show "db s' w = db s w" if "unat w \<notin> {nextNodeID s..<nextNodeID s'}" for w
  proof -
    have "unat w \<notin> {?i}" "unat w \<notin> {nextNodeID ?s1..<nextNodeID s2}" using that \<open>nextNodeID s < nextNodeID s'\<close> by (auto simp: same)
    then have "db s2 w = db ?s1 w" using moved assms(3) unfolding moved_def same by blast
    then show ?thesis by (simp add: same)
  qed
  show "rootIDs s' = rootIDs s @ [ERROR_NODE_ID]" if "r = Inl (Throw m)"
    using assms(1) that unfolding build by (auto split: sum.splits if_splits)
  show "\<exists>tr. rootIDs s' = rootIDs s @ [tn_id (tree_node tr)] \<and> root_id tr = nextNodeID s \<and>
      tn_name (tree_node tr) = argName \<and> forest th s' [tr] {nextNodeID s..<nextNodeID s'}"
    if "r = Inr ()"
  proof -
    note r = that
    obtain node where q: "q = Inr node" "s' = s2" using assms(1) r unfolding build by (auto split: sum.splits if_splits)
    obtain tr where tr: "tree_node tr = node" "root_id tr = ?i" "forest th s2 [tr] (insert ?i {?i + 1..<nextNodeID s2})"
      using proc assms(3) unfolding processed_def q by auto
    have "tn_id (tree_node tr) = of_nat ?i" using tr(2) [symmetric] by (simp add: root_id_def)
    moreover have "tn_name (tree_node tr) = argName"
      using process_name [OF s2 [unfolded q(1)]] tr(1) by (simp add: plain_variable_def)
    moreover have "rootIDs s2 = rootIDs s @ [of_nat ?i]" using moved by (simp add: moved_def)
    moreover have "insert ?i {?i + 1..<nextNodeID s2} = {?i..<nextNodeID s'}" using \<open>nextNodeID s < nextNodeID s'\<close> q(2) by auto
    ultimately show ?thesis using tr(2,3) q(2) by (intro exI [of _ tr]) simp
  qed
qed

text \<open>The roots of a builder: trees that are stored, and errors.\<close>

definition root_of :: "tb_tree option \<Rightarrow> u64" where
  "root_of tr = (case tr of None \<Rightarrow> ERROR_NODE_ID | Some t \<Rightarrow> tn_id (tree_node t))"

definition roots :: "tree_builder \<Rightarrow> tb_tree option list \<Rightarrow> bool" where
  "roots s trs \<longleftrightarrow> rootIDs s = map root_of trs \<and> FIRST_NODE_ID \<le> nextNodeID s \<and>
     (\<forall>t. Some t \<in> set trs \<longrightarrow> stored (db s) t \<and> set (tree_ids t) \<subseteq> {FIRST_NODE_ID..<nextNodeID s}) \<and>
     distinct (concat (map (\<lambda>tr. case tr of None \<Rightarrow> [] | Some t \<Rightarrow> tree_ids t) trs))"

definition new_builder :: "(string \<rightharpoonup> padding_info) option \<Rightarrow> tree_builder" where
  "new_builder padded = \<lparr>nextNodeID = FIRST_NODE_ID, oidData = [], oidDataIndex = 0, rootIDs = [], paddedStructs = padded, db = (\<lambda>_. None)\<rparr>"

lemma roots_new: "roots (new_builder padded) []"
  by (simp add: roots_def new_builder_def)

lemma roots_build:
  assumes "roots s trs" and "build da th cfg put n data argName t s = (r, s')" and "no_wrap th data" and "nextNodeID s' < 2 ^ 64"
  shows "r = Inl (Throw m) \<Longrightarrow> roots s' (trs @ [None])"
    and "r = Inr () \<Longrightarrow> \<exists>tr. roots s' (trs @ [Some tr]) \<and> tn_name (tree_node tr) = argName \<and> (complete th \<longrightarrow> accounted tr)"
proof -
  note b = build_stored [OF assms(2-4)]
  let ?ids = "concat (map (\<lambda>tr. case tr of None \<Rightarrow> [] | Some t \<Rightarrow> tree_ids t) trs)"
  have old: "stored (db s') t" "set (tree_ids t) \<subseteq> {FIRST_NODE_ID..<nextNodeID s}" if "Some t \<in> set trs" for t
  proof -
    show ids: "set (tree_ids t) \<subseteq> {FIRST_NODE_ID..<nextNodeID s}" using assms(1) that by (simp add: roots_def)
    have "stored (db s) t" using assms(1) that by (simp add: roots_def)
    then show "stored (db s') t" by (rule stored_frame) (use b(2) ids in auto)
  qed
  have old': "set (tree_ids t) \<subseteq> {FIRST_NODE_ID..<nextNodeID s'}" if "Some t \<in> set trs" for t
    using old(2) [OF that] b(1) by auto
  have mono: "FIRST_NODE_ID \<le> nextNodeID s" "rootIDs s = map root_of trs" "distinct ?ids" using assms(1) by (simp_all add: roots_def)
  show "roots s' (trs @ [None])" if "r = Inl (Throw m)"
    using old(1) old' mono b(1) b(3) [OF that] unfolding roots_def by (simp add: root_of_def)
  show "\<exists>tr. roots s' (trs @ [Some tr]) \<and> tn_name (tree_node tr) = argName \<and> (complete th \<longrightarrow> accounted tr)" if "r = Inr ()"
  proof -
    note r = that
    obtain tr where tr: "rootIDs s' = rootIDs s @ [tn_id (tree_node tr)]" "forest th s' [tr] {nextNodeID s..<nextNodeID s'}"
        "tn_name (tree_node tr) = argName"
      using b(4) [OF r] by blast
    note f = forest_idsD [OF tr(2)]
    have below: "set ?ids \<subseteq> {FIRST_NODE_ID..<nextNodeID s}" using old(2) by (auto split: option.splits)
    have "roots s' (trs @ [Some tr])" unfolding roots_def
    proof (intro conjI)
      show "rootIDs s' = map root_of (trs @ [Some tr])" using tr(1) mono(2) by (simp add: root_of_def)
      show "FIRST_NODE_ID \<le> nextNodeID s'" using mono(1) b(1) by simp
      show "\<forall>t. Some t \<in> set (trs @ [Some tr]) \<longrightarrow> stored (db s') t \<and> set (tree_ids t) \<subseteq> {FIRST_NODE_ID..<nextNodeID s'}"
      proof (intro allI impI)
        fix u assume "Some u \<in> set (trs @ [Some tr])"
        then consider "Some u \<in> set trs" | "u = tr" by auto
        then show "stored (db s') u \<and> set (tree_ids u) \<subseteq> {FIRST_NODE_ID..<nextNodeID s'}"
        proof cases
          case 1
          then show ?thesis using old [OF 1] b(1) by fastforce
        next
          case 2
          then show ?thesis using f(1,3) mono(1) by auto
        qed
      qed
      show "distinct (concat (map (\<lambda>tr. case tr of None \<Rightarrow> [] | Some t \<Rightarrow> tree_ids t) (trs @ [Some tr])))"
      proof -
        have "set ?ids \<inter> set (tree_ids tr) \<subseteq> {FIRST_NODE_ID..<nextNodeID s} \<inter> {nextNodeID s..<nextNodeID s'}"
          unfolding f(3) by (rule Int_mono [OF below order_refl])
        also have "\<dots> = {}" by auto
        finally show ?thesis using mono(3) f(2)
          by (simp only: map_append concat_append distinct_append list.map concat.simps option.case append_Nil2 subset_empty simp_thms)
      qed
    qed
    then show ?thesis using f(4) tr(3) by blast
  qed
qed

text \<open>The text of the whole file.\<close>

definition object_json :: "tb_tree option \<Rightarrow> string" where
  "object_json tr = (case tr of None \<Rightarrow> ''{}'' | Some t \<Rightarrow> tree_json t)"

fun commas :: "string list \<Rightarrow> string" where
  "commas [] = ''''"
| "commas [x] = x"
| "commas (x # xs) = x @ '','' @ commas xs"

lemma butlast_commas: "xs \<noteq> [] \<Longrightarrow> butlast (concat (map (\<lambda>x. x @ '','') xs)) = commas xs"
  by (induction xs rule: commas.induct) (simp_all add: butlast_append)

lemma dumpJson_roots:
  assumes "roots s trs" and "tc_jsonPath cfg" and "\<And>t. Some t \<in> set trs \<Longrightarrow> tree_depth t \<le> n" and "nextNodeID s < 2 ^ 64"
  shows "dumpJson cfg n s = Inr (''['' @ commas (map object_json trs) @ '']'' @ [CHR 0x0A])"
proof -
  have root: "json_root (db s) n (root_of tr) out = Inr (out @ object_json tr @ '','')" if tr: "tr \<in> set trs" for tr out
  proof (cases tr)
    case None
    then show ?thesis by (simp add: json_root_def root_of_def object_json_def)
  next
    case (Some t)
    have st: "stored (db s) t" "set (tree_ids t) \<subseteq> {FIRST_NODE_ID..<nextNodeID s}" using assms(1) tr Some by (auto simp: roots_def)
    have "root_id t \<in> set (tree_ids t)" by (cases t) (simp add: root_id_def)
    then have "1024 \<le> unat (tn_id (tree_node t))" using st(2) by (auto simp: root_id_def FIRST_NODE_ID_def)
    then have "tn_id (tree_node t) \<noteq> ERROR_NODE_ID" by (auto simp: ERROR_NODE_ID_def)
    then show ?thesis using JSON_stored [OF st(1) assms(3)] tr Some by (simp add: json_root_def root_of_def object_json_def)
  qed
  have loop: "for_each (json_root (db s) n) (map root_of us) out = Inr (out @ concat (map (\<lambda>x. x @ '','') (map object_json us)))"
    if "set us \<subseteq> set trs" for us out
    using that by (induction us arbitrary: out) (auto simp: root)
  have ids: "rootIDs s = map root_of trs" using assms(1) by (simp add: roots_def)
  show ?thesis
  proof (cases trs)
    case Nil
    then show ?thesis using assms(2) ids by (simp add: dumpJson_def)
  next
    case (Cons tr us)
    let ?text = "concat (map (\<lambda>x. x @ '','') (map object_json trs))"
    have "?text \<noteq> []" by (simp add: Cons)
    then have "butlast (''['' @ ?text) = ''['' @ commas (map object_json trs)"
      using butlast_commas [of "map object_json trs"] by (simp add: butlast_append Cons)
    then show ?thesis using assms(2) loop [OF subset_refl, of "''[''"] Cons by (simp add: dumpJson_def ids)
  qed
qed
end
