(* ===== verification/TreeEnds.thy ===== *)
theory TreeEnds
  imports StoredTree
begin

text \<open>The recursion of the builder ends: between two words of the data it only goes down in the types.\<close>

section \<open>Termination\<close>

text \<open>
  Types can contain each other without end only where data are read in between: a member, the target of a typedef and the components of a
  pair are below the type that has them in \<open>rank\<close>, and chains of typedefs or of arrays descend in \<open>chain\<close>.
\<close>

definition ranked :: "'d drgn_answers \<Rightarrow> 'd type_hierarchy \<Rightarrow> ('d \<Rightarrow> nat) \<Rightarrow> nat \<Rightarrow> ('d \<Rightarrow> nat) \<Rightarrow> nat \<Rightarrow> bool" where
  "ranked da th rank M chain K \<longleftrightarrow> (\<forall>t. rank t \<le> M) \<and> (\<forall>t. chain t \<le> K) \<and>
     (\<forall>t u. th_typedefs th t = Some u \<longrightarrow> rank u < rank t \<and> chain u < chain t) \<and>
     (\<forall>t. da_kind da t = DK_ARRAY \<longrightarrow> chain (da_element da t) < chain t) \<and>
     (\<forall>t ms m. th_classMembers th t = Some ms \<longrightarrow> m \<in> set ms \<longrightarrow> rank (cm_type m) < rank t) \<and>
     (\<forall>t ts u. th_containerTypes th t = Some (PAIR_TYPE, ts) \<longrightarrow> u \<in> set ts \<longrightarrow> rank u < rank t) \<and>
     (\<forall>t u. th_pointerToType th t = Some u \<longrightarrow> da_kind da u = DK_FUNCTION \<longrightarrow> rank u < rank t)"

lemma isPrimitive_ends: "ranked da th rank M chain K \<Longrightarrow> chain t < n \<Longrightarrow> isPrimitive da th n t \<noteq> Inl Diverge"
proof (induction n arbitrary: t)
  case (Suc n)
  show ?case
  proof (cases "da_kind da t = DK_TYPEDEF \<and> th_typedefs th t \<noteq> None")
    case True
    then obtain u where "th_typedefs th t = Some u" by blast
    moreover from this have "chain u < n" using Suc.prems unfolding ranked_def by (metis less_Suc_eq_le order_less_le_trans)
    ultimately show ?thesis using Suc.IH [OF Suc.prems(1)] True by simp
  next
    case False
    then show ?thesis by auto
  qed
qed simp

lemma element_type_ends: "ranked da th rank M chain K \<Longrightarrow> chain t < n \<Longrightarrow> getDrgnArrayElementType da n t elems \<noteq> Inl Diverge"
proof (induction n arbitrary: t elems)
  case (Suc n)
  then show ?case unfolding ranked_def by (simp add: less_Suc_eq_le) (meson order_less_le_trans)
qed simp

lemma allE_ends: "(\<And>x. x \<in> set xs \<Longrightarrow> p x \<noteq> Inl Diverge) \<Longrightarrow> allE p xs \<noteq> Inl Diverge"
  by (induction xs) (auto simp: bindE_def split: sum.splits)

lemma getDrgnTypeSize_ends [simp]: "getDrgnTypeSize da th u \<noteq> Inl Diverge"
  by (auto simp: getDrgnTypeSize_def Let_def split: sum.splits option.splits)

lemma for_each_ends: "(\<And>x s. f x s \<noteq> Inl Diverge) \<Longrightarrow> for_each f xs s \<noteq> Inl Diverge"
  by (induction xs arbitrary: s) (auto simp: bindE_def split: sum.splits)

lemma container_kind_ends:
  assumes "ranked da th rank M chain K" and "K < n"
  shows "container_kind da th cfg n t name \<noteq> Inl Diverge"
proof -
  have "chain t < n" using assms by (auto simp: ranked_def intro: order_le_less_trans)
  from element_type_ends [OF assms(1) this] show ?thesis
    by (auto simp: container_kind_def bindE_def assertE_def split: sum.splits option.splits)
qed

text \<open>A run that ends: it reads forward in the data and does not diverge.\<close>

definition remaining :: "tree_builder \<Rightarrow> nat" where
  "remaining s = length (oidData s) - oidDataIndex s"

definition valid :: "tree_builder \<Rightarrow> bool" where
  "valid s \<longleftrightarrow> oidDataIndex s \<le> length (oidData s)"

definition ends :: "(tree_builder, 'a) run \<Rightarrow> tree_builder \<Rightarrow> ('a \<Rightarrow> tree_builder \<Rightarrow> bool) \<Rightarrow> bool" where
  "ends m s Q \<longleftrightarrow> (case m s of (r, s') \<Rightarrow> r \<noteq> Inl Diverge \<and> (\<forall>x. r = Inr x \<longrightarrow> valid s' \<and> remaining s' \<le> remaining s \<and> Q x s'))"

named_theorems ends_intros "runs that end"

lemma ends_return [ends_intros]: "valid s \<Longrightarrow> Q x s \<Longrightarrow> ends (returnR x) s Q"
  by (simp add: ends_def returnR_def)

lemma ends_lift [ends_intros]: "valid s \<Longrightarrow> m \<noteq> Inl Diverge \<Longrightarrow> (\<And>x. m = Inr x \<Longrightarrow> Q x s) \<Longrightarrow> ends (liftR m) s Q"
  by (simp add: ends_def liftR_def)

lemma ends_bind:
  assumes "ends m s R" and "\<And>x s'. R x s' \<Longrightarrow> valid s' \<Longrightarrow> remaining s' \<le> remaining s \<Longrightarrow> ends (f x) s' Q"
  shows "ends (bindR m f) s Q"
proof (cases "m s")
  case (Pair r s1)
  show ?thesis
  proof (cases r)
    case (Inl e)
    then show ?thesis using assms(1) by (simp add: ends_def bindR_def Pair)
  next
    case (Inr x)
    then have "R x s1" "valid s1" "remaining s1 \<le> remaining s" using assms(1) by (simp_all add: ends_def Pair)
    then have "ends (f x) s1 Q" "remaining s1 \<le> remaining s" using assms(2) by blast+
    then show ?thesis by (auto simp: ends_def bindR_def Pair Inr split: prod.splits)
  qed
qed

lemma ends_mono: "ends m s Q \<Longrightarrow> (\<And>x s'. Q x s' \<Longrightarrow> valid s' \<Longrightarrow> remaining s' \<le> remaining s \<Longrightarrow> Q' x s') \<Longrightarrow> ends m s Q'"
  by (auto simp: ends_def split: prod.splits)

lemma ends_next_word [ends_intros]: "valid s \<Longrightarrow> (\<And>w s'. remaining s' < remaining s \<Longrightarrow> Q w s') \<Longrightarrow> ends next_word s Q"
  by (auto simp: ends_def next_word_def valid_def remaining_def)

lemma ends_newNodeIDs [ends_intros]: "valid s \<Longrightarrow> (\<And>w s'. remaining s' = remaining s \<Longrightarrow> Q w s') \<Longrightarrow> ends (newNodeIDs n) s Q"
  by (auto simp: ends_def newNodeIDs_def valid_def remaining_def)

lemma ends_quiet:
  assumes "quiet (set (oidData s)) P m" and "valid s" and "\<And>k x s'. P k x \<Longrightarrow> (0 < k \<Longrightarrow> remaining s' < remaining s) \<Longrightarrow> remaining s' \<le> remaining s \<Longrightarrow> Q x s'"
  shows "ends m s Q"
proof (cases "m s")
  case (Pair r s')
  note q = quietD [OF assms(1) refl Pair]
  have "oidData s' = oidData s" "oidDataIndex s \<le> oidDataIndex s'" using q(1) by (simp_all add: calm_def)
  moreover have "oidDataIndex s' \<le> length (oidData s)" using q(4) assms(2) by (simp add: valid_def)
  ultimately show ?thesis using q(2,3) assms(2,3) by (auto simp: ends_def Pair valid_def remaining_def)
qed

definition ends_below :: "('d \<Rightarrow> nat) \<Rightarrow> nat \<Rightarrow> nat \<Rightarrow> 'd tb_process \<Rightarrow> bool" where
  "ends_below rank M b proc \<longleftrightarrow>
     (\<forall>i v s. valid s \<longrightarrow> remaining s * Suc M + rank (v_type v) < b \<longrightarrow> ends (proc i v) s (\<lambda>_ _. True))"

lemma read_below: "k < l \<Longrightarrow> r \<le> (M :: nat) \<Longrightarrow> l * Suc M + c \<le> b \<Longrightarrow> k * Suc M + r < b"
proof -
  assume "k < l" "r \<le> M" "l * Suc M + c \<le> b"
  then have "Suc k * Suc M \<le> l * Suc M" by (intro mult_le_mono1) simp
  then show ?thesis using \<open>r \<le> M\<close> \<open>l * Suc M + c \<le> b\<close> by simp
qed

lemma rank_below: "k \<le> l \<Longrightarrow> r < c \<Longrightarrow> l * Suc M + c \<le> b \<Longrightarrow> k * Suc M + r < (b :: nat)"
proof -
  assume "k \<le> l" "r < c" "l * Suc M + c \<le> b"
  then have "k * Suc M \<le> l * Suc M" by (intro mult_le_mono1)
  then show ?thesis using \<open>r < c\<close> \<open>l * Suc M + c \<le> b\<close> by simp
qed

lemma process_child_ends:
  assumes "ends_below rank M b proc" and "valid s" and "remaining s * Suc M + rank (v_type v) < b"
  shows "ends (process_child proc v node f) s (\<lambda>_ _. True)"
  unfolding process_child_def
proof (rule ends_bind)
  show "ends (newNodeIDs 1) s (\<lambda>_ s'. remaining s' = remaining s)" using assms(2) by (intro ends_intros) simp_all
next
  fix i s1 assume "remaining s1 = remaining s" "valid s1"
  then have "ends (proc i v) s1 (\<lambda>_ _. True)" using assms(1,3) by (simp add: ends_below_def)
  then show "ends (bindR (proc i v) (\<lambda>child. returnR (f child (node\<lparr>tn_children := Some (i, i + 1)\<rparr>)))) s1 (\<lambda>_ _. True)"
    by (rule ends_bind) (simp add: ends_return)
qed

lemma each_child_ends:
  fixes proc :: "'d tb_process"
  assumes "ends_below rank M b proc"
    and "\<And>m s'. m \<in> set vs \<Longrightarrow> valid s' \<Longrightarrow> remaining s' \<le> remaining s \<Longrightarrow> ends m s' (\<lambda>v s''. remaining s'' * Suc M + rank (v_type v) < b)"
    and "valid s"
  shows "ends (each_child proc vs i acc) s (\<lambda>_ _. True)"
  using assms(2,3)
proof (induction vs arbitrary: i acc s)
  case Nil
  then show ?case by (simp add: ends_return)
next
  case (Cons m vs)
  show ?case unfolding each_child.simps
  proof (rule ends_bind)
    show "ends m s (\<lambda>v s''. remaining s'' * Suc M + rank (v_type v) < b)" using Cons.prems by simp
  next
    fix v :: "'d variable" and s1 assume v: "remaining s1 * Suc M + rank (v_type v) < b" "valid s1" "remaining s1 \<le> remaining s"
    then have "ends (proc i v) s1 (\<lambda>_ _. True)" using assms(1) by (simp add: ends_below_def)
    then show "ends (bindR (proc i v) (\<lambda>child. each_child proc vs (i + 1) (add_sizes child acc))) s1 (\<lambda>_ _. True)"
      by (rule ends_bind) (rule Cons.IH, use Cons.prems(1) v(3) in auto)
  qed
qed

lemma variant_ends:
  assumes "ends_below rank M b proc" and "\<And>t. rank t \<le> M" and "valid s" and "remaining s * Suc M + c \<le> b"
  shows "ends (variant_child da proc ts node) s (\<lambda>sw _. \<exists>node. sw = Return node)"
  unfolding variant_child_def
proof (rule ends_bind)
  show "ends next_word s (\<lambda>_ s'. remaining s' < remaining s)" by (intro ends_intros assms(3))
next
  fix index s1 assume s1: "remaining s1 < remaining s" "valid s1"
  show "ends (if unat index < length ts
     then bindR (process_child proc (element_variable da (ts ! unat index)) node
         (\<lambda>child node. setSize node (tn_dynamicSize child) (tn_dynamicSize child + tn_staticSize child))) (\<lambda>node. returnR (Return node))
     else returnR (Return node)) s1 (\<lambda>sw _. \<exists>node. sw = Return node)"
  proof (cases "unat index < length ts")
    case True
    have "ends (process_child proc (element_variable da (ts ! unat index)) node
         (\<lambda>child node. setSize node (tn_dynamicSize child) (tn_dynamicSize child + tn_staticSize child))) s1 (\<lambda>_ _. True)"
      by (rule process_child_ends [OF assms(1) s1(2) read_below [OF s1(1) assms(2,4)]])
    then show ?thesis unfolding if_P [OF True] by (rule ends_bind) (simp add: ends_return)
  next
    case False
    then show ?thesis using s1(2) by (simp add: ends_return)
  qed
qed

lemma adapter_ends:
  assumes "ends_below rank M b proc" and "\<And>t. rank t \<le> M" and "valid s" and "remaining s * Suc M + c \<le> b"
  shows "ends (adapter_child da proc ts node) s (\<lambda>sw _. \<exists>node. sw = Return node)"
  unfolding adapter_child_def
proof (rule ends_bind)
  show "ends next_word s (\<lambda>_ s'. remaining s' < remaining s)" by (intro ends_intros assms(3))
next
  fix p s1 assume s1: "remaining s1 < remaining s" "valid s1"
  let ?f = "\<lambda>child node. (setSize node (tn_dynamicSize child) (tn_dynamicSize child + tn_staticSize child))\<lparr>tn_containerStats := tn_containerStats child\<rparr>"
  show "ends (if ts = [] then liftR (Inl (Undefined ''index past the end of a vector''))
     else bindR (process_child proc (element_variable da (ts ! 0)) (set_pointer p node) ?f) (\<lambda>node. returnR (Return node))) s1
     (\<lambda>sw _. \<exists>node. sw = Return node)"
  proof (cases "ts = []")
    case True
    then show ?thesis by (simp add: ends_def liftR_def)
  next
    case False
    have "ends (process_child proc (element_variable da (ts ! 0)) (set_pointer p node) ?f) s1 (\<lambda>_ _. True)"
      by (rule process_child_ends [OF assms(1) s1(2) read_below [OF s1(1) assms(2,4)]])
    then show ?thesis unfolding if_not_P [OF False] by (rule ends_bind) (simp add: ends_return)
  qed
qed

text \<open>After the switch: there are elements only if a word was read, or in a pair.\<close>

definition breaks :: "container_type \<Rightarrow> nat \<Rightarrow> switch \<Rightarrow> tree_builder \<Rightarrow> bool" where
  "breaks kind k sw s \<longleftrightarrow> (\<forall>inline node. sw = Break inline node \<longrightarrow>
     (\<exists>st. tn_containerStats node = Some st \<and> (st_length st = 0 \<or> kind = PAIR_TYPE \<or> remaining s < k)))"

lemma switch_ends:
  assumes "ends_below rank M b proc" and "\<And>t. rank t \<le> M" and "valid s" and "remaining s * Suc M + c \<le> b" and "fresh_node node"
    and "tn_containerStats node = Some \<lparr>st_length = 0, st_capacity = 0, st_elementStaticSize = sz\<rparr>"
  shows "ends (container_switch da th proc kind ts node) s (breaks kind (remaining s))"
proof (cases "kind \<in> {SORTED_VEC_SET_TYPE, CONTAINER_ADAPTER_TYPE, STD_VARIANT_TYPE}")
  case True
  have size: "for_each (max_size da th) ts 0 \<noteq> Inl Diverge"
    by (rule for_each_ends) (simp add: max_size_def bindE_Inl_iff)
  have "ends (container_switch da th proc kind ts node) s (\<lambda>sw _. \<exists>node. sw = Return node)"
  proof (cases "kind = STD_VARIANT_TYPE")
    case True
    show ?thesis unfolding container_switch_def True container_type.case
      by (rule ends_bind [OF ends_lift [OF assms(3) size, where Q = "\<lambda>_ s'. s' = s"]])
        (use variant_ends [OF assms(1-4)] in simp_all)
  next
    case False
    then show ?thesis using \<open>kind \<in> _\<close> adapter_ends [OF assms(1-4)] by (auto simp: container_switch_def)
  qed
  then show ?thesis by (rule ends_mono) (auto simp: breaks_def)
next
  case False
  have "quiet (set (oidData s)) (switched (set (oidData s)) kind node) (container_switch da th proc kind ts node)"
    by (rule switch_quiet [OF _ _ assms(6) False]) (use assms(5) in \<open>simp_all add: fresh_node_def\<close>)
  then show ?thesis
    by (rule ends_quiet [OF _ assms(3)]) (auto simp: breaks_def switched_def split: option.splits)
qed

lemma elements_ends:
  fixes da :: "'d drgn_answers"
  assumes "ends_below rank M b proc" and "ranked da th rank M chain K" and "K < n" and "valid s"
    and "tn_containerStats node = Some st"
    and "\<And>t. st_length st \<noteq> 0 \<Longrightarrow> t \<in> set ts \<Longrightarrow> remaining s * Suc M + rank t < b"
  shows "ends (processElements da th n proc ts inline node) s (\<lambda>_ _. True)"
proof -
  let ?contents = "st_elementStaticSize st * st_capacity st"
  let ?node = "if inline then node else setSize node (tn_dynamicSize node + ?contents) 0"
  let ?num = "st_length st * of_nat (length ts)"
  let ?vs = "concat (replicate (unat (st_length st)) (map (\<lambda>t. returnR (element_variable da t)) ts)) :: (tree_builder, 'd variable) run list"
  have prim: "allE (isPrimitive da th n) ts \<noteq> Inl Diverge"
  proof (rule allE_ends)
    fix t
    have "chain t < n" using assms(2,3) by (auto simp: ranked_def intro: order_le_less_trans)
    then show "isPrimitive da th n t \<noteq> Inl Diverge" by (rule isPrimitive_ends [OF assms(2)])
  qed
  have "ends (each_child proc ?vs i acc) s' (\<lambda>_ _. True)" if "valid s'" "remaining s' \<le> remaining s" for i acc s'
  proof (rule each_child_ends [OF assms(1) _ that(1)])
    fix m s'' assume m: "m \<in> set ?vs" and s'': "valid s''" "remaining s'' \<le> remaining s'"
    from m have "m \<in> (\<lambda>t. returnR (element_variable da t)) ` set ts" "unat (st_length st) \<noteq> 0" by (auto split: if_splits)
    then obtain t where t: "t \<in> set ts" "m = returnR (element_variable da t)" by blast
    have pos: "st_length st \<noteq> 0" using \<open>unat (st_length st) \<noteq> 0\<close> by (metis unat_0)
    have "remaining s'' * Suc M \<le> remaining s * Suc M" using s''(2) that(2) by (intro mult_le_mono1) simp
    then have "remaining s'' * Suc M + rank t < b" using assms(6) [OF pos t(1)] by simp
    then show "ends m s'' (\<lambda>v s''. remaining s'' * Suc M + rank (v_type v) < b)"
      unfolding t(2) by (intro ends_return s''(1)) (simp add: element_variable_def plain_variable_def)
  qed
  then have children: "ends (bindR (newNodeIDs (unat ?num)) (\<lambda>childID.
          bindR (each_child proc ?vs childID (?node\<lparr>tn_children := Some (childID, childID + ?num)\<rparr>, 0)) (\<lambda>(node, memberSizes).
          returnR (setSize node (tn_dynamicSize node) memberSizes)))) s (\<lambda>_ _. True)"
    by (intro ends_bind [OF ends_newNodeIDs [OF assms(4), where Q = "\<lambda>_ _. True"]] ends_bind [where R = "\<lambda>_ _. True"])
      (auto simp: ends_return split: prod.split)
  show ?thesis
  proof (cases "CONTAINER_SIZE_THRESHOLD \<le> ?contents")
    case True
    then show ?thesis by (simp add: processElements_def Let_def assms(5) ends_def liftR_def)
  next
    case False
    have "ends (bindR (liftR (allE (isPrimitive da th n) ts)) (\<lambda>primitive. if primitive \<or> ?num = 0 then returnR ?node
        else bindR (newNodeIDs (unat ?num)) (\<lambda>childID.
          bindR (each_child proc ?vs childID (?node\<lparr>tn_children := Some (childID, childID + ?num)\<rparr>, 0)) (\<lambda>(node, memberSizes).
          returnR (setSize node (tn_dynamicSize node) memberSizes))))) s (\<lambda>_ _. True)"
    proof (rule ends_bind [OF ends_lift [OF assms(4) prim, where Q = "\<lambda>_ s'. s' = s"]])
      fix primitive s1 assume "s1 = s"
      moreover have "ends (returnR ?node) s (\<lambda>_ _. True)" by (rule ends_return [OF assms(4)]) simp
      ultimately show "ends (if primitive \<or> ?num = 0 then returnR ?node
        else bindR (newNodeIDs (unat ?num)) (\<lambda>childID.
          bindR (each_child proc ?vs childID (?node\<lparr>tn_children := Some (childID, childID + ?num)\<rparr>, 0)) (\<lambda>(node, memberSizes).
          returnR (setSize node (tn_dynamicSize node) memberSizes)))) s1 (\<lambda>_ _. True)"
        using children by (cases "primitive \<or> ?num = 0") (simp_all only: if_True if_False)
    qed simp
    then show ?thesis using False by (simp only: processElements_def Let_def assms(5) option.sel if_False)
  qed
qed

lemma container_ends:
  assumes "ends_below rank M b proc" and "ranked da th rank M chain K" and "K < n" and "valid s"
    and "remaining s * Suc M + rank (v_type v) \<le> b" and "fresh_node node"
  shows "ends (processContainer da th cfg n proc v node) s (\<lambda>_ _. True)"
  unfolding processContainer_def
proof (rule ends_bind [OF ends_lift [OF assms(4) container_kind_ends [OF assms(2,3)], where
      Q = "\<lambda>info s'. s' = s \<and> (fst info = PAIR_TYPE \<longrightarrow> th_containerTypes th (v_type v) = Some info)"]])
  fix info assume "container_kind da th cfg n (v_type v) (tn_typeName node) = Inr info"
  then show "s = s \<and> (fst info = PAIR_TYPE \<longrightarrow> th_containerTypes th (v_type v) = Some info)"
    by (auto simp: container_kind_def bindE_Inr_iff split: if_splits option.splits)
next
  fix info s1 assume info: "s1 = s \<and> (fst info = PAIR_TYPE \<longrightarrow> th_containerTypes th (v_type v) = Some info)"
  obtain kind ts where kind: "info = (kind, ts)" by fastforce
  have s1: "s1 = s" and pair: "kind = PAIR_TYPE \<Longrightarrow> th_containerTypes th (v_type v) = Some (kind, ts)" using info kind by simp_all
  have size: "for_each (add_size da th) ts 0 \<noteq> Inl Diverge" by (rule for_each_ends) (simp add: add_size_def bindE_Inl_iff)
  have rank: "rank t \<le> M" for t using assms(2) by (simp add: ranked_def)
  have after: "ends (case sw of Return node \<Rightarrow> returnR node | Break inline node \<Rightarrow> processElements da th n proc ts inline node) s2 (\<lambda>_ _. True)"
    if sw: "breaks kind (remaining s) sw s2" and s2: "valid s2" "remaining s2 \<le> remaining s" for sw s2
  proof (cases sw)
    case (Return node')
    then show ?thesis using s2(1) by (simp add: ends_return)
  next
    case (Break inline node')
    then obtain st where st: "tn_containerStats node' = Some st" "st_length st = 0 \<or> kind = PAIR_TYPE \<or> remaining s2 < remaining s"
      using sw by (auto simp: breaks_def)
    have "remaining s2 * Suc M + rank t < b" if len: "st_length st \<noteq> 0" and t: "t \<in> set ts" for t
    proof (cases "remaining s2 < remaining s")
      case True
      then show ?thesis by (rule read_below [OF _ rank assms(5)])
    next
      case False
      then have "rank t < rank (v_type v)" using st(2) len t pair assms(2) unfolding ranked_def by blast
      then show ?thesis by (rule rank_below [OF s2(2) _ assms(5)])
    qed
    then show ?thesis using elements_ends [OF assms(1,2,3) s2(1) st(1)] by (simp add: Break)
  qed
  have "ends (bindR (liftR (for_each (add_size da th) ts 0)) (\<lambda>sz. bindR (container_switch da th proc kind ts
        (node\<lparr>tn_containerStats := Some \<lparr>st_length = 0, st_capacity = 0, st_elementStaticSize = sz\<rparr>\<rparr>)) (\<lambda>sw.
      case sw of Return node \<Rightarrow> returnR node | Break inline node \<Rightarrow> processElements da th n proc ts inline node))) s (\<lambda>_ _. True)"
  proof (rule ends_bind [OF ends_lift [OF assms(4) size, where Q = "\<lambda>_ s'. s' = s"]])
    fix sz s1 assume s1: "s1 = s"
    let ?node = "node\<lparr>tn_containerStats := Some \<lparr>st_length = 0, st_capacity = 0, st_elementStaticSize = sz\<rparr>\<rparr>"
    have "fresh_node ?node" using assms(6) by (simp add: fresh_node_def node_size_def)
    then have "ends (container_switch da th proc kind ts ?node) s (breaks kind (remaining s))"
      by (rule switch_ends [OF assms(1) rank assms(4,5)]) simp
    then show "ends (bindR (container_switch da th proc kind ts ?node) (\<lambda>sw.
        case sw of Return node \<Rightarrow> returnR node | Break inline node \<Rightarrow> processElements da th n proc ts inline node)) s1 (\<lambda>_ _. True)"
      unfolding s1 by (rule ends_bind) (rule after)
  qed simp
  then show "ends (case info of (kind, ts) \<Rightarrow> bindR (liftR (for_each (add_size da th) ts 0)) (\<lambda>sz.
      bindR (container_switch da th proc kind ts (node\<lparr>tn_containerStats := Some \<lparr>st_length = 0, st_capacity = 0, st_elementStaticSize = sz\<rparr>\<rparr>)) (\<lambda>sw.
      case sw of Return node \<Rightarrow> returnR node | Break inline node \<Rightarrow> processElements da th n proc ts inline node))) s1 (\<lambda>_ _. True)"
    by (simp add: kind s1)
qed

lemma pointer_ends:
  assumes "ends_below rank M b proc" and "ranked da th rank M chain K" and "valid s" and "remaining s * Suc M + rank (v_type v) \<le> b"
  shows "ends (processPointer da th cfg proc v node) s (\<lambda>_ _. True)"
proof (cases "\<not> bit_get (tc_features cfg) ChaseRawPointers \<or> v_type v \<in> th_knownDummyTypes th \<or> th_pointerToType th (v_type v) = None")
  case True
  then show ?thesis using assms(3) by (auto simp: processPointer_def Let_def ends_return split: option.split)
next
  case False
  then obtain inner where inner: "th_pointerToType th (v_type v) = Some inner" by blast
  let ?follow = "\<lambda>node. process_child proc (plain_variable inner [] []) node (\<lambda>child node.
         setSize node (tn_staticSize child + tn_dynamicSize child) (tn_staticSize child + tn_dynamicSize child))"
  have rank: "rank t \<le> M" for t using assms(2) by (simp add: ranked_def)
  show ?thesis
  proof (cases "da_kind da inner = DK_FUNCTION")
    case True
    then have "rank inner < rank (v_type v)" using assms(2) inner unfolding ranked_def by blast
    from rank_below [OF order_refl this assms(4)] have "ends (?follow node) s (\<lambda>_ _. True)"
      by (intro process_child_ends [OF assms(1,3)]) (simp add: plain_variable_def)
    then show ?thesis using False inner True by (simp add: processPointer_def Let_def)
  next
    case nofun: False
    have "ends (bindR next_word (\<lambda>p. if da_kind da inner = DK_VOID then returnR (set_pointer p node)
        else bindR next_word (\<lambda>tag. if tag = skipped then returnR (set_pointer p node) else ?follow (set_pointer p node)))) s (\<lambda>_ _. True)"
    proof (rule ends_bind [OF ends_next_word [OF assms(3), where Q = "\<lambda>_ s'. remaining s' < remaining s"]])
      fix p s1 assume s1: "remaining s1 < remaining s" "valid s1"
      show "ends (if da_kind da inner = DK_VOID then returnR (set_pointer p node)
        else bindR next_word (\<lambda>tag. if tag = skipped then returnR (set_pointer p node) else ?follow (set_pointer p node))) s1 (\<lambda>_ _. True)"
      proof (cases "da_kind da inner = DK_VOID")
        case True
        then show ?thesis using s1(2) by (simp add: ends_return)
      next
        case False
        show ?thesis unfolding if_not_P [OF False]
        proof (rule ends_bind [OF ends_next_word [OF s1(2), where Q = "\<lambda>_ s'. remaining s' < remaining s"]])
          fix tag s2 assume s2: "remaining s2 < remaining s" "valid s2"
          have "ends (?follow (set_pointer p node)) s2 (\<lambda>_ _. True)"
            by (rule process_child_ends [OF assms(1) s2(2) read_below [OF s2(1) rank assms(4)]])
          then show "ends (if tag = skipped then returnR (set_pointer p node) else ?follow (set_pointer p node)) s2 (\<lambda>_ _. True)"
            using s2(2) by (simp add: ends_return)
        qed (use s1(1) in simp)
      qed
    qed simp
    then show ?thesis using False inner nofun by (simp add: processPointer_def Let_def)
  qed
qed

lemma typedef_ends:
  assumes "ends_below rank M b proc" and "ranked da th rank M chain K" and "valid s" and "remaining s * Suc M + rank (v_type v) \<le> b"
  shows "ends (processTypedef th proc v node) s (\<lambda>_ _. True)"
proof (cases "isStandardInteger (tn_typeName node) \<or> th_typedefs th (v_type v) = None")
  case True
  then show ?thesis using assms(3) by (auto simp: processTypedef_def Let_def ends_return)
next
  case False
  then obtain u where u: "th_typedefs th (v_type v) = Some u" by blast
  then have "rank u < rank (v_type v)" using assms(2) unfolding ranked_def by blast
  from rank_below [OF order_refl this assms(4)] show ?thesis
    using False u by (auto simp: processTypedef_def Let_def plain_variable_def intro!: process_child_ends [OF assms(1,3)])
qed

lemma class_ends:
  fixes da :: "'d drgn_answers"
  assumes "ends_below rank M b proc" and "ranked da th rank M chain K" and "valid s" and "remaining s * Suc M + rank (v_type v) \<le> b"
  shows "ends (processClass da th proc v node) s (\<lambda>_ _. True)"
  unfolding processClass_def
proof (rule ends_bind)
  let ?Q = "\<lambda>x s'. fst x = v_type v \<or> remaining s' < remaining s"
  have "quiet (set (oidData s)) (\<lambda>k (u, node). u = v_type v \<or> 0 < k) (concrete_class da th (v_type v) node)"
    unfolding concrete_class_def by (cases "th_descendantClasses th (v_type v)") (auto simp: Let_def intro!: quiet_intros)
  then show "ends (concrete_class da th (v_type v) node) s ?Q"
    by (rule ends_quiet [OF _ assms(3)]) auto
next
  fix x :: "'d \<times> tb_node" and s1 assume x: "fst x = v_type v \<or> remaining s1 < remaining s" and s1: "valid s1" "remaining s1 \<le> remaining s"
  obtain u node1 where u: "x = (u, node1)" by fastforce
  have bound: "k * Suc M + r < b" if "r < rank u" "k \<le> remaining s1" for k r
  proof (cases "remaining s1 < remaining s")
    case True
    have r: "r \<le> M" using that(1) assms(2) unfolding ranked_def by (meson less_imp_le order_less_le_trans)
    show ?thesis by (rule read_below [OF _ r assms(4)]) (use that(2) True in simp)
  next
    case False
    then have "u = v_type v" using x u by simp
    then show ?thesis by (intro rank_below [OF _ _ assms(4)]) (use that s1(2) in simp_all)
  qed
  show "ends (case x of (objectType, node) \<Rightarrow> case th_classMembers th objectType of None \<Rightarrow> returnR node
     | Some members \<Rightarrow> if members = [] then returnR node
         else bindR (newNodeIDs (length members)) (\<lambda>childID.
           bindR (each_child proc (member_variables (objectType \<in> th_thriftIssetStructTypes th) members) childID
               (node\<lparr>tn_children := Some (childID, childID + of_nat (length members))\<rparr>, 0)) (\<lambda>(node, memberSizes).
           returnR (setSize node (tn_dynamicSize node) memberSizes)))) s1 (\<lambda>_ _. True)"
  proof (cases "th_classMembers th u = None \<or> th_classMembers th u = Some []")
    case True
    then show ?thesis using s1(1) by (auto simp: u ends_return)
  next
    case False
    then obtain members where members: "th_classMembers th u = Some members" "members \<noteq> []" by auto
    have each: "ends (each_child proc (member_variables b' members) i acc) s2 (\<lambda>_ _. True)" if s2: "valid s2" "remaining s2 \<le> remaining s1" for b' i acc s2
    proof (rule each_child_ends [OF assms(1) _ s2(1)])
      fix m s3 assume m: "m \<in> set (member_variables b' members)" and s3: "valid s3" "remaining s3 \<le> remaining s2"
      then obtain b'' mem where mem: "mem \<in> set members" "m = member_variable b'' mem"
        by (auto simp: member_variables_def enumerate_eq_zip dest: set_zip_rightD)
      have "rank (cm_type mem) < rank u" using assms(2) members(1) mem(1) unfolding ranked_def by blast
      then have below: "k * Suc M + rank (cm_type mem) < b" if "k \<le> remaining s3" for k using bound that s2(2) s3(2) by simp
      have "quiet (set (oidData s3)) (\<lambda>k v. v_type v = cm_type mem) (member_variable b'' mem)"
      proof (cases b'')
        case True
        have "quiet (set (oidData s3)) (\<lambda>k x. True) (bindR next_word (\<lambda>val. returnR (if val = - 1 then None else Some (val \<noteq> 0))))"
          by (intro quiet_intros) simp
        then show ?thesis unfolding member_variable_def using True by (auto intro!: quiet_bind [where Q = "\<lambda>k x. True"] quiet_intros)
      next
        case False
        then show ?thesis unfolding member_variable_def by (auto intro!: quiet_bind [where Q = "\<lambda>k x. True"] quiet_intros)
      qed
      then show "ends m s3 (\<lambda>v s''. remaining s'' * Suc M + rank (v_type v) < b)"
        unfolding mem(2) by (rule ends_quiet [OF _ s3(1)]) (simp only: below)
    qed
    show ?thesis unfolding u prod.case members(1) option.case if_not_P [OF members(2)]
      by (intro ends_bind [OF ends_newNodeIDs [OF s1(1), where Q = "\<lambda>_ _. True"]] ends_bind [where R = "\<lambda>_ _. True"])
        (auto simp: each ends_return split: prod.split)
  qed
qed

lemma kind_ends:
  assumes "ends_below rank M b proc" and "ranked da th rank M chain K" and "K < n" and "valid s" and "remaining s * Suc M + rank (v_type v) \<le> b"
    and "fresh_node node"
  shows "ends (process_kind da th cfg n proc v node) s (\<lambda>_ _. True)"
proof -
  have "ends (returnR node) s (\<lambda>_ _. True)" by (rule ends_return [OF assms(4)]) simp
  then show ?thesis
    by (simp add: process_kind_def Let_def pointer_ends [OF assms(1,2,4,5)] typedef_ends [OF assms(1,2,4,5)]
        container_ends [OF assms] class_ends [OF assms(1,2,4,5)])
qed

lemma body_ends:
  assumes "ends_below rank M b proc" and "ranked da th rank M chain K" and "K < n" and "valid s" and "remaining s * Suc M + rank (v_type v) \<le> b"
  shows "ends (process_body da th cfg put n proc i v) s (\<lambda>_ _. True)"
  unfolding process_body_def Let_def
proof (rule ends_bind [OF ends_lift [OF assms(4) getDrgnTypeSize_ends, where Q = "\<lambda>_ s'. s' = s"]])
  fix sz s1 assume s1: "s1 = s"
  let ?node = "setSize \<lparr>tn_id = i, tn_name = v_name v, tn_typeName = drgnTypeToName da (v_type v), tn_typePath = v_typePath v,
       tn_isTypedef = False, tn_staticSize = sz, tn_dynamicSize = 0, tn_paddingSavingsSize = None, tn_pointer = None,
       tn_containerStats = None, tn_children = None, tn_isset = v_isset v, tn_exclusiveSize = 0\<rparr> 0 0"
  have fresh: "fresh_node ?node" by (simp add: fresh_node_def node_size_def)
  have leaf: "ends (returnR ?node) s (\<lambda>_ _. True)" by (rule ends_return [OF assms(4)]) simp
  note kind = kind_ends [OF assms fresh]
  have pad: "ends (padding_stats cfg node) s2 (\<lambda>_ _. True)" if "valid s2" for node s2
    using that by (auto simp: ends_def padding_stats_def valid_def remaining_def split: option.splits)
  have put: "ends (db_put put node) s2 (\<lambda>_ _. True)" if "valid s2" for node s2
    using that by (auto simp: ends_def db_put_def valid_def remaining_def split: option.splits)
  have "ends (if v_isStubbed v then returnR ?node else bindR (process_kind da th cfg n proc v ?node) (padding_stats cfg)) s (\<lambda>_ _. True)"
    using leaf ends_bind [OF kind pad] by simp
  then show "ends (bindR (if v_isStubbed v then returnR ?node else bindR (process_kind da th cfg n proc v ?node) (padding_stats cfg)) (db_put put)) s1 (\<lambda>_ _. True)"
    unfolding s1 by (rule ends_bind) (rule put)
qed simp

lemma process_ends:
  assumes "ranked da th rank M chain K"
  shows "valid s \<Longrightarrow> remaining s * Suc M + rank (v_type v) + K < n \<Longrightarrow> ends (process da th cfg put n i v) s (\<lambda>_ _. True)"
proof (induction n arbitrary: i v s)
  case (Suc n)
  have "ends_below rank M (n - K) (process da th cfg put n)"
    unfolding ends_below_def using Suc.IH by (simp add: less_diff_conv)
  then show ?case unfolding process.simps by (rule body_ends [OF _ assms]) (use Suc.prems in simp_all)
qed simp

section \<open>Builds\<close>

text \<open>
  C13: A build ends, on any words and for types that contain each other: where a member, the target of a typedef and the components of a
  pair are below the type that has them, a depth of \<open>Suc M\<close> for each word of the data, the rank of the type and the length of the chains is enough.
\<close>

theorem build_ends:
  assumes "ranked da th rank M chain K" and "4 \<le> length data" and "(length data - 4) * Suc M + rank t + K < n"
  shows "fst (build da th cfg put n data argName t s) \<noteq> Inl Diverge"
proof -
  let ?s = "s\<lparr>oidData := data, oidDataIndex := 4, nextNodeID := nextNodeID s + 1, rootIDs := rootIDs s @ [of_nat (nextNodeID s)]\<rparr>"
  have "ends (process da th cfg put n (of_nat (nextNodeID s)) (plain_variable t argName argName)) ?s (\<lambda>_ _. True)"
    by (rule process_ends [OF assms(1)]) (use assms(2,3) in \<open>simp_all add: valid_def remaining_def plain_variable_def\<close>)
  then show ?thesis by (auto simp: ends_def build_def Let_def split: prod.splits sum.splits)
qed

definition list_answers :: "nat drgn_answers" where
  "list_answers = \<lparr>da_kind = (\<lambda>t. if t = 0 then DK_STRUCT else DK_POINTER), da_program = (\<lambda>_. False), da_typeToName = (\<lambda>_. ''''),
     da_oi_name = (\<lambda>t. Some (if t = 0 then ''List'' else ''List *'')), da_sizeof = (\<lambda>_. Inr 8), da_oi_size = (\<lambda>_. 8), da_length = (\<lambda>_. 0),
     da_element = (\<lambda>t. t), da_primitive = (\<lambda>_. False), da_error_type = ''5''\<rparr>"

definition list_hierarchy :: "nat type_hierarchy" where
  "list_hierarchy = \<lparr>th_classMembers = [0 \<mapsto> [\<lparr>cm_type = 1, cm_member_name = ''next'', cm_isStubbed = False\<rparr>]], th_containerTypes = (\<lambda>_. None),
     th_typedefs = (\<lambda>_. None), th_sizes = [], th_knownDummyTypes = {}, th_pointerToType = [1 \<mapsto> 0], th_thriftIssetStructTypes = {},
     th_descendantClasses = (\<lambda>_. None)\<rparr>"

lemma list_ranked: "ranked list_answers list_hierarchy (\<lambda>t. if t = 0 then 1 else 0) 1 (\<lambda>_. 0) 0"
  by (auto simp: ranked_def list_answers_def list_hierarchy_def split: if_splits)

theorem build_ends_witness:
  "fst (build list_answers list_hierarchy \<lparr>tc_features = {ChaseRawPointers}, tc_strict = True, tc_jsonPath = True\<rparr> (\<lambda>_. None) 10
     [0, 0, 0, 0, 0x1000, 1, 0x2000, 0] ''list'' 0 (new_builder None)) \<noteq> Inl Diverge"
  by (rule build_ends [OF list_ranked]) simp_all

text \<open>The description of a program without types.\<close>

definition no_types :: "unit type_hierarchy" where
  "no_types = \<lparr>th_classMembers = (\<lambda>_. None), th_containerTypes = (\<lambda>_. None), th_typedefs = (\<lambda>_. None), th_sizes = [],
     th_knownDummyTypes = {}, th_pointerToType = (\<lambda>_. None), th_thriftIssetStructTypes = {}, th_descendantClasses = (\<lambda>_. None)\<rparr>"

end
