(* ===== verification/TargetData.thy ===== *)
theory TargetData
  imports TreeEnds DataSegment
begin

text \<open>
  The way of the data from the target process to the builder: what the functions of \<^verbatim>\<open>oi/FuncGen.cpp\<close>, which are part of the generated
  code, write into the data segment for one argument, and what \<^verbatim>\<open>decodeTargetData\<close> and \<^verbatim>\<open>processTargetData\<close> of
  \<^verbatim>\<open>oi/OIDebugger.cpp\<close> read from a copy of it.
\<close>

unbundle bit_operations_syntax

section \<open>Writing\<close>

text \<open>
  The globals of the generated code and the memory of the target. An address is a number; the data segment does not lie at the end of
  the address space.
\<close>

record jit =
  dataBase :: nat
  dataSize :: u64
  cookieValue :: u64
  memory :: "nat \<Rightarrow> u8"

definition oidMagicId :: u64 where "oidMagicId = 0x01DE8"
definition end_mark :: u64 where "end_mark = 123456789"

text \<open>The pointer \<^verbatim>\<open>p\<close> of the loop is returned with the memory.\<close>

function encode_loop :: "u64 \<Rightarrow> nat \<Rightarrow> (nat \<Rightarrow> u8) \<Rightarrow> nat \<times> (nat \<Rightarrow> u8)" where
  "encode_loop val p mem =
     (if 128 \<le> val then encode_loop (drop_bit 7 val) (p + 1) (mem(p := ucast (0x80 OR (val AND 0x7f))))
      else (p + 1, mem(p := ucast val)))"
  by pat_completeness auto
termination by (relation "measure (\<lambda>(val, p, mem). unat val)") (simp_all add: unat_drop_7_less)

declare encode_loop.simps [simp del]

definition EncodeVarint :: "u64 \<Rightarrow> nat \<Rightarrow> (nat \<Rightarrow> u8) \<Rightarrow> u64 \<times> (nat \<Rightarrow> u8)" where
  "EncodeVarint val buf mem = (let (p, mem) = encode_loop val buf mem in (of_nat (p - buf), mem))"

function size_loop :: "u64 \<Rightarrow> u64 \<Rightarrow> u64" where
  "size_loop val s = (if 128 \<le> val then size_loop (drop_bit 7 val) (s + 1) else s)"
  by pat_completeness auto
termination by (relation "measure (\<lambda>(val, s). unat val)") (simp_all add: unat_drop_7_less)

declare size_loop.simps [simp del]

definition EncodeVarintSize :: "u64 \<Rightarrow> u64" where
  "EncodeVarintSize val = size_loop val 1"

definition StoreData :: "u64 \<Rightarrow> u64 \<times> jit \<Rightarrow> u64 \<times> jit" where
  "StoreData data = (\<lambda>(dataSegOffset, j).
     let sz = EncodeVarintSize data in
     if sz + dataSegOffset < dataSize j
     then let (data_size, mem) = EncodeVarint data (dataBase j + unat dataSegOffset) (memory j) in
       (dataSegOffset + data_size, j\<lparr>memory := mem\<rparr>)
     else (dataSegOffset + sz, j))"

text \<open>A \<^verbatim>\<open>uintptr_t\<close> in memory, little endian.\<close>

definition store_word :: "nat \<Rightarrow> u64 \<Rightarrow> jit \<Rightarrow> jit" where
  "store_word a w j = j\<lparr>memory := (\<lambda>x. if a \<le> x \<and> x < a + 8 then ucast (drop_bit (8 * (x - a)) w) else memory j x)\<rparr>"

text \<open>
  The function for one argument. \<open>ws\<close> are the words that \<^verbatim>\<open>getSizeType\<close> stores; the size and the capacity of the set of
  pointers and the measured time come from outside.
\<close>

definition getSize :: "feature_set \<Rightarrow> u64 list \<Rightarrow> u64 \<Rightarrow> u64 \<Rightarrow> u64 \<Rightarrow> jit \<Rightarrow> jit" where
  "getSize features ws pointersSize pointersCapacity timeTakenNs j =
     (let data = dataBase j;
        j = store_word data oidMagicId j;
        j = store_word (data + 8) (cookieValue j) j;
        j = store_word (data + 16) 0 j;
        (dataSegOffset, j) = fold StoreData ws (6 * 8, j);
        (dataSegOffset, j) = StoreData end_mark (dataSegOffset, j);
        (dataSegOffset, j) = StoreData end_mark (dataSegOffset, j);
        j = store_word (data + 16) dataSegOffset j;
        j = j\<lparr>dataBase := dataBase j + unat dataSegOffset\<rparr>;
        j = store_word (data + 32) pointersSize j;
        j = store_word (data + 40) pointersCapacity j in
      if bit_get features JitTiming then store_word (data + 24) timeTakenNs j else j)"

section \<open>Reading\<close>

fun load_word :: "nat \<Rightarrow> u8 list \<Rightarrow> u64" where
  "load_word 0 bs = 0"
| "load_word (Suc n) bs = (case bs of [] \<Rightarrow> 0 | b # bs \<Rightarrow> ucast b OR push_bit 8 (load_word n bs))"

record data_header =
  dh_magicId :: u64
  dh_cookie :: u64
  dh_size :: u64
  dh_timeTakenNs :: u64
  dh_pointersSize :: u64
  dh_pointersCapacity :: u64

definition header_at :: "u8 list \<Rightarrow> nat \<Rightarrow> data_header outcome" where
  "header_at buf res = (if length buf < res + 48 then Inl (Undefined ''read past the end of a buffer'')
     else let field = (\<lambda>i. load_word 8 (drop (res + 8 * i) buf)) in
       Inr \<lparr>dh_magicId = field 0, dh_cookie = field 1, dh_size = field 2, dh_timeTakenNs = field 3, dh_pointersSize = field 4,
         dh_pointersCapacity = field 5\<rparr>)"

text \<open>
  \<^verbatim>\<open>tryDecodeVarint\<close> of folly takes a number from a range, or fails with one of two errors; it is a parameter. The loop stops after
  at most one step for each byte, since a number takes a byte.
\<close>

type_synonym varint_decoder = "u8 list \<Rightarrow> bool + u64 \<times> u8 list"

fun decode_loop :: "varint_decoder \<Rightarrow> nat \<Rightarrow> u8 list \<Rightarrow> u64 \<Rightarrow> u64 list \<Rightarrow> u64 list option outcome" where
  "decode_loop tryDecodeVarint 0 bytes prevVal outVec = Inl Diverge"
| "decode_loop tryDecodeVarint (Suc n) bytes prevVal outVec = (case tryDecodeVarint bytes of
      Inl tooMany \<Rightarrow> Inr None
    | Inr (currVal, bytes) \<Rightarrow>
        if currVal = end_mark
        then if prevVal = end_mark then Inr (Some outVec) else decode_loop tryDecodeVarint n bytes currVal outVec
        else decode_loop tryDecodeVarint n bytes currVal (outVec @ [currVal]))"

text \<open>The range of the data is formed from the size in the header; where it reaches past the copy of the segment, its use is undefined.\<close>

definition decodeTargetData :: "varint_decoder \<Rightarrow> u64 \<Rightarrow> u64 \<Rightarrow> u8 list \<Rightarrow> nat \<Rightarrow> data_header \<Rightarrow> u64 list option outcome" where
  "decodeTargetData tryDecodeVarint dataSegSize cookie buf res dataHeader =
     (if dh_magicId dataHeader \<noteq> oidMagicId then Inr None
      else if dh_cookie dataHeader \<noteq> cookie then Inr None
      else if dh_size dataHeader = 0 then Inr None
      else if dataSegSize < dh_size dataHeader then Inr None
      else let len = unat (dh_size dataHeader - 48) in
        if length buf < res + 48 + len then Inl (Undefined ''read past the end of a buffer'')
        else decode_loop tryDecodeVarint (len + 1) (take len (drop (res + 48) buf)) 0 [0, 0, 0, 0])"

text \<open>
  One argument of the request: its name, and its type with the hierarchy, if \<^verbatim>\<open>typeInfos\<close> has it. What drgn and RocksDB answer is the
  same for all arguments.
\<close>

record 'd target_arg =
  ta_arg :: string
  ta_typeInfo :: "('d \<times> string \<times> 'd type_hierarchy \<times> (string \<rightharpoonup> padding_info)) option"

text \<open>\<^verbatim>\<open>processLocalPaddingInfo\<close>: the counts of the structs are combined by their maximum.\<close>

definition processLocalPaddingInfo :: "(string \<rightharpoonup> padding_info) \<Rightarrow> (string \<rightharpoonup> padding_info) \<Rightarrow> (string \<rightharpoonup> padding_info)" where
  "processLocalPaddingInfo localPadded padded = (\<lambda>name. case localPadded name of
      None \<Rightarrow> padded name
    | Some l \<Rightarrow> (case padded name of
        None \<Rightarrow> Some l
      | Some p \<Rightarrow> Some (if pi_instancesCnt p < pi_instancesCnt l then p\<lparr>pi_instancesCnt := pi_instancesCnt l\<rparr> else p)))"

text \<open>
  The loop over the arguments: the result is \<^verbatim>\<open>false\<close>, or the builder and the padding that was found. An exception of a build goes to
  the log, and the loop goes on; any other error ends the program.
\<close>

fun process_args :: "varint_decoder \<Rightarrow> 'd drgn_answers \<Rightarrow> tb_config \<Rightarrow> bool \<Rightarrow> (tb_node \<Rightarrow> string option) \<Rightarrow> nat \<Rightarrow> u64 \<Rightarrow> u64 \<Rightarrow> u8 list \<Rightarrow>
    'd target_arg list \<Rightarrow> nat \<Rightarrow> tree_builder \<times> (string \<rightharpoonup> padding_info) \<Rightarrow> (tree_builder \<times> (string \<rightharpoonup> padding_info)) option outcome" where
  "process_args decoder da cfg dump put n dataSegSize cookie buf [] res state = Inr (Some state)"
| "process_args decoder da cfg dump put n dataSegSize cookie buf (req # reqs) res (typeTree, padded) =
     bindE (header_at buf res) (\<lambda>dataHeader.
     bindE (decodeTargetData decoder dataSegSize cookie buf res dataHeader) (\<lambda>outVec.
     let res' = res + unat (dh_size dataHeader) in
     case outVec of None \<Rightarrow> Inr None
     | Some data \<Rightarrow>
       if dump then process_args decoder da cfg dump put n dataSegSize cookie buf reqs res' (typeTree, padded)
       else (case ta_typeInfo req of None \<Rightarrow> Inr None
       | Some (rootType, varName, th, paddingInfos) \<Rightarrow>
         let stats = bit_get (tc_features cfg) GenPaddingStats;
           typeTree = (if stats then setPaddedStructs (Some paddingInfos) typeTree else typeTree) in
         (case build da th cfg put n data varName rootType typeTree of
           (Inr (), typeTree) \<Rightarrow> process_args decoder da cfg dump put n dataSegSize cookie buf reqs res'
             (typeTree, if stats then case paddedStructs typeTree of None \<Rightarrow> padded | Some l \<Rightarrow> processLocalPaddingInfo l padded else padded)
         | (Inl (Throw m), typeTree) \<Rightarrow> process_args decoder da cfg dump put n dataSegSize cookie buf reqs res' (typeTree, padded)
         | (Inl e, typeTree) \<Rightarrow> Inl e))))"

text \<open>The whole of it, with the text of the file; a failed read of the target and an empty list of arguments are not looked at.\<close>

definition processTargetData :: "varint_decoder \<Rightarrow> 'd drgn_answers \<Rightarrow> tb_config \<Rightarrow> bool \<Rightarrow> (tb_node \<Rightarrow> string option) \<Rightarrow> nat \<Rightarrow> u64 \<Rightarrow> u64 \<Rightarrow>
    u8 list option \<Rightarrow> 'd target_arg list \<Rightarrow> string option outcome" where
  "processTargetData decoder da cfg dump put n dataSegSize cookie segment reqs = (case segment of
      None \<Rightarrow> Inr None
    | Some buf \<Rightarrow> bindE (process_args decoder da cfg dump put n dataSegSize cookie buf reqs 0 (new_builder None, \<lambda>_. None)) (\<lambda>state.
        case state of None \<Rightarrow> Inr None
        | Some (typeTree, padded) \<Rightarrow>
            if dump then Inr (Some '''')
            else if emptyOutput typeTree then Inl Aborted
            else if tc_jsonPath cfg then bindE (dumpJson cfg n typeTree) (\<lambda>out. Inr (Some out))
            else Inr (Some '''')))"


section \<open>What is written\<close>

definition write_bytes :: "nat \<Rightarrow> u8 list \<Rightarrow> (nat \<Rightarrow> u8) \<Rightarrow> nat \<Rightarrow> u8" where
  "write_bytes a bs mem = (\<lambda>x. if a \<le> x \<and> x < a + length bs then bs ! (x - a) else mem x)"

lemma write_bytes_Nil [simp]: "write_bytes a [] mem = mem"
  by (auto simp: write_bytes_def fun_eq_iff)

lemma write_bytes_Cons: "write_bytes (a + 1) bs (mem(a := b)) = write_bytes a (b # bs) mem"
  by (auto simp: write_bytes_def fun_eq_iff nth_Cons')

lemma write_bytes_append: "write_bytes (a + length bs) cs (write_bytes a bs mem) = write_bytes a (bs @ cs) mem"
  by (auto simp: write_bytes_def fun_eq_iff nth_append)

lemma encode_loop_bytes: "encode_loop val p mem = (p + length (varint_bytes val), write_bytes p (varint_bytes val) mem)"
proof (induction val p mem rule: encode_loop.induct)
  case (1 val p mem)
  show ?case
  proof (cases "128 \<le> val")
    case True
    then have val: "varint_bytes val = ucast (0x80 OR (val AND 0x7f)) # varint_bytes (drop_bit 7 val)"
      by (subst varint_bytes.simps) simp
    have "encode_loop val p mem = encode_loop (drop_bit 7 val) (p + 1) (mem(p := ucast (0x80 OR (val AND 0x7f))))"
      by (subst encode_loop.simps) (simp only: True if_True)
    then show ?thesis unfolding 1 [OF True] write_bytes_Cons by (simp add: val)
  next
    case False
    then have val: "varint_bytes val = [ucast val]" by (subst varint_bytes.simps) simp
    show ?thesis using False write_bytes_Cons [of p "[]" mem "ucast val"] by (subst encode_loop.simps) (simp add: val)
  qed
qed

lemma size_loop_bytes: "size_loop val s + 1 = s + of_nat (length (varint_bytes val))"
proof (induction val s rule: size_loop.induct)
  case (1 val s)
  show ?case
  proof (cases "128 \<le> val")
    case True
    then have "varint_bytes val = ucast (0x80 OR (val AND 0x7f)) # varint_bytes (drop_bit 7 val)" by (subst varint_bytes.simps) simp
    then show ?thesis using 1 [OF True] True by (subst size_loop.simps) (simp add: algebra_simps)
  next
    case False
    then have "varint_bytes val = [ucast val]" by (subst varint_bytes.simps) simp
    then show ?thesis using False by (subst size_loop.simps) simp
  qed
qed

lemma EncodeVarintSize_bytes: "EncodeVarintSize val = of_nat (length (varint_bytes val))"
  using size_loop_bytes [of val 1] by (simp add: EncodeVarintSize_def)

lemma varint_length: "length (varint_bytes val) \<le> 10" "1 \<le> length (varint_bytes val)"
proof -
  have "unat val < 2 ^ 64" using unsigned_less [of val, where ?'a = nat] by simp
  then show "length (varint_bytes val) \<le> 10" "1 \<le> length (varint_bytes val)" using varint_bytes_length [of 10 val] by simp_all
qed

text \<open>
  Storing a list of words, from an offset on: \<open>fitting\<close> are the words that are written, the first ones, and the offset counts all of them.
\<close>

definition word_size :: "u64 \<Rightarrow> nat" where
  "word_size w = length (varint_bytes w)"

definition total_size :: "u64 list \<Rightarrow> nat" where
  "total_size ws = sum_list (map word_size ws)"

definition encoding :: "u64 list \<Rightarrow> u8 list" where
  "encoding ws = concat (map varint_bytes ws)"

fun fitting :: "nat \<Rightarrow> nat \<Rightarrow> u64 list \<Rightarrow> u64 list" where
  "fitting limit off [] = []"
| "fitting limit off (w # ws) = (if off + word_size w < limit then w # fitting limit (off + word_size w) ws else [])"

lemma length_encoding [simp]: "length (encoding ws) = total_size ws"
  by (simp add: encoding_def total_size_def length_concat comp_def word_size_def [abs_def])

lemma total_size_simps [simp]: "total_size [] = 0" "total_size (w # ws) = word_size w + total_size ws"
  "total_size (ws @ vs) = total_size ws + total_size vs"
  by (simp_all add: total_size_def)

lemma encoding_simps [simp]: "encoding [] = []" "encoding (w # ws) = varint_bytes w @ encoding ws" "encoding (ws @ vs) = encoding ws @ encoding vs"
  by (simp_all add: encoding_def)

lemma fitting_none: "limit \<le> off + word_size w \<Longrightarrow> fitting limit off (w # ws) = []"
  by simp

lemma fitting_all: "off + total_size ws < limit \<Longrightarrow> fitting limit off ws = ws"
  by (induction ws arbitrary: off) auto

lemma fitting_size: "off < limit \<Longrightarrow> off + total_size (fitting limit off ws) < limit"
proof (induction ws arbitrary: off)
  case (Cons w ws)
  show ?case using Cons.IH [of "off + word_size w"] Cons.prems by (cases "off + word_size w < limit") (simp_all add: add.assoc)
qed simp

lemma fitting_past: "limit \<le> off \<Longrightarrow> fitting limit off ws = []"
  by (cases ws) auto

lemma unat_add_small: "unat a + unat b < 2 ^ 64 \<Longrightarrow> unat (a + b :: u64) = unat a + unat b"
proof -
  assume a: "unat a + unat b < 2 ^ 64"
  have "unat (a + b) = (unat a + unat b) mod 2 ^ LENGTH(64)" by (rule unat_word_ariths(1))
  also have "\<dots> = unat a + unat b" by (rule mod_less) (use a in simp)
  finally show ?thesis .
qed

lemma write_bytes_word:
  "write_bytes (a + word_size w) cs (write_bytes a (varint_bytes w) mem) = write_bytes a (varint_bytes w @ cs) mem"
  by (simp add: word_size_def write_bytes_append)

lemma unat_word_size: "unat (of_nat (word_size w) :: u64) = word_size w"
  using varint_length(1) [of w] by (simp add: word_size_def unat_of_nat take_bit_nat_eq_self)

lemma StoreData_result:
  assumes "unat off + word_size w < 2 ^ 64"
  shows "StoreData w (off, j) = (off + of_nat (word_size w),
    if unat off + word_size w < unat (dataSize j)
    then j\<lparr>memory := write_bytes (dataBase j + unat off) (varint_bytes w) (memory j)\<rparr> else j)"
proof -
  have "unat (of_nat (word_size w) + off) = word_size w + unat off"
    using assms by (subst unat_add_small) (simp_all add: unat_word_size)
  then have "of_nat (word_size w) + off < dataSize j \<longleftrightarrow> unat off + word_size w < unat (dataSize j)"
    by (simp add: word_less_nat_alt add.commute)
  then show ?thesis by (simp add: StoreData_def Let_def EncodeVarintSize_bytes EncodeVarint_def encode_loop_bytes word_size_def)
qed

lemma StoreData_all:
  assumes "unat off + total_size ws < 2 ^ 64"
  shows "fold StoreData ws (off, j) = (off + of_nat (total_size ws),
    j\<lparr>memory := write_bytes (dataBase j + unat off) (encoding (fitting (unat (dataSize j)) (unat off) ws)) (memory j)\<rparr>)"
  using assms
proof (induction ws arbitrary: off j)
  case (Cons w ws)
  have bound: "unat off + word_size w < 2 ^ 64" using Cons.prems by simp
  let ?off = "off + of_nat (word_size w)"
  have off: "unat ?off = unat off + word_size w" using bound by (subst unat_add_small) (simp_all add: unat_word_size)
  let ?j = "if unat off + word_size w < unat (dataSize j)
    then j\<lparr>memory := write_bytes (dataBase j + unat off) (varint_bytes w) (memory j)\<rparr> else j"
  have rest: "fold StoreData ws (?off, ?j) = (?off + of_nat (total_size ws),
      ?j\<lparr>memory := write_bytes (dataBase ?j + unat ?off) (encoding (fitting (unat (dataSize ?j)) (unat ?off) ws)) (memory ?j)\<rparr>)"
    using Cons.prems by (intro Cons.IH) (simp add: off)
  show ?case
  proof (cases "unat off + word_size w < unat (dataSize j)")
    case True
    then show ?thesis
      using rest write_bytes_word [of "dataBase j + unat off" w]
      by (simp add: StoreData_result [OF bound] off add.assoc)
  next
    case False
    then have "fitting (unat (dataSize j)) (unat ?off) ws = []" by (intro fitting_past) (simp add: off)
    then show ?thesis using rest False by (simp add: StoreData_result [OF bound] off add.assoc)
  qed
qed simp

text \<open>The memory after the function for one argument: a header, and the encodings of the words that fit.\<close>

definition word_bytes :: "u64 \<Rightarrow> u8 list" where
  "word_bytes w = map (\<lambda>i. ucast (drop_bit (8 * i) w)) [0..<8]"

lemma length_word_bytes [simp]: "length (word_bytes w) = 8"
  by (simp add: word_bytes_def)

lemma store_word_bytes: "store_word a w j = j\<lparr>memory := write_bytes a (word_bytes w) (memory j)\<rparr>"
  by (auto simp: store_word_def write_bytes_def word_bytes_def fun_eq_iff intro!: arg_cong [where f = "\<lambda>m. j\<lparr>memory := m\<rparr>"])

definition marked :: "u64 list \<Rightarrow> u64 list" where
  "marked ws = ws @ [end_mark, end_mark]"

definition segment_size :: "u64 list \<Rightarrow> nat" where
  "segment_size ws = 48 + total_size (marked ws)"

definition time_bytes :: "feature_set \<Rightarrow> u64 \<Rightarrow> jit \<Rightarrow> u8 list" where
  "time_bytes features time j = (if bit_get features JitTiming then word_bytes time else map (memory j) [dataBase j + 24..<dataBase j + 32])"

definition header_bytes :: "feature_set \<Rightarrow> u64 list \<Rightarrow> u64 \<Rightarrow> u64 \<Rightarrow> u64 \<Rightarrow> jit \<Rightarrow> u8 list" where
  "header_bytes features ws pointersSize pointersCapacity time j = word_bytes oidMagicId @ word_bytes (cookieValue j) @
     word_bytes (of_nat (segment_size ws)) @ time_bytes features time j @ word_bytes pointersSize @ word_bytes pointersCapacity"

lemma length_time_bytes [simp]: "length (time_bytes features time j) = 8"
  by (simp add: time_bytes_def)

lemma length_header_bytes [simp]: "length (header_bytes features ws ps pc time j) = 48"
  by (simp add: header_bytes_def)

lemma write_bytes_swap:
  "a + length xs \<le> b \<or> b + length ys \<le> a \<Longrightarrow> write_bytes a xs (write_bytes b ys mem) = write_bytes b ys (write_bytes a xs mem)"
  by (auto simp: write_bytes_def fun_eq_iff)

lemma write_bytes_over: "length xs = length ys \<Longrightarrow> write_bytes a xs (write_bytes a ys mem) = write_bytes a xs mem"
  by (auto simp: write_bytes_def fun_eq_iff)

lemma write_bytes_same: "write_bytes a (map mem [a..<a + n]) mem = mem"
  by (auto simp: write_bytes_def fun_eq_iff)

definition started :: "jit \<Rightarrow> jit" where
  "started j = store_word (dataBase j + 16) 0 (store_word (dataBase j + 8) (cookieValue j) (store_word (dataBase j) oidMagicId j))"

lemma store_word_simps [simp]: "dataBase (store_word a w j) = dataBase j" "dataSize (store_word a w j) = dataSize j"
  "cookieValue (store_word a w j) = cookieValue j"
  by (simp_all add: store_word_def)

lemma started_simps [simp]: "dataBase (started j) = dataBase j" "dataSize (started j) = dataSize j" "cookieValue (started j) = cookieValue j"
  by (simp_all add: started_def)

lemma started_bytes: "started j = j\<lparr>memory := write_bytes (dataBase j + 16) (word_bytes 0) (write_bytes (dataBase j + 8) (word_bytes (cookieValue j))
    (write_bytes (dataBase j) (word_bytes oidMagicId) (memory j)))\<rparr>"
  by (simp add: started_def store_word_bytes)

lemma getSize_marked: "getSize features ws ps pc time j =
  (let data = dataBase j;
     (off, j) = fold StoreData (marked ws) (48, started j);
     j = store_word (data + 16) off j;
     j = j\<lparr>dataBase := dataBase j + unat off\<rparr>;
     j = store_word (data + 32) ps j;
     j = store_word (data + 40) pc j in
   if bit_get features JitTiming then store_word (data + 24) time j else j)"
  by (simp add: getSize_def marked_def Let_def started_def split: prod.splits)

text \<open>A list of bytes in memory, written in two parts; each of the words of the header is written over what was there.\<close>

lemma write_bytes_at: "write_bytes a bs mem x = (if a \<le> x \<and> x < a + length bs then bs ! (x - a) else mem x)"
  by (auto simp: write_bytes_def)

lemma write_bytes_two: "write_bytes b (xs @ ys) mem = write_bytes (b + length xs) ys (write_bytes b xs mem)"
  by (simp add: write_bytes_append)

lemma write_words:
  assumes sizes: "length m = 8" "length c = 8" "length s0 = 8" "length s = 8" "length t = 8" "length ps = 8" "length pc = 8"
  shows "write_bytes (b + 40) pc (write_bytes (b + 32) ps (write_bytes (b + 16) s (write_bytes (b + 48) enc (write_bytes (b + 16) s0
      (write_bytes (b + 8) c (write_bytes (b + 0) m (write_bytes (b + 24) t mem))))))) = write_bytes b ((m @ c @ s @ t @ ps @ pc) @ enc) mem"
    (is "?l = ?r")
proof
  fix x
  have r: "?r = write_bytes (b + 48) enc (write_bytes (b + 40) pc (write_bytes (b + 32) ps (write_bytes (b + 24) t (write_bytes (b + 16) s
      (write_bytes (b + 8) c (write_bytes (b + 0) m mem))))))"
    by (simp add: write_bytes_two sizes add.commute)
  consider "x < b" | "b \<le> x" "x < b + 8" | "b + 8 \<le> x" "x < b + 16" | "b + 16 \<le> x" "x < b + 24" | "b + 24 \<le> x" "x < b + 32"
    | "b + 32 \<le> x" "x < b + 40" | "b + 40 \<le> x" "x < b + 48" | "b + 48 \<le> x" by linarith
  then show "?l x = ?r x" unfolding r by cases (simp_all add: write_bytes_at sizes)
qed

text \<open>The time is written last, or what is there stays.\<close>

lemma time_last: "length t = 8 \<Longrightarrow> write_bytes (b + 24) t (write_bytes (b + 40) pc (write_bytes (b + 32) ps (write_bytes (b + 16) s
    (write_bytes (b + 48) enc (write_bytes (b + 16) s0 (write_bytes (b + 8) c (write_bytes (b + 0) m mem))))))) =
  write_bytes (b + 40) pc (write_bytes (b + 32) ps (write_bytes (b + 16) s (write_bytes (b + 48) enc (write_bytes (b + 16) s0
    (write_bytes (b + 8) c (write_bytes (b + 0) m (write_bytes (b + 24) t mem)))))))"
  if "length m = 8" "length c = 8" "length s0 = 8" "length s = 8" "length ps = 8" "length pc = 8"
  using that by (simp add: write_bytes_swap [of "b + 24" t])

lemma header_written:
  "(if bit_get features JitTiming then write_bytes (dataBase j + 24) (word_bytes time) m else m) =
   write_bytes (dataBase j) (header_bytes features ws ps pc time j @ enc) (memory j)"
  if m: "m = write_bytes (dataBase j + 40) (word_bytes pc) (write_bytes (dataBase j + 32) (word_bytes ps) (write_bytes (dataBase j + 16)
      (word_bytes (of_nat (segment_size ws))) (write_bytes (dataBase j + 48) enc (write_bytes (dataBase j + 16) (word_bytes 0)
      (write_bytes (dataBase j + 8) (word_bytes (cookieValue j)) (write_bytes (dataBase j + 0) (word_bytes oidMagicId) (memory j)))))))"
proof (cases "bit_get features JitTiming")
  case True
  then show ?thesis by (simp only: m if_True time_last length_word_bytes write_words header_bytes_def time_bytes_def)
next
  case False
  have same: "write_bytes (dataBase j + 24) (map (memory j) [dataBase j + 24..<dataBase j + 32]) (memory j) = memory j"
    by (auto simp: write_bytes_def fun_eq_iff)
  show ?thesis
    using write_words [of "word_bytes oidMagicId" "word_bytes (cookieValue j)" "word_bytes 0" "word_bytes (of_nat (segment_size ws))"
      "time_bytes features time j" "word_bytes ps" "word_bytes pc" "dataBase j" enc "memory j"] False same
    by (simp add: m header_bytes_def time_bytes_def)
qed

lemma getSize_result:
  assumes "segment_size ws < 2 ^ 64"
  shows "getSize features ws ps pc time j = j\<lparr>dataBase := dataBase j + segment_size ws,
    memory := write_bytes (dataBase j) (header_bytes features ws ps pc time j @
      encoding (fitting (unat (dataSize j)) 48 (marked ws))) (memory j)\<rparr>"
proof -
  let ?b = "dataBase j" and ?enc = "encoding (fitting (unat (dataSize j)) 48 (marked ws))"
  let ?w = "\<lambda>i w. write_bytes (?b + i) (word_bytes w)"
  have all: "fold StoreData (marked ws) (48, started j) = (of_nat (segment_size ws),
      (started j)\<lparr>memory := write_bytes (?b + 48) ?enc (memory (started j))\<rparr>)"
    using StoreData_all [of 48 "marked ws" "started j"] assms by (simp add: segment_size_def)
  have size: "unat (of_nat (segment_size ws) :: u64) = segment_size ws"
    using assms by (simp add: unat_of_nat take_bit_nat_eq_self)
  let ?m = "?w 40 pc (?w 32 ps (?w 16 (of_nat (segment_size ws)) (write_bytes (?b + 48) ?enc (?w 16 0 (?w 8 (cookieValue j) (?w 0 oidMagicId (memory j)))))))"
  have "getSize features ws ps pc time j = j\<lparr>dataBase := ?b + segment_size ws,
      memory := (if bit_get features JitTiming then ?w 24 time ?m else ?m)\<rparr>"
    unfolding getSize_marked all by (simp add: Let_def store_word_bytes started_bytes size)
  moreover have "(if bit_get features JitTiming then ?w 24 time ?m else ?m) =
      write_bytes ?b (header_bytes features ws ps pc time j @ ?enc) (memory j)"
    by (rule header_written) (rule refl)
  ultimately show ?thesis by simp
qed
end
