(* ===== verification/DataPath.thy ===== *)
theory DataPath
  imports TargetData
begin

text \<open>
  The whole way of the data, from the functions of the generated code through the segment to the printed trees: the segment is
  transparent for data that fit into it, and what goes wrong for data that do not, or that contain the mark of the end.
\<close>

unbundle bit_operations_syntax

section \<open>Reading what was written\<close>

lemma bit_load_word: "bit (load_word n bs) i \<longleftrightarrow> i < 64 \<and> i < 8 * n \<and> i div 8 < length bs \<and> bit (bs ! (i div 8)) (i mod 8)"
proof (induction n arbitrary: bs i)
  case (Suc n)
  show ?case
  proof (cases bs)
    case (Cons b cs)
    show ?thesis
    proof (cases "i < 8")
      case True
      then show ?thesis by (simp add: Cons bit_or_iff bit_push_bit_iff bit_ucast_iff)
    next
      case False
      then obtain k where i: "i = 8 + k" by (metis le_Suc_ex not_less)
      have small: "\<not> bit b i" using False bit_imp_le_length [of b i] by auto
      have "i div 8 = Suc (k div 8)" by (simp add: i)
      then show ?thesis using small by (auto simp: Cons i bit_or_iff bit_push_bit_iff bit_ucast_iff Suc.IH)
    qed
  qed simp
qed simp

lemma load_word_bytes [simp]: "load_word 8 (word_bytes w @ rest) = w"
proof (rule bit_word_eqI)
  fix i assume "i < LENGTH(64)"
  then have i: "i < 64" by simp
  then have k: "i div 8 < 8" by simp
  have "bit (word_bytes w ! (i div 8)) (i mod 8) = bit w (i div 8 * 8 + i mod 8)" 
    using k by (simp add: word_bytes_def bit_ucast_iff bit_drop_bit_eq mult.commute)
  then show "bit (load_word 8 (word_bytes w @ rest)) i \<longleftrightarrow> bit w i"
    using i k by (simp add: bit_load_word nth_append)
qed

lemma header_at_bytes:
  assumes "length before = res"
  shows "\<exists>h. header_at (before @ header_bytes features ws ps pc time j @ rest) res = Inr h \<and> dh_magicId h = oidMagicId \<and>
    dh_cookie h = cookieValue j \<and> dh_size h = of_nat (segment_size ws) \<and> dh_pointersSize h = ps \<and> dh_pointersCapacity h = pc"
proof -
  let ?buf = "before @ header_bytes features ws ps pc time j @ rest"
  have "load_word 8 (drop res ?buf) = oidMagicId" "load_word 8 (drop (res + 8) ?buf) = cookieValue j"
    "load_word 8 (drop (res + 16) ?buf) = of_nat (segment_size ws)" "load_word 8 (drop (res + 32) ?buf) = ps"
    "load_word 8 (drop (res + 40) ?buf) = pc"
    by (simp_all add: assms [symmetric] header_bytes_def)
  then show ?thesis using assms by (simp add: header_at_def)
qed

text \<open>The documented behaviour of the decoder: it takes the number that the bytes of a varint stand for.\<close>

definition takes_varints :: "varint_decoder \<Rightarrow> bool" where
  "takes_varints decoder \<longleftrightarrow> (\<forall>v rest. decoder (varint_bytes v @ rest) = Inr (v, rest))"

lemma decode_step:
  "takes_varints decoder \<Longrightarrow> decode_loop decoder (Suc n) (varint_bytes w @ rest) prev out =
     (if w = end_mark then if prev = end_mark then Inr (Some out) else decode_loop decoder n rest w out
      else decode_loop decoder n rest w (out @ [w]))"
  by (simp add: takes_varints_def)

text \<open>What the loop takes from the words that were stored: the marks are left out, and two in a row end it.\<close>

fun payload :: "u64 \<Rightarrow> u64 list \<Rightarrow> u64 list" where
  "payload prev [] = []"
| "payload prev (w # ws) = (if w = end_mark then if prev = end_mark then [] else payload w ws else w # payload w ws)"

lemma payload_plain: "end_mark \<notin> set ws \<Longrightarrow> payload prev ws = ws"
  by (induction ws arbitrary: prev) auto

lemma decode_marked:
  assumes "takes_varints decoder"
  shows "length ws + 2 \<le> n \<Longrightarrow> decode_loop decoder n (encoding (marked ws) @ rest) prev out = Inr (Some (out @ payload prev ws))"
proof (induction ws arbitrary: n prev out)
  case Nil
  then have n: "n = Suc (Suc (n - 2))" by simp
  have bytes: "encoding (marked []) @ rest = varint_bytes end_mark @ varint_bytes end_mark @ rest" by (simp add: marked_def)
  show ?case
    by (subst n, unfold bytes, subst decode_step [OF assms]) (simp only: decode_step [OF assms] payload.simps append_Nil2 simp_thms if_True if_cancel)
next
  case (Cons w ws)
  then obtain k where n: "n = Suc k" "length ws + 2 \<le> k" by (cases n) auto
  have "encoding (marked (w # ws)) @ rest = varint_bytes w @ encoding (marked ws) @ rest" by (simp add: marked_def)
  then show ?case by (simp only: n(1) decode_step [OF assms]) (simp add: Cons.IH [OF n(2)] del: decode_loop.simps)
qed

lemma total_size_length: "length ws \<le> total_size ws" "total_size ws \<le> 10 * length ws"
proof (induction ws)
  case (Cons w ws)
  { case 1
    show ?case using varint_length(2) [of w] Cons(1) by (simp add: word_size_def)
  next
    case 2
    show ?case using varint_length(1) [of w] Cons(2) by (simp add: word_size_def) }
qed simp_all

lemma segment_size_bound: "segment_size ws \<le> 68 + 10 * length ws"
  using total_size_length(2) [of "marked ws"] by (simp add: segment_size_def marked_def)

text \<open>One argument in the copy of the segment.\<close>

definition argument_bytes :: "feature_set \<Rightarrow> u64 list \<times> u64 \<times> u64 \<times> u64 \<Rightarrow> jit \<Rightarrow> u8 list" where
  "argument_bytes features = (\<lambda>(ws, ps, pc, time) j. header_bytes features ws ps pc time j @ encoding (marked ws))"

lemma length_argument_bytes [simp]: "length (argument_bytes features (ws, r) j) = segment_size ws"
  by (cases r) (simp add: argument_bytes_def segment_size_def)

lemma decode_argument:
  assumes "takes_varints decoder" and "length before = res" and "segment_size ws \<le> unat sz"
    and "buf = before @ argument_bytes features (ws, r) j @ rest"
  shows "\<exists>h. header_at buf res = Inr h \<and> unat (dh_size h) = segment_size ws \<and>
    decodeTargetData decoder sz (cookieValue j) buf res h = Inr (Some ([0, 0, 0, 0] @ payload 0 ws))"
proof -
  obtain ps pc time where r: "r = (ps, pc, time)" by (cases r)
  have buf: "buf = before @ header_bytes features ws ps pc time j @ encoding (marked ws) @ rest"
    by (simp add: assms(4) argument_bytes_def r)
  obtain h where h: "header_at buf res = Inr h" "dh_magicId h = oidMagicId" "dh_cookie h = cookieValue j"
      "dh_size h = of_nat (segment_size ws)"
    using header_at_bytes [OF assms(2)] unfolding buf by blast
  have "segment_size ws < 2 ^ 64" using assms(3) unsigned_less [of sz, where ?'a = nat] by simp
  then have size: "unat (of_nat (segment_size ws) :: u64) = segment_size ws" by (simp add: unat_of_nat take_bit_nat_eq_self)
  have le: "(48 :: u64) \<le> of_nat (segment_size ws)" unfolding word_le_nat_alt size by (simp add: segment_size_def)
  have len: "unat (of_nat (segment_size ws) - 48 :: u64) = total_size (marked ws)"
    by (subst unat_sub [OF le]) (simp only: size, simp add: segment_size_def)
  have "decode_loop decoder (total_size (marked ws) + 1) (take (total_size (marked ws)) (drop (res + 48) buf)) 0 [0, 0, 0, 0] =
      Inr (Some ([0, 0, 0, 0] @ payload 0 ws))"
  proof -
    have "take (total_size (marked ws)) (drop (res + 48) buf) = encoding (marked ws) @ []" by (simp add: buf assms(2) [symmetric])
    moreover have "length ws + 2 \<le> total_size (marked ws) + 1"
      using total_size_length(1) [of "marked ws"] by (simp add: marked_def)
    ultimately show ?thesis by (simp only: decode_marked [OF assms(1)])
  qed
  moreover have "\<not> sz < dh_size h" "dh_size h \<noteq> 0" using assms(3) le unfolding h(4) by (auto simp: word_less_nat_alt size)
  moreover have "\<not> length buf < res + 48 + total_size (marked ws)" by (simp add: buf assms(2) [symmetric])
  ultimately have "decodeTargetData decoder sz (cookieValue j) buf res h = Inr (Some ([0, 0, 0, 0] @ payload 0 ws))"
    using h(2,3) len by (simp add: decodeTargetData_def h(4) Let_def del: decode_loop.simps)
  then show ?thesis using h(1,4) size by auto
qed

section \<open>All arguments\<close>

type_synonym measured = "u64 list \<times> u64 \<times> u64 \<times> u64"

text \<open>The functions for the arguments run one after the other.\<close>

definition run_getSize :: "feature_set \<Rightarrow> measured list \<Rightarrow> jit \<Rightarrow> jit" where
  "run_getSize features = fold (\<lambda>(ws, ps, pc, time). getSize features ws ps pc time)"

definition fits :: "u64 \<Rightarrow> measured list \<Rightarrow> bool" where
  "fits sz args \<longleftrightarrow> (\<forall>(ws, r) \<in> set args. segment_size ws < unat sz) \<and> (\<Sum>(ws, r) \<leftarrow> args. segment_size ws) \<le> unat sz"

lemma fitting_marked: "segment_size ws < limit \<Longrightarrow> fitting limit 48 (marked ws) = marked ws"
  by (rule fitting_all) (simp add: segment_size_def)

lemma run_getSize_memory:
  assumes "\<forall>(ws, r) \<in> set args. segment_size ws < unat (dataSize j)"
  shows "\<exists>segs. list_all2 (\<lambda>a seg. \<exists>j'. cookieValue j' = cookieValue j \<and> seg = argument_bytes features a j') args segs \<and>
    run_getSize features args j = j\<lparr>dataBase := dataBase j + length (concat segs), memory := write_bytes (dataBase j) (concat segs) (memory j)\<rparr>"
  using assms
proof (induction args arbitrary: j)
  case Nil
  then show ?case by (simp add: run_getSize_def)
next
  case (Cons a args)
  obtain ws ps pc time where a: "a = (ws, ps, pc, time)" by (cases a)
  have small: "segment_size ws < unat (dataSize j)" using Cons.prems by (simp add: a)
  moreover have "unat (dataSize j) < 2 ^ 64" using unsigned_less [of "dataSize j", where ?'a = nat] by simp
  ultimately have bound: "segment_size ws < 2 ^ 64" by simp
  let ?seg = "argument_bytes features a j"
  have len: "length ?seg = segment_size ws" by (simp add: a)
  have one: "getSize features ws ps pc time j = j\<lparr>dataBase := dataBase j + length ?seg, memory := write_bytes (dataBase j) ?seg (memory j)\<rparr>"
    (is "_ = ?j") unfolding len getSize_result [OF bound] fitting_marked [OF small] by (simp add: a argument_bytes_def)
  obtain segs where segs: "list_all2 (\<lambda>a seg. \<exists>j'. cookieValue j' = cookieValue ?j \<and> seg = argument_bytes features a j') args segs"
      "run_getSize features args ?j = ?j\<lparr>dataBase := dataBase ?j + length (concat segs), memory := write_bytes (dataBase ?j) (concat segs) (memory ?j)\<rparr>"
    using Cons.IH [of ?j] Cons.prems by auto
  have "run_getSize features (a # args) j = run_getSize features args ?j" unfolding one [symmetric] by (simp add: run_getSize_def a)
  then show ?case using segs by (intro exI [of _ "?seg # segs"]) (auto simp: write_bytes_append add.assoc)
qed

lemma copy_of_segment:
  "length bs \<le> n \<Longrightarrow> map (write_bytes b bs mem) [b..<b + n] = bs @ map mem [b + length bs..<b + n]"
  by (rule nth_equalityI) (auto simp: nth_append write_bytes_def)

text \<open>What the loop over the arguments does with the words of each, as if there were no segment.\<close>

fun build_args :: "'d drgn_answers \<Rightarrow> tb_config \<Rightarrow> (tb_node \<Rightarrow> string option) \<Rightarrow> nat \<Rightarrow> ('d target_arg \<times> u64 list) list \<Rightarrow>
    tree_builder \<times> (string \<rightharpoonup> padding_info) \<Rightarrow> (tree_builder \<times> (string \<rightharpoonup> padding_info)) option outcome" where
  "build_args da cfg put n [] state = Inr (Some state)"
| "build_args da cfg put n ((req, ws) # reqs) (typeTree, padded) = (case ta_typeInfo req of None \<Rightarrow> Inr None
     | Some (rootType, varName, th, paddingInfos) \<Rightarrow>
       let measured = bit_get (tc_features cfg) GenPaddingStats;
         typeTree = (if measured then setPaddedStructs (Some paddingInfos) typeTree else typeTree) in
       (case build da th cfg put n ([0, 0, 0, 0] @ ws) varName rootType typeTree of
         (Inr (), typeTree) \<Rightarrow> build_args da cfg put n reqs
           (typeTree, if measured then case paddedStructs typeTree of None \<Rightarrow> padded | Some l \<Rightarrow> processLocalPaddingInfo l padded else padded)
       | (Inl (Throw m), typeTree) \<Rightarrow> build_args da cfg put n reqs (typeTree, padded)
       | (Inl e, typeTree) \<Rightarrow> Inl e))"

lemma process_args_segments:
  assumes "takes_varints decoder"
  shows "list_all2 (\<lambda>a seg. \<exists>j'. cookieValue j' = cookie \<and> seg = argument_bytes features a j') args segs \<Longrightarrow>
    \<forall>(ws, r) \<in> set args. segment_size ws \<le> unat sz \<Longrightarrow> buf = before @ concat segs @ after \<Longrightarrow> length reqs = length args \<Longrightarrow>
    process_args decoder da cfg False put n sz cookie buf reqs (length before) state =
      build_args da cfg put n (zip reqs (map (\<lambda>(ws, r). payload 0 ws) args)) state"
proof (induction args segs arbitrary: before reqs state rule: list_all2_induct)
  case Nil
  then show ?case by simp
next
  case (Cons a args seg segs)
  obtain ws r where a: "a = (ws, r)" by (cases a)
  obtain req reqs' where reqs: "reqs = req # reqs'" "length reqs' = length args" using Cons.prems(3) by (cases reqs) auto
  obtain typeTree padded where state: "state = (typeTree, padded)" by fastforce
  obtain j where j: "cookieValue j = cookie" "seg = argument_bytes features (ws, r) j" using Cons.hyps(1) by (auto simp: a)
  obtain h where h: "header_at buf (length before) = Inr h" "unat (dh_size h) = segment_size ws"
      "decodeTargetData decoder sz cookie buf (length before) h = Inr (Some ([0, 0, 0, 0] @ payload 0 ws))"
    using decode_argument [OF assms refl, of ws sz buf before features r j "concat segs @ after"] Cons.prems(1,2) by (auto simp: a j)
  have next_seg: "length before + unat (dh_size h) = length (before @ seg)" by (simp add: h(2) j(2))
  have IH: "process_args decoder da cfg False put n sz cookie buf reqs' (length before + unat (dh_size h)) st =
      build_args da cfg put n (zip reqs' (map (\<lambda>(ws, r). payload 0 ws) args)) st" for st
    unfolding next_seg by (rule Cons.IH) (use Cons.prems reqs(2) in auto)
  show ?case
    by (simp add: reqs(1) a state h(1,3) IH Let_def split: option.split sum.split prod.split error.split unit.split)
qed

lemma process_args_copy:
  assumes "takes_varints decoder" and "fits (dataSize j) args" and "length reqs = length args"
    and "buf = map (memory (run_getSize features args j)) [dataBase j..<dataBase j + unat (dataSize j)]"
  shows "process_args decoder da cfg False put n (dataSize j) (cookieValue j) buf reqs 0 state =
    build_args da cfg put n (zip reqs (map (\<lambda>(ws, r). payload 0 ws) args)) state"
proof -
  have each: "\<forall>(ws, r) \<in> set args. segment_size ws < unat (dataSize j)" using assms(2) by (simp add: fits_def)
  obtain segs where segs: "list_all2 (\<lambda>a seg. \<exists>j'. cookieValue j' = cookieValue j \<and> seg = argument_bytes features a j') args segs"
      "memory (run_getSize features args j) = write_bytes (dataBase j) (concat segs) (memory j)"
    using run_getSize_memory [OF each, of features] by auto
  have "length (concat segs) = (\<Sum>(ws, r) \<leftarrow> args. segment_size ws)"
    using segs(1) by (induction rule: list_all2_induct) auto
  then have "length (concat segs) \<le> unat (dataSize j)" using assms(2) by (simp add: fits_def)
  note copy = copy_of_segment [OF this, of "dataBase j" "memory j"]
  have "\<forall>(ws, r) \<in> set args. segment_size ws \<le> unat (dataSize j)" using each by auto
  note run = process_args_segments [OF assms(1) segs(1) this, where before = "[]", unfolded append_Nil list.size(3)]
  have "buf = concat segs @ map (memory j) [dataBase j + length (concat segs)..<dataBase j + unat (dataSize j)]"
    by (simp only: assms(4) segs(2) copy)
  then show ?thesis by (rule run) (rule assms(3))
qed

lemma payload_args: "\<forall>(ws, r) \<in> set args. end_mark \<notin> set ws \<Longrightarrow> map (\<lambda>(ws, r). payload 0 ws) args = map fst args"
  by (auto simp: payload_plain)

text \<open>
  C7: Where the data of all arguments fit into the segment and no word of them is the mark of the end, the segment is transparent: the loop
  over the arguments reads from the copy of it, for every argument, the words that the function for the argument has stored.
\<close>

theorem segment_transparent:
  assumes "takes_varints decoder" and "fits (dataSize j) args" and "length reqs = length args"
    and "\<forall>(ws, r) \<in> set args. end_mark \<notin> set ws"
    and "buf = map (memory (run_getSize features args j)) [dataBase j..<dataBase j + unat (dataSize j)]"
  shows "process_args decoder da cfg False put n (dataSize j) (cookieValue j) buf reqs 0 state =
    build_args da cfg put n (zip reqs (map fst args)) state"
  unfolding process_args_copy [OF assms(1-3,5)] payload_args [OF assms(4)] ..

text \<open>Concrete answers, a concrete decoder and a concrete segment.\<close>

definition unit_answers :: "unit drgn_answers" where
  "unit_answers = \<lparr>da_kind = (\<lambda>_. DK_INT), da_program = (\<lambda>_. False), da_typeToName = (\<lambda>_. ''int''), da_oi_name = (\<lambda>_. Some ''int''),
     da_sizeof = (\<lambda>_. Inr 4), da_oi_size = (\<lambda>_. 4), da_length = (\<lambda>_. 0), da_element = (\<lambda>_. ()), da_primitive = (\<lambda>_. True), da_error_type = ''5''\<rparr>"

definition plain_config :: tb_config where
  "plain_config = \<lparr>tc_features = {}, tc_strict = False, tc_jsonPath = True\<rparr>"

definition varint_of :: varint_decoder where
  "varint_of bytes = (case parseVarint bytes of Inl e \<Rightarrow> Inl True | Inr r \<Rightarrow> Inr r)"

lemma varint_of_takes: "takes_varints varint_of"
  by (simp add: takes_varints_def varint_of_def parseVarint_bytes)

definition empty_segment :: jit where
  "empty_segment = \<lparr>dataBase = 4096, dataSize = 1024, cookieValue = 7, memory = (\<lambda>_. 0)\<rparr>"

definition two_arguments :: "measured list" where
  "two_arguments = [([3, 0x1234], 0, 0, 0), ([5], 0, 0, 0)]"

definition int_argument :: "string \<Rightarrow> unit target_arg" where
  "int_argument name = \<lparr>ta_arg = name, ta_typeInfo = Some ((), name, no_types, \<lambda>_. None)\<rparr>"

lemma two_arguments_fit: "fits 1024 two_arguments"
  using segment_size_bound [of "[3, 0x1234]"] segment_size_bound [of "[5]"] by (simp add: fits_def two_arguments_def)

theorem segment_transparent_witness:
  "process_args varint_of unit_answers plain_config False (\<lambda>_. None) 2 (dataSize empty_segment) (cookieValue empty_segment)
     (map (memory (run_getSize {} two_arguments empty_segment)) [dataBase empty_segment..<dataBase empty_segment + unat (dataSize empty_segment)])
     [int_argument ''a'', int_argument ''b''] 0 (new_builder None, \<lambda>_. None) =
   build_args unit_answers plain_config (\<lambda>_. None) 2 (zip [int_argument ''a'', int_argument ''b''] (map fst two_arguments))
     (new_builder None, \<lambda>_. None)"
proof (rule segment_transparent [OF varint_of_takes _ _ _ refl])
  show "fits (dataSize empty_segment) two_arguments" using two_arguments_fit by (simp only: empty_segment_def jit.simps)
  show "length [int_argument ''a'', int_argument ''b''] = length two_arguments" by (simp add: two_arguments_def)
  show "\<forall>(ws, r) \<in> set two_arguments. end_mark \<notin> set ws" by (simp add: two_arguments_def end_mark_def)
qed

section \<open>The trees of all arguments\<close>


lemma roots_padded [simp]: "roots (s\<lparr>paddedStructs := p\<rparr>) trs = roots s trs"
  by (simp add: roots_def)




















section \<open>Where it goes wrong\<close>

text \<open>
  C39: The size of the segment is not reduced when its base moves on to the next argument: after data that fill the segment, or would need
  more of it, the header of the next argument is written past its end.
\<close>

theorem second_argument_outside:
  assumes "unat (dataSize j) \<le> segment_size ws1" and "segment_size ws1 < 2 ^ 64" and "segment_size ws2 < 2 ^ 64"
    and "a = dataBase j + segment_size ws1"
  shows "a \<notin> {dataBase j..<dataBase j + unat (dataSize j)} \<and>
    memory (run_getSize features [(ws1, ps1, pc1, t1), (ws2, ps2, pc2, t2)] j) a = 0xE8"
proof -
  let ?j = "getSize features ws1 ps1 pc1 t1 j"
  have a: "a = dataBase ?j" by (simp add: assms(4) getSize_result [OF assms(2)])
  have "memory (getSize features ws2 ps2 pc2 t2 ?j) a = word_bytes oidMagicId ! 0"
    unfolding a getSize_result [OF assms(3)] by (simp add: write_bytes_at header_bytes_def nth_append)
  then show ?thesis using assms(1,4) by (simp add: run_getSize_def word_bytes_def oidMagicId_def)
qed

definition small_segment :: jit where
  "small_segment = \<lparr>dataBase = 4096, dataSize = 64, cookieValue = 7, memory = (\<lambda>_. 0)\<rparr>"

theorem second_argument_outside_witness:
  "\<exists>a. a \<notin> {4096..<4160} \<and> memory (run_getSize {} [(replicate 20 1, 0, 0, 0), ([], 0, 0, 0)] small_segment) a = 0xE8"
proof -
  have size: "segment_size (replicate 20 1) < 2 ^ 64" "segment_size [] < 2 ^ 64" "unat (dataSize small_segment) \<le> segment_size (replicate 20 1)"
    using segment_size_bound [of "replicate 20 1"] segment_size_bound [of "[]"] total_size_length(1) [of "marked (replicate 20 1)"]
    by (simp_all add: segment_size_def marked_def small_segment_def)
  have "{dataBase small_segment..<dataBase small_segment + unat (dataSize small_segment)} = {4096..<4160}" by (simp add: small_segment_def)
  then show ?thesis using second_argument_outside [OF size(3,1,2) refl, of "{}" 0 0 0 0 0 0] by metis
qed

text \<open>
  C40: A word of the data that is the end mark is lost: one is left out of the words of the argument, two in a row end them.
\<close>

theorem sentinel_in_data:
  assumes "takes_varints decoder" and "end_mark \<notin> set xs" and "end_mark \<notin> set ys" and "k = 1 \<or> k = 2"
    and "ws = xs @ replicate k end_mark @ ys" and "segment_size ws < unat (dataSize j)"
    and "buf = map (memory (run_getSize features [(ws, ps, pc, time)] j)) [dataBase j..<dataBase j + unat (dataSize j)]"
  shows "\<exists>h. header_at buf 0 = Inr h \<and> decodeTargetData decoder (dataSize j) (cookieValue j) buf 0 h =
    Inr (Some ([0, 0, 0, 0] @ (if k = 1 then xs @ ys else xs)))"
proof -
  obtain j' where j': "cookieValue j' = cookieValue j"
      "memory (run_getSize features [(ws, ps, pc, time)] j) = write_bytes (dataBase j) (argument_bytes features (ws, ps, pc, time) j') (memory j)"
    using run_getSize_memory [of "[(ws, ps, pc, time)]" j features] assms(6) by (auto simp: list_all2_Cons1)
  let ?bs = "argument_bytes features (ws, ps, pc, time) j'"
  have "length ?bs \<le> unat (dataSize j)" using assms(6) by simp
  note copy = copy_of_segment [OF this, of "dataBase j" "memory j"]
  have buf: "buf = [] @ ?bs @ map (memory j) [dataBase j + length ?bs..<dataBase j + unat (dataSize j)]"
    unfolding assms(7) j'(2) copy by simp
  have dropped: "payload prev (xs @ end_mark # ys) = xs @ ys" if "prev \<noteq> end_mark \<or> xs \<noteq> []" for prev
    using that assms(2,3) by (induction xs arbitrary: prev) (auto simp: payload_plain)
  have cut: "payload prev (xs @ end_mark # end_mark # ys) = xs" for prev
    using assms(2) by (induction xs arbitrary: prev) auto
  have "(0 :: u64) \<noteq> end_mark" by (simp add: end_mark_def)
  then have "payload 0 ws = (if k = 1 then xs @ ys else xs)" using assms(4) dropped cut by (auto simp: assms(5) numeral_2_eq_2)
  then show ?thesis
    using decode_argument [OF assms(1) list.size(3) less_imp_le [OF assms(6)] buf] j'(1) by auto
qed

theorem sentinel_in_data_witness:
  "\<exists>h. header_at (map (memory (run_getSize {} [([3, end_mark, 5], 0, 0, 0)] empty_segment)) [dataBase empty_segment..<dataBase empty_segment + unat (dataSize empty_segment)]) 0 = Inr h \<and>
    decodeTargetData varint_of (dataSize empty_segment) (cookieValue empty_segment)
      (map (memory (run_getSize {} [([3, end_mark, 5], 0, 0, 0)] empty_segment)) [dataBase empty_segment..<dataBase empty_segment + unat (dataSize empty_segment)]) 0 h =
    Inr (Some [0, 0, 0, 0, 3, 5])"
proof -
  have plain: "end_mark \<notin> set [3]" "end_mark \<notin> set [5]" by (simp_all add: end_mark_def)
  have eq: "[3, end_mark, 5] = [3] @ replicate 1 end_mark @ [5]" by simp
  have size: "segment_size [3, end_mark, 5] < unat (dataSize empty_segment)"
    using segment_size_bound [of "[3, end_mark, 5]"] by (simp add: empty_segment_def)
  note run = sentinel_in_data [OF varint_of_takes plain _ eq size refl]
  show ?thesis using run [where features = "{}" and ps = 0 and pc = 0 and time = 0] by simp
qed

end
