(* ===== verification/Spec2Isabelle.thy ===== *)
theory Spec2Isabelle
  imports Transform CodeGen PointerSet Exporters DataPath
begin

text \<open>
  Object Introspection: a verification library for the type graph, its passes, and the reading of introspection results.

  \<^bold>\<open>The program.\<close> Object Introspection measures the objects of a running C++ program. It reads the debug
  information of a type into a graph (\<^verbatim>\<open>oi/type_graph/DrgnParser.cpp\<close>), runs passes over the graph
  (\<^verbatim>\<open>oi/type_graph/*.cpp\<close>, in the order of \<^verbatim>\<open>CodeGen::transform\<close>), prints C++ code for the types of the
  graph, compiles it and runs it on the object. The code writes a data segment whose layout the static types of
  \<^verbatim>\<open>include/oi/types/st.h\<close> fix; the instructions of \<^verbatim>\<open>include/oi/exporters/inst.h\<close> say how to read it back, and
  \<^verbatim>\<open>IntrospectionResult\<close> does so, element by element, for \<^verbatim>\<open>SizedResult\<close> and the exporters. The
  debugger of the first generation stops the process instead, copies the segment and builds a tree from it
  (\<^verbatim>\<open>oi/OIDebugger.cpp\<close>, \<^verbatim>\<open>oi/TreeBuilder.cpp\<close>).

  \<^bold>\<open>Conventions.\<close> What can go wrong is a value: \<open>'a outcome\<close> is an error (an exception, \<^verbatim>\<open>abort\<close>, a failed
  \<^verbatim>\<open>assert\<close>, undefined behaviour, no end) or a result. The statement \<open>spec E m P\<close> says that \<open>m\<close> returns with \<open>P\<close> or
  fails with an error of \<open>E\<close>; no \<open>E\<close> here contains \<open>Diverge\<close>, so that every such theorem is one of
  termination. Every \<^verbatim>\<open>assert\<close> is taken as active, as in a build with assertions: a release build goes on where the model
  has \<open>AssertFailed\<close>. A \<^verbatim>\<open>size_t\<close> or \<^verbatim>\<open>uint64_t\<close> is a \<open>64 word\<close>. A node of the graph is a record or a
  datatype value in the list that owns it, a reference to it its position; a pass is a function from graph to graph. Virtual
  recursion (\<^verbatim>\<open>accept\<close> calls \<^verbatim>\<open>visit\<close> calls \<^verbatim>\<open>accept\<close>) is \<open>recur body n\<close>, where \<open>n\<close> bounds the depth and a deeper
  recursion is \<open>Diverge\<close>.

  \<^bold>\<open>Theories.\<close>
  \<^item> \<open>OI_Prelude\<close>: outcomes, their specifications, loops over vectors, recursion cut off at a depth (locale
    \<open>ranked_recursion\<close>), decimal numbers.
  \<^item> \<open>Features\<close> (\<^verbatim>\<open>oi/EnumBitset.h\<close>, \<^verbatim>\<open>oi/Features.cpp\<close>): bitsets, names, and the resolution of requirements and
    conflicts, which computes the least closed superset.
  \<^item> \<open>TG_Types\<close>, \<open>TG_Graph\<close> (\<^verbatim>\<open>Types.h\<close>, \<^verbatim>\<open>TypeGraph.h\<close>, \<^verbatim>\<open>ContainerInfo.h\<close>): nodes, graphs, sizes, alignments, names,
    the removal of typedefs, and the well-formedness of graphs (\<open>wf_graph\<close>). Chains of typedefs, arrays and the
    like are followed \<open>chain_depth\<close> deep, one more than there are nodes: a chain that is longer has a cycle (locale
    \<open>reference_chain\<close>).
  \<^item> \<open>Visitor\<close>, \<open>NodeTracker\<close>, \<open>MapPass\<close>, \<open>GrowingPass\<close>: the recursive visitor, the trackers (locale \<open>marks\<close>), and
    the contracts of the walks: \<open>walk_frame\<close>, \<open>node_walk\<close>, \<open>node_pass\<close>, \<open>map_pass\<close> for those that change the
    node they are on, \<open>growing_walk\<close> for those that add nodes.
  \<^item> \<open>DrgnParser\<close>: from debug information to a graph. The library drgn is a record of its answers, \<^verbatim>\<open>std::sort\<close> a
    parameter where elements compare equal. The graph says what the debug information says
    (\<open>represents\<close>, coinductive since types are cyclic); fuel above \<open>card D * Suc M + M\<close> is enough, for \<open>D\<close> the types
    and \<open>M\<close> a bound on the links between two classes.
  \<^item> \<open>AddChildren\<close>: the derived classes the debug information lists, found by the unqualified names of their
    parents and parsed by a second parser. Its depth counts \<open>Suc M\<close> for each node the graph had and each type.
  \<^item> \<open>LocalPasses\<close>: RemoveTopLevelPointer, RemoveMembers, EnforceCompatibility, Prune; \<open>IdentifyContainers\<close>,
    \<open>Flattener\<close>, \<open>AlignmentCalc\<close>, \<open>TypeIdentifier\<close>, \<open>KeyCapture\<close>, \<open>AddPadding\<close>, \<open>NameGen\<close>, \<open>TopoSorter\<close>: one pass
    each, with its termination on cyclic graphs, what it does to every node it reaches, and that it leaves the others. For the
    flattener that is what each parent gives to a class (\<open>gift\<close>) and how it is merged into it (\<open>merged\<close>, by stable sorting). The depth of
    a walk is \<open>chain_depth\<close> where every node is marked; \<open>kc_depth\<close> and \<open>ti_depth\<close> allow for the new nodes,
    \<open>topo_fuel\<close> for the delayed types of the sorter, \<open>ic_depth\<close> for the types between two classes.
  \<^item> \<open>Transform\<close> (\<^verbatim>\<open>CodeGen.cpp\<close>, \<^verbatim>\<open>PassManager.cpp\<close>): the registration of containers and the passes in their order. A pass has
    a contract, a pre- and a postcondition on the graph, and the contracts of the list compose; a rank on references (\<open>linked\<close>)
    takes the place of the hypotheses of the single passes on chains that end.
  \<^item> \<open>DataSegment\<close> (\<^verbatim>\<open>st.h\<close>, \<^verbatim>\<open>dy.h\<close>, \<^verbatim>\<open>ParsedData\<close>): writing and reading are inverse; \<open>TypeWalker\<close>
    (\<^verbatim>\<open>TypeCheckingWalker.cpp\<close>).
  \<^item> \<open>Introspection\<close> (\<^verbatim>\<open>IntrospectionResult\<close>): the loop over the iterator, with its path and its stack, is the
    traversal the instructions denote; \<open>ResultForest\<close>, \<open>SizedResult\<close>: elements are the nodes of a forest in
    preorder, sizes the sums of subtrees; \<open>Exporters\<close>: CSV and Json.
  \<^item> \<open>PointerSet\<close> (\<^verbatim>\<open>PointerHashSet\<close> of \<^verbatim>\<open>OITraceCode.cpp\<close>): open addressing implements a bounded set (locale
    \<open>bounded_set\<close>).
  \<^item> \<open>CodeGen\<close> (\<^verbatim>\<open>CodeGen.cpp\<close>): the text for the types of a graph. For a class it is a static type, a function and
    instructions; the text denotes a type, calls and fields that fit each other, so that what is written is read back, as one value by
    the description of the type and entry by entry by the fields. For a dynamic class it is also a lookup by vtables (\<open>vtable_test\<close>).
  \<^item> \<open>TreeBuilder\<close> (\<^verbatim>\<open>TreeBuilder.cpp\<close>): the debugger's reader, which builds the tree of an object in a database and
    prints it; drgn and the database are a record of answers and a map. \<open>TreeNames\<close>: nodes keep their names.
    \<open>StoredTree\<close>: a run of \<^verbatim>\<open>process\<close> (locale \<open>tree_process\<close>) leaves a stored tree under the ids it hands out, whose exclusive sizes account for every byte, and
    \<^verbatim>\<open>dumpJson\<close> prints the trees. \<open>TreeEnds\<close>: the recursion is no deeper than \<open>Suc M\<close> for each word of the data and
    \<open>M\<close> more, for \<open>M\<close> a bound on the types between two words.
  \<^item> \<open>TargetData\<close> (\<^verbatim>\<open>FuncGen.cpp\<close>, \<^verbatim>\<open>OIDebugger.cpp\<close>): the functions that store the words of an argument in the data
    segment, and \<^verbatim>\<open>decodeTargetData\<close> and \<^verbatim>\<open>processTargetData\<close>, which read a copy of it; the decoder of folly is a
    parameter. \<open>DataPath\<close>: writing, reading, building and printing composed, for all arguments of a request.

  \<^bold>\<open>Not modelled.\<close> The fixed C++ text (\<^verbatim>\<open>CodeGen::generate\<close>, the rest of \<^verbatim>\<open>FuncGen\<close>) and the first code generator
    (\<^verbatim>\<open>OICodeGen\<close>); what drives other processes, object files, clang or drgn (the rest of \<^verbatim>\<open>OIDebugger\<close>,
    \<^verbatim>\<open>OICompiler\<close>, \<^verbatim>\<open>SymbolService\<close>, \<^verbatim>\<open>ClangTypeParser\<close>, \<^verbatim>\<open>DrgnExporter\<close>, \<^verbatim>\<open>OICache\<close>, \<^verbatim>\<open>Serialize\<close>); command lines,
    configuration files, logging and metrics. Identifiers of nodes are unbounded. What the destructor of \<^verbatim>\<open>DrgnParserError\<close> does to
  the error it shares with a copy is not modelled.
\<close>

end
